(* ===== verification/Prelude.thy ===== *)
theory Prelude
  imports Main "HOL-Library.Word"
begin

section \<open>Shared vocabulary of the development\<close>

text \<open>
  The named fact collections, type synonyms and generic lemmas that the component
  theories share.  Machine integers of the kernel are either words (\<open>u8\<close> to \<open>u64\<close>,
  where the code works bitwise) or naturals with the wrap-around at \<open>2 ^ 64\<close> or
  \<open>2 ^ 32\<close> written out (where the code computes addresses and sizes).
\<close>

type_synonym u8 = "8 word"
type_synonym u16 = "16 word"
type_synonym u32 = "32 word"
type_synonym u64 = "64 word"
type_synonym i32 = int
type_synonym i64 = int

named_theorems frame_simps
  \<comment> \<open>which part of a state an operation leaves alone\<close>
named_theorems inv_intros
  \<comment> \<open>every operation keeps its component's invariant\<close>
named_theorems eval_simps
  \<comment> \<open>equations that evaluate closed terms\<close>

text \<open>The bytes of a C string literal, without the terminator.\<close>
definition bytes_of :: "string \<Rightarrow> u8 list" where
  "bytes_of s = map (\<lambda>c. word_of_nat (of_char c)) s"

subsection \<open>Lists as fixed-size C arrays\<close>

text \<open>
  \<open>first_idx P i n\<close> is the C search loop \<open>for (j = i; j < n; j++) if (P(j)) break;\<close>,
  with \<open>None\<close> when no index is found.
\<close>

function first_idx :: "(nat \<Rightarrow> bool) \<Rightarrow> nat \<Rightarrow> nat \<Rightarrow> nat option" where
  "first_idx P i n = (if i < n then if P i then Some i else first_idx P (Suc i) n else None)"
  by pat_completeness auto
termination
  by (relation "measure (\<lambda>(P, i, n). n - i)") auto

declare first_idx.simps [simp del]

lemma first_idx_Some:
  "first_idx P i n = Some j \<Longrightarrow> i \<le> j \<and> j < n \<and> P j \<and> (\<forall>k. i \<le> k \<longrightarrow> k < j \<longrightarrow> \<not> P k)"
proof (induction P i n rule: first_idx.induct)
  case (1 P i n)
  show ?case
  proof (cases "i < n \<and> \<not> P i")
    case True
    with "1.prems" have "first_idx P (Suc i) n = Some j"
      by (simp add: first_idx.simps [of P i n])
    with True "1.IH" have "Suc i \<le> j \<and> j < n \<and> P j \<and> (\<forall>k. Suc i \<le> k \<longrightarrow> k < j \<longrightarrow> \<not> P k)"
      by simp
    with True show ?thesis
      by (metis Suc_leD le_antisym not_less_eq_eq)
  next
    case False
    with "1.prems" show ?thesis
      by (auto simp: first_idx.simps [of P i n] split: if_splits)
  qed
qed

lemma first_idx_None: "first_idx P i n = None \<longleftrightarrow> (\<forall>k. i \<le> k \<longrightarrow> k < n \<longrightarrow> \<not> P k)"
proof (induction P i n rule: first_idx.induct)
  case (1 P i n)
  show ?case
  proof (cases "i < n \<and> \<not> P i")
    case True
    with "1.IH" show ?thesis
      by (subst first_idx.simps) (auto simp: Suc_le_eq, metis le_neq_implies_less)
  next
    case False
    then show ?thesis
      by (subst first_idx.simps) auto
  qed
qed

lemma first_idx_cong:
  "(\<And>k. i \<le> k \<Longrightarrow> k < n \<Longrightarrow> P k = Q k) \<Longrightarrow> first_idx P i n = first_idx Q i n"
proof (induction P i n rule: first_idx.induct)
  case (1 P i n)
  then show ?case
    by (subst (1 2) first_idx.simps) auto
qed

end
