(* ===== verification/CMem.thy ===== *)
theory CMem
  imports Prelude
begin

section \<open>Byte-addressed memory\<close>

text \<open>
  The kernel's heap is raw memory: block headers, user data and the back pointer that
  \<open>kmalloc_aligned\<close> leaves are reads and writes of the same bytes.  Memory is a function
  from addresses to bytes; \<open>ld m a n\<close> reads an \<open>n\<close>-byte little-endian unsigned integer,
  \<open>st m a n v\<close> writes one (x86-64 is little-endian and allows unaligned accesses).
\<close>

type_synonym mem = "nat \<Rightarrow> u8"

fun ld :: "mem \<Rightarrow> nat \<Rightarrow> nat \<Rightarrow> nat" where
  "ld m a 0 = 0"
| "ld m a (Suc n) = unat (m a) + 256 * ld m (Suc a) n"

fun st :: "mem \<Rightarrow> nat \<Rightarrow> nat \<Rightarrow> nat \<Rightarrow> mem" where
  "st m a 0 v = m"
| "st m a (Suc n) v = st (m(a := word_of_nat v)) (Suc a) n (v div 256)"

lemma ld_numeral [eval_simps]:
  "ld m a (numeral k) = unat (m a) + 256 * ld m (Suc a) (pred_numeral k)"
  unfolding numeral_eq_Suc [of k] by (rule ld.simps)

lemma st_numeral [eval_simps]:
  "st m a (numeral k) v = st (m(a := word_of_nat v)) (Suc a) (pred_numeral k) (v div 256)"
  unfolding numeral_eq_Suc [of k] by (rule st.simps)

lemma st_outside: "x < a \<or> a + n \<le> x \<Longrightarrow> st m a n v x = m x"
  by (induction n arbitrary: m a v) auto

lemma ld_cong: "(\<And>x. a \<le> x \<Longrightarrow> x < a + n \<Longrightarrow> m x = m' x) \<Longrightarrow> ld m a n = ld m' a n"
proof (induction n arbitrary: a)
  case 0
  then show ?case by simp
next
  case (Suc n)
  have "ld m (Suc a) n = ld m' (Suc a) n"
    by (rule Suc.IH) (simp add: Suc.prems)
  then show ?case by (simp add: Suc.prems)
qed

lemma ld_st_disjoint [simp]:
  "b + k \<le> a \<or> a + n \<le> b \<Longrightarrow> ld (st m a n v) b k = ld m b k"
  by (rule ld_cong) (auto simp: st_outside)

lemma ld_st_same [simp]: "ld (st m a n v) a n = v mod 256 ^ n"
proof (induction n arbitrary: m a v)
  case 0
  then show ?case by simp
next
  case (Suc n)
  have "st (m(a := word_of_nat v)) (Suc a) n (v div 256) a = word_of_nat v"
    by (simp add: st_outside)
  moreover have "unat (word_of_nat v :: u8) = v mod 256"
    by (simp add: unat_of_nat)
  moreover have "v mod 256 ^ Suc n = v mod 256 + 256 * (v div 256 mod 256 ^ n)"
    using mod_mult2_eq [of v 256 "256 ^ n"] by simp
  ultimately show ?case using Suc.IH by simp
qed

lemma ld_bound: "ld m a n < 256 ^ n"
proof (induction n arbitrary: a)
  case 0
  then show ?case by simp
next
  case (Suc n)
  have "unat (m a) < 256" using unsigned_less [of "m a", where ?'a = nat] by simp
  moreover have "ld m (Suc a) n < 256 ^ n" by (rule Suc.IH)
  ultimately have "unat (m a) + 256 * ld m (Suc a) n < 256 * 256 ^ n"
    by linarith
  then show ?case by simp
qed

text \<open>Memory agreement on an address range, the frame condition of the heap operations.\<close>

definition same_on :: "nat set \<Rightarrow> mem \<Rightarrow> mem \<Rightarrow> bool" where
  "same_on A m m' \<longleftrightarrow> (\<forall>x\<in>A. m' x = m x)"

lemma same_on_refl [simp]: "same_on A m m"
  by (simp add: same_on_def)

lemma same_on_trans: "same_on A m m' \<Longrightarrow> same_on A m' m'' \<Longrightarrow> same_on A m m''"
  by (simp add: same_on_def)

lemma same_on_mono: "same_on A m m' \<Longrightarrow> B \<subseteq> A \<Longrightarrow> same_on B m m'"
  by (auto simp: same_on_def)

lemma same_on_ld: "same_on A m m' \<Longrightarrow> {a ..< a + n} \<subseteq> A \<Longrightarrow> ld m' a n = ld m a n"
  by (rule ld_cong) (auto simp: same_on_def)

lemma same_on_st: "A \<inter> {a ..< a + n} = {} \<Longrightarrow> same_on A m (st m a n v)"
  by (auto simp: same_on_def st_outside disjoint_iff)

end
