(* ===== verification/Kmalloc.thy ===== *)
theory Kmalloc
  imports CMem
begin

unbundle bit_operations_syntax

section \<open>The kernel heap: \<open>src/src/kmalloc.c\<close>\<close>

text \<open>
  The allocator keeps a linked list of block headers inside the memory it manages.  The
  definitions below are the C functions over byte memory: a \<open>block_header_t\<close> occupies
  32 bytes (\<open>magic\<close> at 0, \<open>size\<close> at 8, the 32-bit \<open>free\<close> at 16, four bytes of padding,
  \<open>next\<close> at 24), pointers and \<open>size_t\<close> values are naturals below \<open>2 ^ 64\<close>, and \<open>NULL\<close>
  is 0.  The abstract view is a list of blocks in address order (\<open>blk list\<close>), on which
  allocation is first fit and freeing is marking plus merging; the lemmas show that the
  pointer code implements it.
\<close>

subsection \<open>Definitions\<close>

definition HEAP_MAGIC :: nat where "HEAP_MAGIC = 0xC4FE"
definition MIN_SPLIT :: nat where "MIN_SPLIT = 32"
definition HEAP_WALK_MAX :: nat where "HEAP_WALK_MAX = 65536"

text \<open>\<open>sizeof(block_header_t)\<close> on x86-64.\<close>
definition HDR :: nat where "HDR = 32"

text \<open>\<open>uint64_t\<close> arithmetic.\<close>
abbreviation M64 :: nat where "M64 \<equiv> 2 ^ 64"
abbreviation M32 :: nat where "M32 \<equiv> 2 ^ 32"

definition add64 :: "nat \<Rightarrow> nat \<Rightarrow> nat" where "add64 x y = (x + y) mod M64"
definition sub64 :: "nat \<Rightarrow> nat \<Rightarrow> nat" where "sub64 x y = (x + (M64 - y)) mod M64"

text \<open>The \<open>ALIGN(n,a)\<close> macro: \<open>((n) + (a) - 1) & ~((a) - 1)\<close> in 64 bits.\<close>
definition ALIGN :: "nat \<Rightarrow> nat \<Rightarrow> nat" where
  "ALIGN n a = unat ((word_of_nat n + word_of_nat a - 1 :: u64)
                 AND NOT (word_of_nat a - 1))"

record heap =
  hmem :: mem
  heap_start :: nat
  heap_total :: nat

definition hdr_magic :: "mem \<Rightarrow> nat \<Rightarrow> nat" where "hdr_magic m p = ld m p 8"
definition hdr_size :: "mem \<Rightarrow> nat \<Rightarrow> nat" where "hdr_size m p = ld m (p + 8) 8"
definition hdr_free :: "mem \<Rightarrow> nat \<Rightarrow> nat" where "hdr_free m p = ld m (p + 16) 4"
definition hdr_next :: "mem \<Rightarrow> nat \<Rightarrow> nat" where "hdr_next m p = ld m (p + 24) 8"

definition set_magic :: "mem \<Rightarrow> nat \<Rightarrow> nat \<Rightarrow> mem" where "set_magic m p v = st m p 8 v"
definition set_size :: "mem \<Rightarrow> nat \<Rightarrow> nat \<Rightarrow> mem" where "set_size m p v = st m (p + 8) 8 v"
definition set_free :: "mem \<Rightarrow> nat \<Rightarrow> nat \<Rightarrow> mem" where "set_free m p v = st m (p + 16) 4 v"
definition set_next :: "mem \<Rightarrow> nat \<Rightarrow> nat \<Rightarrow> mem" where "set_next m p v = st m (p + 24) 8 v"

definition heap_end :: "heap \<Rightarrow> nat" where
  "heap_end h = add64 (add64 (heap_start h) (heap_total h)) HDR"

definition heap_header_valid :: "heap \<Rightarrow> nat \<Rightarrow> bool" where
  "heap_header_valid h p \<longleftrightarrow>
     p \<noteq> 0 \<and> heap_start h \<noteq> 0 \<and> heap_start h \<le> p \<and> p \<le> sub64 (heap_end h) HDR \<and> p mod 8 = 0"

definition heap_init :: "heap \<Rightarrow> nat \<Rightarrow> nat \<Rightarrow> heap" where
  "heap_init h start_addr sz =
     (let aligned = ALIGN start_addr 16 in
      if sz < HDR + 16 then h
      else
        let sz = sub64 sz (sub64 aligned start_addr);
            m = set_magic (hmem h) aligned HEAP_MAGIC;
            m = set_size m aligned (sub64 sz HDR);
            m = set_free m aligned 1;
            m = set_next m aligned 0
        in h\<lparr>hmem := m, heap_start := aligned, heap_total := hdr_size m aligned mod M32\<rparr>)"

text \<open>
  \<open>coalesce\<close>: the loop counts its iterations in \<open>seen\<close> and gives up at
  \<open>HEAP_WALK_MAX\<close>, or at the first invalid or unmarked header.
\<close>
function coalesce_loop :: "heap \<Rightarrow> nat \<Rightarrow> nat \<Rightarrow> heap" where
  "coalesce_loop h cur seen =
     (let m = hmem h; nxt = hdr_next m cur in
      if cur \<noteq> 0 \<and> nxt \<noteq> 0 \<and> seen < HEAP_WALK_MAX then
        if \<not> heap_header_valid h cur \<or> \<not> heap_header_valid h nxt
           \<or> hdr_magic m cur \<noteq> HEAP_MAGIC \<or> hdr_magic m nxt \<noteq> HEAP_MAGIC then h
        else if hdr_free m cur \<noteq> 0 \<and> hdr_free m nxt \<noteq> 0 then
          (let m = set_size m cur (add64 (hdr_size m cur) (add64 HDR (hdr_size m nxt)));
               m = set_next m cur (hdr_next m nxt)
           in coalesce_loop (h\<lparr>hmem := m\<rparr>) cur (Suc seen))
        else coalesce_loop h nxt (Suc seen)
      else h)"
  by pat_completeness auto
termination
  by (relation "measure (\<lambda>(h, cur, seen). HEAP_WALK_MAX - seen)") auto

declare coalesce_loop.simps [simp del]

definition coalesce :: "heap \<Rightarrow> heap" where
  "coalesce h = coalesce_loop h (heap_start h) 0"

text \<open>The body of \<open>kmalloc\<close>'s loop once a fitting block is found.\<close>
definition take_block :: "mem \<Rightarrow> nat \<Rightarrow> nat \<Rightarrow> mem" where
  "take_block m cur sz =
     (let m = (if hdr_size m cur \<ge> add64 (add64 sz HDR) MIN_SPLIT then
                 let newb = add64 (add64 cur HDR) sz;
                     m' = set_magic m newb HEAP_MAGIC;
                     m' = set_size m' newb (sub64 (sub64 (hdr_size m' cur) sz) HDR);
                     m' = set_free m' newb 1;
                     m' = set_next m' newb (hdr_next m' cur);
                     m' = set_next m' cur newb
                 in set_size m' cur sz
               else m)
      in set_free m cur 0)"

function kmalloc_loop :: "heap \<Rightarrow> nat \<Rightarrow> nat \<Rightarrow> nat \<Rightarrow> heap \<times> nat" where
  "kmalloc_loop h sz cur seen =
     (if cur \<noteq> 0 \<and> seen < HEAP_WALK_MAX then
        if \<not> heap_header_valid h cur \<or> hdr_magic (hmem h) cur \<noteq> HEAP_MAGIC then (h, 0)
        else if hdr_free (hmem h) cur \<noteq> 0 \<and> hdr_size (hmem h) cur \<ge> sz then
          (h\<lparr>hmem := take_block (hmem h) cur sz\<rparr>, add64 cur HDR)
        else kmalloc_loop h sz (hdr_next (hmem h) cur) (Suc seen)
      else (h, 0))"
  by pat_completeness auto
termination
  by (relation "measure (\<lambda>(h, sz, cur, seen). HEAP_WALK_MAX - seen)") auto

declare kmalloc_loop.simps [simp del]

definition kmalloc :: "heap \<Rightarrow> nat \<Rightarrow> heap \<times> nat" where
  "kmalloc h sz =
     (if heap_start h = 0 \<or> sz = 0 then (h, 0)
      else kmalloc_loop h (ALIGN sz 8) (heap_start h) 0)"

definition kmalloc_aligned :: "heap \<Rightarrow> nat \<Rightarrow> nat \<Rightarrow> heap \<times> nat" where
  "kmalloc_aligned h sz align =
     (if align \<le> 8 then kmalloc h sz
      else case kmalloc h (add64 (add64 sz align) 8) of (h', raw) \<Rightarrow>
        if raw = 0 then (h', 0)
        else
          let addr = ALIGN (add64 raw 8) align
          in (h'\<lparr>hmem := st (hmem h') (sub64 addr 8) 8 raw\<rparr>, addr))"

text \<open>The header \<open>kfree\<close> settles on for a pointer, \<open>None\<close> where it returns early.\<close>
definition kfree_header :: "heap \<Rightarrow> nat \<Rightarrow> nat option" where
  "kfree_header h p =
     (let start = heap_start h; e = heap_end h in
      if p = 0 \<or> start = 0 then None
      else if p < add64 start HDR \<or> p \<ge> e then None
      else
        let hdr = sub64 p HDR in
        if \<not> heap_header_valid h hdr \<or> hdr_magic (hmem h) hdr \<noteq> HEAP_MAGIC then
          if p < add64 start 8 then None
          else let rp = ld (hmem h) (sub64 p 8) 8 in
            if rp < add64 start HDR \<or> rp \<ge> e then None else Some (sub64 rp HDR)
        else Some hdr)"

definition kfree :: "heap \<Rightarrow> nat \<Rightarrow> heap" where
  "kfree h p =
     (case kfree_header h p of
        None \<Rightarrow> h
      | Some hdr \<Rightarrow>
          if \<not> heap_header_valid h hdr \<or> hdr_magic (hmem h) hdr \<noteq> HEAP_MAGIC
             \<or> hdr_free (hmem h) hdr \<noteq> 0 then h
          else coalesce (h\<lparr>hmem := set_free (hmem h) hdr 1\<rparr>))"

text \<open>The unbounded list walk of \<open>heap_free_bytes\<close>; \<open>None\<close> when it never returns.\<close>
partial_function (option) free_bytes_loop :: "mem \<Rightarrow> nat \<Rightarrow> nat \<Rightarrow> nat option" where
  "free_bytes_loop m cur tot =
     (if cur = 0 then Some tot
      else free_bytes_loop m (hdr_next m cur)
             (if hdr_free m cur \<noteq> 0 then (tot + hdr_size m cur) mod M32 else tot))"

definition heap_free_bytes :: "heap \<Rightarrow> nat option" where
  "heap_free_bytes h = free_bytes_loop (hmem h) (heap_start h) 0"

definition heap_used_bytes :: "heap \<Rightarrow> nat option" where
  "heap_used_bytes h = map_option (\<lambda>f. (heap_total h + (M32 - f)) mod M32) (heap_free_bytes h)"


subsection \<open>Machine arithmetic\<close>

lemma unat_and_not_mask: "unat (w AND NOT (mask k) :: 'a::len word) = unat w - unat w mod 2 ^ k"
proof -
  have split: "(w AND mask k) + (w AND NOT (mask k)) = w"
    by (subst disjunctive_add) (auto simp: bit_simps intro!: bit_eqI)
  have "w AND mask k \<le> w"
    by (rule word_and_le2)
  then have "unat (w - (w AND mask k)) = unat w - unat (w AND mask k)"
    by (rule unat_sub)
  moreover have "w AND NOT (mask k) = w - (w AND mask k)"
    using split by (metis add_diff_cancel_left')
  moreover have "unat (w AND mask k) = take_bit k (unat w)"
    by (simp only: take_bit_eq_mask [symmetric] unsigned_take_bit_eq)
  ultimately show ?thesis by (simp add: take_bit_eq_mod)
qed

lemma ALIGN_pow2:
  assumes "k < 64"
  shows "ALIGN n (2 ^ k) = (let x = (n + 2 ^ k - 1) mod M64 in x - x mod 2 ^ k)"
proof -
  have a: "(word_of_nat (2 ^ k) :: u64) - 1 = mask k"
    by (simp add: mask_eq_exp_minus_1)
  have "(word_of_nat (n + 2 ^ k - 1) :: u64) = word_of_nat (n + 2 ^ k) - word_of_nat 1"
    by (rule of_nat_diff) (simp add: Suc_leI)
  then have "(word_of_nat n + word_of_nat (2 ^ k) - 1 :: u64) = word_of_nat (n + 2 ^ k - 1)"
    by simp
  moreover have "unat (word_of_nat (n + 2 ^ k - 1) :: u64) = (n + 2 ^ k - 1) mod M64"
    by (simp only: unat_of_nat) simp
  ultimately show ?thesis
    unfolding ALIGN_def a by (simp only: unat_and_not_mask Let_def)
qed

lemmas ALIGN_8 = ALIGN_pow2 [of 3, simplified]
lemmas ALIGN_16 = ALIGN_pow2 [of 4, simplified]

lemma ALIGN_pow2_dvd: "k < 64 \<Longrightarrow> ALIGN n (2 ^ k) mod 2 ^ k = 0"
  by (simp add: ALIGN_pow2 Let_def minus_mod_eq_mult_div)

lemma ALIGN_pow2_ge:
  assumes "k < 64" "n + 2 ^ k - 1 < M64"
  shows "n \<le> ALIGN n (2 ^ k)" "ALIGN n (2 ^ k) < n + 2 ^ k"
proof -
  let ?x = "n + 2 ^ k - 1"
  have "ALIGN n (2 ^ k) = ?x - ?x mod 2 ^ k"
    using assms by (simp add: ALIGN_pow2)
  moreover have "?x mod 2 ^ k < 2 ^ k" by simp
  ultimately show "n \<le> ALIGN n (2 ^ k)" "ALIGN n (2 ^ k) < n + 2 ^ k"
    by linarith+
qed

lemma add64_small: "x + y < M64 \<Longrightarrow> add64 x y = x + y"
  by (simp add: add64_def)

lemma sub64_small: "y \<le> x \<Longrightarrow> x < M64 \<Longrightarrow> sub64 x y = x - y"
proof -
  assume "y \<le> x" "x < M64"
  then have "x + (M64 - y) = M64 + (x - y)" by simp
  with \<open>x < M64\<close> show ?thesis
    by (simp only: sub64_def mod_add_self1) simp
qed

subsection \<open>Header fields\<close>

lemmas hdr_defs = hdr_magic_def hdr_size_def hdr_free_def hdr_next_def
  set_magic_def set_size_def set_free_def set_next_def HDR_def

lemma hdr_set_same [simp]:
  "hdr_magic (set_magic m p v) p = v mod M64"
  "hdr_size (set_size m p v) p = v mod M64"
  "hdr_free (set_free m p v) p = v mod M32"
  "hdr_next (set_next m p v) p = v mod M64"
  by (simp_all add: hdr_defs)

lemma hdr_set_other_field [simp]:
  "hdr_magic (set_size m p v) p = hdr_magic m p" "hdr_magic (set_free m p v) p = hdr_magic m p"
  "hdr_magic (set_next m p v) p = hdr_magic m p"
  "hdr_size (set_magic m p v) p = hdr_size m p" "hdr_size (set_free m p v) p = hdr_size m p"
  "hdr_size (set_next m p v) p = hdr_size m p"
  "hdr_free (set_magic m p v) p = hdr_free m p" "hdr_free (set_size m p v) p = hdr_free m p"
  "hdr_free (set_next m p v) p = hdr_free m p"
  "hdr_next (set_magic m p v) p = hdr_next m p" "hdr_next (set_size m p v) p = hdr_next m p"
  "hdr_next (set_free m p v) p = hdr_next m p"
  by (simp_all add: hdr_defs)

lemma same_on_set:
  assumes "A \<inter> {p ..< p + HDR} = {}"
  shows "same_on A m (set_magic m p v)" "same_on A m (set_size m p v)"
    "same_on A m (set_free m p v)" "same_on A m (set_next m p v)"
proof -
  have "A \<inter> {p ..< p + 8} = {}" "A \<inter> {p + 8 ..< p + 8 + 8} = {}"
    "A \<inter> {p + 16 ..< p + 16 + 4} = {}" "A \<inter> {p + 24 ..< p + 24 + 8} = {}"
    using assms by (auto simp: HDR_def disjoint_iff)
  then show "same_on A m (set_magic m p v)" "same_on A m (set_size m p v)"
    "same_on A m (set_free m p v)" "same_on A m (set_next m p v)"
    by (simp_all add: hdr_defs same_on_st)
qed

lemma same_on_hdr:
  assumes "same_on A m m'" "{p ..< p + HDR} \<subseteq> A"
  shows "hdr_magic m' p = hdr_magic m p" "hdr_size m' p = hdr_size m p"
    "hdr_free m' p = hdr_free m p" "hdr_next m' p = hdr_next m p"
proof -
  have "{p ..< p + 8} \<subseteq> A" "{p + 8 ..< p + 8 + 8} \<subseteq> A"
    "{p + 16 ..< p + 16 + 4} \<subseteq> A" "{p + 24 ..< p + 24 + 8} \<subseteq> A"
    using assms(2) by (auto simp: HDR_def subset_iff)
  then show "hdr_magic m' p = hdr_magic m p" "hdr_size m' p = hdr_size m p"
    "hdr_free m' p = hdr_free m p" "hdr_next m' p = hdr_next m p"
    using same_on_ld [OF assms(1)] by (simp_all add: hdr_defs)
qed

lemma hdr_set_far [simp]:
  assumes "q + HDR \<le> p \<or> p + HDR \<le> q"
  shows "hdr_magic (set_magic m p v) q = hdr_magic m q" "hdr_magic (set_size m p v) q = hdr_magic m q"
    "hdr_magic (set_free m p v) q = hdr_magic m q" "hdr_magic (set_next m p v) q = hdr_magic m q"
    "hdr_size (set_magic m p v) q = hdr_size m q" "hdr_size (set_size m p v) q = hdr_size m q"
    "hdr_size (set_free m p v) q = hdr_size m q" "hdr_size (set_next m p v) q = hdr_size m q"
    "hdr_free (set_magic m p v) q = hdr_free m q" "hdr_free (set_size m p v) q = hdr_free m q"
    "hdr_free (set_free m p v) q = hdr_free m q" "hdr_free (set_next m p v) q = hdr_free m q"
    "hdr_next (set_magic m p v) q = hdr_next m q" "hdr_next (set_size m p v) q = hdr_next m q"
    "hdr_next (set_free m p v) q = hdr_next m q" "hdr_next (set_next m p v) q = hdr_next m q"
proof -
  have "{q ..< q + HDR} \<inter> {p ..< p + HDR} = {}" using assms by auto
  note s = same_on_set [OF this]
  show "hdr_magic (set_magic m p v) q = hdr_magic m q" "hdr_magic (set_size m p v) q = hdr_magic m q"
    "hdr_magic (set_free m p v) q = hdr_magic m q" "hdr_magic (set_next m p v) q = hdr_magic m q"
    "hdr_size (set_magic m p v) q = hdr_size m q" "hdr_size (set_size m p v) q = hdr_size m q"
    "hdr_size (set_free m p v) q = hdr_size m q" "hdr_size (set_next m p v) q = hdr_size m q"
    "hdr_free (set_magic m p v) q = hdr_free m q" "hdr_free (set_size m p v) q = hdr_free m q"
    "hdr_free (set_free m p v) q = hdr_free m q" "hdr_free (set_next m p v) q = hdr_free m q"
    "hdr_next (set_magic m p v) q = hdr_next m q" "hdr_next (set_size m p v) q = hdr_next m q"
    "hdr_next (set_free m p v) q = hdr_next m q" "hdr_next (set_next m p v) q = hdr_next m q"
    by (rule same_on_hdr [OF s(1)] same_on_hdr [OF s(2)] same_on_hdr [OF s(3)] same_on_hdr [OF s(4)],
        rule subset_refl)+
qed

lemma hdr_bounds: "hdr_size m p < M64" "hdr_next m p < M64"
  using ld_bound [of m "p + 8" 8] ld_bound [of m "p + 24" 8] by (simp_all add: hdr_defs)

subsection \<open>The block list\<close>

text \<open>
  The abstract heap: consecutive blocks, each with its usable size and its state.
  \<open>chain m p bs a e\<close> says that following the pointers from \<open>p\<close> finds exactly the blocks
  \<open>bs\<close>, laid out back to back from address \<open>a\<close> to \<open>e\<close>.
\<close>

datatype blk = Blk (bsize: nat) (bfree: bool)

fun chain :: "mem \<Rightarrow> nat \<Rightarrow> blk list \<Rightarrow> nat \<Rightarrow> nat \<Rightarrow> bool" where
  "chain m p [] a e \<longleftrightarrow> p = 0 \<and> a = e"
| "chain m p (b # bs) a e \<longleftrightarrow>
     p = a \<and> a \<noteq> 0 \<and> a mod 8 = 0 \<and> hdr_magic m a = HEAP_MAGIC \<and> hdr_size m a = bsize b
     \<and> hdr_free m a = of_bool (bfree b)
     \<and> chain m (hdr_next m a) bs (a + HDR + bsize b) e"

fun span :: "blk list \<Rightarrow> nat" where
  "span [] = 0"
| "span (b # bs) = HDR + bsize b + span bs"

fun hdr_bytes :: "blk list \<Rightarrow> nat \<Rightarrow> nat set" where
  "hdr_bytes [] a = {}"
| "hdr_bytes (b # bs) a = {a ..< a + HDR} \<union> hdr_bytes bs (a + HDR + bsize b)"

text \<open>The allocated regions, as (user pointer, usable size).\<close>
fun live :: "blk list \<Rightarrow> nat \<Rightarrow> (nat \<times> nat) list" where
  "live [] a = []"
| "live (b # bs) a =
     (if bfree b then [] else [(a + HDR, bsize b)]) @ live bs (a + HDR + bsize b)"

abbreviation region :: "nat \<times> nat \<Rightarrow> nat set" where
  "region r \<equiv> {fst r ..< fst r + snd r}"

definition take_blk :: "nat \<Rightarrow> blk \<Rightarrow> blk list" where
  "take_blk n b = (if n + HDR + MIN_SPLIT \<le> bsize b
                   then [Blk n False, Blk (bsize b - n - HDR) True] else [Blk (bsize b) False])"

text \<open>First fit among the first \<open>k\<close> blocks.\<close>
fun ff_alloc :: "nat \<Rightarrow> nat \<Rightarrow> blk list \<Rightarrow> nat \<Rightarrow> (blk list \<times> nat) option" where
  "ff_alloc n k [] a = None"
| "ff_alloc n k (b # bs) a =
     (if k = 0 then None
      else if bfree b \<and> n \<le> bsize b then Some (take_blk n b @ bs, a + HDR)
      else map_option (\<lambda>(bs', q). (b # bs', q)) (ff_alloc n (k - 1) bs (a + HDR + bsize b)))"

fun mark_free :: "nat \<Rightarrow> blk list \<Rightarrow> nat \<Rightarrow> blk list" where
  "mark_free q [] a = []"
| "mark_free q (b # bs) a =
     (if q = a + HDR then Blk (bsize b) True # bs else b # mark_free q bs (a + HDR + bsize b))"

text \<open>Merging neighbours in at most \<open>k\<close> steps.\<close>
fun merge_blks :: "nat \<Rightarrow> blk list \<Rightarrow> blk list" where
  "merge_blks (Suc k) (b # c # bs) =
     (if bfree b \<and> bfree c then merge_blks k (Blk (bsize b + HDR + bsize c) True # bs)
      else b # merge_blks k (c # bs))"
| "merge_blks k bs = bs"

fun no_adjacent_free :: "blk list \<Rightarrow> bool" where
  "no_adjacent_free (b # c # bs) \<longleftrightarrow> \<not> (bfree b \<and> bfree c) \<and> no_adjacent_free (c # bs)"
| "no_adjacent_free bs \<longleftrightarrow> True"

lemma chain_span: "chain m p bs a e \<Longrightarrow> e = a + span bs"
proof (induction bs arbitrary: p a)
  case Nil
  then show ?case by simp
next
  case (Cons b bs)
  from Cons.prems have "chain m (hdr_next m a) bs (a + HDR + bsize b) e" by simp
  from Cons.IH [OF this] show ?case by simp
qed

lemma chain_null: "chain m p bs a e \<Longrightarrow> p = 0 \<longleftrightarrow> bs = []"
  by (cases bs) auto

lemma chain_frame:
  "chain m p bs a e \<Longrightarrow> same_on (hdr_bytes bs a) m m' \<Longrightarrow> chain m' p bs a e"
proof (induction bs arbitrary: p a)
  case Nil
  then show ?case by simp
next
  case (Cons b bs)
  have h: "hdr_magic m' a = hdr_magic m a" "hdr_size m' a = hdr_size m a"
    "hdr_free m' a = hdr_free m a" "hdr_next m' a = hdr_next m a"
    by (rule same_on_hdr [OF Cons.prems(2)], simp)+
  have "same_on (hdr_bytes bs (a + HDR + bsize b)) m m'"
    by (rule same_on_mono [OF Cons.prems(2)]) simp
  with Cons h show ?case by simp
qed

lemma hdr_bytes_range: "hdr_bytes bs a \<subseteq> {a ..< a + span bs}"
  by (induction bs arbitrary: a) (fastforce simp: HDR_def)+

lemma hdr_bytes_append [simp]: "hdr_bytes (xs @ ys) a = hdr_bytes xs a \<union> hdr_bytes ys (a + span xs)"
  by (induction xs arbitrary: a) (auto simp: add.assoc)

lemma live_append [simp]: "live (xs @ ys) a = live xs a @ live ys (a + span xs)"
  by (induction xs arbitrary: a) (auto simp: add.assoc)

lemma span_append [simp]: "span (xs @ ys) = span xs + span ys"
  by (induction xs) auto

lemma span_take_blk [simp]: "span (take_blk n b) = HDR + bsize b"
  by (simp add: take_blk_def)

lemma chain_unique: "chain m p bs a e \<Longrightarrow> chain m p bs' a e' \<Longrightarrow> bs = bs'"
proof (induction bs arbitrary: p a bs')
  case Nil
  then show ?case by (cases bs') auto
next
  case (Cons b bs)
  then obtain c cs where bs': "bs' = c # cs" by (cases bs') auto
  have "bsize c = bsize b" "of_bool (bfree c) = (of_bool (bfree b) :: nat)"
    using Cons.prems bs' by simp_all
  then have "bsize c = bsize b" "bfree c = bfree b"
    by (simp_all only: of_bool_eq_iff)
  then have "c = b" by (rule blk.expand [OF conjI])
  moreover have "bs = cs"
    using Cons.prems bs' \<open>c = b\<close> by (intro Cons.IH) auto
  ultimately show ?case using bs' by simp
qed

lemma live_range: "r \<in> set (live bs a) \<Longrightarrow> a + HDR \<le> fst r \<and> fst r + snd r \<le> a + span bs"
  by (induction bs arbitrary: a) (fastforce split: if_splits)+

lemma live_hdr_disjoint: "r \<in> set (live bs a) \<Longrightarrow> region r \<inter> hdr_bytes bs a = {}"
proof (induction bs arbitrary: a)
  case Nil
  then show ?case by simp
next
  case (Cons b bs)
  let ?a = "a + HDR + bsize b"
  show ?case
  proof (cases "r \<in> set (live bs ?a)")
    case True
    with Cons.IH have "region r \<inter> hdr_bytes bs ?a = {}" by blast
    moreover have "region r \<inter> {a ..< a + HDR} = {}" using live_range [OF True] by auto
    ultimately show ?thesis by auto
  next
    case False
    with Cons.prems have "r = (a + HDR, bsize b)" by (auto split: if_splits)
    then show ?thesis using hdr_bytes_range [of bs ?a] by auto
  qed
qed

lemma live_pairwise_disjoint:
  "r \<in> set (live bs a) \<Longrightarrow> s \<in> set (live bs a) \<Longrightarrow> fst r \<noteq> fst s \<Longrightarrow> region r \<inter> region s = {}"
proof (induction bs arbitrary: a)
  case Nil
  then show ?case by simp
next
  case (Cons b bs)
  let ?a = "a + HDR + bsize b"
  have far: "t \<in> set (live bs ?a) \<Longrightarrow> region (a + HDR, bsize b) \<inter> region t = {}" for t
    using live_range [of t bs ?a] by auto
  show ?case
    using Cons far [of r] far [of s] by (auto split: if_splits)
qed

lemma live_distinct: "distinct (map fst (live bs a))"
proof (induction bs arbitrary: a)
  case Nil
  then show ?case by simp
next
  case (Cons b bs)
  have "a + HDR \<notin> fst ` set (live bs (a + HDR + bsize b))"
    using live_range [of _ bs "a + HDR + bsize b"] by (fastforce simp: HDR_def)
  then show ?case using Cons.IH by auto
qed

subsection \<open>Allocation refines first fit\<close>

lemma same_on_setI:
  assumes "same_on A m m'" "A \<inter> {p ..< p + HDR} = {}"
  shows "same_on A m (set_magic m' p v)" "same_on A m (set_size m' p v)"
    "same_on A m (set_free m' p v)" "same_on A m (set_next m' p v)"
  by (rule same_on_trans [OF assms(1)], rule same_on_set [OF assms(2)])+

lemma take_block_frame:
  assumes "A \<inter> {p ..< p + HDR} = {}"
    and "hdr_size m p \<ge> add64 (add64 n HDR) MIN_SPLIT \<Longrightarrow>
         A \<inter> {add64 (add64 p HDR) n ..< add64 (add64 p HDR) n + HDR} = {}"
  shows "same_on A m (take_block m p n)"
  unfolding take_block_def Let_def
  by (auto intro!: same_on_setI assms)

lemma take_block_chain:
  assumes c: "chain m p (b # bs) a e" and n: "n \<le> bsize b" "n mod 8 = 0"
    and lim: "e < M64" "bsize b < M32"
  shows "chain (take_block m p n) p (take_blk n b @ bs) a e"
    and "same_on (- hdr_bytes (take_blk n b @ bs) a) m (take_block m p n)"
proof -
  let ?m = "take_block m p n" and ?a = "a + HDR + bsize b" and ?q = "a + HDR + n"
  from c have [simp]: "p = a" and h: "a \<noteq> 0" "a mod 8 = 0" "hdr_magic m a = HEAP_MAGIC"
    "hdr_size m a = bsize b" and rest: "chain m (hdr_next m a) bs ?a e" by auto
  from chain_span [OF c] lim have e: "?a \<le> e" by simp
  have q: "add64 (add64 a HDR) n = ?q" "add64 (add64 n HDR) MIN_SPLIT = n + HDR + MIN_SPLIT"
    using e lim n by (simp_all add: HDR_def MIN_SPLIT_def add64_small)
  have nx: "hdr_next m a < M64" by (rule hdr_bounds)
  have magic: "HEAP_MAGIC < M64" by (simp add: HEAP_MAGIC_def)
  show fr: "same_on (- hdr_bytes (take_blk n b @ bs) a) m ?m"
    by (rule take_block_frame)
      (auto simp: q h take_blk_def Let_def)
  have far: "same_on (hdr_bytes bs ?a) m ?m"
  proof (rule take_block_frame)
    show "hdr_bytes bs ?a \<inter> {p ..< p + HDR} = {}"
      using hdr_bytes_range [of bs ?a] by auto
    assume "hdr_size m p \<ge> add64 (add64 n HDR) MIN_SPLIT"
    then have "n + HDR + MIN_SPLIT \<le> bsize b" by (simp add: q h)
    then have "?q + HDR \<le> ?a" by (simp add: MIN_SPLIT_def HDR_def)
    then show "hdr_bytes bs ?a \<inter> {add64 (add64 p HDR) n ..< add64 (add64 p HDR) n + HDR} = {}"
      using hdr_bytes_range [of bs ?a] by (auto simp: q)
  qed
  show "chain ?m p (take_blk n b @ bs) a e"
  proof (cases "n + HDR + MIN_SPLIT \<le> bsize b")
    case True
    have d: "a + HDR \<le> ?q" by simp
    have s: "sub64 (sub64 (bsize b) n) HDR = bsize b - n - HDR"
      using True lim by (simp add: HDR_def sub64_small)
    have bnd: "?q < M64" "n < M64" "bsize b - n - HDR < M64" "HDR < M64" using e lim n by simp_all
    have "hdr_magic ?m a = HEAP_MAGIC" "hdr_size ?m a = n" "hdr_free ?m a = 0" "hdr_next ?m a = ?q"
      "hdr_magic ?m ?q = HEAP_MAGIC" "hdr_size ?m ?q = bsize b - n - HDR" "hdr_free ?m ?q = 1"
      "hdr_next ?m ?q = hdr_next m a"
      using True d bnd nx magic by (simp_all add: take_block_def Let_def q h s)
    moreover have "chain ?m (hdr_next m a) bs ?a e" by (rule chain_frame [OF rest far])
    moreover have "?q mod 8 = 0" using h(2) n(2) by (simp add: HDR_def mod_add_eq [symmetric])
    ultimately show ?thesis using True h by (simp add: take_blk_def add.assoc)
  next
    case False
    have "hdr_magic ?m a = HEAP_MAGIC" "hdr_size ?m a = bsize b" "hdr_free ?m a = 0"
      "hdr_next ?m a = hdr_next m a"
      using False h by (simp_all add: take_block_def Let_def q)
    moreover have "chain ?m (hdr_next m a) bs ?a e" by (rule chain_frame [OF rest far])
    ultimately show ?thesis using False h by (simp add: take_blk_def)
  qed
qed

text \<open>The heap bounds every header of a chain is checked against.\<close>
definition heap_bounds :: "heap \<Rightarrow> bool" where
  "heap_bounds h \<longleftrightarrow> heap_start h \<noteq> 0 \<and> heap_total h < M32
     \<and> heap_start h + HDR + heap_total h < M64"

lemma heap_end_eq: "heap_bounds h \<Longrightarrow> heap_end h = heap_start h + HDR + heap_total h"
  by (simp add: heap_bounds_def heap_end_def HDR_def add64_small)

lemma header_valid_eq:
  "heap_bounds h \<Longrightarrow> heap_header_valid h p \<longleftrightarrow>
     heap_start h \<le> p \<and> p \<le> heap_start h + heap_total h \<and> p mod 8 = 0"
  unfolding heap_header_valid_def by (auto simp: heap_end_eq) (auto simp: heap_bounds_def sub64_small)

lemma heap_bounds_upd [simp]: "heap_bounds (h\<lparr>hmem := m\<rparr>) = heap_bounds h"
  by (simp add: heap_bounds_def)

lemma header_valid_upd [simp]: "heap_header_valid (h\<lparr>hmem := m\<rparr>) p = heap_header_valid h p"
  by (simp add: heap_header_valid_def heap_end_def)

lemma chain_header_valid:
  assumes "heap_bounds h" "chain m p (b # bs) a (heap_start h + HDR + heap_total h)" "heap_start h \<le> a"
  shows "heap_header_valid h p" "bsize b < M32"
  using chain_span [OF assms(2)] assms by (auto simp: header_valid_eq heap_bounds_def)

lemma kmalloc_loop_refines:
  assumes "heap_bounds h" "chain (hmem h) p bs a (heap_start h + HDR + heap_total h)"
    "heap_start h \<le> a" "n mod 8 = 0"
  shows "case ff_alloc n (HEAP_WALK_MAX - seen) bs a of
           None \<Rightarrow> kmalloc_loop h n p seen = (h, 0)
         | Some (bs', q) \<Rightarrow> \<exists>m'. kmalloc_loop h n p seen = (h\<lparr>hmem := m'\<rparr>, q)
              \<and> chain m' p bs' a (heap_start h + HDR + heap_total h)
              \<and> same_on (- hdr_bytes bs' a) (hmem h) m'"
  using assms
proof (induction bs arbitrary: p a seen)
  case Nil
  then show ?case by (simp add: kmalloc_loop.simps)
next
  case (Cons b bs)
  let ?e = "heap_start h + HDR + heap_total h" and ?a = "a + HDR + bsize b"
  note v = chain_header_valid [OF Cons.prems(1-3)]
  from Cons.prems have p: "p = a" "a \<noteq> 0" "hdr_magic (hmem h) a = HEAP_MAGIC"
    "hdr_size (hmem h) a = bsize b" "hdr_free (hmem h) a = of_bool (bfree b)"
    and rest: "chain (hmem h) (hdr_next (hmem h) a) bs ?a ?e" by auto
  have e: "?e < M64" using Cons.prems by (simp add: heap_bounds_def)
  show ?case
  proof (cases "seen < HEAP_WALK_MAX")
    case False
    then show ?thesis by (simp add: kmalloc_loop.simps)
  next
    case True
    show ?thesis
    proof (cases "bfree b \<and> n \<le> bsize b")
      case fits: True
      have "a + HDR < M64" using chain_span [OF Cons.prems(2)] e by simp
      then have loop: "kmalloc_loop h n p seen = (h\<lparr>hmem := take_block (hmem h) p n\<rparr>, a + HDR)"
        using True fits p v by (subst kmalloc_loop.simps) (simp add: add64_small)
      show ?thesis
        using True fits loop take_block_chain [OF Cons.prems(2) _ Cons.prems(4) e v(2), of] by auto
    next
      case False
      have loop: "kmalloc_loop h n p seen = kmalloc_loop h n (hdr_next (hmem h) a) (Suc seen)"
        using True False p v by (subst kmalloc_loop.simps) auto
      have IH: "case ff_alloc n (HEAP_WALK_MAX - Suc seen) bs ?a of
           None \<Rightarrow> kmalloc_loop h n (hdr_next (hmem h) a) (Suc seen) = (h, 0)
         | Some (bs', q) \<Rightarrow> \<exists>m'. kmalloc_loop h n (hdr_next (hmem h) a) (Suc seen) = (h\<lparr>hmem := m'\<rparr>, q)
              \<and> chain m' (hdr_next (hmem h) a) bs' ?a ?e \<and> same_on (- hdr_bytes bs' ?a) (hmem h) m'"
        using Cons.prems rest by (intro Cons.IH) auto
      show ?thesis
      proof (cases "ff_alloc n (HEAP_WALK_MAX - Suc seen) bs ?a")
        case None
        then show ?thesis using IH loop True False by auto
      next
        case (Some r)
        obtain bs' q where r: "r = (bs', q)" by (cases r)
        from IH Some r obtain m' where m': "kmalloc_loop h n p seen = (h\<lparr>hmem := m'\<rparr>, q)"
          "chain m' (hdr_next (hmem h) a) bs' ?a ?e" "same_on (- hdr_bytes bs' ?a) (hmem h) m'"
          unfolding loop by auto
        have "{a ..< a + HDR} \<subseteq> - hdr_bytes bs' ?a" using hdr_bytes_range [of bs' ?a] by auto
        note hd = same_on_hdr [OF m'(3) this]
        have "chain m' p (b # bs') a ?e" using m'(2) Cons.prems(2) hd by simp
        moreover have "same_on (- hdr_bytes (b # bs') a) (hmem h) m'"
          by (rule same_on_mono [OF m'(3)]) auto
        moreover have "ff_alloc n (HEAP_WALK_MAX - seen) (b # bs) a = Some (b # bs', q)"
          using Some r True False by auto
        ultimately show ?thesis using m'(1) by auto
      qed
    qed
  qed
qed

lemma ff_alloc_None:
  "ff_alloc n k bs a = None \<longleftrightarrow> (\<forall>b \<in> set (take k bs). bfree b \<longrightarrow> bsize b < n)"
  by (induction bs arbitrary: k a) (auto simp: take_Cons' not_le)

lemma ff_alloc_live:
  "ff_alloc n k bs a = Some (bs', q) \<Longrightarrow>
     \<exists>s \<ge> n. set (live bs' a) = insert (q, s) (set (live bs a)) \<and> q \<notin> fst ` set (live bs a)
        \<and> s < n + HDR + MIN_SPLIT"
proof (induction bs arbitrary: k a bs')
  case Nil
  then show ?case by simp
next
  case (Cons b bs)
  let ?a = "a + HDR + bsize b"
  have notin: "a + HDR \<notin> fst ` set (live bs ?a)"
    using live_range [of _ bs ?a] by (fastforce simp: HDR_def)
  show ?case
  proof (cases "bfree b \<and> n \<le> bsize b")
    case True
    with Cons.prems have "bs' = take_blk n b @ bs" "q = a + HDR" by (auto split: if_splits)
    with True notin show ?thesis
      by (cases "n + HDR + MIN_SPLIT \<le> bsize b")
        (auto simp: take_blk_def add.assoc HDR_def MIN_SPLIT_def intro: exI [of _ n] exI [of _ "bsize b"])
  next
    case False
    with Cons.prems obtain cs where cs: "ff_alloc n (k - 1) bs ?a = Some (cs, q)" "bs' = b # cs"
      by (auto split: if_splits)
    from Cons.IH [OF cs(1)] obtain s where s: "n \<le> s" "s < n + HDR + MIN_SPLIT"
      "set (live cs ?a) = insert (q, s) (set (live bs ?a))" "q \<notin> fst ` set (live bs ?a)"
      by auto
    have "(q, s) \<in> set (live cs ?a)" using s by simp
    from live_range [OF this] have "q \<noteq> a + HDR" by (simp add: HDR_def)
    with s cs show ?thesis by (intro exI [of _ s]) auto
  qed
qed

lemma ff_alloc_no_adjacent:
  "ff_alloc n k bs a = Some (bs', q) \<Longrightarrow> no_adjacent_free bs \<Longrightarrow>
     no_adjacent_free bs' \<and> (bs \<noteq> [] \<longrightarrow> bs' \<noteq> [] \<and> (bfree (hd bs') \<longrightarrow> bfree (hd bs)))"
proof (induction bs arbitrary: k a bs')
  case Nil
  then show ?case by simp
next
  case (Cons b bs)
  have tl: "no_adjacent_free bs" using Cons.prems(2) by (cases bs) auto
  show ?case
  proof (cases "bfree b \<and> n \<le> bsize b")
    case True
    with Cons.prems have "bs' = take_blk n b @ bs" by (auto split: if_splits)
    with True Cons.prems(2) tl show ?thesis by (cases bs) (auto simp: take_blk_def)
  next
    case False
    with Cons.prems(1) obtain cs where cs: "ff_alloc n (k - 1) bs (a + HDR + bsize b) = Some (cs, q)"
      "bs' = b # cs" by (auto split: if_splits)
    from Cons.IH [OF cs(1) tl] cs Cons.prems(2) show ?thesis
      by (cases bs; cases cs) auto
  qed
qed

subsection \<open>Freeing refines marking and merging\<close>

lemma merge_step_chain:
  assumes c: "chain m p (b # c # bs) a e" and f: "bfree b" "bfree c" and e: "e < M64"
  defines "m' \<equiv> set_next (set_size m a (add64 (hdr_size m a) (add64 HDR (hdr_size m (hdr_next m a)))))
                  a (hdr_next m (hdr_next m a))"
  shows "chain m' p (Blk (bsize b + HDR + bsize c) True # bs) a e"
    and "same_on (- {a ..< a + HDR}) m m'"
proof -
  let ?a = "a + HDR + bsize b" and ?c = "a + HDR + bsize b + HDR + bsize c"
  from c f have h: "p = a" "a \<noteq> 0" "a mod 8 = 0" "hdr_magic m a = HEAP_MAGIC" "hdr_size m a = bsize b"
    "hdr_free m a = 1" "hdr_next m a = ?a" "hdr_size m ?a = bsize c"
    and rest: "chain m (hdr_next m ?a) bs ?c e" by (auto simp: add.assoc)
  have bnd: "bsize b + (HDR + bsize c) < M64" using chain_span [OF c] e by simp
  show s: "same_on (- {a ..< a + HDR}) m m'"
    unfolding m'_def by (auto intro!: same_on_setI)
  have "same_on (hdr_bytes bs ?c) m m'"
    using hdr_bytes_range [of bs ?c] by (intro same_on_mono [OF s]) auto
  with rest have "chain m' (hdr_next m ?a) bs ?c e" by (rule chain_frame)
  then have t: "chain m' (hdr_next m ?a) bs (a + HDR + (bsize b + HDR + bsize c)) e"
    by (simp add: add.assoc)
  have nx: "hdr_next m ?a mod M64 = hdr_next m ?a" by (rule mod_less [OF hdr_bounds(2)])
  have "hdr_magic m' a = HEAP_MAGIC" "hdr_free m' a = 1" by (simp_all add: m'_def h)
  moreover have "hdr_size m' a = bsize b + HDR + bsize c"
    using bnd by (simp add: m'_def h(5,7,8) add64_small)
  moreover have "hdr_next m' a = hdr_next m ?a"
    by (simp only: m'_def h hdr_set_same nx)
  ultimately show "chain m' p (Blk (bsize b + HDR + bsize c) True # bs) a e"
    using h t by simp
qed

lemma coalesce_loop_refines:
  assumes "heap_bounds h" "chain (hmem h) p bs a (heap_start h + HDR + heap_total h)"
    "heap_start h \<le> a"
  shows "\<exists>m'. coalesce_loop h p seen = h\<lparr>hmem := m'\<rparr>
           \<and> chain m' p (merge_blks (HEAP_WALK_MAX - seen) bs) a (heap_start h + HDR + heap_total h)
           \<and> same_on (- hdr_bytes bs a) (hmem h) m'"
  using assms
proof (induction "HEAP_WALK_MAX - seen" bs arbitrary: h p a seen rule: merge_blks.induct [case_names step stop empty single])
  case (step k b c bs)
  let ?e = "heap_start h + HDR + heap_total h" and ?a = "a + HDR + bsize b"
  have seen: "seen < HEAP_WALK_MAX" "k = HEAP_WALK_MAX - Suc seen" using step.hyps(3) by auto
  note v = chain_header_valid [OF step.prems]
  from step.prems have p: "p = a" "a \<noteq> 0" "hdr_magic (hmem h) a = HEAP_MAGIC"
    "hdr_free (hmem h) a = of_bool (bfree b)" "hdr_next (hmem h) a = ?a" "?a \<noteq> 0"
    "hdr_magic (hmem h) ?a = HEAP_MAGIC" "hdr_free (hmem h) ?a = of_bool (bfree c)"
    and rest: "chain (hmem h) ?a (c # bs) ?a ?e" by (auto simp: add.assoc)
  have va: "heap_header_valid h ?a" using chain_header_valid [OF step.prems(1) rest] step.prems(3) by simp
  have e: "?e < M64" using step.prems by (simp add: heap_bounds_def)
  show ?case
  proof (cases "bfree b \<and> bfree c")
    case True
    let ?m = "set_next (set_size (hmem h) a (add64 (hdr_size (hmem h) a)
        (add64 HDR (hdr_size (hmem h) (hdr_next (hmem h) a))))) a (hdr_next (hmem h) (hdr_next (hmem h) a))"
    note mc = merge_step_chain [OF step.prems(2) conjunct1 [OF True] conjunct2 [OF True] e]
    have nx: "hdr_next (set_size m q x) a = hdr_next m a" if "q = a" for m q x using that by simp
    have loop: "coalesce_loop h p seen = coalesce_loop (h\<lparr>hmem := ?m\<rparr>) p (Suc seen)"
      using True p v va seen by (subst coalesce_loop.simps) (simp add: Let_def)
    obtain m' where m': "coalesce_loop (h\<lparr>hmem := ?m\<rparr>) p (Suc seen) = h\<lparr>hmem := m'\<rparr>"
      "chain m' p (merge_blks k (Blk (bsize b + HDR + bsize c) True # bs)) a ?e"
      "same_on (- hdr_bytes (Blk (bsize b + HDR + bsize c) True # bs) a) ?m m'"
      using step.hyps(1) [OF True, of "Suc seen" "h\<lparr>hmem := ?m\<rparr>" p a] mc(1) step.prems seen by auto
    have "same_on (- hdr_bytes (b # c # bs) a) (hmem h) m'"
      by (rule same_on_trans [OF same_on_mono [OF mc(2)] same_on_mono [OF m'(3)]])
        (auto simp: add.assoc)
    with m' loop True seen show ?thesis by (auto simp: Suc_diff_Suc [symmetric])
  next
    case False
    have loop: "coalesce_loop h p seen = coalesce_loop h ?a (Suc seen)"
      using False p v va seen by (subst coalesce_loop.simps) (auto simp: Let_def)
    obtain m' where m': "coalesce_loop h ?a (Suc seen) = h\<lparr>hmem := m'\<rparr>"
      "chain m' ?a (merge_blks k (c # bs)) ?a ?e" "same_on (- hdr_bytes (c # bs) ?a) (hmem h) m'"
      using step.hyps(2) [OF False, of "Suc seen" h ?a ?a] rest step.prems seen by auto
    have "{a ..< a + HDR} \<subseteq> - hdr_bytes (c # bs) ?a" using hdr_bytes_range [of "c # bs" ?a] by auto
    note hd = same_on_hdr [OF m'(3) this]
    have "chain m' p (b # merge_blks k (c # bs)) a ?e" using m'(2) step.prems(2) hd p by simp
    moreover have "same_on (- hdr_bytes (b # c # bs) a) (hmem h) m'"
      by (rule same_on_mono [OF m'(3)]) auto
    ultimately show ?thesis using m'(1) loop False seen by (auto simp: Suc_diff_Suc [symmetric])
  qed
next
  case (stop bs)
  then have "coalesce_loop h p seen = h" by (subst coalesce_loop.simps) (simp add: Let_def)
  with stop show ?case by (intro exI [of _ "hmem h"]) simp
next
  case empty
  then have "coalesce_loop h p seen = h" by (subst coalesce_loop.simps) (simp add: Let_def)
  with empty show ?case by (intro exI [of _ "hmem h"]) simp
next
  case (single b)
  then have "coalesce_loop h p seen = h" by (subst coalesce_loop.simps) (simp add: Let_def)
  with single show ?case by (intro exI [of _ "hmem h"]) simp
qed

lemma merge_blks_span [simp]: "span (merge_blks k bs) = span bs"
  by (induction k bs rule: merge_blks.induct) auto

lemma merge_blks_live [simp]: "live (merge_blks k bs) a = live bs a"
  by (induction k bs arbitrary: a rule: merge_blks.induct) (auto simp: add.assoc)

lemma merge_blks_no_adjacent:
  "length bs \<le> Suc k \<Longrightarrow>
     no_adjacent_free (merge_blks k bs) \<and>
     (bs \<noteq> [] \<longrightarrow> merge_blks k bs \<noteq> [] \<and> bfree (hd (merge_blks k bs)) = bfree (hd bs))"
proof (induction k bs rule: merge_blks.induct [case_names step stop empty single])
  case (step k b c bs)
  then show ?case
    by (cases "merge_blks k (c # bs)") (auto split: if_splits)
next
  case (stop bs)
  then show ?case by (cases bs rule: no_adjacent_free.cases) auto
qed auto

lemma mark_free_chain:
  "chain m p bs a e \<Longrightarrow> (q, s) \<in> set (live bs a) \<Longrightarrow>
     chain (set_free m (q - HDR) 1) p (mark_free q bs a) a e
     \<and> hdr_magic m (q - HDR) = HEAP_MAGIC \<and> hdr_free m (q - HDR) = 0 \<and> (q - HDR) mod 8 = 0
     \<and> hdr_size m (q - HDR) = s \<and> {q - HDR ..< q} \<subseteq> hdr_bytes bs a"
proof (induction bs arbitrary: p a)
  case Nil
  then show ?case by simp
next
  case (Cons b bs)
  let ?a = "a + HDR + bsize b" and ?m = "set_free m (q - HDR) 1"
  show ?case
  proof (cases "q = a + HDR")
    case True
    have "(q, s) \<notin> set (live bs ?a)"
      using live_range [of "(q, s)" bs ?a] True by (auto simp: HDR_def)
    with Cons.prems True have b: "\<not> bfree b" "s = bsize b" by (auto split: if_splits)
    have "same_on (hdr_bytes bs ?a) m ?m"
      using hdr_bytes_range [of bs ?a] True by (intro same_on_set) auto
    with Cons.prems(1) have "chain ?m (hdr_next m a) bs ?a e" by (auto intro: chain_frame)
    with True b Cons.prems show ?thesis by auto
  next
    case False
    with Cons.prems have t: "chain m (hdr_next m a) bs ?a e" "(q, s) \<in> set (live bs ?a)"
      by (auto split: if_splits)
    have "?a + HDR \<le> q" using live_range [OF t(2)] by simp
    then have "a + HDR \<le> q - HDR" by simp
    then show ?thesis using False Cons.prems Cons.IH [OF t] by auto
  qed
qed

lemma mark_free_live:
  "(q, s) \<in> set (live bs a) \<Longrightarrow>
     set (live (mark_free q bs a) a) = {r \<in> set (live bs a). fst r \<noteq> q}
     \<and> hdr_bytes (mark_free q bs a) a = hdr_bytes bs a \<and> length (mark_free q bs a) = length bs"
proof (induction bs arbitrary: a)
  case Nil
  then show ?case by simp
next
  case (Cons b bs)
  let ?a = "a + HDR + bsize b"
  have far: "r \<in> set (live bs ?a) \<Longrightarrow> fst r \<noteq> a + HDR" for r
    using live_range [of r bs ?a] by (auto simp: HDR_def)
  show ?case
  proof (cases "q = a + HDR")
    case True
    then show ?thesis using far by auto
  next
    case False
    with Cons.prems have "(q, s) \<in> set (live bs ?a)" by (auto split: if_splits)
    from Cons.IH [OF this] False show ?thesis by auto
  qed
qed

subsection \<open>The heap invariant\<close>

text \<open>
  \<open>heap_blocks h\<close> reads the block list back from memory (each block takes at least 32
  bytes, so \<open>heap_total h + 1\<close> steps are enough); \<open>heap_inv h\<close> says that it is the
  whole heap, and \<open>heap_live h\<close> are its allocated regions.
\<close>

fun read_blocks :: "mem \<Rightarrow> nat \<Rightarrow> nat \<Rightarrow> blk list" where
  "read_blocks m p 0 = []"
| "read_blocks m p (Suc k) =
     (if p = 0 then [] else Blk (hdr_size m p) (hdr_free m p \<noteq> 0) # read_blocks m (hdr_next m p) k)"

definition heap_blocks :: "heap \<Rightarrow> blk list" where
  "heap_blocks h = read_blocks (hmem h) (heap_start h) (heap_total h + 1)"

definition heap_inv :: "heap \<Rightarrow> bool" where
  "heap_inv h \<longleftrightarrow> heap_bounds h \<and>
     chain (hmem h) (heap_start h) (heap_blocks h) (heap_start h) (heap_start h + HDR + heap_total h)"

definition heap_live :: "heap \<Rightarrow> (nat \<times> nat) set" where
  "heap_live h = set (live (heap_blocks h) (heap_start h))"

lemma chain_read_blocks:
  "chain m p bs a e \<Longrightarrow> length bs \<le> k \<Longrightarrow> read_blocks m p k = bs"
proof (induction bs arbitrary: p a k)
  case Nil
  then show ?case by (cases k) auto
next
  case (Cons b bs)
  then obtain k' where k: "k = Suc k'" by (cases k) auto
  from Cons.prems have h: "p = a" "a \<noteq> 0" "hdr_size m a = bsize b" "hdr_free m a = of_bool (bfree b)"
    "chain m (hdr_next m a) bs (a + HDR + bsize b) e" by auto
  have "(hdr_free m a \<noteq> 0) = bfree b" by (simp add: h(4))
  moreover have "read_blocks m (hdr_next m a) k' = bs"
    using Cons.IH [OF h(5)] Cons.prems(2) k by simp
  ultimately show ?case using h k by simp
qed

lemma length_le_span: "length bs * HDR \<le> span bs"
  by (induction bs) auto

lemma chain_heap_blocks:
  assumes "chain (hmem h) (heap_start h) bs (heap_start h) (heap_start h + HDR + heap_total h)"
  shows "heap_blocks h = bs"
proof -
  have "length bs * HDR \<le> HDR + heap_total h"
    using chain_span [OF assms] length_le_span [of bs] by simp
  then have "length bs \<le> heap_total h + 1" by (simp add: HDR_def)
  then show ?thesis unfolding heap_blocks_def by (rule chain_read_blocks [OF assms])
qed

lemma heap_invI:
  "heap_bounds h \<Longrightarrow>
   chain (hmem h) (heap_start h) bs (heap_start h) (heap_start h + HDR + heap_total h) \<Longrightarrow>
   heap_inv h \<and> heap_blocks h = bs"
  using chain_heap_blocks [of h bs] by (simp add: heap_inv_def)

lemma heap_inv_upd:
  assumes "heap_inv h"
    "chain m' (heap_start h) bs' (heap_start h) (heap_start h + HDR + heap_total h)"
  shows "heap_inv (h\<lparr>hmem := m'\<rparr>)" "heap_blocks (h\<lparr>hmem := m'\<rparr>) = bs'"
  using heap_invI [of "h\<lparr>hmem := m'\<rparr>" bs'] assms by (auto simp: heap_inv_def)

lemma live_aligned:
  "chain m p bs a e \<Longrightarrow> r \<in> set (live bs a) \<Longrightarrow> fst r mod 8 = 0 \<and> fst r \<noteq> 0"
proof (induction bs arbitrary: p a)
  case Nil
  then show ?case by simp
next
  case (Cons b bs)
  then show ?case
    by (auto simp: HDR_def split: if_splits)
qed

subsection \<open>What the operations guarantee\<close>

lemma ALIGN_8_mod [simp]: "ALIGN n 8 mod 8 = 0"
  using ALIGN_pow2_dvd [of 3 n] by simp

lemma ALIGN_8_ge: "n + 7 < M64 \<Longrightarrow> n \<le> ALIGN n 8 \<and> ALIGN n 8 < n + 8"
  using ALIGN_pow2_ge [of 3 n] by simp

lemma heap_init_inv:
  assumes "0 < start" "ALIGN start 16 - start + HDR + 16 \<le> sz" "sz < M32" "start + sz < M64 - 16"
  shows "heap_inv (heap_init h start sz)"
    and "heap_blocks (heap_init h start sz) = [Blk (sz - (ALIGN start 16 - start) - HDR) True]"
proof -
  let ?a = "ALIGN start 16" and ?s = "sz - (ALIGN start 16 - start)"
  have a: "start \<le> ?a" "?a < start + 16" "?a mod 16 = 0"
    using ALIGN_pow2_ge [of 4 start] ALIGN_pow2_dvd [of 4 start] assms by simp_all
  have s: "sub64 sz (sub64 ?a start) = ?s" "sub64 ?s HDR = ?s - HDR"
    using a assms by (simp_all add: sub64_small HDR_def)
  have "\<not> sz < HDR + 16" using assms by simp
  then have h: "heap_start (heap_init h start sz) = ?a"
    "heap_total (heap_init h start sz) = ?s - HDR"
    "hdr_magic (hmem (heap_init h start sz)) ?a = HEAP_MAGIC"
    "hdr_size (hmem (heap_init h start sz)) ?a = ?s - HDR"
    "hdr_free (hmem (heap_init h start sz)) ?a = 1"
    "hdr_next (hmem (heap_init h start sz)) ?a = 0"
    using assms by (simp_all add: heap_init_def Let_def s HEAP_MAGIC_def)
  have "?a mod 8 = 0" using a(3) by presburger
  then have bnd: "heap_bounds (heap_init h start sz)"
    and ch: "chain (hmem (heap_init h start sz)) (heap_start (heap_init h start sz))
      [Blk (?s - HDR) True] (heap_start (heap_init h start sz))
      (heap_start (heap_init h start sz) + HDR + heap_total (heap_init h start sz))"
    using a assms by (auto simp: h heap_bounds_def HDR_def)
  show "heap_inv (heap_init h start sz)" "heap_blocks (heap_init h start sz) = [Blk (?s - HDR) True]"
    using heap_invI [OF bnd ch] by blast+
qed

lemma kmalloc_refines:
  assumes "heap_inv h" "0 < n"
  shows "case ff_alloc (ALIGN n 8) HEAP_WALK_MAX (heap_blocks h) (heap_start h) of
           None \<Rightarrow> kmalloc h n = (h, 0)
         | Some (bs', q) \<Rightarrow> \<exists>m'. kmalloc h n = (h\<lparr>hmem := m'\<rparr>, q) \<and> heap_inv (h\<lparr>hmem := m'\<rparr>)
              \<and> heap_blocks (h\<lparr>hmem := m'\<rparr>) = bs'
              \<and> same_on (- hdr_bytes bs' (heap_start h)) (hmem h) m'"
proof -
  from assms have "heap_start h \<noteq> 0" by (simp add: heap_inv_def heap_bounds_def)
  with assms have k: "kmalloc h n = kmalloc_loop h (ALIGN n 8) (heap_start h) 0"
    by (simp add: kmalloc_def)
  from assms have b: "heap_bounds h" "chain (hmem h) (heap_start h) (heap_blocks h) (heap_start h)
      (heap_start h + HDR + heap_total h)" by (auto simp: heap_inv_def)
  show ?thesis
    using kmalloc_loop_refines [OF b order_refl ALIGN_8_mod, of n 0] heap_inv_upd [OF assms(1)]
    by (auto simp: k split: option.splits)
qed

lemma kmalloc_null: "kmalloc h 0 = (h, 0)"
  by (simp add: kmalloc_def)

text \<open>
  The contract of a successful allocation: the pointer is 8-aligned, the new region is
  disjoint from every region already handed out, and those keep their bytes.
\<close>
lemma kmalloc_success:
  assumes "heap_inv h" "kmalloc h n = (h', p)" "p \<noteq> 0"
  shows "heap_inv h'" "p mod 8 = 0" "heap_start h' = heap_start h" "heap_total h' = heap_total h"
    "\<exists>s \<ge> ALIGN n 8. heap_live h' = insert (p, s) (heap_live h) \<and> p \<notin> fst ` heap_live h
       \<and> (\<forall>r \<in> heap_live h. region r \<inter> region (p, s) = {})"
    "\<forall>r \<in> heap_live h. same_on (region r) (hmem h) (hmem h')"
proof -
  have n: "0 < n" using assms kmalloc_null [of h] by (cases "n = 0") auto
  from kmalloc_refines [OF assms(1) n] assms(2,3) obtain bs' m' where
    ff: "ff_alloc (ALIGN n 8) HEAP_WALK_MAX (heap_blocks h) (heap_start h) = Some (bs', p)"
    and h': "h' = h\<lparr>hmem := m'\<rparr>" and i: "heap_inv (h\<lparr>hmem := m'\<rparr>)"
    and bs': "heap_blocks (h\<lparr>hmem := m'\<rparr>) = bs'"
    and so: "same_on (- hdr_bytes bs' (heap_start h)) (hmem h) m'"
    by (auto split: option.splits)
  from ff_alloc_live [OF ff] obtain s where s: "ALIGN n 8 \<le> s"
    "heap_live h' = insert (p, s) (heap_live h)" "p \<notin> fst ` heap_live h"
    unfolding heap_live_def h' bs' by auto
  show "heap_inv h'" using i h' by simp
  show "heap_start h' = heap_start h" "heap_total h' = heap_total h" by (simp_all add: h')
  have live': "r \<in> heap_live h \<Longrightarrow> r \<in> set (live bs' (heap_start h))" for r
    using s(2) by (auto simp: heap_live_def h' bs')
  have pin: "(p, s) \<in> set (live bs' (heap_start h))" using s(2) by (auto simp: heap_live_def h' bs')
  then show "p mod 8 = 0" using live_aligned [OF _ pin] i bs' by (auto simp: heap_inv_def)
  show "\<exists>s \<ge> ALIGN n 8. heap_live h' = insert (p, s) (heap_live h) \<and> p \<notin> fst ` heap_live h
       \<and> (\<forall>r \<in> heap_live h. region r \<inter> region (p, s) = {})"
    using s live_pairwise_disjoint [OF live' pin] by (intro exI [of _ s]) force
  show "\<forall>r \<in> heap_live h. same_on (region r) (hmem h) (hmem h')"
    using live_hdr_disjoint [OF live'] by (auto simp: h' intro!: same_on_mono [OF so])
qed

lemma kmalloc_failure:
  assumes "heap_inv h" "0 < n" "kmalloc h n = (h', 0)"
  shows "h' = h" "\<forall>b \<in> set (take HEAP_WALK_MAX (heap_blocks h)). bfree b \<longrightarrow> bsize b < ALIGN n 8"
proof -
  have "ff_alloc (ALIGN n 8) HEAP_WALK_MAX (heap_blocks h) (heap_start h) = None"
  proof (rule ccontr)
    assume "\<not> ?thesis"
    then obtain bs' q where ff: "ff_alloc (ALIGN n 8) HEAP_WALK_MAX (heap_blocks h) (heap_start h) = Some (bs', q)"
      by auto
    with kmalloc_refines [OF assms(1,2)] assms(3) have [simp]: "q = 0" by auto
    from ff_alloc_live [OF ff] obtain s where "(q, s) \<in> set (live bs' (heap_start h))" by auto
    from live_range [OF this] show False by (simp add: HDR_def)
  qed
  with kmalloc_refines [OF assms(1,2)] assms(3)
  show "h' = h" "\<forall>b \<in> set (take HEAP_WALK_MAX (heap_blocks h)). bfree b \<longrightarrow> bsize b < ALIGN n 8"
    by (auto simp: ff_alloc_None)
qed

lemma heap_inv_chain:
  "heap_inv h \<Longrightarrow> chain (hmem h) (heap_start h) (heap_blocks h) (heap_start h)
     (heap_start h + HDR + heap_total h)"
  and heap_inv_bounds: "heap_inv h \<Longrightarrow> heap_bounds h"
  by (simp_all add: heap_inv_def)

lemma live_pointer:
  assumes "heap_inv h" "(p, s) \<in> heap_live h"
  shows "heap_start h + HDR \<le> p" "p + s \<le> heap_end h" "p < M64" "p mod 8 = 0"
    "heap_header_valid h (p - HDR)" "hdr_magic (hmem h) (p - HDR) = HEAP_MAGIC"
    "hdr_free (hmem h) (p - HDR) = 0"
proof -
  note c = heap_inv_chain [OF assms(1)] and b = heap_inv_bounds [OF assms(1)]
  from assms(2) have l: "(p, s) \<in> set (live (heap_blocks h) (heap_start h))"
    by (simp add: heap_live_def)
  note r = live_range [OF l, simplified] and sp = chain_span [OF c]
  from r sp show 1: "heap_start h + HDR \<le> p" "p + s \<le> heap_end h"
    by (simp_all add: heap_end_eq [OF b])
  then show "p < M64" using b by (simp add: heap_end_eq [OF b]) (simp add: heap_bounds_def)
  from live_aligned [OF c l] show "p mod 8 = 0" by simp
  from mark_free_chain [OF c l] 1 show "hdr_magic (hmem h) (p - HDR) = HEAP_MAGIC"
    "hdr_free (hmem h) (p - HDR) = 0" "heap_header_valid h (p - HDR)"
    by (auto simp: header_valid_eq [OF b] heap_end_eq [OF b])
qed

lemma kfree_header_live:
  assumes "heap_inv h" "(p, s) \<in> heap_live h" "0 < s"
  shows "kfree_header h p = Some (p - HDR)"
proof -
  note l = live_pointer [OF assms(1,2)] and b = heap_inv_bounds [OF assms(1)]
  have "add64 (heap_start h) HDR = heap_start h + HDR" "sub64 p HDR = p - HDR"
    using l b by (simp_all add: add64_small sub64_small heap_bounds_def)
  with l b assms(3) show ?thesis
    by (auto simp: kfree_header_def Let_def heap_bounds_def HDR_def)
qed

text \<open>
  Freeing a live region: exactly that region disappears, the rest keep their bytes, and
  (for a heap of at most \<open>HEAP_WALK_MAX\<close> blocks) no two free blocks stay adjacent.
\<close>
lemma kfree_live:
  assumes "heap_inv h" "(p, s) \<in> heap_live h" "0 < s"
  shows "heap_inv (kfree h p)" "heap_start (kfree h p) = heap_start h"
    "heap_total (kfree h p) = heap_total h"
    "heap_live (kfree h p) = {r \<in> heap_live h. fst r \<noteq> p}"
    "\<forall>r \<in> heap_live (kfree h p). same_on (region r) (hmem h) (hmem (kfree h p))"
    "length (heap_blocks h) \<le> HEAP_WALK_MAX \<Longrightarrow> no_adjacent_free (heap_blocks (kfree h p))"
proof -
  let ?a = "heap_start h" and ?bs = "mark_free p (heap_blocks h) (heap_start h)"
  let ?h = "h\<lparr>hmem := set_free (hmem h) (p - HDR) 1\<rparr>"
  note l = live_pointer [OF assms(1,2)]
  have k: "kfree h p = coalesce ?h"
    using kfree_header_live [OF assms] l by (simp add: kfree_def)
  from assms(2) have lv: "(p, s) \<in> set (live (heap_blocks h) ?a)" by (simp add: heap_live_def)
  note mc = mark_free_chain [OF heap_inv_chain [OF assms(1)] lv]
  note ml = mark_free_live [OF lv]
  obtain m' where m': "coalesce ?h = h\<lparr>hmem := m'\<rparr>"
    "chain m' ?a (merge_blks HEAP_WALK_MAX ?bs) ?a (?a + HDR + heap_total h)"
    "same_on (- hdr_bytes ?bs ?a) (hmem ?h) m'"
    using coalesce_loop_refines [of ?h ?a ?bs ?a 0] mc heap_inv_bounds [OF assms(1)]
    by (auto simp: coalesce_def)
  note i = heap_inv_upd [OF assms(1) m'(2)] and km = trans [OF k m'(1)]
  show "heap_inv (kfree h p)" "heap_start (kfree h p) = heap_start h"
    "heap_total (kfree h p) = heap_total h" using i by (simp_all add: km)
  show live: "heap_live (kfree h p) = {r \<in> heap_live h. fst r \<noteq> p}"
    using ml i(2) by (simp add: heap_live_def km)
  have hb: "{p - HDR ..< p - HDR + HDR} \<subseteq> hdr_bytes (heap_blocks h) ?a" using mc l by auto
  have "same_on (- hdr_bytes (heap_blocks h) ?a) (hmem h) (hmem ?h)"
    using hb by (auto intro!: same_on_set)
  from same_on_trans [OF this] m'(3) ml
  have so: "same_on (- hdr_bytes (heap_blocks h) ?a) (hmem h) m'" by simp
  show "\<forall>r \<in> heap_live (kfree h p). same_on (region r) (hmem h) (hmem (kfree h p))"
  proof
    fix r
    assume "r \<in> heap_live (kfree h p)"
    then have "r \<in> set (live (heap_blocks h) ?a)" using live by (simp add: heap_live_def)
    from live_hdr_disjoint [OF this] have "region r \<subseteq> - hdr_bytes (heap_blocks h) ?a" by blast
    then show "same_on (region r) (hmem h) (hmem (kfree h p))"
      by (simp add: km same_on_mono [OF so])
  qed
  assume "length (heap_blocks h) \<le> HEAP_WALK_MAX"
  with ml have "length ?bs \<le> Suc HEAP_WALK_MAX" by simp
  from merge_blks_no_adjacent [OF this] show "no_adjacent_free (heap_blocks (kfree h p))"
    using i(2) by (simp add: km)
qed

lemma kfree_outside:
  assumes "heap_inv h" "p < heap_start h + HDR \<or> heap_end h \<le> p"
  shows "kfree h p = h"
proof -
  have "add64 (heap_start h) HDR = heap_start h + HDR"
    using heap_inv_bounds [OF assms(1)] by (simp add: add64_small heap_bounds_def)
  with assms(2) have "kfree_header h p = None" by (auto simp: kfree_header_def Let_def)
  then show ?thesis by (simp add: kfree_def)
qed

text \<open>A second free of the same pointer, with nothing allocated in between, is ignored
  when the block was not merged away.\<close>
lemma kfree_free_block:
  assumes "heap_inv h" "kfree_header h p = Some q" "hdr_free (hmem h) q \<noteq> 0"
  shows "kfree h p = h"
  using assms by (simp add: kfree_def)

subsection \<open>The statistics\<close>

lemma free_bytes_loop_chain:
  "chain m p bs a e \<Longrightarrow>
     free_bytes_loop m p t = Some (foldl (\<lambda>t b. if bfree b then (t + bsize b) mod M32 else t) t bs)"
proof (induction bs arbitrary: p a t)
  case Nil
  then show ?case by (simp add: free_bytes_loop.simps)
next
  case (Cons b bs)
  then show ?case by (subst free_bytes_loop.simps) auto
qed

lemma free_sum_le_span: "(\<Sum>b \<leftarrow> filter bfree bs. bsize b) + HDR * length bs \<le> span bs"
  by (induction bs) auto

lemma foldl_free_small:
  assumes "t + (\<Sum>b \<leftarrow> filter bfree bs. bsize b) < M32"
  shows "foldl (\<lambda>t b. if bfree b then (t + bsize b) mod M32 else t) t bs
     = t + (\<Sum>b \<leftarrow> filter bfree bs. bsize b)"
  using assms
proof (induction bs arbitrary: t)
  case Nil
  then show ?case by simp
next
  case (Cons b bs)
  then show ?case by (cases "bfree b") (simp_all add: add.assoc)
qed

lemma heap_free_bytes_eq:
  assumes "heap_inv h"
  shows "heap_free_bytes h = Some (\<Sum>b \<leftarrow> filter bfree (heap_blocks h). bsize b)"
    and "(\<Sum>b \<leftarrow> filter bfree (heap_blocks h). bsize b) \<le> heap_total h"
proof -
  note c = heap_inv_chain [OF assms]
  from c heap_inv_bounds [OF assms] have "heap_blocks h \<noteq> []"
    by (auto simp: heap_bounds_def)
  then have "HDR \<le> HDR * length (heap_blocks h)" by (simp add: HDR_def Suc_leI)
  with free_sum_le_span [of "heap_blocks h"] chain_span [OF c]
  show le: "(\<Sum>b \<leftarrow> filter bfree (heap_blocks h). bsize b) \<le> heap_total h" by linarith
  with heap_inv_bounds [OF assms]
  have "0 + (\<Sum>b \<leftarrow> filter bfree (heap_blocks h). bsize b) < M32" by (simp add: heap_bounds_def)
  from foldl_free_small [OF this] free_bytes_loop_chain [OF c, of 0]
  show "heap_free_bytes h = Some (\<Sum>b \<leftarrow> filter bfree (heap_blocks h). bsize b)"
    by (simp add: heap_free_bytes_def)
qed

subsection \<open>Aligned allocation\<close>

lemma heap_user_write:
  fixes v :: nat
  assumes "heap_inv h" "(q, s) \<in> heap_live h" "q \<le> x" "x + n \<le> q + s"
  defines "h' \<equiv> h\<lparr>hmem := st (hmem h) x n v\<rparr>"
  shows "heap_inv h'" "heap_blocks h' = heap_blocks h" "heap_live h' = heap_live h"
proof -
  have "region (q, s) \<inter> hdr_bytes (heap_blocks h) (heap_start h) = {}"
    using assms(2) by (intro live_hdr_disjoint) (simp add: heap_live_def)
  moreover have "{x ..< x + n} \<subseteq> region (q, s)" using assms(3,4) by auto
  ultimately have "same_on (hdr_bytes (heap_blocks h) (heap_start h)) (hmem h) (st (hmem h) x n v)"
    by (intro same_on_st) blast
  note c = chain_frame [OF heap_inv_chain [OF assms(1)] this]
  from heap_inv_upd [OF assms(1) c] show "heap_inv h'" "heap_blocks h' = heap_blocks h"
    by (simp_all add: h'_def)
  then show "heap_live h' = heap_live h" by (simp add: heap_live_def h'_def)
qed

text \<open>
  A successful aligned allocation lies inside one newly allocated block, whose address is
  kept in the eight bytes below the result.
\<close>
lemma kmalloc_aligned_success:
  assumes "heap_inv h" "3 < k" "k < 64" "n + 2 ^ k + 15 < M64"
    "kmalloc_aligned h n (2 ^ k) = (h', p)" "p \<noteq> 0"
  shows "heap_inv h'" "p mod 2 ^ k = 0"
    "\<exists>raw s. heap_live h' = insert (raw, s) (heap_live h) \<and> raw \<notin> fst ` heap_live h \<and> 0 < s
       \<and> raw + 8 \<le> p \<and> p + n \<le> raw + s \<and> ld (hmem h') (p - 8) 8 = raw"
proof -
  have al: "\<not> (2 ^ k :: nat) \<le> 8" using assms(2) power_increasing [of 4 k "2 :: nat"] by simp
  have tot: "add64 (add64 n (2 ^ k)) 8 = n + 2 ^ k + 8" using assms(4) by (simp add: add64_small)
  obtain h1 raw where k: "kmalloc h (n + 2 ^ k + 8) = (h1, raw)" by fastforce
  with assms(5,6) al tot have raw: "raw \<noteq> 0"
    by (cases "raw = 0") (simp_all add: kmalloc_aligned_def)
  note ks = kmalloc_success [OF assms(1) k raw]
  from ks(5) obtain s where s: "ALIGN (n + 2 ^ k + 8) 8 \<le> s" "heap_live h1 = insert (raw, s) (heap_live h)"
    "raw \<notin> fst ` heap_live h" by auto
  have sz: "n + 2 ^ k + 8 \<le> s" using s(1) ALIGN_8_ge [of "n + 2 ^ k + 8"] assms(4) by simp
  have rl: "(raw, s) \<in> heap_live h1" using s by simp
  note lp = live_pointer [OF ks(1) rl]
  have end1: "raw + s < M64"
    using lp(2) heap_inv_bounds [OF ks(1)] heap_end_eq [of h1] by (simp add: heap_bounds_def)
  have r8: "add64 raw 8 = raw + 8" using end1 sz by (simp add: add64_small)
  have ab: "raw + 8 \<le> ALIGN (raw + 8) (2 ^ k)" "ALIGN (raw + 8) (2 ^ k) < raw + 8 + 2 ^ k"
    using ALIGN_pow2_ge [of k "raw + 8"] assms(3) end1 sz by auto
  have p: "p = ALIGN (raw + 8) (2 ^ k)" "h' = h1\<lparr>hmem := st (hmem h1) (p - 8) 8 raw\<rparr>"
    using assms(5) al tot k raw r8 ab end1 sz
    by (auto simp: kmalloc_aligned_def Let_def sub64_small)
  have in_blk: "raw \<le> p - 8" "p - 8 + 8 \<le> raw + s" "8 \<le> p" using ab p(1) sz by auto
  note w = heap_user_write [OF ks(1) rl in_blk(1,2)]
  show "heap_inv h'" unfolding p(2) by (rule w)
  show "p mod 2 ^ k = 0" unfolding p(1) by (rule ALIGN_pow2_dvd [OF assms(3)])
  have "raw < M64" using end1 by simp
  then have "ld (hmem h') (p - 8) 8 = raw" unfolding p(2) by simp
  with w(3) s sz ab p show "\<exists>raw s. heap_live h' = insert (raw, s) (heap_live h) \<and> raw \<notin> fst ` heap_live h \<and> 0 < s
       \<and> raw + 8 \<le> p \<and> p + n \<le> raw + s \<and> ld (hmem h') (p - 8) 8 = raw"
    by (intro exI [of _ raw] exI [of _ s]) auto
qed

text \<open>
  \<open>kfree\<close> of an aligned pointer reaches the block behind it, provided the word 32 bytes
  below the pointer does not happen to look like a block header.
\<close>
lemma kfree_via_back_pointer:
  assumes "heap_inv h" "(raw, s) \<in> heap_live h" "raw + 8 \<le> p" "p < raw + s"
    "ld (hmem h) (p - 8) 8 = raw" "hdr_magic (hmem h) (p - HDR) \<noteq> HEAP_MAGIC"
  shows "kfree h p = kfree h raw"
proof -
  note l = live_pointer [OF assms(1,2)] and b = heap_inv_bounds [OF assms(1)]
  have adds: "add64 (heap_start h) HDR = heap_start h + HDR" "add64 (heap_start h) 8 = heap_start h + 8"
    "sub64 p HDR = p - HDR" "sub64 p 8 = p - 8" "sub64 raw HDR = raw - HDR"
    using l b assms(3,4) by (simp_all add: add64_small sub64_small heap_bounds_def heap_end_eq HDR_def)
  have hdr8: "8 < HDR" by (simp add: HDR_def)
  have "kfree_header h p = Some (raw - HDR)"
    using l(1-3) b assms(3-6) hdr8 by (auto simp: kfree_header_def Let_def adds heap_bounds_def)
  moreover have "kfree_header h raw = Some (raw - HDR)"
    using kfree_header_live [OF assms(1,2)] assms(3,4) by simp
  ultimately show ?thesis by (simp add: kfree_def)
qed

subsection \<open>The allocator interface\<close>

text \<open>
  What the rest of the kernel relies on: allocation hands out fresh disjoint regions or
  fails without a change, freeing takes one region away, and neither touches the bytes of
  another live region.
\<close>

locale allocator =
  fixes alloc :: "'h \<Rightarrow> nat \<Rightarrow> 'h \<times> nat"
    and dealloc :: "'h \<Rightarrow> nat \<Rightarrow> 'h"
    and invar :: "'h \<Rightarrow> bool"
    and regions :: "'h \<Rightarrow> (nat \<times> nat) set"
    and bytes :: "'h \<Rightarrow> nat \<Rightarrow> u8"
    and room :: "nat \<Rightarrow> nat"
  assumes alloc_fresh: "invar h \<Longrightarrow> alloc h n = (h', p) \<Longrightarrow> p \<noteq> 0 \<Longrightarrow>
      invar h' \<and> (\<exists>s \<ge> room n. regions h' = insert (p, s) (regions h) \<and> p \<notin> fst ` regions h
        \<and> (\<forall>r \<in> regions h. region r \<inter> region (p, s) = {}))"
    and alloc_fail: "invar h \<Longrightarrow> alloc h n = (h', 0) \<Longrightarrow> h' = h"
    and alloc_frame: "invar h \<Longrightarrow> alloc h n = (h', p) \<Longrightarrow> r \<in> regions h \<Longrightarrow> x \<in> region r \<Longrightarrow>
      bytes h' x = bytes h x"
    and dealloc_live: "invar h \<Longrightarrow> (p, s) \<in> regions h \<Longrightarrow> 0 < s \<Longrightarrow>
      invar (dealloc h p) \<and> regions (dealloc h p) = {r \<in> regions h. fst r \<noteq> p}"
    and dealloc_frame: "invar h \<Longrightarrow> (p, s) \<in> regions h \<Longrightarrow> 0 < s \<Longrightarrow> r \<in> regions h \<Longrightarrow>
      fst r \<noteq> p \<Longrightarrow> x \<in> region r \<Longrightarrow> bytes (dealloc h p) x = bytes h x"
begin

lemma alloc_dealloc_regions:
  assumes "invar h" "alloc h n = (h', p)" "p \<noteq> 0" "0 < room n"
  shows "regions (dealloc h' p) = regions h" "invar (dealloc h' p)"
proof -
  from alloc_fresh [OF assms(1-3)] obtain s where s: "invar h'" "room n \<le> s"
    "regions h' = insert (p, s) (regions h)" "p \<notin> fst ` regions h" by auto
  with assms(4) dealloc_live [of h' p s] show "regions (dealloc h' p) = regions h" "invar (dealloc h' p)"
    by (auto simp: image_iff)
qed

lemma alloc_dealloc_bytes:
  assumes "invar h" "alloc h n = (h', p)" "p \<noteq> 0" "0 < room n" "r \<in> regions h" "x \<in> region r"
  shows "bytes (dealloc h' p) x = bytes h x"
proof -
  from alloc_fresh [OF assms(1-3)] obtain s where s: "invar h'" "room n \<le> s"
    "regions h' = insert (p, s) (regions h)" "p \<notin> fst ` regions h" by auto
  have "fst r \<noteq> p" using s(4) assms(5) by auto
  with dealloc_frame [of h' p s r x] s assms have "bytes (dealloc h' p) x = bytes h' x" by auto
  with alloc_frame [OF assms(1,2,5,6)] show ?thesis by simp
qed

end

interpretation kheap: allocator kmalloc kfree heap_inv heap_live hmem
  "\<lambda>n. ALIGN n 8"
proof unfold_locales
  fix h n h' p
  assume "heap_inv h" "kmalloc h n = (h', p)" "p \<noteq> 0"
  then show "heap_inv h' \<and> (\<exists>s \<ge> ALIGN n 8. heap_live h' = insert (p, s) (heap_live h) \<and> p \<notin> fst ` heap_live h
        \<and> (\<forall>r \<in> heap_live h. region r \<inter> region (p, s) = {}))"
    using kmalloc_success [of h n h' p] by auto
next
  fix h n h'
  assume "heap_inv h" "kmalloc h n = (h', 0)"
  then show "h' = h" by (cases "n = 0") (auto simp: kmalloc_null dest: kmalloc_failure(1) [of h n])
next
  fix h n h' p r x
  assume "heap_inv h" "kmalloc h n = (h', p)" "r \<in> heap_live h" "x \<in> region r"
  then show "hmem h' x = hmem h x"
    using kmalloc_success(6) [of h n h' p] kmalloc_failure(1) [of h n h']
    by (cases "p = 0"; cases "n = 0") (auto simp: same_on_def kmalloc_null)
next
  fix h p s
  assume "heap_inv h" "(p, s) \<in> heap_live h" "0 < s"
  then show "heap_inv (kfree h p) \<and> heap_live (kfree h p) = {r \<in> heap_live h. fst r \<noteq> p}"
    using kfree_live by blast
next
  fix h p s r x
  assume "heap_inv h" "(p, s) \<in> heap_live h" "0 < s" "r \<in> heap_live h" "fst r \<noteq> p" "x \<in> region r"
  then show "hmem (kfree h p) x = hmem h x"
    using kfree_live(4,5) [of h p s] unfolding same_on_def by blast
qed

subsection \<open>Reachable heaps\<close>

text \<open>
  The heaps that callers can produce: an initialised heap, then allocations, frees of
  live pointers and writes inside live regions, in any order.
\<close>

inductive heap_reach :: "heap \<Rightarrow> bool" where
  init: "0 < start \<Longrightarrow> ALIGN start 16 - start + HDR + 16 \<le> sz \<Longrightarrow> sz < M32 \<Longrightarrow>
    start + sz < M64 - 16 \<Longrightarrow> heap_reach (heap_init h start sz)"
| malloc: "heap_reach h \<Longrightarrow> heap_reach (fst (kmalloc h n))"
| malloc_aligned: "heap_reach h \<Longrightarrow> 3 < k \<Longrightarrow> k < 64 \<Longrightarrow> n + 2 ^ k + 15 < M64 \<Longrightarrow>
    heap_reach (fst (kmalloc_aligned h n (2 ^ k)))"
| free: "heap_reach h \<Longrightarrow> (p, s) \<in> heap_live h \<Longrightarrow> 0 < s \<Longrightarrow> heap_reach (kfree h p)"
| user_write: "heap_reach h \<Longrightarrow> (q, s) \<in> heap_live h \<Longrightarrow> q \<le> x \<Longrightarrow> x + n \<le> q + s \<Longrightarrow>
    heap_reach (h\<lparr>hmem := st (hmem h) x n v\<rparr>)"

lemma kmalloc_inv [inv_intros]: "heap_inv h \<Longrightarrow> heap_inv (fst (kmalloc h n))"
proof (cases "n = 0 \<or> snd (kmalloc h n) = 0")
  case True
  assume "heap_inv h"
  with True show ?thesis
    using kmalloc_failure(1) [of h n "fst (kmalloc h n)"]
    by (cases "n = 0"; cases "kmalloc h n") (auto simp: kmalloc_null)
next
  case False
  assume "heap_inv h"
  with False show ?thesis
    using kmalloc_success(1) [of h n "fst (kmalloc h n)" "snd (kmalloc h n)"] by simp
qed

lemma kmalloc_aligned_inv [inv_intros]:
  assumes "heap_inv h" "3 < k" "k < 64" "n + 2 ^ k + 15 < M64"
  shows "heap_inv (fst (kmalloc_aligned h n (2 ^ k)))"
proof (cases "snd (kmalloc_aligned h n (2 ^ k)) = 0")
  case False
  then show ?thesis
    using kmalloc_aligned_success(1) [OF assms, of "fst (kmalloc_aligned h n (2 ^ k))"
        "snd (kmalloc_aligned h n (2 ^ k))"] by simp
next
  case True
  let ?n = "add64 (add64 n (2 ^ k)) 8"
  have al: "\<not> (2 ^ k :: nat) \<le> 8" using assms(2) power_increasing [of 4 k "2 :: nat"] by simp
  show ?thesis
  proof (cases "snd (kmalloc h ?n) = 0")
    case True
    then show ?thesis using al kmalloc_inv [OF assms(1), of ?n]
      by (simp add: kmalloc_aligned_def split_beta)
  next
    case raw: False
    have tot: "?n = n + 2 ^ k + 8" using assms(4) by (simp add: add64_small)
    define h1 where "h1 = fst (kmalloc h ?n)"
    define raw where "raw = snd (kmalloc h ?n)"
    have k: "kmalloc h ?n = (h1, raw)" "raw \<noteq> 0" using raw by (simp_all add: h1_def raw_def)
    note ks = kmalloc_success [OF assms(1) k]
    from ks(5) obtain s where s: "ALIGN ?n 8 \<le> s" "(raw, s) \<in> heap_live h1" by auto
    have "?n \<le> s" using s(1) ALIGN_8_ge [of ?n] assms(4) by (simp add: tot)
    moreover have "raw + s < M64" using live_pointer(2) [OF ks(1) s(2)] heap_inv_bounds [OF ks(1)]
        heap_end_eq [of h1] by (simp add: heap_bounds_def)
    ultimately have "0 < ALIGN (add64 raw 8) (2 ^ k)"
      using ALIGN_pow2_ge(1) [of k "raw + 8"] assms(3) by (simp add: add64_small tot)
    moreover have "ALIGN (add64 raw 8) (2 ^ k) = 0"
      using True al k by (simp add: kmalloc_aligned_def Let_def)
    ultimately show ?thesis by simp
  qed
qed

lemma heap_reach_inv: "heap_reach h \<Longrightarrow> heap_inv h"
proof (induction rule: heap_reach.induct)
  case (init start sz h)
  then show ?case by (rule heap_init_inv(1))
next
  case (free h p s)
  then show ?case by (blast intro: kfree_live(1))
next
  case (user_write h q s x n v)
  then show ?case by (blast intro: heap_user_write(1))
qed (simp_all add: inv_intros)

subsection \<open>A stale header\<close>

text \<open>
  Merging leaves the bytes of an absorbed header in place.  When an aligned block later
  covers them, \<open>kfree\<close> takes the old header for the real one.  The run below is on any
  memory contents.
\<close>

lemmas heap_eval = ALIGN_pow2 [of 7, simplified] ALIGN_8 ALIGN_16 Let_def HDR_def HEAP_MAGIC_def
  MIN_SPLIT_def HEAP_WALK_MAX_def add64_def sub64_def heap_header_valid_def heap_end_def

definition stale1 :: "mem \<Rightarrow> mem" where
  "stale1 m = set_next (set_free (set_size (set_magic m 4096 HEAP_MAGIC) 4096 992) 4096 1) 4096 0"
definition stale2 :: "mem \<Rightarrow> mem" where
  "stale2 m = take_block (stale1 m) 4096 64"
definition stale3 :: "mem \<Rightarrow> mem" where
  "stale3 m = set_next (set_size (set_free (stale2 m) 4096 1) 4096 992) 4096 0"
definition stale4 :: "mem \<Rightarrow> mem" where
  "stale4 m = st (take_block (stale3 m) 4096 200) 4216 8 4128"

abbreviation stale_heap :: "heap \<Rightarrow> mem \<Rightarrow> heap" where
  "stale_heap h m \<equiv> h\<lparr>hmem := m, heap_start := 4096, heap_total := 992\<rparr>"

lemma stale1_hdr:
  "hdr_magic (stale1 m) 4096 = HEAP_MAGIC" "hdr_size (stale1 m) 4096 = 992"
  "hdr_free (stale1 m) 4096 = 1" "hdr_next (stale1 m) 4096 = 0"
  by (simp_all add: stale1_def HEAP_MAGIC_def)

lemma stale2_hdr:
  "hdr_magic (stale2 m) 4096 = HEAP_MAGIC" "hdr_size (stale2 m) 4096 = 64"
  "hdr_free (stale2 m) 4096 = 0" "hdr_next (stale2 m) 4096 = 4192"
  "hdr_magic (stale2 m) 4192 = HEAP_MAGIC" "hdr_size (stale2 m) 4192 = 896"
  "hdr_free (stale2 m) 4192 = 1" "hdr_next (stale2 m) 4192 = 0"
  by (simp_all add: stale2_def take_block_def stale1_hdr heap_eval)

lemma stale3_hdr:
  "hdr_magic (stale3 m) 4096 = HEAP_MAGIC" "hdr_size (stale3 m) 4096 = 992"
  "hdr_free (stale3 m) 4096 = 1" "hdr_next (stale3 m) 4096 = 0"
  "hdr_magic (stale3 m) 4192 = HEAP_MAGIC" "hdr_free (stale3 m) 4192 = 1"
  by (simp_all add: stale3_def stale2_hdr HDR_def)

lemma stale4_hdr:
  "hdr_magic (stale4 m) 4192 = HEAP_MAGIC" "hdr_free (stale4 m) 4192 = 1"
  "hdr_free (stale4 m) 4096 = 0" "ld (stale4 m) 4216 8 = 4128"
proof -
  have "hdr_magic (take_block (stale3 m) 4096 200) 4192 = HEAP_MAGIC"
    "hdr_free (take_block (stale3 m) 4096 200) 4192 = 1"
    "hdr_free (take_block (stale3 m) 4096 200) 4096 = 0"
    by (simp_all add: take_block_def stale3_hdr heap_eval)
  then show "hdr_magic (stale4 m) 4192 = HEAP_MAGIC" "hdr_free (stale4 m) 4192 = 1"
    "hdr_free (stale4 m) 4096 = 0" "ld (stale4 m) 4216 8 = 4128"
    by (simp_all add: stale4_def hdr_magic_def hdr_free_def)
qed

lemma stale_init: "heap_init h 4096 1024 = stale_heap h (stale1 (hmem h))"
  by (simp add: heap_init_def stale1_def heap_eval)

lemma stale_malloc: "kmalloc (stale_heap h (stale1 m)) 64 = (stale_heap h (stale2 m), 4128)"
  by (simp add: kmalloc_def ALIGN_8 kmalloc_loop.simps [of _ 64 4096 0] stale1_hdr stale2_def
      heap_header_valid_def heap_end_def add64_def sub64_def HDR_def HEAP_WALK_MAX_def)

lemma stale_free: "kfree (stale_heap h (stale2 m)) 4128 = stale_heap h (stale3 m)"
  by (simp add: kfree_def kfree_header_def coalesce_def coalesce_loop.simps [of _ 4096]
      stale2_hdr stale3_def heap_header_valid_def heap_end_def add64_def sub64_def HDR_def HEAP_WALK_MAX_def Let_def)

lemma stale_malloc_aligned:
  "kmalloc_aligned (stale_heap h (stale3 m)) 64 128 = (stale_heap h (stale4 m), 4224)"
  by (simp add: kmalloc_aligned_def kmalloc_def ALIGN_8 ALIGN_pow2 [of 7, simplified]
      kmalloc_loop.simps [of _ 200 4096 0] stale3_hdr stale4_def heap_header_valid_def
      heap_end_def add64_def sub64_def HDR_def HEAP_WALK_MAX_def)

lemma stale_free_ignored: "kfree (stale_heap h (stale4 m)) 4224 = stale_heap h (stale4 m)"
  by (simp add: kfree_def kfree_header_def stale4_hdr heap_header_valid_def heap_end_def add64_def
      sub64_def HDR_def Let_def)

subsection \<open>Properties\<close>

text \<open>A concrete heap for the witnesses: 1024 bytes at address 4096 of zeroed memory.\<close>
definition boot_heap :: heap where
  "boot_heap = heap_init \<lparr>hmem = (\<lambda>_. 0), heap_start = 0, heap_total = 0\<rparr> 4096 1024"

lemma boot_heap_reach: "heap_reach boot_heap"
  unfolding boot_heap_def by (rule heap_reach.init) (simp_all add: ALIGN_16 HDR_def)

lemma boot_heap_inv: "heap_inv boot_heap" "heap_blocks boot_heap = [Blk 992 True]"
  using heap_init_inv [of 4096 1024 "\<lparr>hmem = (\<lambda>_. 0), heap_start = 0, heap_total = 0\<rparr>"]
  by (simp_all add: boot_heap_def ALIGN_16 HDR_def)

lemma boot_heap_start: "heap_start boot_heap = 4096" "heap_total boot_heap = 992"
  by (simp_all add: boot_heap_def stale_init)

lemma boot_heap_malloc: "snd (kmalloc boot_heap 64) = 4128"
  by (simp only: boot_heap_def stale_init stale_malloc snd_conv)

lemma boot_heap_live:
  "kmalloc boot_heap 64 = (fst (kmalloc boot_heap 64), 4128)"
  "(4128, 64) \<in> heap_live (fst (kmalloc boot_heap 64))"
proof -
  show k: "kmalloc boot_heap 64 = (fst (kmalloc boot_heap 64), 4128)"
    by (metis boot_heap_malloc prod.collapse)
  have "ff_alloc (ALIGN 64 8) HEAP_WALK_MAX (heap_blocks boot_heap) (heap_start boot_heap)
      = Some ([Blk 64 False, Blk 896 True], 4128)"
    by (simp add: boot_heap_inv boot_heap_start ALIGN_8 HDR_def take_blk_def MIN_SPLIT_def HEAP_WALK_MAX_def)
  with kmalloc_refines [OF boot_heap_inv(1), of 64]
  have "heap_blocks (fst (kmalloc boot_heap 64)) = [Blk 64 False, Blk 896 True]"
    "heap_start (fst (kmalloc boot_heap 64)) = 4096" by (auto simp: boot_heap_start)
  then show "(4128, 64) \<in> heap_live (fst (kmalloc boot_heap 64))"
    by (simp add: heap_live_def HDR_def)
qed





text \<open>
  C19.  \<open>kmalloc\<close> of a non-zero size fails exactly when none of the first 65536 blocks is
  free and large enough, and a failed call changes nothing.
\<close>
theorem kmalloc_null_iff:
  assumes "heap_inv h" "0 < n"
  shows "(snd (kmalloc h n) = 0 \<longleftrightarrow>
      (\<forall>b \<in> set (take HEAP_WALK_MAX (heap_blocks h)). bfree b \<longrightarrow> bsize b < ALIGN n 8))
    \<and> (snd (kmalloc h n) = 0 \<longrightarrow> fst (kmalloc h n) = h)"
proof -
  obtain h' p where k: "kmalloc h n = (h', p)" by fastforce
  have "p = 0 \<Longrightarrow> h' = h" using kmalloc_failure(1) [OF assms] k by simp
  moreover have "p = 0 \<longleftrightarrow>
      (\<forall>b \<in> set (take HEAP_WALK_MAX (heap_blocks h)). bfree b \<longrightarrow> bsize b < ALIGN n 8)"
    using kmalloc_failure(2) [OF assms] kmalloc_refines [OF assms] k
    by (auto simp: ff_alloc_None [symmetric, where a = "heap_start h"])
  ultimately show ?thesis using k by simp
qed

theorem kmalloc_null_iff_witness: "snd (kmalloc boot_heap 64) \<noteq> 0"
  using kmalloc_null_iff [OF boot_heap_inv(1), of 64] boot_heap_inv(2)
  by (simp add: HEAP_WALK_MAX_def ALIGN_8)

text \<open>
  C20.  \<open>kfree\<close> of a live pointer removes exactly its region, keeps the heap well formed
  and the bytes of every other region, and leaves no two adjacent free blocks in a heap
  of at most 65536 blocks.
\<close>
theorem kfree_contract:
  assumes "heap_inv h" "(p, s) \<in> heap_live h" "0 < s"
  shows "heap_inv (kfree h p) \<and> heap_live (kfree h p) = {r \<in> heap_live h. fst r \<noteq> p}
    \<and> (\<forall>r \<in> heap_live (kfree h p). same_on (region r) (hmem h) (hmem (kfree h p)))
    \<and> (length (heap_blocks h) \<le> HEAP_WALK_MAX \<longrightarrow> no_adjacent_free (heap_blocks (kfree h p)))"
  using kfree_live [OF assms] by blast

theorem kfree_contract_witness:
  "(4128, 64) \<notin> heap_live (kfree (fst (kmalloc boot_heap 64)) 4128)"
  using kfree_contract [OF kmalloc_inv [OF boot_heap_inv(1)] boot_heap_live(2)] by simp

text \<open>
  Allocating and freeing again restores the set of live regions and every byte in
  them.
\<close>
theorem kmalloc_kfree_roundtrip:
  assumes "heap_inv h" "kmalloc h n = (h', p)" "p \<noteq> 0" "0 < n" "n + 7 < 2 ^ 64"
  shows "heap_live (kfree h' p) = heap_live h \<and>
    (\<forall>r \<in> heap_live h. \<forall>x \<in> region r. hmem (kfree h' p) x = hmem h x)"
proof -
  have "0 < ALIGN n 8" using ALIGN_8_ge [of n] assms(4,5) by simp
  then show ?thesis
    using kheap.alloc_dealloc_regions(1) [OF assms(1-3)] kheap.alloc_dealloc_bytes [OF assms(1-3)]
    by simp
qed

theorem kmalloc_kfree_roundtrip_witness:
  "heap_live (kfree (fst (kmalloc boot_heap 64)) 4128) = heap_live boot_heap"
  using kmalloc_kfree_roundtrip [OF boot_heap_inv(1) boot_heap_live(1)] by simp

text \<open>
  \<open>kmalloc_aligned\<close> with a power of two above 8 returns a pointer with that
  alignment whose \<open>n\<close> bytes lie inside one new region; \<open>kfree\<close> of that pointer releases
  it, provided the eight bytes 32 below the pointer do not hold the header magic.
\<close>
theorem kmalloc_aligned_roundtrip:
  assumes "heap_inv h" "3 < k" "k < 64" "n + 2 ^ k + 15 < 2 ^ 64" "0 < n"
    "kmalloc_aligned h n (2 ^ k) = (h', p)" "p \<noteq> 0"
  shows "heap_inv h' \<and> p mod 2 ^ k = 0
    \<and> (\<exists>raw s. heap_live h' = insert (raw, s) (heap_live h) \<and> region (p, n) \<subseteq> region (raw, s))
    \<and> (hdr_magic (hmem h') (p - HDR) \<noteq> HEAP_MAGIC \<longrightarrow> heap_live (kfree h' p) = heap_live h)"
proof -
  note s = kmalloc_aligned_success [OF assms(1-4,6,7)]
  from s(3) obtain raw sz where r: "heap_live h' = insert (raw, sz) (heap_live h)"
    "raw \<notin> fst ` heap_live h" "0 < sz" "raw + 8 \<le> p" "p + n \<le> raw + sz"
    "ld (hmem h') (p - 8) 8 = raw" by auto
  have live: "(raw, sz) \<in> heap_live h'" using r(1) by simp
  have "heap_live (kfree h' raw) = heap_live h"
    using kfree_live(4) [OF s(1) live r(3)] r(1,2) by (auto simp: image_iff)
  moreover have "region (p, n) \<subseteq> region (raw, sz)" using r(4,5) by auto
  ultimately show ?thesis
    using s(1,2) r(1) kfree_via_back_pointer [OF s(1) live r(4) _ r(6)] r(5) assms(5) by auto
qed

theorem kmalloc_aligned_roundtrip_witness:
  "snd (kmalloc_aligned (kfree (fst (kmalloc boot_heap 64)) 4128) 64 (2 ^ 7)) mod 2 ^ 7 = 0"
proof -
  let ?z = "\<lparr>hmem = (\<lambda>_. 0), heap_start = 0, heap_total = 0\<rparr>"
  let ?h = "kfree (fst (kmalloc boot_heap 64)) 4128"
  have h: "?h = stale_heap ?z (stale3 (hmem ?z))"
    by (simp only: boot_heap_def stale_init stale_malloc stale_free fst_conv)
  have i: "heap_inv ?h"
    by (rule kfree_live(1) [OF kmalloc_inv [OF boot_heap_inv(1)] boot_heap_live(2)]) simp
  have "(2 :: nat) ^ 7 = 128" by simp
  then have k: "kmalloc_aligned ?h 64 (2 ^ 7) = (stale_heap ?z (stale4 (hmem ?z)), 4224)"
    by (simp only: h stale_malloc_aligned)
  from kmalloc_aligned_roundtrip [OF i _ _ _ _ k] have "(4224 :: nat) mod 2 ^ 7 = 0" by simp
  then show ?thesis by (simp only: k snd_conv)
qed

text \<open>
  The statistics: on a well-formed heap the unbounded walk of \<open>heap_free_bytes\<close>
  returns the exact sum of the free block sizes, and together with \<open>heap_used_bytes\<close> it
  accounts for the whole heap.
\<close>
theorem heap_bytes_account:
  assumes "heap_inv h"
  shows "\<exists>f u. heap_free_bytes h = Some f \<and> heap_used_bytes h = Some u
    \<and> f = (\<Sum>b \<leftarrow> filter bfree (heap_blocks h). bsize b) \<and> f + u = heap_total h"
proof -
  let ?f = "\<Sum>b \<leftarrow> filter bfree (heap_blocks h). bsize b"
  note f = heap_free_bytes_eq [OF assms]
  have "heap_total h < M32" using heap_inv_bounds [OF assms] by (simp add: heap_bounds_def)
  moreover have "heap_total h + (M32 - ?f) = M32 + (heap_total h - ?f)"
    using f(2) \<open>heap_total h < M32\<close> by simp
  ultimately have "(heap_total h + (M32 - ?f)) mod M32 = heap_total h - ?f"
    by (simp only: mod_add_self1) simp
  then have "heap_used_bytes h = Some (heap_total h - ?f)"
    using f(1) by (simp add: heap_used_bytes_def)
  with f show ?thesis by auto
qed

theorem heap_bytes_account_witness: "heap_free_bytes boot_heap = Some 992"
  using heap_bytes_account [OF boot_heap_inv(1)] boot_heap_inv(2) by auto

text \<open>
  The size rounding wraps: a request within 7 bytes of \<open>SIZE_MAX\<close> becomes a request
  for 0 bytes, so it succeeds whenever any of the first blocks is free, with a region of
  fewer than 64 bytes.
\<close>
theorem kmalloc_size_wraps:
  assumes "heap_inv h" "2 ^ 64 - 7 \<le> n" "n < 2 ^ 64"
    "b \<in> set (take HEAP_WALK_MAX (heap_blocks h))" "bfree b"
  shows "\<exists>h' p s. kmalloc h n = (h', p) \<and> p \<noteq> 0 \<and> (p, s) \<in> heap_live h' \<and> s < 64"
proof -
  have n: "(n + 7) mod 18446744073709551616 = n + 7 - 18446744073709551616"
    using assms(2,3) by (simp add: mod_if)
  have a: "ALIGN n 8 = 0" using assms(2,3) n by (simp add: ALIGN_8 Let_def add.commute)
  have "ff_alloc (ALIGN n 8) HEAP_WALK_MAX (heap_blocks h) (heap_start h) \<noteq> None"
    using assms(4,5) by (auto simp: a ff_alloc_None)
  then obtain bs' q where
    ff: "ff_alloc (ALIGN n 8) HEAP_WALK_MAX (heap_blocks h) (heap_start h) = Some (bs', q)" by auto
  from ff_alloc_live [OF ff] obtain s where s: "(q, s) \<in> set (live bs' (heap_start h))" "s < 64"
    by (auto simp: a HDR_def MIN_SPLIT_def)
  have "q \<noteq> 0" using live_range [OF s(1)] by (simp add: HDR_def)
  moreover obtain m' where "kmalloc h n = (h\<lparr>hmem := m'\<rparr>, q)" "heap_blocks (h\<lparr>hmem := m'\<rparr>) = bs'"
    using kmalloc_refines [OF assms(1), of n] assms(2) ff by auto
  ultimately show ?thesis using s by (auto simp: heap_live_def)
qed

theorem kmalloc_size_wraps_witness: "snd (kmalloc boot_heap 18446744073709551615) \<noteq> 0"
  using kmalloc_size_wraps [OF boot_heap_inv(1), of 18446744073709551615 "Blk 992 True"]
  by (auto simp: boot_heap_inv HEAP_WALK_MAX_def)

text \<open>
  A leak: after a 64-byte block is allocated and freed, an aligned allocation covers
  the stale header its split left behind, and \<open>kfree\<close> of that allocation does nothing:
  the block stays allocated.
\<close>
theorem kfree_stale_header_leak:
  "let h1 = heap_init h 4096 1024;
       (h2, a) = kmalloc h1 64;
       h3 = kfree h2 a;
       (h4, p) = kmalloc_aligned h3 64 128
   in p = 4224 \<and> hdr_free (hmem h4) 4096 = 0 \<and> kfree h4 p = h4"
  by (simp add: stale_init stale_malloc stale_free stale_malloc_aligned stale_free_ignored stale4_hdr)

end
