(* ===== verification/Task.thy ===== *)
theory Task
  imports Prelude
begin

section \<open>Tasks and the scheduler state: \<open>src/src/sched.h\<close>, the data of \<open>sched.c\<close>\<close>

text \<open>
  The task control block, the fixed task pool and the scheduler's static variables.  A
  \<open>task_t *\<close> into the pool is the slot index, \<open>None\<close> for \<open>NULL\<close>.  The saved register
  file is kept (\<open>cpu_context_t\<close>); saving and restoring it is \<open>context_switch\<close> in
  \<open>boot/boot.s\<close> and has no counterpart here: what the C code decides is which task is
  \<open>current_task\<close>.
\<close>

definition TASK_MAX :: nat where "TASK_MAX = 16"
definition TASK_STACK_SIZE :: nat where "TASK_STACK_SIZE = 4096"
definition TASK_FD_MAX :: nat where "TASK_FD_MAX = 32"
definition TASK_NO_PARENT :: u32 where "TASK_NO_PARENT = 0xFFFFFFFF"
definition TASK_WAIT_ANY :: u32 where "TASK_WAIT_ANY = 0xFFFFFFFF"

datatype task_state = TASK_UNUSED | TASK_READY | TASK_RUNNING | TASK_BLOCKED | TASK_ZOMBIE

record cpu_context =
  r15 :: u64
  r14 :: u64
  r13 :: u64
  r12 :: u64
  rbp :: u64
  rbx :: u64
  rsp :: u64
  rip :: u64
  rflags :: u64
  cr3 :: u64

record task =
  pid :: u32
  ppid :: u32
  pgid :: u32
  sid :: u32
  uid :: u32
  gid :: u32
  cwd :: string
  umask_value :: u32
  tname :: string
  state :: task_state
  ctx :: cpu_context
  stack_base :: nat
  stack_size :: u32
  ticks :: u64
  created_ticks :: u64
  state_changed_ticks :: u64
  resident_bytes :: u64
  io_read_bytes :: u64
  io_write_bytes :: u64
  context_switches :: u32
  priority :: u32
  exit_code :: int
  exit_signal :: u32
  pending_signal :: u32
  wait_target :: u32
  wait_active :: bool
  address_space :: nat
  user_entry :: u64
  user_stack_top :: u64
  user_brk_base :: u64
  user_brk :: u64
  linux_fs_base :: u64
  linux_clear_tid :: u64
  fd_map :: "int list"
  socket_map :: "int list"
  pipe_map :: "int list"
  fd_flags :: "u32 list"
  dir_map :: "nat list"
  fd_table_ready :: bool
  next_task :: "nat option"

definition zero_ctx :: cpu_context where
  "zero_ctx = \<lparr>r15 = 0, r14 = 0, r13 = 0, r12 = 0, rbp = 0, rbx = 0, rsp = 0, rip = 0,
     rflags = 0, cr3 = 0\<rparr>"

text \<open>A slot after \<open>kmemset(t, 0, sizeof *t)\<close>.\<close>
definition zero_task :: task where
  "zero_task = \<lparr>pid = 0, ppid = 0, pgid = 0, sid = 0, uid = 0, gid = 0, cwd = '''',
     umask_value = 0, tname = '''', state = TASK_UNUSED, ctx = zero_ctx, stack_base = 0,
     stack_size = 0, ticks = 0, created_ticks = 0, state_changed_ticks = 0, resident_bytes = 0,
     io_read_bytes = 0, io_write_bytes = 0, context_switches = 0, priority = 0, exit_code = 0,
     exit_signal = 0, pending_signal = 0, wait_target = 0, wait_active = False,
     address_space = 0, user_entry = 0, user_stack_top = 0, user_brk_base = 0, user_brk = 0,
     linux_fs_base = 0, linux_clear_tid = 0, fd_map = replicate 32 0,
     socket_map = replicate 32 0, pipe_map = replicate 32 0, fd_flags = replicate 32 0,
     dir_map = replicate 16 0, fd_table_ready = False, next_task = None\<rparr>"

record sleep_meta =
  deadline :: u32
  active :: bool

record sched =
  task_pool :: "task list"
  current_task :: "nat option"
  run_queue_head :: "nat option"
  next_pid :: u32
  uptime_ticks :: u32
  idle_ticks :: u32
  sleep_tab :: "sleep_meta list"
  quantum_counter :: u32
  fs_base :: u64

text \<open>The scheduler state is extended by the components above it, so every operation is
  polymorphic in the extension.\<close>

abbreviation task_at :: "'a sched_scheme \<Rightarrow> nat \<Rightarrow> task" where
  "task_at s i \<equiv> task_pool s ! i"

definition upd_task :: "nat \<Rightarrow> (task \<Rightarrow> task) \<Rightarrow> 'a sched_scheme \<Rightarrow> 'a sched_scheme" where
  "upd_task i f s = s\<lparr>task_pool := (task_pool s)[i := f (task_at s i)]\<rparr>"

definition pool_wf :: "'a sched_scheme \<Rightarrow> bool" where
  "pool_wf s \<longleftrightarrow> length (task_pool s) = TASK_MAX \<and> length (sleep_tab s) = TASK_MAX"

lemma upd_task_simps [simp]:
  "length (task_pool (upd_task i f s)) = length (task_pool s)"
  "current_task (upd_task i f s) = current_task s"
  "run_queue_head (upd_task i f s) = run_queue_head s"
  "next_pid (upd_task i f s) = next_pid s"
  "uptime_ticks (upd_task i f s) = uptime_ticks s"
  "idle_ticks (upd_task i f s) = idle_ticks s"
  "sleep_tab (upd_task i f s) = sleep_tab s"
  "quantum_counter (upd_task i f s) = quantum_counter s"
  "fs_base (upd_task i f s) = fs_base s"
  "sched.more (upd_task i f s) = sched.more s"
  by (simp_all add: upd_task_def)

lemma task_at_upd:
  "i < length (task_pool s) \<Longrightarrow> task_at (upd_task i f s) j = (if j = i then f (task_at s i) else task_at s j)"
  by (auto simp: upd_task_def nth_list_update)

lemma task_at_upd_field:
  "(\<And>t. F (f t) = F t) \<Longrightarrow> F (task_at (upd_task i f s) j) = F (task_at s j)"
  by (cases "i < length (task_pool s)"; cases "j = i")
    (simp_all add: upd_task_def list_update_beyond)

lemma pool_wf_upd_task [simp]: "pool_wf (upd_task i f s) = pool_wf s"
  by (simp add: pool_wf_def)

end
