(* ===== verification/Run_Queue.thy ===== *)
theory Run_Queue
  imports Task
begin

section \<open>The run queue and the scheduler tick: \<open>src/src/sched.c\<close>\<close>

text \<open>
  Runnable tasks form a circular singly linked list through \<open>next\<close>.  The walks are
  bounded by \<open>TASK_MAX\<close> except the search in \<open>sched_tick\<close>, which is a partial function:
  \<open>None\<close> when it follows a \<open>NULL\<close> link or never comes back to its start.
\<close>

subsection \<open>Definitions\<close>

definition link_task :: "nat \<Rightarrow> nat option \<Rightarrow> 'a sched_scheme \<Rightarrow> 'a sched_scheme" where
  "link_task i n s = upd_task i (\<lambda>t. t\<lparr>next_task := n\<rparr>) s"

text \<open>The walk to the tail in \<open>queue_add\<close>: the result is the state and the return value.\<close>
function queue_add_walk :: "'a sched_scheme \<Rightarrow> nat \<Rightarrow> nat \<Rightarrow> nat option \<Rightarrow> nat \<Rightarrow> 'a sched_scheme \<times> int" where
  "queue_add_walk s head t tail seen =
     (if seen < TASK_MAX then
        case tail of
          None \<Rightarrow> (s, -1)
        | Some k \<Rightarrow>
            (case next_task (task_at s k) of
               None \<Rightarrow> (s, -1)
             | Some n \<Rightarrow>
                 if n = head then (link_task t (Some head) (link_task k (Some t) s), 0)
                 else queue_add_walk s head t (Some n) (Suc seen))
      else (s, -1))"
  by pat_completeness auto
termination
  by (relation "measure (\<lambda>(s, head, t, tail, seen). TASK_MAX - seen)") auto

declare queue_add_walk.simps [simp del]

definition queue_add :: "nat option \<Rightarrow> 'a sched_scheme \<Rightarrow> 'a sched_scheme \<times> int" where
  "queue_add t s =
     (case t of
        None \<Rightarrow> (s, -1)
      | Some i \<Rightarrow>
          (case run_queue_head s of
             None \<Rightarrow> (link_task i (Some i) (s\<lparr>run_queue_head := Some i\<rparr>), 0)
           | Some h \<Rightarrow> queue_add_walk s h i (Some h) 0))"

function queue_remove_walk :: "'a sched_scheme \<Rightarrow> nat \<Rightarrow> nat \<Rightarrow> nat \<Rightarrow> 'a sched_scheme" where
  "queue_remove_walk s t prev seen =
     (if seen < TASK_MAX then
        case next_task (task_at s prev) of
          None \<Rightarrow> s
        | Some n \<Rightarrow>
            if n = t then
              (let s1 = link_task prev (next_task (task_at s t)) s;
                   s2 = (if run_queue_head s1 = Some t
                         then s1\<lparr>run_queue_head := next_task (task_at s1 t)\<rparr> else s1)
               in link_task t None s2)
            else if run_queue_head s = Some n then s
            else queue_remove_walk s t n (Suc seen)
      else s)"
  by pat_completeness auto
termination
  by (relation "measure (\<lambda>(s, t, prev, seen). TASK_MAX - seen)") auto

declare queue_remove_walk.simps [simp del]

definition queue_remove :: "nat option \<Rightarrow> 'a sched_scheme \<Rightarrow> 'a sched_scheme" where
  "queue_remove t s =
     (case (run_queue_head s, t) of
        (Some h, Some i) \<Rightarrow>
          if h = i \<and> (next_task (task_at s i) = None \<or> next_task (task_at s i) = Some i)
          then link_task i None (s\<lparr>run_queue_head := None\<rparr>)
          else queue_remove_walk s i h 0
      | _ \<Rightarrow> s)"

definition set_state :: "nat \<Rightarrow> task_state \<Rightarrow> 'a sched_scheme \<Rightarrow> 'a sched_scheme" where
  "set_state i st s =
     upd_task i (\<lambda>t. t\<lparr>state := st, state_changed_ticks := ucast (uptime_ticks s)\<rparr>) s"

definition task_unblock :: "nat option \<Rightarrow> 'a sched_scheme \<Rightarrow> 'a sched_scheme" where
  "task_unblock t s =
     (case t of
        None \<Rightarrow> s
      | Some i \<Rightarrow>
          if state (task_at s i) \<noteq> TASK_BLOCKED then s
          else
            (let (s1, r) = queue_add (Some i) (set_state i TASK_READY s)
             in if r < 0 then set_state i TASK_BLOCKED s1 else s1))"

text \<open>Making a task current, as every switch does: state, time stamp, switch count and the
  FS base of the task's address space.\<close>
definition switch_to :: "nat \<Rightarrow> 'a sched_scheme \<Rightarrow> 'a sched_scheme" where
  "switch_to i s =
     (let s1 = upd_task i (\<lambda>t. t\<lparr>context_switches := context_switches t + 1\<rparr>)
                 (set_state i TASK_RUNNING (s\<lparr>current_task := Some i\<rparr>))
      in s1\<lparr>fs_base := (if address_space (task_at s1 i) \<noteq> 0 then linux_fs_base (task_at s1 i) else 0)\<rparr>)"

text \<open>The first \<open>READY\<close> task from the head, in at most \<open>TASK_MAX\<close> steps; this is the
  selection of \<open>task_exit_from_syscall\<close> and \<open>task_block_from_syscall\<close>.\<close>
function ready_scan :: "'a sched_scheme \<Rightarrow> nat \<Rightarrow> nat \<Rightarrow> nat option" where
  "ready_scan s scan seen =
     (if seen < TASK_MAX then
        if state (task_at s scan) = TASK_READY then Some scan
        else case next_task (task_at s scan) of
               None \<Rightarrow> None
             | Some n \<Rightarrow> if run_queue_head s = Some n then None else ready_scan s n (Suc seen)
      else None)"
  by pat_completeness auto
termination
  by (relation "measure (\<lambda>(s, scan, seen). TASK_MAX - seen)") auto

declare ready_scan.simps [simp del]

definition pick_successor :: "'a sched_scheme \<Rightarrow> nat" where
  "pick_successor s =
     (case run_queue_head s of
        None \<Rightarrow> 0
      | Some h \<Rightarrow> (case ready_scan s h 0 of None \<Rightarrow> 0 | Some n \<Rightarrow> n))"

definition task_block_from_syscall :: "'a sched_scheme \<Rightarrow> 'a sched_scheme" where
  "task_block_from_syscall s =
     (case current_task s of
        None \<Rightarrow> s
      | Some old \<Rightarrow>
          if pid (task_at s old) = 0 then s
          else
            (let s1 = queue_remove (Some old) (set_state old TASK_BLOCKED s)
             in switch_to (pick_successor s1) s1))"

definition task_sleep_ticks_from_syscall :: "u32 \<Rightarrow> 'a sched_scheme \<Rightarrow> 'a sched_scheme \<times> int" where
  "task_sleep_ticks_from_syscall n s =
     (case current_task s of
        None \<Rightarrow> (s, -1)
      | Some i \<Rightarrow>
          if pid (task_at s i) = 0 \<or> address_space (task_at s i) = 0 \<or> \<not> i < TASK_MAX then (s, -1)
          else if n = 0 then (s, 0)
          else if active (sleep_tab s ! i) then (s, -1)
          else
            (task_block_from_syscall
               (s\<lparr>sleep_tab := (sleep_tab s)[i := \<lparr>deadline = uptime_ticks s + n, active = True\<rparr>]\<rparr>), 0))"

text \<open>\<open>task_block\<close> without the trailing \<open>task_yield\<close> (a software interrupt that runs
  \<open>sched_tick\<close>).\<close>
definition task_block :: "'a sched_scheme \<Rightarrow> 'a sched_scheme" where
  "task_block s =
     (case current_task s of
        None \<Rightarrow> s
      | Some i \<Rightarrow> queue_remove (Some i) (set_state i TASK_BLOCKED s))"

text \<open>The wake-up loop of \<open>sched_tick\<close>: \<open>(int32_t)(uptime_ticks - deadline) >= 0\<close>.\<close>
definition wake_slot :: "nat \<Rightarrow> 'a sched_scheme \<Rightarrow> 'a sched_scheme" where
  "wake_slot i s =
     (if active (sleep_tab s ! i) \<and> state (task_at s i) = TASK_BLOCKED
         \<and> 0 \<le> sint (uptime_ticks s - deadline (sleep_tab s ! i))
      then task_unblock (Some i)
             (s\<lparr>sleep_tab := (sleep_tab s)[i := (sleep_tab s ! i)\<lparr>active := False\<rparr>]\<rparr>)
      else s)"

definition wake_sleepers :: "'a sched_scheme \<Rightarrow> 'a sched_scheme" where
  "wake_sleepers s = fold wake_slot [1 ..< TASK_MAX] s"

text \<open>The \<open>do { ... } while (next != start)\<close> search; the result is where \<open>next\<close> stops.\<close>
partial_function (option) tick_search :: "'a sched_scheme \<Rightarrow> nat \<Rightarrow> nat \<Rightarrow> nat option" where
  "tick_search s start n =
     (if state (task_at s n) = TASK_READY \<and> current_task s \<noteq> Some n then Some n
      else case next_task (task_at s n) of
             None \<Rightarrow> None
           | Some n' \<Rightarrow> if n' = start then Some n' else tick_search s start n')"

definition QUANTUM_BASE :: u32 where "QUANTUM_BASE = 2"

definition tick_accounting :: "'a sched_scheme \<Rightarrow> 'a sched_scheme" where
  "tick_accounting s =
     (let s1 = s\<lparr>uptime_ticks := uptime_ticks s + 1\<rparr>;
          s2 = (case current_task s1 of None \<Rightarrow> s1
                | Some i \<Rightarrow> upd_task i (\<lambda>t. t\<lparr>ticks := ticks t + 1\<rparr>) s1)
      in if (case current_task s2 of None \<Rightarrow> True | Some i \<Rightarrow> pid (task_at s2 i) = 0)
         then s2\<lparr>idle_ticks := idle_ticks s2 + 1\<rparr> else s2)"

text \<open>The rest of the tick.  \<open>None\<close> is a walk that crashes or does not end; with a non-empty
  queue and no current task the code dereferences \<open>NULL\<close>.\<close>
definition tick_dispatch :: "'a sched_scheme \<Rightarrow> 'a sched_scheme option" where
  "tick_dispatch s =
     (case run_queue_head s of
        None \<Rightarrow>
          (case current_task s of
             None \<Rightarrow> Some s
           | Some c \<Rightarrow>
               if pid (task_at s c) \<noteq> 0 \<and>
                  (state (task_at s c) = TASK_ZOMBIE \<or> state (task_at s c) = TASK_BLOCKED)
               then Some ((switch_to 0 s)\<lparr>fs_base := 0\<rparr>)
               else Some s)
      | Some start \<Rightarrow>
          (case current_task s of
             None \<Rightarrow> None
           | Some c \<Rightarrow>
               let quantum = priority (task_at s c) * QUANTUM_BASE;
                   q = quantum_counter s + 1
               in if q < quantum then Some (s\<lparr>quantum_counter := q\<rparr>)
                  else
                    let s1 = s\<lparr>quantum_counter := 0\<rparr> in
                    case tick_search s1 start start of
                      None \<Rightarrow> None
                    | Some n \<Rightarrow>
                        if n = c \<or> state (task_at s1 n) \<noteq> TASK_READY then Some s1
                        else
                          let s2 = (if state (task_at s1 c) = TASK_RUNNING
                                    then upd_task c (\<lambda>t. t\<lparr>state := TASK_READY\<rparr>) s1 else s1)
                          in Some (switch_to n s2)))"

definition sched_tick :: "'a sched_scheme \<Rightarrow> 'a sched_scheme option" where
  "sched_tick s = tick_dispatch (wake_sleepers (tick_accounting s))"


subsection \<open>The queue as a list\<close>

text \<open>
  \<open>links s xs e\<close>: following \<open>next\<close> from the first element of \<open>xs\<close> visits \<open>xs\<close> in order
  and then points at \<open>e\<close>.  \<open>ring s xs\<close>: the queue is the circular list \<open>xs\<close>, its head
  first.
\<close>

fun links :: "'a sched_scheme \<Rightarrow> nat list \<Rightarrow> nat \<Rightarrow> bool" where
  "links s [] e = True"
| "links s [x] e = (next_task (task_at s x) = Some e)"
| "links s (x # y # xs) e = (next_task (task_at s x) = Some y \<and> links s (y # xs) e)"

definition ring :: "'a sched_scheme \<Rightarrow> nat list \<Rightarrow> bool" where
  "ring s xs \<longleftrightarrow> distinct xs \<and> set xs \<subseteq> {..< TASK_MAX} \<and>
     (case xs of [] \<Rightarrow> run_queue_head s = None
      | x # _ \<Rightarrow> run_queue_head s = Some x \<and> links s xs x)"

lemma link_task_simps [simp]:
  "length (task_pool (link_task i n s)) = length (task_pool s)"
  "current_task (link_task i n s) = current_task s"
  "run_queue_head (link_task i n s) = run_queue_head s"
  "next_pid (link_task i n s) = next_pid s"
  "uptime_ticks (link_task i n s) = uptime_ticks s"
  "sleep_tab (link_task i n s) = sleep_tab s"
  "quantum_counter (link_task i n s) = quantum_counter s"
  "pool_wf (link_task i n s) = pool_wf s"
  "sched.more (link_task i n s) = sched.more s"
  by (simp_all add: link_task_def)

lemma link_task_fields [simp]:
  "state (task_at (link_task i n s) j) = state (task_at s j)"
  "pid (task_at (link_task i n s) j) = pid (task_at s j)"
  "priority (task_at (link_task i n s) j) = priority (task_at s j)"
  by (simp_all add: link_task_def task_at_upd_field)

lemma next_link_task:
  "i < length (task_pool s) \<Longrightarrow>
     next_task (task_at (link_task i n s) j) = (if j = i then n else next_task (task_at s j))"
  by (simp add: link_task_def task_at_upd)

lemma links_cong:
  "(\<And>x. x \<in> set xs \<Longrightarrow> next_task (task_at s' x) = next_task (task_at s x)) \<Longrightarrow> links s' xs e = links s xs e"
proof (induction xs)
  case (Cons x xs)
  then show ?case by (cases xs) auto
qed simp

lemma links_append:
  "links s (xs @ y # ys) e \<longleftrightarrow> links s xs y \<and> links s (y # ys) e"
proof (induction xs)
  case (Cons x xs)
  then show ?case by (cases xs) auto
qed simp

lemma links_link_other [simp]:
  "i < length (task_pool s) \<Longrightarrow> i \<notin> set xs \<Longrightarrow> links (link_task i n s) xs e = links s xs e"
  by (rule links_cong) (auto simp: next_link_task)

lemma links_snoc:
  "xs \<noteq> [] \<Longrightarrow> links s xs e \<longleftrightarrow> links s (butlast xs) (last xs) \<and> next_task (task_at s (last xs)) = Some e"
  using links_append [of s "butlast xs" "last xs" "[]" e] by simp

lemma queue_add_walk_end:
  "links s (k # ks) h \<Longrightarrow> h \<notin> set ks \<Longrightarrow> seen + length ks < TASK_MAX \<Longrightarrow>
     queue_add_walk s h t (Some k) seen
       = (link_task t (Some h) (link_task (last (k # ks)) (Some t) s), 0)"
proof (induction ks arbitrary: k seen)
  case Nil
  then show ?case by (subst queue_add_walk.simps) simp
next
  case (Cons k' ks)
  then show ?case by (subst queue_add_walk.simps) auto
qed

lemma ring_length: "ring s xs \<Longrightarrow> length xs \<le> TASK_MAX"
  using card_mono [of "{..< TASK_MAX}" "set xs"] by (auto simp: ring_def distinct_card)

lemma ring_length_less:
  assumes "ring s xs" "t \<notin> set xs" "t < TASK_MAX"
  shows "length xs < TASK_MAX"
proof -
  have "card (insert t (set xs)) \<le> card {..< TASK_MAX}"
    using assms by (intro card_mono) (auto simp: ring_def)
  with assms show ?thesis by (simp add: ring_def distinct_card)
qed

text \<open>\<open>queue_add\<close> appends and never fails for a task that is not queued.\<close>
lemma queue_add_ring:
  assumes "pool_wf s" "ring s xs" "t \<notin> set xs" "t < TASK_MAX"
  shows "snd (queue_add (Some t) s) = 0" "ring (fst (queue_add (Some t) s)) (xs @ [t])"
proof -
  have len: "length (task_pool s) = TASK_MAX" using assms(1) by (simp add: pool_wf_def)
  have "snd (queue_add (Some t) s) = 0 \<and> ring (fst (queue_add (Some t) s)) (xs @ [t])"
  proof (cases xs)
    case Nil
    then show ?thesis using assms len
      by (auto simp: queue_add_def ring_def next_link_task)
  next
    case (Cons h ks)
    let ?l = "last (h # ks)" and ?b = "butlast (h # ks)"
    let ?s = "link_task t (Some h) (link_task ?l (Some t) s)"
    from assms(2) Cons have r: "run_queue_head s = Some h" "links s (h # ks) h" "distinct (h # ks)"
      "set (h # ks) \<subseteq> {..< TASK_MAX}" by (auto simp: ring_def)
    have "0 + length ks < TASK_MAX" using ring_length_less [OF assms(2-4)] Cons by simp
    then have q: "queue_add (Some t) s = (?s, 0)"
      using queue_add_walk_end [OF r(2)] r by (simp add: queue_add_def)
    have split: "h # ks = ?b @ [?l]" by (rule append_butlast_last_id [symmetric]) simp
    have l: "?l \<in> set (h # ks)" by simp
    have l': "?l \<notin> set ?b" using r(3) split by (metis distinct_append disjoint_iff list.set_intros(1))
    have "links s ?b ?l" using r(2) links_snoc [of "h # ks" s h] by simp
    moreover have "set ?b \<subseteq> set (h # ks)" by (meson in_set_butlastD subsetI)
    ultimately have "links ?s ?b ?l" using l l' r assms Cons len by (subst links_link_other; force)+
    moreover have "next_task (task_at ?s ?l) = Some t" "next_task (task_at ?s t) = Some h"
      using l r assms Cons len by (auto simp: next_link_task)
    ultimately have "links ?s (?b @ ?l # [t]) h" by (simp only: links_append links.simps)
    then have "links ?s ((h # ks) @ [t]) h" by (metis append_Cons append_Nil append_assoc split)
    with q r Cons assms show ?thesis by (auto simp: ring_def)
  qed
  then show "snd (queue_add (Some t) s) = 0" "ring (fst (queue_add (Some t) s)) (xs @ [t])" by auto
qed

definition unlink :: "nat \<Rightarrow> nat \<Rightarrow> 'a sched_scheme \<Rightarrow> 'a sched_scheme" where
  "unlink p t s =
     (let s1 = link_task p (next_task (task_at s t)) s;
          s2 = (if run_queue_head s1 = Some t
                then s1\<lparr>run_queue_head := next_task (task_at s1 t)\<rparr> else s1)
      in link_task t None s2)"

lemma queue_remove_walk_end:
  "links s (k # ks) t \<Longrightarrow> t \<notin> set ks \<Longrightarrow> run_queue_head s = Some h \<Longrightarrow> h \<notin> set ks \<Longrightarrow>
     seen + length ks < TASK_MAX \<Longrightarrow> queue_remove_walk s t k seen = unlink (last (k # ks)) t s"
proof (induction ks arbitrary: k seen)
  case Nil
  then show ?case by (subst queue_remove_walk.simps) (simp add: unlink_def)
next
  case (Cons k' ks)
  then show ?case by (subst queue_remove_walk.simps) auto
qed

lemma links_unlink:
  assumes "pool_wf s" "set xs \<subseteq> {..< TASK_MAX}" "t \<notin> set xs" "p \<notin> set xs" "p < TASK_MAX" "t < TASK_MAX"
  shows "links (unlink p t s) xs e = links s xs e"
  using assms by (intro links_cong) (auto simp: unlink_def next_link_task Let_def pool_wf_def)

lemma next_unlink:
  assumes "pool_wf s" "p \<noteq> t" "p < TASK_MAX" "t < TASK_MAX"
  shows "next_task (task_at (unlink p t s) p) = next_task (task_at s t)"
    "run_queue_head (unlink p t s)
       = (if run_queue_head s = Some t then next_task (task_at s t) else run_queue_head s)"
  using assms by (auto simp: unlink_def next_link_task Let_def pool_wf_def)

text \<open>\<open>queue_remove\<close> takes the task out of the circular list, from any position; when it is
  the head, its successor becomes the head.\<close>
lemma queue_remove_ring:
  assumes wf: "pool_wf s" and r: "ring s xs" and t: "t \<in> set xs"
  shows "ring (queue_remove (Some t) s) (remove1 t xs)"
proof -
  obtain h ks where xs: "xs = h # ks" using t by (cases xs) auto
  have h: "run_queue_head s = Some h" "links s (h # ks) h" "distinct (h # ks)"
    and bnd: "set (h # ks) \<subseteq> {..< TASK_MAX}" using r xs by (auto simp: ring_def)
  have len: "length ks < TASK_MAX" using ring_length [OF r] xs by simp
  have plen: "length (task_pool s) = TASK_MAX" using wf by (simp add: pool_wf_def)
  show ?thesis
  proof (cases "t = h")
    case True
    show ?thesis
    proof (cases ks rule: rev_cases)
      case Nil
      then show ?thesis using True h xs bnd plen by (auto simp: queue_remove_def ring_def)
    next
      case (snoc ys l)
      then have "ks \<noteq> []" by simp
      then obtain k ks' where ks: "ks = k # ks'" by (auto simp: neq_Nil_conv)
      have nx: "next_task (task_at s h) = Some k" "links s ks h" using h(2) ks by auto
      have "queue_remove_walk s t h 0 = unlink (last (h # ks)) t s"
        using True h len by (intro queue_remove_walk_end) auto
      moreover have "last (h # ks) = l" using snoc by simp
      moreover have "k \<noteq> h" using h(3) ks by auto
      ultimately have q: "queue_remove (Some t) s = unlink l t s"
        using True h(1) nx(1) by (simp add: queue_remove_def)
      have ls: "links s ys l" "next_task (task_at s l) = Some h"
        using nx(2) links_append [of s ys l "[]" h] snoc by auto
      have d: "l \<noteq> t" "l \<notin> set ys" "t \<notin> set ys" "l < TASK_MAX" "t < TASK_MAX" "set ys \<subseteq> {..< TASK_MAX}"
        using h(3) bnd snoc True by auto
      have "links (unlink l t s) ys l" using ls d wf by (simp add: links_unlink)
      moreover have "next_task (task_at (unlink l t s) l) = Some k"
        "run_queue_head (unlink l t s) = Some k"
        using next_unlink [OF wf d(1,4,5)] nx(1) True h(1) by simp_all
      ultimately have "links (unlink l t s) ks k" using snoc by (simp add: links_append)
      then show ?thesis
        using q True xs h(3) bnd ks \<open>run_queue_head (unlink l t s) = Some k\<close> by (simp add: ring_def)
    qed
  next
    case False
    then obtain as bs where ks: "ks = as @ t # bs" "t \<notin> set as"
      using t xs by (meson list.set_cases set_ConsD split_list_first)
    let ?p = "last (h # as)"
    have ls: "links s (h # as) t" "links s (t # bs) h"
      using h(2) links_append [of s "h # as" t bs h] ks by simp_all
    have "queue_remove (Some t) s = unlink ?p t s"
      using False h ls ks queue_remove_walk_end [of s h as t h 0] len
      by (auto simp: queue_remove_def)
    moreover have "ring (unlink ?p t s) (h # as @ bs)"
    proof -
      have split: "h # as = butlast (h # as) @ [?p]" by (rule append_butlast_last_id [symmetric]) simp
      have dist: "distinct ((h # as) @ t # bs)" using h(3) ks by simp
      have pin: "?p \<in> set (h # as)" by simp
      have dha: "distinct (h # as)" "t \<notin> set (h # as)" "t \<notin> set bs" "set (h # as) \<inter> set bs = {}"
        using dist by auto
      have d: "?p \<noteq> t" "?p \<notin> set bs" "t \<notin> set bs" "t \<notin> set (butlast (h # as))"
        using pin dha by (blast dest: in_set_butlastD)+
      have "set (h # as) \<subseteq> {..< TASK_MAX}" "t < TASK_MAX" using bnd ks by auto
      with pin have d2: "?p < TASK_MAX" "t < TASK_MAX" by blast+
      have d3: "?p \<notin> set (butlast (h # as))"
        using dha(1) split by (metis distinct_append disjoint_iff list.set_intros(1))
      have sub: "set (butlast (h # as)) \<subseteq> {..< TASK_MAX}" "set bs \<subseteq> {..< TASK_MAX}"
        using bnd ks by (auto dest!: in_set_butlastD)
      have b: "links s (butlast (h # as)) ?p" using ls(1) links_snoc [of "h # as" s t] by simp
      have nx: "next_task (task_at (unlink ?p t s) ?p) = next_task (task_at s t)"
        "run_queue_head (unlink ?p t s) = Some h"
        using next_unlink [OF wf d(1) d2] h(1) False by simp_all
      have "links (unlink ?p t s) ((butlast (h # as) @ ?p # bs)) h"
      proof (cases bs)
        case Nil
        have "links (unlink ?p t s) (butlast (h # as)) ?p"
          using links_unlink [OF wf sub(1) d(4) d3 d2] b by simp
        moreover have "next_task (task_at (unlink ?p t s) ?p) = Some h"
          using nx(1) ls(2) Nil by (simp del: last.simps)
        ultimately show ?thesis unfolding links_append Nil links.simps by blast
      next
        case (Cons b' bs')
        have "links (unlink ?p t s) (butlast (h # as)) ?p" "links (unlink ?p t s) bs h"
          using links_unlink [OF wf sub(1) d(4) d3 d2] links_unlink [OF wf sub(2) d(3,2) d2] b ls(2) Cons
          by simp_all
        moreover have "next_task (task_at (unlink ?p t s) ?p) = Some b'"
          using nx(1) ls(2) Cons by (simp del: last.simps)
        ultimately show ?thesis unfolding links_append Cons links.simps by blast
      qed
      then have "links (unlink ?p t s) (h # as @ bs) h" by (metis append_Cons append_Nil append_assoc split)
      then show ?thesis using nx(2) dist bnd ks by (simp add: ring_def)
    qed
    moreover have "remove1 t xs = h # as @ bs" using xs ks False by (simp add: remove1_append)
    ultimately show ?thesis by simp
  qed
qed

text \<open>Both operations change nothing but links and the head: \<open>links_only s s'\<close>.\<close>

definition links_only :: "'a sched_scheme \<Rightarrow> 'a sched_scheme \<Rightarrow> bool" where
  "links_only s s' \<longleftrightarrow>
     s'\<lparr>task_pool := [], run_queue_head := None\<rparr> = s\<lparr>task_pool := [], run_queue_head := None\<rparr>
     \<and> map (\<lambda>t. t\<lparr>next_task := None\<rparr>) (task_pool s') = map (\<lambda>t. t\<lparr>next_task := None\<rparr>) (task_pool s)"

lemma links_only_refl [simp]: "links_only s s"
  by (simp add: links_only_def)

lemma links_only_trans: "links_only s s' \<Longrightarrow> links_only s' s'' \<Longrightarrow> links_only s s''"
  by (simp add: links_only_def)

lemma links_only_link_task [simp]: "links_only s (link_task i n s)"
  by (cases "i < length (task_pool s)")
    (auto simp: links_only_def link_task_def upd_task_def map_update list_update_beyond intro!: list_update_same_conv [THEN iffD2])

lemma links_only_head [simp]: "links_only s (s\<lparr>run_queue_head := h\<rparr>)"
  by (simp add: links_only_def)

lemma links_only_fields:
  assumes "links_only s s'"
  shows "current_task s' = current_task s" "uptime_ticks s' = uptime_ticks s" "idle_ticks s' = idle_ticks s"
    "sleep_tab s' = sleep_tab s" "quantum_counter s' = quantum_counter s" "next_pid s' = next_pid s"
    "fs_base s' = fs_base s" "sched.more s' = sched.more s"
    "length (task_pool s') = length (task_pool s)"
proof -
  let ?z = "\<lambda>s :: 'a sched_scheme. s\<lparr>task_pool := [], run_queue_head := None\<rparr>"
  have z: "?z s' = ?z s" using assms by (simp add: links_only_def)
  show "current_task s' = current_task s" using arg_cong [OF z, of current_task] by simp
  show "uptime_ticks s' = uptime_ticks s" using arg_cong [OF z, of uptime_ticks] by simp
  show "idle_ticks s' = idle_ticks s" using arg_cong [OF z, of idle_ticks] by simp
  show "sleep_tab s' = sleep_tab s" using arg_cong [OF z, of sleep_tab] by simp
  show "quantum_counter s' = quantum_counter s" using arg_cong [OF z, of quantum_counter] by simp
  show "next_pid s' = next_pid s" using arg_cong [OF z, of next_pid] by simp
  show "fs_base s' = fs_base s" using arg_cong [OF z, of fs_base] by simp
  show "sched.more s' = sched.more s" using arg_cong [OF z, of sched.more] by simp
  show "length (task_pool s') = length (task_pool s)"
    using assms by (auto simp: links_only_def dest: map_eq_imp_length_eq)
qed

lemma links_only_task:
  assumes "links_only s s'" "j < length (task_pool s)"
  shows "\<exists>n. task_at s' j = (task_at s j)\<lparr>next_task := n\<rparr>"
proof -
  have "length (task_pool s') = length (task_pool s)" by (rule links_only_fields [OF assms(1)])
  then have "(task_at s' j)\<lparr>next_task := None\<rparr> = (task_at s j)\<lparr>next_task := None\<rparr>"
    using assms nth_map [of j "task_pool s" "\<lambda>t. t\<lparr>next_task := None\<rparr>"]
      nth_map [of j "task_pool s'" "\<lambda>t. t\<lparr>next_task := None\<rparr>"] by (simp add: links_only_def)
  then have "task_at s' j = (task_at s j)\<lparr>next_task := next_task (task_at s' j)\<rparr>"
    by (metis (no_types) task.surjective task.update_convs(40))
  then show ?thesis ..
qed

lemma links_only_queue_add_walk: "links_only s (fst (queue_add_walk s h t k n))"
  by (induction s h t k n rule: queue_add_walk.induct, subst queue_add_walk.simps)
    (auto split: option.splits intro: links_only_trans [OF links_only_link_task links_only_link_task])

lemma links_only_queue_add [simp]: "links_only s (fst (queue_add t s))"
  by (auto simp: queue_add_def links_only_queue_add_walk split: option.splits
      intro: links_only_trans [OF links_only_head links_only_link_task])

lemmas links_only_steps = links_only_trans [OF links_only_link_task links_only_link_task]
  links_only_trans [OF links_only_trans [OF links_only_link_task links_only_head] links_only_link_task]

lemma links_only_unlink: "links_only s (unlink p t s)"
  by (auto simp: unlink_def Let_def intro: links_only_steps)

lemma links_only_queue_remove_walk: "links_only s (queue_remove_walk s t p n)"
  by (induction s t p n rule: queue_remove_walk.induct, subst queue_remove_walk.simps)
    (auto split: option.splits simp: Let_def intro: links_only_steps)

lemma links_only_queue_remove [simp]: "links_only s (queue_remove t s)"
  by (auto simp: queue_remove_def links_only_queue_remove_walk split: option.splits
      intro: links_only_trans [OF links_only_head links_only_link_task])

subsection \<open>The scheduler invariant\<close>

text \<open>
  Slot 0 is the idle task (pid 0, never queued); the queue holds exactly the runnable
  tasks of the other slots; at most the current task is \<open>RUNNING\<close>.
\<close>

definition runnable :: "task \<Rightarrow> bool" where
  "runnable t \<longleftrightarrow> state t = TASK_READY \<or> state t = TASK_RUNNING"

definition sched_ring :: "'a sched_scheme \<Rightarrow> nat list \<Rightarrow> bool" where
  "sched_ring s xs \<longleftrightarrow> pool_wf s \<and> ring s xs \<and> 0 \<notin> set xs \<and>
     (\<forall>i < TASK_MAX. i \<noteq> 0 \<longrightarrow> (i \<in> set xs \<longleftrightarrow> runnable (task_at s i)))"

definition sched_inv :: "'a sched_scheme \<Rightarrow> bool" where
  "sched_inv s \<longleftrightarrow> (\<exists>xs. sched_ring s xs) \<and> pid (task_at s 0) = 0
     \<and> (\<forall>i < TASK_MAX. i \<noteq> 0 \<longrightarrow> state (task_at s i) \<noteq> TASK_UNUSED \<longrightarrow> pid (task_at s i) \<noteq> 0)
     \<and> (\<exists>c < TASK_MAX. current_task s = Some c \<and> state (task_at s c) \<noteq> TASK_UNUSED \<and>
          (\<forall>i < TASK_MAX. state (task_at s i) = TASK_RUNNING \<longrightarrow> i = c))"

lemma TASK_MAX_pos [simp]: "0 < TASK_MAX" "Suc 0 < TASK_MAX"
  by (simp_all add: TASK_MAX_def)

lemma links_only_state:
  assumes "links_only s s'" "j < length (task_pool s)"
  shows "state (task_at s' j) = state (task_at s j)" "pid (task_at s' j) = pid (task_at s j)"
    "priority (task_at s' j) = priority (task_at s j)" "runnable (task_at s' j) = runnable (task_at s j)"
    "wait_active (task_at s' j) = wait_active (task_at s j)"
    "pipe_map (task_at s' j) = pipe_map (task_at s j)"
  using links_only_task [OF assms] by (auto simp: runnable_def)

lemma links_only_pool_wf: "links_only s s' \<Longrightarrow> pool_wf s' = pool_wf s"
  by (simp add: pool_wf_def links_only_fields)

lemma set_state_simps [simp]:
  "current_task (set_state i st s) = current_task s"
  "run_queue_head (set_state i st s) = run_queue_head s"
  "uptime_ticks (set_state i st s) = uptime_ticks s"
  "sleep_tab (set_state i st s) = sleep_tab s"
  "quantum_counter (set_state i st s) = quantum_counter s"
  "pool_wf (set_state i st s) = pool_wf s"
  "length (task_pool (set_state i st s)) = length (task_pool s)"
  "sched.more (set_state i st s) = sched.more s"
  "next_task (task_at (set_state i st s) j) = next_task (task_at s j)"
  "pid (task_at (set_state i st s) j) = pid (task_at s j)"
  "priority (task_at (set_state i st s) j) = priority (task_at s j)"
  "pipe_map (task_at (set_state i st s) j) = pipe_map (task_at s j)"
  by (simp_all add: set_state_def task_at_upd_field)

lemma state_set_state:
  "i < length (task_pool s) \<Longrightarrow> state (task_at (set_state i st s) j) = (if j = i then st else state (task_at s j))"
  by (simp add: set_state_def task_at_upd)

lemma ring_cong:
  "ring s xs \<Longrightarrow> run_queue_head s' = run_queue_head s \<Longrightarrow>
   (\<And>j. next_task (task_at s' j) = next_task (task_at s j)) \<Longrightarrow> ring s' xs"
  using links_cong [of xs s' s "hd xs"] by (auto simp: ring_def split: list.splits)

lemma ring_set_state [simp]: "ring (set_state i st s) xs = ring s xs"
  using ring_cong [of s xs "set_state i st s"] ring_cong [of "set_state i st s" xs s] by auto

text \<open>Blocking the task in slot \<open>i\<close>: it leaves the queue.\<close>
lemma sched_ring_block:
  assumes "sched_ring s xs" "i \<in> set xs" "\<not> runnable (task_at s' i)"
    "s' = set_state i st s"
  shows "sched_ring (queue_remove (Some i) s') (remove1 i xs)"
proof -
  let ?r = "queue_remove (Some i) s'"
  have wf: "pool_wf s'" "ring s' xs" "0 \<notin> set xs" "length (task_pool s') = TASK_MAX"
    using assms(1,4) by (simp_all add: sched_ring_def pool_wf_def)
  have d: "distinct xs" "i < TASK_MAX" using wf(2) assms(2) by (auto simp: ring_def)
  have lo: "links_only s' ?r" by simp
  have same: "j < TASK_MAX \<Longrightarrow> runnable (task_at ?r j) = runnable (task_at s' j)" for j
    using links_only_state(4) [OF lo] wf(4) by simp
  have "j < TASK_MAX \<Longrightarrow> j \<noteq> i \<Longrightarrow> runnable (task_at s' j) = runnable (task_at s j)" for j
    using assms(4) d wf(4) by (auto simp: runnable_def state_set_state)
  with same assms(1,3) d wf queue_remove_ring [OF wf(1,2) assms(2)] show ?thesis
    by (auto simp: sched_ring_def links_only_pool_wf [OF lo] set_remove1_eq [OF d(1)])
qed

lemma sched_ring_unblock:
  assumes "sched_ring s xs" "i < TASK_MAX" "i \<noteq> 0" "state (task_at s i) = TASK_BLOCKED"
  shows "sched_ring (task_unblock (Some i) s) (xs @ [i])"
    and "task_unblock (Some i) s = fst (queue_add (Some i) (set_state i TASK_READY s))"
proof -
  let ?s = "set_state i TASK_READY s" and ?r = "fst (queue_add (Some i) (set_state i TASK_READY s))"
  have wf: "pool_wf ?s" "ring ?s xs" "0 \<notin> set xs" "length (task_pool s) = TASK_MAX"
    using assms(1) by (auto simp: sched_ring_def pool_wf_def)
  have ni: "i \<notin> set xs" using assms by (auto simp: sched_ring_def runnable_def)
  note q = queue_add_ring [OF wf(1,2) ni assms(2)]
  show u: "task_unblock (Some i) s = ?r"
    using assms(4) q(1) by (simp add: task_unblock_def split_beta)
  have lo: "links_only ?s ?r" by simp
  have same: "j < TASK_MAX \<Longrightarrow> runnable (task_at ?r j) = runnable (task_at ?s j)" for j
    using links_only_state(4) [OF lo] wf(4) by simp
  have "j < TASK_MAX \<Longrightarrow> runnable (task_at ?s j) = (j = i \<or> runnable (task_at s j))" for j
    using assms(2) wf(4) by (auto simp: runnable_def state_set_state)
  with same assms wf q(2) show "sched_ring (task_unblock (Some i) s) (xs @ [i])"
    unfolding u by (auto simp: sched_ring_def links_only_pool_wf [OF lo])
qed

text \<open>What \<open>task_unblock\<close> does to the rest of the state.\<close>
lemma task_unblock_frame [simp]:
  "current_task (task_unblock t s) = current_task s"
  "uptime_ticks (task_unblock t s) = uptime_ticks s"
  "sleep_tab (task_unblock t s) = sleep_tab s"
  "quantum_counter (task_unblock t s) = quantum_counter s"
  "pool_wf (task_unblock t s) = pool_wf s"
  "length (task_pool (task_unblock t s)) = length (task_pool s)"
  "sched.more (task_unblock t s) = sched.more s"
proof -
  have lo: "links_only (set_state i st s) (fst (queue_add (Some i) (set_state i st s)))" for i st by simp
  show "current_task (task_unblock t s) = current_task s"
  "uptime_ticks (task_unblock t s) = uptime_ticks s"
  "sleep_tab (task_unblock t s) = sleep_tab s"
  "quantum_counter (task_unblock t s) = quantum_counter s"
  "pool_wf (task_unblock t s) = pool_wf s"
  "length (task_pool (task_unblock t s)) = length (task_pool s)"
  "sched.more (task_unblock t s) = sched.more s"
    using links_only_fields [OF lo] links_only_pool_wf [OF lo]
    by (auto simp: task_unblock_def split_beta Let_def split: option.splits)
qed

lemma task_unblock_state:
  assumes "j < length (task_pool s)" "i < length (task_pool s)"
  shows "pid (task_at (task_unblock (Some i) s) j) = pid (task_at s j)"
    "priority (task_at (task_unblock (Some i) s) j) = priority (task_at s j)"
    "pipe_map (task_at (task_unblock (Some i) s) j) = pipe_map (task_at s j)"
    "state (task_at (task_unblock (Some i) s) j) = TASK_RUNNING \<longleftrightarrow> state (task_at s j) = TASK_RUNNING"
    "state (task_at (task_unblock (Some i) s) j) = TASK_UNUSED \<longleftrightarrow> state (task_at s j) = TASK_UNUSED"
    "j \<noteq> i \<Longrightarrow> state (task_at (task_unblock (Some i) s) j) = state (task_at s j)"
proof -
  have lo: "links_only (set_state i st s) (fst (queue_add (Some i) (set_state i st s)))" for i st by simp
  show "pid (task_at (task_unblock (Some i) s) j) = pid (task_at s j)"
    "priority (task_at (task_unblock (Some i) s) j) = priority (task_at s j)"
    "pipe_map (task_at (task_unblock (Some i) s) j) = pipe_map (task_at s j)"
    "state (task_at (task_unblock (Some i) s) j) = TASK_RUNNING \<longleftrightarrow> state (task_at s j) = TASK_RUNNING"
    "state (task_at (task_unblock (Some i) s) j) = TASK_UNUSED \<longleftrightarrow> state (task_at s j) = TASK_UNUSED"
    "j \<noteq> i \<Longrightarrow> state (task_at (task_unblock (Some i) s) j) = state (task_at s j)"
    using links_only_state [OF lo, of j i TASK_READY] links_only_fields(9) [OF lo, of i TASK_READY] assms
    by (auto simp: task_unblock_def split_beta Let_def state_set_state)
qed

lemma sched_inv_unblock [inv_intros]:
  assumes "sched_inv s" "i < TASK_MAX" "i \<noteq> 0"
  shows "sched_inv (task_unblock (Some i) s)"
proof (cases "state (task_at s i) = TASK_BLOCKED")
  case False
  then show ?thesis using assms(1) by (simp add: task_unblock_def)
next
  case True
  obtain xs where xs: "sched_ring s xs" using assms(1) by (auto simp: sched_inv_def)
  have len: "length (task_pool s) = TASK_MAX" using xs by (simp add: sched_ring_def pool_wf_def)
  note st = task_unblock_state [of _ s i, unfolded len, OF _ assms(2)]
  from sched_ring_unblock(1) [OF xs assms(2,3) True] assms(1) st show ?thesis
    unfolding sched_inv_def by auto
qed

subsection \<open>Every operation keeps the invariant\<close>

definition sched_core :: "'a sched_scheme \<Rightarrow> bool" where
  "sched_core s \<longleftrightarrow> (\<exists>xs. sched_ring s xs) \<and> pid (task_at s 0) = 0
     \<and> (\<forall>i < TASK_MAX. i \<noteq> 0 \<longrightarrow> state (task_at s i) \<noteq> TASK_UNUSED \<longrightarrow> pid (task_at s i) \<noteq> 0)"

lemma sched_inv_core:
  "sched_inv s \<longleftrightarrow> sched_core s \<and> (\<exists>c < TASK_MAX. current_task s = Some c \<and> state (task_at s c) \<noteq> TASK_UNUSED \<and>
     (\<forall>i < TASK_MAX. state (task_at s i) = TASK_RUNNING \<longrightarrow> i = c))"
  by (simp add: sched_inv_def sched_core_def)

lemma sched_ring_cong:
  assumes "run_queue_head s' = run_queue_head s" "pool_wf s' = pool_wf s"
    "\<And>j. next_task (task_at s' j) = next_task (task_at s j)"
    "\<And>j. 0 < j \<Longrightarrow> runnable (task_at s' j) = runnable (task_at s j)"
  shows "sched_ring s' xs = sched_ring s xs"
proof -
  have "ring s' xs = ring s xs"
    using ring_cong [of s xs s'] ring_cong [of s' xs s] assms by metis
  then show ?thesis using assms by (auto simp: sched_ring_def)
qed

lemma upd_task_fields:
  assumes "\<And>t. state (f t) = state t \<and> pid (f t) = pid t \<and> next_task (f t) = next_task t"
  shows "sched_ring (upd_task i f s) xs = sched_ring s xs" "sched_inv (upd_task i f s) = sched_inv s"
proof -
  have f: "state (task_at (upd_task i f s) j) = state (task_at s j)"
    "pid (task_at (upd_task i f s) j) = pid (task_at s j)"
    "next_task (task_at (upd_task i f s) j) = next_task (task_at s j)" for j
    using assms by (simp_all add: task_at_upd_field)
  show r: "sched_ring (upd_task i f s) xs = sched_ring s xs" for xs
    by (rule sched_ring_cong) (simp_all add: f runnable_def)
  show "sched_inv (upd_task i f s) = sched_inv s" by (simp add: sched_inv_def r f)
qed

lemma sched_frame_simps [simp]:
  "sched_ring (s\<lparr>uptime_ticks := u\<rparr>) xs = sched_ring s xs"
  "sched_ring (s\<lparr>idle_ticks := u\<rparr>) xs = sched_ring s xs"
  "sched_ring (s\<lparr>quantum_counter := u\<rparr>) xs = sched_ring s xs"
  "sched_ring (s\<lparr>fs_base := b\<rparr>) xs = sched_ring s xs"
  "sched_ring (s\<lparr>current_task := c\<rparr>) xs = sched_ring s xs"
  "sched_ring (s\<lparr>sleep_tab := (sleep_tab s)[i := m]\<rparr>) xs = sched_ring s xs"
  by (rule sched_ring_cong; simp add: pool_wf_def)+

lemma sched_inv_frame [simp]:
  "sched_inv (s\<lparr>uptime_ticks := u\<rparr>) = sched_inv s"
  "sched_inv (s\<lparr>idle_ticks := u\<rparr>) = sched_inv s"
  "sched_inv (s\<lparr>quantum_counter := u\<rparr>) = sched_inv s"
  "sched_inv (s\<lparr>fs_base := b\<rparr>) = sched_inv s"
  "sched_inv (s\<lparr>sleep_tab := (sleep_tab s)[i := m]\<rparr>) = sched_inv s"
  by (simp_all add: sched_inv_def)

lemma sched_inv_accounting [inv_intros]: "sched_inv s \<Longrightarrow> sched_inv (tick_accounting s)"
  by (auto simp: tick_accounting_def Let_def upd_task_fields split: option.splits)

lemma sched_inv_wake_slot: "sched_inv s \<Longrightarrow> 0 < i \<Longrightarrow> i < TASK_MAX \<Longrightarrow> sched_inv (wake_slot i s)"
  by (simp add: wake_slot_def sched_inv_unblock)

lemma sched_inv_wake_list:
  "sched_inv s \<Longrightarrow> set is \<subseteq> {0 <..< TASK_MAX} \<Longrightarrow> sched_inv (fold wake_slot is s)"
  by (induction "is" arbitrary: s) (auto intro: sched_inv_wake_slot)

lemma sched_inv_wake [inv_intros]: "sched_inv s \<Longrightarrow> sched_inv (wake_sleepers s)"
  unfolding wake_sleepers_def by (rule sched_inv_wake_list) auto

lemma queue_remove_walk_absent:
  "links s (k # ks) h \<Longrightarrow> t \<notin> set ks \<Longrightarrow> t \<noteq> h \<Longrightarrow> run_queue_head s = Some h \<Longrightarrow> h \<notin> set ks \<Longrightarrow>
     queue_remove_walk s t k seen = s"
proof (induction ks arbitrary: k seen)
  case Nil
  then show ?case by (subst queue_remove_walk.simps) simp
next
  case (Cons k' ks)
  then show ?case by (subst queue_remove_walk.simps) auto
qed

lemma queue_remove_absent: "ring s xs \<Longrightarrow> t \<notin> set xs \<Longrightarrow> queue_remove (Some t) s = s"
  by (cases xs) (auto simp: ring_def queue_remove_def queue_remove_walk_absent)

text \<open>Taking the current task off the CPU for good: it stops being runnable and leaves the queue.\<close>
lemma sched_core_stop:
  assumes "sched_core s" "i < TASK_MAX" "i \<noteq> 0" "st = TASK_BLOCKED \<or> st = TASK_ZOMBIE"
    "state (task_at s i) \<noteq> TASK_UNUSED"
  shows "sched_core (queue_remove (Some i) (set_state i st s))"
    and "j < TASK_MAX \<Longrightarrow> state (task_at (queue_remove (Some i) (set_state i st s)) j)
           = (if j = i then st else state (task_at s j))"
proof -
  let ?s = "set_state i st s" and ?r = "queue_remove (Some i) (set_state i st s)"
  obtain xs where xs: "sched_ring s xs" using assms(1) by (auto simp: sched_core_def)
  have len: "length (task_pool s) = TASK_MAX" using xs by (simp add: sched_ring_def pool_wf_def)
  have lo: "links_only ?s ?r" by simp
  note f = links_only_state [OF lo, simplified len set_state_simps]
  show st: "j < TASK_MAX \<Longrightarrow> state (task_at ?r j) = (if j = i then st else state (task_at s j))" for j
    using f(1) assms(2) len by (simp add: state_set_state)
  have nr: "\<not> runnable (task_at ?s i)" using assms(2,4) len by (auto simp: runnable_def state_set_state)
  have "\<exists>ys. sched_ring ?r ys"
  proof (cases "i \<in> set xs")
    case True
    from sched_ring_block [OF xs True nr refl] show ?thesis by blast
  next
    case False
    have "ring ?s xs" using xs by (simp add: sched_ring_def)
    then have r: "?r = ?s" using False by (rule queue_remove_absent)
    have "\<not> runnable (task_at s i)" using False xs assms(2,3) by (auto simp: sched_ring_def)
    with nr have "runnable (task_at ?s j) = runnable (task_at s j)" for j
      using assms(2) len by (cases "j = i") (auto simp: runnable_def state_set_state)
    then have "sched_ring ?s xs" using xs
      by (subst sched_ring_cong [of ?s s]) auto
    then show ?thesis using r by auto
  qed
  then show "sched_core ?r"
    using assms(1) f(2) st assms(5) unfolding sched_core_def by auto
qed

lemma switch_to_state:
  assumes "n < length (task_pool s)"
  shows "state (task_at (switch_to n s) j) = (if j = n then TASK_RUNNING else state (task_at s j))"
    "pid (task_at (switch_to n s) j) = pid (task_at s j)"
    "next_task (task_at (switch_to n s) j) = next_task (task_at s j)"
    "priority (task_at (switch_to n s) j) = priority (task_at s j)"
    "current_task (switch_to n s) = Some n" "run_queue_head (switch_to n s) = run_queue_head s"
    "pool_wf (switch_to n s) = pool_wf s" "sleep_tab (switch_to n s) = sleep_tab s"
    "quantum_counter (switch_to n s) = quantum_counter s" "uptime_ticks (switch_to n s) = uptime_ticks s"
  using assms by (simp_all add: switch_to_def Let_def task_at_upd_field set_state_def task_at_upd pool_wf_def)

lemma sched_ring_switch:
  assumes "sched_ring s xs" "n = 0 \<or> n \<in> set xs"
  shows "sched_ring (switch_to n s) xs"
proof -
  have n: "n < length (task_pool s)" using assms by (auto simp: sched_ring_def pool_wf_def ring_def)
  have "runnable (task_at (switch_to n s) j) = runnable (task_at s j)" if "0 < j" for j
    using that assms n by (auto simp: runnable_def switch_to_state sched_ring_def pool_wf_def)
  then show ?thesis using assms(1) n by (subst sched_ring_cong [of _ s]) (simp_all add: switch_to_state)
qed

lemma sched_inv_switch:
  assumes "sched_core s" "n < TASK_MAX" "n = 0 \<or> runnable (task_at s n)"
    "\<And>i. i < TASK_MAX \<Longrightarrow> state (task_at s i) \<noteq> TASK_RUNNING"
  shows "sched_inv (switch_to n s)"
proof -
  obtain xs where xs: "sched_ring s xs" using assms(1) by (auto simp: sched_core_def)
  have len: "length (task_pool s) = TASK_MAX" using xs by (simp add: sched_ring_def pool_wf_def)
  note f = switch_to_state [of n s, unfolded len, OF assms(2)]
  have "n = 0 \<or> n \<in> set xs" using assms(2,3) xs by (auto simp: sched_ring_def)
  note r = sched_ring_switch [OF xs this]
  have u: "n \<noteq> 0 \<Longrightarrow> pid (task_at s n) \<noteq> 0"
    using assms(1-3) by (auto simp: sched_core_def runnable_def)
  show ?thesis unfolding sched_inv_def using r assms u by (auto simp: f sched_core_def)
qed

lemma ready_scan_ready: "ready_scan s k n = Some i \<Longrightarrow> state (task_at s i) = TASK_READY"
  by (induction s k n rule: ready_scan.induct)
    (subst (asm) (2) ready_scan.simps, auto split: if_splits option.splits)

lemma links_in:
  "links s (k # ks) h \<Longrightarrow> ready_scan s k n = Some i \<Longrightarrow> run_queue_head s = Some h \<Longrightarrow> i \<in> set (k # ks)"
proof (induction ks arbitrary: k n)
  case Nil
  then show ?case by (subst (asm) ready_scan.simps) (auto split: if_splits)
next
  case (Cons k' ks)
  then show ?case by (subst (asm) (2) ready_scan.simps) (auto split: if_splits)
qed

lemma pick_successor_ok:
  assumes "sched_ring s xs"
  shows "pick_successor s = 0 \<or> (pick_successor s \<in> set xs \<and> state (task_at s (pick_successor s)) = TASK_READY)"
proof (cases xs)
  case Nil
  then show ?thesis using assms by (simp add: pick_successor_def sched_ring_def ring_def)
next
  case (Cons k ks)
  then have "links s (k # ks) k" "run_queue_head s = Some k" using assms by (auto simp: sched_ring_def ring_def)
  then show ?thesis using Cons links_in [of s k ks k 0] ready_scan_ready [of s k 0]
    by (auto simp: pick_successor_def split: option.splits)
qed

lemma sched_inv_block_from_syscall [inv_intros]:
  assumes "sched_inv s"
  shows "sched_inv (task_block_from_syscall s)"
proof -
  obtain c where c: "c < TASK_MAX" "current_task s = Some c" "sched_core s"
    "\<And>i. i < TASK_MAX \<Longrightarrow> state (task_at s i) = TASK_RUNNING \<Longrightarrow> i = c"
    and used: "state (task_at s c) \<noteq> TASK_UNUSED"
    using assms by (auto simp: sched_inv_core)
  show ?thesis
  proof (cases "pid (task_at s c) = 0")
    case True
    then show ?thesis using assms c by (simp add: task_block_from_syscall_def)
  next
    case False
    then have "c \<noteq> 0" using c(3) by (auto simp: sched_core_def intro: ccontr)
    let ?s = "set_state c TASK_BLOCKED s" and ?r = "queue_remove (Some c) (set_state c TASK_BLOCKED s)"
    have eq: "task_block_from_syscall s = switch_to (pick_successor ?r) ?r"
      using False c by (simp add: task_block_from_syscall_def Let_def)
    note r = sched_core_stop [OF c(3,1) \<open>c \<noteq> 0\<close> disjI1 [OF refl] used]
    obtain xs where xs: "sched_ring ?r xs" using r(1) by (auto simp: sched_core_def)
    have p: "pick_successor ?r < TASK_MAX" using pick_successor_ok [OF xs] xs
      by (auto simp: sched_ring_def ring_def)
    show ?thesis unfolding eq
    proof (rule sched_inv_switch [OF r(1) p])
      show "pick_successor ?r = 0 \<or> runnable (task_at ?r (pick_successor ?r))"
        using pick_successor_ok [OF xs] by (auto simp: runnable_def)
      show "i < TASK_MAX \<Longrightarrow> state (task_at ?r i) \<noteq> TASK_RUNNING" for i
        using r(2) c(4) by (auto split: if_splits)
    qed
  qed
qed

lemma sched_inv_sleep [inv_intros]: "sched_inv s \<Longrightarrow> sched_inv (fst (task_sleep_ticks_from_syscall n s))"
  by (auto simp: task_sleep_ticks_from_syscall_def inv_intros split: option.splits)

lemma sched_inv_block [inv_intros]:
  assumes "sched_inv s" "current_task s = Some c" "c \<noteq> 0"
  shows "sched_inv (task_block s)"
proof -
  have c: "c < TASK_MAX" "sched_core s" "state (task_at s c) \<noteq> TASK_UNUSED"
    "\<And>i. i < TASK_MAX \<Longrightarrow> state (task_at s i) = TASK_RUNNING \<Longrightarrow> i = c"
    using assms by (auto simp: sched_inv_core)
  note r = sched_core_stop [OF c(2,1) assms(3) disjI1 [OF refl] c(3)]
  have "links_only (set_state c TASK_BLOCKED s) (queue_remove (Some c) (set_state c TASK_BLOCKED s))" by simp
  from links_only_fields(1) [OF this] show ?thesis
    using r c assms(2) by (auto simp: sched_inv_core task_block_def)
qed

subsection \<open>The tick\<close>

lemma tick_search_finds:
  "links s (k # ks) h \<Longrightarrow> h \<notin> set ks \<Longrightarrow>
     tick_search s h k = Some (case find (\<lambda>i. state (task_at s i) = TASK_READY \<and> current_task s \<noteq> Some i) (k # ks)
       of None \<Rightarrow> h | Some i \<Rightarrow> i)"
proof (induction ks arbitrary: k)
  case Nil
  then show ?case by (subst tick_search.simps) auto
next
  case (Cons k' ks)
  then show ?case by (subst tick_search.simps) auto
qed

definition next_ready :: "'a sched_scheme \<Rightarrow> nat list \<Rightarrow> nat option" where
  "next_ready s xs = find (\<lambda>i. state (task_at s i) = TASK_READY \<and> current_task s \<noteq> Some i) xs"

lemma tick_search_ring:
  "ring s (h # ks) \<Longrightarrow> tick_search s h h = Some (case next_ready s (h # ks) of None \<Rightarrow> h | Some i \<Rightarrow> i)"
  using tick_search_finds [of s h ks h] by (simp add: ring_def next_ready_def)

text \<open>The tick after accounting and wake-ups, over the queue as a list.\<close>
definition tick_switch :: "nat list \<Rightarrow> 'a sched_scheme \<Rightarrow> 'a sched_scheme" where
  "tick_switch xs s =
     (case current_task s of None \<Rightarrow> s | Some c \<Rightarrow>
        if xs = [] then
          (if pid (task_at s c) \<noteq> 0 \<and> (state (task_at s c) = TASK_ZOMBIE \<or> state (task_at s c) = TASK_BLOCKED)
           then (switch_to 0 s)\<lparr>fs_base := 0\<rparr> else s)
        else if quantum_counter s + 1 < priority (task_at s c) * QUANTUM_BASE
        then s\<lparr>quantum_counter := quantum_counter s + 1\<rparr>
        else (case next_ready s xs of
                None \<Rightarrow> s\<lparr>quantum_counter := 0\<rparr>
              | Some n \<Rightarrow> switch_to n (if state (task_at s c) = TASK_RUNNING
                  then upd_task c (\<lambda>t. t\<lparr>state := TASK_READY\<rparr>) (s\<lparr>quantum_counter := 0\<rparr>)
                  else s\<lparr>quantum_counter := 0\<rparr>)))"

lemma next_ready_quantum [simp]: "next_ready (s\<lparr>quantum_counter := q\<rparr>) xs = next_ready s xs"
  by (simp add: next_ready_def)

lemma next_ready_Some:
  "next_ready s xs = Some n \<Longrightarrow> n \<in> set xs \<and> state (task_at s n) = TASK_READY \<and> current_task s \<noteq> Some n"
  by (auto simp: next_ready_def find_Some_iff)

lemma next_ready_None:
  "next_ready s xs = None \<Longrightarrow> n \<in> set xs \<Longrightarrow> state (task_at s n) \<noteq> TASK_READY \<or> current_task s = Some n"
  by (auto simp: next_ready_def find_None_iff)

lemma tick_dispatch_empty:
  "run_queue_head s = None \<Longrightarrow> current_task s = Some c \<Longrightarrow> tick_dispatch s = Some (tick_switch [] s)"
  unfolding tick_dispatch_def tick_switch_def by simp

lemma tick_dispatch_head:
  "run_queue_head s = Some h \<Longrightarrow> current_task s = Some c \<Longrightarrow>
   tick_search (s\<lparr>quantum_counter := 0\<rparr>) h h = Some n \<Longrightarrow>
   tick_dispatch s =
     Some (if quantum_counter s + 1 < priority (task_at s c) * QUANTUM_BASE
           then s\<lparr>quantum_counter := quantum_counter s + 1\<rparr>
           else if n = c \<or> state (task_at s n) \<noteq> TASK_READY then s\<lparr>quantum_counter := 0\<rparr>
           else switch_to n (if state (task_at s c) = TASK_RUNNING
                  then upd_task c (\<lambda>t. t\<lparr>state := TASK_READY\<rparr>) (s\<lparr>quantum_counter := 0\<rparr>)
                  else s\<lparr>quantum_counter := 0\<rparr>))"
  unfolding tick_dispatch_def by (simp add: Let_def)

lemma tick_dispatch_eq:
  assumes "ring s xs" "current_task s = Some c"
  shows "tick_dispatch s = Some (tick_switch xs s)"
proof (cases xs)
  case Nil
  then show ?thesis using assms by (simp add: tick_dispatch_empty ring_def)
next
  case (Cons h ks)
  have ne: "xs \<noteq> []" and hx: "h \<in> set xs" using Cons by simp_all
  have r: "ring (s\<lparr>quantum_counter := 0\<rparr>) (h # ks)"
    using assms(1)[unfolded Cons] by (rule ring_cong) simp_all
  have h: "run_queue_head s = Some h" using assms(1) Cons by (simp add: ring_def)
  have ts: "tick_search (s\<lparr>quantum_counter := 0\<rparr>) h h = Some (case next_ready s xs of None \<Rightarrow> h | Some i \<Rightarrow> i)"
    unfolding Cons using tick_search_ring [OF r] by (simp only: next_ready_quantum)
  show ?thesis
  proof (cases "next_ready s xs")
    case None
    have "h = c \<or> state (task_at s h) \<noteq> TASK_READY"
      using next_ready_None [OF None hx] assms(2) by auto
    then show ?thesis
      unfolding tick_dispatch_head [OF h assms(2) ts] by (simp add: tick_switch_def None assms(2) ne)
  next
    case (Some n)
    from next_ready_Some [OF this] assms(2) have "n \<noteq> c" "state (task_at s n) = TASK_READY" by auto
    then show ?thesis
      unfolding tick_dispatch_head [OF h assms(2) ts] by (simp add: tick_switch_def Some assms(2) ne)
  qed
qed

lemma sched_inv_tick_switch:
  assumes "sched_inv s" "sched_ring s xs"
  shows "sched_inv (tick_switch xs s)"
proof -
  obtain c where c: "c < TASK_MAX" "current_task s = Some c" "sched_core s"
    "\<And>i. i < TASK_MAX \<Longrightarrow> state (task_at s i) = TASK_RUNNING \<Longrightarrow> i = c"
    and used: "state (task_at s c) \<noteq> TASK_UNUSED"
    using assms by (auto simp: sched_inv_core)
  have len: "length (task_pool s) = TASK_MAX" using assms(2) by (simp add: sched_ring_def pool_wf_def)
  show ?thesis
  proof (cases "xs = []")
    case True
    have "state (task_at s c) = TASK_ZOMBIE \<or> state (task_at s c) = TASK_BLOCKED \<Longrightarrow> sched_inv (switch_to 0 s)"
      using c by (intro sched_inv_switch) auto
    then show ?thesis using True c assms(1) by (auto simp: tick_switch_def)
  next
    case False
    show ?thesis
    proof (cases "next_ready s xs")
      case None
      then show ?thesis using False c assms(1) by (simp add: tick_switch_def)
    next
      case (Some n)
      let ?s = "if state (task_at s c) = TASK_RUNNING
                then upd_task c (\<lambda>t. t\<lparr>state := TASK_READY\<rparr>) (s\<lparr>quantum_counter := 0\<rparr>)
                else s\<lparr>quantum_counter := 0\<rparr>"
      have st: "state (task_at ?s j) = (if j = c \<and> state (task_at s c) = TASK_RUNNING then TASK_READY else state (task_at s j))"
        "pid (task_at ?s j) = pid (task_at s j)" "next_task (task_at ?s j) = next_task (task_at s j)" for j
        using c(1) len by (auto simp: task_at_upd)
      have "sched_ring ?s xs = sched_ring s xs"
        by (rule sched_ring_cong) (auto simp: st runnable_def pool_wf_def)
      then have core: "sched_core ?s" using assms(2) c(3) by (auto simp: sched_core_def st)
      note n = next_ready_Some [OF Some]
      have nm: "n < TASK_MAX" using n assms(2) by (auto simp: sched_ring_def ring_def)
      have "sched_inv (switch_to n ?s)"
        using core nm by (rule sched_inv_switch) (use n c(4) in \<open>auto simp: st runnable_def\<close>)
      then show ?thesis using False c Some assms(1) by (simp add: tick_switch_def)
    qed
  qed
qed

text \<open>On a consistent scheduler the tick always comes back, and keeps it consistent.\<close>
lemma sched_tick_total:
  assumes "sched_inv s"
  obtains xs where "sched_ring (wake_sleepers (tick_accounting s)) xs"
    "sched_tick s = Some (tick_switch xs (wake_sleepers (tick_accounting s)))"
    "sched_inv (tick_switch xs (wake_sleepers (tick_accounting s)))"
proof -
  have i: "sched_inv (wake_sleepers (tick_accounting s))" using assms by (simp add: inv_intros)
  then obtain xs where xs: "sched_ring (wake_sleepers (tick_accounting s)) xs" by (auto simp: sched_inv_def)
  obtain c where "current_task (wake_sleepers (tick_accounting s)) = Some c" using i by (auto simp: sched_inv_def)
  with xs have "sched_tick s = Some (tick_switch xs (wake_sleepers (tick_accounting s)))"
    unfolding sched_tick_def by (intro tick_dispatch_eq) (auto simp: sched_ring_def)
  then show ?thesis using that [OF xs] sched_inv_tick_switch [OF i xs] by blast
qed

subsection \<open>Starting the scheduler\<close>

text \<open>\<open>sched_init\<close>; the owner of the idle task is what \<open>vfs_current_uid\<close> and
  \<open>vfs_current_gid\<close> return.\<close>
definition sched_init :: "u32 \<Rightarrow> u32 \<Rightarrow> 'a sched_scheme \<Rightarrow> 'a sched_scheme" where
  "sched_init u g s =
     (let s1 = s\<lparr>task_pool := replicate TASK_MAX zero_task, current_task := None, run_queue_head := None,
                 next_pid := 1, uptime_ticks := 0, idle_ticks := 0,
                 sleep_tab := replicate TASK_MAX \<lparr>deadline = 0, active = False\<rparr>\<rparr>;
          s2 = upd_task 0 (\<lambda>t. t\<lparr>pid := 0, pgid := 0, sid := 0, uid := u, gid := g, cwd := ''/'',
                 umask_value := 18, tname := ''idle'', state := TASK_READY, priority := 1,
                 created_ticks := 0, state_changed_ticks := 0, stack_base := 0\<rparr>) s1
      in s2\<lparr>current_task := Some 0\<rparr>)"

lemma sched_init_state:
  "j < TASK_MAX \<Longrightarrow> state (task_at (sched_init u g s) j) = (if j = 0 then TASK_READY else TASK_UNUSED)"
  "pid (task_at (sched_init u g s) 0) = 0" "pool_wf (sched_init u g s)"
  by (simp_all add: sched_init_def Let_def task_at_upd pool_wf_def zero_task_def)

lemma sched_inv_init [inv_intros]: "sched_inv (sched_init u g s)"
proof -
  have "sched_ring (sched_init u g s) []"
    by (auto simp: sched_ring_def ring_def sched_init_state runnable_def)
      (auto simp: sched_init_def Let_def)
  moreover have "current_task (sched_init u g s) = Some 0" by (simp add: sched_init_def Let_def)
  ultimately show ?thesis by (auto simp: sched_inv_def sched_init_state)
qed

subsection \<open>The run queue as an interface\<close>

text \<open>What the scheduler and the wake-up paths rely on: a queue of task slots without
  repetition, extended at the end and with members taken out anywhere.\<close>
datatype queue_op = Enq nat | Deq nat

fun queue_spec :: "nat \<Rightarrow> queue_op list \<Rightarrow> nat list \<Rightarrow> nat list option" where
  "queue_spec cap [] q = Some q"
| "queue_spec cap (Enq t # ops) q = (if t < cap \<and> t \<notin> set q then queue_spec cap ops (q @ [t]) else None)"
| "queue_spec cap (Deq t # ops) q = queue_spec cap ops (remove1 t q)"

fun queue_run :: "(nat \<Rightarrow> 's \<Rightarrow> 's \<times> int) \<Rightarrow> (nat \<Rightarrow> 's \<Rightarrow> 's) \<Rightarrow> queue_op list \<Rightarrow> 's \<Rightarrow> 's" where
  "queue_run add remove [] s = s"
| "queue_run add remove (Enq t # ops) s = queue_run add remove ops (fst (add t s))"
| "queue_run add remove (Deq t # ops) s = queue_run add remove ops (remove t s)"

locale slot_queue =
  fixes holds :: "'s \<Rightarrow> nat list \<Rightarrow> bool"
    and add :: "nat \<Rightarrow> 's \<Rightarrow> 's \<times> int"
    and remove :: "nat \<Rightarrow> 's \<Rightarrow> 's"
    and cap :: nat
  assumes add_ok: "holds s xs \<Longrightarrow> t \<notin> set xs \<Longrightarrow> t < cap \<Longrightarrow> snd (add t s) = 0 \<and> holds (fst (add t s)) (xs @ [t])"
    and remove_ok: "holds s xs \<Longrightarrow> t \<in> set xs \<Longrightarrow> holds (remove t s) (remove1 t xs)"
    and remove_other: "holds s xs \<Longrightarrow> t \<notin> set xs \<Longrightarrow> holds (remove t s) xs"
    and holds_fun: "holds s xs \<Longrightarrow> holds s ys \<Longrightarrow> xs = ys"
begin

lemma requeue: "holds s (t # xs) \<Longrightarrow> t \<notin> set xs \<Longrightarrow> t < cap \<Longrightarrow> holds (fst (add t (remove t s))) (xs @ [t])"
  using remove_ok [of s "t # xs" t] add_ok [of "remove t s" xs t] by simp

lemma remove_any: "holds s xs \<Longrightarrow> holds (remove t s) (remove1 t xs)"
  using remove_ok remove_other by (cases "t \<in> set xs") (auto simp: remove1_idem)

text \<open>A history of insertions and removals that never inserts a member twice acts on the
  list alone.\<close>
lemma history: "holds s xs \<Longrightarrow> queue_spec cap ops xs = Some ys \<Longrightarrow> holds (queue_run add remove ops s) ys"
proof (induction ops arbitrary: xs s)
  case (Cons op ops)
  note hyps = Cons.prems
  show ?case
  proof (cases op)
    case (Enq t)
    then have "t < cap" "t \<notin> set xs" "queue_spec cap ops (xs @ [t]) = Some ys" using hyps by (auto split: if_splits)
    then show ?thesis using Enq Cons.IH [of "fst (add t s)" "xs @ [t]"] add_ok [of s xs t] hyps by simp
  next
    case (Deq t)
    then show ?thesis using Cons.IH [of "remove t s" "remove1 t xs"] remove_any [of s xs t] hyps by simp
  qed
qed simp

end

lemma links_det: "links s xs e \<Longrightarrow> links s ys e \<Longrightarrow> xs \<noteq> [] \<Longrightarrow> ys \<noteq> [] \<Longrightarrow> hd xs = hd ys \<Longrightarrow>
    e \<notin> set (tl xs) \<Longrightarrow> e \<notin> set (tl ys) \<Longrightarrow> xs = ys"
proof (induction xs arbitrary: ys)
  case (Cons x xs)
  then obtain ys' where ys: "ys = x # ys'" by (cases ys) auto
  show ?case
  proof (cases xs)
    case Nil
    then show ?thesis using Cons.prems ys by (cases ys') auto
  next
    case (Cons x' xs')
    then obtain y' ys'' where "ys' = y' # ys''" using Cons.prems ys by (cases ys') auto
    with Cons.IH [of ys'] Cons Cons.prems ys show ?thesis by auto
  qed
qed simp

lemma ring_det:
  assumes "ring s xs" "ring s ys"
  shows "xs = ys"
proof (cases xs)
  case Nil
  then show ?thesis using assms by (cases ys) (simp_all add: ring_def)
next
  case (Cons x xs')
  then obtain ys' where ys: "ys = x # ys'" using assms by (cases ys) (simp_all add: ring_def)
  have "links s xs x" "links s ys x" "x \<notin> set xs'" "x \<notin> set ys'"
    using assms unfolding Cons ys by (simp_all add: ring_def)
  then show ?thesis by (intro links_det [of s xs x ys]) (simp_all add: Cons ys)
qed

interpretation rq: slot_queue "\<lambda>s xs. pool_wf s \<and> ring s xs" "\<lambda>t s. queue_add (Some t) s"
  "\<lambda>t s. queue_remove (Some t) s" TASK_MAX
proof
  fix s :: "'a sched_scheme" and xs ys t
  assume h: "pool_wf s \<and> ring s xs"
  show "t \<notin> set xs \<Longrightarrow> t < TASK_MAX \<Longrightarrow> snd (queue_add (Some t) s) = 0 \<and>
      pool_wf (fst (queue_add (Some t) s)) \<and> ring (fst (queue_add (Some t) s)) (xs @ [t])"
    using h queue_add_ring [of s xs t] by (simp add: links_only_pool_wf [OF links_only_queue_add])
  show "t \<in> set xs \<Longrightarrow> pool_wf (queue_remove (Some t) s) \<and> ring (queue_remove (Some t) s) (remove1 t xs)"
    using h queue_remove_ring [of s xs t] by (simp add: links_only_pool_wf [OF links_only_queue_remove])
  show "t \<notin> set xs \<Longrightarrow> pool_wf (queue_remove (Some t) s) \<and> ring (queue_remove (Some t) s) xs"
    using h queue_remove_absent [of s xs t] by simp
  show "pool_wf s \<and> ring s ys \<Longrightarrow> xs = ys"
    using h ring_det by blast
qed

subsection \<open>Running the tick\<close>

primrec run_ticks :: "nat \<Rightarrow> 'a sched_scheme \<Rightarrow> 'a sched_scheme option" where
  "run_ticks 0 s = Some s"
| "run_ticks (Suc n) s = (case sched_tick s of None \<Rightarrow> None | Some s' \<Rightarrow> run_ticks n s')"

lemma run_ticks_invariant:
  assumes "\<And>s. I s \<Longrightarrow> \<exists>s'. sched_tick s = Some s' \<and> I s'" "I s"
  shows "\<exists>s'. run_ticks n s = Some s' \<and> I s'"
  using assms(2) by (induction n arbitrary: s) (use assms(1) in fastforce)+

lemma tick_accounting_frame [simp]:
  "current_task (tick_accounting s) = current_task s" "sleep_tab (tick_accounting s) = sleep_tab s"
  "run_queue_head (tick_accounting s) = run_queue_head s" "quantum_counter (tick_accounting s) = quantum_counter s"
  "uptime_ticks (tick_accounting s) = uptime_ticks s + 1" "pool_wf (tick_accounting s) = pool_wf s"
  "state (task_at (tick_accounting s) j) = state (task_at s j)"
  "pid (task_at (tick_accounting s) j) = pid (task_at s j)"
  "priority (task_at (tick_accounting s) j) = priority (task_at s j)"
  "next_task (task_at (tick_accounting s) j) = next_task (task_at s j)"
  by (auto simp: tick_accounting_def Let_def task_at_upd_field pool_wf_def split: option.splits)

lemma sched_ring_accounting [simp]: "sched_ring (tick_accounting s) xs = sched_ring s xs"
  by (rule sched_ring_cong) (simp_all add: runnable_def)

lemma sched_ring_det: "sched_ring s xs \<Longrightarrow> sched_ring s ys \<Longrightarrow> xs = ys"
  by (auto simp: sched_ring_def intro: ring_det)

text \<open>Every tick is a switch over the queue the wake-ups leave.\<close>
lemma sched_tick_eq:
  assumes "sched_inv s" "sched_ring (wake_sleepers (tick_accounting s)) xs"
  shows "sched_tick s = Some (tick_switch xs (wake_sleepers (tick_accounting s)))"
    "sched_inv (tick_switch xs (wake_sleepers (tick_accounting s)))"
proof -
  obtain ys where "sched_ring (wake_sleepers (tick_accounting s)) ys"
    "sched_tick s = Some (tick_switch ys (wake_sleepers (tick_accounting s)))"
    "sched_inv (tick_switch ys (wake_sleepers (tick_accounting s)))"
    using sched_tick_total [OF assms(1)] by blast
  then show "sched_tick s = Some (tick_switch xs (wake_sleepers (tick_accounting s)))"
    "sched_inv (tick_switch xs (wake_sleepers (tick_accounting s)))"
    using sched_ring_det [OF assms(2)] by auto
qed

lemma wake_sleepers_none:
  "\<forall>i < TASK_MAX. \<not> active (sleep_tab s ! i) \<Longrightarrow> wake_sleepers s = s"
proof -
  assume a: "\<forall>i < TASK_MAX. \<not> active (sleep_tab s ! i)"
  have "set is \<subseteq> {..< TASK_MAX} \<Longrightarrow> fold wake_slot is s = s" for "is"
    by (induction "is") (use a in \<open>auto simp: wake_slot_def\<close>)
  moreover have "set [1 ..< TASK_MAX] \<subseteq> {..< TASK_MAX}" by auto
  ultimately show ?thesis unfolding wake_sleepers_def by blast
qed

lemma wake_slot_frame [simp]:
  "current_task (wake_slot i s) = current_task s" "uptime_ticks (wake_slot i s) = uptime_ticks s"
  "quantum_counter (wake_slot i s) = quantum_counter s" "pool_wf (wake_slot i s) = pool_wf s"
  by (simp_all add: wake_slot_def pool_wf_def)

lemma wake_list_frame [simp]:
  "current_task (fold wake_slot is s) = current_task s" "uptime_ticks (fold wake_slot is s) = uptime_ticks s"
  "quantum_counter (fold wake_slot is s) = quantum_counter s" "pool_wf (fold wake_slot is s) = pool_wf s"
  by (induction "is" arbitrary: s) simp_all

lemma wake_sleepers_frame [simp]:
  "current_task (wake_sleepers s) = current_task s" "uptime_ticks (wake_sleepers s) = uptime_ticks s"
  "quantum_counter (wake_sleepers s) = quantum_counter s" "pool_wf (wake_sleepers s) = pool_wf s"
  by (simp_all add: wake_sleepers_def)

lemma task_unblock_other:
  assumes "j < length (task_pool s)" "i < length (task_pool s)" "j \<noteq> i"
  shows "state (task_at (task_unblock (Some i) s) j) = state (task_at s j)"
proof -
  have lo: "links_only (set_state i TASK_READY s) (fst (queue_add (Some i) (set_state i TASK_READY s)))" by simp
  have "length (task_pool (fst (queue_add (Some i) (set_state i TASK_READY s)))) = length (task_pool s)"
    using links_only_fields(9) [OF lo] by (simp add: set_state_def)
  then show ?thesis using links_only_state(1) [OF lo, of j] assms
    by (auto simp: task_unblock_def state_set_state set_state_def [of i TASK_READY] task_at_upd split: prod.splits)
qed

lemma wake_slot_other:
  assumes "pool_wf s" "j < TASK_MAX" "i < TASK_MAX" "j \<noteq> i"
  shows "state (task_at (wake_slot i s) j) = state (task_at s j)" "sleep_tab (wake_slot i s) ! j = sleep_tab s ! j"
    "priority (task_at (wake_slot i s) j) = priority (task_at s j)"
    "pid (task_at (wake_slot i s) j) = pid (task_at s j)"
  using assms by (auto simp: wake_slot_def pool_wf_def task_unblock_other task_unblock_state)

lemma wake_list_other:
  assumes "pool_wf s" "j < TASK_MAX" "set is \<subseteq> {..< TASK_MAX}" "j \<notin> set is"
  shows "state (task_at (fold wake_slot is s) j) = state (task_at s j) \<and>
    sleep_tab (fold wake_slot is s) ! j = sleep_tab s ! j \<and>
    priority (task_at (fold wake_slot is s) j) = priority (task_at s j) \<and>
    pid (task_at (fold wake_slot is s) j) = pid (task_at s j)"
  using assms by (induction "is" arbitrary: s) (simp_all add: wake_slot_other)

subsection \<open>The correctness of the scheduler\<close>

text \<open>A queue of three runnable tasks and a sleeper, for the concrete checks below.\<close>
definition demo_task :: "u32 \<Rightarrow> task_state \<Rightarrow> nat option \<Rightarrow> task" where
  "demo_task p st n = zero_task\<lparr>pid := p, state := st, priority := 1, address_space := 4096, next_task := n\<rparr>"

definition demo_sched :: sched where
  "demo_sched =
     \<lparr>task_pool = demo_task 0 TASK_READY None # demo_task 1 TASK_RUNNING (Some 2) #
        demo_task 2 TASK_READY (Some 3) # demo_task 3 TASK_READY (Some 1) # demo_task 4 TASK_BLOCKED None #
        replicate 11 zero_task,
      current_task = Some 1, run_queue_head = Some 1, next_pid = 5, uptime_ticks = 0xFFFFFFFF, idle_ticks = 0,
      sleep_tab = replicate 16 \<lparr>deadline = 0, active = False\<rparr>, quantum_counter = 0, fs_base = 0\<rparr>"

lemma less_TASK_MAX: "i < TASK_MAX \<longleftrightarrow> i \<in> {0, 1, 2, 3, 4} \<or> (\<exists>j < 11. i = j + 5)"
  by (auto simp: TASK_MAX_def intro: exI [of _ "i - 5"])

lemma demo_task_simps [simp]:
  "pid (demo_task p st n) = p" "state (demo_task p st n) = st" "next_task (demo_task p st n) = n"
  "priority (demo_task p st n) = 1" "address_space (demo_task p st n) = 4096"
  "pid zero_task = 0" "state zero_task = TASK_UNUSED"
  by (simp_all add: demo_task_def zero_task_def)

lemma demo_wf: "pool_wf demo_sched"
  by (simp add: pool_wf_def demo_sched_def TASK_MAX_def)

lemma demo_ring: "sched_ring demo_sched [1, 2, 3]"
proof -
  have "ring demo_sched [1, 2, 3]"
    by (simp add: ring_def demo_sched_def TASK_MAX_def)
  moreover have "i \<in> {1, 2, 3} \<longleftrightarrow> runnable (task_at demo_sched i)" if "i < TASK_MAX" "i \<noteq> 0" for i
    using that unfolding less_TASK_MAX by (auto simp: demo_sched_def runnable_def nth_append)
  ultimately show ?thesis using demo_wf by (auto simp: sched_ring_def)
qed

lemma demo_inv: "sched_inv demo_sched"
proof -
  have "pid (task_at demo_sched 0) = 0" "current_task demo_sched = Some 1" "state (task_at demo_sched 1) = TASK_RUNNING"
    by (simp_all add: demo_sched_def)
  moreover have "\<forall>i < TASK_MAX. i \<noteq> 0 \<longrightarrow> state (task_at demo_sched i) \<noteq> TASK_UNUSED \<longrightarrow> pid (task_at demo_sched i) \<noteq> 0"
    "\<forall>i < TASK_MAX. state (task_at demo_sched i) = TASK_RUNNING \<longrightarrow> i = 1"
    unfolding less_TASK_MAX by (auto simp: demo_sched_def)
  ultimately show ?thesis using demo_ring by (auto simp: sched_inv_def)
qed

text \<open>C21. The run queue refines a list of task slots: a history of \<open>queue_add\<close> and
  \<open>queue_remove\<close> calls that never adds a queued slot leaves exactly the circular list of
  \<open>next\<close> links of the list with each addition appended and each removal taken out, whatever
  the position removed (head, middle, last, or not queued at all).\<close>
theorem run_queue_refines_list:
  assumes "pool_wf s" "ring s xs" "queue_spec TASK_MAX ops xs = Some ys"
  shows "ring (queue_run (\<lambda>t. queue_add (Some t)) (\<lambda>t. queue_remove (Some t)) ops s) ys"
  using rq.history [of s xs ops ys] assms by simp

theorem run_queue_refines_list_witness:
  "ring (queue_run (\<lambda>t. queue_add (Some t)) (\<lambda>t. queue_remove (Some t)) [Deq 1, Enq 4, Deq 3, Enq 1] demo_sched) [2, 4, 1]"
  using demo_ring by (intro run_queue_refines_list [of demo_sched "[1, 2, 3]"])
    (simp_all add: sched_ring_def TASK_MAX_def)

text \<open>The histories of the scheduler: ticks and the blocking and waking calls, with the calls'
  contracts: \<open>task_block\<close> is not called by the idle task, and only slots other than the idle one are
  woken.\<close>
datatype sched_op = Tick | Block | Block_from_syscall | Sleep u32 | Unblock nat

fun sched_step :: "sched_op \<Rightarrow> 'a sched_scheme \<Rightarrow> 'a sched_scheme option" where
  "sched_step Tick s = sched_tick s"
| "sched_step Block s = (if current_task s = Some 0 then Some s else Some (task_block s))"
| "sched_step Block_from_syscall s = Some (task_block_from_syscall s)"
| "sched_step (Sleep n) s = Some (fst (task_sleep_ticks_from_syscall n s))"
| "sched_step (Unblock i) s = (if 0 < i \<and> i < TASK_MAX then Some (task_unblock (Some i) s) else Some s)"

primrec sched_run :: "sched_op list \<Rightarrow> 'a sched_scheme \<Rightarrow> 'a sched_scheme option" where
  "sched_run [] s = Some s"
| "sched_run (op # ops) s = (case sched_step op s of None \<Rightarrow> None | Some s' \<Rightarrow> sched_run ops s')"

lemma sched_step_inv:
  assumes "sched_inv s"
  shows "\<exists>s'. sched_step op s = Some s' \<and> sched_inv s'"
proof (cases op)
  case Tick
  then show ?thesis using sched_tick_total [OF assms] by (metis sched_step.simps(1))
next
  case Block
  obtain c where "current_task s = Some c" using assms by (auto simp: sched_inv_def)
  then show ?thesis using Block assms sched_inv_block [OF assms, of c] by auto
qed (use assms in \<open>auto simp: inv_intros\<close>)


text \<open>C22. What a tick does with the processor, with every sleeper already handled: an unexpired
  quantum keeps the current task and counts; an expired one resets the counter and switches to the
  first \<open>READY\<close> task from the head of the queue other than the current one, the old task going
  back to \<open>READY\<close> if it was running, and keeps the current task if there is none.\<close>
theorem sched_tick_dispatches:
  assumes "sched_inv s" "sched_ring s (h # xs)" "current_task s = Some c"
    and "\<forall>i < TASK_MAX. \<not> active (sleep_tab s ! i)"
  shows "\<exists>s'. sched_tick s = Some s' \<and>
    (if quantum_counter s + 1 < priority (task_at s c) * QUANTUM_BASE
     then current_task s' = Some c \<and> quantum_counter s' = quantum_counter s + 1
     else quantum_counter s' = 0 \<and>
       (case find (\<lambda>i. state (task_at s i) = TASK_READY \<and> i \<noteq> c) (h # xs) of
          None \<Rightarrow> current_task s' = Some c
        | Some n \<Rightarrow> current_task s' = Some n \<and> state (task_at s' n) = TASK_RUNNING \<and>
            (state (task_at s c) = TASK_RUNNING \<longrightarrow> state (task_at s' c) = TASK_READY)))"
proof -
  let ?a = "tick_accounting s"
  have w: "wake_sleepers ?a = ?a" using assms(4) by (intro wake_sleepers_none) simp
  have t: "sched_tick s = Some (tick_switch (h # xs) ?a)"
    using sched_tick_eq(1) [OF assms(1), of "h # xs"] assms(2) by (simp add: w)
  have "pool_wf ?a" using assms(2) by (simp add: sched_ring_def)
  then have len: "length (task_pool ?a) = TASK_MAX" by (simp add: pool_wf_def)
  have c: "c < TASK_MAX" using assms(1,3) by (auto simp: sched_inv_def)
  have f: "next_ready ?a (h # xs) = find (\<lambda>i. state (task_at s i) = TASK_READY \<and> i \<noteq> c) (h # xs)"
    unfolding next_ready_def using assms(3) by (intro find_cong) auto
  show ?thesis
  proof (cases "next_ready ?a (h # xs)")
    case None
    then show ?thesis unfolding t f [symmetric] using assms(3) by (simp add: tick_switch_def)
  next
    case (Some n)
    from next_ready_Some [OF this] have n: "n \<in> set (h # xs)" "n \<noteq> c" using assms(3) by auto
    have "n < TASK_MAX" using n(1) assms(2) by (auto simp: sched_ring_def ring_def)
    then show ?thesis unfolding t f [symmetric] Some using Some assms(3) n(2) c len
      by (simp add: tick_switch_def switch_to_state task_at_upd)
  qed
qed

lemma demo_expired: "sched_inv (demo_sched\<lparr>quantum_counter := 1\<rparr>)" "sched_ring (demo_sched\<lparr>quantum_counter := 1\<rparr>) [1, 2, 3]"
  using demo_inv demo_ring by simp_all

lemma demo_awake: "\<forall>i < TASK_MAX. \<not> active (sleep_tab demo_sched ! i)"
  by (simp add: demo_sched_def TASK_MAX_def)

theorem sched_tick_dispatches_witness:
  "\<exists>s'. sched_tick (demo_sched\<lparr>quantum_counter := 1\<rparr>) = Some s' \<and> current_task s' = Some 2 \<and>
     state (task_at s' 1) = TASK_READY"
  using sched_tick_dispatches [OF demo_expired(1,2), of 1] demo_awake
  by (auto simp: demo_sched_def QUANTUM_BASE_def)

subsubsection \<open>Sleeping\<close>

definition asleep :: "nat \<Rightarrow> u32 \<Rightarrow> 'a sched_scheme \<Rightarrow> bool" where
  "asleep i d s \<longleftrightarrow> state (task_at s i) = TASK_BLOCKED \<and> sleep_tab s ! i = \<lparr>deadline = d, active = True\<rparr>"

lemma sint_diff_nonneg:
  fixes d :: u32
  assumes "n < 2 ^ 31" "n > 0"
  shows "\<not> 0 \<le> sint (d - (d + of_nat n))"
proof -
  have "d - (d + of_nat n) = word_of_int (- int n)" by simp
  then have "sint (d - (d + of_nat n)) = signed_take_bit 31 (- int n)"
    by (simp only: sint_sbintrunc') simp
  also have "\<dots> = - int n" using assms by (intro signed_take_bit_int_eq_self) simp_all
  finally show ?thesis using assms by simp
qed

lemma upt_split_slot: "0 < i \<Longrightarrow> i < TASK_MAX \<Longrightarrow> [1 ..< TASK_MAX] = [1 ..< i] @ i # [Suc i ..< TASK_MAX]"
  using upt_add_eq_append [of 1 i "TASK_MAX - i"] upt_conv_Cons [of i TASK_MAX] by simp

lemma wake_sleepers_slot:
  assumes "pool_wf s" "0 < i" "i < TASK_MAX"
  obtains s1 where "state (task_at s1 i) = state (task_at s i)" "sleep_tab s1 ! i = sleep_tab s ! i"
    "pool_wf s1" "uptime_ticks s1 = uptime_ticks s"
    "state (task_at (wake_sleepers s) i) = state (task_at (wake_slot i s1) i)"
    "sleep_tab (wake_sleepers s) ! i = sleep_tab (wake_slot i s1) ! i"
    "s1 = fold wake_slot [1 ..< i] s"
proof -
  let ?s1 = "fold wake_slot [1 ..< i] s"
  have w: "wake_sleepers s = fold wake_slot [Suc i ..< TASK_MAX] (wake_slot i ?s1)"
    unfolding wake_sleepers_def upt_split_slot [OF assms(2,3)] by simp
  have sub: "set [1 ..< i] \<subseteq> {..< TASK_MAX}" "set [Suc i ..< TASK_MAX] \<subseteq> {..< TASK_MAX}"
    and nin: "i \<notin> set [1 ..< i]" "i \<notin> set [Suc i ..< TASK_MAX]" using assms by auto
  have wf: "pool_wf (wake_slot i ?s1)" using assms(1) by simp
  note a = wake_list_other [OF assms(1,3) sub(1) nin(1)] and b = wake_list_other [OF wf assms(3) sub(2) nin(2)]
  show ?thesis using assms a b w by (intro that [of ?s1]) auto
qed

lemma wake_sleepers_asleep:
  assumes "sched_inv s" "0 < i" "i < TASK_MAX" "asleep i d s"
  shows "\<not> 0 \<le> sint (uptime_ticks s - d) \<Longrightarrow> asleep i d (wake_sleepers s)"
    "0 \<le> sint (uptime_ticks s - d) \<Longrightarrow> state (task_at (wake_sleepers s) i) = TASK_READY"
proof -
  have wf: "pool_wf s" using assms(1) by (auto simp: sched_inv_def sched_ring_def)
  obtain s1 where s1: "state (task_at s1 i) = state (task_at s i)" "sleep_tab s1 ! i = sleep_tab s ! i"
    "pool_wf s1" "uptime_ticks s1 = uptime_ticks s"
    "state (task_at (wake_sleepers s) i) = state (task_at (wake_slot i s1) i)"
    "sleep_tab (wake_sleepers s) ! i = sleep_tab (wake_slot i s1) ! i"
    "s1 = fold wake_slot [1 ..< i] s"
    using wake_sleepers_slot [OF wf assms(2,3)] by blast
  show "\<not> 0 \<le> sint (uptime_ticks s - d) \<Longrightarrow> asleep i d (wake_sleepers s)"
    using s1 assms(4) by (simp add: asleep_def wake_slot_def)
  have "sched_inv s1" unfolding s1(7) using assms(1,3) by (intro sched_inv_wake_list) auto
  then obtain xs where xs: "sched_ring s1 xs" by (auto simp: sched_inv_def)
  assume due: "0 \<le> sint (uptime_ticks s - d)"
  let ?s2 = "s1\<lparr>sleep_tab := (sleep_tab s1)[i := \<lparr>deadline = d, active = False\<rparr>]\<rparr>"
  have w: "wake_slot i s1 = task_unblock (Some i) ?s2"
    using due s1 assms(4) by (simp add: asleep_def wake_slot_def)
  have b: "state (task_at ?s2 i) = TASK_BLOCKED" using s1(1) assms(4) by (simp add: asleep_def)
  have r: "sched_ring ?s2 xs" using xs by simp
  have "length (task_pool ?s2) = TASK_MAX" using s1(3) by (simp add: pool_wf_def)
  note u = sched_ring_unblock(2) [OF r assms(3) _ b]
  have "state (task_at (task_unblock (Some i) ?s2) i) = TASK_READY"
    using u assms(2,3) links_only_state(1) [OF links_only_queue_add [of "set_state i TASK_READY ?s2" "Some i"], of i]
      \<open>length (task_pool ?s2) = TASK_MAX\<close>
    by (simp add: state_set_state)
  then show "state (task_at (wake_sleepers s) i) = TASK_READY" using s1(5) w by simp
qed

lemma tick_switch_slot:
  assumes "sched_inv s" "sched_ring s xs" "0 < i" "i < TASK_MAX"
  shows "state (task_at s i) = TASK_BLOCKED \<Longrightarrow> state (task_at (tick_switch xs s) i) = TASK_BLOCKED"
    "runnable (task_at s i) \<Longrightarrow> runnable (task_at (tick_switch xs s) i)"
    "sleep_tab (tick_switch xs s) = sleep_tab s" "uptime_ticks (tick_switch xs s) = uptime_ticks s"
proof -
  have len: "length (task_pool s) = TASK_MAX" using assms(2) by (simp add: sched_ring_def pool_wf_def)
  obtain c where c: "current_task s = Some c" "c < TASK_MAX" using assms(1) by (auto simp: sched_inv_def)
  have n: "next_ready s xs = Some n \<Longrightarrow> n < TASK_MAX \<and> state (task_at s n) = TASK_READY" for n
    using next_ready_Some [of s xs n] assms(2) by (auto simp: sched_ring_def ring_def)
  show "state (task_at s i) = TASK_BLOCKED \<Longrightarrow> state (task_at (tick_switch xs s) i) = TASK_BLOCKED"
    "runnable (task_at s i) \<Longrightarrow> runnable (task_at (tick_switch xs s) i)"
    "sleep_tab (tick_switch xs s) = sleep_tab s" "uptime_ticks (tick_switch xs s) = uptime_ticks s"
    using c len n assms(3,4)
    by (auto simp: tick_switch_def switch_to_state runnable_def task_at_upd split: option.splits)
qed

lemma tick_asleep:
  assumes "sched_inv s" "asleep i d s" "0 < i" "i < TASK_MAX"
  shows "\<exists>s'. sched_tick s = Some s' \<and> sched_inv s' \<and> uptime_ticks s' = uptime_ticks s + 1 \<and>
    (if 0 \<le> sint (uptime_ticks s + 1 - d) then runnable (task_at s' i) else asleep i d s')"
proof -
  let ?a = "tick_accounting s" and ?w = "wake_sleepers (tick_accounting s)"
  have a: "sched_inv ?a" "asleep i d ?a" using assms by (simp_all add: inv_intros asleep_def)
  have w: "sched_inv ?w" using a(1) by (simp add: inv_intros)
  then obtain xs where xs: "sched_ring ?w xs" by (auto simp: sched_inv_def)
  note k = wake_sleepers_asleep [OF a(1) assms(3,4) a(2)] and t = sched_tick_eq [OF assms(1) xs]
    and f = tick_switch_slot [OF w xs assms(3,4)]
  show ?thesis unfolding t(1) using k t(2) f by (auto simp: asleep_def runnable_def)
qed

lemma asleep_until:
  "sched_inv s \<Longrightarrow> asleep i (uptime_ticks s + of_nat m) s \<Longrightarrow> 0 < i \<Longrightarrow> i < TASK_MAX \<Longrightarrow> m < 2 ^ 31 \<Longrightarrow> k < m \<Longrightarrow>
    \<exists>s'. run_ticks k s = Some s' \<and> state (task_at s' i) = TASK_BLOCKED"
proof (induction k arbitrary: s m)
  case 0
  then show ?case by (simp add: asleep_def)
next
  case (Suc k)
  obtain s1 where s1: "sched_tick s = Some s1" "sched_inv s1" "uptime_ticks s1 = uptime_ticks s + 1"
    "if 0 \<le> sint (uptime_ticks s + 1 - (uptime_ticks s + of_nat m)) then runnable (task_at s1 i)
     else asleep i (uptime_ticks s + of_nat m) s1"
    using tick_asleep [OF Suc.prems(1-4)] by blast
  have d: "uptime_ticks s + of_nat m = uptime_ticks s1 + of_nat (m - 1)"
    using Suc.prems(6) s1(3) by (cases m) simp_all
  have "\<not> 0 \<le> sint (uptime_ticks s1 - (uptime_ticks s1 + of_nat (m - 1)))"
    using Suc.prems(5,6) by (intro sint_diff_nonneg) auto
  then have "asleep i (uptime_ticks s1 + of_nat (m - 1)) s1"
    using s1(4) unfolding d s1(3) [symmetric] by (simp only: if_False)
  from Suc.IH [OF s1(2) this] Suc.prems s1(1) show ?case by auto
qed

lemma asleep_wakes:
  "sched_inv s \<Longrightarrow> asleep i (uptime_ticks s + of_nat m) s \<Longrightarrow> 0 < i \<Longrightarrow> i < TASK_MAX \<Longrightarrow> m < 2 ^ 31 \<Longrightarrow> 0 < m \<Longrightarrow>
    \<exists>s'. run_ticks m s = Some s' \<and> runnable (task_at s' i)"
proof (induction m arbitrary: s)
  case (Suc m)
  obtain s1 where s1: "sched_tick s = Some s1" "sched_inv s1" "uptime_ticks s1 = uptime_ticks s + 1"
    "if 0 \<le> sint (uptime_ticks s + 1 - (uptime_ticks s + of_nat (Suc m))) then runnable (task_at s1 i)
     else asleep i (uptime_ticks s + of_nat (Suc m)) s1"
    using tick_asleep [OF Suc.prems(1-4)] by blast
  have d: "uptime_ticks s + of_nat (Suc m) = uptime_ticks s1 + of_nat m" using s1(3) by simp
  show ?case
  proof (cases "m = 0")
    case True
    then show ?thesis using s1 by simp
  next
    case False
    have "\<not> 0 \<le> sint (uptime_ticks s1 - (uptime_ticks s1 + of_nat m))"
      using Suc.prems(5) False by (intro sint_diff_nonneg) auto
    then have "asleep i (uptime_ticks s1 + of_nat m) s1"
      using s1(4) unfolding d s1(3) [symmetric] by (simp only: if_False)
    from Suc.IH [OF s1(2) this] Suc.prems False s1(1) show ?thesis by simp
  qed
qed simp

lemma sleep_blocks:
  assumes "sched_inv s" "current_task s = Some i" "pid (task_at s i) \<noteq> 0" "address_space (task_at s i) \<noteq> 0"
    "\<not> active (sleep_tab s ! i)" "0 < n"
  shows "snd (task_sleep_ticks_from_syscall n s) = 0" "0 < i" "i < TASK_MAX"
    "asleep i (uptime_ticks s + n) (fst (task_sleep_ticks_from_syscall n s))"
    "uptime_ticks (fst (task_sleep_ticks_from_syscall n s)) = uptime_ticks s"
proof -
  let ?s = "s\<lparr>sleep_tab := (sleep_tab s)[i := \<lparr>deadline = uptime_ticks s + n, active = True\<rparr>]\<rparr>"
  let ?b = "set_state i TASK_BLOCKED ?s" and ?r = "queue_remove (Some i) (set_state i TASK_BLOCKED ?s)"
  show i: "i < TASK_MAX" using assms by (auto simp: sched_inv_def)
  show i0: "0 < i" using assms(1,3) by (cases i) (auto simp: sched_inv_def)
  have wf: "pool_wf s" using assms(1) by (auto simp: sched_inv_def sched_ring_def)
  have eq: "task_sleep_ticks_from_syscall n s = (switch_to (pick_successor ?r) ?r, 0)"
    using assms i by (simp add: task_sleep_ticks_from_syscall_def task_block_from_syscall_def Let_def word_neq_0_conv [symmetric])
  then show "snd (task_sleep_ticks_from_syscall n s) = 0" by simp
  have core: "sched_core ?s" "state (task_at ?s i) \<noteq> TASK_UNUSED"
    using assms(1,2) by (auto simp: sched_inv_core sched_core_def)
  note st = sched_core_stop [OF core(1) i less_imp_neq [OF i0, symmetric] disjI1 [OF refl] core(2)]
  obtain xs where xs: "sched_ring ?r xs" using st(1) by (auto simp: sched_core_def)
  have p: "pick_successor ?r < TASK_MAX" "pick_successor ?r \<noteq> i"
    using pick_successor_ok [OF xs] xs st(2) [OF i] i0 by (auto simp: sched_ring_def ring_def)
  have len: "length (task_pool ?r) = TASK_MAX" using xs by (simp add: sched_ring_def pool_wf_def)
  have lo: "links_only ?b ?r" by simp
  show "asleep i (uptime_ticks s + n) (fst (task_sleep_ticks_from_syscall n s))"
    "uptime_ticks (fst (task_sleep_ticks_from_syscall n s)) = uptime_ticks s"
    using p len st(2) [OF i] links_only_fields(2,4) [OF lo] wf i
    by (simp_all add: eq asleep_def switch_to_state pool_wf_def)
qed



subsubsection \<open>Two behaviours the documentation does not describe\<close>

lemma tick_switch_ring:
  assumes "sched_inv s" "sched_ring s xs" "xs \<noteq> []"
  shows "sched_ring (tick_switch xs s) xs"
proof -
  obtain c where c: "current_task s = Some c" "c < TASK_MAX" using assms(1) by (auto simp: sched_inv_def)
  have len: "length (task_pool s) = TASK_MAX" using assms(2) by (simp add: sched_ring_def pool_wf_def)
  have "sched_ring (switch_to n (if state (task_at s c) = TASK_RUNNING
          then upd_task c (\<lambda>t. t\<lparr>state := TASK_READY\<rparr>) (s\<lparr>quantum_counter := 0\<rparr>) else s\<lparr>quantum_counter := 0\<rparr>)) xs"
    if "next_ready s xs = Some n" for n
  proof (rule sched_ring_switch)
    show "n = 0 \<or> n \<in> set xs" using next_ready_Some [OF that] by simp
    show "sched_ring (if state (task_at s c) = TASK_RUNNING
          then upd_task c (\<lambda>t. t\<lparr>state := TASK_READY\<rparr>) (s\<lparr>quantum_counter := 0\<rparr>) else s\<lparr>quantum_counter := 0\<rparr>) xs"
      using assms(2) c len
      by (subst sched_ring_cong [of _ s]) (auto simp: task_at_upd runnable_def pool_wf_def)
  qed
  then show ?thesis using assms(2,3) c by (auto simp: tick_switch_def split: option.split)
qed

definition pair_runs :: "nat \<Rightarrow> nat \<Rightarrow> nat list \<Rightarrow> 'a sched_scheme \<Rightarrow> bool" where
  "pair_runs a b xs s \<longleftrightarrow> sched_inv s \<and> sched_ring s (a # b # xs) \<and>
     (current_task s = Some a \<or> current_task s = Some b) \<and> (\<forall>i < TASK_MAX. \<not> active (sleep_tab s ! i))"

lemma pair_runs_tick:
  assumes "pair_runs a b xs s"
  shows "\<exists>s'. sched_tick s = Some s' \<and> pair_runs a b xs s'"
proof -
  let ?a = "tick_accounting s" and ?xs = "a # b # xs"
  have s: "sched_inv s" "sched_ring s ?xs" "\<forall>i < TASK_MAX. \<not> active (sleep_tab s ! i)"
    and cur: "current_task s = Some a \<or> current_task s = Some b" using assms by (auto simp: pair_runs_def)
  have w: "wake_sleepers ?a = ?a" using s(3) by (intro wake_sleepers_none) simp
  have t: "sched_tick s = Some (tick_switch ?xs ?a)" "sched_inv (tick_switch ?xs ?a)"
    using sched_tick_eq [OF s(1), of ?xs] s(2) by (simp_all add: w)
  have i: "sched_inv ?a" "sched_ring ?a ?xs" using s by (simp_all add: inv_intros)
  have ab: "a \<noteq> b" "a < TASK_MAX" "b < TASK_MAX" "0 < a" "0 < b" using s(2) by (auto simp: sched_ring_def ring_def)
  have run: "runnable (task_at s a)" "runnable (task_at s b)" using s(2) ab by (auto simp: sched_ring_def)
  have only: "state (task_at s j) = TASK_RUNNING \<Longrightarrow> j < TASK_MAX \<Longrightarrow> current_task s = Some j" for j
    using s(1) by (auto simp: sched_inv_def)
  have nr: "next_ready ?a ?xs = (if current_task s = Some a then Some b else Some a)"
  proof (cases "current_task s = Some a")
    case True
    then have "state (task_at s b) = TASK_READY" using run(2) only [of b] ab by (auto simp: runnable_def)
    then show ?thesis using True ab(1) by (simp add: next_ready_def)
  next
    case False
    then have "state (task_at s a) = TASK_READY" using run(1) only [of a] ab by (auto simp: runnable_def)
    then show ?thesis using False by (simp add: next_ready_def)
  qed
  have len: "length (task_pool ?a) = TASK_MAX" using i(2) by (simp add: sched_ring_def pool_wf_def)
  have "current_task (tick_switch ?xs ?a) = Some a \<or> current_task (tick_switch ?xs ?a) = Some b"
    using cur
  proof
    assume c: "current_task s = Some a"
    have n: "next_ready ?a ?xs = Some b" using nr c by simp
    show ?thesis unfolding tick_switch_def tick_accounting_frame(1) c option.case n
      using ab len by (simp add: switch_to_state c)
  next
    assume c: "current_task s = Some b"
    have n: "next_ready ?a ?xs = Some a" using nr c ab(1) by simp
    show ?thesis unfolding tick_switch_def tick_accounting_frame(1) c option.case n
      using ab len by (simp add: switch_to_state c)
  qed
  moreover have "\<forall>j < TASK_MAX. \<not> active (sleep_tab (tick_switch ?xs ?a) ! j)"
    using tick_switch_slot(3) [OF i ab(4,2)] s(3) by simp
  moreover have "sched_ring (tick_switch ?xs ?a) ?xs" by (rule tick_switch_ring [OF i]) simp
  ultimately have "pair_runs a b xs (tick_switch ?xs ?a)" unfolding pair_runs_def using t(2) by blast
  then show ?thesis using t(1) by blast
qed

text \<open>C26. The scheduler is not round-robin: each search starts at the head of the queue, which
  a tick never moves, and stops at the first \<open>READY\<close> task other than the current one.  With
  three or more runnable tasks the first two of the queue hand the processor to each other for ever
  (no task blocking or exiting) and every other runnable task stays \<open>READY\<close>.\<close>
theorem sched_tick_starves:
  assumes "sched_inv s" "sched_ring s (a # b # xs)" "current_task s = Some a \<or> current_task s = Some b"
    "\<forall>i < TASK_MAX. \<not> active (sleep_tab s ! i)"
  shows "\<exists>s'. run_ticks n s = Some s' \<and> (current_task s' = Some a \<or> current_task s' = Some b) \<and>
    (\<forall>i \<in> set xs. state (task_at s' i) = TASK_READY)"
proof -
  have "pair_runs a b xs s" using assms by (simp add: pair_runs_def)
  from run_ticks_invariant [of "pair_runs a b xs", OF pair_runs_tick this]
  obtain s' where s': "run_ticks n s = Some s'" "pair_runs a b xs s'" by blast
  have "state (task_at s' i) = TASK_READY" if "i \<in> set xs" for i
  proof -
    have "i \<noteq> a" "i \<noteq> b" "i < TASK_MAX" "0 < i" "runnable (task_at s' i)"
      using s'(2) that by (auto simp: pair_runs_def sched_ring_def ring_def intro: gr0I)
    then show ?thesis using s'(2) by (auto simp: pair_runs_def sched_inv_def runnable_def)
  qed
  then show ?thesis using s' by (auto simp: pair_runs_def)
qed

theorem sched_tick_starves_witness:
  "\<exists>s'. run_ticks 1000 demo_sched = Some s' \<and> (current_task s' = Some 1 \<or> current_task s' = Some 2) \<and>
    state (task_at s' 3) = TASK_READY"
  using sched_tick_starves [OF demo_inv demo_ring _ demo_awake, of 1000] by (auto simp: demo_sched_def)

text \<open>\<open>task_block\<close> (and \<open>task_exit\<close>, which ends the same way) relies on the software
  timer interrupt of \<open>task_yield\<close> to leave the processor, but \<open>sched_tick\<close> returns to the
  caller as long as the quantum has not run out: with another task runnable and quantum left, the
  task that has just been taken off the queue is still the one that runs.\<close>
theorem task_block_keeps_running:
  assumes "sched_inv s" "current_task s = Some c" "c \<noteq> 0" "sched_ring (task_block s) (h # xs)"
    "quantum_counter s + 1 < priority (task_at s c) * QUANTUM_BASE" "\<forall>i < TASK_MAX. \<not> active (sleep_tab s ! i)"
  shows "\<exists>s'. sched_tick (task_block s) = Some s' \<and> current_task s' = Some c \<and> state (task_at s' c) = TASK_BLOCKED"
proof -
  let ?b = "task_block s" and ?a = "tick_accounting (task_block s)"
  have c: "c < TASK_MAX" "length (task_pool s) = TASK_MAX"
    using assms(1,2) by (auto simp: sched_inv_def sched_ring_def pool_wf_def)
  have b: "?b = queue_remove (Some c) (set_state c TASK_BLOCKED s)" using assms(2) by (simp add: task_block_def)
  have lo: "links_only (set_state c TASK_BLOCKED s) ?b" unfolding b by simp
  note f = links_only_fields [OF lo] and g = links_only_state [OF lo]
  have st: "state (task_at ?b c) = TASK_BLOCKED" "priority (task_at ?b c) = priority (task_at s c)"
    "current_task ?b = Some c" "quantum_counter ?b = quantum_counter s" "sleep_tab ?b = sleep_tab s"
    using c g(1,3) [of c] f assms(2) by (simp_all add: set_state_def task_at_upd)
  have w: "wake_sleepers ?a = ?a" using assms(6) st by (intro wake_sleepers_none) simp
  have inv: "sched_inv ?b" using assms(1-3) by (rule sched_inv_block)
  have t: "sched_tick ?b = Some (tick_switch (h # xs) ?a)"
    using sched_tick_eq(1) [OF inv, of "h # xs"] assms(4) by (simp add: w)
  then show ?thesis using st assms(5) by (simp add: tick_switch_def)
qed

lemma demo_block_ring: "sched_ring (task_block demo_sched) [2, 3]"
proof -
  let ?s = "set_state 1 TASK_BLOCKED demo_sched"
  have len: "1 < length (task_pool demo_sched)" by (simp add: demo_sched_def)
  have b: "task_block demo_sched = queue_remove (Some 1) ?s" by (simp add: task_block_def demo_sched_def)
  have "\<not> runnable (task_at ?s 1)" using len by (simp add: runnable_def state_set_state)
  then show ?thesis using sched_ring_block [OF demo_ring, of 1 ?s TASK_BLOCKED] b by simp
qed

theorem task_block_keeps_running_witness:
  "\<exists>s'. sched_tick (task_block demo_sched) = Some s' \<and> current_task s' = Some 1 \<and> state (task_at s' 1) = TASK_BLOCKED"
  using task_block_keeps_running [OF demo_inv _ _ demo_block_ring _ demo_awake, of 1]
  by (simp add: demo_sched_def QUANTUM_BASE_def)
end
