(* ===== verification/Native_Pipe.thy ===== *)
theory Native_Pipe
  imports Run_Queue
begin

unbundle bit_operations_syntax

section \<open>Anonymous pipes: \<open>src/src/native_pipe.c\<close>\<close>

text \<open>
  The static pool of pipes, each a ring buffer of \<open>ATM_PIPE_CAP\<close> bytes with reference counts for
  its two ends and one waiting reader and writer.  A task's descriptor is
  \<open>pipe_map[fd] = index * 2 + end\<close>.  The kernel state is the scheduler's, extended by the pool.
  A \<open>task_t *\<close> argument is \<open>None\<close> when it is \<open>NULL\<close>.  Reference counts and buffer
  positions are naturals: the counts are numbers of open descriptors (proved below), so they stay
  far below \<open>2\<^sup>32\<close>.

  \<open>native_pipe_read\<close> and \<open>native_pipe_write\<close> loop until they transfer bytes or fail, blocking
  the task in between.  One pass of the loop is a definition here; a pass that blocks gives
  \<open>Blocked\<close> with the state in which another task runs, and the task comes back to the head of
  the loop when it is made current again.
\<close>

subsection \<open>Definitions\<close>

definition ATM_PIPE_MAX :: nat where "ATM_PIPE_MAX = 8"
definition ATM_PIPE_CAP :: nat where "ATM_PIPE_CAP = 1024"
definition ATM_PIPE_READ_END :: nat where "ATM_PIPE_READ_END = 0"
definition ATM_PIPE_WRITE_END :: nat where "ATM_PIPE_WRITE_END = 1"
definition ATM_PIPE_EPIPE :: int where "ATM_PIPE_EPIPE = 32"
definition ATM_EAGAIN :: int where "ATM_EAGAIN = 11"
definition ATM_POLLIN :: u16 where "ATM_POLLIN = 0x0001"
definition ATM_POLLOUT :: u16 where "ATM_POLLOUT = 0x0004"
definition ATM_POLLERR :: u16 where "ATM_POLLERR = 0x0008"
definition ATM_POLLHUP :: u16 where "ATM_POLLHUP = 0x0010"
definition ATM_POLLNVAL :: u16 where "ATM_POLLNVAL = 0x0020"

record native_pipe =
  buffer :: "u8 list"
  phead :: nat
  ptail :: nat
  pcount :: nat
  read_refs :: nat
  write_refs :: nat
  reader_waiter :: "nat option"
  writer_waiter :: "nat option"
  used :: bool

definition zero_pipe :: native_pipe where
  "zero_pipe = \<lparr>buffer = replicate 1024 0, phead = 0, ptail = 0, pcount = 0, read_refs = 0, write_refs = 0,
     reader_waiter = None, writer_waiter = None, used = False\<rparr>"

record pipes = sched +
  pipe_pool :: "native_pipe list"

abbreviation pipe_at :: "'a pipes_scheme \<Rightarrow> nat \<Rightarrow> native_pipe" where
  "pipe_at s k \<equiv> pipe_pool s ! k"

definition upd_pipe :: "nat \<Rightarrow> (native_pipe \<Rightarrow> native_pipe) \<Rightarrow> 'a pipes_scheme \<Rightarrow> 'a pipes_scheme" where
  "upd_pipe k f s = s\<lparr>pipe_pool := (pipe_pool s)[k := f (pipe_at s k)]\<rparr>"

text \<open>The descriptor's pipe index and end; \<open>None\<close> is the \<open>-1\<close> of the code.\<close>
definition pipe_decode :: "nat option \<Rightarrow> int \<Rightarrow> 'a pipes_scheme \<Rightarrow> (nat \<times> nat) option" where
  "pipe_decode t fd s =
     (case t of
        None \<Rightarrow> None
      | Some i \<Rightarrow>
          if \<not> fd_table_ready (task_at s i) \<or> fd < 3 \<or> fd \<ge> int TASK_FD_MAX \<or> pipe_map (task_at s i) ! nat fd < 0
          then None
          else
            (let encoded = pipe_map (task_at s i) ! nat fd;
                 idx = nat (encoded div 2); which = nat (encoded mod 2)
             in if idx \<ge> ATM_PIPE_MAX \<or> \<not> used (pipe_at s idx) then None else Some (idx, which)))"

definition pipe_fd_free :: "task \<Rightarrow> int \<Rightarrow> bool" where
  "pipe_fd_free t fd \<longleftrightarrow> 3 \<le> fd \<and> fd < int TASK_FD_MAX \<and> fd_map t ! nat fd < 0 \<and>
     socket_map t ! nat fd < 0 \<and> pipe_map t ! nat fd < 0"

definition pipe_wake_reader :: "nat \<Rightarrow> 'a pipes_scheme \<Rightarrow> 'a pipes_scheme" where
  "pipe_wake_reader k s =
     (case reader_waiter (pipe_at s k) of
        None \<Rightarrow> s
      | Some w \<Rightarrow> if state (task_at s w) = TASK_BLOCKED then task_unblock (Some w) s else s)"

definition pipe_wake_writer :: "nat \<Rightarrow> 'a pipes_scheme \<Rightarrow> 'a pipes_scheme" where
  "pipe_wake_writer k s =
     (case writer_waiter (pipe_at s k) of
        None \<Rightarrow> s
      | Some w \<Rightarrow> if state (task_at s w) = TASK_BLOCKED then task_unblock (Some w) s else s)"

definition pipe_maybe_free :: "nat \<Rightarrow> 'a pipes_scheme \<Rightarrow> 'a pipes_scheme" where
  "pipe_maybe_free k s =
     (if read_refs (pipe_at s k) = 0 \<and> write_refs (pipe_at s k) = 0 then upd_pipe k (\<lambda>_. zero_pipe) s else s)"

definition set_pipe_map :: "nat \<Rightarrow> int \<Rightarrow> int \<Rightarrow> 'a sched_scheme \<Rightarrow> 'a sched_scheme" where
  "set_pipe_map i fd v s = upd_task i (\<lambda>t. t\<lparr>pipe_map := (pipe_map t)[nat fd := v]\<rparr>) s"

definition native_pipe_task_init :: "nat option \<Rightarrow> 'a pipes_scheme \<Rightarrow> 'a pipes_scheme" where
  "native_pipe_task_init t s =
     (case t of None \<Rightarrow> s | Some i \<Rightarrow> upd_task i (\<lambda>t. t\<lparr>pipe_map := replicate TASK_FD_MAX (-1)\<rparr>) s)"

definition native_pipe_is_fd :: "nat option \<Rightarrow> int \<Rightarrow> 'a pipes_scheme \<Rightarrow> bool" where
  "native_pipe_is_fd t fd s = (pipe_decode t fd s \<noteq> None)"

text \<open>The returned pair is \<open>out_fds\<close>, \<open>None\<close> the \<open>-1\<close>.\<close>
definition native_pipe_create :: "nat option \<Rightarrow> 'a pipes_scheme \<Rightarrow> 'a pipes_scheme \<times> (nat \<times> nat) option" where
  "native_pipe_create t s =
     (case t of
        None \<Rightarrow> (s, None)
      | Some i \<Rightarrow>
          if \<not> fd_table_ready (task_at s i) then (s, None)
          else
            (let free = (\<lambda>fd. pipe_fd_free (task_at s i) (int fd));
                 read_fd = first_idx free 3 TASK_FD_MAX;
                 write_fd = first_idx free (case read_fd of None \<Rightarrow> 0 | Some r \<Rightarrow> r + 1) TASK_FD_MAX;
                 slot = first_idx (\<lambda>k. \<not> used (pipe_at s k)) 0 ATM_PIPE_MAX
             in case (read_fd, write_fd, slot) of
                  (Some r, Some w, Some k) \<Rightarrow>
                    (set_pipe_map i (int w) (int k * 2 + int ATM_PIPE_WRITE_END)
                      (set_pipe_map i (int r) (int k * 2 + int ATM_PIPE_READ_END)
                        (upd_pipe k (\<lambda>_. zero_pipe\<lparr>used := True, read_refs := 1, write_refs := 1\<rparr>) s)), Some (r, w))
                | _ \<Rightarrow> (s, None)))"

definition native_pipe_close :: "nat option \<Rightarrow> int \<Rightarrow> 'a pipes_scheme \<Rightarrow> 'a pipes_scheme \<times> int" where
  "native_pipe_close t fd s =
     (case (t, pipe_decode t fd s) of
        (Some i, Some (k, e)) \<Rightarrow>
          (let s1 = set_pipe_map i fd (-1) s;
               s2 = (if e = ATM_PIPE_READ_END
                     then pipe_wake_writer k (upd_pipe k (\<lambda>p. p\<lparr>read_refs := read_refs p - 1\<rparr>) s1)
                     else pipe_wake_reader k (upd_pipe k (\<lambda>p. p\<lparr>write_refs := write_refs p - 1\<rparr>) s1))
           in (pipe_maybe_free k s2, 0))
      | _ \<Rightarrow> (s, -1))"

definition native_pipe_task_cleanup :: "nat option \<Rightarrow> 'a pipes_scheme \<Rightarrow> 'a pipes_scheme" where
  "native_pipe_task_cleanup t s =
     (case t of
        None \<Rightarrow> s
      | Some i \<Rightarrow>
          fold (\<lambda>fd s. if pipe_map (task_at s i) ! fd \<ge> 0 then fst (native_pipe_close (Some i) (int fd) s) else s)
            [3 ..< TASK_FD_MAX] s)"

definition add_pipe_ref :: "nat \<Rightarrow> nat \<Rightarrow> 'a pipes_scheme \<Rightarrow> 'a pipes_scheme" where
  "add_pipe_ref k e s =
     (if e = ATM_PIPE_READ_END then upd_pipe k (\<lambda>p. p\<lparr>read_refs := read_refs p + 1\<rparr>) s
      else upd_pipe k (\<lambda>p. p\<lparr>write_refs := write_refs p + 1\<rparr>) s)"

definition native_pipe_dup :: "nat option \<Rightarrow> int \<Rightarrow> int \<Rightarrow> 'a pipes_scheme \<Rightarrow> 'a pipes_scheme \<times> int" where
  "native_pipe_dup t oldfd newfd s =
     (case (t, pipe_decode t oldfd s) of
        (Some i, Some (k, e)) \<Rightarrow>
          if \<not> pipe_fd_free (task_at s i) newfd then (s, -1)
          else (set_pipe_map i newfd (pipe_map (task_at s i) ! nat oldfd) (add_pipe_ref k e s), newfd)
      | _ \<Rightarrow> (s, -1))"

definition native_pipe_inherit :: "nat option \<Rightarrow> nat option \<Rightarrow> int \<Rightarrow> 'a pipes_scheme \<Rightarrow> 'a pipes_scheme \<times> int" where
  "native_pipe_inherit child parent fd s =
     (case (child, parent) of
        (Some c, Some p) \<Rightarrow>
          if fd < 0 \<or> fd \<ge> int TASK_FD_MAX \<or> \<not> pipe_fd_free (task_at s c) fd then (s, -1)
          else (case pipe_decode parent fd s of
                  None \<Rightarrow> (s, -1)
                | Some (k, e) \<Rightarrow>
                    (set_pipe_map c fd (pipe_map (task_at s p) ! nat fd) (add_pipe_ref k e s), 0))
      | _ \<Rightarrow> (s, -1))"

definition native_pipe_poll :: "nat option \<Rightarrow> int \<Rightarrow> u16 \<Rightarrow> 'a pipes_scheme \<Rightarrow> u16" where
  "native_pipe_poll t fd events s =
     (case pipe_decode t fd s of
        None \<Rightarrow> ATM_POLLNVAL
      | Some (k, e) \<Rightarrow>
          let p = pipe_at s k in
          if e = ATM_PIPE_READ_END then
            (if events AND ATM_POLLIN \<noteq> 0 \<and> (pcount p \<noteq> 0 \<or> write_refs p = 0) then ATM_POLLIN else 0)
            OR (if write_refs p = 0 then ATM_POLLHUP else 0)
          else if read_refs p = 0 then ATM_POLLERR
          else if events AND ATM_POLLOUT \<noteq> 0 \<and> pcount p < ATM_PIPE_CAP then ATM_POLLOUT else 0)"

datatype pipe_io = Ret int "u8 list" | Blocked

primrec pipe_get :: "nat \<Rightarrow> native_pipe \<Rightarrow> native_pipe \<times> u8 list" where
  "pipe_get 0 p = (p, [])"
| "pipe_get (Suc n) p =
     (let b = buffer p ! ptail p; (p', bs) = pipe_get n (p\<lparr>ptail := (ptail p + 1) mod ATM_PIPE_CAP\<rparr>)
      in (p', b # bs))"

primrec pipe_put :: "u8 list \<Rightarrow> native_pipe \<Rightarrow> native_pipe" where
  "pipe_put [] p = p"
| "pipe_put (b # bs) p =
     pipe_put bs (p\<lparr>buffer := (buffer p)[phead p := b], phead := (phead p + 1) mod ATM_PIPE_CAP\<rparr>)"

definition clear_reader :: "nat \<Rightarrow> native_pipe \<Rightarrow> native_pipe" where
  "clear_reader i p = (if reader_waiter p = Some i then p\<lparr>reader_waiter := None\<rparr> else p)"

definition clear_writer :: "nat \<Rightarrow> native_pipe \<Rightarrow> native_pipe" where
  "clear_writer i p = (if writer_waiter p = Some i then p\<lparr>writer_waiter := None\<rparr> else p)"

definition pipe_block :: "nat \<Rightarrow> 'a pipes_scheme \<Rightarrow> 'a pipes_scheme" where
  "pipe_block i s = (if address_space (task_at s i) \<noteq> 0 then task_block_from_syscall s else task_block s)"

text \<open>One pass of the loop of \<open>native_pipe_read\<close> on pipe \<open>k\<close>.\<close>
definition pipe_read_pass :: "nat \<Rightarrow> nat \<Rightarrow> nat \<Rightarrow> bool \<Rightarrow> 'a pipes_scheme \<Rightarrow> 'a pipes_scheme \<times> pipe_io" where
  "pipe_read_pass i k cnt nonblock s =
     (if pcount (pipe_at s k) \<noteq> 0 then
        (let n = min cnt (pcount (pipe_at s k));
             (p, bs) = pipe_get n (pipe_at s k);
             s1 = upd_pipe k (\<lambda>_. clear_reader i (p\<lparr>pcount := pcount p - n\<rparr>)) s
         in (pipe_wake_writer k s1, Ret (int n) bs))
      else if write_refs (pipe_at s k) = 0 then (upd_pipe k (clear_reader i) s, Ret 0 [])
      else if nonblock then (s, Ret (- ATM_EAGAIN) [])
      else (pipe_block i (upd_pipe k (\<lambda>p. p\<lparr>reader_waiter := Some i\<rparr>) s), Blocked))"

definition native_pipe_read :: "nat option \<Rightarrow> int \<Rightarrow> bool \<Rightarrow> nat \<Rightarrow> bool \<Rightarrow> 'a pipes_scheme \<Rightarrow> 'a pipes_scheme \<times> pipe_io" where
  "native_pipe_read t fd buf cnt nonblock s =
     (if \<not> buf then (s, Ret (-1) [])
      else case (t, pipe_decode t fd s) of
             (Some i, Some (k, e)) \<Rightarrow>
               if e \<noteq> ATM_PIPE_READ_END then (s, Ret (-1) [])
               else if cnt = 0 then (s, Ret 0 [])
               else pipe_read_pass i k cnt nonblock s
           | _ \<Rightarrow> (s, Ret (-1) []))"

definition pipe_write_pass :: "nat \<Rightarrow> nat \<Rightarrow> u8 list \<Rightarrow> bool \<Rightarrow> 'a pipes_scheme \<Rightarrow> 'a pipes_scheme \<times> pipe_io" where
  "pipe_write_pass i k bs nonblock s =
     (if read_refs (pipe_at s k) = 0 then (upd_pipe k (clear_writer i) s, Ret (- ATM_PIPE_EPIPE) [])
      else if pcount (pipe_at s k) < ATM_PIPE_CAP then
        (let n = min (length bs) (ATM_PIPE_CAP - pcount (pipe_at s k));
             p = pipe_put (take n bs) (pipe_at s k);
             s1 = upd_pipe k (\<lambda>_. clear_writer i (p\<lparr>pcount := pcount p + n\<rparr>)) s
         in (pipe_wake_reader k s1, Ret (int n) []))
      else if nonblock then (s, Ret (- ATM_EAGAIN) [])
      else (pipe_block i (upd_pipe k (\<lambda>p. p\<lparr>writer_waiter := Some i\<rparr>) s), Blocked))"

definition native_pipe_write :: "nat option \<Rightarrow> int \<Rightarrow> u8 list option \<Rightarrow> bool \<Rightarrow> 'a pipes_scheme \<Rightarrow> 'a pipes_scheme \<times> pipe_io" where
  "native_pipe_write t fd buf nonblock s =
     (case (buf, t, pipe_decode t fd s) of
        (Some bs, Some i, Some (k, e)) \<Rightarrow>
          if e \<noteq> ATM_PIPE_WRITE_END then (s, Ret (-1) [])
          else if bs = [] then (s, Ret 0 [])
          else pipe_write_pass i k bs nonblock s
      | _ \<Rightarrow> (s, Ret (-1) []))"

subsection \<open>The ring buffer is a byte queue\<close>

definition pipe_ok :: "native_pipe \<Rightarrow> bool" where
  "pipe_ok p \<longleftrightarrow> length (buffer p) = ATM_PIPE_CAP \<and> ptail p < ATM_PIPE_CAP \<and> pcount p \<le> ATM_PIPE_CAP \<and>
     phead p = (ptail p + pcount p) mod ATM_PIPE_CAP"

definition pipe_data :: "native_pipe \<Rightarrow> u8 list" where
  "pipe_data p = map (\<lambda>j. buffer p ! ((ptail p + j) mod ATM_PIPE_CAP)) [0 ..< pcount p]"

lemma length_pipe_data [simp]: "length (pipe_data p) = pcount p"
  by (simp add: pipe_data_def)

lemma ATM_PIPE_CAP_pos [simp]: "0 < ATM_PIPE_CAP"
  by (simp add: ATM_PIPE_CAP_def)

lemma pipe_get_spec:
  "pipe_get n p = (p\<lparr>ptail := (ptail p + n) mod ATM_PIPE_CAP\<rparr>,
     map (\<lambda>j. buffer p ! ((ptail p + j) mod ATM_PIPE_CAP)) [0 ..< n])" if "ptail p < ATM_PIPE_CAP"
  using that
proof (induction n arbitrary: p)
  case (Suc n)
  have "map (\<lambda>j. buffer p ! ((ptail p + j) mod ATM_PIPE_CAP)) [0 ..< Suc n] =
      buffer p ! ptail p # map (\<lambda>j. buffer p ! (((ptail p + 1) mod ATM_PIPE_CAP + j) mod ATM_PIPE_CAP)) [0 ..< n]"
    using Suc.prems by (simp add: upt_rec [of 0] map_Suc_upt [symmetric] mod_simps del: upt_Suc)
  then show ?case using Suc.prems Suc.IH [of "p\<lparr>ptail := (ptail p + 1) mod ATM_PIPE_CAP\<rparr>"]
    by (simp add: mod_simps del: upt_Suc)
qed simp

lemma mod_add_inj:
  assumes "(a + i) mod m = (a + j) mod m" "i < m" "j < (m :: nat)"
  shows "i = j"
proof -
  have "int m dvd int i - int j" using assms(1)
    by (metis add_diff_cancel_left mod_eq_dvd_iff of_nat_add zmod_int)
  moreover have "\<bar>int i - int j\<bar> < int m" using assms(2,3) by linarith
  ultimately have "int i - int j = 0" using zdvd_not_zless [of "\<bar>int i - int j\<bar>" "int m"] by (cases "i = j") auto
  then show ?thesis by simp
qed

lemma pipe_put_spec:
  "length (buffer p) = ATM_PIPE_CAP \<Longrightarrow> phead p < ATM_PIPE_CAP \<Longrightarrow> length bs \<le> ATM_PIPE_CAP \<Longrightarrow>
   \<exists>buf. pipe_put bs p = p\<lparr>buffer := buf, phead := (phead p + length bs) mod ATM_PIPE_CAP\<rparr> \<and>
     length buf = ATM_PIPE_CAP \<and>
     (\<forall>j < length bs. buf ! ((phead p + j) mod ATM_PIPE_CAP) = bs ! j) \<and>
     (\<forall>j < ATM_PIPE_CAP. length bs \<le> j \<longrightarrow>
        buf ! ((phead p + j) mod ATM_PIPE_CAP) = buffer p ! ((phead p + j) mod ATM_PIPE_CAP))"
proof (induction bs arbitrary: p)
  case Nil
  then show ?case by (intro exI [of _ "buffer p"]) simp
next
  case (Cons b bs)
  let ?h = "phead p" and ?m = ATM_PIPE_CAP
  let ?p = "p\<lparr>buffer := (buffer p)[?h := b], phead := (?h + 1) mod ?m\<rparr>"
  obtain buf where buf: "pipe_put bs ?p = ?p\<lparr>buffer := buf, phead := ((?h + 1) mod ?m + length bs) mod ?m\<rparr>"
    "length buf = ?m" "\<And>j. j < length bs \<Longrightarrow> buf ! (((?h + 1) mod ?m + j) mod ?m) = bs ! j"
    "\<And>j. j < ?m \<Longrightarrow> length bs \<le> j \<Longrightarrow>
       buf ! (((?h + 1) mod ?m + j) mod ?m) = (buffer p)[?h := b] ! (((?h + 1) mod ?m + j) mod ?m)"
    using Cons.IH [of ?p] Cons.prems by auto
  have last: "((?h + 1) mod ?m + (?m - 1)) mod ?m = ?h"
  proof -
    have "((?h + 1) mod ?m + (?m - 1)) mod ?m = (?h + 1 + (?m - 1)) mod ?m" by (rule mod_add_left_eq)
    also have "?h + 1 + (?m - 1) = ?h + ?m" using ATM_PIPE_CAP_pos by linarith
    finally show ?thesis using Cons.prems(2) by simp
  qed
  have shift: "((?h + 1) mod ?m + (j - 1)) mod ?m = (?h + j) mod ?m" if "0 < j" for j
    using that by (subst mod_add_left_eq) simp
  show ?case
  proof (intro exI [of _ buf] conjI allI impI)
    show "pipe_put (b # bs) p = p\<lparr>buffer := buf, phead := (?h + length (b # bs)) mod ?m\<rparr>"
      using buf(1) by (simp add: mod_simps)
    show "length buf = ?m" by (rule buf)
    fix j
    show "buf ! ((?h + j) mod ?m) = (b # bs) ! j" if "j < length (b # bs)"
    proof (cases "j = 0")
      case True
      have "buf ! ?h = (buffer p)[?h := b] ! ?h"
        using buf(4) [of "?m - 1"] Cons.prems(3) unfolding last by simp
      then show ?thesis using True Cons.prems by simp
    next
      case False
      then show ?thesis using buf(3) [of "j - 1"] that shift [of j] by simp
    qed
    show "buf ! ((?h + j) mod ?m) = buffer p ! ((?h + j) mod ?m)" if "j < ?m" "length (b # bs) \<le> j"
    proof -
      have "(?h + j) mod ?m \<noteq> ?h" using mod_add_inj [of ?h j ?m 0] that Cons.prems(2) by auto
      then show ?thesis using buf(4) [of "j - 1"] that shift [of j] by simp
    qed
  qed
qed

lemma pipe_ok_zero [simp]: "pipe_ok zero_pipe" "pipe_data zero_pipe = []"
  by (simp_all add: pipe_ok_def zero_pipe_def pipe_data_def ATM_PIPE_CAP_def)

lemma pipe_ok_cong:
  "buffer q = buffer p \<Longrightarrow> ptail q = ptail p \<Longrightarrow> phead q = phead p \<Longrightarrow> pcount q = pcount p \<Longrightarrow>
     pipe_ok q = pipe_ok p" "buffer q = buffer p \<Longrightarrow> ptail q = ptail p \<Longrightarrow> pcount q = pcount p \<Longrightarrow> pipe_data q = pipe_data p"
  by (simp_all add: pipe_ok_def pipe_data_def)

lemma pipe_get_queue:
  assumes "pipe_ok p" "n \<le> pcount p"
  shows "pipe_ok ((fst (pipe_get n p))\<lparr>pcount := pcount p - n\<rparr>)"
    "pipe_data ((fst (pipe_get n p))\<lparr>pcount := pcount p - n\<rparr>) = drop n (pipe_data p)"
    "snd (pipe_get n p) = take n (pipe_data p)"
proof -
  have t: "ptail p < ATM_PIPE_CAP" using assms by (simp add: pipe_ok_def)
  show "pipe_ok ((fst (pipe_get n p))\<lparr>pcount := pcount p - n\<rparr>)"
  proof -
    have "((ptail p + n) mod ATM_PIPE_CAP + (pcount p - n)) mod ATM_PIPE_CAP = (ptail p + pcount p) mod ATM_PIPE_CAP"
      using assms(2) by (subst mod_add_left_eq) simp
    then show ?thesis using assms by (auto simp: pipe_get_spec [OF t] pipe_ok_def)
  qed
  show "snd (pipe_get n p) = take n (pipe_data p)"
    using assms(2) by (simp add: pipe_get_spec [OF t] pipe_data_def take_map)
  show "pipe_data ((fst (pipe_get n p))\<lparr>pcount := pcount p - n\<rparr>) = drop n (pipe_data p)"
    unfolding pipe_data_def drop_map drop_upt pipe_get_spec [OF t]
    by (intro nth_equalityI) (simp_all add: mod_simps add.assoc)
qed

lemma pipe_put_queue:
  assumes "pipe_ok p" "pcount p + length bs \<le> ATM_PIPE_CAP"
  shows "pipe_ok ((pipe_put bs p)\<lparr>pcount := pcount p + length bs\<rparr>)"
    "pipe_data ((pipe_put bs p)\<lparr>pcount := pcount p + length bs\<rparr>) = pipe_data p @ bs"
    "\<exists>buf. pipe_put bs p = p\<lparr>buffer := buf, phead := (phead p + length bs) mod ATM_PIPE_CAP\<rparr>"
proof -
  let ?m = ATM_PIPE_CAP
  have b: "length (buffer p) = ?m" "phead p < ?m" "length bs \<le> ?m" "phead p = (ptail p + pcount p) mod ?m"
    "ptail p < ?m" "pcount p \<le> ?m"
    using assms by (auto simp: pipe_ok_def)
  obtain buf where buf: "pipe_put bs p = p\<lparr>buffer := buf, phead := (phead p + length bs) mod ?m\<rparr>"
    "length buf = ?m" "\<forall>j < length bs. buf ! ((phead p + j) mod ?m) = bs ! j"
    "\<forall>j < ?m. length bs \<le> j \<longrightarrow> buf ! ((phead p + j) mod ?m) = buffer p ! ((phead p + j) mod ?m)"
    using pipe_put_spec [OF b(1-3)] by blast
  show "\<exists>buf. pipe_put bs p = p\<lparr>buffer := buf, phead := (phead p + length bs) mod ?m\<rparr>" using buf(1) by blast
  show "pipe_ok ((pipe_put bs p)\<lparr>pcount := pcount p + length bs\<rparr>)"
    using buf(1,2) b assms(2) by (simp add: pipe_ok_def mod_simps add.assoc)
  have old: "buf ! ((ptail p + j) mod ?m) = buffer p ! ((ptail p + j) mod ?m)" if "j < pcount p" for j
  proof -
    have "(phead p + (?m - pcount p + j)) mod ?m = (ptail p + (pcount p + (?m - pcount p + j))) mod ?m"
      unfolding b(4) by (simp add: mod_simps add.assoc)
    also have "\<dots> = (ptail p + j + ?m) mod ?m"
      using b(6) by (intro arg_cong [where f = "\<lambda>x. x mod ?m"]) linarith
    finally have "(phead p + (?m - pcount p + j)) mod ?m = (ptail p + j) mod ?m" by simp
    then show ?thesis using buf(4) [rule_format, of "?m - pcount p + j"] that assms(2) b(6) by simp
  qed
  have new: "buf ! ((ptail p + (pcount p + j)) mod ?m) = bs ! j" if "j < length bs" for j
    using buf(3) that b(4) by (simp add: mod_simps add.assoc)
  show "pipe_data ((pipe_put bs p)\<lparr>pcount := pcount p + length bs\<rparr>) = pipe_data p @ bs"
  proof (rule nth_equalityI)
    fix j assume j: "j < length (pipe_data ((pipe_put bs p)\<lparr>pcount := pcount p + length bs\<rparr>))"
    then have "j < pcount p + length bs" by simp
    then show "pipe_data ((pipe_put bs p)\<lparr>pcount := pcount p + length bs\<rparr>) ! j = (pipe_data p @ bs) ! j"
      using old [of j] new [of "j - pcount p"] by (auto simp: pipe_data_def nth_append buf(1))
  qed simp
qed

subsection \<open>The descriptors of a pipe\<close>

text \<open>The open descriptors of end \<open>e\<close> of pipe \<open>k\<close>, over all tasks.\<close>
definition pipe_ends :: "'a sched_scheme \<Rightarrow> nat \<Rightarrow> nat \<Rightarrow> (nat \<times> nat) set" where
  "pipe_ends s k e = {(i, fd). i < TASK_MAX \<and> 3 \<le> fd \<and> fd < TASK_FD_MAX \<and> fd_table_ready (task_at s i) \<and>
     pipe_map (task_at s i) ! fd = int k * 2 + int e}"

definition fd_view :: "task \<Rightarrow> int list \<times> bool \<times> int list \<times> int list" where
  "fd_view t = (pipe_map t, fd_table_ready t, fd_map t, socket_map t)"

definition maps_ok :: "task \<Rightarrow> bool" where
  "maps_ok t \<longleftrightarrow> length (pipe_map t) = TASK_FD_MAX \<and>
     (fd_table_ready t \<longrightarrow> (\<forall>fd. 3 \<le> fd \<longrightarrow> fd < TASK_FD_MAX \<longrightarrow> pipe_map t ! fd < int ATM_PIPE_MAX * 2))"

text \<open>The consistency of the pipe pool with the descriptor tables; a pipe in \<open>X\<close> may have lost its
  last descriptor without being released yet.\<close>
definition pipes_but :: "nat set \<Rightarrow> 'a pipes_scheme \<Rightarrow> bool" where
  "pipes_but X s \<longleftrightarrow> pool_wf s \<and> length (pipe_pool s) = ATM_PIPE_MAX \<and>
     (\<forall>k < ATM_PIPE_MAX. pipe_ok (pipe_at s k) \<and>
        read_refs (pipe_at s k) = card (pipe_ends s k ATM_PIPE_READ_END) \<and>
        write_refs (pipe_at s k) = card (pipe_ends s k ATM_PIPE_WRITE_END) \<and>
        (0 < read_refs (pipe_at s k) + write_refs (pipe_at s k) \<longrightarrow> used (pipe_at s k)) \<and>
        (k \<notin> X \<longrightarrow> used (pipe_at s k) \<longrightarrow> 0 < read_refs (pipe_at s k) + write_refs (pipe_at s k))) \<and>
     (\<forall>i < TASK_MAX. maps_ok (task_at s i))"

abbreviation pipes_inv :: "'a pipes_scheme \<Rightarrow> bool" where
  "pipes_inv \<equiv> pipes_but {}"

lemma finite_pipe_ends [simp]: "finite (pipe_ends s k e)"
  by (rule finite_subset [of _ "{..< TASK_MAX} \<times> {..< TASK_FD_MAX}"]) (auto simp: pipe_ends_def)

lemma pipe_ends_le: "card (pipe_ends s k e) \<le> TASK_MAX * TASK_FD_MAX"
proof -
  have "card (pipe_ends s k e) \<le> card ({..< TASK_MAX} \<times> {..< TASK_FD_MAX})"
    by (intro card_mono) (auto simp: pipe_ends_def)
  then show ?thesis by (simp add: card_cartesian_product)
qed

lemma fd_view_at:
  assumes "map fd_view (task_pool s') = map fd_view (task_pool s)" "i < length (task_pool s)"
  shows "pipe_map (task_at s' i) = pipe_map (task_at s i)" "fd_table_ready (task_at s' i) = fd_table_ready (task_at s i)"
    "fd_map (task_at s' i) = fd_map (task_at s i)" "socket_map (task_at s' i) = socket_map (task_at s i)"
    "length (task_pool s') = length (task_pool s)"
proof -
  show l: "length (task_pool s') = length (task_pool s)" using assms(1) by (metis length_map)
  have "fd_view (task_at s' i) = fd_view (task_at s i)" using assms l by (metis nth_map)
  then show "pipe_map (task_at s' i) = pipe_map (task_at s i)" "fd_table_ready (task_at s' i) = fd_table_ready (task_at s i)"
    "fd_map (task_at s' i) = fd_map (task_at s i)" "socket_map (task_at s' i) = socket_map (task_at s i)"
    by (simp_all add: fd_view_def)
qed

text \<open>The scheduler never touches descriptors or pipes.\<close>
definition fd_frame :: "'a sched_scheme \<Rightarrow> 'a sched_scheme \<Rightarrow> bool" where
  "fd_frame s s' \<longleftrightarrow> map fd_view (task_pool s') = map fd_view (task_pool s) \<and> sched.more s' = sched.more s \<and>
     length (sleep_tab s') = length (sleep_tab s)"

lemma fd_frame_refl [simp]: "fd_frame s s"
  by (simp add: fd_frame_def)

lemma fd_frame_trans: "fd_frame s s' \<Longrightarrow> fd_frame s' s'' \<Longrightarrow> fd_frame s s''"
  by (simp add: fd_frame_def)

lemma fd_frame_links: "links_only s s' \<Longrightarrow> fd_frame s s'"
  unfolding fd_frame_def
proof (intro conjI nth_equalityI)
  assume lo: "links_only s s'"
  show "sched.more s' = sched.more s" "length (sleep_tab s') = length (sleep_tab s)"
    by (simp_all add: links_only_fields [OF lo])
  show "length (map fd_view (task_pool s')) = length (map fd_view (task_pool s))"
    by (simp add: links_only_fields(9) [OF lo])
  show "map fd_view (task_pool s') ! i = map fd_view (task_pool s) ! i" if "i < length (map fd_view (task_pool s'))" for i
    using that links_only_task [OF lo, of i] links_only_fields(9) [OF lo] by (auto simp: fd_view_def)
qed

lemma fd_frame_upd_task:
  assumes "\<And>t. fd_view (f t) = fd_view t"
  shows "fd_frame s (upd_task i f s)"
  using assms unfolding fd_frame_def upd_task_def
  by (cases "i < length (task_pool s)")
    (simp_all add: map_update list_update_same_conv [THEN iffD2] list_update_beyond)

lemma fd_frame_set_state [simp]: "fd_frame s (set_state i st s)"
  unfolding set_state_def by (rule fd_frame_upd_task) (simp add: fd_view_def)

lemma fd_frame_fields [simp]:
  "fd_frame s (s\<lparr>current_task := c\<rparr>)" "fd_frame s (s\<lparr>fs_base := b\<rparr>)"
  by (simp_all add: fd_frame_def)

lemma fd_frame_unblock [simp]: "fd_frame s (task_unblock t s)"
proof -
  have "fd_frame s (fst (queue_add (Some i) (set_state i TASK_READY s)))" for i
    by (rule fd_frame_trans [OF fd_frame_set_state [of s i TASK_READY] fd_frame_links]) simp
  then show ?thesis
    by (auto simp: task_unblock_def split: option.split prod.split intro: fd_frame_trans fd_frame_set_state)
      (metis fd_frame_set_state fd_frame_trans fst_conv)+
qed

lemma fd_frame_switch_to [simp]: "fd_frame s (switch_to n s)"
proof -
  have "fd_frame s (upd_task n (\<lambda>t. t\<lparr>context_switches := context_switches t + 1\<rparr>)
      (set_state n TASK_RUNNING (s\<lparr>current_task := Some n\<rparr>)))"
    by (intro fd_frame_trans [OF fd_frame_trans [OF fd_frame_fields(1) fd_frame_set_state] fd_frame_upd_task])
      (simp add: fd_view_def)
  then show ?thesis unfolding switch_to_def Let_def by (rule fd_frame_trans) simp
qed

lemma fd_frame_stop [simp]: "fd_frame s (queue_remove t (set_state i st s))"
  by (rule fd_frame_trans [OF fd_frame_set_state [of s i st] fd_frame_links]) simp

lemma fd_frame_block [simp]: "fd_frame s (task_block s)" "fd_frame s (task_block_from_syscall s)"
  by (auto simp: task_block_def task_block_from_syscall_def Let_def split: option.split
      intro: fd_frame_trans [OF fd_frame_stop fd_frame_switch_to])

lemma fd_frame_pipe_block [simp]: "fd_frame s (pipe_block i s)"
  by (simp add: pipe_block_def)

lemma fd_frame_wake [simp]: "fd_frame s (pipe_wake_reader k s)" "fd_frame s (pipe_wake_writer k s)"
  by (auto simp: pipe_wake_reader_def pipe_wake_writer_def split: option.split)

lemma pipe_pool_more:
  assumes "sched.more s' = sched.more s"
  shows "pipe_pool s' = pipe_pool s"
proof -
  have "s' = s\<lparr>task_pool := task_pool s', current_task := current_task s', run_queue_head := run_queue_head s',
      next_pid := next_pid s', uptime_ticks := uptime_ticks s', idle_ticks := idle_ticks s',
      sleep_tab := sleep_tab s', quantum_counter := quantum_counter s', fs_base := fs_base s'\<rparr>"
    by (rule sched.equality) (simp_all add: assms)
  then have "pipe_pool s' = pipe_pool (s\<lparr>task_pool := task_pool s', current_task := current_task s', run_queue_head := run_queue_head s',
      next_pid := next_pid s', uptime_ticks := uptime_ticks s', idle_ticks := idle_ticks s',
      sleep_tab := sleep_tab s', quantum_counter := quantum_counter s', fs_base := fs_base s'\<rparr>)"
    by (rule arg_cong)
  then show ?thesis by simp
qed

lemma fd_frame_at:
  assumes "fd_frame s s'" "i < length (task_pool s)"
  shows "fd_view (task_at s' i) = fd_view (task_at s i)" "pipe_map (task_at s' i) = pipe_map (task_at s i)"
    "fd_table_ready (task_at s' i) = fd_table_ready (task_at s i)" "pipe_fd_free (task_at s' i) fd = pipe_fd_free (task_at s i) fd"
  using fd_view_at [of s' s i] assms unfolding fd_frame_def by (auto simp: fd_view_def pipe_fd_free_def)

lemma fd_frame_ends:
  assumes "fd_frame s s'" "length (task_pool s) = TASK_MAX"
  shows "pipe_ends s' k e = pipe_ends s k e"
  unfolding pipe_ends_def using fd_frame_at(2,3) [OF assms(1), unfolded assms(2)] by auto

lemma fd_frame_pipes:
  assumes "fd_frame s s'"
  shows "pipe_pool s' = pipe_pool s" "pipes_but X s' = pipes_but X s"
proof -
  show p: "pipe_pool s' = pipe_pool s" using assms by (auto simp: fd_frame_def intro: pipe_pool_more)
  have l: "length (task_pool s') = length (task_pool s)" using assms unfolding fd_frame_def by (metis length_map)
  have wf: "pool_wf s' = pool_wf s" using assms l by (simp add: pool_wf_def fd_frame_def)
  show "pipes_but X s' = pipes_but X s"
  proof (cases "pool_wf s")
    case True
    then have len: "length (task_pool s) = TASK_MAX" by (simp add: pool_wf_def)
    have "maps_ok (task_at s' i) = maps_ok (task_at s i)" if "i < TASK_MAX" for i
      using fd_frame_at(2,3) [OF assms, of i] that len by (simp add: maps_ok_def)
    then show ?thesis by (simp add: pipes_but_def wf p fd_frame_ends [OF assms len])
  qed (simp add: pipes_but_def wf)
qed

lemma encode_inj: "e < 2 \<Longrightarrow> e' < 2 \<Longrightarrow> int k * 2 + int e = int k' * 2 + int e' \<longleftrightarrow> k = k' \<and> e = e'"
  by auto presburger+

lemma pipe_ends_set:
  assumes "pool_wf s" "i < TASK_MAX" "maps_ok (task_at s i)" "3 \<le> fd" "fd < int TASK_FD_MAX"
  shows "pipe_ends (set_pipe_map i fd v s) k e =
    (if fd_table_ready (task_at s i) \<and> v = int k * 2 + int e then insert (i, nat fd) (pipe_ends s k e)
     else pipe_ends s k e - {(i, nat fd)})"
proof -
  have at: "task_at (set_pipe_map i fd v s) j =
      (if j = i then (task_at s i)\<lparr>pipe_map := (pipe_map (task_at s i))[nat fd := v]\<rparr> else task_at s j)" for j
    using assms(1,2) by (simp add: set_pipe_map_def task_at_upd pool_wf_def)
  have l: "nat fd < length (pipe_map (task_at s i))" "3 \<le> nat fd" "nat fd < TASK_FD_MAX"
    using assms(3-5) by (auto simp: maps_ok_def)
  show ?thesis using assms(2) l unfolding pipe_ends_def
    by (auto simp: at nth_list_update split: if_splits)
qed

lemma pipe_ends_upd [simp]: "pipe_ends (upd_pipe k f s) j e = pipe_ends s j e"
  by (simp add: pipe_ends_def upd_pipe_def)

lemma upd_pipe_simps [simp]:
  "task_pool (upd_pipe k f s) = task_pool s" "current_task (upd_pipe k f s) = current_task s"
  "sleep_tab (upd_pipe k f s) = sleep_tab s" "pool_wf (upd_pipe k f s) = pool_wf s"
  "length (pipe_pool (upd_pipe k f s)) = length (pipe_pool s)" "sched_inv (upd_pipe k f s) = sched_inv s"
  "run_queue_head (upd_pipe k f s) = run_queue_head s" "uptime_ticks (upd_pipe k f s) = uptime_ticks s"
  by (simp_all add: upd_pipe_def pool_wf_def sched_inv_def sched_ring_def ring_def links_cong [of _ "s\<lparr>pipe_pool := _\<rparr>" s] split: list.splits)

lemma pipe_at_upd:
  "k < length (pipe_pool s) \<Longrightarrow> pipe_at (upd_pipe k f s) j = (if j = k then f (pipe_at s k) else pipe_at s j)"
  by (auto simp: upd_pipe_def nth_list_update)

lemma pipe_at_upd_other [simp]: "j \<noteq> k \<Longrightarrow> pipe_at (upd_pipe k f s) j = pipe_at s j"
  by (simp add: upd_pipe_def)

lemma set_pipe_map_simps [simp]:
  "pipe_pool (set_pipe_map i fd v s) = pipe_pool s" "pool_wf (set_pipe_map i fd v s) = pool_wf s"
  "current_task (set_pipe_map i fd v s) = current_task s"
  "fd_table_ready (task_at (set_pipe_map i fd v s) j) = fd_table_ready (task_at s j)"
  "state (task_at (set_pipe_map i fd v s) j) = state (task_at s j)"
  "sched_inv (set_pipe_map i fd v s) = sched_inv s"
  by (simp_all add: set_pipe_map_def upd_task_fields task_at_upd_field) (simp add: upd_task_def)

lemma nth_update_if: "xs[i := v] ! j = (if i = j \<and> i < length xs then v else xs ! j)"
  by (cases "i < length xs") (auto simp: list_update_beyond)

lemma maps_ok_set:
  assumes "pool_wf s" "i < TASK_MAX" "\<forall>i < TASK_MAX. maps_ok (task_at s i)" "v < int ATM_PIPE_MAX * 2"
  shows "\<forall>j < TASK_MAX. maps_ok (task_at (set_pipe_map i fd v s) j)"
  using assms by (auto simp: set_pipe_map_def task_at_upd pool_wf_def maps_ok_def nth_update_if)

text \<open>What a successful decode says of a consistent pool.\<close>
lemma pipe_decode_Some:
  assumes "pipes_but X s" "i < TASK_MAX" "pipe_decode (Some i) fd s = Some (k, e)"
  shows "3 \<le> fd" "fd < int TASK_FD_MAX" "k < ATM_PIPE_MAX" "e < 2" "fd_table_ready (task_at s i)" "used (pipe_at s k)"
    "pipe_map (task_at s i) ! nat fd = int k * 2 + int e" "(i, nat fd) \<in> pipe_ends s k e"
proof -
  show a: "3 \<le> fd" "fd < int TASK_FD_MAX" "k < ATM_PIPE_MAX" "e < 2" "fd_table_ready (task_at s i)" "used (pipe_at s k)"
    "pipe_map (task_at s i) ! nat fd = int k * 2 + int e"
    using assms(3) by (auto simp: pipe_decode_def Let_def nat_less_iff split: if_splits)
  have "3 \<le> nat fd" "nat fd < TASK_FD_MAX" using a(1,2) by auto
  then show "(i, nat fd) \<in> pipe_ends s k e" using a assms(2) by (simp add: pipe_ends_def)
qed

text \<open>In a consistent pool every descriptor of a ready table denotes a pipe in use.\<close>
lemma pipe_decode_valid:
  assumes "pipes_inv s" "i < TASK_MAX" "fd_table_ready (task_at s i)" "3 \<le> fd" "fd < TASK_FD_MAX"
    "0 \<le> pipe_map (task_at s i) ! fd"
  obtains k e where "pipe_decode (Some i) (int fd) s = Some (k, e)"
proof -
  let ?v = "pipe_map (task_at s i) ! fd"
  define k e where "k = nat (?v div 2)" and "e = nat (?v mod 2)"
  have v: "?v = int k * 2 + int e" "e < 2" using assms(6) by (auto simp: k_def e_def)
  have "?v < int ATM_PIPE_MAX * 2" using assms by (auto simp: pipes_but_def maps_ok_def)
  then have k: "k < ATM_PIPE_MAX" using v by auto
  have "(i, fd) \<in> pipe_ends s k e" using assms v by (simp add: pipe_ends_def)
  then have "0 < card (pipe_ends s k e)" by (auto simp: card_gt_0_iff)
  moreover have "e = ATM_PIPE_READ_END \<or> e = ATM_PIPE_WRITE_END" using v(2) by (auto simp: ATM_PIPE_READ_END_def ATM_PIPE_WRITE_END_def)
  ultimately have "used (pipe_at s k)" using assms(1) k by (auto simp: pipes_but_def)
  then show ?thesis using that [of k e] assms k by (simp add: pipe_decode_def Let_def k_def e_def)
qed

subsection \<open>Every operation keeps the pool consistent\<close>

lemmas pipe_end_simps = ATM_PIPE_READ_END_def ATM_PIPE_WRITE_END_def

lemma pipes_but_at:
  assumes "pipes_but X s" "k < ATM_PIPE_MAX"
  shows "pipe_ok (pipe_at s k)" "read_refs (pipe_at s k) = card (pipe_ends s k ATM_PIPE_READ_END)"
    "write_refs (pipe_at s k) = card (pipe_ends s k ATM_PIPE_WRITE_END)" "k < length (pipe_pool s)"
    "k \<notin> X \<Longrightarrow> used (pipe_at s k) \<longleftrightarrow> 0 < read_refs (pipe_at s k) + write_refs (pipe_at s k)"
  using assms by (auto simp: pipes_but_def)

definition pipe_entry :: "bool \<Rightarrow> 'a pipes_scheme \<Rightarrow> nat \<Rightarrow> bool" where
  "pipe_entry loose s k \<longleftrightarrow> pipe_ok (pipe_at s k) \<and>
     read_refs (pipe_at s k) = card (pipe_ends s k ATM_PIPE_READ_END) \<and>
     write_refs (pipe_at s k) = card (pipe_ends s k ATM_PIPE_WRITE_END) \<and>
     (0 < read_refs (pipe_at s k) + write_refs (pipe_at s k) \<longrightarrow> used (pipe_at s k)) \<and>
     (\<not> loose \<longrightarrow> used (pipe_at s k) \<longrightarrow> 0 < read_refs (pipe_at s k) + write_refs (pipe_at s k))"

lemma pipes_but_entries:
  "pipes_but X s \<longleftrightarrow> pool_wf s \<and> length (pipe_pool s) = ATM_PIPE_MAX \<and>
     (\<forall>k < ATM_PIPE_MAX. pipe_entry (k \<in> X) s k) \<and> (\<forall>i < TASK_MAX. maps_ok (task_at s i))"
  by (auto simp: pipes_but_def pipe_entry_def)

text \<open>An operation on one pipe leaves the entries of the others alone.\<close>
lemma pipes_but_update:
  assumes "pipes_but X s" "pool_wf s'" "length (pipe_pool s') = ATM_PIPE_MAX" "\<forall>j < TASK_MAX. maps_ok (task_at s' j)"
    "\<And>j. j \<noteq> k \<Longrightarrow> pipe_at s' j = pipe_at s j"
    "\<And>j e. j \<noteq> k \<Longrightarrow> e < 2 \<Longrightarrow> pipe_ends s' j e = pipe_ends s j e"
    "pipe_entry (k \<in> Y) s' k" "X \<subseteq> insert k Y"
  shows "pipes_but Y s'"
proof -
  have "pipe_entry (j \<in> Y) s' j" if "j < ATM_PIPE_MAX" for j
  proof (cases "j = k")
    case False
    have "pipe_entry (j \<in> X) s j" using assms(1) that by (simp add: pipes_but_entries)
    moreover have "pipe_ends s' j e = pipe_ends s j e" if "e = ATM_PIPE_READ_END \<or> e = ATM_PIPE_WRITE_END" for e
      using assms(6) [OF False, of e] that by (auto simp: pipe_end_simps)
    ultimately show ?thesis using assms(5) [OF False] assms(8) False by (auto simp: pipe_entry_def)
  qed (use assms(7) in simp)
  then show ?thesis using assms(2-4) by (simp add: pipes_but_entries)
qed

text \<open>Changing the contents of one pipe, not its references.\<close>
lemma pipes_but_data:
  assumes "pipes_but X s" "\<And>p. pipe_at s k = p \<Longrightarrow> pipe_ok (f p)"
    "\<And>p. read_refs (f p) = read_refs p \<and> write_refs (f p) = write_refs p \<and> used (f p) = used p"
  shows "pipes_but X (upd_pipe k f s)"
proof (cases "k < length (pipe_pool s)")
  case True
  then show ?thesis using assms unfolding pipes_but_def by (auto simp: pipe_at_upd)
qed (use assms(1) in \<open>simp add: upd_pipe_def list_update_beyond\<close>)

text \<open>Giving a free descriptor of a ready table a new reference.\<close>
lemma pipes_but_open:
  assumes "pipes_but X s" "i < TASK_MAX" "fd_table_ready (task_at s i)" "pipe_fd_free (task_at s i) fd"
    "k < ATM_PIPE_MAX" "e < 2" "used (pipe_at s k)"
  shows "pipes_but X (set_pipe_map i fd (int k * 2 + int e) (add_pipe_ref k e s))"
    and "pipes_but (X - {k}) (set_pipe_map i fd (int k * 2 + int e) (add_pipe_ref k e s))"
proof -
  let ?s = "set_pipe_map i fd (int k * 2 + int e) (add_pipe_ref k e s)"
  have fd: "3 \<le> fd" "fd < int TASK_FD_MAX" "pipe_map (task_at s i) ! nat fd < 0"
    using assms(4) by (auto simp: pipe_fd_free_def)
  have wf: "pool_wf s" "length (pipe_pool s) = ATM_PIPE_MAX" "\<forall>i < TASK_MAX. maps_ok (task_at s i)"
    using assms(1) by (auto simp: pipes_but_def)
  have tp: "task_pool (add_pipe_ref k e s) = task_pool s" "pool_wf (add_pipe_ref k e s)" "pipe_ends (add_pipe_ref k e s) = pipe_ends s"
    using wf by (auto simp: add_pipe_ref_def fun_eq_iff)
  have new: "(i, nat fd) \<notin> pipe_ends s k' e'" for k' e' using fd(3) by (auto simp: pipe_ends_def)
  have ends: "pipe_ends ?s k' e' = (if k' = k \<and> e' = e then insert (i, nat fd) (pipe_ends s k e) else pipe_ends s k' e')"
    if "e' < 2" for k' e'
    using pipe_ends_set [of "add_pipe_ref k e s" i fd "int k * 2 + int e" k' e'] tp wf assms(2,3) fd(1,2) new [of k' e']
      encode_inj [OF assms(6) that, of k k'] by auto
  have p: "pipe_at ?s j = (if j = k then if e = ATM_PIPE_READ_END then (pipe_at s k)\<lparr>read_refs := read_refs (pipe_at s k) + 1\<rparr>
      else (pipe_at s k)\<lparr>write_refs := write_refs (pipe_at s k) + 1\<rparr> else pipe_at s j)" for j
    using assms(5) wf(2) by (simp add: add_pipe_ref_def pipe_at_upd)
  have m: "\<forall>j < TASK_MAX. maps_ok (task_at ?s j)"
    using assms(5,6) tp wf(3) by (intro maps_ok_set [OF tp(2) assms(2)]) auto
  have ok: "pipe_ok (p\<lparr>read_refs := r\<rparr>) = pipe_ok p" "pipe_ok (p\<lparr>write_refs := r\<rparr>) = pipe_ok p" for p r
    by (simp_all add: pipe_ok_def)
  have l: "length (pipe_pool ?s) = ATM_PIPE_MAX" "pool_wf ?s" using wf tp(2) by (auto simp: add_pipe_ref_def)
  have e: "e = 0 \<or> e = 1" using assms(6) by auto
  have old: "pipe_entry (k \<in> X) s k" using assms(1,5) by (simp add: pipes_but_entries)
  have k: "pipe_entry loose ?s k" for loose
    using e
  proof
    assume e: "e = 0"
    have "pipe_at ?s k = (pipe_at s k)\<lparr>read_refs := read_refs (pipe_at s k) + 1\<rparr>" unfolding p by (simp add: e pipe_end_simps)
    moreover have "pipe_ends ?s k 0 = insert (i, nat fd) (pipe_ends s k 0)" "pipe_ends ?s k 1 = pipe_ends s k 1"
      using ends [of 0 k] ends [of 1 k] by (simp_all add: e)
    ultimately show ?thesis using old new assms(7) unfolding pipe_entry_def by (simp add: pipe_end_simps ok)
  next
    assume e: "e = 1"
    have "pipe_at ?s k = (pipe_at s k)\<lparr>write_refs := write_refs (pipe_at s k) + 1\<rparr>" unfolding p by (simp add: e pipe_end_simps)
    moreover have "pipe_ends ?s k 1 = insert (i, nat fd) (pipe_ends s k 1)" "pipe_ends ?s k 0 = pipe_ends s k 0"
      using ends [of 0 k] ends [of 1 k] by (simp_all add: e)
    ultimately show ?thesis using old new assms(7) unfolding pipe_entry_def by (simp add: pipe_end_simps ok)
  qed
  note u = pipes_but_update [OF assms(1) l(2,1) m, of k, OF _ _ k]
  have others: "\<And>j. j \<noteq> k \<Longrightarrow> pipe_at ?s j = pipe_at s j"
    "\<And>j e'. j \<noteq> k \<Longrightarrow> e' < 2 \<Longrightarrow> pipe_ends ?s j e' = pipe_ends s j e'"
    unfolding p by (simp, simp add: ends)
  show "pipes_but X ?s" by (rule u [OF others]) auto
  show "pipes_but (X - {k}) ?s" by (rule u [OF others]) auto
qed

text \<open>Giving a reference up: what is left is consistent but for the pipe not yet released.\<close>
lemma pipes_but_close:
  assumes "pipes_but X s" "i < TASK_MAX" "pipe_decode (Some i) fd s = Some (k, e)"
  shows "pipes_but (insert k X) (upd_pipe k (\<lambda>p. if e = ATM_PIPE_READ_END then p\<lparr>read_refs := read_refs p - 1\<rparr>
      else p\<lparr>write_refs := write_refs p - 1\<rparr>) (set_pipe_map i fd (-1) s))"
    (is "pipes_but _ ?s")
proof -
  note d = pipe_decode_Some [OF assms]
  have wf: "pool_wf s" "length (pipe_pool s) = ATM_PIPE_MAX" "\<forall>i < TASK_MAX. maps_ok (task_at s i)"
    using assms(1) by (auto simp: pipes_but_def)
  have ends: "pipe_ends ?s k' e' = (if k' = k \<and> e' = e then pipe_ends s k e - {(i, nat fd)} else pipe_ends s k' e')"
    if "e' < 2" for k' e'
  proof -
    have "(i, nat fd) \<notin> pipe_ends s k' e'" if "\<not> (k' = k \<and> e' = e)"
      using that d(7) encode_inj [OF d(4) \<open>e' < 2\<close>, of k k'] by (auto simp: pipe_ends_def)
    then show ?thesis using pipe_ends_set [of s i fd "-1" k' e'] wf assms(2) d(1,2) by auto
  qed
  have c: "card (pipe_ends s k e - {(i, nat fd)}) = card (pipe_ends s k e) - 1"
    using d(8) by simp
  have ok: "pipe_ok (p\<lparr>read_refs := r\<rparr>) = pipe_ok p" "pipe_ok (p\<lparr>write_refs := r\<rparr>) = pipe_ok p" for p r
    by (simp_all add: pipe_ok_def)
  have m: "\<forall>j < TASK_MAX. maps_ok (task_at ?s j)"
    using maps_ok_set [OF wf(1) assms(2) wf(3), of "-1"] by (simp add: ATM_PIPE_MAX_def)
  have p: "pipe_at ?s j = (if j = k then if e = ATM_PIPE_READ_END then (pipe_at s k)\<lparr>read_refs := read_refs (pipe_at s k) - 1\<rparr>
      else (pipe_at s k)\<lparr>write_refs := write_refs (pipe_at s k) - 1\<rparr> else pipe_at s j)" for j
    using d(3) wf(2) by (simp add: pipe_at_upd)
  have e: "e = 0 \<or> e = 1" using d(4) by auto
  have old: "pipe_entry (k \<in> X) s k" using assms(1) d(3) by (simp add: pipes_but_entries)
  have k: "pipe_entry (k \<in> insert k X) ?s k"
    using e
  proof
    assume e: "e = 0"
    have "pipe_at ?s k = (pipe_at s k)\<lparr>read_refs := read_refs (pipe_at s k) - 1\<rparr>" unfolding p by (simp add: e pipe_end_simps)
    moreover have "pipe_ends ?s k 0 = pipe_ends s k 0 - {(i, nat fd)}" "pipe_ends ?s k 1 = pipe_ends s k 1"
      using ends [of 0 k] ends [of 1 k] by (simp_all add: e)
    ultimately show ?thesis using old d(6) c e unfolding pipe_entry_def by (simp add: pipe_end_simps ok)
  next
    assume e: "e = 1"
    have "pipe_at ?s k = (pipe_at s k)\<lparr>write_refs := write_refs (pipe_at s k) - 1\<rparr>" unfolding p by (simp add: e pipe_end_simps)
    moreover have "pipe_ends ?s k 1 = pipe_ends s k 1 - {(i, nat fd)}" "pipe_ends ?s k 0 = pipe_ends s k 0"
      using ends [of 0 k] ends [of 1 k] by (simp_all add: e)
    ultimately show ?thesis using old d(6) c e unfolding pipe_entry_def by (simp add: pipe_end_simps ok)
  qed
  have others: "\<And>j. j \<noteq> k \<Longrightarrow> pipe_at ?s j = pipe_at s j"
    "\<And>j e'. j \<noteq> k \<Longrightarrow> e' < 2 \<Longrightarrow> pipe_ends ?s j e' = pipe_ends s j e'"
    unfolding p by (simp, simp only: ends) simp
  show ?thesis
    by (rule pipes_but_update [OF assms(1) _ _ m, of k, OF _ _ others k]) (use wf in auto)
qed

lemma pipes_but_free:
  assumes "pipes_but (insert k X) s" "k < ATM_PIPE_MAX"
  shows "pipes_but X (pipe_maybe_free k s)"
proof -
  have z: "read_refs zero_pipe = 0" "write_refs zero_pipe = 0" "\<not> used zero_pipe" by (simp_all add: zero_pipe_def)
  show ?thesis using assms z unfolding pipe_maybe_free_def pipes_but_def
    by (auto simp: pipe_at_upd)
qed

definition waiters_ok :: "'a pipes_scheme \<Rightarrow> bool" where
  "waiters_ok s \<longleftrightarrow> (\<forall>k < ATM_PIPE_MAX. \<forall>w. reader_waiter (pipe_at s k) = Some w \<or> writer_waiter (pipe_at s k) = Some w
     \<longrightarrow> 0 < w \<and> w < TASK_MAX)"

definition kern_inv :: "'a pipes_scheme \<Rightarrow> bool" where
  "kern_inv s \<longleftrightarrow> sched_inv s \<and> pipes_inv s \<and> waiters_ok s"

lemma waiters_ok_pool: "pipe_pool s' = pipe_pool s \<Longrightarrow> waiters_ok s' = waiters_ok s"
  by (simp add: waiters_ok_def)

lemma waiters_ok_upd:
  assumes "waiters_ok s" "length (pipe_pool s) = ATM_PIPE_MAX"
    "\<And>w. reader_waiter (f (pipe_at s k)) = Some w \<Longrightarrow> reader_waiter (pipe_at s k) = Some w \<or> 0 < w \<and> w < TASK_MAX"
    "\<And>w. writer_waiter (f (pipe_at s k)) = Some w \<Longrightarrow> writer_waiter (pipe_at s k) = Some w \<or> 0 < w \<and> w < TASK_MAX"
  shows "waiters_ok (upd_pipe k f s)"
proof (cases "k < ATM_PIPE_MAX")
  case True
  then show ?thesis using assms unfolding waiters_ok_def by (auto simp: pipe_at_upd)
qed (use assms in \<open>simp add: upd_pipe_def list_update_beyond\<close>)

lemma kern_inv_frame: "fd_frame s s' \<Longrightarrow> sched_inv s' \<Longrightarrow> kern_inv s \<Longrightarrow> kern_inv s'"
  using fd_frame_pipes(1) [of s s'] fd_frame_pipes(2) [of s s' "{}"] waiters_ok_pool [of s' s] by (simp add: kern_inv_def)

lemma sched_inv_pipe_wake:
  assumes "sched_inv s" "waiters_ok s" "k < ATM_PIPE_MAX"
  shows "sched_inv (pipe_wake_reader k s)" "sched_inv (pipe_wake_writer k s)"
  using assms by (auto simp: pipe_wake_reader_def pipe_wake_writer_def waiters_ok_def inv_intros split: option.split)

lemma pool_length: "pipes_but X s \<Longrightarrow> length (pipe_pool s) = ATM_PIPE_MAX"
  by (simp add: pipes_but_def)

lemma kern_inv_create [inv_intros]:
  assumes "kern_inv s" "i < TASK_MAX"
  shows "kern_inv (fst (native_pipe_create (Some i) s))"
proof (cases "snd (native_pipe_create (Some i) s)")
  case None
  then show ?thesis using assms by (auto simp: native_pipe_create_def Let_def split: if_splits option.splits)
next
  case (Some rw)
  then obtain r w where rw: "rw = (r, w)" by (cases rw)
  obtain k where k: "first_idx (\<lambda>k. \<not> used (pipe_at s k)) 0 ATM_PIPE_MAX = Some k"
    and fr: "first_idx (\<lambda>fd. pipe_fd_free (task_at s i) (int fd)) 3 TASK_FD_MAX = Some r"
    and fw: "first_idx (\<lambda>fd. pipe_fd_free (task_at s i) (int fd)) (r + 1) TASK_FD_MAX = Some w"
    and rdy: "fd_table_ready (task_at s i)"
    using Some rw by (auto simp: native_pipe_create_def Let_def split: if_splits option.splits)
  let ?z = "upd_pipe k (\<lambda>_. zero_pipe\<lparr>used := True\<rparr>) s"
  let ?r = "set_pipe_map i (int r) (int k * 2 + int ATM_PIPE_READ_END) (add_pipe_ref k ATM_PIPE_READ_END ?z)"
  let ?w = "set_pipe_map i (int w) (int k * 2 + int ATM_PIPE_WRITE_END) (add_pipe_ref k ATM_PIPE_WRITE_END ?r)"
  have inv: "pipes_inv s" "sched_inv s" "waiters_ok s" using assms by (auto simp: kern_inv_def)
  have k': "k < ATM_PIPE_MAX" "\<not> used (pipe_at s k)" using first_idx_Some [OF k] by auto
  have wf: "length (pipe_pool s) = ATM_PIPE_MAX" "pool_wf s" using inv(1) by (auto simp: pipes_but_def)
  have eq: "fst (native_pipe_create (Some i) s) = ?w"
    unfolding native_pipe_create_def using k fr fw rdy wf k'
    by (simp add: Let_def add_pipe_ref_def pipe_end_simps upd_pipe_def set_pipe_map_def upd_task_def zero_pipe_def)
  have z: "pipes_but {k} ?z"
  proof (rule pipes_but_update [OF inv(1)])
    have "card (pipe_ends s k 0) = 0 \<and> card (pipe_ends s k 1) = 0"
      using inv(1) k' unfolding pipes_but_def pipe_end_simps by auto
    then show "pipe_entry (k \<in> {k}) ?z k"
      using k' wf by (simp add: pipe_entry_def pipe_at_upd pipe_end_simps pipe_ok_cong(1) [of "zero_pipe\<lparr>used := True\<rparr>" zero_pipe])
        (simp add: zero_pipe_def)
  qed (use inv(1) wf in \<open>auto simp: pipes_but_def\<close>)
  have fr': "pipe_fd_free (task_at ?z i) (int r)" using first_idx_Some [OF fr] by simp
  have "pipes_but ({k} - {k}) ?r"
    using k' wf rdy fr' by (intro pipes_but_open(2) [OF z assms(2)]) (auto simp: pipe_at_upd pipe_end_simps)
  then have r: "pipes_inv ?r" by (simp only: Diff_cancel)
  have "pipe_fd_free (task_at ?r i) (int w)"
    using first_idx_Some [OF fw] first_idx_Some [OF fr] assms(2) wf
    by (auto simp: set_pipe_map_def task_at_upd pool_wf_def add_pipe_ref_def pipe_fd_free_def)
  then have w: "pipes_inv ?w"
    using k' wf rdy by (intro pipes_but_open(1) [OF r assms(2)]) (auto simp: pipe_at_upd pipe_end_simps add_pipe_ref_def)
  have "sched_inv ?w" using inv(2) by (simp add: add_pipe_ref_def)
  moreover have "waiters_ok ?w"
    using inv(3) wf k'(1) by (auto simp: waiters_ok_def add_pipe_ref_def pipe_at_upd zero_pipe_def pipe_end_simps)
  ultimately show ?thesis using eq w by (simp add: kern_inv_def)
qed

lemma kern_inv_close [inv_intros]:
  assumes "kern_inv s" "i < TASK_MAX"
  shows "kern_inv (fst (native_pipe_close (Some i) fd s))"
proof (cases "pipe_decode (Some i) fd s")
  case None
  then show ?thesis using assms by (simp add: native_pipe_close_def)
next
  case (Some ke)
  then obtain k e where d: "pipe_decode (Some i) fd s = Some (k, e)" by (cases ke) auto
  have inv: "pipes_inv s" "sched_inv s" "waiters_ok s" using assms by (auto simp: kern_inv_def)
  define s1 where "s1 = upd_pipe k (\<lambda>p. if e = ATM_PIPE_READ_END then p\<lparr>read_refs := read_refs p - 1\<rparr>
      else p\<lparr>write_refs := write_refs p - 1\<rparr>) (set_pipe_map i fd (-1) s)"
  define s2 where "s2 = (if e = ATM_PIPE_READ_END then pipe_wake_writer k s1 else pipe_wake_reader k s1)"
  note ds = pipe_decode_Some [OF inv(1) assms(2) d]
  have eq: "fst (native_pipe_close (Some i) fd s) = pipe_maybe_free k s2" using d by (simp add: native_pipe_close_def Let_def s1_def s2_def)
  have s1: "pipes_but {k} s1" using pipes_but_close [OF inv(1) assms(2) d] by (simp add: s1_def)
  have w1: "waiters_ok s1"
    unfolding s1_def using inv(1,3) by (intro waiters_ok_upd) (auto simp: waiters_ok_def pool_length split: if_splits)
  have f: "fd_frame s1 s2" by (simp add: s2_def)
  have i1: "sched_inv s1" using inv(2) by (simp add: s1_def)
  have i2: "sched_inv s2" using sched_inv_pipe_wake [OF i1 w1 ds(3)] by (simp add: s2_def)
  have s2: "pipes_but {k} s2" "waiters_ok s2"
    using s1 w1 fd_frame_pipes [OF f] waiters_ok_pool [OF fd_frame_pipes(1) [OF f]] by auto
  have "sched_inv (pipe_maybe_free k s2)" using i2 by (simp add: pipe_maybe_free_def)
  moreover have "waiters_ok (pipe_maybe_free k s2)"
    using s2(2) waiters_ok_upd [OF s2(2) pool_length [OF s2(1)], of "\<lambda>_. zero_pipe" k]
    by (auto simp: pipe_maybe_free_def zero_pipe_def)
  ultimately show ?thesis using pipes_but_free [OF s2(1) ds(3)] eq by (simp add: kern_inv_def)
qed

lemma kern_inv_ref:
  assumes "kern_inv s" "c < TASK_MAX" "fd_table_ready (task_at s c)" "pipe_fd_free (task_at s c) fd"
    "p < TASK_MAX" "pipe_decode (Some p) old s = Some (k, e)"
  shows "kern_inv (set_pipe_map c fd (pipe_map (task_at s p) ! nat old) (add_pipe_ref k e s))"
proof -
  have inv: "pipes_inv s" "sched_inv s" "waiters_ok s" using assms by (auto simp: kern_inv_def)
  note d = pipe_decode_Some [OF inv(1) assms(5,6)]
  have "waiters_ok (add_pipe_ref k e s)"
    unfolding add_pipe_ref_def using inv by (auto intro!: waiters_ok_upd simp: pool_length)
  then show ?thesis unfolding kern_inv_def d(7)
    using pipes_but_open(1) [OF inv(1) assms(2-4) d(3,4,6)] inv(2)
    by (simp add: add_pipe_ref_def waiters_ok_pool [of "set_pipe_map _ _ _ _"])
qed

lemma kern_inv_dup [inv_intros]:
  assumes "kern_inv s" "i < TASK_MAX"
  shows "kern_inv (fst (native_pipe_dup (Some i) oldfd newfd s))"
proof -
  have "fd_table_ready (task_at s i)" if "pipe_decode (Some i) oldfd s = Some ke" for ke
    using that by (auto simp: pipe_decode_def split: if_splits)
  then show ?thesis using assms kern_inv_ref [OF assms(1,2) _ _ assms(2)]
    by (auto simp: native_pipe_dup_def split: option.split)
qed

lemma kern_inv_inherit [inv_intros]:
  assumes "kern_inv s" "c < TASK_MAX" "p < TASK_MAX" "fd_table_ready (task_at s c)"
  shows "kern_inv (fst (native_pipe_inherit (Some c) (Some p) fd s))"
  using assms kern_inv_ref [OF assms(1,2,4) _ assms(3)]
  by (auto simp: native_pipe_inherit_def split: option.split)

lemma kern_inv_cleanup [inv_intros]:
  assumes "kern_inv s" "i < TASK_MAX"
  shows "kern_inv (native_pipe_task_cleanup (Some i) s)"
proof -
  have "kern_inv (fold (\<lambda>fd s. if pipe_map (task_at s i) ! fd \<ge> 0 then fst (native_pipe_close (Some i) (int fd) s) else s) fds s)"
    for fds
    using assms(1) by (induction fds arbitrary: s) (simp_all add: kern_inv_close assms(2))
  then show ?thesis by (simp add: native_pipe_task_cleanup_def)
qed

lemma sched_inv_pipe_block:
  "sched_inv s \<Longrightarrow> current_task s = Some i \<Longrightarrow> i \<noteq> 0 \<Longrightarrow> sched_inv (pipe_block i s)"
  by (auto simp: pipe_block_def inv_intros)

lemma clear_waiter_simps [simp]:
  "pipe_ok (clear_reader i p) = pipe_ok p" "pipe_data (clear_reader i p) = pipe_data p"
  "pipe_ok (clear_writer i p) = pipe_ok p" "pipe_data (clear_writer i p) = pipe_data p"
  "read_refs (clear_reader i p) = read_refs p" "write_refs (clear_reader i p) = write_refs p"
  "read_refs (clear_writer i p) = read_refs p" "write_refs (clear_writer i p) = write_refs p"
  "used (clear_reader i p) = used p" "used (clear_writer i p) = used p"
  "reader_waiter (clear_writer i p) = reader_waiter p" "writer_waiter (clear_reader i p) = writer_waiter p"
  "reader_waiter (clear_reader i p) = (if reader_waiter p = Some i then None else reader_waiter p)"
  "writer_waiter (clear_writer i p) = (if writer_waiter p = Some i then None else writer_waiter p)"
  "pcount (clear_reader i p) = pcount p" "pcount (clear_writer i p) = pcount p"
  by (simp_all add: clear_reader_def clear_writer_def pipe_ok_def pipe_data_def)

text \<open>Replacing a pipe by one with the same references and no new waiter but the caller.\<close>
lemma kern_inv_upd:
  assumes "kern_inv s" "pipe_ok q" "k < ATM_PIPE_MAX" "0 < i" "i < TASK_MAX"
    "read_refs q = read_refs (pipe_at s k)" "write_refs q = write_refs (pipe_at s k)" "used q = used (pipe_at s k)"
    "reader_waiter q \<in> {None, Some i, reader_waiter (pipe_at s k)}" "writer_waiter q \<in> {None, Some i, writer_waiter (pipe_at s k)}"
  shows "kern_inv (upd_pipe k (\<lambda>_. q) s)"
proof -
  have inv: "pipes_inv s" "sched_inv s" "waiters_ok s" using assms(1) by (auto simp: kern_inv_def)
  have at: "pipe_at (upd_pipe k (\<lambda>_. q) s) k = q" using assms(3) inv(1) by (simp add: pipe_at_upd pool_length)
  have "pipe_entry False s k" using inv(1) assms(3) by (simp add: pipes_but_entries)
  then have "pipe_entry False (upd_pipe k (\<lambda>_. q) s) k" using assms(2,6-8) by (auto simp: pipe_entry_def at)
  then have "pipes_inv (upd_pipe k (\<lambda>_. q) s)"
    using inv(1) by (intro pipes_but_update [OF inv(1), where k = k]) (auto simp: pipes_but_def)
  moreover have "waiters_ok (upd_pipe k (\<lambda>_. q) s)"
    using inv assms(4,5,9,10) by (intro waiters_ok_upd) (auto simp: pool_length)
  ultimately show ?thesis using inv(2) by (simp add: kern_inv_def)
qed

lemma upd_pipe_const: "upd_pipe k f s = upd_pipe k (\<lambda>_. f (pipe_at s k)) s"
  by (simp add: upd_pipe_def)

lemma pipe_get_fields: "pipe_ok p \<Longrightarrow> fst (pipe_get n p) = p\<lparr>ptail := (ptail p + n) mod ATM_PIPE_CAP\<rparr>"
  by (simp add: pipe_get_spec pipe_ok_def)

lemma kern_inv_wake:
  assumes "kern_inv s" "k < ATM_PIPE_MAX"
  shows "kern_inv (pipe_wake_reader k s)" "kern_inv (pipe_wake_writer k s)"
  using assms sched_inv_pipe_wake [of s k] kern_inv_frame [of s "pipe_wake_reader k s"] kern_inv_frame [of s "pipe_wake_writer k s"]
  by (auto simp: kern_inv_def)

lemma kern_inv_block:
  assumes "kern_inv s" "current_task s = Some i" "i \<noteq> 0"
  shows "kern_inv (pipe_block i s)"
  using assms kern_inv_frame [OF fd_frame_pipe_block] sched_inv_pipe_block by (auto simp: kern_inv_def)

lemma kern_inv_read_pass [inv_intros]:
  assumes "kern_inv s" "k < ATM_PIPE_MAX" "current_task s = Some i" "0 < i" "i < TASK_MAX"
  shows "kern_inv (fst (pipe_read_pass i k cnt nonblock s))"
proof -
  let ?p = "pipe_at s k" and ?n = "min cnt (pcount (pipe_at s k))"
  have ok: "pipe_ok ?p" using assms(1,2) by (auto simp: kern_inv_def pipes_but_def)
  note g = pipe_get_queue [OF ok, of ?n] and gf = pipe_get_fields [OF ok, of ?n]
  have a: "kern_inv (upd_pipe k (\<lambda>_. clear_reader i ((fst (pipe_get ?n ?p))\<lparr>pcount := pcount ?p - ?n\<rparr>)) s)"
    using g(1) by (intro kern_inv_upd [OF assms(1) _ assms(2,4,5)]) (simp_all add: gf)
  have b: "kern_inv (upd_pipe k (clear_reader i) s)" unfolding upd_pipe_const [of k "clear_reader i"]
    using ok by (intro kern_inv_upd [OF assms(1) _ assms(2,4,5)]) simp_all
  have c: "kern_inv (upd_pipe k (\<lambda>p. p\<lparr>reader_waiter := Some i\<rparr>) s)"
    unfolding upd_pipe_const [of k "\<lambda>p. p\<lparr>reader_waiter := Some i\<rparr>"]
    using ok by (intro kern_inv_upd [OF assms(1) _ assms(2,4,5)]) (simp_all add: pipe_ok_def)
  show ?thesis
    using kern_inv_wake(2) [OF a assms(2)] b kern_inv_block [OF c] assms(1,3,4) gf
    by (simp add: pipe_read_pass_def Let_def case_prod_beta)
qed

lemma kern_inv_write_pass [inv_intros]:
  assumes "kern_inv s" "k < ATM_PIPE_MAX" "current_task s = Some i" "0 < i" "i < TASK_MAX"
  shows "kern_inv (fst (pipe_write_pass i k bs nonblock s))"
proof -
  let ?p = "pipe_at s k" and ?n = "min (length bs) (ATM_PIPE_CAP - pcount (pipe_at s k))"
  have ok: "pipe_ok ?p" using assms(1,2) by (auto simp: kern_inv_def pipes_but_def)
  then have l: "pcount ?p + length (take ?n bs) \<le> ATM_PIPE_CAP" by (auto simp: pipe_ok_def)
  note g = pipe_put_queue [OF ok l]
  obtain buf where buf: "pipe_put (take ?n bs) ?p = ?p\<lparr>buffer := buf, phead := (phead ?p + length (take ?n bs)) mod ATM_PIPE_CAP\<rparr>"
    using g(3) by blast
  have a: "kern_inv (upd_pipe k (\<lambda>_. clear_writer i ((pipe_put (take ?n bs) ?p)\<lparr>pcount := pcount ?p + length (take ?n bs)\<rparr>)) s)"
    using g(1) by (intro kern_inv_upd [OF assms(1) _ assms(2,4,5)]) (simp_all add: buf)
  have b: "kern_inv (upd_pipe k (clear_writer i) s)" unfolding upd_pipe_const [of k "clear_writer i"]
    using ok by (intro kern_inv_upd [OF assms(1) _ assms(2,4,5)]) simp_all
  have c: "kern_inv (upd_pipe k (\<lambda>p. p\<lparr>writer_waiter := Some i\<rparr>) s)"
    unfolding upd_pipe_const [of k "\<lambda>p. p\<lparr>writer_waiter := Some i\<rparr>"]
    using ok by (intro kern_inv_upd [OF assms(1) _ assms(2,4,5)]) (simp_all add: pipe_ok_def)
  have pc: "pcount (pipe_put (take ?n bs) ?p) = pcount ?p" by (simp add: buf)
  have ln: "length (take ?n bs) = ?n" by simp
  note a' = kern_inv_wake(1) [OF a assms(2)]
  show ?thesis
    unfolding pipe_write_pass_def Let_def pc using a' [unfolded ln] b kern_inv_block [OF c] assms(1,3,4) by simp
qed

subsection \<open>Transfers\<close>

lemma pipe_block_state:
  assumes "sched_inv s" "current_task s = Some i" "0 < i"
  shows "state (task_at (pipe_block i s) i) = TASK_BLOCKED"
proof -
  let ?r = "queue_remove (Some i) (set_state i TASK_BLOCKED s)"
  have i: "i < TASK_MAX" "sched_core s" "state (task_at s i) \<noteq> TASK_UNUSED"
    using assms by (auto simp: sched_inv_core)
  then have pid: "pid (task_at s i) \<noteq> 0" using assms(3) by (auto simp: sched_core_def)
  note st = sched_core_stop [OF i(2,1) less_imp_neq [OF assms(3), symmetric] disjI1 [OF refl] i(3)]
  obtain xs where xs: "sched_ring ?r xs" using st(1) by (auto simp: sched_core_def)
  have p: "pick_successor ?r < length (task_pool ?r)" "pick_successor ?r \<noteq> i"
    using pick_successor_ok [OF xs] xs st(2) [OF i(1)] assms(3) by (auto simp: sched_ring_def ring_def pool_wf_def)
  show ?thesis using p assms(2) pid st(2) [OF i(1)]
    by (simp add: pipe_block_def task_block_def task_block_from_syscall_def Let_def switch_to_state)
qed

lemma pipe_wake_pool [simp]:
  "pipe_pool (pipe_wake_reader k s) = pipe_pool s" "pipe_pool (pipe_wake_writer k s) = pipe_pool s"
  "pipe_pool (pipe_block i s) = pipe_pool s"
  using fd_frame_pipes(1) fd_frame_wake fd_frame_pipe_block by blast+

lemma pipe_read_pass_data:
  assumes "pipe_ok (pipe_at s k)" "k < length (pipe_pool s)" "pipe_data (pipe_at s k) \<noteq> []"
  shows "snd (pipe_read_pass i k cnt nb s) = Ret (int (min cnt (length (pipe_data (pipe_at s k))))) (take cnt (pipe_data (pipe_at s k)))"
    "pipe_data (pipe_at (fst (pipe_read_pass i k cnt nb s)) k) = drop cnt (pipe_data (pipe_at s k))"
    "pipe_ok (pipe_at (fst (pipe_read_pass i k cnt nb s)) k)"
proof -
  let ?p = "pipe_at s k" and ?n = "min cnt (pcount (pipe_at s k))"
  note g = pipe_get_queue [OF assms(1), of ?n] and gf = pipe_get_fields [OF assms(1), of ?n]
  have c: "pcount ?p \<noteq> 0" using assms(3) by (metis length_0_conv length_pipe_data)
  have pc: "pcount (fst (pipe_get ?n ?p)) = pcount ?p" by (simp add: gf)
  have s: "pipe_at (fst (pipe_read_pass i k cnt nb s)) k = clear_reader i ((fst (pipe_get ?n ?p))\<lparr>pcount := pcount ?p - ?n\<rparr>)"
    using c assms(2) unfolding pipe_read_pass_def by (simp add: Let_def case_prod_beta pipe_at_upd pc)
  have t: "take ?n (pipe_data ?p) = take cnt (pipe_data ?p)" "drop ?n (pipe_data ?p) = drop cnt (pipe_data ?p)"
    by (auto simp: min_def)
  show "snd (pipe_read_pass i k cnt nb s) = Ret (int (min cnt (length (pipe_data ?p)))) (take cnt (pipe_data ?p))"
    using c g(3) t unfolding pipe_read_pass_def by (simp add: Let_def case_prod_beta)
  show "pipe_data (pipe_at (fst (pipe_read_pass i k cnt nb s)) k) = drop cnt (pipe_data ?p)"
    "pipe_ok (pipe_at (fst (pipe_read_pass i k cnt nb s)) k)"
    unfolding s using g(1,2) t by simp_all
qed

lemma pipe_read_pass_empty:
  assumes "pipe_data (pipe_at s k) = []"
  shows "pipe_read_pass i k cnt nb s =
    (if write_refs (pipe_at s k) = 0 then (upd_pipe k (clear_reader i) s, Ret 0 [])
     else if nb then (s, Ret (- ATM_EAGAIN) [])
     else (pipe_block i (upd_pipe k (\<lambda>p. p\<lparr>reader_waiter := Some i\<rparr>) s), Blocked))"
proof -
  have "pcount (pipe_at s k) = 0" using assms length_pipe_data [of "pipe_at s k"] by simp
  then show ?thesis by (simp add: pipe_read_pass_def)
qed

lemma pipe_write_pass_data:
  assumes "pipe_ok (pipe_at s k)" "k < length (pipe_pool s)" "read_refs (pipe_at s k) \<noteq> 0"
    "length (pipe_data (pipe_at s k)) < ATM_PIPE_CAP"
  shows "snd (pipe_write_pass i k bs nb s) = Ret (int (min (length bs) (ATM_PIPE_CAP - length (pipe_data (pipe_at s k))))) []"
    "pipe_data (pipe_at (fst (pipe_write_pass i k bs nb s)) k)
       = pipe_data (pipe_at s k) @ take (ATM_PIPE_CAP - length (pipe_data (pipe_at s k))) bs"
    "pipe_ok (pipe_at (fst (pipe_write_pass i k bs nb s)) k)"
proof -
  let ?p = "pipe_at s k" and ?n = "min (length bs) (ATM_PIPE_CAP - pcount (pipe_at s k))"
  have l: "pcount ?p + length (take ?n bs) \<le> ATM_PIPE_CAP" using assms(1) by (auto simp: pipe_ok_def)
  note g = pipe_put_queue [OF assms(1) l]
  have pc: "pcount (pipe_put (take ?n bs) ?p) = pcount ?p" using g(3) by auto
  have s: "pipe_at (fst (pipe_write_pass i k bs nb s)) k = clear_writer i ((pipe_put (take ?n bs) ?p)\<lparr>pcount := pcount ?p + length (take ?n bs)\<rparr>)"
    using assms(2-4) unfolding pipe_write_pass_def Let_def pc by (simp add: pipe_at_upd)
  have t: "take ?n bs = take (ATM_PIPE_CAP - pcount ?p) bs" by (auto simp: min_def)
  show "snd (pipe_write_pass i k bs nb s) = Ret (int (min (length bs) (ATM_PIPE_CAP - length (pipe_data ?p)))) []"
    using assms(3,4) by (simp add: pipe_write_pass_def Let_def)
  show "pipe_data (pipe_at (fst (pipe_write_pass i k bs nb s)) k) = pipe_data ?p @ take (ATM_PIPE_CAP - length (pipe_data ?p)) bs"
    unfolding s clear_waiter_simps g(2) unfolding t length_pipe_data ..
  show "pipe_ok (pipe_at (fst (pipe_write_pass i k bs nb s)) k)"
    unfolding s using g(1) by simp
qed

lemma pipe_write_pass_full:
  assumes "read_refs (pipe_at s k) = 0 \<or> \<not> length (pipe_data (pipe_at s k)) < ATM_PIPE_CAP"
  shows "pipe_write_pass i k bs nb s =
    (if read_refs (pipe_at s k) = 0 then (upd_pipe k (clear_writer i) s, Ret (- ATM_PIPE_EPIPE) [])
     else if nb then (s, Ret (- ATM_EAGAIN) [])
     else (pipe_block i (upd_pipe k (\<lambda>p. p\<lparr>writer_waiter := Some i\<rparr>) s), Blocked))"
  using assms by (auto simp: pipe_write_pass_def)

text \<open>Histories of transfers on one pipe, with the bytes the writers got accepted and the bytes
  the readers got.\<close>
datatype transfer = Read nat nat bool | Write nat "u8 list" bool

fun accepted :: "u8 list \<Rightarrow> pipe_io \<Rightarrow> u8 list" where
  "accepted bs (Ret n _) = take (nat n) bs"
| "accepted bs Blocked = []"

fun received :: "pipe_io \<Rightarrow> u8 list" where
  "received (Ret _ bs) = bs"
| "received Blocked = []"

fun transfers :: "nat \<Rightarrow> transfer list \<Rightarrow> 'a pipes_scheme \<Rightarrow> 'a pipes_scheme \<times> u8 list \<times> u8 list" where
  "transfers k [] s = (s, [], [])"
| "transfers k (Read i n nb # ops) s =
     (let (s1, io) = pipe_read_pass i k n nb s; (s2, w, r) = transfers k ops s1 in (s2, w, received io @ r))"
| "transfers k (Write i bs nb # ops) s =
     (let (s1, io) = pipe_write_pass i k bs nb s; (s2, w, r) = transfers k ops s1 in (s2, accepted bs io @ w, r))"

lemma pool_len_pass [simp]:
  "length (pipe_pool (fst (pipe_read_pass i k n nb s))) = length (pipe_pool s)"
  "length (pipe_pool (fst (pipe_write_pass i k bs nb s))) = length (pipe_pool s)"
  by (simp_all add: pipe_read_pass_def pipe_write_pass_def Let_def case_prod_beta)

lemma read_pass_stream:
  assumes "pipe_ok (pipe_at s k)" "k < length (pipe_pool s)"
  shows "pipe_ok (pipe_at (fst (pipe_read_pass i k n nb s)) k)"
    "received (snd (pipe_read_pass i k n nb s)) @ pipe_data (pipe_at (fst (pipe_read_pass i k n nb s)) k) = pipe_data (pipe_at s k)"
proof -
  have "pipe_ok (pipe_at (fst (pipe_read_pass i k n nb s)) k) \<and>
    received (snd (pipe_read_pass i k n nb s)) @ pipe_data (pipe_at (fst (pipe_read_pass i k n nb s)) k) = pipe_data (pipe_at s k)"
  proof (cases "pipe_data (pipe_at s k) = []")
    case True
    show ?thesis unfolding pipe_read_pass_empty [OF True] using assms
      by (auto simp: pipe_at_upd) (simp_all add: pipe_ok_def pipe_data_def)
  next
    case False
    show ?thesis unfolding pipe_read_pass_data [OF assms False] using pipe_read_pass_data(3) [OF assms False] by simp
  qed
  then show "pipe_ok (pipe_at (fst (pipe_read_pass i k n nb s)) k)"
    "received (snd (pipe_read_pass i k n nb s)) @ pipe_data (pipe_at (fst (pipe_read_pass i k n nb s)) k) = pipe_data (pipe_at s k)"
    by simp_all
qed

lemma write_pass_stream:
  assumes "pipe_ok (pipe_at s k)" "k < length (pipe_pool s)"
  shows "pipe_ok (pipe_at (fst (pipe_write_pass i k bs nb s)) k) \<and>
    pipe_data (pipe_at (fst (pipe_write_pass i k bs nb s)) k) = pipe_data (pipe_at s k) @ accepted bs (snd (pipe_write_pass i k bs nb s))"
proof (cases "read_refs (pipe_at s k) = 0 \<or> \<not> length (pipe_data (pipe_at s k)) < ATM_PIPE_CAP")
  case True
  show ?thesis unfolding pipe_write_pass_full [OF True] using assms
    by (auto simp: pipe_at_upd ATM_PIPE_EPIPE_def ATM_EAGAIN_def) (simp_all add: pipe_ok_def pipe_data_def)
next
  case False
  then have f: "read_refs (pipe_at s k) \<noteq> 0" "length (pipe_data (pipe_at s k)) < ATM_PIPE_CAP" by auto
  have t: "take (min (length bs) m) bs = take m bs" for m by (auto simp: min_def)
  show ?thesis unfolding pipe_write_pass_data(1,2) [OF assms f] using pipe_write_pass_data(3) [OF assms f] by (simp add: t)
qed

lemma transfers_stream:
  "pipe_ok (pipe_at s k) \<Longrightarrow> k < length (pipe_pool s) \<Longrightarrow> transfers k ops s = (s', w, r) \<Longrightarrow>
     pipe_data (pipe_at s k) @ w = r @ pipe_data (pipe_at s' k) \<and> pipe_ok (pipe_at s' k)"
proof (induction k ops s arbitrary: s' w r rule: transfers.induct)
  case (2 k i n nb ops s)
  obtain s1 io where p: "pipe_read_pass i k n nb s = (s1, io)" by (cases "pipe_read_pass i k n nb s")
  obtain s2 w2 r2 where t: "transfers k ops s1 = (s2, w2, r2)" by (cases "transfers k ops s1") auto
  note q = read_pass_stream [OF "2.prems"(1,2), of i n nb, unfolded p fst_conv snd_conv]
  have "k < length (pipe_pool s1)" using pool_len_pass(1) [of i k n nb s] "2.prems"(2) p by simp
  note ih = "2.IH" [OF p [symmetric] refl q(1) this t]
  have eqs: "s' = s2" "w = w2" "r = received io @ r2" using "2.prems"(3) p t by simp_all
  show ?case unfolding eqs q(2) [symmetric] using ih by simp
next
  case (3 k i bs nb ops s)
  obtain s1 io where p: "pipe_write_pass i k bs nb s = (s1, io)" by (cases "pipe_write_pass i k bs nb s")
  obtain s2 w2 r2 where t: "transfers k ops s1 = (s2, w2, r2)" by (cases "transfers k ops s1") auto
  note q = write_pass_stream [OF "3.prems"(1,2), of i bs nb, unfolded p fst_conv snd_conv]
  have "k < length (pipe_pool s1)" using pool_len_pass(2) [of i k bs nb s] "3.prems"(2) p by simp
  note ih = "3.IH" [OF p [symmetric] refl conjunct1 [OF q] this t]
  have eqs: "s' = s2" "w = accepted bs io @ w2" "r = r2" using "3.prems"(3) p t by simp_all
  show ?case unfolding eqs using ih conjunct2 [OF q] by simp
qed simp

subsection \<open>Whole-kernel histories\<close>

lemma fd_frame_accounting [simp]: "fd_frame s (tick_accounting s)"
proof -
  have f: "fd_frame s (s\<lparr>uptime_ticks := u\<rparr>)" "fd_frame s (s\<lparr>idle_ticks := u\<rparr>)" for s :: "'a sched_scheme" and u
    by (simp_all add: fd_frame_def)
  have t: "fd_frame s (upd_task i (\<lambda>t. t\<lparr>ticks := ticks t + 1\<rparr>) s)" for s :: "'a sched_scheme" and i
    by (rule fd_frame_upd_task) (simp add: fd_view_def)
  show ?thesis unfolding tick_accounting_def Let_def
    by (auto split: option.split intro: f t fd_frame_trans [OF f(1)] fd_frame_trans [OF fd_frame_trans [OF f(1)]])
qed

lemma fd_frame_wake_slot: "fd_frame s (wake_slot i s)"
proof -
  have "fd_frame s (s\<lparr>sleep_tab := (sleep_tab s)[i := m]\<rparr>)" for m by (simp add: fd_frame_def)
  then show ?thesis by (auto simp: wake_slot_def intro: fd_frame_trans fd_frame_unblock)
qed

lemma fd_frame_wake_sleepers [simp]: "fd_frame s (wake_sleepers s)"
proof -
  have "fd_frame s (fold wake_slot is s)" for "is"
    by (induction "is" arbitrary: s) (auto intro: fd_frame_trans [OF fd_frame_wake_slot])
  then show ?thesis by (simp add: wake_sleepers_def)
qed

lemma fd_frame_tick_switch: "fd_frame s (tick_switch xs s)"
proof -
  have q: "fd_frame s (s\<lparr>quantum_counter := q\<rparr>)" for s :: "'a sched_scheme" and q by (simp add: fd_frame_def)
  have t: "fd_frame s (upd_task i (\<lambda>t. t\<lparr>state := st\<rparr>) s)" for s :: "'a sched_scheme" and i st
    by (rule fd_frame_upd_task) (simp add: fd_view_def)
  have sw: "fd_frame s (switch_to n (upd_task c (\<lambda>t. t\<lparr>state := TASK_READY\<rparr>) (s\<lparr>quantum_counter := 0\<rparr>)))"
    "fd_frame s (switch_to n (s\<lparr>quantum_counter := 0\<rparr>))" for n c
    by (auto intro: fd_frame_trans [OF _ fd_frame_switch_to] fd_frame_trans [OF q t] q)
  moreover have "fd_frame s ((switch_to 0 s)\<lparr>fs_base := 0\<rparr>)"
    by (rule fd_frame_trans [OF fd_frame_switch_to [of s 0]]) simp
  ultimately show ?thesis unfolding tick_switch_def by (auto split: option.split intro: q sw)
qed

lemma fd_frame_sched_step:
  assumes "sched_inv s" "sched_step op s = Some s'"
  shows "fd_frame s s'"
proof (cases op)
  case Tick
  obtain xs where "sched_ring (wake_sleepers (tick_accounting s)) xs" "sched_tick s = Some (tick_switch xs (wake_sleepers (tick_accounting s)))"
    using sched_tick_total [OF assms(1)] by blast
  then show ?thesis using Tick assms(2)
    by (auto intro: fd_frame_trans [OF fd_frame_trans [OF fd_frame_accounting fd_frame_wake_sleepers] fd_frame_tick_switch])
next
  case (Sleep n)
  have "fd_frame s (s\<lparr>sleep_tab := (sleep_tab s)[i := m]\<rparr>)" for i m by (simp add: fd_frame_def)
  then show ?thesis using Sleep assms(2)
    by (auto simp: task_sleep_ticks_from_syscall_def split: option.splits if_splits intro: fd_frame_trans [OF _ fd_frame_block(2)])
qed (use assms(2) in \<open>auto split: if_splits\<close>)

text \<open>The calls a task makes on its own pipe descriptors, interleaved with everything the scheduler
  does.  Reads and writes are made by the current task, and the idle task makes none.\<close>
datatype kern_op =
    Pipe_create nat | Pipe_close nat int | Pipe_dup nat int int | Pipe_inherit nat nat int | Pipe_cleanup nat
  | Pipe_read int nat bool | Pipe_write int "u8 list" bool | Sched sched_op

fun kern_step :: "kern_op \<Rightarrow> 'a pipes_scheme \<Rightarrow> 'a pipes_scheme option" where
  "kern_step (Pipe_create i) s = Some (if i < TASK_MAX then fst (native_pipe_create (Some i) s) else s)"
| "kern_step (Pipe_close i fd) s = Some (if i < TASK_MAX then fst (native_pipe_close (Some i) fd s) else s)"
| "kern_step (Pipe_dup i old new) s = Some (if i < TASK_MAX then fst (native_pipe_dup (Some i) old new s) else s)"
| "kern_step (Pipe_inherit c p fd) s =
     Some (if c < TASK_MAX \<and> p < TASK_MAX \<and> fd_table_ready (task_at s c) then fst (native_pipe_inherit (Some c) (Some p) fd s) else s)"
| "kern_step (Pipe_cleanup i) s = Some (if i < TASK_MAX then native_pipe_task_cleanup (Some i) s else s)"
| "kern_step (Pipe_read fd n nb) s =
     Some (if current_task s = Some 0 then s else fst (native_pipe_read (current_task s) fd True n nb s))"
| "kern_step (Pipe_write fd bs nb) s =
     Some (if current_task s = Some 0 then s else fst (native_pipe_write (current_task s) fd (Some bs) nb s))"
| "kern_step (Sched op) s = sched_step op s"

primrec kern_run :: "kern_op list \<Rightarrow> 'a pipes_scheme \<Rightarrow> 'a pipes_scheme option" where
  "kern_run [] s = Some s"
| "kern_run (op # ops) s = (case kern_step op s of None \<Rightarrow> None | Some s' \<Rightarrow> kern_run ops s')"

lemma kern_inv_read:
  assumes "kern_inv s" "current_task s = Some i" "i \<noteq> 0"
  shows "kern_inv (fst (native_pipe_read (Some i) fd b n nb s))" "kern_inv (fst (native_pipe_write (Some i) fd bs nb s))"
proof -
  have i: "i < TASK_MAX" "0 < i" "pipes_inv s" using assms by (auto simp: kern_inv_def sched_inv_def)
  show "kern_inv (fst (native_pipe_read (Some i) fd b n nb s))"
    using assms i pipe_decode_Some(3) [OF i(3,1)]
    by (auto simp: native_pipe_read_def inv_intros split: option.split)
  show "kern_inv (fst (native_pipe_write (Some i) fd bs nb s))"
    using assms i pipe_decode_Some(3) [OF i(3,1)]
    by (auto simp: native_pipe_write_def inv_intros split: option.split)
qed

lemma kern_step_inv:
  assumes "kern_inv s"
  shows "\<exists>s'. kern_step op s = Some s' \<and> kern_inv s'"
proof (cases op)
  case (Sched op')
  obtain s' where "sched_step op' s = Some s'" "sched_inv s'"
    using sched_step_inv [of s op'] assms by (auto simp: kern_inv_def)
  then show ?thesis using Sched kern_inv_frame [OF fd_frame_sched_step _ assms] assms by (auto simp: kern_inv_def)
next
  case (Pipe_read fd n nb)
  obtain i where "current_task s = Some i" using assms by (auto simp: kern_inv_def sched_inv_def)
  then show ?thesis using Pipe_read assms kern_inv_read(1) [OF assms] by simp
next
  case (Pipe_write fd bs nb)
  obtain i where "current_task s = Some i" using assms by (auto simp: kern_inv_def sched_inv_def)
  then show ?thesis using Pipe_write assms kern_inv_read(2) [OF assms] by simp
qed (use assms in \<open>auto simp: inv_intros\<close>)

lemma kern_run_inv: "kern_inv s \<Longrightarrow> \<exists>s'. kern_run ops s = Some s' \<and> kern_inv s'"
proof (induction ops arbitrary: s)
  case (Cons op ops)
  then show ?case using kern_step_inv [of s op] by fastforce
qed simp

subsection \<open>The correctness of pipes\<close>

text \<open>Three tasks with open descriptor tables and no pipe yet, for the concrete checks.\<close>
definition demo_fds :: "task \<Rightarrow> task" where
  "demo_fds t = t\<lparr>fd_table_ready := True, pipe_map := replicate 32 (-1), fd_map := replicate 32 (-1),
     socket_map := replicate 32 (-1)\<rparr>"

definition demo_kern :: pipes where
  "demo_kern = sched.extend (demo_sched\<lparr>task_pool := map demo_fds (task_pool demo_sched)\<rparr>)
     (pipes.fields (replicate 8 zero_pipe))"

lemma demo_kern_sched [simp]:
  "task_pool demo_kern = map demo_fds (task_pool demo_sched)" "current_task demo_kern = Some 1"
  "run_queue_head demo_kern = Some 1" "sleep_tab demo_kern = sleep_tab demo_sched"
  "pipe_pool demo_kern = replicate 8 zero_pipe"
  by (simp_all add: demo_kern_def sched.extend_def pipes.fields_def demo_sched_def)

lemma demo_fds_simps [simp]:
  "state (demo_fds t) = state t" "pid (demo_fds t) = pid t" "next_task (demo_fds t) = next_task t"
  "fd_table_ready (demo_fds t)" "pipe_map (demo_fds t) = replicate 32 (-1)" "address_space (demo_fds t) = address_space t"
  "fd_map (demo_fds t) = replicate 32 (-1)" "socket_map (demo_fds t) = replicate 32 (-1)"
  by (simp_all add: demo_fds_def)

lemma demo_pool_len: "length (task_pool demo_sched) = TASK_MAX"
  using demo_wf by (simp add: pool_wf_def)

lemma demo_kern_inv: "kern_inv demo_kern"
proof -
  have wf: "pool_wf demo_kern" using demo_wf by (simp add: pool_wf_def)
  have ends: "pipe_ends demo_kern k e = {}" for k e
    by (auto simp: pipe_ends_def demo_pool_len TASK_FD_MAX_def)
  have pi: "pipes_inv demo_kern" unfolding pipes_but_def ends using wf
    by (simp add: demo_pool_len maps_ok_def TASK_FD_MAX_def ATM_PIPE_MAX_def) (simp add: zero_pipe_def)
  have wo: "waiters_ok demo_kern" by (simp add: waiters_ok_def ATM_PIPE_MAX_def zero_pipe_def)
  have "sched_ring demo_kern [1, 2, 3]"
  proof -
    have "links demo_kern [1, 2, 3] 1 = links demo_sched [1, 2, 3] 1"
      using demo_pool_len by (simp add: TASK_MAX_def)
    then have "ring demo_kern [1, 2, 3]" using demo_ring by (simp add: sched_ring_def ring_def)
    then show ?thesis using demo_ring wf by (auto simp: sched_ring_def demo_pool_len runnable_def)
  qed
  moreover have "state (task_at demo_kern i) = state (task_at demo_sched i)" "pid (task_at demo_kern i) = pid (task_at demo_sched i)"
    if "i < TASK_MAX" for i using that by (simp_all add: demo_pool_len)
  moreover have "current_task demo_sched = Some 1" by (simp add: demo_sched_def)
  ultimately have "sched_inv demo_kern"
    using demo_inv unfolding sched_inv_def by (simp del: demo_kern_sched(1) cong: conj_cong) blast
  then show ?thesis using pi wo by (simp add: kern_inv_def)
qed

definition demo_piped :: pipes where
  "demo_piped = fst (native_pipe_create (Some 1) demo_kern)"

lemma demo_free: "3 \<le> fd \<Longrightarrow> fd < 32 \<Longrightarrow> pipe_fd_free (task_at demo_kern 1) (int fd)"
  by (simp add: pipe_fd_free_def TASK_FD_MAX_def demo_pool_len)

lemma demo_piped_eq:
  "demo_piped = set_pipe_map 1 4 1 (set_pipe_map 1 3 0
     (upd_pipe 0 (\<lambda>_. zero_pipe\<lparr>used := True, read_refs := 1, write_refs := 1\<rparr>) demo_kern))"
proof -
  have "first_idx (\<lambda>fd. pipe_fd_free (task_at demo_kern 1) (int fd)) 3 TASK_FD_MAX = Some 3"
    "first_idx (\<lambda>fd. pipe_fd_free (task_at demo_kern 1) (int fd)) 4 TASK_FD_MAX = Some 4"
    using demo_free [of 3] demo_free [of 4] by (simp_all add: first_idx.simps [of _ 3] first_idx.simps [of _ 4] TASK_FD_MAX_def del: demo_kern_sched)
  moreover have "first_idx (\<lambda>k. \<not> used (pipe_at demo_kern k)) 0 ATM_PIPE_MAX = Some 0"
    by (simp add: first_idx.simps [of _ 0] ATM_PIPE_MAX_def zero_pipe_def)
  moreover have "fd_table_ready (task_at demo_kern 1)" by (simp add: demo_pool_len)
  ultimately show ?thesis unfolding demo_piped_def native_pipe_create_def
    by (simp add: Let_def pipe_end_simps del: demo_kern_sched)
qed

lemma demo_piped_facts:
  "kern_inv demo_piped" "current_task demo_piped = Some 1" "pipe_decode (Some 1) 3 demo_piped = Some (0, 0)"
  "pipe_decode (Some 1) 4 demo_piped = Some (0, 1)" "pipe_data (pipe_at demo_piped 0) = []"
  "write_refs (pipe_at demo_piped 0) = 1" "read_refs (pipe_at demo_piped 0) = 1"
proof -
  show "kern_inv demo_piped" unfolding demo_piped_def using demo_kern_inv by (simp add: inv_intros)
  show "current_task demo_piped = Some 1" by (simp add: demo_piped_eq)
  have p: "pipe_at demo_piped 0 = zero_pipe\<lparr>used := True, read_refs := 1, write_refs := 1\<rparr>"
    by (simp add: demo_piped_eq pipe_at_upd)
  show "pipe_data (pipe_at demo_piped 0) = []" "write_refs (pipe_at demo_piped 0) = 1" "read_refs (pipe_at demo_piped 0) = 1"
    unfolding p by (simp_all add: pipe_data_def zero_pipe_def)
  have l: "1 < length (task_pool demo_kern)" by (simp add: demo_pool_len)
  have t: "task_at demo_piped 1 = (task_at demo_kern 1)\<lparr>pipe_map := (replicate 32 (-1))[3 := 0, 4 := 1]\<rparr>"
    using l by (simp add: demo_piped_eq set_pipe_map_def task_at_upd demo_pool_len)
  have "pipe_map (task_at demo_piped 1) ! 3 = 0" "pipe_map (task_at demo_piped 1) ! 4 = 1" "fd_table_ready (task_at demo_piped 1)"
    unfolding t by (simp_all add: demo_pool_len)
  then show "pipe_decode (Some 1) 3 demo_piped = Some (0, 0)" "pipe_decode (Some 1) 4 demo_piped = Some (0, 1)"
    by (simp_all add: pipe_decode_def TASK_FD_MAX_def ATM_PIPE_MAX_def p)
qed

text \<open>C3. Reference counting over every history: whatever calls the tasks make on their pipes
  (create, dup, inherit, close, cleanup at exit, reads and writes) interleaved with ticks, sleeps,
  blocks and wake-ups, the kernel always comes back, the scheduler's invariant holds, and for every pipe
  the two reference counts are the numbers of open descriptors of that end over all tasks, so that a
  pipe is in use exactly while a descriptor of it is open, and its ring buffer is well formed.\<close>
theorem kern_run_invariant:
  assumes "kern_inv s"
  shows "\<exists>s'. kern_run ops s = Some s' \<and> sched_inv s' \<and>
    (\<forall>k < ATM_PIPE_MAX. pipe_ok (pipe_at s' k) \<and>
       read_refs (pipe_at s' k) = card (pipe_ends s' k ATM_PIPE_READ_END) \<and>
       write_refs (pipe_at s' k) = card (pipe_ends s' k ATM_PIPE_WRITE_END) \<and>
       (used (pipe_at s' k) \<longleftrightarrow> pipe_ends s' k ATM_PIPE_READ_END \<union> pipe_ends s' k ATM_PIPE_WRITE_END \<noteq> {}))"
proof -
  obtain s' where s': "kern_run ops s = Some s'" "kern_inv s'" using kern_run_inv [OF assms] by blast
  have "used (pipe_at s' k) \<longleftrightarrow> pipe_ends s' k ATM_PIPE_READ_END \<union> pipe_ends s' k ATM_PIPE_WRITE_END \<noteq> {}"
    if "k < ATM_PIPE_MAX" for k
    using s'(2) that pipes_but_at(2,3,5) [of "{}" s' k] by (auto simp: kern_inv_def card_gt_0_iff)
  then show ?thesis using s' by (auto simp: kern_inv_def pipes_but_def)
qed

theorem kern_run_invariant_witness:
  "\<exists>s'. kern_run [Pipe_create 1, Pipe_dup 1 3 7, Pipe_write 4 [1, 2] False, Sched Tick, Pipe_cleanup 1] demo_kern = Some s' \<and>
     sched_inv s'"
  using kern_run_invariant [OF demo_kern_inv] by blast

text \<open>C8. A pipe is a byte stream: over any sequence of reads and writes on it, by any tasks,
  blocking or not, with partial transfers and the ring wrapping around, what was in the pipe followed
  by the bytes the writers were told were accepted is what the readers received followed by what is in
  the pipe now: no byte is lost, duplicated, invented or reordered.\<close>
theorem pipe_stream:
  assumes "kern_inv s" "k < ATM_PIPE_MAX" "transfers k ops s = (s', w, r)"
  shows "pipe_data (pipe_at s k) @ w = r @ pipe_data (pipe_at s' k)"
  using transfers_stream [of s k ops s' w r] assms pipes_but_at(1,4) [of "{}" s k] by (simp add: kern_inv_def)

theorem pipe_stream_witness:
  "\<exists>s' w r. transfers 0 [Write 1 [1, 2, 3] True, Read 2 2 True] demo_piped = (s', w, r) \<and>
     w = r @ pipe_data (pipe_at s' 0)"
proof -
  obtain s' w r where t: "transfers 0 [Write 1 [1, 2, 3] True, Read 2 2 True] demo_piped = (s', w, r)"
    by (metis prod_cases3)
  show ?thesis using pipe_stream [OF demo_piped_facts(1) _ t] demo_piped_facts(5) t by (auto simp: ATM_PIPE_MAX_def)
qed

lemma no_writers_iff:
  assumes "kern_inv s" "k < ATM_PIPE_MAX"
  shows "write_refs (pipe_at s k) = 0 \<longleftrightarrow> pipe_ends s k ATM_PIPE_WRITE_END = {}"
    "read_refs (pipe_at s k) = 0 \<longleftrightarrow> pipe_ends s k ATM_PIPE_READ_END = {}"
  using pipes_but_at(2,3) [of "{}" s k] assms by (auto simp: kern_inv_def)

text \<open>C24. What a read returns, on every path, in terms of the byte stream and of the open
  descriptors: \<open>-1\<close> for a descriptor that is no read end of a pipe or a \<open>NULL\<close> buffer; the
  first \<open>min count available\<close> bytes when there are any; end of file (\<open>0\<close>) exactly when the
  pipe is empty and no write end is open in any task; otherwise \<open>-EAGAIN\<close> for a non-blocking
  descriptor, and else the calling task is \<open>BLOCKED\<close> as the pipe's waiting reader.\<close>
theorem pipe_read_contract:
  assumes "kern_inv s" "current_task s = Some i" "0 < i" "i < TASK_MAX"
  shows "case pipe_decode (Some i) fd s of
      None \<Rightarrow> native_pipe_read (Some i) fd True cnt nb s = (s, Ret (-1) [])
    | Some (k, e) \<Rightarrow>
        let (s', io) = native_pipe_read (Some i) fd True cnt nb s; d = pipe_data (pipe_at s k) in
        if e \<noteq> ATM_PIPE_READ_END then s' = s \<and> io = Ret (-1) []
        else if cnt = 0 then s' = s \<and> io = Ret 0 []
        else if d \<noteq> [] then
          io = Ret (int (min cnt (length d))) (take cnt d) \<and> pipe_data (pipe_at s' k) = drop cnt d
        else if pipe_ends s k ATM_PIPE_WRITE_END = {} then io = Ret 0 [] \<and> pipe_data (pipe_at s' k) = []
        else if nb then s' = s \<and> io = Ret (- ATM_EAGAIN) []
        else io = Blocked \<and> state (task_at s' i) = TASK_BLOCKED \<and> reader_waiter (pipe_at s' k) = Some i"
proof (cases "pipe_decode (Some i) fd s")
  case None
  then show ?thesis by (simp add: native_pipe_read_def)
next
  case (Some ke)
  obtain k e where d: "pipe_decode (Some i) fd s = Some (k, e)" using Some by (cases ke) auto
  have inv: "pipes_inv s" "sched_inv s" using assms(1) by (auto simp: kern_inv_def)
  note ds = pipe_decode_Some [OF inv(1) assms(4) d]
  have ok: "pipe_ok (pipe_at s k)" "k < length (pipe_pool s)" using pipes_but_at(1,4) [OF inv(1) ds(3)] by auto
  have eq: "native_pipe_read (Some i) fd True cnt nb s =
      (if e \<noteq> ATM_PIPE_READ_END then (s, Ret (-1) []) else if cnt = 0 then (s, Ret 0 []) else pipe_read_pass i k cnt nb s)"
    using d by (simp add: native_pipe_read_def)
  show ?thesis
  proof (cases "pipe_data (pipe_at s k) = []")
    case True
    have "state (task_at (pipe_block i (upd_pipe k (\<lambda>p. p\<lparr>reader_waiter := Some i\<rparr>) s)) i) = TASK_BLOCKED"
      using inv(2) assms(2,3) by (intro pipe_block_state) simp_all
    then show ?thesis using d True no_writers_iff [OF assms(1) ds(3)] ok(2)
      by (simp add: eq pipe_read_pass_empty pipe_at_upd Let_def split: prod.split)
  next
    case False
    show ?thesis using d False pipe_read_pass_data(1,2) [OF ok False, of i cnt nb]
      by (simp add: eq Let_def case_prod_beta)
  qed
qed

theorem pipe_read_contract_witness:
  "snd (native_pipe_read (Some 1) 3 True 10 True demo_piped) = Ret (- ATM_EAGAIN) []"
proof -
  have "pipe_ends demo_piped 0 ATM_PIPE_WRITE_END \<noteq> {}"
    using no_writers_iff(1) [OF demo_piped_facts(1), of 0] demo_piped_facts(6) by (simp add: ATM_PIPE_MAX_def)
  then show ?thesis
    using pipe_read_contract [OF demo_piped_facts(1,2), of 3 10 True] demo_piped_facts(3,5)
    by (auto simp: Let_def pipe_end_simps TASK_MAX_def split: prod.splits)
qed

lemma wake_reader_ready:
  assumes "sched_inv s" "reader_waiter (pipe_at s k) = Some w" "0 < w" "w < TASK_MAX" "state (task_at s w) = TASK_BLOCKED"
  shows "state (task_at (pipe_wake_reader k s) w) = TASK_READY"
proof -
  obtain xs where xs: "sched_ring s xs" using assms(1) by (auto simp: sched_inv_def)
  have len: "w < length (task_pool s)" using xs assms(4) by (simp add: sched_ring_def pool_wf_def)
  have "task_unblock (Some w) s = fst (queue_add (Some w) (set_state w TASK_READY s))"
    using sched_ring_unblock(2) [OF xs assms(4) _ assms(5)] assms(3) by simp
  moreover have "state (task_at (fst (queue_add (Some w) (set_state w TASK_READY s))) w) = TASK_READY"
    using links_only_state(1) [OF links_only_queue_add [of "set_state w TASK_READY s" "Some w"], of w] len
    by (simp add: set_state_def task_at_upd)
  ultimately show ?thesis using assms(2,5) by (simp add: pipe_wake_reader_def)
qed

text \<open>C25. What a write does, on every path: \<open>-1\<close> for a descriptor that is no write end,
  \<open>-EPIPE\<close> when no read end is open in any task, even if there is room; otherwise as many bytes as
  fit are appended to the stream and counted, and the waiting reader, if it is blocked, is made
  \<open>READY\<close>; on a full pipe \<open>-EAGAIN\<close> or blocking as the waiting writer.\<close>
theorem pipe_write_contract:
  assumes "kern_inv s" "current_task s = Some i" "0 < i" "i < TASK_MAX"
  shows "case pipe_decode (Some i) fd s of
      None \<Rightarrow> native_pipe_write (Some i) fd (Some bs) nb s = (s, Ret (-1) [])
    | Some (k, e) \<Rightarrow>
        let (s', io) = native_pipe_write (Some i) fd (Some bs) nb s; d = pipe_data (pipe_at s k);
            room = ATM_PIPE_CAP - length d in
        if e \<noteq> ATM_PIPE_WRITE_END then s' = s \<and> io = Ret (-1) []
        else if bs = [] then s' = s \<and> io = Ret 0 []
        else if pipe_ends s k ATM_PIPE_READ_END = {} then io = Ret (- ATM_PIPE_EPIPE) [] \<and> pipe_data (pipe_at s' k) = d
        else if 0 < room then
          io = Ret (int (min (length bs) room)) [] \<and> pipe_data (pipe_at s' k) = d @ take room bs \<and>
          (\<forall>w. reader_waiter (pipe_at s k) = Some w \<and> state (task_at s w) = TASK_BLOCKED \<longrightarrow>
             state (task_at s' w) = TASK_READY)
        else if nb then s' = s \<and> io = Ret (- ATM_EAGAIN) []
        else io = Blocked \<and> state (task_at s' i) = TASK_BLOCKED \<and> writer_waiter (pipe_at s' k) = Some i"
proof (cases "pipe_decode (Some i) fd s")
  case None
  then show ?thesis by (simp add: native_pipe_write_def)
next
  case (Some ke)
  obtain k e where d: "pipe_decode (Some i) fd s = Some (k, e)" using Some by (cases ke) auto
  have inv: "pipes_inv s" "sched_inv s" "waiters_ok s" using assms(1) by (auto simp: kern_inv_def)
  note ds = pipe_decode_Some [OF inv(1) assms(4) d]
  have ok: "pipe_ok (pipe_at s k)" "k < length (pipe_pool s)" using pipes_but_at(1,4) [OF inv(1) ds(3)] by auto
  have eq: "native_pipe_write (Some i) fd (Some bs) nb s =
      (if e \<noteq> ATM_PIPE_WRITE_END then (s, Ret (-1) []) else if bs = [] then (s, Ret 0 []) else pipe_write_pass i k bs nb s)"
    using d by (simp add: native_pipe_write_def)
  note e = no_writers_iff [OF assms(1) ds(3)]
  show ?thesis
  proof (cases "read_refs (pipe_at s k) = 0 \<or> \<not> length (pipe_data (pipe_at s k)) < ATM_PIPE_CAP")
    case True
    have "state (task_at (pipe_block i (upd_pipe k (\<lambda>p. p\<lparr>writer_waiter := Some i\<rparr>) s)) i) = TASK_BLOCKED"
      using inv(2) assms(2,3) by (intro pipe_block_state) simp_all
    then show ?thesis using d True e ok(2)
      by (auto simp: eq pipe_write_pass_full pipe_at_upd Let_def split: prod.split)
  next
    case False
    then have f: "read_refs (pipe_at s k) \<noteq> 0" "length (pipe_data (pipe_at s k)) < ATM_PIPE_CAP" by auto
    have wake: "state (task_at (fst (pipe_write_pass i k bs nb s)) w) = TASK_READY"
      if w: "reader_waiter (pipe_at s k) = Some w" "state (task_at s w) = TASK_BLOCKED" for w
    proof -
      let ?n = "min (length bs) (ATM_PIPE_CAP - pcount (pipe_at s k))"
      let ?q = "clear_writer i ((pipe_put (take ?n bs) (pipe_at s k))\<lparr>pcount := pcount (pipe_put (take ?n bs) (pipe_at s k)) + ?n\<rparr>)"
      have "pcount (pipe_at s k) + length (take ?n bs) \<le> ATM_PIPE_CAP" using ok(1) by (auto simp: pipe_ok_def)
      then have "reader_waiter ?q = Some w" using pipe_put_queue(3) [OF ok(1)] w(1) by fastforce
      moreover have "0 < w" "w < TASK_MAX" using inv(3) w(1) ds(3) by (auto simp: waiters_ok_def)
      ultimately have "state (task_at (pipe_wake_reader k (upd_pipe k (\<lambda>_. ?q) s)) w) = TASK_READY"
        using inv(2) w(2) ok(2) by (intro wake_reader_ready) (simp_all add: pipe_at_upd)
      then show ?thesis using f by (simp add: pipe_write_pass_def Let_def)
    qed
    show ?thesis using d f e pipe_write_pass_data(1,2) [OF ok f, of i bs nb] wake
      by (simp add: eq Let_def case_prod_beta)
  qed
qed

theorem pipe_write_contract_witness:
  "snd (native_pipe_write (Some 1) 4 (Some [7, 8]) False demo_piped) = Ret 2 []"
proof -
  have "pipe_ends demo_piped 0 ATM_PIPE_READ_END \<noteq> {}"
    using no_writers_iff(2) [OF demo_piped_facts(1), of 0] demo_piped_facts(7) by (simp add: ATM_PIPE_MAX_def)
  then show ?thesis
    using pipe_write_contract [OF demo_piped_facts(1,2), of 4 "[7, 8]" False] demo_piped_facts(4,5)
    by (auto simp: Let_def pipe_end_simps TASK_MAX_def ATM_PIPE_CAP_def split: prod.splits)
qed

text \<open>\<open>poll\<close> tells the truth: on a read end \<open>POLLIN\<close> is reported exactly when a
  non-blocking read would not give \<open>-EAGAIN\<close>, and \<open>POLLHUP\<close> exactly when it would give end of file
  once the data is gone; on a write end the answer is \<open>POLLERR\<close>, \<open>POLLOUT\<close> or nothing as a
  non-blocking write would give \<open>-EPIPE\<close>, accept bytes, or give \<open>-EAGAIN\<close>.\<close>
theorem pipe_poll_agrees:
  assumes "pipe_decode (Some i) fd s = Some (k, e)" "cnt \<noteq> 0" "bs \<noteq> []"
  shows "(e = ATM_PIPE_READ_END \<longrightarrow>
      (native_pipe_poll (Some i) fd ATM_POLLIN s AND ATM_POLLIN \<noteq> 0 \<longleftrightarrow>
         snd (native_pipe_read (Some i) fd True cnt True s) \<noteq> Ret (- ATM_EAGAIN) []) \<and>
      (native_pipe_poll (Some i) fd ATM_POLLIN s AND ATM_POLLHUP \<noteq> 0 \<longleftrightarrow> write_refs (pipe_at s k) = 0)) \<and>
    (e = ATM_PIPE_WRITE_END \<longrightarrow>
      native_pipe_poll (Some i) fd ATM_POLLOUT s =
        (case snd (native_pipe_write (Some i) fd (Some bs) True s) of
           Ret n _ \<Rightarrow> if n = - ATM_PIPE_EPIPE then ATM_POLLERR else if n = - ATM_EAGAIN then 0 else ATM_POLLOUT
         | Blocked \<Rightarrow> 0))"
proof -
  have b: "ATM_POLLIN AND ATM_POLLIN = 1" "ATM_POLLOUT AND ATM_POLLOUT \<noteq> 0" "ATM_POLLHUP AND ATM_POLLIN = 0"
    "ATM_POLLIN AND ATM_POLLHUP = 0" "ATM_POLLHUP AND ATM_POLLHUP = ATM_POLLHUP" "ATM_POLLHUP \<noteq> 0"
    by (simp_all add: ATM_POLLIN_def ATM_POLLOUT_def ATM_POLLHUP_def)
  have r: "snd (native_pipe_read (Some i) fd True cnt True s) = Ret (- ATM_EAGAIN) [] \<longleftrightarrow>
      pcount (pipe_at s k) = 0 \<and> write_refs (pipe_at s k) \<noteq> 0" if "e = ATM_PIPE_READ_END"
    using that assms by (auto simp: native_pipe_read_def pipe_read_pass_def Let_def case_prod_beta ATM_EAGAIN_def)
  have "min (length bs) (ATM_PIPE_CAP - pcount (pipe_at s k)) = n \<Longrightarrow> int n \<noteq> - 11 \<and> int n \<noteq> - 32" for n by linarith
  then have w: "e = ATM_PIPE_WRITE_END \<Longrightarrow> native_pipe_poll (Some i) fd ATM_POLLOUT s =
      (case snd (native_pipe_write (Some i) fd (Some bs) True s) of
         Ret n _ \<Rightarrow> if n = - ATM_PIPE_EPIPE then ATM_POLLERR else if n = - ATM_EAGAIN then 0 else ATM_POLLOUT
       | Blocked \<Rightarrow> 0)"
    using assms b by (auto simp: native_pipe_write_def pipe_write_pass_def native_pipe_poll_def Let_def pipe_end_simps
        ATM_EAGAIN_def ATM_PIPE_EPIPE_def)
  show ?thesis using assms r w b
    by (auto simp: native_pipe_poll_def Let_def bit.conj_disj_distrib2)
qed

theorem pipe_poll_agrees_witness:
  "native_pipe_poll (Some 1) 3 ATM_POLLIN demo_piped AND ATM_POLLIN = 0"
proof -
  have "snd (native_pipe_read (Some 1) 3 True 10 True demo_piped) = Ret (- ATM_EAGAIN) []"
    using demo_piped_facts(3,5,6) by (simp add: native_pipe_read_def pipe_read_pass_empty pipe_end_simps)
  then show ?thesis
    using pipe_poll_agrees [OF demo_piped_facts(3), of 10 "[0]"] by (simp add: pipe_end_simps)
qed

lemma pipe_block_other:
  assumes "sched_inv s" "current_task s = Some j" "0 < j" "0 < i" "i < TASK_MAX" "i \<noteq> j" "state (task_at s i) = TASK_BLOCKED"
  shows "state (task_at (pipe_block j s) i) = TASK_BLOCKED"
proof -
  let ?r = "queue_remove (Some j) (set_state j TASK_BLOCKED s)"
  have j: "j < TASK_MAX" "sched_core s" "state (task_at s j) \<noteq> TASK_UNUSED" using assms by (auto simp: sched_inv_core)
  note st = sched_core_stop [OF j(2,1) less_imp_neq [OF assms(3), symmetric] disjI1 [OF refl] j(3)]
  obtain xs where xs: "sched_ring ?r xs" using st(1) by (auto simp: sched_core_def)
  have p: "pick_successor ?r < length (task_pool ?r)" "pick_successor ?r \<noteq> i"
    using pick_successor_ok [OF xs] xs st(2) [OF assms(5)] assms(4,6,7) by (auto simp: sched_ring_def ring_def pool_wf_def)
  show ?thesis using p assms(2,6,7) st(2) [OF assms(5)]
    by (simp add: pipe_block_def task_block_def task_block_from_syscall_def Let_def switch_to_state)
qed

text \<open>A pipe remembers one waiting reader only.  When a second task that shares the read end
  (by \<open>native_pipe_inherit\<close>) blocks on the empty pipe it replaces the first one, and the write that
  follows leaves the first reader \<open>BLOCKED\<close> although the pipe holds data: no pipe names it as a
  waiter any more.\<close>
theorem pipe_second_reader_lost:
  assumes "kern_inv s" "k < ATM_PIPE_MAX" "reader_waiter (pipe_at s k) = Some i" "state (task_at s i) = TASK_BLOCKED"
    "current_task s = Some j" "j \<noteq> 0" "j \<noteq> i" "pipe_data (pipe_at s k) = []" "write_refs (pipe_at s k) \<noteq> 0"
    "read_refs (pipe_at s k) \<noteq> 0" "bs \<noteq> []"
  shows "let s1 = fst (pipe_read_pass j k cnt False s); s2 = fst (pipe_write_pass w k bs nb s1) in
    state (task_at s2 i) = TASK_BLOCKED \<and> pipe_data (pipe_at s2 k) \<noteq> [] \<and> reader_waiter (pipe_at s1 k) = Some j"
proof -
  let ?w = "upd_pipe k (\<lambda>p. p\<lparr>reader_waiter := Some j\<rparr>) s"
  define s1 where "s1 = pipe_block j ?w"
  have inv: "pipes_inv s" "sched_inv s" "waiters_ok s" using assms(1) by (auto simp: kern_inv_def)
  have i: "0 < i" "i < TASK_MAX" and j: "0 < j" "j < TASK_MAX"
    using inv(2,3) assms(2,3,5,6) by (auto simp: waiters_ok_def sched_inv_def)
  have r: "fst (pipe_read_pass j k cnt False s) = s1" using assms(8,9) by (simp add: pipe_read_pass_empty s1_def)
  have k1: "kern_inv s1" using kern_inv_read_pass [OF assms(1,2,5) j, of cnt False] r by simp
  have ok: "pipe_ok (pipe_at s k)" "k < length (pipe_pool s)" using pipes_but_at(1,4) [OF inv(1) assms(2)] by auto
  have p1: "pipe_at s1 k = (pipe_at s k)\<lparr>reader_waiter := Some j\<rparr>" using ok(2) by (simp add: s1_def pipe_at_upd)
  have st: "state (task_at s1 i) = TASK_BLOCKED"
    unfolding s1_def using inv(2) assms(4,5,7) i j by (intro pipe_block_other) simp_all
  have wf: "length (task_pool s1) = TASK_MAX" using k1 by (auto simp: kern_inv_def pipes_but_def pool_wf_def)
  have ok1: "pipe_ok (pipe_at s1 k)" "k < length (pipe_pool s1)" "pipe_data (pipe_at s1 k) = []" "read_refs (pipe_at s1 k) \<noteq> 0"
    using ok assms(8,10) by (simp_all add: p1 pipe_ok_def pipe_data_def) (simp add: s1_def)
  then have room: "length (pipe_data (pipe_at s1 k)) < ATM_PIPE_CAP" by (simp add: ATM_PIPE_CAP_def)
  have d: "pipe_data (pipe_at (fst (pipe_write_pass w k bs nb s1)) k) \<noteq> []"
    using pipe_write_pass_data(2) [OF ok1(1,2,4) room, of w bs nb] ok1(3) assms(11) by (simp add: ATM_PIPE_CAP_def)
  obtain q where q: "fst (pipe_write_pass w k bs nb s1) = pipe_wake_reader k (upd_pipe k (\<lambda>_. q) s1)" "reader_waiter q = Some j"
  proof -
    let ?n = "min (length bs) (ATM_PIPE_CAP - pcount (pipe_at s1 k))"
    let ?q = "clear_writer w ((pipe_put (take ?n bs) (pipe_at s1 k))\<lparr>pcount := pcount (pipe_put (take ?n bs) (pipe_at s1 k)) + ?n\<rparr>)"
    have "pcount (pipe_at s1 k) + length (take ?n bs) \<le> ATM_PIPE_CAP" using ok1(1) by (auto simp: pipe_ok_def)
    then have "reader_waiter ?q = Some j" using pipe_put_queue(3) [OF ok1(1)] p1 by fastforce
    moreover have "fst (pipe_write_pass w k bs nb s1) = pipe_wake_reader k (upd_pipe k (\<lambda>_. ?q) s1)"
      using ok1(4) room by (simp add: pipe_write_pass_def Let_def)
    ultimately show ?thesis using that by blast
  qed
  have "state (task_at (pipe_wake_reader k (upd_pipe k (\<lambda>_. q) s1)) i) = TASK_BLOCKED"
    using q(2) st ok1(2) i j assms(7) wf by (simp add: pipe_wake_reader_def pipe_at_upd task_unblock_other)
  then show ?thesis unfolding Let_def r using d q(1) p1 by simp
qed

text \<open>Task 1 blocks on its empty pipe and task 2 becomes current.\<close>
definition demo_waiting :: pipes where
  "demo_waiting = fst (pipe_read_pass 1 0 5 False demo_piped)"

lemma demo_waiting_eq: "demo_waiting = pipe_block 1 (upd_pipe 0 (\<lambda>p. p\<lparr>reader_waiter := Some 1\<rparr>) demo_piped)"
  using demo_piped_facts(5,6) by (simp add: demo_waiting_def pipe_read_pass_empty)

lemma demo_waiting_facts:
  "kern_inv demo_waiting" "reader_waiter (pipe_at demo_waiting 0) = Some 1" "state (task_at demo_waiting 1) = TASK_BLOCKED"
  "current_task demo_waiting = Some 2" "pipe_data (pipe_at demo_waiting 0) = []" "write_refs (pipe_at demo_waiting 0) = 1"
  "read_refs (pipe_at demo_waiting 0) = 1"
proof -
  let ?w = "upd_pipe 0 (\<lambda>p. p\<lparr>reader_waiter := Some 1\<rparr>) demo_piped"
  have l: "0 < length (pipe_pool demo_piped)" using demo_piped_facts(1) by (simp add: kern_inv_def pipes_but_def ATM_PIPE_MAX_def)
  show "kern_inv demo_waiting" unfolding demo_waiting_def
    using demo_piped_facts(1,2) by (intro kern_inv_read_pass) (simp_all add: ATM_PIPE_MAX_def TASK_MAX_def)
  have p: "pipe_at demo_waiting 0 = (pipe_at demo_piped 0)\<lparr>reader_waiter := Some 1\<rparr>"
    using l by (simp add: demo_waiting_eq pipe_at_upd)
  show "reader_waiter (pipe_at demo_waiting 0) = Some 1" "write_refs (pipe_at demo_waiting 0) = 1"
    "read_refs (pipe_at demo_waiting 0) = 1" "pipe_data (pipe_at demo_waiting 0) = []"
    using demo_piped_facts(5-7) by (simp_all add: p pipe_data_def)
  have i: "sched_inv ?w" "current_task ?w = Some 1" using demo_piped_facts(1,2) by (simp_all add: kern_inv_def)
  show "state (task_at demo_waiting 1) = TASK_BLOCKED"
    unfolding demo_waiting_eq by (rule pipe_block_state [OF i]) simp
  let ?b = "set_state 1 TASK_BLOCKED ?w" and ?r = "queue_remove (Some 1) (set_state 1 TASK_BLOCKED ?w)"
  have at: "state (task_at demo_piped j) = state (task_at demo_sched j)" "pid (task_at demo_piped j) = pid (task_at demo_sched j)"
    "address_space (task_at demo_piped j) = address_space (task_at demo_sched j)"
    "next_task (task_at demo_piped j) = next_task (task_at demo_sched j)" if "j < TASK_MAX" for j
    using that by (simp_all add: demo_piped_eq set_pipe_map_def task_at_upd_field demo_pool_len)
  have h: "run_queue_head ?w = Some 1" by (simp add: demo_piped_eq set_pipe_map_def)
  have wf: "pool_wf ?w" using i(1) by (auto simp: sched_inv_def sched_ring_def)
  have "links ?w [1, 2, 3] 1 = links demo_sched [1, 2, 3] 1" by (rule links_cong) (auto simp: at TASK_MAX_def)
  then have ring: "ring ?w [1, 2, 3]" using demo_ring h by (simp add: sched_ring_def ring_def)
  have "ring ?r [2, 3]" using queue_remove_ring [of ?b "[1, 2, 3]" 1] ring wf by simp
  then have hd: "run_queue_head ?r = Some 2" by (simp add: ring_def)
  have lo: "links_only ?b ?r" by simp
  have "state (task_at ?r 2) = TASK_READY"
    using links_only_state(1) [OF lo, of 2] wf at(1) [of 2]
    by (simp add: state_set_state pool_wf_def TASK_MAX_def set_state_def task_at_upd) (simp add: demo_sched_def)
  then have "pick_successor ?r = 2" using hd by (simp add: pick_successor_def ready_scan.simps [of _ 2])
  moreover have "pid (task_at ?w 1) \<noteq> 0" "address_space (task_at ?w 1) \<noteq> 0"
    using at(2,3) [of 1] by (simp_all add: TASK_MAX_def) (simp_all add: demo_sched_def)
  ultimately show "current_task demo_waiting = Some 2"
    using i(2) by (simp add: demo_waiting_eq pipe_block_def task_block_from_syscall_def Let_def switch_to_def)
qed

theorem pipe_second_reader_lost_witness:
  "state (task_at (fst (pipe_write_pass 3 0 [9] False (fst (pipe_read_pass 2 0 1 False demo_waiting)))) 1) = TASK_BLOCKED"
  using pipe_second_reader_lost [OF demo_waiting_facts(1) _ demo_waiting_facts(2-4) _ _ demo_waiting_facts(5), of "[9]" 1 3 False]
    demo_waiting_facts(6,7) by (simp add: Let_def ATM_PIPE_MAX_def)

end
