(* ===== verification/Vfs.thy ===== *)
theory Vfs
  imports Prelude
begin

unbundle bit_operations_syntax

section \<open>The virtual file system: \<open>src/src/vfs.c\<close>\<close>

text \<open>
  Inodes live in a store indexed by address; a \<open>vfs_inode_t *\<close> is the address, \<open>None\<close> for
  \<open>NULL\<close>, and freeing an inode removes it from the store.  A directory's private data is the list of
  its entries in the order of the C list (newest first) with the separate \<open>count\<close> field; a file's is the allocated
  buffer, the size and the capacity.  The tables of function pointers are the constructors of
  \<open>fsops\<close>: an operation is \<open>NULL\<close> where the model has no case for the constructor.

  Every allocation asks \<open>alloc_ok\<close>, the outcome of the kernel heap, so that the out-of-memory
  paths are branches of the model.  Character arrays are strings of any length: the fixed sizes of the
  path buffers are not modelled.  A write outside an allocated buffer sets \<open>fault\<close>.
\<close>

subsection \<open>Data\<close>

definition S_IFMT :: u32 where "S_IFMT = 0xF000"
definition S_IFREG :: u32 where "S_IFREG = 0x8000"
definition S_IFDIR :: u32 where "S_IFDIR = 0x4000"
definition S_IFLNK :: u32 where "S_IFLNK = 0xA000"
definition S_IFCHR :: u32 where "S_IFCHR = 0x2000"
definition S_IFBLK :: u32 where "S_IFBLK = 0x6000"
definition S_ISREG :: "u32 \<Rightarrow> bool" where "S_ISREG m \<longleftrightarrow> m AND S_IFMT = S_IFREG"
definition S_ISDIR :: "u32 \<Rightarrow> bool" where "S_ISDIR m \<longleftrightarrow> m AND S_IFMT = S_IFDIR"
definition S_ISLNK :: "u32 \<Rightarrow> bool" where "S_ISLNK m \<longleftrightarrow> m AND S_IFMT = S_IFLNK"
definition S_ISCHR :: "u32 \<Rightarrow> bool" where "S_ISCHR m \<longleftrightarrow> m AND S_IFMT = S_IFCHR"
definition MODE_FILE :: u32 where "MODE_FILE = S_IFREG OR 0x1A4"
definition MODE_DIR :: u32 where "MODE_DIR = S_IFDIR OR 0x1ED"
definition MODE_LINK :: u32 where "MODE_LINK = S_IFLNK OR 0x1FF"
definition PERM_R :: u32 where "PERM_R = 4"
definition PERM_W :: u32 where "PERM_W = 2"
definition PERM_X :: u32 where "PERM_X = 1"
definition O_RDONLY :: u32 where "O_RDONLY = 0"
definition O_WRONLY :: u32 where "O_WRONLY = 1"
definition O_RDWR :: u32 where "O_RDWR = 2"
definition O_ACCMODE :: u32 where "O_ACCMODE = 3"
definition O_CREAT :: u32 where "O_CREAT = 0x40"
definition O_EXCL :: u32 where "O_EXCL = 0x80"
definition O_TRUNC :: u32 where "O_TRUNC = 0x200"
definition O_APPEND :: u32 where "O_APPEND = 0x400"
definition O_NOFOLLOW :: u32 where "O_NOFOLLOW = 0x800"
definition O_CLOEXEC :: u32 where "O_CLOEXEC = 0x2000"
definition ENOENT :: int where "ENOENT = 2"
definition EACCES :: int where "EACCES = 13"
definition EEXIST :: int where "EEXIST = 17"
definition ENOTDIR :: int where "ENOTDIR = 20"
definition EISDIR :: int where "EISDIR = 21"
definition EINVAL :: int where "EINVAL = 22"
definition EMFILE :: int where "EMFILE = 24"
definition ENOSPC :: int where "ENOSPC = 28"
definition ENOTEMPTY :: int where "ENOTEMPTY = 39"
definition ELOOP :: int where "ELOOP = 40"
definition VFS_NAME_MAX :: nat where "VFS_NAME_MAX = 255"
definition VFS_PATH_MAX :: nat where "VFS_PATH_MAX = 1024"
definition FD_MAX :: nat where "FD_MAX = 64"
definition VFS_SYMLINK_MAX :: nat where "VFS_SYMLINK_MAX = 8"
definition MOUNT_MAX :: nat where "MOUNT_MAX = 32"

datatype proc_file = Proc_version | Proc_cmdline | Proc_uptime | Proc_meminfo | Proc_cpuinfo | Proc_mounts

datatype fsops = Ramfs_ops | Ramfs_dir_ops | Dev_null_ops | Dev_zero_ops | Dev_random_ops | Proc_ops proc_file

record ramfs_file =
  fdata :: "u8 list"
  fsize :: nat
  fcapacity :: nat

datatype priv = No_priv | Dir_priv "(string \<times> nat) list" u32 | File_priv ramfs_file | Link_priv string

record vinode =
  ino :: u64
  imode :: u32
  iuid :: u32
  igid :: u32
  nlink :: u32
  isize :: nat
  atime :: u64
  mtime :: u64
  ctime :: u64
  ops :: fsops
  ipriv :: priv
  mountpoint :: "nat option"
  refcount :: int

record vfs_fd =
  finode :: nat
  foffset :: nat
  fflags :: u32
  fused :: bool
  fcloexec :: bool
  fpath :: string

record vfs =
  inodes :: "nat \<Rightarrow> vinode option"
  next_addr :: nat
  next_ino :: u64
  g_session_uid :: u32
  g_session_gid :: u32
  g_root :: "nat option"
  g_mounts :: "(string \<times> nat) list"
  g_fds :: "vfs_fd list"
  verrno :: int
  pit_ticks :: u32
  rng :: u32
  heap_free :: u32
  heap_used :: u32
  alloc_ok :: "nat \<Rightarrow> bool"
  allocs :: nat
  fault :: bool

definition zero_inode :: vinode where
  "zero_inode = \<lparr>ino = 0, imode = 0, iuid = 0, igid = 0, nlink = 0, isize = 0, atime = 0, mtime = 0, ctime = 0,
     ops = Ramfs_ops, ipriv = No_priv, mountpoint = None, refcount = 0\<rparr>"

definition zero_fd :: vfs_fd where
  "zero_fd = \<lparr>finode = 0, foffset = 0, fflags = 0, fused = False, fcloexec = False, fpath = ''''\<rparr>"

text \<open>Dereferencing an inode; a freed one reads as zeroes.\<close>
definition inode_at :: "vfs \<Rightarrow> nat \<Rightarrow> vinode" where
  "inode_at s i = (case inodes s i of None \<Rightarrow> zero_inode | Some n \<Rightarrow> n)"

text \<open>Writing to an inode; a write to a freed one is a fault.\<close>
definition upd_inode :: "nat \<Rightarrow> (vinode \<Rightarrow> vinode) \<Rightarrow> vfs \<Rightarrow> vfs" where
  "upd_inode i f s =
     (case inodes s i of
        None \<Rightarrow> s\<lparr>fault := True\<rparr>
      | Some n \<Rightarrow> s\<lparr>inodes := (inodes s)(i \<mapsto> f n)\<rparr>)"

text \<open>One call of \<open>kmalloc\<close>: did it succeed?\<close>
definition kalloc :: "vfs \<Rightarrow> vfs \<times> bool" where
  "kalloc s = (s\<lparr>allocs := allocs s + 1\<rparr>, alloc_ok s (allocs s))"

definition set_errno :: "int \<Rightarrow> vfs \<Rightarrow> vfs" where
  "set_errno e s = s\<lparr>verrno := e\<rparr>"

subsection \<open>Credentials, time, permissions, reference counts\<close>

definition vfs_set_credentials :: "u32 \<Rightarrow> u32 \<Rightarrow> vfs \<Rightarrow> vfs" where
  "vfs_set_credentials u g s = s\<lparr>g_session_uid := u, g_session_gid := g\<rparr>"

definition now :: "vfs \<Rightarrow> u64" where
  "now s = ucast (pit_ticks s div 100)"

definition inode_touch_a :: "nat \<Rightarrow> vfs \<Rightarrow> vfs" where
  "inode_touch_a i s = upd_inode i (\<lambda>n. n\<lparr>atime := now s\<rparr>) s"

definition inode_touch_m :: "nat \<Rightarrow> vfs \<Rightarrow> vfs" where
  "inode_touch_m i s = upd_inode i (\<lambda>n. n\<lparr>mtime := now s, ctime := now s\<rparr>) s"

definition vfs_access :: "vfs \<Rightarrow> nat option \<Rightarrow> u32 \<Rightarrow> bool" where
  "vfs_access s i wanted =
     (case i of
        None \<Rightarrow> False
      | Some a \<Rightarrow>
          if g_session_uid s = 0 then True
          else
            (let n = inode_at s a;
                 bits = (if g_session_uid s = iuid n then drop_bit 6 (imode n) AND 7
                         else if g_session_gid s = igid n then drop_bit 3 (imode n) AND 7
                         else imode n AND 7)
             in bits AND wanted = wanted))"

definition vfs_require :: "nat option \<Rightarrow> u32 \<Rightarrow> vfs \<Rightarrow> vfs \<times> int" where
  "vfs_require i wanted s = (if vfs_access s i wanted then (s, 0) else (set_errno EACCES s, -1))"

definition inode_alloc :: "fsops \<Rightarrow> u32 \<Rightarrow> priv \<Rightarrow> vfs \<Rightarrow> vfs \<times> nat option" where
  "inode_alloc op m p s =
     (let (s1, ok) = kalloc s in
      if \<not> ok then (s1, None)
      else
        (let n = zero_inode\<lparr>ino := next_ino s1, imode := m, iuid := g_session_uid s1, igid := g_session_gid s1,
                   nlink := 1, ops := op, ipriv := p, refcount := 1, atime := now s1, mtime := now s1, ctime := now s1\<rparr>
         in (s1\<lparr>inodes := (inodes s1)(next_addr s1 \<mapsto> n), next_addr := next_addr s1 + 1,
                next_ino := next_ino s1 + 1\<rparr>, Some (next_addr s1))))"

definition inode_ref :: "nat \<Rightarrow> vfs \<Rightarrow> vfs" where
  "inode_ref i s = upd_inode i (\<lambda>n. n\<lparr>refcount := refcount n + 1\<rparr>) s"

text \<open>\<open>destroy\<close> only frees private data, which goes with the inode here; the references that
  a directory's entries hold are not given back.\<close>
definition inode_unref :: "nat \<Rightarrow> vfs \<Rightarrow> vfs" where
  "inode_unref i s =
     (let s1 = upd_inode i (\<lambda>n. n\<lparr>refcount := refcount n - 1\<rparr>) s
      in if refcount (inode_at s1 i) \<le> 0 then s1\<lparr>inodes := (inodes s1)(i := None)\<rparr> else s1)"

definition unref_opt :: "nat option \<Rightarrow> vfs \<Rightarrow> vfs" where
  "unref_opt i s = (case i of None \<Rightarrow> s | Some a \<Rightarrow> inode_unref a s)"

subsection \<open>Directory entries\<close>

definition dentries :: "vfs \<Rightarrow> nat \<Rightarrow> (string \<times> nat) list" where
  "dentries s d = (case ipriv (inode_at s d) of Dir_priv es c \<Rightarrow> es | _ \<Rightarrow> [])"

definition dcount :: "vfs \<Rightarrow> nat \<Rightarrow> u32" where
  "dcount s d = (case ipriv (inode_at s d) of Dir_priv es c \<Rightarrow> c | _ \<Rightarrow> 0)"

definition set_dentries :: "nat \<Rightarrow> (string \<times> nat) list \<Rightarrow> u32 \<Rightarrow> vfs \<Rightarrow> vfs" where
  "set_dentries d es c s = upd_inode d (\<lambda>n. n\<lparr>ipriv := Dir_priv es c\<rparr>) s"

definition dentry_find :: "vfs \<Rightarrow> nat \<Rightarrow> string \<Rightarrow> nat option" where
  "dentry_find s d name = map_of (dentries s d) name"

definition dentry_add :: "nat \<Rightarrow> string \<Rightarrow> nat \<Rightarrow> vfs \<Rightarrow> vfs \<times> int" where
  "dentry_add d name i s =
     (if dentry_find s d name \<noteq> None then (s, - EEXIST)
      else
        (let (s1, ok) = kalloc s in
         if \<not> ok then (s1, - ENOSPC)
         else
           (let s2 = inode_ref i s1
            in (set_dentries d ((name, i) # dentries s2 d) (dcount s2 d + 1) s2, 0))))"

text \<open>The first entry of that name, as the pointer walk removes it.\<close>
fun remove_entry :: "string \<Rightarrow> (string \<times> nat) list \<Rightarrow> (string \<times> nat) list" where
  "remove_entry name [] = []"
| "remove_entry name ((n, i) # es) = (if n = name then es else (n, i) # remove_entry name es)"

text \<open>The reference is given up before the count is decremented, and the directory itself may be the inode
  that the reference kept alive.\<close>
definition dentry_remove :: "nat \<Rightarrow> string \<Rightarrow> vfs \<Rightarrow> vfs \<times> int" where
  "dentry_remove d name s =
     (case dentry_find s d name of
        None \<Rightarrow> (s, - ENOENT)
      | Some i \<Rightarrow>
          (let s1 = set_dentries d (remove_entry name (dentries s d)) (dcount s d) s;
               s2 = inode_unref i s1
           in (set_dentries d (dentries s2 d) (dcount s2 d - 1) s2, 0)))"

subsection \<open>ramfs: directories\<close>

text \<open>The results are the state, the return value and the inode stored through \<open>out\<close>.\<close>
definition ramfs_lookup :: "nat \<Rightarrow> string \<Rightarrow> vfs \<Rightarrow> vfs \<times> int \<times> nat option" where
  "ramfs_lookup d name s =
     (if name = ''.'' then (inode_ref d s, 0, Some d)
      else if name = ''..'' then (inode_ref d s, 0, Some d)
      else case dentry_find s d name of
             None \<Rightarrow> (s, - ENOENT, None)
           | Some i \<Rightarrow> (inode_ref i s, 0, Some i))"

text \<open>\<open>want\<close> says whether the caller passes an \<open>out\<close> pointer.\<close>
definition ramfs_create_impl :: "nat \<Rightarrow> string \<Rightarrow> u32 \<Rightarrow> bool \<Rightarrow> vfs \<Rightarrow> vfs \<times> int \<times> nat option" where
  "ramfs_create_impl d name m want s =
     (if dentry_find s d name \<noteq> None then (s, - EEXIST, None)
      else
        (let (s1, ok) = kalloc s in
         if \<not> ok then (s1, - ENOSPC, None)
         else
           (case inode_alloc Ramfs_ops m (File_priv \<lparr>fdata = [], fsize = 0, fcapacity = 0\<rparr>) s1 of
              (s2, None) \<Rightarrow> (s2, - ENOSPC, None)
            | (s2, Some i) \<Rightarrow>
                (let (s3, r) = dentry_add d name i s2 in
                 if r < 0 then (inode_unref i s3, r, None)
                 else
                   (let s4 = inode_touch_m d s3;
                        s5 = (if want then inode_ref i s4 else s4)
                    in (inode_unref i s5, 0, if want then Some i else None))))))"

definition ramfs_mkdir_impl :: "nat \<Rightarrow> string \<Rightarrow> u32 \<Rightarrow> bool \<Rightarrow> vfs \<Rightarrow> vfs \<times> int \<times> nat option" where
  "ramfs_mkdir_impl d name m want s =
     (if dentry_find s d name \<noteq> None then (s, - EEXIST, None)
      else
        (let (s1, ok) = kalloc s in
         if \<not> ok then (s1, - ENOSPC, None)
         else
           (case inode_alloc Ramfs_dir_ops (m OR S_IFDIR) (Dir_priv [] 0) s1 of
              (s2, None) \<Rightarrow> (s2, - ENOSPC, None)
            | (s2, Some i) \<Rightarrow>
                (let s3 = upd_inode i (\<lambda>n. n\<lparr>nlink := 2\<rparr>) s2;
                     s4 = fst (dentry_add i ''.'' i s3);
                     s5 = fst (dentry_add i ''..'' d s4);
                     (s6, r) = dentry_add d name i s5
                 in if r < 0 then (inode_unref i s6, r, None)
                    else
                      (let s7 = inode_touch_m d (upd_inode d (\<lambda>n. n\<lparr>nlink := nlink n + 1\<rparr>) s6);
                           s8 = (if want then inode_ref i s7 else s7)
                       in (inode_unref i s8, 0, if want then Some i else None))))))"

definition ramfs_unlink_impl :: "nat \<Rightarrow> string \<Rightarrow> vfs \<Rightarrow> vfs \<times> int" where
  "ramfs_unlink_impl d name s =
     (case dentry_find s d name of
        None \<Rightarrow> (s, - ENOENT)
      | Some i \<Rightarrow>
          if S_ISDIR (imode (inode_at s i)) then (s, - EISDIR)
          else
            (let s1 = upd_inode i (\<lambda>n. n\<lparr>nlink := nlink n - 1\<rparr>) s;
                 (s2, r) = dentry_remove d name s1
             in (inode_touch_m d s2, r)))"

definition ramfs_rmdir_impl :: "nat \<Rightarrow> string \<Rightarrow> vfs \<Rightarrow> vfs \<times> int" where
  "ramfs_rmdir_impl d name s =
     (case dentry_find s d name of
        None \<Rightarrow> (s, - ENOENT)
      | Some i \<Rightarrow>
          if \<not> S_ISDIR (imode (inode_at s i)) then (s, - ENOTDIR)
          else if dcount s i > 2 then (s, - ENOTEMPTY)
          else
            (let s1 = upd_inode d (\<lambda>n. n\<lparr>nlink := nlink n - 1\<rparr>) (upd_inode i (\<lambda>n. n\<lparr>nlink := nlink n - 1\<rparr>) s);
                 (s2, r) = dentry_remove d name s1
             in (inode_touch_m d s2, r)))"

definition ramfs_link_impl :: "nat \<Rightarrow> string \<Rightarrow> nat \<Rightarrow> vfs \<Rightarrow> vfs \<times> int" where
  "ramfs_link_impl d name t s =
     (if S_ISDIR (imode (inode_at s t)) then (s, - EISDIR)
      else
        (let (s1, r) = dentry_add d name t s
         in if r = 0 then (inode_touch_m d (upd_inode t (\<lambda>n. n\<lparr>nlink := nlink n + 1\<rparr>) s1), r) else (s1, r)))"

definition ramfs_symlink_impl :: "nat \<Rightarrow> string \<Rightarrow> string \<Rightarrow> vfs \<Rightarrow> vfs \<times> int" where
  "ramfs_symlink_impl d name target s =
     (if dentry_find s d name \<noteq> None then (s, - EEXIST)
      else
        (let (s1, ok) = kalloc s in
         if \<not> ok then (s1, - ENOSPC)
         else
           (case inode_alloc Ramfs_ops MODE_LINK (Link_priv target) s1 of
              (s2, None) \<Rightarrow> (s2, - ENOSPC)
            | (s2, Some i) \<Rightarrow>
                (let s3 = upd_inode i (\<lambda>n. n\<lparr>isize := length target\<rparr>) s2;
                     (s4, r) = dentry_add d name i s3
                 in if r < 0 then (inode_unref i s4, r) else (inode_unref i (inode_touch_m d s4), 0)))))"

text \<open>\<open>sz\<close> is the size of the caller's buffer; the result is the string stored there.\<close>
definition ramfs_readlink_impl :: "nat \<Rightarrow> nat \<Rightarrow> vfs \<Rightarrow> int \<times> string" where
  "ramfs_readlink_impl i sz s =
     (if \<not> S_ISLNK (imode (inode_at s i)) then (- EINVAL, '''')
      else
        (let target = (case ipriv (inode_at s i) of Link_priv t \<Rightarrow> t | _ \<Rightarrow> '''');
             n = (if length target \<ge> sz then sz - 1 else length target)
         in (int n, take n target)))"

record vfs_dirent =
  de_ino :: u64
  d_type :: nat
  de_name :: string

definition DT_CHR :: nat where "DT_CHR = 2"
definition DT_DIR :: nat where "DT_DIR = 4"
definition DT_REG :: nat where "DT_REG = 8"
definition DT_LNK :: nat where "DT_LNK = 10"

definition ramfs_readdir_impl :: "nat \<Rightarrow> nat \<Rightarrow> vfs \<Rightarrow> vfs_dirent option" where
  "ramfs_readdir_impl d index s =
     (if index < length (dentries s d) then
        (let (name, i) = dentries s d ! index; m = imode (inode_at s i)
         in Some \<lparr>de_ino = ino (inode_at s i),
              d_type = (if S_ISDIR m then DT_DIR else if S_ISLNK m then DT_LNK else if S_ISCHR m then DT_CHR else DT_REG),
              de_name = name\<rparr>)
      else None)"

text \<open>Only the old directory's operations are looked up, so that the new one need not be a directory; its private
  data is then used as one, which is a fault.\<close>
definition has_dir_priv :: "vfs \<Rightarrow> nat \<Rightarrow> bool" where
  "has_dir_priv s d = (case ipriv (inode_at s d) of Dir_priv es c \<Rightarrow> True | _ \<Rightarrow> False)"

definition ramfs_rename_impl :: "nat \<Rightarrow> string \<Rightarrow> nat \<Rightarrow> string \<Rightarrow> vfs \<Rightarrow> vfs \<times> int" where
  "ramfs_rename_impl od old_name nd new_name s =
     (case dentry_find s od old_name of
        None \<Rightarrow> (s, - ENOENT)
      | Some t \<Rightarrow>
          (let s1 = inode_ref t s;
               s2 = fst (dentry_remove od old_name s1)
           in if \<not> has_dir_priv s nd then (s2\<lparr>fault := True\<rparr>, - EINVAL)
           else (let
               s3 = (if dentry_find s2 nd new_name \<noteq> None then fst (dentry_remove nd new_name s2) else s2);
               (s4, r) = dentry_add nd new_name t s3;
               s5 = inode_unref t s4
           in (inode_touch_m nd (inode_touch_m od s5), r))))"

subsection \<open>ramfs: files\<close>

definition file_of :: "vfs \<Rightarrow> nat \<Rightarrow> ramfs_file option" where
  "file_of s i = (case ipriv (inode_at s i) of File_priv f \<Rightarrow> Some f | _ \<Rightarrow> None)"

definition set_file :: "nat \<Rightarrow> ramfs_file \<Rightarrow> vfs \<Rightarrow> vfs" where
  "set_file i f s = upd_inode i (\<lambda>n. n\<lparr>ipriv := File_priv f\<rparr>) s"

definition char_byte :: "char \<Rightarrow> u8" where
  "char_byte c = word_of_nat (of_char c)"

definition ramfs_read_impl :: "nat \<Rightarrow> nat \<Rightarrow> nat \<Rightarrow> vfs \<Rightarrow> vfs \<times> int \<times> u8 list" where
  "ramfs_read_impl i off sz s =
     (if S_ISLNK (imode (inode_at s i)) then
        (let t = (case ipriv (inode_at s i) of Link_priv t \<Rightarrow> t | _ \<Rightarrow> '''') in
         if off \<ge> length t then (s, 0, [])
         else
           (let n = min sz (length t - off)
            in (s, int n, map char_byte (take n (drop off t)))))
      else
        (case file_of s i of
           None \<Rightarrow> (s, 0, [])
         | Some f \<Rightarrow>
             if off \<ge> fsize f then (s, 0, [])
             else
               (let n = min sz (fsize f - off)
                in (inode_touch_a i s, int n, take n (drop off (fdata f))))))"

text \<open>Overwriting \<open>length bs\<close> bytes of a buffer from \<open>off\<close>.\<close>
definition overwrite :: "nat \<Rightarrow> u8 list \<Rightarrow> u8 list \<Rightarrow> u8 list" where
  "overwrite off bs d = take off d @ bs @ drop (off + length bs) d"

text \<open>Allocating a zeroed buffer of \<open>(uint32_t)cap\<close> bytes and copying the old contents.  Copying past
  the end of either buffer is a fault.\<close>
definition ramfs_grow :: "nat \<Rightarrow> ramfs_file \<Rightarrow> u8 list" where
  "ramfs_grow cap f =
     (let n = cap mod 2 ^ 32; old = take (fsize f) (fdata f)
      in take n (old @ replicate (n - length old) 0))"

text \<open>Private data that is not a file's: none at all is reported, anything else (the text of a symbolic link)
  is read as if it were a file's, which is a fault.\<close>
definition no_file :: "nat \<Rightarrow> vfs \<Rightarrow> vfs \<times> int" where
  "no_file i s = (if ipriv (inode_at s i) = No_priv then s else s\<lparr>fault := True\<rparr>, - EINVAL)"

definition ramfs_write_impl :: "nat \<Rightarrow> nat \<Rightarrow> u8 list \<Rightarrow> vfs \<Rightarrow> vfs \<times> int" where
  "ramfs_write_impl i off bs s =
     (case file_of s i of
        None \<Rightarrow> no_file i s
      | Some f \<Rightarrow>
          (let need = (off + length bs) mod 2 ^ 64;
               newcap = (need + 512) mod 2 ^ 64;
               (s1, ok) = (if need > fcapacity f then kalloc s else (s, True))
           in if \<not> ok then (s1, - ENOSPC)
              else
                (let f1 = (if need > fcapacity f
                           then f\<lparr>fdata := ramfs_grow newcap f, fcapacity := newcap\<rparr> else f);
                     oob = off + length bs > length (fdata f1) \<or> (need > fcapacity f \<and> fsize f > newcap mod 2 ^ 32);
                     f2 = f1\<lparr>fdata := (if oob then fdata f1 else overwrite off bs (fdata f1)), fsize := max (fsize f1) need\<rparr>;
                     s2 = set_file i f2 (if oob then s1\<lparr>fault := True\<rparr> else s1);
                     s3 = upd_inode i (\<lambda>n. n\<lparr>isize := fsize f2\<rparr>) s2
                 in (inode_touch_m i s3, int (length bs)))))"

definition ramfs_truncate_impl :: "nat \<Rightarrow> nat \<Rightarrow> vfs \<Rightarrow> vfs \<times> int" where
  "ramfs_truncate_impl i sz s =
     (case file_of s i of
        None \<Rightarrow> no_file i s
      | Some f \<Rightarrow>
          (let grow = sz \<ge> fsize f \<and> sz > fcapacity f;
               (s1, ok) = (if grow then kalloc s else (s, True))
           in if \<not> ok then (s1, - ENOSPC)
              else
                (let f2 = (if sz < fsize f then f\<lparr>fsize := sz\<rparr>
                           else if grow then f\<lparr>fdata := ramfs_grow sz f, fcapacity := sz, fsize := sz\<rparr>
                           else f\<lparr>fdata := overwrite (fsize f) (replicate (sz - fsize f) 0) (fdata f), fsize := sz\<rparr>);
                     oob = (grow \<and> fsize f > sz mod 2 ^ 32) \<or> (sz \<ge> fsize f \<and> \<not> grow \<and> sz > length (fdata f));
                     s2 = set_file i f2 (if oob then s1\<lparr>fault := True\<rparr> else s1);
                     s3 = upd_inode i (\<lambda>n. n\<lparr>isize := fsize f2\<rparr>) s2
                 in (inode_touch_m i s3, 0))))"

definition ramfs_chmod_impl :: "nat \<Rightarrow> u32 \<Rightarrow> vfs \<Rightarrow> vfs \<times> int" where
  "ramfs_chmod_impl i m s =
     (upd_inode i (\<lambda>n. n\<lparr>imode := (imode n AND S_IFMT) OR (m AND NOT S_IFMT), ctime := now s\<rparr>) s, 0)"

definition ramfs_chown_impl :: "nat \<Rightarrow> u32 \<Rightarrow> u32 \<Rightarrow> vfs \<Rightarrow> vfs \<times> int" where
  "ramfs_chown_impl i u g s = (upd_inode i (\<lambda>n. n\<lparr>iuid := u, igid := g, ctime := now s\<rparr>) s, 0)"

definition ramfs_create_root :: "vfs \<Rightarrow> vfs \<times> nat option" where
  "ramfs_create_root s =
     (let (s1, ok) = kalloc s in
      if \<not> ok then (s1, None)
      else
        (case inode_alloc Ramfs_dir_ops MODE_DIR (Dir_priv [] 0) s1 of
           (s2, None) \<Rightarrow> (s2, None)
         | (s2, Some i) \<Rightarrow>
             (let s3 = upd_inode i (\<lambda>n. n\<lparr>nlink := 2\<rparr>) s2
              in (fst (dentry_add i ''..'' i (fst (dentry_add i ''.'' i s3))), Some i))))"

subsection \<open>Synthetic files\<close>

definition nl :: char where "nl = CHR 0x0A"
definition tab :: char where "tab = CHR 0x09"

fun dec_digits :: "nat \<Rightarrow> string" where
  "dec_digits n = (if n < 10 then [char_of (48 + n)] else dec_digits (n div 10) @ [char_of (48 + n mod 10)])"

definition pad6 :: "string \<Rightarrow> string" where
  "pad6 d = replicate (6 - length d) CHR '' '' @ d"

text \<open>What the files of \<open>/proc\<close> read as; \<open>heap_free\<close> and \<open>heap_used\<close> are what the
  allocator reports.\<close>
definition proc_text :: "proc_file \<Rightarrow> vfs \<Rightarrow> string" where
  "proc_text p s =
     (case p of
        Proc_version \<Rightarrow> ''atmkoala 0.5.0 x86-64 (gcc 13.3) #1 SMP'' @ [nl]
      | Proc_cmdline \<Rightarrow> ''atmkoala quiet'' @ [nl]
      | Proc_uptime \<Rightarrow>
          (let secs = dec_digits (unat (pit_ticks s div 100)) in secs @ ''.00 '' @ secs @ ''.00'' @ [nl])
      | Proc_meminfo \<Rightarrow>
          (let tot = 256 * 1024 :: u32; free = heap_free s div 1024; used = heap_used s div 1024 in
           ''MemTotal:     '' @ pad6 (dec_digits (unat tot)) @ '' kB'' @ [nl] @
           ''MemFree:      '' @ pad6 (dec_digits (unat free)) @ '' kB'' @ [nl] @
           ''MemAvailable: '' @ pad6 (dec_digits (unat (tot - used))) @ '' kB'' @ [nl] @
           ''Cached:            0 kB'' @ [nl] @ ''SwapTotal:         0 kB'' @ [nl] @ ''SwapFree:          0 kB'' @ [nl])
      | Proc_cpuinfo \<Rightarrow>
          ''processor'' @ [tab] @ '': 0'' @ [nl] @ ''vendor_id'' @ [tab] @ '': atmkoala'' @ [nl] @
          ''cpu family'' @ [tab] @ '': 6'' @ [nl] @ ''model name'' @ [tab] @ '': atmkoala Virtual CPU x86-64'' @ [nl] @
          ''cpu MHz'' @ [tab, tab] @ '': 100.000'' @ [nl] @ ''cache size'' @ [tab] @ '': 256 KB'' @ [nl] @
          ''flags'' @ [tab, tab] @ '': fpu pae lm pse nx'' @ [nl]
      | Proc_mounts \<Rightarrow>
          ''ramfs  /       ramfs  rw,nosuid,nodev   0 0'' @ [nl] @ ''proc   /proc   proc   ro,nosuid,nodev   0 0'' @ [nl] @
          ''devfs  /dev    devfs  rw,nosuid         0 0'' @ [nl] @ ''sysfs  /sys    sysfs  ro,nosuid,nodev   0 0'' @ [nl] @
          ''tmpfs  /tmp    tmpfs  rw,nosuid,nodev   0 0'' @ [nl])"

text \<open>The common tail of the \<open>proc_*_read\<close> functions.\<close>
definition proc_read :: "proc_file \<Rightarrow> nat \<Rightarrow> nat \<Rightarrow> vfs \<Rightarrow> int \<times> u8 list" where
  "proc_read p off sz s =
     (let t = proc_text p s in
      if off \<ge> length t then (0, [])
      else (let n = min sz (length t - off) in (int n, map char_byte (take n (drop off t)))))"

text \<open>The linear congruential generator behind \<open>/dev/random\<close>.\<close>
primrec devrandom_bytes :: "nat \<Rightarrow> u32 \<Rightarrow> u32 \<times> u8 list" where
  "devrandom_bytes 0 x = (x, [])"
| "devrandom_bytes (Suc n) x =
     (let x' = x * 1664525 + 1013904223; (y, bs) = devrandom_bytes n x' in (y, ucast (drop_bit 16 x') # bs))"

subsection \<open>The operation tables\<close>

definition op_lookup :: "nat \<Rightarrow> string \<Rightarrow> vfs \<Rightarrow> (vfs \<times> int \<times> nat option) option" where
  "op_lookup d name s = (if ops (inode_at s d) = Ramfs_dir_ops then Some (ramfs_lookup d name s) else None)"

definition op_create :: "nat \<Rightarrow> string \<Rightarrow> u32 \<Rightarrow> vfs \<Rightarrow> (vfs \<times> int \<times> nat option) option" where
  "op_create d name m s = (if ops (inode_at s d) = Ramfs_dir_ops then Some (ramfs_create_impl d name m True s) else None)"

definition has_dir_ops :: "nat \<Rightarrow> vfs \<Rightarrow> bool" where
  "has_dir_ops d s \<longleftrightarrow> ops (inode_at s d) = Ramfs_dir_ops"

definition op_readlink :: "nat \<Rightarrow> nat \<Rightarrow> vfs \<Rightarrow> (int \<times> string) option" where
  "op_readlink i sz s =
     (if ops (inode_at s i) = Ramfs_ops \<or> ops (inode_at s i) = Ramfs_dir_ops then Some (ramfs_readlink_impl i sz s) else None)"

text \<open>Reading \<open>/dev/zero\<close> clears \<open>(uint32_t)size\<close> bytes of the buffer.\<close>
definition op_read :: "nat \<Rightarrow> nat \<Rightarrow> nat \<Rightarrow> vfs \<Rightarrow> (vfs \<times> int \<times> u8 list) option" where
  "op_read i off sz s =
     (case ops (inode_at s i) of
        Ramfs_ops \<Rightarrow> Some (ramfs_read_impl i off sz s)
      | Ramfs_dir_ops \<Rightarrow> None
      | Dev_null_ops \<Rightarrow> Some (s, 0, [])
      | Dev_zero_ops \<Rightarrow> Some (s, int sz, replicate (sz mod 2 ^ 32) 0)
      | Dev_random_ops \<Rightarrow>
          (let (x, bs) = devrandom_bytes sz (rng s) in Some (s\<lparr>rng := x\<rparr>, int sz, bs))
      | Proc_ops p \<Rightarrow> (let (n, bs) = proc_read p off sz s in Some (s, n, bs)))"

definition op_write :: "nat \<Rightarrow> nat \<Rightarrow> u8 list \<Rightarrow> vfs \<Rightarrow> (vfs \<times> int) option" where
  "op_write i off bs s =
     (case ops (inode_at s i) of
        Ramfs_ops \<Rightarrow> Some (ramfs_write_impl i off bs s)
      | Dev_null_ops \<Rightarrow> Some (s, int (length bs))
      | Dev_zero_ops \<Rightarrow> Some (s, int (length bs))
      | _ \<Rightarrow> None)"

definition op_truncate :: "nat \<Rightarrow> nat \<Rightarrow> vfs \<Rightarrow> (vfs \<times> int) option" where
  "op_truncate i sz s = (if ops (inode_at s i) = Ramfs_ops then Some (ramfs_truncate_impl i sz s) else None)"

definition op_chmod :: "nat \<Rightarrow> u32 \<Rightarrow> vfs \<Rightarrow> (vfs \<times> int) option" where
  "op_chmod i m s =
     (if ops (inode_at s i) = Ramfs_ops \<or> ops (inode_at s i) = Ramfs_dir_ops then Some (ramfs_chmod_impl i m s) else None)"

definition op_chown :: "nat \<Rightarrow> u32 \<Rightarrow> u32 \<Rightarrow> vfs \<Rightarrow> (vfs \<times> int) option" where
  "op_chown i u g s =
     (if ops (inode_at s i) = Ramfs_ops \<or> ops (inode_at s i) = Ramfs_dir_ops then Some (ramfs_chown_impl i u g s) else None)"

record stat_buf =
  st_ino :: u64
  st_mode :: u32
  st_nlink :: u32
  st_uid :: u32
  st_gid :: u32
  st_size :: nat
  st_blocks :: nat
  st_atime :: u64
  st_mtime :: u64
  st_ctime :: u64
  st_type :: u32
  st_perms :: u32

definition ramfs_stat_impl :: "nat \<Rightarrow> vfs \<Rightarrow> stat_buf" where
  "ramfs_stat_impl i s =
     (let n = inode_at s i in
      \<lparr>st_ino = ino n, st_mode = imode n, st_nlink = nlink n, st_uid = iuid n, st_gid = igid n, st_size = isize n,
       st_blocks = (isize n + 511) div 512, st_atime = atime n, st_mtime = mtime n, st_ctime = ctime n,
       st_type = (if S_ISREG (imode n) then S_IFREG else if S_ISDIR (imode n) then S_IFDIR
                  else if S_ISLNK (imode n) then S_IFLNK else if S_ISCHR (imode n) then S_IFCHR else S_IFREG),
       st_perms = drop_bit 6 (imode n) AND 7\<rparr>)"

subsection \<open>Mount table\<close>

definition vfs_mount :: "string \<Rightarrow> nat option \<Rightarrow> vfs \<Rightarrow> vfs \<times> int" where
  "vfs_mount path root s =
     (case root of
        None \<Rightarrow> (s, - EINVAL)
      | Some r \<Rightarrow>
          if path = '''' \<or> hd path \<noteq> CHR ''/'' then (s, - EINVAL)
          else if path \<in> fst ` set (g_mounts s) then (s, - EEXIST)
          else if length (g_mounts s) \<ge> MOUNT_MAX then (s, - ENOSPC)
          else (s\<lparr>g_mounts := g_mounts s @ [(path, r)]\<rparr>, 0))"

fun unmount_entry :: "string \<Rightarrow> (string \<times> nat) list \<Rightarrow> (string \<times> nat) list option" where
  "unmount_entry path [] = None"
| "unmount_entry path ((p, r) # ms) =
     (if p = path then Some ms else map_option (\<lambda>ms'. (p, r) # ms') (unmount_entry path ms))"

definition vfs_unmount :: "string \<Rightarrow> vfs \<Rightarrow> vfs \<times> int" where
  "vfs_unmount path s =
     (case unmount_entry path (g_mounts s) of
        None \<Rightarrow> (s, - ENOENT)
      | Some ms \<Rightarrow> (s\<lparr>g_mounts := ms\<rparr>, 0))"

definition mount_match :: "string \<Rightarrow> string \<Rightarrow> bool" where
  "mount_match path mp \<longleftrightarrow> take (length mp) path = mp \<and> (length path = length mp \<or> path ! length mp = CHR ''/'')"

definition mount_for_path :: "vfs \<Rightarrow> string \<Rightarrow> nat option" where
  "mount_for_path s path =
     fst (fold (\<lambda>(mp, r) (best, best_len).
            if mount_match path mp \<and> length mp > best_len then (Some r, length mp) else (best, best_len))
          (g_mounts s) (None, 0))"

subsection \<open>Path resolution\<close>

definition take_comp :: "string \<Rightarrow> string \<times> string" where
  "take_comp rel =
     (let comp = take VFS_NAME_MAX (takeWhile (\<lambda>c. c \<noteq> CHR ''/'') rel);
          p = drop (length comp) rel
      in (comp, if p \<noteq> [] \<and> hd p = CHR ''/'' then tl p else p))"

lemma take_comp_less: "rel \<noteq> [] \<Longrightarrow> length (snd (take_comp rel)) < length rel"
  by (cases rel) (auto simp: take_comp_def Let_def VFS_NAME_MAX_def)

lemma take_comp_pair_less: "(c, r) = take_comp rel \<Longrightarrow> rel \<noteq> [] \<Longrightarrow> length r < length rel"
  using take_comp_less [of rel] by (cases "take_comp rel") simp

text \<open>Where resolution starts: the inode and the rest of the path.\<close>
definition start_point :: "vfs \<Rightarrow> string \<Rightarrow> nat option \<times> string" where
  "start_point s buf =
     (case mount_for_path s buf of
        None \<Rightarrow> (g_root s, drop 1 buf)
      | Some r \<Rightarrow>
          (let best_len = fold (\<lambda>(mp, r') b. if r' = r \<and> length mp > b then length mp else b) (g_mounts s) 0;
               rel = drop best_len buf
           in (Some r, if rel \<noteq> [] \<and> hd rel = CHR ''/'' then tl rel else rel)))"

fun last_slash_from :: "nat \<Rightarrow> nat \<Rightarrow> string \<Rightarrow> nat" where
  "last_slash_from i found [] = found"
| "last_slash_from i found (c # cs) = last_slash_from (Suc i) (if c = CHR ''/'' then i else found) cs"

definition last_slash :: "string \<Rightarrow> nat" where
  "last_slash path = last_slash_from 0 0 path"

text \<open>The path to restart from after reading a symbolic link.\<close>
definition link_path :: "string \<Rightarrow> string \<Rightarrow> string \<Rightarrow> string" where
  "link_path buf lbuf rel =
     (let rest = (if rel \<noteq> [] then ''/'' @ rel else '''') in
      if lbuf \<noteq> [] \<and> hd lbuf = CHR ''/'' then lbuf @ rest
      else take (last_slash buf + 1) buf @ lbuf @ rest)"

datatype walk_end = Found nat | Failed | Restart string

function walk_path :: "nat \<Rightarrow> string \<Rightarrow> string \<Rightarrow> bool \<Rightarrow> vfs \<Rightarrow> vfs \<times> walk_end" where
  "walk_path cur rel buf nofollow s =
     (if rel = [] then (s, Found cur)
      else
        (let (comp, rel') = take_comp rel in
         if comp = '''' \<or> comp = ''.'' then walk_path cur rel' buf nofollow s
         else case op_lookup cur comp s of
                None \<Rightarrow> (set_errno ENOTDIR s, Failed)
              | Some (s1, r, nx) \<Rightarrow>
                  (case nx of
                     None \<Rightarrow> (set_errno ENOENT s1, Failed)
                   | Some next \<Rightarrow>
                       if S_ISLNK (imode (inode_at s1 next)) \<and> \<not> (rel' = [] \<and> nofollow) then
                         (case op_readlink next VFS_PATH_MAX s1 of
                            None \<Rightarrow> (set_errno EINVAL (inode_unref next s1), Failed)
                          | Some (n, lbuf) \<Rightarrow> (inode_unref next s1, Restart (link_path buf lbuf rel')))
                       else
                         (case mountpoint (inode_at s1 next) of
                            Some m \<Rightarrow> walk_path m rel' buf nofollow (inode_unref next s1)
                          | None \<Rightarrow> walk_path next rel' buf nofollow s1))))"
  by pat_completeness auto
termination
  by (relation "measure (\<lambda>(cur, rel, buf, nofollow, s). length rel)") (auto dest: take_comp_pair_less)

declare walk_path.simps [simp del]

function resolve_from :: "string \<Rightarrow> bool \<Rightarrow> nat \<Rightarrow> vfs \<Rightarrow> vfs \<times> nat option" where
  "resolve_from buf nofollow hops s =
     (if hops > VFS_SYMLINK_MAX then (set_errno ELOOP s, None)
      else
        (case start_point s buf of
           (None, rel) \<Rightarrow> (s\<lparr>fault := True\<rparr>, None)
         | (Some cur, rel) \<Rightarrow>
             (case walk_path cur rel buf nofollow s of
                (s1, Found i) \<Rightarrow> (s1, Some i)
              | (s1, Failed) \<Rightarrow> (s1, None)
              | (s1, Restart b) \<Rightarrow> resolve_from b nofollow (Suc hops) s1)))"
  by pat_completeness auto
termination
  by (relation "measure (\<lambda>(buf, nofollow, hops, s). Suc VFS_SYMLINK_MAX - hops)") auto

declare resolve_from.simps [simp del]

definition resolve_path :: "string \<Rightarrow> bool \<Rightarrow> vfs \<Rightarrow> vfs \<times> nat option" where
  "resolve_path path nofollow s =
     (if path = [] \<or> hd path \<noteq> CHR ''/'' then (s, None)
      else if path = ''/'' then (s, g_root s)
      else resolve_from path nofollow 0 s)"

definition path_split :: "string \<Rightarrow> string \<times> string" where
  "path_split path =
     (let l = last_slash path in
      if l = 0 then (''/'', drop 1 path) else (take l path, drop (l + 1) path))"

subsection \<open>File descriptors\<close>

definition fd_alloc :: "vfs \<Rightarrow> vfs \<times> nat option" where
  "fd_alloc s =
     (case first_idx (\<lambda>i. \<not> fused (g_fds s ! i)) 3 FD_MAX of
        Some fd \<Rightarrow> (s, Some fd)
      | None \<Rightarrow> (set_errno EMFILE s, None))"

definition fd_ok :: "vfs \<Rightarrow> int \<Rightarrow> bool" where
  "fd_ok s fd \<longleftrightarrow> 0 \<le> fd \<and> fd < int FD_MAX \<and> fused (g_fds s ! nat fd)"

definition upd_fd :: "nat \<Rightarrow> (vfs_fd \<Rightarrow> vfs_fd) \<Rightarrow> vfs \<Rightarrow> vfs" where
  "upd_fd k f s = s\<lparr>g_fds := (g_fds s)[k := f (g_fds s ! k)]\<rparr>"

text \<open>Opening an inode that has been found or created: the tail of \<open>vfs_open\<close>.\<close>
definition open_inode :: "string \<Rightarrow> u32 \<Rightarrow> nat \<Rightarrow> vfs \<Rightarrow> vfs \<times> int" where
  "open_inode path flags i s =
     (case fd_alloc s of
        (s1, None) \<Rightarrow> (inode_unref i s1, -1)
      | (s1, Some fd) \<Rightarrow>
          (let s2 = upd_fd fd (\<lambda>f. f\<lparr>finode := i, fflags := flags, fused := True,
                        fcloexec := flags AND O_CLOEXEC \<noteq> 0, fpath := path\<rparr>) s1;
               s3 = (if flags AND O_TRUNC \<noteq> 0 then
                       (case op_truncate i 0 s2 of None \<Rightarrow> s2 | Some (s', r) \<Rightarrow> s') else s2);
               s4 = upd_fd fd (\<lambda>f. f\<lparr>foffset := (if flags AND O_APPEND \<noteq> 0 then isize (inode_at s3 i) else 0)\<rparr>) s3
           in (s4, int fd)))"

definition vfs_open :: "string \<Rightarrow> u32 \<Rightarrow> u32 \<Rightarrow> vfs \<Rightarrow> vfs \<times> int" where
  "vfs_open path flags mode0 s =
     (let m = (if mode0 = 0 then 0x1A4 else mode0) in
      case resolve_path path (flags AND O_NOFOLLOW \<noteq> 0) s of
        (s1, None) \<Rightarrow>
          if flags AND O_CREAT = 0 then (set_errno ENOENT s1, -1)
          else
            (let (dir, base) = path_split path in
             case resolve_path dir False s1 of
               (s2, None) \<Rightarrow> (set_errno ENOENT s2, -1)
             | (s2, Some parent) \<Rightarrow>
                 if \<not> has_dir_ops parent s2 then (set_errno ENOENT (inode_unref parent s2), -1)
                 else
                   (let (s3, q) = vfs_require (Some parent) (PERM_W OR PERM_X) s2 in
                    if q < 0 then (inode_unref parent s3, -1)
                    else
                      (let (s4, r, out) = ramfs_create_impl parent base ((m AND NOT S_IFMT) OR S_IFREG) True s3;
                           s5 = inode_unref parent s4
                       in case out of
                            None \<Rightarrow> (set_errno (- r) s5, -1)
                          | Some i \<Rightarrow>
                              open_inode path flags i
                                (upd_inode i (\<lambda>n. n\<lparr>iuid := g_session_uid s5, igid := g_session_gid s5\<rparr>) s5))))
      | (s1, Some i) \<Rightarrow>
          if flags AND O_CREAT \<noteq> 0 \<and> flags AND O_EXCL \<noteq> 0 then (set_errno EEXIST (inode_unref i s1), -1)
          else if S_ISDIR (imode (inode_at s1 i)) \<and> flags AND (O_WRONLY OR O_RDWR) \<noteq> 0
          then (set_errno EISDIR (inode_unref i s1), -1)
          else
            (let acc = flags AND O_ACCMODE;
                 wanted = (if acc \<noteq> O_WRONLY then PERM_R else 0) OR (if acc \<noteq> O_RDONLY then PERM_W else 0);
                 (s2, q) = (if wanted \<noteq> 0 then vfs_require (Some i) wanted s1 else (s1, 0))
             in if q < 0 then (inode_unref i s2, -1) else open_inode path flags i s2))"

definition vfs_close :: "int \<Rightarrow> vfs \<Rightarrow> vfs" where
  "vfs_close fd s =
     (if \<not> fd_ok s fd then s
      else upd_fd (nat fd) (\<lambda>_. zero_fd) (inode_unref (finode (g_fds s ! nat fd)) s))"

definition vfs_read :: "int \<Rightarrow> nat \<Rightarrow> vfs \<Rightarrow> vfs \<times> int \<times> u8 list" where
  "vfs_read fd sz s =
     (if \<not> fd_ok s fd then (set_errno EINVAL s, -1, [])
      else
        (let f = g_fds s ! nat fd in
         if fflags f AND O_ACCMODE = O_WRONLY then (set_errno EINVAL s, -1, [])
         else
           (let (s1, q) = vfs_require (Some (finode f)) PERM_R s in
            if q < 0 then (s1, -1, [])
            else case op_read (finode f) (foffset f) sz s1 of
                   None \<Rightarrow> (set_errno EINVAL s1, -1, [])
                 | Some (s2, n, bs) \<Rightarrow>
                     (if n > 0 then upd_fd (nat fd) (\<lambda>f. f\<lparr>foffset := (foffset f + nat n) mod 2 ^ 64\<rparr>) s2 else s2, n, bs))))"

definition vfs_write :: "int \<Rightarrow> u8 list \<Rightarrow> vfs \<Rightarrow> vfs \<times> int" where
  "vfs_write fd bs s =
     (if \<not> fd_ok s fd then (set_errno EINVAL s, -1)
      else
        (let f = g_fds s ! nat fd in
         if fflags f AND O_ACCMODE = O_RDONLY then (set_errno EINVAL s, -1)
         else
           (let (s1, q) = vfs_require (Some (finode f)) PERM_W s in
            if q < 0 then (s1, -1)
            else
              (let off = (if fflags f AND O_APPEND \<noteq> 0 then isize (inode_at s1 (finode f)) else foffset f) in
               case op_write (finode f) off bs s1 of
                 None \<Rightarrow> (set_errno EINVAL s1, -1)
               | Some (s2, n) \<Rightarrow>
                   (upd_fd (nat fd) (\<lambda>f. f\<lparr>foffset := (if n > 0 then (off + nat n) mod 2 ^ 64 else off)\<rparr>) s2, n)))))"

text \<open>64-bit offsets read as signed, as \<open>(int64_t)\<close> does.\<close>
definition s64 :: "nat \<Rightarrow> int" where
  "s64 n = (let m = int n mod 2 ^ 64 in if m < 2 ^ 63 then m else m - 2 ^ 64)"

definition wrap64 :: "int \<Rightarrow> int" where
  "wrap64 x = (x + 2 ^ 63) mod 2 ^ 64 - 2 ^ 63"

definition vfs_lseek :: "int \<Rightarrow> int \<Rightarrow> int \<Rightarrow> vfs \<Rightarrow> vfs \<times> int" where
  "vfs_lseek fd off whence s =
     (if \<not> fd_ok s fd then (set_errno EINVAL s, -1)
      else
        (let f = g_fds s ! nat fd in
         if whence < 0 \<or> whence > 2 then (set_errno EINVAL s, -1)
         else
           (let base = (if whence = 0 then 0 else if whence = 1 then s64 (foffset f) else s64 (isize (inode_at s (finode f))));
                newoff = wrap64 (base + off)
            in if newoff < 0 then (set_errno EINVAL s, -1)
               else (upd_fd (nat fd) (\<lambda>f. f\<lparr>foffset := nat newoff\<rparr>) s, newoff))))"

definition vfs_dup :: "int \<Rightarrow> vfs \<Rightarrow> vfs \<times> int" where
  "vfs_dup fd s =
     (if \<not> fd_ok s fd then (set_errno EINVAL s, -1)
      else case fd_alloc s of
             (s1, None) \<Rightarrow> (s1, -1)
           | (s1, Some new) \<Rightarrow>
               (inode_ref (finode (g_fds s1 ! nat fd)) (upd_fd new (\<lambda>_. g_fds s1 ! nat fd) s1), int new))"

definition vfs_dup2 :: "int \<Rightarrow> int \<Rightarrow> vfs \<Rightarrow> vfs \<times> int" where
  "vfs_dup2 fd newfd s =
     (if \<not> fd_ok s fd then (set_errno EINVAL s, -1)
      else if newfd < 0 \<or> newfd \<ge> int FD_MAX then (set_errno EINVAL s, -1)
      else if newfd = fd then (s, fd)
      else
        (let s1 = (if fused (g_fds s ! nat newfd) then vfs_close newfd s else s)
         in (inode_ref (finode (g_fds s1 ! nat fd)) (upd_fd (nat newfd) (\<lambda>_. g_fds s1 ! nat fd) s1), newfd)))"

definition vfs_fsops_busy :: "fsops \<Rightarrow> vfs \<Rightarrow> bool" where
  "vfs_fsops_busy op s = (\<exists>f \<in> set (take FD_MAX (g_fds s)). fused f \<and> ops (inode_at s (finode f)) = op)"

subsection \<open>Operations on paths\<close>

definition vfs_lookup :: "string \<Rightarrow> vfs \<Rightarrow> vfs \<times> nat option" where
  "vfs_lookup path s = resolve_path path False s"

definition vfs_lookup_nofollow :: "string \<Rightarrow> vfs \<Rightarrow> vfs \<times> nat option" where
  "vfs_lookup_nofollow path s = resolve_path path True s"

definition vfs_stat_path :: "string \<Rightarrow> bool \<Rightarrow> vfs \<Rightarrow> vfs \<times> stat_buf option" where
  "vfs_stat_path path nofollow s =
     (case resolve_path path nofollow s of
        (s1, None) \<Rightarrow> (set_errno ENOENT s1, None)
      | (s1, Some i) \<Rightarrow> (inode_unref i s1, Some (ramfs_stat_impl i s1)))"

definition vfs_stat :: "string \<Rightarrow> vfs \<Rightarrow> vfs \<times> stat_buf option" where
  "vfs_stat path s = vfs_stat_path path False s"

definition vfs_lstat :: "string \<Rightarrow> vfs \<Rightarrow> vfs \<times> stat_buf option" where
  "vfs_lstat path s = vfs_stat_path path True s"

definition vfs_fstat :: "int \<Rightarrow> vfs \<Rightarrow> vfs \<times> stat_buf option" where
  "vfs_fstat fd s =
     (if \<not> fd_ok s fd then (set_errno EINVAL s, None) else (s, Some (ramfs_stat_impl (finode (g_fds s ! nat fd)) s)))"

definition vfs_fd_path :: "int \<Rightarrow> nat \<Rightarrow> vfs \<Rightarrow> vfs \<times> string option" where
  "vfs_fd_path fd sz s =
     (if \<not> fd_ok s fd \<or> sz = 0 then (set_errno EINVAL s, None)
      else if length (fpath (g_fds s ! nat fd)) + 1 > sz then (set_errno EINVAL s, None)
      else (s, Some (fpath (g_fds s ! nat fd))))"

definition vfs_fchmod :: "int \<Rightarrow> u32 \<Rightarrow> vfs \<Rightarrow> vfs \<times> int" where
  "vfs_fchmod fd m s =
     (if \<not> fd_ok s fd then (set_errno EINVAL s, -1)
      else
        (let i = finode (g_fds s ! nat fd) in
         if g_session_uid s \<noteq> 0 \<and> g_session_uid s \<noteq> iuid (inode_at s i) then (set_errno EACCES s, -1)
         else case op_chmod i (m AND 0xFFF) s of None \<Rightarrow> (s, - EINVAL) | Some r \<Rightarrow> r))"

definition vfs_fchown :: "int \<Rightarrow> u32 \<Rightarrow> u32 \<Rightarrow> vfs \<Rightarrow> vfs \<times> int" where
  "vfs_fchown fd u g s =
     (if \<not> fd_ok s fd then (set_errno EINVAL s, -1)
      else if g_session_uid s \<noteq> 0 then (set_errno EACCES s, -1)
      else case op_chown (finode (g_fds s ! nat fd)) u g s of None \<Rightarrow> (s, - EINVAL) | Some r \<Rightarrow> r)"

definition vfs_chmod :: "string \<Rightarrow> u32 \<Rightarrow> vfs \<Rightarrow> vfs \<times> int" where
  "vfs_chmod path m s =
     (case resolve_path path False s of
        (s1, None) \<Rightarrow> (s1, -1)
      | (s1, Some i) \<Rightarrow>
          if g_session_uid s1 \<noteq> 0 \<and> g_session_uid s1 \<noteq> iuid (inode_at s1 i) then (set_errno EACCES (inode_unref i s1), -1)
          else
            (let (s2, r) = (case op_chmod i (m AND 0xFFF) s1 of None \<Rightarrow> (s1, - EINVAL) | Some x \<Rightarrow> x)
             in (inode_unref i s2, r)))"

definition vfs_chown :: "string \<Rightarrow> u32 \<Rightarrow> u32 \<Rightarrow> vfs \<Rightarrow> vfs \<times> int" where
  "vfs_chown path u g s =
     (case resolve_path path False s of
        (s1, None) \<Rightarrow> (s1, -1)
      | (s1, Some i) \<Rightarrow>
          if g_session_uid s1 \<noteq> 0 then (set_errno EACCES (inode_unref i s1), -1)
          else
            (let (s2, r) = (case op_chown i u g s1 of None \<Rightarrow> (s1, - EINVAL) | Some x \<Rightarrow> x)
             in (inode_unref i s2, r)))"

definition vfs_truncate :: "string \<Rightarrow> nat \<Rightarrow> vfs \<Rightarrow> vfs \<times> int" where
  "vfs_truncate path sz s =
     (case resolve_path path False s of
        (s1, None) \<Rightarrow> (s1, -1)
      | (s1, Some i) \<Rightarrow>
          (let (s2, q) = vfs_require (Some i) PERM_W s1 in
           if q < 0 then (inode_unref i s2, -1)
           else
             (let (s3, r) = (case op_truncate i sz s2 of None \<Rightarrow> (s2, - EINVAL) | Some x \<Rightarrow> x)
              in (inode_unref i s3, r))))"

definition vfs_ftruncate :: "int \<Rightarrow> nat \<Rightarrow> vfs \<Rightarrow> vfs \<times> int" where
  "vfs_ftruncate fd sz s =
     (if \<not> fd_ok s fd then (s, -1)
      else
        (let i = finode (g_fds s ! nat fd); (s1, q) = vfs_require (Some i) PERM_W s in
         if q < 0 then (s1, -1)
         else case op_truncate i sz s1 of None \<Rightarrow> (s1, -1) | Some x \<Rightarrow> x))"

text \<open>The frame of the calls that change a directory: find it, ask for write and search permission, run the
  operation, give the reference back.  \<open>no_dir\<close> is what the call does when the directory is missing.\<close>
definition in_dir :: "string \<Rightarrow> (vfs \<Rightarrow> vfs) \<Rightarrow> (nat \<Rightarrow> vfs \<Rightarrow> vfs \<times> int) \<Rightarrow> vfs \<Rightarrow> vfs \<times> int" where
  "in_dir dir no_dir act s =
     (case resolve_path dir False s of
        (s1, None) \<Rightarrow> (no_dir s1, -1)
      | (s1, Some d) \<Rightarrow>
          (let (s2, q) = vfs_require (Some d) (PERM_W OR PERM_X) s1 in
           if q < 0 then (inode_unref d s2, -1)
           else
             (let (s3, r) = (if has_dir_ops d s2 then act d s2 else (s2, - EINVAL))
              in (inode_unref d s3, r))))"

definition vfs_mkdir :: "string \<Rightarrow> u32 \<Rightarrow> vfs \<Rightarrow> vfs \<times> int" where
  "vfs_mkdir path m s =
     (let (dir, base) = path_split path in
      case resolve_path dir False s of
        (s1, None) \<Rightarrow> (set_errno ENOENT s1, -1)
      | (s1, Some d) \<Rightarrow>
          if \<not> has_dir_ops d s1 then (set_errno ENOTDIR (inode_unref d s1), -1)
          else
            (let (s2, q) = vfs_require (Some d) (PERM_W OR PERM_X) s1 in
             if q < 0 then (inode_unref d s2, -1)
             else
               (let (s3, r, out) = ramfs_mkdir_impl d base ((m AND NOT S_IFMT) OR S_IFDIR) False s2
                in (inode_unref d s3, r))))"

definition vfs_rmdir :: "string \<Rightarrow> vfs \<Rightarrow> vfs \<times> int" where
  "vfs_rmdir path s = (let (dir, base) = path_split path in in_dir dir id (\<lambda>d. ramfs_rmdir_impl d base) s)"

definition vfs_unlink :: "string \<Rightarrow> vfs \<Rightarrow> vfs \<times> int" where
  "vfs_unlink path s = (let (dir, base) = path_split path in in_dir dir id (\<lambda>d. ramfs_unlink_impl d base) s)"

definition vfs_symlink :: "string \<Rightarrow> string \<Rightarrow> vfs \<Rightarrow> vfs \<times> int" where
  "vfs_symlink target linkpath s =
     (let (dir, base) = path_split linkpath in in_dir dir id (\<lambda>d. ramfs_symlink_impl d base target) s)"

definition vfs_link :: "string \<Rightarrow> string \<Rightarrow> vfs \<Rightarrow> vfs \<times> int" where
  "vfs_link oldpath newpath s =
     (case resolve_path oldpath False s of
        (s1, None) \<Rightarrow> (s1, -1)
      | (s1, Some t) \<Rightarrow>
          (let (dir, base) = path_split newpath in
           case resolve_path dir False s1 of
             (s2, None) \<Rightarrow> (inode_unref t s2, -1)
           | (s2, Some d) \<Rightarrow>
               (let (s3, q) = vfs_require (Some d) (PERM_W OR PERM_X) s2 in
                if q < 0 then (inode_unref d (inode_unref t s3), -1)
                else
                  (let (s4, r) = (if has_dir_ops d s3 then ramfs_link_impl d base t s3 else (s3, - EINVAL))
                   in (inode_unref d (inode_unref t s4), r)))))"

definition vfs_rename :: "string \<Rightarrow> string \<Rightarrow> vfs \<Rightarrow> vfs \<times> int" where
  "vfs_rename oldpath newpath s =
     (let (od, ob) = path_split oldpath; (nd, nb) = path_split newpath;
          (s1, o_dir) = resolve_path od False s; (s2, n_dir) = resolve_path nd False s1
      in case (o_dir, n_dir) of
           (Some d, Some e) \<Rightarrow>
             (let (s3, q) = vfs_require (Some d) (PERM_W OR PERM_X) s2;
                  (s4, q') = (if q < 0 then (s3, -1) else vfs_require (Some e) (PERM_W OR PERM_X) s3)
              in if q' < 0 then (inode_unref e (inode_unref d s4), -1)
                 else
                   (let (s5, r) = (if has_dir_ops d s4 then ramfs_rename_impl d ob e nb s4 else (s4, - EINVAL))
                    in (inode_unref e (inode_unref d s5), r)))
         | _ \<Rightarrow> (unref_opt n_dir (unref_opt o_dir s2), -1))"

definition vfs_readlink :: "string \<Rightarrow> nat \<Rightarrow> vfs \<Rightarrow> vfs \<times> int \<times> string" where
  "vfs_readlink path sz s =
     (case resolve_path path True s of
        (s1, None) \<Rightarrow> (s1, -1, '''')
      | (s1, Some i) \<Rightarrow>
          (let (r, t) = (case op_readlink i sz s1 of None \<Rightarrow> (- EINVAL, '''') | Some x \<Rightarrow> x)
           in (inode_unref i s1, r, t)))"

definition vfs_create :: "string \<Rightarrow> u32 \<Rightarrow> vfs \<Rightarrow> vfs \<times> int" where
  "vfs_create path m s = vfs_open path (O_WRONLY OR O_CREAT OR O_TRUNC) (if m \<noteq> 0 then m else 0x1A4) s"

text \<open>A directory handle is its path, position and validity.\<close>
record dir_handle =
  dpath :: string
  dindex :: nat
  dvalid :: bool

definition vfs_opendir :: "string \<Rightarrow> vfs \<Rightarrow> vfs \<times> dir_handle option" where
  "vfs_opendir path s =
     (case resolve_path path False s of
        (s1, None) \<Rightarrow> (set_errno ENOTDIR s1, None)
      | (s1, Some i) \<Rightarrow>
          if \<not> S_ISDIR (imode (inode_at s1 i)) then (set_errno ENOTDIR (inode_unref i s1), None)
          else
            (let (s2, q) = vfs_require (Some i) (PERM_R OR PERM_X) s1 in
             if q < 0 then (inode_unref i s2, None)
             else
               (let (s3, ok) = kalloc s2 in
                if \<not> ok then (s3, None)
                else (inode_unref i s3, Some \<lparr>dpath = path, dindex = 0, dvalid = True\<rparr>))))"

definition vfs_readdir_next :: "dir_handle \<Rightarrow> vfs \<Rightarrow> vfs \<times> dir_handle \<times> vfs_dirent option" where
  "vfs_readdir_next dh s =
     (if \<not> dvalid dh then (s, dh, None)
      else case resolve_path (dpath dh) False s of
             (s1, None) \<Rightarrow> (s1, dh, None)
           | (s1, Some i) \<Rightarrow>
               if \<not> has_dir_ops i s1 then (inode_unref i s1, dh, None)
               else
                 (let (s2, q) = vfs_require (Some i) (PERM_R OR PERM_X) s1 in
                  if q < 0 then (inode_unref i s2, dh, None)
                  else
                    (case ramfs_readdir_impl i (dindex dh) s2 of
                       None \<Rightarrow> (inode_unref i s2, dh, None)
                     | Some de \<Rightarrow> (inode_unref i s2, dh\<lparr>dindex := dindex dh + 1\<rparr>, Some de))))"

text \<open>\<open>-1\<close> is an error, \<open>0\<close> the end of the directory, \<open>1\<close> an entry.\<close>
definition vfs_fd_readdir :: "int \<Rightarrow> vfs \<Rightarrow> vfs \<times> int \<times> vfs_dirent option" where
  "vfs_fd_readdir fd s =
     (if \<not> fd_ok s fd then (s, -1, None)
      else
        (let f = g_fds s ! nat fd; i = finode f in
         if \<not> S_ISDIR (imode (inode_at s i)) \<or> \<not> has_dir_ops i s then (s, -1, None)
         else
           (let (s1, q) = vfs_require (Some i) (PERM_R OR PERM_X) s in
            if q < 0 then (s1, -1, None)
            else if foffset f > 0xFFFFFFFF then (s1, 0, None)
            else case ramfs_readdir_impl i (foffset f) s1 of
                   None \<Rightarrow> (s1, 0, None)
                 | Some de \<Rightarrow> (upd_fd (nat fd) (\<lambda>f. f\<lparr>foffset := foffset f + 1\<rparr>) s1, 1, Some de))))"

definition vfs_readdir :: "string \<Rightarrow> nat \<Rightarrow> vfs \<Rightarrow> vfs \<times> vfs_dirent option" where
  "vfs_readdir path index s =
     (case resolve_path path False s of
        (s1, None) \<Rightarrow> (s1, None)
      | (s1, Some i) \<Rightarrow>
          if \<not> has_dir_ops i s1 then (s1, None) else (inode_unref i s1, ramfs_readdir_impl i index s1))"

definition vfs_listdir :: "string \<Rightarrow> vfs \<Rightarrow> vfs \<times> string list option" where
  "vfs_listdir path s =
     (case resolve_path path False s of
        (s1, None) \<Rightarrow> (s1, None)
      | (s1, Some i) \<Rightarrow>
          if \<not> S_ISDIR (imode (inode_at s1 i)) then (inode_unref i s1, None)
          else
            (let (s2, q) = vfs_require (Some i) (PERM_R OR PERM_X) s1 in
             if q < 0 then (inode_unref i s2, None)
             else
               (inode_unref i s2,
                Some (if has_dir_ops i s2 then
                        map (\<lambda>k. case ramfs_readdir_impl i k s2 of
                                   None \<Rightarrow> ''''
                                 | Some de \<Rightarrow> de_name de @ (if d_type de = DT_DIR then ''/'' else ''''))
                          [0 ..< min 256 (length (dentries s2 i))]
                      else []))))"

subsection \<open>The initial tree\<close>

definition lines :: "string list \<Rightarrow> string" where
  "lines ls = concat (map (\<lambda>l. l @ [nl]) ls)"

definition quote :: char where "quote = CHR 0x27"
definition backslash :: char where "backslash = CHR 0x5C"

definition ramfs_mkdir_child :: "nat \<Rightarrow> string \<Rightarrow> u32 \<Rightarrow> vfs \<Rightarrow> vfs \<times> nat option" where
  "ramfs_mkdir_child parent name m s = (let (s1, r, out) = ramfs_mkdir_impl parent name m True s in (s1, out))"

definition ramfs_mkfile :: "nat \<Rightarrow> string \<Rightarrow> string \<Rightarrow> vfs \<Rightarrow> vfs" where
  "ramfs_mkfile parent name content s =
     (let (s1, r, out) = ramfs_create_impl parent name MODE_FILE True s;
          (s2, f) = (if r \<noteq> 0 then (let (s', r', out') = ramfs_lookup parent name s1 in (s', out')) else (s1, out))
      in case f of
           None \<Rightarrow> s2
         | Some i \<Rightarrow>
             inode_unref i (case op_write i 0 (map char_byte content) s2 of None \<Rightarrow> s2\<lparr>fault := True\<rparr> | Some (s', n) \<Rightarrow> s'))"

definition mkfiles :: "nat \<Rightarrow> (string \<times> string) list \<Rightarrow> vfs \<Rightarrow> vfs" where
  "mkfiles d fs s = fold (\<lambda>(name, content). ramfs_mkfile d name content) fs s"

text \<open>\<open>if (d) { ...; inode_unref(d); }\<close> after creating directory \<open>name\<close> in \<open>parent\<close>.\<close>
definition with_dir :: "nat \<Rightarrow> string \<Rightarrow> (nat \<Rightarrow> vfs \<Rightarrow> vfs) \<Rightarrow> vfs \<Rightarrow> vfs" where
  "with_dir parent name body s =
     (case ramfs_mkdir_child parent name MODE_DIR s of
        (s1, None) \<Rightarrow> s1
      | (s1, Some d) \<Rightarrow> inode_unref d (body d s1))"

definition dev_node :: "nat \<Rightarrow> string \<Rightarrow> fsops \<Rightarrow> u32 \<Rightarrow> vfs \<Rightarrow> vfs" where
  "dev_node root name op m s =
     (case inode_alloc op m No_priv s of
        (s1, None) \<Rightarrow> s1
      | (s1, Some i) \<Rightarrow> inode_unref i (fst (ramfs_link_impl root name i s1)))"

definition dev_entries :: "(string \<times> fsops \<times> u32) list" where
  "dev_entries =
     [(''null'', Dev_null_ops, S_IFCHR OR 0x1B6), (''zero'', Dev_zero_ops, S_IFCHR OR 0x1B6),
      (''random'', Dev_random_ops, S_IFCHR OR 0x124), (''urandom'', Dev_random_ops, S_IFCHR OR 0x124),
      (''tty'', Dev_null_ops, S_IFCHR OR 0x190), (''tty0'', Dev_null_ops, S_IFCHR OR 0x190),
      (''kmsg'', Dev_null_ops, S_IFCHR OR 0x1A4), (''stdin'', Dev_null_ops, S_IFCHR OR 0x124),
      (''stdout'', Dev_null_ops, S_IFCHR OR 0x92), (''stderr'', Dev_null_ops, S_IFCHR OR 0x92)]"

definition devfs_create :: "vfs \<Rightarrow> vfs \<times> nat option" where
  "devfs_create s =
     (case ramfs_create_root s of
        (s1, None) \<Rightarrow> (s1, None)
      | (s1, Some root) \<Rightarrow>
          (let s2 = fold (\<lambda>(name, op, m). dev_node root name op m) dev_entries s1;
               s3 = fst (ramfs_symlink_impl root ''fd'' ''/proc/self/fd'' s2);
               s4 = dev_node root ''hda'' Dev_null_ops (S_IFBLK OR 0x1B0) s3
           in (dev_node root ''sda'' Dev_null_ops (S_IFBLK OR 0x1B0) s4, Some root)))"

definition proc_files :: "(string \<times> proc_file) list" where
  "proc_files =
     [(''version'', Proc_version), (''cmdline'', Proc_cmdline), (''uptime'', Proc_uptime), (''meminfo'', Proc_meminfo),
      (''cpuinfo'', Proc_cpuinfo), (''mounts'', Proc_mounts), (''mtab'', Proc_mounts)]"

definition proc_status :: string where
  "proc_status = lines [''Name:'' @ [tab] @ ''kernel'', ''State:'' @ [tab] @ ''R (running)'', ''Pid:'' @ [tab] @ ''1'',
     ''PPid:'' @ [tab] @ ''0'', ''Uid:'' @ [tab] @ ''0 0 0 0'', ''Gid:'' @ [tab] @ ''0 0 0 0'']"

definition procfs_create :: "vfs \<Rightarrow> vfs \<times> nat option" where
  "procfs_create s =
     (case ramfs_create_root s of
        (s1, None) \<Rightarrow> (s1, None)
      | (s1, Some root) \<Rightarrow>
          (let s2 = fold (\<lambda>(name, p). dev_node root name (Proc_ops p) (S_IFREG OR 0x124)) proc_files s1;
               s3 = fst (ramfs_symlink_impl root ''self'' ''/proc/1'' s2)
           in (with_dir root ''1'' (\<lambda>p1 s.
                 with_dir p1 ''fd'' (\<lambda>d s.
                     fst (ramfs_symlink_impl d ''2'' ''/dev/stderr''
                       (fst (ramfs_symlink_impl d ''1'' ''/dev/stdout''
                         (fst (ramfs_symlink_impl d ''0'' ''/dev/stdin'' s))))))
                   (mkfiles p1 [(''cmdline'', ''kernel''), (''status'', proc_status)] s)) s3, Some root)))"

definition sysfs_create :: "vfs \<Rightarrow> vfs \<times> nat option" where
  "sysfs_create s =
     (case ramfs_create_root s of
        (s1, None) \<Rightarrow> (s1, None)
      | (s1, Some root) \<Rightarrow>
          (let s2 = with_dir root ''kernel'' (\<lambda>d. mkfiles d
                 [(''hostname'', lines [''atmkoala'']), (''osrelease'', lines [''1.0.0'']), (''version'', lines [''#1 SMP x86-64'']),
                  (''arch'', lines [''x86_64'']), (''pid_max'', lines [''32768''])]) s1;
               s3 = with_dir root ''net'' (\<lambda>d s.
                 with_dir d ''eth0'' (\<lambda>e. mkfiles e
                     [(''operstate'', lines [''down'']), (''mtu'', lines [''1500'']), (''type'', lines [''1''])])
                   (with_dir d ''lo'' (\<lambda>e. mkfiles e
                     [(''address'', lines [''00:00:00:00:00:00'']), (''operstate'', lines [''up'']), (''mtu'', lines [''65536''])]) s)) s2
           in (with_dir root ''block'' (\<lambda>d. with_dir d ''sda'' (\<lambda>e. mkfiles e
                 [(''size'', lines [''0'']), (''removable'', lines [''0''])])) s3, Some root)))"

definition etc_files :: "(string \<times> string) list" where
  "etc_files =
     [(''hostname'', lines [''atmkoala'']), (''timezone'', lines [''UTC'']),
      (''os-release'', lines [''NAME=\"atmkoala\"'', ''VERSION=\"0.5\"'', ''ID=atmkoala'', ''PRETTY_NAME=\"atmkoala 0.5 x86-64\"'',
         ''VERSION_ID=\"0.5\"'', ''ANSI_COLOR=\"1;36\"'', ''HOME_URL=\"https://atmkoala.local\"'']),
      (''fstab'', lines [''# /etc/fstab'', ''ramfs   /        ramfs  defaults     0 0'', ''proc    /proc    proc   defaults     0 0'',
         ''devfs   /dev     devfs  defaults     0 0'', ''sysfs   /sys     sysfs  ro           0 0'',
         ''tmpfs   /tmp     tmpfs  rw,nosuid    0 0'', ''tmpfs   /run     tmpfs  rw,nosuid    0 0'']),
      (''passwd'', lines [''root:x:0:0:root:/root:/bin/sh'', ''user:x:1000:1000::/home/user:/bin/sh'']),
      (''shadow'', lines [''root:*:19000:0:99999:7:::'', ''user:*:19000:0:99999:7:::'']),
      (''group'', lines [''root:x:0:'', ''sudo:x:27:user'', ''user:x:1000:'', ''disk:x:6:'', ''video:x:44:'', ''netdev:x:109:user'']),
      (''hosts'', lines [''127.0.0.1   localhost'', ''127.0.1.1   atmkoala'', ''::1         localhost ip6-localhost ip6-loopback'']),
      (''resolv.conf'', lines [''nameserver 8.8.8.8'', ''nameserver 1.1.1.1'']),
      (''motd'', lines [''atmkoala 0.5  |  x86-64  |  type '' @ [quote] @ ''help'' @ [quote]]),
      (''issue'', lines [''atmkoala 0.5 '' @ [backslash] @ ''l'']),
      (''shells'', lines [''/bin/sh'', ''/bin/qsh'']),
      (''profile'', lines [''# /etc/profile'', ''export PATH=/bin:/usr/bin:/usr/local/bin'', ''export HOME=/root'', ''export TERM=vt100''])]"

definition populate_etc :: "nat \<Rightarrow> vfs \<Rightarrow> vfs" where
  "populate_etc etc s =
     (let s1 = mkfiles etc etc_files s;
          s2 = with_dir etc ''network'' (\<lambda>d. mkfiles d [(''interfaces'',
                 lines [''# /etc/network/interfaces'', ''auto lo'', ''iface lo inet loopback'', '''', ''auto eth0'', ''iface eth0 inet dhcp''])]) s1
      in with_dir etc ''sysctl.d'' (\<lambda>d. mkfiles d [(''99-atmkoala.conf'',
           lines [''net.ipv4.ip_forward = 0'', ''kernel.dmesg_restrict = 0''])]) s2)"

definition populate_home :: "nat \<Rightarrow> vfs \<Rightarrow> vfs" where
  "populate_home home s =
     with_dir home ''user'' (\<lambda>u s.
       (let s1 = upd_inode u (\<lambda>n. n\<lparr>iuid := 1000, igid := 1000\<rparr>) s;
            s2 = mkfiles u
              [(''.profile'', lines [''# ~/.profile'', ''[ -f ~/.shrc ] && . ~/.shrc'']),
               (''.shrc'', lines [''# ~/.shrc'', ''export PS1='' @ [quote] @ ''user@atmkoala:~$ '' @ [quote],
                  ''alias ls='' @ [quote] @ ''ls --color'' @ [quote]]),
               (''readme.txt'', lines [''atmkoala home directory.'', ''Type '' @ [quote] @ ''help'' @ [quote] @ '' for commands.''])] s1
        in with_dir u ''Downloads'' (\<lambda>_. id) (with_dir u ''Documents'' (\<lambda>_. id) s2))) s"

definition populate_usr :: "nat \<Rightarrow> vfs \<Rightarrow> vfs" where
  "populate_usr usr s =
     (let s1 = with_dir usr ''lib'' (\<lambda>_. id) (with_dir usr ''bin'' (\<lambda>_. id) s);
          s2 = with_dir usr ''share'' (\<lambda>d. with_dir d ''man'' (\<lambda>_. id)) s1
      in with_dir usr ''local'' (\<lambda>d. with_dir d ''bin'' (\<lambda>_. id)) s2)"

definition populate_var :: "nat \<Rightarrow> vfs \<Rightarrow> vfs" where
  "populate_var var s =
     (let s1 = with_dir var ''log'' (\<lambda>d. mkfiles d [(''syslog'', ''''), (''kern.log'', ''''), (''dmesg'', '''')]) s;
          s2 = with_dir var ''run'' (\<lambda>d. mkfiles d [(''utmp'', '''')]) s1
      in with_dir var ''spool'' (\<lambda>_. id) (with_dir var ''lib'' (\<lambda>_. id) (with_dir var ''cache'' (\<lambda>_. id) s2)))"

definition top_dirs :: "string list" where
  "top_dirs = [''bin'', ''boot'', ''dev'', ''etc'', ''home'', ''lib'', ''lib64'', ''mnt'', ''opt'', ''proc'', ''root'', ''run'', ''srv'',
     ''sys'', ''tmp'', ''usr'', ''var'']"

text \<open>\<open>i = resolve_path(path, 0); if (i) { ...; inode_unref(i); }\<close>\<close>
definition at_path :: "string \<Rightarrow> (nat \<Rightarrow> vfs \<Rightarrow> vfs) \<Rightarrow> vfs \<Rightarrow> vfs" where
  "at_path path body s =
     (case resolve_path path False s of (s1, None) \<Rightarrow> s1 | (s1, Some i) \<Rightarrow> inode_unref i (body i s1))"

text \<open>Attaching a file system to a directory: neither the directory nor the root is released.\<close>
definition attach :: "(vfs \<Rightarrow> vfs \<times> nat option) \<Rightarrow> string \<Rightarrow> vfs \<Rightarrow> vfs" where
  "attach mk path s =
     (let (s1, root) = mk s; (s2, mp) = resolve_path path False s1
      in case (root, mp) of (Some r, Some i) \<Rightarrow> upd_inode i (\<lambda>n. n\<lparr>mountpoint := Some r\<rparr>) s2 | _ \<Rightarrow> s2)"

definition vfs_init :: "vfs \<Rightarrow> vfs" where
  "vfs_init s =
     (let s1 = s\<lparr>g_mounts := [], g_fds := replicate FD_MAX zero_fd\<rparr>;
          (s2, root) = ramfs_create_root s1;
          s3 = s2\<lparr>g_root := root\<rparr>
      in case root of
           None \<Rightarrow> s3\<lparr>fault := True\<rparr>
         | Some r \<Rightarrow>
             (let s4 = fold (\<lambda>name s. fst (ramfs_mkdir_child r name MODE_DIR s)) top_dirs s3;
                  s5 = at_path ''/root'' (\<lambda>i s. ramfs_mkfile i ''.profile''
                         (lines [''# /root/.profile'', ''export PS1='' @ [quote] @ ''root@atmkoala:~# '' @ [quote]])
                         (upd_inode i (\<lambda>n. n\<lparr>imode := S_IFDIR OR 0x1C0\<rparr>) s)) s4;
                  s6 = at_path ''/var'' populate_var (at_path ''/usr'' populate_usr
                         (at_path ''/home'' populate_home (at_path ''/etc'' populate_etc s5)));
                  s7 = at_path ''/tmp'' (\<lambda>i. upd_inode i (\<lambda>n. n\<lparr>imode := S_IFDIR OR 0x200 OR 0x1FF\<rparr>)) s6;
                  s8 = at_path ''/run'' (\<lambda>i. upd_inode i (\<lambda>n. n\<lparr>imode := S_IFDIR OR 0x1ED\<rparr>)) s7;
                  s9 = fst (vfs_symlink ''/lib'' ''/lib64'' s8);
                  (s10, bin) = resolve_path ''/bin'' False s9;
                  s11 = (case bin of None \<Rightarrow> s10\<lparr>fault := True\<rparr> | Some b \<Rightarrow> ramfs_mkfile b ''sh'' '''' s10);
                  s12 = fst (vfs_symlink ''/bin/sh'' ''/usr/bin/sh'' s11);
                  s13 = attach sysfs_create ''/sys'' (attach procfs_create ''/proc'' (attach devfs_create ''/dev'' s12));
                  (s14, null_i) = resolve_path ''/dev/null'' False s13
              in case null_i of
                   None \<Rightarrow> s14
                 | Some n \<Rightarrow>
                     inode_unref n
                       (fold (\<lambda>i s. inode_ref n (upd_fd i (\<lambda>f. f\<lparr>finode := n, fflags := (if i = 0 then O_RDONLY else O_WRONLY),
                                fused := True, foffset := 0\<rparr>) s)) [0, 1, 2] s14)))"

subsection \<open>A small tree for concrete checks\<close>

definition blank_vfs :: vfs where
  "blank_vfs = \<lparr>inodes = (\<lambda>_. None), next_addr = 1, next_ino = 1, g_session_uid = 0, g_session_gid = 0, g_root = None,
     g_mounts = [], g_fds = replicate FD_MAX zero_fd, verrno = 0, pit_ticks = 0, rng = 0xDEADBEEF, heap_free = 0, heap_used = 0,
     alloc_ok = (\<lambda>_. True), allocs = 0, fault = False\<rparr>"

subsection \<open>The inode store\<close>

lemma inode_at_upd:
  "inodes s i \<noteq> None \<Longrightarrow> inode_at (upd_inode i f s) j = (if j = i then f (inode_at s i) else inode_at s j)"
  by (auto simp: upd_inode_def inode_at_def split: option.splits)

lemma inode_at_upd_other [simp]: "j \<noteq> i \<Longrightarrow> inode_at (upd_inode i f s) j = inode_at s j"
  by (auto simp: upd_inode_def inode_at_def split: option.splits)

lemma upd_inode_live [simp]: "inodes (upd_inode i f s) j = None \<longleftrightarrow> inodes s j = None"
  by (auto simp: upd_inode_def split: option.splits)

lemma upd_inode_frame [simp]:
  "g_fds (upd_inode i f s) = g_fds s" "g_root (upd_inode i f s) = g_root s" "g_mounts (upd_inode i f s) = g_mounts s"
  "g_session_uid (upd_inode i f s) = g_session_uid s" "g_session_gid (upd_inode i f s) = g_session_gid s"
  "allocs (upd_inode i f s) = allocs s" "alloc_ok (upd_inode i f s) = alloc_ok s" "pit_ticks (upd_inode i f s) = pit_ticks s"
  "verrno (upd_inode i f s) = verrno s"
  by (auto simp: upd_inode_def split: option.splits)

lemma upd_inode_fault [simp]: "inodes s i \<noteq> None \<Longrightarrow> fault (upd_inode i f s) = fault s"
  by (auto simp: upd_inode_def split: option.splits)

lemma inode_at_fields [simp]:
  "inode_at (s\<lparr>fault := b\<rparr>) = inode_at s" "inode_at (s\<lparr>allocs := n\<rparr>) = inode_at s" "inode_at (s\<lparr>g_fds := fs\<rparr>) = inode_at s"
  "inode_at (s\<lparr>verrno := e\<rparr>) = inode_at s" "inode_at (s\<lparr>rng := r\<rparr>) = inode_at s"
  by (auto simp: inode_at_def fun_eq_iff)

lemma now_fields [simp]: "now (upd_inode i f s) = now s" "now (s\<lparr>allocs := n\<rparr>) = now s" "now (s\<lparr>fault := b\<rparr>) = now s"
  by (simp_all add: now_def)

text \<open>An update that keeps a component of the inodes keeps what is read of it.\<close>
lemma inode_at_upd_field: "(\<And>n. F (f n) = F n) \<Longrightarrow> F (inode_at (upd_inode i f s) j) = F (inode_at s j)"
  by (cases "j = i") (auto simp: upd_inode_def inode_at_def split: option.splits)

lemma touch_priv [simp]:
  "ipriv (inode_at (inode_touch_m i s) j) = ipriv (inode_at s j)" "ipriv (inode_at (inode_touch_a i s) j) = ipriv (inode_at s j)"
  "imode (inode_at (inode_touch_m i s) j) = imode (inode_at s j)" "ops (inode_at (inode_touch_m i s) j) = ops (inode_at s j)"
  "refcount (inode_at (inode_touch_m i s) j) = refcount (inode_at s j)"
  "inodes (inode_touch_m i s) j = None \<longleftrightarrow> inodes s j = None"
  "inodes s i \<noteq> None \<Longrightarrow> fault (inode_touch_m i s) = fault s"
  by (simp_all add: inode_touch_m_def inode_touch_a_def inode_at_upd_field)

subsection \<open>File contents\<close>

definition file_ok :: "ramfs_file \<Rightarrow> bool" where
  "file_ok f \<longleftrightarrow> fsize f \<le> length (fdata f) \<and> length (fdata f) = fcapacity f \<and> fcapacity f < 2 ^ 32"

definition content :: "ramfs_file \<Rightarrow> u8 list" where
  "content f = take (fsize f) (fdata f)"

lemma length_content: "file_ok f \<Longrightarrow> length (content f) = fsize f"
  by (simp add: content_def file_ok_def)

lemma file_of_set: "inodes s i \<noteq> None \<Longrightarrow> file_of (set_file i f s) i = Some f"
  by (simp add: file_of_def set_file_def inode_at_upd)

lemma file_of_frame [simp]:
  "file_of (inode_touch_m i s) j = file_of s j" "file_of (upd_inode i (\<lambda>n. n\<lparr>isize := k\<rparr>) s) j = file_of s j"
  "file_of (s\<lparr>fault := b\<rparr>) = file_of s" "file_of (s\<lparr>allocs := n\<rparr>) = file_of s"
  by (auto simp: file_of_def inode_at_upd_field fun_eq_iff)

lemma length_grow: "fsize f \<le> length (fdata f) \<Longrightarrow> fsize f \<le> cap mod 2 ^ 32 \<Longrightarrow> length (ramfs_grow cap f) = cap mod 2 ^ 32"
  by (simp add: ramfs_grow_def Let_def)

lemma grow_content:
  "fsize f \<le> length (fdata f) \<Longrightarrow> fsize f \<le> cap mod 2 ^ 32 \<Longrightarrow>
     ramfs_grow cap f = content f @ replicate (cap mod 2 ^ 32 - fsize f) 0"
  by (simp add: ramfs_grow_def Let_def content_def)

lemma length_overwrite: "off + length bs \<le> length d \<Longrightarrow> length (overwrite off bs d) = length d"
  by (simp add: overwrite_def)

lemma overwrite_nth:
  assumes "off + length bs \<le> length d" "k < length d"
  shows "overwrite off bs d ! k = (if off \<le> k \<and> k < off + length bs then bs ! (k - off) else d ! k)"
  using assms by (auto simp: overwrite_def nth_append min_def)

text \<open>The buffer a write works on: the old one, or a larger copy padded with zeroes.\<close>
definition write_buffer :: "nat \<Rightarrow> ramfs_file \<Rightarrow> u8 list" where
  "write_buffer need f = (if need > fcapacity f then ramfs_grow (need + 512) f else fdata f)"

lemma write_buffer_props:
  assumes "file_ok f" "need + 512 < 2 ^ 32"
  shows "need \<le> length (write_buffer need f)" "fsize f \<le> length (write_buffer need f)" "length (write_buffer need f) < 2 ^ 32"
    "k < fsize f \<Longrightarrow> write_buffer need f ! k = fdata f ! k"
proof -
  have m: "(need + 512) mod 2 ^ 32 = need + 512" using assms(2) by simp
  have g: "need > fcapacity f \<Longrightarrow> ramfs_grow (need + 512) f = content f @ replicate (need + 512 - fsize f) 0"
    using assms grow_content [of f "need + 512"] m by (simp add: file_ok_def)
  show "need \<le> length (write_buffer need f)" "fsize f \<le> length (write_buffer need f)" "length (write_buffer need f) < 2 ^ 32"
    using assms g by (auto simp: write_buffer_def file_ok_def content_def)
  show "k < fsize f \<Longrightarrow> write_buffer need f ! k = fdata f ! k"
    using assms g by (auto simp: write_buffer_def content_def nth_append file_ok_def)
qed

lemma ramfs_write_file:
  assumes "file_of s i = Some f" "inodes s i \<noteq> None" "file_ok f" "off + length bs + 512 < 2 ^ 32" "alloc_ok s (allocs s)"
  shows "snd (ramfs_write_impl i off bs s) = int (length bs)"
    "fault (fst (ramfs_write_impl i off bs s)) = fault s"
    "file_of (fst (ramfs_write_impl i off bs s)) i =
       Some \<lparr>fdata = overwrite off bs (write_buffer (off + length bs) f), fsize = max (fsize f) (off + length bs),
             fcapacity = length (write_buffer (off + length bs) f)\<rparr>"
proof -
  let ?n = "off + length bs"
  have m: "?n mod 2 ^ 64 = ?n" "(?n + 512) mod 2 ^ 64 = ?n + 512" "(?n + 512) mod 2 ^ 32 = ?n + 512" using assms(4) by simp_all
  note w = write_buffer_props [OF assms(3,4)]
  have cap: "?n > fcapacity f \<Longrightarrow> length (ramfs_grow (?n + 512) f) = ?n + 512" "?n > fcapacity f \<Longrightarrow> fsize f \<le> ?n + 512"
    using assms(3) length_grow [of f "?n + 512"] m by (auto simp: file_ok_def)
  show "snd (ramfs_write_impl i off bs s) = int (length bs)"
    using assms(1,5) by (simp add: ramfs_write_impl_def Let_def kalloc_def)
  show "fault (fst (ramfs_write_impl i off bs s)) = fault s"
    unfolding ramfs_write_impl_def Let_def m using assms(1,2,5) w cap
    by (auto simp: kalloc_def set_file_def write_buffer_def split: if_splits)
  show "file_of (fst (ramfs_write_impl i off bs s)) i =
       Some \<lparr>fdata = overwrite off bs (write_buffer ?n f), fsize = max (fsize f) ?n,
             fcapacity = length (write_buffer ?n f)\<rparr>"
    unfolding ramfs_write_impl_def Let_def m using assms(1,2,3,5) w cap
    by (auto simp: kalloc_def file_of_set write_buffer_def file_ok_def split: if_splits)
qed

text \<open>C16. Writing to an in-memory file and reading it back: for offsets and sizes below the 32-bit limit of
  the allocator, and when the allocator can serve the request, a write of \<open>bs\<close> at \<open>off\<close> reports all
  bytes written, extends the size to cover them, keeps every other byte of the file, and a read at the
  same place returns exactly \<open>bs\<close>.\<close>
theorem ramfs_write_read:
  assumes "file_of s i = Some f" "inodes s i \<noteq> None" "file_ok f" "off + length bs + 512 < 2 ^ 32" "alloc_ok s (allocs s)"
    "\<not> S_ISLNK (imode (inode_at s i))" "bs \<noteq> []"
  shows "let (s', r) = ramfs_write_impl i off bs s in
    r = int (length bs) \<and> fault s' = fault s \<and> snd (ramfs_read_impl i off (length bs) s') = (int (length bs), bs) \<and>
    (\<exists>f'. file_of s' i = Some f' \<and> file_ok f' \<and> fsize f' = max (fsize f) (off + length bs) \<and>
       (\<forall>k < fsize f. k < off \<or> off + length bs \<le> k \<longrightarrow> content f' ! k = content f ! k))"
proof -
  let ?n = "off + length bs" and ?s = "fst (ramfs_write_impl i off bs s)"
  let ?b = "write_buffer (off + length bs) f"
  let ?f = "\<lparr>fdata = overwrite off bs ?b, fsize = max (fsize f) ?n, fcapacity = length ?b\<rparr>"
  note w = ramfs_write_file [OF assms(1-5)] and b = write_buffer_props [OF assms(3,4)]
  have len: "length (overwrite off bs ?b) = length ?b" using b(1) by (simp add: length_overwrite)
  have ok: "file_ok ?f" using b len by (simp add: file_ok_def)
  have mode: "imode (inode_at ?s i) = imode (inode_at s i)"
    using assms(1,2) by (auto simp: ramfs_write_impl_def Let_def kalloc_def set_file_def inode_at_upd_field split: prod.split)
  have "take (length bs) (drop off (overwrite off bs ?b)) = bs"
    using b(1) by (simp add: overwrite_def)
  moreover have "min (length bs) (max (fsize f) ?n - off) = length bs" by simp
  ultimately have rd: "snd (ramfs_read_impl i off (length bs) ?s) = (int (length bs), bs)"
    using assms(6,7) mode w(3) by (simp add: ramfs_read_impl_def Let_def)
  have "content ?f ! k = content f ! k" if "k < fsize f" "k < off \<or> ?n \<le> k" for k
    using that b len overwrite_nth [of off bs ?b k] by (auto simp: content_def)
  then show ?thesis using w rd ok by (auto simp: case_prod_beta)
qed

definition demo_file :: ramfs_file where
  "demo_file = \<lparr>fdata = [1, 2, 3, 4, 5, 6, 7, 8], fsize = 8, fcapacity = 8\<rparr>"

definition demo_vfs :: vfs where
  "demo_vfs = blank_vfs\<lparr>inodes := [7 \<mapsto> zero_inode\<lparr>imode := MODE_FILE, ops := Ramfs_ops, ipriv := File_priv demo_file, refcount := 1\<rparr>]\<rparr>"

lemma demo_vfs_facts:
  "file_of demo_vfs 7 = Some demo_file" "inodes demo_vfs 7 \<noteq> None" "file_ok demo_file" "alloc_ok demo_vfs k"
  "\<not> S_ISLNK (imode (inode_at demo_vfs 7))" "\<not> fault demo_vfs"
  by (simp_all add: demo_vfs_def demo_file_def file_of_def inode_at_def file_ok_def blank_vfs_def S_ISLNK_def MODE_FILE_def
      S_IFMT_def S_IFLNK_def S_IFREG_def)

theorem ramfs_write_read_witness:
  "snd (ramfs_read_impl 7 6 4 (fst (ramfs_write_impl 7 6 [9, 9, 9, 9] demo_vfs))) = (4, [9, 9, 9, 9])"
proof -
  have l: "length [9, 9, 9, 9 :: u8] = 4" by simp
  show ?thesis
    using ramfs_write_read [OF demo_vfs_facts(1-3) _ demo_vfs_facts(4,5), of 6 "[9, 9, 9, 9]", unfolded l]
    by (simp add: case_prod_beta)
qed

lemma ramfs_shrink:
  assumes "file_of s i = Some f" "inodes s i \<noteq> None" "sz < fsize f"
  shows "file_of (fst (ramfs_truncate_impl i sz s)) i = Some (f\<lparr>fsize := sz\<rparr>)"
    "inodes (fst (ramfs_truncate_impl i sz s)) i \<noteq> None" "alloc_ok (fst (ramfs_truncate_impl i sz s)) = alloc_ok s"
    "allocs (fst (ramfs_truncate_impl i sz s)) = allocs s"
proof -
  have e: "fst (ramfs_truncate_impl i sz s) =
      inode_touch_m i (upd_inode i (\<lambda>n. n\<lparr>isize := sz\<rparr>) (set_file i (f\<lparr>fsize := sz\<rparr>) s))"
    using assms(1,3) by (simp add: ramfs_truncate_impl_def Let_def)
  show "file_of (fst (ramfs_truncate_impl i sz s)) i = Some (f\<lparr>fsize := sz\<rparr>)"
    unfolding e by (simp add: file_of_set [OF assms(2)])
  show "inodes (fst (ramfs_truncate_impl i sz s)) i \<noteq> None" "alloc_ok (fst (ramfs_truncate_impl i sz s)) = alloc_ok s"
    "allocs (fst (ramfs_truncate_impl i sz s)) = allocs s"
    unfolding e using assms(2) by (simp_all add: set_file_def inode_touch_m_def)
qed

text \<open>Truncating a file does not discard its bytes: when a later write starts beyond the new end and
  fits the buffer, the bytes between the end and the write are the ones that were cut off, where a
  POSIX file reads as zeroes.\<close>
theorem ramfs_truncated_bytes_return:
  assumes "file_of s i = Some f" "inodes s i \<noteq> None" "file_ok f" "sz < fsize f" "sz < off"
    "off + length bs \<le> fcapacity f" "off + length bs + 512 < 2 ^ 32" "alloc_ok s (allocs s)"
    "sz \<le> k" "k < off" "k < fsize f"
  shows "\<exists>f'. file_of (fst (ramfs_write_impl i off bs (fst (ramfs_truncate_impl i sz s)))) i = Some f' \<and>
    content f' ! k = content f ! k"
proof -
  let ?t = "fst (ramfs_truncate_impl i sz s)" and ?g = "f\<lparr>fsize := sz\<rparr>"
  note t = ramfs_shrink [OF assms(1,2,4)]
  have ok: "file_ok ?g" using assms(3,4) by (simp add: file_ok_def)
  have al: "alloc_ok ?t (allocs ?t)" using t(3,4) assms(8) by simp
  note w = ramfs_write_file(3) [OF t(1,2) ok assms(7) al]
  have b: "write_buffer (off + length bs) ?g = fdata f" using assms(6) by (simp add: write_buffer_def)
  have l: "off + length bs \<le> length (fdata f)" using assms(3,6) by (simp add: file_ok_def)
  then have "overwrite off bs (fdata f) ! k = fdata f ! k"
    using overwrite_nth [OF l, of k] assms(10) by simp
  then show ?thesis using w assms(10,11) unfolding b by (simp add: content_def)
qed

theorem ramfs_truncated_bytes_return_witness:
  "\<exists>f'. file_of (fst (ramfs_write_impl 7 6 [9] (fst (ramfs_truncate_impl 7 2 demo_vfs)))) 7 = Some f' \<and> content f' ! 4 = 5"
  using ramfs_truncated_bytes_return [OF demo_vfs_facts(1-3), of 2 6 "[9]" 4] demo_vfs_facts(4)
  by (simp add: demo_file_def content_def)



subsection \<open>Directories are maps from names to inodes\<close>

lemma remove_entry_sub: "set (remove_entry name es) \<subseteq> set es"
  by (induction name es rule: remove_entry.induct) auto

lemma map_of_remove_entry:
  "distinct (map fst es) \<Longrightarrow> map_of (remove_entry name es) n = (if n = name then None else map_of es n)"
proof (induction name es rule: remove_entry.induct)
  case (2 name m i es)
  have "map_of es name = None" if "m = name" using 2(2) that by (simp add: map_of_eq_None_iff)
  then show ?case using 2 by auto
qed simp

lemma distinct_remove_entry: "distinct (map fst es) \<Longrightarrow> distinct (map fst (remove_entry name es))"
proof (induction name es rule: remove_entry.induct)
  case (2 name m i es)
  have "(m, b) \<in> set (remove_entry name es) \<Longrightarrow> m \<in> fst ` set es" for b using remove_entry_sub by force
  then show ?case using 2 by auto
qed simp

definition is_dir :: "vfs \<Rightarrow> nat \<Rightarrow> bool" where
  "is_dir s d \<longleftrightarrow> (\<exists>es c. inodes s d \<noteq> None \<and> ipriv (inode_at s d) = Dir_priv es c \<and> distinct (map fst es))"

lemma kalloc_simps [simp]:
  "inode_at (fst (kalloc s)) = inode_at s" "inodes (fst (kalloc s)) = inodes s" "dentries (fst (kalloc s)) = dentries s"
  "alloc_ok (fst (kalloc s)) = alloc_ok s" "next_addr (fst (kalloc s)) = next_addr s"
  by (auto simp: kalloc_def dentries_def fun_eq_iff)

lemma inode_ref_priv [simp]:
  "ipriv (inode_at (inode_ref i s) j) = ipriv (inode_at s j)" "inodes (inode_ref i s) j = None \<longleftrightarrow> inodes s j = None"
  "imode (inode_at (inode_ref i s) j) = imode (inode_at s j)" "dentries (inode_ref i s) = dentries s"
  "ops (inode_at (inode_ref i s) j) = ops (inode_at s j)" "dentries (inode_touch_m i s) = dentries s"
  by (simp_all add: inode_ref_def inode_at_upd_field dentries_def fun_eq_iff)

lemma dentries_upd: "(\<And>n. ipriv (f n) = ipriv n) \<Longrightarrow> dentries (upd_inode i f s) = dentries s"
  by (simp add: dentries_def fun_eq_iff inode_at_upd_field)

lemma dentries_set: "inodes s d \<noteq> None \<Longrightarrow> dentries (set_dentries d es c s) e = (if e = d then es else dentries s e)"
  by (simp add: dentries_def set_dentries_def inode_at_upd)

lemma dentries_unref:
  "dentries (inode_unref i s) d = (if inodes (inode_unref i s) d = None \<and> inodes s d \<noteq> None then [] else dentries s d)"
proof -
  have a: "ipriv (inode_at (upd_inode i (\<lambda>n. n\<lparr>refcount := refcount n - 1\<rparr>) s) d) = ipriv (inode_at s d)"
    by (rule inode_at_upd_field) simp
  show ?thesis
  proof (cases "d = i \<and> refcount (inode_at (upd_inode i (\<lambda>n. n\<lparr>refcount := refcount n - 1\<rparr>) s) i) \<le> 0")
    case True
    then show ?thesis
      by (auto simp: inode_unref_def Let_def dentries_def inode_at_def zero_inode_def)
  next
    case False
    then show ?thesis using a
      by (auto simp: inode_unref_def Let_def dentries_def inode_at_def)
  qed
qed

text \<open>Adding an entry: the directory's map gains exactly that name.\<close>
lemma dentry_add_spec:
  assumes "inodes s d \<noteq> None" "dentry_add d name i s = (s', 0)"
  shows "dentry_find s' d = (dentry_find s d)(name \<mapsto> i)" "dentry_find s d name = None"
    "e \<noteq> d \<Longrightarrow> dentries s' e = dentries s e" "inodes s' j = None \<longleftrightarrow> inodes s j = None"
proof -
  have c: "dentry_find s d name = None" "snd (kalloc s)" using assms(2)
    by (auto simp: dentry_add_def EEXIST_def ENOSPC_def Let_def split: if_splits prod.splits)
  then show "dentry_find s d name = None" by simp
  have s': "s' = set_dentries d ((name, i) # dentries (inode_ref i (fst (kalloc s))) d) (dcount (inode_ref i (fst (kalloc s))) d + 1)
      (inode_ref i (fst (kalloc s)))"
    using assms(2) c by (simp add: dentry_add_def Let_def case_prod_beta)
  have l: "inodes (inode_ref i (fst (kalloc s))) d \<noteq> None" using assms(1) by simp
  show "dentry_find s' d = (dentry_find s d)(name \<mapsto> i)"
    unfolding s' dentry_find_def using dentries_set [OF l] by (simp add: fun_eq_iff)
  show "e \<noteq> d \<Longrightarrow> dentries s' e = dentries s e" unfolding s' using dentries_set [OF l] by simp
  show "inodes s' j = None \<longleftrightarrow> inodes s j = None" unfolding s' by (simp add: set_dentries_def)
qed

text \<open>Removing an entry: the map loses exactly that name, as long as the directory itself survives.\<close>
lemma dentry_remove_spec:
  assumes "is_dir s d" "dentry_find s d name = Some i" "inodes (fst (dentry_remove d name s)) d \<noteq> None"
    "\<not> fault (fst (dentry_remove d name s))"
  shows "dentry_find (fst (dentry_remove d name s)) d = (dentry_find s d)(name := None)"
    "snd (dentry_remove d name s) = 0"
proof -
  let ?s1 = "set_dentries d (remove_entry name (dentries s d)) (dcount s d) s"
  let ?s2 = "inode_unref i ?s1"
  have r: "dentry_remove d name s = (set_dentries d (dentries ?s2 d) (dcount ?s2 d - 1) ?s2, 0)"
    using assms(2) by (simp add: dentry_remove_def Let_def)
  then show "snd (dentry_remove d name s) = 0" by simp
  have l: "inodes s d \<noteq> None" "distinct (map fst (dentries s d))" using assms(1) by (auto simp: is_dir_def dentries_def)
  have l2: "inodes ?s2 d \<noteq> None" using assms(3) r by (simp add: set_dentries_def)
  have d2: "dentries ?s2 d = remove_entry name (dentries s d)"
    using l2 dentries_set [OF l(1)] by (auto simp: dentries_unref)
  have "dentries (fst (dentry_remove d name s)) d = remove_entry name (dentries s d)"
    unfolding r fst_conv d2 using dentries_set [OF l2] by simp
  then show "dentry_find (fst (dentry_remove d name s)) d = (dentry_find s d)(name := None)"
    unfolding dentry_find_def using map_of_remove_entry [OF l(2)] by (auto simp: fun_eq_iff)
qed

lemma inode_alloc_spec:
  assumes "alloc_ok s (allocs s)"
  shows "snd (inode_alloc op m p s) = Some (next_addr s)"
    "inode_at (fst (inode_alloc op m p s)) j =
       (if j = next_addr s then zero_inode\<lparr>ino := next_ino s, imode := m, iuid := g_session_uid s, igid := g_session_gid s,
           nlink := 1, ops := op, ipriv := p, refcount := 1, atime := now s, mtime := now s, ctime := now s\<rparr>
        else inode_at s j)"
    "inodes (fst (inode_alloc op m p s)) j = None \<longleftrightarrow> j \<noteq> next_addr s \<and> inodes s j = None"
    "alloc_ok (fst (inode_alloc op m p s)) = alloc_ok s" "fault (fst (inode_alloc op m p s)) = fault s"
    "next_addr (fst (inode_alloc op m p s)) = next_addr s + 1"
  using assms by (auto simp: inode_alloc_def kalloc_def Let_def inode_at_def)

lemma dentry_add_ok:
  assumes "inodes s d \<noteq> None" "inodes s i \<noteq> None" "dentry_find s d name = None" "alloc_ok s (allocs s)"
  shows "snd (dentry_add d name i s) = 0"
    "refcount (inode_at (fst (dentry_add d name i s)) j) = refcount (inode_at s j) + (if j = i then 1 else 0)"
    "imode (inode_at (fst (dentry_add d name i s)) j) = imode (inode_at s j)"
    "fault (fst (dentry_add d name i s)) = fault s" "alloc_ok (fst (dentry_add d name i s)) = alloc_ok s"
    "g_fds (fst (dentry_add d name i s)) = g_fds s"
proof -
  let ?s1 = "fst (kalloc s)"
  have e: "dentry_add d name i s = (set_dentries d ((name, i) # dentries (inode_ref i ?s1) d) (dcount (inode_ref i ?s1) d + 1) (inode_ref i ?s1), 0)"
    using assms(3,4) by (simp add: dentry_add_def Let_def case_prod_beta kalloc_def)
  show "snd (dentry_add d name i s) = 0" by (simp add: e)
  show "refcount (inode_at (fst (dentry_add d name i s)) j) = refcount (inode_at s j) + (if j = i then 1 else 0)"
    using assms(1,2) by (simp add: e set_dentries_def inode_ref_def inode_at_upd)
  show "imode (inode_at (fst (dentry_add d name i s)) j) = imode (inode_at s j)"
    by (simp add: e set_dentries_def inode_at_upd_field)
  show "fault (fst (dentry_add d name i s)) = fault s" "alloc_ok (fst (dentry_add d name i s)) = alloc_ok s"
    "g_fds (fst (dentry_add d name i s)) = g_fds s"
    using assms(1,2) by (simp_all add: e set_dentries_def inode_ref_def kalloc_def)
qed

lemma inode_unref_alive:
  assumes "inodes s i \<noteq> None" "1 < refcount (inode_at s i)"
  shows "inodes (inode_unref i s) j = None \<longleftrightarrow> inodes s j = None"
    "refcount (inode_at (inode_unref i s) j) = refcount (inode_at s j) - (if j = i then 1 else 0)"
    "imode (inode_at (inode_unref i s) j) = imode (inode_at s j)" "dentries (inode_unref i s) = dentries s"
    "fault (inode_unref i s) = fault s" "alloc_ok (inode_unref i s) = alloc_ok s"
proof -
  have e: "inode_unref i s = upd_inode i (\<lambda>n. n\<lparr>refcount := refcount n - 1\<rparr>) s"
    using assms by (simp add: inode_unref_def Let_def inode_at_upd)
  show "inodes (inode_unref i s) j = None \<longleftrightarrow> inodes s j = None" "imode (inode_at (inode_unref i s) j) = imode (inode_at s j)"
    "dentries (inode_unref i s) = dentries s" "fault (inode_unref i s) = fault s" "alloc_ok (inode_unref i s) = alloc_ok s"
    using assms(1) by (simp_all add: e inode_at_upd_field dentries_upd)
  show "refcount (inode_at (inode_unref i s) j) = refcount (inode_at s j) - (if j = i then 1 else 0)"
    using assms(1) by (simp add: e inode_at_upd)
qed

lemma dentry_find_unref: "inodes s i \<noteq> None \<Longrightarrow> 1 < refcount (inode_at s i) \<Longrightarrow> dentry_find (inode_unref i s) = dentry_find s"
  by (simp add: dentry_find_def fun_eq_iff inode_unref_alive)

lemma is_dir_cong: "dentries s' d = dentries s d \<Longrightarrow> is_dir s d \<Longrightarrow> (inodes s' d = None \<longleftrightarrow> inodes s d = None) \<Longrightarrow>
    (\<exists>es c. ipriv (inode_at s' d) = Dir_priv es c) \<Longrightarrow> is_dir s' d"
  by (auto simp: is_dir_def dentries_def)

lemma create_alloc_ok:
  assumes "\<forall>k. alloc_ok s k" "inodes s (next_addr s) = None" "is_dir s d" "dentry_find s d name = None" "\<not> fault s"
  obtains s' where "ramfs_create_impl d name m True s = (s', 0, Some (next_addr s))"
    "dentry_find s' d = (dentry_find s d)(name \<mapsto> next_addr s)" "refcount (inode_at s' (next_addr s)) = 2"
    "imode (inode_at s' (next_addr s)) = m" "inodes s' (next_addr s) \<noteq> None" "inodes s' d \<noteq> None" "\<not> fault s'"
    "file_of s' (next_addr s) = Some \<lparr>fdata = [], fsize = 0, fcapacity = 0\<rparr>" "next_addr s \<noteq> d"
    "distinct (map fst (dentries s' d))" "\<exists>es c. ipriv (inode_at s' d) = Dir_priv es c" "\<forall>k. alloc_ok s' k"
proof -
  let ?i = "next_addr s" and ?s1 = "fst (kalloc s)"
  let ?f = "\<lparr>fdata = [], fsize = 0, fcapacity = 0\<rparr> :: ramfs_file"
  define s2 where "s2 = fst (inode_alloc Ramfs_ops m (File_priv ?f) ?s1)"
  define s3 where "s3 = fst (dentry_add d name ?i s2)"
  define s5 where "s5 = inode_ref ?i (inode_touch_m d s3)"
  have d: "inodes s d \<noteq> None" "distinct (map fst (dentries s d))" using assms(3) by (auto simp: is_dir_def dentries_def)
  then have ne: "?i \<noteq> d" using assms(2) by auto
  note a = inode_alloc_spec [of ?s1 Ramfs_ops m "File_priv ?f", folded s2_def]
  have ok1: "alloc_ok ?s1 (allocs ?s1)" using assms(1) by simp
  have d2: "inodes s2 d \<noteq> None" "inodes s2 ?i \<noteq> None" "dentries s2 d = dentries s d"
    using a(2,3) [OF ok1] d(1) ne by (simp_all add: dentries_def)
  have f2: "dentry_find s2 d name = None" "alloc_ok s2 (allocs s2)" using d2(3) assms(1,4) a(4) [OF ok1] by (simp_all add: dentry_find_def)
  have r3: "dentry_add d name ?i s2 = (s3, 0)" using dentry_add_ok(1) [OF d2(1,2) f2] by (simp add: s3_def prod_eq_iff)
  note b = dentry_add_ok(2-5) [OF d2(1,2) f2, folded s3_def] and c = dentry_add_spec [OF d2(1) r3]
  have i3: "inodes s3 ?i \<noteq> None" "inodes s3 d \<noteq> None" using c(4) d2 by simp_all
  have i5: "inodes s5 ?i \<noteq> None" "refcount (inode_at s5 ?i) = 3"
    using i3 b(1) a(2) [OF ok1] by (simp_all add: s5_def inode_ref_def inode_at_upd)
  note u = inode_unref_alive [of s5 ?i, OF i5(1)]
  have al: "snd (inode_alloc Ramfs_ops m (File_priv ?f) ?s1) = Some ?i" using a(1) [OF ok1] by simp
  have cr: "ramfs_create_impl d name m True s = (inode_unref ?i s5, 0, Some ?i)"
    using assms(1,4) al r3 by (simp add: ramfs_create_impl_def Let_def case_prod_beta kalloc_def s5_def s2_def split: prod.splits)
  define s2' where "s2' = inode_ref ?i (fst (kalloc s2))"
  have s3e: "s3 = set_dentries d ((name, ?i) # dentries s2' d) (dcount s2' d + 1) s2'"
    using r3 f2 by (simp add: dentry_add_def Let_def case_prod_beta kalloc_def s2'_def)
  have p3: "ipriv (inode_at s3 ?i) = File_priv ?f" "\<exists>es c. ipriv (inode_at s3 d) = Dir_priv es c"
    using s3e ne d2(1,2) a(2) [OF ok1] by (simp_all add: set_dentries_def inode_at_upd s2'_def)
  have p: "ipriv (inode_at (inode_unref ?i s5) j) = ipriv (inode_at s3 j)" for j
    using i5 by (simp add: inode_unref_def Let_def inode_at_upd s5_def)
  have df: "dentries (inode_unref ?i s5) d = (name, ?i) # dentries s d"
  proof -
    have "dentries s3 d = (name, ?i) # dentries s2 d"
      using d2(1) by (simp add: s3e dentries_set s2'_def)
    then show ?thesis using p d2(3) by (simp add: dentries_def)
  qed
  show ?thesis
  proof (rule that [OF cr])
    show "dentry_find (inode_unref ?i s5) d = (dentry_find s d)(name \<mapsto> ?i)" by (auto simp: dentry_find_def df fun_eq_iff)
    show "refcount (inode_at (inode_unref ?i s5) ?i) = 2" using u(2) i5 by simp
    show "imode (inode_at (inode_unref ?i s5) ?i) = m" using u(3) i5 b(2) a(2) [OF ok1] by (simp add: s5_def)
    show "inodes (inode_unref ?i s5) ?i \<noteq> None" "inodes (inode_unref ?i s5) d \<noteq> None" using u(1) i5 i3 by (simp_all add: s5_def)
    show "\<not> fault (inode_unref ?i s5)" using u(5) i5 i3 b(3) a(5) [OF ok1] assms(5)
      by (simp add: s5_def inode_ref_def kalloc_def)
    show "file_of (inode_unref ?i s5) ?i = Some ?f" using p p3(1) by (simp add: file_of_def)
    show "distinct (map fst (dentries (inode_unref ?i s5) d))" using df d(2) assms(4) by (simp add: dentry_find_def map_of_eq_None_iff)
    show "\<exists>es c. ipriv (inode_at (inode_unref ?i s5) d) = Dir_priv es c" using p p3(2) by simp
    show "\<forall>k. alloc_ok (inode_unref ?i s5) k" using u(6) i5 b(4) a(4) [OF ok1] assms(1) by (simp add: s5_def inode_ref_def inode_touch_m_def)
  qed (use ne in simp)
qed

lemma dentry_remove_alive:
  assumes "is_dir s d" "dentry_find s d name = Some i" "inodes s i \<noteq> None" "1 < refcount (inode_at s i)" "i \<noteq> d"
  shows "snd (dentry_remove d name s) = 0"
    "dentry_find (fst (dentry_remove d name s)) d = (dentry_find s d)(name := None)"
    "inodes (fst (dentry_remove d name s)) j = None \<longleftrightarrow> inodes s j = None"
    "refcount (inode_at (fst (dentry_remove d name s)) i) = refcount (inode_at s i) - 1"
    "ipriv (inode_at (fst (dentry_remove d name s)) i) = ipriv (inode_at s i)"
    "fault (fst (dentry_remove d name s)) = fault s"
proof -
  let ?s1 = "set_dentries d (remove_entry name (dentries s d)) (dcount s d) s"
  let ?s2 = "inode_unref i ?s1"
  have r: "dentry_remove d name s = (set_dentries d (dentries ?s2 d) (dcount ?s2 d - 1) ?s2, 0)"
    using assms(2) by (simp add: dentry_remove_def Let_def)
  then show "snd (dentry_remove d name s) = 0" by simp
  have l: "inodes s d \<noteq> None" "distinct (map fst (dentries s d))" using assms(1) by (auto simp: is_dir_def dentries_def)
  have l1: "inodes ?s1 i \<noteq> None" "inode_at ?s1 i = inode_at s i"
    using assms(3,5) by (simp_all add: set_dentries_def)
  note u = inode_unref_alive [of ?s1 i, OF l1(1)]
  have u1: "1 < refcount (inode_at ?s1 i)" using assms(4) l1(2) by simp
  have l2: "inodes ?s2 d \<noteq> None" using u(1) [OF u1] l(1) by (simp add: set_dentries_def)
  have d2: "dentries ?s2 d = remove_entry name (dentries s d)" using u(4) [OF u1] dentries_set [OF l(1)] by simp
  have "dentries (fst (dentry_remove d name s)) d = remove_entry name (dentries s d)"
    unfolding r fst_conv d2 using dentries_set [OF l2] by simp
  then show "dentry_find (fst (dentry_remove d name s)) d = (dentry_find s d)(name := None)"
    unfolding dentry_find_def using map_of_remove_entry [OF l(2)] by (auto simp: fun_eq_iff)
  show "inodes (fst (dentry_remove d name s)) j = None \<longleftrightarrow> inodes s j = None"
    unfolding r using u(1) [OF u1, of j] by (simp add: set_dentries_def)
  have keep: "inode_at (fst (dentry_remove d name s)) i = inode_at ?s2 i"
    unfolding r using assms(5) by (simp add: set_dentries_def)
  show "refcount (inode_at (fst (dentry_remove d name s)) i) = refcount (inode_at s i) - 1"
    unfolding keep using u(2) [OF u1, of i] l1(2) by simp
  show "ipriv (inode_at (fst (dentry_remove d name s)) i) = ipriv (inode_at s i)"
    unfolding keep using l1 u1 by (simp add: inode_unref_def Let_def inode_at_upd)
  show "fault (fst (dentry_remove d name s)) = fault s"
    unfolding r using u(5) [OF u1] l(1) l2 by (simp add: set_dentries_def)
qed

lemma ramfs_unlink_alive:
  assumes "is_dir s d" "dentry_find s d name = Some i" "inodes s i \<noteq> None" "1 < refcount (inode_at s i)" "i \<noteq> d"
    "\<not> S_ISDIR (imode (inode_at s i))"
  shows "snd (ramfs_unlink_impl d name s) = 0"
    "dentry_find (fst (ramfs_unlink_impl d name s)) d = (dentry_find s d)(name := None)"
    "inodes (fst (ramfs_unlink_impl d name s)) i \<noteq> None"
    "refcount (inode_at (fst (ramfs_unlink_impl d name s)) i) = refcount (inode_at s i) - 1"
    "file_of (fst (ramfs_unlink_impl d name s)) i = file_of s i"
proof -
  define t where "t = upd_inode i (\<lambda>n. n\<lparr>nlink := nlink n - 1\<rparr>) s"
  have e: "ramfs_unlink_impl d name s = (inode_touch_m d (fst (dentry_remove d name t)), snd (dentry_remove d name t))"
    using assms(2,6) by (simp add: ramfs_unlink_impl_def Let_def case_prod_beta t_def)
  have f: "dentries t = dentries s" "ipriv (inode_at t j) = ipriv (inode_at s j)"
      "refcount (inode_at t j) = refcount (inode_at s j)" "inodes t j = None \<longleftrightarrow> inodes s j = None" for j
    by (simp_all add: t_def dentries_upd inode_at_upd_field)
  have dt: "is_dir t d" "dentry_find t d name = Some i" "inodes t i \<noteq> None" "1 < refcount (inode_at t i)"
    using assms f by (simp_all add: is_dir_def dentry_find_def)
  note r = dentry_remove_alive [OF dt assms(5)]
  show "snd (ramfs_unlink_impl d name s) = 0" "inodes (fst (ramfs_unlink_impl d name s)) i \<noteq> None"
    "refcount (inode_at (fst (ramfs_unlink_impl d name s)) i) = refcount (inode_at s i) - 1"
    unfolding e using r(1,4) r(3) [of i] f assms(3) by simp_all
  show "dentry_find (fst (ramfs_unlink_impl d name s)) d = (dentry_find s d)(name := None)"
    unfolding e using r(2) f(1) by (simp add: dentry_find_def fun_eq_iff)
  show "file_of (fst (ramfs_unlink_impl d name s)) i = file_of s i"
    unfolding e using r(5) f(2) [of i] by (simp add: file_of_def)
qed

lemma inode_unref_last:
  assumes "inodes s i \<noteq> None" "refcount (inode_at s i) = 1"
  shows "inodes (inode_unref i s) i = None"
  using assms by (simp add: inode_unref_def Let_def inode_at_upd)

text \<open>The life of a file in a directory: creating a new name adds exactly that name to the directory's
  map, a lookup then finds the new inode, creating it again fails with \<open>EEXIST\<close>, and unlinking restores
  the directory's map.  The file outlives its name as long as the creator holds its reference, contents included, and
  is freed when that reference is given up.\<close>
theorem ramfs_create_unlink:
  assumes "\<forall>k. alloc_ok s k" "inodes s (next_addr s) = None" "is_dir s d" "dentry_find s d name = None" "\<not> fault s"
    "\<not> S_ISDIR m" "name \<noteq> ''.''" "name \<noteq> ''..''"
  shows "let i = next_addr s; (s1, r, out) = ramfs_create_impl d name m True s; (s2, r2) = ramfs_unlink_impl d name s1 in
    r = 0 \<and> out = Some i \<and> \<not> fault s1 \<and> dentry_find s1 d = (dentry_find s d)(name \<mapsto> i) \<and>
    snd (ramfs_lookup d name s1) = (0, Some i) \<and> fst (snd (ramfs_create_impl d name m2 True s1)) = - EEXIST \<and>
    r2 = 0 \<and> dentry_find s2 d = dentry_find s d \<and> snd (ramfs_lookup d name s2) = (- ENOENT, None) \<and>
    file_of s2 i = file_of s1 i \<and> inodes s2 i \<noteq> None \<and> inodes (inode_unref i s2) i = None"
proof -
  let ?i = "next_addr s"
  obtain s1 where c: "ramfs_create_impl d name m True s = (s1, 0, Some ?i)"
    "dentry_find s1 d = (dentry_find s d)(name \<mapsto> ?i)" "refcount (inode_at s1 ?i) = 2"
    "imode (inode_at s1 ?i) = m" "inodes s1 ?i \<noteq> None" "inodes s1 d \<noteq> None" "\<not> fault s1" "?i \<noteq> d"
    "distinct (map fst (dentries s1 d))" "\<exists>es c. ipriv (inode_at s1 d) = Dir_priv es c"
    by (rule create_alloc_ok [OF assms(1-5), of m])
  have dir: "is_dir s1 d" using c(6,9,10) by (auto simp: is_dir_def dentries_def)
  have f: "dentry_find s1 d name = Some ?i" using c(2) by simp
  have pre: "1 < refcount (inode_at s1 ?i)" "\<not> S_ISDIR (imode (inode_at s1 ?i))" using c(3,4) assms(6) by simp_all
  note u = ramfs_unlink_alive [OF dir f c(5) pre(1) c(8) pre(2)]
  have restored: "dentry_find (fst (ramfs_unlink_impl d name s1)) d = dentry_find s d"
    using u(2) c(2) assms(4) by (auto simp: fun_eq_iff)
  have gone: "inodes (inode_unref ?i (fst (ramfs_unlink_impl d name s1))) ?i = None"
    using inode_unref_last u(3,4) c(3) by simp
  show ?thesis using c u restored gone assms(4,7,8) f
    by (simp add: Let_def case_prod_beta ramfs_lookup_def ramfs_create_impl_def)
qed

definition demo_dir :: vfs where
  "demo_dir = fst (ramfs_create_root blank_vfs)"

lemma demo_dir_facts:
  "\<forall>k. alloc_ok demo_dir k" "inodes demo_dir (next_addr demo_dir) = None" "is_dir demo_dir 1"
  "dentry_find demo_dir 1 ''a'' = None" "\<not> fault demo_dir" "next_addr demo_dir = 2"
  by (simp_all add: demo_dir_def ramfs_create_root_def kalloc_def inode_alloc_def Let_def blank_vfs_def upd_inode_def
      dentry_add_def dentry_find_def dentries_def inode_at_def is_dir_def inode_ref_def set_dentries_def)

theorem ramfs_create_unlink_witness:
  "dentry_find (fst (ramfs_create_impl 1 ''a'' MODE_FILE True demo_dir)) 1 ''a'' = Some 2 \<and>
   snd (ramfs_lookup 1 ''a'' (fst (ramfs_unlink_impl 1 ''a'' (fst (ramfs_create_impl 1 ''a'' MODE_FILE True demo_dir))))) = (- ENOENT, None)"
proof -
  have "\<not> S_ISDIR MODE_FILE" by (simp add: S_ISDIR_def MODE_FILE_def S_IFREG_def S_IFMT_def S_IFDIR_def)
  then show ?thesis using ramfs_create_unlink [OF demo_dir_facts(1-5), of MODE_FILE] demo_dir_facts(6)
    by (simp add: Let_def case_prod_beta)
qed

subsection \<open>Resolving symbolic links\<close>

lemma unref_ref: "inodes s i \<noteq> None \<Longrightarrow> 0 < refcount (inode_at s i) \<Longrightarrow> inode_unref i (inode_ref i s) = s"
  by (auto simp: inode_unref_def inode_ref_def upd_inode_def inode_at_def Let_def fun_upd_idem_iff)

definition plain_name :: "string \<Rightarrow> bool" where
  "plain_name n \<longleftrightarrow> n \<noteq> '''' \<and> n \<noteq> ''.'' \<and> n \<noteq> ''..'' \<and> CHR ''/'' \<notin> set n \<and> length n \<le> VFS_NAME_MAX"

lemma take_comp_plain: "plain_name n \<Longrightarrow> take_comp n = (n, [])"
proof -
  assume a: "plain_name n"
  then have "takeWhile (\<lambda>c. c \<noteq> CHR ''/'') n = n" by (subst takeWhile_eq_all_conv) (auto simp: plain_name_def)
  then show ?thesis unfolding take_comp_def Let_def using a by (simp add: plain_name_def del: takeWhile_eq_all_conv)
qed

text \<open>Symbolic link \<open>name\<close> in the root directory \<open>r\<close>, whose inode is \<open>l\<close>.\<close>
definition root_link :: "vfs \<Rightarrow> nat \<Rightarrow> string \<Rightarrow> nat \<Rightarrow> string \<Rightarrow> bool" where
  "root_link s r name l target \<longleftrightarrow>
     g_root s = Some r \<and> ops (inode_at s r) = Ramfs_dir_ops \<and> dentry_find s r name = Some l \<and> inodes s l \<noteq> None \<and>
     0 < refcount (inode_at s l) \<and> S_ISLNK (imode (inode_at s l)) \<and> ipriv (inode_at s l) = Link_priv target \<and>
     ops (inode_at s l) = Ramfs_ops"

lemma walk_root_link:
  assumes "root_link s r name l target" "plain_name name" "length target < VFS_PATH_MAX"
  shows "walk_path r name buf False s = (s, Restart (link_path buf target []))"
proof -
  have lk: "op_lookup r name s = Some (inode_ref l s, 0, Some l)"
    using assms by (simp add: op_lookup_def ramfs_lookup_def root_link_def plain_name_def)
  have rl: "op_readlink l VFS_PATH_MAX (inode_ref l s) = Some (int (length target), target)"
    using assms(1,3) by (simp add: op_readlink_def root_link_def ramfs_readlink_impl_def)
  have lnk: "S_ISLNK (imode (inode_at (inode_ref l s) l))" using assms(1) by (simp add: root_link_def)
  have u: "inode_unref l (inode_ref l s) = s" using assms(1) by (simp add: root_link_def unref_ref)
  show ?thesis
    using assms(2) take_comp_plain [OF assms(2)] lk rl u lnk
    by (subst walk_path.simps) (simp add: plain_name_def)
qed

lemma resolve_from_loop:
  assumes "root_link s r name l (''/'' @ name)" "plain_name name" "length name + 1 < VFS_PATH_MAX"
    "mount_for_path s (''/'' @ name) = None"
  shows "resolve_from (''/'' @ name) False hops s = (set_errno ELOOP s, None)"
proof (induction "Suc VFS_SYMLINK_MAX - hops" arbitrary: hops)
  case 0
  then show ?case by (subst resolve_from.simps) simp
next
  case (Suc n)
  have st: "start_point s (''/'' @ name) = (Some r, name)" using assms(1,4) by (simp add: start_point_def root_link_def)
  have lp: "link_path buf (''/'' @ name) [] = ''/'' @ name" for buf by (simp add: link_path_def)
  have w: "walk_path r name (''/'' @ name) False s = (s, Restart (''/'' @ name))"
    using walk_root_link [OF assms(1,2)] assms(3) lp by simp
  have "resolve_from (''/'' @ name) False (Suc hops) s = (set_errno ELOOP s, None)" using Suc by simp
  then show ?case using st w Suc(2) by (subst resolve_from.simps) simp
qed


definition demo_link :: vfs where
  "demo_link = blank_vfs\<lparr>g_root := Some 1,
     inodes := [1 \<mapsto> zero_inode\<lparr>imode := MODE_DIR, ops := Ramfs_dir_ops, ipriv := Dir_priv [(''a'', 2)] 1, refcount := 1\<rparr>,
                2 \<mapsto> zero_inode\<lparr>imode := MODE_LINK, ops := Ramfs_ops, ipriv := Link_priv ''/a'', refcount := 1\<rparr>]\<rparr>"


text \<open>C29. \<open>resolve_path\<close> hands out the root directory without taking a reference, while its callers give one
  back: each \<open>stat\<close> of \<open>/\<close> lowers the root's count by one, and with a count of \<open>n\<close> the
  \<open>n\<close>-th call frees the root directory, which \<open>g_root\<close> keeps pointing at.\<close>
theorem stat_root_frees_root:
  assumes "g_root s = Some r" "inodes s r \<noteq> None" "refcount (inode_at s r) = int n" "0 < n"
  shows "inodes (((\<lambda>s. fst (vfs_stat ''/'' s)) ^^ n) s) r = None \<and> g_root (((\<lambda>s. fst (vfs_stat ''/'' s)) ^^ n) s) = Some r"
  using assms
proof (induction n arbitrary: s)
  case (Suc n)
  have e: "fst (vfs_stat ''/'' s) = inode_unref r s" using Suc(2) by (simp add: vfs_stat_def vfs_stat_path_def resolve_path_def)
  have g: "g_root (inode_unref r s) = Some r" using Suc(2) by (simp add: inode_unref_def Let_def)
  show ?case
  proof (cases n)
    case 0
    then show ?thesis using e g inode_unref_last Suc(3,4) by simp
  next
    case (Suc k)
    have "1 < refcount (inode_at s r)" using Suc Suc.prems(3) by simp
    then have "inodes (inode_unref r s) r \<noteq> None" "refcount (inode_at (inode_unref r s) r) = int n"
      using inode_unref_alive(1,2) [OF Suc.prems(2), where j = r] Suc.prems by simp_all
    then show ?thesis using Suc.IH [OF g] Suc e by (simp add: funpow_Suc_right del: funpow.simps)
  qed
qed simp

theorem stat_root_frees_root_witness: "inodes (((\<lambda>s. fst (vfs_stat ''/'' s)) ^^ 1) demo_link) 1 = None"
  using stat_root_frees_root [of demo_link 1 1] by (simp add: demo_link_def inode_at_def)

subsection \<open>Descriptors\<close>

text \<open>What path resolution and the directory operations leave alone: the descriptor table and the session's
  identity.\<close>
definition fds_frame :: "vfs \<Rightarrow> vfs \<Rightarrow> bool" where
  "fds_frame s s' \<longleftrightarrow> g_fds s' = g_fds s \<and> g_session_uid s' = g_session_uid s \<and> g_session_gid s' = g_session_gid s"

lemma fds_frame_refl [simp]: "fds_frame s s"
  by (simp add: fds_frame_def)

lemma fds_frame_trans: "fds_frame s t \<Longrightarrow> fds_frame t u \<Longrightarrow> fds_frame s u"
  by (simp add: fds_frame_def)

lemma fds_frame_basic [simp]:
  "fds_frame s (upd_inode i f t) = fds_frame s t" "fds_frame s (set_errno e t) = fds_frame s t"
  "fds_frame s (inode_unref i t) = fds_frame s t" "fds_frame s (inode_ref i t) = fds_frame s t"
  "fds_frame s (t\<lparr>fault := b\<rparr>) = fds_frame s t" "fds_frame s (inode_touch_m i t) = fds_frame s t"
  "fds_frame s (inode_touch_a i t) = fds_frame s t"
  "fds_frame s (set_dentries d es c t) = fds_frame s t" "fds_frame s (set_file i fl t) = fds_frame s t"
  "fds_frame s (t\<lparr>inodes := m\<rparr>) = fds_frame s t" "fds_frame s (t\<lparr>allocs := n\<rparr>) = fds_frame s t"
  "fds_frame s (fst (kalloc t)) = fds_frame s t"
  by (simp_all add: fds_frame_def set_errno_def inode_unref_def inode_ref_def Let_def inode_touch_m_def inode_touch_a_def
      set_dentries_def set_file_def kalloc_def)

lemma fds_frame_require [simp]: "fds_frame s (fst (vfs_require i w t)) = fds_frame s t"
  by (simp add: vfs_require_def)

lemma fds_frame_alloc [simp]: "fds_frame s (fst (inode_alloc op m p t)) = fds_frame s t"
  by (auto simp: inode_alloc_def kalloc_def Let_def fds_frame_def)

lemma fds_frame_dentry_add [simp]: "fds_frame s (fst (dentry_add d name i t)) = fds_frame s t"
  by (simp add: dentry_add_def Let_def case_prod_beta)

lemma fds_frame_create [simp]: "fds_frame s (fst (ramfs_create_impl d name m want t)) = fds_frame s t"
  using fds_frame_alloc [of s Ramfs_ops m "File_priv \<lparr>fdata = [], fsize = 0, fcapacity = 0\<rparr>" "fst (kalloc t)"]
  by (auto simp: ramfs_create_impl_def Let_def case_prod_beta split: prod.splits option.splits)

lemma fds_frame_truncate [simp]: "op_truncate i sz t = Some (u, r) \<Longrightarrow> fds_frame s u = fds_frame s t"
  by (auto simp: op_truncate_def ramfs_truncate_impl_def no_file_def Let_def case_prod_beta split: option.splits if_splits)

lemma fds_frame_lookup: "op_lookup d name s = Some (s1, r, nx) \<Longrightarrow> fds_frame t s1 = fds_frame t s"
  by (auto simp: op_lookup_def ramfs_lookup_def split: if_splits option.splits)

lemma fds_frame_walk: "fds_frame t s \<Longrightarrow> fds_frame t (fst (walk_path cur rel buf nofollow s))"
proof (induction cur rel buf nofollow s rule: walk_path.induct)
  case (1 cur rel buf nofollow s)
  then show ?case
    by (subst walk_path.simps) (auto simp: Let_def fds_frame_lookup split: prod.splits option.splits)
qed

lemma fds_frame_resolve_from: "fds_frame t s \<Longrightarrow> fds_frame t (fst (resolve_from buf nofollow hops s))"
proof (induction buf nofollow hops s rule: resolve_from.induct)
  case (1 buf nofollow hops s)
  have "fds_frame t s1" if "walk_path cur rel buf nofollow s = (s1, w)" for cur rel s1 w
    using fds_frame_walk [OF "1.prems", of cur rel buf nofollow] that by simp
  then show ?case using 1
    by (subst resolve_from.simps) (auto split: prod.splits option.splits walk_end.splits)
qed

lemma fds_frame_resolve: "resolve_path path nofollow s = (s1, r) \<Longrightarrow> fds_frame s s1"
  using fds_frame_resolve_from [of s s path nofollow 0] by (auto simp: resolve_path_def split: if_splits)

lemma fd_alloc_SomeD: "fd_alloc s = (s1, Some fd) \<Longrightarrow> s1 = s \<and> 3 \<le> fd \<and> fd < FD_MAX \<and> \<not> fused (g_fds s ! fd) \<and>
    (\<forall>k. 3 \<le> k \<longrightarrow> k < fd \<longrightarrow> fused (g_fds s ! k))"
  by (auto simp: fd_alloc_def split: option.splits dest: first_idx_Some)

text \<open>Installing a descriptor: the lowest free one from 3, every other one untouched.\<close>
definition installs :: "vfs \<Rightarrow> vfs \<Rightarrow> nat \<Rightarrow> nat \<Rightarrow> u32 \<Rightarrow> bool" where
  "installs s s' fd i flags \<longleftrightarrow>
     3 \<le> fd \<and> fd < FD_MAX \<and> \<not> fused (g_fds s ! fd) \<and> (\<forall>k. 3 \<le> k \<longrightarrow> k < fd \<longrightarrow> fused (g_fds s ! k)) \<and>
     fused (g_fds s' ! fd) \<and> finode (g_fds s' ! fd) = i \<and> fflags (g_fds s' ! fd) = flags \<and>
     (\<forall>k. k \<noteq> fd \<longrightarrow> g_fds s' ! k = g_fds s ! k)"

lemma open_inode_installs:
  assumes "open_inode path flags i t = (s', fd)" "0 \<le> fd" "fds_frame s t" "length (g_fds s) = FD_MAX"
  shows "installs s s' (nat fd) i flags"
proof -
  obtain k where k: "fd_alloc t = (t, Some k)" "fd = int k"
    using assms(1,2) by (auto simp: open_inode_def Let_def dest: fd_alloc_SomeD split: prod.splits option.splits)
  define t2 where "t2 = upd_fd k (\<lambda>f. f\<lparr>finode := i, fflags := flags, fused := True,
      fcloexec := flags AND O_CLOEXEC \<noteq> 0, fpath := path\<rparr>) t"
  define t3 where "t3 = (if flags AND O_TRUNC \<noteq> 0 then (case op_truncate i 0 t2 of None \<Rightarrow> t2 | Some (s', r) \<Rightarrow> s') else t2)"
  have f3: "fds_frame t2 t3" by (auto simp: t3_def split: option.splits)
  have "open_inode path flags i t =
      (upd_fd k (\<lambda>f. f\<lparr>foffset := (if flags AND O_APPEND \<noteq> 0 then isize (inode_at t3 i) else 0)\<rparr>) t3, int k)"
    unfolding open_inode_def k(1) prod.case option.case Let_def t2_def t3_def by (rule refl)
  then have s': "s' = upd_fd k (\<lambda>f. f\<lparr>foffset := (if flags AND O_APPEND \<noteq> 0 then isize (inode_at t3 i) else 0)\<rparr>) t3"
    using assms(1) by simp
  have fds: "g_fds t = g_fds s" "g_fds t3 = g_fds t2" using assms(3) f3 by (simp_all add: fds_frame_def)
  show ?thesis using fd_alloc_SomeD [OF k(1)] k(2) assms(4)
    by (simp add: installs_def s' upd_fd_def fds t2_def)
qed

definition open_wanted :: "u32 \<Rightarrow> u32" where
  "open_wanted flags = (if flags AND O_ACCMODE \<noteq> O_WRONLY then PERM_R else 0) OR (if flags AND O_ACCMODE \<noteq> O_RDONLY then PERM_W else 0)"

lemma vfs_require_ok: "vfs_require i w s = (s', q) \<Longrightarrow> \<not> q < 0 \<Longrightarrow> s' = s \<and> vfs_access s i w"
  by (auto simp: vfs_require_def split: if_splits)

text \<open>C10. Opening a file grants no more than the mode bits allow.  When \<open>vfs_open\<close> returns a
  descriptor, it is the lowest free one from 3 and no other descriptor has changed, and either the path named
  an existing inode for which the session has the access it asked for (never a directory opened for writing,
  never with \<open>O_CREAT|O_EXCL\<close>), or the file was created in a directory in which the session may write and search.\<close>
theorem vfs_open_grants:
  assumes "vfs_open path flags m s = (s', fd)" "0 \<le> fd" "length (g_fds s) = FD_MAX"
  shows "\<exists>i. installs s s' (nat fd) i flags \<and>
    ((\<exists>s1. resolve_path path (flags AND O_NOFOLLOW \<noteq> 0) s = (s1, Some i) \<and> vfs_access s1 (Some i) (open_wanted flags) \<and>
        \<not> (S_ISDIR (imode (inode_at s1 i)) \<and> flags AND (O_WRONLY OR O_RDWR) \<noteq> 0) \<and>
        \<not> (flags AND O_CREAT \<noteq> 0 \<and> flags AND O_EXCL \<noteq> 0)) \<or>
     (\<exists>s1 s2 p. resolve_path path (flags AND O_NOFOLLOW \<noteq> 0) s = (s1, None) \<and> flags AND O_CREAT \<noteq> 0 \<and>
        resolve_path (fst (path_split path)) False s1 = (s2, Some p) \<and> vfs_access s2 (Some p) (PERM_W OR PERM_X) \<and>
        snd (snd (ramfs_create_impl p (snd (path_split path)) (((if m = 0 then 0x1A4 else m) AND NOT S_IFMT) OR S_IFREG) True s2)) = Some i))"
proof -
  obtain s1 res where r: "resolve_path path (flags AND O_NOFOLLOW \<noteq> 0) s = (s1, res)" by fastforce
  note fr = fds_frame_resolve [OF r]
  show ?thesis
  proof (cases res)
    case (Some i)
    let ?w = "open_wanted flags"
    have c: "\<not> (flags AND O_CREAT \<noteq> 0 \<and> flags AND O_EXCL \<noteq> 0)"
        "\<not> (S_ISDIR (imode (inode_at s1 i)) \<and> flags AND (O_WRONLY OR O_RDWR) \<noteq> 0)"
      using assms(1,2) r Some by (auto simp: vfs_open_def Let_def split: if_splits)
    have e: "(let (s2, q) = (if ?w \<noteq> 0 then vfs_require (Some i) ?w s1 else (s1, 0)) in
        if q < 0 then (inode_unref i s2, -1) else open_inode path flags i s2) = (s', fd)"
      using assms(1) r Some c unfolding vfs_open_def open_wanted_def Let_def by auto
    have w: "?w \<noteq> 0" by (auto simp: open_wanted_def O_WRONLY_def O_RDONLY_def PERM_R_def PERM_W_def)
    have a: "vfs_access s1 (Some i) ?w" "open_inode path flags i s1 = (s', fd)"
      using e w assms(2) by (auto simp: vfs_require_def Let_def split: if_splits)
    show ?thesis using open_inode_installs [OF a(2) assms(2) fr assms(3)] a(1) c r Some by blast
  next
    case None
    obtain s2 res2 where r2: "resolve_path (fst (path_split path)) False s1 = (s2, res2)" by fastforce
    have cr: "flags AND O_CREAT \<noteq> 0" using assms(1,2) r None by (auto simp: vfs_open_def Let_def)
    obtain p where p: "res2 = Some p" "has_dir_ops p s2" "vfs_access s2 (Some p) (PERM_W OR PERM_X)"
      using assms(1,2) r None r2 cr
      by (auto simp: vfs_open_def Let_def case_prod_beta vfs_require_def split: if_splits option.splits)
    let ?c = "ramfs_create_impl p (snd (path_split path)) (((if m = 0 then 0x1A4 else m) AND NOT S_IFMT) OR S_IFREG) True s2"
    define s5 where "s5 = inode_unref p (fst ?c)"
    have e: "(case snd (snd ?c) of None \<Rightarrow> (set_errno (- fst (snd ?c)) s5, -1)
        | Some i \<Rightarrow> open_inode path flags i
            (upd_inode i (\<lambda>n. n\<lparr>iuid := g_session_uid s5, igid := g_session_gid s5\<rparr>) s5)) = (s', fd)"
      using assms(1) r None r2 cr p unfolding vfs_open_def Let_def s5_def by (simp add: case_prod_beta vfs_require_def)
    then obtain i where i: "snd (snd ?c) = Some i" using assms(2) by (auto split: option.splits)
    have "fds_frame s s5" using fr fds_frame_resolve [OF r2] fds_frame_trans by (auto simp: s5_def)
    then have "installs s s' (nat fd) i flags" using open_inode_installs [OF _ assms(2) _ assms(3)] e i by simp
    then show ?thesis using r None r2 p cr i by blast
  qed
qed

definition demo_tree :: vfs where
  "demo_tree = blank_vfs\<lparr>g_root := Some 1, g_session_uid := 1000, g_session_gid := 1000,
     inodes := [1 \<mapsto> zero_inode\<lparr>imode := MODE_DIR, ops := Ramfs_dir_ops, ipriv := Dir_priv [(''f'', 2)] 1, refcount := 3\<rparr>,
                2 \<mapsto> zero_inode\<lparr>imode := MODE_FILE, ops := Ramfs_ops, ipriv := File_priv demo_file, refcount := 1\<rparr>]\<rparr>"

lemma demo_tree_resolve: "resolve_path ''/f'' False demo_tree = (inode_ref 2 demo_tree, Some 2)"
proof -
  have c: "take_comp ''f'' = (''f'', [])" by (rule take_comp_plain) (simp add: plain_name_def VFS_NAME_MAX_def)
  have l: "op_lookup 1 ''f'' demo_tree = Some (inode_ref 2 demo_tree, 0, Some 2)"
    by (simp add: op_lookup_def ramfs_lookup_def demo_tree_def inode_at_def dentry_find_def dentries_def)
  have m: "\<not> S_ISLNK (imode (inode_at (inode_ref 2 demo_tree) 2))" "mountpoint (inode_at (inode_ref 2 demo_tree) 2) = None"
    by (simp_all add: inode_ref_def upd_inode_def demo_tree_def inode_at_def S_ISLNK_def MODE_FILE_def S_IFREG_def S_IFMT_def
        S_IFLNK_def zero_inode_def)
  have "walk_path 1 ''f'' ''/f'' False demo_tree = (inode_ref 2 demo_tree, Found 2)"
    using c l m by (subst walk_path.simps) (simp add: walk_path.simps [of 2 "[]"])
  moreover have "start_point demo_tree ''/f'' = (Some 1, ''f'')"
    by (simp add: start_point_def mount_for_path_def demo_tree_def blank_vfs_def)
  ultimately show ?thesis by (simp add: resolve_path_def resolve_from.simps)
qed

theorem vfs_open_grants_witness:
  "\<exists>s'. vfs_open ''/f'' O_RDONLY 0 demo_tree = (s', 3) \<and> (\<exists>i. installs demo_tree s' 3 i O_RDONLY)"
proof -
  have fd: "fd_alloc t = (t, Some 3)" if "g_fds t = replicate FD_MAX zero_fd" for t
    using that by (simp add: fd_alloc_def first_idx.simps FD_MAX_def zero_fd_def)
  have g: "g_fds (inode_ref 2 demo_tree) = replicate FD_MAX zero_fd" by (simp add: inode_ref_def demo_tree_def blank_vfs_def)
  have a: "vfs_access (inode_ref 2 demo_tree) (Some 2) PERM_R"
    by (simp add: vfs_access_def inode_ref_def upd_inode_def demo_tree_def inode_at_def blank_vfs_def zero_inode_def MODE_FILE_def
        S_IFREG_def PERM_R_def Let_def)
  obtain s' where o: "vfs_open ''/f'' O_RDONLY 0 demo_tree = (s', 3)"
    using demo_tree_resolve fd [OF g] a
    by (simp add: vfs_open_def O_RDONLY_def O_NOFOLLOW_def O_CREAT_def O_EXCL_def O_WRONLY_def O_RDWR_def O_ACCMODE_def
        vfs_require_def open_inode_def PERM_R_def Let_def)
  have "length (g_fds demo_tree) = FD_MAX" by (simp add: demo_tree_def blank_vfs_def)
  from vfs_open_grants [OF o _ this] show ?thesis using o by auto
qed

subsection \<open>Duplicating and closing\<close>

lemma ref_upd_fd: "inode_ref i (upd_fd k f s) = upd_fd k f (inode_ref i s)" "inode_unref i (upd_fd k f s) = upd_fd k f (inode_unref i s)"
  by (simp_all add: inode_ref_def inode_unref_def upd_fd_def upd_inode_def Let_def inode_at_def split: option.splits)

text \<open>C27. \<open>vfs_dup\<close> installs an equal descriptor in the lowest free slot from 3 and takes one reference;
  closing the copy restores the state exactly, so that neither a descriptor nor a reference leaks.  With no free slot it
  fails with \<open>EMFILE\<close> and changes nothing else.\<close>
theorem vfs_dup_close:
  assumes "fd_ok s fd" "length (g_fds s) = FD_MAX" "inodes s (finode (g_fds s ! nat fd)) \<noteq> None"
    "0 < refcount (inode_at s (finode (g_fds s ! nat fd)))"
    "\<forall>k < FD_MAX. \<not> fused (g_fds s ! k) \<longrightarrow> g_fds s ! k = zero_fd"
  shows "case first_idx (\<lambda>i. \<not> fused (g_fds s ! i)) 3 FD_MAX of
      None \<Rightarrow> vfs_dup fd s = (s\<lparr>verrno := EMFILE\<rparr>, -1)
    | Some k \<Rightarrow> \<exists>s'. vfs_dup fd s = (s', int k) \<and> g_fds s' = (g_fds s)[k := g_fds s ! nat fd] \<and>
        refcount (inode_at s' (finode (g_fds s ! nat fd))) = refcount (inode_at s (finode (g_fds s ! nat fd))) + 1 \<and>
        vfs_close (int k) s' = s"
proof (cases "first_idx (\<lambda>i. \<not> fused (g_fds s ! i)) 3 FD_MAX")
  case None
  then show ?thesis using assms(1) by (simp add: vfs_dup_def fd_alloc_def set_errno_def)
next
  case (Some k)
  define f where "f = g_fds s ! nat fd"
  define s' where "s' = inode_ref (finode f) (upd_fd k (\<lambda>_. f) s)"
  have k: "3 \<le> k" "k < FD_MAX" "\<not> fused (g_fds s ! k)" using first_idx_Some [OF Some] by simp_all
  have live: "inodes s (finode f) \<noteq> None" "0 < refcount (inode_at s (finode f))" "fused f"
    using assms(1,3,4) by (simp_all add: f_def fd_ok_def)
  have g: "g_fds s' = (g_fds s)[k := f]" by (simp add: s'_def inode_ref_def upd_fd_def)
  have rc: "refcount (inode_at s' (finode f)) = refcount (inode_at s (finode f)) + 1"
    using live by (simp add: s'_def inode_ref_def upd_fd_def inode_at_upd)
  have "inode_unref (finode f) s' = upd_fd k (\<lambda>_. f) s"
    unfolding s'_def ref_upd_fd using unref_ref [OF live(1,2)] by simp
  then have "vfs_close (int k) s' = upd_fd k (\<lambda>_. zero_fd) (upd_fd k (\<lambda>_. f) s)"
    using k live(3) g assms(2) by (simp add: vfs_close_def fd_ok_def)
  also have "\<dots> = s" using k assms(2,5) by (simp add: upd_fd_def list_update_same_conv)
  finally have close: "vfs_close (int k) s' = s" .
  have "vfs_dup fd s = (s', int k)" using Some assms(1) by (simp add: vfs_dup_def fd_alloc_def s'_def f_def)
  then show ?thesis using Some g rc close by (simp add: f_def)
qed

definition demo_open :: vfs where
  "demo_open = demo_tree\<lparr>g_fds := (replicate FD_MAX zero_fd)[3 := zero_fd\<lparr>finode := 2, fused := True\<rparr>]\<rparr>"

theorem vfs_dup_close_witness: "\<exists>s'. vfs_dup 3 demo_open = (s', 4) \<and> vfs_close 4 s' = demo_open"
proof -
  have d: "demo_open = demo_tree\<lparr>g_fds := (replicate FD_MAX zero_fd)[3 := zero_fd\<lparr>finode := 2, fused := True\<rparr>]\<rparr>"
    by (rule demo_open_def)
  have g: "g_fds demo_open ! 3 = zero_fd\<lparr>finode := 2, fused := True\<rparr>" "length (g_fds demo_open) = FD_MAX"
      "g_fds demo_open ! 4 = zero_fd"
    by (simp_all add: d FD_MAX_def)
  have i: "inodes demo_open 2 \<noteq> None" "0 < refcount (inode_at demo_open 2)" by (simp_all add: d demo_tree_def inode_at_def)
  have z: "\<forall>k < FD_MAX. \<not> fused (g_fds demo_open ! k) \<longrightarrow> g_fds demo_open ! k = zero_fd" 
    using g(1) by (auto simp: d nth_list_update FD_MAX_def split: if_splits)
  have fi: "first_idx (\<lambda>i. \<not> fused (g_fds demo_open ! i)) 3 FD_MAX = Some 4"
    using g by (simp add: first_idx.simps FD_MAX_def zero_fd_def)
  have "fd_ok demo_open 3" using g by (simp add: fd_ok_def FD_MAX_def)
  from vfs_dup_close [OF this g(2) _ _ z] show ?thesis using fi g i by auto
qed

subsection \<open>Renaming\<close>

lemma dentry_remove_frame:
  "alloc_ok (fst (dentry_remove d name s)) = alloc_ok s" "allocs (fst (dentry_remove d name s)) = allocs s"
  by (simp_all add: dentry_remove_def Let_def set_dentries_def inode_unref_def split: option.split)

lemma is_dir_ref [simp]: "is_dir (inode_ref i s) d = is_dir s d"
  by (simp add: is_dir_def)

lemma dentry_find_ref [simp]: "dentry_find (inode_ref i s) = dentry_find s" "dentry_find (inode_touch_m i s) = dentry_find s"
  by (simp_all add: dentry_find_def fun_eq_iff)

lemma dentry_add_full:
  "dentry_find s d name = None \<Longrightarrow> \<not> alloc_ok s (allocs s) \<Longrightarrow> dentry_add d name i s = (fst (kalloc s), - ENOSPC)"
  by (simp add: dentry_add_def Let_def kalloc_def)

text \<open>The state of a rename inside one directory just before the new entry is added: the old name is gone and the inode is
  kept by the extra reference.\<close>
lemma rename_midway:
  assumes "is_dir s d" "dentry_find s d old = Some t" "inodes s t \<noteq> None" "0 < refcount (inode_at s t)" "t \<noteq> d"
    "dentry_find s d new = None"
  obtains s2 where "ramfs_rename_impl d old d new s =
      (inode_touch_m d (inode_touch_m d (inode_unref t (fst (dentry_add d new t s2)))), snd (dentry_add d new t s2))"
    "dentry_find s2 d = (dentry_find s d)(old := None)" "inodes s2 t \<noteq> None" "inodes s2 d \<noteq> None"
    "refcount (inode_at s2 t) = refcount (inode_at s t)" "alloc_ok s2 = alloc_ok s" "allocs s2 = allocs s"
proof -
  define s1 where "s1 = inode_ref t s"
  define s2 where "s2 = fst (dentry_remove d old s1)"
  have s1: "is_dir s1 d" "dentry_find s1 d old = Some t" "inodes s1 t \<noteq> None" "refcount (inode_at s1 t) = refcount (inode_at s t) + 1"
    using assms(1-3) by (simp_all add: s1_def inode_at_upd) (simp add: inode_ref_def inode_at_upd)
  have gt: "1 < refcount (inode_at s1 t)" using s1(4) assms(4) by simp
  note r = dentry_remove_alive [OF s1(1-3) gt assms(5), folded s2_def]
  have f: "dentry_find s2 d = (dentry_find s d)(old := None)" using r(2) by (simp add: s1_def)
  show ?thesis
  proof (rule that [of s2])
    show "ramfs_rename_impl d old d new s =
        (inode_touch_m d (inode_touch_m d (inode_unref t (fst (dentry_add d new t s2)))), snd (dentry_add d new t s2))"
      using assms(1,2,6) f by (auto simp: is_dir_def has_dir_priv_def ramfs_rename_impl_def Let_def case_prod_beta s1_def s2_def)
    show "inodes s2 t \<noteq> None" "inodes s2 d \<noteq> None" using r(3) [of t] r(3) [of d] s1(1,3) by (simp_all add: is_dir_def)
    show "refcount (inode_at s2 t) = refcount (inode_at s t)" using r(4) s1(4) by simp
    show "alloc_ok s2 = alloc_ok s" "allocs s2 = allocs s" by (simp_all add: s2_def s1_def inode_ref_def dentry_remove_frame)
  qed (rule f)
qed

text \<open>Renaming inside a directory moves the entry and keeps the inode and its reference count, if the
  new directory entry can be allocated.  If not, the old entry has already been removed: the call reports
  \<open>ENOSPC\<close>, the name is lost, and a file held only by that name is freed.\<close>
theorem ramfs_rename_moves_or_loses:
  assumes "is_dir s d" "dentry_find s d old = Some t" "inodes s t \<noteq> None" "0 < refcount (inode_at s t)" "t \<noteq> d"
    "dentry_find s d new = None"
  shows "let (s', r) = ramfs_rename_impl d old d new s in
    if alloc_ok s (allocs s) then
      r = 0 \<and> dentry_find s' d = (dentry_find s d)(old := None, new \<mapsto> t) \<and> inodes s' t \<noteq> None \<and>
      refcount (inode_at s' t) = refcount (inode_at s t)
    else
      r = - ENOSPC \<and> dentry_find s' d = (dentry_find s d)(old := None) \<and>
      (inodes s' t = None \<longleftrightarrow> refcount (inode_at s t) = 1)"
proof -
  obtain s2 where m: "ramfs_rename_impl d old d new s =
      (inode_touch_m d (inode_touch_m d (inode_unref t (fst (dentry_add d new t s2)))), snd (dentry_add d new t s2))"
    "dentry_find s2 d = (dentry_find s d)(old := None)" "inodes s2 t \<noteq> None" "inodes s2 d \<noteq> None"
    "refcount (inode_at s2 t) = refcount (inode_at s t)" "alloc_ok s2 = alloc_ok s" "allocs s2 = allocs s"
    by (rule rename_midway [OF assms])
  have n: "dentry_find s2 d new = None" using m(2) assms(6) by simp
  show ?thesis
  proof (cases "alloc_ok s (allocs s)")
    case True
    then have ok: "alloc_ok s2 (allocs s2)" using m by simp
    define s4 where "s4 = fst (dentry_add d new t s2)"
    note a = dentry_add_ok [OF m(4,3) n ok, folded s4_def]
    have ad: "dentry_add d new t s2 = (s4, 0)" using a(1) by (simp add: s4_def prod_eq_iff)
    note sp = dentry_add_spec [OF m(4) ad]
    have l4: "inodes s4 t \<noteq> None" "1 < refcount (inode_at s4 t)" using sp(4) m(3,5) a(2) [of t] assms(4) by simp_all
    note u = inode_unref_alive [OF l4]
    have "dentry_find (inode_unref t s4) d = dentry_find s4 d" using dentry_find_unref [OF l4] by simp
    then show ?thesis using True m(1,2,5) ad sp(1) u(1,2) [of t] l4(1) a(2) [of t] by (simp del: not_None_eq)
  next
    case False
    then have no: "\<not> alloc_ok s2 (allocs s2)" using m by simp
    note ad = dentry_add_full [OF n no, of t]
    have df: "dentry_find (inode_unref t (fst (kalloc s2))) d = dentry_find s2 d"
      using assms(5) by (simp add: dentry_find_def fun_eq_iff dentries_def inode_unref_def Let_def inode_at_def upd_inode_def
          split: option.splits)
    have "inodes (inode_unref t (fst (kalloc s2))) t = None \<longleftrightarrow> refcount (inode_at s t) \<le> 1"
      using m(3,5) by (simp add: inode_unref_def Let_def inode_at_upd)
    then show ?thesis using False m(1,2) ad df assms(4) by auto
  qed
qed

theorem ramfs_rename_moves_or_loses_witness:
  "fst (ramfs_rename_impl 1 ''f'' 1 ''g'' (demo_tree\<lparr>alloc_ok := \<lambda>_. False\<rparr>)) \<noteq> demo_tree \<and>
   inodes (fst (ramfs_rename_impl 1 ''f'' 1 ''g'' (demo_tree\<lparr>alloc_ok := \<lambda>_. False\<rparr>))) 2 = None"
proof -
  define s where "s = demo_tree\<lparr>alloc_ok := \<lambda>_. False\<rparr>"
  have f: "is_dir s 1" "dentry_find s 1 ''f'' = Some 2" "inodes s 2 \<noteq> None" "0 < refcount (inode_at s 2)" "dentry_find s 1 ''g'' = None"
    "refcount (inode_at s 2) = 1" "\<not> alloc_ok s (allocs s)"
    by (simp_all add: s_def demo_tree_def is_dir_def inode_at_def dentry_find_def dentries_def)
  have "inodes (fst (ramfs_rename_impl 1 ''f'' 1 ''g'' s)) 2 = None"
    using ramfs_rename_moves_or_loses [OF f(1-4) _ f(5)] f(6,7) by (simp add: case_prod_beta)
  moreover have "inodes demo_tree 2 \<noteq> None" by (simp add: demo_tree_def)
  ultimately show ?thesis unfolding s_def by metis
qed

end
