(* ===== verification/Catfs.thy ===== *)
theory Catfs
  imports Prelude
begin

unbundle bit_operations_syntax

section \<open>The CatFS block file system: \<open>src/src/catfs.c\<close>\<close>

text \<open>
  The state is \<open>catfs_state_t\<close> together with what the code reaches through \<open>disk.c\<close>: a store of
  512-byte sectors for every drive and logical block address, which drives are present, and the outcome of every sector
  transfer (\<open>io_ok\<close>, indexed by the number of transfers so far), so that each failed transfer is a branch of the
  model.  The ATA programming itself, and its limit of 28 address bits, is not modelled.

  On-disk structures are their bytes: packed little-endian encodings of the C structs.  Names are the C
  arrays of 56 bytes.  An access outside an array (a block number beyond the bitmap, a name that does not fit)
  sets \<open>cfault\<close>.
\<close>

subsection \<open>Layout\<close>

definition SECTOR_SIZE :: nat where "SECTOR_SIZE = 512"
definition DISK_MAX_DRIVES :: nat where "DISK_MAX_DRIVES = 4"
definition CATFS_MAGIC :: u32 where "CATFS_MAGIC = 0xCAFE4002"
definition CATFS_BLOCK_SIZE :: nat where "CATFS_BLOCK_SIZE = 512"
definition CATFS_INODE_MAX :: nat where "CATFS_INODE_MAX = 256"
definition CATFS_BLOCKS_MAX :: nat where "CATFS_BLOCKS_MAX = 16384"
definition CATFS_NAME_MAX :: nat where "CATFS_NAME_MAX = 56"
definition CATFS_DIRECT_BLOCKS :: nat where "CATFS_DIRECT_BLOCKS = 16"
definition CATFS_PTRS_PER_BLOCK :: nat where "CATFS_PTRS_PER_BLOCK = CATFS_BLOCK_SIZE div 4"
definition CATFS_MAX_FILE_BLOCKS :: nat where
  "CATFS_MAX_FILE_BLOCKS = CATFS_DIRECT_BLOCKS + CATFS_PTRS_PER_BLOCK + CATFS_PTRS_PER_BLOCK * CATFS_PTRS_PER_BLOCK"
definition CATFS_TYPE_FREE :: u8 where "CATFS_TYPE_FREE = 0"
definition CATFS_TYPE_FILE :: u8 where "CATFS_TYPE_FILE = 1"
definition CATFS_TYPE_DIR :: u8 where "CATFS_TYPE_DIR = 2"
definition CATFS_PERM_DEFAULT_FILE :: u16 where "CATFS_PERM_DEFAULT_FILE = 0x1A4"
definition CATFS_PERM_DEFAULT_DIR :: u16 where "CATFS_PERM_DEFAULT_DIR = 0x1ED"
definition CATFS_J_NONE :: u8 where "CATFS_J_NONE = 0"
definition CATFS_J_CREATE :: u8 where "CATFS_J_CREATE = 1"
definition CATFS_J_UNLINK :: u8 where "CATFS_J_UNLINK = 2"
definition CATFS_J_WRITE_META :: u8 where "CATFS_J_WRITE_META = 3"
definition JREC_SIZE :: nat where "JREC_SIZE = 20"
definition INODE_SIZE :: nat where "INODE_SIZE = 151"
definition CATFS_JOURNAL_SLOTS :: nat where "CATFS_JOURNAL_SLOTS = 8 * CATFS_BLOCK_SIZE div JREC_SIZE"
definition SB_LBA :: nat where "SB_LBA = 0"
definition JOURNAL_HDR_LBA :: nat where "JOURNAL_HDR_LBA = 1"
definition JOURNAL_LOG_LBA :: nat where "JOURNAL_LOG_LBA = 2"
definition JOURNAL_LOG_SECTORS :: nat where "JOURNAL_LOG_SECTORS = 8"
definition INODE_TABLE_LBA :: nat where "INODE_TABLE_LBA = JOURNAL_LOG_LBA + JOURNAL_LOG_SECTORS"
definition INODES_PER_SECTOR :: nat where "INODES_PER_SECTOR = SECTOR_SIZE div INODE_SIZE"
definition INODE_SECTORS :: nat where
  "INODE_SECTORS = (CATFS_INODE_MAX + INODES_PER_SECTOR - 1) div INODES_PER_SECTOR"
definition BITMAP_LBA :: nat where "BITMAP_LBA = INODE_TABLE_LBA + INODE_SECTORS"
definition BITMAP_SECTORS :: nat where "BITMAP_SECTORS = (CATFS_BLOCKS_MAX div 8 + SECTOR_SIZE - 1) div SECTOR_SIZE"
definition DATA_LBA :: nat where "DATA_LBA = BITMAP_LBA + BITMAP_SECTORS"

lemmas catfs_layout =
  SECTOR_SIZE_def CATFS_BLOCK_SIZE_def CATFS_INODE_MAX_def CATFS_BLOCKS_MAX_def CATFS_NAME_MAX_def CATFS_DIRECT_BLOCKS_def
  CATFS_PTRS_PER_BLOCK_def CATFS_MAX_FILE_BLOCKS_def JREC_SIZE_def INODE_SIZE_def CATFS_JOURNAL_SLOTS_def SB_LBA_def
  JOURNAL_HDR_LBA_def JOURNAL_LOG_LBA_def JOURNAL_LOG_SECTORS_def INODE_TABLE_LBA_def INODES_PER_SECTOR_def INODE_SECTORS_def
  BITMAP_LBA_def BITMAP_SECTORS_def DATA_LBA_def

subsection \<open>Bytes\<close>

definition le32 :: "u32 \<Rightarrow> u8 list" where
  "le32 w = [ucast w, ucast (drop_bit 8 w), ucast (drop_bit 16 w), ucast (drop_bit 24 w)]"

definition le16 :: "u16 \<Rightarrow> u8 list" where
  "le16 w = [ucast w, ucast (drop_bit 8 w)]"

definition rd8 :: "u8 list \<Rightarrow> nat \<Rightarrow> u8" where
  "rd8 bs off = (if off < length bs then bs ! off else 0)"

definition rd16 :: "u8 list \<Rightarrow> nat \<Rightarrow> u16" where
  "rd16 bs off = ucast (rd8 bs off) OR push_bit 8 (ucast (rd8 bs (off + 1)))"

definition rd32 :: "u8 list \<Rightarrow> nat \<Rightarrow> u32" where
  "rd32 bs off =
     ucast (rd8 bs off) OR push_bit 8 (ucast (rd8 bs (off + 1))) OR push_bit 16 (ucast (rd8 bs (off + 2))) OR
     push_bit 24 (ucast (rd8 bs (off + 3)))"

text \<open>\<open>kmemcpy(buf + off, src, n)\<close> into a buffer.\<close>
definition splice :: "nat \<Rightarrow> u8 list \<Rightarrow> u8 list \<Rightarrow> u8 list" where
  "splice off src buf = take off buf @ src @ drop (off + length src) buf"

definition zero_sector :: "u8 list" where
  "zero_sector = replicate SECTOR_SIZE 0"

text \<open>The C string in a character array, and \<open>kstrcpy\<close> into one; what does not fit is dropped, and the
  callers report the overrun as a fault.\<close>
definition cstr :: "u8 list \<Rightarrow> string" where
  "cstr bs = map (\<lambda>b. char_of (unat b)) (takeWhile (\<lambda>b. b \<noteq> 0) bs)"

definition strcpy_into :: "u8 list \<Rightarrow> string \<Rightarrow> u8 list" where
  "strcpy_into buf s = take (length buf) (splice 0 (bytes_of s @ [0]) buf)"

subsection \<open>Structures\<close>

record catfs_super =
  sb_magic :: u32
  sb_version :: u32
  sb_total_blocks :: u32
  sb_free_blocks :: u32
  sb_inode_count :: u32
  sb_free_inodes :: u32
  sb_data_start_lba :: u32
  sb_bitmap_lba :: u32
  sb_inode_table_lba :: u32
  sb_journal_lba :: u32
  sb_clean_unmount :: u32
  sb_label :: "u8 list"
  sb_pad :: "u8 list"

record catfs_journal_hdr =
  jh_magic :: u32
  jh_head :: u32
  jh_committed_seq :: u32
  jh_pad :: "u8 list"

record catfs_journal_rec =
  jr_type :: u8
  jr_inode_idx :: u32
  jr_a :: u32
  jr_b :: u32
  jr_seq :: u32

record catfs_inode =
  ci_name :: "u8 list"
  ci_type :: u8
  ci_perms :: u16
  ci_size :: u32
  ci_parent :: int
  ci_ctime :: u32
  ci_mtime :: u32
  ci_atime :: u32
  ci_blocks :: "u32 list"
  ci_indirect :: u32
  ci_dindirect :: u32

record catfs =
  disk_drive :: int
  partition_offset :: u32
  sb :: catfs_super
  jh :: catfs_journal_hdr
  cinodes :: "catfs_inode list"
  bitmap :: "u8 list"
  mounted :: bool
  next_seq :: u32
  sectors :: "int \<Rightarrow> u32 \<Rightarrow> u8 list"
  drives :: "bool list"
  io_ok :: "nat \<Rightarrow> bool"
  ios :: nat
  kalloc_ok :: bool
  cticks :: u32
  cfault :: bool

definition enc_super :: "catfs_super \<Rightarrow> u8 list" where
  "enc_super b =
     le32 (sb_magic b) @ le32 (sb_version b) @ le32 (sb_total_blocks b) @ le32 (sb_free_blocks b) @ le32 (sb_inode_count b) @
     le32 (sb_free_inodes b) @ le32 (sb_data_start_lba b) @ le32 (sb_bitmap_lba b) @ le32 (sb_inode_table_lba b) @
     le32 (sb_journal_lba b) @ le32 (sb_clean_unmount b) @ sb_label b @ sb_pad b"

definition dec_super :: "u8 list \<Rightarrow> catfs_super" where
  "dec_super bs =
     \<lparr>sb_magic = rd32 bs 0, sb_version = rd32 bs 4, sb_total_blocks = rd32 bs 8, sb_free_blocks = rd32 bs 12,
      sb_inode_count = rd32 bs 16, sb_free_inodes = rd32 bs 20, sb_data_start_lba = rd32 bs 24, sb_bitmap_lba = rd32 bs 28,
      sb_inode_table_lba = rd32 bs 32, sb_journal_lba = rd32 bs 36, sb_clean_unmount = rd32 bs 40,
      sb_label = take 32 (drop 44 bs), sb_pad = take 436 (drop 76 bs)\<rparr>"

definition enc_jhdr :: "catfs_journal_hdr \<Rightarrow> u8 list" where
  "enc_jhdr j = le32 (jh_magic j) @ le32 (jh_head j) @ le32 (jh_committed_seq j) @ jh_pad j"

definition dec_jhdr :: "u8 list \<Rightarrow> catfs_journal_hdr" where
  "dec_jhdr bs = \<lparr>jh_magic = rd32 bs 0, jh_head = rd32 bs 4, jh_committed_seq = rd32 bs 8, jh_pad = take 500 (drop 12 bs)\<rparr>"

definition enc_jrec :: "catfs_journal_rec \<Rightarrow> u8 list" where
  "enc_jrec r = [jr_type r, 0, 0, 0] @ le32 (jr_inode_idx r) @ le32 (jr_a r) @ le32 (jr_b r) @ le32 (jr_seq r)"

definition enc_inode :: "catfs_inode \<Rightarrow> u8 list" where
  "enc_inode n =
     ci_name n @ [ci_type n] @ le16 (ci_perms n) @ le32 (ci_size n) @ le32 (word_of_int (ci_parent n)) @ le32 (ci_ctime n) @
     le32 (ci_mtime n) @ le32 (ci_atime n) @ concat (map le32 (ci_blocks n)) @ le32 (ci_indirect n) @ le32 (ci_dindirect n)"

definition dec_inode :: "u8 list \<Rightarrow> catfs_inode" where
  "dec_inode bs =
     \<lparr>ci_name = take 56 bs, ci_type = rd8 bs 56, ci_perms = rd16 bs 57, ci_size = rd32 bs 59, ci_parent = sint (rd32 bs 63),
      ci_ctime = rd32 bs 67, ci_mtime = rd32 bs 71, ci_atime = rd32 bs 75,
      ci_blocks = map (\<lambda>k. rd32 bs (79 + 4 * k)) [0 ..< CATFS_DIRECT_BLOCKS],
      ci_indirect = rd32 bs 143, ci_dindirect = rd32 bs 147\<rparr>"

definition zero_cinode :: catfs_inode where
  "zero_cinode = \<lparr>ci_name = replicate CATFS_NAME_MAX 0, ci_type = 0, ci_perms = 0, ci_size = 0, ci_parent = 0, ci_ctime = 0,
     ci_mtime = 0, ci_atime = 0, ci_blocks = replicate CATFS_DIRECT_BLOCKS 0, ci_indirect = 0, ci_dindirect = 0\<rparr>"

definition zero_super :: catfs_super where
  "zero_super = \<lparr>sb_magic = 0, sb_version = 0, sb_total_blocks = 0, sb_free_blocks = 0, sb_inode_count = 0, sb_free_inodes = 0,
     sb_data_start_lba = 0, sb_bitmap_lba = 0, sb_inode_table_lba = 0, sb_journal_lba = 0, sb_clean_unmount = 0,
     sb_label = replicate 32 0, sb_pad = replicate 436 0\<rparr>"

definition zero_jhdr :: catfs_journal_hdr where
  "zero_jhdr = \<lparr>jh_magic = 0, jh_head = 0, jh_committed_seq = 0, jh_pad = replicate 500 0\<rparr>"

subsection \<open>Bitmap\<close>

definition bm_test :: "catfs \<Rightarrow> nat \<Rightarrow> bool" where
  "bm_test s b \<longleftrightarrow> drop_bit (b mod 8) (bitmap s ! (b div 8)) AND 1 \<noteq> 0"

definition bm_set :: "nat \<Rightarrow> catfs \<Rightarrow> catfs" where
  "bm_set b s = s\<lparr>bitmap := (bitmap s)[b div 8 := bitmap s ! (b div 8) OR push_bit (b mod 8) 1]\<rparr>"

definition bm_clr :: "nat \<Rightarrow> catfs \<Rightarrow> catfs" where
  "bm_clr b s = s\<lparr>bitmap := (bitmap s)[b div 8 := bitmap s ! (b div 8) AND NOT (push_bit (b mod 8) 1)]\<rparr>"

definition upd_free_blocks :: "(u32 \<Rightarrow> u32) \<Rightarrow> catfs \<Rightarrow> catfs" where
  "upd_free_blocks f s = s\<lparr>sb := (sb s)\<lparr>sb_free_blocks := f (sb_free_blocks (sb s))\<rparr>\<rparr>"

definition upd_free_inodes :: "(u32 \<Rightarrow> u32) \<Rightarrow> catfs \<Rightarrow> catfs" where
  "upd_free_inodes f s = s\<lparr>sb := (sb s)\<lparr>sb_free_inodes := f (sb_free_inodes (sb s))\<rparr>\<rparr>"

definition bm_alloc :: "catfs \<Rightarrow> catfs \<times> nat option" where
  "bm_alloc s =
     (case first_idx (\<lambda>b. \<not> bm_test s b) 0 CATFS_BLOCKS_MAX of
        None \<Rightarrow> (s, None)
      | Some b \<Rightarrow> (upd_free_blocks (\<lambda>n. if n > 0 then n - 1 else n) (bm_set b s), Some b))"

definition bm_free :: "nat \<Rightarrow> catfs \<Rightarrow> catfs" where
  "bm_free b s =
     (if b \<ge> CATFS_BLOCKS_MAX then s\<lparr>cfault := True\<rparr>
      else if bm_test s b then upd_free_blocks (\<lambda>n. n + 1) (bm_clr b s) else s)"

definition block_lba :: "catfs \<Rightarrow> u32 \<Rightarrow> u32" where
  "block_lba s blk = sb_data_start_lba (sb s) + blk"

definition catfs_now :: "catfs \<Rightarrow> u32" where
  "catfs_now s = cticks s div 100"

subsection \<open>Sector transfers\<close>

definition transfer_ok :: "catfs \<Rightarrow> bool" where
  "transfer_ok s \<longleftrightarrow>
     0 \<le> disk_drive s \<and> disk_drive s < int DISK_MAX_DRIVES \<and> drives s ! nat (disk_drive s) \<and> io_ok s (ios s)"

definition dsk_read :: "u32 \<Rightarrow> catfs \<Rightarrow> catfs \<times> u8 list option" where
  "dsk_read lba s =
     (s\<lparr>ios := ios s + 1\<rparr>,
      if transfer_ok s then Some (sectors s (disk_drive s) (partition_offset s + lba)) else None)"

definition dsk_write :: "u32 \<Rightarrow> u8 list \<Rightarrow> catfs \<Rightarrow> catfs \<times> bool" where
  "dsk_write lba bs s =
     (if transfer_ok s
      then (s\<lparr>ios := ios s + 1,
              sectors := (sectors s)(disk_drive s := (sectors s (disk_drive s))(partition_offset s + lba := bs))\<rparr>, True)
      else (s\<lparr>ios := ios s + 1\<rparr>, False))"

subsection \<open>Journal\<close>

definition journal_write_rec :: "catfs_journal_rec \<Rightarrow> catfs \<Rightarrow> catfs \<times> bool" where
  "journal_write_rec rec s =
     (let slot = unat (jh_head (jh s)) mod CATFS_JOURNAL_SLOTS;
          recs_per_sector = SECTOR_SIZE div JREC_SIZE;
          sector_in_log = slot div recs_per_sector;
          offset_in_sector = (slot mod recs_per_sector) * JREC_SIZE;
          lba = word_of_nat (JOURNAL_LOG_LBA + sector_in_log)
      in case dsk_read lba s of
           (s1, None) \<Rightarrow> (s1, False)
         | (s1, Some sec) \<Rightarrow>
             (let (s2, ok) = dsk_write lba (splice offset_in_sector (enc_jrec rec) sec) s1 in
              if \<not> ok then (s2, False)
              else (s2\<lparr>jh := (jh s2)\<lparr>jh_head := jh_head (jh s2) + 1\<rparr>\<rparr>, True)))"

definition journal_log :: "u8 \<Rightarrow> u32 \<Rightarrow> u32 \<Rightarrow> u32 \<Rightarrow> catfs \<Rightarrow> catfs \<times> bool" where
  "journal_log ty i a b s =
     (let s1 = s\<lparr>next_seq := next_seq s + 1\<rparr>
      in journal_write_rec \<lparr>jr_type = ty, jr_inode_idx = i, jr_a = a, jr_b = b, jr_seq = next_seq s1\<rparr> s1)"

definition journal_flush_header :: "catfs \<Rightarrow> catfs \<times> bool" where
  "journal_flush_header s =
     (let s1 = s\<lparr>jh := (jh s)\<lparr>jh_magic := CATFS_MAGIC\<rparr>\<rparr>
      in dsk_write (word_of_nat JOURNAL_HDR_LBA) (splice 0 (enc_jhdr (jh s1)) zero_sector) s1)"

definition journal_commit :: "catfs \<Rightarrow> catfs \<times> bool" where
  "journal_commit s = journal_flush_header (s\<lparr>jh := (jh s)\<lparr>jh_committed_seq := next_seq s\<rparr>\<rparr>)"

text \<open>The loop over \<open>n\<close> slots from \<open>slot\<close>: how many hold a record.\<close>
primrec torn_scan :: "nat \<Rightarrow> u32 \<Rightarrow> nat \<Rightarrow> catfs \<Rightarrow> catfs \<times> nat" where
  "torn_scan 0 slot torn s = (s, torn)"
| "torn_scan (Suc n) slot torn s =
     (let k = unat slot mod CATFS_JOURNAL_SLOTS;
          recs_per_sector = SECTOR_SIZE div JREC_SIZE;
          offset = (k mod recs_per_sector) * JREC_SIZE
      in case dsk_read (word_of_nat (JOURNAL_LOG_LBA + k div recs_per_sector)) s of
           (s1, None) \<Rightarrow> torn_scan n (slot + 1) torn s1
         | (s1, Some sec) \<Rightarrow> torn_scan n (slot + 1) (if rd8 sec offset \<noteq> CATFS_J_NONE then torn + 1 else torn) s1)"

definition journal_check_torn :: "catfs \<Rightarrow> catfs \<times> nat" where
  "journal_check_torn s =
     torn_scan (unat (jh_head (jh s)) - unat (jh_committed_seq (jh s))) (jh_committed_seq (jh s)) 0 s"

subsection \<open>Writing metadata back\<close>

definition sync_superblock :: "catfs \<Rightarrow> catfs \<times> bool" where
  "sync_superblock s = dsk_write (word_of_nat SB_LBA) (splice 0 (enc_super (sb s)) zero_sector) s"

definition sync_inode :: "nat \<Rightarrow> catfs \<Rightarrow> catfs \<times> bool" where
  "sync_inode idx s =
     (let lba = word_of_nat (INODE_TABLE_LBA + idx div INODES_PER_SECTOR);
          offset = (idx mod INODES_PER_SECTOR) * INODE_SIZE
      in case dsk_read lba s of
           (s1, None) \<Rightarrow> (s1, False)
         | (s1, Some sec) \<Rightarrow> dsk_write lba (splice offset (enc_inode (cinodes s1 ! idx)) sec) s1)"

text \<open>Writing a list of sectors, stopping at the first failure.\<close>
fun write_sectors :: "(u32 \<times> u8 list) list \<Rightarrow> catfs \<Rightarrow> catfs \<times> bool" where
  "write_sectors [] s = (s, True)"
| "write_sectors ((lba, bs) # ws) s =
     (let (s1, ok) = dsk_write lba bs s in if ok then write_sectors ws s1 else (s1, False))"

definition bitmap_sector :: "catfs \<Rightarrow> nat \<Rightarrow> u8 list" where
  "bitmap_sector s k = splice 0 (take SECTOR_SIZE (drop (k * SECTOR_SIZE) (bitmap s))) zero_sector"

definition sync_bitmap_region :: "nat \<Rightarrow> nat \<Rightarrow> catfs \<Rightarrow> catfs \<times> bool" where
  "sync_bitmap_region first_block last_block s =
     (let first_sector = first_block div 8 div SECTOR_SIZE; last_sector = last_block div 8 div SECTOR_SIZE
      in write_sectors (map (\<lambda>k. (word_of_nat (BITMAP_LBA + k), bitmap_sector s k)) [first_sector ..< Suc last_sector]) s)"

definition sync_whole_bitmap :: "catfs \<Rightarrow> catfs \<times> bool" where
  "sync_whole_bitmap s = sync_bitmap_region 0 (CATFS_BLOCKS_MAX - 1) s"

definition inode_sector :: "catfs \<Rightarrow> nat \<Rightarrow> u8 list" where
  "inode_sector s k =
     splice 0 (concat (map enc_inode (take INODES_PER_SECTOR (drop (k * INODES_PER_SECTOR) (cinodes s))))) zero_sector"

definition catfs_sync :: "catfs \<Rightarrow> catfs \<times> bool" where
  "catfs_sync s =
     (if \<not> mounted s then (s, False)
      else
        (let (s1, ok1) = sync_superblock s in
         if \<not> ok1 then (s1, False)
         else
           (let (s2, ok2) = write_sectors
                  (map (\<lambda>k. (word_of_nat (INODE_TABLE_LBA + k), inode_sector s1 k)) [0 ..< INODE_SECTORS]) s1 in
            if \<not> ok2 then (s2, False)
            else
              (let (s3, ok3) = sync_whole_bitmap s2 in
               if \<not> ok3 then (s3, False)
               else
                 (let (s4, ok4) = sync_superblock (s3\<lparr>sb := (sb s3)\<lparr>sb_clean_unmount := 1\<rparr>\<rparr>)
                  in if \<not> ok4 then (s4, False) else journal_flush_header s4)))))"

subsection \<open>Format and mount\<close>

definition drive_present :: "int \<Rightarrow> catfs \<Rightarrow> bool" where
  "drive_present d s \<longleftrightarrow> 0 \<le> d \<and> d < int DISK_MAX_DRIVES \<and> drives s ! nat d"

definition fresh_super :: "string \<Rightarrow> catfs_super" where
  "fresh_super lbl = zero_super
     \<lparr>sb_magic := CATFS_MAGIC, sb_version := 2, sb_total_blocks := word_of_nat CATFS_BLOCKS_MAX,
      sb_free_blocks := word_of_nat (CATFS_BLOCKS_MAX - 1), sb_inode_count := word_of_nat CATFS_INODE_MAX,
      sb_free_inodes := word_of_nat CATFS_INODE_MAX - 1, sb_data_start_lba := word_of_nat DATA_LBA,
      sb_bitmap_lba := word_of_nat BITMAP_LBA, sb_inode_table_lba := word_of_nat INODE_TABLE_LBA,
      sb_journal_lba := word_of_nat JOURNAL_LOG_LBA, sb_clean_unmount := 1, sb_label := strcpy_into (sb_label zero_super) lbl\<rparr>"

definition root_inode :: "u32 \<Rightarrow> catfs_inode" where
  "root_inode t = zero_cinode
     \<lparr>ci_name := strcpy_into (ci_name zero_cinode) ''/'', ci_type := CATFS_TYPE_DIR, ci_perms := CATFS_PERM_DEFAULT_DIR,
      ci_parent := -1, ci_ctime := t, ci_mtime := t, ci_atime := t\<rparr>"

text \<open>A label of 32 characters or more overruns its array; a drive number past the table of drives is read
  outside that table.\<close>
definition catfs_format_at :: "int \<Rightarrow> u32 \<Rightarrow> string \<Rightarrow> catfs \<Rightarrow> catfs \<times> bool" where
  "catfs_format_at d lba_offset lbl s =
     (if d \<ge> int DISK_MAX_DRIVES then (s\<lparr>cfault := True\<rparr>, False)
      else if \<not> drive_present d s then (s, False)
      else
        (let s1 = s\<lparr>disk_drive := d, partition_offset := lba_offset, sb := fresh_super lbl,
                   jh := zero_jhdr\<lparr>jh_magic := CATFS_MAGIC\<rparr>,
                   cinodes := (replicate CATFS_INODE_MAX zero_cinode)[0 := root_inode (catfs_now s)],
                   bitmap := replicate (CATFS_BLOCKS_MAX div 8) 0, mounted := True, next_seq := 0,
                   cfault := cfault s \<or> length lbl \<ge> 32\<rparr>
         in catfs_sync (bm_set 0 s1)))"

definition catfs_format :: "int \<Rightarrow> string \<Rightarrow> catfs \<Rightarrow> catfs \<times> bool" where
  "catfs_format d lbl s = catfs_format_at d 0 lbl s"

text \<open>Reading \<open>n\<close> consecutive sectors: as many as could be read, and whether all could.\<close>
primrec read_sectors :: "nat \<Rightarrow> u32 \<Rightarrow> catfs \<Rightarrow> catfs \<times> u8 list list \<times> bool" where
  "read_sectors 0 lba s = (s, [], True)"
| "read_sectors (Suc n) lba s =
     (case dsk_read lba s of
        (s1, None) \<Rightarrow> (s1, [], False)
      | (s1, Some sec) \<Rightarrow> (let (s2, secs, ok) = read_sectors n (lba + 1) s1 in (s2, sec # secs, ok)))"

text \<open>The inodes in sector \<open>k\<close> of the table; the last sector may hold fewer.\<close>
definition inodes_of_sector :: "nat \<Rightarrow> u8 list \<Rightarrow> catfs_inode list" where
  "inodes_of_sector k sec =
     map (\<lambda>j. dec_inode (drop (j * INODE_SIZE) sec))
       [0 ..< (if (k + 1) * INODES_PER_SECTOR > CATFS_INODE_MAX then CATFS_INODE_MAX - k * INODES_PER_SECTOR else INODES_PER_SECTOR)]"

definition inodes_of_sectors :: "u8 list list \<Rightarrow> catfs_inode list" where
  "inodes_of_sectors secs = concat (map (\<lambda>(k, sec). inodes_of_sector k sec) (enumerate 0 secs))"

definition catfs_mount_at :: "int \<Rightarrow> u32 \<Rightarrow> catfs \<Rightarrow> catfs \<times> bool" where
  "catfs_mount_at d lba_offset s =
     (if d \<ge> int DISK_MAX_DRIVES then (s\<lparr>cfault := True\<rparr>, False)
      else if \<not> drive_present d s then (s, False)
      else
        (case dsk_read (word_of_nat SB_LBA) (s\<lparr>disk_drive := d, partition_offset := lba_offset\<rparr>) of
           (s1, None) \<Rightarrow> (s1, False)
         | (s1, Some sec) \<Rightarrow>
             (let s2 = s1\<lparr>sb := dec_super sec\<rparr> in
              if sb_magic (sb s2) \<noteq> CATFS_MAGIC then (s2, False)
              else
                (case dsk_read (word_of_nat JOURNAL_HDR_LBA) s2 of
                   (s3, None) \<Rightarrow> (s3, False)
                 | (s3, Some hsec) \<Rightarrow>
                     (let (s4, isecs, iok) = read_sectors INODE_SECTORS (sb_inode_table_lba (sb s3)) (s3\<lparr>jh := dec_jhdr hsec\<rparr>);
                          got = inodes_of_sectors isecs;
                          s5 = s4\<lparr>cinodes := got @ drop (length got) (cinodes s4)\<rparr>
                      in if \<not> iok then (s5, False)
                         else
                           (let (s6, bsecs, bok) = read_sectors BITMAP_SECTORS (sb_bitmap_lba (sb s5)) s5;
                                bits = concat bsecs;
                                s7 = s6\<lparr>bitmap := bits @ drop (length bits) (bitmap s6)\<rparr>
                            in if \<not> bok then (s7, False)
                               else
                                 (let was_clean = sb_clean_unmount (sb s7);
                                      s8 = s7\<lparr>next_seq := jh_committed_seq (jh s7), sb := (sb s7)\<lparr>sb_clean_unmount := 0\<rparr>\<rparr>;
                                      s9 = (fst (sync_superblock s8))\<lparr>mounted := True\<rparr>
                                  in (if was_clean = 0 then fst (journal_check_torn s9) else s9, True))))))))"

definition catfs_mount :: "int \<Rightarrow> catfs \<Rightarrow> catfs \<times> bool" where
  "catfs_mount d s = catfs_mount_at d 0 s"

subsection \<open>fsck\<close>

text \<open>The blocks an inode names itself: its direct blocks and its two pointer blocks.\<close>
definition inode_refs :: "catfs_inode \<Rightarrow> nat list" where
  "inode_refs n = filter (\<lambda>b. b \<noteq> 0) (map unat (ci_blocks n) @ [unat (ci_indirect n), unat (ci_dindirect n)])"

definition fsck_seen :: "catfs \<Rightarrow> nat list" where
  "fsck_seen s = concat (map inode_refs (filter (\<lambda>n. ci_type n \<noteq> CATFS_TYPE_FREE) (cinodes s)))"

text \<open>One block of the bitmap pass: the state and the number of problems.\<close>
definition fsck_block :: "bool \<Rightarrow> nat set \<Rightarrow> nat \<Rightarrow> catfs \<times> nat \<Rightarrow> catfs \<times> nat" where
  "fsck_block repair seen b = (\<lambda>(s, problems).
     (let marked = bm_test s b; actual = (b \<in> seen) in
      if marked \<and> \<not> actual then (if repair then bm_clr b s else s, problems + 1)
      else if \<not> marked \<and> actual then (if repair then bm_set b s else s, problems + 1)
      else (s, problems)))"

definition fsck_bitmap :: "bool \<Rightarrow> catfs \<Rightarrow> catfs \<times> nat" where
  "fsck_bitmap repair s =
     (if \<not> kalloc_ok s then (s, 0)
      else
        (let seen = fsck_seen s;
             s1 = (if \<exists>b \<in> set seen. b \<ge> CATFS_BLOCKS_MAX then s\<lparr>cfault := True\<rparr> else s)
         in fold (fsck_block repair (set seen)) [1 ..< CATFS_BLOCKS_MAX] (s1, 0)))"

definition orphan :: "catfs \<Rightarrow> nat \<Rightarrow> bool" where
  "orphan s i \<longleftrightarrow>
     (let p = ci_parent (cinodes s ! i)
      in p < 0 \<or> p \<ge> int CATFS_INODE_MAX \<or> ci_type (cinodes s ! nat p) \<noteq> CATFS_TYPE_DIR)"

definition fsck_inode :: "bool \<Rightarrow> nat \<Rightarrow> catfs \<times> nat \<Rightarrow> catfs \<times> nat" where
  "fsck_inode repair i = (\<lambda>(s, problems).
     (if ci_type (cinodes s ! i) \<noteq> CATFS_TYPE_FREE \<and> orphan s i
      then (if repair then upd_free_inodes (\<lambda>n. n + 1) (s\<lparr>cinodes := (cinodes s)[i := zero_cinode]\<rparr>) else s, problems + 1)
      else (s, problems)))"

text \<open>\<open>catfs = saved\<close>: everything but the disk and the rest of the machine.\<close>
definition restore_catfs :: "catfs \<Rightarrow> catfs \<Rightarrow> catfs" where
  "restore_catfs saved s = s\<lparr>disk_drive := disk_drive saved, partition_offset := partition_offset saved, sb := sb saved,
     jh := jh saved, cinodes := cinodes saved, bitmap := bitmap saved, mounted := mounted saved, next_seq := next_seq saved\<rparr>"

text \<open>The body of the check once the volume is mounted.\<close>
definition fsck_body :: "bool \<Rightarrow> catfs \<Rightarrow> catfs \<times> nat" where
  "fsck_body repair s =
     (let (s1, p1) = fold (fsck_inode repair) [1 ..< CATFS_INODE_MAX] (fsck_bitmap repair s);
          (s2, torn) = journal_check_torn s1;
          p2 = p1 + torn;
          s3 = (if repair \<and> torn > 0
                then fst (journal_flush_header (s2\<lparr>jh := (jh s2)\<lparr>jh_head := jh_committed_seq (jh s2)\<rparr>\<rparr>)) else s2)
      in if repair \<and> p2 > 0 then (let (s4, ok) = catfs_sync s3 in (s4, if ok then p2 else p2 + 1)) else (s3, p2))"

definition catfs_fsck_at :: "int \<Rightarrow> u32 \<Rightarrow> bool \<Rightarrow> catfs \<Rightarrow> catfs \<times> int" where
  "catfs_fsck_at d lba_offset repair s =
     (let (s1, ok) = catfs_mount_at d lba_offset s in
      if \<not> ok then (restore_catfs s s1, -1)
      else (let (s2, problems) = fsck_body repair s1 in (restore_catfs s s2, int problems)))"

definition catfs_fsck :: "int \<Rightarrow> bool \<Rightarrow> catfs \<Rightarrow> catfs \<times> int" where
  "catfs_fsck d repair s = catfs_fsck_at d 0 repair s"

subsection \<open>Paths and names\<close>

fun last_slash_at :: "nat \<Rightarrow> nat \<Rightarrow> string \<Rightarrow> nat" where
  "last_slash_at i found [] = found"
| "last_slash_at i found (c # cs) = last_slash_at (Suc i) (if c = CHR ''/'' then i else found) cs"

definition split_last :: "string \<Rightarrow> string \<times> string" where
  "split_last path =
     (let l = last_slash_at 0 0 path in
      if l = 0 then (''/'', drop 1 path) else (take l path, drop (l + 1) path))"

definition ctake_comp :: "string \<Rightarrow> string \<times> string" where
  "ctake_comp p =
     (let nm = take (CATFS_NAME_MAX - 1) (takeWhile (\<lambda>c. c \<noteq> CHR ''/'') p);
          r = drop (length nm) p
      in (nm, if r \<noteq> [] \<and> hd r = CHR ''/'' then tl r else r))"

lemma ctake_comp_less: "p \<noteq> [] \<Longrightarrow> length (snd (ctake_comp p)) < length p"
  by (cases p) (auto simp: ctake_comp_def Let_def CATFS_NAME_MAX_def)

lemma ctake_comp_pair_less: "(c, r) = ctake_comp p \<Longrightarrow> p \<noteq> [] \<Longrightarrow> length r < length p"
  using ctake_comp_less [of p] by (cases "ctake_comp p") simp

definition find_child :: "catfs \<Rightarrow> nat \<Rightarrow> string \<Rightarrow> nat option" where
  "find_child s cur nm =
     first_idx (\<lambda>i. ci_type (cinodes s ! i) \<noteq> CATFS_TYPE_FREE \<and> ci_parent (cinodes s ! i) = int cur \<and>
       cstr (ci_name (cinodes s ! i)) = nm) 1 CATFS_INODE_MAX"

function lookup_walk :: "catfs \<Rightarrow> nat \<Rightarrow> string \<Rightarrow> nat option" where
  "lookup_walk s cur p =
     (if p = [] then Some cur
      else
        (let (nm, r) = ctake_comp p in
         if nm = '''' then lookup_walk s cur r
         else case find_child s cur nm of None \<Rightarrow> None | Some i \<Rightarrow> lookup_walk s i r))"
  by pat_completeness auto
termination
  by (relation "measure (\<lambda>(s, cur, p). length p)") (auto dest: ctake_comp_pair_less)

declare lookup_walk.simps [simp del]

definition catfs_lookup :: "catfs \<Rightarrow> string \<Rightarrow> nat option" where
  "catfs_lookup s path =
     (if \<not> mounted s then None
      else if path = ''/'' then Some 0
      else if ci_type (cinodes s ! 0) \<noteq> CATFS_TYPE_DIR then None
      else lookup_walk s 0 (if path \<noteq> [] \<and> hd path = CHR ''/'' then tl path else path))"

text \<open>The arrays \<open>dir\<close> and \<open>base\<close> have 64 and 56 bytes; longer parts overrun them.\<close>
definition catfs_create :: "string \<Rightarrow> u8 \<Rightarrow> catfs \<Rightarrow> catfs \<times> nat option" where
  "catfs_create path ty s =
     (if \<not> mounted s then (s, None)
      else
        (let (dir, base) = split_last path in
         if length dir \<ge> 64 \<or> length base \<ge> CATFS_NAME_MAX then (s\<lparr>cfault := True\<rparr>, None)
         else case catfs_lookup s dir of
                None \<Rightarrow> (s, None)
              | Some parent \<Rightarrow>
                  if catfs_lookup s path \<noteq> None then (s, None)
                  else case first_idx (\<lambda>i. ci_type (cinodes s ! i) = CATFS_TYPE_FREE) 1 CATFS_INODE_MAX of
                         None \<Rightarrow> (s, None)
                       | Some i \<Rightarrow>
                           (let s1 = fst (journal_log CATFS_J_CREATE (word_of_nat i) (word_of_nat parent) (ucast ty) s);
                                t = catfs_now s1;
                                n = zero_cinode\<lparr>ci_name := strcpy_into (ci_name zero_cinode) base, ci_type := ty,
                                      ci_perms := (if ty = CATFS_TYPE_DIR then CATFS_PERM_DEFAULT_DIR else CATFS_PERM_DEFAULT_FILE),
                                      ci_parent := int parent, ci_ctime := t, ci_mtime := t, ci_atime := t\<rparr>;
                                s2 = upd_free_inodes (\<lambda>k. k - 1) (s1\<lparr>cinodes := (cinodes s1)[i := n]\<rparr>);
                                s3 = fst (sync_inode i s2);
                                s4 = fst (sync_superblock s3)
                            in (fst (journal_commit s4), Some i))))"

subsection \<open>Releasing blocks\<close>

text \<open>The pointers in a sector.\<close>
definition ptrs_of :: "u8 list \<Rightarrow> u32 list" where
  "ptrs_of sec = map (\<lambda>k. rd32 sec (4 * k)) [0 ..< CATFS_PTRS_PER_BLOCK]"

definition enc_ptrs :: "u32 list \<Rightarrow> u8 list" where
  "enc_ptrs ps = concat (map le32 ps)"

definition upd_cinode :: "nat \<Rightarrow> (catfs_inode \<Rightarrow> catfs_inode) \<Rightarrow> catfs \<Rightarrow> catfs" where
  "upd_cinode i f s = s\<lparr>cinodes := (cinodes s)[i := f (cinodes s ! i)]\<rparr>"

definition free_nonzero :: "u32 list \<Rightarrow> catfs \<Rightarrow> catfs" where
  "free_nonzero ps s = fold (\<lambda>p s. if p \<noteq> 0 then bm_free (unat p) s else s) ps s"

definition free_second_level :: "u32 \<Rightarrow> catfs \<Rightarrow> catfs" where
  "free_second_level p s =
     (if p = 0 then s
      else
        (let (s1, r) = dsk_read (block_lba s p) s;
             s2 = (case r of None \<Rightarrow> s1 | Some sec \<Rightarrow> free_nonzero (ptrs_of sec) s1)
         in bm_free (unat p) s2))"

definition free_all_blocks :: "nat \<Rightarrow> catfs \<Rightarrow> catfs" where
  "free_all_blocks i s =
     (let s1 = upd_cinode i (\<lambda>n. n\<lparr>ci_blocks := map (\<lambda>_. 0) (ci_blocks n)\<rparr>) (free_nonzero (ci_blocks (cinodes s ! i)) s);
          ind = ci_indirect (cinodes s1 ! i);
          s2 = (if ind = 0 then s1
                else (let (t1, r) = dsk_read (block_lba s1 ind) s1;
                          t2 = (case r of None \<Rightarrow> t1 | Some sec \<Rightarrow> free_nonzero (ptrs_of sec) t1)
                      in upd_cinode i (\<lambda>n. n\<lparr>ci_indirect := 0\<rparr>) (bm_free (unat ind) t2)));
          dind = ci_dindirect (cinodes s2 ! i)
      in if dind = 0 then s2
         else (let (t1, r) = dsk_read (block_lba s2 dind) s2;
                   t2 = (case r of None \<Rightarrow> t1 | Some l1 \<Rightarrow> fold free_second_level (ptrs_of l1) t1)
               in upd_cinode i (\<lambda>n. n\<lparr>ci_dindirect := 0\<rparr>) (bm_free (unat dind) t2)))"

text \<open>Freeing the entries of a pointer array from index \<open>start\<close>: the array left and the state.\<close>
definition free_ptrs_from :: "nat \<Rightarrow> u32 list \<Rightarrow> catfs \<Rightarrow> catfs \<times> u32 list" where
  "free_ptrs_from start ps s = (free_nonzero (drop start ps) s, take start ps @ map (\<lambda>_. 0) (drop start ps))"

text \<open>The loop over the first-level pointers from index \<open>i\<close>; the result is the state, the pointers left, and whether
  every transfer succeeded.\<close>
fun free_l1_from :: "nat \<Rightarrow> nat \<Rightarrow> u32 list \<Rightarrow> catfs \<Rightarrow> catfs \<times> u32 list \<times> bool" where
  "free_l1_from first i [] s = (s, [], True)"
| "free_l1_from first i (p # ps) s =
     (let base = CATFS_DIRECT_BLOCKS + CATFS_PTRS_PER_BLOCK + i * CATFS_PTRS_PER_BLOCK in
      if p = 0 \<or> first \<ge> base + CATFS_PTRS_PER_BLOCK then
        (let (s', ps', ok) = free_l1_from first (Suc i) ps s in (s', p # ps', ok))
      else
        (case dsk_read (block_lba s p) s of
           (s1, None) \<Rightarrow> (s1, p # ps, False)
         | (s1, Some sec) \<Rightarrow>
             (let (s2, l2) = free_ptrs_from (first - base) (ptrs_of sec) s1 in
              if \<exists>q \<in> set l2. q \<noteq> 0 then
                (let (s3, ok) = dsk_write (block_lba s2 p) (enc_ptrs l2) s2 in
                 if \<not> ok then (s3, p # ps, False)
                 else (let (s', ps', ok') = free_l1_from first (Suc i) ps s3 in (s', p # ps', ok')))
              else (let (s', ps', ok') = free_l1_from first (Suc i) ps (bm_free (unat p) s2) in (s', 0 # ps', ok')))))"

definition free_indirect_from :: "nat \<Rightarrow> nat \<Rightarrow> catfs \<Rightarrow> catfs \<times> bool" where
  "free_indirect_from i first s =
     (let ind = ci_indirect (cinodes s ! i) in
      if ind = 0 then (s, True)
      else case dsk_read (block_lba s ind) s of
             (s1, None) \<Rightarrow> (s1, False)
           | (s1, Some sec) \<Rightarrow>
               (let (s2, ps) = free_ptrs_from (first - CATFS_DIRECT_BLOCKS) (ptrs_of sec) s1 in
                if \<exists>q \<in> set ps. q \<noteq> 0 then dsk_write (block_lba s2 ind) (enc_ptrs ps) s2
                else (upd_cinode i (\<lambda>n. n\<lparr>ci_indirect := 0\<rparr>) (bm_free (unat ind) s2), True)))"

definition free_dindirect_from :: "nat \<Rightarrow> nat \<Rightarrow> catfs \<Rightarrow> catfs \<times> bool" where
  "free_dindirect_from i first s =
     (let dind = ci_dindirect (cinodes s ! i) in
      if dind = 0 then (s, True)
      else case dsk_read (block_lba s dind) s of
             (s1, None) \<Rightarrow> (s1, False)
           | (s1, Some l1) \<Rightarrow>
               (let (s2, ps, ok) = free_l1_from first 0 (ptrs_of l1) s1 in
                if \<not> ok then (s2, False)
                else if \<exists>q \<in> set ps. q \<noteq> 0 then dsk_write (block_lba s2 dind) (enc_ptrs ps) s2
                else (upd_cinode i (\<lambda>n. n\<lparr>ci_dindirect := 0\<rparr>) (bm_free (unat dind) s2), True)))"

definition free_blocks_from :: "nat \<Rightarrow> nat \<Rightarrow> catfs \<Rightarrow> catfs \<times> bool" where
  "free_blocks_from i first s =
     (let (s1, bl) = free_ptrs_from first (ci_blocks (cinodes s ! i)) s;
          s2 = upd_cinode i (\<lambda>n. n\<lparr>ci_blocks := bl\<rparr>) s1;
          (s3, ok) = free_indirect_from i first s2
      in if \<not> ok then (s3, False) else free_dindirect_from i first s3)"

subsection \<open>Unlink, rename, chmod\<close>

definition catfs_unlink :: "int \<Rightarrow> catfs \<Rightarrow> catfs \<times> int" where
  "catfs_unlink idx s =
     (if \<not> mounted s \<or> idx \<le> 0 \<or> idx \<ge> int CATFS_INODE_MAX then (s, -1)
      else
        (let i = nat idx; n = cinodes s ! i in
         if ci_type n = CATFS_TYPE_FREE then (s, -1)
         else if ci_type n = CATFS_TYPE_DIR \<and>
           (\<exists>j \<in> {1 ..< CATFS_INODE_MAX}. ci_type (cinodes s ! j) \<noteq> CATFS_TYPE_FREE \<and> ci_parent (cinodes s ! j) = idx) then (s, -1)
         else
           (let s1 = fst (journal_log CATFS_J_UNLINK (word_of_nat i) 0 0 s);
                s2 = upd_free_inodes (\<lambda>k. k + 1) (upd_cinode i (\<lambda>_. zero_cinode) (free_all_blocks i s1));
                s3 = fst (sync_inode i s2);
                s4 = fst (sync_whole_bitmap s3);
                s5 = fst (sync_superblock s4)
            in (fst (journal_commit s5), 0))))"

text \<open>\<open>for (p = new_parent; p >= 0; p = inodes[p].parent) if (p == idx)\<close>: is \<open>idx\<close> above
  \<open>p\<close>?  On a damaged tree the parents may form a cycle or leave the table; both are \<open>None\<close>.\<close>
partial_function (option) is_ancestor :: "catfs \<Rightarrow> int \<Rightarrow> int \<Rightarrow> bool option" where
  "is_ancestor s idx p =
     (if p < 0 then Some False
      else if p = idx then Some True
      else if p \<ge> int CATFS_INODE_MAX then None
      else is_ancestor s idx (ci_parent (cinodes s ! nat p)))"

definition finish_meta :: "nat \<Rightarrow> catfs \<Rightarrow> catfs \<times> int" where
  "finish_meta i s =
     (let (s1, ok1) = sync_inode i s in
      if \<not> ok1 then (s1, -1)
      else
        (let (s2, ok2) = sync_superblock s1 in
         if \<not> ok2 then (s2, -1) else (let (s3, ok3) = journal_commit s2 in (s3, if ok3 then 0 else -1))))"

text \<open>\<open>None\<close> when the search for an ancestor does not end.\<close>
definition catfs_rename :: "int \<Rightarrow> int \<Rightarrow> string \<Rightarrow> catfs \<Rightarrow> (catfs \<times> int) option" where
  "catfs_rename idx new_parent new_name s =
     (if \<not> mounted s \<or> idx \<le> 0 \<or> idx \<ge> int CATFS_INODE_MAX then Some (s, -1)
      else if new_parent < 0 \<or> new_parent \<ge> int CATFS_INODE_MAX \<or> ci_type (cinodes s ! nat new_parent) \<noteq> CATFS_TYPE_DIR
      then Some (s, -1)
      else if new_name = [] \<or> length new_name \<ge> CATFS_NAME_MAX then Some (s, -1)
      else if ci_type (cinodes s ! nat idx) = CATFS_TYPE_FREE then Some (s, -1)
      else case is_ancestor s idx new_parent of
             None \<Rightarrow> None
           | Some True \<Rightarrow> Some (s, -1)
           | Some False \<Rightarrow>
               if \<exists>j \<in> {1 ..< CATFS_INODE_MAX}. int j \<noteq> idx \<and> ci_type (cinodes s ! j) \<noteq> CATFS_TYPE_FREE \<and>
                 ci_parent (cinodes s ! j) = new_parent \<and> cstr (ci_name (cinodes s ! j)) = new_name then Some (s, -1)
               else
                 (let i = nat idx;
                      s1 = fst (journal_log CATFS_J_WRITE_META (word_of_nat i) (word_of_int (ci_parent (cinodes s ! i)))
                                  (word_of_int new_parent) s);
                      s2 = upd_cinode i (\<lambda>n. n\<lparr>ci_parent := new_parent, ci_name := strcpy_into (ci_name n) new_name,
                                               ci_mtime := catfs_now s1\<rparr>) s1
                  in Some (finish_meta i s2)))"

definition catfs_chmod :: "int \<Rightarrow> u16 \<Rightarrow> catfs \<Rightarrow> catfs \<times> int" where
  "catfs_chmod idx perms s =
     (if \<not> mounted s \<or> idx < 0 \<or> idx \<ge> int CATFS_INODE_MAX then (s, -1)
      else
        (let i = nat idx in
         if ci_type (cinodes s ! i) = CATFS_TYPE_FREE then (s, -1)
         else
           (let s1 = fst (journal_log CATFS_J_WRITE_META (word_of_nat i) (ucast (ci_perms (cinodes s ! i))) (ucast (perms AND 0x1FF)) s)
            in finish_meta i (upd_cinode i (\<lambda>n. n\<lparr>ci_perms := perms AND 0x1FF, ci_mtime := catfs_now s1\<rparr>) s1))))"

subsection \<open>From file blocks to disk blocks\<close>

definition resolve_direct :: "nat \<Rightarrow> nat \<Rightarrow> bool \<Rightarrow> catfs \<Rightarrow> catfs \<times> u32 option" where
  "resolve_direct i k create s =
     (let b = ci_blocks (cinodes s ! i) ! k in
      if b \<noteq> 0 then (s, Some b)
      else if \<not> create then (s, None)
      else case bm_alloc s of
             (s1, None) \<Rightarrow> (s1, None)
           | (s1, Some nb) \<Rightarrow>
               (upd_cinode i (\<lambda>n. n\<lparr>ci_blocks := (ci_blocks n)[k := word_of_nat nb]\<rparr>) s1, Some (word_of_nat nb)))"

text \<open>The pointer block in a field of the inode, allocated and cleared on demand; the outcome of clearing it is not
  looked at.\<close>
definition ensure_field :: "(catfs_inode \<Rightarrow> u32) \<Rightarrow> (u32 \<Rightarrow> catfs_inode \<Rightarrow> catfs_inode) \<Rightarrow> nat \<Rightarrow> bool \<Rightarrow> catfs \<Rightarrow> catfs \<times> u32 option" where
  "ensure_field getf setf i create s =
     (let b = getf (cinodes s ! i) in
      if b \<noteq> 0 then (s, Some b)
      else if \<not> create then (s, None)
      else case bm_alloc s of
             (s1, None) \<Rightarrow> (s1, None)
           | (s1, Some nb) \<Rightarrow>
               (let s2 = upd_cinode i (setf (word_of_nat nb)) s1
                in (fst (dsk_write (block_lba s2 (word_of_nat nb)) zero_sector s2), Some (word_of_nat nb))))"

text \<open>Entry \<open>k\<close> of pointer block \<open>pb\<close>, allocated on demand; \<open>clear\<close> says that the new block is itself
  a pointer block.\<close>
definition resolve_ptr :: "u32 \<Rightarrow> nat \<Rightarrow> bool \<Rightarrow> bool \<Rightarrow> catfs \<Rightarrow> catfs \<times> u32 option" where
  "resolve_ptr pb k create clear s =
     (case dsk_read (block_lba s pb) s of
        (s1, None) \<Rightarrow> (s1, None)
      | (s1, Some sec) \<Rightarrow>
          (let b = rd32 sec (4 * k) in
           if b \<noteq> 0 then (s1, Some b)
           else if \<not> create then (s1, None)
           else case bm_alloc s1 of
                  (s2, None) \<Rightarrow> (s2, None)
                | (s2, Some nb) \<Rightarrow>
                    (let w = word_of_nat nb; (s3, ok) = dsk_write (block_lba s2 pb) (splice (4 * k) (le32 w) sec) s2 in
                     if \<not> ok then (s3, None)
                     else (if clear then fst (dsk_write (block_lba s3 w) zero_sector s3) else s3, Some w))))"

definition ensure_indirect :: "nat \<Rightarrow> bool \<Rightarrow> catfs \<Rightarrow> catfs \<times> u32 option" where
  "ensure_indirect = ensure_field ci_indirect (\<lambda>v n. n\<lparr>ci_indirect := v\<rparr>)"

definition ensure_dindirect :: "nat \<Rightarrow> bool \<Rightarrow> catfs \<Rightarrow> catfs \<times> u32 option" where
  "ensure_dindirect = ensure_field ci_dindirect (\<lambda>v n. n\<lparr>ci_dindirect := v\<rparr>)"

definition resolve_block :: "nat \<Rightarrow> nat \<Rightarrow> bool \<Rightarrow> catfs \<Rightarrow> catfs \<times> u32 option" where
  "resolve_block i blk_i create s =
     (if blk_i < CATFS_DIRECT_BLOCKS then resolve_direct i blk_i create s
      else
        (let b = blk_i - CATFS_DIRECT_BLOCKS in
         if b < CATFS_PTRS_PER_BLOCK then
           (case ensure_indirect i create s of
              (s1, None) \<Rightarrow> (s1, None)
            | (s1, Some ind) \<Rightarrow> resolve_ptr ind b create False s1)
         else
           (let b' = b - CATFS_PTRS_PER_BLOCK; l1 = b' div CATFS_PTRS_PER_BLOCK; l2 = b' mod CATFS_PTRS_PER_BLOCK in
            if l1 \<ge> CATFS_PTRS_PER_BLOCK then (s, None)
            else case ensure_dindirect i create s of
                   (s1, None) \<Rightarrow> (s1, None)
                 | (s1, Some dind) \<Rightarrow>
                     (case resolve_ptr dind l1 create True s1 of
                        (s2, None) \<Rightarrow> (s2, None)
                      | (s2, Some p) \<Rightarrow> resolve_ptr p l2 create False s2))))"

subsection \<open>Reading and writing\<close>

text \<open>Positions are 32-bit numbers: \<open>offset + done\<close> wraps.\<close>
definition file_pos :: "u32 \<Rightarrow> nat \<Rightarrow> nat" where
  "file_pos off done = (unat off + done) mod 2 ^ 32"

function read_loop :: "nat \<Rightarrow> u32 \<Rightarrow> nat \<Rightarrow> nat \<Rightarrow> u8 list \<Rightarrow> catfs \<Rightarrow> catfs \<times> u8 list" where
  "read_loop i off len done acc s =
     (if done < len then
        (let blk_i = file_pos off done div CATFS_BLOCK_SIZE; blk_off = file_pos off done mod CATFS_BLOCK_SIZE in
         case resolve_block i blk_i False s of
           (s1, None) \<Rightarrow> (s1, acc)
         | (s1, Some phys) \<Rightarrow>
             (case dsk_read (block_lba s1 phys) s1 of
                (s2, None) \<Rightarrow> (s2, acc)
              | (s2, Some tmp) \<Rightarrow>
                  (let chunk = min (len - done) (CATFS_BLOCK_SIZE - blk_off)
                   in read_loop i off len (done + chunk) (acc @ take chunk (drop blk_off tmp)) s2)))
      else (s, acc))"
  by pat_completeness auto
termination
  by (relation "measure (\<lambda>(i, off, len, done, acc, s). len - done)") (auto simp: CATFS_BLOCK_SIZE_def)

declare read_loop.simps [simp del]

definition catfs_read :: "int \<Rightarrow> u32 \<Rightarrow> u32 \<Rightarrow> catfs \<Rightarrow> catfs \<times> int \<times> u8 list" where
  "catfs_read idx off len s =
     (if \<not> mounted s \<or> idx < 0 \<or> idx \<ge> int CATFS_INODE_MAX then (s, -1, [])
      else
        (let i = nat idx; n = cinodes s ! i in
         if ci_type n = CATFS_TYPE_FREE then (s, -1, [])
         else if off \<ge> ci_size n then (s, 0, [])
         else
           (let len' = (if off + len > ci_size n then ci_size n - off else len);
                (s1, bs) = read_loop i off (unat len') 0 [] s
            in (upd_cinode i (\<lambda>n. n\<lparr>ci_atime := catfs_now s1\<rparr>) s1, int (length bs), bs))))"

text \<open>The buffer a block is assembled in: its old contents when the block is written in part, cleared when they cannot be read.\<close>
definition write_base :: "bool \<Rightarrow> u32 \<Rightarrow> catfs \<Rightarrow> catfs \<times> u8 list" where
  "write_base in_part phys s =
     (if in_part then (let (s1, r) = dsk_read (block_lba s phys) s in (s1, case r of None \<Rightarrow> zero_sector | Some sec \<Rightarrow> sec))
      else (s, zero_sector))"

function write_loop :: "nat \<Rightarrow> u32 \<Rightarrow> u8 list \<Rightarrow> nat \<Rightarrow> catfs \<Rightarrow> catfs \<times> nat" where
  "write_loop i off buf written s =
     (if written < length buf then
        (let blk_i = file_pos off written div CATFS_BLOCK_SIZE; blk_off = file_pos off written mod CATFS_BLOCK_SIZE in
         if blk_i \<ge> CATFS_MAX_FILE_BLOCKS then (s, written)
         else case resolve_block i blk_i True s of
                (s1, None) \<Rightarrow> (s1, written)
              | (s1, Some phys) \<Rightarrow>
                  (let (s2, tmp) = write_base (blk_off \<noteq> 0 \<or> length buf - written < CATFS_BLOCK_SIZE) phys s1;
                       chunk = min (length buf - written) (CATFS_BLOCK_SIZE - blk_off);
                       (s3, ok) = dsk_write (block_lba s2 phys) (splice blk_off (take chunk (drop written buf)) tmp) s2
                   in if \<not> ok then (s3, written) else write_loop i off buf (written + chunk) s3))
      else (s, written))"
  by pat_completeness auto
termination
  by (relation "measure (\<lambda>(i, off, buf, written, s). length buf - written)") (auto simp: CATFS_BLOCK_SIZE_def)

declare write_loop.simps [simp del]

text \<open>The length of \<open>buf\<close> is the argument \<open>len\<close>, below \<open>2\<^sup>32\<close>.\<close>
definition catfs_write :: "int \<Rightarrow> u32 \<Rightarrow> u8 list \<Rightarrow> catfs \<Rightarrow> catfs \<times> int" where
  "catfs_write idx off buf s =
     (if \<not> mounted s \<or> idx < 0 \<or> idx \<ge> int CATFS_INODE_MAX then (s, -1)
      else
        (let i = nat idx in
         if ci_type (cinodes s ! i) = CATFS_TYPE_FREE \<or> ci_type (cinodes s ! i) = CATFS_TYPE_DIR then (s, -1)
         else
           (let (s1, written) = write_loop i off buf 0 s; fin = off + word_of_nat written in
            if written = 0 then (s1, 0)
            else
              (let s2 = fst (journal_log CATFS_J_WRITE_META (word_of_nat i) (ci_size (cinodes s1 ! i)) fin s1);
                   s3 = upd_cinode i (\<lambda>n. n\<lparr>ci_size := (if fin > ci_size n then fin else ci_size n), ci_mtime := catfs_now s2\<rparr>) s2;
                   s4 = fst (sync_inode i s3);
                   s5 = fst (sync_superblock s4);
                   s6 = fst (sync_whole_bitmap s5)
               in (fst (journal_commit s6), int written)))))"

definition catfs_truncate :: "int \<Rightarrow> u32 \<Rightarrow> catfs \<Rightarrow> catfs \<times> int" where
  "catfs_truncate idx new_size s =
     (if \<not> mounted s \<or> idx < 0 \<or> idx \<ge> int CATFS_INODE_MAX then (s, -1)
      else
        (let i = nat idx in
         if ci_type (cinodes s ! i) = CATFS_TYPE_FREE \<or> ci_type (cinodes s ! i) = CATFS_TYPE_DIR then (s, -1)
         else
           (let (s1, ok1) = journal_log CATFS_J_WRITE_META (word_of_nat i) (ci_size (cinodes s ! i)) new_size s in
            if \<not> ok1 then (s1, -1)
            else
              (let (s2, ok2) = (if new_size < ci_size (cinodes s1 ! i)
                                then free_blocks_from i (unat (new_size + word_of_nat (CATFS_BLOCK_SIZE - 1)) div CATFS_BLOCK_SIZE) s1
                                else (s1, True)) in
               if \<not> ok2 then (s2, -1)
               else
                 (let s3 = upd_cinode i (\<lambda>n. n\<lparr>ci_size := new_size, ci_mtime := catfs_now s2\<rparr>) s2;
                      (s4, ok4) = sync_inode i s3 in
                  if \<not> ok4 then (s4, -1)
                  else
                    (let (s5, ok5) = sync_superblock s4 in
                     if \<not> ok5 then (s5, -1)
                     else
                       (let (s6, ok6) = sync_whole_bitmap s5 in
                        if \<not> ok6 then (s6, -1)
                        else (let (s7, ok7) = journal_commit s6 in (s7, if ok7 then 0 else -1)))))))))"

definition catfs_listdir :: "int \<Rightarrow> catfs \<Rightarrow> string list option" where
  "catfs_listdir dir_idx s =
     (if \<not> mounted s then None
      else Some (map (\<lambda>n. cstr (ci_name n) @ (if ci_type n = CATFS_TYPE_DIR then ''/'' else ''''))
        (filter (\<lambda>n. ci_type n \<noteq> CATFS_TYPE_FREE \<and> ci_parent n = dir_idx) (cinodes s))))"

subsection \<open>Operations on paths\<close>

definition catfs_path_read :: "string \<Rightarrow> u32 \<Rightarrow> u32 \<Rightarrow> catfs \<Rightarrow> catfs \<times> int \<times> u8 list" where
  "catfs_path_read path off len s =
     (case catfs_lookup s path of None \<Rightarrow> (s, -1, []) | Some i \<Rightarrow> catfs_read (int i) off len s)"

definition catfs_path_write :: "string \<Rightarrow> u32 \<Rightarrow> u8 list \<Rightarrow> catfs \<Rightarrow> catfs \<times> int" where
  "catfs_path_write path off buf s =
     (let (s1, r) = (case catfs_lookup s path of None \<Rightarrow> catfs_create path CATFS_TYPE_FILE s | Some i \<Rightarrow> (s, Some i))
      in case r of None \<Rightarrow> (s1, -1) | Some i \<Rightarrow> catfs_write (int i) off buf s1)"

definition catfs_path_create :: "string \<Rightarrow> catfs \<Rightarrow> catfs \<times> nat option" where
  "catfs_path_create path s = catfs_create path CATFS_TYPE_FILE s"

definition catfs_path_mkdir :: "string \<Rightarrow> catfs \<Rightarrow> catfs \<times> nat option" where
  "catfs_path_mkdir path s = catfs_create path CATFS_TYPE_DIR s"

definition catfs_path_unlink :: "string \<Rightarrow> catfs \<Rightarrow> catfs \<times> int" where
  "catfs_path_unlink path s = catfs_unlink (case catfs_lookup s path of None \<Rightarrow> -1 | Some i \<Rightarrow> int i) s"

definition catfs_path_size :: "string \<Rightarrow> catfs \<Rightarrow> int" where
  "catfs_path_size path s = (case catfs_lookup s path of None \<Rightarrow> -1 | Some i \<Rightarrow> sint (ci_size (cinodes s ! i)))"

end
