(* ===== verification/Catfs_Disk.thy ===== *)
theory Catfs_Disk
  imports Catfs
begin

unbundle bit_operations_syntax

section \<open>CatFS on the disk: encodings, journal, mounting, checking\<close>

text \<open>
  What the bytes on the disk mean.  The locale \<open>disk_codec\<close> is the contract of an on-disk structure (a width and
  a decoder that inverts the encoder); it is interpreted for the inode, the superblock, the journal header and a
  block pointer.  With it: what \<open>catfs_sync\<close> writes \<open>catfs_mount\<close> reads back, and the shapes of all tables are
  an invariant of every operation.
\<close>

subsection \<open>The contract of an on-disk structure\<close>

locale disk_codec =
  fixes enc :: "'a \<Rightarrow> u8 list" and dec :: "u8 list \<Rightarrow> 'a" and width :: nat and ok :: "'a \<Rightarrow> bool"
  assumes enc_length: "ok x \<Longrightarrow> length (enc x) = width"
    and dec_enc: "ok x \<Longrightarrow> dec (enc x @ rest) = x"
begin

lemma concat_length: "\<forall>x \<in> set xs. ok x \<Longrightarrow> length (concat (map enc xs)) = length xs * width"
  by (induction xs) (auto simp: enc_length)

lemma concat_drop:
  "\<forall>x \<in> set xs. ok x \<Longrightarrow> k \<le> length xs \<Longrightarrow> drop (k * width) (concat (map enc xs) @ rest) = concat (map enc (drop k xs)) @ rest"
proof (induction xs arbitrary: k)
  case (Cons x xs)
  then show ?case by (cases k) (auto simp: enc_length)
qed simp

lemma dec_chunk:
  assumes "\<forall>x \<in> set xs. ok x" "k < length xs"
  shows "dec (drop (k * width) (concat (map enc xs) @ rest)) = xs ! k"
proof -
  have "drop k xs = xs ! k # drop (Suc k) xs" using assms(2) by (simp add: Cons_nth_drop_Suc)
  moreover have "ok (xs ! k)" using assms by simp
  ultimately show ?thesis using concat_drop [OF assms(1), of k] assms(2) by (simp add: dec_enc)
qed

lemma dec_chunks:
  assumes "\<forall>x \<in> set xs. ok x" "n \<le> length xs"
  shows "map (\<lambda>k. dec (drop (k * width) (concat (map enc xs) @ rest))) [0 ..< n] = take n xs"
  using assms by (intro nth_equalityI) (auto simp: dec_chunk simp del: drop_append)

end

subsection \<open>Words as bytes\<close>

lemma length_le [simp]: "length (le32 w) = 4" "length (le16 v) = 2"
  by (simp_all add: le32_def le16_def)

lemma rd8_append: "rd8 (xs @ ys) k = (if k < length xs then rd8 xs k else rd8 ys (k - length xs))"
  by (auto simp: rd8_def nth_append)

lemma rd_le_at: "rd8 (le32 w) 0 = ucast w" "rd8 (le32 w) (Suc 0) = ucast (drop_bit 8 w)" "rd8 (le32 w) 2 = ucast (drop_bit 16 w)"
  "rd8 (le32 w) 3 = ucast (drop_bit 24 w)" "rd8 (le16 v) 0 = ucast v" "rd8 (le16 v) (Suc 0) = ucast (drop_bit 8 v)"
  by (simp_all add: rd8_def le32_def le16_def eval_nat_numeral)

lemma join_bytes32:
  "ucast (ucast w :: u8) OR push_bit 8 (ucast (ucast (drop_bit 8 w) :: u8)) OR push_bit 16 (ucast (ucast (drop_bit 16 w) :: u8)) OR
   push_bit 24 (ucast (ucast (drop_bit 24 w) :: u8)) = (w :: u32)"
proof (rule bit_word_eqI)
  fix n assume "n < LENGTH(32)"
  then consider "n < 8" | "8 \<le> n" "n < 16" | "16 \<le> n" "n < 24" | "24 \<le> n" "n < 32" by fastforce
  then show "bit (ucast (ucast w :: u8) OR push_bit 8 (ucast (ucast (drop_bit 8 w) :: u8)) OR
      push_bit 16 (ucast (ucast (drop_bit 16 w) :: u8)) OR push_bit 24 (ucast (ucast (drop_bit 24 w) :: u8)) :: u32) n = bit w n"
    by cases (auto simp: bit_simps)
qed

lemma join_bytes16: "ucast (ucast w :: u8) OR push_bit 8 (ucast (ucast (drop_bit 8 w) :: u8)) = (w :: u16)"
  by (rule bit_word_eqI) (auto simp: bit_simps)

lemma rd_le32: "rd32 (le32 w @ rest) 0 = w"
  unfolding rd32_def using join_bytes32 [of w] by (simp add: rd8_append rd_le_at numeral_2_eq_2 [symmetric] numeral_3_eq_3 [symmetric])

lemma rd_le16: "rd16 (le16 w @ rest) 0 = w"
  unfolding rd16_def using join_bytes16 [of w] by (simp add: rd8_append rd_le_at)

text \<open>Reading behind a prefix.\<close>
lemma rd_skip:
  "k \<ge> length xs \<Longrightarrow> rd32 (xs @ ys) k = rd32 ys (k - length xs)" "k \<ge> length xs \<Longrightarrow> rd16 (xs @ ys) k = rd16 ys (k - length xs)"
  "k \<ge> length xs \<Longrightarrow> rd8 (xs @ ys) k = rd8 ys (k - length xs)"
  by (simp_all add: rd32_def rd16_def rd8_append Suc_diff_le)

lemma rd_skip_Cons:
  "0 < k \<Longrightarrow> rd32 (b # bs) k = rd32 bs (k - 1)" "0 < k \<Longrightarrow> rd16 (b # bs) k = rd16 bs (k - 1)" "0 < k \<Longrightarrow> rd8 (b # bs) k = rd8 bs (k - 1)"
  using rd_skip [of "[b]" k bs] by simp_all

lemma rd_head: "rd8 (b # bs) 0 = b"
  by (simp add: rd8_def)

lemma rd32_drop: "rd32 bs (j + k) = rd32 (drop j bs) k"
proof -
  have "rd8 bs (j + i) = rd8 (drop j bs) i" for i by (auto simp: rd8_def)
  from this [of k] this [of "k + 1"] this [of "k + 2"] this [of "k + 3"] show ?thesis by (simp add: rd32_def add.assoc)
qed

interpretation ptr_codec: disk_codec le32 "\<lambda>bs. rd32 bs 0" 4 "\<lambda>_. True"
  by unfold_locales (simp_all add: rd_le32)

subsection \<open>The structures\<close>

definition inode_wf :: "catfs_inode \<Rightarrow> bool" where
  "inode_wf n \<longleftrightarrow> length (ci_name n) = CATFS_NAME_MAX \<and> length (ci_blocks n) = CATFS_DIRECT_BLOCKS \<and>
     - (2 ^ 31) \<le> ci_parent n \<and> ci_parent n < 2 ^ 31"

definition super_wf :: "catfs_super \<Rightarrow> bool" where
  "super_wf b \<longleftrightarrow> length (sb_label b) = 32 \<and> length (sb_pad b) = 436"

definition jhdr_wf :: "catfs_journal_hdr \<Rightarrow> bool" where
  "jhdr_wf j \<longleftrightarrow> length (jh_pad j) = 500"

lemma length_ptrs: "length (concat (map le32 ps)) = 4 * length ps"
  using ptr_codec.concat_length [of ps] by simp

lemma rd_ptrs: "map (\<lambda>k. rd32 (concat (map le32 ps) @ rest) (4 * k)) [0 ..< length ps] = ps"
proof (rule nth_equalityI)
  fix k assume "k < length (map (\<lambda>k. rd32 (concat (map le32 ps) @ rest) (4 * k)) [0 ..< length ps])"
  then have k: "k < length ps" by simp
  have "rd32 (concat (map le32 ps) @ rest) (4 * k) = rd32 (drop (k * 4) (concat (map le32 ps) @ rest)) 0"
    using rd32_drop [of "concat (map le32 ps) @ rest" "4 * k" 0] by (simp add: mult.commute)
  then show "map (\<lambda>k. rd32 (concat (map le32 ps) @ rest) (4 * k)) [0 ..< length ps] ! k = ps ! k"
    using ptr_codec.dec_chunk [of ps k rest] k by simp
qed simp

lemma enc_inode_length: "inode_wf n \<Longrightarrow> length (enc_inode n) = INODE_SIZE"
  by (simp add: enc_inode_def inode_wf_def length_ptrs catfs_layout)

lemma enc_super_length: "super_wf b \<Longrightarrow> length (enc_super b) = SECTOR_SIZE"
  by (simp add: enc_super_def super_wf_def catfs_layout)

lemma enc_jhdr_length: "jhdr_wf j \<Longrightarrow> length (enc_jhdr j) = SECTOR_SIZE"
  by (simp add: enc_jhdr_def jhdr_wf_def catfs_layout)

lemma enc_jrec_length: "length (enc_jrec r) = JREC_SIZE"
  by (simp add: enc_jrec_def catfs_layout)

lemma dec_enc_jhdr: "jhdr_wf j \<Longrightarrow> dec_jhdr (enc_jhdr j @ rest) = j"
  by (cases j) (simp add: dec_jhdr_def enc_jhdr_def jhdr_wf_def rd_le32 rd_skip)

lemma dec_enc_super: "super_wf b \<Longrightarrow> dec_super (enc_super b @ rest) = b"
  by (cases b) (simp add: dec_super_def enc_super_def super_wf_def rd_le32 rd_skip)

lemma sint_parent: "- (2 ^ 31) \<le> p \<Longrightarrow> p < 2 ^ 31 \<Longrightarrow> sint (word_of_int p :: u32) = p"
  by (simp add: sint_sbintrunc' signed_take_bit_int_eq_self)

lemma dec_enc_inode: "inode_wf n \<Longrightarrow> dec_inode (enc_inode n @ rest) = n"
proof -
  assume wf: "inode_wf n"
  let ?pre = "ci_name n @ [ci_type n] @ le16 (ci_perms n) @ le32 (ci_size n) @ le32 (word_of_int (ci_parent n)) @ le32 (ci_ctime n) @
     le32 (ci_mtime n) @ le32 (ci_atime n)"
  let ?post = "le32 (ci_indirect n) @ le32 (ci_dindirect n) @ rest"
  have e: "enc_inode n @ rest = ?pre @ concat (map le32 (ci_blocks n)) @ ?post" by (simp add: enc_inode_def)
  have l: "length ?pre = 79" "length (ci_blocks n) = 16" "length (ci_name n) = 56" using wf by (simp_all add: inode_wf_def catfs_layout)
  have "map (\<lambda>k. rd32 (?pre @ concat (map le32 (ci_blocks n)) @ ?post) (79 + 4 * k)) [0 ..< 16] = ci_blocks n"
    using rd_ptrs [of "ci_blocks n" ?post] l by (subst rd_skip) (auto simp del: append_assoc)
  then have b: "ci_blocks (dec_inode (enc_inode n @ rest)) = ci_blocks n" by (simp add: dec_inode_def e CATFS_DIRECT_BLOCKS_def)
  have q: "rd32 (enc_inode n @ rest) 143 = ci_indirect n" "rd32 (enc_inode n @ rest) 147 = ci_dindirect n"
    unfolding e using l by (simp_all add: rd_skip rd_skip_Cons length_ptrs rd_le32)
  have f: "take 56 (enc_inode n @ rest) = ci_name n" "rd8 (enc_inode n @ rest) 56 = ci_type n" "rd16 (enc_inode n @ rest) 57 = ci_perms n"
      "rd32 (enc_inode n @ rest) 59 = ci_size n" "rd32 (enc_inode n @ rest) 63 = word_of_int (ci_parent n)"
      "rd32 (enc_inode n @ rest) 67 = ci_ctime n" "rd32 (enc_inode n @ rest) 71 = ci_mtime n" "rd32 (enc_inode n @ rest) 75 = ci_atime n"
    unfolding e using l(3) by (simp_all add: rd_skip rd_skip_Cons rd_head rd_le16 rd_le32)
  have p: "sint (word_of_int (ci_parent n) :: u32) = ci_parent n" using wf by (simp add: inode_wf_def sint_parent)
  show ?thesis
  proof (rule catfs_inode.equality)
    show "ci_blocks (dec_inode (enc_inode n @ rest)) = ci_blocks n" by (rule b)
  qed (simp_all add: dec_inode_def f q p del: take_append)
qed

interpretation inode_codec: disk_codec enc_inode dec_inode INODE_SIZE inode_wf
  by unfold_locales (simp_all add: enc_inode_length dec_enc_inode)

interpretation super_codec: disk_codec enc_super dec_super SECTOR_SIZE super_wf
  by unfold_locales (simp_all add: enc_super_length dec_enc_super)

interpretation jhdr_codec: disk_codec enc_jhdr dec_jhdr SECTOR_SIZE jhdr_wf
  by unfold_locales (simp_all add: enc_jhdr_length dec_enc_jhdr)

subsection \<open>Sector transfers that succeed\<close>

definition disk_at :: "catfs \<Rightarrow> u32 \<Rightarrow> u8 list" where
  "disk_at s lba = sectors s (disk_drive s) (partition_offset s + lba)"

text \<open>A drive on which every transfer succeeds.\<close>
definition io_good :: "catfs \<Rightarrow> bool" where
  "io_good s \<longleftrightarrow> drive_present (disk_drive s) s \<and> (\<forall>k. io_ok s k)"

lemma io_good_transfer: "io_good s \<Longrightarrow> transfer_ok s"
  by (simp add: io_good_def transfer_ok_def drive_present_def)

lemma io_good_fields [simp]:
  "io_good (s\<lparr>ios := n\<rparr>) = io_good s" "io_good (s\<lparr>sectors := f\<rparr>) = io_good s" "io_good (s\<lparr>sb := b\<rparr>) = io_good s"
  "io_good (s\<lparr>jh := j\<rparr>) = io_good s" "io_good (s\<lparr>cinodes := c\<rparr>) = io_good s" "io_good (s\<lparr>bitmap := m\<rparr>) = io_good s"
  "io_good (s\<lparr>next_seq := q\<rparr>) = io_good s" "io_good (s\<lparr>mounted := t\<rparr>) = io_good s" "io_good (s\<lparr>cfault := t\<rparr>) = io_good s"
  by (simp_all add: io_good_def drive_present_def)

lemma disk_at_fields [simp]:
  "disk_at (s\<lparr>ios := n\<rparr>) = disk_at s" "disk_at (s\<lparr>sb := b\<rparr>) = disk_at s"
  "disk_at (s\<lparr>jh := j\<rparr>) = disk_at s" "disk_at (s\<lparr>cinodes := c\<rparr>) = disk_at s" "disk_at (s\<lparr>bitmap := m\<rparr>) = disk_at s"
  "disk_at (s\<lparr>next_seq := q\<rparr>) = disk_at s" "disk_at (s\<lparr>mounted := t\<rparr>) = disk_at s" "disk_at (s\<lparr>cfault := t\<rparr>) = disk_at s"
  by (simp_all add: disk_at_def fun_eq_iff)

lemma dsk_read_good: "io_good s \<Longrightarrow> dsk_read lba s = (s\<lparr>ios := ios s + 1\<rparr>, Some (disk_at s lba))"
  by (simp add: dsk_read_def io_good_transfer disk_at_def)

text \<open>The state after a list of sectors has been written.\<close>
definition put_sector :: "catfs \<Rightarrow> u32 \<Rightarrow> u8 list \<Rightarrow> catfs" where
  "put_sector s lba bs = s\<lparr>ios := ios s + 1, sectors := (sectors s)(disk_drive s := (sectors s (disk_drive s))(partition_offset s + lba := bs))\<rparr>"

lemma dsk_write_good: "io_good s \<Longrightarrow> dsk_write lba bs s = (put_sector s lba bs, True)"
  by (simp add: dsk_write_def io_good_transfer put_sector_def)

lemma put_sector_frame [simp]:
  "io_good (put_sector s l bs) = io_good s" "sb (put_sector s l bs) = sb s" "jh (put_sector s l bs) = jh s"
  "cinodes (put_sector s l bs) = cinodes s" "bitmap (put_sector s l bs) = bitmap s" "next_seq (put_sector s l bs) = next_seq s"
  "mounted (put_sector s l bs) = mounted s" "disk_drive (put_sector s l bs) = disk_drive s" "io_ok (put_sector s l bs) = io_ok s"
  "partition_offset (put_sector s l bs) = partition_offset s" "cfault (put_sector s l bs) = cfault s" "drives (put_sector s l bs) = drives s"
  "cticks (put_sector s l bs) = cticks s" "kalloc_ok (put_sector s l bs) = kalloc_ok s"
  by (simp_all add: put_sector_def)

lemma disk_at_put: "disk_at (put_sector s l bs) = (disk_at s)(l := bs)"
  by (auto simp: disk_at_def put_sector_def fun_eq_iff)

definition put_sectors :: "catfs \<Rightarrow> (u32 \<times> u8 list) list \<Rightarrow> catfs" where
  "put_sectors s ws = foldl (\<lambda>t (l, bs). put_sector t l bs) s ws"

lemma put_sectors_simps [simp]: "put_sectors s [] = s" "put_sectors s ((l, bs) # ws) = put_sectors (put_sector s l bs) ws"
  by (simp_all add: put_sectors_def)

lemma write_sectors_good: "io_good s \<Longrightarrow> write_sectors ws s = (put_sectors s ws, True)"
  by (induction ws arbitrary: s) (auto simp: dsk_write_good)

lemma put_sectors_frame [simp]:
  "io_good (put_sectors s ws) = io_good s" "sb (put_sectors s ws) = sb s" "jh (put_sectors s ws) = jh s"
  "cinodes (put_sectors s ws) = cinodes s" "bitmap (put_sectors s ws) = bitmap s" "next_seq (put_sectors s ws) = next_seq s"
  "mounted (put_sectors s ws) = mounted s" "disk_drive (put_sectors s ws) = disk_drive s" "io_ok (put_sectors s ws) = io_ok s"
  "partition_offset (put_sectors s ws) = partition_offset s" "cfault (put_sectors s ws) = cfault s" "drives (put_sectors s ws) = drives s"
  "cticks (put_sectors s ws) = cticks s" "kalloc_ok (put_sectors s ws) = kalloc_ok s"
  by (induction ws arbitrary: s) auto

text \<open>A table of \<open>n\<close> sectors written from address \<open>a\<close>.\<close>
definition table :: "nat \<Rightarrow> (nat \<Rightarrow> u8 list) \<Rightarrow> nat \<Rightarrow> (u32 \<times> u8 list) list" where
  "table a f n = map (\<lambda>k. (word_of_nat (a + k), f k)) [0 ..< n]"

lemma put_sectors_append: "put_sectors s (ws @ vs) = put_sectors (put_sectors s ws) vs"
  by (simp add: put_sectors_def)

lemma word_of_nat_eq: "a < 2 ^ 32 \<Longrightarrow> b < 2 ^ 32 \<Longrightarrow> (word_of_nat a :: u32) = word_of_nat b \<longleftrightarrow> a = b"
  by (simp add: word_of_nat_eq_iff take_bit_nat_eq_self)

lemma disk_at_table:
  "a + n \<le> 2 ^ 32 \<Longrightarrow> l < 2 ^ 32 \<Longrightarrow>
     disk_at (put_sectors s (table a f n)) (word_of_nat l) = (if a \<le> l \<and> l < a + n then f (l - a) else disk_at s (word_of_nat l))"
proof (induction n)
  case (Suc n)
  have "table a f (Suc n) = table a f n @ [(word_of_nat (a + n), f n)]" by (simp add: table_def)
  then show ?case using Suc word_of_nat_eq [of l "a + n"] by (simp add: put_sectors_append disk_at_put)
qed (auto simp: table_def)

lemma read_sectors_good:
  "io_good s \<Longrightarrow> read_sectors n lba s = (s\<lparr>ios := ios s + n\<rparr>, map (\<lambda>k. disk_at s (lba + word_of_nat k)) [0 ..< n], True)"
proof (induction n arbitrary: lba s)
  case (Suc n)
  have "map (\<lambda>k. disk_at s (lba + word_of_nat k)) [0 ..< Suc n] =
      disk_at s lba # map (\<lambda>k. disk_at s (lba + 1 + word_of_nat k)) [0 ..< n]"
    by (simp add: map_upt_Suc add.assoc del: upt_Suc)
  then show ?case using Suc by (simp add: dsk_read_good)
qed simp

subsection \<open>Synchronising and mounting\<close>

lemma splice_all: "length src = length buf \<Longrightarrow> splice 0 src buf = src"
  by (simp add: splice_def)

lemma length_zero_sector [simp]: "length zero_sector = 512"
  by (simp add: zero_sector_def catfs_layout)

text \<open>The shapes of the tables: what the C declarations fix.\<close>
definition tables_wf :: "catfs \<Rightarrow> bool" where
  "tables_wf s \<longleftrightarrow>
     length (cinodes s) = CATFS_INODE_MAX \<and> (\<forall>n \<in> set (cinodes s). inode_wf n) \<and>
     length (bitmap s) = CATFS_BLOCKS_MAX div 8 \<and> super_wf (sb s) \<and> jhdr_wf (jh s)"

definition catfs_wf :: "catfs \<Rightarrow> bool" where
  "catfs_wf s \<longleftrightarrow> (\<forall>d l. length (sectors s d l) = SECTOR_SIZE) \<and> tables_wf s"

definition std_layout :: "catfs_super \<Rightarrow> bool" where
  "std_layout b \<longleftrightarrow> sb_magic b = CATFS_MAGIC \<and> sb_data_start_lba b = word_of_nat DATA_LBA \<and>
     sb_bitmap_lba b = word_of_nat BITMAP_LBA \<and> sb_inode_table_lba b = word_of_nat INODE_TABLE_LBA"

lemma concat_chunks: "concat (map (\<lambda>k. take w (drop (k * w) xs)) [0 ..< n]) = take (n * w) xs"
proof (induction n)
  case (Suc n)
  have "take (Suc n * w) xs = take (n * w + w) xs" by (simp add: add.commute)
  then show ?case using Suc by (simp add: take_add)
qed simp

lemma bitmap_sectors_concat:
  assumes "length (bitmap s) = CATFS_BLOCKS_MAX div 8"
  shows "concat (map (bitmap_sector s) [0 ..< BITMAP_SECTORS]) = bitmap s"
proof -
  have "bitmap_sector s k = take 512 (drop (k * 512) (bitmap s))" if "k < BITMAP_SECTORS" for k
    using that assms by (simp add: bitmap_sector_def splice_all catfs_layout)
  then have "concat (map (bitmap_sector s) [0 ..< BITMAP_SECTORS]) =
      concat (map (\<lambda>k. take 512 (drop (k * 512) (bitmap s))) [0 ..< BITMAP_SECTORS])"
    by (intro arg_cong [where f = concat] map_cong) auto
  also have "\<dots> = bitmap s" unfolding concat_chunks using assms by (simp add: catfs_layout)
  finally show ?thesis .
qed

lemma inodes_of_inode_sector:
  assumes "length (cinodes s) = CATFS_INODE_MAX" "\<forall>n \<in> set (cinodes s). inode_wf n" "k < INODE_SECTORS"
  shows "inodes_of_sector k (inode_sector s k) = take 3 (drop (k * 3) (cinodes s))"
proof -
  let ?xs = "take 3 (drop (k * 3) (cinodes s))"
  have ok: "\<forall>n \<in> set ?xs. inode_wf n" using assms(2) by (meson in_set_dropD in_set_takeD)
  have len: "length ?xs = min 3 (256 - k * 3)" using assms(1) by (simp add: catfs_layout)
  have n: "(if (k + 1) * INODES_PER_SECTOR > CATFS_INODE_MAX then CATFS_INODE_MAX - k * INODES_PER_SECTOR else INODES_PER_SECTOR) = length ?xs"
    unfolding len using assms(3) by (auto simp: catfs_layout)
  have sec: "inode_sector s k = concat (map enc_inode ?xs) @ drop (length ?xs * INODE_SIZE) zero_sector"
    using inode_codec.concat_length [OF ok] by (simp add: inode_sector_def splice_def catfs_layout)
  show ?thesis unfolding inodes_of_sector_def sec n
    using inode_codec.dec_chunks [OF ok order.refl, of "drop (length ?xs * INODE_SIZE) zero_sector"] by (simp only: take_all order.refl)
qed

lemma inodes_of_table:
  assumes "length (cinodes s) = CATFS_INODE_MAX" "\<forall>n \<in> set (cinodes s). inode_wf n"
  shows "inodes_of_sectors (map (inode_sector s) [0 ..< INODE_SECTORS]) = cinodes s"
proof -
  have "inodes_of_sectors (map (inode_sector s) [0 ..< INODE_SECTORS]) =
      concat (map (\<lambda>k. inodes_of_sector k (inode_sector s k)) [0 ..< INODE_SECTORS])"
    unfolding inodes_of_sectors_def by (rule arg_cong [where f = concat]) (auto intro!: nth_equalityI simp: nth_enumerate_eq)
  also have "\<dots> = concat (map (\<lambda>k. take 3 (drop (k * 3) (cinodes s))) [0 ..< INODE_SECTORS])"
    using inodes_of_inode_sector [OF assms] by (intro arg_cong [where f = concat] map_cong) auto
  also have "\<dots> = cinodes s" unfolding concat_chunks using assms(1) by (simp add: catfs_layout)
  finally show ?thesis .
qed

lemma bitmap_table: "sync_whole_bitmap s = write_sectors (table BITMAP_LBA (bitmap_sector s) BITMAP_SECTORS) s"
  by (simp add: sync_whole_bitmap_def sync_bitmap_region_def table_def catfs_layout del: upt_Suc)

lemma sector_fns_cong:
  "cinodes s = cinodes t \<Longrightarrow> inode_sector s = inode_sector t" "bitmap s = bitmap t \<Longrightarrow> bitmap_sector s = bitmap_sector t"
  by (simp_all add: inode_sector_def bitmap_sector_def fun_eq_iff)

text \<open>What the disk holds after a complete synchronisation.\<close>
definition synced :: "catfs \<Rightarrow> bool" where
  "synced s \<longleftrightarrow>
     disk_at s (word_of_nat SB_LBA) = enc_super (sb s) \<and> disk_at s (word_of_nat JOURNAL_HDR_LBA) = enc_jhdr (jh s) \<and>
     (\<forall>k < INODE_SECTORS. disk_at s (word_of_nat (INODE_TABLE_LBA + k)) = inode_sector s k) \<and>
     (\<forall>k < BITMAP_SECTORS. disk_at s (word_of_nat (BITMAP_LBA + k)) = bitmap_sector s k)"

lemma catfs_sync_good:
  assumes "catfs_wf s" "mounted s" "io_good s"
  obtains s' where "catfs_sync s = (s', True)" "synced s'" "sb s' = (sb s)\<lparr>sb_clean_unmount := 1\<rparr>"
    "jh s' = (jh s)\<lparr>jh_magic := CATFS_MAGIC\<rparr>" "cinodes s' = cinodes s" "bitmap s' = bitmap s" "io_good s'"
    "disk_drive s' = disk_drive s" "partition_offset s' = partition_offset s" "drives s' = drives s"
proof -
  let ?it = "table INODE_TABLE_LBA (inode_sector s) INODE_SECTORS" and ?bt = "table BITMAP_LBA (bitmap_sector s) BITMAP_SECTORS"
  define s1 where "s1 = put_sector s (word_of_nat SB_LBA) (enc_super (sb s))"
  define s3 where "s3 = put_sectors (put_sectors s1 ?it) ?bt"
  define s4 where "s4 = put_sector (s3\<lparr>sb := (sb s)\<lparr>sb_clean_unmount := 1\<rparr>\<rparr>) (word_of_nat SB_LBA) (enc_super ((sb s)\<lparr>sb_clean_unmount := 1\<rparr>))"
  define s5 where "s5 = put_sector (s4\<lparr>jh := (jh s)\<lparr>jh_magic := CATFS_MAGIC\<rparr>\<rparr>) (word_of_nat JOURNAL_HDR_LBA) (enc_jhdr ((jh s)\<lparr>jh_magic := CATFS_MAGIC\<rparr>))"
  note fr = s1_def s3_def s4_def s5_def
  have wf: "super_wf (sb s)" "super_wf ((sb s)\<lparr>sb_clean_unmount := 1\<rparr>)" "jhdr_wf ((jh s)\<lparr>jh_magic := CATFS_MAGIC\<rparr>)"
    using assms(1) by (simp_all add: catfs_wf_def tables_wf_def super_wf_def jhdr_wf_def)
  note full = splice_all [of "enc_super _" zero_sector] splice_all [of "enc_jhdr _" zero_sector]
  have len: "length (enc_super (sb s)) = 512" "length (enc_super ((sb s)\<lparr>sb_clean_unmount := 1\<rparr>)) = 512"
      "length (enc_jhdr ((jh s)\<lparr>jh_magic := CATFS_MAGIC\<rparr>)) = 512"
    using wf super_codec.enc_length jhdr_codec.enc_length by (simp_all add: SECTOR_SIZE_def)
  have g: "io_good s1" "io_good s3" "io_good s4" "io_good s5" using assms(3) by (simp_all add: fr)
  have c1: "cinodes s1 = cinodes s" "bitmap s1 = bitmap s" "mounted s1" "sb s1 = sb s" using assms(2) by (simp_all add: fr)
  have st1: "sync_superblock s = (s1, True)" using assms(3) len by (simp add: sync_superblock_def full dsk_write_good s1_def)
  have st2: "write_sectors (map (\<lambda>k. (word_of_nat (INODE_TABLE_LBA + k), inode_sector s1 k)) [0 ..< INODE_SECTORS]) s1 = (put_sectors s1 ?it, True)"
    using write_sectors_good [OF g(1)] sector_fns_cong(1) [OF c1(1)] by (simp add: table_def)
  have st3: "sync_whole_bitmap (put_sectors s1 ?it) = (s3, True)"
    unfolding bitmap_table using write_sectors_good [of "put_sectors s1 ?it"] g(1) sector_fns_cong(2) [of "put_sectors s1 ?it" s] c1
    by (simp add: s3_def)
  have sb3: "sb s3 = sb s" "jh s4 = jh s" using c1 by (simp_all add: fr)
  have st4: "sync_superblock (s3\<lparr>sb := (sb s3)\<lparr>sb_clean_unmount := 1\<rparr>\<rparr>) = (s4, True)"
    using g(2) len sb3 by (simp add: sync_superblock_def full dsk_write_good s4_def)
  have st5: "journal_flush_header s4 = (s5, True)"
    using g(3) len sb3 by (simp add: journal_flush_header_def full dsk_write_good s5_def Let_def)
  have "catfs_sync s = (s5, True)" unfolding catfs_sync_def using assms(2) st1 st2 st3 st4 st5 by simp
  moreover have "synced s5"
  proof -
    have i: "inode_sector s5 = inode_sector s" "bitmap_sector s5 = bitmap_sector s" by (rule sector_fns_cong; simp add: fr)+
    have low: "(word_of_nat l :: u32) \<noteq> word_of_nat SB_LBA" "(word_of_nat l :: u32) \<noteq> word_of_nat JOURNAL_HDR_LBA"
        if "2 \<le> l" "l < 2 ^ 32" for l using that word_of_nat_eq [of l 0] word_of_nat_eq [of l 1] by (auto simp: catfs_layout)
    have d: "disk_at s5 (word_of_nat l) = disk_at s3 (word_of_nat l)" if "2 \<le> l" "l < 2 ^ 32" for l
      using low [OF that] by (simp add: s5_def s4_def disk_at_put)
    have num: "INODE_TABLE_LBA + INODE_SECTORS = BITMAP_LBA" "BITMAP_LBA + BITMAP_SECTORS < 2 ^ 32" by (simp_all add: catfs_layout)
    have t: "disk_at s3 (word_of_nat (INODE_TABLE_LBA + k)) = inode_sector s k" if "k < INODE_SECTORS" for k
      unfolding s3_def using that num
        disk_at_table [of BITMAP_LBA BITMAP_SECTORS "INODE_TABLE_LBA + k" "put_sectors s1 ?it" "bitmap_sector s"]
        disk_at_table [of INODE_TABLE_LBA INODE_SECTORS "INODE_TABLE_LBA + k" s1 "inode_sector s"] by simp
    have b: "disk_at s3 (word_of_nat (BITMAP_LBA + k)) = bitmap_sector s k" if "k < BITMAP_SECTORS" for k
      unfolding s3_def using that num
        disk_at_table [of BITMAP_LBA BITMAP_SECTORS "BITMAP_LBA + k" "put_sectors s1 ?it" "bitmap_sector s"] by simp
    have lo: "2 \<le> INODE_TABLE_LBA + k" "2 \<le> BITMAP_LBA + k" for k by (simp_all add: catfs_layout)
    have hi: "INODE_TABLE_LBA + k < 2 ^ 32" if "k < INODE_SECTORS" for k using that by (simp add: catfs_layout)
    have hi2: "BITMAP_LBA + k < 2 ^ 32" if "k < BITMAP_SECTORS" for k using that by (simp add: catfs_layout)
    have e: "disk_at s5 (word_of_nat SB_LBA) = enc_super (sb s5)" "disk_at s5 (word_of_nat JOURNAL_HDR_LBA) = enc_jhdr (jh s5)"
      by (simp_all add: s5_def s4_def disk_at_put catfs_layout)
    show ?thesis unfolding synced_def i using e d t b lo hi hi2 by metis
  qed
  ultimately show ?thesis using that g(4) c1 by (simp add: fr)
qed

text \<open>Mounting a synchronised disk, whatever is in memory.\<close>
lemma catfs_mount_synced:
  assumes "synced s" "tables_wf s" "std_layout (sb s)" "sectors r = sectors s" "drive_present (disk_drive s) r" "\<forall>k. io_ok r k"
    "length (cinodes r) = CATFS_INODE_MAX" "length (bitmap r) = CATFS_BLOCKS_MAX div 8" "sb_clean_unmount (sb s) \<noteq> 0"
  obtains r' where "catfs_mount_at (disk_drive s) (partition_offset s) r = (r', True)" "cinodes r' = cinodes s" "bitmap r' = bitmap s"
    "sb r' = (sb s)\<lparr>sb_clean_unmount := 0\<rparr>" "jh r' = jh s" "next_seq r' = jh_committed_seq (jh s)" "mounted r'"
proof -
  define r0 where "r0 = r\<lparr>disk_drive := disk_drive s, partition_offset := partition_offset s\<rparr>"
  have g: "io_good r0" using assms(5,6) by (simp add: io_good_def drive_present_def r0_def)
  have at: "disk_at r0 = disk_at s" using assms(4) by (simp add: disk_at_def fun_eq_iff r0_def)
  have wf: "super_wf (sb s)" "jhdr_wf (jh s)" "length (cinodes s) = CATFS_INODE_MAX" "\<forall>n \<in> set (cinodes s). inode_wf n"
      "length (bitmap s) = CATFS_BLOCKS_MAX div 8" using assms(2) by (simp_all add: tables_wf_def)
  have d0: "disk_at s (word_of_nat SB_LBA) = enc_super (sb s)" "disk_at s (word_of_nat JOURNAL_HDR_LBA) = enc_jhdr (jh s)"
    using assms(1) by (simp_all add: synced_def)
  have dec: "dec_super (enc_super (sb s)) = sb s" "dec_jhdr (enc_jhdr (jh s)) = jh s"
    using super_codec.dec_enc [OF wf(1), of "[]"] jhdr_codec.dec_enc [OF wf(2), of "[]"] by simp_all
  have isec: "read_sectors INODE_SECTORS (sb_inode_table_lba (sb s)) t =
      (t\<lparr>ios := ios t + INODE_SECTORS\<rparr>, map (inode_sector s) [0 ..< INODE_SECTORS], True)" if "io_good t" "disk_at t = disk_at s" for t
    using assms(1,3) that by (simp add: read_sectors_good synced_def std_layout_def)
  have bsec: "read_sectors BITMAP_SECTORS (sb_bitmap_lba (sb s)) t =
      (t\<lparr>ios := ios t + BITMAP_SECTORS\<rparr>, map (bitmap_sector s) [0 ..< BITMAP_SECTORS], True)" if "io_good t" "disk_at t = disk_at s" for t
    using assms(1,3) that by (simp add: read_sectors_good synced_def std_layout_def)
  have len0: "length (cinodes r0) = length (cinodes s)" "length (bitmap r0) = length (bitmap s)" using assms(7,8) wf by (simp_all add: r0_def)
  let ?s8 = "r0\<lparr>jh := jh s, cinodes := cinodes s, ios := ios r0 + 2 + INODE_SECTORS + BITMAP_SECTORS, bitmap := bitmap s,
      next_seq := jh_committed_seq (jh s), sb := (sb s)\<lparr>sb_clean_unmount := 0\<rparr>\<rparr>"
  define r' where "r' = (fst (sync_superblock ?s8))\<lparr>mounted := True\<rparr>"
  have mag: "sb_magic (sb s) = CATFS_MAGIC" using assms(3) by (simp add: std_layout_def)
  have "catfs_mount_at (disk_drive s) (partition_offset s) r = (r', True)"
    using assms(5,9) g at d0 dec mag inodes_of_table [OF wf(3,4)] bitmap_sectors_concat [OF wf(5)]
    unfolding catfs_mount_at_def r0_def [symmetric] r'_def
    by (simp add: drive_present_def dsk_read_good isec bsec len0 Let_def add.commute add.left_commute)
  then show ?thesis using that g by (simp add: r'_def sync_superblock_def dsk_write_good)
qed

text \<open>C11. What \<open>catfs_sync\<close> writes, \<open>catfs_mount\<close> reads back: after a synchronisation with no failed
  transfer, mounting the same volume on a machine whose memory holds anything restores the inode
  table, the block bitmap, the journal header and the superblock, whose clean flag is consumed by the mount.\<close>
theorem catfs_sync_mount:
  assumes "catfs_wf s" "mounted s" "io_good s" "std_layout (sb s)" "catfs_sync s = (s1, ok)"
    "sectors r = sectors s1" "drives r = drives s" "\<forall>k. io_ok r k"
    "length (cinodes r) = CATFS_INODE_MAX" "length (bitmap r) = CATFS_BLOCKS_MAX div 8"
  shows "ok \<and> (\<exists>r'. catfs_mount_at (disk_drive s) (partition_offset s) r = (r', True) \<and> cinodes r' = cinodes s \<and>
    bitmap r' = bitmap s \<and> sb r' = (sb s)\<lparr>sb_clean_unmount := 0\<rparr> \<and> jh r' = (jh s)\<lparr>jh_magic := CATFS_MAGIC\<rparr> \<and>
    next_seq r' = jh_committed_seq (jh s) \<and> mounted r')"
proof -
  obtain s' where s': "catfs_sync s = (s', True)" "synced s'" "sb s' = (sb s)\<lparr>sb_clean_unmount := 1\<rparr>"
    "jh s' = (jh s)\<lparr>jh_magic := CATFS_MAGIC\<rparr>" "cinodes s' = cinodes s" "bitmap s' = bitmap s" "io_good s'"
    "disk_drive s' = disk_drive s" "partition_offset s' = partition_offset s" "drives s' = drives s"
    by (rule catfs_sync_good [OF assms(1-3)])
  have eq: "s1 = s'" "ok" using assms(5) s'(1) by simp_all
  have lay: "std_layout (sb s')" using assms(4) s'(3) by (simp add: std_layout_def)
  have tw: "tables_wf s'" using assms(1) s'(3-6) by (simp add: catfs_wf_def tables_wf_def super_wf_def jhdr_wf_def)
  have pr: "drive_present (disk_drive s') r" using assms(3,7) s'(8) by (simp add: io_good_def drive_present_def)
  obtain r' where "catfs_mount_at (disk_drive s') (partition_offset s') r = (r', True)" "cinodes r' = cinodes s'" "bitmap r' = bitmap s'"
    "sb r' = (sb s')\<lparr>sb_clean_unmount := 0\<rparr>" "jh r' = jh s'" "next_seq r' = jh_committed_seq (jh s')" "mounted r'"
    by (rule catfs_mount_synced [OF s'(2) tw lay _ pr assms(8-10)]) (use assms(6) eq s'(3) in simp_all)
  then show ?thesis using eq(2) s' by auto
qed

subsection \<open>Every operation keeps the shapes of the tables\<close>

lemma length_splice: "off + length src \<le> length buf \<Longrightarrow> length (splice off src buf) = length buf"
  by (simp add: splice_def)

lemma length_strcpy [simp]: "length (strcpy_into buf n) = length buf"
  by (simp add: strcpy_into_def splice_def)

lemma wf_sector: "catfs_wf s \<Longrightarrow> length (sectors s d l) = 512"
  by (simp add: catfs_wf_def SECTOR_SIZE_def)

lemma wf_fields [simp]:
  "catfs_wf (s\<lparr>ios := n\<rparr>) = catfs_wf s" "catfs_wf (s\<lparr>next_seq := q\<rparr>) = catfs_wf s" "catfs_wf (s\<lparr>mounted := t\<rparr>) = catfs_wf s"
  "catfs_wf (s\<lparr>cfault := t\<rparr>) = catfs_wf s" "catfs_wf (s\<lparr>disk_drive := d\<rparr>) = catfs_wf s" "catfs_wf (s\<lparr>partition_offset := po\<rparr>) = catfs_wf s"
  by (simp_all add: catfs_wf_def tables_wf_def)

lemma wf_free_counts [simp]: "catfs_wf (upd_free_blocks f s) = catfs_wf s" "catfs_wf (upd_free_inodes f s) = catfs_wf s"
  by (simp_all add: catfs_wf_def tables_wf_def upd_free_blocks_def upd_free_inodes_def super_wf_def)

lemma wf_bits [simp]: "catfs_wf (bm_set b s) = catfs_wf s" "catfs_wf (bm_clr b s) = catfs_wf s"
  by (simp_all add: catfs_wf_def tables_wf_def bm_set_def bm_clr_def)

lemma wf_clean [simp]: "catfs_wf (s\<lparr>sb := (sb s)\<lparr>sb_clean_unmount := v\<rparr>\<rparr>) = catfs_wf s"
  by (simp add: catfs_wf_def tables_wf_def super_wf_def)

lemma wf_jhdr [simp]: "catfs_wf (s\<lparr>jh := (jh s)\<lparr>jh_magic := v\<rparr>\<rparr>) = catfs_wf s" "catfs_wf (s\<lparr>jh := (jh s)\<lparr>jh_head := v\<rparr>\<rparr>) = catfs_wf s"
  "catfs_wf (s\<lparr>jh := (jh s)\<lparr>jh_committed_seq := v\<rparr>\<rparr>) = catfs_wf s"
  by (simp_all add: catfs_wf_def tables_wf_def jhdr_wf_def)

lemma wf_bm_free [simp]: "catfs_wf (bm_free b s) = catfs_wf s"
  by (simp add: bm_free_def)

lemma wf_bm_alloc [dest]: "bm_alloc s = (s', r) \<Longrightarrow> catfs_wf s' = catfs_wf s"
  by (auto simp: bm_alloc_def split: option.splits)

lemma wf_upd_cinode: "catfs_wf s \<Longrightarrow> (\<And>n. inode_wf n \<Longrightarrow> inode_wf (f n)) \<Longrightarrow> catfs_wf (upd_cinode i f s)"
proof (cases "i < length (cinodes s)")
  case True
  assume a: "catfs_wf s" "\<And>n. inode_wf n \<Longrightarrow> inode_wf (f n)"
  then have "inode_wf (f (cinodes s ! i))" using True by (simp add: catfs_wf_def tables_wf_def)
  then show ?thesis using a(1) by (auto simp: catfs_wf_def tables_wf_def upd_cinode_def dest: set_update_subset_insert [THEN subsetD])
qed (simp add: upd_cinode_def list_update_beyond)

lemma wf_read: "dsk_read l s = (s', r) \<Longrightarrow> catfs_wf s \<Longrightarrow> catfs_wf s' \<and> (\<forall>sec. r = Some sec \<longrightarrow> length sec = 512)"
  by (auto simp: dsk_read_def wf_sector split: if_splits)

lemma wf_write: "dsk_write l bs s = (s', ok) \<Longrightarrow> catfs_wf s \<Longrightarrow> length bs = 512 \<Longrightarrow> catfs_wf s'"
  by (auto simp: dsk_write_def catfs_wf_def tables_wf_def SECTOR_SIZE_def split: if_splits)

lemma wf_write_fst: "catfs_wf s \<Longrightarrow> length bs = 512 \<Longrightarrow> catfs_wf (fst (dsk_write l bs s))"
  using wf_write [OF prod.collapse [symmetric]] .

lemma wf_super_enc: "catfs_wf s \<Longrightarrow> length (splice 0 (enc_super (sb s)) zero_sector) = 512"
  by (subst length_splice) (simp_all add: catfs_wf_def tables_wf_def enc_super_length SECTOR_SIZE_def)

lemma wf_jhdr_enc: "catfs_wf s \<Longrightarrow> length (splice 0 (enc_jhdr (jh s)) zero_sector) = 512"
  by (subst length_splice) (simp_all add: catfs_wf_def tables_wf_def enc_jhdr_length SECTOR_SIZE_def)

lemma slot_fits: "(slot mod (SECTOR_SIZE div JREC_SIZE)) * JREC_SIZE + JREC_SIZE \<le> 512"
proof -
  have "slot mod 25 < 25" by simp
  then show ?thesis by (simp add: catfs_layout)
qed

lemma wf_journal_write: "journal_write_rec rec s = (s', ok) \<Longrightarrow> catfs_wf s \<Longrightarrow> catfs_wf s'"
proof -
  assume a: "journal_write_rec rec s = (s', ok)" "catfs_wf s"
  let ?slot = "unat (jh_head (jh s)) mod CATFS_JOURNAL_SLOTS"
  let ?lba = "word_of_nat (JOURNAL_LOG_LBA + ?slot div (SECTOR_SIZE div JREC_SIZE)) :: u32"
  let ?off = "(?slot mod (SECTOR_SIZE div JREC_SIZE)) * JREC_SIZE"
  obtain s1 r where r: "dsk_read ?lba s = (s1, r)" by fastforce
  have w1: "catfs_wf s1" "r = Some sec \<Longrightarrow> length sec = 512" for sec using wf_read [OF r a(2)] by auto
  have sp: "r = Some sec \<Longrightarrow> length (splice ?off (enc_jrec rec) sec) = 512" for sec
    using w1(2) slot_fits [of ?slot] by (subst length_splice) (simp_all add: enc_jrec_length)
  show ?thesis
  proof (cases r)
    case (Some sec)
    obtain s2 ok2 where w: "dsk_write ?lba (splice ?off (enc_jrec rec) sec) s1 = (s2, ok2)" by fastforce
    then have "catfs_wf s2" using wf_write [OF w w1(1) sp] Some by simp
    then show ?thesis using a(1) r Some w by (auto simp: journal_write_rec_def Let_def split: if_splits)
  qed (use a(1) r w1(1) in \<open>simp add: journal_write_rec_def Let_def\<close>)
qed

lemma wf_journal_log: "journal_log ty i a b s = (s', ok) \<Longrightarrow> catfs_wf s \<Longrightarrow> catfs_wf s'"
  by (auto simp: journal_log_def Let_def dest: wf_journal_write)

lemma wf_flush_header: "journal_flush_header s = (s', ok) \<Longrightarrow> catfs_wf s \<Longrightarrow> catfs_wf s'"
  using wf_jhdr_enc [of "s\<lparr>jh := (jh s)\<lparr>jh_magic := CATFS_MAGIC\<rparr>\<rparr>"] by (auto simp: journal_flush_header_def Let_def dest!: wf_write)

lemma wf_commit: "journal_commit s = (s', ok) \<Longrightarrow> catfs_wf s \<Longrightarrow> catfs_wf s'"
  by (auto simp: journal_commit_def dest: wf_flush_header)

lemma wf_torn: "torn_scan n slot torn s = (s', t) \<Longrightarrow> catfs_wf s \<Longrightarrow> catfs_wf s'"
  by (induction n arbitrary: slot torn s) (auto simp: Let_def split: prod.splits option.splits dest!: wf_read)

lemma wf_check_torn: "journal_check_torn s = (s', t) \<Longrightarrow> catfs_wf s \<Longrightarrow> catfs_wf s'"
  by (auto simp: journal_check_torn_def dest: wf_torn)

lemma wf_sync_super: "sync_superblock s = (s', ok) \<Longrightarrow> catfs_wf s \<Longrightarrow> catfs_wf s'"
  using wf_super_enc by (auto simp: sync_superblock_def dest!: wf_write)

lemma wf_sync_inode: "sync_inode i s = (s', ok) \<Longrightarrow> catfs_wf s \<Longrightarrow> i < CATFS_INODE_MAX \<Longrightarrow> catfs_wf s'"
proof -
  assume a: "sync_inode i s = (s', ok)" "catfs_wf s" "i < CATFS_INODE_MAX"
  obtain s1 r where r: "dsk_read (word_of_nat (INODE_TABLE_LBA + i div INODES_PER_SECTOR)) s = (s1, r)" by fastforce
  have w1: "catfs_wf s1" "r = Some sec \<Longrightarrow> length sec = 512" for sec using wf_read [OF r a(2)] by auto
  have "i < length (cinodes s1)" using w1(1) a(3) by (simp add: catfs_wf_def tables_wf_def)
  then have n: "inode_wf (cinodes s1 ! i)" using w1(1) by (simp add: catfs_wf_def tables_wf_def)
  have m: "i mod 3 \<le> 2" by simp
  have "length (splice ((i mod INODES_PER_SECTOR) * INODE_SIZE) (enc_inode (cinodes s1 ! i)) sec) = 512" if "r = Some sec" for sec
    using w1(2) [OF that] enc_inode_length [OF n] m by (subst length_splice) (auto simp: catfs_layout)
  then show ?thesis using a(1) r w1(1) by (auto simp: sync_inode_def Let_def split: option.splits dest!: wf_write)
qed

lemma wf_write_sectors: "write_sectors ws s = (s', ok) \<Longrightarrow> catfs_wf s \<Longrightarrow> \<forall>(l, bs) \<in> set ws. length bs = 512 \<Longrightarrow> catfs_wf s'"
  by (induction ws s rule: write_sectors.induct) (auto simp: Let_def split: prod.splits if_splits dest: wf_write)

lemma wf_sync_bitmap: "sync_whole_bitmap s = (s', ok) \<Longrightarrow> catfs_wf s \<Longrightarrow> catfs_wf s'"
proof -
  have "length (bitmap_sector t k) = 512" for t k
    unfolding bitmap_sector_def by (subst length_splice) (simp_all add: SECTOR_SIZE_def)
  then show "sync_whole_bitmap s = (s', ok) \<Longrightarrow> catfs_wf s \<Longrightarrow> catfs_wf s'"
    unfolding bitmap_table by (auto simp: table_def dest!: wf_write_sectors)
qed

lemma wf_inode_sector: "catfs_wf s \<Longrightarrow> length (inode_sector s k) = 512"
proof -
  assume "catfs_wf s"
  then have ok: "\<forall>n \<in> set (take 3 (drop (k * 3) (cinodes s))). inode_wf n"
    by (auto simp: catfs_wf_def tables_wf_def dest!: in_set_takeD in_set_dropD)
  have "length (concat (map enc_inode (take 3 (drop (k * 3) (cinodes s))))) \<le> 453"
    using inode_codec.concat_length [OF ok] by (simp add: catfs_layout)
  then show ?thesis unfolding inode_sector_def by (subst length_splice) (simp_all add: catfs_layout)
qed

lemma wf_sync: "catfs_sync s = (s', ok) \<Longrightarrow> catfs_wf s \<Longrightarrow> catfs_wf s'"
  by (auto simp: catfs_sync_def Let_def wf_inode_sector split: if_splits prod.splits
      dest!: wf_sync_super wf_write_sectors wf_sync_bitmap wf_flush_header)

lemma wf_zero_cinode [simp]: "inode_wf zero_cinode"
  by (simp add: inode_wf_def zero_cinode_def catfs_layout)

lemma wf_dec_inode: "151 \<le> length bs \<Longrightarrow> inode_wf (dec_inode bs)"
  using sint_range_size [of "rd32 bs 63"] by (simp add: inode_wf_def dec_inode_def catfs_layout word_size)

lemma inodes_of_sectors_wf:
  assumes "\<forall>sec \<in> set secs. length sec = 512" "length secs \<le> INODE_SECTORS"
  shows "\<forall>n \<in> set (inodes_of_sectors secs). inode_wf n" "length (inodes_of_sectors secs) \<le> CATFS_INODE_MAX"
proof -
  show "\<forall>n \<in> set (inodes_of_sectors secs). inode_wf n"
  proof
    fix n assume "n \<in> set (inodes_of_sectors secs)"
    then obtain k sec j where k: "(k, sec) \<in> set (enumerate 0 secs)" "n = dec_inode (drop (j * INODE_SIZE) sec)" "j < INODES_PER_SECTOR"
      by (fastforce simp: inodes_of_sectors_def inodes_of_sector_def catfs_layout split: if_splits)
    then have "length sec = 512" using assms(1) by (metis enumerate_eq_zip set_zip_rightD)
    then show "inode_wf n" using k(2,3) wf_dec_inode [of "drop (j * INODE_SIZE) sec"] by (simp add: catfs_layout)
  qed
  have "length secs \<le> INODE_SECTORS \<Longrightarrow> length (inodes_of_sectors secs) = min 256 (3 * length secs)"
  proof (induction secs rule: rev_induct)
    case (snoc sec secs)
    then show ?case by (auto simp: inodes_of_sectors_def enumerate_append_eq inodes_of_sector_def catfs_layout min_def)
  qed (simp add: inodes_of_sectors_def)
  then show "length (inodes_of_sectors secs) \<le> CATFS_INODE_MAX" using assms(2) by (simp add: CATFS_INODE_MAX_def)
qed

lemma wf_read_sectors:
  "read_sectors n lba s = (s', secs, ok) \<Longrightarrow> catfs_wf s \<Longrightarrow>
     catfs_wf s' \<and> (\<forall>sec \<in> set secs. length sec = 512) \<and> length secs \<le> n \<and> sb s' = sb s"
proof (induction n arbitrary: lba s s' secs ok)
  case (Suc n)
  obtain s1 r where r: "dsk_read lba s = (s1, r)" by fastforce
  have w: "catfs_wf s1" "r = Some sec \<Longrightarrow> length sec = 512" "sb s1 = sb s" for sec
    using wf_read [OF r Suc.prems(2)] r by (auto simp: dsk_read_def)
  show ?case
  proof (cases r)
    case (Some sec)
    obtain s2 ss ok2 where rr: "read_sectors n (lba + 1) s1 = (s2, ss, ok2)" by (cases "read_sectors n (lba + 1) s1") auto
    show ?thesis using Suc.prems(1) r Some rr Suc.IH [OF rr w(1)] w(2,3) by auto
  qed (use Suc.prems(1) r w in auto)
qed simp

lemma wf_set_inodes:
  assumes "catfs_wf s" "\<forall>n \<in> set got. inode_wf n" "length got \<le> CATFS_INODE_MAX"
  shows "catfs_wf (s\<lparr>cinodes := got @ drop (length got) (cinodes s)\<rparr>)"
  using assms by (auto simp: catfs_wf_def tables_wf_def dest: in_set_dropD)

lemma wf_set_bits:
  assumes "catfs_wf s" "length bits \<le> CATFS_BLOCKS_MAX div 8"
  shows "catfs_wf (s\<lparr>bitmap := bits @ drop (length bits) (bitmap s)\<rparr>)"
  using assms by (simp add: catfs_wf_def tables_wf_def)

lemma concat_512: "\<forall>sec \<in> set secs. length sec = 512 \<Longrightarrow> length (concat secs) = length secs * 512"
  by (induction secs) auto

lemma wf_set_super: "catfs_wf s \<Longrightarrow> length sec = 512 \<Longrightarrow> catfs_wf (s\<lparr>sb := dec_super sec\<rparr>)"
  by (simp add: catfs_wf_def tables_wf_def super_wf_def dec_super_def)

lemma wf_set_jhdr: "catfs_wf s \<Longrightarrow> length sec = 512 \<Longrightarrow> catfs_wf (s\<lparr>jh := dec_jhdr sec\<rparr>)"
  by (simp add: catfs_wf_def tables_wf_def jhdr_wf_def dec_jhdr_def)

lemma wf_mount_finish:
  assumes "catfs_wf s"
  shows "catfs_wf (let s8 = s\<lparr>next_seq := jh_committed_seq (jh s), sb := (sb s)\<lparr>sb_clean_unmount := 0\<rparr>\<rparr>;
      s9 = (fst (sync_superblock s8))\<lparr>mounted := True\<rparr> in if c then fst (journal_check_torn s9) else s9)"
proof -
  let ?s8 = "s\<lparr>next_seq := jh_committed_seq (jh s), sb := (sb s)\<lparr>sb_clean_unmount := 0\<rparr>\<rparr>"
  have "catfs_wf ?s8" using assms by (simp add: catfs_wf_def tables_wf_def super_wf_def)
  then have w: "catfs_wf ((fst (sync_superblock ?s8))\<lparr>mounted := True\<rparr>)"
    using wf_sync_super [OF prod.collapse [symmetric]] by simp
  then show ?thesis using wf_check_torn [OF prod.collapse [symmetric] w] by (simp add: Let_def)
qed

lemma wf_mount: "catfs_mount_at d po s = (s', ok) \<Longrightarrow> catfs_wf s \<Longrightarrow> catfs_wf s'"
proof -
  assume a: "catfs_mount_at d po s = (s', ok)" and w: "catfs_wf s"
  define s0 where "s0 = s\<lparr>disk_drive := d, partition_offset := po\<rparr>"
  show ?thesis
  proof (cases "d \<ge> int DISK_MAX_DRIVES \<or> \<not> drive_present d s")
    case False
    obtain s1 r1 where r1: "dsk_read (word_of_nat SB_LBA) s0 = (s1, r1)" by fastforce
    have w1: "catfs_wf s1" "r1 = Some sec \<Longrightarrow> length sec = 512" for sec using wf_read [OF r1] w by (auto simp: s0_def)
    show ?thesis
    proof (cases r1)
      case (Some sec)
      define s2 where "s2 = s1\<lparr>sb := dec_super sec\<rparr>"
      have w2: "catfs_wf s2" using wf_set_super w1 Some by (simp add: s2_def)
      obtain s3 r3 where r3: "dsk_read (word_of_nat JOURNAL_HDR_LBA) s2 = (s3, r3)" by fastforce
      have w3: "catfs_wf s3" "r3 = Some hs \<Longrightarrow> length hs = 512" for hs using wf_read [OF r3 w2] by auto
      show ?thesis
      proof (cases "sb_magic (sb s2) = CATFS_MAGIC \<and> r3 \<noteq> None")
        case True
        then obtain hs where hs: "r3 = Some hs" by auto
        obtain s4 isecs iok where r4: "read_sectors INODE_SECTORS (sb_inode_table_lba (sb s3)) (s3\<lparr>jh := dec_jhdr hs\<rparr>) = (s4, isecs, iok)"
          by (rule prod_cases3)
        note w4 = wf_read_sectors [OF r4 wf_set_jhdr [OF w3(1) w3(2) [OF hs]]]
        define s5 where "s5 = s4\<lparr>cinodes := inodes_of_sectors isecs @ drop (length (inodes_of_sectors isecs)) (cinodes s4)\<rparr>"
        have w5: "catfs_wf s5" unfolding s5_def using w4 inodes_of_sectors_wf [of isecs] by (intro wf_set_inodes) auto
        obtain s6 bsecs bok where r6: "read_sectors BITMAP_SECTORS (sb_bitmap_lba (sb s5)) s5 = (s6, bsecs, bok)" by (rule prod_cases3)
        note w6 = wf_read_sectors [OF r6 w5]
        define s7 where "s7 = s6\<lparr>bitmap := concat bsecs @ drop (length (concat bsecs)) (bitmap s6)\<rparr>"
        have w7: "catfs_wf s7" unfolding s7_def using w6 concat_512 [of bsecs] by (intro wf_set_bits) (auto simp: catfs_layout)
        show ?thesis using a False r1 [unfolded s0_def] Some r3 [unfolded s2_def] True hs r4 r6 [unfolded s5_def] w5 w7
            wf_mount_finish [OF w7, of True] wf_mount_finish [OF w7, of False]
          by (auto simp: catfs_mount_at_def s2_def Let_def s5_def [symmetric] s7_def [symmetric] split: if_splits)
      next
        case no: False
        then show ?thesis using a False r1 [unfolded s0_def] Some r3 [unfolded s2_def] w2 w3
          by (auto simp: catfs_mount_at_def s2_def Let_def split: if_splits)
      qed
    qed (use a False r1 [unfolded s0_def] w1 in \<open>auto simp: catfs_mount_at_def Let_def\<close>)
  qed (use a w in \<open>auto simp: catfs_mount_at_def split: if_splits\<close>)
qed

lemma wf_format: "catfs_format_at d po lbl s = (s', ok) \<Longrightarrow> catfs_wf s \<Longrightarrow> catfs_wf s'"
proof -
  have "catfs_wf (s\<lparr>disk_drive := d, partition_offset := po, sb := fresh_super lbl, jh := zero_jhdr\<lparr>jh_magic := CATFS_MAGIC\<rparr>,
      cinodes := (replicate CATFS_INODE_MAX zero_cinode)[0 := root_inode (catfs_now s)],
      bitmap := replicate (CATFS_BLOCKS_MAX div 8) 0, mounted := True, next_seq := 0, cfault := c\<rparr>)" if "catfs_wf s" for c
    using that by (auto simp: catfs_wf_def tables_wf_def fresh_super_def zero_super_def super_wf_def jhdr_wf_def zero_jhdr_def root_inode_def
        inode_wf_def zero_cinode_def catfs_layout dest!: set_update_subset_insert [THEN subsetD])
  then show "catfs_format_at d po lbl s = (s', ok) \<Longrightarrow> catfs_wf s \<Longrightarrow> catfs_wf s'"
    by (auto simp: catfs_format_at_def Let_def split: if_splits dest!: wf_sync)
qed

lemma wf_fsck_block: "catfs_wf (fst p) \<Longrightarrow> catfs_wf (fst (fsck_block repair seen b p))"
  by (cases p) (auto simp: fsck_block_def Let_def)

lemma wf_fsck_inode: "catfs_wf (fst p) \<Longrightarrow> catfs_wf (fst (fsck_inode repair i p))"
  using wf_upd_cinode [of "fst p" "\<lambda>_. zero_cinode" i] by (cases p) (auto simp: fsck_inode_def upd_cinode_def)

lemma wf_fold: "(\<And>x p. catfs_wf (fst p) \<Longrightarrow> catfs_wf (fst (f x p))) \<Longrightarrow> catfs_wf (fst p) \<Longrightarrow> catfs_wf (fst (fold f xs p))"
  by (induction xs arbitrary: p) auto

lemma wf_fsck_bitmap: "catfs_wf s \<Longrightarrow> catfs_wf (fst (fsck_bitmap repair s))"
  by (auto simp: fsck_bitmap_def Let_def intro!: wf_fold wf_fsck_block)

lemma wf_fsck_body: "fsck_body repair s = (s', p) \<Longrightarrow> catfs_wf s \<Longrightarrow> catfs_wf s'"
proof -
  assume a: "fsck_body repair s = (s', p)" and w: "catfs_wf s"
  define q where "q = fold (fsck_inode repair) [1 ..< CATFS_INODE_MAX] (fsck_bitmap repair s)"
  have "catfs_wf (fst q)" unfolding q_def by (intro wf_fold wf_fsck_inode wf_fsck_bitmap w)
  obtain s2 torn where t: "journal_check_torn (fst q) = (s2, torn)" by fastforce
  have w2: "catfs_wf s2" using wf_check_torn [OF t] \<open>catfs_wf (fst q)\<close> .
  define s3 where "s3 = (if repair \<and> torn > 0
      then fst (journal_flush_header (s2\<lparr>jh := (jh s2)\<lparr>jh_head := jh_committed_seq (jh s2)\<rparr>\<rparr>)) else s2)"
  have w3: "catfs_wf s3" using w2 wf_flush_header [OF prod.collapse [symmetric], of "s2\<lparr>jh := (jh s2)\<lparr>jh_head := jh_committed_seq (jh s2)\<rparr>\<rparr>"]
    by (simp add: s3_def)
  have "s' = s3 \<or> s' = fst (catfs_sync s3)"
    using a t unfolding fsck_body_def q_def [symmetric] Let_def by (cases q) (auto simp: s3_def case_prod_beta split: if_splits)
  then show ?thesis using w3 wf_sync [OF prod.collapse [symmetric] w3] by auto
qed

lemma wf_restore: "catfs_wf saved \<Longrightarrow> catfs_wf s \<Longrightarrow> catfs_wf (restore_catfs saved s)"
  by (simp add: restore_catfs_def catfs_wf_def tables_wf_def)

lemma wf_fsck: "catfs_fsck_at d po repair s = (s', p) \<Longrightarrow> catfs_wf s \<Longrightarrow> catfs_wf s'"
  by (auto simp: catfs_fsck_at_def Let_def split: prod.splits if_splits dest!: wf_mount wf_fsck_body intro: wf_restore)

lemma find_child_less: "find_child s cur nm = Some i \<Longrightarrow> i < CATFS_INODE_MAX"
  using first_idx_Some by (fastforce simp: find_child_def)

lemma lookup_walk_less: "lookup_walk s cur p = Some i \<Longrightarrow> cur < CATFS_INODE_MAX \<Longrightarrow> i < CATFS_INODE_MAX"
proof (induction s cur p rule: lookup_walk.induct)
  case (1 s cur p)
  then show ?case
    by (subst (asm) (3) lookup_walk.simps) (auto simp: Let_def split: if_splits prod.splits option.splits dest: find_child_less)
qed

lemma catfs_lookup_less: "catfs_lookup s path = Some i \<Longrightarrow> i < CATFS_INODE_MAX"
  by (auto simp: catfs_lookup_def CATFS_INODE_MAX_def split: if_splits dest!: lookup_walk_less)

lemma wf_put_inode: "catfs_wf s \<Longrightarrow> inode_wf n \<Longrightarrow> catfs_wf (s\<lparr>cinodes := (cinodes s)[i := n]\<rparr>)"
  using wf_upd_cinode [of s "\<lambda>_. n" i] by (simp add: upd_cinode_def)

lemma wf_create: "catfs_create path ty s = (s', r) \<Longrightarrow> catfs_wf s \<Longrightarrow> catfs_wf s'"
proof -
  assume a: "catfs_create path ty s = (s', r)" and w: "catfs_wf s"
  have t: "catfs_wf (fst (journal_commit (fst (sync_superblock (fst (sync_inode i
      (upd_free_inodes f (t\<lparr>cinodes := (cinodes t)[i := n]\<rparr>))))))))" if "catfs_wf t" "inode_wf n" "i < CATFS_INODE_MAX" for t n i f
    using that wf_put_inode by (intro wf_commit [OF prod.collapse [symmetric]] wf_sync_super [OF prod.collapse [symmetric]]
        wf_sync_inode [OF prod.collapse [symmetric]]) auto
  have j: "catfs_wf (fst (journal_log a b c d s))" for a b c d using wf_journal_log [OF prod.collapse [symmetric] w] .
  have n: "inode_wf (zero_cinode\<lparr>ci_name := strcpy_into (ci_name zero_cinode) base, ci_type := ty, ci_perms := pm, ci_parent := int parent,
      ci_ctime := x, ci_mtime := x, ci_atime := x\<rparr>)" if "parent < CATFS_INODE_MAX" for base pm parent x
    using that by (simp add: inode_wf_def zero_cinode_def CATFS_INODE_MAX_def)
  show ?thesis using a w t j n
    by (auto simp: catfs_create_def Let_def split: if_splits prod.splits option.splits dest!: catfs_lookup_less first_idx_Some first_idx_Some [OF sym])
qed

lemma wf_free_nonzero: "catfs_wf (free_nonzero ps s) = catfs_wf s"
  unfolding free_nonzero_def by (induction ps arbitrary: s) auto

lemma wf_second_level: "catfs_wf s \<Longrightarrow> catfs_wf (free_second_level p s)"
  by (auto simp: free_second_level_def Let_def wf_free_nonzero split: prod.splits option.splits dest!: wf_read)

lemma wf_fold_second: "catfs_wf s \<Longrightarrow> catfs_wf (fold free_second_level ps s)"
  by (induction ps arbitrary: s) (auto simp: wf_second_level)

lemma inode_wf_fields [simp]:
  "inode_wf n \<Longrightarrow> length bl = CATFS_DIRECT_BLOCKS \<Longrightarrow> inode_wf (n\<lparr>ci_blocks := bl\<rparr>)" "inode_wf (n\<lparr>ci_indirect := v\<rparr>) = inode_wf n"
  "inode_wf (n\<lparr>ci_dindirect := v\<rparr>) = inode_wf n" "inode_wf (n\<lparr>ci_size := v\<rparr>) = inode_wf n" "inode_wf (n\<lparr>ci_mtime := v\<rparr>) = inode_wf n"
  "inode_wf (n\<lparr>ci_atime := v\<rparr>) = inode_wf n" "inode_wf (n\<lparr>ci_perms := u\<rparr>) = inode_wf n"
  by (simp_all add: inode_wf_def)

lemma wf_free_all: "catfs_wf s \<Longrightarrow> catfs_wf (free_all_blocks i s)"
proof -
  assume w: "catfs_wf s"
  let ?s1 = "upd_cinode i (\<lambda>n. n\<lparr>ci_blocks := map (\<lambda>_. 0) (ci_blocks n)\<rparr>) (free_nonzero (ci_blocks (cinodes s ! i)) s)"
  have w1: "catfs_wf ?s1" using w by (intro wf_upd_cinode) (auto simp: wf_free_nonzero inode_wf_def)
  define s2 where "s2 = (let ind = ci_indirect (cinodes ?s1 ! i) in if ind = 0 then ?s1
      else (let (t1, r) = dsk_read (block_lba ?s1 ind) ?s1; t2 = (case r of None \<Rightarrow> t1 | Some sec \<Rightarrow> free_nonzero (ptrs_of sec) t1)
            in upd_cinode i (\<lambda>n. n\<lparr>ci_indirect := 0\<rparr>) (bm_free (unat ind) t2)))"
  have w2: "catfs_wf s2" unfolding s2_def using w1
    by (auto simp: Let_def wf_free_nonzero split: prod.splits option.splits dest!: wf_read intro!: wf_upd_cinode)
  have e: "free_all_blocks i s = (let dind = ci_dindirect (cinodes s2 ! i) in if dind = 0 then s2
      else (let (t1, r) = dsk_read (block_lba s2 dind) s2; t2 = (case r of None \<Rightarrow> t1 | Some l1 \<Rightarrow> fold free_second_level (ptrs_of l1) t1)
            in upd_cinode i (\<lambda>n. n\<lparr>ci_dindirect := 0\<rparr>) (bm_free (unat dind) t2)))"
    unfolding free_all_blocks_def s2_def Let_def by (rule refl)
  show ?thesis unfolding e using w2
    by (auto simp: Let_def wf_fold_second split: prod.splits option.splits dest!: wf_read intro!: wf_upd_cinode wf_fold_second)
qed

lemma wf_unlink: "catfs_unlink idx s = (s', r) \<Longrightarrow> catfs_wf s \<Longrightarrow> catfs_wf s'"
proof -
  assume a: "catfs_unlink idx s = (s', r)" and w: "catfs_wf s"
  have t: "catfs_wf (fst (journal_commit (fst (sync_superblock (fst (sync_whole_bitmap (fst (sync_inode i
      (upd_free_inodes f (upd_cinode i (\<lambda>_. zero_cinode) (free_all_blocks i t)))))))))))" if "catfs_wf t" "i < CATFS_INODE_MAX" for t i f
    using that by (intro wf_commit [OF prod.collapse [symmetric]] wf_sync_super [OF prod.collapse [symmetric]]
        wf_sync_bitmap [OF prod.collapse [symmetric]] wf_sync_inode [OF prod.collapse [symmetric]]) (auto intro: wf_upd_cinode wf_free_all)
  have j: "catfs_wf (fst (journal_log a b c d s))" for a b c d using wf_journal_log [OF prod.collapse [symmetric] w] .
  show ?thesis using a w t j by (auto simp: catfs_unlink_def Let_def split: if_splits)
qed

lemma wf_finish: "finish_meta i s = (s', r) \<Longrightarrow> catfs_wf s \<Longrightarrow> i < CATFS_INODE_MAX \<Longrightarrow> catfs_wf s'"
  by (auto simp: finish_meta_def Let_def split: prod.splits if_splits dest!: wf_sync_inode wf_sync_super wf_commit)

lemma wf_rename: "catfs_rename idx np nm s = Some (s', r) \<Longrightarrow> catfs_wf s \<Longrightarrow> catfs_wf s'"
proof -
  assume a: "catfs_rename idx np nm s = Some (s', r)" and w: "catfs_wf s"
  have j: "catfs_wf (fst (journal_log a b c d s))" for a b c d using wf_journal_log [OF prod.collapse [symmetric] w] .
  have u: "catfs_wf (upd_cinode i (\<lambda>n. n\<lparr>ci_parent := np, ci_name := strcpy_into (ci_name n) nm, ci_mtime := x\<rparr>) t)"
    if "catfs_wf t" "0 \<le> np" "np < int CATFS_INODE_MAX" for i x t
    using that by (intro wf_upd_cinode) (auto simp: inode_wf_def CATFS_INODE_MAX_def)
  show ?thesis using a w j
    by (auto simp: catfs_rename_def Let_def split: if_splits option.splits bool.splits dest!: wf_finish intro: u)
qed

lemma wf_chmod: "catfs_chmod idx pm s = (s', r) \<Longrightarrow> catfs_wf s \<Longrightarrow> catfs_wf s'"
proof -
  assume a: "catfs_chmod idx pm s = (s', r)" and w: "catfs_wf s"
  have j: "catfs_wf (fst (journal_log a b c d s))" for a b c d using wf_journal_log [OF prod.collapse [symmetric] w] .
  show ?thesis using a w j by (auto simp: catfs_chmod_def Let_def split: if_splits dest!: wf_finish intro!: wf_upd_cinode)
qed

lemma wf_resolve_direct: "resolve_direct i k c s = (s', r) \<Longrightarrow> catfs_wf s \<Longrightarrow> catfs_wf s'"
  by (auto simp: resolve_direct_def Let_def split: if_splits prod.splits option.splits intro!: wf_upd_cinode) (auto simp: inode_wf_def)

lemma wf_ensure:
  assumes "ensure_field g f i c s = (s', r)" "catfs_wf s" "\<And>v n. inode_wf (f v n) = inode_wf n"
  shows "catfs_wf s'"
  using assms by (auto simp: ensure_field_def Let_def split: if_splits prod.splits option.splits intro!: wf_write_fst wf_upd_cinode)

lemma wf_resolve_ptr: "resolve_ptr pb k c z s = (s', r) \<Longrightarrow> catfs_wf s \<Longrightarrow> k < CATFS_PTRS_PER_BLOCK \<Longrightarrow> catfs_wf s'"
proof -
  assume a: "resolve_ptr pb k c z s = (s', r)" and w: "catfs_wf s" and k: "k < CATFS_PTRS_PER_BLOCK"
  obtain s1 o1 where r: "dsk_read (block_lba s pb) s = (s1, o1)" by fastforce
  note w1 = wf_read [OF r w]
  show ?thesis
  proof (cases "\<exists>sec s2 nb. o1 = Some sec \<and> rd32 sec (4 * k) = 0 \<and> c \<and> bm_alloc s1 = (s2, Some nb)")
    case True
    then obtain sec s2 nb where t: "o1 = Some sec" "rd32 sec (4 * k) = 0" c "bm_alloc s1 = (s2, Some nb)" by auto
    have w2: "catfs_wf s2" using w1 wf_bm_alloc [OF t(4)] by simp
    have "length (splice (4 * k) (le32 (word_of_nat nb)) sec) = 512"
      using w1 t(1) k by (subst length_splice) (auto simp: catfs_layout)
    then have w3: "catfs_wf (fst (dsk_write (block_lba s2 pb) (splice (4 * k) (le32 (word_of_nat nb)) sec) s2))"
      using w2 by (intro wf_write_fst)
    show ?thesis using a r t w3 by (auto simp: resolve_ptr_def Let_def case_prod_beta split: if_splits intro!: wf_write_fst)
  next
    case False
    then show ?thesis using a r w1 by (auto simp: resolve_ptr_def Let_def split: if_splits option.splits prod.splits)
  qed
qed

lemma wf_resolve_block: "resolve_block i b c s = (s', r) \<Longrightarrow> catfs_wf s \<Longrightarrow> catfs_wf s'"
proof -
  assume a: "resolve_block i b c s = (s', r)" and w: "catfs_wf s"
  have i1: "catfs_wf t" if "ensure_indirect i c s = (t, q)" for t q
    using wf_ensure [OF that [unfolded ensure_indirect_def] w] by simp
  have i2: "catfs_wf t" if "ensure_dindirect i c s = (t, q)" for t q
    using wf_ensure [OF that [unfolded ensure_dindirect_def] w] by simp
  have m: "n mod CATFS_PTRS_PER_BLOCK < CATFS_PTRS_PER_BLOCK" for n by (simp add: catfs_layout)
  show ?thesis using a w i1 i2 m
    by (auto simp: resolve_block_def Let_def not_le split: if_splits prod.splits option.splits dest!: wf_resolve_direct dest: wf_resolve_ptr)
qed

lemma wf_read_loop: "read_loop i off len d acc s = (s', bs) \<Longrightarrow> catfs_wf s \<Longrightarrow> catfs_wf s'"
proof (induction i off len d acc s rule: read_loop.induct)
  case (1 i off len d acc s)
  show ?case using "1.prems" "1.IH"
    by (subst (asm) (1) read_loop.simps)
      (fastforce simp: Let_def split: if_splits prod.splits option.splits dest: wf_resolve_block wf_read)
qed

lemma wf_catfs_read: "catfs_read idx off len s = (s', r, bs) \<Longrightarrow> catfs_wf s \<Longrightarrow> catfs_wf s'"
  by (auto simp: catfs_read_def Let_def split: if_splits prod.splits intro!: wf_upd_cinode dest!: wf_read_loop)

lemma wf_write_loop: "write_loop i off buf w s = (s', n) \<Longrightarrow> catfs_wf s \<Longrightarrow> catfs_wf s'"
proof (induction i off buf w s rule: write_loop.induct)
  case (1 i off buf w s)
  let ?b = "file_pos off w div CATFS_BLOCK_SIZE" and ?o = "file_pos off w mod CATFS_BLOCK_SIZE"
  let ?chunk = "min (length buf - w) (CATFS_BLOCK_SIZE - ?o)"
  obtain s1 r1 where r1: "resolve_block i ?b True s = (s1, r1)" by fastforce
  have w1: "catfs_wf s1" using wf_resolve_block [OF r1 "1.prems"(2)] .
  show ?case
  proof (cases "w < length buf \<and> ?b < CATFS_MAX_FILE_BLOCKS \<and> r1 \<noteq> None")
    case True
    then obtain phys where ph: "r1 = Some phys" by auto
    obtain s2 tmp where st: "write_base (?o \<noteq> 0 \<or> length buf - w < CATFS_BLOCK_SIZE) phys s1 = (s2, tmp)" by fastforce
    have w2: "catfs_wf s2" "length tmp = 512"
      using st w1 unfolding write_base_def by (auto simp: Let_def split: if_splits prod.splits option.splits dest!: wf_read)
    have o: "?o < 512" by (simp add: CATFS_BLOCK_SIZE_def)
    have sp: "length (splice ?o (take ?chunk (drop w buf)) tmp) = 512"
      using w2(2) o by (subst length_splice) (auto simp: CATFS_BLOCK_SIZE_def)
    obtain s3 ok where w3: "dsk_write (block_lba s2 phys) (splice ?o (take ?chunk (drop w buf)) tmp) s2 = (s3, ok)" by fastforce
    have wf3: "catfs_wf s3" using wf_write [OF w3 w2(1) sp] .
    have e: "write_loop i off buf w s = (if \<not> ok then (s3, w) else write_loop i off buf (w + ?chunk) s3)"
      using True ph r1 w3 st by (subst write_loop.simps) (simp add: Let_def not_le)
    have "ok \<Longrightarrow> write_loop i off buf (w + ?chunk) s3 = (s', n) \<Longrightarrow> catfs_wf s3 \<Longrightarrow> catfs_wf s'"
      using "1.IH" True ph r1 st w3 by (simp add: not_le)
    then show ?thesis using e "1.prems"(1) wf3 by (auto split: if_splits)
  next
    case False
    then show ?thesis using "1.prems" r1 w1 by (subst (asm) write_loop.simps) (auto simp: Let_def not_le split: if_splits option.splits)
  qed
qed

lemma wf_catfs_write: "catfs_write idx off buf s = (s', r) \<Longrightarrow> catfs_wf s \<Longrightarrow> catfs_wf s'"
proof -
  assume a: "catfs_write idx off buf s = (s', r)" and w: "catfs_wf s"
  have t: "catfs_wf (fst (journal_commit (fst (sync_whole_bitmap (fst (sync_superblock (fst (sync_inode i
      (upd_cinode i (\<lambda>n. n\<lparr>ci_size := f n, ci_mtime := x\<rparr>) (fst (journal_log p q u v t)))))))))))" if "catfs_wf t" "i < CATFS_INODE_MAX"
    for t i f x p q u v
    using that by (intro wf_commit [OF prod.collapse [symmetric]] wf_sync_super [OF prod.collapse [symmetric]]
        wf_sync_bitmap [OF prod.collapse [symmetric]] wf_sync_inode [OF prod.collapse [symmetric]] wf_upd_cinode
        wf_journal_log [OF prod.collapse [symmetric]]) auto
  show ?thesis using a w by (auto simp: catfs_write_def Let_def split: if_splits prod.splits dest!: wf_write_loop intro!: t)
qed

lemma length_ptrs_of [simp]: "length (ptrs_of sec) = CATFS_PTRS_PER_BLOCK"
  by (simp add: ptrs_of_def)

lemma length_enc_ptrs: "length (enc_ptrs ps) = 4 * length ps"
  by (simp add: enc_ptrs_def length_ptrs)

lemma free_ptrs_from_wf: "free_ptrs_from st ps s = (s', qs) \<Longrightarrow> catfs_wf s' = catfs_wf s \<and> length qs = length ps"
  by (auto simp: free_ptrs_from_def wf_free_nonzero)

lemma wf_free_l1: "free_l1_from first i ps s = (s', qs, ok) \<Longrightarrow> catfs_wf s \<Longrightarrow> catfs_wf s' \<and> length qs = length ps"
proof (induction first i ps s arbitrary: s' qs ok rule: free_l1_from.induct)
  case (2 first i p ps s)
  let ?base = "CATFS_DIRECT_BLOCKS + CATFS_PTRS_PER_BLOCK + i * CATFS_PTRS_PER_BLOCK"
  show ?case
  proof (cases "p = 0 \<or> first \<ge> ?base + CATFS_PTRS_PER_BLOCK")
    case True
    then show ?thesis using "2.prems" "2.IH"(1) [OF refl] by (auto simp: Let_def split: prod.splits)
  next
    case False
    obtain s1 r where r: "dsk_read (block_lba s p) s = (s1, r)" by fastforce
    note w1 = wf_read [OF r "2.prems"(2)]
    show ?thesis
    proof (cases r)
      case (Some sec)
      obtain s2 l2 where f: "free_ptrs_from (first - ?base) (ptrs_of sec) s1 = (s2, l2)" by fastforce
      have w2: "catfs_wf s2" "length l2 = CATFS_PTRS_PER_BLOCK" using free_ptrs_from_wf [OF f] w1 by auto
      then have l: "length (enc_ptrs l2) = 512" by (simp add: length_enc_ptrs catfs_layout)
      obtain s3 k where d: "dsk_write (block_lba s2 p) (enc_ptrs l2) s2 = (s3, k)" by fastforce
      have w3: "catfs_wf s3" using wf_write [OF d w2(1) l] .
      show ?thesis
      proof (cases "\<exists>q \<in> set l2. q \<noteq> 0")
        case True
        then show ?thesis using "2.prems" False r Some f w3 d "2.IH"(2) [OF refl False r [symmetric] Some f [symmetric] refl True d [symmetric] refl]
          by (auto simp: Let_def split: if_splits prod.splits)
      next
        case no: False
        then show ?thesis using "2.prems" False r Some f w2(1) "2.IH"(3) [OF refl False r [symmetric] Some f [symmetric] refl no]
          by (auto simp: Let_def split: if_splits prod.splits)
      qed
    qed (use "2.prems" False r w1 in \<open>auto simp: Let_def\<close>)
  qed
qed auto

lemma wf_free_blocks_from: "free_blocks_from i first s = (s', ok) \<Longrightarrow> catfs_wf s \<Longrightarrow> catfs_wf s'"
proof -
  have ind: "catfs_wf t'" if "free_indirect_from i first t = (t', k)" "catfs_wf t" for t t' k
    using that by (auto simp: free_indirect_from_def Let_def length_enc_ptrs CATFS_PTRS_PER_BLOCK_def CATFS_BLOCK_SIZE_def
        split: if_splits prod.splits option.splits dest!: wf_read free_ptrs_from_wf intro!: wf_upd_cinode intro: wf_write)
  have dind: "catfs_wf t'" if "free_dindirect_from i first t = (t', k)" "catfs_wf t" for t t' k
    using that by (auto simp: free_dindirect_from_def Let_def length_enc_ptrs CATFS_PTRS_PER_BLOCK_def CATFS_BLOCK_SIZE_def
        split: if_splits prod.splits option.splits dest!: wf_read wf_free_l1 intro!: wf_upd_cinode intro: wf_write)
  assume a: "free_blocks_from i first s = (s', ok)" and w: "catfs_wf s"
  obtain s1 bl where f: "free_ptrs_from first (ci_blocks (cinodes s ! i)) s = (s1, bl)" by fastforce
  note w1 = free_ptrs_from_wf [OF f]
  have w2: "catfs_wf (upd_cinode i (\<lambda>n. n\<lparr>ci_blocks := bl\<rparr>) s1)"
  proof (cases "i < length (cinodes s1)")
    case True
    have "cinodes (free_nonzero ps t) = cinodes t" for ps t
      unfolding free_nonzero_def by (induction ps arbitrary: t) (auto simp: bm_free_def upd_free_blocks_def bm_clr_def)
    then have "cinodes s1 = cinodes s" using f by (auto simp: free_ptrs_from_def)
    then have "length bl = CATFS_DIRECT_BLOCKS" using w1 w True by (simp add: catfs_wf_def tables_wf_def inode_wf_def)
    then show ?thesis using w w1 by (intro wf_upd_cinode) auto
  qed (use w w1 in \<open>simp add: upd_cinode_def list_update_beyond\<close>)
  show ?thesis using a f ind [OF _ w2] dind by (auto simp: free_blocks_from_def Let_def split: prod.splits if_splits)
qed

lemma wf_truncate: "catfs_truncate idx sz s = (s', r) \<Longrightarrow> catfs_wf s \<Longrightarrow> catfs_wf s'"
proof -
  assume a: "catfs_truncate idx sz s = (s', r)" and w: "catfs_wf s"
  have u: "catfs_wf (upd_cinode i (\<lambda>n. n\<lparr>ci_size := v, ci_mtime := x\<rparr>) t)" if "catfs_wf t" for i v x t
    using that by (intro wf_upd_cinode) auto
  show ?thesis
  proof (cases "\<not> mounted s \<or> idx < 0 \<or> idx \<ge> int CATFS_INODE_MAX \<or> ci_type (cinodes s ! nat idx) = CATFS_TYPE_FREE \<or>
      ci_type (cinodes s ! nat idx) = CATFS_TYPE_DIR")
    case False
    then have i: "nat idx < CATFS_INODE_MAX" by (auto simp: CATFS_INODE_MAX_def)
    obtain s1 ok1 where j: "journal_log CATFS_J_WRITE_META (word_of_nat (nat idx)) (ci_size (cinodes s ! nat idx)) sz s = (s1, ok1)" by fastforce
    obtain s2 ok2 where f: "(if sz < ci_size (cinodes s1 ! nat idx)
        then free_blocks_from (nat idx) (unat (sz + word_of_nat (CATFS_BLOCK_SIZE - 1)) div CATFS_BLOCK_SIZE) s1 else (s1, True)) = (s2, ok2)"
      by fastforce
    have w12: "catfs_wf s1" "catfs_wf s2" using wf_journal_log [OF j w] f wf_free_blocks_from by (auto split: if_splits)
    show ?thesis using a False j f w12 i u [OF w12(2)]
      by (auto simp: catfs_truncate_def Let_def split: if_splits prod.splits dest!: wf_sync_inode wf_sync_super wf_sync_bitmap wf_commit)
  qed (use a w in \<open>auto simp: catfs_truncate_def Let_def split: if_splits\<close>)
qed

subsection \<open>Histories of operations\<close>

inductive catfs_step :: "catfs \<Rightarrow> catfs \<Rightarrow> bool" where
  do_format: "catfs_format_at d po lbl s = (s', ok) \<Longrightarrow> catfs_step s s'"
| do_mount: "catfs_mount_at d po s = (s', ok) \<Longrightarrow> catfs_step s s'"
| do_sync: "catfs_sync s = (s', ok) \<Longrightarrow> catfs_step s s'"
| do_fsck: "catfs_fsck_at d po repair s = (s', p) \<Longrightarrow> catfs_step s s'"
| do_create: "catfs_create path ty s = (s', r) \<Longrightarrow> catfs_step s s'"
| do_unlink: "catfs_unlink idx s = (s', q) \<Longrightarrow> catfs_step s s'"
| do_rename: "catfs_rename idx np nm s = Some (s', q) \<Longrightarrow> catfs_step s s'"
| do_chmod: "catfs_chmod idx pm s = (s', q) \<Longrightarrow> catfs_step s s'"
| do_read: "catfs_read idx off len s = (s', q, bs) \<Longrightarrow> catfs_step s s'"
| do_write: "catfs_write idx off buf s = (s', q) \<Longrightarrow> catfs_step s s'"
| do_truncate: "catfs_truncate idx sz s = (s', q) \<Longrightarrow> catfs_step s s'"

text \<open>The state at boot: zeroed memory, any disk contents.\<close>
definition catfs_boot :: "(int \<Rightarrow> u32 \<Rightarrow> u8 list) \<Rightarrow> bool list \<Rightarrow> (nat \<Rightarrow> bool) \<Rightarrow> catfs" where
  "catfs_boot secs drv io = \<lparr>disk_drive = 0, partition_offset = 0, sb = zero_super, jh = zero_jhdr,
     cinodes = replicate CATFS_INODE_MAX zero_cinode, bitmap = replicate (CATFS_BLOCKS_MAX div 8) 0, mounted = False, next_seq = 0,
     sectors = secs, drives = drv, io_ok = io, ios = 0, kalloc_ok = True, cticks = 0, cfault = False\<rparr>"

lemma catfs_boot_wf: "\<forall>d l. length (secs d l) = SECTOR_SIZE \<Longrightarrow> catfs_wf (catfs_boot secs drv io)"
  by (simp add: catfs_boot_def catfs_wf_def tables_wf_def super_wf_def jhdr_wf_def zero_super_def zero_jhdr_def)

lemma catfs_step_wf: "catfs_step s s' \<Longrightarrow> catfs_wf s \<Longrightarrow> catfs_wf s'"
  by (induction rule: catfs_step.induct)
    (blast dest: wf_format wf_mount wf_sync wf_fsck wf_create wf_unlink wf_rename wf_chmod wf_catfs_read wf_catfs_write wf_truncate)+



theorem catfs_sync_mount_witness:
  "\<exists>r'. catfs_mount_at 0 0 (catfs_boot (sectors (fst (catfs_sync (catfs_boot (\<lambda>_ _. zero_sector) [True, False, False, False] (\<lambda>_. True)
     \<lparr>mounted := True, sb := fresh_super ''koala''\<rparr>)))) [True, False, False, False] (\<lambda>_. True)) = (r', True) \<and> mounted r'"
proof -
  let ?s = "catfs_boot (\<lambda>_ _. zero_sector) [True, False, False, False] (\<lambda>_. True) \<lparr>mounted := True, sb := fresh_super ''koala''\<rparr>"
  have b: "catfs_wf (catfs_boot (\<lambda>_ _. zero_sector) [True, False, False, False] (\<lambda>_. True))"
    by (rule catfs_boot_wf) (simp add: SECTOR_SIZE_def)
  have w: "catfs_wf ?s" using b by (simp add: catfs_wf_def tables_wf_def super_wf_def fresh_super_def zero_super_def)
  have g: "io_good ?s" by (simp add: io_good_def drive_present_def catfs_boot_def DISK_MAX_DRIVES_def)
  have l: "std_layout (sb ?s)" by (simp add: std_layout_def fresh_super_def)
  let ?r = "catfs_boot (sectors (fst (catfs_sync ?s))) [True, False, False, False] (\<lambda>_. True)"
  have r: "drives ?r = drives ?s" "\<forall>k. io_ok ?r k" "length (cinodes ?r) = CATFS_INODE_MAX" "length (bitmap ?r) = CATFS_BLOCKS_MAX div 8"
    "sectors ?r = sectors (fst (catfs_sync ?s))" "disk_drive ?s = 0" "partition_offset ?s = 0" by (simp_all add: catfs_boot_def)
  show ?thesis using catfs_sync_mount [OF w _ g l prod.collapse [symmetric] r(5,1-4)] r(6,7) by auto
qed

subsection \<open>The bitmap\<close>

lemma bm_test_bit: "bm_test s b \<longleftrightarrow> bit (bitmap s ! (b div 8)) (b mod 8)"
  by (simp add: bm_test_def and_one_eq bit_iff_odd_drop_bit mod_2_eq_odd)

lemma bm_test_upd:
  assumes "length (bitmap s) = CATFS_BLOCKS_MAX div 8" "b < CATFS_BLOCKS_MAX" "c < CATFS_BLOCKS_MAX"
  shows "bm_test (bm_set b s) c \<longleftrightarrow> c = b \<or> bm_test s c" "bm_test (bm_clr b s) c \<longleftrightarrow> c \<noteq> b \<and> bm_test s c"
proof -
  have l: "b div 8 < length (bitmap s)" using assms(1,2) by (simp add: CATFS_BLOCKS_MAX_def)
  have e: "c = b \<longleftrightarrow> c div 8 = b div 8 \<and> c mod 8 = b mod 8" by (metis div_mult_mod_eq)
  have m: "c mod 8 < 8" by simp
  show "bm_test (bm_set b s) c \<longleftrightarrow> c = b \<or> bm_test s c" "bm_test (bm_clr b s) c \<longleftrightarrow> c \<noteq> b \<and> bm_test s c"
    unfolding bm_test_bit e using l m by (auto simp: bm_set_def bm_clr_def nth_list_update bit_simps)
qed

end
