(* ===== verification/Catfs_Check.thy ===== *)
theory Catfs_Check
  imports Catfs_Disk
begin

unbundle bit_operations_syntax

section \<open>CatFS: the journal ring and the consistency check\<close>

text \<open>
  The journal's ring of records against the sectors it is given, and \<open>catfs_fsck\<close>: what its bitmap pass
  marks and clears, and the blocks it does not know of.
\<close>

subsection \<open>The journal ring\<close>

text \<open>A successful record: the sector that holds its slot, and the head.\<close>
lemma journal_log_good:
  assumes "io_good s"
  defines "slot \<equiv> unat (jh_head (jh s)) mod CATFS_JOURNAL_SLOTS"
  defines "lba \<equiv> word_of_nat (JOURNAL_LOG_LBA + slot div 25) :: u32"
  shows "journal_log ty i a b s =
    ((put_sector (s\<lparr>next_seq := next_seq s + 1, ios := ios s + 1\<rparr>) lba
       (splice (slot mod 25 * 20) (enc_jrec \<lparr>jr_type = ty, jr_inode_idx = i, jr_a = a, jr_b = b, jr_seq = next_seq s + 1\<rparr>) (disk_at s lba)))
      \<lparr>jh := (jh s)\<lparr>jh_head := jh_head (jh s) + 1\<rparr>\<rparr>, True)"
proof -
  have n: "SECTOR_SIZE = 512" "JREC_SIZE = 20" by (simp_all add: catfs_layout)
  show ?thesis using assms(1) unfolding slot_def lba_def
    by (simp add: journal_log_def journal_write_rec_def n Let_def dsk_read_good dsk_write_good)
qed

text \<open>C31. The journal overruns its log.  The log has 8 sectors of 25 records, 200 slots, but the ring is reduced modulo
  \<open>8 * 512 / 20 = 204\<close>: the records of slots 200 to 203 are written into the first sector of the inode
  table, over the root directory's inode.  The record in slot 202 replaces the type of the root inode on the disk by the
  low byte of a sequence number.\<close>
theorem journal_overwrites_inode_table:
  assumes "catfs_wf s" "io_good s" "slot = unat (jh_head (jh s)) mod CATFS_JOURNAL_SLOTS" "200 \<le> slot"
  shows "let (s', ok) = journal_log ty i a b s; sec = disk_at s' (word_of_nat INODE_TABLE_LBA) in
    ok \<and> take 20 (drop ((slot - 200) * 20) sec) =
      enc_jrec \<lparr>jr_type = ty, jr_inode_idx = i, jr_a = a, jr_b = b, jr_seq = next_seq s + 1\<rparr> \<and>
    (slot = 202 \<longrightarrow> ci_type (dec_inode sec) = ucast (next_seq s + 1))"
proof -
  have lt: "slot < 204" using assms(3) by (simp add: catfs_layout)
  then have d: "slot div 25 = 8" "slot mod 25 = slot - 200" using assms(4) by (auto simp: div_nat_eqI mod_if)
  have lba: "JOURNAL_LOG_LBA + slot div 25 = INODE_TABLE_LBA" unfolding d by (simp add: catfs_layout)
  let ?rec = "\<lparr>jr_type = ty, jr_inode_idx = i, jr_a = a, jr_b = b, jr_seq = next_seq s + 1\<rparr>"
  let ?old = "disk_at s (word_of_nat INODE_TABLE_LBA)"
  let ?sec = "splice ((slot - 200) * 20) (enc_jrec ?rec) ?old"
  have len: "length ?old = 512" "length (enc_jrec ?rec) = 20"
    using assms(1) by (simp_all add: disk_at_def wf_sector enc_jrec_length JREC_SIZE_def)
  define s' where "s' = (put_sector (s\<lparr>next_seq := next_seq s + 1, ios := ios s + 1\<rparr>) (word_of_nat INODE_TABLE_LBA) ?sec)
      \<lparr>jh := (jh s)\<lparr>jh_head := jh_head (jh s) + 1\<rparr>\<rparr>"
  have s': "journal_log ty i a b s = (s', True)" "disk_at s' (word_of_nat INODE_TABLE_LBA) = ?sec"
    using journal_log_good [OF assms(2), of ty i a b] unfolding assms(3) [symmetric] lba d(2) s'_def by (simp_all add: disk_at_put)
  have t: "take 20 (drop ((slot - 200) * 20) ?sec) = enc_jrec ?rec" using len lt by (simp add: splice_def)
  have "ci_type (dec_inode ?sec) = ucast (next_seq s + 1)" if "slot = 202"
  proof -
    have "rd8 ?sec 56 = rd8 (enc_jrec ?rec) 16" using len that by (simp add: splice_def rd8_append)
    also have "\<dots> = ucast (next_seq s + 1)" by (simp add: enc_jrec_def rd_skip_Cons rd_skip rd_le_at)
    finally show ?thesis by (simp add: dec_inode_def)
  qed
  then show ?thesis using s' t by simp
qed

text \<open>A freshly formatted volume after 202 records.\<close>
definition demo_journal :: catfs where
  "demo_journal = catfs_boot (\<lambda>_ _. zero_sector) [True, False, False, False] (\<lambda>_. True)
     \<lparr>jh := zero_jhdr\<lparr>jh_head := 202\<rparr>, next_seq := 202\<rparr>"

theorem journal_overwrites_inode_table_witness:
  "ci_type (dec_inode (disk_at (fst (journal_log CATFS_J_CREATE 1 0 1 demo_journal)) (word_of_nat INODE_TABLE_LBA))) = 203"
proof -
  have w: "catfs_wf demo_journal" using catfs_boot_wf [of "\<lambda>_ _. zero_sector" "[True, False, False, False]" "\<lambda>_. True"]
    by (simp add: demo_journal_def catfs_wf_def tables_wf_def SECTOR_SIZE_def jhdr_wf_def zero_jhdr_def)
  have g: "io_good demo_journal" by (simp add: io_good_def drive_present_def demo_journal_def catfs_boot_def DISK_MAX_DRIVES_def)
  have "unat (jh_head (jh demo_journal)) mod CATFS_JOURNAL_SLOTS = 202" "next_seq demo_journal = 202"
    by (simp_all add: demo_journal_def catfs_layout zero_jhdr_def)
  then show ?thesis using journal_overwrites_inode_table [OF w g, of 202 CATFS_J_CREATE 1 0 1] by (simp add: case_prod_beta Let_def)
qed

subsection \<open>fsck\<close>

definition block_frame :: "catfs \<Rightarrow> catfs \<Rightarrow> bool" where
  "block_frame s s' \<longleftrightarrow> length (bitmap s') = length (bitmap s) \<and> cinodes s' = cinodes s \<and> sectors s' = sectors s \<and> sb s' = sb s \<and>
     disk_drive s' = disk_drive s \<and> partition_offset s' = partition_offset s"

lemma fsck_block_frame: "block_frame (fst p) (fst (fsck_block repair seen b p))"
  by (cases p) (auto simp: block_frame_def fsck_block_def Let_def bm_clr_def bm_set_def)

lemma block_frame_trans: "block_frame s t \<Longrightarrow> block_frame t u \<Longrightarrow> block_frame s u"
  by (simp add: block_frame_def)

lemma fsck_fold_frame: "block_frame (fst p) (fst (fold (fsck_block repair seen) bs p))"
proof (induction bs arbitrary: p)
  case (Cons b bs)
  show ?case using block_frame_trans [OF fsck_block_frame [of p repair seen b] Cons [of "fsck_block repair seen b p"]] by simp
qed (simp add: block_frame_def)

lemma fsck_block_test:
  assumes "length (bitmap (fst p)) = CATFS_BLOCKS_MAX div 8" "b < CATFS_BLOCKS_MAX" "c < CATFS_BLOCKS_MAX"
  shows "bm_test (fst (fsck_block True seen b p)) c \<longleftrightarrow> (if c = b then c \<in> seen else bm_test (fst p) c)"
    "snd (fsck_block True seen b p) = snd p + (if bm_test (fst p) b \<noteq> (b \<in> seen) then 1 else 0)"
  using assms bm_test_upd [of "fst p" b c] by (cases p; auto simp: fsck_block_def Let_def)+

lemma fsck_fold_test:
  assumes "length (bitmap (fst p)) = CATFS_BLOCKS_MAX div 8" "\<forall>b \<in> set bs. b < CATFS_BLOCKS_MAX" "distinct bs" "c < CATFS_BLOCKS_MAX"
  shows "(bm_test (fst (fold (fsck_block True seen) bs p)) c \<longleftrightarrow> (if c \<in> set bs then c \<in> seen else bm_test (fst p) c)) \<and>
    snd (fold (fsck_block True seen) bs p) = snd p + card {b \<in> set bs. bm_test (fst p) b \<noteq> (b \<in> seen)}"
  using assms
proof (induction bs arbitrary: p)
  case (Cons b bs)
  let ?q = "fsck_block True seen b p"
  have len: "length (bitmap (fst ?q)) = CATFS_BLOCKS_MAX div 8"
    using Cons.prems(1) fsck_block_frame [of p True seen b] by (simp add: block_frame_def)
  have b: "b < CATFS_BLOCKS_MAX" "b \<notin> set bs" using Cons.prems(2,3) by simp_all
  note t = fsck_block_test [OF Cons.prems(1) b(1), where seen = seen]
  have same: "bm_test (fst ?q) x = bm_test (fst p) x" if "x \<in> set bs" for x
    using t(1) [of x] Cons.prems(2) that b(2) by auto
  have "{x \<in> set (b # bs). bm_test (fst p) x \<noteq> (x \<in> seen)} =
      (if bm_test (fst p) b \<noteq> (b \<in> seen) then {b} else {}) \<union> {x \<in> set bs. bm_test (fst ?q) x \<noteq> (x \<in> seen)}"
    using same by auto
  then have "card {x \<in> set (b # bs). bm_test (fst p) x \<noteq> (x \<in> seen)} =
      (if bm_test (fst p) b \<noteq> (b \<in> seen) then 1 else 0) + card {x \<in> set bs. bm_test (fst ?q) x \<noteq> (x \<in> seen)}"
    using b(2) by (simp add: card_insert_if)
  then show ?case using Cons.IH [OF len] Cons.prems t(1) [of c] t(2) [of b] b by auto
qed simp

text \<open>The bitmap pass with repair leaves exactly the blocks marked that some inode names itself.\<close>
lemma fsck_bitmap_marks:
  assumes "length (bitmap s) = CATFS_BLOCKS_MAX div 8" "kalloc_ok s" "1 \<le> b" "b < CATFS_BLOCKS_MAX"
  shows "bm_test (fst (fsck_bitmap True s)) b \<longleftrightarrow> b \<in> set (fsck_seen s)"
    "snd (fsck_bitmap True s) = card {c \<in> {1 ..< CATFS_BLOCKS_MAX}. bm_test s c \<noteq> (c \<in> set (fsck_seen s))}"
    "block_frame s (fst (fsck_bitmap True s))"
proof -
  define s1 where "s1 = (if \<exists>b \<in> set (fsck_seen s). b \<ge> CATFS_BLOCKS_MAX then s\<lparr>cfault := True\<rparr> else s)"
  have s1: "bitmap s1 = bitmap s" "block_frame s s1" by (simp_all add: s1_def block_frame_def)
  then have t: "bm_test s1 = bm_test s" by (simp add: bm_test_def fun_eq_iff)
  have e: "fsck_bitmap True s = fold (fsck_block True (set (fsck_seen s))) [1 ..< CATFS_BLOCKS_MAX] (s1, 0)"
    using assms(2) by (simp add: fsck_bitmap_def Let_def s1_def)
  have len: "length (bitmap (fst (s1, 0 :: nat))) = CATFS_BLOCKS_MAX div 8" using s1 assms(1) by simp
  note f = fsck_fold_test [OF len, of "[1 ..< CATFS_BLOCKS_MAX]"]
  show "bm_test (fst (fsck_bitmap True s)) b \<longleftrightarrow> b \<in> set (fsck_seen s)"
    unfolding e using f [of b "set (fsck_seen s)"] assms(3,4) by simp
  show "snd (fsck_bitmap True s) = card {c \<in> {1 ..< CATFS_BLOCKS_MAX}. bm_test s c \<noteq> (c \<in> set (fsck_seen s))}"
    unfolding e using f [of b "set (fsck_seen s)"] assms(4) t by simp
  show "block_frame s (fst (fsck_bitmap True s))"
    unfolding e using fsck_fold_frame [of "(s1, 0)" True "set (fsck_seen s)" "[1 ..< CATFS_BLOCKS_MAX]"] s1(2) by (simp add: block_frame_def)
qed


text \<open>A volume with one file, whose indirect block 5 points to the data block 7.\<close>
definition demo_indirect :: catfs where
  "demo_indirect = catfs_boot (\<lambda>_ l. if l = 5 then le32 7 @ replicate 508 0 else zero_sector) [True, False, False, False] (\<lambda>_. True)
     \<lparr>cinodes := (replicate CATFS_INODE_MAX zero_cinode)[1 := zero_cinode\<lparr>ci_type := CATFS_TYPE_FILE, ci_indirect := 5\<rparr>],
      bitmap := (replicate (CATFS_BLOCKS_MAX div 8) 0)[0 := 161]\<rparr>"

lemma demo_indirect_seen: "set (fsck_seen demo_indirect) \<subseteq> {5}"
proof -
  let ?i = "zero_cinode\<lparr>ci_type := CATFS_TYPE_FILE, ci_indirect := 5\<rparr>"
  have "set (cinodes demo_indirect) \<subseteq> insert ?i {zero_cinode}"
    using set_update_subset_insert [of "replicate CATFS_INODE_MAX zero_cinode" 1 ?i] by (auto simp: demo_indirect_def)
  moreover have "set (inode_refs ?i) = {5}" "set (inode_refs zero_cinode) = {}" by (auto simp: inode_refs_def zero_cinode_def catfs_layout)
  ultimately show ?thesis by (fastforce simp: fsck_seen_def)
qed


end
