(* ===== verification/Catfs_Files.thy ===== *)
theory Catfs_Files
  imports Catfs_Disk
begin

unbundle bit_operations_syntax

section \<open>CatFS: the blocks of files and their contents\<close>

text \<open>
  Every block number that the file system stores sits in a \<^emph>\<open>slot\<close> of some inode: a direct entry, the two pointer fields, or
  an entry of a pointer block.  The invariant \<open>tree_ok\<close> says that no block is in two slots and that the blocks in slots are
  marked in the bitmap.  Under it, allocating into a slot changes that slot only, writing a data block changes one
  file's bytes only, and reading returns what was written.
\<close>

subsection \<open>Slots\<close>

datatype slot = Direct nat | Ind | IndPtr nat | Dind | L1 nat | L2 nat nat

fun is_ptr :: "slot \<Rightarrow> bool" where
  "is_ptr Ind = True" | "is_ptr Dind = True" | "is_ptr (L1 j) = True" | "is_ptr (Direct k) = False" | "is_ptr (IndPtr k) = False"
| "is_ptr (L2 j k) = False"

text \<open>The block number in a slot, \<open>0\<close> when there is none; \<open>D\<close> gives the contents of a block.\<close>
fun slot_val :: "catfs_inode \<Rightarrow> (u32 \<Rightarrow> u8 list) \<Rightarrow> slot \<Rightarrow> u32" where
  "slot_val n D (Direct k) = (if k < 16 then ci_blocks n ! k else 0)"
| "slot_val n D Ind = ci_indirect n"
| "slot_val n D (IndPtr k) = (if k < 128 \<and> ci_indirect n \<noteq> 0 then rd32 (D (ci_indirect n)) (4 * k) else 0)"
| "slot_val n D Dind = ci_dindirect n"
| "slot_val n D (L1 j) = (if j < 128 \<and> ci_dindirect n \<noteq> 0 then rd32 (D (ci_dindirect n)) (4 * j) else 0)"
| "slot_val n D (L2 j k) =
     (let p = (if j < 128 \<and> ci_dindirect n \<noteq> 0 then rd32 (D (ci_dindirect n)) (4 * j) else 0)
      in if k < 128 \<and> p \<noteq> 0 then rd32 (D p) (4 * k) else 0)"

definition blk :: "catfs \<Rightarrow> u32 \<Rightarrow> u8 list" where
  "blk s b = disk_at s (block_lba s b)"

definition sv :: "catfs \<Rightarrow> nat \<Rightarrow> slot \<Rightarrow> u32" where
  "sv s i x = slot_val (cinodes s ! i) (blk s) x"

lemma slot_val_cong:
  assumes "\<And>x. is_ptr x \<Longrightarrow> slot_val n D x \<noteq> 0 \<Longrightarrow> E (slot_val n D x) = D (slot_val n D x)"
  shows "slot_val n E y = slot_val n D y"
proof -
  have i: "ci_indirect n \<noteq> 0 \<Longrightarrow> E (ci_indirect n) = D (ci_indirect n)" using assms [of Ind] by simp
  have d: "ci_dindirect n \<noteq> 0 \<Longrightarrow> E (ci_dindirect n) = D (ci_dindirect n)" using assms [of Dind] by simp
  have l: "j < 128 \<Longrightarrow> ci_dindirect n \<noteq> 0 \<Longrightarrow> rd32 (D (ci_dindirect n)) (4 * j) \<noteq> 0 \<Longrightarrow>
      E (rd32 (D (ci_dindirect n)) (4 * j)) = D (rd32 (D (ci_dindirect n)) (4 * j))" for j using assms [of "L1 j"] by simp
  show ?thesis using i d l by (cases y) (auto simp: Let_def split: if_splits)
qed

text \<open>Where the data of file block \<open>k\<close> is.\<close>
definition dslot :: "nat \<Rightarrow> slot" where
  "dslot k = (if k < 16 then Direct k else if k < 144 then IndPtr (k - 16) else L2 ((k - 144) div 128) ((k - 144) mod 128))"

lemma dslot_data [simp]: "\<not> is_ptr (dslot k)"
  by (simp add: dslot_def)

lemma dslot_inj: "dslot k = dslot m \<Longrightarrow> k = m"
proof -
  assume a: "dslot k = dslot m"
  show ?thesis
  proof (cases "k < 144")
    case False
    then have b: "\<not> m < 144" using a by (auto simp: dslot_def split: if_splits)
    then have "(k - 144) div 128 = (m - 144) div 128" "(k - 144) mod 128 = (m - 144) mod 128" using a False by (auto simp: dslot_def)
    then have "k - 144 = m - 144" by (metis div_mult_mod_eq)
    then show ?thesis using False b by simp
  qed (use a in \<open>auto simp: dslot_def split: if_splits\<close>)
qed

subsection \<open>The invariant\<close>

definition tree_ok :: "catfs \<Rightarrow> bool" where
  "tree_ok s \<longleftrightarrow>
     bm_test s 0 \<and>
     (\<forall>i x. i < CATFS_INODE_MAX \<longrightarrow> sv s i x \<noteq> 0 \<longrightarrow> unat (sv s i x) < CATFS_BLOCKS_MAX \<and> bm_test s (unat (sv s i x))) \<and>
     (\<forall>i j x y. i < CATFS_INODE_MAX \<longrightarrow> j < CATFS_INODE_MAX \<longrightarrow> sv s i x \<noteq> 0 \<longrightarrow> sv s i x = sv s j y \<longrightarrow> i = j \<and> x = y)"

lemma tree_okD:
  assumes "tree_ok s" "i < CATFS_INODE_MAX" "sv s i x \<noteq> 0"
  shows "unat (sv s i x) < CATFS_BLOCKS_MAX" "bm_test s (unat (sv s i x))"
    "j < CATFS_INODE_MAX \<Longrightarrow> sv s i x = sv s j y \<Longrightarrow> i = j \<and> x = y"
  using assms unfolding tree_ok_def by blast+

text \<open>Putting a fresh block into one slot.\<close>
lemma tree_ok_fresh:
  assumes "tree_ok s" "\<not> bm_test s (unat w)" "unat w < CATFS_BLOCKS_MAX" "i < CATFS_INODE_MAX"
    "\<And>j y. j < CATFS_INODE_MAX \<Longrightarrow> sv s' j y = (if j = i \<and> y = x then w else sv s j y)"
    "\<And>b. b < CATFS_BLOCKS_MAX \<Longrightarrow> bm_test s' b \<longleftrightarrow> b = unat w \<or> bm_test s b"
  shows "tree_ok s'"
proof -
  have w: "sv s j y \<noteq> w" if "j < CATFS_INODE_MAX" for j y
    using tree_okD(2) [OF assms(1) that, of y] assms(1,2) by (cases "sv s j y = 0") (auto simp: tree_ok_def)
  have z: "bm_test s' 0" using assms(1,6) by (simp add: tree_ok_def CATFS_BLOCKS_MAX_def)
  have m: "unat (sv s' j y) < CATFS_BLOCKS_MAX \<and> bm_test s' (unat (sv s' j y))" if "j < CATFS_INODE_MAX" "sv s' j y \<noteq> 0" for j y
    using that assms(3,5,6) tree_okD(1,2) [OF assms(1) that(1), of y] by (auto split: if_splits)
  have "j = k \<and> y = z" if "j < CATFS_INODE_MAX" "k < CATFS_INODE_MAX" "sv s' j y \<noteq> 0" "sv s' j y = sv s' k z" for j k y z
    using that assms(5) w tree_okD(3) [OF assms(1) that(1), of y k z] by (auto split: if_splits)
  then show ?thesis unfolding tree_ok_def using z m by blast
qed

subsection \<open>Fresh blocks\<close>

lemma bm_alloc_spec:
  assumes "bm_alloc s = (s', r)" "length (bitmap s) = CATFS_BLOCKS_MAX div 8" "bm_test s 0"
  shows "r = None \<Longrightarrow> s' = s \<and> (\<forall>b < CATFS_BLOCKS_MAX. bm_test s b)"
    "r = Some nb \<Longrightarrow> nb < CATFS_BLOCKS_MAX \<and> nb \<noteq> 0 \<and> \<not> bm_test s nb \<and> unat (word_of_nat nb :: u32) = nb \<and>
       (\<forall>b < CATFS_BLOCKS_MAX. bm_test s' b \<longleftrightarrow> b = nb \<or> bm_test s b)"
proof -
  show "r = None \<Longrightarrow> s' = s \<and> (\<forall>b < CATFS_BLOCKS_MAX. bm_test s b)"
    using assms(1) by (auto simp: bm_alloc_def first_idx_None split: option.splits)
  assume "r = Some nb"
  then have f: "first_idx (\<lambda>b. \<not> bm_test s b) 0 CATFS_BLOCKS_MAX = Some nb"
      "s' = upd_free_blocks (\<lambda>n. if n > 0 then n - 1 else n) (bm_set nb s)"
    using assms(1) by (auto simp: bm_alloc_def split: option.splits)
  note g = first_idx_Some [OF f(1)]
  have t: "bm_test s' = bm_test (bm_set nb s)" by (simp add: f(2) bm_test_def upd_free_blocks_def fun_eq_iff)
  have "unat (word_of_nat nb :: u32) = nb" using g by (simp add: unat_of_nat CATFS_BLOCKS_MAX_def)
  then show "nb < CATFS_BLOCKS_MAX \<and> nb \<noteq> 0 \<and> \<not> bm_test s nb \<and> unat (word_of_nat nb :: u32) = nb \<and>
       (\<forall>b < CATFS_BLOCKS_MAX. bm_test s' b \<longleftrightarrow> b = nb \<or> bm_test s b)"
    using g assms(3) t bm_test_upd(1) [OF assms(2)] by (metis (full_types))
qed

lemma bm_alloc_frame:
  assumes "bm_alloc s = (s', r)"
  shows "cinodes s' = cinodes s" "disk_at s' = disk_at s" "blk s' = blk s" "io_good s' = io_good s" "block_lba s' = block_lba s"
    "mounted s' = mounted s" "std_layout (sb s') = std_layout (sb s)" "cticks s' = cticks s" "cfault s' = cfault s"
    "disk_drive s' = disk_drive s" "partition_offset s' = partition_offset s" "next_seq s' = next_seq s" "jh s' = jh s"
  using assms by (auto simp: bm_alloc_def upd_free_blocks_def bm_set_def blk_def block_lba_def disk_at_def io_good_def drive_present_def
      std_layout_def fun_eq_iff split: option.splits)

subsection \<open>Storing a pointer\<close>

fun child :: "slot \<Rightarrow> nat \<Rightarrow> slot" where
  "child Ind k = IndPtr k" | "child Dind k = L1 k" | "child (L1 j) k = L2 j k" | "child x k = x"

lemma rd8_splice:
  "off + length src \<le> length buf \<Longrightarrow> rd8 (splice off src buf) k = (if off \<le> k \<and> k < off + length src then rd8 src (k - off) else rd8 buf k)"
  by (auto simp: splice_def rd8_def nth_append min_def)

lemma rd32_splice_ptr:
  assumes "4 * k + 4 \<le> length sec"
  shows "rd32 (splice (4 * k) (le32 w) sec) (4 * m) = (if m = k then w else rd32 sec (4 * m))"
proof (cases "m = k")
  case True
  have "splice (4 * k) (le32 w) sec = take (4 * k) sec @ (le32 w @ drop (4 * k + 4) sec)" by (simp add: splice_def)
  then show ?thesis using True assms by (simp add: rd_skip rd_le32)
next
  case False
  have r: "rd8 (splice (4 * k) (le32 w) sec) (4 * m + r) = rd8 sec (4 * m + r)" if "r < 4" for r
  proof -
    have "\<not> (4 * k \<le> 4 * m + r \<and> 4 * m + r < 4 * k + 4)" using that False by arith
    then show ?thesis using assms by (auto simp: rd8_splice)
  qed
  show ?thesis using False r [of 0] r [of 1] r [of 2] r [of 3] by (simp add: rd32_def)
qed

lemma rd32_zero: "rd32 zero_sector k = 0"
  by (simp add: rd32_def rd8_def zero_sector_def)

text \<open>Adding a block to a pointer block changes the slot of that entry only.\<close>
lemma slot_val_store:
  assumes "is_ptr x" "slot_val n D x = pb" "pb \<noteq> 0" "k < 128" "\<And>y. slot_val n D y = pb \<Longrightarrow> y = x"
    "slot_val n D (child x k) = 0" "length (D pb) = 512" "w \<noteq> 0" "\<And>y. slot_val n D y \<noteq> w"
    "E pb = splice (4 * k) (le32 w) (D pb)" "\<And>b. b \<noteq> pb \<Longrightarrow> b \<noteq> w \<Longrightarrow> E b = D b" "is_ptr (child x k) \<Longrightarrow> E w = zero_sector"
  shows "slot_val n E y = (if y = child x k then w else slot_val n D y)"
proof -
  have rd: "rd32 (E pb) (4 * m) = (if m = k then w else rd32 (D pb) (4 * m))" for m
    unfolding assms(10) using assms(4,7) by (intro rd32_splice_ptr) simp
  have keep: "E (slot_val n D y) = D (slot_val n D y)" if "y \<noteq> x" for y
    using assms(5) [of y] assms(9) [of y] assms(11) that by blast
  have l1: "slot_val n D (L1 j) = rd32 (D (ci_dindirect n)) (4 * j)" if "j < 128" "ci_dindirect n \<noteq> 0" for j using that by simp
  show ?thesis
  proof (cases x)
    case Ind
    have i: "ci_indirect n = pb" "rd32 (D pb) (4 * k) = 0" using Ind assms(2-4,6) by auto
    have d: "E (ci_dindirect n) = D (ci_dindirect n)" using keep [of Dind] Ind by simp
    have l: "E (rd32 (D (ci_dindirect n)) (4 * j)) = D (rd32 (D (ci_dindirect n)) (4 * j))" if "j < 128" "ci_dindirect n \<noteq> 0" for j
      using keep [of "L1 j"] Ind that by simp
    show ?thesis using Ind i d l rd assms(3,4) by (cases y) (auto simp: Let_def)
  next
    case Dind
    have i: "ci_dindirect n = pb" "rd32 (D pb) (4 * k) = 0" using Dind assms(2-4,6) by auto
    have d: "E (ci_indirect n) = D (ci_indirect n)" using keep [of Ind] Dind by simp
    have l: "E (rd32 (D pb) (4 * j)) = D (rd32 (D pb) (4 * j))" if "j < 128" for j
      using keep [of "L1 j"] Dind that i(1) assms(3) by simp
    have z: "E w = zero_sector" using assms(12) Dind by simp
    show ?thesis using Dind i d l rd z assms(3,4,8) by (cases y) (auto simp: Let_def rd32_zero)
  next
    case (L1 j)
    have j: "j < 128" "ci_dindirect n \<noteq> 0" "rd32 (D (ci_dindirect n)) (4 * j) = pb" using L1 assms(2,3) by (auto split: if_splits)
    have i: "rd32 (D pb) (4 * k) = 0" using L1 assms(3,4,6) j by auto
    have d: "E (ci_indirect n) = D (ci_indirect n)" "E (ci_dindirect n) = D (ci_dindirect n)"
      using keep [of Ind] keep [of Dind] L1 by simp_all
    have l: "E (rd32 (D (ci_dindirect n)) (4 * m)) = D (rd32 (D (ci_dindirect n)) (4 * m)) \<and> rd32 (D (ci_dindirect n)) (4 * m) \<noteq> pb"
        if "m < 128" "m \<noteq> j" for m
      using keep [of "L1 m"] assms(5) [of "L1 m"] L1 that j(2) by auto
    show ?thesis
    proof (cases y)
      case (L2 m q)
      then show ?thesis using L1 i d l [of m] rd j assms(3,4) by (cases "m = j") (auto simp: Let_def)
    qed (use L1 d in auto)
  qed (use assms(1) in simp_all)
qed

lemma child_val: "is_ptr x \<Longrightarrow> sv s i x \<noteq> 0 \<Longrightarrow> k < 128 \<Longrightarrow> sv s i (child x k) = rd32 (blk s (sv s i x)) (4 * k)"
  by (cases x) (auto simp: sv_def Let_def split: if_splits)

subsection \<open>Growing a file\<close>

definition strip :: "catfs_inode \<Rightarrow> catfs_inode" where
  "strip n = n\<lparr>ci_blocks := [], ci_indirect := 0, ci_dindirect := 0\<rparr>"

text \<open>What allocating and writing blocks leaves alone.\<close>
definition same_meta :: "catfs \<Rightarrow> catfs \<Rightarrow> bool" where
  "same_meta s s' \<longleftrightarrow>
     map strip (cinodes s') = map strip (cinodes s) \<and> block_lba s' = block_lba s \<and> io_good s' = io_good s \<and> mounted s' = mounted s \<and>
     (std_layout (sb s') = std_layout (sb s)) \<and> disk_drive s' = disk_drive s \<and> partition_offset s' = partition_offset s \<and>
     cticks s' = cticks s \<and> cfault s' = cfault s"

lemma same_meta_refl [simp]: "same_meta s s"
  by (simp add: same_meta_def)

lemma same_meta_trans: "same_meta s t \<Longrightarrow> same_meta t u \<Longrightarrow> same_meta s u"
  by (simp add: same_meta_def)

text \<open>Growth of file \<open>i\<close>: the slots in use keep their blocks, the data blocks in use their contents; other files' slots, and the
  data slots of \<open>i\<close> outside \<open>K\<close>, are unchanged.\<close>
definition grows :: "nat \<Rightarrow> slot set \<Rightarrow> catfs \<Rightarrow> catfs \<Rightarrow> bool" where
  "grows i K s s' \<longleftrightarrow>
     same_meta s s' \<and>
     (\<forall>j y. j < CATFS_INODE_MAX \<longrightarrow> sv s j y \<noteq> 0 \<longrightarrow> sv s' j y = sv s j y) \<and>
     (\<forall>j y. j < CATFS_INODE_MAX \<longrightarrow> sv s j y \<noteq> 0 \<longrightarrow> \<not> is_ptr y \<longrightarrow> blk s' (sv s j y) = blk s (sv s j y)) \<and>
     (\<forall>j y. j < CATFS_INODE_MAX \<longrightarrow> j \<noteq> i \<longrightarrow> sv s' j y = sv s j y) \<and>
     (\<forall>y. \<not> is_ptr y \<longrightarrow> y \<notin> K \<longrightarrow> sv s' i y = sv s i y)"

lemma grows_refl [simp]: "grows i K s s"
  by (simp add: grows_def)

lemma grows_trans:
  assumes "grows i K s t" "grows i K t u"
  shows "grows i K s u"
proof -
  have m: "same_meta s u" using assms same_meta_trans unfolding grows_def by blast
  have v: "sv t j y = sv s j y" "sv u j y = sv s j y" if "j < CATFS_INODE_MAX" "sv s j y \<noteq> 0" for j y
    using assms that unfolding grows_def by (metis, metis)
  have b: "blk u (sv s j y) = blk s (sv s j y)" if "j < CATFS_INODE_MAX" "sv s j y \<noteq> 0" "\<not> is_ptr y" for j y
    using assms that v(1) [OF that(1,2)] unfolding grows_def by metis
  show ?thesis using assms m v(2) b unfolding grows_def by simp
qed

lemma grows_ios [simp]: "grows i K s (t\<lparr>ios := n\<rparr>) = grows i K s t"
proof -
  have "blk (t\<lparr>ios := n\<rparr>) = blk t" by (simp add: blk_def block_lba_def fun_eq_iff)
  moreover have "same_meta s (t\<lparr>ios := n\<rparr>) = same_meta s t" by (simp add: same_meta_def block_lba_def fun_eq_iff)
  ultimately show ?thesis by (simp add: grows_def sv_def)
qed

definition disk_full :: "catfs \<Rightarrow> bool" where
  "disk_full s \<longleftrightarrow> (\<forall>b < CATFS_BLOCKS_MAX. bm_test s b)"

text \<open>The outcome of looking for the block of slot \<open>x\<close>, allocating on the way: the file has grown inside \<open>K\<close>, and either the slot
  holds the block returned or every block is in use.\<close>
definition settles :: "nat \<Rightarrow> slot set \<Rightarrow> slot \<Rightarrow> catfs \<Rightarrow> catfs \<Rightarrow> u32 option \<Rightarrow> bool" where
  "settles i K x s s' r \<longleftrightarrow>
     tree_ok s' \<and> grows i K s s' \<and> (case r of None \<Rightarrow> disk_full s' | Some w \<Rightarrow> w \<noteq> 0 \<and> sv s' i x = w)"

lemma settles_found: "tree_ok s \<Longrightarrow> sv s i x \<noteq> 0 \<Longrightarrow> settles i K x s s (Some (sv s i x))"
  by (simp add: settles_def)

lemma settles_ios: "settles i K x s (t\<lparr>ios := n\<rparr>) r = settles i K x s t r"
proof -
  have b: "blk (t\<lparr>ios := n\<rparr>) = blk t" "bm_test (t\<lparr>ios := n\<rparr>) = bm_test t"
    by (simp_all add: blk_def block_lba_def bm_test_def fun_eq_iff)
  have v: "sv (t\<lparr>ios := n\<rparr>) = sv t" by (simp add: sv_def b fun_eq_iff)
  show ?thesis unfolding settles_def tree_ok_def disk_full_def v b by simp
qed

lemma alloc_into:
  assumes "catfs_wf s" "tree_ok s" "i < CATFS_INODE_MAX" "bm_alloc s = (s1, Some nb)" "w = word_of_nat nb"
    "bitmap s' = bitmap s1" "same_meta s s'" "\<And>j. j \<noteq> i \<Longrightarrow> cinodes s' ! j = cinodes s ! j"
    "\<And>b. b \<noteq> w \<Longrightarrow> b \<notin> P \<Longrightarrow> blk s' b = blk s b" "\<And>b. b \<in> P \<Longrightarrow> \<exists>z. is_ptr z \<and> sv s i z = b \<and> b \<noteq> 0"
    "\<And>y. sv s' i y = (if y = x then w else sv s i y)" "sv s i x = 0"
  shows "settles i {x} x s s' (Some w)"
proof -
  have len: "length (bitmap s) = CATFS_BLOCKS_MAX div 8" using assms(1) by (simp add: catfs_wf_def tables_wf_def)
  have z: "bm_test s 0" using assms(2) by (simp add: tree_ok_def)
  note a = bm_alloc_spec(2) [OF assms(4) len z refl]
  have w: "unat w = nb" "w \<noteq> 0" "\<not> bm_test s (unat w)" "unat w < CATFS_BLOCKS_MAX" using a assms(5) by auto
  have fresh: "sv s j y \<noteq> w" if "j < CATFS_INODE_MAX" for j y
    using tree_okD(2) [OF assms(2) that, of y] w by (cases "sv s j y = 0") auto
  have other: "sv s' j y = sv s j y" if "j < CATFS_INODE_MAX" "j \<noteq> i" for j y
  proof -
    have "slot_val (cinodes s ! j) (blk s') y = slot_val (cinodes s ! j) (blk s) y"
    proof (rule slot_val_cong)
      fix q assume "is_ptr q" "slot_val (cinodes s ! j) (blk s) q \<noteq> 0"
      then have q: "sv s j q \<noteq> 0" "slot_val (cinodes s ! j) (blk s) q = sv s j q" by (simp_all add: sv_def)
      have "sv s j q \<notin> P"
        using assms(10) [of "sv s j q"] tree_okD(3) [OF assms(2) that(1) q(1) assms(3)] that(2) by metis
      then show "blk s' (slot_val (cinodes s ! j) (blk s) q) = blk s (slot_val (cinodes s ! j) (blk s) q)"
        unfolding q(2) using assms(9) fresh [OF that(1)] by simp
    qed
    then show ?thesis using assms(8) [OF that(2)] by (simp add: sv_def)
  qed
  have all: "sv s' j y = (if j = i \<and> y = x then w else sv s j y)" if "j < CATFS_INODE_MAX" for j y
    using other [OF that] assms(11) by (cases "j = i") auto
  have bits: "bm_test s' b \<longleftrightarrow> b = unat w \<or> bm_test s b" if "b < CATFS_BLOCKS_MAX" for b
    using a w(1) that assms(6) by (simp add: bm_test_def)
  have data: "blk s' (sv s j y) = blk s (sv s j y)" if "j < CATFS_INODE_MAX" "sv s j y \<noteq> 0" "\<not> is_ptr y" for j y
  proof -
    have "sv s j y \<notin> P" using assms(10) [of "sv s j y"] tree_okD(3) [OF assms(2) that(1,2) assms(3)] that(3) by metis
    then show ?thesis using assms(9) fresh [OF that(1)] by simp
  qed
  have "tree_ok s'" using tree_ok_fresh [OF assms(2) w(3,4) assms(3) all bits] .
  then show ?thesis using all other data assms(3,7,12) w(2) by (simp add: settles_def grows_def)
qed

lemma sv_upd_other: "j \<noteq> i \<Longrightarrow> cinodes (upd_cinode i f s) ! j = cinodes s ! j"
  by (simp add: upd_cinode_def)

lemma inode_index: "catfs_wf s \<Longrightarrow> i < CATFS_INODE_MAX \<Longrightarrow> i < length (cinodes s)"
  by (simp add: catfs_wf_def tables_wf_def)

lemma inode_blocks_length: "catfs_wf s \<Longrightarrow> i < CATFS_INODE_MAX \<Longrightarrow> length (ci_blocks (cinodes s ! i)) = 16"
  using inode_index [of s i] by (simp add: catfs_wf_def tables_wf_def inode_wf_def CATFS_DIRECT_BLOCKS_def)

lemma upd_cinode_frame [simp]:
  "drives (upd_cinode i f s) = drives s" "io_ok (upd_cinode i f s) = io_ok s" "bitmap (upd_cinode i f s) = bitmap s" "sb (upd_cinode i f s) = sb s" "block_lba (upd_cinode i f s) = block_lba s"
  "io_good (upd_cinode i f s) = io_good s" "mounted (upd_cinode i f s) = mounted s" "disk_drive (upd_cinode i f s) = disk_drive s"
  "partition_offset (upd_cinode i f s) = partition_offset s" "cticks (upd_cinode i f s) = cticks s" "cfault (upd_cinode i f s) = cfault s"
  "disk_at (upd_cinode i f s) = disk_at s" "blk (upd_cinode i f s) = blk s" "length (cinodes (upd_cinode i f s)) = length (cinodes s)"
  by (simp_all add: upd_cinode_def block_lba_def blk_def fun_eq_iff)

lemma map_strip_upd:
  assumes "\<And>n. strip (f n) = strip n"
  shows "map strip (cinodes (upd_cinode i f s)) = map strip (cinodes s)"
proof (rule nth_equalityI)
  fix j assume "j < length (map strip (cinodes (upd_cinode i f s)))"
  then show "map strip (cinodes (upd_cinode i f s)) ! j = map strip (cinodes s) ! j"
    using assms by (cases "j = i") (simp_all add: upd_cinode_def)
qed simp

lemma same_meta_upd:
  assumes "bm_alloc s = (s1, r)" "\<And>n. strip (f n) = strip n"
  shows "same_meta s (upd_cinode i f s1)"
  using bm_alloc_frame [OF assms(1)] map_strip_upd [of f i s1, OF assms(2)] by (simp add: same_meta_def)

lemma resolve_direct_settles:
  assumes "catfs_wf s" "tree_ok s" "i < CATFS_INODE_MAX" "k < 16" "resolve_direct i k True s = (s', r)"
  shows "settles i {Direct k} (Direct k) s s' r"
proof (cases "ci_blocks (cinodes s ! i) ! k = 0")
  case False
  then have "s' = s" "r = Some (sv s i (Direct k))" "sv s i (Direct k) \<noteq> 0" using assms(4,5) by (auto simp: resolve_direct_def sv_def)
  then show ?thesis using settles_found [OF assms(2)] by simp
next
  case True
  obtain s1 a where al: "bm_alloc s = (s1, a)" by fastforce
  note fr = bm_alloc_frame [OF al]
  have len: "length (bitmap s) = CATFS_BLOCKS_MAX div 8" and z: "bm_test s 0"
    using assms(1,2) by (simp_all add: catfs_wf_def tables_wf_def tree_ok_def)
  show ?thesis
  proof (cases a)
    case None
    then have "s' = s" "r = None" "disk_full s"
      using al assms(5) True bm_alloc_spec(1) [OF al len z] by (simp_all add: resolve_direct_def disk_full_def)
    then show ?thesis using assms(2) by (simp add: settles_def)
  next
    case (Some nb)
    let ?f = "\<lambda>n. n\<lparr>ci_blocks := (ci_blocks n)[k := word_of_nat nb]\<rparr>"
    have s': "s' = upd_cinode i ?f s1" "r = Some (word_of_nat nb)" using al Some assms(5) True by (simp_all add: resolve_direct_def)
    have b: "blk s' = blk s" using fr(3) by (simp add: s' upd_cinode_def blk_def block_lba_def fun_eq_iff)
    have c: "cinodes s' ! i = ?f (cinodes s ! i)" using inode_index [OF assms(1,3)] fr(1) by (simp add: s' upd_cinode_def)
    have sv: "sv s' i y = (if y = Direct k then word_of_nat nb else sv s i y)" for y
      using assms(4) inode_blocks_length [OF assms(1,3)] by (cases y) (auto simp: sv_def c b Let_def)
    have "settles i {Direct k} (Direct k) s s' (Some (word_of_nat nb))"
    proof (rule alloc_into [OF assms(1-3) al [unfolded Some] refl, where P = "{}"])
      show "same_meta s s'" unfolding s' by (rule same_meta_upd [OF al]) (simp add: strip_def)
    qed (use sv True assms(4) b fr in \<open>simp_all add: s' upd_cinode_def sv_def\<close>)
    then show ?thesis using s' by simp
  qed
qed

subsection \<open>Pointer blocks\<close>

lemma block_lba_inj [simp]: "block_lba s b = block_lba s c \<longleftrightarrow> b = c"
  by (simp add: block_lba_def)

lemma put_block_frame [simp]:
  "blk (put_sector s (block_lba s b) bs) = (blk s)(b := bs)" "block_lba (put_sector s l bs) = block_lba s"
  by (auto simp: blk_def block_lba_def disk_at_put fun_eq_iff)

lemma settles_left_ios: "settles i K x (s\<lparr>ios := n\<rparr>) t r = settles i K x s t r"
proof -
  have b: "blk (s\<lparr>ios := n\<rparr>) = blk s" by (simp add: blk_def block_lba_def fun_eq_iff)
  have v: "sv (s\<lparr>ios := n\<rparr>) = sv s" by (simp add: sv_def b fun_eq_iff)
  have m: "same_meta (s\<lparr>ios := n\<rparr>) t = same_meta s t" by (simp add: same_meta_def block_lba_def fun_eq_iff)
  show ?thesis unfolding settles_def grows_def v b m by simp
qed

lemma tree_ok_ios [simp]: "tree_ok (s\<lparr>ios := n\<rparr>) = tree_ok s"
proof -
  have b: "blk (s\<lparr>ios := n\<rparr>) = blk s" "bm_test (s\<lparr>ios := n\<rparr>) = bm_test s" by (simp_all add: blk_def block_lba_def bm_test_def fun_eq_iff)
  have v: "sv (s\<lparr>ios := n\<rparr>) = sv s" by (simp add: sv_def b fun_eq_iff)
  show ?thesis unfolding tree_ok_def v b by simp
qed

lemma grows_ptr: "is_ptr x \<Longrightarrow> grows i {x} s t \<Longrightarrow> grows i K s t"
  by (auto simp: grows_def)

lemma settles_then:
  assumes "settles i {p} p s t (Some v)" "is_ptr p" "settles i K x t u r"
  shows "settles i K x s u r"
  using assms grows_ptr [OF assms(2)] grows_trans [of i K s t u] unfolding settles_def by blast

lemma settles_stuck: "settles i {p} p s t None \<Longrightarrow> is_ptr p \<Longrightarrow> settles i K x s t None"
  using grows_ptr unfolding settles_def by auto

lemma no_block_settles:
  assumes "catfs_wf s" "tree_ok s" "bm_alloc s = (t, None)"
  shows "settles i K x s t None"
proof -
  have "length (bitmap s) = CATFS_BLOCKS_MAX div 8" "bm_test s 0" using assms(1,2) by (simp_all add: catfs_wf_def tables_wf_def tree_ok_def)
  then have "t = s" "disk_full s" using bm_alloc_spec(1) [OF assms(3)] by (simp_all add: disk_full_def)
  then show ?thesis using assms(2) by (simp add: settles_def)
qed

lemma fresh_block:
  assumes "catfs_wf s" "tree_ok s" "bm_alloc s = (t, Some nb)" "j < CATFS_INODE_MAX"
  shows "sv s j y \<noteq> word_of_nat nb" "(word_of_nat nb :: u32) \<noteq> 0"
proof -
  have "length (bitmap s) = CATFS_BLOCKS_MAX div 8" "bm_test s 0" using assms(1,2) by (simp_all add: catfs_wf_def tables_wf_def tree_ok_def)
  then have a: "nb \<noteq> 0" "\<not> bm_test s nb" "unat (word_of_nat nb :: u32) = nb" using bm_alloc_spec(2) [OF assms(3)] by auto
  then show "(word_of_nat nb :: u32) \<noteq> 0" by auto
  then show "sv s j y \<noteq> word_of_nat nb" using tree_okD(2) [OF assms(2,4), of y] a by auto
qed

text \<open>The pointer field \<open>x\<close> of an inode, seen through \<open>getf\<close> and \<open>setf\<close>.\<close>
lemma ensure_field_settles:
  assumes "catfs_wf s" "tree_ok s" "io_good s" "i < CATFS_INODE_MAX" "ensure_field getf setf i True s = (s', r)"
    and get: "\<And>n D. getf n = slot_val n D x"
    and meta: "\<And>n v. strip (setf v n) = strip n"
    and set: "\<And>n D E v y. E v = zero_sector \<Longrightarrow> (\<And>b. b \<noteq> v \<Longrightarrow> E b = D b) \<Longrightarrow> (\<And>y. slot_val n D y \<noteq> v) \<Longrightarrow> slot_val n D x = 0 \<Longrightarrow>
      slot_val (setf v n) E y = (if y = x then v else slot_val n D y)"
  shows "settles i {x} x s s' r"
proof (cases "getf (cinodes s ! i) = 0")
  case False
  then have "s' = s" "r = Some (sv s i x)" "sv s i x \<noteq> 0" using assms(5) get by (auto simp: ensure_field_def sv_def)
  then show ?thesis using settles_found [OF assms(2)] by simp
next
  case True
  then have z: "sv s i x = 0" using get by (simp add: sv_def)
  obtain s1 a where al: "bm_alloc s = (s1, a)" by fastforce
  note fr = bm_alloc_frame [OF al]
  show ?thesis
  proof (cases a)
    case None
    then have "s' = s1" "r = None" using al assms(5) True by (simp_all add: ensure_field_def)
    then show ?thesis using no_block_settles [OF assms(1,2)] al None by simp
  next
    case (Some nb)
    define w where "w = (word_of_nat nb :: u32)"
    let ?u = "upd_cinode i (setf w) s1"
    have "io_good ?u" using fr(4) assms(3) by simp
    then have s': "s' = put_sector ?u (block_lba ?u w) zero_sector" "r = Some w"
      using al Some assms(5) True by (auto simp: ensure_field_def Let_def dsk_write_good w_def)
    have b: "blk s' = (blk s)(w := zero_sector)" using fr(3) by (simp add: s'(1) del: upd_cinode_frame(5))
    have c: "cinodes s' ! i = setf w (cinodes s ! i)" using inode_index [OF assms(1,4)] fr(1) by (simp add: s' upd_cinode_def)
    have nw: "slot_val (cinodes s ! i) (blk s) y \<noteq> w" for y
      using fresh_block(1) [OF assms(1,2) al [unfolded Some] assms(4), of y] by (simp add: sv_def w_def)
    have sv: "sv s' i y = (if y = x then w else sv s i y)" for y
      unfolding sv_def c by (rule set) (use b nw z in \<open>simp_all add: sv_def\<close>)
    have "same_meta s ?u" by (rule same_meta_upd [OF al]) (simp add: meta)
    then have "same_meta s s'" by (simp add: s' same_meta_def)
    moreover have "cinodes s' ! j = cinodes s ! j" if "j \<noteq> i" for j using that fr(1) by (simp add: s' upd_cinode_def)
    ultimately have "settles i {x} x s s' (Some w)"
      using alloc_into [OF assms(1,2,4) al [unfolded Some] w_def, of s' "{}" x] sv z b by (simp add: s' fr)
    then show ?thesis using s' by simp
  qed
qed

lemma slot_val_set_ind:
  assumes "E v = zero_sector" "\<And>b. b \<noteq> v \<Longrightarrow> E b = D b" "\<And>y. slot_val n D y \<noteq> v" "slot_val n D Ind = 0"
  shows "slot_val (n\<lparr>ci_indirect := v\<rparr>) E y = (if y = Ind then v else slot_val n D y)"
proof -
  have d: "E (ci_dindirect n) = D (ci_dindirect n)" using assms(2) assms(3) [of Dind] by simp
  have l: "E (rd32 (D (ci_dindirect n)) (4 * j)) = D (rd32 (D (ci_dindirect n)) (4 * j))" if "j < 128" "ci_dindirect n \<noteq> 0" for j
    using assms(2) assms(3) [of "L1 j"] that by simp
  show ?thesis using assms(1,4) d l by (cases y) (auto simp: Let_def rd32_zero)
qed

lemma slot_val_set_dind:
  assumes "E v = zero_sector" "\<And>b. b \<noteq> v \<Longrightarrow> E b = D b" "\<And>y. slot_val n D y \<noteq> v" "slot_val n D Dind = 0"
  shows "slot_val (n\<lparr>ci_dindirect := v\<rparr>) E y = (if y = Dind then v else slot_val n D y)"
proof -
  have d: "E (ci_indirect n) = D (ci_indirect n)" using assms(2) assms(3) [of Ind] by simp
  show ?thesis using assms(1,4) d by (cases y) (auto simp: Let_def rd32_zero)
qed

lemma ensure_indirect_settles:
  assumes "catfs_wf s" "tree_ok s" "io_good s" "i < CATFS_INODE_MAX" "ensure_indirect i True s = (s', r)"
  shows "settles i {Ind} Ind s s' r"
  by (rule ensure_field_settles [OF assms(1-4) assms(5) [unfolded ensure_indirect_def]], simp, simp add: strip_def, rule slot_val_set_ind, assumption+)

lemma ensure_dindirect_settles:
  assumes "catfs_wf s" "tree_ok s" "io_good s" "i < CATFS_INODE_MAX" "ensure_dindirect i True s = (s', r)"
  shows "settles i {Dind} Dind s s' r"
  by (rule ensure_field_settles [OF assms(1-4) assms(5) [unfolded ensure_dindirect_def]], simp, simp add: strip_def, rule slot_val_set_dind, assumption+)

lemma blk_length: "catfs_wf s \<Longrightarrow> length (blk s b) = 512"
  using wf_sector [of s] by (simp add: blk_def disk_at_def)

lemma store_ptr_settles:
  assumes "catfs_wf s" "tree_ok s" "io_good s" "i < CATFS_INODE_MAX" "is_ptr x" "sv s i x = pb" "pb \<noteq> 0" "k < 128"
    and al: "bm_alloc s = (s2, Some nb)" and w: "w = word_of_nat nb" and z: "sv s i (child x k) = 0"
    and s3: "s3 = put_sector s2 (block_lba s2 pb) (splice (4 * k) (le32 w) (blk s pb))"
    and s': "s' = (if is_ptr (child x k) then put_sector s3 (block_lba s3 w) zero_sector else s3)"
  shows "settles i {child x k} (child x k) s s' (Some w)"
proof -
  note fr = bm_alloc_frame [OF al]
  note fb = fresh_block [OF assms(1,2) al]
  have wp: "w \<noteq> pb" using fb(1) [OF assms(4), of x] assms(6) w by auto
  have b3: "blk s3 = (blk s)(pb := splice (4 * k) (le32 w) (blk s pb))" using fr(3) by (simp add: s3)
  have b: "blk s' = (if is_ptr (child x k) then (blk s3)(w := zero_sector) else blk s3)" by (simp add: s')
  have E: "blk s' pb = splice (4 * k) (le32 w) (blk s pb)" "\<And>b. b \<noteq> pb \<Longrightarrow> b \<noteq> w \<Longrightarrow> blk s' b = blk s b"
      "is_ptr (child x k) \<Longrightarrow> blk s' w = zero_sector" using b b3 wp by auto
  have c: "cinodes s' = cinodes s" using fr(1) by (simp add: s' s3)
  have uniq: "y = x" if "slot_val (cinodes s ! i) (blk s) y = pb" for y
    using tree_okD(3) [OF assms(2,4), of y i x] that assms(4,6,7) by (simp add: sv_def)
  have sv: "sv s' i y = (if y = child x k then w else sv s i y)" for y
    unfolding sv_def c
    by (rule slot_val_store [OF assms(5) assms(6) [unfolded sv_def] assms(7,8) uniq z [unfolded sv_def] blk_length [OF assms(1)] _ _ E])
      (use fb(2) fb(1) [OF assms(4)] assms(4) in \<open>simp_all add: sv_def w\<close>)
  have m: "same_meta s s'" using fr by (simp add: s' s3 same_meta_def)
  have bm: "bitmap s' = bitmap s2" by (simp add: s' s3)
  show ?thesis
  proof (rule alloc_into [OF assms(1,2,4) al w bm m _ _ _ sv z, where P = "{pb}"])
    show "\<And>j. j \<noteq> i \<Longrightarrow> cinodes s' ! j = cinodes s ! j" by (simp add: c)
    show "\<And>b. b \<noteq> w \<Longrightarrow> b \<notin> {pb} \<Longrightarrow> blk s' b = blk s b" using E(2) by simp
    show "\<And>b. b \<in> {pb} \<Longrightarrow> \<exists>z. is_ptr z \<and> sv s i z = b \<and> b \<noteq> 0" using assms(5-7) by auto
  qed
qed

lemma resolve_ptr_settles:
  assumes "catfs_wf s" "tree_ok s" "io_good s" "i < CATFS_INODE_MAX" "is_ptr x" "sv s i x = pb" "pb \<noteq> 0" "k < 128"
    "resolve_ptr pb k True (is_ptr (child x k)) s = (s', r)"
  shows "settles i {child x k} (child x k) s s' r"
proof -
  define s1 where "s1 = s\<lparr>ios := ios s + 1\<rparr>"
  have s1: "catfs_wf s1" "tree_ok s1" "io_good s1" "blk s1 = blk s" using assms(1-3) by (simp_all add: s1_def blk_def block_lba_def fun_eq_iff)
  have v1: "sv s1 i y = sv s i y" for y by (simp add: sv_def s1(4)) (simp add: s1_def)
  have rd: "dsk_read (block_lba s pb) s = (s1, Some (blk s pb))" using dsk_read_good [OF assms(3)] by (simp add: s1_def blk_def)
  have cv: "sv s1 i (child x k) = rd32 (blk s pb) (4 * k)" using child_val [OF assms(5) _ assms(8), of s i] assms(6,7) v1 by simp
  have "settles i {child x k} (child x k) s1 s' r"
  proof (cases "rd32 (blk s pb) (4 * k) = 0")
    case False
    then have "s' = s1" "r = Some (sv s1 i (child x k))" "sv s1 i (child x k) \<noteq> 0" using assms(9) rd cv by (auto simp: resolve_ptr_def)
    then show ?thesis using settles_found [OF s1(2)] by simp
  next
    case True
    obtain s2 a where al: "bm_alloc s1 = (s2, a)" by fastforce
    note fr = bm_alloc_frame [OF al]
    show ?thesis
    proof (cases a)
      case None
      then have "s' = s2" "r = None" using assms(9) rd True al by (simp_all add: resolve_ptr_def)
      then show ?thesis using no_block_settles [OF s1(1,2)] al None by simp
    next
      case (Some nb)
      define w where "w = (word_of_nat nb :: u32)"
      define s3 where "s3 = put_sector s2 (block_lba s2 pb) (splice (4 * k) (le32 w) (blk s1 pb))"
      have g2: "io_good s2" "io_good s3" using fr(4) s1(3) by (simp_all add: s3_def)
      have "s' = (if is_ptr (child x k) then put_sector s3 (block_lba s3 w) zero_sector else s3)" "r = Some w"
        using assms(9) rd True al Some g2 by (auto simp: resolve_ptr_def Let_def dsk_write_good s1(4) w_def s3_def)
      then show ?thesis
        using store_ptr_settles [OF s1(1-3) assms(4,5) _ assms(7,8) al [unfolded Some] w_def _ s3_def] assms(6) v1 cv True by simp
    qed
  qed
  then show ?thesis by (simp add: s1_def settles_left_ios)
qed

text \<open>Finding the block of a file, allocating what is missing: it succeeds unless the disk is full.\<close>
lemma resolve_block_settles:
  assumes "catfs_wf s" "tree_ok s" "io_good s" "i < CATFS_INODE_MAX" "k < CATFS_MAX_FILE_BLOCKS" "resolve_block i k True s = (s', r)"
  shows "settles i {dslot k} (dslot k) s s' r"
proof -
  note defs = CATFS_DIRECT_BLOCKS_def CATFS_PTRS_PER_BLOCK_def CATFS_BLOCK_SIZE_def CATFS_MAX_FILE_BLOCKS_def
  have step: "catfs_wf t \<and> tree_ok t \<and> io_good t" if "settles i {p} p s t (Some v)" "catfs_wf t" for p t v
    using that assms(3) by (simp add: settles_def grows_def same_meta_def)
  consider "k < 16" | "16 \<le> k" "k < 144" | "144 \<le> k" by linarith
  then show ?thesis
  proof cases
    case 1
    then show ?thesis using resolve_direct_settles [OF assms(1,2,4) 1] assms(6) by (simp add: resolve_block_def dslot_def defs)
  next
    case 2
    have k2: "k - 16 < 128" using 2 by linarith
    obtain s1 a where e: "ensure_indirect i True s = (s1, a)" by fastforce
    note se = ensure_indirect_settles [OF assms(1-4) e]
    have w1: "catfs_wf s1" using wf_ensure e assms(1) by (auto simp: ensure_indirect_def)
    show ?thesis
    proof (cases a)
      case None
      then have "s' = s1" "r = None" using assms(6) e 2 k2 by (simp_all add: resolve_block_def defs Let_def)
      then show ?thesis using settles_stuck [OF se [unfolded None]] by simp
    next
      case (Some v)
      have v: "sv s1 i Ind = v" "v \<noteq> 0" using se Some by (simp_all add: settles_def)
      note st = step [OF se [unfolded Some] w1]
      have "resolve_ptr v (k - 16) True (is_ptr (child Ind (k - 16))) s1 = (s', r)"
        using assms(6) e Some 2 k2 by (simp add: resolve_block_def defs Let_def)
      from resolve_ptr_settles [OF _ _ _ assms(4) _ v _ this] st 2
      have "settles i {dslot k} (dslot k) s1 s' r" by (simp add: dslot_def)
      then show ?thesis using settles_then [OF se [unfolded Some]] by simp
    qed
  next
    case 3
    let ?l1 = "(k - 144) div 128" and ?l2 = "(k - 144) mod 128"
    have k3: "\<not> k - 16 < 128" using 3 by linarith
    have l: "?l1 < 128" "?l2 < 128" using assms(5) 3 by (simp_all add: defs)
    obtain s1 a where e: "ensure_dindirect i True s = (s1, a)" by fastforce
    note se = ensure_dindirect_settles [OF assms(1-4) e]
    have w1: "catfs_wf s1" using wf_ensure e assms(1) by (auto simp: ensure_dindirect_def)
    have rb: "resolve_block i k True s = (case (s1, a) of (s1, None) \<Rightarrow> (s1, None) | (s1, Some dind) \<Rightarrow>
        (case resolve_ptr dind ?l1 True True s1 of (s2, None) \<Rightarrow> (s2, None) | (s2, Some p) \<Rightarrow> resolve_ptr p ?l2 True False s2))"
      using 3 l e k3 by (simp add: resolve_block_def defs Let_def)
    show ?thesis
    proof (cases a)
      case None
      then have "s' = s1" "r = None" using assms(6) rb by simp_all
      then show ?thesis using settles_stuck [OF se [unfolded None]] by simp
    next
      case (Some v)
      have v: "sv s1 i Dind = v" "v \<noteq> 0" using se Some by (simp_all add: settles_def)
      note st = step [OF se [unfolded Some] w1]
      obtain s2 b where r1: "resolve_ptr v ?l1 True True s1 = (s2, b)" by fastforce
      from resolve_ptr_settles [OF _ _ _ assms(4) _ v l(1), of s2 b] st r1
      have s2: "settles i {L1 ?l1} (L1 ?l1) s1 s2 b" by simp
      have w2: "catfs_wf s2" using wf_resolve_ptr [OF r1 w1] l by (simp add: defs)
      have s02: "settles i {L1 ?l1} (L1 ?l1) s s2 b" using settles_then [OF se [unfolded Some] _ s2] by simp
      show ?thesis
      proof (cases b)
        case None
        then have "s' = s2" "r = None" using assms(6) rb Some r1 by simp_all
        then show ?thesis using settles_stuck [OF s02 [unfolded None]] by simp
      next
        case b: (Some p)
        have p: "sv s2 i (L1 ?l1) = p" "p \<noteq> 0" using s2 b by (simp_all add: settles_def)
        note st2 = step [OF s02 [unfolded b] w2]
        have "resolve_ptr p ?l2 True (is_ptr (child (L1 ?l1) ?l2)) s2 = (s', r)" using assms(6) rb Some r1 b by simp
        from resolve_ptr_settles [OF _ _ _ assms(4) _ p l(2) this] st2
        have "settles i {dslot k} (dslot k) s2 s' r" using 3 by (simp add: dslot_def)
        then show ?thesis using settles_then [OF s02 [unfolded b]] by simp
      qed
    qed
  qed
qed

subsection \<open>The bytes of a file\<close>

text \<open>Byte \<open>p\<close> of file \<open>i\<close>, \<open>None\<close> where no block is allocated.\<close>
definition fbyte :: "catfs \<Rightarrow> nat \<Rightarrow> nat \<Rightarrow> u8 option" where
  "fbyte s i p = (let b = sv s i (dslot (p div 512)) in if b = 0 then None else Some (blk s b ! (p mod 512)))"

lemma fbyte_grows:
  assumes "grows i {dslot k} s t" "j < CATFS_INODE_MAX" "fbyte s j p \<noteq> None \<or> j \<noteq> i \<or> p div 512 \<noteq> k"
  shows "fbyte t j p = fbyte s j p"
proof (cases "sv s j (dslot (p div 512)) = 0")
  case False
  then show ?thesis using assms(1,2) by (simp add: fbyte_def grows_def)
next
  case True
  then have "j \<noteq> i \<or> dslot (p div 512) \<noteq> dslot k" using assms(3) dslot_inj by (auto simp: fbyte_def)
  then have "sv t j (dslot (p div 512)) = sv s j (dslot (p div 512))" using assms(1,2) unfolding grows_def by auto
  then show ?thesis using True by (simp add: fbyte_def)
qed

text \<open>Storing a data block changes the bytes of that block of that file, and nothing else.\<close>
lemma put_data:
  assumes "tree_ok s" "i < CATFS_INODE_MAX" "sv s i (dslot k) = b" "b \<noteq> 0"
    "cinodes t = cinodes s" "bitmap t = bitmap s" "blk t = (blk s)(b := bs)"
  shows "tree_ok t" "j < CATFS_INODE_MAX \<Longrightarrow> sv t j y = sv s j y"
    "j < CATFS_INODE_MAX \<Longrightarrow> fbyte t j p = (if j = i \<and> p div 512 = k then Some (bs ! (p mod 512)) else fbyte s j p)"
proof -
  have v: "sv t j y = sv s j y" if j: "j < CATFS_INODE_MAX" for j y
    unfolding sv_def assms(5)
  proof (rule slot_val_cong)
    fix x assume x: "is_ptr x" "slot_val (cinodes s ! j) (blk s) x \<noteq> 0"
    have "sv s j x \<noteq> b"
    proof
      assume "sv s j x = b"
      then have "x = dslot k" using tree_okD(3) [OF assms(1) j, of x i "dslot k"] assms(2-4) by simp
      then show False using x(1) by simp
    qed
    then show "blk t (slot_val (cinodes s ! j) (blk s) x) = blk s (slot_val (cinodes s ! j) (blk s) x)" by (simp add: assms(7) sv_def)
  qed
  have "bm_test t = bm_test s" by (simp add: bm_test_def fun_eq_iff assms(6))
  then show "tree_ok t" using assms(1) v unfolding tree_ok_def by simp
  show "j < CATFS_INODE_MAX \<Longrightarrow> sv t j y = sv s j y" by (rule v)
  assume j: "j < CATFS_INODE_MAX"
  show "fbyte t j p = (if j = i \<and> p div 512 = k then Some (bs ! (p mod 512)) else fbyte s j p)"
  proof (cases "sv s j (dslot (p div 512)) = b")
    case True
    then have "j = i \<and> p div 512 = k" using tree_okD(3) [OF assms(1) j, of _ i "dslot k"] assms(2-4) dslot_inj by metis
    then show ?thesis using v [OF j] True assms(4,7) by (simp add: fbyte_def)
  next
    case False
    then have "\<not> (j = i \<and> p div 512 = k)" using assms(3) by auto
    then show ?thesis using v [OF j] False assms(7) by (auto simp: fbyte_def Let_def)
  qed
qed

subsection \<open>Writing\<close>

text \<open>Bytes \<open>a\<close> up to \<open>b\<close> of file \<open>i\<close> have been written from \<open>buf\<close>, which starts at byte \<open>off\<close>.\<close>
definition wrote_file :: "nat \<Rightarrow> nat \<Rightarrow> u8 list \<Rightarrow> nat \<Rightarrow> nat \<Rightarrow> catfs \<Rightarrow> catfs \<Rightarrow> bool" where
  "wrote_file i off buf a b s s' \<longleftrightarrow>
     tree_ok s' \<and> catfs_wf s' \<and> same_meta s s' \<and>
     (\<forall>j p. j < CATFS_INODE_MAX \<longrightarrow> j \<noteq> i \<longrightarrow> fbyte s' j p = fbyte s j p) \<and>
     (\<forall>p. a \<le> p \<and> p < b \<longrightarrow> fbyte s' i p = Some (buf ! (p - off))) \<and>
     (\<forall>p. \<not> (a \<le> p \<and> p < b) \<longrightarrow> fbyte s i p \<noteq> None \<longrightarrow> fbyte s' i p = fbyte s i p)"

lemma wrote_file_refl: "tree_ok s \<Longrightarrow> catfs_wf s \<Longrightarrow> wrote_file i off buf a a s s"
  by (auto simp: wrote_file_def)

lemma wrote_fileI:
  assumes "tree_ok s'" "catfs_wf s'" "same_meta s s'" "\<And>j p. j < CATFS_INODE_MAX \<Longrightarrow> j \<noteq> i \<Longrightarrow> fbyte s' j p = fbyte s j p"
    "\<And>p. a \<le> p \<Longrightarrow> p < b \<Longrightarrow> fbyte s' i p = Some (buf ! (p - off))"
    "\<And>p. \<not> (a \<le> p \<and> p < b) \<Longrightarrow> fbyte s i p \<noteq> None \<Longrightarrow> fbyte s' i p = fbyte s i p"
  shows "wrote_file i off buf a b s s'"
  unfolding wrote_file_def by (intro conjI allI impI) (auto intro!: assms)

lemma wrote_fileD:
  assumes "wrote_file i off buf a b s s'"
  shows "tree_ok s'" "catfs_wf s'" "same_meta s s'" "j < CATFS_INODE_MAX \<Longrightarrow> j \<noteq> i \<Longrightarrow> fbyte s' j p = fbyte s j p"
  using assms unfolding wrote_file_def by blast+

lemma wrote_file_inside: "wrote_file i off buf a b s t \<Longrightarrow> a \<le> p \<Longrightarrow> p < b \<Longrightarrow> fbyte t i p = Some (buf ! (p - off))"
  by (simp add: wrote_file_def)

lemma wrote_file_outside: "wrote_file i off buf a b s t \<Longrightarrow> p < a \<or> b \<le> p \<Longrightarrow> fbyte s i p = Some v \<Longrightarrow> fbyte t i p = Some v"
  unfolding wrote_file_def by (metis leD option.distinct(1))

lemma wrote_file_trans:
  assumes "wrote_file i off buf a b s t" "wrote_file i off buf b c t u" "a \<le> b" "b \<le> c"
  shows "wrote_file i off buf a c s u"
proof -
  have ins: "fbyte u i p = Some (buf ! (p - off))" if "a \<le> p" "p < c" for p
  proof (cases "p < b")
    case True
    then show ?thesis using wrote_file_outside [OF assms(2) _ wrote_file_inside [OF assms(1) that(1) True]] by simp
  next
    case False
    then show ?thesis using wrote_file_inside [OF assms(2)] that by simp
  qed
  have out: "fbyte u i p = fbyte s i p" if o: "\<not> (a \<le> p \<and> p < c)" and n: "fbyte s i p \<noteq> None" for p
  proof -
    obtain v where v: "fbyte s i p = Some v" using n by auto
    have t: "fbyte t i p = Some v" by (rule wrote_file_outside [OF assms(1) _ v]) (use o assms(4) in linarith)
    have "fbyte u i p = Some v" by (rule wrote_file_outside [OF assms(2) _ t]) (use o assms(3) in linarith)
    then show ?thesis using v by simp
  qed
  show ?thesis
  proof (rule wrote_fileI)
    show "tree_ok u" "catfs_wf u" using wrote_fileD(1,2) [OF assms(2)] .
    show "same_meta s u" by (rule same_meta_trans [OF wrote_fileD(3) [OF assms(1)] wrote_fileD(3) [OF assms(2)]])
    show "fbyte u j p = fbyte s j p" if "j < CATFS_INODE_MAX" "j \<noteq> i" for j p
      using wrote_fileD(4) [OF assms(1) that] wrote_fileD(4) [OF assms(2) that] by simp
  qed (fact ins, fact out)
qed

lemma grows_wrote_file:
  assumes "grows i {dslot k} s t" "tree_ok t" "catfs_wf t" "i < CATFS_INODE_MAX"
  shows "wrote_file i off buf a a s t"
  using assms fbyte_grows [OF assms(1)] by (auto simp: wrote_file_def grows_def)

lemma splice_nth:
  "off + length src \<le> length tmp \<Longrightarrow> q < length tmp \<Longrightarrow>
   splice off src tmp ! q = (if off \<le> q \<and> q < off + length src then src ! (q - off) else tmp ! q)"
  by (auto simp: splice_def nth_append min_def)

text \<open>One round of the loop: part of block \<open>k\<close>, from byte \<open>a\<close> on.\<close>
lemma write_chunk:
  assumes "tree_ok s1" "catfs_wf s1" "i < CATFS_INODE_MAX" "sv s1 i (dslot k) = b" "b \<noteq> 0"
    and a: "a = 512 * k + bo" "bo < 512" "bo + c \<le> 512" and buf: "off \<le> a" "a - off + c \<le> length buf"
    and tmp: "length tmp = 512" "tmp = blk s1 b \<or> c = 512"
    and s3: "s3 = put_sector (s1\<lparr>ios := n\<rparr>) (block_lba s1 b) (splice bo (take c (drop (a - off) buf)) tmp)"
  shows "wrote_file i off buf a (a + c) s1 s3"
proof -
  let ?bs = "splice bo (take c (drop (a - off) buf)) tmp"
  have len: "length (take c (drop (a - off) buf)) = c" using buf by simp
  have lb: "length ?bs = 512" using len tmp(1) a(3) length_splice by simp
  have b0: "block_lba (s1\<lparr>ios := n\<rparr>) = block_lba s1" by (simp add: block_lba_def fun_eq_iff)
  have bl: "blk s3 = (blk s1)(b := ?bs)"
    using put_block_frame(1) [of "s1\<lparr>ios := n\<rparr>" b ?bs] unfolding s3 b0 by (simp add: blk_def b0 fun_eq_iff)
  have c3: "cinodes s3 = cinodes s1" "bitmap s3 = bitmap s1" by (simp_all add: s3)
  note pd = put_data [OF assms(1,3-5) c3 bl]
  have w3: "catfs_wf s3" unfolding s3 using assms(2) lb by (auto simp: put_sector_def catfs_wf_def tables_wf_def SECTOR_SIZE_def)
  have m: "same_meta s1 s3" by (simp add: s3 same_meta_def b0)
  have wr: "fbyte s3 i p = Some (buf ! (p - off))" if "a \<le> p" "p < a + c" for p
  proof -
    define q where "q = p - 512 * k"
    have q: "p = 512 * k + q" "q < 512" "bo \<le> q" "q < bo + c" using that a by (simp_all add: q_def)
    then have d: "p div 512 = k" "p mod 512 = q" by simp_all
    have "?bs ! q = take c (drop (a - off) buf) ! (q - bo)" using q len tmp(1) a(3) by (simp add: splice_nth)
    also have "\<dots> = buf ! (a - off + (q - bo))" using q buf by simp
    also have "a - off + (q - bo) = p - off" using q a buf(1) by simp
    finally show ?thesis using pd(3) [OF assms(3), of p] d by simp
  qed
  have keep: "fbyte s3 i p = fbyte s1 i p" if "\<not> (a \<le> p \<and> p < a + c)" for p
  proof (cases "p div 512 = k")
    case True
    then have q: "p = 512 * k + p mod 512" "p mod 512 < 512" using mult_div_mod_eq [of 512 p] by simp_all
    then have out: "\<not> (bo \<le> p mod 512 \<and> p mod 512 < bo + c)" using that a by linarith
    then have "c \<noteq> 512" using a(2,3) q(2) by linarith
    then have t: "tmp = blk s1 b" using tmp(2) by simp
    have "?bs ! (p mod 512) = tmp ! (p mod 512)" using out len tmp(1) a(3) q(2) by (auto simp: splice_nth)
    then have "?bs ! (p mod 512) = blk s1 b ! (p mod 512)" using t by simp
    then show ?thesis using pd(3) [OF assms(3), of p] True assms(4,5) by (simp add: fbyte_def)
  qed (use pd(3) [OF assms(3)] in simp)
  have "fbyte s3 j p = fbyte s1 j p" if "j < CATFS_INODE_MAX" "j \<noteq> i" for j p using pd(3) [OF that(1)] that(2) by simp
  then show ?thesis by (intro wrote_fileI pd(1) w3 m wr keep)
qed

lemma write_base_good:
  assumes "io_good s" "catfs_wf s"
  shows "\<exists>n. write_base in_part b s = (s\<lparr>ios := n\<rparr>, if in_part then blk s b else zero_sector)"
proof (cases in_part)
  case True
  then show ?thesis using dsk_read_good [OF assms(1), of "block_lba s b"] by (auto simp: write_base_def blk_def)
next
  case False
  then show ?thesis by (auto simp: write_base_def intro: exI [of _ "ios s"])
qed

text \<open>The write loop on a working disk: it stops early only when the disk is full or the file has its greatest length.\<close>
lemma write_loop_spec:
  assumes "write_loop i off buf w s = (s', n)" "catfs_wf s" "tree_ok s" "io_good s" "i < CATFS_INODE_MAX" "w \<le> length buf"
    "unat off + length buf < 2 ^ 32"
  shows "w \<le> n \<and> n \<le> length buf \<and> wrote_file i (unat off) buf (unat off + w) (unat off + n) s s' \<and>
    (n = length buf \<or> disk_full s' \<or> CATFS_MAX_FILE_BLOCKS * 512 \<le> unat off + n)"
  using assms
proof (induction "length buf - w" arbitrary: w s rule: less_induct)
  case less
  note P = less.prems and unf = write_loop.simps [of i off buf w s]
  show ?case
  proof (cases "w < length buf")
    case False
    then have "s' = s" "n = length buf" "w = length buf" using P(1,6) unf by simp_all
    then show ?thesis using wrote_file_refl P(2,3) by simp
  next
    case True
    define a where "a = unat off + w"
    let ?k = "a div 512" and ?bo = "a mod 512"
    have fp: "file_pos off w = a" using P(7) True by (simp add: file_pos_def a_def)
    note unf = unf [unfolded fp Let_def CATFS_BLOCK_SIZE_def]
    show ?thesis
    proof (cases "CATFS_MAX_FILE_BLOCKS \<le> ?k")
      case big: True
      then have r: "s' = s" "n = w" using P(1) True unf by (simp_all add: fp)
      have "CATFS_MAX_FILE_BLOCKS * 512 \<le> a" using big by (simp add: less_eq_div_iff_mult_less_eq)
      then show ?thesis using r wrote_file_refl P(2,3) True by (simp add: a_def)
    next
      case small: False
      obtain s1 q where rb: "resolve_block i ?k True s = (s1, q)" by fastforce
      have se: "settles i {dslot ?k} (dslot ?k) s s1 q" using resolve_block_settles [OF P(2-5) _ rb] small by simp
      have w1: "catfs_wf s1" using wf_resolve_block [OF rb P(2)] .
      have g1: "grows i {dslot ?k} s s1" "tree_ok s1" using se by (simp_all add: settles_def)
      have io1: "io_good s1" using g1(1) P(4) by (simp add: grows_def same_meta_def)
      note wg = grows_wrote_file [OF g1 w1 P(5), of "unat off" buf a]
      show ?thesis
      proof (cases q)
        case None
        then have "s' = s1" "n = w" "disk_full s1" using P(1) True small unf rb se by (simp_all add: settles_def)
        then show ?thesis using wg True by (simp add: a_def)
      next
        case (Some b)
        have b: "sv s1 i (dslot ?k) = b" "b \<noteq> 0" using se Some by (simp_all add: settles_def)
        define c where "c = min (length buf - w) (512 - ?bo)"
        define in_part where "in_part = (0 < ?bo \<or> length buf - w < 512)"
        define tmp where "tmp = (if in_part then blk s1 b else zero_sector)"
        obtain m where wb: "write_base in_part b s1 = (s1\<lparr>ios := m\<rparr>, tmp)"
          using write_base_good [OF io1 w1] unfolding tmp_def by blast
        define s3 where "s3 = put_sector (s1\<lparr>ios := m\<rparr>) (block_lba s1 b) (splice ?bo (take c (drop w buf)) tmp)"
        have l1: "block_lba (s1\<lparr>ios := m\<rparr>) = block_lba s1" by (simp add: block_lba_def fun_eq_iff)
        have "write_loop i off buf w s = write_loop i off buf (w + c) s3"
          using True small unf rb Some wb io1 by (simp add: dsk_write_good l1 s3_def c_def flip: in_part_def)
        then have rec: "write_loop i off buf (w + c) s3 = (s', n)" using P(1) by simp
        have cc: "0 < c" "?bo + c \<le> 512" "w + c \<le> length buf" using True by (auto simp: c_def)
        have t: "length tmp = 512" "tmp = blk s1 b \<or> c = 512"
          using blk_length [OF w1] by (auto simp: tmp_def in_part_def c_def)
        have wc: "wrote_file i (unat off) buf a (a + c) s1 s3"
          by (rule write_chunk [OF g1(2) w1 P(5) b]) (use cc t True in \<open>simp_all add: a_def s3_def\<close>)
        note w3 = wrote_fileD [OF wc]
        have io3: "io_good s3" using io1 by (simp add: s3_def)
        have ih: "w + c \<le> n \<and> n \<le> length buf \<and> wrote_file i (unat off) buf (unat off + (w + c)) (unat off + n) s3 s' \<and>
            (n = length buf \<or> disk_full s' \<or> CATFS_MAX_FILE_BLOCKS * 512 \<le> unat off + n)"
          by (rule less.hyps [OF _ rec w3(2,1) io3 P(5) cc(3) P(7)]) (use cc True in simp)
        then show ?thesis using wrote_file_trans [OF wrote_file_trans [OF wg wc]] cc by (auto simp: a_def add.assoc)
      qed
    qed
  qed
qed

subsection \<open>Metadata writes leave the data region alone\<close>

definition meta_only :: "catfs \<Rightarrow> catfs \<Rightarrow> bool" where
  "meta_only s t \<longleftrightarrow>
     cinodes t = cinodes s \<and> bitmap t = bitmap s \<and> sb t = sb s \<and> mounted t = mounted s \<and> disk_drive t = disk_drive s \<and>
     partition_offset t = partition_offset s \<and> drives t = drives s \<and> io_ok t = io_ok s \<and> cticks t = cticks s \<and> cfault t = cfault s \<and>
     (\<forall>l. DATA_LBA \<le> unat l \<longrightarrow> disk_at t l = disk_at s l)"

lemma meta_only_refl [simp]: "meta_only s s"
  by (simp add: meta_only_def)

lemma meta_only_trans: "meta_only s t \<Longrightarrow> meta_only t u \<Longrightarrow> meta_only s u"
  by (simp add: meta_only_def)

lemma meta_only_fields [simp]:
  "meta_only s (t\<lparr>jh := j\<rparr>) = meta_only s t" "meta_only s (t\<lparr>next_seq := q\<rparr>) = meta_only s t" "meta_only s (t\<lparr>ios := n\<rparr>) = meta_only s t"
  by (simp_all add: meta_only_def)

lemma meta_only_write: "unat l < DATA_LBA \<Longrightarrow> meta_only s t \<Longrightarrow> meta_only s (fst (dsk_write l bs t))"
  by (auto simp: meta_only_def dsk_write_def disk_at_def)

lemma meta_only_read: "meta_only s t \<Longrightarrow> meta_only s (fst (dsk_read l t))"
  by (simp add: dsk_read_def)

lemma low_lba: "n < DATA_LBA \<Longrightarrow> unat (word_of_nat n :: u32) < DATA_LBA"
  by (simp add: unat_of_nat catfs_layout)

lemma meta_only_log: "meta_only s t \<Longrightarrow> meta_only s (fst (journal_log ty i a b t))"
proof -
  assume m: "meta_only s t"
  let ?t = "t\<lparr>next_seq := next_seq t + 1\<rparr>"
  let ?l = "word_of_nat (JOURNAL_LOG_LBA + unat (jh_head (jh ?t)) mod CATFS_JOURNAL_SLOTS div (SECTOR_SIZE div JREC_SIZE)) :: u32"
  have "unat (jh_head (jh ?t)) mod CATFS_JOURNAL_SLOTS div (SECTOR_SIZE div JREC_SIZE) < 9"
  proof -
    have "unat (jh_head (jh ?t)) mod 204 < 204" by simp
    then have "unat (jh_head (jh ?t)) mod 204 div 25 < 9" by linarith
    then show ?thesis by (simp add: catfs_layout)
  qed
  then have l: "unat ?l < DATA_LBA" by (intro low_lba) (simp add: catfs_layout)
  obtain t1 r where rd: "dsk_read ?l ?t = (t1, r)" by fastforce
  have m1: "meta_only s t1" using meta_only_read [of s ?t ?l] m rd by simp
  show ?thesis
  proof (cases r)
    case None
    then show ?thesis using rd m1 by (simp add: journal_log_def journal_write_rec_def Let_def)
  next
    case (Some sec)
    have "meta_only s t2" if "dsk_write ?l bs t1 = (t2, ok)" for bs t2 ok using meta_only_write [OF l m1, of bs] that by simp
    then show ?thesis using rd Some by (auto simp: journal_log_def journal_write_rec_def Let_def simp del: of_nat_add split: prod.splits)
  qed
qed

lemma meta_only_sync_super: "meta_only s t \<Longrightarrow> meta_only s (fst (sync_superblock t))"
  unfolding sync_superblock_def by (rule meta_only_write [OF low_lba]) (simp_all add: catfs_layout)

lemma meta_only_commit: "meta_only s t \<Longrightarrow> meta_only s (fst (journal_commit t))"
  unfolding journal_commit_def journal_flush_header_def Let_def by (rule meta_only_write [OF low_lba]) (simp_all add: catfs_layout)

lemma meta_only_sync_inode: "meta_only s t \<Longrightarrow> i < CATFS_INODE_MAX \<Longrightarrow> meta_only s (fst (sync_inode i t))"
proof -
  assume m: "meta_only s t" and i: "i < CATFS_INODE_MAX"
  let ?l = "word_of_nat (INODE_TABLE_LBA + i div INODES_PER_SECTOR) :: u32"
  have "INODE_TABLE_LBA + i div INODES_PER_SECTOR < DATA_LBA" using i by (simp add: catfs_layout)
  then have l: "unat ?l < DATA_LBA" by (rule low_lba)
  obtain t1 r where rd: "dsk_read ?l t = (t1, r)" by fastforce
  have m1: "meta_only s t1" using meta_only_read [of s t ?l] m rd by simp
  show ?thesis using rd m1 meta_only_write [OF l m1] by (cases r) (auto simp: sync_inode_def Let_def)
qed

lemma meta_only_write_sectors: "meta_only s t \<Longrightarrow> \<forall>(l, bs) \<in> set ws. unat l < DATA_LBA \<Longrightarrow> meta_only s (fst (write_sectors ws t))"
proof (induction ws arbitrary: t)
  case (Cons w ws)
  obtain l bs where w: "w = (l, bs)" by fastforce
  have m: "meta_only s (fst (dsk_write l bs t))" using meta_only_write Cons.prems by (simp add: w)
  then show ?case using Cons.IH [OF m] Cons.prems(2) by (cases "dsk_write l bs t") (simp add: w)
qed simp

lemma meta_only_sync_bitmap: "meta_only s t \<Longrightarrow> meta_only s (fst (sync_whole_bitmap t))"
  unfolding bitmap_table
  by (rule meta_only_write_sectors, assumption) (auto simp: table_def simp del: of_nat_add intro!: low_lba, simp add: catfs_layout)

lemma meta_only_same:
  assumes "meta_only s t" "std_layout (sb s)" "unat b < CATFS_BLOCKS_MAX"
  shows "blk t b = blk s b"
proof -
  have "unat (block_lba s b) = DATA_LBA + unat b"
    using assms(2,3) by (simp add: block_lba_def std_layout_def unat_word_ariths unat_of_nat catfs_layout)
  moreover have "block_lba t b = block_lba s b" using assms(1) by (simp add: meta_only_def block_lba_def)
  ultimately show ?thesis using assms(1) by (simp add: meta_only_def blk_def)
qed

text \<open>Files are the same when the block numbers in the inodes and the data region are.\<close>
lemma same_files:
  assumes "tree_ok s" "bitmap t = bitmap s" "\<And>b. unat b < CATFS_BLOCKS_MAX \<Longrightarrow> blk t b = blk s b"
    "\<And>j. ci_blocks (cinodes t ! j) = ci_blocks (cinodes s ! j) \<and> ci_indirect (cinodes t ! j) = ci_indirect (cinodes s ! j) \<and>
      ci_dindirect (cinodes t ! j) = ci_dindirect (cinodes s ! j)"
  shows "tree_ok t" "j < CATFS_INODE_MAX \<Longrightarrow> fbyte t j p = fbyte s j p"
proof -
  have v: "sv t j y = sv s j y" if j: "j < CATFS_INODE_MAX" for j y
  proof -
    have "slot_val (cinodes t ! j) D y = slot_val (cinodes s ! j) D y" for D using assms(4) [of j] by (cases y) simp_all
    moreover have "slot_val (cinodes s ! j) (blk t) y = slot_val (cinodes s ! j) (blk s) y"
      by (rule slot_val_cong) (use tree_okD(1) [OF assms(1) j] assms(3) in \<open>simp add: sv_def\<close>)
    ultimately show ?thesis by (simp add: sv_def)
  qed
  have "bm_test t = bm_test s" by (simp add: bm_test_def fun_eq_iff assms(2))
  then show "tree_ok t" using assms(1) v unfolding tree_ok_def by simp
  assume j: "j < CATFS_INODE_MAX"
  show "fbyte t j p = fbyte s j p"
    using v [OF j] tree_okD(1) [OF assms(1) j] assms(3) by (simp add: fbyte_def Let_def)
qed

subsection \<open>Reading\<close>

lemma resolve_ptr_look:
  assumes "io_good s"
  shows "\<exists>n. resolve_ptr pb k False c s = (s\<lparr>ios := n\<rparr>, let b = rd32 (blk s pb) (4 * k) in if b = 0 then None else Some b)"
  using dsk_read_good [OF assms, of "block_lba s pb"] by (auto simp: resolve_ptr_def Let_def blk_def)

lemma blk_ios [simp]: "blk (s\<lparr>ios := n\<rparr>) = blk s"
  by (simp add: blk_def block_lba_def fun_eq_iff)

text \<open>Looking up a block of a file changes nothing but the number of transfers.\<close>
lemma resolve_block_look:
  assumes "io_good s" "k < CATFS_MAX_FILE_BLOCKS"
  shows "\<exists>n. resolve_block i k False s = (s\<lparr>ios := n\<rparr>, let b = sv s i (dslot k) in if b = 0 then None else Some b)"
proof -
  note defs = CATFS_DIRECT_BLOCKS_def CATFS_PTRS_PER_BLOCK_def CATFS_BLOCK_SIZE_def CATFS_MAX_FILE_BLOCKS_def
  consider "k < 16" | "16 \<le> k" "k < 144" | "144 \<le> k" by linarith
  then show ?thesis
  proof cases
    case 1
    then show ?thesis by (intro exI [of _ "ios s"]) (simp add: resolve_block_def resolve_direct_def dslot_def sv_def Let_def defs)
  next
    case 2
    have k2: "k - 16 < 128" using 2 by linarith
    show ?thesis
    proof (cases "ci_indirect (cinodes s ! i) = 0")
      case True
      then show ?thesis using 2 k2
        by (intro exI [of _ "ios s"]) (simp add: resolve_block_def ensure_indirect_def ensure_field_def dslot_def sv_def Let_def defs)
    next
      case False
      have "resolve_block i k False s = resolve_ptr (ci_indirect (cinodes s ! i)) (k - 16) False False s"
        using False 2 k2 by (simp add: resolve_block_def ensure_indirect_def ensure_field_def Let_def defs)
      moreover have "sv s i (dslot k) = rd32 (blk s (ci_indirect (cinodes s ! i))) (4 * (k - 16))"
        using False 2 k2 by (simp add: sv_def dslot_def)
      ultimately show ?thesis using resolve_ptr_look [OF assms(1)] by simp
    qed
  next
    case 3
    let ?l1 = "(k - 144) div 128" and ?l2 = "(k - 144) mod 128"
    have k3: "\<not> k - 16 < 128" using 3 by linarith
    have l: "?l1 < 128" "?l2 < 128" using assms(2) 3 by (simp_all add: defs)
    show ?thesis
    proof (cases "ci_dindirect (cinodes s ! i) = 0")
      case True
      then show ?thesis using 3 k3 l
        by (intro exI [of _ "ios s"]) (simp add: resolve_block_def ensure_dindirect_def ensure_field_def dslot_def sv_def Let_def defs)
    next
      case False
      let ?d = "ci_dindirect (cinodes s ! i)"
      let ?p = "rd32 (blk s ?d) (4 * ?l1)"
      obtain n1 where r1: "resolve_ptr ?d ?l1 False True s = (s\<lparr>ios := n1\<rparr>, if ?p = 0 then None else Some ?p)"
        using resolve_ptr_look [OF assms(1), of ?d ?l1 True] by (auto simp: Let_def)
      have rb: "resolve_block i k False s =
          (if ?p = 0 then (s\<lparr>ios := n1\<rparr>, None) else resolve_ptr ?p ?l2 False False (s\<lparr>ios := n1\<rparr>))"
        using False 3 k3 l r1 by (simp add: resolve_block_def ensure_dindirect_def ensure_field_def Let_def defs)
      have v: "sv s i (dslot k) = (if ?p = 0 then 0 else rd32 (blk s ?p) (4 * ?l2))" using False 3 l by (simp add: sv_def dslot_def Let_def)
      obtain n2 where "resolve_ptr ?p ?l2 False False (s\<lparr>ios := n1\<rparr>) =
          (s\<lparr>ios := n1, ios := n2\<rparr>, let b = rd32 (blk s ?p) (4 * ?l2) in if b = 0 then None else Some b)"
        using resolve_ptr_look [of "s\<lparr>ios := n1\<rparr>" ?p ?l2 False] assms(1) by auto
      then show ?thesis using rb v by (auto simp: Let_def)
    qed
  qed
qed

lemma block_pos: "z < 512 \<Longrightarrow> (512 * k + z) div 512 = (k :: nat) \<and> (512 * k + z) mod 512 = z"
  by simp

text \<open>The read loop returns the bytes of the file as far as blocks are allocated.\<close>
lemma read_loop_spec:
  assumes "io_good s" "catfs_wf s" "unat off + len \<le> CATFS_MAX_FILE_BLOCKS * 512" "d \<le> len" "acc = map f [unat off ..< unat off + d]"
    "\<forall>p. unat off \<le> p \<and> p < unat off + len \<longrightarrow> fbyte s i p = Some (f p)"
  shows "\<exists>n. read_loop i off len d acc s = (s\<lparr>ios := n\<rparr>, map f [unat off ..< unat off + len])"
  using assms
proof (induction "len - d" arbitrary: d acc s rule: less_induct)
  case less
  note P = less.prems and unf = read_loop.simps [of i off len d acc s]
  show ?case
  proof (cases "d < len")
    case False
    then have "d = len" using P(4) by simp
    then show ?thesis using P(5) unf by (intro exI [of _ "ios s"]) simp
  next
    case True
    define a where "a = unat off + d"
    have fp: "file_pos off d = a" using P(3) True by (simp add: file_pos_def a_def CATFS_MAX_FILE_BLOCKS_def CATFS_DIRECT_BLOCKS_def
          CATFS_PTRS_PER_BLOCK_def CATFS_BLOCK_SIZE_def)
    let ?k = "a div 512" and ?bo = "a mod 512"
    have k: "?k < CATFS_MAX_FILE_BLOCKS" using P(3) True by (simp add: a_def div_less_iff_less_mult)
    let ?b = "sv s i (dslot ?k)"
    have "fbyte s i a = Some (f a)" using P(6) True by (simp add: a_def)
    then have b: "?b \<noteq> 0" by (auto simp: fbyte_def)
    obtain n1 where rb: "resolve_block i ?k False s = (s\<lparr>ios := n1\<rparr>, Some ?b)" using resolve_block_look [OF P(1) k, of i] b by (auto simp: Let_def)
    define c where "c = min (len - d) (512 - ?bo)"
    have cc: "0 < c" "?bo + c \<le> 512" "d + c \<le> len" using True by (auto simp: c_def)
    have rd: "dsk_read (block_lba (s\<lparr>ios := n1\<rparr>) ?b) (s\<lparr>ios := n1\<rparr>) = (s\<lparr>ios := n1 + 1\<rparr>, Some (blk s ?b))"
      using dsk_read_good [of "s\<lparr>ios := n1\<rparr>"] P(1) by (simp add: blk_def block_lba_def)
    have step: "read_loop i off len d acc s = read_loop i off len (d + c) (acc @ take c (drop ?bo (blk s ?b))) (s\<lparr>ios := n1 + 1\<rparr>)"
      using True unf rb rd by (simp add: fp CATFS_BLOCK_SIZE_def Let_def c_def)
    have bytes: "take c (drop ?bo (blk s ?b)) = map f [a ..< a + c]"
    proof (rule nth_equalityI)
      show "length (take c (drop ?bo (blk s ?b))) = length (map f [a ..< a + c])" using blk_length [OF P(2)] cc by simp
      fix q assume "q < length (take c (drop ?bo (blk s ?b)))"
      then have q: "q < c" by simp
      have "a + q = 512 * ?k + (?bo + q)" using mult_div_mod_eq [of 512 a] by simp
      moreover have "?bo + q < 512" using q cc(2) by linarith
      ultimately have dm: "(a + q) div 512 = ?k" "(a + q) mod 512 = ?bo + q" using block_pos [of "?bo + q" ?k] by simp_all
      have "fbyte s i (a + q) = Some (f (a + q))" using P(6) q cc(3) by (simp add: a_def)
      then have "blk s ?b ! (?bo + q) = f (a + q)" using dm b by (simp add: fbyte_def)
      then show "take c (drop ?bo (blk s ?b)) ! q = map f [a ..< a + c] ! q" using q cc blk_length [OF P(2)] by simp
    qed
    have "acc @ take c (drop ?bo (blk s ?b)) = map f [unat off ..< unat off + (d + c)]"
      unfolding bytes P(5) using upt_add_eq_append [of "unat off" "unat off + d" c] by (simp add: a_def add.assoc)
    moreover have "fbyte (s\<lparr>ios := n1 + 1\<rparr>) = fbyte s" by (simp add: fbyte_def sv_def Let_def fun_eq_iff)
    moreover have "len - (d + c) < len - d" using cc True by simp
    ultimately obtain n2 where "read_loop i off len (d + c) (acc @ take c (drop ?bo (blk s ?b))) (s\<lparr>ios := n1 + 1\<rparr>) =
        (s\<lparr>ios := n1 + 1, ios := n2\<rparr>, map f [unat off ..< unat off + len])"
      using less.hyps [of "d + c" "s\<lparr>ios := n1 + 1\<rparr>" "acc @ take c (drop ?bo (blk s ?b))"] P(1-3,6) cc True by auto
    then show ?thesis using step by auto
  qed
qed

subsection \<open>What is written is read back\<close>

text \<open>A mounted file system in order, on a disk that works, and a regular file in it.\<close>
definition good_file :: "catfs \<Rightarrow> int \<Rightarrow> bool" where
  "good_file s idx \<longleftrightarrow>
     catfs_wf s \<and> tree_ok s \<and> std_layout (sb s) \<and> io_good s \<and> mounted s \<and> 0 \<le> idx \<and> idx < int CATFS_INODE_MAX \<and>
     ci_type (cinodes s ! nat idx) = CATFS_TYPE_FILE"

lemma meta_only_upd:
  assumes "meta_only s t" "\<And>n. ci_blocks (f n) = ci_blocks n \<and> ci_indirect (f n) = ci_indirect n \<and> ci_dindirect (f n) = ci_dindirect n"
    "tree_ok s" "std_layout (sb s)" "meta_only (upd_cinode i f t) u"
  shows "tree_ok u" "j < CATFS_INODE_MAX \<Longrightarrow> fbyte u j p = fbyte s j p" "disk_full u = disk_full s"
proof -
  have b: "bitmap u = bitmap s" using assms(1,5) by (simp add: meta_only_def)
  have k: "blk u b = blk s b" if "unat b < CATFS_BLOCKS_MAX" for b
  proof -
    have "std_layout (sb (upd_cinode i f t))" using assms(1,4) by (simp add: meta_only_def)
    then show ?thesis using meta_only_same [OF assms(1,4) that] meta_only_same [OF assms(5) _ that] by simp
  qed
  have c: "ci_blocks (cinodes u ! j) = ci_blocks (cinodes s ! j) \<and> ci_indirect (cinodes u ! j) = ci_indirect (cinodes s ! j) \<and>
      ci_dindirect (cinodes u ! j) = ci_dindirect (cinodes s ! j)" for j
  proof -
    have "cinodes u = (cinodes s)[i := f (cinodes s ! i)]" using assms(1,5) by (simp add: meta_only_def upd_cinode_def)
    then show ?thesis using assms(2) by (cases "j = i \<and> i < length (cinodes s)") (auto simp: list_update_beyond)
  qed
  show "tree_ok u" by (rule same_files(1) [OF assms(3) b k c])
  show "j < CATFS_INODE_MAX \<Longrightarrow> fbyte u j p = fbyte s j p" by (rule same_files(2) [OF assms(3) b k c])
  show "disk_full u = disk_full s" by (simp add: disk_full_def bm_test_def b)
qed

text \<open>The state after a write: the bytes, the size of the file, and everything else.\<close>
lemma catfs_write_spec:
  assumes "good_file s idx" "buf \<noteq> []" "unat off + length buf \<le> CATFS_MAX_FILE_BLOCKS * 512" "catfs_write idx off buf s = (s', r)"
  shows "\<exists>n. r = int n \<and> n \<le> length buf \<and> (n = length buf \<or> disk_full s') \<and> good_file s' idx \<and>
    (\<forall>j p. j < CATFS_INODE_MAX \<longrightarrow> j \<noteq> nat idx \<longrightarrow> fbyte s' j p = fbyte s j p) \<and>
    (\<forall>p. unat off \<le> p \<and> p < unat off + n \<longrightarrow> fbyte s' (nat idx) p = Some (buf ! (p - unat off))) \<and>
    (\<forall>p. \<not> (unat off \<le> p \<and> p < unat off + n) \<longrightarrow> fbyte s (nat idx) p \<noteq> None \<longrightarrow> fbyte s' (nat idx) p = fbyte s (nat idx) p) \<and>
    (0 < n \<longrightarrow> unat (ci_size (cinodes s' ! nat idx)) = max (unat (ci_size (cinodes s ! nat idx))) (unat off + n))"
proof -
  let ?i = "nat idx"
  have g: "catfs_wf s" "tree_ok s" "std_layout (sb s)" "io_good s" "mounted s" "0 \<le> idx" "idx < int CATFS_INODE_MAX"
      "ci_type (cinodes s ! ?i) = CATFS_TYPE_FILE" using assms(1) by (simp_all add: good_file_def)
  have i: "?i < CATFS_INODE_MAX" "?i < length (cinodes s)" using g(6,7) inode_index [OF g(1)] by simp_all
  have bound: "unat off + length buf < 2 ^ 32" using assms(3) by (simp add: catfs_layout)
  obtain s1 n where wl: "write_loop ?i off buf 0 s = (s1, n)" by fastforce
  note ws = write_loop_spec [OF wl g(1,2,4) i(1) _ bound, simplified]
  have wf1: "wrote_file ?i (unat off) buf (unat off) (unat off + n) s s1" using ws by simp
  note D = wrote_fileD [OF wf1]
  have m1: "map strip (cinodes s1) = map strip (cinodes s)" "std_layout (sb s1)" "io_good s1" "mounted s1"
    using D(3) g(3-5) by (simp_all add: same_meta_def)
  have len1: "length (cinodes s1) = length (cinodes s)" using arg_cong [OF m1(1), of length] by simp
  have "map strip (cinodes s1) ! ?i = map strip (cinodes s) ! ?i" using m1(1) by simp
  then have n1: "ci_type (cinodes s1 ! ?i) = CATFS_TYPE_FILE" "ci_size (cinodes s1 ! ?i) = ci_size (cinodes s ! ?i)"
    using i len1 g(8) by (auto simp: strip_def dest: arg_cong [of _ _ ci_type] arg_cong [of _ _ ci_size])
  have full: "n = length buf \<or> disk_full s1" using ws assms(3) by auto
  have bytes: "fbyte s1 ?i p = Some (buf ! (p - unat off))" if "unat off \<le> p" "p < unat off + n" for p
    using wrote_file_inside [OF wf1 that] .
  have keep: "fbyte s1 ?i p = fbyte s ?i p" if "\<not> (unat off \<le> p \<and> p < unat off + n)" "fbyte s ?i p \<noteq> None" for p
    using wf1 that unfolding wrote_file_def by blast
  have unf: "catfs_write idx off buf s = (if n = 0 then (s1, 0) else
      (let fin = off + word_of_nat n;
           s2 = fst (journal_log CATFS_J_WRITE_META (word_of_nat ?i) (ci_size (cinodes s1 ! ?i)) fin s1);
           s3 = upd_cinode ?i (\<lambda>n. n\<lparr>ci_size := (if fin > ci_size n then fin else ci_size n), ci_mtime := catfs_now s2\<rparr>) s2
       in (fst (journal_commit (fst (sync_whole_bitmap (fst (sync_superblock (fst (sync_inode ?i s3))))))), int n)))"
    using g(5-8) wl by (simp add: catfs_write_def Let_def CATFS_TYPE_FILE_def CATFS_TYPE_FREE_def CATFS_TYPE_DIR_def)
  show ?thesis
  proof (cases "n = 0")
    case True
    then have e: "s' = s1" "r = int n" using unf assms(4) by simp_all
    have "good_file s1 idx" using D(1,2) m1(2-4) g(6,7) n1(1) by (simp add: good_file_def)
    then show ?thesis unfolding e using True ws full D(4) keep by (intro exI [of _ n]) auto
  next
    case False
    define fin where "fin = off + word_of_nat n"
    define s2 where "s2 = fst (journal_log CATFS_J_WRITE_META (word_of_nat ?i) (ci_size (cinodes s1 ! ?i)) fin s1)"
    define f where "f = (\<lambda>n :: catfs_inode. n\<lparr>ci_size := (if fin > ci_size n then fin else ci_size n), ci_mtime := catfs_now s2\<rparr>)"
    define s3 where "s3 = upd_cinode ?i f s2"
    have "(s', r) = (fst (journal_commit (fst (sync_whole_bitmap (fst (sync_superblock (fst (sync_inode ?i s3))))))), int n)"
      unfolding assms(4) [symmetric] unf Let_def s3_def f_def s2_def fin_def using False by (simp only: if_False)
    then have e: "s' = fst (journal_commit (fst (sync_whole_bitmap (fst (sync_superblock (fst (sync_inode ?i s3)))))))" "r = int n"
      by simp_all
    have mo2: "meta_only s1 s2" unfolding s2_def by (rule meta_only_log) simp
    have mo3: "meta_only s3 s'" unfolding e(1)
      by (intro meta_only_commit meta_only_sync_bitmap meta_only_sync_super meta_only_sync_inode meta_only_refl i(1))
    have f: "ci_blocks (f n) = ci_blocks n \<and> ci_indirect (f n) = ci_indirect n \<and> ci_dindirect (f n) = ci_dindirect n" for n by (simp add: f_def)
    note U = meta_only_upd [OF mo2 f D(1) m1(2) mo3 [unfolded s3_def]]
    have wf': "catfs_wf s'" using wf_catfs_write assms(4) g(1) by blast
    have ci: "cinodes s' ! ?i = f (cinodes s1 ! ?i)"
      using mo2 mo3 i(2) len1 by (simp add: meta_only_def s3_def upd_cinode_def)
    have fin: "unat fin = unat off + n" using bound ws by (simp add: fin_def unat_word_ariths unat_of_nat)
    have "good_file s' idx"
      using wf' U(1) mo2 mo3 m1(2-4) g(6,7) n1(1) ci
      by (simp add: good_file_def meta_only_def s3_def io_good_def drive_present_def) (simp add: f_def)
    moreover have "unat (ci_size (cinodes s' ! ?i)) = max (unat (ci_size (cinodes s ! ?i))) (unat off + n)"
      using fin n1(2) by (simp add: ci f_def word_less_nat_alt)
    ultimately show ?thesis using e(2) ws full D(4) keep bytes U(2,3) i(1) by (intro exI [of _ n]) auto
  qed
qed

text \<open>C5.
  On a working disk, a write to a file that stays below the greatest file size is complete or ends because every block is in use; reading
  the same range returns the bytes written, every other byte of the file that had a block and every byte of every other file are unchanged,
  the size becomes the larger of the old size and the end of the write, and the invariant that no block has two owners is kept.\<close>
theorem catfs_write_read:
  assumes "good_file s idx" "buf \<noteq> []" "unat off + length buf \<le> CATFS_MAX_FILE_BLOCKS * 512" "catfs_write idx off buf s = (s', r)"
  shows "(r = int (length buf) \<or> disk_full s') \<and> good_file s' idx \<and>
    (\<forall>j p. j < CATFS_INODE_MAX \<and> j \<noteq> nat idx \<longrightarrow> fbyte s' j p = fbyte s j p) \<and>
    (\<forall>p. fbyte s (nat idx) p \<noteq> None \<and> (p < unat off \<or> unat off + nat r \<le> p) \<longrightarrow> fbyte s' (nat idx) p = fbyte s (nat idx) p) \<and>
    (0 < r \<longrightarrow> unat (ci_size (cinodes s' ! nat idx)) = max (unat (ci_size (cinodes s ! nat idx))) (unat off + nat r) \<and>
       snd (catfs_read idx off (word_of_int r) s') = (r, take (nat r) buf))"
proof -
  obtain n where n: "r = int n" "n \<le> length buf" "n = length buf \<or> disk_full s'" "good_file s' idx"
      "\<forall>j p. j < CATFS_INODE_MAX \<longrightarrow> j \<noteq> nat idx \<longrightarrow> fbyte s' j p = fbyte s j p"
      "\<forall>p. unat off \<le> p \<and> p < unat off + n \<longrightarrow> fbyte s' (nat idx) p = Some (buf ! (p - unat off))"
      "\<forall>p. \<not> (unat off \<le> p \<and> p < unat off + n) \<longrightarrow> fbyte s (nat idx) p \<noteq> None \<longrightarrow> fbyte s' (nat idx) p = fbyte s (nat idx) p"
      "0 < n \<longrightarrow> unat (ci_size (cinodes s' ! nat idx)) = max (unat (ci_size (cinodes s ! nat idx))) (unat off + n)"
    using catfs_write_spec [OF assms] by blast
  have g: "catfs_wf s'" "io_good s'" "mounted s'" "0 \<le> idx" "idx < int CATFS_INODE_MAX" "ci_type (cinodes s' ! nat idx) = CATFS_TYPE_FILE"
    using n(4) by (simp_all add: good_file_def)
  have b: "unat off + n < 2 ^ 32" "unat off + n \<le> CATFS_MAX_FILE_BLOCKS * 512" using n(2) assms(3) by (simp_all add: catfs_layout)
  have w: "unat (word_of_nat n :: u32) = n" "unat (off + word_of_nat n) = unat off + n" using b(1) by (simp_all add: unat_word_ariths unat_of_nat)
  have "snd (catfs_read idx off (word_of_int r) s') = (r, take (nat r) buf)" if "0 < n"
  proof -
    have sz: "\<not> off \<ge> ci_size (cinodes s' ! nat idx)" "\<not> off + word_of_nat n > ci_size (cinodes s' ! nat idx)"
      using n(8) that w by (simp_all add: word_le_nat_alt word_less_nat_alt)
    obtain k where "read_loop (nat idx) off n 0 [] s' = (s'\<lparr>ios := k\<rparr>, map (\<lambda>p. buf ! (p - unat off)) [unat off ..< unat off + n])"
      using read_loop_spec [OF g(2,1) b(2), of 0 "[]" "\<lambda>p. buf ! (p - unat off)" "nat idx"] n(6) by auto
    moreover have "map (\<lambda>p. buf ! (p - unat off)) [unat off ..< unat off + n] = take n buf"
      using n(2) by (intro nth_equalityI) auto
    ultimately show ?thesis using g(3-6) sz n(1,2) w
      by (simp add: catfs_read_def CATFS_TYPE_FILE_def CATFS_TYPE_FREE_def)
  qed
  moreover have "fbyte s' (nat idx) p = fbyte s (nat idx) p" if "fbyte s (nat idx) p \<noteq> None" "p < unat off \<or> unat off + nat r \<le> p" for p
    using n(7) that n(1) by (metis leD nat_int)
  ultimately show ?thesis using n(1,3-5,8) by simp
qed

text \<open>A fresh volume with one empty file.\<close>
definition demo_file :: catfs where
  "demo_file = catfs_boot (\<lambda>_ _. zero_sector) [True, False, False, False] (\<lambda>_. True)
     \<lparr>cinodes := (replicate CATFS_INODE_MAX zero_cinode)[1 := zero_cinode\<lparr>ci_type := CATFS_TYPE_FILE\<rparr>],
      bitmap := (replicate (CATFS_BLOCKS_MAX div 8) 0)[0 := 1], sb := fresh_super ''koala'', mounted := True\<rparr>"

lemma demo_file_good: "good_file demo_file 1"
proof -
  let ?i = "zero_cinode\<lparr>ci_type := CATFS_TYPE_FILE\<rparr>"
  have b: "catfs_wf (catfs_boot (\<lambda>_ _. zero_sector) [True, False, False, False] (\<lambda>_. True))"
    by (rule catfs_boot_wf) (simp add: SECTOR_SIZE_def)
  have "inode_wf ?i" by (simp add: inode_wf_def zero_cinode_def catfs_layout)
  then have w: "catfs_wf demo_file" using b
    by (auto simp: demo_file_def catfs_wf_def tables_wf_def super_wf_def fresh_super_def zero_super_def
        dest!: set_update_subset_insert [THEN subsetD])
  have c: "j < CATFS_INODE_MAX \<Longrightarrow> cinodes demo_file ! j = (if j = 1 then ?i else zero_cinode)" for j
    by (simp add: demo_file_def nth_list_update)
  have "sv demo_file j x = 0" if "j < CATFS_INODE_MAX" for j x
    by (cases x) (auto simp: sv_def c [OF that] zero_cinode_def CATFS_DIRECT_BLOCKS_def Let_def)
  moreover have "bm_test demo_file 0" by (simp add: demo_file_def bm_test_def CATFS_BLOCKS_MAX_def)
  ultimately have t: "tree_ok demo_file" unfolding tree_ok_def by blast
  have "std_layout (sb demo_file)" "io_good demo_file" "mounted demo_file"
    by (simp_all add: demo_file_def std_layout_def fresh_super_def io_good_def drive_present_def catfs_boot_def DISK_MAX_DRIVES_def)
  then show ?thesis using w t c [of 1] by (simp add: good_file_def CATFS_INODE_MAX_def)
qed

theorem catfs_write_read_witness:
  "good_file (fst (catfs_write 1 10 [104, 105] demo_file)) 1 \<and>
   (snd (catfs_write 1 10 [104, 105] demo_file) = 2 \<or> disk_full (fst (catfs_write 1 10 [104, 105] demo_file))) \<and>
   fbyte (fst (catfs_write 1 10 [104, 105] demo_file)) 0 7 = fbyte demo_file 0 7"
  using catfs_write_read [OF demo_file_good, of "[104, 105]" 10, OF _ _ prod.collapse [symmetric]] by (simp add: catfs_layout)

end
