(* ===== verification/Util.thy ===== *)
theory Util
  imports CMem
begin

unbundle bit_operations_syntax

section \<open>The kernel's C library: \<open>src/src/util.c\<close>, \<open>src/src/util.h\<close>\<close>

text \<open>
  Strings and buffers are addresses in byte memory (\<open>CMem\<close>), so that overlapping arguments behave as in the code.  A loop that runs
  until it finds a terminator is a \<open>partial_function\<close>: \<open>None\<close> when there is none.  Functions that return their first argument
  return the new memory instead.  Variadic arguments are the 64-bit slots that \<open>va_arg\<close> reads.  Signed arithmetic that overflows
  wraps, as the compiled code does.
\<close>

subsection \<open>Characters\<close>

definition kis_alpha :: "int \<Rightarrow> bool" where "kis_alpha c \<longleftrightarrow> 97 \<le> c \<and> c \<le> 122 \<or> 65 \<le> c \<and> c \<le> 90"
definition kis_digit :: "int \<Rightarrow> bool" where "kis_digit c \<longleftrightarrow> 48 \<le> c \<and> c \<le> 57"
definition kis_alnum :: "int \<Rightarrow> bool" where "kis_alnum c \<longleftrightarrow> kis_alpha c \<or> kis_digit c"
definition kis_space :: "int \<Rightarrow> bool" where "kis_space c \<longleftrightarrow> c = 32 \<or> c = 9 \<or> c = 10 \<or> c = 13"
definition kis_upper :: "int \<Rightarrow> bool" where "kis_upper c \<longleftrightarrow> 65 \<le> c \<and> c \<le> 90"
definition kis_lower :: "int \<Rightarrow> bool" where "kis_lower c \<longleftrightarrow> 97 \<le> c \<and> c \<le> 122"
definition kto_upper :: "int \<Rightarrow> int" where "kto_upper c = (if kis_lower c then c - 32 else c)"
definition kto_lower :: "int \<Rightarrow> int" where "kto_lower c = (if kis_upper c then c + 32 else c)"
definition kis_print :: "int \<Rightarrow> bool" where "kis_print c \<longleftrightarrow> 32 \<le> c \<and> c < 127"
definition kis_hex :: "int \<Rightarrow> bool" where "kis_hex c \<longleftrightarrow> kis_digit c \<or> 97 \<le> c \<and> c \<le> 102 \<or> 65 \<le> c \<and> c \<le> 70"

text \<open>The bytes that the code names by character literals; \<open>char\<close> is signed.\<close>
definition ch :: "char \<Rightarrow> u8" where "ch c = word_of_nat (of_char c)"

abbreviation schar :: "u8 \<Rightarrow> int" where "schar b \<equiv> sint b"

definition signed32 :: "int \<Rightarrow> int" where "signed32 x = sint (word_of_int x :: u32)"

subsection \<open>Strings\<close>

partial_function (option) strlen_loop :: "mem \<Rightarrow> nat \<Rightarrow> nat \<Rightarrow> nat option" where
  "strlen_loop m s n = (if m (s + n) \<noteq> 0 then strlen_loop m s (n + 1) else Some n)"

definition kstrlen :: "mem \<Rightarrow> nat \<Rightarrow> nat option" where
  "kstrlen m s = strlen_loop m s 0"

partial_function (option) kstrcmp :: "mem \<Rightarrow> nat \<Rightarrow> nat \<Rightarrow> int option" where
  "kstrcmp m a b =
     (if m a \<noteq> 0 \<and> m a = m b then kstrcmp m (a + 1) (b + 1) else Some (uint (m a) - uint (m b)))"

function strncmp_loop :: "mem \<Rightarrow> nat \<Rightarrow> nat \<Rightarrow> nat \<Rightarrow> nat \<Rightarrow> int" where
  "strncmp_loop m a b n i =
     (if i < n then
        (let d = uint (m (a + i)) - uint (m (b + i)) in if d \<noteq> 0 \<or> m (a + i) = 0 then d else strncmp_loop m a b n (i + 1))
      else 0)"
  by pat_completeness auto
termination
  by (relation "measure (\<lambda>(m, a, b, n, i). n - i)") auto

declare strncmp_loop.simps [simp del]

definition kstrncmp :: "mem \<Rightarrow> nat \<Rightarrow> nat \<Rightarrow> nat \<Rightarrow> int" where
  "kstrncmp m a b n = strncmp_loop m a b n 0"

partial_function (option) kstrcpy :: "mem \<Rightarrow> nat \<Rightarrow> nat \<Rightarrow> mem option" where
  "kstrcpy m dst src =
     (let m' = m(dst := m src) in if m src \<noteq> 0 then kstrcpy m' (dst + 1) (src + 1) else Some m')"

function strncpy_copy :: "mem \<Rightarrow> nat \<Rightarrow> nat \<Rightarrow> nat \<Rightarrow> nat \<Rightarrow> mem \<times> nat" where
  "strncpy_copy m dst src n i =
     (if i < n \<and> m (src + i) \<noteq> 0 then strncpy_copy (m(dst + i := m (src + i))) dst src n (i + 1) else (m, i))"
  by pat_completeness auto
termination
  by (relation "measure (\<lambda>(m, dst, src, n, i). n - i)") auto

declare strncpy_copy.simps [simp del]

fun kmemset :: "mem \<Rightarrow> nat \<Rightarrow> int \<Rightarrow> nat \<Rightarrow> mem" where
  "kmemset m p val 0 = m"
| "kmemset m p val (Suc len) = kmemset (m(p := word_of_int val)) (p + 1) val len"

definition kstrncpy :: "mem \<Rightarrow> nat \<Rightarrow> nat \<Rightarrow> nat \<Rightarrow> mem" where
  "kstrncpy m dst src n = (let (m', i) = strncpy_copy m dst src n 0 in kmemset m' (dst + i) 0 (n - i))"

partial_function (option) str_end :: "mem \<Rightarrow> nat \<Rightarrow> nat option" where
  "str_end m dst = (if m dst \<noteq> 0 then str_end m (dst + 1) else Some dst)"

definition kstrcat :: "mem \<Rightarrow> nat \<Rightarrow> nat \<Rightarrow> mem option" where
  "kstrcat m dst src = (case str_end m dst of None \<Rightarrow> None | Some e \<Rightarrow> kstrcpy m e src)"

function strncat_copy :: "mem \<Rightarrow> nat \<Rightarrow> nat \<Rightarrow> nat \<Rightarrow> nat \<Rightarrow> mem" where
  "strncat_copy m dst src n i =
     (if i < n \<and> m (src + i) \<noteq> 0 then strncat_copy (m(dst := m (src + i))) (dst + 1) src n (i + 1) else m(dst := 0))"
  by pat_completeness auto
termination
  by (relation "measure (\<lambda>(m, dst, src, n, i). n - i)") auto

declare strncat_copy.simps [simp del]

definition kstrncat :: "mem \<Rightarrow> nat \<Rightarrow> nat \<Rightarrow> nat \<Rightarrow> mem option" where
  "kstrncat m dst src n = (case str_end m dst of None \<Rightarrow> None | Some e \<Rightarrow> Some (strncat_copy m e src n 0))"

text \<open>\<open>0\<close> is the null pointer.\<close>
partial_function (option) kstrchr :: "mem \<Rightarrow> nat \<Rightarrow> int \<Rightarrow> nat option" where
  "kstrchr m s c =
     (if m s \<noteq> 0 then if m s = word_of_int c then Some s else kstrchr m (s + 1) c
      else Some (if c = 0 then s else 0))"

partial_function (option) strrchr_loop :: "mem \<Rightarrow> nat \<Rightarrow> int \<Rightarrow> nat \<Rightarrow> nat option" where
  "strrchr_loop m s c found =
     (let found' = (if m s = word_of_int c then s else found) in if m s \<noteq> 0 then strrchr_loop m (s + 1) c found' else Some found')"

definition kstrrchr :: "mem \<Rightarrow> nat \<Rightarrow> int \<Rightarrow> nat option" where
  "kstrrchr m s c = strrchr_loop m s c 0"

partial_function (option) strstr_loop :: "mem \<Rightarrow> nat \<Rightarrow> nat \<Rightarrow> nat \<Rightarrow> nat option" where
  "strstr_loop m hay needle nl =
     (if m hay \<noteq> 0 then if kstrncmp m hay needle nl = 0 then Some hay else strstr_loop m (hay + 1) needle nl else Some 0)"

definition kstrstr :: "mem \<Rightarrow> nat \<Rightarrow> nat \<Rightarrow> nat option" where
  "kstrstr m hay needle =
     (case kstrlen m needle of None \<Rightarrow> None | Some nl \<Rightarrow> if nl = 0 then Some hay else strstr_loop m hay needle nl)"

partial_function (option) skip_space :: "mem \<Rightarrow> nat \<Rightarrow> nat option" where
  "skip_space m s = (if kis_space (schar (m s)) then skip_space m (s + 1) else Some s)"

text \<open>\<open>while (kis_digit(*s)) n = n*10 + (*s++ - '0')\<close>: the number read and where reading stopped.\<close>
partial_function (option) read_decimal :: "mem \<Rightarrow> nat \<Rightarrow> int \<Rightarrow> (nat \<times> int) option" where
  "read_decimal m s n =
     (if kis_digit (schar (m s)) then read_decimal m (s + 1) (signed32 (n * 10 + (schar (m s) - 48))) else Some (s, n))"

definition kstrtoi :: "mem \<Rightarrow> nat \<Rightarrow> int option" where
  "kstrtoi m s =
     (case skip_space m s of
        None \<Rightarrow> None
      | Some s1 \<Rightarrow>
          (let neg = (m s1 = ch CHR ''-''); s2 = (if neg \<or> m s1 = ch CHR ''+'' then s1 + 1 else s1)
           in case read_decimal m s2 0 of None \<Rightarrow> None | Some (_, n) \<Rightarrow> Some (if neg then signed32 (- n) else n)))"

definition digs :: "u8 list" where
  "digs = bytes_of ''0123456789abcdef''"

text \<open>The offset of a character in the literal; the character is never the terminator.\<close>
definition digit_index :: "u8 \<Rightarrow> nat option" where
  "digit_index c = first_idx (\<lambda>i. digs ! i = c) 0 (length digs)"

partial_function (option) strtou_loop :: "mem \<Rightarrow> nat \<Rightarrow> int \<Rightarrow> u32 \<Rightarrow> u32 option" where
  "strtou_loop m s base n =
     (if m s \<noteq> 0 then
        (case digit_index (word_of_int (kto_lower (schar (m s)))) of
           None \<Rightarrow> Some n
         | Some d \<Rightarrow> if int d \<ge> base then Some n else strtou_loop m (s + 1) base (n * word_of_int base + word_of_nat d))
      else Some n)"

definition kstrtou :: "mem \<Rightarrow> nat \<Rightarrow> int \<Rightarrow> u32 option" where
  "kstrtou m s base =
     (case skip_space m s of
        None \<Rightarrow> None
      | Some s1 \<Rightarrow>
          (let s2 = (if base = 16 \<and> m s1 = ch CHR ''0'' \<and> (m (s1 + 1) = ch CHR ''x'' \<or> m (s1 + 1) = ch CHR ''X'') then s1 + 2 else s1)
           in strtou_loop m s2 base 0))"

subsection \<open>Memory\<close>

fun kmemcpy :: "mem \<Rightarrow> nat \<Rightarrow> nat \<Rightarrow> nat \<Rightarrow> mem" where
  "kmemcpy m d s 0 = m"
| "kmemcpy m d s (Suc n) = kmemcpy (m(d := m s)) (d + 1) (s + 1) n"

text \<open>\<open>d += n; s += n; while (n--) *--d = *--s\<close>.\<close>
fun copy_down :: "mem \<Rightarrow> nat \<Rightarrow> nat \<Rightarrow> nat \<Rightarrow> mem" where
  "copy_down m d s 0 = m"
| "copy_down m d s (Suc n) = copy_down (m(d + n := m (s + n))) d s n"

definition kmemmove :: "mem \<Rightarrow> nat \<Rightarrow> nat \<Rightarrow> nat \<Rightarrow> mem" where
  "kmemmove m d s n = (if d < s then kmemcpy m d s n else copy_down m d s n)"

fun kmemcmp :: "mem \<Rightarrow> nat \<Rightarrow> nat \<Rightarrow> nat \<Rightarrow> int" where
  "kmemcmp m p q 0 = 0"
| "kmemcmp m p q (Suc n) = (if m p \<noteq> m q then uint (m p) - uint (m q) else kmemcmp m (p + 1) (q + 1) n)"

text \<open>The copies for the linker: \<open>memcpy\<close> and \<open>memset\<close> are aliases, \<open>memmove\<close> and \<open>memcmp\<close> index from the start.\<close>
function memmove_up :: "mem \<Rightarrow> nat \<Rightarrow> nat \<Rightarrow> nat \<Rightarrow> nat \<Rightarrow> mem" where
  "memmove_up m d s n i = (if i < n then memmove_up (m(d + i := m (s + i))) d s n (i + 1) else m)"
  by pat_completeness auto
termination
  by (relation "measure (\<lambda>(m, d, s, n, i). n - i)") auto

declare memmove_up.simps [simp del]

definition memmove :: "mem \<Rightarrow> nat \<Rightarrow> nat \<Rightarrow> nat \<Rightarrow> mem" where
  "memmove m d s n = (if d < s then memmove_up m d s n 0 else copy_down m d s n)"

function memcmp_loop :: "mem \<Rightarrow> nat \<Rightarrow> nat \<Rightarrow> nat \<Rightarrow> nat \<Rightarrow> int" where
  "memcmp_loop m a b n i =
     (if i < n then if m (a + i) \<noteq> m (b + i) then uint (m (a + i)) - uint (m (b + i)) else memcmp_loop m a b n (i + 1) else 0)"
  by pat_completeness auto
termination
  by (relation "measure (\<lambda>(m, a, b, n, i). n - i)") auto

declare memcmp_loop.simps [simp del]

definition memcmp :: "mem \<Rightarrow> nat \<Rightarrow> nat \<Rightarrow> nat \<Rightarrow> int" where
  "memcmp m a b n = memcmp_loop m a b n 0"

subsection \<open>Numbers as text\<close>

text \<open>The buffer \<open>tmp\<close>: digits, the least significant first.  The callers make sure that the base is at least two.\<close>
function tmp_digits :: "nat \<Rightarrow> nat \<Rightarrow> u8 list" where
  "tmp_digits base n = (if n > 0 \<and> base \<ge> 2 then digs ! (n mod base) # tmp_digits base (n div base) else [])"
  by pat_completeness auto
termination
  by (relation "measure snd") auto

declare tmp_digits.simps [simp del]

definition itoa :: "int \<Rightarrow> int \<Rightarrow> u8 list" where
  "itoa n base =
     (if base < 2 \<or> base > 16 \<or> n = 0 then [ch CHR ''0'']
      else
        (let neg = (base = 10 \<and> n < 0); un = unat (word_of_int (if neg then - n else n) :: u32)
         in rev (tmp_digits (nat base) un @ (if neg then [ch CHR ''-''] else []))))"

definition uitoa :: "nat \<Rightarrow> int \<Rightarrow> u8 list" where
  "uitoa n base = (if base < 2 \<or> base > 16 \<or> n = 0 then [ch CHR ''0''] else rev (tmp_digits (nat base) n))"

fun poke :: "mem \<Rightarrow> nat \<Rightarrow> u8 list \<Rightarrow> mem" where
  "poke m a [] = m"
| "poke m a (b # bs) = poke (m(a := b)) (a + 1) bs"

definition kitoa :: "mem \<Rightarrow> int \<Rightarrow> nat \<Rightarrow> int \<Rightarrow> mem" where
  "kitoa m n buf base = poke m buf (itoa n base @ [0])"

definition kuitoa :: "mem \<Rightarrow> u32 \<Rightarrow> nat \<Rightarrow> int \<Rightarrow> mem" where
  "kuitoa m n buf base = poke m buf (uitoa (unat n) base @ [0])"

definition ku64toa :: "mem \<Rightarrow> u64 \<Rightarrow> nat \<Rightarrow> int \<Rightarrow> mem" where
  "ku64toa m n buf base = poke m buf (uitoa (unat n) base @ [0])"

subsection \<open>Formatted output\<close>

definition PUT :: "nat \<Rightarrow> nat \<Rightarrow> u8 \<Rightarrow> mem \<times> nat \<Rightarrow> mem \<times> nat" where
  "PUT buf sz c = (\<lambda>(m, pos). if pos + 1 < sz then (m(buf + pos := c), pos + 1) else (m, pos))"

text \<open>After a percent sign: the zero flag and the width; the result is the address of the conversion character.\<close>
definition spec_at :: "mem \<Rightarrow> nat \<Rightarrow> (nat \<times> bool \<times> int) option" where
  "spec_at m fmt =
     (let zero_pad = (m fmt = ch CHR ''0'')
      in case read_decimal m (if zero_pad then fmt + 1 else fmt) 0 of
           None \<Rightarrow> None
         | Some (f, width) \<Rightarrow> Some (f, zero_pad, width))"

definition padded :: "bool \<Rightarrow> int \<Rightarrow> u8 list \<Rightarrow> u8 list" where
  "padded zero_pad width nb = replicate (nat (width - int (length nb))) (if zero_pad then ch CHR ''0'' else ch CHR '' '') @ nb"

text \<open>What the conversions that take a number print; \<open>None\<close> for the other characters.\<close>
definition conv_number :: "u8 \<Rightarrow> bool \<Rightarrow> int \<Rightarrow> u64 \<Rightarrow> u8 list option" where
  "conv_number k zero_pad width v =
     (let n = (ucast v :: u32) in
      if k = ch CHR ''d'' then Some (padded zero_pad width (itoa (sint n) 10))
      else if k = ch CHR ''u'' then Some (padded zero_pad width (uitoa (unat n) 10))
      else if k = ch CHR ''x'' then Some (padded zero_pad width (uitoa (unat n) 16))
      else if k = ch CHR ''X'' then Some (padded zero_pad width (map (\<lambda>b. word_of_int (kto_upper (schar b))) (uitoa (unat n) 16)))
      else if k = ch CHR ''p'' then Some (bytes_of ''0x'' @ uitoa (unat n) 16)
      else if k = ch CHR ''c'' then Some [ucast v]
      else None)"

text \<open>\<open>while (*s) PUT(*s++)\<close>: the string may be in the buffer that is being written.\<close>
partial_function (option) put_string :: "nat \<Rightarrow> nat \<Rightarrow> nat \<Rightarrow> mem \<times> nat \<Rightarrow> (mem \<times> nat) option" where
  "put_string buf sz s wr =
     (if fst wr s \<noteq> 0 then put_string buf sz (s + 1) (PUT buf sz (fst wr s) wr) else Some wr)"

definition vsn_conv :: "nat \<Rightarrow> nat \<Rightarrow> u8 \<Rightarrow> bool \<Rightarrow> int \<Rightarrow> u64 list \<Rightarrow> mem \<times> nat \<Rightarrow> (u64 list \<times> mem \<times> nat) option" where
  "vsn_conv buf sz k zero_pad width ap wr =
     (if k = ch CHR ''%'' then Some (ap, PUT buf sz k wr)
      else if k = ch CHR ''s'' then
        (case ap of
           [] \<Rightarrow> None
         | v # ap' \<Rightarrow>
             (case (if v = 0 then Some (fold (PUT buf sz) (bytes_of ''(null)'') wr) else put_string buf sz (unat v) wr) of
                None \<Rightarrow> None
              | Some wr' \<Rightarrow> Some (ap', wr')))
      else case conv_number k zero_pad width 0 of
             None \<Rightarrow> Some (ap, wr)
           | Some _ \<Rightarrow>
               (case ap of
                  [] \<Rightarrow> None
                | v # ap' \<Rightarrow> Some (ap', fold (PUT buf sz) (the (conv_number k zero_pad width v)) wr)))"

partial_function (option) vsn_loop :: "nat \<Rightarrow> nat \<Rightarrow> nat \<Rightarrow> u64 list \<Rightarrow> mem \<times> nat \<Rightarrow> (mem \<times> nat) option" where
  "vsn_loop buf sz fmt ap wr =
     (if fst wr fmt \<noteq> 0 \<and> snd wr + 1 < sz then
        if fst wr fmt \<noteq> ch CHR ''%'' then vsn_loop buf sz (fmt + 1) ap (PUT buf sz (fst wr fmt) wr)
        else (case spec_at (fst wr) (fmt + 1) of
                None \<Rightarrow> None
              | Some (f, zero_pad, width) \<Rightarrow>
                  (case vsn_conv buf sz (fst wr f) zero_pad width ap wr of
                     None \<Rightarrow> None
                   | Some (ap', wr') \<Rightarrow> vsn_loop buf sz (f + 1) ap' wr'))
      else Some wr)"

definition kvsnprintf :: "mem \<Rightarrow> nat \<Rightarrow> nat \<Rightarrow> nat \<Rightarrow> u64 list \<Rightarrow> (mem \<times> nat) option" where
  "kvsnprintf m buf sz fmt ap =
     (if buf = 0 \<or> sz = 0 \<or> fmt = 0 then Some (m, 0)
      else case vsn_loop buf sz fmt ap (m, 0) of None \<Rightarrow> None | Some (m', pos) \<Rightarrow> Some (m'(buf + pos := 0), pos))"

definition ksnprintf :: "mem \<Rightarrow> nat \<Rightarrow> nat \<Rightarrow> nat \<Rightarrow> u64 list \<Rightarrow> (mem \<times> nat) option" where
  "ksnprintf m buf sz fmt ap = kvsnprintf m buf sz fmt ap"

subsection \<open>The kernel log\<close>

definition ATM_KERNEL_LOG_MAX :: nat where "ATM_KERNEL_LOG_MAX = 128"
definition ATM_KERNEL_LOG_TEXT_MAX :: nat where "ATM_KERNEL_LOG_TEXT_MAX = 160"

record log_entry =
  sequence :: u32
  text_of :: "u8 list"

record klog =
  g_kernel_logs :: "log_entry list"
  g_kernel_log_head :: nat
  g_kernel_log_count :: nat
  g_kernel_log_sequence :: u32

function log_copy :: "mem \<Rightarrow> nat \<Rightarrow> nat \<Rightarrow> u8 list \<Rightarrow> u8 list \<times> nat" where
  "log_copy m msg n arr =
     (if m (msg + n) \<noteq> 0 \<and> n + 1 < ATM_KERNEL_LOG_TEXT_MAX then log_copy m msg (n + 1) (arr[n := m (msg + n)]) else (arr, n))"
  by pat_completeness auto
termination
  by (relation "measure (\<lambda>(m, msg, n, arr). ATM_KERNEL_LOG_TEXT_MAX - n)") auto

declare log_copy.simps [simp del]

fun log_trim :: "u8 list \<Rightarrow> nat \<Rightarrow> nat" where
  "log_trim arr 0 = 0"
| "log_trim arr (Suc n) = (if arr ! n = 10 \<or> arr ! n = 13 then log_trim arr n else Suc n)"

text \<open>Head and count stay below \<open>2\<^sup>32\<close>.\<close>
definition kernel_log_append :: "mem \<Rightarrow> nat \<Rightarrow> klog \<Rightarrow> klog" where
  "kernel_log_append m msg k =
     (if msg = 0 then k
      else
        (let h = g_kernel_log_head k;
             (arr, n) = log_copy m msg 0 (text_of (g_kernel_logs k ! h));
             q = g_kernel_log_sequence k + 1
         in \<lparr>g_kernel_logs = (g_kernel_logs k)[h := \<lparr>sequence = q, text_of = arr[log_trim arr n := 0]\<rparr>],
             g_kernel_log_head = (h + 1) mod ATM_KERNEL_LOG_MAX,
             g_kernel_log_count = (if g_kernel_log_count k < ATM_KERNEL_LOG_MAX then g_kernel_log_count k + 1 else g_kernel_log_count k),
             g_kernel_log_sequence = q\<rparr>))"

definition kernel_log_count :: "klog \<Rightarrow> int" where
  "kernel_log_count k = int (g_kernel_log_count k)"

definition kernel_log_at :: "klog \<Rightarrow> int \<Rightarrow> log_entry option" where
  "kernel_log_at k index =
     (if index < 0 \<or> index \<ge> int (g_kernel_log_count k) then None
      else Some (g_kernel_logs k ! ((g_kernel_log_head k + ATM_KERNEL_LOG_MAX - g_kernel_log_count k + nat index) mod ATM_KERNEL_LOG_MAX)))"

subsection \<open>Printing to the terminal\<close>

text \<open>What reaches the terminal is the list of its bytes.\<close>
partial_function (option) terminal_write :: "mem \<Rightarrow> nat \<Rightarrow> u8 list \<Rightarrow> u8 list option" where
  "terminal_write m s out = (if m s \<noteq> 0 then terminal_write m (s + 1) (out @ [m s]) else Some out)"

definition print_conv :: "mem \<Rightarrow> u8 \<Rightarrow> bool \<Rightarrow> int \<Rightarrow> u64 list \<Rightarrow> u8 list \<Rightarrow> (u64 list \<times> u8 list) option" where
  "print_conv m k zero_pad width ap out =
     (if k = ch CHR ''%'' then Some (ap, out @ [k])
      else if k = ch CHR ''s'' then
        (case ap of
           [] \<Rightarrow> None
         | v # ap' \<Rightarrow>
             (case (if v = 0 then Some (out @ bytes_of ''(null)'') else terminal_write m (unat v) out) of
                None \<Rightarrow> None
              | Some out' \<Rightarrow> Some (ap', out')))
      else if k = ch CHR ''X'' then Some (ap, out)
      else case conv_number k zero_pad width 0 of
             None \<Rightarrow> Some (ap, out)
           | Some _ \<Rightarrow> (case ap of [] \<Rightarrow> None | v # ap' \<Rightarrow> Some (ap', out @ the (conv_number k zero_pad width v))))"

partial_function (option) print_loop :: "mem \<Rightarrow> nat \<Rightarrow> u64 list \<Rightarrow> u8 list \<Rightarrow> u8 list option" where
  "print_loop m fmt ap out =
     (if m fmt \<noteq> 0 then
        if m fmt \<noteq> ch CHR ''%'' then print_loop m (fmt + 1) ap (out @ [m fmt])
        else (case spec_at m (fmt + 1) of
                None \<Rightarrow> None
              | Some (f, zero_pad, width) \<Rightarrow>
                  (case print_conv m (m f) zero_pad width ap out of
                     None \<Rightarrow> None
                   | Some (ap', out') \<Rightarrow> print_loop m (f + 1) ap' out'))
      else Some out)"

text \<open>\<open>logline\<close> is the address of the local array of that name.\<close>
definition kprintf :: "nat \<Rightarrow> mem \<Rightarrow> nat \<Rightarrow> u64 list \<Rightarrow> klog \<Rightarrow> (mem \<times> klog \<times> u8 list) option" where
  "kprintf logline m fmt ap k =
     (case kvsnprintf m logline ATM_KERNEL_LOG_TEXT_MAX fmt ap of
        None \<Rightarrow> None
      | Some (m', _) \<Rightarrow>
          (case print_loop m' fmt ap [] of None \<Rightarrow> None | Some out \<Rightarrow> Some (m', kernel_log_append m' logline k, out)))"

subsection \<open>Copying between overlapping regions\<close>

text \<open>Memory after \<open>n\<close> bytes from \<open>s\<close> have been moved to \<open>d\<close>, as if through a third buffer.\<close>
definition moved :: "mem \<Rightarrow> nat \<Rightarrow> nat \<Rightarrow> nat \<Rightarrow> mem" where
  "moved m d s n = (\<lambda>a. if d \<le> a \<and> a < d + n then m (s + (a - d)) else m a)"

lemma moved_0 [simp]: "moved m d s 0 = m"
  by (auto simp: moved_def fun_eq_iff)

lemma moved_step:
  assumes "d \<le> s \<or> s + n < d"
  shows "moved (m(d := m s)) (d + 1) (s + 1) n = moved m d s (Suc n)"
proof
  fix a
  have "s + 1 + (a - (d + 1)) = s + (a - d)" if "d < a" using that by simp
  then show "moved (m(d := m s)) (d + 1) (s + 1) n a = moved m d s (Suc n) a"
    using assms by (cases "d < a") (auto simp: moved_def)
qed

lemma kmemcpy_moved: "d \<le> s \<or> s + n \<le> d \<Longrightarrow> kmemcpy m d s n = moved m d s n"
proof (induction n arbitrary: m d s)
  case (Suc n)
  then have "kmemcpy (m(d := m s)) (d + 1) (s + 1) n = moved (m(d := m s)) (d + 1) (s + 1) n"
    by (intro Suc.IH) auto
  then show ?case using moved_step [of d s n m] Suc.prems by auto
qed simp

lemma copy_down_moved: "s \<le> d \<Longrightarrow> copy_down m d s n = moved m d s n"
proof (induction n arbitrary: m)
  case (Suc n)
  have "moved (m(d + n := m (s + n))) d s n = moved m d s (Suc n)"
    using Suc.prems by (auto simp: moved_def fun_eq_iff)
  then show ?case using Suc by simp
qed simp

lemma memmove_up_moved: "i \<le> n \<Longrightarrow> d \<le> s \<Longrightarrow> memmove_up m d s n i = moved m (d + i) (s + i) (n - i)"
proof (induction m d s n i rule: memmove_up.induct)
  case (1 m d s n i)
  show ?case
  proof (cases "i < n")
    case True
    have "moved (m(d + i := m (s + i))) (d + (i + 1)) (s + (i + 1)) (n - (i + 1)) = moved m (d + i) (s + i) (n - i)"
      using moved_step [of "d + i" "s + i" "n - (i + 1)" m] True "1.prems" by (simp add: add.assoc Suc_diff_Suc)
    moreover have "memmove_up (m(d + i := m (s + i))) d s n (i + 1) =
        moved (m(d + i := m (s + i))) (d + (i + 1)) (s + (i + 1)) (n - (i + 1))"
      by (rule "1.IH") (use True "1.prems" in simp_all)
    ultimately show ?thesis using True by (simp add: memmove_up.simps [of m])
  next
    case False
    then show ?thesis using "1.prems" by (simp add: memmove_up.simps [of m])
  qed
qed

subsection \<open>Strings in memory\<close>

definition str_at :: "mem \<Rightarrow> nat \<Rightarrow> u8 list \<Rightarrow> bool" where
  "str_at m a bs \<longleftrightarrow> (\<forall>i < length bs. m (a + i) = bs ! i) \<and> 0 \<notin> set bs \<and> m (a + length bs) = 0"

lemma str_at_Nil: "str_at m a [] \<longleftrightarrow> m a = 0"
  by (simp add: str_at_def)

lemma str_at_Cons: "str_at m a (b # bs) \<longleftrightarrow> m a = b \<and> b \<noteq> 0 \<and> str_at m (a + 1) bs"
  by (auto simp: str_at_def less_Suc_eq_0_disj)

lemma str_at_cong: "str_at m a bs \<Longrightarrow> (\<And>x. a \<le> x \<Longrightarrow> x \<le> a + length bs \<Longrightarrow> m' x = m x) \<Longrightarrow> str_at m' a bs"
  by (simp add: str_at_def)

lemma poke_eq: "poke m a bs = (\<lambda>x. if a \<le> x \<and> x < a + length bs then bs ! (x - a) else m x)"
proof (induction bs arbitrary: m a)
  case Nil
  then show ?case by (auto simp: fun_eq_iff)
next
  case (Cons b bs)
  show ?case by (auto simp: Cons.IH fun_eq_iff nth_Cons')
qed

lemma str_at_poke: "0 \<notin> set bs \<Longrightarrow> str_at (poke m a (bs @ [0])) a bs"
  by (simp add: str_at_def poke_eq nth_append)

subsection \<open>Digits\<close>

lemma schar_eq: "schar b = (if b < 128 then uint b else uint b - 256)"
proof -
  have r: "0 \<le> uint b" "uint b < 256" using uint_lt2p [of b] by simp_all
  have "uint b div 128 = (if uint b < 128 then 0 else 1)" using r by auto
  then have o: "bit (uint b) 7 \<longleftrightarrow> \<not> uint b < 128" by (simp add: bit_iff_odd)
  have "sint b = take_bit 8 (uint b) - 256 * of_bool (bit (uint b) 7)"
    using signed_take_bit_eq_take_bit_minus [of 7 "uint b"] by (simp add: sint_uint)
  then show ?thesis using r o by (simp add: take_bit_eq_mod word_less_def)
qed

lemma less16: "(d :: nat) < 16 \<Longrightarrow> d \<in> {0, 1, 2, 3, 4, 5, 6, 7, 8, 9, 10, 11, 12, 13, 14, 15}"
  by (simp, presburger)

lemma digs_eval: "digs = [48, 49, 50, 51, 52, 53, 54, 55, 56, 57, 97, 98, 99, 100, 101, 102]"
  by (simp add: digs_def bytes_of_def)

lemma digit_facts:
  assumes "d < 16"
  shows "digs ! d \<noteq> 0" "word_of_int (kto_lower (schar (digs ! d))) = digs ! d" "\<not> kis_space (schar (digs ! d))"
    "digs ! d \<noteq> ch CHR ''x''" "digs ! d \<noteq> ch CHR ''X''"
proof -
  note d = less16 [OF assms]
  show "digs ! d \<noteq> 0" "word_of_int (kto_lower (schar (digs ! d))) = digs ! d" "\<not> kis_space (schar (digs ! d))"
    "digs ! d \<noteq> ch CHR ''x''" "digs ! d \<noteq> ch CHR ''X''"
    using d by (auto simp: digs_eval schar_eq kto_lower_def kis_upper_def kis_space_def ch_def)
qed

lemma digit_index_digs: "d < 16 \<Longrightarrow> digit_index (digs ! d) = Some d"
proof -
  assume d: "d < 16"
  have dist: "distinct digs" "length digs = 16" by (simp_all add: digs_eval)
  show ?thesis
  proof (cases "digit_index (digs ! d)")
    case None
    then show ?thesis using d dist by (auto simp: digit_index_def first_idx_None)
  next
    case (Some j)
    then show ?thesis using first_idx_Some [of "\<lambda>i. digs ! i = digs ! d" 0 16 j] d dist by (metis digit_index_def nth_eq_iff_index_eq)
  qed
qed

text \<open>The digits of a number, the most significant first.\<close>
function digits :: "nat \<Rightarrow> nat \<Rightarrow> nat list" where
  "digits base n = (if n > 0 \<and> base \<ge> 2 then digits base (n div base) @ [n mod base] else [])"
  by pat_completeness auto
termination
  by (relation "measure snd") auto

declare digits.simps [simp del]

lemma tmp_digits_digits: "base \<le> 16 \<Longrightarrow> rev (tmp_digits base n) = map ((!) digs) (digits base n)"
proof (induction base n rule: digits.induct)
  case (1 base n)
  then show ?case by (auto simp: tmp_digits.simps [of base n] digits.simps [of base n])
qed

lemma digits_bound: "\<forall>d \<in> set (digits base n). d < base"
proof (induction base n rule: digits.induct)
  case (1 base n)
  then show ?case by (cases "n > 0 \<and> base \<ge> 2") (auto simp: digits.simps [of base n])
qed

lemma digits_value: "base \<ge> 2 \<Longrightarrow> foldl (\<lambda>v d. v * base + d) 0 (digits base n) = n"
proof (induction base n rule: digits.induct)
  case (1 base n)
  then show ?case by (auto simp: digits.simps [of base n])
qed

lemma digits_length: "n < base ^ k \<Longrightarrow> base \<ge> 2 \<Longrightarrow> length (digits base n) \<le> k"
proof (induction k arbitrary: n)
  case 0
  then show ?case by (simp add: digits.simps)
next
  case (Suc k)
  have "n div base < base ^ k" using Suc.prems by (simp add: less_mult_imp_div_less mult.commute)
  then show ?case using Suc by (auto simp: digits.simps [of base n])
qed

lemma digits_nonempty: "n > 0 \<Longrightarrow> base \<ge> 2 \<Longrightarrow> digits base n \<noteq> []"
  by (simp add: digits.simps [of base n])

text \<open>Reading a string of digits.\<close>
lemma strtou_loop_digits:
  assumes "str_at m s (map ((!) digs) ds)" "\<forall>d \<in> set ds. d < base" "base \<le> 16"
  shows "strtou_loop m s (int base) (word_of_nat v) = Some (word_of_nat (foldl (\<lambda>v d. v * base + d) v ds))"
  using assms(1,2)
proof (induction ds arbitrary: s v)
  case Nil
  then show ?case by (simp add: strtou_loop.simps [of m s] str_at_Nil)
next
  case (Cons d ds)
  have d: "m s = digs ! d" "str_at m (s + 1) (map ((!) digs) ds)" "d < base" "d < 16"
    using Cons.prems assms(3) by (simp_all add: str_at_Cons)
  have "strtou_loop m s (int base) (word_of_nat v) =
      strtou_loop m (s + 1) (int base) (word_of_nat v * word_of_int (int base) + word_of_nat d)"
    using d digit_facts [OF d(4)] digit_index_digs [OF d(4)] by (simp add: strtou_loop.simps [of m s])
  also have "word_of_nat v * word_of_int (int base) + word_of_nat d = (word_of_nat (v * base + d) :: u32)" by simp
  finally show ?case using Cons.IH [OF d(2), of "v * base + d"] Cons.prems(2) by simp
qed

lemma uitoa_digits: "2 \<le> base \<Longrightarrow> base \<le> 16 \<Longrightarrow> uitoa n (int base) = map ((!) digs) (if n = 0 then [0] else digits base n)"
  using tmp_digits_digits [of base n] by (auto simp: uitoa_def digs_eval ch_def)

lemma uitoa_nonzero: "2 \<le> base \<Longrightarrow> base \<le> 16 \<Longrightarrow> 0 \<notin> set (uitoa n (int base))"
  using digits_bound [of base n] digit_facts(1) [of "0"] digit_facts(1) by (auto simp: uitoa_digits image_iff dest: order_less_le_trans)

lemma kstrtou_uitoa:
  assumes "2 \<le> base" "base \<le> 16" "str_at m s (uitoa n (int base))"
  shows "kstrtou m s (int base) = Some (word_of_nat n)"
proof -
  define ds where "ds = (if n = 0 then [0] else digits base n)"
  have u: "str_at m s (map ((!) digs) ds)" using assms uitoa_digits [of base n] by (simp add: ds_def)
  have b: "\<forall>d \<in> set ds. d < base" using digits_bound [of base n] assms(1) by (simp add: ds_def)
  have v: "foldl (\<lambda>v d. v * base + d) 0 ds = n" using digits_value [of base n] assms(1) by (simp add: ds_def)
  have ne: "ds \<noteq> []" using digits_nonempty [of n base] assms(1) by (simp add: ds_def)
  then obtain d ds' where ds: "ds = d # ds'" by (cases ds) auto
  have d: "d < 16" "m s = digs ! d" using u b assms(2) by (auto simp: ds str_at_Cons)
  have sk: "skip_space m s = Some s" using digit_facts(3) [OF d(1)] d(2) by (simp add: skip_space.simps [of m s])
  have "m (s + 1) \<noteq> ch CHR ''x'' \<and> m (s + 1) \<noteq> ch CHR ''X''"
  proof (cases ds')
    case Nil
    then show ?thesis using u by (simp add: ds str_at_Cons str_at_Nil ch_def)
  next
    case (Cons e es)
    then have "e < 16" "m (s + 1) = digs ! e" using u b assms(2) by (auto simp: ds str_at_Cons)
    then show ?thesis using digit_facts(4,5) [of e] by simp
  qed
  then show ?thesis using sk strtou_loop_digits [OF u b assms(2), of 0] v by (simp add: kstrtou_def)
qed

lemma uitoa_length: "2 \<le> base \<Longrightarrow> base \<le> 16 \<Longrightarrow> n < 2 ^ k \<Longrightarrow> 0 < k \<Longrightarrow> length (uitoa n (int base)) \<le> k"
proof -
  assume a: "2 \<le> base" "base \<le> 16" "n < 2 ^ k" "0 < k"
  have "(2 :: nat) ^ k \<le> base ^ k" using a(1) by (intro power_mono) auto
  then have "n < base ^ k" using a(3) by linarith
  then have "length (digits base n) \<le> k" using a(1) by (rule digits_length)
  then show ?thesis using a by (simp add: uitoa_digits)
qed

lemma itoa_length:
  assumes "2 \<le> b" "b \<le> 16" "- (2 ^ 31) \<le> i" "i < 2 ^ 31"
  shows "length (itoa i (int b)) \<le> 32"
proof (cases "b = 10 \<and> i < 0")
  case True
  have "unat (word_of_int (- i) :: u32) < 10 ^ 10" using unsigned_less [of "word_of_int (- i) :: u32", where ?'a = nat] by simp
  then have "length (digits 10 (unat (word_of_int (- i) :: u32))) \<le> 10" by (intro digits_length) auto
  moreover have "length (tmp_digits 10 k) = length (digits 10 k)" for k
    using arg_cong [OF tmp_digits_digits [of 10 k], of length] by simp
  ultimately show ?thesis using True by (simp add: itoa_def)
next
  case False
  have "unat (word_of_int i :: u32) < 2 ^ 32" using unsigned_less [of "word_of_int i :: u32", where ?'a = nat] by simp
  then have "length (uitoa (unat (word_of_int i :: u32)) (int b)) \<le> 32" using uitoa_length [OF assms(1,2)] by simp
  moreover have "itoa i (int b) = uitoa (unat (word_of_int i :: u32)) (int b)" if "i \<noteq> 0"
  proof -
    have "(word_of_int i :: u32) \<noteq> 0"
      using that assms(3,4) zdvd_imp_le [of "2 ^ 32" i] zdvd_imp_le [of "2 ^ 32" "- i"] by (cases "i > 0") (auto simp: word_of_int_eq_0_iff)
    then show ?thesis using False that assms(1,2) by (auto simp: itoa_def uitoa_def unat_eq_zero)
  qed
  ultimately show ?thesis by (cases "i = 0") (auto simp: itoa_def)
qed

text \<open>In every base from 2 to 16 \<open>kstrtou\<close> reads back what \<open>kuitoa\<close> writes, and the 32 bytes of the local buffer (with the minus sign that
  \<open>kitoa\<close> adds in base ten) are enough for the digits of any 32-bit number.\<close>
theorem kuitoa_kstrtou:
  assumes "2 \<le> base" "base \<le> 16"
  shows "kstrtou (kuitoa m n buf base) buf base = Some n \<and> length (uitoa (unat n) base) \<le> 32 \<and>
    (\<forall>i. - (2 ^ 31) \<le> i \<and> i < 2 ^ 31 \<longrightarrow> length (itoa i base) \<le> 32)"
proof -
  obtain b where b: "base = int b" "2 \<le> b" "b \<le> 16" using assms by (cases base) auto
  have u: "unat n < 2 ^ 32" using unsigned_less [of n, where ?'a = nat] by simp
  have s: "str_at (kuitoa m n buf base) buf (uitoa (unat n) base)"
    using uitoa_nonzero [OF b(2,3)] unfolding kuitoa_def b(1) by (intro str_at_poke) auto
  show ?thesis using kstrtou_uitoa [OF b(2,3)] s itoa_length [OF b(2,3)] uitoa_length [OF b(2,3) u] b(1) by simp
qed

theorem kuitoa_kstrtou_witness:
  "kstrtou (kuitoa (\<lambda>_. 0) 48879 4096 16) 4096 16 = Some 48879 \<and> length (uitoa 48879 16) \<le> 32"
  using kuitoa_kstrtou [of 16 "\<lambda>_. 0" 48879 4096] by simp

text \<open>\<open>kmemmove\<close> and the linker's \<open>memmove\<close> move the bytes as if through a third buffer, for every overlap of the two regions; \<open>kmemcpy\<close>
  does so unless the destination starts inside the source.\<close>
theorem memmove_correct:
  "kmemmove m d s n = moved m d s n \<and> memmove m d s n = moved m d s n \<and>
   (d \<le> s \<or> s + n \<le> d \<longrightarrow> kmemcpy m d s n = moved m d s n)"
  using kmemcpy_moved copy_down_moved memmove_up_moved [of 0 n d s m] by (simp add: kmemmove_def memmove_def)

theorem memmove_correct_witness:
  "kmemmove (\<lambda>a. word_of_nat a) 11 10 4 14 = 13 \<and> kmemcpy (\<lambda>a. word_of_nat a) 10 11 4 10 = 11"
  using memmove_correct [of "\<lambda>a. word_of_nat a" 11 10 4] memmove_correct [of "\<lambda>a. word_of_nat a" 10 11 4]
  by (simp add: moved_def)

subsection \<open>The log keeps the last messages\<close>

definition lastn :: "nat \<Rightarrow> 'a list \<Rightarrow> 'a list" where
  "lastn c xs = drop (length xs - c) xs"

lemma lastn_lastn: "lastn c (lastn c xs @ [x]) = lastn c (xs @ [x])"
proof (cases "length xs \<le> c")
  case False
  then show ?thesis by (simp add: lastn_def Suc_diff_le)
qed (simp add: lastn_def)

text \<open>A log of bounded size: a view of the entries it holds, the oldest first; a new entry pushes out the oldest one when the log is
  full.  Entries are numbered.\<close>
locale bounded_log =
  fixes inv :: "'s \<Rightarrow> bool"
    and push :: "'m \<Rightarrow> 's \<Rightarrow> 's"
    and view :: "'s \<Rightarrow> 'e list"
    and number :: "'s \<Rightarrow> u32"
    and entry :: "u32 \<Rightarrow> 'm \<Rightarrow> 'e"
    and msg_ok :: "'m \<Rightarrow> bool"
    and cap :: nat
  assumes inv_push: "inv s \<Longrightarrow> msg_ok m \<Longrightarrow> inv (push m s)"
    and view_push: "inv s \<Longrightarrow> msg_ok m \<Longrightarrow> view (push m s) = lastn cap (view s @ [entry (number s + 1) m])"
    and number_push: "msg_ok m \<Longrightarrow> number (push m s) = number s + 1"
begin

lemma log_history:
  assumes "inv s" "view s = []" "number s = 0" "\<forall>m \<in> set ms. msg_ok m"
  shows "inv (fold push ms s) \<and> number (fold push ms s) = word_of_nat (length ms) \<and>
    view (fold push ms s) = lastn cap (map (\<lambda>i. entry (word_of_nat (i + 1)) (ms ! i)) [0 ..< length ms])"
  using assms(4)
proof (induction ms rule: rev_induct)
  case Nil
  then show ?case using assms(1-3) by (simp add: lastn_def)
next
  case (snoc m ms)
  have c: "map (\<lambda>i. entry (word_of_nat (i + 1)) ((ms @ [m]) ! i)) [0 ..< length (ms @ [m])] =
      map (\<lambda>i. entry (word_of_nat (i + 1)) (ms ! i)) [0 ..< length ms] @ [entry (word_of_nat (length ms) + 1) m]"
    by (simp add: nth_append add.commute)
  show ?case using snoc unfolding c by (simp add: inv_push view_push number_push lastn_lastn del: of_nat_add)
qed

end

definition klog_ok :: "klog \<Rightarrow> bool" where
  "klog_ok k \<longleftrightarrow>
     length (g_kernel_logs k) = ATM_KERNEL_LOG_MAX \<and> g_kernel_log_head k < ATM_KERNEL_LOG_MAX \<and>
     g_kernel_log_count k \<le> ATM_KERNEL_LOG_MAX \<and> (\<forall>e \<in> set (g_kernel_logs k). length (text_of e) = ATM_KERNEL_LOG_TEXT_MAX)"

text \<open>An entry as its number and the C string in its buffer.\<close>
definition entry_view :: "log_entry \<Rightarrow> u32 \<times> u8 list" where
  "entry_view e = (sequence e, takeWhile (\<lambda>b. b \<noteq> 0) (text_of e))"

definition klog_view :: "klog \<Rightarrow> (u32 \<times> u8 list) list" where
  "klog_view k = map (\<lambda>i. entry_view (the (kernel_log_at k (int i)))) [0 ..< g_kernel_log_count k]"

text \<open>What is kept of a message: its first 159 bytes, without the line ends at the end.\<close>
definition line_end :: "u8 \<Rightarrow> bool" where "line_end b \<longleftrightarrow> b = 10 \<or> b = 13"

definition kept :: "u8 list \<Rightarrow> u8 list" where
  "kept bs = rev (dropWhile line_end (rev (take (ATM_KERNEL_LOG_TEXT_MAX - 1) bs)))"

lemma log_copy_spec:
  assumes "str_at m msg bs" "length arr = ATM_KERNEL_LOG_TEXT_MAX" "n \<le> length bs" "n < ATM_KERNEL_LOG_TEXT_MAX" "take n arr = take n bs"
  shows "\<exists>arr' k. log_copy m msg n arr = (arr', k) \<and> k = min (ATM_KERNEL_LOG_TEXT_MAX - 1) (length bs) \<and>
    length arr' = ATM_KERNEL_LOG_TEXT_MAX \<and> take k arr' = take k bs"
  using assms
proof (induction m msg n arr rule: log_copy.induct)
  case (1 m msg n arr)
  have z: "m (msg + n) \<noteq> 0 \<longleftrightarrow> n < length bs"
    using "1.prems"(1,3) by (cases "n = length bs") (auto simp: str_at_def, metis le_neq_implies_less nth_mem)
  show ?case
  proof (cases "n < length bs \<and> n + 1 < ATM_KERNEL_LOG_TEXT_MAX")
    case True
    have "m (msg + n) = bs ! n" using True "1.prems"(1) by (simp add: str_at_def)
    then have "take (n + 1) (arr[n := m (msg + n)]) = take (n + 1) bs"
      using True "1.prems"(2,5) by (simp add: take_Suc_conv_app_nth)
    then show ?thesis using "1.IH" True z "1.prems" by (simp add: log_copy.simps [of m msg n])
  next
    case False
    then have "log_copy m msg n arr = (arr, n)" using z by (auto simp: log_copy.simps [of m msg n])
    moreover have "n = min (ATM_KERNEL_LOG_TEXT_MAX - 1) (length bs)" using False "1.prems"(3,4) by linarith
    ultimately show ?thesis using "1.prems" by simp
  qed
qed

lemma log_trim_spec: "n \<le> length arr \<Longrightarrow> take (log_trim arr n) arr = rev (dropWhile line_end (rev (take n arr)))"
  by (induction n) (auto simp: line_end_def take_Suc_conv_app_nth)

lemma log_trim_le: "log_trim arr n \<le> n"
  by (induction n) auto

lemma append_text:
  assumes "str_at m msg bs" "length arr = ATM_KERNEL_LOG_TEXT_MAX" "log_copy m msg 0 arr = (arr', n)"
  shows "length arr' = ATM_KERNEL_LOG_TEXT_MAX" "takeWhile (\<lambda>b. b \<noteq> 0) (arr'[log_trim arr' n := 0]) = kept bs"
proof -
  obtain k where k: "k = n" "n = min (ATM_KERNEL_LOG_TEXT_MAX - 1) (length bs)" "length arr' = ATM_KERNEL_LOG_TEXT_MAX" "take n arr' = take n bs"
    using log_copy_spec [OF assms(1,2), of 0] assms(3) by (auto simp: ATM_KERNEL_LOG_TEXT_MAX_def)
  show "length arr' = ATM_KERNEL_LOG_TEXT_MAX" by (rule k(3))
  let ?t = "log_trim arr' n"
  have l: "n < length arr'" "?t < length arr'" using k(2,3) log_trim_le [of arr' n] by (auto simp: ATM_KERNEL_LOG_TEXT_MAX_def)
  have t: "take ?t arr' = kept bs" using log_trim_spec [of n arr'] l k(2,4) by (simp add: kept_def min_def split: if_splits)
  have "set (kept bs) \<subseteq> set bs" by (auto simp: kept_def dest!: set_dropWhileD in_set_takeD)
  then have nz: "0 \<notin> set (take ?t arr')" using t assms(1) by (auto simp: str_at_def)
  have "arr'[?t := 0] = take ?t arr' @ 0 # drop (Suc ?t) arr'" using l by (simp add: upd_conv_take_nth_drop)
  moreover have "takeWhile (\<lambda>b. b \<noteq> 0) (take ?t arr' @ 0 # drop (Suc ?t) arr') = take ?t arr'"
    using nz by (subst takeWhile_append2) auto
  ultimately show "takeWhile (\<lambda>b. b \<noteq> 0) (arr'[?t := 0]) = kept bs" using t by simp
qed

lemma log_slot_mod:
  assumes "h < (N :: nat)" "c \<le> N" "i < c"
  shows "(h + N - c + i) mod N \<noteq> h \<or> c = N \<and> i = 0"
proof (cases "h + i < c")
  case True
  then have "h + N - c + i < N" using assms by linarith
  then show ?thesis using assms True by (cases "c = N \<and> i = 0") auto
next
  case False
  then have e: "h + N - c + i = (h + i - c) + N" "h + i - c < N" using assms by linarith+
  then have "(h + N - c + i) mod N = h + i - c" by simp
  then show ?thesis using assms False by linarith
qed

lemma klog_append_ok:
  assumes "klog_ok k" "msg \<noteq> 0" "str_at m msg bs"
  shows "klog_ok (kernel_log_append m msg k)"
    "klog_view (kernel_log_append m msg k) = lastn ATM_KERNEL_LOG_MAX (klog_view k @ [(g_kernel_log_sequence k + 1, kept bs)])"
proof -
  let ?N = ATM_KERNEL_LOG_MAX
  define h c where "h = g_kernel_log_head k" and "c = g_kernel_log_count k"
  obtain arr n where cp: "log_copy m msg 0 (text_of (g_kernel_logs k ! h)) = (arr, n)" by fastforce
  define e where "e = \<lparr>sequence = g_kernel_log_sequence k + 1, text_of = arr[log_trim arr n := 0]\<rparr>"
  let ?k = "kernel_log_append m msg k"
  have ok: "length (g_kernel_logs k) = ?N" "h < ?N" "c \<le> ?N" "\<forall>e \<in> set (g_kernel_logs k). length (text_of e) = ATM_KERNEL_LOG_TEXT_MAX"
    using assms(1) by (simp_all add: klog_ok_def h_def c_def)
  have k': "?k = \<lparr>g_kernel_logs = (g_kernel_logs k)[h := e], g_kernel_log_head = (h + 1) mod ?N,
      g_kernel_log_count = (if c < ?N then c + 1 else c), g_kernel_log_sequence = g_kernel_log_sequence k + 1\<rparr>"
    using assms(2) cp by (simp add: kernel_log_append_def Let_def h_def c_def e_def)
  note tx = append_text [OF assms(3) _ cp]
  have l: "length (text_of (g_kernel_logs k ! h)) = ATM_KERNEL_LOG_TEXT_MAX" using ok by simp
  have e: "length (text_of e) = ATM_KERNEL_LOG_TEXT_MAX" "entry_view e = (g_kernel_log_sequence k + 1, kept bs)"
    using tx l by (simp_all add: e_def entry_view_def)
  show "klog_ok ?k" unfolding k' klog_ok_def using ok e(1) set_update_subset_insert [of "g_kernel_logs k" h e] by (auto simp: ATM_KERNEL_LOG_MAX_def)
  have at: "kernel_log_at k (int i) = Some (g_kernel_logs k ! ((h + ?N - c + i) mod ?N))" if "i < c" for i
    using that by (simp add: kernel_log_at_def h_def c_def)
  have lv: "length (klog_view k) = c" by (simp add: klog_view_def c_def)
  show "klog_view ?k = lastn ?N (klog_view k @ [(g_kernel_log_sequence k + 1, kept bs)])"
  proof (rule nth_equalityI)
    show len: "length (klog_view ?k) = length (lastn ?N (klog_view k @ [(g_kernel_log_sequence k + 1, kept bs)]))"
      using lv ok(3) by (cases "c < ?N") (simp_all add: k' klog_view_def lastn_def ATM_KERNEL_LOG_MAX_def del: upt_conv_Cons upt_rec_numeral)
    fix i assume i: "i < length (klog_view ?k)"
    define c' where "c' = (if c < ?N then c + 1 else c)"
    have ic: "i < c'" using i by (simp add: k' klog_view_def c'_def)
    define j where "j = (if c < ?N then i else i + 1)"
    have slot: "((h + 1) mod ?N + ?N - c' + i) mod ?N = (h + ?N - c + j) mod ?N"
    proof (cases "h + 1 < ?N")
      case True
      then have "(h + 1) mod ?N + ?N - c' + i = h + ?N - c + j" using ok(3) by (auto simp: c'_def j_def)
      then show ?thesis by simp
    next
      case False
      then have n: "h + 1 = ?N" using ok(2) by simp
      then have "(h + 1) mod ?N = 0" by simp
      moreover have "h + ?N - c + j = (?N - c' + i) + ?N" using n ok(3) by (auto simp: c'_def j_def)
      ultimately show ?thesis by simp
    qed
    have new: "klog_view ?k ! i = entry_view ((g_kernel_logs k)[h := e] ! ((h + ?N - c + j) mod ?N))"
      using ic slot by (simp add: k' klog_view_def kernel_log_at_def flip: c'_def)
    have old: "lastn ?N (klog_view k @ [(g_kernel_log_sequence k + 1, kept bs)]) ! i =
        (klog_view k @ [(g_kernel_log_sequence k + 1, kept bs)]) ! j"
      using lv ok(3) ic by (auto simp: lastn_def j_def c'_def nth_append)
    show "klog_view ?k ! i = lastn ?N (klog_view k @ [(g_kernel_log_sequence k + 1, kept bs)]) ! i"
    proof (cases "j < c")
      case True
      have "(h + ?N - c + j) mod ?N \<noteq> h"
        using log_slot_mod [OF ok(2,3) True] by (auto simp: j_def split: if_splits)
      then show ?thesis using new old True lv at [OF True] by (simp add: nth_append klog_view_def c_def)
    next
      case False
      then have "j = c" using ic by (auto simp: j_def c'_def split: if_splits)
      then have "klog_view ?k ! i = (g_kernel_log_sequence k + 1, kept bs)" using new ok e(2) by simp
      then show ?thesis using old \<open>j = c\<close> unfolding lv [symmetric] by simp
    qed
  qed
qed

interpretation klog_ring: bounded_log klog_ok "\<lambda>(m, msg, bs). kernel_log_append m msg" klog_view g_kernel_log_sequence
  "\<lambda>q (m, msg, bs). (q, kept bs)" "\<lambda>(m, msg, bs). msg \<noteq> 0 \<and> str_at m msg bs" ATM_KERNEL_LOG_MAX
proof unfold_locales
  fix k :: klog and x :: "mem \<times> nat \<times> u8 list"
  obtain m msg bs where x: "x = (m, msg, bs)" by (cases x)
  show "klog_ok k \<Longrightarrow> (case x of (m, msg, bs) \<Rightarrow> msg \<noteq> 0 \<and> str_at m msg bs) \<Longrightarrow> klog_ok ((case x of (m, msg, bs) \<Rightarrow> kernel_log_append m msg) k)"
    using klog_append_ok(1) by (auto simp: x)
  show "klog_ok k \<Longrightarrow> (case x of (m, msg, bs) \<Rightarrow> msg \<noteq> 0 \<and> str_at m msg bs) \<Longrightarrow>
      klog_view ((case x of (m, msg, bs) \<Rightarrow> kernel_log_append m msg) k) =
      lastn ATM_KERNEL_LOG_MAX (klog_view k @ [(\<lambda>(m, msg, bs). (g_kernel_log_sequence k + 1, kept bs)) x])"
    using klog_append_ok(2) by (auto simp: x)
  show "(case x of (m, msg, bs) \<Rightarrow> msg \<noteq> 0 \<and> str_at m msg bs) \<Longrightarrow>
      g_kernel_log_sequence ((case x of (m, msg, bs) \<Rightarrow> kernel_log_append m msg) k) = g_kernel_log_sequence k + 1"
    by (simp add: x kernel_log_append_def Let_def split: prod.splits)
qed

definition klog_boot :: klog where
  "klog_boot = \<lparr>g_kernel_logs = replicate ATM_KERNEL_LOG_MAX \<lparr>sequence = 0, text_of = replicate ATM_KERNEL_LOG_TEXT_MAX 0\<rparr>,
     g_kernel_log_head = 0, g_kernel_log_count = 0, g_kernel_log_sequence = 0\<rparr>"

lemma klog_boot_ok: "klog_ok klog_boot" "klog_view klog_boot = []" "g_kernel_log_sequence klog_boot = 0"
  by (simp_all add: klog_ok_def klog_boot_def klog_view_def ATM_KERNEL_LOG_MAX_def)

text \<open>C33.
  The ring buffer is the list of the last 128 messages: after any sequence of messages, of any length, \<open>kernel_log_at\<close> returns them
  oldest first, each with its number and its first 159 bytes less the line ends at their end.\<close>
theorem kernel_log_keeps_last:
  assumes "\<forall>(m, msg, bs) \<in> set ms. msg \<noteq> 0 \<and> str_at m msg bs"
    and "k = fold (\<lambda>(m, msg, bs). kernel_log_append m msg) ms klog_boot"
  shows "kernel_log_count k = int (min ATM_KERNEL_LOG_MAX (length ms)) \<and>
    map (\<lambda>i. entry_view (the (kernel_log_at k (int i)))) [0 ..< nat (kernel_log_count k)] =
      lastn ATM_KERNEL_LOG_MAX (map (\<lambda>i. (word_of_nat (i + 1), kept (snd (snd (ms ! i))))) [0 ..< length ms])"
proof -
  have v: "klog_view k = lastn ATM_KERNEL_LOG_MAX (map (\<lambda>i. (\<lambda>(m, msg, bs). (word_of_nat (i + 1), kept bs)) (ms ! i)) [0 ..< length ms])"
    using klog_ring.log_history [OF klog_boot_ok, of ms] assms by (simp add: case_prod_unfold)
  have "length (klog_view k) = g_kernel_log_count k" by (simp add: klog_view_def)
  then have "g_kernel_log_count k = min ATM_KERNEL_LOG_MAX (length ms)" using v by (simp add: lastn_def)
  then show ?thesis using v by (simp add: kernel_log_count_def klog_view_def case_prod_unfold)
qed

definition demo_msg :: mem where
  "demo_msg = (\<lambda>a. if a = 16 then 104 else if a = 17 then 105 else if a = 18 then 10 else 0)"

theorem kernel_log_keeps_last_witness:
  "kernel_log_count (kernel_log_append demo_msg 16 klog_boot) = 1 \<and>
   entry_view (the (kernel_log_at (kernel_log_append demo_msg 16 klog_boot) 0)) = (1, [104, 105])"
proof -
  have "str_at demo_msg 16 [104, 105, 10]" by (simp add: str_at_Cons str_at_Nil demo_msg_def)
  then show ?thesis
    using kernel_log_keeps_last [of "[(demo_msg, 16, [104, 105, 10])]" "kernel_log_append demo_msg 16 klog_boot"]
    by (auto simp: lastn_def kept_def line_end_def ATM_KERNEL_LOG_MAX_def ATM_KERNEL_LOG_TEXT_MAX_def)
qed

subsection \<open>Formatting refines a rendering of lists\<close>

text \<open>The reference: what a format prints, on byte lists, for arguments that are numbers or strings.  \<open>None\<close> when the arguments do not
  fit the format or the format ends inside a conversion.\<close>
datatype farg = Num u64 | Str "u8 list"

fun dec_prefix :: "u8 list \<Rightarrow> int \<Rightarrow> u8 list \<times> int" where
  "dec_prefix [] n = ([], n)"
| "dec_prefix (c # cs) n = (if kis_digit (schar c) then dec_prefix cs (signed32 (n * 10 + (schar c - 48))) else (c # cs, n))"

definition spec_prefix :: "u8 list \<Rightarrow> bool \<times> int \<times> u8 list" where
  "spec_prefix fs =
     (let z = (fs \<noteq> [] \<and> hd fs = ch CHR ''0''); (rest, w) = dec_prefix (if z then tl fs else fs) 0 in (z, w, rest))"

definition conv_render :: "u8 \<Rightarrow> bool \<Rightarrow> int \<Rightarrow> farg list \<Rightarrow> (farg list \<times> u8 list) option" where
  "conv_render k z w args =
     (if k = ch CHR ''%'' then Some (args, [k])
      else if k = ch CHR ''s'' then
        (case args of
           Str bs # r \<Rightarrow> Some (r, bs)
         | Num v # r \<Rightarrow> if v = 0 then Some (r, bytes_of ''(null)'') else None
         | [] \<Rightarrow> None)
      else case conv_number k z w 0 of
             None \<Rightarrow> Some (args, [])
           | Some _ \<Rightarrow> (case args of Num v # r \<Rightarrow> Some (r, the (conv_number k z w v)) | _ \<Rightarrow> None))"

lemma dec_prefix_drop: "\<exists>j \<le> length fs. fst (dec_prefix fs n) = drop j fs"
proof (induction fs arbitrary: n)
  case (Cons c fs)
  then obtain j where "j \<le> length fs" "fst (dec_prefix fs (signed32 (n * 10 + (schar c - 48)))) = drop j fs" by blast
  then show ?case by (cases "kis_digit (schar c)") (auto intro: exI [of _ "Suc j"] exI [of _ 0])
qed simp

lemma spec_prefix_length: "spec_prefix fs = (z, w, rest) \<Longrightarrow> length rest \<le> length fs"
  using dec_prefix_drop [of "tl fs" 0] dec_prefix_drop [of fs 0]
  by (auto simp: spec_prefix_def Let_def split: prod.splits if_splits)

function render :: "u8 list \<Rightarrow> farg list \<Rightarrow> u8 list option" where
  "render [] args = Some []"
| "render (c # fs) args =
     (if c \<noteq> ch CHR ''%'' then map_option (\<lambda>out. c # out) (render fs args)
      else case spec_prefix fs of
             (z, w, []) \<Rightarrow> None
           | (z, w, k # rest) \<Rightarrow>
               (case conv_render k z w args of
                  None \<Rightarrow> None
                | Some (args', out) \<Rightarrow> map_option (\<lambda>out'. out @ out') (render rest args')))"
  by pat_completeness auto
termination
  by (relation "measure (\<lambda>(fs, args). length fs)") (auto dest: spec_prefix_length [OF sym])

text \<open>The arguments in memory, away from the buffer that is being written.\<close>
definition args_at :: "mem \<Rightarrow> nat set \<Rightarrow> farg list \<Rightarrow> u64 list \<Rightarrow> bool" where
  "args_at m B args ap = list_all2 (\<lambda>a v. case a of Num w \<Rightarrow> v = w
     | Str bs \<Rightarrow> v \<noteq> 0 \<and> str_at m (unat v) bs \<and> {unat v .. unat v + length bs} \<inter> B = {}) args ap"

lemma str_at_drop: "str_at m a fs \<Longrightarrow> j \<le> length fs \<Longrightarrow> str_at m (a + j) (drop j fs)"
  by (auto simp: str_at_def add.assoc dest: in_set_dropD)

lemma read_decimal_prefix:
  "str_at m s fs \<Longrightarrow> \<exists>j \<le> length fs. read_decimal m s n = Some (s + j, snd (dec_prefix fs n)) \<and> fst (dec_prefix fs n) = drop j fs"
proof (induction fs arbitrary: s n)
  case Nil
  then show ?case by (simp add: read_decimal.simps [of m s] str_at_Nil kis_digit_def)
next
  case (Cons c fs)
  then have c: "m s = c" "str_at m (s + 1) fs" by (simp_all add: str_at_Cons)
  show ?case
  proof (cases "kis_digit (schar c)")
    case True
    obtain j where "j \<le> length fs" "read_decimal m (s + 1) (signed32 (n * 10 + (schar c - 48))) =
        Some (s + 1 + j, snd (dec_prefix fs (signed32 (n * 10 + (schar c - 48)))))"
        "fst (dec_prefix fs (signed32 (n * 10 + (schar c - 48)))) = drop j fs" using Cons.IH [OF c(2)] by blast
    then show ?thesis using True c(1) by (intro exI [of _ "Suc j"]) (simp add: read_decimal.simps [of m s])
  next
    case False
    then show ?thesis using c(1) by (intro exI [of _ 0]) (simp add: read_decimal.simps [of m s])
  qed
qed

lemma spec_at_prefix:
  assumes "str_at m s fs" "spec_prefix fs = (z, w, rest)"
  shows "\<exists>j \<le> length fs. spec_at m s = Some (s + j, z, w) \<and> rest = drop j fs"
proof (cases "fs \<noteq> [] \<and> hd fs = ch CHR ''0''")
  case True
  then obtain gs where fs: "fs = ch CHR ''0'' # gs" by (cases fs) auto
  then have g: "m s = ch CHR ''0''" "str_at m (s + 1) gs" using assms(1) by (simp_all add: str_at_Cons)
  obtain j where "j \<le> length gs" "read_decimal m (s + 1) 0 = Some (s + 1 + j, snd (dec_prefix gs 0))" "fst (dec_prefix gs 0) = drop j gs"
    using read_decimal_prefix [OF g(2)] by blast
  then show ?thesis using g assms(2) fs by (intro exI [of _ "Suc j"]) (auto simp: spec_at_def spec_prefix_def split: prod.splits)
next
  case False
  have n: "m s \<noteq> ch CHR ''0''" using False assms(1) by (cases fs) (auto simp: str_at_Cons str_at_Nil ch_def)
  obtain j where "j \<le> length fs" "read_decimal m s 0 = Some (s + j, snd (dec_prefix fs 0))" "fst (dec_prefix fs 0) = drop j fs"
    using read_decimal_prefix [OF assms(1)] by blast
  then show ?thesis using n assms(2) False by (intro exI [of _ j]) (auto simp: spec_at_def spec_prefix_def split: prod.splits if_splits)
qed

subsection \<open>The bounded buffer\<close>

text \<open>The state of the formatter after \<open>out\<close> has been put out.\<close>
definition wrote :: "mem \<Rightarrow> nat \<Rightarrow> nat \<Rightarrow> u8 list \<Rightarrow> mem \<times> nat \<Rightarrow> bool" where
  "wrote m0 buf sz out wr \<longleftrightarrow> wr = (poke m0 buf (take (sz - 1) out), min (sz - 1) (length out))"

lemma poke_append: "poke m a (xs @ ys) = poke (poke m a xs) (a + length xs) ys"
  by (induction xs arbitrary: m a) auto

lemma wrote_PUT: "wrote m0 buf sz out wr \<Longrightarrow> wrote m0 buf sz (out @ [c]) (PUT buf sz c wr)"
  by (cases "length out < sz - 1") (auto simp: wrote_def PUT_def poke_append)

lemma wrote_fold: "wrote m0 buf sz out wr \<Longrightarrow> wrote m0 buf sz (out @ bs) (fold (PUT buf sz) bs wr)"
proof (induction bs arbitrary: out wr)
  case (Cons b bs)
  then show ?case using Cons.IH [OF wrote_PUT [OF Cons.prems, of b]] by simp
qed simp

lemma wrote_outside: "wrote m0 buf sz out wr \<Longrightarrow> x \<notin> {buf ..< buf + sz} \<Longrightarrow> fst wr x = m0 x"
  by (auto simp: wrote_def poke_eq)

lemma wrote_str:
  assumes "wrote m0 buf sz out wr" "str_at m0 a bs" "{a .. a + length bs} \<inter> {buf ..< buf + sz} = {}"
  shows "str_at (fst wr) a bs"
proof (rule str_at_cong [OF assms(2)])
  fix x assume "a \<le> x" "x \<le> a + length bs"
  then have "x \<notin> {buf ..< buf + sz}" using assms(3) by (metis atLeastAtMost_iff disjoint_iff)
  then show "fst wr x = m0 x" by (rule wrote_outside [OF assms(1)])
qed

lemma wrote_full: "wrote m0 buf sz out wr \<Longrightarrow> \<not> snd wr + 1 < sz \<Longrightarrow> wrote m0 buf sz (out @ rest) wr"
  by (auto simp: wrote_def min_def split: if_splits)

lemma range_tail: "{s .. s + length (b # bs)} \<inter> B = {} \<Longrightarrow> {s + 1 .. s + 1 + length bs} \<inter> B = {}"
  by (auto simp: disjoint_iff)

lemma put_string_wrote:
  assumes "wrote m0 buf sz out wr" "str_at m0 s bs" "{s .. s + length bs} \<inter> {buf ..< buf + sz} = {}"
  shows "\<exists>wr'. put_string buf sz s wr = Some wr' \<and> wrote m0 buf sz (out @ bs) wr'"
  using assms
proof (induction bs arbitrary: s out wr)
  case Nil
  have "fst wr s = 0" using wrote_str [OF Nil] by (simp add: str_at_Nil)
  then show ?case using Nil(1) by (simp add: put_string.simps [of buf sz s])
next
  case (Cons b bs)
  have b: "fst wr s = b" "b \<noteq> 0" using wrote_str [OF Cons.prems] by (simp_all add: str_at_Cons)
  have t: "str_at m0 (s + 1) bs" using Cons.prems(2) by (simp add: str_at_Cons)
  show ?case using Cons.IH [OF wrote_PUT [OF Cons.prems(1), of b] t range_tail [OF Cons.prems(3)]] b
    by (simp add: put_string.simps [of buf sz s wr])
qed

lemma vsn_conv_wrote:
  assumes "wrote m0 buf sz out wr" "args_at m0 {buf ..< buf + sz} args ap" "conv_render k z w args = Some (args', bs)"
  shows "\<exists>ap' wr'. vsn_conv buf sz k z w ap wr = Some (ap', wr') \<and> wrote m0 buf sz (out @ bs) wr' \<and> args_at m0 {buf ..< buf + sz} args' ap'"
proof (cases "k = ch CHR ''%''")
  case True
  then show ?thesis using assms wrote_PUT [OF assms(1), of k] by (simp add: conv_render_def vsn_conv_def)
next
  case p: False
  show ?thesis
  proof (cases "k = ch CHR ''s''")
    case True
    then obtain a r where a: "args = a # r" using assms(3) p by (cases args) (simp_all add: conv_render_def)
    then obtain v vs where v: "ap = v # vs" "args_at m0 {buf ..< buf + sz} r vs" using assms(2) by (auto simp: args_at_def list_all2_Cons1)
    show ?thesis
    proof (cases a)
      case (Num n)
      then have "v = 0" "args' = r" "bs = bytes_of ''(null)''"
        using assms(2,3) a v True p by (auto simp: conv_render_def args_at_def split: if_splits)
      then show ?thesis using v True p wrote_fold [OF assms(1)] by (simp add: vsn_conv_def)
    next
      case (Str cs)
      then have c: "v \<noteq> 0" "str_at m0 (unat v) cs" "{unat v .. unat v + length cs} \<inter> {buf ..< buf + sz} = {}" "args' = r" "bs = cs"
        using assms(2,3) a v True p by (auto simp: conv_render_def args_at_def)
      then show ?thesis using v True p put_string_wrote [OF assms(1) c(2,3)] by (auto simp: vsn_conv_def)
    qed
  next
    case s: False
    show ?thesis
    proof (cases "conv_number k z w 0")
      case None
      then show ?thesis using assms p s by (simp add: conv_render_def vsn_conv_def)
    next
      case (Some q)
      then obtain v r where a: "args = Num v # r" "args' = r" "bs = the (conv_number k z w v)"
        using assms(3) p s by (auto simp: conv_render_def split: list.splits farg.splits)
      then obtain vs where "ap = v # vs" "args_at m0 {buf ..< buf + sz} r vs" using assms(2) by (auto simp: args_at_def list_all2_Cons1)
      then show ?thesis using Some p s a wrote_fold [OF assms(1)] by (simp add: vsn_conv_def)
    qed
  qed
qed

lemma range_drop: "{s .. s + length fs} \<inter> B = {} \<Longrightarrow> j \<le> length fs \<Longrightarrow> {s + j .. s + j + length (drop j fs)} \<inter> B = {}"
  by (auto simp: disjoint_iff)

lemma vsn_loop_wrote:
  assumes "wrote m0 buf sz out wr" "args_at m0 {buf ..< buf + sz} args ap" "str_at m0 fmt fs"
    "{fmt .. fmt + length fs} \<inter> {buf ..< buf + sz} = {}" "render fs args = Some bs"
  shows "\<exists>wr'. vsn_loop buf sz fmt ap wr = Some wr' \<and> wrote m0 buf sz (out @ bs) wr'"
  using assms
proof (induction fs args arbitrary: fmt ap wr out bs rule: render.induct)
  case (1 args)
  have "fst wr fmt = 0" using wrote_str [OF 1(1,3,4)] by (simp add: str_at_Nil)
  then show ?case using 1 by (simp add: vsn_loop.simps [of buf sz fmt])
next
  case (2 c fs args)
  note w = "2.prems"(1) and a = "2.prems"(2) and s = "2.prems"(3) and r = "2.prems"(4)
  have cs: "fst wr fmt = c" "c \<noteq> 0" "str_at (fst wr) (fmt + 1) fs" using wrote_str [OF w s r] by (simp_all add: str_at_Cons)
  have s1: "str_at m0 (fmt + 1) fs" using s by (simp add: str_at_Cons)
  note r1 = range_tail [OF r]
  show ?case
  proof (cases "snd wr + 1 < sz")
    case False
    then show ?thesis using cs wrote_full [OF w False] by (simp add: vsn_loop.simps [of buf sz fmt])
  next
    case room: True
    show ?thesis
    proof (cases "c = ch CHR ''%''")
      case False
      then obtain bs' where b: "render fs args = Some bs'" "bs = c # bs'" using "2.prems"(5) by auto
      then show ?thesis using "2.IH"(1) [OF False wrote_PUT [OF w, of c] a s1 r1 b(1)] cs room False
        by (simp add: vsn_loop.simps [of buf sz fmt])
    next
      case True
      obtain z wd rest where sp: "spec_prefix fs = (z, wd, rest)" by (cases "spec_prefix fs")
      then obtain k rs where k: "rest = k # rs" using "2.prems"(5) True by (cases rest) auto
      then obtain args' o1 where cr: "conv_render k z wd args = Some (args', o1)"
        using "2.prems"(5) True sp by (auto split: option.splits)
      then obtain o2 where o2: "render rs args' = Some o2" "bs = o1 @ o2" using "2.prems"(5) True sp k by auto
      obtain j where j: "j \<le> length fs" "spec_at (fst wr) (fmt + 1) = Some (fmt + 1 + j, z, wd)" "rest = drop j fs"
        using spec_at_prefix [OF cs(3) sp] by blast
      have sj: "str_at m0 (fmt + 1 + j) (k # rs)" "{fmt + 1 + j .. fmt + 1 + j + length (k # rs)} \<inter> {buf ..< buf + sz} = {}"
        using str_at_drop [OF s1 j(1)] range_drop [OF r1 j(1)] j(3) k by simp_all
      then have kk: "fst wr (fmt + 1 + j) = k" using wrote_str [OF w sj] by (simp add: str_at_Cons)
      obtain ap' wr' where cv: "vsn_conv buf sz k z wd ap wr = Some (ap', wr')" "wrote m0 buf sz (out @ o1) wr'"
          "args_at m0 {buf ..< buf + sz} args' ap'"
        using vsn_conv_wrote [OF w a cr] by blast
      have t: "str_at m0 (fmt + 1 + j + 1) rs" using sj(1) by (simp add: str_at_Cons)
      show ?thesis using "2.IH"(2) [OF _ sp [symmetric] refl k cr refl cv(2,3) t range_tail [OF sj(2)] o2(1)] True cs room j(2) kk cv(1) o2(2)
        by (simp add: vsn_loop.simps [of buf sz fmt])
    qed
  qed
qed

lemma kvsnprintf_renders:
  assumes "buf \<noteq> 0" "fmt \<noteq> 0" "0 < sz" "str_at m fmt fs" "{fmt .. fmt + length fs} \<inter> {buf ..< buf + sz} = {}"
    "args_at m {buf ..< buf + sz} args ap" "render fs args = Some out"
  shows "kvsnprintf m buf sz fmt ap = Some (poke m buf (take (sz - 1) out @ [0]), min (sz - 1) (length out))"
proof -
  have "wrote m buf sz [] (m, 0)" by (simp add: wrote_def)
  from vsn_loop_wrote [OF this assms(6,4,5,7)]
  obtain wr where "vsn_loop buf sz fmt ap (m, 0) = Some wr" "wrote m buf sz out wr" by auto
  then show ?thesis using assms(1-3) by (simp add: kvsnprintf_def wrote_def poke_append min.commute)
qed


definition demo_fmt :: mem where
  "demo_fmt = poke (\<lambda>_. 0) 64 (bytes_of ''id %04u!'')"


end
