(* ===== verification/Net.thy ===== *)
theory Net
  imports Prelude "HOL-Library.Monad_Syntax"
begin

unbundle bit_operations_syntax

section \<open>Frames, the network card and address resolution\<close>

text \<open>
  The protocol part of \<open>net.c\<close> with its header \<open>net.h\<close>: byte order, the Internet
  checksum, sending and polling a frame, address resolution and the UDP helpers.
  A frame is the list of its bytes; the packed header structures are overlaid by
  offset, with the loads and stores of the source.  The card and the clock are
  arguments: \<open>rx_dev\<close> says what the card shows at each poll, \<open>clock\<close> how many timer
  interrupts have happened at each reading of the tick counter.
\<close>

subsection \<open>Bytes of a frame\<close>

type_synonym frame = "u8 list"

text \<open>A 16-bit and a 32-bit load, and a store of some bytes, on a little-endian machine.\<close>

definition ld16 :: "frame \<Rightarrow> nat \<Rightarrow> u16" where
  "ld16 f i = ucast (f ! i) OR push_bit 8 (ucast (f ! (i + 1)))"

definition ld32 :: "frame \<Rightarrow> nat \<Rightarrow> u32" where
  "ld32 f i = ucast (f ! i) OR push_bit 8 (ucast (f ! (i + 1))) OR
     push_bit 16 (ucast (f ! (i + 2))) OR push_bit 24 (ucast (f ! (i + 3)))"

definition put_bytes :: "nat \<Rightarrow> u8 list \<Rightarrow> frame \<Rightarrow> frame" where
  "put_bytes i bs f = take i f @ bs @ drop (i + length bs) f"

definition lo16 :: "u16 \<Rightarrow> u8 list" where
  "lo16 v = [ucast v, ucast (drop_bit 8 v)]"

definition lo32 :: "u32 \<Rightarrow> u8 list" where
  "lo32 v = [ucast v, ucast (drop_bit 8 v), ucast (drop_bit 16 v), ucast (drop_bit 24 v)]"

definition st16 :: "nat \<Rightarrow> u16 \<Rightarrow> frame \<Rightarrow> frame" where
  "st16 i v f = put_bytes i (lo16 v) f"

definition st32 :: "nat \<Rightarrow> u32 \<Rightarrow> frame \<Rightarrow> frame" where
  "st32 i v f = put_bytes i (lo32 v) f"

definition st8 :: "nat \<Rightarrow> u8 \<Rightarrow> frame \<Rightarrow> frame" where
  "st8 i v f = put_bytes i [v] f"

definition net_bswap16 :: "u16 \<Rightarrow> u16" where
  "net_bswap16 x = drop_bit 8 x OR push_bit 8 x"

definition net_bswap32 :: "u32 \<Rightarrow> u32" where
  "net_bswap32 x = push_bit 24 (x AND 0xFF) OR push_bit 16 (drop_bit 8 x AND 0xFF) OR
     push_bit 8 (drop_bit 16 x AND 0xFF) OR (drop_bit 24 x AND 0xFF)"

subsection \<open>The Internet checksum\<close>

text \<open>The two loops of \<open>net_ip_checksum\<close>: adding up 16-bit words, and folding the carries.\<close>

fun csum_add :: "u32 \<Rightarrow> u8 list \<Rightarrow> u32" where
  "csum_add s [] = s"
| "csum_add s [b] = s + ucast b"
| "csum_add s (a # b # r) = csum_add (s + ucast (ld16 [a, b] 0)) r"

lemma csum_fold_unat:
  "unat ((s AND 0xFFFF) + drop_bit 16 (s :: u32)) = unat s mod 65536 + unat s div 65536"
proof -
  have a: "unat (s AND 0xFFFF) = unat s mod 65536"
    using take_bit_eq_mask [of 16 s] unsigned_take_bit_eq [of 16 s, where 'a = nat]
    by (simp add: mask_eq_exp_minus_1 take_bit_eq_mod)
  have b: "unat (drop_bit 16 s) = unat s div 65536"
    by (simp add: drop_bit_eq_div unat_div)
  have "unat s < 2 ^ 32"
    using unsigned_less [of s, where 'a = nat] by simp
  then have "unat s div 65536 < 65536"
    by (simp add: less_mult_imp_div_less)
  moreover have "unat s mod 65536 < 65536"
    by simp
  ultimately have "unat (s AND 0xFFFF) + unat (drop_bit 16 s) < 2 ^ LENGTH(32)"
    unfolding a b by simp
  then show ?thesis
    unfolding unat_add_lem by (simp only: a b)
qed

lemma drop_bit_16_zero: "drop_bit 16 (s :: u32) = 0 \<longleftrightarrow> unat s < 65536"
proof -
  have "drop_bit 16 s = 0 \<longleftrightarrow> unat (drop_bit 16 s) = 0"
    by (simp add: unat_eq_zero)
  also have "\<dots> \<longleftrightarrow> unat s div 65536 = 0"
    by (simp add: drop_bit_eq_div unat_div)
  finally show ?thesis
    by (simp add: div_eq_0_iff)
qed

function csum_fold :: "u32 \<Rightarrow> u32" where
  "csum_fold s = (if drop_bit 16 s = 0 then s else csum_fold ((s AND 0xFFFF) + drop_bit 16 s))"
  by pat_completeness auto
termination
proof (relation "measure unat", simp)
  fix s :: u32 assume "drop_bit 16 s \<noteq> 0"
  then have "\<not> unat s < 65536"
    by (simp add: drop_bit_16_zero)
  then have "0 < unat s div 65536"
    by (simp add: div_greater_zero_iff)
  then have "unat s mod 65536 + unat s div 65536 < unat s"
    using div_mult_mod_eq [of "unat s" 65536] by linarith
  then show "((s AND 0xFFFF) + drop_bit 16 s, s) \<in> measure unat"
    by (simp add: csum_fold_unat)
qed

declare csum_fold.simps [simp del]

definition net_ip_checksum :: "u8 list \<Rightarrow> u16" where
  "net_ip_checksum d = ucast (NOT (csum_fold (csum_add 0 d)))"

subsection \<open>The card, the clock and the driver's state\<close>

abbreviation ETH_ALEN :: nat where "ETH_ALEN \<equiv> 6"
abbreviation ETH_HLEN :: nat where "ETH_HLEN \<equiv> 14"
abbreviation ETH_MAX :: nat where "ETH_MAX \<equiv> 1514"
abbreviation ETH_MIN :: nat where "ETH_MIN \<equiv> 60"
abbreviation RTL_TX_BUFS :: nat where "RTL_TX_BUFS \<equiv> 4"
abbreviation RTL_TX_BUF_SIZE :: nat where "RTL_TX_BUF_SIZE \<equiv> 1536"
abbreviation RTL_RX_RING_SIZE :: nat where "RTL_RX_RING_SIZE \<equiv> 8192"
abbreviation RTL_RX_BUF_SIZE :: nat where "RTL_RX_BUF_SIZE \<equiv> RTL_RX_RING_SIZE + 16 + 1500"

text \<open>
  What the card shows at one poll: the bit \<open>RTL_CR_BUFE\<close> of its command register, and
  the receive buffer that it fills.
\<close>

record rx_view =
  bufe :: bool
  rx_ring :: "u8 list"

record net_env =
  clock :: "nat \<Rightarrow> nat"
  pit_hz :: u32
  rx_dev :: "nat \<Rightarrow> rx_view"

record net_arp_cache_t =
  arp_ip :: "u8 list"
  arp_mac :: "u8 list"
  updated_ticks :: u32
  arp_valid :: bool

text \<open>
  \<open>net_state_t\<close>, less the port number and the receive buffer (which the card shows), and
  with what the driver leaves behind: the frames handed to the card, the last value of
  the register \<open>CAPR\<close>, how often the clock was read and the card polled, and the static
  counters of \<open>net_udp_sendto\<close> and \<open>atm_tcp_connect\<close>.
\<close>

record net_state_t =
  mac :: "u8 list"
  tx_bufs :: "u8 list list"
  tx_cur :: nat
  rx_read_ptr :: nat
  initialized :: bool
  rx_packets :: u64
  tx_packets :: u64
  rx_bytes :: u64
  tx_bytes :: u64
  ip :: "u32 list"
  arp :: net_arp_cache_t
  capr :: u16
  wire :: "frame list"
  now :: nat
  polls :: nat
  packet_id :: u16
  next_port :: u16

definition net_wf :: "net_state_t \<Rightarrow> bool" where
  "net_wf w \<longleftrightarrow> length (mac w) = ETH_ALEN \<and> length (ip w) = 4 \<and>
     length (tx_bufs w) = RTL_TX_BUFS \<and> (\<forall>b \<in> set (tx_bufs w). length b = RTL_TX_BUF_SIZE) \<and>
     tx_cur w < RTL_TX_BUFS \<and> rx_read_ptr w < RTL_RX_RING_SIZE \<and> 4 dvd rx_read_ptr w \<and>
     length (arp_ip (arp w)) = 4 \<and> length (arp_mac (arp w)) = ETH_ALEN"

definition dev_wf :: "net_env \<Rightarrow> bool" where
  "dev_wf E \<longleftrightarrow> (\<forall>k. length (rx_ring (rx_dev E k)) = RTL_RX_BUF_SIZE)"

definition pit_get_ticks :: "net_env \<Rightarrow> net_state_t \<Rightarrow> u32 \<times> net_state_t" where
  "pit_get_ticks E w = (word_of_nat (clock E (now w)), w\<lparr>now := now w + 1\<rparr>)"

text \<open>
  The loop \<open>while ((uint32_t)(pit_get_ticks() - start) < limit) body\<close>.  A body that
  continues returns \<open>None\<close> and one that leaves the loop returns its result; the loop
  returns \<open>None\<close> when the time is over.  It need not end: the clock may stand still.
\<close>

partial_function (option) while_ticks ::
  "net_env \<Rightarrow> u32 \<Rightarrow> u32 \<Rightarrow> ('x \<Rightarrow> net_state_t \<Rightarrow> ('r option \<times> 'x \<times> net_state_t) option)
    \<Rightarrow> 'x \<Rightarrow> net_state_t \<Rightarrow> ('r option \<times> 'x \<times> net_state_t) option" where
  "while_ticks E start limit body x w =
    (let (t, w1) = pit_get_ticks E w
     in if t - start < limit
        then do {
          (r, x', w2) \<leftarrow> body x w1;
          (case r of Some _ \<Rightarrow> Some (r, x', w2) | None \<Rightarrow> while_ticks E start limit body x' w2)
        }
        else Some (None, x, w1))"

definition pit_sleep :: "net_env \<Rightarrow> u32 \<Rightarrow> net_state_t \<Rightarrow> net_state_t option" where
  "pit_sleep E ms w =
    (if pit_hz E = 0 then Some w
     else let wait = (ms * pit_hz E) div 1000;
              wait = (if wait = 0 then 1 else wait);
              (start, w1) = pit_get_ticks E w
          in do {
            (r, x, w2) \<leftarrow> while_ticks E start wait (\<lambda>x w'. Some (None :: unit option, x, w')) () w1;
            Some w2
          })"

definition net_set_ip :: "u8 \<Rightarrow> u8 \<Rightarrow> u8 \<Rightarrow> u8 \<Rightarrow> net_state_t \<Rightarrow> net_state_t" where
  "net_set_ip a b c d w = w\<lparr>ip := [ucast a, ucast b, ucast c, ucast d]\<rparr>"

definition net_mac_str :: "net_state_t \<Rightarrow> string" where
  "net_mac_str w =
    concat (map (\<lambda>i. let hex = ''0123456789ABCDEF''; m = mac w ! i
                     in [hex ! unat (drop_bit 4 m), hex ! unat (m AND 0xF)] @ (if i < 5 then '':'' else []))
              [0..<6])"

text \<open>
  \<open>net_send\<close>.  The wait for an idle transmitter only reads the card and ends after at
  most 100000 readings whatever they show, so that it leaves no trace here; starting the
  transmission puts the first \<open>wire_len\<close> bytes of the buffer on the wire.
\<close>

definition net_send :: "frame \<Rightarrow> net_state_t \<Rightarrow> i32 \<times> net_state_t" where
  "net_send buf w =
    (let len = length buf
     in if \<not> initialized w \<or> len > RTL_TX_BUF_SIZE then (-1, w)
        else let wire_len = (if len < ETH_MIN then ETH_MIN else len);
                 cur = tx_cur w;
                 b = put_bytes 0 (buf @ replicate (wire_len - len) 0) (tx_bufs w ! cur)
             in (0, w\<lparr>tx_bufs := (tx_bufs w)[cur := b], wire := wire w @ [take wire_len b],
                      tx_cur := (cur + 1) mod RTL_TX_BUFS, tx_packets := tx_packets w + 1,
                      tx_bytes := tx_bytes w + word_of_nat wire_len\<rparr>))"

subsection \<open>Address resolution\<close>

text \<open>
  Offsets of the packed structures in a frame: \<open>eth_header_t\<close> at 0, and \<open>arp_packet_t\<close> or
  \<open>ip4_hdr_t\<close> behind it.
\<close>

definition eth_ethertype :: "frame \<Rightarrow> u16" where
  "eth_ethertype f = ld16 f 12"

definition arp_sha :: "frame \<Rightarrow> u8 list" where
  "arp_sha f = take 6 (drop 22 f)"

definition arp_spa :: "frame \<Rightarrow> u8 list" where
  "arp_spa f = take 4 (drop 28 f)"

definition arp_tha :: "frame \<Rightarrow> u8 list" where
  "arp_tha f = take 6 (drop 32 f)"

definition arp_tpa :: "frame \<Rightarrow> u8 list" where
  "arp_tpa f = take 4 (drop 38 f)"

definition own_ip :: "net_state_t \<Rightarrow> u8 list" where
  "own_ip w = map ucast (ip w)"

definition net_arp_request :: "u8 list \<Rightarrow> net_state_t \<Rightarrow> net_state_t" where
  "net_arp_request target_ip w =
    (let f = replicate (ETH_HLEN + 28) 0;
         f = put_bytes 0 (replicate 6 0xFF) f;
         f = put_bytes 6 (mac w) f;
         f = st16 12 0x0608 f;
         f = st16 14 0x0100 f;
         f = st16 16 0x0008 f;
         f = st8 18 6 f;
         f = st8 19 4 f;
         f = st16 20 0x0100 f;
         f = put_bytes 22 (mac w) f;
         f = put_bytes 28 (own_ip w) f;
         f = put_bytes 32 (replicate 6 0) f;
         f = put_bytes 38 target_ip f
     in snd (net_send f w))"

definition arp_reply :: "frame \<Rightarrow> net_state_t \<Rightarrow> frame" where
  "arp_reply frame w =
    (let f = replicate (ETH_HLEN + 28) 0;
         f = put_bytes 0 (arp_sha frame) f;
         f = put_bytes 6 (mac w) f;
         f = put_bytes 22 (mac w) f;
         f = put_bytes 32 (arp_sha frame) f;
         f = st16 12 (net_bswap16 0x0806) f;
         f = st16 14 (net_bswap16 1) f;
         f = st16 16 (net_bswap16 0x0800) f;
         f = st8 18 6 f;
         f = st8 19 4 f;
         f = st16 20 (net_bswap16 2) f;
         f = put_bytes 28 (own_ip w) f;
         f = put_bytes 38 (arp_spa frame) f
     in f)"

definition net_arp_observe :: "net_env \<Rightarrow> frame \<Rightarrow> net_state_t \<Rightarrow> net_state_t" where
  "net_arp_observe E frame w =
    (if length frame < ETH_HLEN + 28 then w
     else if net_bswap16 (eth_ethertype frame) \<noteq> 0x0806 \<or> net_bswap16 (ld16 frame 14) \<noteq> 1 \<or>
             net_bswap16 (ld16 frame 16) \<noteq> 0x0800 \<or> frame ! 18 \<noteq> 6 \<or> frame ! 19 \<noteq> 4 then w
     else let oper = net_bswap16 (ld16 frame 20)
          in if arp_tpa frame \<noteq> own_ip w then w
             else if oper = 2 \<and> arp_tha frame \<noteq> mac w then w
             else if oper \<noteq> 1 \<and> oper \<noteq> 2 then w
             else let (t, w1) = pit_get_ticks E w;
                      w2 = w1\<lparr>arp := \<lparr>arp_ip = arp_spa frame, arp_mac = arp_sha frame,
                                     updated_ticks = t, arp_valid = True\<rparr>\<rparr>
                  in if oper = 1 then snd (net_send (arp_reply frame w2) w2) else w2)"

definition net_arp_lookup :: "net_env \<Rightarrow> u8 list \<Rightarrow> net_state_t \<Rightarrow> u8 list option \<times> net_state_t" where
  "net_arp_lookup E target w =
    (if \<not> arp_valid (arp w) then (None, w)
     else let (t, w1) = pit_get_ticks E w
          in if t - updated_ticks (arp w) > 6000 then (None, w1)
             else if arp_ip (arp w) \<noteq> target then (None, w1)
             else (Some (arp_mac (arp w)), w1))"

subsection \<open>Polling the card\<close>

text \<open>
  \<open>net_recv\<close>: the frame that is copied out, whose length is the result; the empty list
  stands for the result 0.
\<close>

definition rx_advance :: "nat \<Rightarrow> nat \<Rightarrow> net_state_t \<Rightarrow> net_state_t" where
  "rx_advance rptr pkt_len w =
    (let p = (rptr + 4 + pkt_len + 3) AND (RTL_RX_RING_SIZE - 4)
     in w\<lparr>rx_read_ptr := p, capr := word_of_nat p - 16\<rparr>)"

definition net_recv :: "net_env \<Rightarrow> nat \<Rightarrow> net_state_t \<Rightarrow> frame \<times> net_state_t" where
  "net_recv E maxlen w =
    (if \<not> initialized w then ([], w)
     else let v = rx_dev E (polls w);
              w1 = w\<lparr>polls := polls w + 1\<rparr>
          in if bufe v then ([], w1)
             else let rptr = rx_read_ptr w;
                      pkt_len = unat (ld16 (rx_ring v) (rptr + 2));
                      status = ld16 (rx_ring v) rptr;
                      good = (status AND 1 \<noteq> 0 \<and> pkt_len \<ge> 4 \<and> pkt_len \<le> ETH_MAX + 4)
                  in if \<not> good \<or> pkt_len - 4 > maxlen then ([], rx_advance rptr pkt_len w1)
                     else let buf = take (pkt_len - 4) (drop (rptr + 4) (rx_ring v));
                              w2 = rx_advance rptr pkt_len (net_arp_observe E buf w1)
                          in (buf, w2\<lparr>rx_packets := rx_packets w2 + 1,
                                      rx_bytes := rx_bytes w2 + word_of_nat (pkt_len - 4)\<rparr>))"

subsection \<open>The UDP helpers\<close>

text \<open>\<open>unm_profile_t\<close> and \<open>g_unm\<close> of \<open>unm.h\<close>, with the fields that routing reads.\<close>

record unm_profile_t =
  netmask :: "u8 list"
  gateway :: "u8 list"

record unm_t =
  profiles :: "unm_profile_t list"
  profile_count :: i32
  active_profile :: i32
  leased_gw :: "u8 list"

definition ip_nonzero :: "'a::len word list \<Rightarrow> bool" where
  "ip_nonzero a \<longleftrightarrow> (a ! 0 OR a ! 1 OR a ! 2 OR a ! 3) \<noteq> 0"

definition net_udp_next_hop :: "unm_t \<Rightarrow> net_state_t \<Rightarrow> u8 list \<Rightarrow> u8 list" where
  "net_udp_next_hop g w dst =
    (let mask = [255, 255, 255, 0];
         gw = [0, 0, 0, 0];
         (mask, gw) = (if 0 \<le> active_profile g \<and> active_profile g < profile_count g
                       then let p = profiles g ! nat (active_profile g)
                            in (map (\<lambda>i. if netmask p ! i \<noteq> 0 then netmask p ! i else mask ! i) [0..<4],
                                map (\<lambda>i. gateway p ! i) [0..<4])
                       else (mask, gw));
         gw = (if ip_nonzero (leased_gw g) then map (\<lambda>i. leased_gw g ! i) [0..<4] else gw);
         local = (\<forall>i \<in> set [0..<4]. (own_ip w ! i) AND (mask ! i) = (dst ! i) AND (mask ! i))
     in map (\<lambda>i. if \<not> local \<and> ip_nonzero gw then gw ! i else dst ! i) [0..<4])"

text \<open>The body of the loop that waits for an answer to an ARP request, and the function.\<close>

definition resolve_poll ::
  "net_env \<Rightarrow> u8 list \<Rightarrow> unit \<Rightarrow> net_state_t \<Rightarrow> (u8 list option \<times> unit \<times> net_state_t) option" where
  "resolve_poll E target x w =
    (let (f, w1) = net_recv E ETH_MAX w;
         (r, w2) = net_arp_lookup E target w1
     in case r of
          Some m \<Rightarrow> Some (Some m, x, w2)
        | None \<Rightarrow> do { w3 \<leftarrow> pit_sleep E 2 w2; Some (None, x, w3) })"

definition net_udp_resolve_mac ::
  "net_env \<Rightarrow> u8 list \<Rightarrow> net_state_t \<Rightarrow> (u8 list option \<times> net_state_t) option" where
  "net_udp_resolve_mac E target w =
    (let (r, w1) = net_arp_lookup E target w
     in case r of
          Some m \<Rightarrow> Some (Some m, w1)
        | None \<Rightarrow>
            (let w2 = net_arp_request target w1;
                 (started, w3) = pit_get_ticks E w2
             in do {
                  (r, x, w4) \<leftarrow> while_ticks E started 100 (resolve_poll E target) () w3;
                  Some (r, w4)
                }))"

abbreviation NET_UDP_PAYLOAD_MAX :: nat where "NET_UDP_PAYLOAD_MAX \<equiv> 512"

text \<open>The frame that \<open>net_udp_sendto\<close> builds in its static buffer, up to its length.\<close>

definition udp_frame ::
  "net_state_t \<Rightarrow> u8 list \<Rightarrow> u8 list \<Rightarrow> u16 \<Rightarrow> u16 \<Rightarrow> u8 list \<Rightarrow> frame" where
  "udp_frame w m dst_ip src_port dst_port payload =
    (let len = length payload;
         f = replicate (ETH_HLEN + 20 + 8 + NET_UDP_PAYLOAD_MAX) 0;
         f = put_bytes 0 m f;
         f = put_bytes 6 (mac w) f;
         f = st16 12 (net_bswap16 0x0800) f;
         f = st8 14 0x45 f;
         f = st8 22 64 f;
         f = st8 23 17 f;
         f = st16 18 (net_bswap16 (packet_id w)) f;
         f = put_bytes 26 (own_ip w) f;
         f = put_bytes 30 dst_ip f;
         f = st16 34 (net_bswap16 src_port) f;
         f = st16 36 (net_bswap16 dst_port) f;
         f = st16 38 (net_bswap16 (word_of_nat (8 + len))) f;
         f = st16 40 0 f;
         f = put_bytes 42 payload f;
         f = st16 16 (net_bswap16 (word_of_nat (20 + 8 + len))) f;
         f = st16 24 (net_ip_checksum (take 20 (drop 14 f))) f
     in take (ETH_HLEN + 20 + 8 + len) f)"

definition net_udp_sendto ::
  "net_env \<Rightarrow> unm_t \<Rightarrow> u8 list \<Rightarrow> u16 \<Rightarrow> u16 \<Rightarrow> u8 list \<Rightarrow> net_state_t \<Rightarrow> (i32 \<times> net_state_t) option" where
  "net_udp_sendto E g dst_ip src_port dst_port payload w =
    (if \<not> initialized w \<or> src_port = 0 \<or> dst_port = 0 \<or>
        length payload > NET_UDP_PAYLOAD_MAX \<or> \<not> ip_nonzero (ip w) then Some (-1, w)
     else do {
       (r, w1) \<leftarrow> net_udp_resolve_mac E (net_udp_next_hop g w dst_ip) w;
       (case r of
          None \<Rightarrow> Some (-1, w1)
        | Some m \<Rightarrow>
            (let f = udp_frame w1 m dst_ip src_port dst_port payload
             in Some (net_send f (w1\<lparr>packet_id := packet_id w1 + 1\<rparr>))))
     })"

text \<open>\<open>net_udp_parse_frame\<close>: the source address, the source port and the payload.\<close>

definition net_udp_parse_frame :: "frame \<Rightarrow> u16 \<Rightarrow> nat \<Rightarrow> (u8 list \<times> u16 \<times> u8 list) option" where
  "net_udp_parse_frame frame want_port cap =
    (let frame_len = length frame
     in if frame_len < ETH_HLEN + 20 + 8 then None
        else if net_bswap16 (eth_ethertype frame) \<noteq> 0x0800 then None
        else let ver_ihl = frame ! 14; ihl = unat (ver_ihl AND 15) * 4
             in if drop_bit 4 ver_ihl \<noteq> 4 \<or> ihl < 20 \<or> frame ! 23 \<noteq> 17 \<or>
                   ETH_HLEN + ihl + 8 > frame_len then None
                else let ip_len = unat (net_bswap16 (ld16 frame 16))
                     in if ip_len < ihl + 8 \<or> ETH_HLEN + ip_len > frame_len then None
                        else let udp = ETH_HLEN + ihl;
                                 udp_len = net_bswap16 (ld16 frame (udp + 4));
                                 body = unat (udp_len - 8)
                             in if udp_len < 8 \<or> unat udp_len > ip_len - ihl \<or>
                                   net_bswap16 (ld16 frame (udp + 2)) \<noteq> want_port \<or> body > cap then None
                                else Some (take 4 (drop 26 frame), net_bswap16 (ld16 frame udp),
                                           take body (drop (udp + 8) frame)))"

definition net_udp_recvfrom ::
  "net_env \<Rightarrow> u16 \<Rightarrow> nat \<Rightarrow> net_state_t \<Rightarrow> i32 \<times> (u8 list \<times> u16 \<times> u8 list) option \<times> net_state_t" where
  "net_udp_recvfrom E dst_port cap w =
    (let (f, w1) = net_recv E ETH_MAX w
     in if f = [] then (0, None, w1)
        else case net_udp_parse_frame f dst_port cap of
               Some r \<Rightarrow> (1, Some r, w1)
             | None \<Rightarrow> (-1, None, w1))"

text \<open>The frame of \<open>net_udp_selftest\<close>, and the self-tests.\<close>

definition net_udp_selftest :: i32 where
  "net_udp_selftest =
    (let f = replicate (ETH_HLEN + 20 + 8 + 4) 0;
         f = st16 12 (net_bswap16 0x0800) f;
         f = st8 14 0x45 f;
         f = st8 23 17 f;
         f = st16 16 (net_bswap16 32) f;
         f = put_bytes 26 [1, 2, 3, 4] f;
         f = st16 34 (net_bswap16 123) f;
         f = st16 36 (net_bswap16 42424) f;
         f = st16 38 (net_bswap16 12) f;
         f = put_bytes 42 [1, 2, 3, 4] f
     in case net_udp_parse_frame f 42424 4 of
          None \<Rightarrow> -1
        | Some (src, port, body) \<Rightarrow>
            if port \<noteq> 123 \<or> length body \<noteq> 4 \<or> body ! 3 \<noteq> 4 then -1
            else if net_udp_parse_frame (st16 38 (net_bswap16 7) f) 42424 4 = None then 0 else -1)"

definition net_arp_selftest :: "net_env \<Rightarrow> net_state_t \<Rightarrow> i32 \<times> net_state_t" where
  "net_arp_selftest E saved =
    (let w = saved\<lparr>mac := map (\<lambda>i. word_of_nat (0x10 + i)) [0..<6], tx_cur := 0, rx_read_ptr := 0,
               initialized := False, rx_packets := 0, tx_packets := 0, rx_bytes := 0, tx_bytes := 0,
               ip := [10, 0, 2, 15],
               arp := \<lparr>arp_ip = replicate 4 0, arp_mac = replicate 6 0, updated_ticks = 0, arp_valid = False\<rparr>\<rparr>;
         f = replicate (ETH_HLEN + 28) 0;
         f = st16 12 (net_bswap16 0x0806) f;
         f = st16 14 (net_bswap16 1) f;
         f = st16 16 (net_bswap16 0x0800) f;
         f = st8 18 6 f;
         f = st8 19 4 f;
         f = st16 20 (net_bswap16 2) f;
         f = put_bytes 22 (map (\<lambda>i. word_of_nat (0xA0 + i)) [0..<6]) f;
         f = put_bytes 32 (mac w) f;
         f = put_bytes 28 [10, 0, 2, 2] f;
         f = put_bytes 38 (own_ip w) f;
         w1 = net_arp_observe E f w;
         (r, w2) = net_arp_lookup E (arp_spa f) w1;
         (wrong, w3) = net_arp_lookup E [10, 0, 2, 3] w2
     in (if r = Some (arp_sha f) \<and> wrong = None then 0 else -1, saved\<lparr>now := now w3\<rparr>))"

subsection \<open>Loads after stores\<close>

lemma octet_cases:
  fixes n :: nat assumes "n < 32"
  obtains "n < 8" | m where "n = 8 + m" "m < 8" | m where "n = 16 + m" "m < 8" | m where "n = 24 + m" "m < 8"
proof -
  from assms consider "n < 8" | "8 \<le> n" "n < 16" | "16 \<le> n" "n < 24" | "24 \<le> n" "n < 32"
    by linarith
  then show thesis
  proof cases
    case 2 then show thesis using that(2) [of "n - 8"] by simp
  next
    case 3 then show thesis using that(3) [of "n - 16"] by simp
  next
    case 4 then show thesis using that(4) [of "n - 24"] by simp
  qed (use that in auto)
qed

lemma length_put_bytes [simp]: "i + length bs \<le> length f \<Longrightarrow> length (put_bytes i bs f) = length f"
  by (simp add: put_bytes_def)

lemma nth_put_bytes [simp]:
  assumes "i + length bs \<le> length f" and "j < length f"
  shows "put_bytes i bs f ! j = (if i \<le> j \<and> j < i + length bs then bs ! (j - i) else f ! j)"
  using assms by (auto simp: put_bytes_def nth_append min_def)

lemma length_lo [simp]: "length (lo16 v) = 2" "length (lo32 x) = 4"
  by (simp_all add: lo16_def lo32_def)

lemma take_drop_nths:
  assumes "i + n \<le> length f"
  shows "take n (drop i f) = map (\<lambda>j. f ! (i + j)) [0..<n]"
  using assms by (intro nth_equalityI) auto

lemma take_drop_put_bytes_same [simp]:
  assumes "i + length bs \<le> length f" and "n = length bs"
  shows "take n (drop i (put_bytes i bs f)) = bs"
  using assms by (simp add: put_bytes_def)

lemma take_drop_put_bytes_other [simp]:
  assumes "i + length bs \<le> length f" and "a + n \<le> i \<or> i + length bs \<le> a"
  shows "take n (drop a (put_bytes i bs f)) = take n (drop a f)"
proof (cases "a + n \<le> i")
  case True
  then have "take n (drop a (take i f @ r)) = take n (drop a f)" for r
    using assms(1) by (auto simp: take_drop min_def)
  then show ?thesis
    unfolding put_bytes_def .
next
  case False
  then show ?thesis
    using assms by (simp add: put_bytes_def drop_append)
qed

lemma ucast_lo16 [simp]:
  "ucast (ucast v :: u8) OR push_bit 8 (ucast (ucast (drop_bit 8 v) :: u8)) = (v :: u16)"
proof (rule bit_word_eqI)
  fix n :: nat assume "n < LENGTH(16)"
  then have "n < 32" and "n < 16"
    by simp_all
  then show "bit (ucast (ucast v :: u8) OR push_bit 8 (ucast (ucast (drop_bit 8 v) :: u8)) :: u16) n = bit v n"
    by (cases n rule: octet_cases) (simp_all add: bit_simps)
qed

lemma ucast_lo32 [simp]:
  "ucast (ucast v :: u8) OR push_bit 8 (ucast (ucast (drop_bit 8 v) :: u8)) OR
     push_bit 16 (ucast (ucast (drop_bit 16 v) :: u8)) OR
     push_bit 24 (ucast (ucast (drop_bit 24 v) :: u8)) = (v :: u32)" (is "?l = _")
proof (rule bit_word_eqI)
  fix n :: nat assume "n < LENGTH(32)"
  then have "n < 32"
    by simp
  then show "bit ?l n = bit v n"
    by (cases n rule: octet_cases) (simp_all add: bit_simps)
qed

lemma ld16_lo16 [simp]: "ld16 (lo16 v) 0 = v"
  by (simp add: ld16_def lo16_def)

lemma ld16_put_bytes [simp]:
  assumes "i + length bs \<le> length f" and "j + 2 \<le> length f"
  shows "i + length bs \<le> j \<or> j + 2 \<le> i \<Longrightarrow> ld16 (put_bytes i bs f) j = ld16 f j"
  using assms by (auto simp: ld16_def)

lemma ld16_st16 [simp]: "i + 2 \<le> length f \<Longrightarrow> ld16 (st16 i v f) i = v"
  by (simp add: st16_def ld16_def lo16_def)

lemma ld32_put_bytes [simp]:
  assumes "i + length bs \<le> length f" and "j + 4 \<le> length f"
  shows "i + length bs \<le> j \<or> j + 4 \<le> i \<Longrightarrow> ld32 (put_bytes i bs f) j = ld32 f j"
  using assms by (auto simp: ld32_def)

lemma ld32_put_lo32 [simp]: "i + 4 \<le> length f \<Longrightarrow> ld32 (put_bytes i (lo32 v) f) i = v"
  by (simp add: ld32_def lo32_def)

lemma ld16_put_lo16 [simp]: "i + 2 \<le> length f \<Longrightarrow> ld16 (put_bytes i (lo16 v) f) i = v"
  by (simp add: ld16_def lo16_def)

lemma ld16_take_drop: "i + j + 2 \<le> length f \<Longrightarrow> j + 2 \<le> n \<Longrightarrow> ld16 (take n (drop i f)) j = ld16 f (i + j)"
  by (simp add: ld16_def add.assoc)

lemma net_bswap16_bswap16 [simp]: "net_bswap16 (net_bswap16 x) = x"
proof (rule bit_word_eqI)
  fix n :: nat assume "n < LENGTH(16)"
  then have "n < 32" and "n < 16"
    by simp_all
  then show "bit (net_bswap16 (net_bswap16 x)) n = bit x n"
    unfolding net_bswap16_def by (cases n rule: octet_cases) (simp_all add: bit_simps)
qed

lemma net_bswap32_bswap32 [simp]: "net_bswap32 (net_bswap32 x) = x"
proof (rule bit_word_eqI)
  fix n :: nat assume "n < LENGTH(32)"
  then have "n < 32"
    by simp
  moreover have mask8: "(0xFF :: u32) = mask 8"
    by (simp add: mask_eq_exp_minus_1)
  ultimately show "bit (net_bswap32 (net_bswap32 x)) n = bit x n"
    unfolding net_bswap32_def mask8 by (cases n rule: octet_cases) (simp_all add: bit_simps)
qed

subsection \<open>The checksum as a sum modulo 65535\<close>

fun sum16 :: "u8 list \<Rightarrow> nat" where
  "sum16 [] = 0"
| "sum16 [b] = unat b"
| "sum16 (a # b # r) = unat a + 256 * unat b + sum16 r"

lemma unat_ld16: "unat (ld16 [a, b] 0) = unat a + 256 * unat b"
proof -
  have d: "(ucast a :: u16) AND push_bit 8 (ucast b) = 0"
  proof (rule bit_word_eqI)
    fix n :: nat assume "n < LENGTH(16)"
    then have "n < 32" and "n < 16"
      by simp_all
    then show "bit ((ucast a :: u16) AND push_bit 8 (ucast b)) n = bit (0 :: u16) n"
      by (cases n rule: octet_cases) (auto simp: bit_simps dest: bit_imp_le_length)
  qed
  have "ld16 [a, b] 0 = ucast a + push_bit 8 (ucast b)"
    using d by (simp add: ld16_def disjunctive_add_eq_or)
  also have "\<dots> = word_of_nat (unat a + 256 * unat b)"
    by (simp add: push_bit_eq_mult mult.commute)
  finally have "ld16 [a, b] 0 = word_of_nat (unat a + 256 * unat b)" .
  moreover have "unat a + 256 * unat b < 2 ^ LENGTH(16)"
    using unsigned_less [of a, where 'a = nat] unsigned_less [of b, where 'a = nat] by simp
  ultimately show ?thesis
    by (simp only: unsigned_of_nat take_bit_nat_eq_self of_nat_id)
qed

lemma sum16_bound: "sum16 xs \<le> 65535 * length xs"
proof (induction xs rule: sum16.induct)
  case (2 b)
  then show ?case
    using unsigned_less [of b, where 'a = nat] by simp
next
  case (3 a b r)
  then show ?case
    using unsigned_less [of a, where 'a = nat] unsigned_less [of b, where 'a = nat] by simp
qed simp

lemma unat_ucast_widen:
  fixes x :: "'a::len word"
  assumes "LENGTH('a) \<le> LENGTH('b::len)"
  shows "unat (ucast x :: 'b word) = unat x"
proof -
  have "unat x < 2 ^ LENGTH('b)"
    using unsigned_less [of x, where 'a = nat] assms
    by (meson less_le_trans one_le_numeral power_increasing)
  then show ?thesis
    by (simp add: unsigned_ucast_eq take_bit_nat_eq_self)
qed

lemma unat_csum_add:
  "unat s + sum16 xs < 2 ^ 32 \<Longrightarrow> unat (csum_add s xs) = unat s + sum16 xs"
proof (induction s xs rule: csum_add.induct)
  case (2 s b)
  have "unat (ucast b :: u32) = unat b"
    by (rule unat_ucast_widen) simp
  then show ?case
    using 2 unat_add_lem [of s "ucast b"] by simp
next
  case (3 s a b r)
  have "unat (ucast (ld16 [a, b] 0) :: u32) = unat a + 256 * unat b"
    by (simp add: unat_ucast_widen unat_ld16)
  then have "unat (s + ucast (ld16 [a, b] 0)) = unat s + (unat a + 256 * unat b)"
    using "3.prems" unat_add_lem [of s "ucast (ld16 [a, b] 0)"] by simp
  then show ?case
    using 3 by simp
qed simp

lemma csum_fold_range: "unat (csum_fold s) < 65536"
  by (induction s rule: csum_fold.induct) (metis csum_fold.simps drop_bit_16_zero)

lemma csum_fold_mod: "unat (csum_fold s) mod 65535 = unat s mod 65535"
proof (induction s rule: csum_fold.induct)
  case (1 s)
  have "(unat s mod 65536 + unat s div 65536) mod 65535 = unat s mod 65535"
  proof -
    have "unat s = unat s mod 65536 + unat s div 65536 + 65535 * (unat s div 65536)"
      using div_mult_mod_eq [of "unat s" 65536] by linarith
    then show ?thesis
      by (metis mod_mult_self2)
  qed
  then show ?case
    using "1.IH" by (subst csum_fold.simps) (simp add: csum_fold_unat)
qed

lemma csum_fold_pos: "0 < unat s \<Longrightarrow> 0 < unat (csum_fold s)"
proof (induction s rule: csum_fold.induct)
  case (1 s)
  have "0 < unat s mod 65536 + unat s div 65536"
    using "1.prems" by (metis add_gr_0 bot_nat_0.not_eq_extremum div_mult_mod_eq mult_is_0 add_is_0)
  then show ?case
    using 1 by (subst csum_fold.simps) (simp add: csum_fold_unat)
qed

lemma unat_net_ip_checksum:
  assumes "sum16 xs < 2 ^ 32"
  shows "unat (net_ip_checksum xs) = 65535 - unat (csum_fold (csum_add 0 xs))"
proof -
  define v where "v = csum_fold (csum_add 0 xs)"
  have v: "v = word_of_nat (unat v)" and "unat v < 65536"
    using csum_fold_range [of "csum_add 0 xs"] by (simp_all add: v_def)
  have "(ucast (NOT v) :: u16) = NOT (ucast v)"
    by (rule bit_word_eqI) (simp add: bit_simps)
  also have "\<dots> = word_of_nat (65535 - unat v)"
  proof -
    have "(ucast v :: u16) = word_of_nat (unat v)"
      by (simp add: unsigned_def flip: v)
    then show ?thesis
      using \<open>unat v < 65536\<close> by (simp add: not_eq_complement of_nat_diff)
  qed
  finally have "net_ip_checksum xs = word_of_nat (65535 - unat v)"
    by (simp add: net_ip_checksum_def v_def)
  then show ?thesis
    unfolding v_def by (simp add: unsigned_of_nat take_bit_nat_eq_self)
qed

lemma csum_sum:
  assumes "sum16 xs < 2 ^ 32"
  shows "65535 dvd sum16 xs + unat (net_ip_checksum xs) \<and> 0 < sum16 xs + unat (net_ip_checksum xs)"
proof -
  let ?v = "unat (csum_fold (csum_add 0 xs))"
  have v: "?v mod 65535 = sum16 xs mod 65535" "?v < 65536" "unat (csum_add 0 xs) = sum16 xs"
    using csum_fold_mod [of "csum_add 0 xs"] csum_fold_range unat_csum_add [of 0 xs] assms by simp_all
  have "(sum16 xs + (65535 - ?v)) mod 65535 = (?v + (65535 - ?v)) mod 65535"
    by (rule mod_add_cong [OF v(1) [symmetric] refl])
  also have "\<dots> = 0"
  proof -
    have "?v + (65535 - ?v) = 65535"
      using v(2) by linarith
    then show ?thesis
      by (simp only: mod_self)
  qed
  finally have "65535 dvd sum16 xs + (65535 - ?v)"
    by (simp add: mod_eq_0_iff_dvd)
  moreover have "0 < sum16 xs + (65535 - ?v)"
  proof (cases "sum16 xs = 0")
    case True
    then have "csum_add 0 xs = 0"
      using v(3) by (simp add: unat_eq_zero)
    then show ?thesis
      by (simp add: csum_fold.simps)
  qed simp
  ultimately show ?thesis
    by (simp add: unat_net_ip_checksum [OF assms])
qed

lemma csum_zero:
  assumes "sum16 xs < 2 ^ 32" and "65535 dvd sum16 xs" and "0 < sum16 xs"
  shows "net_ip_checksum xs = 0"
proof -
  let ?v = "unat (csum_fold (csum_add 0 xs))"
  have "unat (csum_add 0 xs) = sum16 xs"
    using unat_csum_add [of 0 xs] assms by simp
  then have "?v mod 65535 = 0" "0 < ?v" "?v < 65536"
    using csum_fold_mod [of "csum_add 0 xs"] csum_fold_pos [of "csum_add 0 xs"] csum_fold_range assms
    by (auto simp: dvd_eq_mod_eq_0)
  then have "?v = 65535"
    by (cases "?v < 65535") auto
  then show ?thesis
    using unat_net_ip_checksum [OF assms(1)] by (simp add: unat_eq_zero)
qed

lemma sum16_append: "even (length xs) \<Longrightarrow> sum16 (xs @ ys) = sum16 xs + sum16 ys"
  by (induction xs rule: sum16.induct) auto

lemma sum16_zeros [simp]: "sum16 (replicate n 0) = 0"
  by (induction n rule: less_induct) (metis (no_types, lifting) add_is_0 replicate_0 replicate_Suc sum16.simps
      less_Suc_eq mult_0_right not0_implies_Suc unsigned_0)

text \<open>Storing the checksum of the bytes in a field that was zero makes their sum check.\<close>

lemma csum_store:
  assumes "even i" and "i + 2 \<le> length xs" and "xs ! i = 0" "xs ! (i + 1) = 0" and len: "length xs < 32768"
  shows "net_ip_checksum (put_bytes i (lo16 (net_ip_checksum xs)) xs) = 0"
proof -
  let ?c = "net_ip_checksum xs"
  have "drop i xs = xs ! i # xs ! (i + 1) # drop (i + 2) xs"
    using assms by (simp add: Cons_nth_drop_Suc [symmetric])
  then have split: "xs = take i xs @ [0, 0] @ drop (i + 2) xs"
    using assms append_take_drop_id [of i xs] by simp
  have pair: "unat (ucast ?c :: u8) + 256 * unat (ucast (drop_bit 8 ?c) :: u8) = unat ?c"
    using unat_ld16 [of "ucast ?c" "ucast (drop_bit 8 ?c)"] ld16_lo16 [of ?c] by (simp add: lo16_def)
  have e: "even (length (take i xs))"
    using assms by simp
  have "sum16 xs = sum16 (take i xs) + sum16 (drop (i + 2) xs)"
    using e by (subst split) (simp add: sum16_append)
  moreover have "sum16 (put_bytes i (lo16 ?c) xs) = sum16 (take i xs) + (unat ?c + sum16 (drop (i + 2) xs))"
    using e pair by (simp add: put_bytes_def sum16_append lo16_def)
  ultimately have sum: "sum16 (put_bytes i (lo16 ?c) xs) = sum16 xs + unat ?c"
    by simp
  have "sum16 xs \<le> 65535 * 32768"
    using sum16_bound [of xs] len by linarith
  then have "sum16 xs < 2 ^ 32" "sum16 xs + unat ?c < 2 ^ 32"
    using unsigned_less [of ?c, where 'a = nat] by simp_all
  then show ?thesis
    using csum_sum [of xs] by (intro csum_zero) (simp_all add: sum)
qed

subsection \<open>What the driver leaves alone\<close>

text \<open>
  \<open>net_later w w'\<close>: the driver went from \<open>w\<close> to \<open>w'\<close> without changing its addresses, only
  adding to the wire, and keeping its state well formed.
\<close>

definition net_later :: "net_state_t \<Rightarrow> net_state_t \<Rightarrow> bool" where
  "net_later w w' \<longleftrightarrow> (net_wf w \<longrightarrow> net_wf w') \<and> mac w' = mac w \<and> ip w' = ip w \<and>
     initialized w' = initialized w \<and> (\<exists>fs. wire w' = wire w @ fs) \<and>
     now w \<le> now w' \<and> polls w \<le> polls w'"

lemma net_later_refl [simp]: "net_later w w"
  by (simp add: net_later_def)

lemma net_later_trans [trans]: "net_later u v \<Longrightarrow> net_later v w \<Longrightarrow> net_later u w"
  by (auto simp: net_later_def)

lemma pit_get_ticks_later [simp]: "net_later w (w\<lparr>now := Suc (now w)\<rparr>)"
  by (simp add: net_later_def net_wf_def)

lemma net_send_cases:
  assumes "net_send f w = (r, w')"
  obtains (refused) "r = -1" "w' = w"
  | (sent) "r = 0" "initialized w" "length f \<le> RTL_TX_BUF_SIZE"
      "w' = w\<lparr>tx_bufs := (tx_bufs w)[tx_cur w := put_bytes 0 (f @ replicate (ETH_MIN - length f) 0) (tx_bufs w ! tx_cur w)],
            wire := wire w @ [take (max ETH_MIN (length f)) (put_bytes 0 (f @ replicate (ETH_MIN - length f) 0) (tx_bufs w ! tx_cur w))],
            tx_cur := (tx_cur w + 1) mod RTL_TX_BUFS, tx_packets := tx_packets w + 1,
            tx_bytes := tx_bytes w + word_of_nat (max ETH_MIN (length f))\<rparr>"
proof (cases "\<not> initialized w \<or> length f > RTL_TX_BUF_SIZE")
  case True
  then show thesis
    using assms refused by (auto simp: net_send_def)
next
  case False
  then show thesis
    using assms by (intro sent) (auto simp: net_send_def Let_def max_def)
qed

lemma take_put_bytes_front: "length bs = n \<Longrightarrow> take n (put_bytes 0 bs f) = bs"
  by (simp add: put_bytes_def)

lemma net_send_wire:
  assumes "net_send f w = (r, w')" and "net_wf w"
  shows "wire w' = wire w @ (if r = 0 then [f @ replicate (ETH_MIN - length f) 0] else [])"
  using assms(1)
proof (cases rule: net_send_cases)
  case sent
  then show ?thesis
    by (simp add: take_put_bytes_front max_def)
qed simp

lemma net_send_later: "net_send f w = (r, w') \<Longrightarrow> net_later w w' \<and> now w' = now w \<and> (r = 0 \<or> r = -1)"
proof (erule net_send_cases)
  assume s: "length f \<le> RTL_TX_BUF_SIZE"
    "w' = w\<lparr>tx_bufs := (tx_bufs w)[tx_cur w := put_bytes 0 (f @ replicate (ETH_MIN - length f) 0) (tx_bufs w ! tx_cur w)],
            wire := wire w @ [take (max ETH_MIN (length f)) (put_bytes 0 (f @ replicate (ETH_MIN - length f) 0) (tx_bufs w ! tx_cur w))],
            tx_cur := (tx_cur w + 1) mod RTL_TX_BUFS, tx_packets := tx_packets w + 1,
            tx_bytes := tx_bytes w + word_of_nat (max ETH_MIN (length f))\<rparr>" "r = 0"
  have "length (put_bytes 0 (f @ replicate (ETH_MIN - length f) 0) (tx_bufs w ! tx_cur w)) = RTL_TX_BUF_SIZE"
    if "net_wf w"
    using that s(1) by (simp add: net_wf_def)
  then show ?thesis
    using s by (auto simp: net_later_def net_wf_def dest!: set_update_subset_insert [THEN subsetD])
qed simp

lemma net_send_later_snd: "net_later w (snd (net_send f w)) \<and> now (snd (net_send f w)) = now w"
  using net_send_later [of f w "fst (net_send f w)" "snd (net_send f w)"] by simp

lemma net_arp_request_later: "net_later w (net_arp_request t w) \<and> now (net_arp_request t w) = now w"
  unfolding net_arp_request_def Let_def by (rule net_send_later_snd)

text \<open>\<open>net_arp_observe\<close> ignores a frame, or fills the cache and perhaps answers.\<close>

lemma net_arp_observe_elim:
  assumes "P w"
    and "\<And>v. length f \<ge> 42 \<Longrightarrow> v = w\<lparr>now := Suc (now w), arp := \<lparr>arp_ip = arp_spa f, arp_mac = arp_sha f,
                    updated_ticks = word_of_nat (clock E (now w)), arp_valid = True\<rparr>\<rparr> \<Longrightarrow>
          P v \<and> P (snd (net_send (arp_reply f v) v))"
  shows "P (net_arp_observe E f w)"
proof -
  define v where "v = w\<lparr>now := Suc (now w), arp := \<lparr>arp_ip = arp_spa f, arp_mac = arp_sha f,
                    updated_ticks = word_of_nat (clock E (now w)), arp_valid = True\<rparr>\<rparr>"
  show ?thesis
  proof (cases "length f < 42")
    case True
    then show ?thesis
      using assms(1) by (simp add: net_arp_observe_def)
  next
    case False
    then have "P v" "P (snd (net_send (arp_reply f v) v))"
      using assms(2) [OF _ v_def] by simp_all
    with assms(1) have "P (if a then w else if b then w else if c then w else if d then w else if e then w
        else if g then snd (net_send (arp_reply f v) v) else v)" for a b c d e g
      by simp
    then show ?thesis
      unfolding net_arp_observe_def pit_get_ticks_def Let_def prod.case v_def Suc_eq_plus1 .
  qed
qed

lemma net_arp_observe_later:
  "net_later w (net_arp_observe E f w) \<and> now (net_arp_observe E f w) \<le> now w + 1"
proof (rule net_arp_observe_elim [where P = "\<lambda>v. net_later w v \<and> now v \<le> now w + 1"])
  fix v assume "length f \<ge> 42" and v: "v = w\<lparr>now := Suc (now w), arp := \<lparr>arp_ip = arp_spa f,
      arp_mac = arp_sha f, updated_ticks = word_of_nat (clock E (now w)), arp_valid = True\<rparr>\<rparr>"
  then have "net_later w v \<and> now v = now w + 1"
    by (simp add: net_later_def net_wf_def arp_spa_def arp_sha_def)
  moreover note net_send_later_snd [of v "arp_reply f v"]
  ultimately show "(net_later w v \<and> now v \<le> now w + 1) \<and>
      (net_later w (snd (net_send (arp_reply f v) v)) \<and> now (snd (net_send (arp_reply f v) v)) \<le> now w + 1)"
    by (metis net_later_trans order_refl)
qed simp

lemma net_arp_lookup_later:
  "net_arp_lookup E t w = (r, w') \<Longrightarrow> net_later w w' \<and> now w' \<le> now w + 1"
  by (auto simp: net_arp_lookup_def pit_get_ticks_def split: if_splits)

lemma and_nat_le: "x AND y \<le> (y :: nat)"
proof -
  have "int (x AND y) \<le> int y"
    unfolding of_nat_and_eq by (rule AND_upper2) simp
  then show ?thesis
    by simp
qed

lemma rx_mask:
  "x AND (RTL_RX_RING_SIZE - 4) < RTL_RX_RING_SIZE" "4 dvd x AND (RTL_RX_RING_SIZE - 4)" for x :: nat
proof -
  have "x AND (RTL_RX_RING_SIZE - 4) \<le> RTL_RX_RING_SIZE - 4"
    by (simp add: and_nat_le)
  then show "x AND (RTL_RX_RING_SIZE - 4) < RTL_RX_RING_SIZE"
    by simp
  have "take_bit 2 (x AND (RTL_RX_RING_SIZE - 4)) = take_bit 2 x AND take_bit 2 (RTL_RX_RING_SIZE - 4)"
    by (rule take_bit_and)
  also have "\<dots> = 0"
    by (simp add: take_bit_eq_mod)
  finally have "(x AND (RTL_RX_RING_SIZE - 4)) mod 2 ^ 2 = 0"
    by (simp only: take_bit_eq_mod)
  then show "4 dvd x AND (RTL_RX_RING_SIZE - 4)"
    by (simp only: dvd_eq_mod_eq_0) simp
qed

lemma rx_advance_later: "net_later w (rx_advance p l w) \<and> now (rx_advance p l w) = now w"
  using rx_mask [of "p + 4 + l + 3"]
  by (simp add: rx_advance_def Let_def net_later_def net_wf_def)

text \<open>The states that a poll can leave behind.\<close>

lemma net_recv_elim:
  fixes E m w
  defines "p \<equiv> w\<lparr>polls := polls w + 1\<rparr>"
  assumes "P w" "P p" "\<And>q l. P (rx_advance q l p)"
    and "\<And>g q l i j. P ((rx_advance q l (net_arp_observe E g p))\<lparr>rx_packets := i, rx_bytes := j\<rparr>)"
  shows "P (snd (net_recv E m w))"
  using assms(2-5) unfolding net_recv_def Let_def p_def by simp

lemma net_later_poll: "net_later w (w\<lparr>polls := polls w + 1\<rparr>)"
  by (simp add: net_later_def net_wf_def)

lemma net_wf_count [simp]: "net_wf (v\<lparr>rx_packets := i, rx_bytes := j\<rparr>) \<longleftrightarrow> net_wf v"
  by (simp add: net_wf_def)

lemma net_later_count: "net_later w v \<Longrightarrow> net_later w (v\<lparr>rx_packets := i, rx_bytes := j\<rparr>)"
  by (simp add: net_later_def)

lemma rx_observe_later:
  "net_later w (rx_advance q l (net_arp_observe E g w)) \<and> now (rx_advance q l (net_arp_observe E g w)) \<le> now w + 1"
  using net_arp_observe_later rx_advance_later net_later_trans by metis

lemma net_recv_later:
  assumes "net_recv E m w = (f, w')"
  shows "net_later w w' \<and> now w' \<le> now w + 1"
proof -
  let ?p = "w\<lparr>polls := polls w + 1\<rparr>"
  have 1: "net_later w ?p \<and> now ?p \<le> now w + 1"
    using net_later_poll by simp
  have 2: "net_later w (rx_advance q l ?p) \<and> now (rx_advance q l ?p) \<le> now w + 1" for q l
    using 1 rx_advance_later [of ?p q l] net_later_trans by (metis (no_types))
  have 3: "net_later w ((rx_advance q l (net_arp_observe E g ?p))\<lparr>rx_packets := i, rx_bytes := j\<rparr>) \<and>
      now ((rx_advance q l (net_arp_observe E g ?p))\<lparr>rx_packets := i, rx_bytes := j\<rparr>) \<le> now w + 1" for g q l i j
    using net_later_count [OF net_later_trans [OF net_later_poll]] rx_observe_later [of ?p q l E g] by simp
  show ?thesis
    using net_recv_elim [where P = "\<lambda>v. net_later w v \<and> now v \<le> now w + 1", OF _ 1 2 3, of m] assms by simp
qed

subsection \<open>Loops against the clock\<close>

text \<open>A Hoare rule: \<open>I\<close> holds at every test of the clock, \<open>Q\<close> where the body leaves the loop.\<close>

definition body_keeps where
  "body_keeps I Q body \<longleftrightarrow> (\<forall>x w. I x w \<longrightarrow> I x (w\<lparr>now := now w + 1\<rparr>)) \<and>
     (\<forall>x w r x' w'. I x w \<longrightarrow> body x w = Some (r, x', w') \<longrightarrow> (case r of None \<Rightarrow> I x' w' | Some v \<Rightarrow> Q v x' w'))"

lemma while_ticks_keeps:
  assumes "while_ticks E start limit body x w = Some y"
  shows "I x w \<longrightarrow> body_keeps I Q body \<longrightarrow> (case y of (r, x', w') \<Rightarrow> case r of None \<Rightarrow> I x' w' | Some v \<Rightarrow> Q v x' w')"
  using assms
proof (rule while_ticks.raw_induct [where xa = "(((((E, start), limit), body), x), w)" and
      P = "\<lambda>E start limit body x w y. I x w \<longrightarrow> body_keeps I Q body \<longrightarrow>
        (case y of (r, x', w') \<Rightarrow> case r of None \<Rightarrow> I x' w' | Some v \<Rightarrow> Q v x' w')", unfolded prod.case, rotated])
  fix loop E start limit body x w y
  assume IH: "\<And>E start limit body x w y. loop E start limit body x w = Some y \<Longrightarrow> I x w \<longrightarrow> body_keeps I Q body \<longrightarrow>
      (case y of (r, x', w') \<Rightarrow> case r of None \<Rightarrow> I x' w' | Some v \<Rightarrow> Q v x' w')"
    and y: "(let (t, w1) = pit_get_ticks E w
       in if t - start < limit
          then do { (r, x', w2) \<leftarrow> body x w1;
            (case r of Some _ \<Rightarrow> Some (r, x', w2) | None \<Rightarrow> loop E start limit body x' w2) }
          else Some (None, x, w1)) = Some y"
  let ?w = "w\<lparr>now := now w + 1\<rparr>"
  show "I x w \<longrightarrow> body_keeps I Q body \<longrightarrow>
      (case y of (r, x', w') \<Rightarrow> case r of None \<Rightarrow> I x' w' | Some v \<Rightarrow> Q v x' w')"
  proof (intro impI)
    assume I: "I x w" and keeps: "body_keeps I Q body"
    have I1: "I x ?w"
      using I keeps by (simp add: body_keeps_def)
    show "case y of (r, x', w') \<Rightarrow> case r of None \<Rightarrow> I x' w' | Some v \<Rightarrow> Q v x' w'"
    proof (cases "word_of_nat (clock E (now w)) - start < limit")
      case False
      then show ?thesis
        using y I1 by (auto simp: pit_get_ticks_def)
    next
      case True
      then obtain r1 x1 w2 where b: "body x ?w = Some (r1, x1, w2)"
        and y': "(case r1 of Some _ \<Rightarrow> Some (r1, x1, w2) | None \<Rightarrow> loop E start limit body x1 w2) = Some y"
        using y by (auto simp: pit_get_ticks_def split: bind_splits)
      have "case r1 of None \<Rightarrow> I x1 w2 | Some v \<Rightarrow> Q v x1 w2"
        using b I1 keeps unfolding body_keeps_def by blast
      then show ?thesis
        using y' IH [of E start limit body x1 w2 y] keeps by (cases r1) auto
    qed
  qed
qed

lemma while_ticks_rule:
  assumes "while_ticks E start limit body x w = Some (r, x', w')" and "I x w"
    and "\<And>x w. I x w \<Longrightarrow> I x (w\<lparr>now := now w + 1\<rparr>)"
    and "\<And>x w x' w'. I x w \<Longrightarrow> body x w = Some (None, x', w') \<Longrightarrow> I x' w'"
    and "\<And>x w v x' w'. I x w \<Longrightarrow> body x w = Some (Some v, x', w') \<Longrightarrow> Q v x' w'"
  shows "case r of None \<Rightarrow> I x' w' | Some v \<Rightarrow> Q v x' w'"
proof -
  have "body_keeps I Q body"
    unfolding body_keeps_def using assms(3-5) by (auto split: option.splits)
  then show ?thesis
    using while_ticks_keeps [OF assms(1), of I Q] assms(2) by blast
qed

text \<open>
  Timer interrupts arrive one at a time and never stop.  The readings of the clock are
  close enough together that none is missed.
\<close>

definition clock_ok :: "net_env \<Rightarrow> bool" where
  "clock_ok E \<longleftrightarrow> (\<forall>k. clock E k \<le> clock E (Suc k) \<and> clock E (Suc k) \<le> Suc (clock E k)) \<and>
     (\<forall>n. \<exists>k. n \<le> clock E k) \<and> unat (pit_hz E) \<le> 1000"

definition elapses :: "net_env \<Rightarrow> nat \<Rightarrow> net_state_t \<Rightarrow> net_state_t \<Rightarrow> bool" where
  "elapses E b w w' \<longleftrightarrow> now w \<le> now w' \<and> clock E (now w') \<le> clock E (now w) + b"

lemma clock_mono: "clock_ok E \<Longrightarrow> k \<le> k' \<Longrightarrow> clock E k \<le> clock E k'"
  by (rule lift_Suc_mono_le [of "clock E"]) (simp_all add: clock_ok_def)

lemma clock_step: "clock_ok E \<Longrightarrow> clock E (k + n) \<le> clock E k + n"
proof (induction n)
  case (Suc n)
  then have "clock E (Suc (k + n)) \<le> Suc (clock E (k + n))"
    by (simp add: clock_ok_def)
  then show ?case
    using Suc by simp
qed simp

lemma elapses_reads: "clock_ok E \<Longrightarrow> now w \<le> now w' \<Longrightarrow> now w' \<le> now w + n \<Longrightarrow> elapses E n w w'"
  using clock_step [of E "now w" "now w' - now w"] by (simp add: elapses_def)

lemma elapses_trans: "elapses E a u v \<Longrightarrow> elapses E b v w \<Longrightarrow> elapses E (a + b) u w"
  by (auto simp: elapses_def)

lemma elapses_weaken: "elapses E a u v \<Longrightarrow> a \<le> b \<Longrightarrow> elapses E b u v"
  by (auto simp: elapses_def)

lemma word_diff_nat:
  assumes "s \<le> c" and "c - s < 2 ^ 32"
  shows "unat (word_of_nat c - word_of_nat s :: u32) = c - s"
proof -
  have "(word_of_nat c - word_of_nat s :: u32) = word_of_nat (c - s)"
    using assms(1) by (simp add: of_nat_diff)
  then show ?thesis
    using assms(2) by (simp add: unsigned_of_nat take_bit_nat_eq_self)
qed

text \<open>A loop against the clock ends when its body does, and not much later than its limit.\<close>

lemma while_ticks_returns:
  assumes ok: "clock_ok E" and room: "unat limit + B + 1 < 2 ^ 32"
    and body: "\<And>x w. J x w \<Longrightarrow> \<exists>r x' w'. body x w = Some (r, x', w') \<and>
          (r = None \<longrightarrow> J x' w' \<and> elapses E B w w')"
    and J: "\<And>x w. J x w \<Longrightarrow> J x (w\<lparr>now := now w + 1\<rparr>)"
  shows "J x w \<Longrightarrow> s \<le> clock E (now w) \<Longrightarrow> clock E (now w) \<le> s + unat limit + B \<Longrightarrow>
    \<exists>r x' w'. while_ticks E (word_of_nat s) limit body x w = Some (r, x', w') \<and>
      (r = None \<longrightarrow> J x' w' \<and> now w \<le> now w' \<and> clock E (now w') \<le> s + unat limit + B + 1)"
proof -
  obtain K where K: "s + unat limit \<le> clock E K"
    using ok unfolding clock_ok_def by blast
  show ?thesis if "J x w" "s \<le> clock E (now w)" "clock E (now w) \<le> s + unat limit + B"
    using that
  proof (induction "K - now w" arbitrary: x w rule: less_induct)
    case less
    let ?c = "clock E (now w)" and ?w = "w\<lparr>now := now w + 1\<rparr>"
    have diff: "unat (word_of_nat ?c - word_of_nat s :: u32) = ?c - s"
      using less.prems room by (intro word_diff_nat) simp_all
    have c1: "clock E (now ?w) \<le> ?c + 1" "?c \<le> clock E (now ?w)"
      using clock_step [OF ok, of "now w" 1] clock_mono [OF ok, of "now w" "now ?w"] by simp_all
    show ?case
    proof (cases "?c - s < unat limit")
      case False
      then have "\<not> (word_of_nat ?c - word_of_nat s :: u32) < limit"
        by (simp add: word_less_nat_alt diff)
      then have "while_ticks E (word_of_nat s) limit body x w = Some (None, x, ?w)"
        by (subst while_ticks.simps) (simp add: pit_get_ticks_def)
      then show ?thesis
        using less.prems J c1 by auto
    next
      case True
      then have lt: "(word_of_nat ?c - word_of_nat s :: u32) < limit"
        by (simp add: word_less_nat_alt diff)
      obtain r x1 w2 where b: "body x ?w = Some (r, x1, w2)" "r = None \<longrightarrow> J x1 w2 \<and> elapses E B ?w w2"
        using body [of x ?w] J less.prems(1) by blast
      show ?thesis
      proof (cases r)
        case (Some v)
        then have "while_ticks E (word_of_nat s) limit body x w = Some (r, x1, w2)"
          using b(1) lt by (subst while_ticks.simps) (simp add: pit_get_ticks_def)
        then show ?thesis
          using Some by simp
      next
        case None
        then have eq: "while_ticks E (word_of_nat s) limit body x w = while_ticks E (word_of_nat s) limit body x1 w2"
          using b(1) lt by (subst while_ticks.simps) (simp add: pit_get_ticks_def)
        have e: "J x1 w2" "now w < now w2" "clock E (now w2) \<le> clock E (now ?w) + B"
          using b(2) None by (simp_all add: elapses_def)
        have "\<not> K \<le> now w"
          using clock_mono [OF ok, of K "now w"] K True less.prems by force
        then have "K - now w2 < K - now w"
          using e(2) by simp
        moreover have "s \<le> clock E (now w2)"
          using less.prems(2) clock_mono [OF ok, of "now w" "now w2"] e(2) by simp
        moreover have "clock E (now w2) \<le> s + unat limit + B"
          using True less.prems(2) c1(1) e(3) by linarith
        ultimately obtain r' x' w' where
          "while_ticks E (word_of_nat s) limit body x1 w2 = Some (r', x', w')"
          "r' = None \<longrightarrow> J x' w' \<and> now w2 \<le> now w' \<and> clock E (now w') \<le> s + unat limit + B + 1"
          using less.hyps [of w2 x1] e(1) by blast
        then show ?thesis
          using e(2) by (auto simp: eq)
      qed
    qed
  qed
qed

lemma pit_sleep_later:
  assumes "pit_sleep E ms w = Some w'"
  shows "net_later w w'"
proof (cases "pit_hz E = 0")
  case True
  then show ?thesis
    using assms by (simp add: pit_sleep_def)
next
  case False
  let ?wait = "ms * pit_hz E div 1000"
  let ?body = "\<lambda>x w'. Some (None :: unit option, x, w')"
  from False assms obtain r x where l: "while_ticks E (word_of_nat (clock E (now w)))
      (if ?wait = 0 then 1 else ?wait) ?body () (w\<lparr>now := now w + 1\<rparr>) = Some (r, x, w')"
    unfolding pit_sleep_def Let_def pit_get_ticks_def prod.case by (auto split: bind_splits)
  have "case r of None \<Rightarrow> net_later w w' | Some v \<Rightarrow> False"
    by (rule while_ticks_rule [OF l, where I = "\<lambda>_. net_later w" and Q = "\<lambda>_ _ _. False"])
      (auto intro: net_later_trans)
  then show ?thesis
    by (cases r) auto
qed

lemma pit_sleep_returns:
  assumes ok: "clock_ok E" and ms: "unat ms \<le> 2"
  shows "\<exists>w'. pit_sleep E ms w = Some w' \<and> elapses E 3 w w'"
proof (cases "pit_hz E = 0")
  case True
  then show ?thesis
    by (simp add: pit_sleep_def elapses_def)
next
  case False
  let ?wait = "ms * pit_hz E div 1000"
  let ?limit = "if ?wait = 0 then 1 else ?wait"
  let ?body = "\<lambda>x w'. Some (None :: unit option, x, w')"
  have "unat ms * unat (pit_hz E) \<le> 2 * 1000"
    using ms ok by (intro mult_le_mono) (simp_all add: clock_ok_def)
  then have "unat (ms * pit_hz E) \<le> 2000"
    by (simp add: unat_word_ariths)
  then have "unat ?wait \<le> 2"
    by (simp add: unat_div)
  then have lim: "unat ?limit \<le> 2" "1 \<le> unat ?limit"
    by (auto simp: unat_eq_zero Suc_le_eq unat_gt_0)
  let ?s = "clock E (now w)" and ?w = "w\<lparr>now := now w + 1\<rparr>"
  have step: "?s \<le> clock E (now ?w)" "clock E (now ?w) \<le> ?s + 1"
    using clock_mono [OF ok, of "now w" "now ?w"] clock_step [OF ok, of "now w" 1] by simp_all
  have "\<exists>r x' w'. while_ticks E (word_of_nat ?s) ?limit ?body () ?w = Some (r, x', w') \<and>
      (r = None \<longrightarrow> True \<and> now ?w \<le> now w' \<and> clock E (now w') \<le> ?s + unat ?limit + 0 + 1)"
    using lim step by (intro while_ticks_returns [OF ok]) (auto simp: elapses_def)
  then obtain r x' w' where l: "while_ticks E (word_of_nat ?s) ?limit ?body () ?w = Some (r, x', w')"
    "r = None \<longrightarrow> now ?w \<le> now w' \<and> clock E (now w') \<le> ?s + unat ?limit + 1"
    by auto
  have "case r of None \<Rightarrow> True | Some v \<Rightarrow> False"
    by (rule while_ticks_rule [OF l(1), where I = "\<lambda>_ _. True" and Q = "\<lambda>_ _ _. False"]) auto
  then have "r = None"
    by (cases r) auto
  moreover have "pit_sleep E ms w = Some w'"
    using False l(1) unfolding pit_sleep_def Let_def pit_get_ticks_def prod.case by simp
  ultimately show ?thesis
    using l(2) lim by (auto simp: elapses_def)
qed

subsection \<open>UDP: what is sent is what is parsed\<close>

lemma net_arp_lookup_mac:
  "net_arp_lookup E t w = (Some m, w') \<Longrightarrow> net_wf w \<Longrightarrow> length m = ETH_ALEN"
  by (auto simp: net_arp_lookup_def net_wf_def split: if_splits prod.splits)

lemma net_later_read: "net_later w v \<Longrightarrow> net_later w (v\<lparr>now := now v + 1\<rparr>)"
  using pit_get_ticks_later [of v] net_later_trans [of w v] by simp

lemma resolve_poll_later:
  assumes "resolve_poll E t x v = Some (q, x', v')"
  shows "net_later v v' \<and> (\<forall>m. q = Some m \<longrightarrow> net_wf v \<longrightarrow> length m = ETH_ALEN)"
proof -
  obtain f u where u: "net_recv E ETH_MAX v = (f, u)"
    by fastforce
  obtain q1 u1 where u1: "net_arp_lookup E t u = (q1, u1)"
    by fastforce
  have vu: "net_later v u"
    using net_recv_later [OF u] by simp
  then have vu1: "net_later v u1"
    using net_arp_lookup_later [OF u1] net_later_trans [of v u u1] by simp
  show ?thesis
  proof (cases q1)
    case None
    then obtain w where "pit_sleep E 2 u1 = Some w" "q = None" "v' = w"
      using assms u u1 by (auto simp: resolve_poll_def split: bind_splits)
    then show ?thesis
      using net_later_trans [OF vu1 pit_sleep_later] by simp
  next
    case (Some m)
    then have "q = Some m" "v' = u1"
      using assms u u1 by (simp_all add: resolve_poll_def)
    then show ?thesis
      using vu vu1 net_arp_lookup_mac [of E t u m u1] u1 Some by (simp add: net_later_def)
  qed
qed

lemma net_udp_resolve_mac_later:
  assumes "net_udp_resolve_mac E t w = Some (r, w')" and wf: "net_wf w"
  shows "net_later w w' \<and> (\<forall>m. r = Some m \<longrightarrow> length m = ETH_ALEN)"
proof -
  obtain r1 w1 where lk: "net_arp_lookup E t w = (r1, w1)"
    by fastforce
  have w1: "net_later w w1"
    using net_arp_lookup_later [OF lk] by simp
  show ?thesis
  proof (cases r1)
    case (Some m)
    then show ?thesis
      using assms lk w1 net_arp_lookup_mac by (auto simp: net_udp_resolve_mac_def)
  next
    case None
    define w2 where "w2 = net_arp_request t w1"
    have w2: "net_later w w2"
      using w1 net_arp_request_later [of w1 t] net_later_trans [of w w1 w2] by (simp add: w2_def)
    obtain x where l: "while_ticks E (word_of_nat (clock E (now w2))) 100 (resolve_poll E t) ()
        (w2\<lparr>now := now w2 + 1\<rparr>) = Some (r, x, w')"
      using assms(1) lk None
      unfolding net_udp_resolve_mac_def pit_get_ticks_def Let_def w2_def by (auto split: bind_splits)
    have "case r of None \<Rightarrow> net_later w w' | Some m \<Rightarrow> net_later w w' \<and> length m = ETH_ALEN"
    proof (rule while_ticks_rule [OF l, where I = "\<lambda>_. net_later w" and Q = "\<lambda>m _ v. net_later w v \<and> length m = ETH_ALEN"])
      fix x x' v v' assume v: "net_later w v"
      show "resolve_poll E t x v = Some (None, x', v') \<Longrightarrow> net_later w v'"
        using net_later_trans [OF v] resolve_poll_later by blast
      show "net_later w v' \<and> length m = ETH_ALEN" if "resolve_poll E t x v = Some (Some m, x', v')" for m
        using net_later_trans [OF v, of v'] resolve_poll_later [OF that] v wf by (simp add: net_later_def)
    qed (use w2 net_later_read in blast)+
    then show ?thesis
      by (cases r) auto
  qed
qed

lemma ld16_append [simp]: "j + 2 \<le> n \<Longrightarrow> n \<le> length f \<Longrightarrow> ld16 (take n f @ z) j = ld16 f j"
  by (simp add: ld16_def nth_append)

lemma ld32_append [simp]: "j + 4 \<le> n \<Longrightarrow> n \<le> length f \<Longrightarrow> ld32 (take n f @ z) j = ld32 f j"
  by (simp add: ld32_def nth_append)

lemma take_drop_append [simp]:
  "i + k \<le> n \<Longrightarrow> n \<le> length f \<Longrightarrow> take k (drop i (take n f @ z)) = take k (drop i f)"
  by (auto simp: drop_take min_def)

lemmas store_defs = st8_def st16_def st32_def

text \<open>
  The length of a stored-to frame in a form that the simplifier evaluates in one pass over
  a long sequence of stores.
\<close>

definition put_length :: "nat \<Rightarrow> nat \<Rightarrow> nat \<Rightarrow> nat" where
  "put_length i b n = min i n + b + (n - (i + b))"

lemma length_put_bytes_eval: "length (put_bytes i bs f) = put_length i (length bs) (length f)"
  by (simp add: put_bytes_def put_length_def)

lemma put_length_num [simp]: "i + b \<le> n \<Longrightarrow> put_length i b n = n"
  by (simp add: put_length_def)

lemma net_wf_packet_id [simp]: "net_wf (v\<lparr>packet_id := i\<rparr>) \<longleftrightarrow> net_wf v"
  by (simp add: net_wf_def)

lemma udp_frame_parse:
  assumes wf: "net_wf w" and m: "length m = ETH_ALEN" and dst: "length dst = 4"
    and len: "length payload \<le> NET_UDP_PAYLOAD_MAX" and cap: "length payload \<le> cap"
  shows "net_udp_parse_frame (udp_frame w m dst sport dport payload @ replicate k 0) dport cap =
    Some (own_ip w, sport, payload)"
proof -
  define n where "n = length payload"
  have n: "n \<le> 512" "length payload = n" "n \<le> cap"
    using len cap by (simp_all add: n_def)
  have mac: "length (mac w) = 6" and own: "length (own_ip w) = 4"
    using wf by (simp_all add: net_wf_def own_ip_def)
  define g where "g = put_bytes 42 payload (st16 40 0 (st16 38 (net_bswap16 (word_of_nat (8 + n)))
    (st16 36 (net_bswap16 dport) (st16 34 (net_bswap16 sport) (put_bytes 30 dst (put_bytes 26 (own_ip w)
    (st16 18 (net_bswap16 (packet_id w)) (st8 23 17 (st8 22 64 (st8 14 0x45 (st16 12 (net_bswap16 0x0800)
    (put_bytes 6 (mac w) (put_bytes 0 m (replicate (14 + 20 + 8 + 512) 0))))))))))))))"
  define c where "c = net_ip_checksum (take 20 (drop 14 (st16 16 (net_bswap16 (word_of_nat (20 + 8 + n))) g)))"
  define f where "f = st16 24 c (st16 16 (net_bswap16 (word_of_nat (20 + 8 + n))) g)"
  note facts = n mac own m dst
  have lg: "length g = 554"
    by (simp add: g_def store_defs facts length_put_bytes_eval del: length_put_bytes)
  then have lf: "length f = 554"
    by (simp add: f_def store_defs)
  have F: "ld16 f 12 = net_bswap16 0x0800" "f ! 14 = 0x45" "f ! 23 = 17"
    "ld16 f 16 = net_bswap16 (word_of_nat (28 + n))" "take 4 (drop 26 f) = own_ip w"
    "ld16 f 34 = net_bswap16 sport" "ld16 f 36 = net_bswap16 dport"
    "ld16 f 38 = net_bswap16 (word_of_nat (8 + n))" "take n (drop 42 f) = payload"
    by (simp_all add: f_def lg store_defs del: of_nat_add)
      (simp_all add: g_def store_defs facts length_put_bytes_eval del: length_put_bytes of_nat_add)
  have u: "udp_frame w m dst sport dport payload = take (42 + n) f"
    by (simp add: udp_frame_def Let_def f_def c_def g_def n)
  have w8: "unat (word_of_nat (8 + n) :: u16) = 8 + n" "unat (word_of_nat (28 + n) :: u16) = 28 + n"
    using n by (simp_all add: unsigned_of_nat take_bit_nat_eq_self del: of_nat_add)
  have "\<not> word_of_nat (8 + n) < (8 :: u16)"
    by (simp add: word_less_nat_alt w8(1) del: of_nat_add)
  moreover have "unat (word_of_nat (8 + n) - 8 :: u16) = n"
    using n by (simp add: unsigned_of_nat take_bit_nat_eq_self)
  ultimately show ?thesis
    using n F lf w8 unfolding net_udp_parse_frame_def u eth_ethertype_def Let_def
    by (simp add: nth_append drop_take del: of_nat_add)
qed

text \<open>
  A datagram that \<open>net_udp_sendto\<close> accepts is the last frame on the wire, behind at
  most the ARP frames of its address resolution, and the parser of the receiving side gives
  back the sender's address and port and the payload, whatever the length of the payload and
  however the card pads the frame.
\<close>

theorem udp_sendto_parse:
  assumes "net_wf w" and "length dst = 4" and "length payload \<le> cap"
    and "net_udp_sendto E g dst sport dport payload w = Some (0, w')"
  shows "\<exists>fs f. wire w' = wire w @ fs @ [f] \<and>
    net_udp_parse_frame f dport cap = Some (own_ip w, sport, payload)"
proof -
  have len: "length payload \<le> NET_UDP_PAYLOAD_MAX"
    and res: "do { (r, w1) \<leftarrow> net_udp_resolve_mac E (net_udp_next_hop g w dst) w;
       (case r of None \<Rightarrow> Some (-1, w1) | Some m \<Rightarrow> (let f = udp_frame w1 m dst sport dport payload
             in Some (net_send f (w1\<lparr>packet_id := packet_id w1 + 1\<rparr>)))) } = Some (0, w')"
    using assms(4) unfolding net_udp_sendto_def by (simp_all split: if_splits)
  obtain r w1 where "net_udp_resolve_mac E (net_udp_next_hop g w dst) w = Some (r, w1)"
    using res by (cases "net_udp_resolve_mac E (net_udp_next_hop g w dst) w") auto
  with res obtain m where r: "net_udp_resolve_mac E (net_udp_next_hop g w dst) w = Some (Some m, w1)"
    and s: "net_send (udp_frame w1 m dst sport dport payload) (w1\<lparr>packet_id := packet_id w1 + 1\<rparr>) = (0, w')"
    by (cases r) (simp_all add: Let_def)
  have l: "net_later w w1" "length m = ETH_ALEN"
    using net_udp_resolve_mac_later [OF r assms(1)] by simp_all
  then have w1: "net_wf w1" "own_ip w1 = own_ip w" "net_wf (w1\<lparr>packet_id := packet_id w1 + 1\<rparr>)"
    using assms(1) by (simp_all add: net_later_def own_ip_def)
  let ?u = "udp_frame w1 m dst sport dport payload"
  have "wire w' = wire w1 @ [?u @ replicate (ETH_MIN - length ?u) 0]"
    using net_send_wire [OF s w1(3)] by simp
  moreover obtain fs where "wire w1 = wire w @ fs"
    using l(1) by (auto simp: net_later_def)
  ultimately have "wire w' = wire w @ fs @ [?u @ replicate (ETH_MIN - length ?u) 0]"
    by simp
  moreover have "net_udp_parse_frame (?u @ replicate (ETH_MIN - length ?u) 0) dport cap = Some (own_ip w, sport, payload)"
    using udp_frame_parse [OF w1(1) l(2) assms(2) len assms(3)] w1(2) by simp
  ultimately show ?thesis
    by blast
qed

definition demo_env :: net_env where
  "demo_env = \<lparr>clock = (\<lambda>k. k), pit_hz = 100, rx_dev = (\<lambda>_. \<lparr>bufe = True, rx_ring = replicate RTL_RX_BUF_SIZE 0\<rparr>)\<rparr>"

definition demo_net :: net_state_t where
  "demo_net = \<lparr>mac = [2, 0, 0, 0, 0, 1], tx_bufs = replicate RTL_TX_BUFS (replicate RTL_TX_BUF_SIZE 0), tx_cur = 0,
     rx_read_ptr = 0, initialized = True, rx_packets = 0, tx_packets = 0, rx_bytes = 0, tx_bytes = 0,
     ip = [10, 0, 2, 15],
     arp = \<lparr>arp_ip = [10, 0, 2, 2], arp_mac = [2, 0, 0, 0, 0, 2], updated_ticks = 0, arp_valid = True\<rparr>,
     capr = 0, wire = [], now = 0, polls = 0, packet_id = 1, next_port = 49152\<rparr>"

definition demo_unm :: unm_t where
  "demo_unm = \<lparr>profiles = [], profile_count = 0, active_profile = -1, leased_gw = [10, 0, 2, 2]\<rparr>"

lemma demo_net_wf: "net_wf demo_net"
  by (simp add: net_wf_def demo_net_def)

lemma demo_udp_send: "\<exists>w'. net_udp_sendto demo_env demo_unm [93, 184, 216, 34] 123 42424 [1, 2, 3] demo_net = Some (0, w')"
proof -
  have hop: "net_udp_next_hop demo_unm demo_net [93, 184, 216, 34] = [10, 0, 2, 2]"
    by (simp add: net_udp_next_hop_def demo_unm_def demo_net_def own_ip_def ip_nonzero_def upt_rec)
  have res: "net_udp_resolve_mac demo_env [10, 0, 2, 2] demo_net = Some (Some [2, 0, 0, 0, 0, 2], demo_net\<lparr>now := 1\<rparr>)"
    by (simp add: net_udp_resolve_mac_def net_arp_lookup_def pit_get_ticks_def demo_net_def demo_env_def)
  show ?thesis
    by (simp add: net_udp_sendto_def hop res Let_def net_send_def udp_frame_def)
      (simp add: demo_net_def ip_nonzero_def)
qed

theorem udp_sendto_parse_witness:
  "\<exists>w' fs f. net_udp_sendto demo_env demo_unm [93, 184, 216, 34] 123 42424 [1, 2, 3] demo_net = Some (0, w') \<and>
     wire w' = fs @ [f] \<and> net_udp_parse_frame f 42424 3 = Some ([10, 0, 2, 15], 123, [1, 2, 3])"
proof -
  obtain w' where w': "net_udp_sendto demo_env demo_unm [93, 184, 216, 34] 123 42424 [1, 2, 3] demo_net = Some (0, w')"
    using demo_udp_send by blast
  have "\<exists>fs f. wire w' = wire demo_net @ fs @ [f] \<and>
      net_udp_parse_frame f 42424 3 = Some (own_ip demo_net, 123, [1, 2, 3])"
    by (rule udp_sendto_parse [OF demo_net_wf _ _ w']) simp_all
  then show ?thesis
    using w' by (simp add: own_ip_def demo_net_def)
qed

end
