(* ===== verification/Net_Tcp.thy ===== *)
theory Net_Tcp
  imports Net
begin

unbundle bit_operations_syntax

section \<open>The transport protocol\<close>

text \<open>
  \<open>net_tcp.c\<close>: connections, segments, retransmission and the small buffer for segments out
  of order.  A connection is a record with the fields of \<open>atm_tcp_conn_t\<close>; every function
  takes the card and the clock, the state of the driver and the connection, and returns
  them.  The bodies of the loops against the clock are definitions of their own.
\<close>

subsection \<open>Connections and segments\<close>

abbreviation ATM_TCP_MSS :: nat where "ATM_TCP_MSS \<equiv> 512"
abbreviation ATM_TCP_OOO_MAX :: nat where "ATM_TCP_OOO_MAX \<equiv> 2"
abbreviation ATM_TCP_MAX_PAYLOAD :: nat where "ATM_TCP_MAX_PAYLOAD \<equiv> 512"
abbreviation TCP_HLEN :: nat where "TCP_HLEN \<equiv> 20"
abbreviation IP_PROTO_TCP :: u8 where "IP_PROTO_TCP \<equiv> 6"
abbreviation TCP_FIN :: u8 where "TCP_FIN \<equiv> 0x01"
abbreviation TCP_SYN :: u8 where "TCP_SYN \<equiv> 0x02"
abbreviation TCP_ACK :: u8 where "TCP_ACK \<equiv> 0x10"
abbreviation TCP_SYNACK :: u8 where "TCP_SYNACK \<equiv> 0x12"

datatype atm_tcp_state_t =
    ATM_TCP_CLOSED | ATM_TCP_LISTEN | ATM_TCP_SYN_SENT | ATM_TCP_SYN_RECEIVED
  | ATM_TCP_ESTABLISHED | ATM_TCP_FIN_WAIT | ATM_TCP_ERROR

record tcp_ooo =
  ooo_seq :: u32
  ooo_len :: u16
  ooo_used :: bool
  ooo_data :: "u8 list"

record atm_tcp_conn_t =
  remote_ip :: "u8 list"
  local_port :: u16
  remote_port :: u16
  seq :: u32
  ack :: u32
  retry_count :: u32
  peer_window :: u16
  local_window :: u16
  cwnd :: u16
  ssthresh :: u16
  ooo :: "tcp_ooo list"
  state :: atm_tcp_state_t

text \<open>A connection after \<open>kmemset(c, 0, sizeof(*c))\<close>.\<close>

definition conn_zero :: atm_tcp_conn_t where
  "conn_zero = \<lparr>remote_ip = replicate 4 0, local_port = 0, remote_port = 0, seq = 0, ack = 0,
     retry_count = 0, peer_window = 0, local_window = 0, cwnd = 0, ssthresh = 0,
     ooo = replicate ATM_TCP_OOO_MAX \<lparr>ooo_seq = 0, ooo_len = 0, ooo_used = False,
       ooo_data = replicate ATM_TCP_MSS 0\<rparr>,
     state = ATM_TCP_CLOSED\<rparr>"

text \<open>The checksum over the pseudo header and a segment: 0 for a segment that is too long.\<close>

definition tcp_checksum :: "u8 list \<Rightarrow> u8 list \<Rightarrow> u8 list \<Rightarrow> u16" where
  "tcp_checksum src dst seg =
    (let len = length seg
     in if len > TCP_HLEN + ATM_TCP_MAX_PAYLOAD then 0
        else net_ip_checksum (src @ dst @ [0, IP_PROTO_TCP] @ lo16 (net_bswap16 (word_of_nat len)) @ seg))"

definition ip_src :: "frame \<Rightarrow> u8 list" where
  "ip_src f = take 4 (drop 26 f)"

definition ip_dst :: "frame \<Rightarrow> u8 list" where
  "ip_dst f = take 4 (drop 30 f)"

text \<open>The fields of a segment whose header starts at offset \<open>t\<close>.\<close>

definition th_src_port :: "frame \<Rightarrow> nat \<Rightarrow> u16" where
  "th_src_port f t = net_bswap16 (ld16 f t)"

definition th_dst_port :: "frame \<Rightarrow> nat \<Rightarrow> u16" where
  "th_dst_port f t = net_bswap16 (ld16 f (t + 2))"

definition th_seq :: "frame \<Rightarrow> nat \<Rightarrow> u32" where
  "th_seq f t = net_bswap32 (ld32 f (t + 4))"

definition th_ack :: "frame \<Rightarrow> nat \<Rightarrow> u32" where
  "th_ack f t = net_bswap32 (ld32 f (t + 8))"

definition th_len :: "frame \<Rightarrow> nat \<Rightarrow> nat" where
  "th_len f t = unat (drop_bit 4 (f ! (t + 12))) * 4"

definition th_flags :: "frame \<Rightarrow> nat \<Rightarrow> u8" where
  "th_flags f t = f ! (t + 13)"

definition th_window :: "frame \<Rightarrow> nat \<Rightarrow> u16" where
  "th_window f t = net_bswap16 (ld16 f (t + 14))"

text \<open>\<open>tcp_validate_frame\<close>: the length of the IP header and the length that it states.\<close>

definition tcp_validate_frame :: "frame \<Rightarrow> (nat \<times> nat) option" where
  "tcp_validate_frame f =
    (let n = length f
     in if n < ETH_HLEN + 20 + TCP_HLEN then None
        else let ver_ihl = f ! 14; ihl = unat (ver_ihl AND 15) * 4
             in if net_bswap16 (eth_ethertype f) \<noteq> 0x0800 \<or> drop_bit 4 ver_ihl \<noteq> 4 \<or>
                   f ! 23 \<noteq> IP_PROTO_TCP \<or> ihl < 20 \<or> ihl > 60 \<or> n < ETH_HLEN + ihl + TCP_HLEN \<or>
                   net_ip_checksum (take ihl (drop 14 f)) \<noteq> 0 then None
                else let ip_len = unat (net_bswap16 (ld16 f 16))
                     in if ip_len < ihl + TCP_HLEN \<or> ip_len > n - ETH_HLEN then None
                        else let t = ETH_HLEN + ihl; thl = th_len f t
                             in if thl < TCP_HLEN \<or> thl > 60 \<or> ip_len < ihl + thl \<or>
                                   tcp_checksum (ip_src f) (ip_dst f) (take (ip_len - ihl) (drop t f)) \<noteq> 0
                                then None
                                else Some (ihl, ip_len))"

definition tcp_window_allows :: "atm_tcp_conn_t \<Rightarrow> nat \<Rightarrow> bool" where
  "tcp_window_allows c n \<longleftrightarrow>
    (let lim = (if peer_window c < cwnd c then peer_window c else cwnd c)
     in n \<noteq> 0 \<and> n \<le> ATM_TCP_MAX_PAYLOAD \<and> lim \<noteq> 0 \<and> n \<le> unat lim)"

definition tcp_congestion_init :: "atm_tcp_conn_t \<Rightarrow> atm_tcp_conn_t" where
  "tcp_congestion_init c = c\<lparr>cwnd := of_nat ATM_TCP_MSS, ssthresh := of_nat (ATM_TCP_MSS * 4)\<rparr>"

definition tcp_congestion_ack :: "nat \<Rightarrow> atm_tcp_conn_t \<Rightarrow> atm_tcp_conn_t" where
  "tcp_congestion_ack n c =
    (if cwnd c < ssthresh c
     then let v = unat (cwnd c) + n
          in c\<lparr>cwnd := (if v > ATM_TCP_MSS * 4 then of_nat (ATM_TCP_MSS * 4) else of_nat v)\<rparr>
     else c)"

definition tcp_congestion_loss :: "atm_tcp_conn_t \<Rightarrow> atm_tcp_conn_t" where
  "tcp_congestion_loss c =
    c\<lparr>ssthresh := (if unat (cwnd c) > ATM_TCP_MSS then cwnd c div 2 else of_nat ATM_TCP_MSS),
      cwnd := of_nat ATM_TCP_MSS\<rparr>"

text \<open>\<open>tcp_ooo_take\<close>: the bytes handed out (none when no stored segment fits).\<close>

definition tcp_ooo_take :: "nat \<Rightarrow> atm_tcp_conn_t \<Rightarrow> u8 list \<times> atm_tcp_conn_t" where
  "tcp_ooo_take cap c =
    (case first_idx (\<lambda>i. ooo_used (ooo c ! i) \<and> ooo_seq (ooo c ! i) = ack c \<and> unat (ooo_len (ooo c ! i)) \<le> cap)
       0 ATM_TCP_OOO_MAX of
       Some i \<Rightarrow>
         (let e = ooo c ! i; n = unat (ooo_len e)
          in (take n (ooo_data e),
              c\<lparr>ack := ack c + of_nat n, ooo := (ooo c)[i := e\<lparr>ooo_used := False\<rparr>]\<rparr>))
     | None \<Rightarrow> ([], c))"

definition tcp_ooo_store :: "u32 \<Rightarrow> u8 list \<Rightarrow> atm_tcp_conn_t \<Rightarrow> atm_tcp_conn_t" where
  "tcp_ooo_store s data c =
    (let n = length data
     in if n = 0 \<or> n > ATM_TCP_MSS then c
        else case first_idx (\<lambda>i. ooo_used (ooo c ! i) \<and> ooo_seq (ooo c ! i) = s) 0 ATM_TCP_OOO_MAX of
               Some i \<Rightarrow> c
             | None \<Rightarrow>
                 (case first_idx (\<lambda>i. \<not> ooo_used (ooo c ! i)) 0 ATM_TCP_OOO_MAX of
                    None \<Rightarrow> c
                  | Some i \<Rightarrow>
                      c\<lparr>ooo := (ooo c)[i := \<lparr>ooo_seq = s, ooo_len = of_nat n, ooo_used = True,
                                             ooo_data = put_bytes 0 data (ooo_data (ooo c ! i))\<rparr>]\<rparr>))"

subsection \<open>Building and sending segments\<close>

text \<open>
  The frame that \<open>tcp_send_control\<close> and \<open>atm_tcp_send\<close> build, field by field, in a buffer of
  \<open>sz\<close> bytes: the same stores in the same order, with the payload only in the latter.
\<close>

definition tcp_frame ::
  "nat \<Rightarrow> net_state_t \<Rightarrow> atm_tcp_conn_t \<Rightarrow> u8 list \<Rightarrow> u8 \<Rightarrow> u8 list \<Rightarrow> frame" where
  "tcp_frame sz w c m flags payload =
    (let n = length payload;
         f = replicate sz 0;
         f = put_bytes 0 m f;
         f = put_bytes 6 (mac w) f;
         f = st16 12 (net_bswap16 0x0800) f;
         f = st8 14 0x45 f;
         f = st8 22 64 f;
         f = st8 23 IP_PROTO_TCP f;
         f = st16 16 (net_bswap16 (of_nat (20 + TCP_HLEN + n))) f;
         f = put_bytes 26 (own_ip w) f;
         f = put_bytes 30 (remote_ip c) f;
         f = st16 24 (net_ip_checksum (take 20 (drop 14 f))) f;
         f = st16 34 (net_bswap16 (local_port c)) f;
         f = st16 36 (net_bswap16 (remote_port c)) f;
         f = st32 38 (net_bswap32 (seq c)) f;
         f = st32 42 (net_bswap32 (ack c)) f;
         f = st8 46 0x50 f;
         f = st8 47 flags f;
         f = st16 48 (net_bswap16 (if local_window c \<noteq> 0 then local_window c else of_nat ATM_TCP_MAX_PAYLOAD)) f;
         f = put_bytes 54 payload f;
         f = st16 50 (tcp_checksum (ip_src f) (ip_dst f) (take (TCP_HLEN + n) (drop 34 f))) f
     in f)"

definition tcp_send_control ::
  "net_env \<Rightarrow> atm_tcp_conn_t \<Rightarrow> u8 \<Rightarrow> net_state_t \<Rightarrow> i32 \<times> net_state_t" where
  "tcp_send_control E c flags w =
    (let (r, w1) = net_arp_lookup E (remote_ip c) w
     in case r of
          None \<Rightarrow> (-1, w1)
        | Some m \<Rightarrow> net_send (tcp_frame (ETH_HLEN + 20 + TCP_HLEN) w1 c m flags []) w1)"

text \<open>
  Several loops begin with a poll that sleeps for a millisecond when there is no frame of
  at least the size of the three headers, and skips a frame that does not validate.
\<close>

definition tcp_poll ::
  "net_env \<Rightarrow> net_state_t \<Rightarrow> ((frame \<times> nat \<times> nat) option \<times> net_state_t) option" where
  "tcp_poll E w =
    (let (f, w1) = net_recv E ETH_MAX w
     in if length f < ETH_HLEN + 20 + TCP_HLEN
        then do { w2 \<leftarrow> pit_sleep E 1 w1; Some (None, w2) }
        else case tcp_validate_frame f of
               None \<Rightarrow> Some (None, w1)
             | Some (ihl, ip_len) \<Rightarrow> Some (Some (f, ihl, ip_len), w1))"

subsection \<open>Passive and active open\<close>

definition atm_tcp_listen :: "u16 \<Rightarrow> atm_tcp_conn_t \<Rightarrow> net_state_t \<Rightarrow> i32 \<times> atm_tcp_conn_t" where
  "atm_tcp_listen port l w =
    (if port = 0 \<or> \<not> initialized w then (-1, l)
     else (0, (tcp_congestion_init (conn_zero\<lparr>local_port := port,
                 local_window := of_nat ATM_TCP_MAX_PAYLOAD\<rparr>))\<lparr>state := ATM_TCP_LISTEN\<rparr>))"

definition accept_ack_poll ::
  "net_env \<Rightarrow> atm_tcp_conn_t \<Rightarrow> net_state_t \<Rightarrow> (unit option \<times> atm_tcp_conn_t \<times> net_state_t) option" where
  "accept_ack_poll E out w = do {
     (r, w1) \<leftarrow> tcp_poll E w;
     (case r of
        None \<Rightarrow> Some (None, out, w1)
      | Some (f, ihl, ip_len) \<Rightarrow>
          (let t = ETH_HLEN + ihl
           in if th_flags f t AND TCP_ACK \<noteq> 0 \<and> th_src_port f t = remote_port out \<and>
                 th_dst_port f t = local_port out \<and> th_ack f t = seq out + 1
              then Some (Some (), out\<lparr>seq := seq out + 1, state := ATM_TCP_ESTABLISHED\<rparr>, w1)
              else Some (None, out, w1)))
   }"

text \<open>The retransmission of \<open>SYN|ACK\<close>, with \<open>k\<close> attempts left.\<close>

primrec accept_retry ::
  "nat \<Rightarrow> net_env \<Rightarrow> u32 \<Rightarrow> atm_tcp_conn_t \<Rightarrow> net_state_t \<Rightarrow> (i32 \<times> atm_tcp_conn_t \<times> net_state_t) option" where
  "accept_retry 0 E timeout out w = Some (-1, out\<lparr>state := ATM_TCP_ERROR\<rparr>, w)"
| "accept_retry (Suc k) E timeout out w =
    (let (s, w1) = tcp_send_control E out TCP_SYNACK w
     in if s < 0 then Some (-1, out\<lparr>state := ATM_TCP_ERROR\<rparr>, w1)
        else let slice_ticks = timeout div 3 + 1; (wait, w2) = pit_get_ticks E w1
             in do {
                  (r, out', w3) \<leftarrow> while_ticks E wait slice_ticks (accept_ack_poll E) out w2;
                  (case r of
                     Some _ \<Rightarrow> Some (0, out', w3)
                   | None \<Rightarrow> accept_retry k E timeout (out'\<lparr>retry_count := retry_count out' + 1\<rparr>) w3)
                })"

definition accept_poll ::
  "net_env \<Rightarrow> atm_tcp_conn_t \<Rightarrow> u32 \<Rightarrow> atm_tcp_conn_t \<Rightarrow> net_state_t
    \<Rightarrow> (i32 option \<times> atm_tcp_conn_t \<times> net_state_t) option" where
  "accept_poll E l timeout out w = do {
     (r, w1) \<leftarrow> tcp_poll E w;
     (case r of
        None \<Rightarrow> Some (None, out, w1)
      | Some (f, ihl, ip_len) \<Rightarrow>
          (let t = ETH_HLEN + ihl
           in if th_flags f t \<noteq> TCP_SYN \<or> th_dst_port f t \<noteq> local_port l then Some (None, out, w1)
              else let (now_ticks, w2) = pit_get_ticks E w1;
                       o1 = conn_zero\<lparr>local_port := local_port l, remote_port := th_src_port f t,
                              remote_ip := ip_src f,
                              seq := now_ticks XOR push_bit 16 (ucast (local_port l)),
                              ack := th_seq f t + 1, peer_window := th_window f t,
                              local_window := of_nat ATM_TCP_MAX_PAYLOAD\<rparr>;
                       o2 = (tcp_congestion_init o1)\<lparr>state := ATM_TCP_SYN_RECEIVED, retry_count := 0\<rparr>
                   in do {
                        (res, o3, w3) \<leftarrow> accept_retry 3 E timeout o2 w2;
                        Some (Some res, o3, w3)
                      }))
   }"

definition atm_tcp_accept ::
  "net_env \<Rightarrow> atm_tcp_conn_t \<Rightarrow> u32 \<Rightarrow> atm_tcp_conn_t \<Rightarrow> net_state_t
    \<Rightarrow> (i32 \<times> atm_tcp_conn_t \<times> net_state_t) option" where
  "atm_tcp_accept E l timeout out w =
    (if state l \<noteq> ATM_TCP_LISTEN then Some (-1, out, w)
     else let (start, w1) = pit_get_ticks E w
          in do {
               (r, out', w2) \<leftarrow> while_ticks E start timeout (accept_poll E l timeout) out w1;
               Some (case r of Some v \<Rightarrow> v | None \<Rightarrow> -1, out', w2)
             })"

definition connect_arp_poll ::
  "net_env \<Rightarrow> u8 list \<Rightarrow> unit \<Rightarrow> net_state_t \<Rightarrow> (unit option \<times> unit \<times> net_state_t) option" where
  "connect_arp_poll E target x w =
    (let (f, w1) = net_recv E ETH_MAX w;
         (r, w2) = net_arp_lookup E target w1
     in case r of
          Some _ \<Rightarrow> Some (Some (), x, w2)
        | None \<Rightarrow> do { w3 \<leftarrow> pit_sleep E 1 w2; Some (None, x, w3) })"

text \<open>The address resolution of \<open>atm_tcp_connect\<close>: whether the target is in the cache.\<close>

definition connect_resolve ::
  "net_env \<Rightarrow> u8 list \<Rightarrow> u32 \<Rightarrow> net_state_t \<Rightarrow> (bool \<times> net_state_t) option" where
  "connect_resolve E target timeout w =
    (let (r, w1) = net_arp_lookup E target w
     in case r of
          Some _ \<Rightarrow> Some (True, w1)
        | None \<Rightarrow>
            (let w2 = net_arp_request target w1;
                 (arp_start, w3) = pit_get_ticks E w2
             in do {
                  (_, _, w4) \<leftarrow> while_ticks E arp_start (timeout div 3 + 1) (connect_arp_poll E target) () w3;
                  (let (r, w5) = net_arp_lookup E target w4 in Some (r \<noteq> None, w5))
                }))"

definition connect_poll ::
  "net_env \<Rightarrow> atm_tcp_conn_t \<Rightarrow> net_state_t \<Rightarrow> (i32 option \<times> atm_tcp_conn_t \<times> net_state_t) option" where
  "connect_poll E c w = do {
     (r, w1) \<leftarrow> tcp_poll E w;
     (case r of
        None \<Rightarrow> Some (None, c, w1)
      | Some (f, ihl, ip_len) \<Rightarrow>
          (let t = ETH_HLEN + ihl
           in if th_src_port f t \<noteq> remote_port c \<or> th_dst_port f t \<noteq> local_port c \<or>
                 th_flags f t \<noteq> TCP_SYNACK \<or> th_ack f t \<noteq> seq c + 1 then Some (None, c, w1)
              else let c1 = c\<lparr>ack := th_seq f t + 1, seq := seq c + 1, peer_window := th_window f t,
                              local_window := of_nat ATM_TCP_MAX_PAYLOAD\<rparr>;
                       c2 = (tcp_congestion_init c1)\<lparr>state := ATM_TCP_ESTABLISHED\<rparr>;
                       (s, w2) = tcp_send_control E c2 TCP_ACK w1
                   in Some (Some s, c2, w2)))
   }"

primrec connect_retry ::
  "nat \<Rightarrow> net_env \<Rightarrow> u32 \<Rightarrow> atm_tcp_conn_t \<Rightarrow> net_state_t \<Rightarrow> (i32 \<times> atm_tcp_conn_t \<times> net_state_t) option" where
  "connect_retry 0 E slice_ticks c w = Some (-1, c\<lparr>state := ATM_TCP_ERROR\<rparr>, w)"
| "connect_retry (Suc k) E slice_ticks c w =
    (let (s, w1) = tcp_send_control E c TCP_SYN w
     in if s < 0 then Some (-1, c\<lparr>state := ATM_TCP_ERROR\<rparr>, w1)
        else let (start, w2) = pit_get_ticks E w1
             in do {
                  (r, c', w3) \<leftarrow> while_ticks E start slice_ticks (connect_poll E) c w2;
                  (case r of
                     Some v \<Rightarrow> Some (v, c', w3)
                   | None \<Rightarrow> connect_retry k E slice_ticks (c'\<lparr>retry_count := retry_count c' + 1\<rparr>) w3)
                })"

definition atm_tcp_connect ::
  "net_env \<Rightarrow> u8 list \<Rightarrow> u16 \<Rightarrow> u32 \<Rightarrow> atm_tcp_conn_t \<Rightarrow> net_state_t
    \<Rightarrow> (i32 \<times> atm_tcp_conn_t \<times> net_state_t) option" where
  "atm_tcp_connect E target port timeout c w =
    (if port = 0 \<or> \<not> initialized w then Some (-1, c, w)
     else let (ticks, w1) = pit_get_ticks E (w\<lparr>next_port := next_port w + 1\<rparr>);
              c1 = conn_zero\<lparr>remote_ip := target, remote_port := port, local_port := next_port w,
                     seq := ticks XOR push_bit 16 (ucast (next_port w)), state := ATM_TCP_SYN_SENT\<rparr>
          in do {
               (found, w2) \<leftarrow> connect_resolve E target timeout w1;
               (if \<not> found then Some (-1, c1\<lparr>state := ATM_TCP_ERROR\<rparr>, w2)
                else connect_retry 3 E (timeout div 3 + 1) (c1\<lparr>retry_count := 0\<rparr>) w2)
             })"

subsection \<open>Data and close\<close>

definition send_poll ::
  "net_env \<Rightarrow> nat \<Rightarrow> u32 \<Rightarrow> atm_tcp_conn_t \<Rightarrow> net_state_t \<Rightarrow> (i32 option \<times> atm_tcp_conn_t \<times> net_state_t) option" where
  "send_poll E n expected c w = do {
     (r, w1) \<leftarrow> tcp_poll E w;
     (case r of
        None \<Rightarrow> Some (None, c, w1)
      | Some (f, ihl, ip_len) \<Rightarrow>
          (let t = ETH_HLEN + ihl
           in if th_src_port f t = remote_port c \<and> th_dst_port f t = local_port c \<and>
                 th_flags f t AND TCP_ACK \<noteq> 0 \<and> th_ack f t = expected
              then Some (Some (int n), tcp_congestion_ack n (c\<lparr>peer_window := th_window f t, seq := expected\<rparr>), w1)
              else Some (None, c, w1)))
   }"

primrec send_retry ::
  "nat \<Rightarrow> net_env \<Rightarrow> frame \<Rightarrow> nat \<Rightarrow> u32 \<Rightarrow> atm_tcp_conn_t \<Rightarrow> net_state_t
    \<Rightarrow> (i32 \<times> atm_tcp_conn_t \<times> net_state_t) option" where
  "send_retry 0 E f n expected c w = Some (-1, (tcp_congestion_loss c)\<lparr>state := ATM_TCP_ERROR\<rparr>, w)"
| "send_retry (Suc k) E f n expected c w =
    (let (s, w1) = net_send f w
     in if s < 0 then Some (-1, c, w1)
        else let (start, w2) = pit_get_ticks E w1
             in do {
                  (r, c', w3) \<leftarrow> while_ticks E start 100 (send_poll E n expected) c w2;
                  (case r of
                     Some v \<Rightarrow> Some (v, c', w3)
                   | None \<Rightarrow> send_retry k E f n expected (c'\<lparr>retry_count := retry_count c' + 1\<rparr>) w3)
                })"

definition atm_tcp_send ::
  "net_env \<Rightarrow> u8 list \<Rightarrow> atm_tcp_conn_t \<Rightarrow> net_state_t \<Rightarrow> (i32 \<times> atm_tcp_conn_t \<times> net_state_t) option" where
  "atm_tcp_send E p c w =
    (let n = length p
     in if state c \<noteq> ATM_TCP_ESTABLISHED \<or> \<not> tcp_window_allows c n then Some (-1, c, w)
        else let (r, w1) = net_arp_lookup E (remote_ip c) w
             in case r of
                  None \<Rightarrow> Some (-1, c, w1)
                | Some m \<Rightarrow>
                    (let f = tcp_frame (ETH_HLEN + 20 + TCP_HLEN + ATM_TCP_MAX_PAYLOAD) w1 c m (TCP_ACK OR 0x08) p
                     in send_retry 3 E (take (ETH_HLEN + 20 + TCP_HLEN + n) f) n (seq c + of_nat n)
                          (c\<lparr>retry_count := 0\<rparr>) w1))"

text \<open>\<open>atm_tcp_recv\<close>: the result, the bytes written to the caller's buffer, the connection.\<close>

definition recv_poll ::
  "net_env \<Rightarrow> nat \<Rightarrow> atm_tcp_conn_t \<Rightarrow> net_state_t
    \<Rightarrow> ((i32 \<times> u8 list) option \<times> atm_tcp_conn_t \<times> net_state_t) option" where
  "recv_poll E cap c w = do {
     (r, w1) \<leftarrow> tcp_poll E w;
     (case r of
        None \<Rightarrow> Some (None, c, w1)
      | Some (f, ihl, ip_len) \<Rightarrow>
          (let t = ETH_HLEN + ihl; thl = th_len f t
           in if th_src_port f t \<noteq> remote_port c \<or> th_dst_port f t \<noteq> local_port c then Some (None, c, w1)
              else let data_len = ip_len - ihl - thl
                   in if data_len = 0 \<or> data_len > unat (local_window c) then Some (None, c, w1)
                      else let s = th_seq f t; data = take data_len (drop (t + thl) f)
                           in if s > ack c
                              then let c1 = (tcp_ooo_store s data c)\<lparr>peer_window := th_window f t\<rparr>;
                                       (_, w2) = tcp_send_control E c1 TCP_ACK w1
                                   in Some (None, c1, w2)
                              else if data_len > cap \<or> s \<noteq> ack c then Some (None, c, w1)
                              else let c1 = c\<lparr>ack := ack c + of_nat data_len, peer_window := th_window f t\<rparr>;
                                       (k, w2) = tcp_send_control E c1 TCP_ACK w1
                                   in if k < 0 then Some (Some (-1, data), c1\<lparr>state := ATM_TCP_ERROR\<rparr>, w2)
                                      else Some (Some (int data_len, data), c1, w2)))
   }"

definition atm_tcp_recv ::
  "net_env \<Rightarrow> nat \<Rightarrow> u32 \<Rightarrow> atm_tcp_conn_t \<Rightarrow> net_state_t
    \<Rightarrow> (i32 \<times> u8 list \<times> atm_tcp_conn_t \<times> net_state_t) option" where
  "atm_tcp_recv E cap timeout c w =
    (if cap = 0 \<or> state c \<noteq> ATM_TCP_ESTABLISHED then Some (-1, [], c, w)
     else let (queued, c1) = tcp_ooo_take cap c
          in if queued \<noteq> []
             then let (k, w1) = tcp_send_control E c1 TCP_ACK w
                  in if k < 0 then Some (-1, queued, c1\<lparr>state := ATM_TCP_ERROR\<rparr>, w1)
                     else Some (int (length queued), queued, c1, w1)
             else let (start, w1) = pit_get_ticks E w
                  in do {
                       (r, c2, w2) \<leftarrow> while_ticks E start timeout (recv_poll E cap) c1 w1;
                       Some (case r of Some (v, data) \<Rightarrow> (v, data, c2, w2) | None \<Rightarrow> (-1, [], c2, w2))
                     })"

definition atm_tcp_close ::
  "net_env \<Rightarrow> atm_tcp_conn_t \<Rightarrow> net_state_t \<Rightarrow> i32 \<times> atm_tcp_conn_t \<times> net_state_t" where
  "atm_tcp_close E c w =
    (if state c = ATM_TCP_ESTABLISHED
     then let c1 = c\<lparr>state := ATM_TCP_FIN_WAIT\<rparr>;
              (k, w1) = tcp_send_control E c1 (TCP_FIN OR TCP_ACK) w
          in if k < 0 then (-1, c1\<lparr>state := ATM_TCP_ERROR\<rparr>, w1)
             else (0, c1\<lparr>seq := seq c1 + 1, state := ATM_TCP_CLOSED\<rparr>, w1)
     else (0, c\<lparr>state := ATM_TCP_CLOSED\<rparr>, w))"

definition atm_tcp_selftest :: i32 where
  "atm_tcp_selftest =
    (let f = replicate (ETH_HLEN + 20 + TCP_HLEN) 0;
         f = st16 12 (net_bswap16 0x0800) f;
         f = st8 14 0x45 f;
         f = st8 22 64 f;
         f = st8 23 IP_PROTO_TCP f;
         f = st16 16 (net_bswap16 (of_nat (20 + TCP_HLEN))) f;
         f = st16 24 (net_ip_checksum (take 20 (drop 14 f))) f;
         f = st16 34 (net_bswap16 1000) f;
         f = st16 36 (net_bswap16 2000) f;
         f = st32 38 (net_bswap32 1) f;
         f = st8 46 0x50 f;
         f = st8 47 TCP_ACK f;
         f = st16 48 (net_bswap16 64) f;
         f = st16 50 (tcp_checksum (ip_src f) (ip_dst f) (take TCP_HLEN (drop 34 f))) f
     in if tcp_validate_frame f = None then -1
        else if tcp_validate_frame (st8 24 (f ! 24 XOR 1) f) \<noteq> None then -1
        else let c = (tcp_congestion_init conn_zero)\<lparr>peer_window := 8\<rparr>
             in if \<not> tcp_window_allows c 8 \<or> tcp_window_allows c 9 \<or> tcp_window_allows c 0 then -1 else 0)"

subsection \<open>Segments that are sent validate\<close>

lemma take_drop_put_bytes_inside:
  assumes "a \<le> i" and "i + length bs \<le> a + n" and "a + n \<le> length f"
  shows "take n (drop a (put_bytes i bs f)) = put_bytes (i - a) bs (take n (drop a f))"
proof (rule nth_equalityI)
  show "length (take n (drop a (put_bytes i bs f))) = length (put_bytes (i - a) bs (take n (drop a f)))"
    using assms by simp
  fix j assume "j < length (take n (drop a (put_bytes i bs f)))"
  then have "j < n"
    by simp
  then show "take n (drop a (put_bytes i bs f)) ! j = put_bytes (i - a) bs (take n (drop a f)) ! j"
    using assms by (auto simp: add.commute)
qed

lemma append_put_bytes: "p @ put_bytes i bs f = put_bytes (length p + i) bs (p @ f)"
  by (simp add: put_bytes_def)

text \<open>Writing the checksum of a segment into the zero field of its header makes it check.\<close>

lemma tcp_checksum_store:
  assumes "length src = 4" "length dst = 4" "TCP_HLEN \<le> length seg" "length seg \<le> TCP_HLEN + ATM_TCP_MAX_PAYLOAD"
    and "seg ! 16 = 0" "seg ! 17 = 0"
  shows "tcp_checksum src dst (put_bytes 16 (lo16 (tcp_checksum src dst seg)) seg) = 0"
proof -
  define p where "p = src @ dst @ [0, IP_PROTO_TCP] @ lo16 (net_bswap16 (word_of_nat (length seg)))"
  have p: "length p = 12"
    using assms by (simp add: p_def)
  have eq: "tcp_checksum src dst s = net_ip_checksum (p @ s)" if "length s = length seg" for s
    using assms that by (simp add: tcp_checksum_def p_def)
  have "net_ip_checksum (put_bytes 28 (lo16 (net_ip_checksum (p @ seg))) (p @ seg)) = 0"
    using assms p by (intro csum_store) (simp_all add: nth_append)
  then show ?thesis
    using assms by (simp add: eq append_put_bytes p)
qed

text \<open>The stores of \<open>tcp_frame\<close> before the first and before the second checksum.\<close>

definition tcp_stage_ip :: "nat \<Rightarrow> net_state_t \<Rightarrow> atm_tcp_conn_t \<Rightarrow> u8 list \<Rightarrow> nat \<Rightarrow> frame" where
  "tcp_stage_ip sz w c m n = put_bytes 30 (remote_ip c) (put_bytes 26 (own_ip w)
     (st16 16 (net_bswap16 (of_nat (20 + TCP_HLEN + n))) (st8 23 IP_PROTO_TCP (st8 22 64 (st8 14 0x45
     (st16 12 (net_bswap16 0x0800) (put_bytes 6 (mac w) (put_bytes 0 m (replicate sz 0)))))))))"

definition tcp_stage_seg :: "atm_tcp_conn_t \<Rightarrow> u8 \<Rightarrow> u8 list \<Rightarrow> frame \<Rightarrow> frame" where
  "tcp_stage_seg c flags payload f = put_bytes 54 payload
     (st16 48 (net_bswap16 (if local_window c \<noteq> 0 then local_window c else of_nat ATM_TCP_MAX_PAYLOAD))
     (st8 47 flags (st8 46 0x50 (st32 42 (net_bswap32 (ack c)) (st32 38 (net_bswap32 (seq c))
     (st16 36 (net_bswap16 (remote_port c)) (st16 34 (net_bswap16 (local_port c)) f)))))))"

lemma tcp_frame_stages:
  "tcp_frame sz w c m flags payload =
    (let g = tcp_stage_ip sz w c m (length payload);
         h = tcp_stage_seg c flags payload (st16 24 (net_ip_checksum (take 20 (drop 14 g))) g)
     in st16 50 (tcp_checksum (ip_src h) (ip_dst h) (take (TCP_HLEN + length payload) (drop 34 h))) h)"
  by (simp add: tcp_frame_def tcp_stage_ip_def tcp_stage_seg_def Let_def)

lemma stage_ip_facts:
  assumes sz: "54 + n \<le> sz" and wf: "net_wf w" and rip: "length (remote_ip c) = 4" and m: "length m = ETH_ALEN"
  shows "length (tcp_stage_ip sz w c m n) = sz"
  "ld16 (tcp_stage_ip sz w c m n) 12 = net_bswap16 0x0800"
  "tcp_stage_ip sz w c m n ! 14 = 0x45" "tcp_stage_ip sz w c m n ! 23 = IP_PROTO_TCP"
  "ld16 (tcp_stage_ip sz w c m n) 16 = net_bswap16 (of_nat (40 + n))"
  "take 4 (drop 26 (tcp_stage_ip sz w c m n)) = own_ip w"
  "take 4 (drop 30 (tcp_stage_ip sz w c m n)) = remote_ip c"
  "\<forall>j \<in> {24, 25} \<union> {34..<sz}. tcp_stage_ip sz w c m n ! j = 0"
proof -
  have own: "length (own_ip w) = 4" "length (mac w) = 6"
    using wf by (simp_all add: net_wf_def own_ip_def)
  note defs = tcp_stage_ip_def store_defs own m rip length_put_bytes_eval
  show "length (tcp_stage_ip sz w c m n) = sz"
    "ld16 (tcp_stage_ip sz w c m n) 12 = net_bswap16 0x0800"
    "tcp_stage_ip sz w c m n ! 14 = 0x45" "tcp_stage_ip sz w c m n ! 23 = IP_PROTO_TCP"
    "ld16 (tcp_stage_ip sz w c m n) 16 = net_bswap16 (of_nat (40 + n))"
    "take 4 (drop 26 (tcp_stage_ip sz w c m n)) = own_ip w"
    "take 4 (drop 30 (tcp_stage_ip sz w c m n)) = remote_ip c"
    using sz by (simp_all add: defs del: length_put_bytes of_nat_add)
  show "\<forall>j \<in> {24, 25} \<union> {34..<sz}. tcp_stage_ip sz w c m n ! j = 0"
    using sz by (auto simp add: defs simp del: length_put_bytes)
qed

lemma stage_seg_facts:
  fixes f c flags payload
  defines "h \<equiv> tcp_stage_seg c flags payload f" and "n \<equiv> length payload"
  assumes len: "54 + n \<le> length f"
  shows "length h = length f" "\<forall>j < 34. h ! j = f ! j" "h ! 50 = f ! 50" "h ! 51 = f ! 51"
    "ld16 h 34 = net_bswap16 (local_port c)" "ld16 h 36 = net_bswap16 (remote_port c)"
    "ld32 h 38 = net_bswap32 (seq c)" "ld32 h 42 = net_bswap32 (ack c)" "h ! 46 = 0x50" "h ! 47 = flags"
    "ld16 h 48 = net_bswap16 (if local_window c \<noteq> 0 then local_window c else of_nat ATM_TCP_MAX_PAYLOAD)"
    "take n (drop 54 h) = payload"
proof -
  note defs = h_def tcp_stage_seg_def store_defs length_put_bytes_eval
  show "length h = length f" "h ! 50 = f ! 50" "h ! 51 = f ! 51"
    "ld16 h 34 = net_bswap16 (local_port c)" "ld16 h 36 = net_bswap16 (remote_port c)"
    "ld32 h 38 = net_bswap32 (seq c)" "ld32 h 42 = net_bswap32 (ack c)" "h ! 46 = 0x50" "h ! 47 = flags"
    "ld16 h 48 = net_bswap16 (if local_window c \<noteq> 0 then local_window c else of_nat ATM_TCP_MAX_PAYLOAD)"
    "take n (drop 54 h) = payload"
    using len n_def by (simp_all add: defs del: length_put_bytes)
  show "\<forall>j < 34. h ! j = f ! j"
    using len n_def by (auto simp add: defs simp del: length_put_bytes)
qed

lemma take_drop_agree:
  assumes "a + n \<le> length f" "a + n \<le> length g" and "\<And>j. a \<le> j \<Longrightarrow> j < a + n \<Longrightarrow> f ! j = g ! j"
  shows "take n (drop a f) = take n (drop a g)"
  using assms by (intro nth_equalityI) auto

lemma tcp_frame_valid:
  fixes flags k
  assumes wf: "net_wf w" and rip: "length (remote_ip c) = 4" and m: "length m = ETH_ALEN"
    and n: "length payload \<le> ATM_TCP_MAX_PAYLOAD" and sz: "54 + length payload \<le> sz"
  defines "f \<equiv> take (54 + length payload) (tcp_frame sz w c m flags payload) @ replicate k 0"
  shows "tcp_validate_frame f = Some (20, 40 + length payload)"
    and "th_src_port f 34 = local_port c" "th_dst_port f 34 = remote_port c" "th_seq f 34 = seq c"
    "th_ack f 34 = ack c" "th_flags f 34 = flags" "th_len f 34 = TCP_HLEN"
    "take (length payload) (drop 54 f) = payload"
proof -
  define n where "n = length payload"
  define g where "g = tcp_stage_ip sz w c m n"
  define ck where "ck = net_ip_checksum (take 20 (drop 14 g))"
  define g1 where "g1 = st16 24 ck g"
  define h where "h = tcp_stage_seg c flags payload g1"
  define ck2 where "ck2 = tcp_checksum (ip_src h) (ip_dst h) (take (TCP_HLEN + n) (drop 34 h))"
  define F where "F = st16 50 ck2 h"
  have f: "f = take (54 + n) F @ replicate k 0"
    by (simp add: f_def tcp_frame_stages Let_def F_def ck2_def h_def g1_def ck_def g_def n_def)
  note G = stage_ip_facts [OF sz [folded n_def] wf rip m, folded g_def]
  have lg1: "length g1 = sz" and sz': "54 + n \<le> sz" "n \<le> 512"
    using G(1) sz n by (simp_all add: g1_def st16_def n_def)
  note H = stage_seg_facts [of payload g1 c flags, folded h_def n_def, unfolded lg1, OF sz'(1)]
  have lF: "length F = sz"
    using H(1) sz' by (simp add: F_def st16_def)
  have low: "F ! j = h ! j" "h ! j = (if j = 24 \<or> j = 25 then lo16 ck ! (j - 24) else g ! j)" if "j < 34" for j
    using that H(1,2) G(1) sz' by (auto simp: F_def st16_def g1_def)
  have hd: "take 20 (drop 14 F) = put_bytes 10 (lo16 ck) (take 20 (drop 14 g))"
    by (rule nth_equalityI) (use low lF G(1) sz' in \<open>auto simp: less_Suc_eq\<close>)
  have csum: "net_ip_checksum (take 20 (drop 14 F)) = 0"
    unfolding hd ck_def using G(1,8) sz' by (intro csum_store) auto
  have ips: "ip_src h = own_ip w" "ip_dst h = remote_ip c" "ip_src F = own_ip w" "ip_dst F = remote_ip c"
    using G(6,7) take_drop_agree [of 26 4 h g] take_drop_agree [of 30 4 h g] take_drop_agree [of 26 4 F h]
      take_drop_agree [of 30 4 F h] low lF G(1) H(1) sz' by (auto simp: ip_src_def ip_dst_def)
  have "take (TCP_HLEN + n) (drop 34 F) = put_bytes 16 (lo16 ck2) (take (TCP_HLEN + n) (drop 34 h))"
    using sz' H(1) by (simp add: F_def st16_def take_drop_put_bytes_inside)
  moreover have "h ! 50 = 0" "h ! 51 = 0"
    using H(3,4) G(1,8) sz' by (simp_all add: g1_def st16_def)
  ultimately have csum2: "tcp_checksum (ip_src F) (ip_dst F) (take (TCP_HLEN + n) (drop 34 F)) = 0"
    unfolding ips ck2_def using sz' H(1) wf rip
    by (simp only:, intro tcp_checksum_store) (simp_all add: net_wf_def own_ip_def)
  have keep: "ld16 F j = ld16 h j" "ld32 F j = ld32 h j" if "j + 4 \<le> 50" for j
    using that sz' H(1) by (simp_all add: F_def st16_def)
  have keep48: "ld16 F 48 = ld16 h 48" "F ! 46 = h ! 46" "F ! 47 = h ! 47" "take n (drop 54 F) = take n (drop 54 h)"
    using sz' H(1) by (simp_all add: F_def st16_def)
  have lown: "ld16 F 12 = ld16 g 12" "ld16 F 16 = ld16 g 16" "F ! 14 = g ! 14" "F ! 23 = g ! 23"
    using low by (simp_all add: ld16_def)
  have len40: "unat (of_nat (40 + n) :: u16) = 40 + n"
    using sz' by (simp add: unsigned_of_nat take_bit_nat_eq_self del: of_nat_add)
  show "th_src_port f 34 = local_port c" "th_dst_port f 34 = remote_port c" "th_seq f 34 = seq c"
    "th_ack f 34 = ack c" "th_flags f 34 = flags" "take (length payload) (drop 54 f) = payload"
    and thl: "th_len f 34 = TCP_HLEN"
    using sz' lF H(5-12) keep keep48
    by (simp_all add: f th_src_port_def th_dst_port_def th_seq_def th_ack_def th_flags_def th_len_def nth_append drop_take
        flip: n_def)
  have ihl: "unat ((0x45 :: u8) AND 15) * 4 = 20" "drop_bit 4 (0x45 :: u8) = 4"
    by simp_all
  have ff: "length f = 54 + n + k" "f ! 14 = 0x45" "eth_ethertype f = net_bswap16 0x0800" "f ! 23 = IP_PROTO_TCP"
    "ld16 f 16 = net_bswap16 (of_nat (40 + n))" "take 20 (drop 14 f) = take 20 (drop 14 F)" "ip_src f = ip_src F"
    "ip_dst f = ip_dst F" "take (TCP_HLEN + n) (drop 34 f) = take (TCP_HLEN + n) (drop 34 F)"
    using sz' lF lown G(2-5) by (simp_all add: f eth_ethertype_def ip_src_def ip_dst_def nth_append drop_take del: of_nat_add)
  show "tcp_validate_frame f = Some (20, 40 + length payload)"
    unfolding tcp_validate_frame_def Let_def ff(2) ihl
    using sz' ff csum csum2 thl len40 by (simp add: n_def [symmetric] del: of_nat_add)
qed

lemma tcp_send_control_later:
  "tcp_send_control E c flags w = (r, w') \<Longrightarrow> net_later w w' \<and> now w' \<le> now w + 1"
proof -
  assume a: "tcp_send_control E c flags w = (r, w')"
  obtain q w1 where lk: "net_arp_lookup E (remote_ip c) w = (q, w1)"
    by fastforce
  have w1: "net_later w w1" "now w1 \<le> now w + 1"
    using net_arp_lookup_later [OF lk] by simp_all
  show ?thesis
  proof (cases q)
    case None
    then show ?thesis
      using a lk w1 by (simp add: tcp_send_control_def)
  next
    case (Some m)
    then have "net_send (tcp_frame (ETH_HLEN + 20 + TCP_HLEN) w1 c m flags []) w1 = (r, w')"
      using a lk by (simp add: tcp_send_control_def)
    from net_send_later [OF this] show ?thesis
      using w1 net_later_trans [of w w1 w'] by simp
  qed
qed

text \<open>A control segment on the wire, padded by the driver.\<close>

lemma tcp_control_segment:
  assumes "tcp_send_control E c flags w = (0, w')" and wf: "net_wf w" and rip: "length (remote_ip c) = 4"
  shows "\<exists>f. wire w' = wire w @ [f] \<and> tcp_validate_frame f = Some (20, 40) \<and> th_src_port f 34 = local_port c \<and>
    th_dst_port f 34 = remote_port c \<and> th_seq f 34 = seq c \<and> th_ack f 34 = ack c \<and> th_flags f 34 = flags"
proof -
  obtain q w1 where lk: "net_arp_lookup E (remote_ip c) w = (q, w1)"
    by fastforce
  then obtain m where q: "q = Some m"
    and s: "net_send (tcp_frame (ETH_HLEN + 20 + TCP_HLEN) w1 c m flags []) w1 = (0, w')"
    using assms(1) by (cases q) (simp_all add: tcp_send_control_def)
  have m: "length m = ETH_ALEN" and w1: "net_wf w1" "wire w1 = wire w"
    using lk q wf net_arp_lookup_mac net_arp_lookup_later [OF lk]
    by (auto simp: net_later_def net_arp_lookup_def pit_get_ticks_def split: if_splits)
  let ?t = "tcp_frame (ETH_HLEN + 20 + TCP_HLEN) w1 c m flags []"
  let ?f = "?t @ replicate (ETH_MIN - length ?t) 0"
  have "length ?t = 54"
    using stage_ip_facts(1) [of 0 54 w1 c m] stage_seg_facts(1) [of "[]"] w1 rip m
    by (simp add: tcp_frame_stages Let_def st16_def)
  then have "?f = take (54 + length []) (tcp_frame 54 w1 c m flags []) @ replicate 6 0"
    by simp
  moreover have "wire w' = wire w @ [?f]"
    using net_send_wire [OF s w1(1)] w1(2) by simp
  ultimately show ?thesis
    using tcp_frame_valid [of w1 c m "[]" 54 flags 6] w1(1) rip m by simp
qed

text \<open>What a wait for an acknowledgement adds to the wire comes behind what was there.\<close>

lemma tcp_poll_later:
  assumes "tcp_poll E w = Some (r, w')"
  shows "net_later w w'"
proof -
  obtain f w1 where rv: "net_recv E ETH_MAX w = (f, w1)"
    by fastforce
  note w1 = net_recv_later [OF rv, THEN conjunct1]
  show ?thesis
  proof (cases "length f < ETH_HLEN + 20 + TCP_HLEN")
    case True
    then have "pit_sleep E 1 w1 = Some w'"
      using assms rv by (auto simp: tcp_poll_def split: bind_splits)
    from net_later_trans [OF w1 pit_sleep_later [OF this]] show ?thesis .
  next
    case False
    then have "w' = w1"
      using assms rv by (auto simp: tcp_poll_def split: option.splits)
    then show ?thesis
      using w1 by simp
  qed
qed

lemma tcp_poll_frame:
  assumes "tcp_poll E w = Some (Some (f, ihl, ip_len), w')"
  shows "tcp_validate_frame f = Some (ihl, ip_len) \<and> f = fst (net_recv E ETH_MAX w)"
  using assms by (auto simp: tcp_poll_def split: if_splits bind_splits option.splits prod.splits)

lemma send_poll_later:
  assumes "send_poll E n expected c w = Some (r, c', w')"
  shows "net_later w w' \<and> (\<forall>v. r = Some v \<longrightarrow> v = int n \<and> seq c' = expected)"
proof -
  obtain q w1 where q: "tcp_poll E w = Some (q, w1)"
    using assms by (cases "tcp_poll E w") (auto simp: send_poll_def)
  then have "w' = w1" "\<forall>v. r = Some v \<longrightarrow> v = int n \<and> seq c' = expected"
    using assms by (auto simp: send_poll_def Let_def tcp_congestion_ack_def split: option.splits if_splits)
  then show ?thesis
    using tcp_poll_later [OF q] by simp
qed

lemma while_ticks_later:
  assumes l: "while_ticks E start limit body x w = Some (r, x', w')"
    and body: "\<And>x w r x' w'. body x w = Some (r, x', w') \<Longrightarrow> net_later w w'"
  shows "net_later w w'"
proof -
  have "case r of None \<Rightarrow> net_later w w' | Some v \<Rightarrow> net_later w w'"
    by (rule while_ticks_rule [OF l, where I = "\<lambda>_. net_later w" and Q = "\<lambda>_ _. net_later w"])
      (use body net_later_trans net_later_read net_later_refl in blast)+
  then show ?thesis
    by (cases r) simp_all
qed

lemma send_retry_later:
  "send_retry k E f n expected c w = Some (r, c', w') \<Longrightarrow>
    net_later w w' \<and> (0 \<le> r \<longrightarrow> r = int n \<and> seq c' = expected)"
proof (induction k arbitrary: c w)
  case (Suc k)
  obtain s w1 where s: "net_send f w = (s, w1)"
    by fastforce
  have w1: "net_later w w1"
    using net_send_later [OF s] by simp
  show ?case
  proof (cases "s < 0")
    case True
    then show ?thesis
      using Suc.prems s w1 by simp
  next
    case False
    let ?w2 = "w1\<lparr>now := now w1 + 1\<rparr>"
    obtain q c1 w3 where l: "while_ticks E (word_of_nat (clock E (now w1))) 100 (send_poll E n expected) c ?w2 = Some (q, c1, w3)"
      using Suc.prems s False by (auto simp: pit_get_ticks_def split: bind_splits)
    have "net_later w w3"
      using while_ticks_later [OF l] send_poll_later net_later_trans [OF net_later_read [OF w1]] by blast
    moreover have "case q of None \<Rightarrow> True | Some v \<Rightarrow> v = int n \<and> seq c1 = expected"
      by (rule while_ticks_rule [OF l, where I = "\<lambda>_ _. True" and Q = "\<lambda>v c _. v = int n \<and> seq c = expected"])
        (auto dest: send_poll_later)
    ultimately show ?thesis
      using Suc.prems Suc.IH s False l net_later_trans [of w w3 w']
      by (cases q) (auto simp: pit_get_ticks_def)
  qed
qed simp

lemma send_retry_first:
  assumes sr: "send_retry (Suc k) E f n expected c w = Some (r, c', w')" and r: "0 \<le> r"
  shows "\<exists>w2. net_send f w = (0, w2) \<and> net_later w2 w'"
proof -
  obtain s w2 where s: "net_send f w = (s, w2)"
    by fastforce
  have s0: "s = 0"
    using sr r net_send_later [OF s] s by auto
  obtain x c1 w3 where l: "while_ticks E (word_of_nat (clock E (now w2))) 100
      (send_poll E n expected) c (w2\<lparr>now := now w2 + 1\<rparr>) = Some (x, c1, w3)"
    using sr s s0 by (auto simp: pit_get_ticks_def split: bind_splits)
  have "net_later w2 w3"
    using while_ticks_later [OF l] send_poll_later net_later_trans [OF net_later_read [OF net_later_refl]] by blast
  moreover have "net_later w3 w'"
    using sr s s0 l by (cases x) (auto simp: pit_get_ticks_def dest: send_retry_later)
  ultimately show ?thesis
    using s s0 net_later_trans by blast
qed

text \<open>
  C13. The segment that a successful \<open>atm_tcp_send\<close> puts on the wire passes the receiver's
  \<open>tcp_validate_frame\<close>, both checksums included, and carries the connection's ports, sequence
  and acknowledgement numbers and exactly the bytes given; the sequence number then advances
  by their number.
\<close>

theorem tcp_send_segment:
  assumes wf: "net_wf w" and rip: "length (remote_ip c) = 4"
    and send: "atm_tcp_send E p c w = Some (r, c', w')" and r: "0 \<le> r"
  shows "\<exists>f fs. wire w' = wire w @ f # fs \<and> tcp_validate_frame f = Some (20, 40 + length p) \<and>
    th_src_port f 34 = local_port c \<and> th_dst_port f 34 = remote_port c \<and> th_seq f 34 = seq c \<and>
    th_ack f 34 = ack c \<and> take (length p) (drop 54 f) = p \<and>
    r = int (length p) \<and> seq c' = seq c + of_nat (length p)"
proof -
  let ?n = "length p"
  have guard: "state c = ATM_TCP_ESTABLISHED" "tcp_window_allows c ?n"
    using send r unfolding atm_tcp_send_def Let_def by (auto split: if_splits)
  obtain q w1 where lk: "net_arp_lookup E (remote_ip c) w = (q, w1)"
    by fastforce
  then obtain m where q: "q = Some m"
    using send r guard unfolding atm_tcp_send_def Let_def by (cases q) auto
  define t where "t = take (54 + ?n) (tcp_frame (54 + 512) w1 c m (TCP_ACK OR 0x08) p)"
  have sr: "send_retry 3 E t ?n (seq c + of_nat ?n) (c\<lparr>retry_count := 0\<rparr>) w1 = Some (r, c', w')"
    using send guard lk q unfolding atm_tcp_send_def Let_def t_def by simp
  have n: "?n \<le> ATM_TCP_MAX_PAYLOAD"
    using guard(2) by (auto simp: tcp_window_allows_def Let_def)
  then have sz: "54 + ?n \<le> 54 + 512"
    by simp
  have m: "length m = ETH_ALEN" and w1: "net_wf w1" "wire w1 = wire w"
    using lk q wf net_arp_lookup_mac net_arp_lookup_later [OF lk]
    by (auto simp: net_later_def net_arp_lookup_def pit_get_ticks_def split: if_splits)
  obtain w2 where s: "net_send t w1 = (0, w2)" and "net_later w2 w'"
    using send_retry_first sr r by (metis numeral_3_eq_3)
  then obtain fs where "wire w' = wire w2 @ fs"
    by (auto simp: net_later_def)
  moreover have "wire w2 = wire w @ [t @ replicate (ETH_MIN - length t) 0]"
    using net_send_wire [OF s w1(1)] w1(2) by simp
  ultimately have "wire w' = wire w @ (t @ replicate (ETH_MIN - length t) 0) # fs"
    by simp
  moreover have "r = int ?n \<and> seq c' = seq c + of_nat ?n"
    using send_retry_later [OF sr] r by simp
  ultimately show ?thesis
    using tcp_frame_valid [OF w1(1) rip m n sz, where flags = "TCP_ACK OR 0x08" and k = "ETH_MIN - length t",
        folded t_def] by blast
qed

text \<open>A frame that the card shows at the read pointer is the frame that is received.\<close>

lemma net_recv_frame:
  assumes "initialized w" and "\<not> bufe (rx_dev E (polls w))" and "length pre = rx_read_ptr w"
    and ring: "rx_ring (rx_dev E (polls w)) = pre @ [1, 0] @ lo16 (of_nat (length f + 4)) @ f @ post"
    and len: "length f \<le> ETH_MAX"
  shows "fst (net_recv E ETH_MAX w) = f"
proof -
  let ?r = "rx_ring (rx_dev E (polls w))" and ?p = "rx_read_ptr w"
  have "ld16 ?r ?p = ld16 [1, 0] 0"
    unfolding ring ld16_def by (simp add: nth_append flip: assms(3))
  then have "ld16 ?r ?p = 1"
    by (simp add: ld16_def)
  moreover have "ld16 ?r (?p + 2) = of_nat (length f + 4)"
    unfolding ring ld16_def by (simp add: nth_append lo16_def flip: assms(3) del: of_nat_add)
  moreover have "unat (of_nat (length f + 4) :: u16) = length f + 4"
    using len by (simp add: unsigned_of_nat take_bit_nat_eq_self del: of_nat_add)
  moreover have "take (length f) (drop (?p + 4) ?r) = f"
    unfolding ring by (simp flip: assms(3))
  ultimately show ?thesis
    using assms(1,2) len unfolding net_recv_def Let_def by (simp del: of_nat_add)
qed

definition demo_conn :: atm_tcp_conn_t where
  "demo_conn = (tcp_congestion_init conn_zero)\<lparr>remote_ip := [10, 0, 2, 2], local_port := 49152, remote_port := 80,
     seq := 1000, ack := 7, peer_window := 512, local_window := 512, state := ATM_TCP_ESTABLISHED\<rparr>"

text \<open>The peer's acknowledgement of three bytes, and a card that shows it.\<close>

definition demo_ack :: frame where
  "demo_ack = tcp_frame 54 demo_net (demo_conn\<lparr>local_port := 80, remote_port := 49152, seq := 7, ack := 1003\<rparr>)
     [2, 0, 0, 0, 0, 1] TCP_ACK []"

definition demo_ack_env :: net_env where
  "demo_ack_env = demo_env\<lparr>rx_dev := (\<lambda>_. \<lparr>bufe = False,
     rx_ring = [1, 0] @ lo16 58 @ demo_ack @ replicate (RTL_RX_BUF_SIZE - 58) 0\<rparr>)\<rparr>"

lemma demo_ack_valid:
  "length demo_ack = 54" "tcp_validate_frame demo_ack = Some (20, 40)" "th_src_port demo_ack 34 = 80"
  "th_dst_port demo_ack 34 = 49152" "th_ack demo_ack 34 = 1003" "th_flags demo_ack 34 = TCP_ACK"
proof -
  let ?c = "demo_conn\<lparr>local_port := 80, remote_port := 49152, seq := 7, ack := 1003\<rparr>"
  have rip: "length (remote_ip ?c) = 4"
    by (simp add: demo_conn_def)
  show len: "length demo_ack = 54"
    unfolding demo_ack_def using stage_ip_facts(1) [of 0 54 demo_net ?c "[2, 0, 0, 0, 0, 1]"]
      stage_seg_facts(1) [of "[]"] demo_net_wf rip by (simp add: tcp_frame_stages Let_def st16_def)
  have "take (54 + length []) (tcp_frame 54 demo_net ?c [2, 0, 0, 0, 0, 1] TCP_ACK []) @ replicate 0 0 = demo_ack"
    using len by (simp add: demo_ack_def)
  from tcp_frame_valid [OF demo_net_wf rip _ _ _, of "[2, 0, 0, 0, 0, 1]" "[]" 54 TCP_ACK 0, unfolded this]
  show "tcp_validate_frame demo_ack = Some (20, 40)" "th_src_port demo_ack 34 = 80"
    "th_dst_port demo_ack 34 = 49152" "th_ack demo_ack 34 = 1003" "th_flags demo_ack 34 = TCP_ACK"
    by simp_all
qed

lemma demo_poll:
  assumes "initialized w" "rx_read_ptr w = 0"
  shows "\<exists>w'. tcp_poll demo_ack_env w = Some (Some (demo_ack, 20, 40), w')"
proof -
  have "fst (net_recv demo_ack_env ETH_MAX w) = demo_ack"
    using assms demo_ack_valid(1)
    by (intro net_recv_frame [of w demo_ack_env "[]" demo_ack "replicate (RTL_RX_BUF_SIZE - 58) 0"])
      (simp_all add: demo_ack_env_def)
  then show ?thesis
    using demo_ack_valid by (cases "net_recv demo_ack_env ETH_MAX w") (simp add: tcp_poll_def)
qed

lemma demo_send: "\<exists>c' w'. atm_tcp_send demo_ack_env [1, 2, 3] demo_conn demo_net = Some (3, c', w')"
proof -
  define t where "t = take 57 (tcp_frame 566 (demo_net\<lparr>now := 1\<rparr>) demo_conn [2, 0, 0, 0, 0, 2] (TCP_ACK OR 0x08) [1, 2, 3])"
  have lk: "net_arp_lookup demo_ack_env [10, 0, 2, 2] demo_net = (Some [2, 0, 0, 0, 0, 2], demo_net\<lparr>now := 1\<rparr>)"
    by (simp add: net_arp_lookup_def pit_get_ticks_def demo_net_def demo_ack_env_def demo_env_def)
  have g: "state demo_conn = ATM_TCP_ESTABLISHED" "tcp_window_allows demo_conn 3" "remote_ip demo_conn = [10, 0, 2, 2]"
    "seq demo_conn = 1000"
    by (simp_all add: demo_conn_def tcp_window_allows_def tcp_congestion_init_def)
  have lt: "length t \<le> 57"
    by (simp add: t_def)
  obtain w2 where s: "net_send t (demo_net\<lparr>now := 1\<rparr>) = (0, w2)" "initialized w2" "rx_read_ptr w2 = 0" "now w2 = 1"
    using lt by (auto simp: net_send_def Let_def demo_net_def)
  let ?c = "demo_conn\<lparr>retry_count := 0\<rparr>"
  have "\<exists>c' w'. send_poll demo_ack_env 3 1003 ?c (w2\<lparr>now := 3\<rparr>) = Some (Some 3, c', w')"
  proof -
    obtain w3 where "tcp_poll demo_ack_env (w2\<lparr>now := 3\<rparr>) = Some (Some (demo_ack, 20, 40), w3)"
      using demo_poll [of "w2\<lparr>now := 3\<rparr>"] s by auto
    then show ?thesis
      using demo_ack_valid by (simp add: send_poll_def demo_conn_def tcp_congestion_init_def)
  qed
  then have "\<exists>c' w'. send_retry 3 demo_ack_env t 3 1003 ?c (demo_net\<lparr>now := 1\<rparr>) = Some (3, c', w')"
    using s by (auto simp: numeral_3_eq_3 pit_get_ticks_def while_ticks.simps demo_ack_env_def demo_env_def)
  then show ?thesis
    using g lk unfolding atm_tcp_send_def Let_def t_def by (simp flip: numeral_3_eq_3)
qed

theorem tcp_send_segment_witness:
  "\<exists>c' w' f fs. atm_tcp_send demo_ack_env [1, 2, 3] demo_conn demo_net = Some (3, c', w') \<and> wire w' = f # fs \<and>
    tcp_validate_frame f = Some (20, 43) \<and> th_seq f 34 = 1000 \<and> take 3 (drop 54 f) = [1, 2, 3] \<and> seq c' = 1003"
proof -
  obtain c' w' where s: "atm_tcp_send demo_ack_env [1, 2, 3] demo_conn demo_net = Some (3, c', w')"
    using demo_send by blast
  have "length (remote_ip demo_conn) = 4" "wire demo_net = []" "seq demo_conn = 1000"
    by (simp_all add: demo_conn_def demo_net_def)
  then show ?thesis
    using tcp_send_segment [OF demo_net_wf _ s] s by (auto simp flip: numeral_3_eq_3)
qed

subsection \<open>What is received is the peer's stream\<close>

text \<open>
  The peer sends the bytes of \<open>S\<close>, numbered from \<open>isn\<close>: every segment for the connection that
  the card can show is a piece of \<open>S\<close> with the number of its first byte.  Pieces may come
  late, twice, out of order or cut differently.
\<close>

definition piece_of :: "u32 \<Rightarrow> u8 list \<Rightarrow> u32 \<Rightarrow> u8 list \<Rightarrow> bool" where
  "piece_of isn S s d \<longleftrightarrow> (\<exists>k. s = isn + of_nat k \<and> k + length d \<le> length S \<and> d = take (length d) (drop k S))"

definition segment_honest :: "u32 \<Rightarrow> u8 list \<Rightarrow> atm_tcp_conn_t \<Rightarrow> frame \<Rightarrow> bool" where
  "segment_honest isn S c f \<longleftrightarrow> (\<forall>ihl ip_len. tcp_validate_frame f = Some (ihl, ip_len) \<longrightarrow>
     (let t = ETH_HLEN + ihl; thl = th_len f t; n = ip_len - ihl - thl
      in th_src_port f t = remote_port c \<longrightarrow> th_dst_port f t = local_port c \<longrightarrow>
         n \<noteq> 0 \<longrightarrow> piece_of isn S (th_seq f t) (take n (drop (t + thl) f))))"

definition peer_honest :: "net_env \<Rightarrow> u32 \<Rightarrow> u8 list \<Rightarrow> atm_tcp_conn_t \<Rightarrow> bool" where
  "peer_honest E isn S c \<longleftrightarrow> length S < 2 ^ 32 \<and> (\<forall>w. segment_honest isn S c (fst (net_recv E ETH_MAX w)))"

text \<open>The connection has delivered \<open>off\<close> bytes, and what it has stored are pieces of \<open>S\<close>.\<close>

definition ooo_ok :: "u32 \<Rightarrow> u8 list \<Rightarrow> tcp_ooo \<Rightarrow> bool" where
  "ooo_ok isn S e \<longleftrightarrow> length (ooo_data e) = ATM_TCP_MSS \<and>
     (ooo_used e \<longrightarrow> unat (ooo_len e) \<le> ATM_TCP_MSS \<and> piece_of isn S (ooo_seq e) (take (unat (ooo_len e)) (ooo_data e)))"

definition stream_at :: "u32 \<Rightarrow> u8 list \<Rightarrow> nat \<Rightarrow> atm_tcp_conn_t \<Rightarrow> bool" where
  "stream_at isn S off c \<longleftrightarrow> ack c = isn + of_nat off \<and> off \<le> length S \<and> length (ooo c) = ATM_TCP_OOO_MAX \<and>
     (\<forall>e \<in> set (ooo c). ooo_ok isn S e)"

lemma stream_at_simps [simp]:
  "stream_at isn S off (c\<lparr>peer_window := x\<rparr>) = stream_at isn S off c"
  "stream_at isn S off (c\<lparr>state := y\<rparr>) = stream_at isn S off c"
  by (simp_all add: stream_at_def)

lemma piece_here:
  assumes "piece_of isn S s d" and "s = isn + of_nat off" and "off \<le> length S" and "length S < 2 ^ 32"
  shows "off + length d \<le> length S \<and> d = take (length d) (drop off S)"
proof -
  obtain k where k: "s = isn + of_nat k" "k + length d \<le> length S" "d = take (length d) (drop k S)"
    using assms(1) by (auto simp: piece_of_def)
  then have "(of_nat k :: u32) = of_nat off"
    using assms(2) by simp
  then have "unat (of_nat k :: u32) = unat (of_nat off :: u32)"
    by simp
  then have "k = off"
    using k(2) assms(3,4) by (simp add: unsigned_of_nat take_bit_nat_eq_self)
  then show ?thesis
    using k by simp
qed

lemma tcp_ooo_take_stream:
  assumes "tcp_ooo_take cap c = (q, c')" and st: "stream_at isn S off c" and S: "length S < 2 ^ 32"
  shows "stream_at isn S (off + length q) c' \<and> q = take (length q) (drop off S) \<and>
    state c' = state c \<and> remote_port c' = remote_port c \<and> local_port c' = local_port c"
proof (cases "first_idx (\<lambda>i. ooo_used (ooo c ! i) \<and> ooo_seq (ooo c ! i) = ack c \<and> unat (ooo_len (ooo c ! i)) \<le> cap)
       0 ATM_TCP_OOO_MAX")
  case None
  then show ?thesis
    using assms by (simp add: tcp_ooo_take_def)
next
  case (Some i)
  let ?e = "ooo c ! i"
  have i: "i < ATM_TCP_OOO_MAX" "ooo_used ?e" "ooo_seq ?e = ack c"
    using first_idx_Some [OF Some] by auto
  have e: "ooo_ok isn S ?e"
    using st i(1) by (simp add: stream_at_def)
  have q: "q = take (unat (ooo_len ?e)) (ooo_data ?e)" "length q = unat (ooo_len ?e)"
    and c': "c' = c\<lparr>ack := ack c + of_nat (length q), ooo := (ooo c)[i := ?e\<lparr>ooo_used := False\<rparr>]\<rparr>"
    using assms(1) Some e i by (auto simp: tcp_ooo_take_def Let_def ooo_ok_def min_def)
  have "piece_of isn S (ack c) q"
    using e i q by (simp add: ooo_ok_def)
  then have "off + length q \<le> length S \<and> q = take (length q) (drop off S)"
    using st S by (intro piece_here) (auto simp: stream_at_def)
  moreover have "ooo_ok isn S (?e\<lparr>ooo_used := False\<rparr>)"
    using e by (simp add: ooo_ok_def)
  ultimately show ?thesis
    using st c' by (auto simp: stream_at_def dest!: set_update_subset_insert [THEN subsetD])
qed

lemma tcp_ooo_store_stream:
  assumes st: "stream_at isn S off c" and p: "piece_of isn S s d"
  shows "stream_at isn S off (tcp_ooo_store s d c)"
proof -
  let ?e = "\<lambda>i. \<lparr>ooo_seq = s, ooo_len = of_nat (length d), ooo_used = True,
      ooo_data = put_bytes 0 d (ooo_data (ooo c ! i))\<rparr>"
  have new: "stream_at isn S off (c\<lparr>ooo := (ooo c)[i := ?e i]\<rparr>)"
    if "i < ATM_TCP_OOO_MAX" "length d \<le> ATM_TCP_MSS" for i
  proof -
    have "length (ooo_data (ooo c ! i)) = ATM_TCP_MSS"
      using st that(1) by (simp add: stream_at_def ooo_ok_def)
    moreover have "unat (of_nat (length d) :: u16) = length d"
      using that(2) by (simp add: unsigned_of_nat take_bit_nat_eq_self)
    ultimately have "ooo_ok isn S (?e i)"
      using p that(2) by (simp add: ooo_ok_def take_put_bytes_front)
    then show ?thesis
      using st by (auto simp: stream_at_def dest!: set_update_subset_insert [THEN subsetD])
  qed
  show ?thesis
    using st new first_idx_Some by (auto simp: tcp_ooo_store_def Let_def split: option.split)
qed

lemma tcp_ooo_store_frame [simp]:
  "remote_port (tcp_ooo_store s d c) = remote_port c" "local_port (tcp_ooo_store s d c) = local_port c"
  "state (tcp_ooo_store s d c) = state c"
  by (simp_all add: tcp_ooo_store_def Let_def split: option.splits)

text \<open>One turn of the receive loop: it goes on, or delivers the next bytes, or breaks the connection.\<close>

definition recv_good :: "u32 \<Rightarrow> u8 list \<Rightarrow> nat \<Rightarrow> atm_tcp_conn_t \<Rightarrow> i32 \<Rightarrow> u8 list \<Rightarrow> atm_tcp_conn_t \<Rightarrow> bool" where
  "recv_good isn S off c v d c' \<longleftrightarrow> remote_port c' = remote_port c \<and> local_port c' = local_port c \<and>
     (if v < 0 then state c' = ATM_TCP_ERROR \<or> (state c' = state c \<and> stream_at isn S off c')
      else v = int (length d) \<and> d = take (length d) (drop off S) \<and> state c' = state c \<and>
           stream_at isn S (off + length d) c')"

lemma tcp_validate_len:
  assumes "tcp_validate_frame f = Some (ihl, ip_len)"
  shows "ihl + th_len f (ETH_HLEN + ihl) \<le> ip_len \<and> ETH_HLEN + ip_len \<le> length f \<and> ihl \<le> 60"
  using assms unfolding tcp_validate_frame_def Let_def by (auto split: if_splits)

lemma recv_poll_stream:
  assumes poll: "recv_poll E cap c w = Some (r, c', w')" and honest: "peer_honest E isn S c"
    and st: "stream_at isn S off c"
  shows "case r of None \<Rightarrow> stream_at isn S off c' \<and> remote_port c' = remote_port c \<and>
      local_port c' = local_port c \<and> state c' = state c
    | Some (v, d) \<Rightarrow> recv_good isn S off c v d c'"
proof -
  obtain q w1 where q: "tcp_poll E w = Some (q, w1)"
    using poll by (cases "tcp_poll E w") (auto simp: recv_poll_def)
  show ?thesis
  proof (cases q)
    case None
    then show ?thesis
      using poll q st by (simp add: recv_poll_def)
  next
    case (Some y)
    obtain f ihl ip_len where y: "y = (f, ihl, ip_len)"
      by (cases y)
    define t where "t = ETH_HLEN + ihl"
    define n where "n = ip_len - ihl - th_len f t"
    define d where "d = take n (drop (t + th_len f t) f)"
    define s where "s = th_seq f t"
    note fr = tcp_poll_frame [OF q [unfolded Some y]]
    let ?skip = "th_src_port f t \<noteq> remote_port c \<or> th_dst_port f t \<noteq> local_port c \<or> n = 0 \<or> n > unat (local_window c)"
    show ?thesis
    proof (cases "?skip \<or> (\<not> s > ack c \<and> (n > cap \<or> s \<noteq> ack c))")
      case True
      then have "r = None \<and> c' = c"
        using poll q Some y unfolding recv_poll_def Let_def t_def n_def s_def by (auto split: if_splits)
      then show ?thesis
        using st by simp
    next
      case False
      have p: "piece_of isn S s d"
        using False honest fr unfolding peer_honest_def segment_honest_def Let_def t_def n_def d_def s_def by metis
      have ln: "length d = n"
        using tcp_validate_len [OF conjunct1 [OF fr]] by (auto simp: d_def n_def t_def min_def)
      show ?thesis
      proof (cases "s > ack c")
        case True
        then have "r = None \<and> c' = (tcp_ooo_store s d c)\<lparr>peer_window := th_window f t\<rparr>"
          using poll q Some y False unfolding recv_poll_def Let_def t_def n_def s_def d_def
          by (auto split: if_splits prod.splits)
        then show ?thesis
          using tcp_ooo_store_stream [OF st p] by simp
      next
        case nst: False
        let ?c = "c\<lparr>ack := ack c + of_nat n, peer_window := th_window f t\<rparr>"
        have here: "off + n \<le> length S \<and> d = take n (drop off S)"
          using piece_here [OF p _ _ , of off] False nst st honest ln by (simp add: stream_at_def peer_honest_def)
        then have st': "stream_at isn S (off + n) ?c"
          using st by (simp add: stream_at_def)
        have "(r = Some (-1, d) \<and> c' = ?c\<lparr>state := ATM_TCP_ERROR\<rparr>) \<or> (r = Some (int n, d) \<and> c' = ?c)"
          using poll q Some y False nst unfolding recv_poll_def Let_def t_def n_def s_def d_def
          by (auto split: if_splits prod.splits)
        then show ?thesis
          using here st' ln by (auto simp: recv_good_def)
      qed
    qed
  qed
qed

lemma recv_stream:
  assumes recv: "atm_tcp_recv E cap timeout c w = Some (v, d, c', w')" and honest: "peer_honest E isn S c"
    and st: "stream_at isn S off c"
  shows "recv_good isn S off c v d c'"
proof -
  obtain q c1 where take: "tcp_ooo_take cap c = (q, c1)"
    by fastforce
  have S: "length S < 2 ^ 32"
    using honest by (simp add: peer_honest_def)
  note c1 = tcp_ooo_take_stream [OF take st S]
  show ?thesis
  proof (cases "cap = 0 \<or> state c \<noteq> ATM_TCP_ESTABLISHED")
    case True
    then show ?thesis
      using recv st by (auto simp: atm_tcp_recv_def recv_good_def)
  next
    case up: False
    show ?thesis
    proof (cases "q = []")
      case False
      then show ?thesis
        using recv up take c1 by (auto simp: atm_tcp_recv_def recv_good_def split: prod.splits if_splits)
    next
      case True
      then have st1: "stream_at isn S off c1" "peer_honest E isn S c1"
        using c1 honest by (simp_all add: peer_honest_def segment_honest_def)
      obtain r w1 where l: "while_ticks E (word_of_nat (clock E (now w))) timeout (recv_poll E cap) c1
          (w\<lparr>now := now w + 1\<rparr>) = Some (r, c', w')"
        and res: "(v, d) = (case r of Some (v, d) \<Rightarrow> (v, d) | None \<Rightarrow> (-1, []))"
        using recv up take True
        by (auto simp: atm_tcp_recv_def pit_get_ticks_def split: bind_splits option.splits prod.splits)
      let ?I = "\<lambda>c w. stream_at isn S off c \<and> remote_port c = remote_port c1 \<and> local_port c = local_port c1 \<and> state c = state c1"
      have "case r of None \<Rightarrow> ?I c' w' | Some (v, d) \<Rightarrow> recv_good isn S off c1 v d c'"
      proof -
        have "case r of None \<Rightarrow> ?I c' w' | Some y \<Rightarrow> recv_good isn S off c1 (fst y) (snd y) c'"
        proof (rule while_ticks_rule [OF l, where I = ?I and Q = "\<lambda>y c w. recv_good isn S off c1 (fst y) (snd y) c"])
          fix x w r x' w' assume I: "?I x w"
          then have h: "peer_honest E isn S x"
            using st1(2) by (simp add: peer_honest_def segment_honest_def)
          show "recv_poll E cap x w = Some (None, x', w') \<Longrightarrow> ?I x' w'"
            using recv_poll_stream [OF _ h, of cap w None x' w' off] I by simp
          show "recv_poll E cap x w = Some (Some y, x', w') \<Longrightarrow> recv_good isn S off c1 (fst y) (snd y) x'" for y
            using recv_poll_stream [OF _ h, of cap w "Some y" x' w' off] I
            by (cases y) (auto simp: recv_good_def)
        qed (use st1 in auto)
        then show ?thesis
          by (cases r) auto
      qed
      then show ?thesis
        using res c1 by (cases r) (auto simp: recv_good_def)
    qed
  qed
qed

text \<open>A sequence of calls of \<open>atm_tcp_recv\<close>, and the bytes that the successful ones deliver.\<close>

primrec recv_run ::
  "net_env \<Rightarrow> (nat \<times> u32) list \<Rightarrow> atm_tcp_conn_t \<Rightarrow> net_state_t \<Rightarrow> (u8 list \<times> atm_tcp_conn_t \<times> net_state_t) option" where
  "recv_run E [] c w = Some ([], c, w)"
| "recv_run E (a # as) c w = do {
     (v, d, c1, w1) \<leftarrow> atm_tcp_recv E (fst a) (snd a) c w;
     (ds, c2, w2) \<leftarrow> recv_run E as c1 w1;
     Some ((if v < 0 then [] else d) @ ds, c2, w2)
   }"

lemma recv_run_closed:
  "state c \<noteq> ATM_TCP_ESTABLISHED \<Longrightarrow> recv_run E as c w = Some ([], c, w)"
  by (induction as) (simp_all add: atm_tcp_recv_def)

text \<open>
  C7. Whatever the network does with the peer's segments (delay, loss, duplication,
  reordering, different cuts), the bytes that any sequence of \<open>atm_tcp_recv\<close> calls delivers
  are the next bytes of the peer's stream, each once and in order, also across the
  wrap-around of the sequence numbers; while the connection stays up, the next call goes on
  behind them.
\<close>

theorem tcp_recv_in_order:
  assumes "peer_honest E isn S c" and "stream_at isn S off c"
    and "recv_run E calls c w = Some (ds, c', w')"
  shows "ds = take (length ds) (drop off S) \<and>
    (state c' = ATM_TCP_ESTABLISHED \<longrightarrow> stream_at isn S (off + length ds) c')"
  using assms
proof (induction calls arbitrary: c w off ds)
  case (Cons a as)
  obtain v d c1 w1 ds1 where r: "atm_tcp_recv E (fst a) (snd a) c w = Some (v, d, c1, w1)"
    and rest: "recv_run E as c1 w1 = Some (ds1, c', w')" and ds: "ds = (if v < 0 then [] else d) @ ds1"
    using Cons.prems(3) by (auto split: bind_splits)
  have g: "recv_good isn S off c v d c1"
    by (rule recv_stream [OF r Cons.prems(1,2)])
  have h: "peer_honest E isn S c1"
    using Cons.prems(1) g by (simp add: recv_good_def peer_honest_def segment_honest_def)
  show ?case
  proof (cases "v < 0")
    case True
    then consider "state c1 = ATM_TCP_ERROR" | "stream_at isn S off c1"
      using g by (auto simp: recv_good_def)
    then show ?thesis
      using Cons.IH [OF h _ rest, of off] recv_run_closed [of c1 E as w1] rest ds True by cases auto
  next
    case False
    then have d: "d = take (length d) (drop off S)" and "stream_at isn S (off + length d) c1"
      using g by (simp_all add: recv_good_def)
    then have IH: "ds1 = take (length ds1) (drop (off + length d) S)"
        "state c' = ATM_TCP_ESTABLISHED \<longrightarrow> stream_at isn S (off + length d + length ds1) c'"
      using Cons.IH [OF h _ rest, of "off + length d"] by simp_all
    have "take (length d + length ds1) (drop off S) = d @ ds1"
      using d IH(1) by (simp add: take_add add.commute)
    then show ?thesis
      using ds False IH(2) by (simp add: add.assoc)
  qed
qed simp

text \<open>
  A connection that holds two segments which came out of order, at the wrap-around of the
  sequence numbers.
\<close>

definition demo_rx :: atm_tcp_conn_t where
  "demo_rx = demo_conn\<lparr>ack := 4294967294, ooo :=
     [\<lparr>ooo_seq = 1, ooo_len = 2, ooo_used = True, ooo_data = [4, 5] @ replicate 510 0\<rparr>,
      \<lparr>ooo_seq = 4294967294, ooo_len = 3, ooo_used = True, ooo_data = [1, 2, 3] @ replicate 509 0\<rparr>]\<rparr>"

lemma demo_rx_facts:
  "peer_honest demo_env 4294967294 [1, 2, 3, 4, 5] demo_rx" "stream_at 4294967294 [1, 2, 3, 4, 5] 0 demo_rx"
proof -
  have "fst (net_recv demo_env ETH_MAX w) = []" for w
    by (simp add: net_recv_def demo_env_def Let_def)
  then show "peer_honest demo_env 4294967294 [1, 2, 3, 4, 5] demo_rx"
    by (simp add: peer_honest_def segment_honest_def tcp_validate_frame_def)
  have "piece_of 4294967294 [1, 2, 3, 4, 5] 1 [4, 5]"
    unfolding piece_of_def by (rule exI [of _ 3]) simp
  moreover have "piece_of 4294967294 [1, 2, 3, 4, 5] 4294967294 [1, 2, 3]"
    unfolding piece_of_def by (rule exI [of _ 0]) simp
  ultimately show "stream_at 4294967294 [1, 2, 3, 4, 5] 0 demo_rx"
    by (simp add: stream_at_def demo_rx_def ooo_ok_def)
qed

lemma demo_control:
  assumes "remote_ip c = [10, 0, 2, 2]" "arp w = arp demo_net" "initialized w" "net_wf w" "now w \<le> 6000"
  shows "\<exists>w'. tcp_send_control demo_env c flags w = (0, w') \<and> arp w' = arp demo_net \<and> initialized w' \<and>
    net_wf w' \<and> now w' = now w + 1"
proof -
  let ?m = "[2, 0, 0, 0, 0, 2]" and ?w = "w\<lparr>now := now w + 1\<rparr>"
  have "unat (of_nat (now w) :: u32) = now w"
    using assms(5) by (simp add: unsigned_of_nat take_bit_nat_eq_self)
  then have "\<not> (of_nat (now w) :: u32) > 6000"
    using assms(5) by (simp add: word_less_nat_alt)
  then have lk: "net_arp_lookup demo_env (remote_ip c) w = (Some ?m, ?w)"
    using assms by (simp add: net_arp_lookup_def pit_get_ticks_def demo_net_def demo_env_def)
  have wf: "net_wf ?w"
    using pit_get_ticks_later [of w] assms(4) by (simp add: net_later_def)
  have len: "length (tcp_frame 54 ?w c ?m flags []) = 54"
    using stage_ip_facts(1) [of 0 54 ?w c ?m] stage_seg_facts(1) [of "[]"] wf assms(1)
    by (simp add: tcp_frame_stages Let_def st16_def)
  obtain r w' where s: "net_send (tcp_frame 54 ?w c ?m flags []) ?w = (r, w')"
    by fastforce
  then have "r = 0 \<and> arp w' = arp w"
    using len assms(3) by (auto simp: net_send_def Let_def)
  moreover have "initialized w' \<and> net_wf w' \<and> now w' = now w + 1"
    using net_send_later [OF s] wf assms(3) by (simp add: net_later_def)
  ultimately show ?thesis
    using lk s assms(2) by (simp add: tcp_send_control_def)
qed

lemma demo_recv:
  assumes "tcp_ooo_take 512 c = (q, c1)" "q \<noteq> []" "state c = ATM_TCP_ESTABLISHED" "remote_ip c1 = [10, 0, 2, 2]"
    and "arp w = arp demo_net" "initialized w" "net_wf w" "now w \<le> 6000"
  shows "\<exists>w'. atm_tcp_recv demo_env 512 10 c w = Some (int (length q), q, c1, w') \<and> arp w' = arp demo_net \<and>
    initialized w' \<and> net_wf w' \<and> now w' = now w + 1"
  using demo_control [OF assms(4-8), of TCP_ACK] assms(1-3) by (auto simp: atm_tcp_recv_def)

theorem tcp_recv_in_order_witness:
  "\<exists>ds c' w'. recv_run demo_env [(512, 10), (512, 10)] demo_rx demo_net = Some (ds, c', w') \<and>
    ds = take (length ds) [1, 2, 3, 4, 5] \<and> length ds = 5"
proof -
  let ?e = "demo_rx\<lparr>ack := 1, ooo := (ooo demo_rx)[1 := (ooo demo_rx ! 1)\<lparr>ooo_used := False\<rparr>]\<rparr>"
  have t1: "tcp_ooo_take 512 demo_rx = ([1, 2, 3], ?e)"
    by (simp add: tcp_ooo_take_def demo_rx_def first_idx.simps)
  obtain c2 where t2: "tcp_ooo_take 512 ?e = ([4, 5], c2)" "remote_ip c2 = [10, 0, 2, 2]"
    by (simp add: tcp_ooo_take_def demo_rx_def first_idx.simps demo_conn_def)
  have rip: "remote_ip ?e = [10, 0, 2, 2]" "state ?e = ATM_TCP_ESTABLISHED" "state demo_rx = ATM_TCP_ESTABLISHED"
    by (simp_all add: demo_rx_def demo_conn_def)
  obtain w1 where w1: "atm_tcp_recv demo_env 512 10 demo_rx demo_net = Some (3, [1, 2, 3], ?e, w1)"
    "arp w1 = arp demo_net" "initialized w1" "net_wf w1" "now w1 = 1"
    using demo_recv [OF t1 _ rip(3) rip(1) refl _ demo_net_wf] by (auto simp: demo_net_def)
  obtain w2 where "atm_tcp_recv demo_env 512 10 ?e w1 = Some (2, [4, 5], c2, w2)"
    using demo_recv [OF t2(1) _ rip(2) t2(2) w1(2-4)] w1(5) by auto
  then have run: "recv_run demo_env [(512, 10), (512, 10)] demo_rx demo_net = Some ([1, 2, 3, 4, 5], c2, w2)"
    using w1(1) by simp
  from tcp_recv_in_order [OF demo_rx_facts this] show ?thesis
    using run by simp
qed

subsection \<open>Every call returns\<close>

lemma tcp_poll_returns:
  assumes "clock_ok E"
  shows "\<exists>r w'. tcp_poll E w = Some (r, w') \<and> elapses E 4 w w'"
proof -
  obtain f w1 where rv: "net_recv E ETH_MAX w = (f, w1)"
    by fastforce
  have e1: "elapses E 1 w w1"
    using net_recv_later [OF rv] by (intro elapses_reads [OF assms]) (simp_all add: net_later_def)
  obtain w2 where w2: "pit_sleep E 1 w1 = Some w2" "elapses E 3 w1 w2"
    using pit_sleep_returns [OF assms, of 1 w1] by auto
  show ?thesis
    using rv w2 elapses_trans [OF e1 w2(2)] elapses_weaken [OF e1, of 4]
    by (auto simp: tcp_poll_def split: option.split)
qed

lemma tcp_send_control_elapses:
  "clock_ok E \<Longrightarrow> tcp_send_control E c flags w = (r, w') \<Longrightarrow> elapses E 1 w w'"
  using tcp_send_control_later by (intro elapses_reads) (auto simp: net_later_def)

lemma recv_poll_returns:
  assumes "clock_ok E"
  shows "\<exists>r c' w'. recv_poll E cap c w = Some (r, c', w') \<and> elapses E 5 w w'"
proof -
  obtain q w1 where q: "tcp_poll E w = Some (q, w1)" "elapses E 4 w w1"
    using tcp_poll_returns [OF assms] by blast
  have "elapses E 5 w w2" if "tcp_send_control E c fl w1 = (k, w2)" for c fl k w2
    using elapses_trans [OF q(2) tcp_send_control_elapses [OF assms that]] by simp
  then show ?thesis
    using q(1) elapses_weaken [OF q(2), of 5] by (cases q) (simp_all add: recv_poll_def Let_def split: prod.split)
qed

lemma connect_poll_returns:
  assumes "clock_ok E"
  shows "\<exists>r c' w'. connect_poll E c w = Some (r, c', w') \<and> elapses E 5 w w'"
proof -
  obtain q w1 where q: "tcp_poll E w = Some (q, w1)" "elapses E 4 w w1"
    using tcp_poll_returns [OF assms] by blast
  have "elapses E 5 w w2" if "tcp_send_control E c fl w1 = (k, w2)" for c fl k w2
    using elapses_trans [OF q(2) tcp_send_control_elapses [OF assms that]] by simp
  then show ?thesis
    using q(1) elapses_weaken [OF q(2), of 5] by (cases q) (simp_all add: connect_poll_def Let_def split: prod.split)
qed

lemma ack_polls_return:
  assumes "clock_ok E"
  shows "\<exists>r c' w'. send_poll E n x c w = Some (r, c', w') \<and> elapses E 5 w w'"
    and "\<exists>r c' w'. accept_ack_poll E c w = Some (r, c', w') \<and> elapses E 5 w w'"
proof -
  obtain q w1 where q: "tcp_poll E w = Some (q, w1)" "elapses E 4 w w1"
    using tcp_poll_returns [OF assms] by blast
  note q' = q(1) elapses_weaken [OF q(2), of 5]
  show "\<exists>r c' w'. send_poll E n x c w = Some (r, c', w') \<and> elapses E 5 w w'"
    using q' by (cases q) (simp_all add: send_poll_def Let_def split: prod.split)
  show "\<exists>r c' w'. accept_ack_poll E c w = Some (r, c', w') \<and> elapses E 5 w w'"
    using q' by (cases q) (simp_all add: accept_ack_poll_def Let_def split: prod.split)
qed

lemma connect_arp_poll_returns:
  assumes "clock_ok E"
  shows "\<exists>r x' w'. connect_arp_poll E t x w = Some (r, x', w') \<and> elapses E 5 w w'"
proof -
  obtain f w1 where rv: "net_recv E ETH_MAX w = (f, w1)"
    by fastforce
  obtain r w2 where lk: "net_arp_lookup E t w1 = (r, w2)"
    by fastforce
  have "elapses E 1 w w1" "elapses E 1 w1 w2"
    using net_recv_later [OF rv] net_arp_lookup_later [OF lk]
    by (simp_all add: elapses_reads [OF assms] net_later_def)
  then have e: "elapses E 2 w w2"
    using elapses_trans [of E 1 w w1 1 w2] by (simp add: numeral_2_eq_2)
  obtain w3 where w3: "pit_sleep E 1 w2 = Some w3" "elapses E 3 w2 w3"
    using pit_sleep_returns [OF assms, of 1 w2] by auto
  show ?thesis
    using rv lk w3 elapses_trans [OF e w3(2)] elapses_weaken [OF e, of 5]
    by (cases r) (simp_all add: connect_arp_poll_def)
qed

text \<open>A loop whose start is read just before it, with a body that takes at most five ticks.\<close>

lemma poll_loop_returns_weak:
  assumes ok: "clock_ok E" and lim: "unat limit + 16 < 2 ^ 32"
    and body: "\<And>x w. \<exists>r x' w'. body x w = Some (r, x', w') \<and> (r = None \<longrightarrow> elapses E 5 w w')"
  shows "\<exists>r x' w'. while_ticks E (word_of_nat (clock E (now w))) limit body x (w\<lparr>now := now w + 1\<rparr>) = Some (r, x', w')"
proof -
  have "clock E (now w) \<le> clock E (now w + 1)" "clock E (now w + 1) \<le> clock E (now w) + 1"
    using clock_mono [OF ok, of "now w" "now w + 1"] clock_step [OF ok, of "now w" 1] by simp_all
  then show ?thesis
    using while_ticks_returns [OF ok, of limit 5 "\<lambda>_ _. True" body x "w\<lparr>now := now w + 1\<rparr>" "clock E (now w)"] lim body
    by auto
qed

text \<open>The contract of a loop body that polls the card, and what the loops get from it.\<close>

locale poll_body =
  fixes body :: "net_env \<Rightarrow> 'x \<Rightarrow> net_state_t \<Rightarrow> ('r option \<times> 'x \<times> net_state_t) option"
  assumes body_returns: "clock_ok E \<Longrightarrow> \<exists>r x' w'. body E x w = Some (r, x', w') \<and> elapses E 5 w w'"
begin

lemma loop_returns:
  assumes "clock_ok E" and "unat limit + 16 < 2 ^ 32"
  shows "\<exists>r x' w'. while_ticks E (word_of_nat (clock E (now w))) limit (body E) x (w\<lparr>now := now w + 1\<rparr>) =
    Some (r, x', w')"
  by (rule poll_loop_returns_weak [OF assms]) (use body_returns [OF assms(1)] in fast)

end

interpretation recv_lp: poll_body "\<lambda>E. recv_poll E cap" for cap
  by unfold_locales (rule recv_poll_returns)

interpretation connect_lp: poll_body connect_poll
  by unfold_locales (rule connect_poll_returns)

interpretation send_lp: poll_body "\<lambda>E. send_poll E n x" for n x
  by unfold_locales (rule ack_polls_return)

interpretation accept_lp: poll_body accept_ack_poll
  by unfold_locales (rule ack_polls_return)

interpretation arp_lp: poll_body "\<lambda>E. connect_arp_poll E t" for t
  by unfold_locales (rule connect_arp_poll_returns)

lemma accept_retry_returns:
  assumes ok: "clock_ok E" and lim: "unat (timeout div 3 + 1) + 16 < 2 ^ 32"
  shows "\<exists>y. accept_retry k E timeout out w = Some y"
proof (induction k arbitrary: out w)
  case (Suc k)
  obtain s w1 where s: "tcp_send_control E out TCP_SYNACK w = (s, w1)"
    by fastforce
  have "\<exists>r x' w'. while_ticks E (word_of_nat (clock E (now w1))) (timeout div 3 + 1) (accept_ack_poll E) out
      (w1\<lparr>now := now w1 + 1\<rparr>) = Some (r, x', w')"
    by (rule accept_lp.loop_returns [OF ok]) (use lim in simp)
  then obtain r c' w3 where l: "while_ticks E (word_of_nat (clock E (now w1))) (timeout div 3 + 1) (accept_ack_poll E) out
      (w1\<lparr>now := now w1 + 1\<rparr>) = Some (r, c', w3)"
    by blast
  show ?case
    using Suc.IH by (cases r) (simp_all add: s l [simplified] pit_get_ticks_def)
qed simp

lemma connect_retry_returns:
  assumes ok: "clock_ok E" and lim: "unat limit + 16 < 2 ^ 32"
  shows "\<exists>y. connect_retry k E limit c w = Some y"
proof (induction k arbitrary: c w)
  case (Suc k)
  obtain s w1 where s: "tcp_send_control E c TCP_SYN w = (s, w1)"
    by fastforce
  have "\<exists>r x' w'. while_ticks E (word_of_nat (clock E (now w1))) limit (connect_poll E) c
      (w1\<lparr>now := now w1 + 1\<rparr>) = Some (r, x', w')"
    by (rule connect_lp.loop_returns [OF ok]) (use lim in simp)
  then obtain r c' w3 where l: "while_ticks E (word_of_nat (clock E (now w1))) limit (connect_poll E) c
      (w1\<lparr>now := now w1 + 1\<rparr>) = Some (r, c', w3)"
    by blast
  show ?case
    using Suc.IH by (cases r) (simp_all add: s l [simplified] pit_get_ticks_def)
qed simp

lemma send_retry_returns:
  assumes ok: "clock_ok E"
  shows "\<exists>y. send_retry k E f n x c w = Some y"
proof (induction k arbitrary: c w)
  case (Suc k)
  obtain s w1 where s: "net_send f w = (s, w1)"
    by fastforce
  have "\<exists>r x' w'. while_ticks E (word_of_nat (clock E (now w1))) 100 (send_poll E n x) c
      (w1\<lparr>now := now w1 + 1\<rparr>) = Some (r, x', w')"
    by (rule send_lp.loop_returns [OF ok]) (simp)
  then obtain r c' w3 where l: "while_ticks E (word_of_nat (clock E (now w1))) 100 (send_poll E n x) c
      (w1\<lparr>now := now w1 + 1\<rparr>) = Some (r, c', w3)"
    by blast
  show ?case
    using Suc.IH by (cases r) (simp_all add: s l [simplified] pit_get_ticks_def)
qed simp

lemma unat_plus_simple_le: "unat (a + b :: 'a::len word) \<le> unat a + unat b"
  by (simp add: unat_word_ariths)

lemma accept_poll_returns:
  assumes ok: "clock_ok E" and lim: "unat (timeout div 3 + 1) + 16 < 2 ^ 32"
  shows "\<exists>r x' w'. accept_poll E l timeout out w = Some (r, x', w') \<and> (r = None \<longrightarrow> elapses E 5 w w')"
proof -
  obtain q w1 where q: "tcp_poll E w = Some (q, w1)" "elapses E 4 w w1"
    using tcp_poll_returns [OF ok] by blast
  show ?thesis
  proof (cases q)
    case None
    then show ?thesis
      using q elapses_weaken [OF q(2), of 5] by (simp add: accept_poll_def)
  next
    case (Some y)
    have "\<exists>r x' w'. do { (res, o3, w3) \<leftarrow> accept_retry 3 E timeout o2 w2; Some (Some res, o3, w3) } = Some (r, x', w') \<and>
        (r = None \<longrightarrow> elapses E 5 w w')" for o2 w2
      using accept_retry_returns [OF ok lim, of 3 o2 w2] by auto
    then show ?thesis
      using q Some elapses_weaken [OF q(2), of 5]
      by (cases y) (simp add: accept_poll_def Let_def pit_get_ticks_def)
  qed
qed

lemma connect_resolve_returns:
  assumes ok: "clock_ok E" and lim: "unat (timeout div 3 + 1) + 16 < 2 ^ 32"
  shows "\<exists>r w'. connect_resolve E t timeout w = Some (r, w')"
proof -
  obtain r w1 where lk: "net_arp_lookup E t w = (r, w1)"
    by fastforce
  let ?w2 = "net_arp_request t w1"
  have "\<exists>r x' w'. while_ticks E (word_of_nat (clock E (now ?w2))) (timeout div 3 + 1) (connect_arp_poll E t) ()
      (?w2\<lparr>now := now ?w2 + 1\<rparr>) = Some (r, x', w')"
    by (rule arp_lp.loop_returns [OF ok]) (use lim in simp)
  then obtain q x w4 where "while_ticks E (word_of_nat (clock E (now ?w2))) (timeout div 3 + 1) (connect_arp_poll E t) ()
      (?w2\<lparr>now := now ?w2 + 1\<rparr>) = Some (q, x, w4)"
    by blast
  then show ?thesis
    using lk by (cases r) (auto simp: connect_resolve_def pit_get_ticks_def split: prod.split)
qed

text \<open>
  C14. When the timer interrupt keeps coming, no call hangs: opening a connection from either
  side, sending and receiving return whatever the card shows, for every timeout that stays
  clear of the wrap-around of the tick counter.
\<close>

theorem tcp_calls_return:
  assumes ok: "clock_ok E" and lim: "unat timeout + 20 < 2 ^ 32"
  shows "(\<exists>y. atm_tcp_connect E target port timeout c w = Some y) \<and>
    (\<exists>y. atm_tcp_accept E l timeout c w = Some y) \<and>
    (\<exists>y. atm_tcp_send E p c w = Some y) \<and> (\<exists>y. atm_tcp_recv E cap timeout c w = Some y)"
proof (intro conjI)
  have third: "unat (timeout div 3 + 1) + 16 < 2 ^ 32"
  proof -
    have "unat (timeout div 3) \<le> unat timeout"
      by (simp add: unat_div)
    then have "unat (timeout div 3 + 1) \<le> unat timeout + 1"
      using unat_plus_simple_le [of "timeout div 3" 1] by simp
    then show ?thesis
      using lim by simp
  qed
  obtain r w' where res: "connect_resolve E target timeout (w\<lparr>next_port := next_port w + 1, now := now w + 1\<rparr>) = Some (r, w')"
    using connect_resolve_returns [OF ok third] by blast
  show "\<exists>y. atm_tcp_connect E target port timeout c w = Some y"
    using res connect_retry_returns [OF ok third] by (simp add: atm_tcp_connect_def pit_get_ticks_def Let_def)
  have "\<exists>r x' w'. while_ticks E (word_of_nat (clock E (now w))) timeout (accept_poll E l timeout) c
      (w\<lparr>now := now w + 1\<rparr>) = Some (r, x', w')"
    by (rule poll_loop_returns_weak [OF ok]) (use lim in simp, rule accept_poll_returns [OF ok third])
  then show "\<exists>y. atm_tcp_accept E l timeout c w = Some y"
    by (auto simp: atm_tcp_accept_def pit_get_ticks_def)
  obtain q w1 where "net_arp_lookup E (remote_ip c) w = (q, w1)"
    by fastforce
  then show "\<exists>y. atm_tcp_send E p c w = Some y"
    using send_retry_returns [OF ok] by (cases q) (simp_all add: atm_tcp_send_def Let_def)
  obtain d c1 where take: "tcp_ooo_take cap c = (d, c1)"
    by fastforce
  obtain k w2 where ctl: "tcp_send_control E c1 TCP_ACK w = (k, w2)"
    by fastforce
  have "\<exists>r x' w'. while_ticks E (word_of_nat (clock E (now w))) timeout (recv_poll E cap) c1
      (w\<lparr>now := now w + 1\<rparr>) = Some (r, x', w')"
    by (rule recv_lp.loop_returns [OF ok]) (use lim in simp)
  then show "\<exists>y. atm_tcp_recv E cap timeout c w = Some y"
    using take ctl by (auto simp: atm_tcp_recv_def pit_get_ticks_def split: option.split)
qed

lemma demo_clock: "clock_ok demo_env"
  by (auto simp: clock_ok_def demo_env_def)

theorem tcp_calls_return_witness:
  "(\<exists>y. atm_tcp_connect demo_env [10, 0, 2, 2] 80 300 demo_conn demo_net = Some y) \<and>
   (\<exists>y. atm_tcp_accept demo_env (snd (atm_tcp_listen 80 conn_zero demo_net)) 300 demo_conn demo_net = Some y) \<and>
   (\<exists>y. atm_tcp_send demo_env [1, 2, 3] demo_conn demo_net = Some y) \<and>
   (\<exists>y. atm_tcp_recv demo_env 512 300 demo_conn demo_net = Some y)"
  by (rule tcp_calls_return [OF demo_clock]) simp

subsection \<open>Segments that are not checked\<close>

text \<open>
  A segment of more than 532 bytes, such as 512 bytes of data behind a header with
  options, is accepted whatever its bytes are: \<open>tcp_checksum\<close> answers 0 for it.  Changing any
  byte behind the fixed header of a valid long segment leaves it valid.
\<close>

theorem tcp_long_segment_unchecked:
  assumes v: "tcp_validate_frame f = Some (ihl, ip_len)" and long: "ip_len - ihl > TCP_HLEN + ATM_TCP_MAX_PAYLOAD"
    and i: "ETH_HLEN + ihl + TCP_HLEN \<le> i"
  shows "tcp_validate_frame (f[i := b]) = Some (ihl, ip_len)"
proof -
  have len: "ihl + th_len f (ETH_HLEN + ihl) \<le> ip_len" "ETH_HLEN + ip_len \<le> length f" "ihl \<le> 60"
    using tcp_validate_len [OF v] by simp_all
  have ihl: "20 \<le> ihl" "ihl = unat (f ! 14 AND 15) * 4"
    using v by (auto simp: tcp_validate_frame_def Let_def split: if_splits)
  have low: "f[i := b] ! j = f ! j" if "j < ETH_HLEN + ihl + TCP_HLEN" for j
    using that i by simp
  then have flds: "eth_ethertype (f[i := b]) = eth_ethertype f" "ld16 (f[i := b]) 16 = ld16 f 16"
    "f[i := b] ! 14 = f ! 14" "f[i := b] ! 23 = f ! 23"
    "th_len (f[i := b]) (ETH_HLEN + ihl) = th_len f (ETH_HLEN + ihl)"
    using ihl by (simp_all add: eth_ethertype_def ld16_def th_len_def)
  have hdr: "take ihl (drop 14 (f[i := b])) = take ihl (drop 14 f)"
    using len low by (intro take_drop_agree) simp_all
  have zero: "tcp_checksum s d (take (ip_len - ihl) (drop (ETH_HLEN + ihl) g)) = 0" if "length g = length f" for s d g
    using long len that by (simp add: tcp_checksum_def)
  show ?thesis
    using v zero [of f] zero [of "f[i := b]"] unfolding tcp_validate_frame_def Let_def length_list_update
    by (simp only: flds flip: ihl(2)) (simp add: hdr flds split: if_splits)
qed

definition demo_long :: frame where
  "demo_long = replicate 12 0 @ [8, 0] @ [69, 0, 2, 44, 0, 0, 0, 0, 64, 6, 96, 188, 10, 0, 2, 2, 10, 0, 2, 15] @
     (replicate 12 0 @ [0x60] @ replicate 7 0) @ replicate 516 0"

lemma demo_long_valid: "tcp_validate_frame demo_long = Some (20, 556)"
proof -
  have f: "length demo_long = 570" "demo_long ! 14 = 0x45" "eth_ethertype demo_long = net_bswap16 0x0800"
    "demo_long ! 23 = 6" "ld16 demo_long 16 = net_bswap16 556" "th_len demo_long 34 = 24"
    by (simp_all add: demo_long_def eth_ethertype_def ld16_def net_bswap16_def th_len_def nth_append)
  have "take 20 (drop 14 demo_long) = [69, 0, 2, 44, 0, 0, 0, 0, 64, 6, 96, 188, 10, 0, 2, 2, 10, 0, 2, 15]"
    by (simp add: demo_long_def)
  moreover have "net_ip_checksum [69, 0, 2, 44, 0, 0, 0, 0, 64, 6, 96, 188, 10, 0, 2, 2, 10, 0, 2, 15] = 0"
    by (rule csum_zero) simp_all
  ultimately have "net_ip_checksum (take 20 (drop 14 demo_long)) = 0"
    by simp
  moreover have "tcp_checksum a b (take 536 (drop 34 demo_long)) = 0" for a b
    by (simp add: tcp_checksum_def f)
  ultimately show ?thesis
    using f by (simp add: tcp_validate_frame_def Let_def)
qed

theorem tcp_long_segment_unchecked_witness:
  "tcp_validate_frame demo_long = Some (20, 556) \<and> tcp_validate_frame (demo_long[60 := 0xFF]) = Some (20, 556)"
  using demo_long_valid tcp_long_segment_unchecked [OF demo_long_valid, of 60 "0xFF"] by simp

end
