(* ===== verification/Atm_Posix.thy ===== *)
theory Atm_Posix
  imports Native_Pipe Vfs Catfs
begin

unbundle bit_operations_syntax

section \<open>The POSIX layer over the VFS\<close>

text \<open>
  \<open>atm_posix.c\<close>: paths relative to the working directory of the current task, permission
  masks, positioned and vectored transfers, and the wrappers of the VFS operations.  The
  state joins the scheduler's task table (which holds working directories and masks), the
  VFS and, for \<open>fsync\<close>, the block file system.  Strings are without their terminator; the
  pointer arguments are present unless a buffer is an option.
\<close>

record sys =
  kern :: pipes
  fsys :: vfs
  catdisk :: catfs
  catfs_vfs_active :: bool
  bootstrap_cwd :: string
  bootstrap_umask :: u32

definition lift_fs :: "(vfs \<Rightarrow> vfs \<times> 'r) \<Rightarrow> 'a sys_scheme \<Rightarrow> 'a sys_scheme \<times> 'r" where
  "lift_fs f s = (let (v, r) = f (fsys s) in (s\<lparr>fsys := v\<rparr>, r))"

definition posix_cwd_slot :: "'a sys_scheme \<Rightarrow> string" where
  "posix_cwd_slot s = (case current_task (kern s) of Some t \<Rightarrow> cwd (task_at (kern s) t) | None \<Rightarrow> bootstrap_cwd s)"

definition set_posix_cwd :: "string \<Rightarrow> 'a sys_scheme \<Rightarrow> 'a sys_scheme" where
  "set_posix_cwd d s =
    (case current_task (kern s) of
       Some t \<Rightarrow> s\<lparr>kern := upd_task t (\<lambda>u. u\<lparr>cwd := d\<rparr>) (kern s)\<rparr>
     | None \<Rightarrow> s\<lparr>bootstrap_cwd := d\<rparr>)"

definition posix_umask_slot :: "'a sys_scheme \<Rightarrow> u32" where
  "posix_umask_slot s =
    (case current_task (kern s) of Some t \<Rightarrow> umask_value (task_at (kern s) t) | None \<Rightarrow> bootstrap_umask s)"

definition set_posix_umask :: "u32 \<Rightarrow> 'a sys_scheme \<Rightarrow> 'a sys_scheme" where
  "set_posix_umask m s =
    (case current_task (kern s) of
       Some t \<Rightarrow> s\<lparr>kern := upd_task t (\<lambda>u. u\<lparr>umask_value := m\<rparr>) (kern s)\<rparr>
     | None \<Rightarrow> s\<lparr>bootstrap_umask := m\<rparr>)"

subsection \<open>Path normalisation\<close>

text \<open>The inner loop for \<open>..\<close>: step back to the slash before the last component.\<close>

fun norm_back :: "string \<Rightarrow> nat \<Rightarrow> nat" where
  "norm_back out 0 = 0"
| "norm_back out (Suc u) = (if Suc u > 1 \<and> out ! u \<noteq> CHR ''/'' then norm_back out u else Suc u)"

definition norm_up :: "string \<Rightarrow> string" where
  "norm_up out =
    (let used = length out
     in if used > 1
        then let used = norm_back out used;
                 used = (if used > 1 then used - 1 else used)
             in take used out
        else out)"

definition norm_push :: "string \<Rightarrow> string \<Rightarrow> string option" where
  "norm_push out part =
    (let used = length out; n = length part
     in if used > 1 then (if used + 1 + n \<ge> VFS_PATH_MAX then None else Some (out @ ''/'' @ part))
        else if used + n \<ge> VFS_PATH_MAX then None
        else Some (out @ part))"

lemma path_rest_shorter:
  "dropWhile (\<lambda>c. c = CHR ''/'') p \<noteq> [] \<Longrightarrow>
    length (dropWhile (\<lambda>c. c \<noteq> CHR ''/'') (dropWhile (\<lambda>c. c = CHR ''/'') p)) < length p"
proof (induction p)
  case (Cons a p)
  then show ?case
    using length_dropWhile_le [of "\<lambda>c. c \<noteq> CHR ''/''" p] by (cases "a = CHR ''/''") auto
qed simp

function norm_loop :: "string \<Rightarrow> string \<Rightarrow> string option" where
  "norm_loop p out =
    (let p = dropWhile (\<lambda>c. c = CHR ''/'') p
     in if p = [] then Some out
        else let part = takeWhile (\<lambda>c. c \<noteq> CHR ''/'') p; rest = dropWhile (\<lambda>c. c \<noteq> CHR ''/'') p
             in if part = ''.'' then norm_loop rest out
                else if part = ''..'' then norm_loop rest (norm_up out)
                else case norm_push out part of
                       None \<Rightarrow> None
                     | Some out' \<Rightarrow> norm_loop rest out')"
  by pat_completeness auto
termination
  by (relation "measure (\<lambda>(p, out). length p)") (auto simp: path_rest_shorter)

declare norm_loop.simps [simp del]

definition posix_normalize :: "string \<Rightarrow> string option" where
  "posix_normalize raw = (if raw = [] \<or> raw ! 0 \<noteq> CHR ''/'' then None else norm_loop raw ''/'')"

definition posix_basepath :: "string \<Rightarrow> string \<Rightarrow> string option" where
  "posix_basepath base path =
    (if path = [] \<or> base = [] \<or> base ! 0 \<noteq> CHR ''/'' then None
     else if path ! 0 = CHR ''/''
     then (if length path \<ge> VFS_PATH_MAX then None else posix_normalize path)
     else if length base + 1 + length path \<ge> VFS_PATH_MAX then None
     else posix_normalize ((if last base \<noteq> CHR ''/'' then base @ ''/'' else base) @ path))"

definition posix_abspath :: "'a sys_scheme \<Rightarrow> string \<Rightarrow> string option" where
  "posix_abspath s path = posix_basepath (posix_cwd_slot s) path"

definition ATM_POSIX_AT_FDCWD :: int where "ATM_POSIX_AT_FDCWD = -100"
definition ATM_POSIX_AT_SYMLINK_NOFOLLOW :: u32 where "ATM_POSIX_AT_SYMLINK_NOFOLLOW = 0x100"
definition ATM_POSIX_AT_REMOVEDIR :: u32 where "ATM_POSIX_AT_REMOVEDIR = 0x200"

definition posix_atpath :: "int \<Rightarrow> string \<Rightarrow> 'a sys_scheme \<Rightarrow> 'a sys_scheme \<times> string option" where
  "posix_atpath dirfd path s =
    (if dirfd = ATM_POSIX_AT_FDCWD then (s, posix_abspath s path)
     else let (s1, base) = lift_fs (vfs_fd_path dirfd VFS_PATH_MAX) s
          in case base of
               None \<Rightarrow> (s1, None)
             | Some b \<Rightarrow>
                 (let (s2, st) = lift_fs (vfs_fstat dirfd) s1
                  in case st of
                       None \<Rightarrow> (s2, None)
                     | Some q \<Rightarrow> if S_ISDIR (st_mode q) then (s2, posix_basepath b path) else (s2, None)))"

text \<open>An operation on the path that a relative path means, and one relative to a descriptor.\<close>

definition on_path :: "string \<Rightarrow> (string \<Rightarrow> vfs \<Rightarrow> vfs \<times> int) \<Rightarrow> 'a sys_scheme \<Rightarrow> 'a sys_scheme \<times> int" where
  "on_path path f s = (case posix_abspath s path of None \<Rightarrow> (s, -1) | Some full \<Rightarrow> lift_fs (f full) s)"

definition on_path_at :: "int \<Rightarrow> string \<Rightarrow> (string \<Rightarrow> vfs \<Rightarrow> vfs \<times> int) \<Rightarrow> 'a sys_scheme \<Rightarrow> 'a sys_scheme \<times> int" where
  "on_path_at dirfd path f s =
    (case posix_atpath dirfd path s of (s1, None) \<Rightarrow> (s1, -1) | (s1, Some full) \<Rightarrow> lift_fs (f full) s1)"

subsection \<open>Descriptors\<close>

definition atm_posix_open :: "string \<Rightarrow> u32 \<Rightarrow> u32 \<Rightarrow> 'a sys_scheme \<Rightarrow> 'a sys_scheme \<times> int" where
  "atm_posix_open path flags m s =
    on_path path (\<lambda>full. vfs_open full flags (if flags AND O_CREAT \<noteq> 0 then m AND NOT (posix_umask_slot s) else m)) s"

definition atm_posix_creat :: "string \<Rightarrow> u32 \<Rightarrow> 'a sys_scheme \<Rightarrow> 'a sys_scheme \<times> int" where
  "atm_posix_creat path m s = atm_posix_open path (O_WRONLY OR O_CREAT OR O_TRUNC) m s"

definition atm_posix_openat :: "int \<Rightarrow> string \<Rightarrow> u32 \<Rightarrow> u32 \<Rightarrow> 'a sys_scheme \<Rightarrow> 'a sys_scheme \<times> int" where
  "atm_posix_openat dirfd path flags m s =
    on_path_at dirfd path
      (\<lambda>full. vfs_open full flags (if flags AND O_CREAT \<noteq> 0 then m AND NOT (posix_umask_slot s) else m)) s"

definition atm_posix_close :: "int \<Rightarrow> 'a sys_scheme \<Rightarrow> 'a sys_scheme \<times> int" where
  "atm_posix_close fd s = (if fd < 0 then (s, -1) else (s\<lparr>fsys := vfs_close fd (fsys s)\<rparr>, 0))"

definition atm_posix_read :: "int \<Rightarrow> nat \<Rightarrow> 'a sys_scheme \<Rightarrow> 'a sys_scheme \<times> int \<times> u8 list" where
  "atm_posix_read fd cnt = lift_fs (vfs_read fd cnt)"

definition atm_posix_write :: "int \<Rightarrow> u8 list \<Rightarrow> 'a sys_scheme \<Rightarrow> 'a sys_scheme \<times> int" where
  "atm_posix_write fd bs = lift_fs (vfs_write fd bs)"

abbreviation SEEK_SET :: int where "SEEK_SET \<equiv> 0"
abbreviation SEEK_CUR :: int where "SEEK_CUR \<equiv> 1"

text \<open>\<open>posix_seek_to\<close>: the saved offset, or nothing.\<close>

definition posix_seek_to :: "int \<Rightarrow> nat \<Rightarrow> 'a sys_scheme \<Rightarrow> 'a sys_scheme \<times> int option" where
  "posix_seek_to fd off s =
    (if off > 0x7FFFFFFFFFFFFFFF then (s, None)
     else let (s1, saved) = lift_fs (vfs_lseek fd 0 SEEK_CUR) s
          in if saved < 0 then (s1, None)
             else let (s2, r) = lift_fs (vfs_lseek fd (int off) SEEK_SET) s1
                  in if r < 0 then (s2, None) else (s2, Some saved))"

definition atm_posix_pread :: "int \<Rightarrow> nat \<Rightarrow> nat \<Rightarrow> 'a sys_scheme \<Rightarrow> 'a sys_scheme \<times> int \<times> u8 list" where
  "atm_posix_pread fd cnt off s =
    (case posix_seek_to fd off s of
       (s1, None) \<Rightarrow> (s1, -1, [])
     | (s1, Some saved) \<Rightarrow>
         (let (s2, n, bs) = lift_fs (vfs_read fd cnt) s1;
              (s3, _) = lift_fs (vfs_lseek fd saved SEEK_SET) s2
          in (s3, n, bs)))"

definition atm_posix_pwrite :: "int \<Rightarrow> u8 list \<Rightarrow> nat \<Rightarrow> 'a sys_scheme \<Rightarrow> 'a sys_scheme \<times> int" where
  "atm_posix_pwrite fd bs off s =
    (case posix_seek_to fd off s of
       (s1, None) \<Rightarrow> (s1, -1)
     | (s1, Some saved) \<Rightarrow>
         (let (s2, n) = lift_fs (vfs_write fd bs) s1;
              (s3, _) = lift_fs (vfs_lseek fd saved SEEK_SET) s2
          in (s3, n)))"

text \<open>An element of a vector: its length, and the bytes at its base unless that is null.\<close>

record atm_posix_iovec_t =
  iov_base :: "u8 list option"
  iov_len :: nat

abbreviation ATM_POSIX_IOV_MAX :: nat where "ATM_POSIX_IOV_MAX \<equiv> 16"

fun readv_loop ::
  "int \<Rightarrow> atm_posix_iovec_t list \<Rightarrow> int \<Rightarrow> u8 list \<Rightarrow> 'a sys_scheme \<Rightarrow> 'a sys_scheme \<times> int \<times> u8 list" where
  "readv_loop fd [] acc got s = (s, acc, got)"
| "readv_loop fd (v # vs) acc got s =
    (if iov_len v \<noteq> 0 \<and> iov_base v = None then (s, if acc \<noteq> 0 then acc else -1, got)
     else let (s1, n, bs) = lift_fs (vfs_read fd (iov_len v)) s
          in if n < 0 then (s1, if acc \<noteq> 0 then acc else -1, got)
             else if nat n < iov_len v then (s1, acc + n, got @ bs)
             else readv_loop fd vs (acc + n) (got @ bs) s1)"

definition atm_posix_readv ::
  "int \<Rightarrow> atm_posix_iovec_t list \<Rightarrow> 'a sys_scheme \<Rightarrow> 'a sys_scheme \<times> int \<times> u8 list" where
  "atm_posix_readv fd iov s = (if length iov > ATM_POSIX_IOV_MAX then (s, -1, []) else readv_loop fd iov 0 [] s)"

fun writev_loop :: "int \<Rightarrow> atm_posix_iovec_t list \<Rightarrow> int \<Rightarrow> 'a sys_scheme \<Rightarrow> 'a sys_scheme \<times> int" where
  "writev_loop fd [] acc s = (s, acc)"
| "writev_loop fd (v # vs) acc s =
    (if iov_len v \<noteq> 0 \<and> iov_base v = None then (s, if acc \<noteq> 0 then acc else -1)
     else let (s1, n) = lift_fs (vfs_write fd (take (iov_len v) (case iov_base v of Some b \<Rightarrow> b | None \<Rightarrow> []))) s
          in if n < 0 then (s1, if acc \<noteq> 0 then acc else -1)
             else if nat n < iov_len v then (s1, acc + n)
             else writev_loop fd vs (acc + n) s1)"

definition atm_posix_writev :: "int \<Rightarrow> atm_posix_iovec_t list \<Rightarrow> 'a sys_scheme \<Rightarrow> 'a sys_scheme \<times> int" where
  "atm_posix_writev fd iov s = (if length iov > ATM_POSIX_IOV_MAX then (s, -1) else writev_loop fd iov 0 s)"

definition atm_posix_fsync :: "int \<Rightarrow> 'a sys_scheme \<Rightarrow> 'a sys_scheme \<times> int" where
  "atm_posix_fsync fd s =
    (let (s1, st) = lift_fs (vfs_fstat fd) s
     in case st of
          None \<Rightarrow> (s1, -1)
        | Some _ \<Rightarrow>
            if catfs_vfs_active s1
            then let (d, ok) = catfs_sync (catdisk s1) in (s1\<lparr>catdisk := d\<rparr>, if ok then 0 else -1)
            else (s1, 0))"

definition atm_posix_fdatasync :: "int \<Rightarrow> 'a sys_scheme \<Rightarrow> 'a sys_scheme \<times> int" where
  "atm_posix_fdatasync fd = atm_posix_fsync fd"

definition atm_posix_lseek :: "int \<Rightarrow> int \<Rightarrow> int \<Rightarrow> 'a sys_scheme \<Rightarrow> 'a sys_scheme \<times> int" where
  "atm_posix_lseek fd off whence = lift_fs (vfs_lseek fd off whence)"

definition atm_posix_fstat :: "int \<Rightarrow> 'a sys_scheme \<Rightarrow> 'a sys_scheme \<times> stat_buf option" where
  "atm_posix_fstat fd = lift_fs (vfs_fstat fd)"

definition atm_posix_fchmod :: "int \<Rightarrow> u32 \<Rightarrow> 'a sys_scheme \<Rightarrow> 'a sys_scheme \<times> int" where
  "atm_posix_fchmod fd m = lift_fs (vfs_fchmod fd m)"

definition atm_posix_fchown :: "int \<Rightarrow> u32 \<Rightarrow> u32 \<Rightarrow> 'a sys_scheme \<Rightarrow> 'a sys_scheme \<times> int" where
  "atm_posix_fchown fd u g = lift_fs (vfs_fchown fd u g)"

definition atm_posix_dup :: "int \<Rightarrow> 'a sys_scheme \<Rightarrow> 'a sys_scheme \<times> int" where
  "atm_posix_dup fd = lift_fs (vfs_dup fd)"

definition atm_posix_dup2 :: "int \<Rightarrow> int \<Rightarrow> 'a sys_scheme \<Rightarrow> 'a sys_scheme \<times> int" where
  "atm_posix_dup2 fd newfd = lift_fs (vfs_dup2 fd newfd)"

definition atm_posix_ftruncate :: "int \<Rightarrow> nat \<Rightarrow> 'a sys_scheme \<Rightarrow> 'a sys_scheme \<times> int" where
  "atm_posix_ftruncate fd sz = lift_fs (vfs_ftruncate fd sz)"

definition atm_posix_isatty :: "int \<Rightarrow> bool" where
  "atm_posix_isatty fd \<longleftrightarrow> fd \<ge> 0 \<and> fd \<le> 2"

subsection \<open>Paths\<close>

definition atm_posix_stat :: "string \<Rightarrow> 'a sys_scheme \<Rightarrow> 'a sys_scheme \<times> stat_buf option" where
  "atm_posix_stat path s = (case posix_abspath s path of None \<Rightarrow> (s, None) | Some full \<Rightarrow> lift_fs (vfs_stat full) s)"

definition atm_posix_lstat :: "string \<Rightarrow> 'a sys_scheme \<Rightarrow> 'a sys_scheme \<times> stat_buf option" where
  "atm_posix_lstat path s = (case posix_abspath s path of None \<Rightarrow> (s, None) | Some full \<Rightarrow> lift_fs (vfs_lstat full) s)"

definition atm_posix_fstatat :: "int \<Rightarrow> string \<Rightarrow> u32 \<Rightarrow> 'a sys_scheme \<Rightarrow> 'a sys_scheme \<times> stat_buf option" where
  "atm_posix_fstatat dirfd path flags s =
    (if flags AND NOT ATM_POSIX_AT_SYMLINK_NOFOLLOW \<noteq> 0 then (s, None)
     else case posix_atpath dirfd path s of
            (s1, None) \<Rightarrow> (s1, None)
          | (s1, Some full) \<Rightarrow>
              if flags AND ATM_POSIX_AT_SYMLINK_NOFOLLOW \<noteq> 0 then lift_fs (vfs_lstat full) s1
              else lift_fs (vfs_stat full) s1)"

definition atm_posix_truncate :: "string \<Rightarrow> nat \<Rightarrow> 'a sys_scheme \<Rightarrow> 'a sys_scheme \<times> int" where
  "atm_posix_truncate path sz = on_path path (\<lambda>full. vfs_truncate full sz)"

definition atm_posix_chmod :: "string \<Rightarrow> u32 \<Rightarrow> 'a sys_scheme \<Rightarrow> 'a sys_scheme \<times> int" where
  "atm_posix_chmod path m = on_path path (\<lambda>full. vfs_chmod full m)"

definition atm_posix_chown :: "string \<Rightarrow> u32 \<Rightarrow> u32 \<Rightarrow> 'a sys_scheme \<Rightarrow> 'a sys_scheme \<times> int" where
  "atm_posix_chown path u g = on_path path (\<lambda>full. vfs_chown full u g)"

definition atm_posix_fchmodat :: "int \<Rightarrow> string \<Rightarrow> u32 \<Rightarrow> u32 \<Rightarrow> 'a sys_scheme \<Rightarrow> 'a sys_scheme \<times> int" where
  "atm_posix_fchmodat dirfd path m flags s =
    (if flags \<noteq> 0 then (s, -1) else on_path_at dirfd path (\<lambda>full. vfs_chmod full m) s)"

definition atm_posix_fchownat :: "int \<Rightarrow> string \<Rightarrow> u32 \<Rightarrow> u32 \<Rightarrow> u32 \<Rightarrow> 'a sys_scheme \<Rightarrow> 'a sys_scheme \<times> int" where
  "atm_posix_fchownat dirfd path u g flags s =
    (if flags \<noteq> 0 then (s, -1) else on_path_at dirfd path (\<lambda>full. vfs_chown full u g) s)"

definition atm_posix_mkdir :: "string \<Rightarrow> u32 \<Rightarrow> 'a sys_scheme \<Rightarrow> 'a sys_scheme \<times> int" where
  "atm_posix_mkdir path m s = on_path path (\<lambda>full. vfs_mkdir full (m AND NOT (posix_umask_slot s))) s"

definition atm_posix_mkdirat :: "int \<Rightarrow> string \<Rightarrow> u32 \<Rightarrow> 'a sys_scheme \<Rightarrow> 'a sys_scheme \<times> int" where
  "atm_posix_mkdirat dirfd path m s = on_path_at dirfd path (\<lambda>full. vfs_mkdir full (m AND NOT (posix_umask_slot s))) s"

definition atm_posix_rmdir :: "string \<Rightarrow> 'a sys_scheme \<Rightarrow> 'a sys_scheme \<times> int" where
  "atm_posix_rmdir path = on_path path vfs_rmdir"

definition atm_posix_unlink :: "string \<Rightarrow> 'a sys_scheme \<Rightarrow> 'a sys_scheme \<times> int" where
  "atm_posix_unlink path = on_path path vfs_unlink"

definition atm_posix_unlinkat :: "int \<Rightarrow> string \<Rightarrow> u32 \<Rightarrow> 'a sys_scheme \<Rightarrow> 'a sys_scheme \<times> int" where
  "atm_posix_unlinkat dirfd path flags =
    on_path_at dirfd path (\<lambda>full. if flags = 0 then vfs_unlink full
      else if flags = ATM_POSIX_AT_REMOVEDIR then vfs_rmdir full else (\<lambda>v. (v, -1)))"

definition atm_posix_chdir :: "string \<Rightarrow> 'a sys_scheme \<Rightarrow> 'a sys_scheme \<times> int" where
  "atm_posix_chdir path s =
    (case posix_abspath s path of
       None \<Rightarrow> (s, -1)
     | Some full \<Rightarrow>
         (let (s1, st) = lift_fs (vfs_stat full) s
          in case st of
               None \<Rightarrow> (s1, -1)
             | Some q \<Rightarrow> if S_ISDIR (st_mode q) then (set_posix_cwd full s1, 0) else (s1, -1)))"

definition atm_posix_fchdir :: "int \<Rightarrow> 'a sys_scheme \<Rightarrow> 'a sys_scheme \<times> int" where
  "atm_posix_fchdir fd s =
    (let (s1, p) = lift_fs (vfs_fd_path fd VFS_PATH_MAX) s
     in case p of
          None \<Rightarrow> (s1, -1)
        | Some path \<Rightarrow>
            (let (s2, st) = lift_fs (vfs_fstat fd) s1
             in case st of
                  None \<Rightarrow> (s2, -1)
                | Some q \<Rightarrow> if S_ISDIR (st_mode q) then (set_posix_cwd path s2, 0) else (s2, -1)))"

definition atm_posix_getcwd :: "nat \<Rightarrow> 'a sys_scheme \<Rightarrow> string option" where
  "atm_posix_getcwd sz s = (if sz \<le> length (posix_cwd_slot s) then None else Some (posix_cwd_slot s))"

definition ATM_POSIX_X_OK :: u32 where "ATM_POSIX_X_OK = 1"
definition ATM_POSIX_W_OK :: u32 where "ATM_POSIX_W_OK = 2"
definition ATM_POSIX_R_OK :: u32 where "ATM_POSIX_R_OK = 4"

definition posix_access_full :: "string \<Rightarrow> u32 \<Rightarrow> vfs \<Rightarrow> vfs \<times> int" where
  "posix_access_full full m v =
    (if m AND NOT (ATM_POSIX_R_OK OR ATM_POSIX_W_OK OR ATM_POSIX_X_OK) \<noteq> 0 then (v, -1)
     else case vfs_stat full v of
            (v1, None) \<Rightarrow> (v1, -1)
          | (v1, Some q) \<Rightarrow>
              if m = 0 then (v1, 0)
              else let perm = (if g_session_uid v1 = st_uid q then drop_bit 6 (st_mode q) AND 7
                               else if g_session_gid v1 = st_gid q then drop_bit 3 (st_mode q) AND 7
                               else st_mode q AND 7)
                   in if m AND ATM_POSIX_R_OK \<noteq> 0 \<and> perm AND 4 = 0 then (v1, -1)
                      else if m AND ATM_POSIX_W_OK \<noteq> 0 \<and> perm AND 2 = 0 then (v1, -1)
                      else if m AND ATM_POSIX_X_OK \<noteq> 0 \<and> perm AND 1 = 0 then (v1, -1)
                      else (v1, 0))"

definition atm_posix_access :: "string \<Rightarrow> u32 \<Rightarrow> 'a sys_scheme \<Rightarrow> 'a sys_scheme \<times> int" where
  "atm_posix_access path m = on_path path (\<lambda>full. posix_access_full full m)"

definition atm_posix_faccessat :: "int \<Rightarrow> string \<Rightarrow> u32 \<Rightarrow> u32 \<Rightarrow> 'a sys_scheme \<Rightarrow> 'a sys_scheme \<times> int" where
  "atm_posix_faccessat dirfd path m flags s =
    (if flags \<noteq> 0 then (s, -1) else on_path_at dirfd path (\<lambda>full. posix_access_full full m) s)"

definition atm_posix_umask :: "u32 \<Rightarrow> 'a sys_scheme \<Rightarrow> 'a sys_scheme \<times> u32" where
  "atm_posix_umask newmask s = (set_posix_umask (newmask AND 0x1FF) s, posix_umask_slot s)"

definition atm_posix_opendir :: "string \<Rightarrow> 'a sys_scheme \<Rightarrow> 'a sys_scheme \<times> dir_handle option" where
  "atm_posix_opendir path s =
    (case posix_abspath s path of None \<Rightarrow> (s, None) | Some full \<Rightarrow> lift_fs (vfs_opendir full) s)"

definition atm_posix_readdir :: "dir_handle \<Rightarrow> 'a sys_scheme \<Rightarrow> 'a sys_scheme \<times> dir_handle \<times> vfs_dirent option" where
  "atm_posix_readdir d = lift_fs (vfs_readdir_next d)"

text \<open>Two paths, the first resolved first.\<close>

definition on_paths ::
  "string \<Rightarrow> string \<Rightarrow> (string \<Rightarrow> string \<Rightarrow> vfs \<Rightarrow> vfs \<times> int) \<Rightarrow> 'a sys_scheme \<Rightarrow> 'a sys_scheme \<times> int" where
  "on_paths p q f s =
    (case (posix_abspath s p, posix_abspath s q) of
       (Some a, Some b) \<Rightarrow> lift_fs (f a b) s
     | _ \<Rightarrow> (s, -1))"

definition on_paths_at ::
  "int \<Rightarrow> string \<Rightarrow> int \<Rightarrow> string \<Rightarrow> (string \<Rightarrow> string \<Rightarrow> vfs \<Rightarrow> vfs \<times> int) \<Rightarrow> 'a sys_scheme \<Rightarrow> 'a sys_scheme \<times> int" where
  "on_paths_at dp p dq q f s =
    (case posix_atpath dp p s of
       (s1, None) \<Rightarrow> (s1, -1)
     | (s1, Some a) \<Rightarrow>
         (case posix_atpath dq q s1 of
            (s2, None) \<Rightarrow> (s2, -1)
          | (s2, Some b) \<Rightarrow> lift_fs (f a b) s2))"

definition atm_posix_rename :: "string \<Rightarrow> string \<Rightarrow> 'a sys_scheme \<Rightarrow> 'a sys_scheme \<times> int" where
  "atm_posix_rename oldp newp = on_paths oldp newp vfs_rename"

definition atm_posix_renameat :: "int \<Rightarrow> string \<Rightarrow> int \<Rightarrow> string \<Rightarrow> 'a sys_scheme \<Rightarrow> 'a sys_scheme \<times> int" where
  "atm_posix_renameat od oldp nd newp = on_paths_at od oldp nd newp vfs_rename"

definition atm_posix_linkat :: "int \<Rightarrow> string \<Rightarrow> int \<Rightarrow> string \<Rightarrow> u32 \<Rightarrow> 'a sys_scheme \<Rightarrow> 'a sys_scheme \<times> int" where
  "atm_posix_linkat od oldp nd newp flags s =
    (if flags \<noteq> 0 then (s, -1) else on_paths_at od oldp nd newp vfs_link s)"

definition atm_posix_symlinkat :: "string \<Rightarrow> int \<Rightarrow> string \<Rightarrow> 'a sys_scheme \<Rightarrow> 'a sys_scheme \<times> int" where
  "atm_posix_symlinkat target nd linkp = on_path_at nd linkp (\<lambda>full. vfs_symlink target full)"

definition atm_posix_link :: "string \<Rightarrow> string \<Rightarrow> 'a sys_scheme \<Rightarrow> 'a sys_scheme \<times> int" where
  "atm_posix_link oldp newp = on_paths oldp newp vfs_link"

definition atm_posix_symlink :: "string \<Rightarrow> string \<Rightarrow> 'a sys_scheme \<Rightarrow> 'a sys_scheme \<times> int" where
  "atm_posix_symlink target linkp = on_path linkp (\<lambda>full. vfs_symlink target full)"

definition atm_posix_readlink :: "string \<Rightarrow> nat \<Rightarrow> 'a sys_scheme \<Rightarrow> 'a sys_scheme \<times> int \<times> string" where
  "atm_posix_readlink path sz s =
    (case posix_abspath s path of None \<Rightarrow> (s, -1, []) | Some full \<Rightarrow> lift_fs (vfs_readlink full sz) s)"

definition atm_posix_readlinkat :: "int \<Rightarrow> string \<Rightarrow> nat \<Rightarrow> 'a sys_scheme \<Rightarrow> 'a sys_scheme \<times> int \<times> string" where
  "atm_posix_readlinkat dirfd path sz s =
    (case posix_atpath dirfd path s of
       (s1, None) \<Rightarrow> (s1, -1, [])
     | (s1, Some full) \<Rightarrow> lift_fs (vfs_readlink full sz) s1)"

definition posix_path_limit :: "int \<Rightarrow> int" where
  "posix_path_limit name =
    (if name = 1 then int VFS_NAME_MAX else if name = 2 then int VFS_PATH_MAX - 1 else if name = 3 then 127 else -1)"

definition atm_posix_pathconf :: "string \<Rightarrow> int \<Rightarrow> 'a sys_scheme \<Rightarrow> 'a sys_scheme \<times> int" where
  "atm_posix_pathconf path name =
    on_path path (\<lambda>full v. case vfs_stat full v of (v1, None) \<Rightarrow> (v1, -1) | (v1, Some _) \<Rightarrow> (v1, posix_path_limit name))"

definition atm_posix_fpathconf :: "int \<Rightarrow> int \<Rightarrow> 'a sys_scheme \<Rightarrow> 'a sys_scheme \<times> int" where
  "atm_posix_fpathconf fd name s =
    (case lift_fs (vfs_fstat fd) s of (s1, None) \<Rightarrow> (s1, -1) | (s1, Some _) \<Rightarrow> (s1, posix_path_limit name))"

definition atm_posix_getpid :: "'a sys_scheme \<Rightarrow> u32" where
  "atm_posix_getpid s = (case current_task (kern s) of Some t \<Rightarrow> pid (task_at (kern s) t) | None \<Rightarrow> 0)"

definition atm_posix_getppid :: "'a sys_scheme \<Rightarrow> u32" where
  "atm_posix_getppid s = (case current_task (kern s) of Some t \<Rightarrow> ppid (task_at (kern s) t) | None \<Rightarrow> 0)"

subsection \<open>What a path means\<close>

text \<open>
  The reference: a path is the list of its components, a component \<open>.\<close> stays, \<open>..\<close> goes up
  (and stays at the root), any other goes down; a list of names is written with a slash
  before each.
\<close>

fun split_slash :: "string \<Rightarrow> string list" where
  "split_slash [] = [[]]"
| "split_slash (c # cs) = (if c = CHR ''/'' then [] # split_slash cs
     else (c # hd (split_slash cs)) # tl (split_slash cs))"

definition path_comps :: "string \<Rightarrow> string list" where
  "path_comps p = filter (\<lambda>c. c \<noteq> []) (split_slash p)"

definition dot_step :: "string list \<Rightarrow> string \<Rightarrow> string list" where
  "dot_step st c = (if c = ''.'' then st else if c = ''..'' then butlast st else st @ [c])"

definition slashed :: "string list \<Rightarrow> string" where
  "slashed st = concat (map (\<lambda>c. CHR ''/'' # c) st)"

definition render :: "string list \<Rightarrow> string" where
  "render st = (if st = [] then ''/'' else slashed st)"

definition plain :: "string list \<Rightarrow> bool" where
  "plain st \<longleftrightarrow> (\<forall>c \<in> set st. c \<noteq> [] \<and> CHR ''/'' \<notin> set c \<and> c \<noteq> ''.'' \<and> c \<noteq> ''..'')"

lemma split_slash_not_Nil [simp]: "split_slash p \<noteq> []"
  by (cases p) auto

lemma split_slash_run:
  "split_slash p = takeWhile (\<lambda>c. c \<noteq> CHR ''/'') p #
     (case dropWhile (\<lambda>c. c \<noteq> CHR ''/'') p of [] \<Rightarrow> [] | _ # r \<Rightarrow> split_slash r)"
  by (induction p) auto

lemma path_comps_simps:
  "path_comps [] = []" "path_comps (CHR ''/'' # p) = path_comps p"
  by (simp_all add: path_comps_def)

lemma path_comps_skip: "path_comps (dropWhile (\<lambda>c. c = CHR ''/'') p) = path_comps p"
  by (induction p) (auto simp: path_comps_simps)

lemma path_comps_part:
  assumes "p \<noteq> []" and "p ! 0 \<noteq> CHR ''/''"
  shows "path_comps p = takeWhile (\<lambda>c. c \<noteq> CHR ''/'') p # path_comps (dropWhile (\<lambda>c. c \<noteq> CHR ''/'') p)"
proof -
  have part: "takeWhile (\<lambda>c. c \<noteq> CHR ''/'') p \<noteq> []"
    using assms by (cases p) auto
  show ?thesis
  proof (cases "dropWhile (\<lambda>c. c \<noteq> CHR ''/'') p")
    case Nil
    show ?thesis
      unfolding path_comps_def split_slash_run [of p] Nil using part by simp
  next
    case (Cons c r)
    then have "c = CHR ''/''"
      using hd_dropWhile [of "\<lambda>c. c \<noteq> CHR ''/''" p] by simp
    then show ?thesis
      unfolding path_comps_def split_slash_run [of p] Cons using part by simp
  qed
qed

lemma split_slash_append:
  "split_slash (a @ CHR ''/'' # b) = split_slash a @ split_slash b"
  by (induction a) (auto simp: hd_append tl_append2)

lemma path_comps_append: "path_comps (a @ CHR ''/'' # b) = path_comps a @ path_comps b"
  by (simp add: path_comps_def split_slash_append)

lemma path_comps_plainish: "c \<in> set (path_comps p) \<Longrightarrow> c \<noteq> [] \<and> CHR ''/'' \<notin> set c"
proof -
  have "CHR ''/'' \<notin> set c" if "c \<in> set (split_slash p)" for c
    using that
  proof (induction p arbitrary: c)
    case (Cons a p)
    then show ?case
      using Cons.IH [OF hd_in_set [OF split_slash_not_Nil]] Cons.IH list.set_sel(2) [OF split_slash_not_Nil]
      by (auto split: if_splits)
  qed simp
  then show "c \<in> set (path_comps p) \<Longrightarrow> c \<noteq> [] \<and> CHR ''/'' \<notin> set c"
    by (auto simp: path_comps_def)
qed

lemma plain_dot_step: "plain st \<Longrightarrow> c \<noteq> [] \<Longrightarrow> CHR ''/'' \<notin> set c \<Longrightarrow> plain (dot_step st c)"
  by (auto simp: plain_def dot_step_def dest: in_set_butlastD)

lemma plain_resolve: "plain st \<Longrightarrow> plain (foldl dot_step st (path_comps p))"
proof -
  have "plain (foldl dot_step st cs)" if "plain st" "\<forall>c \<in> set cs. c \<noteq> [] \<and> CHR ''/'' \<notin> set c" for st cs
    using that by (induction cs arbitrary: st) (auto intro: plain_dot_step)
  then show "plain st \<Longrightarrow> plain (foldl dot_step st (path_comps p))"
    using path_comps_plainish by blast
qed

lemma path_comps_render: "plain st \<Longrightarrow> path_comps (render st) = st"
proof -
  have part: "path_comps (c @ r) = c # path_comps r" if "c \<noteq> []" "CHR ''/'' \<notin> set c" "r = [] \<or> r ! 0 = CHR ''/''" for c r
  proof -
    have "takeWhile (\<lambda>c. c \<noteq> CHR ''/'') (c @ r) = c" "dropWhile (\<lambda>c. c \<noteq> CHR ''/'') (c @ r) = r"
      using that by (cases r; auto simp: takeWhile_append dropWhile_append)+
    moreover have "path_comps (c @ r) = takeWhile (\<lambda>c. c \<noteq> CHR ''/'') (c @ r) #
        path_comps (dropWhile (\<lambda>c. c \<noteq> CHR ''/'') (c @ r))"
      using that by (intro path_comps_part; cases c) auto
    ultimately show ?thesis
      by (simp only:)
  qed
  have "path_comps (slashed st) = st" if "plain st"
    using that
  proof (induction st)
    case (Cons c st)
    have "slashed st = [] \<or> slashed st ! 0 = CHR ''/''"
      by (cases st) (simp_all add: slashed_def)
    then show ?case
      using Cons part [of c "slashed st"] by (auto simp: slashed_def plain_def path_comps_simps)
  qed (simp add: slashed_def path_comps_simps)
  then show "plain st \<Longrightarrow> path_comps (render st) = st"
    by (simp add: render_def path_comps_simps)
qed

lemma foldl_plain: "plain cs \<Longrightarrow> foldl dot_step st cs = st @ cs"
  by (induction cs arbitrary: st) (auto simp: plain_def dot_step_def)

text \<open>The operations on the buffer are the operations on the list of names.\<close>

lemma length_render: "plain st \<Longrightarrow> st \<noteq> [] \<Longrightarrow> length (slashed st) > 1"
  by (cases st) (auto simp: slashed_def plain_def)

lemma norm_back_to_slash:
  assumes "CHR ''/'' \<notin> set c" and "k \<le> length c"
  shows "norm_back (a @ CHR ''/'' # c) (length a + 1 + k) = length a + 1"
  using assms(2)
proof (induction k)
  case 0
  then show ?case
    by (cases a) simp_all
next
  case (Suc k)
  have "(a @ CHR ''/'' # c) ! (length a + 1 + k) = c ! k"
    by (simp add: nth_append)
  moreover have "c ! k \<noteq> CHR ''/''"
    using Suc.prems assms(1) by (metis Suc_le_lessD nth_mem)
  ultimately show ?case
    using Suc by simp
qed

lemma norm_up_render:
  assumes "plain st"
  shows "norm_up (render st) = render (butlast st)"
proof (cases st rule: rev_cases)
  case Nil
  then show ?thesis
    by (simp add: norm_up_def render_def)
next
  case (snoc st' c)
  have c: "c \<noteq> []" "CHR ''/'' \<notin> set c" and st': "plain st'"
    using assms snoc by (simp_all add: plain_def)
  have out: "render st = slashed st' @ CHR ''/'' # c"
    by (simp add: snoc render_def slashed_def)
  have nb: "norm_back (slashed st' @ CHR ''/'' # c) (length (slashed st') + 1 + length c) = length (slashed st') + 1"
    by (rule norm_back_to_slash [OF c(2)]) simp
  have "length (slashed st') > 1 \<or> st' = []"
    using length_render [OF st'] by auto
  then show ?thesis
    using nb c(1) snoc unfolding norm_up_def out Let_def by (auto simp: render_def slashed_def)
qed

lemma norm_push_render:
  assumes "plain st" and "length (slashed (st @ [c])) < VFS_PATH_MAX"
  shows "norm_push (render st) c = Some (render (st @ [c]))"
  using assms length_render [OF assms(1)] by (auto simp: norm_push_def render_def slashed_def)

lemma slashed_butlast: "length (slashed (butlast st)) \<le> length (slashed st)"
  by (cases st rule: rev_cases) (simp_all add: slashed_def)

lemma norm_loop_resolves:
  assumes "plain st" and "p = [] \<or> p ! 0 = CHR ''/''" and "length (slashed st) + length p < VFS_PATH_MAX"
  shows "norm_loop p (render st) = Some (render (foldl dot_step st (path_comps p)))"
  using assms
proof (induction "length p" arbitrary: p st rule: less_induct)
  case less
  let ?slash = "\<lambda>c. c = CHR ''/''"
  define q where "q = dropWhile ?slash p"
  have qp: "path_comps p = path_comps q"
    by (simp add: q_def path_comps_skip)
  show ?case
  proof (cases "q = []")
    case True
    then have "path_comps p = []"
      using qp by (simp add: path_comps_simps)
    then show ?thesis
      using True unfolding norm_loop.simps [of p] Let_def q_def [symmetric] by simp
  next
    case False
    define part where "part = takeWhile (\<lambda>c. c \<noteq> CHR ''/'') q"
    define rest where "rest = dropWhile (\<lambda>c. c \<noteq> CHR ''/'') q"
    have q0: "q ! 0 \<noteq> CHR ''/''"
      using False hd_dropWhile [of ?slash p] by (simp add: q_def hd_conv_nth)
    have comps: "path_comps p = part # path_comps rest"
      using path_comps_part [OF False q0] qp by (simp add: part_def rest_def)
    then have pc: "part \<noteq> []" "CHR ''/'' \<notin> set part"
      using path_comps_plainish [of part p] by simp_all
    have len: "length part + length rest = length q" "length q < length p" "length rest < length p"
    proof -
      show "length part + length rest = length q"
        unfolding part_def rest_def by (metis length_append takeWhile_dropWhile_id)
      have "p \<noteq> []" "p ! 0 = CHR ''/''"
        using False less.prems(2) by (auto simp: q_def)
      then show "length q < length p"
        unfolding q_def using length_dropWhile_le [of ?slash "tl p"] by (cases p) auto
      then show "length rest < length p"
        using length_dropWhile_le [of "\<lambda>c. c \<noteq> CHR ''/''" q] by (simp add: rest_def)
    qed
    have rest0: "rest = [] \<or> rest ! 0 = CHR ''/''"
    proof (cases rest)
      case (Cons a r)
      then have "dropWhile (\<lambda>c. c \<noteq> CHR ''/'') q \<noteq> []" "a = hd (dropWhile (\<lambda>c. c \<noteq> CHR ''/'') q)"
        unfolding rest_def by (simp_all only: list.simps list.sel not_False_eq_True)
      then show ?thesis
        using hd_dropWhile [of "\<lambda>c. c \<noteq> CHR ''/''" q] Cons by simp
    qed simp
    have step: "norm_loop p (render st) =
      (if part = ''.'' then norm_loop rest (render st)
       else if part = ''..'' then norm_loop rest (norm_up (render st))
       else case norm_push (render st) part of None \<Rightarrow> None | Some out' \<Rightarrow> norm_loop rest out')"
      unfolding norm_loop.simps [of p] Let_def q_def [symmetric] part_def [symmetric] rest_def [symmetric]
      using False by (simp only: if_False)
    have push: "length (slashed (st @ [part])) + length rest < VFS_PATH_MAX"
      using less.prems(3) len by (simp add: slashed_def)
    have up: "length (slashed (butlast st)) + length rest < VFS_PATH_MAX" "plain (butlast st)"
      using less.prems(1,3) len slashed_butlast [of st] by (auto simp: plain_def dest: in_set_butlastD)
    have "norm_loop p (render st) = norm_loop rest (render (dot_step st part))"
      using norm_push_render [OF less.prems(1), of part] push
      by (simp add: step dot_step_def norm_up_render [OF less.prems(1)])
    also have "\<dots> = Some (render (foldl dot_step (dot_step st part) (path_comps rest)))"
      using less.prems(1,3) push up len(3) rest0 plain_dot_step [OF less.prems(1) pc]
      by (intro less.hyps) (auto simp: dot_step_def)
    finally show ?thesis
      by (simp add: comps)
  qed
qed

lemma posix_normalize_resolves:
  assumes "raw \<noteq> []" "raw ! 0 = CHR ''/''" "length raw < VFS_PATH_MAX"
  shows "posix_normalize raw = Some (render (foldl dot_step [] (path_comps raw)))"
  using assms norm_loop_resolves [of "[]" raw] by (simp add: posix_normalize_def plain_def render_def slashed_def)

definition canonical :: "string \<Rightarrow> bool" where
  "canonical d \<longleftrightarrow> (\<exists>st. plain st \<and> d = render st)"

lemma render_head: "plain st \<Longrightarrow> render st \<noteq> [] \<and> render st ! 0 = CHR ''/''"
  by (cases st) (auto simp: render_def slashed_def)

text \<open>
  C34. A path given to the POSIX layer means what the reference says: relative to a canonical
  working directory, with \<open>.\<close>, \<open>..\<close> and repeated slashes resolved and never above the root;
  the result is canonical, and the only failures are the empty path and a path too long for
  the buffers.
\<close>

theorem posix_abspath_resolves:
  assumes "plain st" and "posix_cwd_slot s = render st"
  shows "posix_abspath s path =
    (if path = [] then None
     else if path ! 0 = CHR ''/''
     then (if length path < VFS_PATH_MAX then Some (render (foldl dot_step [] (path_comps path))) else None)
     else if length (render st) + 1 + length path < VFS_PATH_MAX
     then Some (render (foldl dot_step st (path_comps path))) else None) \<and>
    (\<forall>full. posix_abspath s path = Some full \<longrightarrow> canonical full)"
proof -
  have base: "render st \<noteq> []" "render st ! 0 = CHR ''/''"
    using render_head [OF assms(1)] by simp_all
  have rel: "posix_normalize ((if last (render st) \<noteq> CHR ''/'' then render st @ ''/'' else render st) @ path) =
      Some (render (foldl dot_step st (path_comps path)))"
    if l: "length (render st) + 1 + length path < VFS_PATH_MAX"
  proof -
    let ?raw = "(if last (render st) \<noteq> CHR ''/'' then render st @ ''/'' else render st) @ path"
    have "path_comps ?raw = st @ path_comps path"
    proof (cases "last (render st) \<noteq> CHR ''/''")
      case True
      then show ?thesis
        using path_comps_append [of "render st" path] path_comps_render [OF assms(1)] by simp
    next
      case False
      then obtain r where r: "render st = r @ ''/''"
        using base(1) by (metis append_butlast_last_id)
      then show ?thesis
        using path_comps_append [of r path] path_comps_append [of r "[]"] path_comps_render [OF assms(1)] False
        by (simp add: path_comps_simps)
    qed
    moreover have "foldl dot_step [] (st @ path_comps path) = foldl dot_step st (path_comps path)"
      using foldl_plain [OF assms(1), of "[]"] by simp
    ultimately show ?thesis
      using posix_normalize_resolves [of ?raw] base l by (simp add: nth_append)
  qed
  have "posix_abspath s path =
    (if path = [] then None
     else if path ! 0 = CHR ''/''
     then (if length path < VFS_PATH_MAX then Some (render (foldl dot_step [] (path_comps path))) else None)
     else if length (render st) + 1 + length path < VFS_PATH_MAX
     then Some (render (foldl dot_step st (path_comps path))) else None)"
    using base rel posix_normalize_resolves [of path] by (simp add: posix_abspath_def posix_basepath_def assms(2))
  moreover have "canonical (render (foldl dot_step r (path_comps path)))" if "plain r" for r
    using plain_resolve [OF that] by (auto simp: canonical_def)
  moreover have "plain []"
    by (simp add: plain_def)
  ultimately show ?thesis
    using assms(1) by (auto split: if_splits)
qed

definition demo_catfs :: catfs where
  "demo_catfs = \<lparr>disk_drive = 0, partition_offset = 0, sb = zero_super, jh = zero_jhdr, cinodes = [], bitmap = [],
     mounted = False, next_seq = 0, sectors = (\<lambda>_ _. []), drives = [], io_ok = (\<lambda>_. True), ios = 0,
     kalloc_ok = True, cticks = 0, cfault = False\<rparr>"

definition demo_sys :: sys where
  "demo_sys = \<lparr>kern = demo_kern\<lparr>current_task := None\<rparr>, fsys = demo_open, catdisk = demo_catfs,
     catfs_vfs_active = False, bootstrap_cwd = ''/home/me'', bootstrap_umask = 0x12\<rparr>"

theorem posix_abspath_resolves_witness:
  "posix_abspath demo_sys ''../you/./x'' = Some ''/home/you/x'' \<and> posix_abspath demo_sys ''../../../..'' = Some ''/''"
proof -
  have st: "plain [''home'', ''me'']" "posix_cwd_slot demo_sys = render [''home'', ''me'']"
    by (simp_all add: plain_def posix_cwd_slot_def demo_sys_def render_def slashed_def)
  show ?thesis
    using posix_abspath_resolves [OF st, of "''../you/./x''"] posix_abspath_resolves [OF st, of "''../../../..''"]
    by (simp add: path_comps_def dot_step_def render_def slashed_def VFS_PATH_MAX_def)
qed

lemma posix_cwd_set [simp]:
  "pool_wf (kern s) \<Longrightarrow> current_task (kern s) = None \<or> the (current_task (kern s)) < TASK_MAX \<Longrightarrow>
    posix_cwd_slot (set_posix_cwd d s) = d"
  by (auto simp: posix_cwd_slot_def set_posix_cwd_def pool_wf_def task_at_upd split: option.splits)

lemma chdir_canonical:
  assumes "atm_posix_chdir path s = (s', r)" and "canonical (posix_cwd_slot s)"
    and "pool_wf (kern s)" "current_task (kern s) = None \<or> the (current_task (kern s)) < TASK_MAX"
  shows "canonical (posix_cwd_slot s')"
proof -
  obtain st where st: "plain st" "posix_cwd_slot s = render st"
    using assms(2) by (auto simp: canonical_def)
  have keep: "posix_cwd_slot (fst (lift_fs f s)) = posix_cwd_slot s" "kern (fst (lift_fs f s)) = kern s"
    for f :: "vfs \<Rightarrow> vfs \<times> stat_buf option"
    by (simp_all add: lift_fs_def posix_cwd_slot_def Let_def case_prod_beta split: option.split)
  show ?thesis
  proof (cases "posix_abspath s path")
    case None
    then show ?thesis
      using assms by (simp add: atm_posix_chdir_def)
  next
    case (Some full)
    then have "canonical full"
      using posix_abspath_resolves [OF st, of path] by simp
    then show ?thesis
      using assms Some keep [of "vfs_stat full"]
      by (auto simp: atm_posix_chdir_def split: prod.splits option.splits if_splits)
  qed
qed

subsection \<open>Positioned transfers\<close>

lemma op_read_fds: "op_read i off sz s = Some (s', n, bs) \<Longrightarrow> g_fds s' = g_fds s"
  by (auto simp: op_read_def ramfs_read_impl_def inode_touch_a_def Let_def split: fsops.splits if_splits option.splits prod.splits)

lemma op_write_fds: "op_write i off bs s = Some (s', n) \<Longrightarrow> g_fds s' = g_fds s"
  by (auto simp: op_write_def ramfs_write_impl_def no_file_def inode_touch_m_def set_file_def kalloc_def Let_def
      split: fsops.splits if_splits option.splits prod.splits)

text \<open>A transfer changes at most the offset of its descriptor.\<close>

definition fd_offset_only :: "int \<Rightarrow> vfs \<Rightarrow> vfs \<Rightarrow> bool" where
  "fd_offset_only fd v v' \<longleftrightarrow> (\<exists>q. g_fds v' = (g_fds v)[nat fd := (g_fds v ! nat fd)\<lparr>foffset := q\<rparr>])"

lemma fd_offset_only_same: "g_fds v' = g_fds v \<Longrightarrow> fd_offset_only fd v v'"
  unfolding fd_offset_only_def by (rule exI [of _ "foffset (g_fds v ! nat fd)"]) simp

lemma vfs_read_fds: "vfs_read fd cnt v = (v', n, bs) \<Longrightarrow> fd_offset_only fd v v'"
  unfolding vfs_read_def
  by (auto simp: Let_def vfs_require_def set_errno_def upd_fd_def fd_offset_only_def dest!: op_read_fds
      intro: fd_offset_only_same [unfolded fd_offset_only_def] split: if_splits option.splits prod.splits)

lemma vfs_write_fds: "vfs_write fd bs v = (v', n) \<Longrightarrow> fd_offset_only fd v v'"
  unfolding vfs_write_def
  by (auto simp: Let_def vfs_require_def set_errno_def upd_fd_def fd_offset_only_def dest!: op_write_fds
      intro: fd_offset_only_same [unfolded fd_offset_only_def] split: if_splits option.splits prod.splits)

abbreviation at_offset :: "int \<Rightarrow> nat \<Rightarrow> vfs \<Rightarrow> vfs" where
  "at_offset fd off v \<equiv> upd_fd (nat fd) (\<lambda>f. f\<lparr>foffset := off\<rparr>) v"

lemma wrap64_small: "0 \<le> x \<Longrightarrow> x < 2 ^ 63 \<Longrightarrow> wrap64 x = x"
  by (simp add: wrap64_def)

lemma s64_small: "n < 2 ^ 63 \<Longrightarrow> s64 n = int n"
  by (simp add: s64_def Let_def)

lemma vfs_lseek_set:
  "fd_ok v fd \<Longrightarrow> off < 2 ^ 63 \<Longrightarrow> vfs_lseek fd (int off) SEEK_SET v = (at_offset fd off v, int off)"
  by (simp add: vfs_lseek_def Let_def wrap64_small)

lemma vfs_lseek_cur:
  assumes "fd_ok v fd" and "foffset (g_fds v ! nat fd) < 2 ^ 63"
  shows "vfs_lseek fd 0 SEEK_CUR v = (v, int (foffset (g_fds v ! nat fd)))"
proof -
  have "upd_fd (nat fd) (\<lambda>f. f\<lparr>foffset := foffset (g_fds v ! nat fd)\<rparr>) v = v"
    by (simp add: upd_fd_def)
  then show ?thesis
    using assms by (simp add: vfs_lseek_def Let_def wrap64_small s64_small)
qed

lemma posix_seek_to_ok:
  assumes "fd_ok (fsys s) fd" and "foffset (g_fds (fsys s) ! nat fd) < 2 ^ 63" and "off < 2 ^ 63"
  shows "posix_seek_to fd off s =
    (s\<lparr>fsys := at_offset fd off (fsys s)\<rparr>, Some (int (foffset (g_fds (fsys s) ! nat fd))))"
  using assms by (simp add: posix_seek_to_def lift_fs_def vfs_lseek_cur vfs_lseek_set)

lemma fd_ok_offset_only:
  assumes "fd_ok v fd" "length (g_fds v) = FD_MAX" "fd_offset_only fd v v'"
  shows "fd_ok v' fd" "length (g_fds v') = FD_MAX"
  using assms by (auto simp: fd_ok_def fd_offset_only_def)

lemma fd_ok_at_offset [simp]:
  "length (g_fds v) = FD_MAX \<Longrightarrow> fd_ok (at_offset fd off v) fd = fd_ok v fd"
  "length (g_fds (at_offset fd off v)) = length (g_fds v)"
  by (auto simp: fd_ok_def upd_fd_def nth_list_update)

text \<open>
  C35. \<open>atm_posix_pread\<close> and \<open>atm_posix_pwrite\<close> transfer at the offset given, exactly as a read
  or write of a descriptor that stands there would, and leave the descriptor where it was.
\<close>

theorem positioned_transfer:
  assumes ok: "fd_ok (fsys s) fd" "length (g_fds (fsys s)) = FD_MAX"
    and here: "foffset (g_fds (fsys s) ! nat fd) = here" "here < 2 ^ 63" and off: "off < 2 ^ 63"
  shows "atm_posix_pread fd cnt off s =
      (let (v, n, bs) = vfs_read fd cnt (at_offset fd off (fsys s)) in (s\<lparr>fsys := at_offset fd here v\<rparr>, n, bs)) \<and>
    atm_posix_pwrite fd bs off s =
      (let (v, n) = vfs_write fd bs (at_offset fd off (fsys s)) in (s\<lparr>fsys := at_offset fd here v\<rparr>, n))"
proof -
  let ?v = "at_offset fd off (fsys s)"
  have seek: "posix_seek_to fd off s = (s\<lparr>fsys := ?v\<rparr>, Some (int here))"
    using posix_seek_to_ok [of s fd off] assms by simp
  have restore: "vfs_lseek fd (int here) SEEK_SET v' = (at_offset fd here v', int here)" if "fd_offset_only fd ?v v'" for v'
    using fd_ok_offset_only [OF _ _ that] ok here(2) by (intro vfs_lseek_set) simp_all
  show ?thesis
    using restore [OF vfs_read_fds] restore [OF vfs_write_fds]
    by (cases "vfs_read fd cnt ?v"; cases "vfs_write fd bs ?v")
      (auto simp: atm_posix_pread_def atm_posix_pwrite_def seek lift_fs_def)
qed

theorem positioned_transfer_witness:
  "atm_posix_pread 3 2 7 demo_sys =
    (let (v, n, bs) = vfs_read 3 2 (at_offset 3 7 demo_open) in (demo_sys\<lparr>fsys := at_offset 3 0 v\<rparr>, n, bs)) \<and>
   atm_posix_pwrite 3 [65] 7 demo_sys =
    (let (v, n) = vfs_write 3 [65] (at_offset 3 7 demo_open) in (demo_sys\<lparr>fsys := at_offset 3 0 v\<rparr>, n))"
proof -
  have "fd_ok (fsys demo_sys) 3" "length (g_fds (fsys demo_sys)) = FD_MAX"
    "foffset (g_fds (fsys demo_sys) ! nat 3) = 0" "fsys demo_sys = demo_open"
    by (simp_all add: demo_sys_def demo_open_def fd_ok_def FD_MAX_def zero_fd_def)
  then show ?thesis
    using positioned_transfer [of demo_sys 3 0 7 2 "[65]"] by simp
qed

end
