(* ===== verification/Native_Socket.thy ===== *)
theory Native_Socket
  imports Atm_Posix Net_Tcp
begin

unbundle bit_operations_syntax

section \<open>Socket descriptors\<close>

text \<open>
  \<open>native_socket.c\<close>: a fixed registry of TCP connections, each owned by one task and named by
  one entry of its \<open>socket_map\<close>.  The state extends that of the POSIX layer by the network
  device, the registry, and the tables of \<open>native_fd.c\<close> and \<open>native_dir.c\<close>, which share the
  descriptor numbers with it.  A call that polls the card returns an option, as in
  \<open>Net_Tcp\<close>.
\<close>

definition ATM_AF_INET :: nat where "ATM_AF_INET = 2"
definition ATM_SOCK_STREAM :: int where "ATM_SOCK_STREAM = 1"
definition ATM_IPPROTO_TCP :: int where "ATM_IPPROTO_TCP = 6"
definition ATM_SOCKET_MAX :: nat where "ATM_SOCKET_MAX = 16"

record atm_sockaddr_in_t =
  family :: u16
  port :: u16
  addr :: "u8 list"

record socket_slot_t =
  sowner :: "nat option"
  conn :: atm_tcp_conn_t
  sused :: bool

record fd_exec_meta_t =
  mowner :: "nat option"
  mflags :: "bool list"

record fdsys = sys +
  netdev :: net_state_t
  slots :: "socket_slot_t list"
  fd_exec_meta :: "fd_exec_meta_t list"
  dir_streams :: "dir_handle option list"

abbreviation task_of :: "'a sys_scheme \<Rightarrow> nat \<Rightarrow> task" where
  "task_of s i \<equiv> task_at (kern s) i"

definition upd_kern :: "(pipes \<Rightarrow> pipes) \<Rightarrow> 'a sys_scheme \<Rightarrow> 'a sys_scheme" where
  "upd_kern f s = s\<lparr>kern := f (kern s)\<rparr>"

definition lift_kern :: "(pipes \<Rightarrow> pipes \<times> 'r) \<Rightarrow> 'a sys_scheme \<Rightarrow> 'a sys_scheme \<times> 'r" where
  "lift_kern f s = (let (k, r) = f (kern s) in (s\<lparr>kern := k\<rparr>, r))"

text \<open>A slot after \<open>kmemset\<close>.\<close>

definition zero_slot :: socket_slot_t where
  "zero_slot = \<lparr>sowner = None, conn = conn_zero, sused = False\<rparr>"

definition upd_slot :: "nat \<Rightarrow> (socket_slot_t \<Rightarrow> socket_slot_t) \<Rightarrow> 'a fdsys_scheme \<Rightarrow> 'a fdsys_scheme" where
  "upd_slot k f s = s\<lparr>slots := (slots s)[k := f (slots s ! k)]\<rparr>"

definition set_socket_map :: "nat \<Rightarrow> nat \<Rightarrow> int \<Rightarrow> 'a sys_scheme \<Rightarrow> 'a sys_scheme" where
  "set_socket_map i fd v = upd_kern (upd_task i (\<lambda>u. u\<lparr>socket_map := (socket_map u)[fd := v]\<rparr>))"

definition valid_fd :: "nat option \<Rightarrow> int \<Rightarrow> 'a sys_scheme \<Rightarrow> bool" where
  "valid_fd t fd s =
    (case t of
       None \<Rightarrow> False
     | Some i \<Rightarrow> fd_table_ready (task_of s i) \<and> fd \<ge> 3 \<and> fd < int TASK_FD_MAX \<and>
         socket_map (task_of s i) ! nat fd \<ge> 0 \<and> socket_map (task_of s i) ! nat fd < int ATM_SOCKET_MAX)"

definition slot_for :: "nat option \<Rightarrow> int \<Rightarrow> 'a fdsys_scheme \<Rightarrow> nat option" where
  "slot_for t fd s =
    (case t of
       None \<Rightarrow> None
     | Some i \<Rightarrow>
         if \<not> valid_fd t fd s then None
         else let k = nat (socket_map (task_of s i) ! nat fd)
              in if sused (slots s ! k) \<and> sowner (slots s ! k) = Some i then Some k else None)"

definition native_socket_task_init :: "nat option \<Rightarrow> 'a sys_scheme \<Rightarrow> 'a sys_scheme" where
  "native_socket_task_init t s =
    (case t of
       None \<Rightarrow> s
     | Some i \<Rightarrow> upd_kern (upd_task i (\<lambda>u. u\<lparr>socket_map := replicate TASK_FD_MAX (-1)\<rparr>)) s)"

definition native_socket_is_fd :: "nat option \<Rightarrow> int \<Rightarrow> 'a fdsys_scheme \<Rightarrow> bool" where
  "native_socket_is_fd t fd s = (slot_for t fd s \<noteq> None)"

text \<open>The search for a free slot of the registry, shared by \<open>open\<close> and \<open>accept\<close>.\<close>

definition free_slot :: "'a fdsys_scheme \<Rightarrow> nat option" where
  "free_slot s = first_idx (\<lambda>k. \<not> sused (slots s ! k)) 0 ATM_SOCKET_MAX"

definition native_socket_open :: "nat option \<Rightarrow> int \<Rightarrow> int \<Rightarrow> int \<Rightarrow> 'a fdsys_scheme \<Rightarrow> 'a fdsys_scheme \<times> int" where
  "native_socket_open t domain type protocol s =
    (case t of
       None \<Rightarrow> (s, -1)
     | Some i \<Rightarrow>
         if \<not> fd_table_ready (task_of s i) \<or> domain \<noteq> int ATM_AF_INET \<or> type \<noteq> ATM_SOCK_STREAM \<or>
           protocol \<noteq> ATM_IPPROTO_TCP
         then (s, -1)
         else case (first_idx (\<lambda>n. fd_map (task_of s i) ! n < 0 \<and> socket_map (task_of s i) ! n < 0 \<and>
                      pipe_map (task_of s i) ! n < 0) 3 TASK_FD_MAX, free_slot s) of
                (Some fd, Some k) \<Rightarrow>
                  (set_socket_map i fd (int k)
                    (upd_slot k (\<lambda>_. zero_slot\<lparr>sowner := Some i, sused := True\<rparr>) s), int fd)
              | _ \<Rightarrow> (s, -1))"

text \<open>A port in the order of the network.\<close>

definition swap_port :: "u16 \<Rightarrow> u16" where
  "swap_port p = drop_bit 8 p OR push_bit 8 p"

definition set_conn :: "nat \<Rightarrow> atm_tcp_conn_t \<Rightarrow> net_state_t \<Rightarrow> 'a fdsys_scheme \<Rightarrow> 'a fdsys_scheme" where
  "set_conn k c w s = (upd_slot k (\<lambda>x. x\<lparr>conn := c\<rparr>) s)\<lparr>netdev := w\<rparr>"

definition native_socket_connect ::
  "net_env \<Rightarrow> nat option \<Rightarrow> int \<Rightarrow> atm_sockaddr_in_t option \<Rightarrow> u32 \<Rightarrow> 'a fdsys_scheme
    \<Rightarrow> ('a fdsys_scheme \<times> int) option" where
  "native_socket_connect E t fd a timeout s =
    (case (slot_for t fd s, a) of
       (Some k, Some a) \<Rightarrow>
         if family a \<noteq> of_nat ATM_AF_INET \<or> swap_port (port a) = 0 then Some (s, -1)
         else map_option (\<lambda>(r, c, w). (set_conn k c w s, r))
                (atm_tcp_connect E (addr a) (swap_port (port a)) timeout (conn (slots s ! k)) (netdev s))
     | _ \<Rightarrow> Some (s, -1))"

definition native_socket_bind ::
  "nat option \<Rightarrow> int \<Rightarrow> atm_sockaddr_in_t option \<Rightarrow> 'a fdsys_scheme \<Rightarrow> 'a fdsys_scheme \<times> int" where
  "native_socket_bind t fd a s =
    (case (slot_for t fd s, a) of
       (Some k, Some a) \<Rightarrow>
         if family a \<noteq> of_nat ATM_AF_INET \<or> atm_tcp_conn_t.state (conn (slots s ! k)) \<noteq> ATM_TCP_CLOSED then (s, -1)
         else if \<exists>i < 4. addr a ! i \<noteq> 0 \<and> addr a ! i \<noteq> ucast (ip (netdev s) ! i) then (s, -1)
         else if swap_port (port a) = 0 then (s, -1)
         else (upd_slot k (\<lambda>x. x\<lparr>conn := (conn x)\<lparr>local_port := swap_port (port a)\<rparr>\<rparr>) s, 0)
     | _ \<Rightarrow> (s, -1))"

definition native_socket_listen :: "nat option \<Rightarrow> int \<Rightarrow> int \<Rightarrow> 'a fdsys_scheme \<Rightarrow> 'a fdsys_scheme \<times> int" where
  "native_socket_listen t fd backlog s =
    (case slot_for t fd s of
       None \<Rightarrow> (s, -1)
     | Some k \<Rightarrow>
         if backlog < 0 \<or> backlog > 1 then (s, -1)
         else let c = conn (slots s ! k); (r, c1) = atm_tcp_listen (local_port c) c (netdev s)
              in (set_conn k c1 (netdev s) s, r))"

text \<open>
  \<open>native_socket_accept\<close>; the third component is the address stored at \<open>peer\<close>.  The search
  for a free number looks at \<open>fd_map\<close> and \<open>socket_map\<close> only, as in the source.
\<close>

definition native_socket_accept ::
  "net_env \<Rightarrow> nat option \<Rightarrow> int \<Rightarrow> u32 \<Rightarrow> 'a fdsys_scheme
    \<Rightarrow> ('a fdsys_scheme \<times> int \<times> atm_sockaddr_in_t option) option" where
  "native_socket_accept E t fd timeout s =
    (case (t, slot_for t fd s) of
       (Some i, Some l) \<Rightarrow>
         if atm_tcp_conn_t.state (conn (slots s ! l)) \<noteq> ATM_TCP_LISTEN then Some (s, -1, None)
         else case (first_idx (\<lambda>n. fd_map (task_of s i) ! n < 0 \<and> socket_map (task_of s i) ! n < 0) 3 TASK_FD_MAX,
                    free_slot s) of
                (Some child, Some k) \<Rightarrow>
                  (let s1 = set_socket_map i child (int k)
                              (upd_slot k (\<lambda>_. zero_slot\<lparr>sowner := Some i, sused := True\<rparr>) s)
                   in do {
                        (r, c, w) \<leftarrow> atm_tcp_accept E (conn (slots s1 ! l)) timeout (conn (slots s1 ! k)) (netdev s1);
                        Some (if r < 0
                              then (upd_slot k (\<lambda>_. zero_slot) (set_socket_map i child (-1) (s1\<lparr>netdev := w\<rparr>)), -1, None)
                              else (set_conn k c w s1, int child,
                                    Some \<lparr>family = of_nat ATM_AF_INET, port = swap_port (remote_port c), addr = remote_ip c\<rparr>))
                      })
              | _ \<Rightarrow> Some (s, -1, None)
     | _ \<Rightarrow> Some (s, -1, None))"

definition native_socket_send ::
  "net_env \<Rightarrow> nat option \<Rightarrow> int \<Rightarrow> u8 list option \<Rightarrow> 'a fdsys_scheme \<Rightarrow> ('a fdsys_scheme \<times> int) option" where
  "native_socket_send E t fd b s =
    (case (slot_for t fd s, b) of
       (Some k, Some b) \<Rightarrow>
         if length b > 512 then Some (s, -1)
         else map_option (\<lambda>(r, c, w). (set_conn k c w s, r)) (atm_tcp_send E b (conn (slots s ! k)) (netdev s))
     | _ \<Rightarrow> Some (s, -1))"

definition native_socket_recv ::
  "net_env \<Rightarrow> nat option \<Rightarrow> int \<Rightarrow> bool \<Rightarrow> nat \<Rightarrow> u32 \<Rightarrow> 'a fdsys_scheme
    \<Rightarrow> ('a fdsys_scheme \<times> int \<times> u8 list) option" where
  "native_socket_recv E t fd b n timeout s =
    (case slot_for t fd s of
       None \<Rightarrow> Some (s, -1, [])
     | Some k \<Rightarrow>
         if \<not> b \<or> n = 0 \<or> n > 512 then Some (s, -1, [])
         else map_option (\<lambda>(r, bs, c, w). (set_conn k c w s, r, bs))
                (atm_tcp_recv E n timeout (conn (slots s ! k)) (netdev s)))"

definition native_socket_close ::
  "net_env \<Rightarrow> nat option \<Rightarrow> int \<Rightarrow> 'a fdsys_scheme \<Rightarrow> 'a fdsys_scheme \<times> int" where
  "native_socket_close E t fd s =
    (case (t, slot_for t fd s) of
       (Some i, Some k) \<Rightarrow>
         (let (_, _, w) = atm_tcp_close E (conn (slots s ! k)) (netdev s)
          in (upd_slot k (\<lambda>_. zero_slot) (set_socket_map i (nat fd) (-1) (s\<lparr>netdev := w\<rparr>)), 0))
     | _ \<Rightarrow> (s, -1))"

definition native_socket_task_cleanup :: "net_env \<Rightarrow> nat option \<Rightarrow> 'a fdsys_scheme \<Rightarrow> 'a fdsys_scheme" where
  "native_socket_task_cleanup E t s =
    (case t of
       None \<Rightarrow> s
     | Some i \<Rightarrow>
         fold (\<lambda>fd s. if socket_map (task_of s i) ! fd \<ge> 0 then fst (native_socket_close E t (int fd) s) else s)
           [3 ..< TASK_FD_MAX] s)"

definition native_socket_poll :: "nat option \<Rightarrow> int \<Rightarrow> u16 \<Rightarrow> 'a fdsys_scheme \<Rightarrow> u16" where
  "native_socket_poll t fd events s =
    (case slot_for t fd s of
       None \<Rightarrow> ATM_POLLNVAL
     | Some k \<Rightarrow>
         (let c = conn (slots s ! k); st = atm_tcp_conn_t.state c
          in if st = ATM_TCP_ERROR then ATM_POLLERR
             else (if st = ATM_TCP_CLOSED \<or> st = ATM_TCP_FIN_WAIT then ATM_POLLHUP else 0) OR
                  (if st = ATM_TCP_ESTABLISHED \<and> events AND ATM_POLLOUT \<noteq> 0 then ATM_POLLOUT else 0) OR
                  (if events AND ATM_POLLIN \<noteq> 0 \<and> (\<exists>i < ATM_TCP_OOO_MAX. ooo_used (ooo c ! i)) then ATM_POLLIN else 0)))"


end
