(* ===== verification/Ownership.thy ===== *)
theory Ownership
  imports Prelude
begin

section \<open>Ownership of resources\<close>

text \<open>
  Handles own resources: no two handles own the same one, and what is owned is live.  The
  descriptor tables (\<open>Native_Fd\<close>) own VFS descriptors and sockets, an address space
  (\<open>Paging\<close>) owns blocks of the heap.
\<close>

definition owned :: "('h \<rightharpoonup> 'r) \<Rightarrow> 'r set \<Rightarrow> bool" where
  "owned m L \<longleftrightarrow> inj_on m (dom m) \<and> ran m \<subseteq> L"

lemma owned_unique: "owned m L \<Longrightarrow> m h = Some r \<Longrightarrow> m h' = Some r \<Longrightarrow> h = h'"
  unfolding owned_def inj_on_def by (metis domI)

lemma owned_live: "owned m L \<Longrightarrow> m h = Some r \<Longrightarrow> r \<in> L"
  unfolding owned_def by (auto simp: ran_def)

lemma owned_mono: "owned m L \<Longrightarrow> ran m \<subseteq> L' \<Longrightarrow> owned m L'"
  by (simp add: owned_def)

lemma owned_acquire: "owned m L \<Longrightarrow> r \<in> L \<Longrightarrow> r \<notin> ran m \<Longrightarrow> owned (m(h \<mapsto> r)) L"
  by (auto simp: owned_def inj_on_def ran_def split: if_splits)

lemma owned_release: "owned m L \<Longrightarrow> owned (m(h := None)) L"
  by (auto simp: owned_def inj_on_def ran_def split: if_splits)

lemma owned_released: "owned m L \<Longrightarrow> m h = Some r \<Longrightarrow> r \<notin> ran (m(h := None))"
  by (auto simp: ran_def dest: owned_unique split: if_splits)

lemma owned_sub:
  assumes "owned m L" "\<And>h r. m' h = Some r \<Longrightarrow> m h = Some r"
  shows "owned m' L"
proof -
  have "x = y" if "m' x = Some r" "m' y = Some r" for x y r
    by (rule owned_unique [OF assms(1) assms(2) [OF that(1)] assms(2) [OF that(2)]])
  then have "inj_on m' (dom m')" by (auto simp: inj_on_def)
  moreover have "r \<in> L" if "m' h = Some r" for h r by (rule owned_live [OF assms(1) assms(2) [OF that]])
  then have "ran m' \<subseteq> L" unfolding ran_def by blast
  ultimately show ?thesis by (simp add: owned_def)
qed

end
