(* ===== verification/Native_Fd.thy ===== *)
theory Native_Fd
  imports Native_Socket Ownership
begin

unbundle bit_operations_syntax

section \<open>The descriptors of a task\<close>

text \<open>
  \<open>native_fd.c\<close> and \<open>native_dir.c\<close>: the descriptor table of a native task.  A number is backed
  by a VFS descriptor of its own (\<open>fd_map\<close>), an end of a pipe (\<open>pipe_map\<close>) or a socket
  (\<open>socket_map\<close>); the operations choose by which map has an entry.  A \<open>task_t *\<close> is a slot of
  the task table, \<open>None\<close> for null; buffers are present.  A directory stream is an address,
  1 more than its position in \<open>dir_streams\<close>.
\<close>

definition ATM_NATIVE_O_ACCMODE :: u32 where "ATM_NATIVE_O_ACCMODE = 0x0003"
definition ATM_NATIVE_O_CLOEXEC :: u32 where "ATM_NATIVE_O_CLOEXEC = 0x2000"
definition ATM_NATIVE_O_NONBLOCK :: u32 where "ATM_NATIVE_O_NONBLOCK = 0x4000"
definition ATM_NATIVE_F_DUPFD :: int where "ATM_NATIVE_F_DUPFD = 0"
definition ATM_NATIVE_F_GETFD :: int where "ATM_NATIVE_F_GETFD = 1"
definition ATM_NATIVE_F_SETFD :: int where "ATM_NATIVE_F_SETFD = 2"
definition ATM_NATIVE_F_GETFL :: int where "ATM_NATIVE_F_GETFL = 3"
definition ATM_NATIVE_F_SETFL :: int where "ATM_NATIVE_F_SETFL = 4"
definition ATM_NATIVE_F_DUPFD_CLOEXEC :: int where "ATM_NATIVE_F_DUPFD_CLOEXEC = 1030"
definition ATM_NATIVE_FD_CLOEXEC :: u32 where "ATM_NATIVE_FD_CLOEXEC = 1"
definition ATM_NATIVE_POLL_MAX :: nat where "ATM_NATIVE_POLL_MAX = 16"
definition ATM_NATIVE_DIR_MAX :: nat where "ATM_NATIVE_DIR_MAX = 16"
definition ATM_EBADF :: int where "ATM_EBADF = 9"
definition ATM_ENOTDIR :: int where "ATM_ENOTDIR = 20"

subsection \<open>Directory streams\<close>

definition dir_valid :: "nat option \<Rightarrow> int \<Rightarrow> 'a sys_scheme \<Rightarrow> bool" where
  "dir_valid t h s =
    (case t of
       None \<Rightarrow> False
     | Some i \<Rightarrow> fd_table_ready (task_of s i) \<and> h \<ge> 0 \<and> h < int ATM_NATIVE_DIR_MAX \<and>
         dir_map (task_of s i) ! nat h \<noteq> 0)"

definition set_dir_map :: "nat \<Rightarrow> nat \<Rightarrow> nat \<Rightarrow> 'a sys_scheme \<Rightarrow> 'a sys_scheme" where
  "set_dir_map i h v = upd_kern (upd_task i (\<lambda>u. u\<lparr>dir_map := (dir_map u)[h := v]\<rparr>))"

definition native_dir_task_init :: "nat option \<Rightarrow> 'a sys_scheme \<Rightarrow> 'a sys_scheme" where
  "native_dir_task_init t s =
    (case t of
       None \<Rightarrow> s
     | Some i \<Rightarrow> upd_kern (upd_task i (\<lambda>u. u\<lparr>dir_map := replicate ATM_NATIVE_DIR_MAX 0\<rparr>)) s)"

text \<open>The stream that \<open>atm_posix_opendir\<close> allocates, and \<open>atm_posix_closedir\<close>, which frees it.\<close>

definition dir_new :: "dir_handle \<Rightarrow> 'a fdsys_scheme \<Rightarrow> 'a fdsys_scheme \<times> nat" where
  "dir_new d s =
    (case first_idx (\<lambda>k. dir_streams s ! k = None) 0 (length (dir_streams s)) of
       Some k \<Rightarrow> (s\<lparr>dir_streams := (dir_streams s)[k := Some d]\<rparr>, k + 1)
     | None \<Rightarrow> (s\<lparr>dir_streams := dir_streams s @ [Some d]\<rparr>, length (dir_streams s) + 1))"

definition atm_posix_closedir :: "nat \<Rightarrow> 'a fdsys_scheme \<Rightarrow> 'a fdsys_scheme \<times> int" where
  "atm_posix_closedir a s =
    (if a = 0 then (s, -1) else (s\<lparr>dir_streams := (dir_streams s)[a - 1 := None]\<rparr>, 0))"

definition native_dir_task_cleanup :: "nat option \<Rightarrow> 'a fdsys_scheme \<Rightarrow> 'a fdsys_scheme" where
  "native_dir_task_cleanup t s =
    (case t of
       None \<Rightarrow> s
     | Some i \<Rightarrow>
         fold (\<lambda>h s. let a = dir_map (task_of s i) ! h
                     in if a \<noteq> 0 then set_dir_map i h 0 (fst (atm_posix_closedir a s)) else s)
           [0 ..< ATM_NATIVE_DIR_MAX] s)"

definition native_dir_open :: "nat option \<Rightarrow> string \<Rightarrow> 'a fdsys_scheme \<Rightarrow> 'a fdsys_scheme \<times> int" where
  "native_dir_open t path s =
    (case t of
       None \<Rightarrow> (s, -1)
     | Some i \<Rightarrow>
         if \<not> fd_table_ready (task_of s i) then (s, -1)
         else case first_idx (\<lambda>h. dir_map (task_of s i) ! h = 0) 0 ATM_NATIVE_DIR_MAX of
                None \<Rightarrow> (s, -1)
              | Some h \<Rightarrow>
                  (case atm_posix_opendir path s of
                     (s1, None) \<Rightarrow> (s1, -1)
                   | (s1, Some d) \<Rightarrow> let (s2, a) = dir_new d s1 in (set_dir_map i h a s2, int h)))"

definition native_dir_read :: "nat option \<Rightarrow> int \<Rightarrow> 'a fdsys_scheme \<Rightarrow> 'a fdsys_scheme \<times> int \<times> vfs_dirent option" where
  "native_dir_read t h s =
    (case t of
       None \<Rightarrow> (s, -1, None)
     | Some i \<Rightarrow>
         if \<not> dir_valid t h s then (s, -1, None)
         else let k = dir_map (task_of s i) ! nat h - 1
              in case dir_streams s ! k of
                   None \<Rightarrow> (s, 0, None)
                 | Some d \<Rightarrow>
                     (let (s1, d1, e) = atm_posix_readdir d s;
                          s2 = s1\<lparr>dir_streams := (dir_streams s1)[k := Some d1]\<rparr>
                      in (s2, if e = None then 0 else 1, e)))"

definition native_dir_close :: "nat option \<Rightarrow> int \<Rightarrow> 'a fdsys_scheme \<Rightarrow> 'a fdsys_scheme \<times> int" where
  "native_dir_close t h s =
    (case t of
       None \<Rightarrow> (s, -1)
     | Some i \<Rightarrow>
         if \<not> dir_valid t h s then (s, -1)
         else let a = dir_map (task_of s i) ! nat h in atm_posix_closedir a (set_dir_map i (nat h) 0 s))"

subsection \<open>Close-on-exec marks\<close>

definition fd_exec_meta_for :: "nat option \<Rightarrow> bool \<Rightarrow> 'a fdsys_scheme \<Rightarrow> 'a fdsys_scheme \<times> nat option" where
  "fd_exec_meta_for t create s =
    (case t of
       None \<Rightarrow> (s, None)
     | Some i \<Rightarrow>
         (case first_idx (\<lambda>k. mowner (fd_exec_meta s ! k) = Some i) 0 (TASK_MAX * 2) of
            Some k \<Rightarrow> (s, Some k)
          | None \<Rightarrow>
              if \<not> create then (s, None)
              else case first_idx (\<lambda>k. mowner (fd_exec_meta s ! k) = None) 0 (TASK_MAX * 2) of
                     Some k \<Rightarrow>
                       (s\<lparr>fd_exec_meta := (fd_exec_meta s)[k := \<lparr>mowner = Some i, mflags = replicate TASK_FD_MAX False\<rparr>]\<rparr>,
                        Some k)
                   | None \<Rightarrow> (s, None)))"

definition upd_meta :: "nat \<Rightarrow> (fd_exec_meta_t \<Rightarrow> fd_exec_meta_t) \<Rightarrow> 'a fdsys_scheme \<Rightarrow> 'a fdsys_scheme" where
  "upd_meta k f s = s\<lparr>fd_exec_meta := (fd_exec_meta s)[k := f (fd_exec_meta s ! k)]\<rparr>"

definition fd_exec_reset :: "nat option \<Rightarrow> 'a fdsys_scheme \<Rightarrow> 'a fdsys_scheme" where
  "fd_exec_reset t s =
    (case fd_exec_meta_for t True s of
       (s1, None) \<Rightarrow> s1
     | (s1, Some k) \<Rightarrow> upd_meta k (\<lambda>m. m\<lparr>mflags := replicate TASK_FD_MAX False\<rparr>) s1)"

definition fd_exec_drop :: "nat option \<Rightarrow> 'a fdsys_scheme \<Rightarrow> 'a fdsys_scheme" where
  "fd_exec_drop t s =
    (case fd_exec_meta_for t False s of
       (s1, None) \<Rightarrow> s1
     | (s1, Some k) \<Rightarrow> upd_meta k (\<lambda>_. \<lparr>mowner = None, mflags = replicate TASK_FD_MAX False\<rparr>) s1)"

definition fd_exec_get :: "nat option \<Rightarrow> int \<Rightarrow> 'a fdsys_scheme \<Rightarrow> bool" where
  "fd_exec_get t fd s =
    (case snd (fd_exec_meta_for t False s) of
       None \<Rightarrow> False
     | Some k \<Rightarrow> fd \<ge> 0 \<and> fd < int TASK_FD_MAX \<and> mflags (fd_exec_meta s ! k) ! nat fd)"

definition fd_exec_set :: "nat option \<Rightarrow> int \<Rightarrow> bool \<Rightarrow> 'a fdsys_scheme \<Rightarrow> 'a fdsys_scheme \<times> int" where
  "fd_exec_set t fd v s =
    (case fd_exec_meta_for t v s of
       (s1, None) \<Rightarrow> (s1, -1)
     | (s1, Some k) \<Rightarrow>
         if fd < 0 \<or> fd \<ge> int TASK_FD_MAX then (s1, -1)
         else (upd_meta k (\<lambda>m. m\<lparr>mflags := (mflags m)[nat fd := v]\<rparr>) s1, 0))"

subsection \<open>Tables\<close>

definition fd_valid :: "nat option \<Rightarrow> int \<Rightarrow> 'a sys_scheme \<Rightarrow> bool" where
  "fd_valid t fd s =
    (case t of
       None \<Rightarrow> False
     | Some i \<Rightarrow> fd_table_ready (task_of s i) \<and> fd \<ge> 0 \<and> fd < int TASK_FD_MAX \<and> fd_map (task_of s i) ! nat fd \<ge> 0)"

definition set_fd_map :: "nat \<Rightarrow> nat \<Rightarrow> int \<Rightarrow> 'a sys_scheme \<Rightarrow> 'a sys_scheme" where
  "set_fd_map i fd v = upd_kern (upd_task i (\<lambda>u. u\<lparr>fd_map := (fd_map u)[fd := v]\<rparr>))"

definition set_fd_flags :: "nat \<Rightarrow> nat \<Rightarrow> u32 \<Rightarrow> 'a sys_scheme \<Rightarrow> 'a sys_scheme" where
  "set_fd_flags i fd v = upd_kern (upd_task i (\<lambda>u. u\<lparr>fd_flags := (fd_flags u)[fd := v]\<rparr>))"

text \<open>The head of \<open>native_fd_task_init\<close> and \<open>native_fd_task_inherit\<close>: every map empty.\<close>

definition fd_tables_reset :: "nat \<Rightarrow> 'a fdsys_scheme \<Rightarrow> 'a fdsys_scheme" where
  "fd_tables_reset i s =
    native_dir_task_init (Some i)
      (upd_kern (native_pipe_task_init (Some i))
        (native_socket_task_init (Some i)
          (fd_exec_reset (Some i)
            (upd_kern (upd_task i (\<lambda>u. u\<lparr>fd_map := replicate TASK_FD_MAX (-1), fd_flags := replicate TASK_FD_MAX 0\<rparr>)) s))))"

definition set_fd_ready :: "nat \<Rightarrow> bool \<Rightarrow> 'a sys_scheme \<Rightarrow> 'a sys_scheme" where
  "set_fd_ready i b = upd_kern (upd_task i (\<lambda>u. u\<lparr>fd_table_ready := b\<rparr>))"

definition native_fd_task_init :: "nat option \<Rightarrow> 'a fdsys_scheme \<Rightarrow> 'a fdsys_scheme" where
  "native_fd_task_init t s =
    (case t of
       None \<Rightarrow> s
     | Some i \<Rightarrow>
         (let s0 = fd_tables_reset i s;
              (s1, b0) = atm_posix_open ''/dev/tty'' O_RDONLY 0 s0;
              (s2, b1) = atm_posix_open ''/dev/tty'' O_WRONLY 0 (set_fd_map i 0 b0 s1);
              (s3, b2) = atm_posix_open ''/dev/tty'' O_WRONLY 0 (set_fd_map i 1 b1 s2)
          in set_fd_ready i True
               (set_fd_flags i 2 O_WRONLY (set_fd_flags i 1 O_WRONLY (set_fd_flags i 0 O_RDONLY
                 (set_fd_map i 2 b2 s3))))))"

text \<open>The loop of \<open>native_fd_task_cleanup\<close> over the VFS descriptors.\<close>

definition fd_release :: "nat \<Rightarrow> nat \<Rightarrow> 'a sys_scheme \<Rightarrow> 'a sys_scheme" where
  "fd_release i fd s =
    (let b = fd_map (task_of s i) ! fd
     in set_fd_flags i fd 0 (set_fd_map i fd (-1) (if b \<ge> 0 then fst (atm_posix_close b s) else s)))"

definition native_fd_task_cleanup :: "net_env \<Rightarrow> nat option \<Rightarrow> 'a fdsys_scheme \<Rightarrow> 'a fdsys_scheme" where
  "native_fd_task_cleanup E t s =
    (case t of
       None \<Rightarrow> s
     | Some i \<Rightarrow>
         if \<not> fd_table_ready (task_of s i) then s
         else
           (let s1 = native_socket_task_cleanup E t (upd_kern (native_pipe_task_cleanup t) (native_dir_task_cleanup t s))
            in fd_exec_drop t (set_fd_ready i False (fold (fd_release i) [0 ..< TASK_FD_MAX] s1))))"

subsection \<open>Opening, closing, duplicating\<close>

text \<open>A number that no map uses.\<close>

definition fd_unused :: "nat \<Rightarrow> 'a sys_scheme \<Rightarrow> nat \<Rightarrow> bool" where
  "fd_unused i s n \<longleftrightarrow> fd_map (task_of s i) ! n < 0 \<and> socket_map (task_of s i) ! n < 0 \<and> pipe_map (task_of s i) ! n < 0"

definition native_fd_slot :: "nat option \<Rightarrow> 'a sys_scheme \<Rightarrow> nat option" where
  "native_fd_slot t s =
    (case t of
       None \<Rightarrow> None
     | Some i \<Rightarrow> if \<not> fd_table_ready (task_of s i) then None else first_idx (fd_unused i s) 3 TASK_FD_MAX)"

definition native_fd_open :: "nat option \<Rightarrow> string \<Rightarrow> u32 \<Rightarrow> u32 \<Rightarrow> 'a fdsys_scheme \<Rightarrow> 'a fdsys_scheme \<times> int" where
  "native_fd_open t path flags mode s =
    (case (t, native_fd_slot t s) of
       (Some i, Some slot) \<Rightarrow>
         (let (s1, backend) = atm_posix_open path (flags AND NOT (ATM_NATIVE_O_NONBLOCK OR ATM_NATIVE_O_CLOEXEC)) mode s
          in if backend < 0 then (s1, -1)
             else
               (let s2 = set_fd_flags i slot (flags AND (ATM_NATIVE_O_ACCMODE OR ATM_NATIVE_O_NONBLOCK))
                           (set_fd_map i slot backend s1);
                    (s3, rc) = fd_exec_set t (int slot) (flags AND ATM_NATIVE_O_CLOEXEC \<noteq> 0) s2
                in if rc < 0 then (set_fd_map i slot (-1) (fst (atm_posix_close backend s3)), -1)
                   else (s3, int slot)))
     | _ \<Rightarrow> (s, -1))"

text \<open>The two numbers are \<open>out_fds\<close>, \<open>None\<close> the \<open>-1\<close>.\<close>

definition native_fd_pipe2 :: "nat option \<Rightarrow> u32 \<Rightarrow> 'a fdsys_scheme \<Rightarrow> 'a fdsys_scheme \<times> (nat \<times> nat) option" where
  "native_fd_pipe2 t flags s =
    (if flags AND NOT (ATM_NATIVE_O_CLOEXEC OR ATM_NATIVE_O_NONBLOCK) \<noteq> 0 then (s, None)
     else case (t, lift_kern (native_pipe_create t) s) of
            (Some i, s1, Some (r, w)) \<Rightarrow>
              (let ce = (flags AND ATM_NATIVE_O_CLOEXEC \<noteq> 0);
                   s2 = set_fd_flags i w (O_WRONLY OR (flags AND ATM_NATIVE_O_NONBLOCK))
                          (set_fd_flags i r (O_RDONLY OR (flags AND ATM_NATIVE_O_NONBLOCK)) s1);
                   (s3, rc) = fd_exec_set t (int r) ce s2;
                   (s4, rc') = (if rc < 0 then (s3, rc) else fd_exec_set t (int w) ce s3)
               in if rc' < 0
                  then (fst (lift_kern (native_pipe_close t (int w)) (fst (lift_kern (native_pipe_close t (int r)) s4))), None)
                  else (s4, Some (r, w)))
          | (_, s1, _) \<Rightarrow> (s1, None))"

definition native_fd_pipe :: "nat option \<Rightarrow> 'a fdsys_scheme \<Rightarrow> 'a fdsys_scheme \<times> (nat \<times> nat) option" where
  "native_fd_pipe t = native_fd_pipe2 t 0"

text \<open>What both branches of \<open>native_fd_close\<close> do after a pipe or a socket has closed.\<close>

definition clear_fd_flags :: "nat option \<Rightarrow> int \<Rightarrow> 'a fdsys_scheme \<Rightarrow> 'a fdsys_scheme" where
  "clear_fd_flags t fd s =
    (case t of None \<Rightarrow> s | Some i \<Rightarrow> fst (fd_exec_set t fd False (set_fd_flags i (nat fd) 0 s)))"

definition native_fd_close :: "net_env \<Rightarrow> nat option \<Rightarrow> int \<Rightarrow> 'a fdsys_scheme \<Rightarrow> 'a fdsys_scheme \<times> int" where
  "native_fd_close E t fd s =
    (if native_pipe_is_fd t fd (kern s)
     then let (s1, rc) = lift_kern (native_pipe_close t fd) s in (if rc = 0 then clear_fd_flags t fd s1 else s1, rc)
     else if native_socket_is_fd t fd s
     then let (s1, rc) = native_socket_close E t fd s in (if rc = 0 then clear_fd_flags t fd s1 else s1, rc)
     else case t of
            None \<Rightarrow> (s, -1)
          | Some i \<Rightarrow>
              if \<not> fd_valid t fd s then (s, -1)
              else let backend = fd_map (task_of s i) ! nat fd
                   in atm_posix_close backend (clear_fd_flags t fd (set_fd_map i (nat fd) (-1) s)))"

definition native_fd_close_on_exec :: "net_env \<Rightarrow> nat option \<Rightarrow> 'a fdsys_scheme \<Rightarrow> 'a fdsys_scheme" where
  "native_fd_close_on_exec E t s =
    (case t of
       None \<Rightarrow> s
     | Some i \<Rightarrow>
         if \<not> fd_table_ready (task_of s i) then s
         else fold (\<lambda>fd s. if fd_exec_get t (int fd) s then fst (native_fd_close E t (int fd) s) else s)
                [0 ..< TASK_FD_MAX] s)"

text \<open>One round of the loop of \<open>native_fd_task_inherit\<close>: whether it goes on, and the state.\<close>

definition fd_inherit_one :: "nat \<Rightarrow> nat \<Rightarrow> nat \<Rightarrow> 'a fdsys_scheme \<Rightarrow> 'a fdsys_scheme \<times> bool" where
  "fd_inherit_one c p fd s =
    (let copy_flags = (\<lambda>s. fst (fd_exec_set (Some c) (int fd) (fd_exec_get (Some p) (int fd) s)
                             (set_fd_flags c fd (fd_flags (task_of s p) ! fd) s)))
     in if socket_map (task_of s p) ! fd \<ge> 0 then (s, False)
        else if fd_map (task_of s p) ! fd \<ge> 0
        then let (s1, backend) = atm_posix_dup (fd_map (task_of s p) ! fd) s
             in if backend < 0 then (s1, False) else (copy_flags (set_fd_map c fd backend s1), True)
        else if pipe_map (task_of s p) ! fd \<ge> 0
        then let (s1, rc) = lift_kern (native_pipe_inherit (Some c) (Some p) (int fd)) s
             in if rc < 0 then (s1, False) else (copy_flags s1, True)
        else (s, True))"

fun fd_inherit_loop :: "nat \<Rightarrow> nat \<Rightarrow> nat list \<Rightarrow> 'a fdsys_scheme \<Rightarrow> 'a fdsys_scheme \<times> bool" where
  "fd_inherit_loop c p [] s = (s, True)"
| "fd_inherit_loop c p (fd # fds) s =
    (let (s1, ok) = fd_inherit_one c p fd s in if ok then fd_inherit_loop c p fds s1 else (s1, False))"

definition native_fd_task_inherit ::
  "net_env \<Rightarrow> nat option \<Rightarrow> nat option \<Rightarrow> 'a fdsys_scheme \<Rightarrow> 'a fdsys_scheme \<times> int" where
  "native_fd_task_inherit E child parent s =
    (case (child, parent) of
       (Some c, Some p) \<Rightarrow>
         if \<not> fd_table_ready (task_of s p) then (s, -1)
         else
           (let s1 = set_fd_ready c True (fd_tables_reset c s);
                (s2, ok) = (if \<exists>h < ATM_NATIVE_DIR_MAX. dir_map (task_of s1 p) ! h \<noteq> 0 then (s1, False)
                            else fd_inherit_loop c p [0 ..< TASK_FD_MAX] s1)
            in if ok then (s2, 0) else (native_fd_task_cleanup E child s2, -1))
     | _ \<Rightarrow> (s, -1))"

text \<open>The end of \<open>native_fd_dup_min\<close> and \<open>native_fd_dup2\<close>: \<open>fd\<close> copied to the number \<open>n\<close>.\<close>

definition dup_onto :: "nat \<Rightarrow> int \<Rightarrow> nat \<Rightarrow> 'a fdsys_scheme \<Rightarrow> 'a fdsys_scheme \<times> int" where
  "dup_onto i fd n s =
    (if native_pipe_is_fd (Some i) fd (kern s)
     then let (s1, out) = lift_kern (native_pipe_dup (Some i) fd (int n)) s
          in (if out \<ge> 0 then fst (fd_exec_set (Some i) out False (set_fd_flags i (nat out) (fd_flags (task_of s1 i) ! nat fd) s1))
              else s1, out)
     else let (s1, backend) = atm_posix_dup (fd_map (task_of s i) ! nat fd) s
          in if backend < 0 then (s1, -1)
             else (fst (fd_exec_set (Some i) (int n) False
                     (set_fd_flags i n (fd_flags (task_of s1 i) ! nat fd) (set_fd_map i n backend s1))), int n))"

definition native_fd_dup_min :: "nat option \<Rightarrow> int \<Rightarrow> int \<Rightarrow> 'a fdsys_scheme \<Rightarrow> 'a fdsys_scheme \<times> int" where
  "native_fd_dup_min t fd min_fd s =
    (case t of
       None \<Rightarrow> (s, -1)
     | Some i \<Rightarrow>
         if min_fd < 0 \<or> min_fd \<ge> int TASK_FD_MAX then (s, -1)
         else if \<not> (native_pipe_is_fd t fd (kern s) \<or> fd_valid t fd s) \<or> native_socket_is_fd t fd s then (s, -1)
         else case first_idx (fd_unused i s) (nat min_fd) TASK_FD_MAX of
                None \<Rightarrow> (s, -1)
              | Some slot \<Rightarrow> dup_onto i fd slot s)"

definition native_fd_dup :: "nat option \<Rightarrow> int \<Rightarrow> 'a fdsys_scheme \<Rightarrow> 'a fdsys_scheme \<times> int" where
  "native_fd_dup t fd = native_fd_dup_min t fd 0"

definition native_fd_dup2 :: "net_env \<Rightarrow> nat option \<Rightarrow> int \<Rightarrow> int \<Rightarrow> 'a fdsys_scheme \<Rightarrow> 'a fdsys_scheme \<times> int" where
  "native_fd_dup2 E t fd newfd s =
    (case t of
       None \<Rightarrow> (s, -1)
     | Some i \<Rightarrow>
         if newfd < 0 \<or> newfd \<ge> int TASK_FD_MAX then (s, -1)
         else if fd = newfd \<and> (native_pipe_is_fd t fd (kern s) \<or> native_socket_is_fd t fd s \<or> fd_valid t fd s) then (s, newfd)
         else if \<not> (native_pipe_is_fd t fd (kern s) \<or> fd_valid t fd s) \<or> native_socket_is_fd t fd s then (s, -1)
         else
           (let s1 = (if native_pipe_is_fd t newfd (kern s) then fst (lift_kern (native_pipe_close t newfd) s)
                      else if native_socket_is_fd t newfd s then fst (native_socket_close E t newfd s)
                      else if fd_valid t newfd s then fst (atm_posix_close (fd_map (task_of s i) ! nat newfd) s)
                      else s)
            in dup_onto i fd (nat newfd) s1))"

definition native_fd_dup3 ::
  "net_env \<Rightarrow> nat option \<Rightarrow> int \<Rightarrow> int \<Rightarrow> u32 \<Rightarrow> 'a fdsys_scheme \<Rightarrow> 'a fdsys_scheme \<times> int" where
  "native_fd_dup3 E t fd newfd flags s =
    (if fd = newfd \<or> flags AND NOT ATM_NATIVE_O_CLOEXEC \<noteq> 0 then (s, -1)
     else let (s1, out) = native_fd_dup2 E t fd newfd s
          in if out < 0 then (s1, out)
             else let (s2, rc) = fd_exec_set t out (flags AND ATM_NATIVE_O_CLOEXEC \<noteq> 0) s1
                  in if rc < 0 then (fst (native_fd_close E t out s2), -1) else (s2, out))"

text \<open>\<open>native_fd_fcntl\<close>; the argument is converted to \<open>int\<close> for the two duplications.\<close>

definition native_fd_fcntl ::
  "net_env \<Rightarrow> nat option \<Rightarrow> int \<Rightarrow> int \<Rightarrow> u32 \<Rightarrow> 'a fdsys_scheme \<Rightarrow> 'a fdsys_scheme \<times> int" where
  "native_fd_fcntl E t fd cmd arg s =
    (case t of
       None \<Rightarrow> (s, -1)
     | Some i \<Rightarrow>
         if \<not> (native_pipe_is_fd t fd (kern s) \<or> native_socket_is_fd t fd s \<or> fd_valid t fd s) then (s, -1)
         else if cmd = ATM_NATIVE_F_DUPFD then native_fd_dup_min t fd (sint arg) s
         else if cmd = ATM_NATIVE_F_DUPFD_CLOEXEC
         then let (s1, out) = native_fd_dup_min t fd (sint arg) s
              in if out < 0 then (s1, -1)
                 else let (s2, rc) = fd_exec_set t out True s1
                      in if rc < 0 then (fst (native_fd_close E t out s2), -1) else (s2, out)
         else if cmd = ATM_NATIVE_F_GETFD then (s, if fd_exec_get t fd s then uint ATM_NATIVE_FD_CLOEXEC else 0)
         else if cmd = ATM_NATIVE_F_SETFD
         then if arg AND NOT ATM_NATIVE_FD_CLOEXEC \<noteq> 0 then (s, -1)
              else fd_exec_set t fd (arg AND ATM_NATIVE_FD_CLOEXEC \<noteq> 0) s
         else if cmd = ATM_NATIVE_F_GETFL then (s, sint (fd_flags (task_of s i) ! nat fd))
         else if cmd = ATM_NATIVE_F_SETFL
         then if native_socket_is_fd t fd s \<or> arg AND NOT ATM_NATIVE_O_NONBLOCK \<noteq> 0 then (s, -1)
              else (set_fd_flags i (nat fd) ((fd_flags (task_of s i) ! nat fd AND ATM_NATIVE_O_ACCMODE) OR
                      (arg AND ATM_NATIVE_O_NONBLOCK)) s, 0)
         else (s, -1))"

subsection \<open>Transfers\<close>

definition add_io_read :: "nat option \<Rightarrow> int \<Rightarrow> 'a sys_scheme \<Rightarrow> 'a sys_scheme" where
  "add_io_read t n s =
    (case t of
       None \<Rightarrow> s
     | Some i \<Rightarrow>
         if n > 0 then upd_kern (upd_task i (\<lambda>u. u\<lparr>io_read_bytes := io_read_bytes u + word_of_int n\<rparr>)) s else s)"

definition add_io_write :: "nat option \<Rightarrow> int \<Rightarrow> 'a sys_scheme \<Rightarrow> 'a sys_scheme" where
  "add_io_write t n s =
    (case t of
       None \<Rightarrow> s
     | Some i \<Rightarrow>
         if n > 0 then upd_kern (upd_task i (\<lambda>u. u\<lparr>io_write_bytes := io_write_bytes u + word_of_int n\<rparr>)) s else s)"

definition fd_nonblock :: "nat option \<Rightarrow> int \<Rightarrow> 'a sys_scheme \<Rightarrow> bool" where
  "fd_nonblock t fd s =
    (case t of None \<Rightarrow> False | Some i \<Rightarrow> fd_flags (task_of s i) ! nat fd AND ATM_NATIVE_O_NONBLOCK \<noteq> 0)"

definition fd_backend :: "nat option \<Rightarrow> int \<Rightarrow> 'a sys_scheme \<Rightarrow> int" where
  "fd_backend t fd s = (case t of None \<Rightarrow> -1 | Some i \<Rightarrow> fd_map (task_of s i) ! nat fd)"

text \<open>
  \<open>native_fd_read\<close> and \<open>native_fd_write\<close>.  The result \<open>Blocked\<close> is that of the pipe: the caller
  is off the run queue and repeats the call when it is woken.
\<close>

definition native_fd_read ::
  "net_env \<Rightarrow> nat option \<Rightarrow> int \<Rightarrow> nat \<Rightarrow> 'a fdsys_scheme \<Rightarrow> ('a fdsys_scheme \<times> pipe_io) option" where
  "native_fd_read E t fd cnt s = do {
     (s1, r) \<leftarrow>
       (if native_pipe_is_fd t fd (kern s)
        then Some (lift_kern (native_pipe_read t fd True cnt (fd_nonblock t fd s)) s)
        else if native_socket_is_fd t fd s
        then map_option (\<lambda>(s1, n, bs). (s1, Ret n bs)) (native_socket_recv E t fd True cnt 300 s)
        else if fd_valid t fd s
        then Some (let (s1, n, bs) = atm_posix_read (fd_backend t fd s) cnt s in (s1, Ret n bs))
        else Some (s, Ret (-1) []));
     Some (case r of Ret n bs \<Rightarrow> add_io_read t n s1 | Blocked \<Rightarrow> s1, r)
   }"

definition native_fd_write ::
  "net_env \<Rightarrow> nat option \<Rightarrow> int \<Rightarrow> u8 list \<Rightarrow> 'a fdsys_scheme \<Rightarrow> ('a fdsys_scheme \<times> pipe_io) option" where
  "native_fd_write E t fd bs s = do {
     (s1, r) \<leftarrow>
       (if native_pipe_is_fd t fd (kern s)
        then Some (lift_kern (native_pipe_write t fd (Some bs) (fd_nonblock t fd s)) s)
        else if native_socket_is_fd t fd s
        then map_option (\<lambda>(s1, n). (s1, Ret n [])) (native_socket_send E t fd (Some bs) s)
        else if fd_valid t fd s
        then Some (let (s1, n) = atm_posix_write (fd_backend t fd s) bs s in (s1, Ret n []))
        else Some (s, Ret (-1) []));
     Some (case r of Ret n _ \<Rightarrow> add_io_write t n s1 | Blocked \<Rightarrow> s1, r)
   }"

text \<open>
  A vectored transfer on a pipe can block at any element: the result then holds what is left
  to do, the total so far and the bytes read so far.
\<close>

datatype vec_io = Vec_ret int "u8 list" | Vec_blocked "atm_posix_iovec_t list" int "u8 list"

fun pipe_readv ::
  "nat option \<Rightarrow> int \<Rightarrow> atm_posix_iovec_t list \<Rightarrow> int \<Rightarrow> u8 list \<Rightarrow> 'a fdsys_scheme \<Rightarrow> 'a fdsys_scheme \<times> vec_io" where
  "pipe_readv t fd [] acc got s = (add_io_read t acc s, Vec_ret acc got)"
| "pipe_readv t fd (v # vs) acc got s =
    (case lift_kern (native_pipe_read t fd (iov_base v \<noteq> None) (iov_len v) (fd_nonblock t fd s)) s of
       (s1, Blocked) \<Rightarrow> (s1, Vec_blocked (v # vs) acc got)
     | (s1, Ret n bs) \<Rightarrow>
         if n < 0 then (s1, Vec_ret (if acc \<noteq> 0 then acc else n) got)
         else if nat n < iov_len v then (add_io_read t (acc + n) s1, Vec_ret (acc + n) (got @ bs))
         else pipe_readv t fd vs (acc + n) (got @ bs) s1)"

fun pipe_writev ::
  "nat option \<Rightarrow> int \<Rightarrow> atm_posix_iovec_t list \<Rightarrow> int \<Rightarrow> 'a fdsys_scheme \<Rightarrow> 'a fdsys_scheme \<times> vec_io" where
  "pipe_writev t fd [] acc s = (add_io_write t acc s, Vec_ret acc [])"
| "pipe_writev t fd (v # vs) acc s =
    (case lift_kern (native_pipe_write t fd (map_option (take (iov_len v)) (iov_base v)) (fd_nonblock t fd s)) s of
       (s1, Blocked) \<Rightarrow> (s1, Vec_blocked (v # vs) acc [])
     | (s1, Ret n _) \<Rightarrow>
         if n < 0 then (s1, Vec_ret (if acc \<noteq> 0 then acc else n) [])
         else if nat n < iov_len v then (add_io_write t (acc + n) s1, Vec_ret (acc + n) [])
         else pipe_writev t fd vs (acc + n) s1)"

definition native_fd_readv ::
  "nat option \<Rightarrow> int \<Rightarrow> atm_posix_iovec_t list \<Rightarrow> 'a fdsys_scheme \<Rightarrow> 'a fdsys_scheme \<times> vec_io" where
  "native_fd_readv t fd iov s =
    (if length iov > 16 then (s, Vec_ret (-1) [])
     else if native_pipe_is_fd t fd (kern s) then pipe_readv t fd iov 0 [] s
     else if native_socket_is_fd t fd s \<or> \<not> fd_valid t fd s then (s, Vec_ret (-1) [])
     else let (s1, n, bs) = atm_posix_readv (fd_backend t fd s) iov s in (add_io_read t n s1, Vec_ret n bs))"

definition native_fd_writev ::
  "nat option \<Rightarrow> int \<Rightarrow> atm_posix_iovec_t list \<Rightarrow> 'a fdsys_scheme \<Rightarrow> 'a fdsys_scheme \<times> vec_io" where
  "native_fd_writev t fd iov s =
    (if length iov > 16 then (s, Vec_ret (-1) [])
     else if native_pipe_is_fd t fd (kern s) then pipe_writev t fd iov 0 s
     else if native_socket_is_fd t fd s \<or> \<not> fd_valid t fd s then (s, Vec_ret (-1) [])
     else let (s1, n) = atm_posix_writev (fd_backend t fd s) iov s in (add_io_write t n s1, Vec_ret n []))"

text \<open>The calls that a VFS descriptor alone allows.  \<open>lseek\<close>, \<open>pread\<close>, \<open>pwrite\<close>, \<open>fstat\<close>,
  \<open>ftruncate\<close> and \<open>fsync\<close> do not test for a pipe: such a number has no entry in \<open>fd_map\<close>.\<close>

definition on_backend ::
  "nat option \<Rightarrow> int \<Rightarrow> 'r \<Rightarrow> (int \<Rightarrow> 'a fdsys_scheme \<Rightarrow> 'a fdsys_scheme \<times> 'r) \<Rightarrow> 'a fdsys_scheme \<Rightarrow> 'a fdsys_scheme \<times> 'r" where
  "on_backend t fd bad f s =
    (if native_socket_is_fd t fd s \<or> \<not> fd_valid t fd s then (s, bad) else f (fd_backend t fd s) s)"

definition on_file ::
  "nat option \<Rightarrow> int \<Rightarrow> 'r \<Rightarrow> (int \<Rightarrow> 'a fdsys_scheme \<Rightarrow> 'a fdsys_scheme \<times> 'r) \<Rightarrow> 'a fdsys_scheme \<Rightarrow> 'a fdsys_scheme \<times> 'r" where
  "on_file t fd bad f s =
    (if native_pipe_is_fd t fd (kern s) \<or> native_socket_is_fd t fd s \<or> \<not> fd_valid t fd s then (s, bad)
     else f (fd_backend t fd s) s)"

definition native_fd_lseek :: "nat option \<Rightarrow> int \<Rightarrow> int \<Rightarrow> int \<Rightarrow> 'a fdsys_scheme \<Rightarrow> 'a fdsys_scheme \<times> int" where
  "native_fd_lseek t fd off whence = on_backend t fd (-1) (\<lambda>b. atm_posix_lseek b off whence)"

definition native_fd_fchdir :: "nat option \<Rightarrow> int \<Rightarrow> 'a fdsys_scheme \<Rightarrow> 'a fdsys_scheme \<times> int" where
  "native_fd_fchdir t fd = on_file t fd (- ATM_EBADF)
     (\<lambda>b s. let (s1, r) = atm_posix_fchdir b s in (s1, if r < 0 then - ATM_ENOTDIR else 0))"

definition native_fd_fchmod :: "nat option \<Rightarrow> int \<Rightarrow> u32 \<Rightarrow> 'a fdsys_scheme \<Rightarrow> 'a fdsys_scheme \<times> int" where
  "native_fd_fchmod t fd m = on_file t fd (- ATM_EBADF) (\<lambda>b. atm_posix_fchmod b m)"

definition native_fd_fchown :: "nat option \<Rightarrow> int \<Rightarrow> u32 \<Rightarrow> u32 \<Rightarrow> 'a fdsys_scheme \<Rightarrow> 'a fdsys_scheme \<times> int" where
  "native_fd_fchown t fd u g = on_file t fd (- ATM_EBADF) (\<lambda>b. atm_posix_fchown b u g)"

definition native_fd_pread :: "nat option \<Rightarrow> int \<Rightarrow> nat \<Rightarrow> nat \<Rightarrow> 'a fdsys_scheme \<Rightarrow> 'a fdsys_scheme \<times> int \<times> u8 list" where
  "native_fd_pread t fd cnt off = on_backend t fd (-1, []) (\<lambda>b. atm_posix_pread b cnt off)"

definition native_fd_pwrite :: "nat option \<Rightarrow> int \<Rightarrow> u8 list \<Rightarrow> nat \<Rightarrow> 'a fdsys_scheme \<Rightarrow> 'a fdsys_scheme \<times> int" where
  "native_fd_pwrite t fd bs off = on_backend t fd (-1) (\<lambda>b. atm_posix_pwrite b bs off)"

text \<open>\<open>UINT64_MAX\<close> bounds the position; the early exits return before the bytes are counted.\<close>

fun preadv_loop ::
  "nat option \<Rightarrow> int \<Rightarrow> atm_posix_iovec_t list \<Rightarrow> nat \<Rightarrow> int \<Rightarrow> u8 list \<Rightarrow> 'a fdsys_scheme \<Rightarrow> 'a fdsys_scheme \<times> int \<times> u8 list" where
  "preadv_loop t b [] pos acc got s = (add_io_read t acc s, acc, got)"
| "preadv_loop t b (v # vs) pos acc got s =
    (if iov_len v \<noteq> 0 \<and> iov_base v = None \<or> iov_len v > 2 ^ 64 - 1 - pos then (s, if acc \<noteq> 0 then acc else -1, got)
     else let (s1, n, bs) = atm_posix_pread b (iov_len v) pos s
          in if n < 0 then (s1, if acc \<noteq> 0 then acc else n, got)
             else if nat n < iov_len v then (add_io_read t (acc + n) s1, acc + n, got @ bs)
             else preadv_loop t b vs (pos + nat n) (acc + n) (got @ bs) s1)"

fun pwritev_loop ::
  "nat option \<Rightarrow> int \<Rightarrow> atm_posix_iovec_t list \<Rightarrow> nat \<Rightarrow> int \<Rightarrow> 'a fdsys_scheme \<Rightarrow> 'a fdsys_scheme \<times> int" where
  "pwritev_loop t b [] pos acc s = (add_io_write t acc s, acc)"
| "pwritev_loop t b (v # vs) pos acc s =
    (if iov_len v \<noteq> 0 \<and> iov_base v = None \<or> iov_len v > 2 ^ 64 - 1 - pos then (s, if acc \<noteq> 0 then acc else -1)
     else let (s1, n) = atm_posix_pwrite b (take (iov_len v) (case iov_base v of Some d \<Rightarrow> d | None \<Rightarrow> [])) pos s
          in if n < 0 then (s1, if acc \<noteq> 0 then acc else n)
             else if nat n < iov_len v then (add_io_write t (acc + n) s1, acc + n)
             else pwritev_loop t b vs (pos + nat n) (acc + n) s1)"

definition native_fd_preadv ::
  "nat option \<Rightarrow> int \<Rightarrow> atm_posix_iovec_t list \<Rightarrow> nat \<Rightarrow> 'a fdsys_scheme \<Rightarrow> 'a fdsys_scheme \<times> int \<times> u8 list" where
  "native_fd_preadv t fd iov off s =
    (if length iov > 16 then (s, -1, []) else on_file t fd (-1, []) (\<lambda>b. preadv_loop t b iov off 0 []) s)"

definition native_fd_pwritev ::
  "nat option \<Rightarrow> int \<Rightarrow> atm_posix_iovec_t list \<Rightarrow> nat \<Rightarrow> 'a fdsys_scheme \<Rightarrow> 'a fdsys_scheme \<times> int" where
  "native_fd_pwritev t fd iov off s =
    (if length iov > 16 then (s, -1) else on_file t fd (-1) (\<lambda>b. pwritev_loop t b iov off 0) s)"

definition native_fd_fstat :: "nat option \<Rightarrow> int \<Rightarrow> 'a fdsys_scheme \<Rightarrow> 'a fdsys_scheme \<times> stat_buf option" where
  "native_fd_fstat t fd = on_backend t fd None atm_posix_fstat"

definition native_fd_readdir :: "nat option \<Rightarrow> int \<Rightarrow> 'a fdsys_scheme \<Rightarrow> 'a fdsys_scheme \<times> int \<times> vfs_dirent option" where
  "native_fd_readdir t fd = on_file t fd (-1, None) (\<lambda>b. lift_fs (vfs_fd_readdir b))"

definition native_fd_ftruncate :: "nat option \<Rightarrow> int \<Rightarrow> nat \<Rightarrow> 'a fdsys_scheme \<Rightarrow> 'a fdsys_scheme \<times> int" where
  "native_fd_ftruncate t fd sz = on_backend t fd (-1) (\<lambda>b. atm_posix_ftruncate b sz)"

definition native_fd_fsync :: "nat option \<Rightarrow> int \<Rightarrow> bool \<Rightarrow> 'a fdsys_scheme \<Rightarrow> 'a fdsys_scheme \<times> int" where
  "native_fd_fsync t fd data_only =
    on_backend t fd (-1) (\<lambda>b. if data_only then atm_posix_fdatasync b else atm_posix_fsync b)"

definition native_fd_isatty :: "nat option \<Rightarrow> int \<Rightarrow> 'a sys_scheme \<Rightarrow> bool" where
  "native_fd_isatty t fd s \<longleftrightarrow> t \<noteq> None \<and> fd \<ge> 0 \<and> fd \<le> 2 \<and> fd_valid t fd s"

text \<open>\<open>native_fd_poll\<close>: the number of ready descriptors and their \<open>revents\<close>.\<close>

definition fd_revents :: "nat option \<Rightarrow> int \<Rightarrow> u16 \<Rightarrow> 'a fdsys_scheme \<Rightarrow> u16" where
  "fd_revents t fd events s =
    (if native_pipe_is_fd t fd (kern s) then native_pipe_poll t fd events (kern s)
     else if native_socket_is_fd t fd s then native_socket_poll t fd events s
     else ATM_POLLNVAL)"

definition native_fd_poll :: "nat option \<Rightarrow> (int \<times> u16) list \<Rightarrow> 'a fdsys_scheme \<Rightarrow> int \<times> u16 list" where
  "native_fd_poll t fds s =
    (if t = None \<or> length fds > ATM_NATIVE_POLL_MAX then (-1, [])
     else let rs = map (\<lambda>(fd, events). fd_revents t fd events s) fds
          in (int (length (filter (\<lambda>r. r \<noteq> 0) rs)), rs))"

subsection \<open>What a call does to the VFS descriptor table\<close>

text \<open>A call on the VFS descriptor \<open>b\<close> leaves the others as they are and opens or closes none.\<close>

definition fd_local :: "int \<Rightarrow> vfs \<Rightarrow> vfs \<Rightarrow> bool" where
  "fd_local b v v' \<longleftrightarrow> length (g_fds v') = length (g_fds v) \<and>
     (\<forall>k. fused (g_fds v' ! k) = fused (g_fds v ! k)) \<and> (\<forall>k. k \<noteq> nat b \<longrightarrow> g_fds v' ! k = g_fds v ! k)"

lemma fd_local_refl [simp]: "fd_local b v v"
  by (simp add: fd_local_def)

lemma fd_local_trans: "fd_local b v v' \<Longrightarrow> fd_local b v' v'' \<Longrightarrow> fd_local b v v''"
  by (simp add: fd_local_def)

lemma fd_local_same: "g_fds v' = g_fds v \<Longrightarrow> fd_local b v v'"
  by (simp add: fd_local_def)

lemma fd_local_offset: "fd_offset_only b v v' \<Longrightarrow> fd_local b v v'"
  by (auto simp: fd_offset_only_def fd_local_def nth_update_if split: if_splits)

lemma fd_local_frame: "fds_frame v v' \<Longrightarrow> fd_local b v v'"
  by (simp add: fds_frame_def fd_local_same)

lemma vfs_lseek_local: "vfs_lseek b off wh v = (v', r) \<Longrightarrow> fd_local b v v'"
  by (auto simp: vfs_lseek_def Let_def set_errno_def upd_fd_def fd_local_def nth_update_if split: if_splits)

lemmas vfs_read_local = vfs_read_fds [THEN fd_local_offset]
lemmas vfs_write_local = vfs_write_fds [THEN fd_local_offset]

lemma vfs_fstat_local: "vfs_fstat b v = (v', r) \<Longrightarrow> fd_local b v v'"
  by (auto simp: vfs_fstat_def set_errno_def fd_local_same split: if_splits)

lemma vfs_fchmod_local: "vfs_fchmod b m v = (v', r) \<Longrightarrow> fd_local b v v'"
  by (auto simp: vfs_fchmod_def Let_def set_errno_def op_chmod_def ramfs_chmod_impl_def upd_inode_def intro!: fd_local_same
      split: if_splits option.splits)

lemma vfs_fchown_local: "vfs_fchown b u g v = (v', r) \<Longrightarrow> fd_local b v v'"
  by (auto simp: vfs_fchown_def Let_def set_errno_def op_chown_def ramfs_chown_impl_def upd_inode_def intro!: fd_local_same
      split: if_splits option.splits)

lemma vfs_ftruncate_local: "vfs_ftruncate b sz v = (v', r) \<Longrightarrow> fd_local b v v'"
  by (auto simp: vfs_ftruncate_def Let_def case_prod_beta vfs_require_def intro!: fd_local_frame
      split: if_splits option.splits)

lemma vfs_fd_readdir_local: "vfs_fd_readdir b v = (v', r, e) \<Longrightarrow> fd_local b v v'"
  by (auto simp: vfs_fd_readdir_def Let_def vfs_require_def set_errno_def upd_fd_def fd_local_def nth_update_if
      split: if_splits option.splits prod.splits)

lemma vfs_fd_path_local: "vfs_fd_path b sz v = (v', r) \<Longrightarrow> fd_local b v v'"
  by (auto simp: vfs_fd_path_def set_errno_def fd_local_same split: if_splits)

lemma vfs_opendir_fds: "vfs_opendir path v = (v', r) \<Longrightarrow> fds_frame v v'"
proof -
  assume e: "vfs_opendir path v = (v', r)"
  obtain v1 i where p: "resolve_path path False v = (v1, i)" by fastforce
  have k: "fds_frame v v2" if "kalloc v1 = (v2, x)" for v2 x
    using fds_frame_resolve [OF p] fds_frame_basic(12) [of v v1] that by simp
  show ?thesis
    using e p fds_frame_resolve [OF p] k
    by (auto simp: vfs_opendir_def Let_def vfs_require_def split: if_splits option.splits prod.splits)
qed

lemma vfs_readdir_fds: "vfs_readdir_next d v = (v', d', e) \<Longrightarrow> fds_frame v v'"
  using fds_frame_resolve [of "dpath d" False v]
  by (auto simp: vfs_readdir_next_def Let_def vfs_require_def split: if_splits option.splits prod.splits)

text \<open>Opening and duplicating take a free descriptor; a failure takes none.\<close>

definition fd_taken :: "int \<Rightarrow> vfs \<Rightarrow> vfs \<Rightarrow> bool" where
  "fd_taken r v v' \<longleftrightarrow> length (g_fds v') = length (g_fds v) \<and>
     (if r < 0 then g_fds v' = g_fds v
      else 3 \<le> nat r \<and> nat r < FD_MAX \<and> \<not> fused (g_fds v ! nat r) \<and> fused (g_fds v' ! nat r) \<and>
        (\<forall>k. 3 \<le> k \<longrightarrow> k < nat r \<longrightarrow> fused (g_fds v ! k)) \<and> (\<forall>k. k \<noteq> nat r \<longrightarrow> g_fds v' ! k = g_fds v ! k))"

lemma open_inode_taken:
  assumes "open_inode path flags i t = (v', r)" "fds_frame v t" "length (g_fds v) = FD_MAX"
  shows "fd_taken r v v'"
proof (cases "r < 0")
  case True
  have "fds_frame t v'"
  proof (cases "fd_alloc t")
    case (Pair t1 x)
    then have "x = None" using True assms(1) by (auto simp: open_inode_def Let_def split: option.splits)
    then show ?thesis using Pair assms(1) by (auto simp: open_inode_def fd_alloc_def split: option.splits)
  qed
  then show ?thesis using True assms(2) by (simp add: fd_taken_def fds_frame_def)
next
  case False
  have "length (g_fds v') = length (g_fds t)"
  proof -
    have "length (g_fds w) = length (g_fds u)" if "op_truncate j sz u = Some (w, q)" for j sz u w q
      using fds_frame_truncate [OF that, of u] by (simp add: fds_frame_def)
    then show ?thesis using assms(1)
      by (auto simp: open_inode_def Let_def fd_alloc_def upd_fd_def set_errno_def inode_unref_def
          split: option.splits if_splits prod.splits)
  qed
  then show ?thesis using open_inode_installs [OF assms(1) _ assms(2,3)] False assms(2)
    by (auto simp: installs_def fd_taken_def fds_frame_def)
qed

text \<open>The four ways through \<open>vfs_open\<close>.\<close>

lemma vfs_open_found:
  assumes "vfs_open path flags m v = (v', r)" "resolve_path path (flags AND O_NOFOLLOW \<noteq> 0) v = (s1, Some i)"
    "\<not> (flags AND O_CREAT \<noteq> 0 \<and> flags AND O_EXCL \<noteq> 0)" "\<not> (S_ISDIR (imode (inode_at s1 i)) \<and> flags AND (O_WRONLY OR O_RDWR) \<noteq> 0)"
  shows "(let (s2, q) = (if open_wanted flags \<noteq> 0 then vfs_require (Some i) (open_wanted flags) s1 else (s1, 0)) in
          if q < 0 then (inode_unref i s2, -1) else open_inode path flags i s2) = (v', r)"
  using assms unfolding vfs_open_def open_wanted_def Let_def by auto

lemma vfs_open_refused:
  assumes "vfs_open path flags m v = (v', r)" "resolve_path path (flags AND O_NOFOLLOW \<noteq> 0) v = (s1, Some i)"
    "(flags AND O_CREAT \<noteq> 0 \<and> flags AND O_EXCL \<noteq> 0) \<or> (S_ISDIR (imode (inode_at s1 i)) \<and> flags AND (O_WRONLY OR O_RDWR) \<noteq> 0)"
  shows "fds_frame s1 v' \<and> r = -1"
  using assms unfolding vfs_open_def Let_def by (auto split: if_splits)

lemma vfs_open_no_parent:
  assumes "vfs_open path flags m v = (v', r)" "resolve_path path (flags AND O_NOFOLLOW \<noteq> 0) v = (s1, None)"
   "resolve_path (fst (path_split path)) False s1 = (s2, None)"
  shows "(v' = set_errno ENOENT s1 \<or> v' = set_errno ENOENT s2) \<and> r = -1"
  using assms unfolding vfs_open_def Let_def by (simp add: case_prod_beta split: if_splits)

lemma vfs_open_uncreated:
  assumes "vfs_open path flags m v = (v', r)" "resolve_path path (flags AND O_NOFOLLOW \<noteq> 0) v = (s1, None)"
   "resolve_path (fst (path_split path)) False s1 = (s2, Some d)"
   "\<not> (flags AND O_CREAT \<noteq> 0 \<and> has_dir_ops d s2 \<and> vfs_access s2 (Some d) (PERM_W OR PERM_X))"
  shows "(fds_frame s1 v' \<or> fds_frame s2 v') \<and> r = -1"
  using assms unfolding vfs_open_def Let_def by (auto simp add: case_prod_beta vfs_require_def split: if_splits)

lemma vfs_open_created:
  assumes "vfs_open path flags m v = (v', r)" "resolve_path path (flags AND O_NOFOLLOW \<noteq> 0) v = (s1, None)"
    "resolve_path (fst (path_split path)) False s1 = (s2, Some d)"
    "flags AND O_CREAT \<noteq> 0" "has_dir_ops d s2" "vfs_access s2 (Some d) (PERM_W OR PERM_X)"
    "ramfs_create_impl d (snd (path_split path)) (((if m = 0 then 0x1A4 else m) AND NOT S_IFMT) OR S_IFREG) True s2 = (c, q, out)"
  shows "(case out of None \<Rightarrow> (set_errno (- q) (inode_unref d c), -1)
    | Some i \<Rightarrow> open_inode path flags i (upd_inode i (\<lambda>n. n\<lparr>iuid := g_session_uid (inode_unref d c),
        igid := g_session_gid (inode_unref d c)\<rparr>) (inode_unref d c))) = (v', r)"
  using assms unfolding vfs_open_def Let_def by (simp add: case_prod_beta vfs_require_def)

lemma vfs_open_taken:
  assumes "vfs_open path flags m v = (v', r)" "length (g_fds v) = FD_MAX"
  shows "fd_taken r v v'"
proof -
  obtain s1 res where p: "resolve_path path (flags AND O_NOFOLLOW \<noteq> 0) v = (s1, res)" by fastforce
  note fr = fds_frame_resolve [OF p]
  have bad: "fd_taken (-1) v t" if "fds_frame v t" for t using that by (simp add: fd_taken_def fds_frame_def)
  show ?thesis
  proof (cases res)
    case (Some i)
    note pi = p [unfolded Some]
    have w: "open_wanted flags \<noteq> 0" by (auto simp: open_wanted_def O_WRONLY_def O_RDONLY_def PERM_R_def PERM_W_def)
    show ?thesis
    proof (cases "(flags AND O_CREAT \<noteq> 0 \<and> flags AND O_EXCL \<noteq> 0) \<or> (S_ISDIR (imode (inode_at s1 i)) \<and> flags AND (O_WRONLY OR O_RDWR) \<noteq> 0)")
      case True
      from vfs_open_refused [OF assms(1) pi this] show ?thesis using fr fds_frame_trans bad by auto
    next
      case False
      then have "\<not> (flags AND O_CREAT \<noteq> 0 \<and> flags AND O_EXCL \<noteq> 0)"
        "\<not> (S_ISDIR (imode (inode_at s1 i)) \<and> flags AND (O_WRONLY OR O_RDWR) \<noteq> 0)" by auto
      from vfs_open_found [OF assms(1) pi this] show ?thesis
        using w fr open_inode_taken [OF _ fr assms(2), of path flags i]
        by (auto simp: vfs_require_def intro!: bad split: if_splits)
    qed
  next
    case None
    note pn = p [unfolded None]
    obtain s2 res2 where p2: "resolve_path (fst (path_split path)) False s1 = (s2, res2)" by fastforce
    have fr2: "fds_frame v s2" using fr fds_frame_resolve [OF p2] by (rule fds_frame_trans)
    show ?thesis
    proof (cases res2)
      case n2: None
      from vfs_open_no_parent [OF assms(1) pn p2 [unfolded n2]] show ?thesis using fr fr2 by (auto intro!: bad)
    next
      case (Some d)
      note pd = p2 [unfolded Some]
      let ?nm = "snd (path_split path)" and ?mm = "((if m = 0 then 0x1A4 else m) AND NOT S_IFMT) OR S_IFREG"
      obtain c q out where cr: "ramfs_create_impl d ?nm ?mm True s2 = (c, q, out)" by (rule prod_cases3)
      have cf: "fds_frame v c" using fds_frame_create [of v d ?nm ?mm True s2] cr fr2 by simp
      show ?thesis
      proof (cases "flags AND O_CREAT \<noteq> 0 \<and> has_dir_ops d s2 \<and> vfs_access s2 (Some d) (PERM_W OR PERM_X)")
        case True
        then have "flags AND O_CREAT \<noteq> 0" "has_dir_ops d s2" "vfs_access s2 (Some d) (PERM_W OR PERM_X)" by auto
        from vfs_open_created [OF assms(1) pn pd this cr] show ?thesis
          using cf open_inode_taken [OF _ _ assms(2), of path flags] by (cases out) (auto intro!: bad)
      next
        case False
        from vfs_open_uncreated [OF assms(1) pn pd this] show ?thesis using fr fr2 fds_frame_trans bad by blast
      qed
    qed
  qed
qed

lemma vfs_dup_taken:
  assumes "vfs_dup b v = (v', r)" "length (g_fds v) = FD_MAX"
  shows "fd_taken r v v'"
proof (cases "fd_ok v b")
  case True
  then show ?thesis using assms
    by (auto simp: vfs_dup_def fd_taken_def set_errno_def fd_alloc_def inode_ref_def upd_fd_def fd_ok_def nth_update_if
        dest!: first_idx_Some split: option.splits)
qed (use assms in \<open>auto simp: vfs_dup_def fd_taken_def set_errno_def\<close>)

lemma vfs_close_fds: "g_fds (vfs_close b v) = (if fd_ok v b then (g_fds v)[nat b := zero_fd] else g_fds v)"
  by (simp add: vfs_close_def upd_fd_def inode_unref_def Let_def split: option.split)

subsection \<open>Ownership\<close>

text \<open>The entries of one of the three maps, over all tasks with a table.\<close>

definition held :: "(task \<Rightarrow> int list) \<Rightarrow> 'a sched_scheme \<Rightarrow> nat \<times> nat \<Rightarrow> nat option" where
  "held F k = (\<lambda>(i, fd). if i < TASK_MAX \<and> fd < TASK_FD_MAX \<and> fd_table_ready (task_at k i) \<and> 0 \<le> F (task_at k i) ! fd
     then Some (nat (F (task_at k i) ! fd)) else None)"

lemma held_Some:
  "held F k (i, fd) = Some r \<longleftrightarrow>
     i < TASK_MAX \<and> fd < TASK_FD_MAX \<and> fd_table_ready (task_at k i) \<and> F (task_at k i) ! fd = int r"
  by (auto simp: held_def)

lemma held_None:
  "held F k (i, fd) = None \<longleftrightarrow>
     (i < TASK_MAX \<longrightarrow> fd < TASK_FD_MAX \<longrightarrow> fd_table_ready (task_at k i) \<longrightarrow> F (task_at k i) ! fd < 0)"
  by (auto simp: held_def)

lemma held_cong:
  assumes "\<And>i. i < TASK_MAX \<Longrightarrow> F (task_at k' i) = F (task_at k i)"
    "\<And>i. i < TASK_MAX \<Longrightarrow> fd_table_ready (task_at k' i) = fd_table_ready (task_at k i)"
  shows "held F k' = held F k"
  by (auto simp: held_def fun_eq_iff assms)

lemma held_upd_same:
  assumes "\<And>t. F (f t) = F t" "\<And>t. fd_table_ready (f t) = fd_table_ready t"
  shows "held F (upd_task i f k) = held F k"
  by (rule held_cong) (simp_all add: task_at_upd_field assms)

lemma held_upd:
  assumes "pool_wf k" "i < TASK_MAX" "fd_table_ready (task_at k i)" "fd < length (F (task_at k i))" "length (F (task_at k i)) = TASK_FD_MAX"
    "\<And>t. F (f t) = (F t)[fd := v]" "\<And>t. fd_table_ready (f t) = fd_table_ready t"
  shows "held F (upd_task i f k) = (held F k)((i, fd) := if v < 0 then None else Some (nat v))"
  using assms by (auto simp: held_def fun_eq_iff task_at_upd pool_wf_def nth_update_if)

lemma held_frame:
  assumes "fd_frame k k'" "pool_wf k" "F \<in> {fd_map, socket_map, pipe_map}"
  shows "held F k' = held F k"
proof (rule held_cong)
  fix i assume "i < TASK_MAX"
  then have "fd_view (task_at k' i) = fd_view (task_at k i)" using fd_frame_at(1) [OF assms(1)] assms(2) by (simp add: pool_wf_def)
  then show "F (task_at k' i) = F (task_at k i)" "fd_table_ready (task_at k' i) = fd_table_ready (task_at k i)"
    using assms(3) by (auto simp: fd_view_def)
qed

text \<open>What is open: VFS descriptors, from the first that \<open>fd_alloc\<close> gives out, and socket slots.\<close>

definition open_files :: "vfs \<Rightarrow> nat set" where
  "open_files v = {k. 3 \<le> k \<and> k < FD_MAX \<and> fused (g_fds v ! k)}"

definition open_slots :: "'a fdsys_scheme \<Rightarrow> nat set" where
  "open_slots s = {k. k < ATM_SOCKET_MAX \<and> sused (slots s ! k)}"

definition exclusive :: "'a sched_scheme \<Rightarrow> bool" where
  "exclusive k \<longleftrightarrow> (\<forall>h. (held fd_map k h = None \<or> held socket_map k h = None) \<and>
     (held fd_map k h = None \<or> held pipe_map k h = None) \<and> (held socket_map k h = None \<or> held pipe_map k h = None))"

text \<open>
  The invariant: each number of a task stands for at most one thing; a VFS descriptor or a
  socket that a number stands for is open and is that number's alone, over all tasks; and the
  invariant of pipes and scheduler.
\<close>

definition tables_wf :: "'a sched_scheme \<Rightarrow> bool" where
  "tables_wf k \<longleftrightarrow> (\<forall>i < TASK_MAX. length (fd_map (task_at k i)) = TASK_FD_MAX \<and> length (socket_map (task_at k i)) = TASK_FD_MAX) \<and>
     (\<forall>i fd. fd < 3 \<longrightarrow> held socket_map k (i, fd) = None \<and> held pipe_map k (i, fd) = None)"

definition fd_inv :: "'a fdsys_scheme \<Rightarrow> bool" where
  "fd_inv s \<longleftrightarrow> kern_inv (kern s) \<and> tables_wf (kern s) \<and> exclusive (kern s) \<and>
     length (g_fds (fsys s)) = FD_MAX \<and> length (slots s) = ATM_SOCKET_MAX \<and>
     owned (held fd_map (kern s)) (open_files (fsys s)) \<and>
     owned (held socket_map (kern s)) (open_slots s) \<and>
     (\<forall>i fd k. held socket_map (kern s) (i, fd) = Some k \<longrightarrow> sowner (slots s ! k) = Some i)"

text \<open>What the other tasks keep when task \<open>i\<close> makes a call: their tables, their open files with their
  offsets, their connections.\<close>

definition others_keep :: "nat \<Rightarrow> 'a fdsys_scheme \<Rightarrow> 'a fdsys_scheme \<Rightarrow> bool" where
  "others_keep i s s' \<longleftrightarrow> (\<forall>j fd. j \<noteq> i \<longrightarrow>
     held fd_map (kern s') (j, fd) = held fd_map (kern s) (j, fd) \<and>
     held socket_map (kern s') (j, fd) = held socket_map (kern s) (j, fd) \<and>
     held pipe_map (kern s') (j, fd) = held pipe_map (kern s) (j, fd) \<and>
     (\<forall>k. held fd_map (kern s) (j, fd) = Some k \<longrightarrow> g_fds (fsys s') ! k = g_fds (fsys s) ! k) \<and>
     (\<forall>k. held socket_map (kern s) (j, fd) = Some k \<longrightarrow> slots s' ! k = slots s ! k))"

definition step_ok :: "nat \<Rightarrow> 'a fdsys_scheme \<Rightarrow> 'a fdsys_scheme \<Rightarrow> bool" where
  "step_ok i s s' \<longleftrightarrow> fd_inv s' \<and> others_keep i s s'"

lemma others_keep_refl [simp]: "others_keep i s s"
  by (simp add: others_keep_def)

lemma step_ok_refl: "fd_inv s \<Longrightarrow> step_ok i s s"
  by (simp add: step_ok_def)

lemma step_ok_trans: "step_ok i s s' \<Longrightarrow> step_ok i s' s'' \<Longrightarrow> step_ok i s s''"
  by (simp add: step_ok_def others_keep_def)

lemma step_ok_inv: "step_ok i s s' \<Longrightarrow> fd_inv s'"
  by (simp add: step_ok_def)

lemma fd_inv_facts:
  assumes "fd_inv s"
  shows "kern_inv (kern s)" "tables_wf (kern s)" "exclusive (kern s)" "length (g_fds (fsys s)) = FD_MAX"
    "length (slots s) = ATM_SOCKET_MAX" "owned (held fd_map (kern s)) (open_files (fsys s))"
    "owned (held socket_map (kern s)) (open_slots s)"
    "held socket_map (kern s) (i, fd) = Some k \<Longrightarrow> sowner (slots s ! k) = Some i"
    "pool_wf (kern s)" "pipes_inv (kern s)" "length (task_pool (kern s)) = TASK_MAX"
  using assms by (auto simp: fd_inv_def kern_inv_def pipes_but_def pool_wf_def)

lemma upd_kern_simps [simp]:
  "kern (upd_kern f s) = f (kern s)" "fsys (upd_kern f s) = fsys s" "slots (upd_kern f z) = slots z"
  "netdev (upd_kern f z) = netdev z" "fd_exec_meta (upd_kern f z) = fd_exec_meta z" "dir_streams (upd_kern f z) = dir_streams z"
  by (simp_all add: upd_kern_def)

lemma lift_kern_simps [simp]:
  "kern (fst (lift_kern f s)) = fst (f (kern s))" "snd (lift_kern f s) = snd (f (kern s))" "fsys (fst (lift_kern f s)) = fsys s"
  "slots (fst (lift_kern f z)) = slots z"
  by (simp_all add: lift_kern_def case_prod_beta Let_def)

lemma lift_fs_simps [simp]:
  "fsys (fst (lift_fs f s)) = fst (f (fsys s))" "snd (lift_fs f s) = snd (f (fsys s))" "kern (fst (lift_fs f s)) = kern s"
  "slots (fst (lift_fs f z)) = slots z"
  by (simp_all add: lift_fs_def case_prod_beta Let_def)

lemma upd_slot_simps [simp]:
  "kern (upd_slot k f s) = kern s" "fsys (upd_slot k f s) = fsys s" "length (slots (upd_slot k f s)) = length (slots s)"
  "netdev (upd_slot k f s) = netdev s"
  by (simp_all add: upd_slot_def)

lemma slots_upd: "slots (upd_slot k f s) ! j = (if j = k \<and> k < length (slots s) then f (slots s ! k) else slots s ! j)"
  by (simp add: upd_slot_def nth_update_if)

subsection \<open>The steps of the calls\<close>

text \<open>The pipe counts read the tables through \<open>held\<close> alone.\<close>

lemma pipe_ends_held: "pipe_ends s k e = {(i, fd). 3 \<le> fd \<and> held pipe_map s (i, fd) = Some (2 * k + e)}"
  by (auto simp: pipe_ends_def held_Some)

lemma kern_inv_held:
  assumes "kern_inv k" "sched_inv k'" "pipe_pool k' = pipe_pool k" "pool_wf k'" "held pipe_map k' = held pipe_map k"
    "\<And>i. i < TASK_MAX \<Longrightarrow> length (pipe_map (task_at k' i)) = TASK_FD_MAX"
  shows "kern_inv k'"
proof -
  have ends: "pipe_ends k' p e = pipe_ends k p e" for p e by (simp add: pipe_ends_held assms(5))
  have "pipe_map (task_at k' i) ! fd < int ATM_PIPE_MAX * 2"
    if i: "i < TASK_MAX" "fd_table_ready (task_at k' i)" "3 \<le> fd" "fd < TASK_FD_MAX" for i fd
  proof (rule ccontr)
    assume n: "\<not> ?thesis"
    then have "held pipe_map k' (i, fd) = Some (nat (pipe_map (task_at k' i) ! fd))" using i by (simp add: held_Some)
    then have "pipe_map (task_at k i) ! fd = pipe_map (task_at k' i) ! fd" "fd_table_ready (task_at k i)"
      using n unfolding assms(5) held_Some by auto
    moreover have "maps_ok (task_at k i)" using assms(1) i(1) by (simp add: kern_inv_def pipes_but_def)
    then have "fd_table_ready (task_at k i) \<Longrightarrow> pipe_map (task_at k i) ! fd < int ATM_PIPE_MAX * 2"
      using i(3,4) by (simp add: maps_ok_def)
    ultimately show False using n by simp
  qed
  then have "maps_ok (task_at k' i)" if "i < TASK_MAX" for i using that assms(6) by (auto simp: maps_ok_def)
  moreover have "pipe_entry False k' p = pipe_entry False k p" for p by (simp add: pipe_entry_def ends assms(3))
  ultimately show ?thesis using assms(1-4) waiters_ok_pool [OF assms(3)] by (simp add: kern_inv_def pipes_but_entries)
qed

lemma pipe_map_length: "kern_inv k \<Longrightarrow> i < TASK_MAX \<Longrightarrow> length (pipe_map (task_at k i)) = TASK_FD_MAX"
  by (simp add: kern_inv_def pipes_but_def maps_ok_def)

lemma kern_inv_upd_task:
  assumes "kern_inv k" "\<And>t. task.state (f t) = task.state t \<and> pid (f t) = pid t \<and> next_task (f t) = next_task t"
    "\<And>t. pipe_map (f t) = pipe_map t" "\<And>t. fd_table_ready (f t) = fd_table_ready t"
  shows "kern_inv (upd_task i f k)"
proof (rule kern_inv_held [OF assms(1)])
  show "sched_inv (upd_task i f k)" using assms(1) upd_task_fields(2) [OF assms(2), of i k] by (simp add: kern_inv_def)
  show "pipe_pool (upd_task i f k) = pipe_pool k" by (simp add: upd_task_def)
  show "pool_wf (upd_task i f k)" using assms(1) by (simp add: kern_inv_def pipes_but_def)
  show "length (pipe_map (task_at (upd_task i f k) j)) = TASK_FD_MAX" if "j < TASK_MAX" for j
    using pipe_map_length [OF assms(1) that] task_at_upd_field [where F = pipe_map, OF assms(3)] by metis
qed (rule held_upd_same; simp add: assms(3,4))

text \<open>A step that no table and no open file or socket shows.\<close>

lemma step_same: "fd_inv s \<Longrightarrow> kern s' = kern s \<Longrightarrow> fsys s' = fsys s \<Longrightarrow> slots s' = slots s \<Longrightarrow> step_ok i s s'"
  by (simp add: step_ok_def others_keep_def fd_inv_def open_slots_def)

lemma step_kern:
  assumes "fd_inv s" "kern_inv (kern s')" "fsys s' = fsys s" "slots s' = slots s" "tables_wf (kern s')"
    "held fd_map (kern s') = held fd_map (kern s)" "held socket_map (kern s') = held socket_map (kern s)"
    "held pipe_map (kern s') = held pipe_map (kern s)"
  shows "step_ok i s s'"
  using assms by (simp add: step_ok_def others_keep_def fd_inv_def open_slots_def exclusive_def)

lemma tables_wf_frame:
  assumes "fd_frame k k'" "pool_wf k" "tables_wf k"
  shows "tables_wf k'"
proof -
  have "fd_view (task_at k' i) = fd_view (task_at k i)" if "i < TASK_MAX" for i
    using fd_frame_at(1) [OF assms(1)] assms(2) that by (simp add: pool_wf_def)
  then show ?thesis using assms(3) held_frame [OF assms(1,2)] by (simp add: tables_wf_def fd_view_def)
qed

lemma step_frame:
  assumes "fd_inv s" "fd_frame (kern s) (kern s')" "kern_inv (kern s')" "fsys s' = fsys s" "slots s' = slots s"
  shows "step_ok i s s'"
  using assms fd_inv_facts(2,9) [OF assms(1)]
  by (intro step_kern) (auto simp: held_frame tables_wf_frame)

text \<open>An update of a task that the tables do not show.\<close>

lemma step_upd_task:
  assumes "fd_inv s" "\<And>t. task.state (f t) = task.state t \<and> pid (f t) = pid t \<and> next_task (f t) = next_task t"
    "\<And>t. fd_view (f t) = fd_view t"
  shows "step_ok j s (upd_kern (upd_task i f) s)"
  using assms(3) fd_inv_facts(1) [OF assms(1)]
  by (intro step_frame [OF assms(1)]) (auto simp: fd_view_def intro!: kern_inv_upd_task assms(2) fd_frame_upd_task)

lemma step_fd_flags [simp]: "fd_inv s \<Longrightarrow> step_ok j s (set_fd_flags i fd v s)"
  unfolding set_fd_flags_def by (rule step_upd_task) (simp_all add: fd_view_def)

lemma step_io [simp]: "fd_inv s \<Longrightarrow> step_ok j s (add_io_read t n s)" "fd_inv s \<Longrightarrow> step_ok j s (add_io_write t n s)"
  unfolding add_io_read_def add_io_write_def
  by (auto simp: step_ok_refl fd_view_def intro!: step_upd_task split: option.split)

lemma meta_for_fields:
  "kern (fst (fd_exec_meta_for t c s)) = kern s" "fsys (fst (fd_exec_meta_for t c s)) = fsys s"
  "slots (fst (fd_exec_meta_for t c s)) = slots s"
  by (auto simp: fd_exec_meta_for_def split: option.split)

lemma fd_exec_fields [simp]:
  "kern (fst (fd_exec_set t fd v s)) = kern s" "fsys (fst (fd_exec_set t fd v s)) = fsys s" "slots (fst (fd_exec_set t fd v s)) = slots s"
  "kern (fd_exec_reset t s) = kern s" "fsys (fd_exec_reset t s) = fsys s" "slots (fd_exec_reset t s) = slots s"
  "kern (fd_exec_drop t s) = kern s" "fsys (fd_exec_drop t s) = fsys s" "slots (fd_exec_drop t s) = slots s"
  using meta_for_fields [of t v s] meta_for_fields [of t True s] meta_for_fields [of t False s]
  by (auto simp: fd_exec_set_def fd_exec_reset_def fd_exec_drop_def upd_meta_def split: prod.splits option.splits)

lemma step_exec [simp]: "fd_inv s \<Longrightarrow> step_ok j s (fst (fd_exec_set t fd v s))"
  by (rule step_same) simp_all

lemma step_clear_flags [simp]: "fd_inv s \<Longrightarrow> step_ok j s (clear_fd_flags t fd s)"
  unfolding clear_fd_flags_def
  by (auto simp: step_ok_refl intro: step_ok_trans [OF step_fd_flags step_exec] step_ok_inv [OF step_fd_flags] split: option.split)

text \<open>A step on the VFS descriptor of one of the caller's numbers.\<close>

lemma open_files_local: "fd_local b v v' \<Longrightarrow> open_files v' = open_files v"
  by (simp add: fd_local_def open_files_def)

lemma step_local:
  assumes "fd_inv s" "kern s' = kern s" "slots s' = slots s" "fd_local b (fsys s) (fsys s')"
    "\<And>j fd. held fd_map (kern s) (j, fd) = Some (nat b) \<Longrightarrow> j = i"
  shows "step_ok i s s'"
proof -
  have "g_fds (fsys s') ! k = g_fds (fsys s) ! k" if "held fd_map (kern s) (j, fd) = Some k" "j \<noteq> i" for j fd k
  proof -
    have "k \<noteq> nat b" using assms(5) [of j fd] that by auto
    then show ?thesis using assms(4) by (simp add: fd_local_def)
  qed
  moreover have "length (g_fds (fsys s')) = length (g_fds (fsys s))" using assms(4) by (simp add: fd_local_def)
  ultimately show ?thesis using assms(1-3) open_files_local [OF assms(4)]
    by (simp add: step_ok_def others_keep_def fd_inv_def open_slots_def)
qed

lemma step_fs_frame:
  assumes "fd_inv s" "kern s' = kern s" "slots s' = slots s" "fds_frame (fsys s) (fsys s')"
  shows "step_ok i s s'"
proof -
  have "g_fds (fsys s') = g_fds (fsys s)" using assms(4) by (simp add: fds_frame_def)
  then show ?thesis using assms(1-3) by (simp add: step_ok_def others_keep_def fd_inv_def open_slots_def open_files_def)
qed

text \<open>A VFS descriptor that is open and that no number stands for.\<close>

definition free_backend :: "int \<Rightarrow> 'a fdsys_scheme \<Rightarrow> bool" where
  "free_backend b s \<longleftrightarrow> 0 \<le> b \<and> nat b \<in> open_files (fsys s) \<and> nat b \<notin> ran (held fd_map (kern s))"

lemma open_files_taken:
  assumes "fd_taken r v v'"
  shows "open_files v' = (if r < 0 then open_files v else insert (nat r) (open_files v))"
    "0 \<le> r \<Longrightarrow> nat r \<notin> open_files v"
  using assms by (auto simp: fd_taken_def open_files_def split: if_splits) metis+

lemma step_taken:
  assumes "fd_inv s" "kern s' = kern s" "slots s' = slots s" "fd_taken r (fsys s) (fsys s')"
  shows "step_ok i s s'" "0 \<le> r \<Longrightarrow> free_backend r s'"
proof -
  note own = fd_inv_facts(6) [OF assms(1)]
  note of = open_files_taken [OF assms(4)]
  have keep: "g_fds (fsys s') ! k = g_fds (fsys s) ! k" if "k \<in> open_files (fsys s)" for k
  proof (cases "r < 0")
    case False
    then have "k \<noteq> nat r" using of(2) that by auto
    then show ?thesis using assms(4) False by (simp add: fd_taken_def)
  qed (use assms(4) in \<open>simp add: fd_taken_def\<close>)
  have "length (g_fds (fsys s')) = length (g_fds (fsys s))" using assms(4) by (simp add: fd_taken_def)
  moreover have "owned (held fd_map (kern s)) (open_files (fsys s'))" using own of(1) by (auto simp: owned_def)
  ultimately show "step_ok i s s'" using assms(1-3) keep owned_live [OF own]
    by (simp add: step_ok_def others_keep_def fd_inv_def open_slots_def)
  show "free_backend r s'" if "0 \<le> r"
    using that own of assms(2) by (auto simp: free_backend_def owned_def)
qed

lemma posix_open_taken:
  assumes "fd_inv s" "atm_posix_open path flags m s = (s', b)"
  shows "step_ok i s s'" "0 \<le> b \<Longrightarrow> free_backend b s'" "kern s' = kern s" "slots s' = slots s"
proof -
  obtain w where e: "atm_posix_open path flags m s = on_path path (\<lambda>full. vfs_open full flags w) s"
    by (auto simp: atm_posix_open_def)
  have f: "kern s' = kern s \<and> slots s' = slots s \<and> fd_taken b (fsys s) (fsys s')"
  proof (cases "posix_abspath s path")
    case None
    then show ?thesis using assms(2) unfolding e by (simp add: on_path_def fd_taken_def)
  next
    case (Some full)
    then have "lift_fs (vfs_open full flags w) s = (s', b)" using assms(2) unfolding e by (simp add: on_path_def)
    then have "s' = fst (lift_fs (vfs_open full flags w) s)" "vfs_open full flags w (fsys s) = (fsys s', b)"
      by (auto simp: lift_fs_def Let_def case_prod_beta)
    then show ?thesis using vfs_open_taken [of full flags w "fsys s"] fd_inv_facts(4) [OF assms(1)] by auto
  qed
  then show "step_ok i s s'" "0 \<le> b \<Longrightarrow> free_backend b s'" "kern s' = kern s" "slots s' = slots s"
    using step_taken [OF assms(1)] by auto
qed

lemma posix_dup_taken:
  assumes "fd_inv s" "atm_posix_dup b0 s = (s', b)"
  shows "step_ok i s s'" "0 \<le> b \<Longrightarrow> free_backend b s'" "kern s' = kern s" "slots s' = slots s"
proof -
  have "s' = fst (lift_fs (vfs_dup b0) s)" "vfs_dup b0 (fsys s) = (fsys s', b)"
    using assms(2) by (auto simp: atm_posix_dup_def lift_fs_def Let_def case_prod_beta)
  then have f: "kern s' = kern s \<and> slots s' = slots s \<and> fd_taken b (fsys s) (fsys s')"
    using vfs_dup_taken [of b0 "fsys s"] fd_inv_facts(4) [OF assms(1)] by auto
  then show "step_ok i s s'" "0 \<le> b \<Longrightarrow> free_backend b s'" "kern s' = kern s" "slots s' = slots s"
    using step_taken [OF assms(1)] by auto
qed

lemma posix_close_fields [simp]:
  "kern (fst (atm_posix_close b s)) = kern s" "slots (fst (atm_posix_close b z)) = slots z"
  by (simp_all add: atm_posix_close_def)

lemma step_close:
  assumes "fd_inv s" "free_backend b s"
  shows "step_ok i s (fst (atm_posix_close b s))"
proof -
  let ?s' = "fst (atm_posix_close b s)"
  note own = fd_inv_facts(6) [OF assms(1)]
  have g: "g_fds (fsys ?s') = (g_fds (fsys s))[nat b := zero_fd]"
    using assms(2) by (auto simp: atm_posix_close_def vfs_close_fds free_backend_def open_files_def fd_ok_def)
  have "ran (held fd_map (kern s)) \<subseteq> open_files (fsys ?s')"
    using own assms(2) by (auto simp: owned_def open_files_def free_backend_def g nth_update_if)
  then have "owned (held fd_map (kern s)) (open_files (fsys ?s'))" using own by (rule owned_mono [rotated])
  moreover have "g_fds (fsys ?s') ! k = g_fds (fsys s) ! k" if "held fd_map (kern s) h = Some k" for h k
  proof -
    have "k \<noteq> nat b" using assms(2) that by (cases h) (auto simp: free_backend_def ran_def)
    then show ?thesis by (simp add: g)
  qed
  ultimately show ?thesis using assms(1) by (simp add: step_ok_def others_keep_def fd_inv_def open_slots_def g)
qed

lemma tables_wf_upd:
  assumes "tables_wf k" "length (task_pool k) = TASK_MAX" "i < TASK_MAX"
    "length (fd_map (f (task_at k i))) = TASK_FD_MAX" "length (socket_map (f (task_at k i))) = TASK_FD_MAX"
    "\<And>j fd. fd < 3 \<Longrightarrow> held socket_map (upd_task i f k) (j, fd) = None \<and> held pipe_map (upd_task i f k) (j, fd) = None"
  shows "tables_wf (upd_task i f k)"
  using assms by (auto simp: tables_wf_def task_at_upd)

lemma set_fd_map_fields [simp]:
  "fsys (set_fd_map i n v s) = fsys s" "slots (set_fd_map i n v z) = slots z"
  "held socket_map (kern (set_fd_map i n v s)) = held socket_map (kern s)"
  "held pipe_map (kern (set_fd_map i n v s)) = held pipe_map (kern s)"
  by (simp_all add: set_fd_map_def held_upd_same)

lemma set_fd_map_wf:
  assumes "fd_inv s" "i < TASK_MAX" "n < TASK_FD_MAX" "fd_table_ready (task_of s i)"
  shows "held fd_map (kern (set_fd_map i n v s)) = (held fd_map (kern s))((i, n) := if v < 0 then None else Some (nat v))"
    "kern_inv (kern (set_fd_map i n v s))" "tables_wf (kern (set_fd_map i n v s))"
proof -
  note f = fd_inv_facts [OF assms(1)]
  have l: "length (fd_map (task_of s i)) = TASK_FD_MAX" "length (socket_map (task_of s i)) = TASK_FD_MAX"
    using f(2) assms(2) by (auto simp: tables_wf_def)
  show "held fd_map (kern (set_fd_map i n v s)) = (held fd_map (kern s))((i, n) := if v < 0 then None else Some (nat v))"
    unfolding set_fd_map_def upd_kern_simps by (rule held_upd) (use assms f(9) l in simp_all)
  show "kern_inv (kern (set_fd_map i n v s))"
    unfolding set_fd_map_def upd_kern_simps by (rule kern_inv_upd_task [OF f(1)]) simp_all
  show "tables_wf (kern (set_fd_map i n v s))"
    using set_fd_map_fields(3,4) [of i n v s] f(2) unfolding set_fd_map_def upd_kern_simps
    by (intro tables_wf_upd) (use assms(2) f(2,11) l in \<open>simp_all add: tables_wf_def\<close>)
qed

lemma step_set_fd:
  assumes "fd_inv s" "i < TASK_MAX" "n < TASK_FD_MAX" "fd_table_ready (task_of s i)" "free_backend b s"
    "held socket_map (kern s) (i, n) = None" "held pipe_map (kern s) (i, n) = None"
  shows "step_ok i s (set_fd_map i n b s)"
proof -
  note w = set_fd_map_wf [OF assms(1-4), of b]
  have "owned ((held fd_map (kern s))((i, n) \<mapsto> nat b)) (open_files (fsys s))"
    using fd_inv_facts(6) [OF assms(1)] assms(5) by (intro owned_acquire) (auto simp: free_backend_def)
  moreover have "exclusive (kern (set_fd_map i n b s))"
    using fd_inv_facts(3) [OF assms(1)] assms(6,7) by (auto simp: exclusive_def w(1))
  ultimately show ?thesis using assms(1,5) w
    by (simp add: step_ok_def others_keep_def fd_inv_def open_slots_def free_backend_def)
qed

lemma step_clear_fd:
  assumes "fd_inv s" "i < TASK_MAX" "n < TASK_FD_MAX" "fd_table_ready (task_of s i)"
  shows "step_ok i s (set_fd_map i n (-1) s)"
    "held fd_map (kern s) (i, n) = Some b \<Longrightarrow> free_backend (int b) (set_fd_map i n (-1) s)"
proof -
  note w = set_fd_map_wf [OF assms, of "-1"]
  note own = fd_inv_facts(6) [OF assms(1)]
  have "exclusive (kern (set_fd_map i n (-1) s))"
    using fd_inv_facts(3) [OF assms(1)] by (auto simp: exclusive_def w(1))
  then show "step_ok i s (set_fd_map i n (-1) s)" using assms(1) w owned_release [OF own]
    by (simp add: step_ok_def others_keep_def fd_inv_def open_slots_def)
  show "free_backend (int b) (set_fd_map i n (-1) s)" if "held fd_map (kern s) (i, n) = Some b"
    using owned_live [OF own that] owned_released [OF own that] by (simp add: free_backend_def w(1))
qed

text \<open>A step of the kernel that changes no table but the pipe map of task \<open>i\<close>, and fills only free
  numbers of it.\<close>

definition pipe_only :: "nat \<Rightarrow> 'a sched_scheme \<Rightarrow> 'b sched_scheme \<Rightarrow> bool" where
  "pipe_only i k k' \<longleftrightarrow> length (task_pool k') = length (task_pool k) \<and>
     (\<forall>j < TASK_MAX. fd_map (task_at k' j) = fd_map (task_at k j) \<and> socket_map (task_at k' j) = socket_map (task_at k j) \<and>
        fd_table_ready (task_at k' j) = fd_table_ready (task_at k j) \<and>
        (j \<noteq> i \<longrightarrow> pipe_map (task_at k' j) = pipe_map (task_at k j))) \<and>
     (\<forall>m < TASK_FD_MAX. 0 \<le> pipe_map (task_at k' i) ! m \<longrightarrow> 0 \<le> pipe_map (task_at k i) ! m \<or> pipe_fd_free (task_at k i) (int m))"

lemma pipe_only_refl [simp]: "pipe_only i k k"
  by (simp add: pipe_only_def)

lemma pipe_only_trans: "pipe_only i k k' \<Longrightarrow> pipe_only i k' k'' \<Longrightarrow> i < TASK_MAX \<Longrightarrow> pipe_only i k k''"
  unfolding pipe_only_def by (auto simp: pipe_fd_free_def)

lemma pipe_only_frame:
  assumes "fd_frame k k'" "length (task_pool k) = TASK_MAX" "i < TASK_MAX"
  shows "pipe_only i k k'"
proof -
  have "fd_view (task_at k' j) = fd_view (task_at k j)" if "j < TASK_MAX" for j
    using fd_frame_at(1) [OF assms(1)] assms(2) that by simp
  moreover have "length (task_pool k') = length (task_pool k)" using assms(1) unfolding fd_frame_def by (metis length_map)
  ultimately show ?thesis using assms(3) by (simp add: pipe_only_def fd_view_def)
qed

lemma pipe_only_upd_pipe [simp]: "pipe_only i k (upd_pipe p f k') = pipe_only i k k'"
  by (simp add: pipe_only_def upd_pipe_def)

lemma pipe_only_ref [simp]: "pipe_only i k (add_pipe_ref p e k') = pipe_only i k k'"
  by (simp add: add_pipe_ref_def)

lemma pipe_only_set:
  assumes "pipe_only i k k'" "length (task_pool k) = TASK_MAX" "i < TASK_MAX" "v < 0 \<or> pipe_fd_free (task_at k' i) fd"
  shows "pipe_only i k (set_pipe_map i fd v k')"
proof (rule pipe_only_trans [OF assms(1) _ assms(3)])
  have "length (task_pool k') = TASK_MAX" using assms(1,2) by (simp add: pipe_only_def)
  then show "pipe_only i k' (set_pipe_map i fd v k')"
    using assms(3,4) by (auto simp: pipe_only_def set_pipe_map_def task_at_upd nth_update_if pipe_fd_free_def split: if_splits)
qed

lemma step_pipe:
  assumes "fd_inv s" "i < TASK_MAX" "pipe_only i (kern s) (kern s')" "kern_inv (kern s')" "fsys s' = fsys s" "slots s' = slots s"
  shows "step_ok i s s'"
proof -
  note f = fd_inv_facts [OF assms(1)]
  have h: "held fd_map (kern s') = held fd_map (kern s)" "held socket_map (kern s') = held socket_map (kern s)"
    using assms(3) by (auto intro!: held_cong simp: pipe_only_def)
  have p: "held pipe_map (kern s') (j, n) = held pipe_map (kern s) (j, n)" if "j \<noteq> i" for j n
    using assms(3) that unfolding pipe_only_def held_def by auto
  have q: "held pipe_map (kern s) (i, n) \<noteq> None \<or> 3 \<le> n \<and> held fd_map (kern s) (i, n) = None \<and> held socket_map (kern s) (i, n) = None"
    if "held pipe_map (kern s') (i, n) \<noteq> None" for n
    using assms(2,3) that by (auto simp: pipe_only_def held_def pipe_fd_free_def split: if_splits)
  have "tables_wf (kern s')"
    unfolding tables_wf_def
  proof (intro conjI allI impI)
    show "length (fd_map (task_of s' j)) = TASK_FD_MAX" "length (socket_map (task_of s' j)) = TASK_FD_MAX" if "j < TASK_MAX" for j
      using f(2) assms(3) that by (simp_all add: tables_wf_def pipe_only_def)
    show "held socket_map (kern s') (j, n) = None" "held pipe_map (kern s') (j, n) = None" if "n < 3" for j n
      using f(2) that p [of j n] q [of n] by (auto simp: tables_wf_def h)
  qed
  moreover have "exclusive (kern s')"
    unfolding exclusive_def
  proof (intro allI)
    fix x :: "nat \<times> nat"
    obtain j n where x: "x = (j, n)" by (cases x)
    show "(held fd_map (kern s') x = None \<or> held socket_map (kern s') x = None) \<and>
        (held fd_map (kern s') x = None \<or> held pipe_map (kern s') x = None) \<and>
        (held socket_map (kern s') x = None \<or> held pipe_map (kern s') x = None)"
      using f(3) p [of j n] q [of n] unfolding exclusive_def h x by (cases "j = i") metis+
  qed
  ultimately show ?thesis using assms(1,4,5,6) h p
    by (simp add: step_ok_def others_keep_def fd_inv_def open_slots_def)
qed

lemma pipe_create_only:
  assumes "kern_inv k" "i < TASK_MAX"
  shows "pipe_only i k (fst (native_pipe_create (Some i) k))"
proof (cases "snd (native_pipe_create (Some i) k)")
  case None
  then show ?thesis by (auto simp: native_pipe_create_def Let_def split: if_splits option.splits)
next
  case (Some rw)
  have l: "length (task_pool k) = TASK_MAX" using assms(1) by (simp add: kern_inv_def pipes_but_def pool_wf_def)
  obtain p where r: "first_idx (\<lambda>fd. pipe_fd_free (task_at k i) (int fd)) 3 TASK_FD_MAX = Some (fst rw)"
    and w: "first_idx (\<lambda>fd. pipe_fd_free (task_at k i) (int fd)) (fst rw + 1) TASK_FD_MAX = Some (snd rw)"
    and e: "fst (native_pipe_create (Some i) k) =
      set_pipe_map i (int (snd rw)) (int p * 2 + int ATM_PIPE_WRITE_END)
        (set_pipe_map i (int (fst rw)) (int p * 2 + int ATM_PIPE_READ_END)
          (upd_pipe p (\<lambda>_. zero_pipe\<lparr>used := True, read_refs := 1, write_refs := 1\<rparr>) k))"
    using Some by (auto simp: native_pipe_create_def Let_def split: if_splits option.splits)
  have one: "pipe_only i k (set_pipe_map i (int (fst rw)) v (upd_pipe p g k))" for v g
    using first_idx_Some [OF r] l assms(2) by (intro pipe_only_set) auto
  show ?thesis unfolding e
    using first_idx_Some [OF w] first_idx_Some [OF r] l assms(2)
    by (intro pipe_only_set one) (auto simp: pipe_fd_free_def set_pipe_map_def task_at_upd)
qed

lemma pipe_close_only:
  assumes "kern_inv k" "i < TASK_MAX"
  shows "pipe_only i k (fst (native_pipe_close (Some i) fd k))"
    "pipe_decode (Some i) fd k \<noteq> None \<Longrightarrow> held pipe_map (fst (native_pipe_close (Some i) fd k)) = (held pipe_map k)((i, nat fd) := None)"
proof -
  have wf: "pool_wf k" "pipes_inv k" "length (task_pool k) = TASK_MAX"
    using assms(1) by (auto simp: kern_inv_def pipes_but_def pool_wf_def)
  have m: "fd_frame k2 (if c then pipe_wake_writer p k2 else pipe_wake_reader p k2)" for c p and k2 :: "'a pipes_scheme" by simp
  have z: "pipe_only i k (pipe_maybe_free p k2)" if "pipe_only i k k2" for p and k2 :: "'a pipes_scheme"
    using that by (simp add: pipe_maybe_free_def)
  have g: "held F (upd_pipe p f k2) = held F k2" for F p f and k2 :: "'a pipes_scheme"
    by (rule held_cong) (simp_all add: upd_pipe_def)
  then have h: "held F (pipe_maybe_free p k2) = held F k2" for F p and k2 :: "'a pipes_scheme"
    by (simp add: pipe_maybe_free_def)
  show "pipe_only i k (fst (native_pipe_close (Some i) fd k))"
  proof (cases "pipe_decode (Some i) fd k")
    case (Some pe)
    have "pipe_only i k (if c then pipe_wake_writer p (upd_pipe p f (set_pipe_map i fd (-1) k))
        else pipe_wake_reader p (upd_pipe p f (set_pipe_map i fd (-1) k)))" for c p f
    proof (rule pipe_only_trans [OF _ pipe_only_frame [OF m] assms(2)])
      show "pipe_only i k (upd_pipe p f (set_pipe_map i fd (-1) k))"
        using wf assms(2) by (auto intro: pipe_only_set)
    qed (use wf assms(2) in \<open>simp_all add: set_pipe_map_def upd_pipe_def\<close>)
    from this [of True] this [of False] show ?thesis using Some
      by (cases pe) (simp add: native_pipe_close_def Let_def z)
  qed (simp add: native_pipe_close_def)
  assume "pipe_decode (Some i) fd k \<noteq> None"
  then obtain p e where d: "pipe_decode (Some i) fd k = Some (p, e)" by auto
  note ds = pipe_decode_Some [OF wf(2) assms(2) d]
  have s: "held pipe_map (set_pipe_map i fd (-1) k) = (held pipe_map k)((i, nat fd) := None)"
    unfolding set_pipe_map_def using held_upd [OF wf(1) assms(2) ds(5), where F = pipe_map and v = "-1" and fd = "nat fd"]
      pipe_map_length [OF assms(1,2)] ds(1,2) by simp
  have "held pipe_map (pipe_wake_writer p k2) = held pipe_map k2" "held pipe_map (pipe_wake_reader p k2) = held pipe_map k2"
    if "pool_wf k2" for k2 :: "'a pipes_scheme"
    using that by (auto intro!: held_frame)
  then show "held pipe_map (fst (native_pipe_close (Some i) fd k)) = (held pipe_map k)((i, nat fd) := None)"
    using d wf(1) by (simp add: native_pipe_close_def Let_def h g s)
qed

lemma pipe_dup_only:
  assumes "kern_inv k" "i < TASK_MAX"
  shows "pipe_only i k (fst (native_pipe_dup (Some i) old new k))"
    "pipe_only i k (fst (native_pipe_inherit (Some i) (Some p) fd k))"
  using assms by (auto simp: native_pipe_dup_def native_pipe_inherit_def kern_inv_def pipes_but_def pool_wf_def add_pipe_ref_def
      intro!: pipe_only_set split: option.split)

text \<open>Sockets: an entry of the map and the slot it names.\<close>

lemma set_socket_map_fields [simp]:
  "fsys (set_socket_map i n v s) = fsys s" "slots (set_socket_map i n v z) = slots z"
  "held fd_map (kern (set_socket_map i n v s)) = held fd_map (kern s)"
  "held pipe_map (kern (set_socket_map i n v s)) = held pipe_map (kern s)"
  by (simp_all add: set_socket_map_def held_upd_same)

lemma set_socket_map_wf:
  assumes "fd_inv s" "i < TASK_MAX" "n < TASK_FD_MAX" "3 \<le> n" "fd_table_ready (task_of s i)"
  shows "held socket_map (kern (set_socket_map i n v s)) = (held socket_map (kern s))((i, n) := if v < 0 then None else Some (nat v))"
    "kern_inv (kern (set_socket_map i n v s))" "tables_wf (kern (set_socket_map i n v s))"
proof -
  note f = fd_inv_facts [OF assms(1)]
  have l: "length (fd_map (task_of s i)) = TASK_FD_MAX" "length (socket_map (task_of s i)) = TASK_FD_MAX"
    using f(2) assms(2) by (auto simp: tables_wf_def)
  show h: "held socket_map (kern (set_socket_map i n v s)) = (held socket_map (kern s))((i, n) := if v < 0 then None else Some (nat v))"
    unfolding set_socket_map_def upd_kern_simps by (rule held_upd) (use assms f(9) l in simp_all)
  show "kern_inv (kern (set_socket_map i n v s))"
    unfolding set_socket_map_def upd_kern_simps by (rule kern_inv_upd_task [OF f(1)]) simp_all
  show "tables_wf (kern (set_socket_map i n v s))"
    using h set_socket_map_fields(4) [of i n v s] f(2) assms(4) unfolding set_socket_map_def upd_kern_simps
    by (intro tables_wf_upd) (use assms(2) f(2,11) l in \<open>auto simp add: tables_wf_def\<close>)
qed

lemma step_sock_open:
  assumes "fd_inv s" "i < TASK_MAX" "n < TASK_FD_MAX" "3 \<le> n" "fd_table_ready (task_of s i)"
    "k < ATM_SOCKET_MAX" "\<not> sused (slots s ! k)" "sused z" "sowner z = Some i"
    "held fd_map (kern s) (i, n) = None" "held pipe_map (kern s) (i, n) = None"
  shows "step_ok i s (set_socket_map i n (int k) (upd_slot k (\<lambda>_. z) s))"
proof -
  note f = fd_inv_facts [OF assms(1)]
  define s' where "s' = set_socket_map i n (int k) (upd_slot k (\<lambda>_. z) s)"
  have e: "kern s' = kern (set_socket_map i n (int k) s)" "fsys s' = fsys s" "slots s' = slots (upd_slot k (\<lambda>_. z) s)"
    "length (slots s') = length (slots s)"
    by (simp_all add: s'_def set_socket_map_def)
  note w = set_socket_map_wf [OF assms(1-5), of "int k", folded e(1)]
  have new: "k \<notin> ran (held socket_map (kern s))" using f(7) assms(7) by (auto simp: owned_def open_slots_def)
  have sl: "slots s' ! j = (if j = k then z else slots s ! j)" for j using assms(6) f(5) by (simp add: e slots_upd)
  have os: "open_slots s' = insert k (open_slots s)" using assms(6,8) by (auto simp: open_slots_def sl split: if_splits)
  have "owned ((held socket_map (kern s))((i, n) \<mapsto> k)) (open_slots s')"
    using f(7) new os by (intro owned_acquire owned_mono [OF f(7)]) (auto simp: owned_def)
  moreover have "exclusive (kern s')" using f(3) assms(10,11) unfolding exclusive_def w(1) by (simp add: e del: split_paired_All)
  moreover have "sowner (slots s' ! m) = Some j" if "held socket_map (kern s') (j, fd) = Some m" for j fd m
    using that new f(8) assms(9) by (auto simp: w(1) sl ran_def split: if_splits)
  moreover have "slots s' ! m = slots s ! m" if "held socket_map (kern s) (j, fd) = Some m" for j fd m
    using that new by (auto simp: sl ran_def)
  ultimately have "step_ok i s s'" using assms(1) w e
    by (simp add: step_ok_def others_keep_def fd_inv_def)
  then show ?thesis by (simp only: s'_def)
qed

lemma step_sock_close:
  assumes "fd_inv s" "i < TASK_MAX" "held socket_map (kern s) (i, n) = Some k"
  shows "step_ok i s (upd_slot k (\<lambda>_. zero_slot) (set_socket_map i n (-1) (s\<lparr>netdev := w\<rparr>)))"
proof -
  note f = fd_inv_facts [OF assms(1)]
  have n: "n < TASK_FD_MAX" "fd_table_ready (task_of s i)" using assms(3) by (auto simp: held_Some)
  have n3: "3 \<le> n" using f(2) assms(3) by (auto simp: tables_wf_def not_less [symmetric])
  define s' where "s' = upd_slot k (\<lambda>_. zero_slot) (set_socket_map i n (-1) (s\<lparr>netdev := w\<rparr>))"
  have e: "kern s' = kern (set_socket_map i n (-1) s)" "fsys s' = fsys s" "slots s' = (slots s)[k := zero_slot]"
    "length (slots s') = length (slots s)"
    by (simp_all add: s'_def set_socket_map_def upd_slot_def upd_kern_def)
  note w = set_socket_map_wf [OF assms(1,2) n(1) n3 n(2), of "-1", folded e(1)]
  have k: "k < ATM_SOCKET_MAX" using owned_live [OF f(7) assms(3)] by (simp add: open_slots_def)
  have gone: "k \<notin> ran ((held socket_map (kern s))((i, n) := None))" by (rule owned_released [OF f(7) assms(3)])
  have sl: "slots s' ! j = (if j = k then zero_slot else slots s ! j)" for j using k f(5) by (simp add: e nth_update_if)
  have os: "open_slots s' = open_slots s - {k}" by (auto simp: open_slots_def sl zero_slot_def split: if_splits)
  have "owned ((held socket_map (kern s))((i, n) := None)) (open_slots s')"
    using gone owned_release [OF f(7), of "(i, n)"] os by (intro owned_mono [OF owned_release [OF f(7)]]) (auto simp: owned_def)
  moreover have "exclusive (kern s')" using f(3) unfolding exclusive_def w(1) by (simp add: e del: split_paired_All)
  moreover have "sowner (slots s' ! m) = Some j" if "held socket_map (kern s') (j, fd) = Some m" for j fd m
  proof -
    have "m \<in> ran ((held socket_map (kern s))((i, n) := None))" using ranI [where m = "held socket_map (kern s')", OF that] unfolding w(1) by simp
    then have "m \<noteq> k" using gone by blast
    then show ?thesis using that f(8) by (auto simp: w(1) sl split: if_splits)
  qed
  moreover have "slots s' ! m = slots s ! m" if "held socket_map (kern s) (j, fd) = Some m" "j \<noteq> i" for j fd m
    using owned_unique [OF f(7) that(1), of "(i, n)"] that(2) assms(3) by (auto simp: sl)
  ultimately have "step_ok i s s'" using assms(1) w e
    by (simp add: step_ok_def others_keep_def fd_inv_def)
  then show ?thesis by (simp only: s'_def)
qed

lemma slot_for_held:
  assumes "fd_inv s" "i < TASK_MAX"
  shows "slot_for (Some i) fd s = Some k \<longleftrightarrow> 0 \<le> fd \<and> held socket_map (kern s) (i, nat fd) = Some k"
proof
  assume "slot_for (Some i) fd s = Some k"
  then show "0 \<le> fd \<and> held socket_map (kern s) (i, nat fd) = Some k"
    using assms(2) by (auto simp: slot_for_def valid_fd_def Let_def held_Some split: if_splits)
next
  assume h: "0 \<le> fd \<and> held socket_map (kern s) (i, nat fd) = Some k"
  note f = fd_inv_facts [OF assms(1)]
  have "\<not> nat fd < 3" using f(2) h by (auto simp: tables_wf_def)
  moreover have "k \<in> open_slots s" "sowner (slots s ! k) = Some i" using owned_live [OF f(7)] f(8) h by auto
  ultimately show "slot_for (Some i) fd s = Some k"
    using h by (auto simp: slot_for_def valid_fd_def Let_def held_Some open_slots_def)
qed

lemma step_conn:
  assumes "fd_inv s" "i < TASK_MAX" "slot_for (Some i) fd s = Some k" "\<And>z. sused (g z) = sused z" "\<And>z. sowner (g z) = sowner z"
    "kern s' = kern s" "fsys s' = fsys s" "slots s' = slots (upd_slot k g s)"
  shows "step_ok i s s'"
proof -
  note f = fd_inv_facts [OF assms(1)]
  have h: "held socket_map (kern s) (i, nat fd) = Some k" using assms(3) slot_for_held [OF assms(1,2)] by blast
  have sl: "slots s' ! m = slots s ! m" if "held socket_map (kern s) (j, n) = Some m" "j \<noteq> i" for j n m
    using owned_unique [OF f(7) that(1), of "(i, nat fd)"] that(2) h by (auto simp: assms(8) slots_upd)
  have c: "sused (slots s' ! j) = sused (slots s ! j)" "sowner (slots s' ! j) = sowner (slots s ! j)"
    "length (slots s') = length (slots s)" for j
    by (simp_all add: assms(4,5,8) slots_upd)
  show ?thesis using assms(1,6,7) sl by (simp add: step_ok_def others_keep_def fd_inv_def open_slots_def c)
qed

lemma set_conn_fields [simp]: "kern (set_conn k c w s) = kern s" "fsys (set_conn k c w s) = fsys s"
  by (simp_all add: set_conn_def)

lemma step_set_conn:
  assumes "fd_inv s" "i < TASK_MAX" "slot_for (Some i) fd s = Some k"
  shows "step_ok i s (set_conn k c w s)"
  by (rule step_conn [OF assms, where g = "\<lambda>x. x\<lparr>conn := c\<rparr>"]) (simp_all add: set_conn_def)

subsection \<open>Every call keeps the invariant and the other tasks\<close>

lemma close_set_commute: "set_fd_map i n v (fst (atm_posix_close b s)) = fst (atm_posix_close b (set_fd_map i n v s))"
  by (simp add: atm_posix_close_def set_fd_map_def upd_kern_def)

lemma step_release:
  assumes "fd_inv s" "i < TASK_MAX" "held fd_map (kern s) (i, n) = Some b"
  shows "step_ok i s (set_fd_map i n (-1) (fst (atm_posix_close (int b) s)))"
proof -
  have n: "n < TASK_FD_MAX" "fd_table_ready (task_of s i)" using assms(3) by (auto simp: held_Some)
  note c = step_clear_fd [OF assms(1,2) n]
  show ?thesis unfolding close_set_commute
    by (rule step_ok_trans [OF c(1) step_close [OF step_ok_inv [OF c(1)] c(2) [OF assms(3)]]])
qed

text \<open>A number that is in use, by the kind of thing it stands for.\<close>

lemma fd_valid_held: "i < TASK_MAX \<Longrightarrow> fd_valid (Some i) fd s \<longleftrightarrow> 0 \<le> fd \<and> held fd_map (kern s) (i, nat fd) \<noteq> None"
  by (auto simp: fd_valid_def held_def nat_less_iff)

lemma socket_fd_held:
  "fd_inv s \<Longrightarrow> i < TASK_MAX \<Longrightarrow> native_socket_is_fd (Some i) fd s \<longleftrightarrow> 0 \<le> fd \<and> held socket_map (kern s) (i, nat fd) \<noteq> None"
  using slot_for_held [of s i fd] by (auto simp: native_socket_is_fd_def)

lemma pipe_fd_held:
  assumes "fd_inv s" "i < TASK_MAX"
  shows "native_pipe_is_fd (Some i) fd (kern s) \<longleftrightarrow> 0 \<le> fd \<and> held pipe_map (kern s) (i, nat fd) \<noteq> None"
proof
  note f = fd_inv_facts [OF assms(1)]
  assume "native_pipe_is_fd (Some i) fd (kern s)"
  then obtain k e where "pipe_decode (Some i) fd (kern s) = Some (k, e)" by (auto simp: native_pipe_is_fd_def)
  note d = pipe_decode_Some [OF f(10) assms(2) this]
  then show "0 \<le> fd \<and> held pipe_map (kern s) (i, nat fd) \<noteq> None" using assms(2) by (auto simp: held_def)
next
  note f = fd_inv_facts [OF assms(1)]
  assume h: "0 \<le> fd \<and> held pipe_map (kern s) (i, nat fd) \<noteq> None"
  then have "\<not> nat fd < 3" using f(2) by (auto simp: tables_wf_def)
  with h obtain k e where "pipe_decode (Some i) (int (nat fd)) (kern s) = Some (k, e)"
    using pipe_decode_valid [OF f(10) assms(2), of "nat fd"] by (auto simp: held_def not_less split: if_splits)
  then show "native_pipe_is_fd (Some i) fd (kern s)" using h by (simp add: native_pipe_is_fd_def)
qed

lemma fd_unused_held:
  assumes "fd_unused i s n"
  shows "held fd_map (kern s) (i, n) = None" "held socket_map (kern s) (i, n) = None" "held pipe_map (kern s) (i, n) = None"
  using assms by (auto simp: fd_unused_def held_def)

lemma fd_flags_held [simp]:
  "held fd_map (kern (set_fd_flags i n v s)) = held fd_map (kern s)" "held socket_map (kern (set_fd_flags i n v s)) = held socket_map (kern s)"
  "held pipe_map (kern (set_fd_flags i n v s)) = held pipe_map (kern s)" "fsys (set_fd_flags i n v s) = fsys s"
  "slots (set_fd_flags i n v z) = slots z"
  by (simp_all add: set_fd_flags_def held_upd_same)

lemma step_put_fd:
  assumes "fd_inv s" "i < TASK_MAX" "n < TASK_FD_MAX" "fd_table_ready (task_of s i)" "b < 0 \<or> free_backend b s"
    "held socket_map (kern s) (i, n) = None" "held pipe_map (kern s) (i, n) = None"
  shows "step_ok i s (set_fd_map i n b s)"
proof (cases "b < 0")
  case True
  note w = set_fd_map_wf [OF assms(1-4), of b]
  have "exclusive (kern (set_fd_map i n b s))"
    using fd_inv_facts(3) [OF assms(1)] True unfolding exclusive_def w(1) by (simp del: split_paired_All)
  then show ?thesis using assms(1) True w owned_release [OF fd_inv_facts(6) [OF assms(1)]]
    by (simp add: step_ok_def others_keep_def fd_inv_def open_slots_def)
next
  case False
  then show ?thesis using assms by (intro step_set_fd) auto
qed

lemma step_install:
  assumes "fd_inv s" "i < TASK_MAX" "n < TASK_FD_MAX" "fd_table_ready (task_of s i)" "b < 0 \<or> free_backend b s"
    "held socket_map (kern s) (i, n) = None" "held pipe_map (kern s) (i, n) = None"
  shows "step_ok i s (set_fd_flags i n fl (set_fd_map i n b s))"
    "held fd_map (kern (set_fd_flags i n fl (set_fd_map i n b s))) = (held fd_map (kern s))((i, n) := if b < 0 then None else Some (nat b))"
  using step_put_fd [OF assms] step_ok_trans step_fd_flags step_ok_inv set_fd_map_wf(1) [OF assms(1-4)] by (blast, simp)

lemma step_open:
  assumes "fd_inv s" "i < TASK_MAX"
  shows "step_ok i s (fst (native_fd_open (Some i) path flags m s))"
proof (cases "native_fd_slot (Some i) s")
  case None
  then show ?thesis using assms by (simp add: native_fd_open_def step_ok_refl)
next
  case (Some n)
  then have n: "fd_table_ready (task_of s i)" "n < TASK_FD_MAX" "fd_unused i s n"
    using first_idx_Some [of "fd_unused i s" 3 TASK_FD_MAX n] by (auto simp: native_fd_slot_def split: if_splits)
  obtain s1 b where o: "atm_posix_open path (flags AND NOT (ATM_NATIVE_O_NONBLOCK OR ATM_NATIVE_O_CLOEXEC)) m s = (s1, b)" by fastforce
  note t = posix_open_taken [OF assms(1) o]
  show ?thesis
  proof (cases "b < 0")
    case True
    then show ?thesis using t(1) Some o by (simp add: native_fd_open_def)
  next
    case False
    let ?s2 = "set_fd_flags i n (flags AND (ATM_NATIVE_O_ACCMODE OR ATM_NATIVE_O_NONBLOCK)) (set_fd_map i n b s1)"
    obtain s3 rc where x: "fd_exec_set (Some i) (int n) (flags AND ATM_NATIVE_O_CLOEXEC \<noteq> 0) ?s2 = (s3, rc)" by fastforce
    have r1: "fd_table_ready (task_of s1 i)" "b < 0 \<or> free_backend b s1" "held socket_map (kern s1) (i, n) = None"
      "held pipe_map (kern s1) (i, n) = None" using t n False fd_unused_held [OF n(3)] by auto
    note ins = step_install [OF step_ok_inv [OF t(1)] assms(2) n(2) r1]
    have k3: "kern s3 = kern ?s2" "step_ok i ?s2 s3"
      using fd_exec_fields(1) [of "Some i" "int n" _ ?s2] step_exec [OF step_ok_inv [OF ins(1)]] x by (metis fst_conv)+
    note s3 = step_ok_trans [OF t(1) step_ok_trans [OF ins(1) k3(2)]]
    have "held fd_map (kern s3) (i, n) = Some (nat b)" using ins(2) False by (simp add: k3(1))
    from step_release [OF step_ok_inv [OF s3] assms(2) this] s3 show ?thesis
      using Some o x False step_ok_trans [OF s3] by (simp add: native_fd_open_def Let_def)
  qed
qed

lemma step_pipe_close:
  assumes "fd_inv s" "i < TASK_MAX"
  shows "step_ok i s (fst (lift_kern (native_pipe_close (Some i) fd) s))"
  using assms fd_inv_facts(1) [OF assms(1)]
  by (intro step_pipe) (simp_all add: pipe_close_only kern_inv_close)

lemma step_pipe2:
  assumes "fd_inv s" "i < TASK_MAX"
  shows "step_ok i s (fst (native_fd_pipe2 (Some i) flags s))"
proof -
  obtain s1 rw where c: "lift_kern (native_pipe_create (Some i)) s = (s1, rw)" by fastforce
  have "step_ok i s (fst (lift_kern (native_pipe_create (Some i)) s))"
    using assms fd_inv_facts(1) [OF assms(1)] by (intro step_pipe) (simp_all add: pipe_create_only kern_inv_create)
  then have s1: "step_ok i s s1" using c by simp
  have fl: "step_ok i s1 (set_fd_flags i w y (set_fd_flags i r x s1))" for w y r x
    using step_ok_inv [OF s1] step_fd_flags step_ok_inv step_ok_trans by blast
  have ex: "step_ok i s z'" if "fd_exec_set t fd v z = (z', rc)" "step_ok i s z" for t fd v z z' rc
    using step_ok_trans [OF that(2) step_exec [OF step_ok_inv [OF that(2)], of i t fd v]] that(1) by simp
  have cl: "step_ok i s (fst (lift_kern (native_pipe_close (Some i) w) (fst (lift_kern (native_pipe_close (Some i) r) z))))"
    if "step_ok i s z" for z w r
    using step_ok_trans [OF that step_pipe_close [OF step_ok_inv [OF that] assms(2)]] step_pipe_close assms(2) step_ok_inv step_ok_trans
    by metis
  show ?thesis
  proof (cases rw)
    case None
    then show ?thesis using c s1 assms(1) by (simp add: native_fd_pipe2_def step_ok_refl)
  next
    case (Some p)
    obtain r w where p: "p = (r, w)" by (cases p)
    let ?ce = "flags AND ATM_NATIVE_O_CLOEXEC \<noteq> 0"
    let ?s2 = "set_fd_flags i w (O_WRONLY OR (flags AND ATM_NATIVE_O_NONBLOCK))
      (set_fd_flags i r (O_RDONLY OR (flags AND ATM_NATIVE_O_NONBLOCK)) s1)"
    obtain s3 rc where x3: "fd_exec_set (Some i) (int r) ?ce ?s2 = (s3, rc)" by fastforce
    obtain s4 rc' where x4: "(if rc < 0 then (s3, rc) else fd_exec_set (Some i) (int w) ?ce s3) = (s4, rc')" by fastforce
    have s3: "step_ok i s s3" by (rule ex [OF x3 step_ok_trans [OF s1 fl]])
    have s4: "step_ok i s s4" using x4 s3 ex [OF _ s3] by (auto split: if_splits)
    show ?thesis using c Some p x3 x4 s4 cl [OF s4] assms(1)
      by (simp add: native_fd_pipe2_def Let_def step_ok_refl)
  qed
qed

lemma close_backend:
  assumes "fd_inv s" "i < TASK_MAX" "held fd_map (kern s) (i, n) = Some b" "kern s1 = kern (set_fd_map i n (-1) s)"
    "fsys s1 = fsys s" "slots s1 = slots s" "step_ok i s s1" "step_ok i s1 s2" "kern s2 = kern (set_fd_flags i m v s1)" "fsys s2 = fsys s1"
  shows "step_ok i s (fst (atm_posix_close (int b) s2))"
proof -
  have n: "n < TASK_FD_MAX" "fd_table_ready (task_of s i)" using assms(3) by (auto simp: held_Some)
  have "free_backend (int b) (set_fd_map i n (-1) s)" by (rule step_clear_fd(2) [OF assms(1,2) n assms(3)])
  then have "free_backend (int b) s2" using assms(4,5,9,10) by (simp add: free_backend_def set_fd_flags_def held_upd_same)
  then show ?thesis using step_ok_trans [OF assms(7,8)] step_close step_ok_inv step_ok_trans by blast
qed

lemma clear_flags_fields:
  "kern (clear_fd_flags (Some i) fd s) = kern (set_fd_flags i (nat fd) 0 s)" "fsys (clear_fd_flags (Some i) fd s) = fsys s"
  "slots (clear_fd_flags (Some i) fd s) = slots s"
  by (simp_all add: clear_fd_flags_def)

lemma step_socket_close:
  assumes "fd_inv s" "i < TASK_MAX"
  shows "step_ok i s (fst (native_socket_close E (Some i) fd s))"
proof (cases "slot_for (Some i) fd s")
  case (Some k)
  obtain r c w where e: "atm_tcp_close E (conn (slots s ! k)) (netdev s) = (r, c, w)" by (rule prod_cases3)
  have "held socket_map (kern s) (i, nat fd) = Some k" using Some slot_for_held [OF assms] by blast
  from step_sock_close [OF assms this] Some e show ?thesis by (simp add: native_socket_close_def)
qed (use assms in \<open>simp add: native_socket_close_def step_ok_refl\<close>)

lemma step_fd_close:
  assumes "fd_inv s" "i < TASK_MAX"
  shows "step_ok i s (fst (native_fd_close E (Some i) fd s))"
proof -
  have fl: "step_ok i s (if c then clear_fd_flags (Some i) fd z else z)" if "step_ok i s z" for c z
    using that step_ok_trans step_clear_flags step_ok_inv by (cases c) fastforce+
  consider (pipe) "native_pipe_is_fd (Some i) fd (kern s)"
    | (sock) "\<not> native_pipe_is_fd (Some i) fd (kern s)" "native_socket_is_fd (Some i) fd s"
    | (backed) "\<not> native_pipe_is_fd (Some i) fd (kern s)" "\<not> native_socket_is_fd (Some i) fd s" "fd_valid (Some i) fd s"
    | (bad) "\<not> native_pipe_is_fd (Some i) fd (kern s)" "\<not> native_socket_is_fd (Some i) fd s" "\<not> fd_valid (Some i) fd s"
    by blast
  then show ?thesis
  proof cases
    case pipe
    then show ?thesis using fl [OF step_pipe_close [OF assms]] by (simp add: native_fd_close_def case_prod_beta Let_def)
  next
    case sock
    then show ?thesis using fl [OF step_socket_close [OF assms]] by (simp add: native_fd_close_def case_prod_beta Let_def)
  next
    case backed
    then obtain b where b: "held fd_map (kern s) (i, nat fd) = Some b" using fd_valid_held [OF assms(2)] by auto
    then have n: "nat fd < TASK_FD_MAX" "fd_table_ready (task_of s i)" "fd_map (task_of s i) ! nat fd = int b" by (auto simp: held_Some)
    let ?s1 = "set_fd_map i (nat fd) (-1) s"
    note c = step_clear_fd(1) [OF assms n(1,2)]
    have "step_ok i s (fst (atm_posix_close (int b) (clear_fd_flags (Some i) fd ?s1)))"
      by (rule close_backend [OF assms b _ _ _ c step_clear_flags [OF step_ok_inv [OF c]]]) (simp_all add: clear_flags_fields)
    then show ?thesis using backed n(3) by (simp add: native_fd_close_def)
  next
    case bad
    then show ?thesis using assms(1) by (simp add: native_fd_close_def step_ok_refl)
  qed
qed

lemma step_fold:
  assumes "fd_inv s" "\<And>x z. fd_inv z \<Longrightarrow> step_ok i z (g x z)"
  shows "step_ok i s (fold g xs s)"
  using assms(1)
proof (induction xs arbitrary: s)
  case (Cons x xs)
  then show ?case using assms(2) [of s x] step_ok_trans step_ok_inv by fastforce
qed (simp add: step_ok_refl)

lemma step_close_on_exec:
  assumes "fd_inv s" "i < TASK_MAX"
  shows "step_ok i s (native_fd_close_on_exec E (Some i) s)"
  using assms by (auto simp: native_fd_close_on_exec_def step_ok_refl intro!: step_fold step_fd_close)

lemma step_dup_onto:
  assumes "fd_inv s" "i < TASK_MAX" "n < TASK_FD_MAX" "fd_table_ready (task_of s i)"
    "held socket_map (kern s) (i, n) = None" "held pipe_map (kern s) (i, n) = None"
  shows "step_ok i s (fst (dup_onto i fd n s))"
proof (cases "native_pipe_is_fd (Some i) fd (kern s)")
  case True
  obtain s1 out where d: "lift_kern (native_pipe_dup (Some i) fd (int n)) s = (s1, out)" by fastforce
  have "step_ok i s (fst (lift_kern (native_pipe_dup (Some i) fd (int n)) s))"
    using assms fd_inv_facts(1) [OF assms(1)] by (intro step_pipe) (simp_all add: pipe_dup_only kern_inv_dup)
  then have s1: "step_ok i s s1" using d by simp
  then have "step_ok i s (fst (fd_exec_set t m c (set_fd_flags i x v s1)))" for t m c x v
    using step_ok_trans step_exec step_fd_flags step_ok_inv by metis
  then show ?thesis using True d s1 by (simp add: dup_onto_def)
next
  case False
  obtain s1 b where d: "atm_posix_dup (fd_map (task_of s i) ! nat fd) s = (s1, b)" by fastforce
  note t = posix_dup_taken [OF assms(1) d]
  show ?thesis
  proof (cases "b < 0")
    case True
    then show ?thesis using False d t(1) by (simp add: dup_onto_def)
  next
    case nb: False
    have "fd_table_ready (task_of s1 i)" "b < 0 \<or> free_backend b s1" "held socket_map (kern s1) (i, n) = None"
      "held pipe_map (kern s1) (i, n) = None" using t nb assms by auto
    note ins = step_install(1) [OF step_ok_inv [OF t(1)] assms(2,3) this]
    have "step_ok i s (fst (fd_exec_set t m c (set_fd_flags i n v (set_fd_map i n b s1))))" for t m c v
      using step_ok_trans [OF t(1) step_ok_trans [OF ins step_exec [OF step_ok_inv [OF ins]]]] .
    then show ?thesis using False nb d by (simp add: dup_onto_def)
  qed
qed

lemma step_dup_min:
  assumes "fd_inv s" "i < TASK_MAX"
  shows "step_ok i s (fst (native_fd_dup_min (Some i) fd m s))"
proof -
  let ?in_use = "(native_pipe_is_fd (Some i) fd (kern s) \<or> fd_valid (Some i) fd s) \<and> \<not> native_socket_is_fd (Some i) fd s"
  have ready: "fd_table_ready (task_of s i)" if ?in_use
    using that by (auto simp: native_pipe_is_fd_def pipe_decode_def fd_valid_def split: if_splits)
  have "step_ok i s (fst (dup_onto i fd n s))" if "first_idx (fd_unused i s) (nat m) TASK_FD_MAX = Some n" ?in_use for n
    using first_idx_Some [OF that(1)] fd_unused_held [of i s n] ready [OF that(2)] assms by (intro step_dup_onto) auto
  then show ?thesis using assms(1) by (auto simp: native_fd_dup_min_def step_ok_refl split: option.split)
qed

lemma pipe_only_held:
  "pipe_only i k k' \<Longrightarrow> held socket_map k' = held socket_map k" "pipe_only i k k' \<Longrightarrow> held fd_map k' = held fd_map k"
  by (auto intro!: held_cong simp: pipe_only_def)

lemma upd_task_upd: "upd_task i f (upd_task i g k) = upd_task i (f \<circ> g) k"
  by (cases "i < length (task_pool k)") (simp_all add: upd_task_def list_update_beyond)

lemma set_fd_map_twice: "set_fd_map i n v (set_fd_map i n w s) = set_fd_map i n v s"
  by (simp add: set_fd_map_def upd_kern_def upd_task_upd comp_def)

lemma vfs_dup_succeeds:
  assumes "fd_ok v b" "3 \<le> k" "k < FD_MAX" "\<not> fused (g_fds v ! k)"
  shows "0 \<le> snd (vfs_dup b v)"
proof -
  have "first_idx (\<lambda>i. \<not> fused (g_fds v ! i)) 3 FD_MAX \<noteq> None" using assms(2-4) by (auto simp: first_idx_None)
  then show ?thesis using assms(1) by (auto simp: vfs_dup_def fd_alloc_def)
qed

lemma set_fd_map_other:
  "m \<noteq> n \<Longrightarrow> fd_map (task_of (set_fd_map i n v s) i) ! m = fd_map (task_of s i) ! m"
  "fd_flags (task_of (set_fd_map i n v s) j) = fd_flags (task_of s j)"
  "native_pipe_is_fd t fd (kern (set_fd_map i n v s)) = native_pipe_is_fd t fd (kern s)"
proof -
  let ?f = "\<lambda>u. u\<lparr>fd_map := (fd_map u)[n := v]\<rparr>"
  show "fd_flags (task_of (set_fd_map i n v s) j) = fd_flags (task_of s j)"
    by (simp add: set_fd_map_def task_at_upd_field)
  show "m \<noteq> n \<Longrightarrow> fd_map (task_of (set_fd_map i n v s) i) ! m = fd_map (task_of s i) ! m"
    by (cases "i < length (task_pool (kern s))") (simp_all add: set_fd_map_def task_at_upd upd_task_def list_update_beyond)
  have "pipe_map (task_at (upd_task i ?f (kern s)) j) = pipe_map (task_of s j)"
    "fd_table_ready (task_at (upd_task i ?f (kern s)) j) = fd_table_ready (task_of s j)" for j
    by (simp_all add: task_at_upd_field)
  moreover have "pipe_pool (upd_task i ?f (kern s)) = pipe_pool (kern s)" by (simp add: upd_task_def)
  ultimately show "native_pipe_is_fd t fd (kern (set_fd_map i n v s)) = native_pipe_is_fd t fd (kern s)"
    by (simp add: set_fd_map_def native_pipe_is_fd_def pipe_decode_def split: option.split)
qed

lemma dup_set_commute: "atm_posix_dup b (set_fd_map i n v s) = (set_fd_map i n v (fst (atm_posix_dup b s)), snd (atm_posix_dup b s))"
  by (simp add: atm_posix_dup_def lift_fs_def set_fd_map_def upd_kern_def case_prod_beta Let_def)

text \<open>The target of a duplication may still show a descriptor that has been closed: it is overwritten.\<close>

lemma dup_onto_stale:
  assumes "\<not> native_pipe_is_fd (Some i) fd (kern s)" "nat fd \<noteq> n" "0 \<le> snd (atm_posix_dup (fd_map (task_of s i) ! nat fd) s)"
  shows "dup_onto i fd n (set_fd_map i n v s) = dup_onto i fd n s"
  using assms by (simp add: dup_onto_def set_fd_map_other dup_set_commute set_fd_map_twice case_prod_beta)

lemma socket_close_kern:
  assumes "slot_for (Some i) fd s = Some k"
  shows "kern (fst (native_socket_close E (Some i) fd s)) = kern (set_socket_map i (nat fd) (-1) s)"
  using assms by (simp add: native_socket_close_def case_prod_beta set_socket_map_def)

text \<open>\<open>dup2\<close> of a pipe onto a number that stands for a file is the exception: see below.\<close>

definition dup2_guard :: "nat \<Rightarrow> int \<Rightarrow> int \<Rightarrow> 'a fdsys_scheme \<Rightarrow> bool" where
  "dup2_guard i fd newfd s \<longleftrightarrow> \<not> (native_pipe_is_fd (Some i) fd (kern s) \<and> fd_valid (Some i) newfd s)"

lemma pipe_close_fields:
  "fd_table_ready (task_at (fst (native_pipe_close (Some i) fd k)) i) = fd_table_ready (task_at k i)"
  if "kern_inv k" "i < TASK_MAX"
  using pipe_close_only(1) [OF that] that by (simp add: pipe_only_def)

lemma step_dup2_file:
  assumes "fd_inv s" "i < TASK_MAX" "held fd_map (kern s) (i, nat newfd) = Some b" "held fd_map (kern s) (i, nat fd) = Some c"
    "0 \<le> newfd" "0 \<le> fd" "fd \<noteq> newfd" "\<not> native_pipe_is_fd (Some i) fd (kern s)"
  shows "step_ok i s (fst (dup_onto i fd (nat newfd) (fst (atm_posix_close (int b) s))))"
proof -
  let ?n = "nat newfd" and ?s1 = "fst (atm_posix_close (int b) s)"
  let ?z = "set_fd_map i ?n (-1) ?s1"
  note f = fd_inv_facts [OF assms(1)]
  have ne: "nat fd \<noteq> ?n" using assms(5-7) by auto
  have rel: "step_ok i s ?z" by (rule step_release [OF assms(1-3)])
  have n: "?n < TASK_FD_MAX" "fd_table_ready (task_of s i)" "fd_map (task_of s i) ! nat fd = int c"
    using assms(3,4) by (auto simp: held_Some)
  have b: "3 \<le> b" "b < FD_MAX" "fused (g_fds (fsys s) ! b)" "c < FD_MAX" "fused (g_fds (fsys s) ! c)" "c \<noteq> b"
    using owned_live [OF f(6) assms(3)] owned_live [OF f(6) assms(4)] owned_unique [OF f(6) assms(3), of "(i, nat fd)"] assms(4) ne
    by (auto simp: open_files_def)
  have g: "g_fds (fsys ?s1) = (g_fds (fsys s))[b := zero_fd]"
    using b by (simp add: atm_posix_close_def vfs_close_fds fd_ok_def)
  have "0 \<le> snd (vfs_dup (int c) (fsys ?s1))"
    by (rule vfs_dup_succeeds [of _ _ b]) (use b f(4) in \<open>simp_all add: fd_ok_def g zero_fd_def\<close>)
  then have d: "0 \<le> snd (atm_posix_dup (fd_map (task_of ?s1 i) ! nat fd) ?s1)" by (simp add: atm_posix_dup_def n(3))
  have "held pipe_map (kern s) (i, ?n) = None" "held socket_map (kern s) (i, ?n) = None"
    using f(3) assms(3) unfolding exclusive_def by (metis option.distinct(1))+
  then have "held socket_map (kern ?z) (i, ?n) = None" "held pipe_map (kern ?z) (i, ?n) = None" by simp_all
  moreover have "fd_table_ready (task_of ?z i)" using n(2) by (simp add: set_fd_map_def task_at_upd_field)
  ultimately have "step_ok i ?z (fst (dup_onto i fd ?n ?z))"
    using step_dup_onto [OF step_ok_inv [OF rel] assms(2) n(1)] by blast
  then show ?thesis using dup_onto_stale [OF _ ne d, of "-1"] assms(8) step_ok_trans [OF rel] by simp
qed

lemma step_dup2:
  assumes "fd_inv s" "i < TASK_MAX" "dup2_guard i fd newfd s"
  shows "step_ok i s (fst (native_fd_dup2 E (Some i) fd newfd s))"
proof (cases "newfd < 0 \<or> newfd \<ge> int TASK_FD_MAX \<or>
    (fd = newfd \<and> (native_pipe_is_fd (Some i) fd (kern s) \<or> native_socket_is_fd (Some i) fd s \<or> fd_valid (Some i) fd s)) \<or>
    \<not> (native_pipe_is_fd (Some i) fd (kern s) \<or> fd_valid (Some i) fd s) \<or> native_socket_is_fd (Some i) fd s")
  case True
  then show ?thesis using assms(1) by (auto simp: native_fd_dup2_def step_ok_refl)
next
  case F: False
  note f = fd_inv_facts [OF assms(1)]
  let ?n = "nat newfd"
  have n: "?n < TASK_FD_MAX" "0 \<le> newfd" using F by auto
  have src: "native_pipe_is_fd (Some i) fd (kern s) \<or> fd_valid (Some i) fd s" "fd \<noteq> newfd" using F by auto
  have rdy: "fd_table_ready (task_of s i)" using src
    by (auto simp: native_pipe_is_fd_def pipe_decode_def fd_valid_def split: if_splits)
  have ex: "held pipe_map (kern s) (i, ?n) = None \<or> held socket_map (kern s) (i, ?n) = None"
    using f(3) unfolding exclusive_def by metis
  have eq: "native_fd_dup2 E (Some i) fd newfd s = dup_onto i fd ?n
      (if native_pipe_is_fd (Some i) newfd (kern s) then fst (lift_kern (native_pipe_close (Some i) newfd) s)
       else if native_socket_is_fd (Some i) newfd s then fst (native_socket_close E (Some i) newfd s)
       else if fd_valid (Some i) newfd s then fst (atm_posix_close (fd_map (task_of s i) ! ?n) s) else s)"
    using F by (auto simp: native_fd_dup2_def Let_def)
  consider (pipe) "native_pipe_is_fd (Some i) newfd (kern s)"
    | (sock) "\<not> native_pipe_is_fd (Some i) newfd (kern s)" "native_socket_is_fd (Some i) newfd s"
    | (backed) "\<not> native_pipe_is_fd (Some i) newfd (kern s)" "\<not> native_socket_is_fd (Some i) newfd s" "fd_valid (Some i) newfd s"
    | (bad) "\<not> native_pipe_is_fd (Some i) newfd (kern s)" "\<not> native_socket_is_fd (Some i) newfd s" "\<not> fd_valid (Some i) newfd s"
    by blast
  then show ?thesis
  proof cases
    case pipe
    let ?s1 = "fst (lift_kern (native_pipe_close (Some i) newfd) s)"
    have s1: "step_ok i s ?s1" by (rule step_pipe_close [OF assms(1,2)])
    have "held pipe_map (kern s) (i, ?n) \<noteq> None" using pipe pipe_fd_held [OF assms(1,2)] by auto
    then have "held socket_map (kern ?s1) (i, ?n) = None"
      using ex pipe_only_held(1) [OF pipe_close_only(1) [OF f(1) assms(2)], of newfd] by auto
    moreover have "held pipe_map (kern ?s1) (i, ?n) = None"
      using pipe pipe_close_only(2) [OF f(1) assms(2), of newfd] by (simp add: native_pipe_is_fd_def)
    moreover have "fd_table_ready (task_of ?s1 i)" using rdy pipe_close_fields [OF f(1) assms(2)] by simp
    ultimately have "step_ok i ?s1 (fst (dup_onto i fd ?n ?s1))"
      by (intro step_dup_onto [OF step_ok_inv [OF s1] assms(2) n(1)])
    then show ?thesis using step_ok_trans [OF s1] pipe by (simp add: eq)
  next
    case sock
    let ?s1 = "fst (native_socket_close E (Some i) newfd s)"
    obtain k where k: "slot_for (Some i) newfd s = Some k" using sock by (auto simp: native_socket_is_fd_def)
    note kn = socket_close_kern [OF k, of E]
    have h: "held socket_map (kern s) (i, ?n) = Some k" "\<not> ?n < 3" using k slot_for_held [OF assms(1,2)] f(2) by (auto simp: tables_wf_def)
    have s1: "step_ok i s ?s1" by (rule step_socket_close [OF assms(1,2)])
    have "held socket_map (kern ?s1) (i, ?n) = None" "held pipe_map (kern ?s1) (i, ?n) = None"
      using set_socket_map_wf(1) [OF assms(1,2) n(1) _ rdy, of "-1"] h ex by (simp_all add: kn)
    moreover have "fd_table_ready (task_of ?s1 i)" unfolding kn using rdy by (simp add: set_socket_map_def task_at_upd_field)
    ultimately have "step_ok i ?s1 (fst (dup_onto i fd ?n ?s1))"
      by (intro step_dup_onto [OF step_ok_inv [OF s1] assms(2) n(1)])
    then show ?thesis using step_ok_trans [OF s1] sock by (simp add: eq)
  next
    case backed
    then have np: "\<not> native_pipe_is_fd (Some i) fd (kern s)" "fd_valid (Some i) fd s" using assms(3) src by (auto simp: dup2_guard_def)
    then obtain b c where h: "held fd_map (kern s) (i, ?n) = Some b" "held fd_map (kern s) (i, nat fd) = Some c" "0 \<le> fd"
      using backed fd_valid_held [OF assms(2), of fd s] fd_valid_held [OF assms(2), of newfd s] by auto
    then have "fd_map (task_of s i) ! ?n = int b" by (simp add: held_Some)
    then show ?thesis using step_dup2_file [OF assms(1,2) h(1,2) n(2) h(3) src(2) np(1)] backed by (simp add: eq)
  next
    case bad
    then have "held socket_map (kern s) (i, ?n) = None" "held pipe_map (kern s) (i, ?n) = None"
      using n(2) socket_fd_held [OF assms(1,2)] pipe_fd_held [OF assms(1,2)] by auto
    then show ?thesis using step_dup_onto [OF assms(1,2) n(1) rdy] bad by (simp add: eq)
  qed
qed

lemma step_mark:
  assumes "fd_inv z" "i < TASK_MAX"
  shows "step_ok i z (fst (let (s2, rc) = fd_exec_set (Some i) fd v z in
    if rc < 0 then (fst (native_fd_close E (Some i) out s2), -1) else (s2, out)))"
proof -
  obtain s2 rc where x: "fd_exec_set (Some i) fd v z = (s2, rc)" by fastforce
  have "step_ok i z s2" using step_exec [OF assms(1), of i "Some i" fd v] x by simp
  note s2 = this
  have "step_ok i z (fst (native_fd_close E (Some i) out s2))"
    by (rule step_ok_trans [OF s2 step_fd_close [OF step_ok_inv [OF s2] assms(2)]])
  then show ?thesis using x s2 by (simp add: Let_def)
qed

lemma step_dup3:
  assumes "fd_inv s" "i < TASK_MAX" "dup2_guard i fd newfd s"
  shows "step_ok i s (fst (native_fd_dup3 E (Some i) fd newfd flags s))"
proof -
  obtain s1 out where d: "native_fd_dup2 E (Some i) fd newfd s = (s1, out)" by fastforce
  have s1: "step_ok i s s1" using step_dup2 [OF assms, of E] d by simp
  show ?thesis using d s1 assms(1) step_ok_trans [OF s1 step_mark [OF step_ok_inv [OF s1] assms(2)]]
    by (simp add: native_fd_dup3_def step_ok_refl)
qed

lemma step_fcntl:
  assumes "fd_inv s" "i < TASK_MAX"
  shows "step_ok i s (fst (native_fd_fcntl E (Some i) fd cmd arg s))"
proof -
  obtain s1 out where d: "native_fd_dup_min (Some i) fd (sint arg) s = (s1, out)" by fastforce
  have s1: "step_ok i s s1" using step_dup_min [OF assms, of fd "sint arg"] d by simp
  show ?thesis using d s1 assms(1) step_ok_trans [OF s1 step_mark [OF step_ok_inv [OF s1] assms(2)]]
    by (simp add: native_fd_fcntl_def step_ok_refl)
qed

text \<open>Sockets.\<close>

lemma step_socket_open:
  assumes "fd_inv s" "i < TASK_MAX"
  shows "step_ok i s (fst (native_socket_open (Some i) d t p s))"
proof -
  let ?P = "\<lambda>n. fd_map (task_of s i) ! n < 0 \<and> socket_map (task_of s i) ! n < 0 \<and> pipe_map (task_of s i) ! n < 0"
  have "step_ok i s (set_socket_map i n (int k) (upd_slot k (\<lambda>_. zero_slot\<lparr>sowner := Some i, sused := True\<rparr>) s))"
    if "first_idx ?P 3 TASK_FD_MAX = Some n" "free_slot s = Some k" "fd_table_ready (task_of s i)" for n k
    using first_idx_Some [OF that(1)] first_idx_Some [OF that(2) [unfolded free_slot_def]] that(3) assms
    by (intro step_sock_open) (auto simp: held_def)
  then show ?thesis using assms(1) by (auto simp: native_socket_open_def step_ok_refl split: option.split)
qed

lemma step_socket_connect:
  assumes "fd_inv s" "i < TASK_MAX" "native_socket_connect E (Some i) fd a tm s = Some (s', r)"
  shows "step_ok i s s'"
  using assms step_set_conn [OF assms(1,2)]
  by (auto simp: native_socket_connect_def step_ok_refl split: option.splits if_splits)

lemma step_socket_bind:
  assumes "fd_inv s" "i < TASK_MAX"
  shows "step_ok i s (fst (native_socket_bind (Some i) fd a s))"
proof -
  have "step_ok i s (upd_slot k (\<lambda>x. x\<lparr>conn := (conn x)\<lparr>local_port := q\<rparr>\<rparr>) s)" if "slot_for (Some i) fd s = Some k" for k q
    by (rule step_conn [OF assms that]) simp_all
  then show ?thesis using assms(1) by (auto simp: native_socket_bind_def step_ok_refl split: option.split)
qed

lemma step_socket_listen:
  assumes "fd_inv s" "i < TASK_MAX"
  shows "step_ok i s (fst (native_socket_listen (Some i) fd backlog s))"
  using assms step_set_conn [OF assms]
  by (auto simp: native_socket_listen_def step_ok_refl case_prod_beta Let_def split: option.split)

text \<open>The guard of \<open>accept\<close>: the number that it takes, which it does not look up in \<open>pipe_map\<close>, is not
  the end of a pipe.\<close>

definition accept_guard :: "nat \<Rightarrow> 'a fdsys_scheme \<Rightarrow> bool" where
  "accept_guard i s \<longleftrightarrow>
    (\<forall>n. first_idx (\<lambda>n. fd_map (task_of s i) ! n < 0 \<and> socket_map (task_of s i) ! n < 0) 3 TASK_FD_MAX = Some n
       \<longrightarrow> pipe_map (task_of s i) ! n < 0)"

lemma step_socket_accept:
  assumes "fd_inv s" "i < TASK_MAX" "accept_guard i s" "native_socket_accept E (Some i) fd tm s = Some (s', r)"
  shows "step_ok i s s'"
proof -
  let ?P = "\<lambda>n. fd_map (task_of s i) ! n < 0 \<and> socket_map (task_of s i) ! n < 0"
  let ?new = "\<lambda>n k. set_socket_map i n (int k) (upd_slot k (\<lambda>_. zero_slot\<lparr>sowner := Some i, sused := True\<rparr>) s)"
  have rdy: "fd_table_ready (task_of s i)" if "slot_for (Some i) fd s = Some l" for l
    using that by (auto simp: slot_for_def valid_fd_def split: if_splits)
  have *: "step_ok i s (?new n k)" "slot_for (Some i) (int n) (?new n k) = Some k" "held socket_map (kern (?new n k)) (i, n) = Some k"
    if "first_idx ?P 3 TASK_FD_MAX = Some n" "free_slot s = Some k" "slot_for (Some i) fd s = Some l" for n k l
  proof -
    note ff = first_idx_Some [OF that(1)] first_idx_Some [OF that(2) [unfolded free_slot_def]] rdy [OF that(3)]
    show st: "step_ok i s (?new n k)"
      using ff assms(1-3) that(1) by (intro step_sock_open) (auto simp: held_def accept_guard_def)
    have "kern (?new n k) = kern (set_socket_map i n (int k) s)" by (simp add: set_socket_map_def)
    then show h: "held socket_map (kern (?new n k)) (i, n) = Some k"
      using set_socket_map_wf(1) [OF assms(1,2), of n "int k"] ff by simp
    then show "slot_for (Some i) (int n) (?new n k) = Some k" using slot_for_held [OF step_ok_inv [OF st] assms(2)] by simp
  qed
  have fin: "step_ok i s (set_conn k c w (?new n k))"
    "step_ok i s (upd_slot k (\<lambda>_. zero_slot) (set_socket_map i n (- 1) (?new n k\<lparr>netdev := w\<rparr>)))"
    if "first_idx ?P 3 TASK_FD_MAX = Some n" "free_slot s = Some k" "slot_for (Some i) fd s = Some l" for n k l c w
    using step_ok_trans [OF *(1) [OF that] step_set_conn [OF step_ok_inv [OF *(1) [OF that]] assms(2) *(2) [OF that]]]
      step_ok_trans [OF *(1) [OF that] step_sock_close [OF step_ok_inv [OF *(1) [OF that]] assms(2) *(3) [OF that]]]
    by blast+
  then show ?thesis using assms(4) step_ok_refl [OF assms(1), of i]
    by (auto simp: native_socket_accept_def Let_def bind_eq_Some_conv split: option.splits if_splits)
qed

lemma step_socket_io:
  assumes "fd_inv s" "i < TASK_MAX"
  shows "native_socket_send E (Some i) fd b s = Some (s', r) \<Longrightarrow> step_ok i s s'"
    "native_socket_recv E (Some i) fd buf n tm s = Some (s', q, bs) \<Longrightarrow> step_ok i s s'"
  using assms step_set_conn [OF assms]
  by (auto simp: native_socket_send_def native_socket_recv_def step_ok_refl split: option.splits if_splits)

text \<open>Transfers on a pipe, by the current task.\<close>

lemma pipe_only_then:
  assumes "pipe_only i k k'" "fd_frame k' k''" "length (task_pool k) = TASK_MAX" "i < TASK_MAX"
  shows "pipe_only i k k''"
  using assms by (intro pipe_only_trans [OF assms(1) pipe_only_frame]) (auto simp: pipe_only_def)

lemma pipe_io_only:
  assumes "length (task_pool k) = TASK_MAX" "i < TASK_MAX"
  shows "pipe_only i k (fst (native_pipe_read (Some i) fd b n nb k))" "pipe_only i k (fst (native_pipe_write (Some i) fd bs nb k))"
proof -
  have u: "pipe_only i k (pipe_wake_writer p k')" "pipe_only i k (pipe_wake_reader p k')" "pipe_only i k (pipe_block j k')"
    if "pipe_only i k k'" for p k' j
    using pipe_only_then [OF that _ assms] by simp_all
  show "pipe_only i k (fst (native_pipe_read (Some i) fd b n nb k))" "pipe_only i k (fst (native_pipe_write (Some i) fd bs nb k))"
    by (auto simp: native_pipe_read_def native_pipe_write_def pipe_read_pass_def pipe_write_pass_def Let_def case_prod_beta
        intro!: u split: option.split)
qed

lemma step_pipe_io:
  assumes "fd_inv s" "current_task (kern s) = Some i" "i \<noteq> 0"
  shows "step_ok i s (fst (lift_kern (native_pipe_read (Some i) fd b n nb) s))"
    "step_ok i s (fst (lift_kern (native_pipe_write (Some i) fd bs nb) s))"
proof -
  note f = fd_inv_facts [OF assms(1)]
  have "i < TASK_MAX" using f(1) assms(2) by (simp add: kern_inv_def sched_inv_def)
  then show "step_ok i s (fst (lift_kern (native_pipe_read (Some i) fd b n nb) s))"
    "step_ok i s (fst (lift_kern (native_pipe_write (Some i) fd bs nb) s))"
    using f(1,11) assms kern_inv_read [OF f(1) assms(2,3)] by (auto intro!: step_pipe simp: pipe_io_only)
qed

text \<open>Calls on the VFS descriptor behind a number.\<close>

definition at_backend :: "int \<Rightarrow> 'a fdsys_scheme \<Rightarrow> 'a fdsys_scheme \<Rightarrow> bool" where
  "at_backend b s s' \<longleftrightarrow> kern s' = kern s \<and> slots s' = slots s \<and> fd_local b (fsys s) (fsys s')"

definition backend_call :: "(int \<Rightarrow> 'a fdsys_scheme \<Rightarrow> 'a fdsys_scheme \<times> 'r) \<Rightarrow> bool" where
  "backend_call f \<longleftrightarrow> (\<forall>b s. at_backend b s (fst (f b s)))"

lemma at_backend_refl [simp]: "at_backend b s s"
  by (simp add: at_backend_def)

lemma at_backend_trans: "at_backend b s s' \<Longrightarrow> at_backend b s' s'' \<Longrightarrow> at_backend b s s''"
  unfolding at_backend_def using fd_local_trans by auto

lemma backend_callD: "backend_call f \<Longrightarrow> at_backend b s (fst (f b s))"
  by (simp add: backend_call_def)

lemma step_backend:
  assumes "fd_inv s" "i < TASK_MAX" "fd_valid (Some i) fd s" "kern s' = kern s" "slots s' = slots s"
    "fd_local (fd_backend (Some i) fd s) (fsys s) (fsys s')"
  shows "step_ok i s s'"
proof (rule step_local [OF assms(1,4,5,6)])
  fix j n assume h: "held fd_map (kern s) (j, n) = Some (nat (fd_backend (Some i) fd s))"
  have "held fd_map (kern s) (i, nat fd) = Some (nat (fd_backend (Some i) fd s))"
    using assms(2,3) by (auto simp: fd_valid_def held_def fd_backend_def nat_less_iff)
  from owned_unique [OF fd_inv_facts(6) [OF assms(1)] h this] show "j = i" by simp
qed

lemma step_on_backend:
  assumes "fd_inv s" "i < TASK_MAX" "backend_call f"
  shows "step_ok i s (fst (on_backend (Some i) fd bad f s))" "step_ok i s (fst (on_file (Some i) fd bad f s))"
  using assms step_backend [OF assms(1,2)] by (auto simp: on_backend_def on_file_def backend_call_def at_backend_def step_ok_refl)

lemma lift_fs_call:
  assumes "\<And>b v v' r. f b v = (v', r) \<Longrightarrow> fd_local b v v'"
  shows "backend_call (\<lambda>b. lift_fs (f b))"
  unfolding backend_call_def at_backend_def using assms by (auto simp: prod_eq_iff)

lemma posix_backend_calls:
  "backend_call (\<lambda>b. atm_posix_read b n)" "backend_call (\<lambda>b. atm_posix_write b bs)"
  "backend_call (\<lambda>b. atm_posix_lseek b off wh)" "backend_call atm_posix_fstat" "backend_call (\<lambda>b. atm_posix_fchmod b m)"
  "backend_call (\<lambda>b. atm_posix_fchown b u g)" "backend_call (\<lambda>b. atm_posix_ftruncate b sz)"
  "backend_call (\<lambda>b. lift_fs (vfs_fd_readdir b))"
  unfolding atm_posix_read_def atm_posix_write_def atm_posix_lseek_def atm_posix_fstat_def atm_posix_fchmod_def
    atm_posix_fchown_def atm_posix_ftruncate_def
  by (auto intro!: lift_fs_call dest: vfs_lseek_local vfs_fstat_local vfs_fchmod_local vfs_fchown_local vfs_ftruncate_local
      vfs_read_local vfs_write_local vfs_fd_readdir_local)

lemma step_then_io:
  assumes "step_ok i s z"
  shows "step_ok i s (add_io_read t n z)" "step_ok i s (add_io_write t n z)"
  using step_ok_trans [OF assms step_io(1) [OF step_ok_inv [OF assms]]] step_ok_trans [OF assms step_io(2) [OF step_ok_inv [OF assms]]]
  by blast+

lemma step_backend_call:
  assumes "fd_inv s" "i < TASK_MAX" "fd_valid (Some i) fd s" "backend_call f"
  shows "step_ok i s (fst (f (fd_backend (Some i) fd s) s))"
  using step_backend [OF assms(1-3)] assms(4) by (simp add: backend_call_def at_backend_def)

lemma step_fd_read:
  assumes "fd_inv s" "current_task (kern s) = Some i" "i \<noteq> 0"
  shows "native_fd_read E (Some i) fd n s = Some (s', r) \<Longrightarrow> step_ok i s s'"
    "native_fd_write E (Some i) fd bs s = Some (s', r) \<Longrightarrow> step_ok i s s'"
proof -
  have i: "i < TASK_MAX" using fd_inv_facts(1) [OF assms(1)] assms(2) by (simp add: kern_inv_def sched_inv_def)
  note p = step_pipe_io [OF assms] and so = step_socket_io [OF assms(1) i]
  note b = step_backend_call [OF assms(1) i _ posix_backend_calls(1)] step_backend_call [OF assms(1) i _ posix_backend_calls(2)]
  have fin: "step_ok i s (case q of Ret k y \<Rightarrow> add_io_read t k z | Blocked \<Rightarrow> z)" "step_ok i s (case q of Ret k y \<Rightarrow> add_io_write t k z | Blocked \<Rightarrow> z)"
    if "step_ok i s z" for q z t
    using that step_then_io [OF that] by (auto split: pipe_io.split)
  show "step_ok i s s'" if "native_fd_read E (Some i) fd n s = Some (s', r)"
  proof -
    from that obtain z q where z: "(if native_pipe_is_fd (Some i) fd (kern s)
        then Some (lift_kern (native_pipe_read (Some i) fd True n (fd_nonblock (Some i) fd s)) s)
        else if native_socket_is_fd (Some i) fd s
        then map_option (\<lambda>(s1, n, bs). (s1, Ret n bs)) (native_socket_recv E (Some i) fd True n 300 s)
        else if fd_valid (Some i) fd s
        then Some (let (s1, n, bs) = atm_posix_read (fd_backend (Some i) fd s) n s in (s1, Ret n bs))
        else Some (s, Ret (-1) [])) = Some (z, q)" and e: "s' = (case q of Ret k y \<Rightarrow> add_io_read (Some i) k z | Blocked \<Rightarrow> z)"
      unfolding native_fd_read_def by (auto simp: bind_eq_Some_conv simp del: split_paired_Ex)
    from z have "step_ok i s z"
      using p(1) [of fd True n "fd_nonblock (Some i) fd s"] so(2) b(1) [of fd n] step_ok_refl [OF assms(1), of i]
      by (auto simp: case_prod_beta Let_def split: if_splits)
    then show ?thesis unfolding e by (rule fin)
  qed
  show "step_ok i s s'" if "native_fd_write E (Some i) fd bs s = Some (s', r)"
  proof -
    from that obtain z q where z: "(if native_pipe_is_fd (Some i) fd (kern s)
        then Some (lift_kern (native_pipe_write (Some i) fd (Some bs) (fd_nonblock (Some i) fd s)) s)
        else if native_socket_is_fd (Some i) fd s
        then map_option (\<lambda>(s1, n). (s1, Ret n [])) (native_socket_send E (Some i) fd (Some bs) s)
        else if fd_valid (Some i) fd s
        then Some (let (s1, n) = atm_posix_write (fd_backend (Some i) fd s) bs s in (s1, Ret n []))
        else Some (s, Ret (-1) [])) = Some (z, q)" and e: "s' = (case q of Ret k y \<Rightarrow> add_io_write (Some i) k z | Blocked \<Rightarrow> z)"
      unfolding native_fd_write_def by (auto simp: bind_eq_Some_conv simp del: split_paired_Ex)
    from z have "step_ok i s z"
      using p(2) [of fd "Some bs" "fd_nonblock (Some i) fd s"] so(1) b(2) [of fd bs] step_ok_refl [OF assms(1), of i]
      by (auto simp: case_prod_beta Let_def split: if_splits)
    then show ?thesis unfolding e by (rule fin)
  qed
qed

text \<open>Positioned and vectored transfers: several calls on one descriptor.\<close>

lemma lift_fs_lseek_call: "backend_call (\<lambda>b. lift_fs (vfs_lseek b off wh))"
  using posix_backend_calls(3) [of off wh] by (simp add: atm_posix_lseek_def)

lemma seek_call: "backend_call (\<lambda>b. posix_seek_to b off)"
proof -
  have "at_backend b s (fst (posix_seek_to b off s))" for b and s :: "'a fdsys_scheme"
  proof -
    note c1 = backend_callD [OF lift_fs_lseek_call [of 0 SEEK_CUR], of b s]
    note c2 = at_backend_trans [OF c1 backend_callD [OF lift_fs_lseek_call [of "int off" SEEK_SET]]]
    show ?thesis using c1 c2 by (simp add: posix_seek_to_def case_prod_beta Let_def)
  qed
  then show ?thesis by (simp add: backend_call_def)
qed

lemma pread_call: "backend_call (\<lambda>b. atm_posix_pread b n off)"
proof -
  have "at_backend b s (fst (atm_posix_pread b n off s))" for b and s :: "'a fdsys_scheme"
  proof -
    note c1 = backend_callD [OF seek_call [of off], of b s]
    note c2 = at_backend_trans [OF c1 backend_callD [OF posix_backend_calls(1) [of n]]]
    note c3 = at_backend_trans [OF c2 backend_callD [OF lift_fs_lseek_call]]
    show ?thesis using c1 c3
      by (cases "posix_seek_to b off s") (simp add: atm_posix_pread_def atm_posix_read_def case_prod_beta Let_def split: option.split)
  qed
  then show ?thesis by (simp add: backend_call_def)
qed

lemma pwrite_call: "backend_call (\<lambda>b. atm_posix_pwrite b bs off)"
proof -
  have "at_backend b s (fst (atm_posix_pwrite b bs off s))" for b and s :: "'a fdsys_scheme"
  proof -
    note c1 = backend_callD [OF seek_call [of off], of b s]
    note c2 = at_backend_trans [OF c1 backend_callD [OF posix_backend_calls(2) [of bs]]]
    note c3 = at_backend_trans [OF c2 backend_callD [OF lift_fs_lseek_call]]
    show ?thesis using c1 c3
      by (cases "posix_seek_to b off s") (simp add: atm_posix_pwrite_def atm_posix_write_def case_prod_beta Let_def split: option.split)
  qed
  then show ?thesis by (simp add: backend_call_def)
qed

lemma readv_loop_at: "at_backend b s (fst (readv_loop b vs acc got s))"
proof (induction vs arbitrary: acc got s)
  case (Cons v vs)
  obtain s1 n bs where r: "lift_fs (vfs_read b (iov_len v)) s = (s1, n, bs)" by (rule prod_cases3)
  have c: "at_backend b s s1"
    using backend_callD [OF posix_backend_calls(1) [of "iov_len v"], of b s] r by (simp add: atm_posix_read_def)
  show ?case using r c at_backend_trans [OF c Cons.IH] by simp
qed simp

lemma writev_loop_at: "at_backend b s (fst (writev_loop b vs acc s))"
proof (induction vs arbitrary: acc s)
  case (Cons v vs)
  let ?bs = "take (iov_len v) (case iov_base v of Some d \<Rightarrow> d | None \<Rightarrow> [])"
  obtain s1 n where r: "lift_fs (vfs_write b ?bs) s = (s1, n)" by fastforce
  have c: "at_backend b s s1"
    using backend_callD [OF posix_backend_calls(2) [of ?bs], of b s] r by (simp add: atm_posix_write_def)
  show ?case unfolding writev_loop.simps r using c at_backend_trans [OF c Cons.IH] by simp
qed simp

lemma step_at_backend:
  "fd_inv s \<Longrightarrow> i < TASK_MAX \<Longrightarrow> fd_valid (Some i) fd s \<Longrightarrow> at_backend (fd_backend (Some i) fd s) s s' \<Longrightarrow> step_ok i s s'"
  unfolding at_backend_def by (rule step_backend) auto

lemma pipe_current:
  "current_task (pipe_wake_reader p k) = current_task k" "current_task (pipe_wake_writer p k) = current_task k"
  by (auto simp: pipe_wake_reader_def pipe_wake_writer_def split: option.split)

text \<open>A transfer that returns leaves the caller running.\<close>

lemma pipe_io_current:
  "snd (native_pipe_read t fd b n nb k) \<noteq> Blocked \<Longrightarrow> current_task (fst (native_pipe_read t fd b n nb k)) = current_task k"
  "snd (native_pipe_write t fd bs nb k) \<noteq> Blocked \<Longrightarrow> current_task (fst (native_pipe_write t fd bs nb k)) = current_task k"
  by (auto simp: native_pipe_read_def native_pipe_write_def pipe_read_pass_def pipe_write_pass_def Let_def case_prod_beta
      pipe_current split: option.splits if_splits)

lemma step_pipe_readv:
  assumes "fd_inv s" "current_task (kern s) = Some i" "i \<noteq> 0"
  shows "step_ok i s (fst (pipe_readv (Some i) fd vs acc got s))"
  using assms
proof (induction vs arbitrary: acc got s)
  case Nil
  then show ?case by simp
next
  case (Cons v vs)
  obtain s1 r where p: "lift_kern (native_pipe_read (Some i) fd (iov_base v \<noteq> None) (iov_len v) (fd_nonblock (Some i) fd s)) s = (s1, r)"
    by fastforce
  have s1: "step_ok i s s1" using step_pipe_io(1) [OF Cons.prems] p by (metis fst_conv)
  have cur: "current_task (kern s1) = Some i" if "r \<noteq> Blocked"
    using pipe_io_current(1) that Cons.prems(2) lift_kern_simps(1,2) p by (metis fst_conv snd_conv)
  show ?case
  proof (cases r)
    case (Ret n bs)
    have rest: "step_ok i s (fst (pipe_readv (Some i) fd vs a g s1))" for a g
      using step_ok_trans [OF s1 Cons.IH [OF step_ok_inv [OF s1] cur Cons.prems(3)]] Ret by simp
    then show ?thesis using p s1 Ret rest step_then_io(1) [OF s1] by simp
  qed (use p s1 in simp)
qed

lemma step_pipe_writev:
  assumes "fd_inv s" "current_task (kern s) = Some i" "i \<noteq> 0"
  shows "step_ok i s (fst (pipe_writev (Some i) fd vs acc s))"
  using assms
proof (induction vs arbitrary: acc s)
  case Nil
  then show ?case by simp
next
  case (Cons v vs)
  obtain s1 r where p: "lift_kern (native_pipe_write (Some i) fd (map_option (take (iov_len v)) (iov_base v)) (fd_nonblock (Some i) fd s)) s = (s1, r)"
    by fastforce
  have s1: "step_ok i s s1" using step_pipe_io(2) [OF Cons.prems] p by (metis fst_conv)
  have cur: "current_task (kern s1) = Some i" if "r \<noteq> Blocked"
    using pipe_io_current(2) that Cons.prems(2) lift_kern_simps(1,2) p by (metis fst_conv snd_conv)
  show ?case
  proof (cases r)
    case (Ret n bs)
    have rest: "step_ok i s (fst (pipe_writev (Some i) fd vs a s1))" for a
      using step_ok_trans [OF s1 Cons.IH [OF step_ok_inv [OF s1] cur Cons.prems(3)]] Ret by simp
    then show ?thesis using p s1 Ret rest step_then_io(2) [OF s1] by simp
  qed (use p s1 in simp)
qed

lemma step_vec:
  assumes "fd_inv s" "current_task (kern s) = Some i" "i \<noteq> 0"
  shows "step_ok i s (fst (native_fd_readv (Some i) fd iov s))" "step_ok i s (fst (native_fd_writev (Some i) fd iov s))"
proof -
  have i: "i < TASK_MAX" using fd_inv_facts(1) [OF assms(1)] assms(2) by (simp add: kern_inv_def sched_inv_def)
  have r: "step_ok i s (fst (atm_posix_readv (fd_backend (Some i) fd s) iov s))" "step_ok i s (fst (atm_posix_writev (fd_backend (Some i) fd s) iov s))"
    if "fd_valid (Some i) fd s"
    using step_at_backend [OF assms(1) i that readv_loop_at] step_at_backend [OF assms(1) i that writev_loop_at]
      step_ok_refl [OF assms(1), of i]
    by (simp_all add: atm_posix_readv_def atm_posix_writev_def)
  show "step_ok i s (fst (native_fd_readv (Some i) fd iov s))" "step_ok i s (fst (native_fd_writev (Some i) fd iov s))"
    using step_pipe_readv [OF assms] step_pipe_writev [OF assms] step_ok_refl [OF assms(1), of i]
      step_then_io(1) [OF r(1)] step_then_io(2) [OF r(2)]
    by (auto simp: native_fd_readv_def native_fd_writev_def case_prod_beta Let_def)
qed

lemma io_fd_fields [simp]:
  "fd_valid t fd (add_io_read u n s) = fd_valid t fd s" "fd_valid t fd (add_io_write u n s) = fd_valid t fd s"
  "fd_backend t fd (add_io_read u n s) = fd_backend t fd s" "fd_backend t fd (add_io_write u n s) = fd_backend t fd s"
  by (auto simp: add_io_read_def add_io_write_def fd_valid_def fd_backend_def task_at_upd_field split: option.split)

lemma step_preadv_loop:
  assumes "fd_inv s" "i < TASK_MAX" "fd_valid (Some i) fd s"
  shows "step_ok i s (fst (preadv_loop (Some i) (fd_backend (Some i) fd s) vs pos acc got s))"
    "step_ok i s (fst (pwritev_loop (Some i) (fd_backend (Some i) fd s) vs pos acc s))"
proof -
  let ?b = "fd_backend (Some i) fd s"
  have w: "at_backend ?b s z \<Longrightarrow> \<exists>z' n. at_backend ?b s z' \<and> (fst (preadv_loop (Some i) ?b vs pos acc got z) = z' \<or>
      fst (preadv_loop (Some i) ?b vs pos acc got z) = add_io_read (Some i) n z')" for z
  proof (induction vs arbitrary: pos acc got z)
    case (Cons v vs)
    obtain s1 n bs where r: "atm_posix_pread ?b (iov_len v) pos z = (s1, n, bs)" by (rule prod_cases3)
    have c: "at_backend ?b s s1" using at_backend_trans [OF Cons.prems backend_callD [OF pread_call]] r by (metis fst_conv)
    show ?case using r c Cons.prems Cons.IH [OF c] by (auto simp: Let_def)
  qed auto
  have w': "at_backend ?b s z \<Longrightarrow> \<exists>z' n. at_backend ?b s z' \<and> (fst (pwritev_loop (Some i) ?b vs pos acc z) = z' \<or>
      fst (pwritev_loop (Some i) ?b vs pos acc z) = add_io_write (Some i) n z')" for z
  proof (induction vs arbitrary: pos acc z)
    case (Cons v vs)
    let ?bs = "take (iov_len v) (case iov_base v of Some d \<Rightarrow> d | None \<Rightarrow> [])"
    obtain s1 n where r: "atm_posix_pwrite ?b ?bs pos z = (s1, n)" by fastforce
    have c: "at_backend ?b s s1" using at_backend_trans [OF Cons.prems backend_callD [OF pwrite_call]] r by (metis fst_conv)
    show ?case unfolding pwritev_loop.simps r using c Cons.prems Cons.IH [OF c] by (auto simp: Let_def)
  qed auto
  show "step_ok i s (fst (preadv_loop (Some i) ?b vs pos acc got s))" "step_ok i s (fst (pwritev_loop (Some i) ?b vs pos acc s))"
    using w [OF at_backend_refl] w' [OF at_backend_refl] step_at_backend [OF assms] step_then_io by metis+
qed

lemma step_preadv:
  assumes "fd_inv s" "i < TASK_MAX"
  shows "step_ok i s (fst (native_fd_preadv (Some i) fd iov off s))" "step_ok i s (fst (native_fd_pwritev (Some i) fd iov off s))"
  using assms step_preadv_loop [OF assms] by (auto simp: native_fd_preadv_def native_fd_pwritev_def on_file_def step_ok_refl)

lemma step_fchdir:
  assumes "fd_inv s" "i < TASK_MAX"
  shows "step_ok i s (fst (native_fd_fchdir (Some i) fd s))"
proof -
  have cwd: "step_ok i s (set_posix_cwd d z)" if "step_ok i s z" for d z
    using step_ok_trans [OF that step_upd_task [OF step_ok_inv [OF that], of "\<lambda>u. u\<lparr>cwd := d\<rparr>" i, unfolded upd_kern_def]]
      step_ok_trans [OF that step_same [OF step_ok_inv [OF that], of "z\<lparr>bootstrap_cwd := d\<rparr>"]]
    by (auto simp: set_posix_cwd_def fd_view_def split: option.split)
  have "step_ok i s (fst (atm_posix_fchdir (fd_backend (Some i) fd s) s))" if "fd_valid (Some i) fd s"
  proof -
    let ?b = "fd_backend (Some i) fd s"
    have 1: "at_backend ?b s (fst (lift_fs (vfs_fd_path ?b VFS_PATH_MAX) s))"
      by (rule backend_callD [OF lift_fs_call [OF vfs_fd_path_local]])
    have 2: "at_backend ?b s (fst (lift_fs (vfs_fstat ?b) (fst (lift_fs (vfs_fd_path ?b VFS_PATH_MAX) s))))"
      by (rule at_backend_trans [OF 1 backend_callD [OF lift_fs_call [OF vfs_fstat_local]]])
    note 12 = step_at_backend [OF assms that 1] step_at_backend [OF assms that 2]
    then show ?thesis using cwd [OF 12(2)] by (simp add: atm_posix_fchdir_def case_prod_beta Let_def split: option.split)
  qed
  then show ?thesis using assms(1) by (simp add: native_fd_fchdir_def on_file_def step_ok_refl case_prod_beta Let_def)
qed

lemma fsync_call: "backend_call atm_posix_fsync"
proof -
  have "at_backend b s (fst (atm_posix_fsync b s))" for b and s :: "'a fdsys_scheme"
  proof -
    have c: "at_backend b s (fst (lift_fs (vfs_fstat b) s))" by (rule backend_callD [OF lift_fs_call [OF vfs_fstat_local]])
    then have "at_backend b s (fst (lift_fs (vfs_fstat b) s)\<lparr>catdisk := d\<rparr>)" for d by (simp add: at_backend_def)
    then show ?thesis using c by (simp add: atm_posix_fsync_def case_prod_beta Let_def split: option.split)
  qed
  then show ?thesis by (simp add: backend_call_def)
qed

lemmas step_file_calls =
  step_on_backend [OF _ _ posix_backend_calls(3)] step_on_backend [OF _ _ posix_backend_calls(4)]
  step_on_backend [OF _ _ posix_backend_calls(5)] step_on_backend [OF _ _ posix_backend_calls(6)]
  step_on_backend [OF _ _ posix_backend_calls(7)] step_on_backend [OF _ _ posix_backend_calls(8)]
  step_on_backend [OF _ _ pread_call] step_on_backend [OF _ _ pwrite_call] step_on_backend [OF _ _ fsync_call]

text \<open>Directory streams.\<close>

lemma step_dir_map: "fd_inv s \<Longrightarrow> step_ok j s (set_dir_map i h v s)"
  unfolding set_dir_map_def by (rule step_upd_task) (simp_all add: fd_view_def)

lemma step_streams: "fd_inv s \<Longrightarrow> step_ok j s (s\<lparr>dir_streams := d\<rparr>)"
  by (rule step_same) simp_all

lemma step_dir_open:
  assumes "fd_inv s"
  shows "step_ok i s (fst (native_dir_open (Some i) path s))"
proof -
  have "step_ok i s s1" if "atm_posix_opendir path s = (s1, d)" for s1 d
  proof (rule step_fs_frame [OF assms])
    show "kern s1 = kern s" "slots s1 = slots s"
      using that by (auto simp: atm_posix_opendir_def lift_fs_def case_prod_beta Let_def split: option.splits)
    show "fds_frame (fsys s) (fsys s1)"
      using that by (auto simp: atm_posix_opendir_def lift_fs_def Let_def split: option.splits prod.splits dest: vfs_opendir_fds)
  qed
  note 1 = this
  have "step_ok i s (set_dir_map i h a s2)" if "atm_posix_opendir path s = (s1, d)" "dir_new e s1 = (s2, a)" for s1 d e s2 a h
  proof -
    have "step_ok i s1 s2" using that(2) step_streams [OF step_ok_inv [OF 1 [OF that(1)]]]
      by (auto simp: dir_new_def split: option.splits)
    from step_ok_trans [OF 1 [OF that(1)] step_ok_trans [OF this step_dir_map [OF step_ok_inv [OF this]]]] show ?thesis .
  qed
  with 1 show ?thesis using step_ok_refl [OF assms, of i]
    by (auto simp: native_dir_open_def Let_def split: option.split prod.split)
qed

lemma step_closedir:
  "fd_inv s \<Longrightarrow> step_ok j s (fst (atm_posix_closedir a s))"
  by (simp add: atm_posix_closedir_def step_ok_refl step_streams)

lemma step_dir_calls:
  assumes "fd_inv s"
  shows "step_ok i s (fst (native_dir_read (Some i) h s))" "step_ok i s (fst (native_dir_close (Some i) h s))"
    "step_ok i s (native_dir_task_cleanup (Some i) s)"
proof -
  have "step_ok i s (s1\<lparr>dir_streams := x\<rparr>)" if "atm_posix_readdir d s = (s1, d', e)" for s1 d d' e x
  proof -
    have "step_ok i s s1"
      using that by (intro step_fs_frame [OF assms])
        (auto simp: atm_posix_readdir_def lift_fs_def Let_def split: prod.splits dest: vfs_readdir_fds)
    then show ?thesis using step_streams step_ok_trans step_ok_inv by blast
  qed
  then show "step_ok i s (fst (native_dir_read (Some i) h s))" using step_ok_refl [OF assms, of i]
    by (auto simp: native_dir_read_def Let_def split: option.split prod.split)
  show "step_ok i s (fst (native_dir_close (Some i) h s))"
    using step_ok_trans [OF step_dir_map [OF assms] step_closedir [OF step_ok_inv [OF step_dir_map [OF assms]]]] step_ok_refl [OF assms, of i]
    by (simp add: native_dir_close_def Let_def)
  have "step_ok i z (set_dir_map i h 0 (fst (atm_posix_closedir a z)))" if "fd_inv z" for z h a
    using step_ok_trans [OF step_closedir [OF that] step_dir_map [OF step_ok_inv [OF step_closedir [OF that]]]] .
  then show "step_ok i s (native_dir_task_cleanup (Some i) s)"
    by (auto simp: native_dir_task_cleanup_def Let_def step_ok_refl intro!: step_fold [OF assms])
qed

text \<open>A new table.\<close>

lemma fresh_kern:
  "kern (set_fd_ready i b (fd_tables_reset i s)) =
    upd_task i (\<lambda>u. u\<lparr>fd_map := replicate TASK_FD_MAX (-1), fd_flags := replicate TASK_FD_MAX 0,
      socket_map := replicate TASK_FD_MAX (-1), pipe_map := replicate TASK_FD_MAX (-1),
      dir_map := replicate ATM_NATIVE_DIR_MAX 0, fd_table_ready := b\<rparr>) (kern s)"
  by (simp add: set_fd_ready_def fd_tables_reset_def native_dir_task_init_def native_pipe_task_init_def native_socket_task_init_def
      upd_task_upd comp_def)

lemma fresh_fields:
  "fsys (set_fd_ready i b (fd_tables_reset i s)) = fsys s" "slots (set_fd_ready i b (fd_tables_reset i s)) = slots s"
  by (simp_all add: set_fd_ready_def fd_tables_reset_def native_dir_task_init_def native_socket_task_init_def)

lemma held_fresh:
  assumes "length (task_pool k) = TASK_MAX" "\<not> fd_table_ready (task_at k i)" "\<And>t. F (f t) = replicate TASK_FD_MAX (-1)"
  shows "held F (upd_task i f k) = held F k"
proof (cases "i < TASK_MAX")
  case True
  then show ?thesis using assms by (auto simp: held_def fun_eq_iff task_at_upd)
qed (use assms in \<open>simp add: upd_task_def list_update_beyond\<close>)

lemma step_fresh:
  assumes "fd_inv s" "i < TASK_MAX" "\<not> fd_table_ready (task_of s i)"
  shows "step_ok i s (set_fd_ready i True (fd_tables_reset i s))"
    "held F (kern s) (i, n) = None" "fd_table_ready (task_of (set_fd_ready i True (fd_tables_reset i s)) i)"
proof -
  let ?s' = "set_fd_ready i True (fd_tables_reset i s)"
  note f = fd_inv_facts [OF assms(1)]
  show "held F (kern s) (i, n) = None" using assms(3) by (simp add: held_def)
  show "fd_table_ready (task_of ?s' i)" using f(11) assms(2) by (simp add: fresh_kern task_at_upd)
  have h: "held fd_map (kern ?s') = held fd_map (kern s)" "held socket_map (kern ?s') = held socket_map (kern s)"
    "held pipe_map (kern ?s') = held pipe_map (kern s)"
    unfolding fresh_kern by (rule held_fresh [OF f(11) assms(3)]; simp)+
  have "kern_inv (kern ?s')"
  proof (rule kern_inv_held [OF f(1) _ _ _ h(3)])
    show "sched_inv (kern ?s')" unfolding fresh_kern
      by (subst upd_task_fields(2)) (use f(1) in \<open>simp_all add: kern_inv_def\<close>)
    show "pipe_pool (kern ?s') = pipe_pool (kern s)" by (simp add: fresh_kern upd_task_def)
    show "pool_wf (kern ?s')" using f(9) by (simp add: fresh_kern)
    show "length (pipe_map (task_of ?s' j)) = TASK_FD_MAX" if "j < TASK_MAX" for j
      using pipe_map_length [OF f(1) that] f(11) assms(2) by (simp add: fresh_kern task_at_upd)
  qed
  moreover have "tables_wf (kern ?s')"
    using f(2) h(2,3) unfolding fresh_kern
    by (intro tables_wf_upd) (use f(2,11) assms(2) in \<open>simp_all add: tables_wf_def\<close>)
  ultimately show "step_ok i s ?s'" using h by (intro step_kern [OF assms(1)]) (simp_all add: fresh_fields)
qed

lemma ready_fields:
  "cwd (task_of (set_fd_ready i b s) j) = cwd (task_of s j)" "umask_value (task_of (set_fd_ready i b s) j) = umask_value (task_of s j)"
  "current_task (kern (set_fd_ready i b s)) = current_task (kern s)" "bootstrap_cwd (set_fd_ready i b s) = bootstrap_cwd s"
  "bootstrap_umask (set_fd_ready i b s) = bootstrap_umask s"
  by (simp_all add: set_fd_ready_def task_at_upd_field) (simp_all add: upd_kern_def)

lemma open_ready_commute:
  "atm_posix_open path fl m (set_fd_ready i b s) =
    (set_fd_ready i b (fst (atm_posix_open path fl m s)), snd (atm_posix_open path fl m s))"
proof -
  have "posix_abspath (set_fd_ready i b s) path = posix_abspath s path" "posix_umask_slot (set_fd_ready i b s) = posix_umask_slot s"
    by (simp_all add: posix_abspath_def posix_cwd_slot_def posix_umask_slot_def ready_fields split: option.split)
  then show ?thesis
    by (simp add: atm_posix_open_def on_path_def lift_fs_def case_prod_beta Let_def set_fd_ready_def upd_kern_def split: option.split)
qed

lemma ready_set_commute:
  "set_fd_ready i b (set_fd_map i n v s) = set_fd_map i n v (set_fd_ready i b s)"
  "set_fd_ready i b (set_fd_flags i n x s) = set_fd_flags i n x (set_fd_ready i b s)"
proof -
  have "(\<lambda>u :: task. u\<lparr>fd_map := (fd_map u)[n := v], fd_table_ready := b\<rparr>) = (\<lambda>u. u\<lparr>fd_table_ready := b, fd_map := (fd_map u)[n := v]\<rparr>)"
    "(\<lambda>u :: task. u\<lparr>fd_flags := (fd_flags u)[n := x], fd_table_ready := b\<rparr>) = (\<lambda>u. u\<lparr>fd_table_ready := b, fd_flags := (fd_flags u)[n := x]\<rparr>)"
    by (rule ext, simp)+
  then show "set_fd_ready i b (set_fd_map i n v s) = set_fd_map i n v (set_fd_ready i b s)"
    "set_fd_ready i b (set_fd_flags i n x s) = set_fd_flags i n x (set_fd_ready i b s)"
    by (simp_all add: set_fd_ready_def set_fd_map_def set_fd_flags_def upd_kern_def upd_task_upd comp_def)
qed

text \<open>One of the three opens of the console.\<close>

lemma step_console:
  assumes "fd_inv s" "i < TASK_MAX" "fd_table_ready (task_of s i)" "n < TASK_FD_MAX"
    "held socket_map (kern s) (i, n) = None" "held pipe_map (kern s) (i, n) = None" "atm_posix_open path fl m s = (s1, b)"
  shows "step_ok i s (set_fd_map i n b s1)" "fd_table_ready (task_of (set_fd_map i n b s1) i)"
    "held socket_map (kern (set_fd_map i n b s1)) = held socket_map (kern s)"
    "held pipe_map (kern (set_fd_map i n b s1)) = held pipe_map (kern s)"
proof -
  note t = posix_open_taken [OF assms(1,7)]
  have "step_ok i s1 (set_fd_map i n b s1)"
    using t(2-4) assms(2-6) by (intro step_put_fd [OF step_ok_inv [OF t(1)]]) (simp_all add: not_less [symmetric], blast)
  then show "step_ok i s (set_fd_map i n b s1)" by (rule step_ok_trans [OF t(1)])
  show "fd_table_ready (task_of (set_fd_map i n b s1) i)" using assms(3) t(3) by (simp add: set_fd_map_def task_at_upd_field)
qed (use posix_open_taken(3) [OF assms(1,7)] in simp_all)

lemma step_task_init:
  assumes "fd_inv s" "i < TASK_MAX" "\<not> fd_table_ready (task_of s i)"
  shows "step_ok i s (native_fd_task_init (Some i) s)"
proof -
  let ?z = "set_fd_ready i True (fd_tables_reset i s)"
  note z = step_fresh [OF assms]
  have hz: "held socket_map (kern ?z) (i, n) = None" "held pipe_map (kern ?z) (i, n) = None" for n
    using z(2) held_fresh [OF fd_inv_facts(11) [OF assms(1)] assms(3)] by (simp_all add: fresh_kern)
  obtain u1 b0 where u1: "atm_posix_open ''/dev/tty'' O_RDONLY 0 (fd_tables_reset i s) = (u1, b0)" by fastforce
  obtain u2 b1 where u2: "atm_posix_open ''/dev/tty'' O_WRONLY 0 (set_fd_map i 0 b0 u1) = (u2, b1)" by fastforce
  obtain u3 b2 where u3: "atm_posix_open ''/dev/tty'' O_WRONLY 0 (set_fd_map i 1 b1 u2) = (u3, b2)" by fastforce
  define s1 s2 s3 where "s1 = set_fd_ready i True u1" and "s2 = set_fd_ready i True u2" and "s3 = set_fd_ready i True u3"
  note sdefs = this
  have 1: "atm_posix_open ''/dev/tty'' O_RDONLY 0 ?z = (s1, b0)" by (simp add: open_ready_commute u1 sdefs)
  have 2: "atm_posix_open ''/dev/tty'' O_WRONLY 0 (set_fd_map i 0 b0 s1) = (s2, b1)"
    by (simp add: sdefs ready_set_commute [symmetric] open_ready_commute u2)
  have 3: "atm_posix_open ''/dev/tty'' O_WRONLY 0 (set_fd_map i 1 b1 s2) = (s3, b2)"
    using u3 by (simp add: sdefs ready_set_commute [symmetric] open_ready_commute)
  have m: "0 < TASK_FD_MAX" "1 < TASK_FD_MAX" "2 < TASK_FD_MAX" by (simp_all add: TASK_FD_MAX_def)
  note c1 = step_console [OF step_ok_inv [OF z(1)] assms(2) z(3) m(1) hz 1]
  have "held socket_map (kern (set_fd_map i 0 b0 s1)) (i, 1) = None" "held pipe_map (kern (set_fd_map i 0 b0 s1)) (i, 1) = None"
    using hz c1(3,4) by simp_all
  note c2 = step_console [OF step_ok_inv [OF c1(1)] assms(2) c1(2) m(2) this 2]
  have "held socket_map (kern (set_fd_map i 1 b1 s2)) (i, 2) = None" "held pipe_map (kern (set_fd_map i 1 b1 s2)) (i, 2) = None"
    using hz c1(3,4) c2(3,4) by simp_all
  note c3 = step_console [OF step_ok_inv [OF c2(1)] assms(2) c2(2) m(3) this 3]
  let ?r = "set_fd_flags i 2 O_WRONLY (set_fd_flags i 1 O_WRONLY (set_fd_flags i 0 O_RDONLY (set_fd_map i 2 b2 s3)))"
  have "native_fd_task_init (Some i) s = ?r"
    using u1 u2 u3 by (simp add: native_fd_task_init_def ready_set_commute sdefs)
  moreover have "step_ok i s (set_fd_map i 2 b2 s3)"
    by (rule step_ok_trans [OF z(1) step_ok_trans [OF c1(1) step_ok_trans [OF c2(1) c3(1)]]])
  then have "step_ok i s ?r" using step_ok_trans step_fd_flags step_ok_inv by metis
  ultimately show ?thesis by simp
qed

text \<open>A table without the entries of task \<open>i\<close> at the numbers in \<open>X\<close>.\<close>

definition without :: "nat \<Rightarrow> nat set \<Rightarrow> (nat \<times> nat \<Rightarrow> nat option) \<Rightarrow> nat \<times> nat \<Rightarrow> nat option" where
  "without i X m = (\<lambda>(j, n). if j = i \<and> n \<in> X then None else m (j, n))"

lemma without_simps [simp]:
  "without i {} m = m" "without i X (without i Y m) = without i (Y \<union> X) m" "m((i, n) := None) = without i {n} m"
  by (auto simp: without_def fun_eq_iff)

lemma without_same: "m (i, n) = None \<Longrightarrow> without i {n} m = m"
  by (auto simp: without_def fun_eq_iff)

text \<open>The pipes of a task are closed.\<close>

lemma pipe_cleanup_fold:
  assumes "kern_inv k" "i < TASK_MAX" "fd_table_ready (task_at k i)" "set fds \<subseteq> {3 ..< TASK_FD_MAX}"
  shows "let k' = fold (\<lambda>fd s. if pipe_map (task_at s i) ! fd \<ge> 0 then fst (native_pipe_close (Some i) (int fd) s) else s) fds k
    in kern_inv k' \<and> pipe_only i k k' \<and> held pipe_map k' = without i (set fds) (held pipe_map k)"
  using assms
proof (induction fds arbitrary: k)
  case (Cons fd fds)
  define k1 where "k1 = (if pipe_map (task_at k i) ! fd \<ge> 0 then fst (native_pipe_close (Some i) (int fd) k) else k)"
  have fd: "3 \<le> fd" "fd < TASK_FD_MAX" using Cons.prems(4) by auto
  have one: "kern_inv k1 \<and> pipe_only i k k1 \<and> held pipe_map k1 = without i {fd} (held pipe_map k)"
  proof (cases "pipe_map (task_at k i) ! fd \<ge> 0")
    case True
    obtain p e where "pipe_decode (Some i) (int fd) k = Some (p, e)"
      using pipe_decode_valid [OF _ Cons.prems(2,3) fd True] Cons.prems(1) by (auto simp: kern_inv_def)
    then show ?thesis
      using True pipe_close_only [OF Cons.prems(1,2), of "int fd"] kern_inv_close [OF Cons.prems(1,2)] by (simp add: k1_def)
  next
    case False
    then have "held pipe_map k (i, fd) = None" by (simp add: held_def)
    then show ?thesis using False Cons.prems(1) by (simp add: k1_def without_same)
  qed
  moreover have "fd_table_ready (task_at k1 i)" using one Cons.prems(2,3) by (auto simp: pipe_only_def)
  ultimately show ?case using Cons.IH [of k1] Cons.prems(2,4)
    by (auto simp: Let_def k1_def [symmetric] intro: pipe_only_trans)
qed simp

lemma held_range:
  assumes "tables_wf k" "F \<in> {socket_map, pipe_map}" "held F k (i, n) \<noteq> None"
  shows "3 \<le> n \<and> n < TASK_FD_MAX"
proof -
  have "\<not> n < 3" using assms unfolding tables_wf_def by auto
  moreover have "n < TASK_FD_MAX" using assms(3) by (auto simp: held_def split: if_splits)
  ultimately show ?thesis by simp
qed

lemma held_outside:
  assumes "tables_wf k" "F \<in> {socket_map, pipe_map}"
  shows "without i {3 ..< TASK_FD_MAX} (held F k) = without i UNIV (held F k)"
  using held_range [OF assms, of i] unfolding without_def fun_eq_iff by fastforce

lemma step_pipe_cleanup:
  assumes "fd_inv s" "i < TASK_MAX" "fd_table_ready (task_of s i)"
  shows "step_ok i s (upd_kern (native_pipe_task_cleanup (Some i)) s)"
    "held pipe_map (native_pipe_task_cleanup (Some i) (kern s)) = without i UNIV (held pipe_map (kern s))"
    "held fd_map (native_pipe_task_cleanup (Some i) (kern s)) = held fd_map (kern s)"
    "held socket_map (native_pipe_task_cleanup (Some i) (kern s)) = held socket_map (kern s)"
    "fd_table_ready (task_at (native_pipe_task_cleanup (Some i) (kern s)) i)"
proof -
  note f = fd_inv_facts [OF assms(1)]
  have c: "kern_inv (native_pipe_task_cleanup (Some i) (kern s))" "pipe_only i (kern s) (native_pipe_task_cleanup (Some i) (kern s))"
    "held pipe_map (native_pipe_task_cleanup (Some i) (kern s)) = without i {3 ..< TASK_FD_MAX} (held pipe_map (kern s))"
    using pipe_cleanup_fold [OF f(1) assms(2,3), of "[3 ..< TASK_FD_MAX]"] by (simp_all add: native_pipe_task_cleanup_def Let_def)
  show "step_ok i s (upd_kern (native_pipe_task_cleanup (Some i)) s)"
    using c by (intro step_pipe [OF assms(1,2)]) simp_all
  show "held pipe_map (native_pipe_task_cleanup (Some i) (kern s)) = without i UNIV (held pipe_map (kern s))"
    using c(3) held_outside [OF f(2)] by simp
  show "held fd_map (native_pipe_task_cleanup (Some i) (kern s)) = held fd_map (kern s)"
    "held socket_map (native_pipe_task_cleanup (Some i) (kern s)) = held socket_map (kern s)"
    using pipe_only_held [OF c(2)] by simp_all
  show "fd_table_ready (task_at (native_pipe_task_cleanup (Some i) (kern s)) i)" using c(2) assms(2,3) by (simp add: pipe_only_def)
qed

text \<open>The sockets of a task are closed.\<close>

lemma socket_cleanup_fold:
  assumes "fd_inv s" "i < TASK_MAX" "fd_table_ready (task_of s i)" "set fds \<subseteq> {3 ..< TASK_FD_MAX}"
  shows "let s' = fold (\<lambda>fd s. if socket_map (task_of s i) ! fd \<ge> 0 then fst (native_socket_close E (Some i) (int fd) s) else s) fds s
    in step_ok i s s' \<and> fd_table_ready (task_of s' i) \<and> fsys s' = fsys s \<and> held fd_map (kern s') = held fd_map (kern s) \<and>
       held pipe_map (kern s') = held pipe_map (kern s) \<and> held socket_map (kern s') = without i (set fds) (held socket_map (kern s)) \<and>
       open_slots s' = open_slots s - {k. \<exists>n \<in> set fds. held socket_map (kern s) (i, n) = Some k}"
  using assms
proof (induction fds arbitrary: s)
  case Nil
  then show ?case by (simp add: step_ok_refl Let_def)
next
  case (Cons fd fds)
  note f = fd_inv_facts [OF Cons.prems(1)]
  have fd: "3 \<le> fd" "fd < TASK_FD_MAX" using Cons.prems(4) by auto
  define s1 where "s1 = (if socket_map (task_of s i) ! fd \<ge> 0 then fst (native_socket_close E (Some i) (int fd) s) else s)"
  have one: "step_ok i s s1 \<and> fd_table_ready (task_of s1 i) \<and> fsys s1 = fsys s \<and> held fd_map (kern s1) = held fd_map (kern s) \<and>
      held pipe_map (kern s1) = held pipe_map (kern s) \<and> held socket_map (kern s1) = without i {fd} (held socket_map (kern s)) \<and>
      open_slots s1 = open_slots s - {k. held socket_map (kern s) (i, fd) = Some k}"
  proof (cases "socket_map (task_of s i) ! fd \<ge> 0")
    case True
    define k where "k = nat (socket_map (task_of s i) ! fd)"
    have h: "held socket_map (kern s) (i, fd) = Some k" using True Cons.prems(2,3) fd by (simp add: held_Some k_def)
    then have sf: "slot_for (Some i) (int fd) s = Some k" using slot_for_held [OF Cons.prems(1,2)] by simp
    have kb: "k < length (slots s)" using owned_live [OF f(7) h] f(5) by (simp add: open_slots_def)
    have kn: "kern s1 = kern (set_socket_map i fd (-1) s)" using True socket_close_kern [OF sf] by (simp add: s1_def)
    have sl: "slots s1 = (slots s)[k := zero_slot]" "fsys s1 = fsys s"
      using True sf by (simp_all add: s1_def native_socket_close_def case_prod_beta upd_slot_def set_socket_map_def)
    have "open_slots s1 = open_slots s - {k}" using kb by (auto simp: open_slots_def sl nth_update_if zero_slot_def split: if_splits)
    moreover have "step_ok i s s1" using True step_socket_close [OF Cons.prems(1,2)] by (simp add: s1_def)
    moreover have "fd_table_ready (task_of s1 i)" unfolding kn using Cons.prems(3) by (simp add: set_socket_map_def task_at_upd_field)
    ultimately show ?thesis using sl(2) h set_socket_map_wf(1) [OF Cons.prems(1,2) fd(2,1) Cons.prems(3), of "-1"] by (simp add: kn)
  next
    case False
    then have "held socket_map (kern s) (i, fd) = None" by (simp add: held_def)
    then show ?thesis using False Cons.prems(1,3) by (simp add: s1_def without_same step_ok_refl)
  qed
  have st: "step_ok i s s1" using one by blast
  define s2 where "s2 = fold (\<lambda>fd s. if socket_map (task_of s i) ! fd \<ge> 0 then fst (native_socket_close E (Some i) (int fd) s) else s) fds s1"
  have "step_ok i s1 s2 \<and> fd_table_ready (task_of s2 i) \<and> fsys s2 = fsys s1 \<and> held fd_map (kern s2) = held fd_map (kern s1) \<and>
      held pipe_map (kern s2) = held pipe_map (kern s1) \<and> held socket_map (kern s2) = without i (set fds) (held socket_map (kern s1)) \<and>
      open_slots s2 = open_slots s1 - {k. \<exists>n \<in> set fds. held socket_map (kern s1) (i, n) = Some k}"
    using Cons.IH [of s1] step_ok_inv [OF st] one Cons.prems(2,4) by (simp add: Let_def s2_def)
  note two = this
  have "open_slots s2 = open_slots s - {k. \<exists>n \<in> set (fd # fds). held socket_map (kern s) (i, n) = Some k}"
    using one two by (auto simp: without_def)
  then have "step_ok i s s2 \<and> fd_table_ready (task_of s2 i) \<and> fsys s2 = fsys s \<and> held fd_map (kern s2) = held fd_map (kern s) \<and>
       held pipe_map (kern s2) = held pipe_map (kern s) \<and> held socket_map (kern s2) = without i (set (fd # fds)) (held socket_map (kern s)) \<and>
       open_slots s2 = open_slots s - {k. \<exists>n \<in> set (fd # fds). held socket_map (kern s) (i, n) = Some k}"
    using one two step_ok_trans by auto
  then show ?case by (simp add: Let_def s1_def s2_def)
qed

lemma step_socket_cleanup:
  assumes "fd_inv s" "i < TASK_MAX" "fd_table_ready (task_of s i)"
  shows "step_ok i s (native_socket_task_cleanup E (Some i) s)"
    "fd_table_ready (task_of (native_socket_task_cleanup E (Some i) s) i)" "fsys (native_socket_task_cleanup E (Some i) s) = fsys s"
    "held fd_map (kern (native_socket_task_cleanup E (Some i) s)) = held fd_map (kern s)"
    "held pipe_map (kern (native_socket_task_cleanup E (Some i) s)) = held pipe_map (kern s)"
    "held socket_map (kern (native_socket_task_cleanup E (Some i) s)) = without i UNIV (held socket_map (kern s))"
    "open_slots (native_socket_task_cleanup E (Some i) s) = open_slots s - {k. \<exists>n. held socket_map (kern s) (i, n) = Some k}"
proof -
  have w: "without i {3 ..< TASK_FD_MAX} (held socket_map (kern s)) = without i UNIV (held socket_map (kern s))"
    using held_outside [OF fd_inv_facts(2) [OF assms(1)]] by simp
  have "(\<exists>n \<in> {3 ..< TASK_FD_MAX}. held socket_map (kern s) (i, n) = Some k) \<longleftrightarrow> (\<exists>n. held socket_map (kern s) (i, n) = Some k)" for k
    using held_range [OF fd_inv_facts(2) [OF assms(1)], of socket_map i] by fastforce
  with w socket_cleanup_fold [OF assms, of "[3 ..< TASK_FD_MAX]" E]
  show "step_ok i s (native_socket_task_cleanup E (Some i) s)"
    "fd_table_ready (task_of (native_socket_task_cleanup E (Some i) s) i)" "fsys (native_socket_task_cleanup E (Some i) s) = fsys s"
    "held fd_map (kern (native_socket_task_cleanup E (Some i) s)) = held fd_map (kern s)"
    "held pipe_map (kern (native_socket_task_cleanup E (Some i) s)) = held pipe_map (kern s)"
    "held socket_map (kern (native_socket_task_cleanup E (Some i) s)) = without i UNIV (held socket_map (kern s))"
    "open_slots (native_socket_task_cleanup E (Some i) s) = open_slots s - {k. \<exists>n. held socket_map (kern s) (i, n) = Some k}"
    by (simp_all add: native_socket_task_cleanup_def Let_def)
qed

text \<open>The VFS descriptors of a task are closed.\<close>

lemma fd_release_step:
  assumes "fd_inv s" "i < TASK_MAX" "fd_table_ready (task_of s i)" "n < TASK_FD_MAX"
  shows "step_ok i s (fd_release i n s)" "fd_table_ready (task_of (fd_release i n s) i)" "slots (fd_release i n s) = slots s"
    "held socket_map (kern (fd_release i n s)) = held socket_map (kern s)" "held pipe_map (kern (fd_release i n s)) = held pipe_map (kern s)"
    "held fd_map (kern (fd_release i n s)) = without i {n} (held fd_map (kern s))"
    "open_files (fsys (fd_release i n s)) = open_files (fsys s) - {k. held fd_map (kern s) (i, n) = Some k}"
proof -
  define b where "b = fd_map (task_of s i) ! n"
  let ?s1 = "set_fd_map i n (-1) (if b \<ge> 0 then fst (atm_posix_close b s) else s)"
  have e: "fd_release i n s = set_fd_flags i n 0 ?s1" by (simp add: fd_release_def b_def Let_def)
  have k: "kern ?s1 = kern (set_fd_map i n (-1) s)" by (simp add: set_fd_map_def)
  have "step_ok i s ?s1"
  proof (cases "b \<ge> 0")
    case True
    then have "held fd_map (kern s) (i, n) = Some (nat b)" using assms by (simp add: held_Some b_def)
    from step_release [OF assms(1,2) this] True show ?thesis by simp
  qed (simp add: step_clear_fd(1) [OF assms(1,2,4,3)])
  then show "step_ok i s (fd_release i n s)" unfolding e using step_ok_trans step_fd_flags step_ok_inv by blast
  show "fd_table_ready (task_of (fd_release i n s) i)" using assms(3) unfolding e
    by (simp add: set_fd_flags_def task_at_upd_field k set_fd_map_def)
  show "slots (fd_release i n s) = slots s" "held socket_map (kern (fd_release i n s)) = held socket_map (kern s)"
    "held pipe_map (kern (fd_release i n s)) = held pipe_map (kern s)"
    unfolding e by (simp_all add: k)
  show "held fd_map (kern (fd_release i n s)) = without i {n} (held fd_map (kern s))"
    unfolding e using set_fd_map_wf(1) [OF assms(1,2,4,3), of "-1"] by (simp add: k)
  show "open_files (fsys (fd_release i n s)) = open_files (fsys s) - {k. held fd_map (kern s) (i, n) = Some k}"
  proof (cases "b \<ge> 0")
    case True
    then have h: "held fd_map (kern s) (i, n) = Some (nat b)" using assms by (simp add: held_Some b_def)
    then have "nat b \<in> open_files (fsys s)" using owned_live [OF fd_inv_facts(6) [OF assms(1)]] by blast
    then have "g_fds (fsys ?s1) = (g_fds (fsys s))[nat b := zero_fd]"
      using True by (auto simp: atm_posix_close_def vfs_close_fds open_files_def fd_ok_def)
    then show ?thesis unfolding e using h fd_inv_facts(4) [OF assms(1)]
      by (auto simp: open_files_def nth_update_if zero_fd_def split: if_splits)
  next
    case False
    then have "held fd_map (kern s) (i, n) = None" by (simp add: held_def b_def)
    then show ?thesis unfolding e using False by simp
  qed
qed

lemma fd_release_fold:
  assumes "fd_inv s" "i < TASK_MAX" "fd_table_ready (task_of s i)" "set ns \<subseteq> {..< TASK_FD_MAX}"
  shows "let s' = fold (fd_release i) ns s
    in step_ok i s s' \<and> fd_table_ready (task_of s' i) \<and> slots s' = slots s \<and> held socket_map (kern s') = held socket_map (kern s) \<and>
       held pipe_map (kern s') = held pipe_map (kern s) \<and> held fd_map (kern s') = without i (set ns) (held fd_map (kern s)) \<and>
       open_files (fsys s') = open_files (fsys s) - {k. \<exists>n \<in> set ns. held fd_map (kern s) (i, n) = Some k}"
  using assms
proof (induction ns arbitrary: s)
  case Nil
  then show ?case by (simp add: step_ok_refl Let_def)
next
  case (Cons n ns)
  have n: "n < TASK_FD_MAX" using Cons.prems(4) by simp
  note one = fd_release_step [OF Cons.prems(1-3) n]
  define s1 s2 where "s1 = fd_release i n s" and "s2 = fold (fd_release i) ns s1"
  note one' = one [folded s1_def]
  have two: "step_ok i s1 s2 \<and> fd_table_ready (task_of s2 i) \<and> slots s2 = slots s1 \<and> held socket_map (kern s2) = held socket_map (kern s1) \<and>
       held pipe_map (kern s2) = held pipe_map (kern s1) \<and> held fd_map (kern s2) = without i (set ns) (held fd_map (kern s1)) \<and>
       open_files (fsys s2) = open_files (fsys s1) - {k. \<exists>m \<in> set ns. held fd_map (kern s1) (i, m) = Some k}"
    using Cons.IH [OF step_ok_inv [OF one'(1)] Cons.prems(2) one'(2)] Cons.prems(4) by (simp add: Let_def s2_def)
  have "open_files (fsys s2) = open_files (fsys s) - {k. \<exists>m \<in> set (n # ns). held fd_map (kern s) (i, m) = Some k}"
    using one' two by (auto simp: without_def)
  moreover have "step_ok i s s2" using step_ok_trans [OF one'(1)] two by blast
  ultimately show ?case using one' two by (simp add: Let_def s1_def [symmetric] s2_def [symmetric])
qed

text \<open>The table is given up.\<close>

lemma held_unready:
  assumes "length (task_pool (kern s)) = TASK_MAX" "i < TASK_MAX" "F \<in> {fd_map, socket_map, pipe_map}"
  shows "held F (kern (set_fd_ready i False s)) = without i UNIV (held F (kern s))"
  using assms by (auto simp: held_def without_def fun_eq_iff set_fd_ready_def task_at_upd)

lemma owned_without: "owned m L \<Longrightarrow> owned (without i X m) L"
  by (erule owned_sub) (auto simp: without_def split: if_splits)

lemma step_unready:
  assumes "fd_inv s" "i < TASK_MAX" "without i UNIV (held pipe_map (kern s)) = held pipe_map (kern s)"
  shows "step_ok i s (set_fd_ready i False s)"
proof -
  let ?s' = "set_fd_ready i False s"
  note f = fd_inv_facts [OF assms(1)]
  note h = held_unready [OF f(11) assms(2)]
  have sf: "fsys ?s' = fsys s" "slots ?s' = slots s" by (simp_all add: set_fd_ready_def)
  have k: "kern ?s' = upd_task i (\<lambda>u. u\<lparr>fd_table_ready := False\<rparr>) (kern s)" by (simp add: set_fd_ready_def)
  have "kern_inv (kern ?s')"
  proof (rule kern_inv_held [OF f(1)])
    show "sched_inv (kern ?s')" unfolding k by (subst upd_task_fields(2)) (use f(1) in \<open>simp_all add: kern_inv_def\<close>)
    show "pipe_pool (kern ?s') = pipe_pool (kern s)" by (simp add: k upd_task_def)
    show "length (pipe_map (task_of ?s' j)) = TASK_FD_MAX" if "j < TASK_MAX" for j
      using pipe_map_length [OF f(1) that] by (simp add: k task_at_upd_field)
  qed (use f(9) h assms(3) in \<open>simp_all add: k\<close>)
  moreover have "tables_wf (kern ?s')"
    using f(2) h by (auto simp: tables_wf_def without_def k task_at_upd_field)
  moreover have "exclusive (kern ?s')"
    using f(3) unfolding exclusive_def by (auto simp: h without_def)
  moreover have "sowner (slots s ! m) = Some j" if "held socket_map (kern ?s') (j, n) = Some m" for j n m
    using that f(8) by (auto simp: h without_def split: if_splits)
  ultimately show ?thesis using assms(1) owned_without h
    by (simp add: step_ok_def others_keep_def fd_inv_def open_slots_def sf) (simp add: without_def)
qed

lemma cleanup_state:
  assumes "fd_inv s" "i < TASK_MAX" "fd_table_ready (task_of s i)"
  shows "step_ok i s (native_fd_task_cleanup E (Some i) s)"
    "held F (kern (native_fd_task_cleanup E (Some i) s)) (i, n) = None"
    "open_files (fsys (native_fd_task_cleanup E (Some i) s)) = open_files (fsys s) - {k. \<exists>n. held fd_map (kern s) (i, n) = Some k}"
    "open_slots (native_fd_task_cleanup E (Some i) s) = open_slots s - {k. \<exists>n. held socket_map (kern s) (i, n) = Some k}"
    "\<not> fd_table_ready (task_of (native_fd_task_cleanup E (Some i) s) i)"
proof -
  define s1 where "s1 = native_dir_task_cleanup (Some i) s"
  have d: "fsys z' = fsys z \<and> slots z' = slots z \<and> fd_table_ready (task_of z' i) = fd_table_ready (task_of z i) \<and>
      held fd_map (kern z') = held fd_map (kern z) \<and> held socket_map (kern z') = held socket_map (kern z)"
    if "z' = fold (\<lambda>h s. let a = dir_map (task_of s i) ! h in if a \<noteq> 0 then set_dir_map i h 0 (fst (atm_posix_closedir a s)) else s) hs z"
    for hs z and z' :: "'a fdsys_scheme"
    unfolding that
  proof (induction hs arbitrary: z)
    case (Cons h hs)
    show ?case unfolding fold.simps comp_def using Cons.IH
      by (simp add: Let_def set_dir_map_def atm_posix_closedir_def held_upd_same task_at_upd_field)
  qed simp
  have s1: "step_ok i s s1" unfolding s1_def by (rule step_dir_calls(3) [OF assms(1)])
  have f1: "fsys s1 = fsys s" "slots s1 = slots s" "fd_table_ready (task_of s1 i)" "held fd_map (kern s1) = held fd_map (kern s)"
    "held socket_map (kern s1) = held socket_map (kern s)"
    using d [of s1 "[0 ..< ATM_NATIVE_DIR_MAX]" s] assms(3) by (simp_all add: s1_def native_dir_task_cleanup_def)
  define s2 where "s2 = upd_kern (native_pipe_task_cleanup (Some i)) s1"
  note c2 = step_pipe_cleanup [OF step_ok_inv [OF s1] assms(2) f1(3), folded s2_def]
  have k2: "kern s2 = native_pipe_task_cleanup (Some i) (kern s1)" "fsys s2 = fsys s" "slots s2 = slots s" by (simp_all add: s2_def f1)
  note c2' = c2 [folded k2(1)]
  define s3 where "s3 = native_socket_task_cleanup E (Some i) s2"
  note c3 = step_socket_cleanup [OF step_ok_inv [OF c2(1)] assms(2) c2'(5), of E, folded s3_def]
  define s4 where "s4 = fold (fd_release i) [0 ..< TASK_FD_MAX] s3"
  have c4: "step_ok i s3 s4" "fd_table_ready (task_of s4 i)" "slots s4 = slots s3" "held socket_map (kern s4) = held socket_map (kern s3)"
    "held pipe_map (kern s4) = held pipe_map (kern s3)"
    "open_files (fsys s4) = open_files (fsys s3) - {k. \<exists>n \<in> {0 ..< TASK_FD_MAX}. held fd_map (kern s3) (i, n) = Some k}"
    using fd_release_fold [OF step_ok_inv [OF c3(1)] assms(2) c3(2), of "[0 ..< TASK_FD_MAX]"]
    by (simp_all add: Let_def s4_def atLeast0LessThan)
  have e: "native_fd_task_cleanup E (Some i) s = fd_exec_drop (Some i) (set_fd_ready i False s4)"
    using assms(3) by (simp add: native_fd_task_cleanup_def Let_def s4_def s3_def s2_def s1_def)
  have t4: "step_ok i s s4" by (rule step_ok_trans [OF s1 step_ok_trans [OF c2(1) step_ok_trans [OF c3(1) c4(1)]]])
  have "without i UNIV (held pipe_map (kern s4)) = held pipe_map (kern s4)" unfolding c4(5) c3(5) c2'(2) by simp
  note s5 = step_unready [OF step_ok_inv [OF t4] assms(2) this]
  have "step_ok i (set_fd_ready i False s4) (native_fd_task_cleanup E (Some i) s)"
    unfolding e by (rule step_same [OF step_ok_inv [OF s5]]) simp_all
  then show "step_ok i s (native_fd_task_cleanup E (Some i) s)" by (rule step_ok_trans [OF step_ok_trans [OF t4 s5]])
  have l4: "i < length (task_pool (kern s4))" using fd_inv_facts(11) [OF step_ok_inv [OF t4]] assms(2) by simp
  then show nr: "\<not> fd_table_ready (task_of (native_fd_task_cleanup E (Some i) s) i)" by (simp add: e set_fd_ready_def task_at_upd)
  then show "held F (kern (native_fd_task_cleanup E (Some i) s)) (i, n) = None" by (simp add: held_def)
  have "(\<exists>n \<in> {0 ..< TASK_FD_MAX}. held fd_map (kern s) (i, n) = Some k) \<longleftrightarrow> (\<exists>n. held fd_map (kern s) (i, n) = Some k)" for k
    by (auto simp: held_Some)
  then show "open_files (fsys (native_fd_task_cleanup E (Some i) s)) = open_files (fsys s) - {k. \<exists>n. held fd_map (kern s) (i, n) = Some k}"
    unfolding e using c4(6) by (simp add: set_fd_ready_def c3(3,4) k2(2) c2'(3) f1(4))
  have "open_slots (native_fd_task_cleanup E (Some i) s) = open_slots s3"
    unfolding e using c4(3) by (simp add: set_fd_ready_def open_slots_def)
  then show "open_slots (native_fd_task_cleanup E (Some i) s) = open_slots s - {k. \<exists>n. held socket_map (kern s) (i, n) = Some k}"
    using c3(7) by (simp add: c2'(4) f1(5) open_slots_def k2(3))
qed

lemma step_task_cleanup:
  assumes "fd_inv s" "i < TASK_MAX"
  shows "step_ok i s (native_fd_task_cleanup E (Some i) s)"
proof (cases "fd_table_ready (task_of s i)")
  case True
  then show ?thesis by (rule cleanup_state(1) [OF assms])
qed (use assms(1) in \<open>simp add: native_fd_task_cleanup_def step_ok_refl\<close>)

text \<open>A child takes over the table of its parent, number by number.\<close>

definition vacant :: "nat \<Rightarrow> nat \<Rightarrow> 'a fdsys_scheme \<Rightarrow> bool" where
  "vacant c n s \<longleftrightarrow> held fd_map (kern s) (c, n) = None \<and> held socket_map (kern s) (c, n) = None \<and> held pipe_map (kern s) (c, n) = None"

lemma inherit_held:
  assumes "length (task_pool k) = TASK_MAX" "(j, m) \<noteq> (c, nat fd)"
  shows "held pipe_map (fst (native_pipe_inherit (Some c) (Some p) fd k)) (j, m) = held pipe_map k (j, m)"
proof -
  have "held pipe_map (set_pipe_map c fd v (add_pipe_ref x e k)) (j, m) = held pipe_map k (j, m)" for v x e
  proof (cases "c < TASK_MAX")
    case True
    then show ?thesis using assms by (auto simp: held_def set_pipe_map_def task_at_upd add_pipe_ref_def upd_pipe_def nth_update_if)
  next
    case False
    then have "task_pool (set_pipe_map c fd v (add_pipe_ref x e k)) = task_pool k"
      using assms(1) by (simp add: set_pipe_map_def upd_task_def add_pipe_ref_def upd_pipe_def list_update_beyond)
    then show ?thesis by (simp add: held_def)
  qed
  then show ?thesis by (simp add: native_pipe_inherit_def split: option.split)
qed

lemma inherit_one:
  fixes s :: "'a fdsys_scheme"
  assumes "fd_inv s" "c < TASK_MAX" "p < TASK_MAX" "fd < TASK_FD_MAX" "fd_table_ready (task_of s c)" "vacant c fd s"
  shows "step_ok c s (fst (fd_inherit_one c p fd s)) \<and> fd_table_ready (task_of (fst (fd_inherit_one c p fd s)) c) \<and>
    (\<forall>m. m \<noteq> fd \<longrightarrow> vacant c m s \<longrightarrow> vacant c m (fst (fd_inherit_one c p fd s)))"
proof -
  note f = fd_inv_facts [OF assms(1)]
  define copy :: "'a fdsys_scheme \<Rightarrow> 'a fdsys_scheme" where "copy = (\<lambda>z. fst (fd_exec_set (Some c) (int fd) (fd_exec_get (Some p) (int fd) z)
    (set_fd_flags c fd (fd_flags (task_of z p) ! fd) z)))"
  have cp: "step_ok c s (copy z)" "fd_table_ready (task_of (copy z) c) = fd_table_ready (task_of z c)"
    "vacant c m (copy z) = vacant c m z" if "step_ok c s z" for z m
  proof -
    show "step_ok c s (copy z)" unfolding copy_def using that step_ok_trans step_fd_flags step_exec step_ok_inv by metis
    show "fd_table_ready (task_of (copy z) c) = fd_table_ready (task_of z c)"
      by (simp add: copy_def set_fd_flags_def task_at_upd_field)
    show "vacant c m (copy z) = vacant c m z" by (simp add: copy_def vacant_def)
  qed
  consider (sock) "socket_map (task_of s p) ! fd \<ge> 0"
    | (backed) "\<not> socket_map (task_of s p) ! fd \<ge> 0" "fd_map (task_of s p) ! fd \<ge> 0"
    | (pipe) "\<not> socket_map (task_of s p) ! fd \<ge> 0" "\<not> fd_map (task_of s p) ! fd \<ge> 0" "pipe_map (task_of s p) ! fd \<ge> 0"
    | (none) "\<not> socket_map (task_of s p) ! fd \<ge> 0" "\<not> fd_map (task_of s p) ! fd \<ge> 0" "\<not> pipe_map (task_of s p) ! fd \<ge> 0"
    by blast
  then show ?thesis
  proof cases
    case backed
    obtain s1 b where d: "atm_posix_dup (fd_map (task_of s p) ! fd) s = (s1, b)" by fastforce
    note t = posix_dup_taken [OF assms(1) d]
    show ?thesis
    proof (cases "b < 0")
      case True
      then show ?thesis using backed d t(1,3) assms(5) by (simp add: fd_inherit_one_def vacant_def)
    next
      case False
      have r: "fd_table_ready (task_of s1 c)" "b < 0 \<or> free_backend b s1" "held socket_map (kern s1) (c, fd) = None"
        "held pipe_map (kern s1) (c, fd) = None" using t False assms(5,6) by (auto simp: vacant_def)
      note put = step_put_fd [OF step_ok_inv [OF t(1)] assms(2,4) r]
      have z: "step_ok c s (set_fd_map c fd b s1)" by (rule step_ok_trans [OF t(1) put])
      have "vacant c m (set_fd_map c fd b s1)" if "m \<noteq> fd" "vacant c m s" for m
        using that t(3) set_fd_map_wf(1) [OF step_ok_inv [OF t(1)] assms(2,4) r(1), of b] by (simp add: vacant_def)
      moreover have "fd_table_ready (task_of (set_fd_map c fd b s1) c)" using r(1) by (simp add: set_fd_map_def task_at_upd_field)
      ultimately show ?thesis using cp [OF z] backed d False
        by (simp add: fd_inherit_one_def Let_def copy_def [symmetric])
    qed
  next
    case pipe
    obtain s1 rc where d: "lift_kern (native_pipe_inherit (Some c) (Some p) (int fd)) s = (s1, rc)" by fastforce
    have k1: "kern s1 = fst (native_pipe_inherit (Some c) (Some p) (int fd) (kern s))" "fsys s1 = fsys s" "slots s1 = slots s"
      using d by (auto simp: lift_kern_def case_prod_beta Let_def)
    have po: "pipe_only c (kern s) (kern s1)" unfolding k1 by (rule pipe_dup_only(2) [OF f(1) assms(2)])
    have s1: "step_ok c s s1"
      using po kern_inv_inherit [OF f(1) assms(2,3,5)] k1 by (intro step_pipe [OF assms(1,2)]) simp_all
    have v: "vacant c m s1" if "m \<noteq> fd" "vacant c m s" for m
      using that inherit_held [OF f(11), of c m c "int fd" p] pipe_only_held [OF po] by (simp add: vacant_def k1(1))
    have r: "fd_table_ready (task_of s1 c)" using po assms(2,5) by (simp add: pipe_only_def)
    show ?thesis using pipe d s1 v r cp [OF s1] by (simp add: fd_inherit_one_def Let_def copy_def [symmetric])
  qed (use assms in \<open>simp_all add: fd_inherit_one_def step_ok_refl\<close>)
qed

lemma inherit_loop:
  assumes "fd_inv s" "c < TASK_MAX" "p < TASK_MAX" "set fds \<subseteq> {..< TASK_FD_MAX}" "distinct fds" "fd_table_ready (task_of s c)"
    "\<forall>m \<in> set fds. vacant c m s"
  shows "step_ok c s (fst (fd_inherit_loop c p fds s))"
  using assms
proof (induction fds arbitrary: s)
  case (Cons fd fds)
  obtain s1 ok where o: "fd_inherit_one c p fd s = (s1, ok)" by fastforce
  have "step_ok c s s1 \<and> fd_table_ready (task_of s1 c) \<and> (\<forall>m. m \<noteq> fd \<longrightarrow> vacant c m s \<longrightarrow> vacant c m s1)"
    using inherit_one [OF Cons.prems(1-3) _ Cons.prems(6), of fd] Cons.prems(4,7) o by simp
  then have 1: "step_ok c s s1" "fd_table_ready (task_of s1 c)" "\<forall>m \<in> set fds. vacant c m s1"
    using Cons.prems(5,7) by auto
  have "step_ok c s1 (fst (fd_inherit_loop c p fds s1))"
    using Cons.IH [OF step_ok_inv [OF 1(1)] Cons.prems(2,3) _ _ 1(2,3)] Cons.prems(4,5) by simp
  then show ?case using o 1(1) step_ok_trans [OF 1(1)] by simp
qed (simp add: step_ok_refl)

lemma step_task_inherit:
  assumes "fd_inv s" "c < TASK_MAX" "p < TASK_MAX" "\<not> fd_table_ready (task_of s c)"
  shows "step_ok c s (fst (native_fd_task_inherit E (Some c) (Some p) s))"
proof (cases "fd_table_ready (task_of s p)")
  case True
  let ?z = "set_fd_ready c True (fd_tables_reset c s)"
  note z = step_fresh [OF assms(1,2,4)]
  have "vacant c m ?z" for m
    using z(2) held_fresh [OF fd_inv_facts(11) [OF assms(1)] assms(4)] by (simp add: vacant_def fresh_kern)
  then have l: "step_ok c ?z (fst (fd_inherit_loop c p [0 ..< TASK_FD_MAX] ?z))"
    by (intro inherit_loop [OF step_ok_inv [OF z(1)] assms(2,3) _ _ z(3)]) auto
  obtain s2 ok where s2: "(if \<exists>h < ATM_NATIVE_DIR_MAX. dir_map (task_of ?z p) ! h \<noteq> 0 then (?z, False)
      else fd_inherit_loop c p [0 ..< TASK_FD_MAX] ?z) = (s2, ok)" by fastforce
  have "step_ok c ?z s2" using l s2 step_ok_refl [OF step_ok_inv [OF z(1)], of c] by (auto split: if_splits)
  then have t: "step_ok c s s2" by (rule step_ok_trans [OF z(1)])
  note u = step_ok_trans [OF t step_task_cleanup [OF step_ok_inv [OF t] assms(2), of E]]
  show ?thesis unfolding native_fd_task_inherit_def using True s2 t u by (simp add: Let_def)
qed (use assms(1) in \<open>simp add: native_fd_task_inherit_def step_ok_refl\<close>)

subsection \<open>Histories of calls\<close>

text \<open>
  The calls of task \<open>i\<close>.  A table is set up only for a task without one, as in
  \<open>native_app.c\<close>; a blocking transfer is made by the running task, which is not the idle task;
  the guards of \<open>dup2\<close> and \<open>accept\<close> leave out the two cases in which these calls go wrong.
\<close>

inductive fd_call :: "net_env \<Rightarrow> nat \<Rightarrow> 'a fdsys_scheme \<Rightarrow> 'a fdsys_scheme \<Rightarrow> bool" for E i where
  call_init: "\<not> fd_table_ready (task_of s i) \<Longrightarrow> fd_call E i s (native_fd_task_init (Some i) s)"
| call_inherit: "\<not> fd_table_ready (task_of s i) \<Longrightarrow> p < TASK_MAX \<Longrightarrow> fd_call E i s (fst (native_fd_task_inherit E (Some i) (Some p) s))"
| call_cleanup: "fd_call E i s (native_fd_task_cleanup E (Some i) s)"
| call_exec: "fd_call E i s (native_fd_close_on_exec E (Some i) s)"
| call_open: "fd_call E i s (fst (native_fd_open (Some i) path flags m s))"
| call_pipe2: "fd_call E i s (fst (native_fd_pipe2 (Some i) flags s))"
| call_close: "fd_call E i s (fst (native_fd_close E (Some i) fd s))"
| call_dup: "fd_call E i s (fst (native_fd_dup (Some i) fd s))"
| call_dup2: "dup2_guard i fd newfd s \<Longrightarrow> fd_call E i s (fst (native_fd_dup2 E (Some i) fd newfd s))"
| call_dup3: "dup2_guard i fd newfd s \<Longrightarrow> fd_call E i s (fst (native_fd_dup3 E (Some i) fd newfd flags s))"
| call_fcntl: "fd_call E i s (fst (native_fd_fcntl E (Some i) fd cmd arg s))"
| call_read: "current_task (kern s) = Some i \<Longrightarrow> i \<noteq> 0 \<Longrightarrow> native_fd_read E (Some i) fd n s = Some (s', r) \<Longrightarrow> fd_call E i s s'"
| call_write: "current_task (kern s) = Some i \<Longrightarrow> i \<noteq> 0 \<Longrightarrow> native_fd_write E (Some i) fd bs s = Some (s', r) \<Longrightarrow> fd_call E i s s'"
| call_readv: "current_task (kern s) = Some i \<Longrightarrow> i \<noteq> 0 \<Longrightarrow> fd_call E i s (fst (native_fd_readv (Some i) fd iov s))"
| call_writev: "current_task (kern s) = Some i \<Longrightarrow> i \<noteq> 0 \<Longrightarrow> fd_call E i s (fst (native_fd_writev (Some i) fd iov s))"
| call_lseek: "fd_call E i s (fst (native_fd_lseek (Some i) fd off wh s))"
| call_fchdir: "fd_call E i s (fst (native_fd_fchdir (Some i) fd s))"
| call_fchmod: "fd_call E i s (fst (native_fd_fchmod (Some i) fd m s))"
| call_fchown: "fd_call E i s (fst (native_fd_fchown (Some i) fd u g s))"
| call_pread: "fd_call E i s (fst (native_fd_pread (Some i) fd cnt pos s))"
| call_pwrite: "fd_call E i s (fst (native_fd_pwrite (Some i) fd bs pos s))"
| call_preadv: "fd_call E i s (fst (native_fd_preadv (Some i) fd iov pos s))"
| call_pwritev: "fd_call E i s (fst (native_fd_pwritev (Some i) fd iov pos s))"
| call_fstat: "fd_call E i s (fst (native_fd_fstat (Some i) fd s))"
| call_readdir: "fd_call E i s (fst (native_fd_readdir (Some i) fd s))"
| call_ftruncate: "fd_call E i s (fst (native_fd_ftruncate (Some i) fd sz s))"
| call_fsync: "fd_call E i s (fst (native_fd_fsync (Some i) fd data_only s))"
| call_socket: "fd_call E i s (fst (native_socket_open (Some i) domain type protocol s))"
| call_connect: "native_socket_connect E (Some i) fd a timeout s = Some (s', q) \<Longrightarrow> fd_call E i s s'"
| call_bind: "fd_call E i s (fst (native_socket_bind (Some i) fd a s))"
| call_listen: "fd_call E i s (fst (native_socket_listen (Some i) fd backlog s))"
| call_accept: "accept_guard i s \<Longrightarrow> native_socket_accept E (Some i) fd timeout s = Some (s', x) \<Longrightarrow> fd_call E i s s'"
| call_send: "native_socket_send E (Some i) fd b s = Some (s', q) \<Longrightarrow> fd_call E i s s'"
| call_recv: "native_socket_recv E (Some i) fd buf n timeout s = Some (s', q, bs) \<Longrightarrow> fd_call E i s s'"
| call_opendir: "fd_call E i s (fst (native_dir_open (Some i) path s))"
| call_dirread: "fd_call E i s (fst (native_dir_read (Some i) h s))"
| call_closedir: "fd_call E i s (fst (native_dir_close (Some i) h s))"
| call_sched: "sched_step op (kern s) = Some k \<Longrightarrow> fd_call E i s (s\<lparr>kern := k\<rparr>)"

lemma step_sched:
  assumes "fd_inv s" "sched_step op (kern s) = Some k"
  shows "step_ok i s (s\<lparr>kern := k\<rparr>)"
proof (rule step_frame [OF assms(1)])
  note f = fd_inv_facts [OF assms(1)]
  have "fd_frame (kern s) k" using fd_frame_sched_step [OF _ assms(2)] f(1) by (simp add: kern_inv_def)
  then show "fd_frame (kern s) (kern (s\<lparr>kern := k\<rparr>))" by simp
  have "sched_inv k" using sched_step_inv [of "kern s" op] f(1) assms(2) by (auto simp: kern_inv_def)
  then show "kern_inv (kern (s\<lparr>kern := k\<rparr>))" using kern_inv_frame [OF \<open>fd_frame (kern s) k\<close> _ f(1)] by simp
qed simp_all

lemma step_fsync: "fd_inv s \<Longrightarrow> i < TASK_MAX \<Longrightarrow> step_ok i s (fst (native_fd_fsync (Some i) fd data_only s))"
  by (cases data_only) (simp_all add: native_fd_fsync_def atm_posix_fdatasync_def step_file_calls)

lemma fd_call_step:
  assumes "fd_call E i s s'" "fd_inv s" "i < TASK_MAX"
  shows "step_ok i s s'"
  using assms
  by (induction rule: fd_call.induct)
    (simp_all add: step_task_init step_task_inherit step_task_cleanup step_close_on_exec step_open step_pipe2 step_fd_close
      native_fd_dup_def step_dup_min step_dup2 step_dup3 step_fcntl step_fd_read step_vec native_fd_lseek_def step_fchdir
      native_fd_fchmod_def native_fd_fchown_def native_fd_pread_def native_fd_pwrite_def step_preadv native_fd_fstat_def
      native_fd_readdir_def native_fd_ftruncate_def step_fsync step_file_calls
      step_socket_open step_socket_connect step_socket_bind step_socket_listen step_socket_accept step_socket_io
      step_dir_open step_dir_calls step_sched)

text \<open>The states that calls of any tasks, in any order, lead to.\<close>

inductive fd_reach :: "net_env \<Rightarrow> 'a fdsys_scheme \<Rightarrow> 'a fdsys_scheme \<Rightarrow> bool" for E s0 where
  reach_start: "fd_reach E s0 s0"
| reach_call: "fd_reach E s0 s \<Longrightarrow> i < TASK_MAX \<Longrightarrow> fd_call E i s s' \<Longrightarrow> fd_reach E s0 s'"

lemma fd_reach_inv: "fd_reach E s0 s \<Longrightarrow> fd_inv s0 \<Longrightarrow> fd_inv s"
  by (induction rule: fd_reach.induct) (auto dest: fd_call_step step_ok_inv)

subsection \<open>The correctness of descriptors\<close>

text \<open>The tables of the demonstration kernel: task 1 has a pipe at the numbers 3 and 4 and a file, on the VFS
  descriptor 3, at the number 5.\<close>

definition demo_fdsys :: fdsys where
  "demo_fdsys = \<lparr>kern = demo_kern, fsys = demo_open, catdisk = demo_catfs, catfs_vfs_active = False,
     bootstrap_cwd = ''/'', bootstrap_umask = 0x12, netdev = demo_net, slots = replicate 16 zero_slot,
     fd_exec_meta = replicate 32 \<lparr>mowner = None, mflags = replicate 32 False\<rparr>, dir_streams = []\<rparr>"

definition demo_table :: fdsys where
  "demo_table = set_fd_map 1 5 3 (demo_fdsys\<lparr>kern := demo_piped\<rparr>)"

lemma demo_fdsys_inv: "fd_inv demo_fdsys"
proof -
  have h: "held F demo_kern = (\<lambda>_. None)" if "F \<in> {fd_map, socket_map, pipe_map}" for F
    using that by (auto simp: held_def fun_eq_iff demo_pool_len TASK_FD_MAX_def)
  have "length (g_fds demo_open) = FD_MAX" by (simp add: demo_open_def)
  then show ?thesis using demo_kern_inv
    by (simp add: fd_inv_def demo_fdsys_def tables_wf_def exclusive_def h owned_def demo_pool_len TASK_FD_MAX_def ATM_SOCKET_MAX_def)
qed

lemma demo_table_inv: "fd_inv demo_table" "held fd_map (kern demo_table) (1, 5) = Some 3"
  "native_pipe_is_fd (Some 1) 3 (kern demo_table)" "fsys demo_table = demo_open"
proof -
  let ?s = "demo_fdsys\<lparr>kern := demo_piped\<rparr>"
  have one: "(1::nat) < TASK_MAX" "(5::nat) < TASK_FD_MAX" by (simp_all add: TASK_MAX_def TASK_FD_MAX_def)
  have po: "pipe_only 1 demo_kern demo_piped" unfolding demo_piped_def by (rule pipe_create_only [OF demo_kern_inv one(1)])
  have st: "step_ok 1 demo_fdsys ?s"
    using po demo_piped_facts(1) by (intro step_pipe [OF demo_fdsys_inv one(1)]) (simp_all add: demo_fdsys_def)
  have k: "kern demo_fdsys = demo_kern" by (simp add: demo_fdsys_def)
  have h: "held fd_map demo_piped (1, 5) = None" "held socket_map demo_piped (1, 5) = None" "fd_table_ready (task_at demo_piped 1)"
    "held fd_map demo_piped = (\<lambda>_. None)"
    using po one pipe_only_held [OF po] by (auto simp: pipe_only_def held_def fun_eq_iff demo_pool_len TASK_FD_MAX_def)
  have p: "held pipe_map demo_piped (1, 5) = None"
    using one by (auto simp: held_def demo_piped_eq set_pipe_map_def task_at_upd demo_pool_len TASK_FD_MAX_def)
  have "free_backend 3 ?s"
    by (simp add: free_backend_def h(4) demo_fdsys_def open_files_def demo_open_def FD_MAX_def)
  then have s: "step_ok 1 ?s demo_table" unfolding demo_table_def
    using h p by (intro step_put_fd [OF step_ok_inv [OF st] one]) simp_all
  show "fd_inv demo_table" by (rule step_ok_inv [OF s])
  show "held fd_map (kern demo_table) (1, 5) = Some 3"
    unfolding demo_table_def using set_fd_map_wf(1) [OF step_ok_inv [OF st] one, of 3] h by simp
  show "fsys demo_table = demo_open" by (simp add: demo_table_def demo_fdsys_def)
  show "native_pipe_is_fd (Some 1) 3 (kern demo_table)"
    unfolding demo_table_def set_fd_map_other(3)
    using demo_piped_facts(3) by (simp add: native_pipe_is_fd_def)
qed


lemma demo_reach:
  "fd_reach demo_env demo_table (native_fd_task_cleanup demo_env (Some 1) (fst (native_fd_pipe2 (Some 2) 0 demo_table)))"
  by (rule reach_call [OF reach_call [OF reach_start _ call_pipe2, of 2] _ call_cleanup, of 1]) (simp_all add: TASK_MAX_def)


text \<open>
  C12. Tasks do not disturb each other: a call of task \<open>i\<close> leaves every other task with the
  descriptors it had, each file with its offset and flags and each socket with its connection.
\<close>

theorem fd_call_isolated:
  assumes "fd_inv s" "i < TASK_MAX" "fd_call E i s s'" "j \<noteq> i"
  shows "held fd_map (kern s') (j, n) = held fd_map (kern s) (j, n) \<and>
    held socket_map (kern s') (j, n) = held socket_map (kern s) (j, n) \<and>
    held pipe_map (kern s') (j, n) = held pipe_map (kern s) (j, n) \<and>
    (case held fd_map (kern s) (j, n) of Some k \<Rightarrow> g_fds (fsys s') ! k = g_fds (fsys s) ! k | None \<Rightarrow> True) \<and>
    (case held socket_map (kern s) (j, n) of Some k \<Rightarrow> slots s' ! k = slots s ! k | None \<Rightarrow> True)"
  using fd_call_step [OF assms(3,1,2)] assms(4) by (auto simp: step_ok_def others_keep_def split: option.split)

theorem fd_call_isolated_witness:
  "held fd_map (kern (fst (native_fd_pipe2 (Some 2) 0 demo_table))) (1, 5) = Some 3 \<and>
   g_fds (fsys (fst (native_fd_pipe2 (Some 2) 0 demo_table))) ! 3 = g_fds demo_open ! 3"
proof -
  have two: "(2::nat) < TASK_MAX" "(1::nat) \<noteq> 2" by (simp_all add: TASK_MAX_def)
  have c: "fd_call demo_env 2 demo_table (fst (native_fd_pipe2 (Some 2) 0 demo_table))" by (rule call_pipe2)
  show ?thesis using fd_call_isolated [OF demo_table_inv(1) two(1) c two(2), of 5] demo_table_inv(2,4) by simp
qed

text \<open>
  C36. A task that ends leaves nothing behind: \<open>native_fd_task_cleanup\<close> closes exactly the VFS
  descriptors and sockets that the task's numbers stood for, no pipe end counts for the task
  any more, the table is marked unused, and the other tasks keep what they had.
\<close>

theorem fd_cleanup_releases:
  assumes "fd_inv s" "i < TASK_MAX" "fd_table_ready (task_of s i)" "s' = native_fd_task_cleanup E (Some i) s"
  shows "open_files (fsys s') = open_files (fsys s) - {k. \<exists>n. held fd_map (kern s) (i, n) = Some k} \<and>
    open_slots s' = open_slots s - {k. \<exists>n. held socket_map (kern s) (i, n) = Some k} \<and>
    pipe_ends (kern s') p e = pipe_ends (kern s) p e - {i} \<times> UNIV \<and>
    \<not> fd_table_ready (task_of s' i) \<and> fd_inv s' \<and> others_keep i s s'"
proof -
  note c = cleanup_state [OF assms(1-3), where E = E, folded assms(4)]
  have "held pipe_map (kern s') (j, n) = (if j = i then None else held pipe_map (kern s) (j, n))" for j n
    using c(1) c(2) [of pipe_map n] by (auto simp: step_ok_def others_keep_def)
  then have "pipe_ends (kern s') p e = pipe_ends (kern s) p e - {i} \<times> UNIV"
    by (auto simp: pipe_ends_held split: if_splits)
  then show ?thesis using c(1,3-5) by (simp add: step_ok_def)
qed

theorem fd_cleanup_releases_witness:
  "open_files (fsys (native_fd_task_cleanup demo_env (Some 1) demo_table)) = {}"
proof -
  have "fd_table_ready (task_of demo_table 1)" using demo_table_inv(2) by (simp add: held_Some)
  from fd_cleanup_releases [OF demo_table_inv(1) _ this refl] demo_table_inv(2,4) show ?thesis
    by (auto simp: TASK_MAX_def open_files_def demo_open_def zero_fd_def nth_update_if split: if_splits)
qed

text \<open>
  C37. \<open>native_fd_dup2\<close> of a pipe onto a number that stands for a file closes the file's VFS
  descriptor, then fails, and leaves the number standing for the closed descriptor.  When no
  lower descriptor is free, the next file that any task opens gets that descriptor, and the
  number refers to it.
\<close>

theorem fd_dup2_dangling:
  assumes "fd_inv s" "i < TASK_MAX" "native_pipe_is_fd (Some i) fd (kern s)"
    "held fd_map (kern s) (i, nat newfd) = Some b" "0 \<le> newfd" "\<forall>k. 3 \<le> k \<longrightarrow> k < b \<longrightarrow> fused (g_fds (fsys s) ! k)"
  shows "\<exists>s'. native_fd_dup2 E (Some i) fd newfd s = (s', -1) \<and> fd_valid (Some i) newfd s' \<and>
    fd_backend (Some i) newfd s' = int b \<and> \<not> fused (g_fds (fsys s') ! b) \<and> fd_alloc (fsys s') = (fsys s', Some b)"
proof -
  note f = fd_inv_facts [OF assms(1)]
  let ?s' = "fst (atm_posix_close (int b) s)"
  have b: "3 \<le> b" "b < FD_MAX" "fused (g_fds (fsys s) ! b)" using owned_live [OF f(6) assms(4)] by (auto simp: open_files_def)
  have m: "nat newfd < TASK_FD_MAX" "fd_table_ready (task_of s i)" "fd_map (task_of s i) ! nat newfd = int b"
    using assms(4) by (auto simp: held_Some)
  have "held socket_map (kern s) (i, nat newfd) = None" "held pipe_map (kern s) (i, nat newfd) = None"
    using f(3) assms(4) unfolding exclusive_def by (metis option.distinct(1))+
  then have new: "\<not> native_socket_is_fd (Some i) newfd s" "\<not> native_pipe_is_fd (Some i) newfd (kern s)" "fd_valid (Some i) newfd s"
    using socket_fd_held [OF assms(1,2)] pipe_fd_held [OF assms(1,2)] m assms(5) by (auto simp: fd_valid_def)
  have "held socket_map (kern s) (i, nat fd) = None"
    using f(3) assms(3) pipe_fd_held [OF assms(1,2)] unfolding exclusive_def by metis
  then have src: "\<not> native_socket_is_fd (Some i) fd s" "fd \<noteq> newfd" using socket_fd_held [OF assms(1,2)] new(2) assms(3) by auto
  have "native_pipe_dup (Some i) fd newfd (kern s) = (kern s, -1)"
    using m(3) by (auto simp: native_pipe_dup_def pipe_fd_free_def split: option.split)
  then have "native_fd_dup2 E (Some i) fd newfd s = (?s', -1)"
    using new src assms(3,5) m by (simp add: native_fd_dup2_def dup_onto_def lift_kern_def nat_less_iff)
  moreover have g: "g_fds (fsys ?s') = (g_fds (fsys s))[b := zero_fd]"
    using b by (simp add: atm_posix_close_def vfs_close_fds fd_ok_def)
  moreover have "fd_alloc (fsys ?s') = (fsys ?s', Some b)"
  proof (cases "first_idx (\<lambda>i. \<not> fused (g_fds (fsys ?s') ! i)) 3 FD_MAX")
    case None
    then show ?thesis using b f(4) by (auto simp: first_idx_None g zero_fd_def)
  next
    case (Some j)
    note j = first_idx_Some [OF Some]
    have "\<not> b < j" "\<not> j < b" using j b f(4) assms(6) by (auto simp: g zero_fd_def nth_update_if split: if_splits)
    then show ?thesis using Some by (simp add: fd_alloc_def)
  qed
  ultimately show ?thesis using new(3) m(3) b f(4) by (simp add: fd_valid_def fd_backend_def zero_fd_def)
qed

theorem fd_dup2_dangling_witness:
  "\<exists>s'. native_fd_dup2 demo_env (Some 1) 3 5 demo_table = (s', -1) \<and> fd_valid (Some 1) 5 s' \<and>
    fd_backend (Some 1) 5 s' = 3 \<and> \<not> fused (g_fds (fsys s') ! 3)"
  using fd_dup2_dangling [OF demo_table_inv(1) _ demo_table_inv(3), of 5 3 demo_env] demo_table_inv(2)
  by (auto simp: TASK_MAX_def)

end
