(* ===== verification/Paging.thy ===== *)
theory Paging
  imports Kmalloc Util Ownership
begin

unbundle bit_operations_syntax

section \<open>Address spaces: \<open>src/src/paging.c\<close>, \<open>src/src/uaccess.c\<close>\<close>

text \<open>
  Page tables are pages of the kernel heap: 512 little-endian entries of 64 bits in byte
  memory (\<open>CMem\<close>), allocated by \<open>kmalloc_aligned\<close> (\<open>Kmalloc\<close>).  A \<open>user_space_t *\<close> is the
  structure itself, \<open>None\<close> for null; the pointers in it are addresses.  The kernel runs on an
  identity map, so that a pointer is a physical address.  Kernel buffers on the other side of
  a user copy are lists of bytes.  The translation cache of the processor is not part of the
  state: \<open>user_tlb_invalidate\<close> has no effect here.
\<close>

subsection \<open>Definitions\<close>

definition ATM_PAGE_SIZE :: nat where "ATM_PAGE_SIZE = 0x1000"
definition ATM_PAGE_MASK :: u64 where "ATM_PAGE_MASK = 0x000FFFFFFFFFF000"
definition ATM_USER_BASE :: u64 where "ATM_USER_BASE = 0x40000000"
definition ATM_USER_WINDOW_SIZE :: u64 where "ATM_USER_WINDOW_SIZE = 0x08000000"
definition ATM_USER_TOP :: u64 where "ATM_USER_TOP = ATM_USER_BASE + ATM_USER_WINDOW_SIZE"
definition ATM_USER_PT_COUNT :: nat where "ATM_USER_PT_COUNT = unat ATM_USER_WINDOW_SIZE div (512 * ATM_PAGE_SIZE)"
definition ATM_PTE_P :: u64 where "ATM_PTE_P = 0x001"
definition ATM_PTE_W :: u64 where "ATM_PTE_W = 0x002"
definition ATM_PTE_U :: u64 where "ATM_PTE_U = 0x004"
definition ATM_PTE_PS :: u64 where "ATM_PTE_PS = 0x080"
definition ATM_PTE_NX :: u64 where "ATM_PTE_NX = push_bit 63 1"

record user_space_t =
  us_pml4 :: nat
  us_pdpt :: nat
  us_pd :: "nat list"
  us_user_pt :: nat
  us_cr3 :: nat
  us_phys_base :: nat
  us_mapped_pages :: nat
  us_valid :: bool

definition zero_space :: user_space_t where
  "zero_space = \<lparr>us_pml4 = 0, us_pdpt = 0, us_pd = [0, 0, 0, 0], us_user_pt = 0, us_cr3 = 0, us_phys_base = 0,
     us_mapped_pages = 0, us_valid = False\<rparr>"

text \<open>An entry of a table of 64-bit words, and a pointer to a page as an entry.\<close>

definition ent :: "mem \<Rightarrow> nat \<Rightarrow> nat \<Rightarrow> u64" where "ent m t i = word_of_nat (ld m (t + 8 * i) 8)"
definition set_ent :: "mem \<Rightarrow> nat \<Rightarrow> nat \<Rightarrow> u64 \<Rightarrow> mem" where "set_ent m t i e = st m (t + 8 * i) 8 (unat e)"
definition pte :: "nat \<Rightarrow> u64" where "pte p = word_of_nat p AND ATM_PAGE_MASK"

definition page_alloc :: "heap \<Rightarrow> heap \<times> nat" where
  "page_alloc h =
    (case kmalloc_aligned h ATM_PAGE_SIZE ATM_PAGE_SIZE of
       (h', p) \<Rightarrow> (if p \<noteq> 0 then h'\<lparr>hmem := kmemset (hmem h') p 0 ATM_PAGE_SIZE\<rparr> else h', p))"

definition phys_ptr :: "u64 \<Rightarrow> nat" where "phys_ptr e = unat (e AND ATM_PAGE_MASK)"
definition user_window :: "u64 \<Rightarrow> bool" where "user_window va \<longleftrightarrow> ATM_USER_BASE \<le> va \<and> va < ATM_USER_TOP"
definition user_pt_slot :: "u64 \<Rightarrow> nat" where "user_pt_slot va = unat (drop_bit 21 (va - ATM_USER_BASE))"
definition user_pt_page :: "u64 \<Rightarrow> nat" where "user_pt_page va = unat (drop_bit 12 va AND 0x1ff)"

text \<open>\<open>s->user_pt[slot]\<close>.\<close>

definition user_pt :: "user_space_t \<Rightarrow> mem \<Rightarrow> nat \<Rightarrow> nat" where
  "user_pt s m slot = ld m (us_user_pt s + 8 * slot) 8"

text \<open>\<open>paging_init\<close> gives the new \<open>g_kernel_cr3\<close>, from the register.\<close>

definition paging_init :: "u64 \<Rightarrow> nat" where "paging_init cpu_cr3 = unat (cpu_cr3 AND ATM_PAGE_MASK)"

definition paging_activate_user_space :: "user_space_t option \<Rightarrow> nat \<Rightarrow> nat \<times> int" where
  "paging_activate_user_space sp cr3 =
    (case sp of None \<Rightarrow> (cr3, -1) | Some s \<Rightarrow> if \<not> us_valid s \<or> us_cr3 s = 0 then (cr3, -1) else (us_cr3 s, 0))"

definition free_entry :: "user_space_t \<Rightarrow> nat \<Rightarrow> nat \<Rightarrow> heap \<Rightarrow> heap" where
  "free_entry s slot i h =
    (let entry = ent (hmem h) (user_pt s (hmem h) slot) i
     in if entry AND ATM_PTE_P \<noteq> 0 then kfree h (phys_ptr entry) else h)"

definition free_slot_pages :: "user_space_t \<Rightarrow> nat \<Rightarrow> heap \<Rightarrow> heap" where
  "free_slot_pages s slot h =
    (if user_pt s (hmem h) slot \<noteq> 0
     then let h' = fold (free_entry s slot) [0 ..< 512] h in kfree h' (user_pt s (hmem h') slot)
     else h)"

definition kfree_nonnull :: "nat \<Rightarrow> heap \<Rightarrow> heap" where
  "kfree_nonnull p h = (if p \<noteq> 0 then kfree h p else h)"

definition paging_destroy_user_space :: "user_space_t option \<Rightarrow> heap \<Rightarrow> user_space_t option \<times> heap" where
  "paging_destroy_user_space sp h =
    (case sp of
       None \<Rightarrow> (None, h)
     | Some s \<Rightarrow>
         (let h1 = (if us_user_pt s \<noteq> 0 then kfree (fold (free_slot_pages s) [0 ..< ATM_USER_PT_COUNT] h) (us_user_pt s) else h);
              h2 = fold (\<lambda>i. kfree_nonnull (us_pd s ! i)) [0 ..< 4] h1;
              h3 = kfree_nonnull (us_pdpt s) h2;
              h4 = kfree_nonnull (us_pml4 s) h3
          in (Some zero_space, h4)))"

text \<open>The two loops of \<open>paging_create_user_space\<close>; \<open>False\<close> when one gives up.\<close>

fun alloc_pds :: "nat list \<Rightarrow> user_space_t \<Rightarrow> heap \<Rightarrow> user_space_t \<times> heap \<times> bool" where
  "alloc_pds [] s h = (s, h, True)"
| "alloc_pds (i # is) s h =
    (case page_alloc h of
       (h', p) \<Rightarrow>
         let s' = s\<lparr>us_pd := (us_pd s)[i := p]\<rparr>
         in if p = 0 then (s', h', False) else alloc_pds is s' h')"

fun copy_pds :: "nat \<Rightarrow> nat list \<Rightarrow> user_space_t \<Rightarrow> mem \<Rightarrow> mem \<times> bool" where
  "copy_pds kpdpt [] s m = (m, True)"
| "copy_pds kpdpt (i # is) s m =
    (let e = ent m kpdpt i
     in if e AND ATM_PTE_P = 0 then (m, False)
        else
          let m = kmemcpy m (us_pd s ! i) (phys_ptr e) ATM_PAGE_SIZE;
              m = set_ent m (us_pdpt s) i (pte (us_pd s ! i) OR ATM_PTE_P OR ATM_PTE_W)
          in copy_pds kpdpt is s m)"

text \<open>The part of \<open>paging_create_user_space\<close> that allocates, and the part that fills the tables from
  the kernel's; \<open>False\<close> where the code destroys what it has built.\<close>

definition alloc_tables :: "heap \<Rightarrow> user_space_t \<times> heap \<times> bool" where
  "alloc_tables h =
    (let (h1, p4) = page_alloc h;
         (h2, p3) = page_alloc h1;
         (h3, up) = kmalloc h2 (8 * ATM_USER_PT_COUNT);
         h4 = (if up \<noteq> 0 then h3\<lparr>hmem := kmemset (hmem h3) up 0 (8 * ATM_USER_PT_COUNT)\<rparr> else h3);
         s = zero_space\<lparr>us_pml4 := p4, us_pdpt := p3, us_user_pt := up\<rparr>
     in if p4 = 0 \<or> p3 = 0 \<or> up = 0 then (s, h4, False) else alloc_pds [0 ..< 4] s h4)"

definition fill_tables :: "nat \<Rightarrow> nat \<Rightarrow> user_space_t \<Rightarrow> mem \<Rightarrow> mem \<times> bool" where
  "fill_tables kpml4 kpdpt s m =
    (let m = kmemcpy m (us_pml4 s) kpml4 ATM_PAGE_SIZE;
         m = kmemcpy m (us_pdpt s) kpdpt ATM_PAGE_SIZE;
         (m, ok) = copy_pds kpdpt [0 ..< 4] s m
     in if \<not> ok then (m, False)
        else
          let m = set_ent m (us_pml4 s) 0 (pte (us_pdpt s) OR ATM_PTE_P OR ATM_PTE_W OR ATM_PTE_U);
              m = set_ent m (us_pdpt s) 1 (pte (us_pd s ! 1) OR ATM_PTE_P OR ATM_PTE_W OR ATM_PTE_U)
          in (m, True))"

text \<open>The new value of \<open>g_kernel_cr3\<close>, the structure, the heap and the result.\<close>

definition paging_create_user_space ::
  "u64 \<Rightarrow> nat \<Rightarrow> user_space_t option \<Rightarrow> heap \<Rightarrow> nat \<times> user_space_t option \<times> heap \<times> int" where
  "paging_create_user_space cpu_cr3 g sp h =
    (case sp of
       None \<Rightarrow> (g, None, h, -1)
     | Some _ \<Rightarrow>
         let g = (if g = 0 then paging_init cpu_cr3 else g);
             kpdpt = phys_ptr (ent (hmem h) g 0);
             fail = (\<lambda>s h. case paging_destroy_user_space (Some s) h of (s', h') \<Rightarrow> (g, s', h', -1))
         in if ent (hmem h) g 0 AND ATM_PTE_P = 0 \<or> kpdpt = 0 then (g, Some zero_space, h, -1)
            else
              let (s, h1, ok) = alloc_tables h
              in if \<not> ok then fail s h1
                 else
                   let (m, ok) = fill_tables g kpdpt s (hmem h1)
                   in if \<not> ok then fail s (h1\<lparr>hmem := m\<rparr>)
                      else (g, Some (s\<lparr>us_cr3 := us_pml4 s, us_valid := True\<rparr>), h1\<lparr>hmem := m\<rparr>, 0))"

text \<open>The first part of \<open>paging_map_user_page\<close>: the page table of a slot, allocated on first use; \<open>False\<close> when
  there is no memory for it.\<close>

definition user_table :: "user_space_t \<Rightarrow> nat \<Rightarrow> heap \<Rightarrow> heap \<times> bool" where
  "user_table s slot h =
    (if user_pt s (hmem h) slot = 0
     then case page_alloc h of
            (h', p) \<Rightarrow>
              let h' = h'\<lparr>hmem := st (hmem h') (us_user_pt s + 8 * slot) 8 p\<rparr>
              in if p = 0 then (h', False)
                 else (h'\<lparr>hmem := set_ent (hmem h') (us_pd s ! 1) slot (pte p OR ATM_PTE_P OR ATM_PTE_W OR ATM_PTE_U)\<rparr>, True)
     else (h, True))"

definition paging_map_user_page ::
  "user_space_t option \<Rightarrow> u64 \<Rightarrow> u64 \<Rightarrow> u64 \<Rightarrow> heap \<Rightarrow> user_space_t option \<times> heap \<times> int" where
  "paging_map_user_page sp va phys flags h =
    (case sp of
       None \<Rightarrow> (sp, h, -1)
     | Some s \<Rightarrow>
         if \<not> us_valid s \<or> \<not> user_window va \<or> va AND 0xfff \<noteq> 0 \<or> user_pt_slot va \<ge> ATM_USER_PT_COUNT then (sp, h, -1)
         else
           let (h1, ok) = user_table s (user_pt_slot va) h
           in if \<not> ok then (sp, h1, -1)
              else
                let m = set_ent (hmem h1) (user_pt s (hmem h1) (user_pt_slot va)) (user_pt_page va)
                          ((phys AND ATM_PAGE_MASK) OR ATM_PTE_P OR ATM_PTE_U OR (flags AND ATM_PTE_W) OR (flags AND ATM_PTE_NX));
                    page = unat (va - ATM_USER_BASE) div ATM_PAGE_SIZE
                in (Some (if page \<ge> us_mapped_pages s then s\<lparr>us_mapped_pages := page + 1\<rparr> else s), h1\<lparr>hmem := m\<rparr>, 0))"

text \<open>The entry of a page-aligned address that \<open>unmap\<close>, \<open>release\<close> and \<open>protect\<close> work on:
  the table and the index.\<close>

definition user_entry :: "user_space_t option \<Rightarrow> u64 \<Rightarrow> mem \<Rightarrow> (nat \<times> nat) option" where
  "user_entry sp va m =
    (case sp of
       None \<Rightarrow> None
     | Some s \<Rightarrow>
         if \<not> us_valid s \<or> \<not> user_window va \<or> va AND 0xfff \<noteq> 0 then None
         else if user_pt_slot va \<ge> ATM_USER_PT_COUNT \<or> user_pt s m (user_pt_slot va) = 0 then None
         else Some (user_pt s m (user_pt_slot va), user_pt_page va))"

definition paging_unmap_user_page :: "user_space_t option \<Rightarrow> u64 \<Rightarrow> heap \<Rightarrow> heap \<times> int" where
  "paging_unmap_user_page sp va h =
    (case user_entry sp va (hmem h) of
       None \<Rightarrow> (h, -1)
     | Some (t, i) \<Rightarrow> (h\<lparr>hmem := set_ent (hmem h) t i 0\<rparr>, 0))"

definition paging_release_user_page :: "user_space_t option \<Rightarrow> u64 \<Rightarrow> heap \<Rightarrow> heap \<times> int" where
  "paging_release_user_page sp va h =
    (case user_entry sp va (hmem h) of
       None \<Rightarrow> (h, -1)
     | Some (t, i) \<Rightarrow>
         let old = ent (hmem h) t i
         in if old AND ATM_PTE_P = 0 \<or> old AND ATM_PTE_U = 0 then (h, -1)
            else (kfree (h\<lparr>hmem := set_ent (hmem h) t i 0\<rparr>) (phys_ptr old), 0))"

definition paging_protect_user_page :: "user_space_t option \<Rightarrow> u64 \<Rightarrow> u64 \<Rightarrow> heap \<Rightarrow> heap \<times> int" where
  "paging_protect_user_page sp va flags h =
    (case user_entry sp va (hmem h) of
       None \<Rightarrow> (h, -1)
     | Some (t, i) \<Rightarrow>
         let old = ent (hmem h) t i
         in if old AND ATM_PTE_P = 0 \<or> old AND ATM_PTE_U = 0 then (h, -1)
            else (h\<lparr>hmem := set_ent (hmem h) t i ((old AND ATM_PAGE_MASK) OR ATM_PTE_P OR ATM_PTE_U OR
                              (flags AND ATM_PTE_W) OR (flags AND ATM_PTE_NX))\<rparr>, 0))"

definition paging_user_mapped_bytes :: "user_space_t option \<Rightarrow> mem \<Rightarrow> nat" where
  "paging_user_mapped_bytes sp m =
    (case sp of
       None \<Rightarrow> 0
     | Some s \<Rightarrow>
         if \<not> us_valid s then 0
         else sum_list (map (\<lambda>slot. if user_pt s m slot \<noteq> 0
                                     then length (filter (\<lambda>i. ent m (user_pt s m slot) i AND ATM_PTE_P \<noteq> 0) [0 ..< 512])
                                     else 0) [0 ..< ATM_USER_PT_COUNT]) * ATM_PAGE_SIZE)"

text \<open>\<open>paging_user_translate\<close>: the physical address and the entry.\<close>

definition paging_user_translate :: "user_space_t option \<Rightarrow> mem \<Rightarrow> u64 \<Rightarrow> (u64 \<times> u64) option" where
  "paging_user_translate sp m va =
    (case sp of
       None \<Rightarrow> None
     | Some s \<Rightarrow>
         if \<not> us_valid s \<or> \<not> user_window va then None
         else if user_pt_slot va \<ge> ATM_USER_PT_COUNT \<or> user_pt s m (user_pt_slot va) = 0 then None
         else
           let e = ent m (user_pt s m (user_pt_slot va)) (user_pt_page va)
           in if e AND ATM_PTE_P = 0 \<or> e AND ATM_PTE_U = 0 then None
              else Some ((e AND ATM_PAGE_MASK) OR (va AND 0xfff), e))"

lemma user_window_unat: "user_window va \<longleftrightarrow> 0x40000000 \<le> unat va \<and> unat va < 0x48000000"
  by (simp add: user_window_def ATM_USER_BASE_def ATM_USER_TOP_def ATM_USER_WINDOW_SIZE_def word_le_nat_alt word_less_nat_alt)

lemma translate_window: "paging_user_translate sp m va = Some r \<Longrightarrow> user_window va"
  by (auto simp: paging_user_translate_def split: option.splits if_splits)

lemma unat_add_page: "user_window va \<Longrightarrow> n \<le> 4096 \<Longrightarrow> unat (va + word_of_nat n) = unat va + n"
proof -
  assume a: "user_window va" "n \<le> 4096"
  then have "unat (word_of_nat n :: u64) = n" by (simp add: unat_of_nat)
  moreover have "unat va + n < 2 ^ 64" using a by (simp add: user_window_unat)
  ultimately show ?thesis using unat_add_lem [of va "word_of_nat n"] by simp
qed

text \<open>\<open>paging_user_range\<close>: \<open>True\<close> for 0.  The loop ends at the latest behind the window.\<close>

function range_loop :: "user_space_t \<Rightarrow> mem \<Rightarrow> u64 \<Rightarrow> u64 \<Rightarrow> bool \<Rightarrow> bool" where
  "range_loop s m page last_page wr =
    (case paging_user_translate (Some s) m page of
       None \<Rightarrow> False
     | Some (p, f) \<Rightarrow>
         if wr \<and> f AND ATM_PTE_W = 0 then False
         else if page = last_page then True
         else range_loop s m (page + word_of_nat ATM_PAGE_SIZE) last_page wr)"
  by pat_completeness auto

termination
proof (relation "measure (\<lambda>(s, m, page, last_page, wr). 0x48000000 - unat page)")
  fix s m page last_page wr r p f
  assume a: "paging_user_translate (Some s) m page = Some r" "(p, f) = r"
  then have w: "user_window page" using translate_window by blast
  then have "unat (page + word_of_nat ATM_PAGE_SIZE) = unat page + 4096"
    using unat_add_page [OF w, of 4096] by (simp add: ATM_PAGE_SIZE_def)
  then show "((s, m, page + word_of_nat ATM_PAGE_SIZE, last_page, wr), s, m, page, last_page, wr)
      \<in> measure (\<lambda>(s, m, page, last_page, wr). 0x48000000 - unat page)"
    using w by (simp add: user_window_unat) arith
qed simp

declare range_loop.simps [simp del]

definition paging_user_range :: "user_space_t option \<Rightarrow> mem \<Rightarrow> u64 \<Rightarrow> u64 \<Rightarrow> bool \<Rightarrow> bool" where
  "paging_user_range sp m va sz wr =
    (case sp of
       None \<Rightarrow> False
     | Some s \<Rightarrow>
         if sz = 0 \<or> \<not> user_window va \<or> sz > ATM_USER_WINDOW_SIZE then False
         else
           let end_va = va + sz - 1
           in if end_va < va \<or> \<not> user_window end_va then False
              else range_loop s m (va AND ATM_PAGE_MASK) (end_va AND ATM_PAGE_MASK) wr)"

text \<open>\<open>user_copy\<close>, in its two directions: \<open>False\<close> and \<open>None\<close> for \<open>-1\<close>.\<close>

definition put_bytes :: "mem \<Rightarrow> nat \<Rightarrow> u8 list \<Rightarrow> mem" where
  "put_bytes m a bs = (\<lambda>x. if a \<le> x \<and> x < a + length bs then bs ! (x - a) else m x)"

definition get_bytes :: "mem \<Rightarrow> nat \<Rightarrow> nat \<Rightarrow> u8 list" where
  "get_bytes m a n = map (\<lambda>i. m (a + i)) [0 ..< n]"

text \<open>The bytes from an address to the end of its page.\<close>

definition page_room :: "u64 \<Rightarrow> nat" where "page_room uaddr = ATM_PAGE_SIZE - unat (uaddr AND 0xfff)"

lemma page_room_bounds: "0 < page_room uaddr" "page_room uaddr \<le> 4096"
proof -
  have "unat (uaddr AND 0xfff) \<le> unat (0xfff :: u64)" by (simp only: word_le_nat_alt [symmetric] word_and_le1)
  then show "0 < page_room uaddr" "page_room uaddr \<le> 4096" by (simp_all add: page_room_def ATM_PAGE_SIZE_def)
qed

function copy_out :: "user_space_t \<Rightarrow> mem \<Rightarrow> u64 \<Rightarrow> u8 list \<Rightarrow> mem \<times> bool" where
  "copy_out s m uaddr bs =
    (if bs = [] then (m, True)
     else case paging_user_translate (Some s) m uaddr of
            None \<Rightarrow> (m, False)
          | Some (phys, _) \<Rightarrow>
              let n = (if length bs < page_room uaddr then length bs else page_room uaddr)
              in copy_out s (put_bytes m (unat phys) (take n bs)) (uaddr + word_of_nat n) (drop n bs))"
  by pat_completeness auto
termination
  by (relation "measure (\<lambda>(s, m, uaddr, bs). length bs)") (auto simp: page_room_bounds)

function copy_in :: "user_space_t \<Rightarrow> mem \<Rightarrow> u64 \<Rightarrow> nat \<Rightarrow> u8 list option" where
  "copy_in s m uaddr len =
    (if len = 0 then Some []
     else case paging_user_translate (Some s) m uaddr of
            None \<Rightarrow> None
          | Some (phys, _) \<Rightarrow>
              let n = (if len < page_room uaddr then len else page_room uaddr)
              in map_option (\<lambda>bs. get_bytes m (unat phys) n @ bs) (copy_in s m (uaddr + word_of_nat n) (len - n)))"
  by pat_completeness auto
termination
  by (relation "measure (\<lambda>(s, m, uaddr, len). len)") (auto simp: page_room_bounds)

declare copy_out.simps [simp del] copy_in.simps [simp del]

definition copy_to_user :: "user_space_t option \<Rightarrow> mem \<Rightarrow> u64 \<Rightarrow> u8 list \<Rightarrow> mem \<times> bool" where
  "copy_to_user sp m dst bs =
    (case sp of
       None \<Rightarrow> (m, False)
     | Some s \<Rightarrow>
         if bs = [] then (m, True)
         else if \<not> paging_user_range sp m dst (word_of_nat (length bs)) True then (m, False)
         else copy_out s m dst bs)"

definition copy_from_user :: "user_space_t option \<Rightarrow> mem \<Rightarrow> u64 \<Rightarrow> nat \<Rightarrow> u8 list option" where
  "copy_from_user sp m src len =
    (case sp of
       None \<Rightarrow> None
     | Some s \<Rightarrow>
         if len = 0 then Some []
         else if \<not> paging_user_range sp m src (word_of_nat len) False then None
         else copy_in s m src len)"

definition user_range_valid :: "user_space_t option \<Rightarrow> mem \<Rightarrow> u64 \<Rightarrow> u64 \<Rightarrow> bool \<Rightarrow> bool" where
  "user_range_valid sp m ptr len write_access \<longleftrightarrow>
    \<not> (sp = None \<or> ptr = 0 \<and> len \<noteq> 0) \<and> paging_user_range sp m ptr len write_access"

text \<open>\<open>for (n = 0; n < max; n++)\<close>, with \<open>k\<close> rounds left.\<close>

primrec strnlen_loop :: "user_space_t option \<Rightarrow> mem \<Rightarrow> u64 \<Rightarrow> nat \<Rightarrow> nat \<Rightarrow> nat option" where
  "strnlen_loop sp m addr n 0 = None"
| "strnlen_loop sp m addr n (Suc k) =
    (case copy_from_user sp m (addr + word_of_nat n) 1 of
       None \<Rightarrow> None
     | Some bs \<Rightarrow> if bs ! 0 = 0 then Some n else strnlen_loop sp m addr (n + 1) k)"

definition strnlen_user :: "user_space_t option \<Rightarrow> mem \<Rightarrow> u64 \<Rightarrow> nat \<Rightarrow> nat option" where
  "strnlen_user sp m user_src mx =
    (if sp = None \<or> user_src = 0 \<or> mx = 0 then None else strnlen_loop sp m user_src 0 mx)"

definition copy_string_from_user :: "user_space_t option \<Rightarrow> mem \<Rightarrow> nat \<Rightarrow> u64 \<Rightarrow> u8 list option" where
  "copy_string_from_user sp m dst_size user_src =
    (if dst_size < 2 then None
     else case strnlen_user sp m user_src (dst_size - 1) of
            None \<Rightarrow> None
          | Some n \<Rightarrow> copy_from_user sp m user_src (n + 1))"

subsection \<open>Entries\<close>

lemma PTE_bits:
  "ATM_PTE_P = push_bit 0 1" "ATM_PTE_W = push_bit 1 1" "ATM_PTE_U = push_bit 2 1" "ATM_PTE_PS = push_bit 7 1"
  "ATM_PAGE_MASK = push_bit 12 (mask 40)" "ATM_PTE_NX = push_bit 63 1"
  by (simp_all add: ATM_PTE_P_def ATM_PTE_W_def ATM_PTE_U_def ATM_PTE_PS_def ATM_PTE_NX_def ATM_PAGE_MASK_def mask_eq_exp_minus_1)

lemma u64_eq_iff: "(x :: u64) = y \<longleftrightarrow> (\<forall>n < 64. bit x n = bit y n)"
  using bit_word_eqI [of x y] by auto

lemma and_bit_0: "(e :: u64) AND push_bit n 1 = 0 \<longleftrightarrow> \<not> bit e n" if "n < 64"
  using that by (auto simp: u64_eq_iff bit_simps)

lemma flag_iff:
  "e AND ATM_PTE_P = 0 \<longleftrightarrow> \<not> bit e 0" "e AND ATM_PTE_W = 0 \<longleftrightarrow> \<not> bit e 1" "e AND ATM_PTE_U = 0 \<longleftrightarrow> \<not> bit e 2"
  "e AND ATM_PTE_PS = 0 \<longleftrightarrow> \<not> bit e 7" "e AND ATM_PTE_NX = 0 \<longleftrightarrow> \<not> bit e 63"
  by (simp_all only: PTE_bits and_bit_0)

lemma bit_consts:
  "bit ATM_PTE_P n \<longleftrightarrow> n = 0" "bit ATM_PTE_W n \<longleftrightarrow> n = 1" "bit ATM_PTE_U n \<longleftrightarrow> n = 2"
  "bit ATM_PTE_PS n \<longleftrightarrow> n = 7" "bit ATM_PTE_NX n \<longleftrightarrow> n = 63" "bit ATM_PAGE_MASK n \<longleftrightarrow> 12 \<le> n \<and> n < 52"
  unfolding PTE_bits bit_push_bit_iff bit_1_iff bit_mask_iff by auto

text \<open>An aligned physical address below \<open>2 ^ 52\<close> survives the mask.\<close>

lemma pte_id: "pte p = word_of_nat p" "unat (pte p) = p" if "p mod 4096 = 0" "p < 2 ^ 52"
proof -
  have lo: "\<not> bit p n" if "n < 12" for n
  proof -
    have "take_bit 12 p = 0" using \<open>p mod 4096 = 0\<close> by (simp add: take_bit_eq_mod)
    then show ?thesis using that by (metis bit_0_eq bit_take_bit_iff bot_apply bot_bool_def)
  qed
  have hi: "\<not> bit p n" if "52 \<le> n" for n
  proof -
    have "p < 2 ^ n" using \<open>p < 2 ^ 52\<close> power_increasing [OF that, of "2 :: nat"] by linarith
    then show ?thesis by (simp add: bit_iff_odd)
  qed
  show w: "pte p = word_of_nat p"
    unfolding pte_def using lo hi by (auto simp: u64_eq_iff bit_simps bit_consts) (meson not_le)+
  show "unat (pte p) = p" unfolding w using \<open>p < 2 ^ 52\<close> by (simp add: unat_of_nat)
qed

lemma bit_pte: "bit (pte p) n \<Longrightarrow> 12 \<le> n \<and> n < 52"
  by (simp add: pte_def bit_simps bit_consts)

lemma and_mask_or_flags:
  assumes "\<And>n. bit f n \<Longrightarrow> n < 12 \<or> 52 \<le> n"
  shows "(pte p OR f) AND ATM_PAGE_MASK = pte p" "((a AND ATM_PAGE_MASK) OR f) AND ATM_PAGE_MASK = a AND ATM_PAGE_MASK"
  using assms by (auto simp: u64_eq_iff bit_simps bit_consts pte_def) (meson not_less)+

lemma table_entry:
  "phys_ptr (pte p OR ATM_PTE_P OR ATM_PTE_W) = unat (pte p)"
  "phys_ptr (pte p OR ATM_PTE_P OR ATM_PTE_W OR ATM_PTE_U) = unat (pte p)"
  unfolding phys_ptr_def or.assoc
  by (subst and_mask_or_flags(1), auto simp: bit_simps bit_consts)+

lemma bit_table_entry:
  "bit (pte p OR ATM_PTE_P OR ATM_PTE_W) n \<longleftrightarrow> bit (pte p) n \<or> n = 0 \<or> n = 1"
  "bit (pte p OR ATM_PTE_P OR ATM_PTE_W OR ATM_PTE_U) n \<longleftrightarrow> bit (pte p) n \<or> n = 0 \<or> n = 1 \<or> n = 2"
  by (auto simp: bit_simps bit_consts)

definition page_entry :: "u64 \<Rightarrow> u64 \<Rightarrow> u64" where
  "page_entry phys flags =
    (phys AND ATM_PAGE_MASK) OR ATM_PTE_P OR ATM_PTE_U OR (flags AND ATM_PTE_W) OR (flags AND ATM_PTE_NX)"

lemma page_entry_mask: "page_entry phys flags AND ATM_PAGE_MASK = phys AND ATM_PAGE_MASK"
  by (auto simp: page_entry_def u64_eq_iff bit_simps bit_consts)

lemma bit_page_entry:
  "bit (page_entry phys flags) 0" "bit (page_entry phys flags) 2" "\<not> bit (page_entry phys flags) 7"
  "bit (page_entry phys flags) 1 \<longleftrightarrow> bit flags 1" "bit (page_entry phys flags) 63 \<longleftrightarrow> bit flags 63"
  by (auto simp: page_entry_def bit_simps bit_consts)

lemma phys_ptr_aligned: "phys_ptr e mod 4096 = 0" "phys_ptr e < 2 ^ 52"
proof -
  have "take_bit 12 (e AND ATM_PAGE_MASK) = 0" by (auto simp: u64_eq_iff bit_simps bit_consts)
  then have "unat (take_bit 12 (e AND ATM_PAGE_MASK)) = 0" by simp
  then have "take_bit 12 (phys_ptr e) = 0" by (simp only: unsigned_take_bit_eq phys_ptr_def)
  then show "phys_ptr e mod 4096 = 0" by (simp add: take_bit_eq_mod)
  have "take_bit 52 (e AND ATM_PAGE_MASK) = e AND ATM_PAGE_MASK" by (auto simp: u64_eq_iff bit_simps bit_consts)
  then have "unat (take_bit 52 (e AND ATM_PAGE_MASK)) = phys_ptr e" by (simp add: phys_ptr_def)
  then have "take_bit 52 (phys_ptr e) = phys_ptr e" by (simp only: unsigned_take_bit_eq phys_ptr_def)
  then show "phys_ptr e < 2 ^ 52" by (simp add: take_bit_eq_mod mod_eq_self_iff_div_eq_0 div_eq_0_iff)
qed

lemma phys_offset: "unat ((e AND ATM_PAGE_MASK) OR (va AND 0xfff)) = phys_ptr e + unat (va AND 0xfff)"
proof -
  have m: "(0xfff :: u64) = mask 12" by (simp add: mask_eq_exp_minus_1)
  have "(e AND ATM_PAGE_MASK) AND (va AND mask 12) = 0" by (auto simp: u64_eq_iff bit_simps bit_consts)
  then have o: "(e AND ATM_PAGE_MASK) OR (va AND mask 12) = (e AND ATM_PAGE_MASK) + (va AND mask 12)"
    by (simp add: disjunctive_add_eq_or)
  have "unat (va AND mask 12) < 4096" using and_mask_less' [of 12 va] by (simp add: word_less_nat_alt)
  then have "phys_ptr e + unat (va AND mask 12) < 2 ^ 64" using phys_ptr_aligned(2) [of e] by simp
  then show ?thesis unfolding m o phys_ptr_def by (simp add: unat_add_lem [THEN iffD1])
qed

lemma unat_page_off: "unat (va AND 0xfff :: u64) = unat va mod 4096"
proof -
  have "(0xfff :: u64) = mask 12" by (simp add: mask_eq_exp_minus_1)
  then have "va AND 0xfff = take_bit 12 va" by (simp add: take_bit_eq_mask)
  then show ?thesis by (simp only: unsigned_take_bit_eq) (simp add: take_bit_eq_mod)
qed

subsection \<open>The processor's view\<close>

text \<open>
  The walk of an x86-64 processor with four-level paging for an access in user mode, as its
  manual describes it: each level needs the present and the user bit, an entry of level 3 or
  2 with the page-size bit maps a large page.  The result is the physical address, whether
  every level allows writing, and whether one forbids execution.
\<close>

definition walk_idx :: "nat \<Rightarrow> u64 \<Rightarrow> nat" where
  "walk_idx level va = unat (drop_bit (12 + 9 * level) va AND 0x1ff)"

definition canonical :: "u64 \<Rightarrow> bool" where
  "canonical va \<longleftrightarrow> drop_bit 47 va = 0 \<or> drop_bit 47 va = mask 17"

definition user_ok :: "u64 \<Rightarrow> bool" where
  "user_ok e \<longleftrightarrow> e AND ATM_PTE_P \<noteq> 0 \<and> e AND ATM_PTE_U \<noteq> 0"

definition large_page :: "nat \<Rightarrow> u64 \<Rightarrow> u64 \<Rightarrow> u64" where
  "large_page k e va = (e AND ATM_PAGE_MASK AND NOT (mask k)) OR (va AND mask k)"

definition mmu_walk :: "mem \<Rightarrow> nat \<Rightarrow> u64 \<Rightarrow> (u64 \<times> bool \<times> bool) option" where
  "mmu_walk m cr3 va =
    (let e4 = ent m cr3 (walk_idx 3 va);
         e3 = ent m (phys_ptr e4) (walk_idx 2 va);
         e2 = ent m (phys_ptr e3) (walk_idx 1 va);
         e1 = ent m (phys_ptr e2) (walk_idx 0 va);
         result = (\<lambda>es p. Some (p, \<forall>e \<in> set es. e AND ATM_PTE_W \<noteq> 0, \<exists>e \<in> set es. e AND ATM_PTE_NX \<noteq> 0))
     in if \<not> canonical va \<or> \<not> user_ok e4 \<or> \<not> user_ok e3 then None
        else if e3 AND ATM_PTE_PS \<noteq> 0 then result [e4, e3] (large_page 30 e3 va)
        else if \<not> user_ok e2 then None
        else if e2 AND ATM_PTE_PS \<noteq> 0 then result [e4, e3, e2] (large_page 21 e2 va)
        else if \<not> user_ok e1 then None
        else result [e4, e3, e2, e1] ((e1 AND ATM_PAGE_MASK) OR (va AND 0xfff)))"

subsection \<open>The blocks of an address space\<close>

text \<open>The pages and the array that an address space consists of, and the heap block of each: an aligned page
  has the address of its block in the eight bytes below it.\<close>

datatype pgkey = Upt | Pml4 | Pdpt | Pd nat | Pt nat | Frame nat nat

fun page_of :: "user_space_t \<Rightarrow> mem \<Rightarrow> pgkey \<Rightarrow> nat option" where
  "page_of s m Upt = None"
| "page_of s m Pml4 = Some (us_pml4 s)"
| "page_of s m Pdpt = Some (us_pdpt s)"
| "page_of s m (Pd i) = (if i < 4 then Some (us_pd s ! i) else None)"
| "page_of s m (Pt n) = (if n < 64 \<and> user_pt s m n \<noteq> 0 then Some (user_pt s m n) else None)"
| "page_of s m (Frame n i) =
    (if n < 64 \<and> user_pt s m n \<noteq> 0 \<and> i < 512 \<and> bit (ent m (user_pt s m n) i) 0
     then Some (phys_ptr (ent m (user_pt s m n) i)) else None)"

definition page_raw :: "mem \<Rightarrow> nat \<Rightarrow> nat" where "page_raw m p = ld m (p - 8) 8"

definition block_of :: "user_space_t \<Rightarrow> mem \<Rightarrow> pgkey \<Rightarrow> nat option" where
  "block_of s m k = (if k = Upt then Some (us_user_pt s) else map_option (page_raw m) (page_of s m k))"

definition page_ok :: "heap \<Rightarrow> nat \<Rightarrow> bool" where
  "page_ok h p \<longleftrightarrow> p mod 4096 = 0 \<and>
    (\<exists>sz. (page_raw (hmem h) p, sz) \<in> heap_live h \<and> page_raw (hmem h) p + 8 \<le> p \<and> p + 4096 \<le> page_raw (hmem h) p + sz)"

text \<open>The tables lead user accesses to the window's page tables and nowhere else.\<close>

definition pd_entry_ok :: "user_space_t \<Rightarrow> mem \<Rightarrow> nat \<Rightarrow> bool" where
  "pd_entry_ok s m i \<longleftrightarrow>
    (if i < 64 \<and> user_pt s m i \<noteq> 0
     then ent m (us_pd s ! 1) i = pte (user_pt s m i) OR ATM_PTE_P OR ATM_PTE_W OR ATM_PTE_U
     else \<not> bit (ent m (us_pd s ! 1) i) 2)"

definition wired :: "user_space_t \<Rightarrow> mem \<Rightarrow> bool" where
  "wired s m \<longleftrightarrow>
    ent m (us_pml4 s) 0 = pte (us_pdpt s) OR ATM_PTE_P OR ATM_PTE_W OR ATM_PTE_U \<and>
    (\<forall>i. 0 < i \<and> i < 512 \<longrightarrow> \<not> bit (ent m (us_pml4 s) i) 2) \<and>
    ent m (us_pdpt s) 1 = pte (us_pd s ! 1) OR ATM_PTE_P OR ATM_PTE_W OR ATM_PTE_U \<and>
    (\<forall>i. i < 512 \<and> i \<noteq> 1 \<longrightarrow> \<not> bit (ent m (us_pdpt s) i) 2) \<and>
    (\<forall>i < 512. pd_entry_ok s m i)"

definition space_inv :: "heap \<Rightarrow> user_space_t \<Rightarrow> bool" where
  "space_inv h s \<longleftrightarrow>
    us_valid s \<and> us_cr3 s = us_pml4 s \<and> length (us_pd s) = 4 \<and> heap_inv h \<and> heap_end h \<le> 2 ^ 52 \<and>
    (\<exists>sz \<ge> 512. (us_user_pt s, sz) \<in> heap_live h) \<and>
    (\<forall>k p. page_of s (hmem h) k = Some p \<longrightarrow> page_ok h p) \<and>
    owned (block_of s (hmem h)) (fst ` heap_live h) \<and> wired s (hmem h)"

lemma space_invD:
  assumes "space_inv h s"
  shows "us_valid s" "us_cr3 s = us_pml4 s" "length (us_pd s) = 4" "heap_inv h" "heap_end h \<le> 2 ^ 52"
    "\<exists>sz \<ge> 512. (us_user_pt s, sz) \<in> heap_live h" "\<And>k p. page_of s (hmem h) k = Some p \<Longrightarrow> page_ok h p"
    "owned (block_of s (hmem h)) (fst ` heap_live h)" "wired s (hmem h)"
  using assms by (simp_all add: space_inv_def)

lemma page_ok_bounds:
  assumes "heap_inv h" "heap_end h \<le> 2 ^ 52" "page_ok h p"
  shows "p mod 4096 = 0" "p < 2 ^ 52" "0 < p" "pte p = word_of_nat p" "unat (pte p) = p"
proof -
  obtain sz where r: "(page_raw (hmem h) p, sz) \<in> heap_live h" "page_raw (hmem h) p + 8 \<le> p" "p + 4096 \<le> page_raw (hmem h) p + sz"
    using assms(3) by (auto simp: page_ok_def)
  show m: "p mod 4096 = 0" using assms(3) by (simp add: page_ok_def)
  show l: "p < 2 ^ 52" "0 < p" using live_pointer(2) [OF assms(1) r(1)] r assms(2) by linarith+
  show "pte p = word_of_nat p" "unat (pte p) = p" using pte_id [OF m l(1)] by simp_all
qed

text \<open>The bytes that belong to a page, the back pointer below it included.\<close>

lemma live_same_base: "heap_inv h \<Longrightarrow> (b, s) \<in> heap_live h \<Longrightarrow> (b, s') \<in> heap_live h \<Longrightarrow> s = s'"
proof -
  assume a: "heap_inv h" "(b, s) \<in> heap_live h" "(b, s') \<in> heap_live h"
  have "inj_on fst (heap_live h)" using live_distinct by (simp add: heap_live_def distinct_map)
  from inj_onD [OF this _ a(2,3)] show ?thesis by simp
qed

definition keeps_block :: "heap \<Rightarrow> heap \<Rightarrow> nat \<Rightarrow> bool" where
  "keeps_block h h' b \<longleftrightarrow> (\<forall>sz. (b, sz) \<in> heap_live h \<longrightarrow> (b, sz) \<in> heap_live h' \<and> same_on {b ..< b + sz} (hmem h) (hmem h'))"

lemma keeps_page:
  assumes "page_ok h p" "keeps_block h h' (page_raw (hmem h) p)"
  shows "page_raw (hmem h') p = page_raw (hmem h) p" "page_ok h' p" "same_on {p ..< p + 4096} (hmem h) (hmem h')"
    "i < 512 \<Longrightarrow> ent (hmem h') p i = ent (hmem h) p i"
proof -
  let ?b = "page_raw (hmem h) p"
  obtain sz where r: "(?b, sz) \<in> heap_live h" "?b + 8 \<le> p" "p + 4096 \<le> ?b + sz"
    using assms(1) by (auto simp: page_ok_def)
  have s: "(?b, sz) \<in> heap_live h'" "same_on {?b ..< ?b + sz} (hmem h) (hmem h')" using assms(2) r(1) by (auto simp: keeps_block_def)
  have "{p - 8 ..< p - 8 + 8} \<subseteq> {?b ..< ?b + sz}" using r by auto
  then show raw: "page_raw (hmem h') p = ?b" using same_on_ld [OF s(2)] by (simp add: page_raw_def)
  show "page_ok h' p" unfolding page_ok_def raw using assms(1) r s(1) by (auto simp: page_ok_def)
  show pg: "same_on {p ..< p + 4096} (hmem h) (hmem h')" by (rule same_on_mono [OF s(2)]) (use r in auto)
  assume "i < 512"
  then have "{p + 8 * i ..< p + 8 * i + 8} \<subseteq> {p ..< p + 4096}" by auto
  then show "ent (hmem h') p i = ent (hmem h) p i" using same_on_ld [OF pg] by (simp add: ent_def)
qed

lemma wired_frame:
  assumes "wired s m" "\<And>n. n < 64 \<Longrightarrow> user_pt s m' n = user_pt s m n"
    "\<And>i. i < 512 \<Longrightarrow> ent m' (us_pml4 s) i = ent m (us_pml4 s) i" "\<And>i. i < 512 \<Longrightarrow> ent m' (us_pdpt s) i = ent m (us_pdpt s) i"
    "\<And>i. i < 512 \<Longrightarrow> ent m' (us_pd s ! 1) i = ent m (us_pd s ! 1) i"
  shows "wired s m'"
proof -
  have "pd_entry_ok s m' i" if "i < 512" for i
  proof -
    have "pd_entry_ok s m i" using assms(1) that by (simp add: wired_def)
    then show ?thesis using assms(2) [of i] assms(5) [OF that] by (cases "i < 64") (simp_all add: pd_entry_ok_def split: if_splits)
  qed
  then show ?thesis using assms(1,3,4) unfolding wired_def by simp
qed

text \<open>What leaves the tables of a space alone, and the frames where they are, leaves the space alone.\<close>

lemma space_frame_tables:
  assumes "space_inv h s" "heap_inv h'" "heap_end h' = heap_end h"
    "\<forall>k b. block_of s (hmem h) k = Some b \<longrightarrow> (\<forall>n i. k \<noteq> Frame n i) \<longrightarrow> keeps_block h h' b"
    "\<forall>n i p. page_of s (hmem h) (Frame n i) = Some p \<longrightarrow> page_raw (hmem h') p = page_raw (hmem h) p \<and> page_ok h' p"
  shows "page_of s (hmem h') = page_of s (hmem h)" "block_of s (hmem h') = block_of s (hmem h)" "space_inv h' s"
    "wired s (hmem h')"
proof -
  note d = space_invD [OF assms(1)]
  obtain usz where u: "512 \<le> usz" "(us_user_pt s, usz) \<in> heap_live h" using d(6) by auto
  have ku: "(us_user_pt s, usz) \<in> heap_live h'" "same_on {us_user_pt s ..< us_user_pt s + usz} (hmem h) (hmem h')"
    using assms(4) [rule_format, of Upt] u(2) by (auto simp: block_of_def keeps_block_def)
  have pt: "user_pt s (hmem h') n = user_pt s (hmem h) n" if "n < 64" for n
  proof -
    have "{us_user_pt s + 8 * n ..< us_user_pt s + 8 * n + 8} \<subseteq> {us_user_pt s ..< us_user_pt s + usz}" using that u(1) by auto
    then show ?thesis using same_on_ld [OF ku(2)] by (simp add: user_pt_def)
  qed
  have table: "page_raw (hmem h') p = page_raw (hmem h) p" "page_ok h' p" "\<And>i. i < 512 \<Longrightarrow> ent (hmem h') p i = ent (hmem h) p i"
    if "page_of s (hmem h) k = Some p" "\<And>n i. k \<noteq> Frame n i" for k p
  proof -
    have "k \<noteq> Upt" using that by auto
    then have "keeps_block h h' (page_raw (hmem h) p)" using assms(4) [rule_format, of k] that by (simp add: block_of_def)
    note kp = keeps_page [OF d(7) [OF that(1)] this]
    show "page_raw (hmem h') p = page_raw (hmem h) p" "page_ok h' p" by (rule kp(1), rule kp(2))
    show "\<And>i. i < 512 \<Longrightarrow> ent (hmem h') p i = ent (hmem h) p i" by (rule kp(4))
  qed
  have page: "page_raw (hmem h') p = page_raw (hmem h) p \<and> page_ok h' p" if "page_of s (hmem h) k = Some p" for k p
  proof (cases "\<exists>n i. k = Frame n i")
    case True
    then show ?thesis using that assms(5) by metis
  next
    case False
    then show ?thesis using table(1,2) [OF that] by blast
  qed
  have leaf: "ent (hmem h') (user_pt s (hmem h) n) i = ent (hmem h) (user_pt s (hmem h) n) i"
    if "n < 64" "user_pt s (hmem h) n \<noteq> 0" "i < 512" for n i
    by (rule table(3) [of "Pt n"]) (use that in simp_all)
  have po: "page_of s (hmem h') k = page_of s (hmem h) k" for k
    by (cases k) (simp_all add: pt leaf cong: conj_cong)
  then show "page_of s (hmem h') = page_of s (hmem h)" by (rule ext)
  have "block_of s (hmem h') k = block_of s (hmem h) k" for k
    using po [of k] page [of k] by (cases "page_of s (hmem h) k") (simp_all add: block_of_def)
  then show bo: "block_of s (hmem h') = block_of s (hmem h)" by (rule ext)
  have "b \<in> fst ` heap_live h'" if b: "block_of s (hmem h) k = Some b" for k b
  proof (cases "page_of s (hmem h) k")
    case None
    then have "b = us_user_pt s" using b by (auto simp: block_of_def split: if_splits)
    then show ?thesis using ku(1) by force
  next
    case (Some p)
    then have "b = page_raw (hmem h') p" using b page [OF Some] by (auto simp: block_of_def split: if_splits)
    then show ?thesis using page [OF Some] by (force simp: page_ok_def)
  qed
  then have "ran (block_of s (hmem h)) \<subseteq> fst ` heap_live h'" by (auto simp: ran_def)
  then have ow: "owned (block_of s (hmem h')) (fst ` heap_live h')" unfolding bo by (rule owned_mono [OF d(8)])
  show w: "wired s (hmem h')"
    by (rule wired_frame [OF d(9) pt table(3) [of Pml4] table(3) [of Pdpt] table(3) [of "Pd 1"]]) simp_all
  moreover have "\<forall>k p. page_of s (hmem h') k = Some p \<longrightarrow> page_ok h' p" using page by (simp add: po)
  moreover have "\<exists>sz \<ge> 512. (us_user_pt s, sz) \<in> heap_live h'" using ku(1) u(1) by blast
  ultimately show "space_inv h' s" unfolding space_inv_def using d(1-5) ow assms(2,3) by simp
qed

lemma space_frame:
  assumes "space_inv h s" "heap_inv h'" "heap_end h' = heap_end h"
    "\<forall>k b. block_of s (hmem h) k = Some b \<longrightarrow> keeps_block h h' b"
  shows "page_of s (hmem h') = page_of s (hmem h)" "block_of s (hmem h') = block_of s (hmem h)" "space_inv h' s"
proof -
  have fr: "page_raw (hmem h') p = page_raw (hmem h) p \<and> page_ok h' p" if "page_of s (hmem h) (Frame n i) = Some p" for n i p
  proof -
    have "keeps_block h h' (page_raw (hmem h) p)" using assms(4) [rule_format, of "Frame n i"] that by (simp add: block_of_def)
    from keeps_page(1,2) [OF space_invD(7) [OF assms(1) that] this] show ?thesis by blast
  qed
  have "\<forall>k b. block_of s (hmem h) k = Some b \<longrightarrow> (\<forall>n i. k \<noteq> Frame n i) \<longrightarrow> keeps_block h h' b" using assms(4) by blast
  note f = space_frame_tables [OF assms(1-3) this]
  show "page_of s (hmem h') = page_of s (hmem h)" "block_of s (hmem h') = block_of s (hmem h)" "space_inv h' s"
    by (rule f, use fr in blast)+
qed

subsection \<open>The processor agrees with \<open>paging_user_translate\<close>\<close>

lemma unat_drop: "unat (drop_bit n (w :: u64)) = unat w div 2 ^ n"
  unfolding unat_drop_bit_eq by (rule drop_bit_eq_div)

lemma unat_and_1ff: "unat (w AND 0x1ff :: u64) = unat w mod 512"
proof -
  have "(0x1ff :: u64) = mask 9" by (simp add: mask_eq_exp_minus_1)
  then have "w AND 0x1ff = take_bit 9 w" by (simp add: take_bit_eq_mask)
  then show ?thesis by (simp only: unsigned_take_bit_eq) (simp add: take_bit_eq_mod)
qed

lemma walk_idx_unat: "walk_idx k va = unat va div 2 ^ (12 + 9 * k) mod 512"
  unfolding walk_idx_def unat_and_1ff unat_drop ..

lemma canonical_unat: "canonical va \<longleftrightarrow> unat va < 2 ^ 47 \<or> 2 ^ 64 - 2 ^ 47 \<le> unat va"
proof -
  have "drop_bit 47 va = 0 \<longleftrightarrow> unat va div 2 ^ 47 = 0"
    using unat_drop [of 47 va] by (metis unat_eq_0)
  moreover have "unat (mask 17 :: u64) = 2 ^ 17 - 1" by (simp add: mask_eq_exp_minus_1)
  then have "drop_bit 47 va = mask 17 \<longleftrightarrow> unat va div 2 ^ 47 = 2 ^ 17 - 1"
    using unat_drop [of 47 va] by (metis word_unat_eq_iff)
  moreover have "unat va < 2 ^ 64" using unsigned_less [of va, where ?'a = nat] by simp
  ultimately show ?thesis unfolding canonical_def by auto
qed

lemma user_pt_slot_unat: "user_window va \<Longrightarrow> user_pt_slot va = (unat va - 0x40000000) div 2 ^ 21"
proof -
  assume w: "user_window va"
  then have "ATM_USER_BASE \<le> va" by (simp add: user_window_def)
  then have "unat (va - ATM_USER_BASE) = unat va - unat ATM_USER_BASE" by (rule unat_sub)
  then show ?thesis by (simp add: user_pt_slot_def unat_drop ATM_USER_BASE_def)
qed

lemma user_pt_page_unat: "user_pt_page va = unat va div 4096 mod 512"
  unfolding user_pt_page_def unat_and_1ff unat_drop by simp

lemma PT_COUNT_64: "ATM_USER_PT_COUNT = 64"
  by (simp add: ATM_USER_PT_COUNT_def ATM_USER_WINDOW_SIZE_def ATM_PAGE_SIZE_def)

lemma window_indices:
  assumes "user_window va"
  shows "canonical va" "walk_idx 3 va = 0" "walk_idx 2 va = 1" "walk_idx 1 va = user_pt_slot va" "walk_idx 0 va = user_pt_page va"
    "user_pt_slot va < 64" "user_pt_page va < 512"
proof -
  have w: "0x40000000 \<le> unat va" "unat va < 0x48000000" using assms by (auto simp: user_window_unat)
  show "canonical va" using w by (simp add: canonical_unat)
  have "unat va div 2 ^ 39 = 0" "unat va div 2 ^ 30 = 1" using w by simp_all
  then show "walk_idx 3 va = 0" "walk_idx 2 va = 1" by (simp_all add: walk_idx_unat)
  have d: "unat va div 2 ^ 21 = 512 + (unat va - 0x40000000) div 2 ^ 21"
  proof -
    have "unat va = 512 * 2 ^ 21 + (unat va - 0x40000000)" using w by simp
    then show ?thesis by (metis div_mult_self3 power_not_zero zero_neq_numeral)
  qed
  show s: "user_pt_slot va < 64" unfolding user_pt_slot_unat [OF assms] using w by (simp add: less_mult_imp_div_less)
  then show "walk_idx 1 va = user_pt_slot va" using d by (simp add: walk_idx_unat user_pt_slot_unat [OF assms])
  show "walk_idx 0 va = user_pt_page va" "user_pt_page va < 512" by (simp_all add: walk_idx_unat user_pt_page_unat)
qed

lemma indices_window:
  assumes "canonical va" "walk_idx 3 va = 0" "walk_idx 2 va = 1" "walk_idx 1 va < 64"
  shows "user_window va"
proof -
  have b: "unat va < 2 ^ 64" using unsigned_less [of va, where ?'a = nat] by simp
  have c: "unat va < 2 ^ 47 \<or> 2 ^ 64 - 2 ^ 47 \<le> unat va" using assms(1) by (simp add: canonical_unat)
  have i3: "unat va div 2 ^ 39 mod 512 = 0" and i2: "unat va div 2 ^ 30 mod 512 = 1" and i1: "unat va div 2 ^ 21 mod 512 < 64"
    using assms(2-4) by (simp_all add: walk_idx_unat)
  define q where "q = unat va div 2 ^ 39"
  have "q = 0"
  proof (cases "unat va < 2 ^ 47")
    case True
    then have "q < 256" unfolding q_def by (intro less_mult_imp_div_less) simp
    then show ?thesis using i3 by (simp add: q_def)
  next
    case False
    then have "2 ^ 64 - 2 ^ 47 \<le> unat va" using c by simp
    then have "(2 ^ 64 - 2 ^ 47) div 2 ^ 39 \<le> q" unfolding q_def by (rule div_le_mono)
    then have "33554176 \<le> q" by simp
    moreover have "q < 33554432" unfolding q_def using b by (intro less_mult_imp_div_less) simp
    moreover obtain k where "q = 512 * k" using i3 unfolding q_def [symmetric] by (metis mod_0_imp_dvd dvdE)
    ultimately have "65535 < k" "k < 65536" by linarith+
    then show ?thesis by simp
  qed
  then have "unat va < 2 ^ 39" by (simp add: q_def div_eq_0_iff)
  then have "unat va div 2 ^ 30 < 512" by (intro less_mult_imp_div_less) simp
  then have d: "unat va div 2 ^ 30 = 1" using i2 by simp
  moreover have "unat va div 2 ^ 30 * 2 ^ 30 + unat va mod 2 ^ 30 = unat va" by (rule div_mult_mod_eq)
  moreover have "unat va mod 2 ^ 30 < 2 ^ 30" by simp
  ultimately have r: "2 ^ 30 \<le> unat va" "unat va < 2 ^ 31" by simp_all
  define p where "p = unat va div 2 ^ 21"
  have "2 ^ 30 div 2 ^ 21 \<le> p" unfolding p_def by (rule div_le_mono [OF r(1)])
  then have "512 \<le> p" by simp
  moreover have "p < 1024" unfolding p_def using r(2) by (intro less_mult_imp_div_less) simp
  moreover have "p mod 512 < 64" using i1 by (simp only: p_def)
  ultimately have "p < 576" by (simp add: mod_if split: if_splits)
  moreover have "p * 2 ^ 21 + unat va mod 2 ^ 21 = unat va" unfolding p_def by (rule div_mult_mod_eq)
  moreover have "unat va mod 2 ^ 21 < 2 ^ 21" by simp
  ultimately have "unat va < 0x48000000" by simp
  with r show ?thesis by (simp add: user_window_unat)
qed

lemma user_ok_bit: "user_ok e \<longleftrightarrow> bit e 0 \<and> bit e 2"
  by (simp add: user_ok_def flag_iff)

lemma user_table_entry:
  assumes "e = pte p OR ATM_PTE_P OR ATM_PTE_W OR ATM_PTE_U"
  shows "user_ok e" "\<not> bit e 7" "bit e 1" "\<not> bit e 63" "phys_ptr e = unat (pte p)"
  using bit_pte [of p 7] bit_pte [of p 63] unfolding user_ok_bit assms by (auto simp: bit_table_entry table_entry)

text \<open>The walk, when the two upper levels are as the kernel sets them.\<close>

lemma mmu_walk_wired:
  assumes "space_inv h s"
  shows "mmu_walk (hmem h) (us_cr3 s) va =
    (case paging_user_translate (Some s) (hmem h) va of
       None \<Rightarrow> None
     | Some (p, e) \<Rightarrow> Some (p, e AND ATM_PTE_W \<noteq> 0, e AND ATM_PTE_NX \<noteq> 0))"
proof -
  note d = space_invD [OF assms]
  let ?m = "hmem h"
  have tab: "unat (pte p) = p" if "page_of s ?m k = Some p" for k p
    using page_ok_bounds(5) [OF d(4,5) d(7) [OF that]] .
  have p3: "unat (pte (us_pdpt s)) = us_pdpt s" and p2: "unat (pte (us_pd s ! 1)) = us_pd s ! 1"
    using tab [of Pdpt] tab [of "Pd 1"] by simp_all
  have e4: "ent ?m (us_pml4 s) 0 = pte (us_pdpt s) OR ATM_PTE_P OR ATM_PTE_W OR ATM_PTE_U"
    and e3: "ent ?m (us_pdpt s) 1 = pte (us_pd s ! 1) OR ATM_PTE_P OR ATM_PTE_W OR ATM_PTE_U"
    using d(9) by (simp_all add: wired_def)
  note u4 = user_table_entry [OF e4] and u3 = user_table_entry [OF e3]
  have idx: "walk_idx k va < 512" for k by (simp add: walk_idx_unat)
  show ?thesis
  proof (cases "user_window va")
    case False
    then have n: "paging_user_translate (Some s) ?m va = None" by (simp add: paging_user_translate_def)
    have "mmu_walk ?m (us_cr3 s) va = None"
    proof (cases "canonical va \<and> walk_idx 3 va = 0 \<and> walk_idx 2 va = 1")
      case True
      with False have i: "\<not> walk_idx 1 va < 64" using indices_window by blast
      have "pd_entry_ok s ?m (walk_idx 1 va)" using d(9) idx by (simp add: wired_def)
      then have "\<not> user_ok (ent ?m (us_pd s ! 1) (walk_idx 1 va))" using i by (simp add: pd_entry_ok_def user_ok_bit)
      then show ?thesis using True u4 u3 p3 p2 d(2) by (simp add: mmu_walk_def Let_def flag_iff)
    next
      case False
      have "\<not> user_ok (ent ?m (us_pml4 s) (walk_idx 3 va))" if "walk_idx 3 va \<noteq> 0"
        using d(9) idx that by (simp add: wired_def user_ok_bit)
      moreover have "\<not> user_ok (ent ?m (us_pdpt s) (walk_idx 2 va))" if "walk_idx 2 va \<noteq> 1"
        using d(9) idx that by (simp add: wired_def user_ok_bit)
      ultimately show ?thesis using False u4 p3 d(2) by (cases "walk_idx 3 va = 0") (auto simp: mmu_walk_def Let_def)
    qed
    then show ?thesis using n by simp
  next
    case True
    note w = window_indices [OF True]
    let ?t = "user_pt s ?m (user_pt_slot va)"
    have pd: "pd_entry_ok s ?m (user_pt_slot va)" using d(9) w(6) by (simp add: wired_def)
    show ?thesis
    proof (cases "?t = 0")
      case t: True
      then have "\<not> user_ok (ent ?m (us_pd s ! 1) (user_pt_slot va))" using pd by (simp add: pd_entry_ok_def user_ok_bit)
      then have "mmu_walk ?m (us_cr3 s) va = None"
        using w u4 u3 p3 p2 d(2) by (simp add: mmu_walk_def Let_def flag_iff)
      then show ?thesis using t by (simp add: paging_user_translate_def)
    next
      case t: False
      then have e2: "ent ?m (us_pd s ! 1) (user_pt_slot va) = pte ?t OR ATM_PTE_P OR ATM_PTE_W OR ATM_PTE_U"
        using pd w(6) by (simp add: pd_entry_ok_def)
      note u2 = user_table_entry [OF e2]
      have pt: "unat (pte ?t) = ?t" using tab [of "Pt (user_pt_slot va)"] t w(6) by simp
      let ?e = "ent ?m ?t (user_pt_page va)"
      have "mmu_walk ?m (us_cr3 s) va =
          (if \<not> user_ok ?e then None
           else Some ((?e AND ATM_PAGE_MASK) OR (va AND 0xfff), ?e AND ATM_PTE_W \<noteq> 0, ?e AND ATM_PTE_NX \<noteq> 0))"
        using w u4 u3 u2 p3 p2 pt d(2) by (simp add: mmu_walk_def Let_def flag_iff)
      then show ?thesis using t w(6) True d(1) by (simp add: paging_user_translate_def PT_COUNT_64 user_ok_def Let_def)
    qed
  qed
qed

subsection \<open>Writes and allocations beside an address space\<close>

lemma live_disjoint:
  "(b, s) \<in> heap_live h \<Longrightarrow> (b', s') \<in> heap_live h \<Longrightarrow> b \<noteq> b' \<Longrightarrow> {b ..< b + s} \<inter> {b' ..< b' + s'} = {}"
  using live_pairwise_disjoint [of "(b, s)" "heap_blocks h" "heap_start h" "(b', s')"] by (simp add: heap_live_def)

text \<open>A change of memory inside one live block.\<close>

lemma block_write:
  assumes "heap_inv h" "(b, s) \<in> heap_live h" "same_on (- {b ..< b + s}) (hmem h) m'"
  shows "heap_inv (h\<lparr>hmem := m'\<rparr>)" "heap_live (h\<lparr>hmem := m'\<rparr>) = heap_live h" "heap_end (h\<lparr>hmem := m'\<rparr>) = heap_end h"
    "b' \<noteq> b \<Longrightarrow> keeps_block h (h\<lparr>hmem := m'\<rparr>) b'" "heap_blocks (h\<lparr>hmem := m'\<rparr>) = heap_blocks h"
proof -
  have "region (b, s) \<inter> hdr_bytes (heap_blocks h) (heap_start h) = {}"
    using assms(2) by (intro live_hdr_disjoint) (simp add: heap_live_def)
  then have "same_on (hdr_bytes (heap_blocks h) (heap_start h)) (hmem h) m'"
    by (intro same_on_mono [OF assms(3)]) auto
  note c = chain_frame [OF heap_inv_chain [OF assms(1)] this]
  from heap_inv_upd [OF assms(1) c] show "heap_inv (h\<lparr>hmem := m'\<rparr>)" "heap_blocks (h\<lparr>hmem := m'\<rparr>) = heap_blocks h"
    and l: "heap_live (h\<lparr>hmem := m'\<rparr>) = heap_live h" by (simp_all add: heap_live_def)
  show "heap_end (h\<lparr>hmem := m'\<rparr>) = heap_end h" by (simp add: heap_end_def)
  assume "b' \<noteq> b"
  then have "same_on {b' ..< b' + sz} (hmem h) m'" if "(b', sz) \<in> heap_live h" for sz
    using live_disjoint [OF assms(2) that] by (intro same_on_mono [OF assms(3)]) auto
  then show "keeps_block h (h\<lparr>hmem := m'\<rparr>) b'" by (simp add: keeps_block_def l)
qed

lemma page_block:
  assumes "page_ok h p"
  obtains sz where "(page_raw (hmem h) p, sz) \<in> heap_live h" "page_raw (hmem h) p + 8 \<le> p" "p + 4096 \<le> page_raw (hmem h) p + sz"
  using assms by (auto simp: page_ok_def)

lemma page_write:
  assumes "heap_inv h" "page_ok h p" "same_on (- {p ..< p + 4096}) (hmem h) m'"
  shows "heap_inv (h\<lparr>hmem := m'\<rparr>)" "heap_live (h\<lparr>hmem := m'\<rparr>) = heap_live h" "heap_end (h\<lparr>hmem := m'\<rparr>) = heap_end h"
    "b' \<noteq> page_raw (hmem h) p \<Longrightarrow> keeps_block h (h\<lparr>hmem := m'\<rparr>) b'" "page_raw m' p = page_raw (hmem h) p"
    "page_ok (h\<lparr>hmem := m'\<rparr>) p" "heap_blocks (h\<lparr>hmem := m'\<rparr>) = heap_blocks h"
proof -
  obtain sz where r: "(page_raw (hmem h) p, sz) \<in> heap_live h" "page_raw (hmem h) p + 8 \<le> p" "p + 4096 \<le> page_raw (hmem h) p + sz"
    by (rule page_block [OF assms(2)])
  have "same_on (- {page_raw (hmem h) p ..< page_raw (hmem h) p + sz}) (hmem h) m'"
    by (rule same_on_mono [OF assms(3)]) (use r in auto)
  note w = block_write [OF assms(1) r(1) this]
  show "heap_inv (h\<lparr>hmem := m'\<rparr>)" "heap_live (h\<lparr>hmem := m'\<rparr>) = heap_live h" "heap_end (h\<lparr>hmem := m'\<rparr>) = heap_end h"
    "heap_blocks (h\<lparr>hmem := m'\<rparr>) = heap_blocks h" by (rule w)+
  show "b' \<noteq> page_raw (hmem h) p \<Longrightarrow> keeps_block h (h\<lparr>hmem := m'\<rparr>) b'" by (rule w)
  have "{p - 8 ..< p - 8 + 8} \<subseteq> - {p ..< p + 4096}" using r(2) by auto
  then show raw: "page_raw m' p = page_raw (hmem h) p" using same_on_ld [OF assms(3)] by (simp add: page_raw_def)
  show "page_ok (h\<lparr>hmem := m'\<rparr>) p" using assms(2) w(2) by (simp add: page_ok_def raw)
qed

text \<open>What user code, or the kernel on its behalf, writes into a frame does not touch the tables.\<close>

lemma frame_write:
  assumes "space_inv h s" "page_of s (hmem h) (Frame n i) = Some p" "same_on (- {p ..< p + 4096}) (hmem h) m'"
  shows "page_of s m' = page_of s (hmem h)" "block_of s m' = block_of s (hmem h)" "space_inv (h\<lparr>hmem := m'\<rparr>) s"
    "heap_live (h\<lparr>hmem := m'\<rparr>) = heap_live h"
proof -
  note d = space_invD [OF assms(1)]
  note w = page_write [OF d(4) d(7) [OF assms(2)] assms(3)]
  have b: "block_of s (hmem h) (Frame n i) = Some (page_raw (hmem h) p)" using assms(2) by (simp add: block_of_def)
  have k: "keeps_block h (h\<lparr>hmem := m'\<rparr>) b'" if "block_of s (hmem h) k = Some b'" "k \<noteq> Frame n i" for k b'
    using w(4) that owned_unique [OF d(8) that(1)] b by metis
  have fr: "page_raw m' q = page_raw (hmem h) q \<and> page_ok (h\<lparr>hmem := m'\<rparr>) q" if "page_of s (hmem h) (Frame n' i') = Some q" for n' i' q
  proof (cases "n' = n \<and> i' = i")
    case True
    then show ?thesis using that assms(2) w(5,6) by simp
  next
    case False
    then have "keeps_block h (h\<lparr>hmem := m'\<rparr>) (page_raw (hmem h) q)" using k [of "Frame n' i'"] that by (simp add: block_of_def)
    from keeps_page(1,2) [OF d(7) [OF that] this] show ?thesis by simp
  qed
  let ?h' = "h\<lparr>hmem := m'\<rparr>"
  have t: "\<forall>k b'. block_of s (hmem h) k = Some b' \<longrightarrow> (\<forall>n i. k \<noteq> Frame n i) \<longrightarrow> keeps_block h ?h' b'"
    using k by blast
  have "\<forall>n' i' q. page_of s (hmem h) (Frame n' i') = Some q \<longrightarrow> page_raw (hmem ?h') q = page_raw (hmem h) q \<and> page_ok ?h' q"
    using fr by simp
  note f = space_frame_tables [OF assms(1) w(1,3) t this]
  show "page_of s m' = page_of s (hmem h)" "block_of s m' = block_of s (hmem h)" "space_inv ?h' s" using f(1-3) by simp_all
  show "heap_live (h\<lparr>hmem := m'\<rparr>) = heap_live h" by (rule w)
qed

subsection \<open>Allocation beside an address space\<close>

definition heap_range :: "heap \<Rightarrow> nat set" where "heap_range h = {heap_start h ..< heap_end h}"

text \<open>What an allocation leaves: every live block, the bounds, and all memory outside the heap.\<close>

definition heap_keeps :: "heap \<Rightarrow> heap \<Rightarrow> bool" where
  "heap_keeps h h' \<longleftrightarrow> heap_inv h' \<and> heap_start h' = heap_start h \<and> heap_end h' = heap_end h \<and>
    (\<forall>b. keeps_block h h' b) \<and> same_on (- heap_range h) (hmem h) (hmem h')"

lemma heap_keeps_refl: "heap_inv h \<Longrightarrow> heap_keeps h h"
  by (simp add: heap_keeps_def keeps_block_def)

lemma heap_keeps_trans: "heap_keeps h h' \<Longrightarrow> heap_keeps h' h'' \<Longrightarrow> heap_keeps h h''"
  unfolding heap_keeps_def keeps_block_def heap_range_def by (metis same_on_trans)

lemma hdr_bytes_in_range:
  "heap_inv h \<Longrightarrow> hdr_bytes (heap_blocks h) (heap_start h) \<subseteq> heap_range h"
  using hdr_bytes_range [of "heap_blocks h" "heap_start h"] chain_span [OF heap_inv_chain] heap_end_eq [OF heap_inv_bounds]
  by (fastforce simp: heap_range_def)

lemma kmalloc_keeps:
  assumes "heap_inv h" "kmalloc h n = (h', p)"
  shows "heap_keeps h h'"
proof (cases "p = 0")
  case True
  then have "h' = h" using kmalloc_failure(1) [OF assms(1)] assms(2) kmalloc_null [of h] by (cases "n = 0") auto
  then show ?thesis using heap_keeps_refl [OF assms(1)] by simp
next
  case False
  note ks = kmalloc_success [OF assms False]
  have n: "0 < n" using assms(2) False kmalloc_null [of h] by (cases "n = 0") auto
  from kmalloc_refines [OF assms(1) n] assms(2) False obtain m' bs' where m': "h' = h\<lparr>hmem := m'\<rparr>" "heap_blocks h' = bs'"
    "same_on (- hdr_bytes bs' (heap_start h)) (hmem h) m'" by (auto split: option.splits)
  have e: "heap_end h' = heap_end h" using ks(3,4) by (simp add: heap_end_def)
  have "hdr_bytes bs' (heap_start h) \<subseteq> heap_range h" using hdr_bytes_in_range [OF ks(1)] m'(2) ks(3) e by (simp add: heap_range_def)
  then have "same_on (- heap_range h) (hmem h) (hmem h')" using m'(1) by (simp add: same_on_mono [OF m'(3)])
  moreover obtain sz where "heap_live h' = insert (p, sz) (heap_live h)" using ks(5) by auto
  ultimately show ?thesis using ks(1,3,6) e by (auto simp: heap_keeps_def keeps_block_def)
qed

lemma live_in_range: "heap_inv h \<Longrightarrow> (b, s) \<in> heap_live h \<Longrightarrow> {b ..< b + s} \<subseteq> heap_range h"
  using live_pointer(1,2) [of h b s] by (auto simp: heap_range_def)

lemma new_block_write:
  assumes "heap_keeps h h'" "(b, s) \<in> heap_live h'" "b \<notin> fst ` heap_live h" "same_on (- {b ..< b + s}) (hmem h') m'"
  shows "heap_keeps h (h'\<lparr>hmem := m'\<rparr>)" "heap_live (h'\<lparr>hmem := m'\<rparr>) = heap_live h'"
proof -
  have h': "heap_inv h'" "heap_start h' = heap_start h" "heap_end h' = heap_end h" "heap_range h' = heap_range h"
    using assms(1) by (auto simp: heap_keeps_def heap_range_def)
  note w = block_write [OF h'(1) assms(2,4)]
  show l: "heap_live (h'\<lparr>hmem := m'\<rparr>) = heap_live h'" by (rule w)
  have "keeps_block h (h'\<lparr>hmem := m'\<rparr>) b'" for b'
  proof (cases "b' = b")
    case True
    then show ?thesis using assms(3) by (force simp: keeps_block_def)
  next
    case False
    then show ?thesis using w(4) assms(1) unfolding heap_keeps_def keeps_block_def by (meson same_on_trans)
  qed
  moreover have "same_on (- heap_range h) (hmem h') m'"
    using live_in_range [OF h'(1) assms(2)] h'(4) by (intro same_on_mono [OF assms(4)]) auto
  then have "same_on (- heap_range h) (hmem h) m'" using assms(1) by (auto simp: heap_keeps_def intro: same_on_trans)
  ultimately show "heap_keeps h (h'\<lparr>hmem := m'\<rparr>)" using w(1,3) h' by (simp add: heap_keeps_def)
qed

lemma kmalloc_aligned_page:
  assumes "heap_inv h" "kmalloc_aligned h ATM_PAGE_SIZE ATM_PAGE_SIZE = (h', p)"
  shows "heap_keeps h h'" "p = 0 \<Longrightarrow> h' = h"
    "p \<noteq> 0 \<Longrightarrow> page_ok h' p \<and> page_raw (hmem h') p \<notin> fst ` heap_live h \<and>
       (\<exists>sz. heap_live h' = insert (page_raw (hmem h') p, sz) (heap_live h))"
proof -
  let ?k = "12 :: nat"
  have sz: "add64 (add64 ATM_PAGE_SIZE ATM_PAGE_SIZE) 8 = 8200" "ATM_PAGE_SIZE = 2 ^ ?k" by (simp_all add: ATM_PAGE_SIZE_def add64_def)
  obtain h1 raw where k: "kmalloc h 8200 = (h1, raw)" by fastforce
  note kk = kmalloc_keeps [OF assms(1) k]
  have al: "\<not> ATM_PAGE_SIZE \<le> 8" by (simp add: ATM_PAGE_SIZE_def)
  show *: "p \<noteq> 0 \<Longrightarrow> page_ok h' p \<and> page_raw (hmem h') p \<notin> fst ` heap_live h \<and>
       (\<exists>sz. heap_live h' = insert (page_raw (hmem h') p, sz) (heap_live h))"
    using kmalloc_aligned_success(2,3) [OF assms(1), of ?k ATM_PAGE_SIZE h' p] assms(2) sz(2)
    by (auto simp: page_ok_def page_raw_def ATM_PAGE_SIZE_def)
  have p: "(raw = 0 \<longrightarrow> h' = h1 \<and> p = 0) \<and>
      (raw \<noteq> 0 \<longrightarrow> p = ALIGN (add64 raw 8) ATM_PAGE_SIZE \<and> h' = h1\<lparr>hmem := st (hmem h1) (sub64 p 8) 8 raw\<rparr>)"
    using assms(2) k al by (auto simp: kmalloc_aligned_def sz(1) Let_def split: if_splits)
  have "heap_keeps h h' \<and> (p = 0 \<longrightarrow> h' = h)"
  proof (cases "raw = 0")
    case True
    have "h1 = h" using kmalloc_failure(1) [OF assms(1), of 8200] k True by simp
    with True p kk show ?thesis by simp
  next
    case False
    note ks = kmalloc_success [OF assms(1) k False]
    from ks(5) obtain s where s: "ALIGN 8200 8 \<le> s" "heap_live h1 = insert (raw, s) (heap_live h)" "raw \<notin> fst ` heap_live h" by auto
    have rl: "(raw, s) \<in> heap_live h1" using s by simp
    have "8200 \<le> s" using s(1) by (simp add: ALIGN_8)
    moreover have "raw + s < M64" using live_pointer(2) [OF ks(1) rl] heap_inv_bounds [OF ks(1)] heap_end_eq [of h1]
      by (simp add: heap_bounds_def)
    ultimately have a: "add64 raw 8 = raw + 8" "raw + 8 \<le> ALIGN (raw + 8) ATM_PAGE_SIZE" "ALIGN (raw + 8) ATM_PAGE_SIZE < raw + 8 + 4096"
      using ALIGN_pow2_ge [of ?k "raw + 8"] by (auto simp: add64_small ATM_PAGE_SIZE_def)
    with p False have p': "p = ALIGN (raw + 8) ATM_PAGE_SIZE" "raw + 8 \<le> p" "p < raw + 4104" by simp_all
    have p8: "sub64 p 8 = p - 8" using p' \<open>8200 \<le> s\<close> \<open>raw + s < M64\<close> by (intro sub64_small) simp_all
    have "same_on (- {raw ..< raw + s}) (hmem h1) (st (hmem h1) (p - 8) 8 raw)"
      using p' \<open>8200 \<le> s\<close> by (intro same_on_st) auto
    from new_block_write(1) [OF kk rl s(3) this] show ?thesis using p p8 False p'(2) by simp
  qed
  then show "heap_keeps h h'" "p = 0 \<Longrightarrow> h' = h" by simp_all
qed

lemma kmemset_outside: "x < p \<or> p + n \<le> x \<Longrightarrow> kmemset m p v n x = m x"
  by (induction n arbitrary: m p) auto

lemma kmemset_inside: "p \<le> x \<Longrightarrow> x < p + n \<Longrightarrow> kmemset m p v n x = word_of_int v"
proof (induction n arbitrary: m p)
  case (Suc n)
  then show ?case by (cases "x = p") (auto simp: kmemset_outside)
qed simp

lemma ld_zero: "(\<And>x. a \<le> x \<Longrightarrow> x < a + n \<Longrightarrow> m x = 0) \<Longrightarrow> ld m a n = 0"
  by (induction n arbitrary: a) auto

lemma page_alloc_spec:
  assumes "heap_inv h" "page_alloc h = (h', p)"
  shows "heap_keeps h h'" "p = 0 \<Longrightarrow> h' = h"
    "p \<noteq> 0 \<Longrightarrow> page_ok h' p" "p \<noteq> 0 \<Longrightarrow> page_raw (hmem h') p \<notin> fst ` heap_live h"
    "p \<noteq> 0 \<Longrightarrow> \<exists>sz. heap_live h' = insert (page_raw (hmem h') p, sz) (heap_live h)"
    "p \<noteq> 0 \<Longrightarrow> i < 512 \<Longrightarrow> ent (hmem h') p i = 0"
proof -
  obtain h1 q where k: "kmalloc_aligned h ATM_PAGE_SIZE ATM_PAGE_SIZE = (h1, q)" by fastforce
  let ?m = "kmemset (hmem h1) p 0 ATM_PAGE_SIZE"
  have q: "q = p" "h' = (if p \<noteq> 0 then h1\<lparr>hmem := ?m\<rparr> else h1)" using assms(2) k by (auto simp: page_alloc_def)
  note a = kmalloc_aligned_page [OF assms(1) k, unfolded q(1)]
  show "p = 0 \<Longrightarrow> h' = h" using a(2) q(2) by simp
  have "p \<noteq> 0 \<Longrightarrow> heap_keeps h h' \<and> page_ok h' p \<and> page_raw (hmem h') p \<notin> fst ` heap_live h \<and>
      (\<exists>sz. heap_live h' = insert (page_raw (hmem h') p, sz) (heap_live h)) \<and> (\<forall>i < 512. ent (hmem h') p i = 0)"
  proof -
    assume p: "p \<noteq> 0"
    have f: "page_ok h1 p" "page_raw (hmem h1) p \<notin> fst ` heap_live h"
      "\<exists>sz. heap_live h1 = insert (page_raw (hmem h1) p, sz) (heap_live h)" using a(3) p by simp_all
    have h1: "heap_inv h1" using a(1) by (simp add: heap_keeps_def)
    have so: "same_on (- {p ..< p + 4096}) (hmem h1) ?m" by (auto simp: same_on_def kmemset_outside ATM_PAGE_SIZE_def)
    note w = page_write [OF h1 f(1) so]
    obtain sz where b: "(page_raw (hmem h1) p, sz) \<in> heap_live h1" "page_raw (hmem h1) p + 8 \<le> p" "p + 4096 \<le> page_raw (hmem h1) p + sz"
      by (rule page_block [OF f(1)])
    have "same_on (- {page_raw (hmem h1) p ..< page_raw (hmem h1) p + sz}) (hmem h1) ?m"
      by (rule same_on_mono [OF so]) (use b in auto)
    note nb = new_block_write [OF a(1) b(1) f(2) this]
    have "ent ?m p i = 0" if "i < 512" for i
      unfolding ent_def using that by (subst ld_zero) (auto simp: kmemset_inside ATM_PAGE_SIZE_def)
    then show ?thesis using p q(2) nb w(5,6) f(2,3) by simp
  qed
  then show "p \<noteq> 0 \<Longrightarrow> page_ok h' p" "p \<noteq> 0 \<Longrightarrow> page_raw (hmem h') p \<notin> fst ` heap_live h"
    "p \<noteq> 0 \<Longrightarrow> \<exists>sz. heap_live h' = insert (page_raw (hmem h') p, sz) (heap_live h)"
    "p \<noteq> 0 \<Longrightarrow> i < 512 \<Longrightarrow> ent (hmem h') p i = 0" "heap_keeps h h'"
    using a(1) q(2) by (cases "p = 0"; simp)+
qed

lemma space_keeps:
  assumes "space_inv h s" "heap_keeps h h'"
  shows "page_of s (hmem h') = page_of s (hmem h)" "block_of s (hmem h') = block_of s (hmem h)" "space_inv h' s"
  using space_frame [OF assms(1), of h'] assms(2) by (auto simp: heap_keeps_def)

subsection \<open>Changes of the tables\<close>

lemma ent_set_same: "ent (set_ent m t i e) t i = e"
proof -
  have "unat e < 256 ^ 8" using unsigned_less [of e, where ?'a = nat] by simp
  then show ?thesis by (simp add: ent_def set_ent_def)
qed

lemma ent_set_other: "j \<noteq> i \<Longrightarrow> ent (set_ent m t i e) t j = ent m t j"
  unfolding ent_def set_ent_def by (subst ld_st_disjoint) auto

lemma set_ent_page: "i < 512 \<Longrightarrow> same_on (- {t ..< t + 4096}) m (set_ent m t i e)"
  unfolding set_ent_def by (rule same_on_st) auto

lemma space_table_keeps:
  assumes "space_inv h s" "block_of s (hmem h) k = Some b" "\<forall>b'. b' \<noteq> b \<longrightarrow> keeps_block h h' b'"
    "page_of s (hmem h) k' = Some p" "k' \<noteq> k"
  shows "page_raw (hmem h') p = page_raw (hmem h) p" "page_ok h' p" "i < 512 \<Longrightarrow> ent (hmem h') p i = ent (hmem h) p i"
proof -
  note d = space_invD [OF assms(1)]
  have "k' \<noteq> Upt" using assms(4) by auto
  then have b': "block_of s (hmem h) k' = Some (page_raw (hmem h) p)" using assms(4) by (simp add: block_of_def)
  then have "page_raw (hmem h) p \<noteq> b" using owned_unique [OF d(8) b'] assms(2,5) by metis
  note kp = keeps_page [OF d(7) [OF assms(4)] assms(3) [rule_format, OF this]]
  show "page_raw (hmem h') p = page_raw (hmem h) p" "page_ok h' p" by (rule kp)+
  show "i < 512 \<Longrightarrow> ent (hmem h') p i = ent (hmem h) p i" by (rule kp)
qed

lemma user_pt_keeps:
  assumes "space_inv h s" "keeps_block h h' (us_user_pt s)" "n < 64"
  shows "user_pt s (hmem h') n = user_pt s (hmem h) n"
proof -
  obtain usz where u: "512 \<le> usz" "(us_user_pt s, usz) \<in> heap_live h" using space_invD(6) [OF assms(1)] by auto
  have "{us_user_pt s + 8 * n ..< us_user_pt s + 8 * n + 8} \<subseteq> {us_user_pt s ..< us_user_pt s + usz}" using assms(3) u(1) by auto
  moreover have "same_on {us_user_pt s ..< us_user_pt s + usz} (hmem h) (hmem h')" using assms(2) u(2) by (simp add: keeps_block_def)
  ultimately show ?thesis using same_on_ld by (simp add: user_pt_def)
qed

text \<open>A new value for the entry of one page.\<close>

lemma leaf_update:
  assumes "space_inv h s" "slot < 64" "user_pt s (hmem h) slot = t" "t \<noteq> 0" "i < 512"
    "bit e 0 \<longrightarrow> page_ok h (phys_ptr e) \<and> page_raw (hmem h) (phys_ptr e) \<notin> ran ((block_of s (hmem h))(Frame slot i := None))"
  defines "h' \<equiv> h\<lparr>hmem := set_ent (hmem h) t i e\<rparr>"
  shows "space_inv h' s" "heap_live h' = heap_live h"
    "page_of s (hmem h') = (page_of s (hmem h))(Frame slot i := if bit e 0 then Some (phys_ptr e) else None)"
    "block_of s (hmem h') = (block_of s (hmem h))(Frame slot i := if bit e 0 then Some (page_raw (hmem h) (phys_ptr e)) else None)"
    "n < 64 \<Longrightarrow> user_pt s (hmem h') n = user_pt s (hmem h) n"
    "n < 64 \<Longrightarrow> user_pt s (hmem h) n \<noteq> 0 \<Longrightarrow> j < 512 \<Longrightarrow>
      ent (hmem h') (user_pt s (hmem h) n) j = (if n = slot \<and> j = i then e else ent (hmem h) (user_pt s (hmem h) n) j)"
proof -
  note d = space_invD [OF assms(1)]
  let ?m = "hmem h" and ?b = "page_raw (hmem h) t"
  have pt: "page_of s ?m (Pt slot) = Some t" using assms(2-4) by simp
  then have bt: "block_of s ?m (Pt slot) = Some ?b" by (simp add: block_of_def)
  note w = page_write [OF d(4) d(7) [OF pt] set_ent_page [OF assms(5), where e = e], folded h'_def]
  have "\<forall>b'. b' \<noteq> ?b \<longrightarrow> keeps_block h h' b'" using w(4) by blast
  note tk = space_table_keeps [OF assms(1) bt this]
  have up: "us_user_pt s \<noteq> ?b" using owned_unique [OF d(8) bt, of Upt] by (auto simp: block_of_def)
  show upt: "user_pt s (hmem h') n = user_pt s ?m n" if "n < 64" for n by (rule user_pt_keeps [OF assms(1) w(4) [OF up] that])
  have h'm: "hmem h' = set_ent ?m t i e" by (simp add: h'_def)
  show leaf: "ent (hmem h') (user_pt s ?m n) j = (if n = slot \<and> j = i then e else ent ?m (user_pt s ?m n) j)"
    if "n < 64" "user_pt s ?m n \<noteq> 0" "j < 512" for n j
  proof (cases "n = slot")
    case True
    then show ?thesis unfolding h'm using assms(3) by (simp add: ent_set_same ent_set_other)
  next
    case False
    then show ?thesis using tk(3) [of "Pt n"] that by simp
  qed
  have po: "page_of s (hmem h') k = ((page_of s ?m)(Frame slot i := if bit e 0 then Some (phys_ptr e) else None)) k" for k
    using assms(2-5) by (cases k) (auto simp: upt leaf)
  then show po': "page_of s (hmem h') = (page_of s ?m)(Frame slot i := if bit e 0 then Some (phys_ptr e) else None)" by (rule ext)
  have kept: "page_raw (hmem h') p = page_raw ?m p \<and> page_ok h' p" if "page_of s ?m k = Some p" for k p
    using tk(1,2) [OF that] w(5,6) pt that h'm by (cases "k = Pt slot") (auto simp: h'_def)
  have new: "page_raw (hmem h') (phys_ptr e) = page_raw ?m (phys_ptr e) \<and> page_ok h' (phys_ptr e)" if "bit e 0"
  proof -
    have "?b \<in> ran ((block_of s ?m)(Frame slot i := None))" using bt by (intro ranI [of _ "Pt slot"]) simp
    then have "page_raw ?m (phys_ptr e) \<noteq> ?b" using assms(6) that by metis
    from keeps_page(1,2) [OF _ w(4) [OF this]] assms(6) that show ?thesis by blast
  qed
  have bo: "block_of s (hmem h') k = ((block_of s ?m)(Frame slot i := if bit e 0 then Some (page_raw ?m (phys_ptr e)) else None)) k" for k
    using po [of k] kept [of k] new by (cases "page_of s ?m k") (auto simp: block_of_def)
  then show bo': "block_of s (hmem h') = (block_of s ?m)(Frame slot i := if bit e 0 then Some (page_raw ?m (phys_ptr e)) else None)" by (rule ext)
  show live: "heap_live h' = heap_live h" by (rule w)
  have ow: "owned (block_of s (hmem h')) (fst ` heap_live h')"
  proof (cases "bit e 0")
    case True
    have r: "page_raw ?m (phys_ptr e) \<in> fst ` heap_live h" "page_raw ?m (phys_ptr e) \<notin> ran ((block_of s ?m)(Frame slot i := None))"
      using assms(6) True by (force simp: page_ok_def)+
    have "owned (((block_of s ?m)(Frame slot i := None))(Frame slot i \<mapsto> page_raw ?m (phys_ptr e))) (fst ` heap_live h)"
      by (rule owned_acquire [OF owned_release [OF d(8)] r])
    then show ?thesis using True by (simp add: bo' live)
  next
    case False
    then show ?thesis using owned_release [OF d(8)] by (simp add: bo' live)
  qed
  have "page_ok h' p" if "page_of s (hmem h') k = Some p" for k p
    using that kept new by (auto simp: po split: if_splits)
  moreover have "wired s (hmem h')"
    by (rule wired_frame [OF d(9) upt tk(3) [of Pml4] tk(3) [of Pdpt] tk(3) [of "Pd 1"]]) simp_all
  ultimately show "space_inv h' s" unfolding space_inv_def using d(1-3,5,6) w(1,3) ow live by simp
qed

lemma keeps_block_trans: "keeps_block h h' b \<Longrightarrow> keeps_block h' h'' b \<Longrightarrow> keeps_block h h'' b"
  unfolding keeps_block_def by (meson same_on_trans)

text \<open>A page table for a slot of the window that has none.\<close>

lemma new_table_memory:
  assumes "space_inv h s" "slot < 64" "user_pt s (hmem h) slot = 0" "page_alloc h = (h1, p)" "p \<noteq> 0"
  defines "m1 \<equiv> st (hmem h1) (us_user_pt s + 8 * slot) 8 p"
  defines "h' \<equiv> h1\<lparr>hmem := set_ent m1 (us_pd s ! 1) slot (pte p OR ATM_PTE_P OR ATM_PTE_W OR ATM_PTE_U)\<rparr>"
  shows "heap_inv h'" "heap_live h' = heap_live h1" "heap_end h' = heap_end h1"
    "b \<noteq> us_user_pt s \<Longrightarrow> b \<noteq> page_raw (hmem h) (us_pd s ! 1) \<Longrightarrow> keeps_block h1 h' b"
    "page_raw (hmem h') p = page_raw (hmem h1) p" "page_ok h' p" "i < 512 \<Longrightarrow> ent (hmem h') p i = 0"
    "n < 64 \<Longrightarrow> user_pt s (hmem h') n = (if n = slot then p else user_pt s (hmem h) n)"
    "page_of s (hmem h) k = Some q \<Longrightarrow> page_raw (hmem h') q = page_raw (hmem h) q \<and> page_ok h' q"
    "page_of s (hmem h) k = Some q \<Longrightarrow> k \<noteq> Pd 1 \<Longrightarrow> i < 512 \<Longrightarrow> ent (hmem h') q i = ent (hmem h) q i"
    "i < 512 \<Longrightarrow> ent (hmem h') (us_pd s ! 1) i =
       (if i = slot then pte p OR ATM_PTE_P OR ATM_PTE_W OR ATM_PTE_U else ent (hmem h) (us_pd s ! 1) i)"
proof -
  let ?m = "hmem h" and ?up = "us_user_pt s" and ?pd = "us_pd s ! 1"
  note pa = page_alloc_spec [OF space_invD(4) [OF assms(1)] assms(4)]
  note sk = space_keeps [OF assms(1) pa(1)]
  note d = space_invD [OF sk(3)]
  obtain usz where u: "512 \<le> usz" "(?up, usz) \<in> heap_live h1" using d(6) by auto
  have "same_on (- {?up ..< ?up + usz}) (hmem h1) m1" unfolding m1_def using assms(2) u(1) by (intro same_on_st) auto
  note w1 = block_write [OF d(4) u(2) this]
  let ?hA = "h1\<lparr>hmem := m1\<rparr>"
  have pd: "page_of s (hmem h1) (Pd 1) = Some ?pd" by simp
  then have bpd: "block_of s (hmem h1) (Pd 1) = Some (page_raw (hmem h1) ?pd)" by (simp add: block_of_def)
  have bup: "block_of s (hmem h1) Upt = Some ?up" by (simp add: block_of_def)
  have ne: "page_raw (hmem h1) ?pd \<noteq> ?up" using owned_unique [OF d(8) bpd, of Upt] bup by auto
  note kA = keeps_page [OF d(7) [OF pd] w1(4) [OF ne]]
  have slot512: "slot < 512" using assms(2) by simp
  note w2 = page_write [OF w1(1) kA(2) set_ent_page [OF slot512, where e = "pte p OR ATM_PTE_P OR ATM_PTE_W OR ATM_PTE_U"]]
  have h'A: "h' = ?hA\<lparr>hmem := set_ent (hmem ?hA) ?pd slot (pte p OR ATM_PTE_P OR ATM_PTE_W OR ATM_PTE_U)\<rparr>" by (simp add: h'_def)
  note w2' = w2 [folded h'A]
  show "heap_inv h'" "heap_end h' = heap_end h1" using w2'(1,3) w1(3) by simp_all
  show live: "heap_live h' = heap_live h1" using w2'(2) w1(2) by simp
  have rpd: "page_raw (hmem h1) ?pd = page_raw ?m ?pd"
    using sk(1,2) bpd by (metis block_of_def option.map(2) option.sel page_of.simps(4) pd pgkey.distinct(5))
  have keep: "keeps_block h1 h' b" if "b \<noteq> ?up" "b \<noteq> page_raw (hmem h1) ?pd" for b
    using keeps_block_trans [OF w1(4) [OF that(1)] w2'(4)] that(2) kA(1) by simp
  show "b \<noteq> ?up \<Longrightarrow> b \<noteq> page_raw ?m ?pd \<Longrightarrow> keeps_block h1 h' b" using keep rpd by simp
  have keepk: "page_raw (hmem h') q = page_raw (hmem h1) q" "page_ok h' q" "\<And>i. i < 512 \<Longrightarrow> ent (hmem h') q i = ent (hmem h1) q i"
    if "page_of s (hmem h1) k = Some q" "k \<noteq> Pd 1" for k q
  proof -
    have bk: "block_of s (hmem h1) k = Some (page_raw (hmem h1) q)" using that by (cases k) (auto simp: block_of_def)
    have "k \<noteq> Upt" using that by auto
    then have "page_raw (hmem h1) q \<noteq> ?up" "page_raw (hmem h1) q \<noteq> page_raw (hmem h1) ?pd"
      using owned_unique [OF d(8) bk] bup bpd that(2) by metis+
    note kp = keeps_page [OF d(7) [OF that(1)] keep [OF this]]
    show "page_raw (hmem h') q = page_raw (hmem h1) q" "page_ok h' q" by (rule kp)+
    show "\<And>i. i < 512 \<Longrightarrow> ent (hmem h') q i = ent (hmem h1) q i" by (rule kp)
  qed
  have fresh: "page_raw (hmem h1) p \<notin> ran (block_of s (hmem h1))"
    using pa(4) [OF assms(5)] space_invD(8) [OF assms(1)] sk(2) by (auto simp: owned_def)
  then have "page_raw (hmem h1) p \<noteq> ?up" "page_raw (hmem h1) p \<noteq> page_raw (hmem h1) ?pd"
    using bup bpd by (metis ranI)+
  note kp = keeps_page [OF pa(3) [OF assms(5)] keep [OF this]]
  show "page_raw (hmem h') p = page_raw (hmem h1) p" "page_ok h' p" by (rule kp)+
  show zero: "ent (hmem h') p i = 0" if "i < 512" for i using kp(4) [OF that] pa(6) [OF assms(5) that] by simp
  have "p < M64" using page_ok_bounds(2) [OF d(4,5) pa(3) [OF assms(5)]] by simp
  then have m1: "user_pt s m1 n = (if n = slot then p else user_pt s (hmem h1) n)" for n
    unfolding m1_def user_pt_def by (cases "n = slot") (simp, subst ld_st_disjoint, auto)
  have hA: "user_pt s (hmem h') n = user_pt s m1 n" if "n < 64" for n
  proof -
    have "{?up + 8 * n ..< ?up + 8 * n + 8} \<subseteq> {?up ..< ?up + usz}" using that u(1) by auto
    moreover have "keeps_block ?hA h' ?up" using w2'(4) ne kA(1) by simp
    then have "same_on {?up ..< ?up + usz} m1 (hmem h')" using u(2) w1(2) by (simp add: keeps_block_def)
    ultimately show ?thesis using same_on_ld by (simp add: user_pt_def)
  qed
  have u1: "user_pt s (hmem h1) n = user_pt s ?m n" if "n < 64" for n
    by (rule user_pt_keeps [OF assms(1) _ that]) (use pa(1) in \<open>simp add: heap_keeps_def\<close>)
  show upt: "user_pt s (hmem h') n = (if n = slot then p else user_pt s ?m n)" if "n < 64" for n
    using hA m1 u1 that by simp
  show praw: "page_raw (hmem h') q = page_raw ?m q \<and> page_ok h' q" if "page_of s ?m k = Some q" for k q
  proof -
    have k1: "page_of s (hmem h1) k = Some q" using that sk(1) by simp
    have "page_raw (hmem h1) q = page_raw ?m q"
      using keeps_page(1) [OF space_invD(7) [OF assms(1) that], of h1] pa(1) by (simp add: heap_keeps_def)
    moreover have "page_raw (hmem h') q = page_raw (hmem h1) q \<and> page_ok h' q"
    proof (cases "k = Pd 1")
      case True
      then show ?thesis using that w2'(5,6) kA(1) h'A by simp
    next
      case False
      then show ?thesis using keepk(1,2) [OF k1] by blast
    qed
    ultimately show ?thesis by simp
  qed
  show pdent: "ent (hmem h') ?pd i = (if i = slot then pte p OR ATM_PTE_P OR ATM_PTE_W OR ATM_PTE_U else ent ?m ?pd i)" if "i < 512" for i
  proof -
    have "ent (hmem h1) ?pd i = ent ?m ?pd i"
      using keeps_page(4) [OF space_invD(7) [OF assms(1), of "Pd 1"], of ?pd h1 i] pa(1) that by (simp add: heap_keeps_def)
    moreover have "ent m1 ?pd i = ent (hmem h1) ?pd i" using kA(4) [OF that] by simp
    ultimately show ?thesis by (cases "i = slot") (simp_all add: h'_def ent_set_same ent_set_other)
  qed
  show "ent (hmem h') q i = ent ?m q i" if "page_of s ?m k = Some q" "k \<noteq> Pd 1" "i < 512" for k q i
    using keepk(3) [of k q i] keeps_page(4) [OF space_invD(7) [OF assms(1) that(1)], of h1 i] that sk(1) pa(1)
    by (auto simp: heap_keeps_def)
qed

lemma new_table:
  assumes "space_inv h s" "slot < 64" "user_pt s (hmem h) slot = 0" "page_alloc h = (h1, p)" "p \<noteq> 0"
  defines "m1 \<equiv> st (hmem h1) (us_user_pt s + 8 * slot) 8 p"
  defines "h' \<equiv> h1\<lparr>hmem := set_ent m1 (us_pd s ! 1) slot (pte p OR ATM_PTE_P OR ATM_PTE_W OR ATM_PTE_U)\<rparr>"
  shows "space_inv h' s"
    "page_of s (hmem h') = (page_of s (hmem h))(Pt slot \<mapsto> p)"
    "block_of s (hmem h') = (block_of s (hmem h))(Pt slot \<mapsto> page_raw (hmem h1) p)"
proof -
  let ?m = "hmem h"
  note pa = page_alloc_spec [OF space_invD(4) [OF assms(1)] assms(4)]
  note sk = space_keeps [OF assms(1) pa(1)]
  note d = space_invD [OF sk(3)]
  note t = new_table_memory [OF assms(1-5), folded m1_def, folded h'_def]
  have leaf: "ent (hmem h') (user_pt s ?m n) i = ent ?m (user_pt s ?m n) i" if "n < 64" "user_pt s ?m n \<noteq> 0" "i < 512" for n i
    by (rule t(10) [of "Pt n"]) (use that in simp_all)
  have po: "page_of s (hmem h') k = ((page_of s ?m)(Pt slot \<mapsto> p)) k" for k
  proof (cases k)
    case (Frame n i)
    then show ?thesis using assms(2,3,5) t(7) [of i] by (auto simp: t(8) leaf)
  qed (use assms(2,3,5) in \<open>auto simp: t(8) split: if_splits\<close>)
  then show po': "page_of s (hmem h') = (page_of s ?m)(Pt slot \<mapsto> p)" by (rule ext)
  have bo: "block_of s (hmem h') k = ((block_of s ?m)(Pt slot \<mapsto> page_raw (hmem h1) p)) k" for k
    using po [of k] t(9) [of k] t(5) by (cases "page_of s ?m k") (auto simp: block_of_def)
  then show bo': "block_of s (hmem h') = (block_of s ?m)(Pt slot \<mapsto> page_raw (hmem h1) p)" by (rule ext)
  have fresh: "page_raw (hmem h1) p \<notin> ran (block_of s (hmem h1))"
    using pa(4) [OF assms(5)] space_invD(8) [OF assms(1)] sk(2) by (auto simp: owned_def)
  have "page_raw (hmem h1) p \<in> fst ` heap_live h1" using pa(5) [OF assms(5)] by force
  then have ow: "owned (block_of s (hmem h')) (fst ` heap_live h')"
    using owned_acquire [OF d(8) _ fresh, of "Pt slot"] sk(2) by (simp add: bo' t(2))
  have ok: "page_ok h' q" if "page_of s (hmem h') k = Some q" for k q
    using that t(9) t(6) by (auto simp: po split: if_splits)
  note w = space_invD(9) [OF assms(1)]
  have "pd_entry_ok s (hmem h') i" if "i < 512" for i
  proof -
    have "pd_entry_ok s ?m i" using w that by (simp add: wired_def)
    then show ?thesis using t(11) [OF that] t(8) [of i] assms(2,5) by (cases "i < 64") (auto simp: pd_entry_ok_def split: if_splits)
  qed
  then have "wired s (hmem h')" using w t(10) [of Pml4] t(10) [of Pdpt] by (simp add: wired_def)
  then show "space_inv h' s"
    unfolding space_inv_def using d(1-3,5,6) t(1-3) ow ok by auto
qed

subsection \<open>The operations on pages\<close>

lemma st_same: "st m a n (ld m a n) = m"
proof (induction n arbitrary: m a)
  case (Suc n)
  have u: "unat (m a) < 256" using unsigned_less [of "m a", where ?'a = nat] by simp
  then have "(unat (m a) + 256 * ld m (Suc a) n) div 256 = ld m (Suc a) n" by simp
  moreover have "word_of_nat (unat (m a) + 256 * ld m (Suc a) n) = m a"
  proof -
    have "(256 :: u8) = 0" by simp
    then show ?thesis by (simp only: of_nat_add of_nat_mult of_nat_numeral mult_zero_left of_nat_unat ucast_id add_0_right)
  qed
  ultimately have "st m a (Suc n) (ld m a (Suc n)) = st (m(a := m a)) (Suc a) n (ld m (Suc a) n)" by simp
  then show ?case using Suc.IH [of m "Suc a"] by simp
qed simp

lemma translate_eq:
  assumes "us_valid s"
  shows "paging_user_translate (Some s) m va =
    (if user_window va \<and> user_pt s m (user_pt_slot va) \<noteq> 0 \<and> user_ok (ent m (user_pt s m (user_pt_slot va)) (user_pt_page va))
     then Some ((ent m (user_pt s m (user_pt_slot va)) (user_pt_page va) AND ATM_PAGE_MASK) OR (va AND 0xfff),
                ent m (user_pt s m (user_pt_slot va)) (user_pt_page va))
     else None)"
  using assms window_indices(6) [of va] by (auto simp: paging_user_translate_def PT_COUNT_64 user_ok_def Let_def)

lemma user_table_spec:
  assumes "space_inv h s" "slot < 64" "user_table s slot h = (h1, ok)"
  shows "space_inv h1 s" "\<not> ok \<Longrightarrow> h1 = h" "ok \<Longrightarrow> user_pt s (hmem h1) slot \<noteq> 0"
    "k \<noteq> Pt slot \<Longrightarrow> page_of s (hmem h1) k = page_of s (hmem h) k"
    "k \<noteq> Pt slot \<Longrightarrow> block_of s (hmem h1) k = block_of s (hmem h) k"
    "paging_user_translate (Some s) (hmem h1) va = paging_user_translate (Some s) (hmem h) va"
    "b \<in> fst ` heap_live h \<Longrightarrow> b \<notin> ran (block_of s (hmem h)) \<Longrightarrow> keeps_block h h1 b \<and> b \<notin> ran (block_of s (hmem h1))"
    "heap_live h \<subseteq> heap_live h1" "block_of s (hmem h) (Frame n i) = Some b \<Longrightarrow> keeps_block h h1 b"
proof -
  note d = space_invD [OF assms(1)]
  let ?m = "hmem h"
  let ?P = "\<lambda>h1. space_inv h1 s \<and> (\<not> ok \<longrightarrow> h1 = h) \<and> (ok \<longrightarrow> user_pt s (hmem h1) slot \<noteq> 0) \<and>
    (\<forall>k. k \<noteq> Pt slot \<longrightarrow> page_of s (hmem h1) k = page_of s ?m k \<and> block_of s (hmem h1) k = block_of s ?m k) \<and>
    (\<forall>va. paging_user_translate (Some s) (hmem h1) va = paging_user_translate (Some s) ?m va) \<and>
    (\<forall>b \<in> fst ` heap_live h. b \<notin> ran (block_of s ?m) \<longrightarrow> keeps_block h h1 b \<and> b \<notin> ran (block_of s (hmem h1))) \<and>
    heap_live h \<subseteq> heap_live h1 \<and> (\<forall>n i b. block_of s ?m (Frame n i) = Some b \<longrightarrow> keeps_block h h1 b)"
  have "?P h1"
  proof (cases "user_pt s ?m slot = 0")
    case False
    then have "h1 = h" "ok" using assms(3) by (simp_all add: user_table_def)
    then show ?thesis using assms(1) False by (simp add: keeps_block_def)
  next
    case True
    obtain h0 p where pa: "page_alloc h = (h0, p)" by fastforce
    note ps = page_alloc_spec [OF d(4) pa]
    show ?thesis
    proof (cases "p = 0")
      case p: True
      have "st ?m (us_user_pt s + 8 * slot) 8 0 = ?m" using st_same [of ?m "us_user_pt s + 8 * slot" 8] True by (simp add: user_pt_def)
      then have "h1 = h" "\<not> ok" using assms(3) True pa p ps(2) by (auto simp: user_table_def)
      then show ?thesis using assms(1) by (simp add: keeps_block_def)
    next
      case p: False
      have h1: "h1 = h0\<lparr>hmem := set_ent (st (hmem h0) (us_user_pt s + 8 * slot) 8 p) (us_pd s ! 1) slot
          (pte p OR ATM_PTE_P OR ATM_PTE_W OR ATM_PTE_U)\<rparr>" "ok"
        using assms(3) True pa p by (auto simp: user_table_def)
      note t = new_table [OF assms(1,2) True pa p, folded h1(1)] and tm = new_table_memory [OF assms(1,2) True pa p, folded h1(1)]
      have sub: "heap_live h \<subseteq> heap_live h1" using ps(5) [OF p] tm(2) by auto
      have "paging_user_translate (Some s) (hmem h1) va = paging_user_translate (Some s) ?m va" for va
      proof (cases "user_window va")
        case w: True
        note wi = window_indices [OF w]
        show ?thesis
          using tm(8) [OF wi(6)] tm(7) [OF wi(7)] tm(10) [of "Pt (user_pt_slot va)" _ "user_pt_page va"] wi(6,7) True p
          by (auto simp: translate_eq [OF d(1)] user_ok_bit)
      qed (simp add: translate_eq [OF d(1)])
      moreover have "keeps_block h h1 b \<and> b \<notin> ran (block_of s (hmem h1))"
        if b: "b \<in> fst ` heap_live h" "b \<notin> ran (block_of s ?m)" for b
      proof -
        have "us_user_pt s \<in> ran (block_of s ?m)" "page_raw ?m (us_pd s ! 1) \<in> ran (block_of s ?m)"
          by (rule ranI [of _ Upt], simp add: block_of_def, rule ranI [of _ "Pd 1"], simp add: block_of_def)
        then have "keeps_block h0 h1 b" using tm(4) b(2) by metis
        moreover have "keeps_block h h0 b" using ps(1) by (simp add: heap_keeps_def)
        moreover have "b \<noteq> page_raw (hmem h0) p" using b(1) ps(4) [OF p] by blast
        then have "b \<notin> ran (block_of s (hmem h1))" using b(2) unfolding t(3) by (auto simp: ran_def split: if_splits)
        ultimately show ?thesis using keeps_block_trans by blast
      qed
      moreover have "keeps_block h h1 b" if b: "block_of s ?m (Frame n i) = Some b" for n i b
      proof -
        have "b \<noteq> us_user_pt s" "b \<noteq> page_raw ?m (us_pd s ! 1)"
          using owned_unique [OF d(8) b, of Upt] owned_unique [OF d(8) b, of "Pd 1"] by (auto simp: block_of_def)
        from tm(4) [OF this] show ?thesis using ps(1) keeps_block_trans [of h h0 b h1] by (simp add: heap_keeps_def)
      qed
      ultimately show ?thesis using t(1) tm(8) [OF assms(2)] p h1(2) sub by (simp add: t(2,3))
    qed
  qed
  then show "space_inv h1 s" "\<not> ok \<Longrightarrow> h1 = h" "ok \<Longrightarrow> user_pt s (hmem h1) slot \<noteq> 0"
    "k \<noteq> Pt slot \<Longrightarrow> page_of s (hmem h1) k = page_of s (hmem h) k"
    "k \<noteq> Pt slot \<Longrightarrow> block_of s (hmem h1) k = block_of s (hmem h) k"
    "paging_user_translate (Some s) (hmem h1) va = paging_user_translate (Some s) (hmem h) va"
    "b \<in> fst ` heap_live h \<Longrightarrow> b \<notin> ran (block_of s (hmem h)) \<Longrightarrow> keeps_block h h1 b \<and> b \<notin> ran (block_of s (hmem h1))"
    "heap_live h \<subseteq> heap_live h1" "block_of s (hmem h) (Frame n i) = Some b \<Longrightarrow> keeps_block h h1 b" by blast+
qed

definition same_page :: "u64 \<Rightarrow> u64 \<Rightarrow> bool" where
  "same_page va va' \<longleftrightarrow> unat va div 4096 = unat va' div 4096"

lemma same_page_window: "same_page va va' \<Longrightarrow> user_window va \<Longrightarrow> user_window va'"
proof -
  assume a: "same_page va va'" "user_window va"
  have w: "0x40000000 \<le> unat va" "unat va < 0x48000000" using a(2) by (simp_all add: user_window_unat)
  have "0x40000 \<le> unat va div 4096" using div_le_mono [OF w(1), of 4096] by simp
  moreover have "unat va div 4096 < 0x48000" by (rule less_mult_imp_div_less) (use w(2) in simp)
  ultimately have "0x40000 \<le> unat va' div 4096" "unat va' div 4096 < 0x48000" using a(1) by (simp_all add: same_page_def)
  moreover have "unat va' div 4096 * 4096 + unat va' mod 4096 = unat va'" "unat va' mod 4096 < 4096" by simp_all
  ultimately have "0x40000000 \<le> unat va'" "unat va' < 0x48000000" by linarith+
  then show ?thesis by (simp add: user_window_unat)
qed

lemma digits_512: "512 * a + b = 512 * c + d \<longleftrightarrow> a = c \<and> b = d" if "b < 512" "d < 512" for a b c d :: nat
proof
  assume e: "512 * a + b = 512 * c + d"
  have "(512 * a + b) div 512 = a" "(512 * c + d) div 512 = c" using that by simp_all
  with e have "a = c" by simp
  with e show "a = c \<and> b = d" by simp
qed simp

lemma same_page_indices:
  assumes "user_window va" "user_window va'"
  shows "user_pt_slot va' = user_pt_slot va \<and> user_pt_page va' = user_pt_page va \<longleftrightarrow> same_page va va'"
proof -
  have d: "unat v div 4096 = 512 * (512 + user_pt_slot v) + user_pt_page v" if "user_window v" for v
  proof -
    have "unat v = 512 * 2 ^ 21 + (unat v - 0x40000000)" using that by (simp add: user_window_unat)
    then have "unat v div 2 ^ 21 = 512 + user_pt_slot v"
      unfolding user_pt_slot_unat [OF that] by (metis div_mult_self3 power_not_zero zero_neq_numeral)
    moreover have "unat v div 4096 div 512 = unat v div 2 ^ 21" by (simp add: div_mult2_eq [symmetric])
    moreover have "unat v div 4096 = 512 * (unat v div 4096 div 512) + user_pt_page v"
      unfolding user_pt_page_unat by (rule mult_div_mod_eq [symmetric])
    ultimately show ?thesis by simp
  qed
  note b = window_indices(7) [OF assms(1)] window_indices(7) [OF assms(2)]
  show ?thesis unfolding same_page_def d [OF assms(1)] d [OF assms(2)] unfolding digits_512 [OF b] by auto
qed

lemma leaf_translate:
  assumes "space_inv h s" "user_window va" "user_pt s (hmem h) (user_pt_slot va) = t" "t \<noteq> 0"
    "bit e 0 \<longrightarrow> page_ok h (phys_ptr e) \<and>
       page_raw (hmem h) (phys_ptr e) \<notin> ran ((block_of s (hmem h))(Frame (user_pt_slot va) (user_pt_page va) := None))"
  shows "paging_user_translate (Some s) (set_ent (hmem h) t (user_pt_page va) e) va' =
    (if same_page va va' then if user_ok e then Some ((e AND ATM_PAGE_MASK) OR (va' AND 0xfff), e) else None
     else paging_user_translate (Some s) (hmem h) va')"
proof -
  note wi = window_indices [OF assms(2)]
  note l = leaf_update [OF assms(1) wi(6) assms(3,4) wi(7) assms(5)]
  show ?thesis
  proof (cases "user_window va'")
    case True
    note wi' = window_indices [OF True]
    have "paging_user_translate (Some s) (set_ent (hmem h) t (user_pt_page va) e) va' =
      (if user_pt_slot va' = user_pt_slot va \<and> user_pt_page va' = user_pt_page va
       then if user_ok e then Some ((e AND ATM_PAGE_MASK) OR (va' AND 0xfff), e) else None
       else paging_user_translate (Some s) (hmem h) va')"
      using l(5) [OF wi'(6)] l(6) [OF wi'(6) _ wi'(7)] True assms(3,4)
      unfolding translate_eq [OF space_invD(1) [OF assms(1)]] by (cases "user_pt s (hmem h) (user_pt_slot va') = 0") auto
    then show ?thesis using same_page_indices [OF assms(2) True] by simp
  next
    case False
    then have "\<not> same_page va va'" using same_page_window assms(2) by blast
    then show ?thesis using False by (simp add: translate_eq [OF space_invD(1) [OF assms(1)]])
  qed
qed

lemma mapped_pages_irrelevant:
  "page_of (s\<lparr>us_mapped_pages := x\<rparr>) m = page_of s m" "block_of (s\<lparr>us_mapped_pages := x\<rparr>) m = block_of s m"
  "space_inv h (s\<lparr>us_mapped_pages := x\<rparr>) = space_inv h s"
  "paging_user_translate (Some (s\<lparr>us_mapped_pages := x\<rparr>)) m va = paging_user_translate (Some s) m va"
proof -
  have u: "user_pt (s\<lparr>us_mapped_pages := x\<rparr>) m = user_pt s m" for m by (rule ext) (simp add: user_pt_def)
  have "page_of (s\<lparr>us_mapped_pages := x\<rparr>) m k = page_of s m k" for k m by (cases k) (simp_all add: u)
  then show p: "page_of (s\<lparr>us_mapped_pages := x\<rparr>) m = page_of s m" for m by (rule ext)
  show b: "block_of (s\<lparr>us_mapped_pages := x\<rparr>) m = block_of s m" for m by (rule ext) (simp add: block_of_def p)
  show "space_inv h (s\<lparr>us_mapped_pages := x\<rparr>) = space_inv h s"
    by (simp add: space_inv_def p b wired_def pd_entry_ok_def u)
  show "paging_user_translate (Some (s\<lparr>us_mapped_pages := x\<rparr>)) m va = paging_user_translate (Some s) m va"
    by (simp add: paging_user_translate_def u)
qed

lemma page_entry_phys: "phys_ptr (page_entry phys flags) = phys_ptr phys" "user_ok (page_entry phys flags)"
  by (simp_all add: phys_ptr_def page_entry_mask user_ok_bit bit_page_entry)

text \<open>Mapping a page that no part of the space uses yet.\<close>

lemma map_spec:
  assumes "space_inv h s" "page_ok h (phys_ptr phys)" "page_raw (hmem h) (phys_ptr phys) \<notin> ran (block_of s (hmem h))"
    "paging_map_user_page (Some s) va phys flags h = (sp, h', rc)"
  obtains s' where "sp = Some s'" "space_inv h' s'" "rc = 0 \<or> rc = -1"
    "rc = 0 \<Longrightarrow> user_window va \<and> va AND 0xfff = 0"
    "\<And>va'. paging_user_translate (Some s') (hmem h') va' =
      (if rc = 0 \<and> same_page va va' then Some ((phys AND ATM_PAGE_MASK) OR (va' AND 0xfff), page_entry phys flags)
       else paging_user_translate (Some s) (hmem h) va')"
    "\<And>b. b \<in> fst ` heap_live h \<Longrightarrow> b \<notin> ran (block_of s (hmem h)) \<Longrightarrow> keeps_block h h' b"
    "\<forall>n i b. block_of s (hmem h) (Frame n i) = Some b \<longrightarrow> keeps_block h h' b"
    "\<forall>b \<in> fst ` heap_live h - ran (block_of s (hmem h)). b \<noteq> page_raw (hmem h) (phys_ptr phys) \<longrightarrow> b \<notin> ran (block_of s' (hmem h'))"
proof (cases "user_window va \<and> va AND 0xfff = 0")
  case False
  then have r: "sp = Some s" "h' = h" "rc = -1" using assms(4) by (auto simp: paging_map_user_page_def split: if_splits)
  show thesis by (rule that [OF r(1)]) (use assms(1) r in \<open>simp_all add: keeps_block_def\<close>)
next
  case True
  then have w: "user_window va" by blast
  note wi = window_indices [OF w]
  obtain h1 ok where ut: "user_table s (user_pt_slot va) h = (h1, ok)" by fastforce
  note u = user_table_spec [OF assms(1) wi(6) ut]
  show thesis
  proof (cases ok)
    case False
    then have r: "sp = Some s" "h' = h" "rc = -1" using assms(4) True wi(6) ut u(2) space_invD(1) [OF assms(1)]
      by (auto simp: paging_map_user_page_def PT_COUNT_64)
    show thesis by (rule that [OF r(1)]) (use assms(1) r in \<open>simp_all add: keeps_block_def\<close>)
  next
    case ok: True
    let ?t = "user_pt s (hmem h1) (user_pt_slot va)" and ?e = "page_entry phys flags" and ?r = "page_raw (hmem h) (phys_ptr phys)"
    have rl: "?r \<in> fst ` heap_live h" using assms(2) by (force simp: page_ok_def)
    have k1: "keeps_block h h1 ?r" "?r \<notin> ran (block_of s (hmem h1))" using u(7) [OF rl assms(3)] by blast+
    note kp = keeps_page [OF assms(2) k1(1)]
    have e: "bit ?e 0 \<longrightarrow> page_ok h1 (phys_ptr ?e) \<and>
        page_raw (hmem h1) (phys_ptr ?e) \<notin> ran ((block_of s (hmem h1))(Frame (user_pt_slot va) (user_pt_page va) := None))"
      using kp(1,2) k1(2) by (auto simp: page_entry_phys ran_def)
    note l = leaf_update [OF u(1) wi(6) refl u(3) [OF ok] wi(7) e] and lt = leaf_translate [OF u(1) w refl u(3) [OF ok] e]
    let ?s' = "if us_mapped_pages s \<le> unat (va - ATM_USER_BASE) div ATM_PAGE_SIZE
               then s\<lparr>us_mapped_pages := unat (va - ATM_USER_BASE) div ATM_PAGE_SIZE + 1\<rparr> else s"
    have r: "sp = Some ?s'" "h' = h1\<lparr>hmem := set_ent (hmem h1) ?t (user_pt_page va) ?e\<rparr>" "rc = 0"
      using assms(4) True wi(6) ut ok space_invD(1) [OF assms(1)]
      by (auto simp: paging_map_user_page_def PT_COUNT_64 page_entry_def Let_def)
    show thesis
    proof (rule that [OF r(1)])
      show "space_inv h' ?s'" using l(1) by (simp add: r(2) mapped_pages_irrelevant)
      show "paging_user_translate (Some ?s') (hmem h') va' =
          (if rc = 0 \<and> same_page va va' then Some ((phys AND ATM_PAGE_MASK) OR (va' AND 0xfff), ?e)
           else paging_user_translate (Some s) (hmem h) va')" for va'
        using lt [of va'] u(6) [of va'] by (simp add: r mapped_pages_irrelevant page_entry_phys page_entry_mask)
      show "keeps_block h h' b" if "b \<in> fst ` heap_live h" "b \<notin> ran (block_of s (hmem h))" for b
      proof -
        have pt: "page_of s (hmem h1) (Pt (user_pt_slot va)) = Some ?t" using wi(6) u(3) [OF ok] by simp
        then have "page_raw (hmem h1) ?t \<in> ran (block_of s (hmem h1))" by (intro ranI [of _ "Pt (user_pt_slot va)"]) (simp add: block_of_def)
        then have "b \<noteq> page_raw (hmem h1) ?t" using u(7) [OF that] by metis
        from page_write(4) [OF space_invD(4) [OF u(1)] space_invD(7) [OF u(1) pt] set_ent_page [OF wi(7)] this]
        show ?thesis unfolding r(2) using keeps_block_trans u(7) [OF that] by blast
      qed
      have pt: "page_of s (hmem h1) (Pt (user_pt_slot va)) = Some ?t" using wi(6) u(3) [OF ok] by simp
      then have bt: "block_of s (hmem h1) (Pt (user_pt_slot va)) = Some (page_raw (hmem h1) ?t)" by (simp add: block_of_def)
      show "\<forall>n i b. block_of s (hmem h) (Frame n i) = Some b \<longrightarrow> keeps_block h h' b"
      proof (intro allI impI)
        fix n i b
        assume b: "block_of s (hmem h) (Frame n i) = Some b"
        then have "block_of s (hmem h1) (Frame n i) = Some b" using u(5) [of "Frame n i"] by simp
        then have "b \<noteq> page_raw (hmem h1) ?t" using owned_unique [OF space_invD(8) [OF u(1)] bt, of "Frame n i"] by auto
        from page_write(4) [OF space_invD(4) [OF u(1)] space_invD(7) [OF u(1) pt] set_ent_page [OF wi(7)] this]
        show "keeps_block h h' b" unfolding r(2) using keeps_block_trans u(9) [OF b] by blast
      qed
      have "block_of ?s' (hmem h') = (block_of s (hmem h1))(Frame (user_pt_slot va) (user_pt_page va) := Some ?r)"
        using l(4) kp(1) by (simp add: r(2) mapped_pages_irrelevant page_entry_phys bit_page_entry)
      then show "\<forall>b \<in> fst ` heap_live h - ran (block_of s (hmem h)). b \<noteq> ?r \<longrightarrow> b \<notin> ran (block_of ?s' (hmem h'))"
        using u(7) by (auto simp: ran_def split: if_splits)
    qed (use r(3) True in simp_all)
  qed
qed

subsection \<open>Releasing a page\<close>

text \<open>\<open>kfree\<close> takes the eight bytes 32 below a pointer for the mark of a block header.\<close>

definition clean :: "heap \<Rightarrow> nat \<Rightarrow> bool" where
  "clean h p \<longleftrightarrow> hdr_magic (hmem h) (p - HDR) \<noteq> HEAP_MAGIC"

lemma live_header:
  "chain m q bs a e \<Longrightarrow> (p, s) \<in> set (live bs a) \<Longrightarrow>
     hdr_size m (p - HDR) = s \<and> hdr_free m (p - HDR) = 0 \<and> hdr_next m (p - HDR) mod 8 = 0"
proof (induction bs arbitrary: q a)
  case (Cons b bs)
  then have c: "hdr_size m a = bsize b" "hdr_free m a = of_bool (bfree b)" "chain m (hdr_next m a) bs (a + HDR + bsize b) e" by simp_all
  have n: "hdr_next m a mod 8 = 0" using c(3) by (cases bs) auto
  show ?case
  proof (cases "(p, s) \<in> set (live bs (a + HDR + bsize b))")
    case True
    then show ?thesis by (rule Cons.IH [OF c(3)])
  next
    case False
    then have "\<not> bfree b" "p = a + HDR" "s = bsize b" using Cons.prems(2) by (auto split: if_splits)
    then show ?thesis using c n by simp
  qed
qed simp

lemma ld_split: "ld m a (n + k) = ld m a n + 256 ^ n * ld m (a + n) k"
  by (induction n arbitrary: a) (simp_all add: algebra_simps)

text \<open>Whether a page can be released depends on its own block only.\<close>

lemma clean_keeps:
  assumes "heap_inv h" "heap_inv h'" "page_ok h p" "keeps_block h h' (page_raw (hmem h) p)" "clean h p"
  shows "clean h' p"
proof -
  let ?b = "page_raw (hmem h) p"
  obtain sz where r: "(?b, sz) \<in> heap_live h" "?b + 8 \<le> p" "p + 4096 \<le> ?b + sz" by (rule page_block [OF assms(3)])
  have r': "(?b, sz) \<in> heap_live h'" "same_on {?b ..< ?b + sz} (hmem h) (hmem h')" using assms(4) r(1) by (auto simp: keeps_block_def)
  have b: "HDR \<le> ?b" "?b mod 8 = 0" using live_pointer(1,4) [OF assms(1) r(1)] by auto
  show ?thesis
  proof (cases "?b + HDR \<le> p")
    case True
    then have "{p - HDR ..< p - HDR + 8} \<subseteq> {?b ..< ?b + sz}" using r by (auto simp: HDR_def)
    then show ?thesis using same_on_ld [OF r'(2)] assms(5) by (simp add: clean_def hdr_magic_def)
  next
    case False
    note lh = live_header [OF heap_inv_chain [OF assms(1)], of ?b sz] live_header [OF heap_inv_chain [OF assms(2)], of ?b sz]
    have h: "hdr_size (hmem h) (?b - HDR) = sz" "hdr_size (hmem h') (?b - HDR) = sz" "hdr_free (hmem h') (?b - HDR) = 0"
      "hdr_next (hmem h') (?b - HDR) mod 8 = 0" using lh r(1) r'(1) by (simp_all add: heap_live_def)
    have "(4096 :: nat) dvd p" using assms(3) by (simp add: page_ok_def mod_0_imp_dvd)
    then have "(8 :: nat) dvd p" by (rule dvd_trans [rotated]) simp
    then obtain x where x: "p = 8 * x" by (rule dvdE)
    have "(8 :: nat) dvd ?b" using b(2) by (rule mod_0_imp_dvd)
    then obtain y where y: "?b = 8 * y" by (rule dvdE)
    have "y + 1 \<le> x" "x < y + 4" using False r(2) x y unfolding HDR_def by linarith+
    then consider "x = y + 1" | "x = y + 2" | "x = y + 3" by arith
    then show ?thesis
    proof cases
      case 1
      then have "p - HDR = ?b - HDR + 8" using b(1) x y by linarith
      then show ?thesis using assms(5) h(1,2) by (simp add: clean_def hdr_magic_def hdr_size_def)
    next
      case 2
      then have "p - HDR = ?b - HDR + 16" using b(1) x y by linarith
      then have m: "hdr_magic (hmem h') (p - HDR) = 4294967296 * ld (hmem h') (?b - HDR + 16 + 4) 4"
        using h(3) ld_split [of "hmem h'" "?b - HDR + 16" 4 4] by (simp add: hdr_magic_def hdr_free_def)
      have "4294967296 * k \<noteq> HEAP_MAGIC" for k by (cases k) (simp_all add: HEAP_MAGIC_def)
      then show ?thesis by (simp add: clean_def m)
    next
      case 3
      then have "p - HDR = ?b - HDR + 24" using b(1) x y by linarith
      then have "hdr_magic (hmem h') (p - HDR) = hdr_next (hmem h') (?b - HDR)" by (simp add: hdr_magic_def hdr_next_def)
      moreover have "HEAP_MAGIC mod 8 \<noteq> 0" by (simp add: HEAP_MAGIC_def)
      ultimately show ?thesis using h(4) unfolding clean_def by metis
    qed
  qed
qed

lemma kfree_block:
  assumes "heap_inv h" "(b, s) \<in> heap_live h" "0 < s"
  shows "heap_inv (kfree h b)" "heap_live (kfree h b) = {r \<in> heap_live h. fst r \<noteq> b}" "heap_end (kfree h b) = heap_end h"
    "b' \<noteq> b \<Longrightarrow> keeps_block h (kfree h b) b'"
proof -
  note k = kfree_live [OF assms]
  show "heap_inv (kfree h b)" "heap_live (kfree h b) = {r \<in> heap_live h. fst r \<noteq> b}" by (rule k)+
  show "heap_end (kfree h b) = heap_end h" using k(2,3) by (simp add: heap_end_def)
  show "b' \<noteq> b \<Longrightarrow> keeps_block h (kfree h b) b'" using k(4,5) by (auto simp: keeps_block_def)
qed

lemma kfree_page:
  assumes "heap_inv h" "page_ok h p" "clean h p"
  shows "heap_inv (kfree h p)" "heap_live (kfree h p) = {r \<in> heap_live h. fst r \<noteq> page_raw (hmem h) p}"
    "heap_end (kfree h p) = heap_end h" "b' \<noteq> page_raw (hmem h) p \<Longrightarrow> keeps_block h (kfree h p) b'"
proof -
  obtain sz where r: "(page_raw (hmem h) p, sz) \<in> heap_live h" "page_raw (hmem h) p + 8 \<le> p" "p + 4096 \<le> page_raw (hmem h) p + sz"
    by (rule page_block [OF assms(2)])
  have "kfree h p = kfree h (page_raw (hmem h) p)"
    by (rule kfree_via_back_pointer [OF assms(1) r(1,2)]) (use r assms(3) in \<open>simp_all add: page_raw_def clean_def\<close>)
  moreover have "0 < sz" using r by simp
  note kfree_block [OF assms(1) r(1) this]
  ultimately show "heap_inv (kfree h p)" "heap_live (kfree h p) = {r \<in> heap_live h. fst r \<noteq> page_raw (hmem h) p}"
    "heap_end (kfree h p) = heap_end h" "b' \<noteq> page_raw (hmem h) p \<Longrightarrow> keeps_block h (kfree h p) b'" by simp_all
qed

lemma user_entry_Some:
  assumes "user_entry (Some s) va m = Some (t, i)"
  shows "user_window va" "va AND 0xfff = 0" "user_pt s m (user_pt_slot va) = t" "t \<noteq> 0" "i = user_pt_page va"
  using assms by (auto simp: user_entry_def split: if_splits)

text \<open>A new entry for a page that has one, on the same frame or on none.\<close>

lemma entry_update:
  assumes "space_inv h s" "user_entry (Some s) va (hmem h) = Some (t, i)"
    "bit e 0 \<longrightarrow> bit (ent (hmem h) t i) 0 \<and> phys_ptr e = phys_ptr (ent (hmem h) t i)"
  defines "h' \<equiv> h\<lparr>hmem := set_ent (hmem h) t i e\<rparr>"
  shows "space_inv h' s" "heap_live h' = heap_live h"
    "block_of s (hmem h') = (if bit e 0 then block_of s (hmem h) else (block_of s (hmem h))(Frame (user_pt_slot va) i := None))"
    "paging_user_translate (Some s) (hmem h') va' =
      (if same_page va va' then if user_ok e then Some ((e AND ATM_PAGE_MASK) OR (va' AND 0xfff), e) else None
       else paging_user_translate (Some s) (hmem h) va')"
    "b \<notin> ran (block_of s (hmem h)) \<Longrightarrow> keeps_block h h' b"
    "k \<noteq> Pt (user_pt_slot va) \<Longrightarrow> block_of s (hmem h) k = Some b \<Longrightarrow> keeps_block h h' b"
proof -
  note d = space_invD [OF assms(1)]
  note u = user_entry_Some [OF assms(2)]
  note wi = window_indices [OF u(1)]
  let ?k = "Frame (user_pt_slot va) i"
  have fr: "page_of s (hmem h) ?k = Some (phys_ptr e)" "block_of s (hmem h) ?k = Some (page_raw (hmem h) (phys_ptr e))" if "bit e 0"
    using assms(3) that u(3-5) wi(6,7) by (simp_all add: block_of_def)
  have e: "bit e 0 \<longrightarrow> page_ok h (phys_ptr e) \<and> page_raw (hmem h) (phys_ptr e) \<notin> ran ((block_of s (hmem h))(?k := None))"
    using d(7) [OF fr(1)] owned_released [OF d(8) fr(2)] by blast
  have "i < 512" using u(5) wi(7) by simp
  note l = leaf_update [OF assms(1) wi(6) u(3,4) this e, folded h'_def]
  show "space_inv h' s" "heap_live h' = heap_live h" by (rule l)+
  show "block_of s (hmem h') = (if bit e 0 then block_of s (hmem h) else (block_of s (hmem h))(?k := None))"
    using l(4) fr(2) by (auto simp: fun_eq_iff)
  show "paging_user_translate (Some s) (hmem h') va' =
      (if same_page va va' then if user_ok e then Some ((e AND ATM_PAGE_MASK) OR (va' AND 0xfff), e) else None
       else paging_user_translate (Some s) (hmem h) va')"
    using leaf_translate [OF assms(1) u(1,3,4), of e va'] e u(5) by (simp add: h'_def)
  have pt: "page_of s (hmem h) (Pt (user_pt_slot va)) = Some t" using u(3,4) wi(6) by simp
  then have bt: "block_of s (hmem h) (Pt (user_pt_slot va)) = Some (page_raw (hmem h) t)" by (simp add: block_of_def)
  note w = page_write(4) [OF d(4) d(7) [OF pt] set_ent_page [OF \<open>i < 512\<close>, where e = e], folded h'_def]
  show "b \<notin> ran (block_of s (hmem h)) \<Longrightarrow> keeps_block h h' b" using w ranI [of "block_of s (hmem h)", OF bt] by metis
  show "k \<noteq> Pt (user_pt_slot va) \<Longrightarrow> block_of s (hmem h) k = Some b \<Longrightarrow> keeps_block h h' b"
    using w owned_unique [OF d(8) bt] by metis
qed

lemma unmap_spec:
  assumes "space_inv h s" "paging_unmap_user_page (Some s) va h = (h', rc)"
  shows "space_inv h' s" "heap_live h' = heap_live h"
    "paging_user_translate (Some s) (hmem h') va' =
      (if rc = 0 \<and> same_page va va' then None else paging_user_translate (Some s) (hmem h) va')"
    "b \<notin> ran (block_of s (hmem h)) \<Longrightarrow> keeps_block h h' b"
proof -
  have "space_inv h' s \<and> heap_live h' = heap_live h \<and> paging_user_translate (Some s) (hmem h') va' =
      (if rc = 0 \<and> same_page va va' then None else paging_user_translate (Some s) (hmem h) va') \<and>
      (b \<notin> ran (block_of s (hmem h)) \<longrightarrow> keeps_block h h' b)"
  proof (cases "user_entry (Some s) va (hmem h)")
    case None
    then show ?thesis using assms by (auto simp: paging_unmap_user_page_def keeps_block_def)
  next
    case (Some ti)
    then obtain t i where ti: "user_entry (Some s) va (hmem h) = Some (t, i)" by (cases ti) simp
    have r: "h' = h\<lparr>hmem := set_ent (hmem h) t i 0\<rparr>" "rc = 0" using assms(2) ti by (auto simp: paging_unmap_user_page_def)
    note e = entry_update [OF assms(1) ti, of 0, folded r(1)]
    show ?thesis using e(1,2) e(4) [of va'] e(5) [of b] r(2) by (simp add: user_ok_bit)
  qed
  then show "space_inv h' s" "heap_live h' = heap_live h"
    "paging_user_translate (Some s) (hmem h') va' =
      (if rc = 0 \<and> same_page va va' then None else paging_user_translate (Some s) (hmem h) va')"
    "b \<notin> ran (block_of s (hmem h)) \<Longrightarrow> keeps_block h h' b" by blast+
qed

lemma protect_spec:
  assumes "space_inv h s" "paging_protect_user_page (Some s) va flags h = (h', rc)"
  shows "space_inv h' s" "heap_live h' = heap_live h" "block_of s (hmem h') = block_of s (hmem h)"
    "paging_user_translate (Some s) (hmem h') va' =
      (case paging_user_translate (Some s) (hmem h) va' of
         Some (p, e) \<Rightarrow> Some (p, if rc = 0 \<and> same_page va va' then page_entry e flags else e)
       | None \<Rightarrow> None)"
    "b \<notin> ran (block_of s (hmem h)) \<Longrightarrow> keeps_block h h' b"
proof -
  let ?T = "\<lambda>h'. \<forall>va'. paging_user_translate (Some s) (hmem h') va' =
      (case paging_user_translate (Some s) (hmem h) va' of
         Some (p, e) \<Rightarrow> Some (p, if rc = 0 \<and> same_page va va' then page_entry e flags else e)
       | None \<Rightarrow> None)"
  have "space_inv h' s \<and> heap_live h' = heap_live h \<and> block_of s (hmem h') = block_of s (hmem h) \<and> ?T h' \<and>
      (\<forall>b. b \<notin> ran (block_of s (hmem h)) \<longrightarrow> keeps_block h h' b)"
  proof (cases "rc = 0")
    case False
    then have "h' = h" using assms(2) by (auto simp: paging_protect_user_page_def Let_def split: option.splits if_splits)
    then show ?thesis using assms(1) False by (auto simp: keeps_block_def split: option.split)
  next
    case rc: True
    then obtain t i where ti: "user_entry (Some s) va (hmem h) = Some (t, i)" and ok: "user_ok (ent (hmem h) t i)"
      and h': "h' = h\<lparr>hmem := set_ent (hmem h) t i (page_entry (ent (hmem h) t i) flags)\<rparr>"
      using assms(2) by (auto simp: paging_protect_user_page_def Let_def user_ok_def page_entry_def split: option.splits if_splits)
    let ?old = "ent (hmem h) t i"
    note u = user_entry_Some [OF ti]
    have b0: "bit (page_entry ?old flags) 0" "bit ?old 0" using ok by (simp_all add: bit_page_entry user_ok_bit)
    note e = entry_update [OF assms(1) ti, of "page_entry ?old flags", folded h', simplified page_entry_phys(1)]
    have old: "paging_user_translate (Some s) (hmem h) va' = Some ((?old AND ATM_PAGE_MASK) OR (va' AND 0xfff), ?old)" if "same_page va va'" for va'
      using same_page_window [OF that u(1)] same_page_indices [OF u(1), of va'] that u(3-5) ok
      by (simp add: translate_eq [OF space_invD(1) [OF assms(1)]])
    have "?T h'" using e(4) b0 old rc by (auto simp: page_entry_phys page_entry_mask split: option.split)
    then show ?thesis using e(1-3,5) b0 by auto
  qed
  then show "space_inv h' s" "heap_live h' = heap_live h" "block_of s (hmem h') = block_of s (hmem h)"
    "paging_user_translate (Some s) (hmem h') va' =
      (case paging_user_translate (Some s) (hmem h) va' of
         Some (p, e) \<Rightarrow> Some (p, if rc = 0 \<and> same_page va va' then page_entry e flags else e)
       | None \<Rightarrow> None)"
    "b \<notin> ran (block_of s (hmem h)) \<Longrightarrow> keeps_block h h' b" by blast+
qed

lemma translate_keeps:
  assumes "space_inv h s" "keeps_block h h' (us_user_pt s)"
    "\<And>n p. page_of s (hmem h) (Pt n) = Some p \<Longrightarrow> keeps_block h h' (page_raw (hmem h) p)"
  shows "paging_user_translate (Some s) (hmem h') va = paging_user_translate (Some s) (hmem h) va"
proof (cases "user_window va")
  case True
  note wi = window_indices [OF True]
  let ?t = "user_pt s (hmem h) (user_pt_slot va)"
  have u: "user_pt s (hmem h') (user_pt_slot va) = ?t" by (rule user_pt_keeps [OF assms(1,2) wi(6)])
  have "ent (hmem h') ?t (user_pt_page va) = ent (hmem h) ?t (user_pt_page va)" if "?t \<noteq> 0"
  proof -
    have p: "page_of s (hmem h) (Pt (user_pt_slot va)) = Some ?t" using that wi(6) by simp
    show ?thesis by (rule keeps_page(4) [OF space_invD(7) [OF assms(1) p] assms(3) [OF p] wi(7)])
  qed
  then show ?thesis by (auto simp: translate_eq [OF space_invD(1) [OF assms(1)]] u)
qed (simp add: translate_eq [OF space_invD(1) [OF assms(1)]])

lemma translate_frame:
  assumes "space_inv h s" "paging_user_translate (Some s) (hmem h) va = Some (p, e)"
  shows "page_of s (hmem h) (Frame (user_pt_slot va) (user_pt_page va)) = Some (phys_ptr e)"
    "unat p = phys_ptr e + unat va mod 4096" "page_ok h (phys_ptr e)" "user_window va"
    "block_of s (hmem h) (Frame (user_pt_slot va) (user_pt_page va)) = Some (page_raw (hmem h) (phys_ptr e))"
proof -
  note t = assms(2) [unfolded translate_eq [OF space_invD(1) [OF assms(1)]]]
  show w: "user_window va" using t by (auto split: if_splits)
  note wi = window_indices [OF w]
  show p: "page_of s (hmem h) (Frame (user_pt_slot va) (user_pt_page va)) = Some (phys_ptr e)"
    using t wi(6,7) by (auto simp: user_ok_bit split: if_splits)
  show "unat p = phys_ptr e + unat va mod 4096" using t by (auto simp: phys_offset unat_page_off split: if_splits)
  show "page_ok h (phys_ptr e)" by (rule space_invD(7) [OF assms(1) p])
  show "block_of s (hmem h) (Frame (user_pt_slot va) (user_pt_page va)) = Some (page_raw (hmem h) (phys_ptr e))"
    using p by (simp add: block_of_def del: page_of.simps)
qed

lemma frame_write_translate:
  assumes "space_inv h s" "page_of s (hmem h) (Frame n i) = Some p" "same_on (- {p ..< p + 4096}) (hmem h) m'"
  shows "paging_user_translate (Some s) m' va = paging_user_translate (Some s) (hmem h) va"
proof -
  note d = space_invD [OF assms(1)]
  have b: "block_of s (hmem h) (Frame n i) = Some (page_raw (hmem h) p)" using assms(2) by (simp add: block_of_def)
  note w = page_write(4) [OF d(4) d(7) [OF assms(2)] assms(3)]
  have "keeps_block h (h\<lparr>hmem := m'\<rparr>) (us_user_pt s)"
    by (rule w) (use owned_unique [OF d(8) b, of Upt] in \<open>auto simp: block_of_def\<close>)
  moreover have "keeps_block h (h\<lparr>hmem := m'\<rparr>) (page_raw (hmem h) q)" if "page_of s (hmem h) (Pt n') = Some q" for n' q
    by (rule w) (use owned_unique [OF d(8) b, of "Pt n'"] that in \<open>auto simp: block_of_def\<close>)
  ultimately show ?thesis using translate_keeps [OF assms(1), of "h\<lparr>hmem := m'\<rparr>" va] by simp
qed

text \<open>Releasing a page gives back its block, unless the bytes below it look like a header.\<close>

lemma release_spec:
  assumes "space_inv h s" "paging_release_user_page (Some s) va h = (h', 0)"
    "paging_user_translate (Some s) (hmem h) va = Some (p, e)" "clean h (phys_ptr e)"
  shows "space_inv h' s" "heap_live h' = {r \<in> heap_live h. fst r \<noteq> page_raw (hmem h) (phys_ptr e)}"
    "paging_user_translate (Some s) (hmem h') va' = (if same_page va va' then None else paging_user_translate (Some s) (hmem h) va')"
    "b \<notin> ran (block_of s (hmem h)) \<Longrightarrow> keeps_block h h' b"
proof -
  note d = space_invD [OF assms(1)]
  note f = translate_frame [OF assms(1,3)]
  let ?k = "Frame (user_pt_slot va) (user_pt_page va)" and ?b = "page_raw (hmem h) (phys_ptr e)"
  obtain t i where ti: "user_entry (Some s) va (hmem h) = Some (t, i)"
    and h': "h' = kfree (h\<lparr>hmem := set_ent (hmem h) t i 0\<rparr>) (phys_ptr (ent (hmem h) t i))"
    using assms(2) by (auto simp: paging_release_user_page_def Let_def split: option.splits if_splits)
  note u = user_entry_Some [OF ti]
  let ?h1 = "h\<lparr>hmem := set_ent (hmem h) t i 0\<rparr>"
  have e: "ent (hmem h) t i = e"
    using assms(3) u(3,5) by (auto simp: translate_eq [OF d(1)] split: if_splits)
  note en = entry_update [OF assms(1) ti, of 0, simplified, folded u(5)]
  have kb: "keeps_block h ?h1 ?b" using entry_update(6) [OF assms(1) ti, of 0 ?k ?b] f(5) by simp
  note kp = keeps_page [OF f(3) kb]
  have cl: "clean ?h1 (phys_ptr e)" using clean_keeps [OF d(4) space_invD(4) [OF en(1)] f(3) kb assms(4)] .
  note kf = kfree_page [OF space_invD(4) [OF en(1)] kp(2) cl, unfolded kp(1)]
  have bo: "block_of s (hmem ?h1) = (block_of s (hmem h))(?k := None)" using en(3) u(5) by simp
  have keep: "keeps_block ?h1 h' b'" if "block_of s (hmem ?h1) k = Some b'" for k b'
  proof -
    have "b' \<noteq> ?b" using that owned_unique [OF d(8) f(5), of k] unfolding bo by (auto split: if_splits)
    then show ?thesis using kf(4) by (simp add: h' e)
  qed
  have fr: "space_inv h' s" using space_frame(3) [OF en(1), of h'] kf(1,3) keep by (simp add: h' e)
  show "space_inv h' s" by (rule fr)
  show "heap_live h' = {r \<in> heap_live h. fst r \<noteq> ?b}" using kf(2) en(2) by (simp add: h' e)
  have "paging_user_translate (Some s) (hmem h') va' = paging_user_translate (Some s) (hmem ?h1) va'"
  proof (rule translate_keeps [OF en(1)])
    show "keeps_block ?h1 h' (us_user_pt s)" by (rule keep [of Upt]) (simp add: block_of_def)
    show "keeps_block ?h1 h' (page_raw (hmem ?h1) q)" if "page_of s (hmem ?h1) (Pt n) = Some q" for n q
      by (rule keep [of "Pt n"]) (use that in \<open>simp add: block_of_def\<close>)
  qed
  then show "paging_user_translate (Some s) (hmem h') va' = (if same_page va va' then None else paging_user_translate (Some s) (hmem h) va')"
    using entry_update(4) [OF assms(1) ti, of 0 va'] by (simp add: user_ok_bit)
  show "b \<notin> ran (block_of s (hmem h)) \<Longrightarrow> keeps_block h h' b"
  proof -
    assume b: "b \<notin> ran (block_of s (hmem h))"
    then have "b \<noteq> ?b" using ranI [of "block_of s (hmem h)", OF f(5)] by metis
    then have "keeps_block ?h1 h' b" using kf(4) by (simp add: h' e)
    moreover have "keeps_block h ?h1 b" using entry_update(5) [OF assms(1) ti, of 0 b] b by simp
    ultimately show ?thesis using keeps_block_trans by blast
  qed
qed

subsection \<open>User memory\<close>

definition user_access :: "user_space_t \<Rightarrow> mem \<Rightarrow> u64 \<Rightarrow> bool \<Rightarrow> bool" where
  "user_access s m va wr \<longleftrightarrow>
    (case paging_user_translate (Some s) m va of None \<Rightarrow> False | Some (p, e) \<Rightarrow> wr \<longrightarrow> e AND ATM_PTE_W \<noteq> 0)"

definition user_phys :: "user_space_t \<Rightarrow> mem \<Rightarrow> u64 \<Rightarrow> nat" where
  "user_phys s m va = (case paging_user_translate (Some s) m va of None \<Rightarrow> 0 | Some (p, e) \<Rightarrow> unat p)"

lemma user_access_window: "user_access s m va wr \<Longrightarrow> user_window va"
  by (auto simp: user_access_def dest: translate_window split: option.splits)

lemma translate_same_page:
  assumes "us_valid s" "paging_user_translate (Some s) m va = Some (p, e)" "same_page va va'"
  shows "paging_user_translate (Some s) m va' = Some ((e AND ATM_PAGE_MASK) OR (va' AND 0xfff), e)"
proof -
  have w: "user_window va" using translate_window [OF assms(2)] .
  have w': "user_window va'" by (rule same_page_window [OF assms(3) w])
  show ?thesis using assms(2) w w' same_page_indices [OF w w'] assms(3) by (auto simp: translate_eq [OF assms(1)] split: if_splits)
qed

lemma same_page_sym: "same_page va va' \<longleftrightarrow> same_page va' va"
  by (auto simp: same_page_def)

lemma access_same_page:
  assumes "us_valid s" "same_page va va'"
  shows "user_access s m va' wr = user_access s m va wr"
proof -
  have "user_access s m v' wr" if v: "user_access s m v wr" "same_page v v'" for v v'
  proof -
    obtain p e where t: "paging_user_translate (Some s) m v = Some (p, e)" "wr \<longrightarrow> e AND ATM_PTE_W \<noteq> 0"
      using v(1) by (auto simp: user_access_def split: option.splits)
    show ?thesis using translate_same_page [OF assms(1) t(1) v(2)] t(2) by (simp add: user_access_def)
  qed
  from this [of va va'] this [of va' va] show ?thesis using assms(2) same_page_sym [of va va'] by blast
qed

lemma range_loop_iff:
  assumes "us_valid s" "unat page mod 4096 = 0" "unat last_page mod 4096 = 0" "unat page \<le> unat last_page" "user_window last_page"
  shows "range_loop s m page last_page wr \<longleftrightarrow>
    (\<forall>va. unat page \<le> unat va \<and> unat va < unat last_page + 4096 \<longrightarrow> user_access s m va wr)"
  using assms
proof (induction s m page last_page wr rule: range_loop.induct)
  case (1 s m page last_page wr)
  have in_page: "same_page page va" if "unat page \<le> unat va" "unat va < unat page + 4096" for va
  proof -
    obtain q where q: "unat page = 4096 * q" using "1.prems"(2) by (metis mod_0_imp_dvd dvdE)
    then have "unat va div 4096 = q" using that by (intro div_nat_eqI) simp_all
    then show ?thesis using q by (simp add: same_page_def)
  qed
  show ?case
  proof (cases "user_access s m page wr")
    case False
    then have "\<not> range_loop s m page last_page wr"
      by (subst range_loop.simps) (auto simp: user_access_def split: option.splits)
    then show ?thesis using False "1.prems"(4) by auto
  next
    case acc: True
    then obtain p f where t: "paging_user_translate (Some s) m page = Some (p, f)" "\<not> (wr \<and> f AND ATM_PTE_W = 0)"
      by (auto simp: user_access_def split: option.splits)
    show ?thesis
    proof (cases "page = last_page")
      case True
      then have "range_loop s m page last_page wr" using t by (subst range_loop.simps) simp
      moreover have "user_access s m va wr" if "unat page \<le> unat va" "unat va < unat page + 4096" for va
        using access_same_page [OF "1.prems"(1) in_page [OF that]] acc by simp
      ultimately show ?thesis using True by blast
    next
      case False
      let ?n = "page + word_of_nat ATM_PAGE_SIZE"
      have w: "user_window page" by (rule user_access_window [OF acc])
      have n: "unat ?n = unat page + 4096" using unat_add_page [OF w, of 4096] by (simp add: ATM_PAGE_SIZE_def)
      have "unat page \<noteq> unat last_page" using False by (metis word_unat_eq_iff)
      moreover obtain q r where "unat page = 4096 * q" "unat last_page = 4096 * r"
        using "1.prems"(2,3) by (metis mod_0_imp_dvd dvdE)
      ultimately have le: "unat ?n \<le> unat last_page" using "1.prems"(4) n by simp
      have "range_loop s m page last_page wr = range_loop s m ?n last_page wr" using t False by (subst range_loop.simps) auto
      also have "\<dots> \<longleftrightarrow> (\<forall>va. unat ?n \<le> unat va \<and> unat va < unat last_page + 4096 \<longrightarrow> user_access s m va wr)"
        by (rule "1.IH" [OF t(1) refl t(2) False "1.prems"(1) _ "1.prems"(3) le "1.prems"(5)]) (use "1.prems"(2) in \<open>simp add: n\<close>)
      also have "\<dots> \<longleftrightarrow> (\<forall>va. unat page \<le> unat va \<and> unat va < unat last_page + 4096 \<longrightarrow> user_access s m va wr)"
      proof (intro iffI allI impI)
        fix va :: u64
        assume "\<forall>va. unat ?n \<le> unat va \<and> unat va < unat last_page + 4096 \<longrightarrow> user_access s m va wr"
          "unat page \<le> unat va \<and> unat va < unat last_page + 4096"
        then show "user_access s m va wr"
          using access_same_page [OF "1.prems"(1) in_page, of va m wr] acc n by (cases "unat ?n \<le> unat va") simp_all
      next
        fix va :: u64
        assume "\<forall>va. unat page \<le> unat va \<and> unat va < unat last_page + 4096 \<longrightarrow> user_access s m va wr"
          "unat ?n \<le> unat va \<and> unat va < unat last_page + 4096"
        then show "user_access s m va wr" using n by simp
      qed
      finally show ?thesis .
    qed
  qed
qed

lemma unat_page_of: "user_window va \<Longrightarrow> unat (va AND ATM_PAGE_MASK) = unat va div 4096 * 4096"
proof -
  assume w: "user_window va"
  have "va AND ATM_PAGE_MASK = va AND NOT (mask 12)"
  proof -
    have "\<not> bit va n" if "52 \<le> n" for n
    proof -
      have "unat va < 2 ^ 52" using w by (simp add: user_window_unat)
      also have "(2 :: nat) ^ 52 \<le> 2 ^ n" using that by (rule power_increasing) simp
      finally have "\<not> bit (unat va) n" by (simp add: bit_iff_odd)
      then show ?thesis by (simp add: bit_unsigned_iff)
    qed
    then show ?thesis by (auto simp: u64_eq_iff bit_simps bit_consts) (meson not_less)
  qed
  then have "unat (va AND ATM_PAGE_MASK) = unat va - unat va mod 4096" using unat_and_not_mask [of va 12] by simp
  then show ?thesis by (simp add: minus_mod_eq_div_mult)
qed

lemma unat_add_window:
  "user_window va \<Longrightarrow> unat va + i \<le> 0x48000000 \<Longrightarrow> unat (va + word_of_nat i) = unat va + i"
proof -
  assume a: "user_window va" "unat va + i \<le> 0x48000000"
  then have "unat (word_of_nat i :: u64) = i" by (simp add: unat_of_nat user_window_unat)
  then show ?thesis using a unat_add_lem [of va "word_of_nat i"] by simp
qed

lemma user_range_bounds:
  assumes "paging_user_range (Some s) m va (word_of_nat n) wr" "n < 2 ^ 64"
  shows "0 < n" "user_window va" "unat va + n \<le> 0x48000000"
proof -
  have sz: "unat (word_of_nat n :: u64) = n" using assms(2) by (simp add: unat_of_nat)
  have c: "word_of_nat n \<noteq> (0 :: u64)" "user_window va" "word_of_nat n \<le> ATM_USER_WINDOW_SIZE" "user_window (va + word_of_nat n - 1)"
    using assms(1) by (auto simp: paging_user_range_def Let_def split: if_splits)
  show n0: "0 < n" using c(1) by (cases n) simp_all
  show "user_window va" by (rule c)
  have n: "n \<le> 0x08000000" using c(3) sz by (auto simp: word_le_nat_alt ATM_USER_WINDOW_SIZE_def)
  have "unat va < 0x48000000" using c(2) by (simp add: user_window_unat)
  then have "unat va + (n - 1) < 0x50000000" using n by linarith
  then have "unat va + (n - 1) < 2 ^ 64" by simp
  moreover have "unat (word_of_nat (n - 1) :: u64) = n - 1" using n by (simp add: unat_of_nat)
  ultimately have u: "unat (va + word_of_nat (n - 1)) = unat va + (n - 1)" using unat_add_lem [of va "word_of_nat (n - 1)"] by simp
  have "va + word_of_nat n - 1 = va + word_of_nat (n - 1)" using n0 by (simp add: of_nat_diff)
  with u have "unat (va + word_of_nat n - 1) = unat va + (n - 1)" by (simp only:)
  then have "unat va + (n - 1) < 0x48000000" using c(4) unfolding user_window_unat by simp
  then show "unat va + n \<le> 0x48000000" using n0 by linarith
qed

text \<open>Each page that a range of bytes touches holds a byte of the range.\<close>

lemma page_cover:
  fixes a v n :: nat
  assumes "0 < n" "a div 4096 * 4096 \<le> v" "v < (a + (n - 1)) div 4096 * 4096 + 4096"
  shows "\<exists>i < n. (a + i) div 4096 = v div 4096"
proof -
  consider "v \<le> a" | "a < v" "v \<le> a + (n - 1)" | "a + (n - 1) < v" by linarith
  then show ?thesis
  proof cases
    case 1
    have "a div 4096 \<le> v div 4096" using div_le_mono [OF assms(2), of 4096] by simp
    then show ?thesis using div_le_mono [OF 1, of 4096] assms(1) by (intro exI [of _ 0]) simp
  next
    case 2
    then show ?thesis using assms(1) by (intro exI [of _ "v - a"]) simp
  next
    case 3
    have "(a + (n - 1)) div 4096 \<le> v div 4096" using 3 by (intro div_le_mono) simp
    moreover have "v div 4096 < (a + (n - 1)) div 4096 + 1" using assms(3) by (intro less_mult_imp_div_less) simp
    ultimately show ?thesis using assms(1) by (intro exI [of _ "n - 1"]) simp
  qed
qed

lemma user_range_loop:
  assumes "us_valid s" "0 < n" "user_window va" "unat va + n \<le> 0x48000000"
  shows "paging_user_range (Some s) m va (word_of_nat n) wr \<longleftrightarrow>
    (\<forall>v. unat va div 4096 * 4096 \<le> unat v \<and> unat v < (unat va + (n - 1)) div 4096 * 4096 + 4096 \<longrightarrow> user_access s m v wr)"
proof -
  let ?e = "va + word_of_nat n - 1"
  have n: "n \<le> 0x08000000" using assms(3,4) by (simp add: user_window_unat)
  have sz: "unat (word_of_nat n :: u64) = n" using n by (simp add: unat_of_nat)
  have e': "?e = va + word_of_nat (n - 1)" using assms(2) by (simp add: of_nat_diff)
  have "unat va + (n - 1) \<le> 0x48000000" using assms(4) by linarith
  then have e: "unat ?e = unat va + (n - 1)" unfolding e' by (rule unat_add_window [OF assms(3)])
  have w: "user_window ?e" using assms e by (auto simp: user_window_unat)
  have nz: "word_of_nat n \<noteq> (0 :: u64)" using assms(2) sz by (metis less_irrefl unat_0)
  have le: "word_of_nat n \<le> ATM_USER_WINDOW_SIZE" using n sz by (simp add: word_le_nat_alt ATM_USER_WINDOW_SIZE_def)
  have ge: "\<not> ?e < va" using e by (simp add: word_less_nat_alt)
  have "paging_user_range (Some s) m va (word_of_nat n) wr = range_loop s m (va AND ATM_PAGE_MASK) (?e AND ATM_PAGE_MASK) wr"
    using w assms(3) nz le ge by (simp add: paging_user_range_def Let_def not_less [symmetric])
  moreover have "unat va div 4096 \<le> unat ?e div 4096" using e by (intro div_le_mono) simp
  moreover have "user_window (?e AND ATM_PAGE_MASK)"
    by (rule same_page_window [OF _ w]) (simp add: same_page_def unat_page_of [OF w])
  ultimately show ?thesis
    using range_loop_iff [of s "va AND ATM_PAGE_MASK" "?e AND ATM_PAGE_MASK" m wr] assms(1,3) e by (simp add: unat_page_of w)
qed

text \<open>\<open>paging_user_range\<close> accepts exactly the ranges whose every byte the user may access.\<close>

lemma user_range_iff:
  assumes "us_valid s" "n < 2 ^ 64"
  shows "paging_user_range (Some s) m va (word_of_nat n) wr \<longleftrightarrow>
    0 < n \<and> user_window va \<and> unat va + n \<le> 0x48000000 \<and> (\<forall>i < n. user_access s m (va + word_of_nat i) wr)"
proof (cases "0 < n \<and> user_window va \<and> unat va + n \<le> 0x48000000")
  case False
  then show ?thesis using user_range_bounds [OF _ assms(2)] by blast
next
  case True
  have v: "unat (va + word_of_nat i) = unat va + i" if "i < n" for i using unat_add_window [of va i] True that by simp
  have "(\<forall>v. unat va div 4096 * 4096 \<le> unat v \<and> unat v < (unat va + (n - 1)) div 4096 * 4096 + 4096 \<longrightarrow> user_access s m v wr) \<longleftrightarrow>
    (\<forall>i < n. user_access s m (va + word_of_nat i) wr)" (is "?L \<longleftrightarrow> ?R")
  proof
    assume l: ?L
    have "(unat va + (n - 1)) mod 4096 < 4096" by simp
    then have "unat va + (n - 1) < (unat va + (n - 1)) div 4096 * 4096 + 4096" using div_mult_mod_eq [of "unat va + (n - 1)" 4096] by linarith
    moreover have "unat va div 4096 * 4096 \<le> unat va" by simp
    ultimately have "unat va div 4096 * 4096 \<le> unat va + i \<and> unat va + i < (unat va + (n - 1)) div 4096 * 4096 + 4096" if "i < n" for i
      using that by linarith
    then show ?R using l v by metis
  next
    assume r: ?R
    show ?L
    proof (intro allI impI)
      fix x :: u64
      assume x: "unat va div 4096 * 4096 \<le> unat x \<and> unat x < (unat va + (n - 1)) div 4096 * 4096 + 4096"
      then obtain i where i: "i < n" "(unat va + i) div 4096 = unat x div 4096" using page_cover [of n "unat va" "unat x"] True by blast
      then have "same_page (va + word_of_nat i) x" using v by (simp add: same_page_def)
      then show "user_access s m x wr" using r i(1) access_same_page [OF assms(1)] by blast
    qed
  qed
  then show ?thesis using user_range_loop [OF assms(1)] True by blast
qed

lemma within_page:
  fixes x i :: nat
  assumes "i + x mod 4096 < 4096"
  shows "(x + i) div 4096 = x div 4096" "(x + i) mod 4096 = x mod 4096 + i"
proof -
  have i: "i div 4096 = 0" "i mod 4096 = i" "(x mod 4096 + i) div 4096 = 0" "(x mod 4096 + i) mod 4096 = x mod 4096 + i"
    using assms by simp_all
  show "(x + i) div 4096 = x div 4096" unfolding div_add1_eq [of x i] i by simp
  show "(x + i) mod 4096 = x mod 4096 + i" using mod_add_left_eq [of x 4096 i] i(4) by (simp only:)
qed

lemma user_phys_page:
  assumes "us_valid s" "paging_user_translate (Some s) m va = Some (p, e)" "i < page_room va"
  shows "same_page va (va + word_of_nat i)" "user_phys s m (va + word_of_nat i) = unat p + i" "unat (va + word_of_nat i) = unat va + i"
proof -
  note w = translate_window [OF assms(2)]
  have r: "i + unat va mod 4096 < 4096" using assms(3) by (simp add: page_room_def unat_page_off ATM_PAGE_SIZE_def)
  then show v: "unat (va + word_of_nat i) = unat va + i" using unat_add_page [OF w, of i] by simp
  note a = within_page [OF r]
  show sp: "same_page va (va + word_of_nat i)" by (simp add: same_page_def v a)
  have p: "unat p = phys_ptr e + unat va mod 4096"
    using assms(2) by (auto simp: translate_eq [OF assms(1)] phys_offset unat_page_off split: if_splits)
  show "user_phys s m (va + word_of_nat i) = unat p + i"
    using translate_same_page [OF assms(1,2) sp] a p by (simp add: user_phys_def phys_offset unat_page_off v)
qed

text \<open>Different user addresses are different bytes of memory.\<close>

lemma user_phys_inj:
  assumes "space_inv h s" "user_access s (hmem h) va False" "user_access s (hmem h) va' False"
    "user_phys s (hmem h) va = user_phys s (hmem h) va'"
  shows "va = va'"
proof -
  obtain p e where t: "paging_user_translate (Some s) (hmem h) va = Some (p, e)" using assms(2) by (auto simp: user_access_def split: option.splits)
  obtain p' e' where t': "paging_user_translate (Some s) (hmem h) va' = Some (p', e')" using assms(3) by (auto simp: user_access_def split: option.splits)
  note f = translate_frame [OF assms(1) t] and f' = translate_frame [OF assms(1) t']
  have eq: "phys_ptr e + unat va mod 4096 = phys_ptr e' + unat va' mod 4096" using assms(4) t t' f(2) f'(2) by (simp add: user_phys_def)
  obtain q q' where q: "phys_ptr e = 4096 * q" "phys_ptr e' = 4096 * q'" using phys_ptr_aligned(1) by (metis mod_0_imp_dvd dvdE)
  have "(4096 * q + unat va mod 4096) div 4096 = q" "(4096 * q' + unat va' mod 4096) div 4096 = q'" by simp_all
  then have "q = q'" using eq q by simp
  then have off: "phys_ptr e = phys_ptr e'" "unat va mod 4096 = unat va' mod 4096" using eq q by simp_all
  have "user_pt_slot va = user_pt_slot va' \<and> user_pt_page va = user_pt_page va'"
    using owned_unique [OF space_invD(8) [OF assms(1)] f(5), of "Frame (user_pt_slot va') (user_pt_page va')"] f'(5) off(1) by simp
  then have "unat va div 4096 = unat va' div 4096" using same_page_indices [OF f'(4) f(4)] by (simp add: same_page_def)
  then have "unat va = unat va'" using off(2) by (metis div_mult_mod_eq)
  then show ?thesis by (simp add: word_unat_eq_iff)
qed

lemma access_shift:
  assumes "\<forall>i < len. user_access s m (va + word_of_nat i) wr"
  shows "\<forall>i < len - n. user_access s m (va + word_of_nat n + word_of_nat i) wr"
proof (intro allI impI)
  fix i
  assume "i < len - n"
  then have "n + i < len" by simp
  then have "user_access s m (va + word_of_nat (n + i)) wr" using assms by blast
  then show "user_access s m (va + word_of_nat n + word_of_nat i) wr" by (simp add: add.assoc)
qed

definition user_bytes :: "user_space_t \<Rightarrow> mem \<Rightarrow> u64 \<Rightarrow> nat \<Rightarrow> u8 list" where
  "user_bytes s m va n = map (\<lambda>i. m (user_phys s m (va + word_of_nat i))) [0 ..< n]"

lemma user_bytes_append: "user_bytes s m va (n + k) = user_bytes s m va n @ user_bytes s m (va + word_of_nat n) k"
proof -
  have "[0 ..< n + k] = [0 ..< n] @ map (\<lambda>i. n + i) [0 ..< k]"
    using upt_add_eq_append [of 0 n k] map_add_upt [of n k] by (simp add: add.commute)
  then show ?thesis by (simp add: user_bytes_def add.assoc)
qed

lemma copy_in_eq:
  assumes "us_valid s" "\<forall>i < len. user_access s m (uaddr + word_of_nat i) False"
  shows "copy_in s m uaddr len = Some (user_bytes s m uaddr len)"
  using assms
proof (induction s m uaddr len rule: copy_in.induct)
  case (1 s m uaddr len)
  show ?case
  proof (cases "len = 0")
    case True
    then show ?thesis by (simp add: copy_in.simps user_bytes_def)
  next
    case False
    then have "user_access s m (uaddr + word_of_nat 0) False" using "1.prems"(2) by blast
    then obtain p e where t: "paging_user_translate (Some s) m uaddr = Some (p, e)" by (auto simp: user_access_def split: option.splits)
    define n where "n = (if len < page_room uaddr then len else page_room uaddr)"
    have n: "n \<le> len" "n \<le> page_room uaddr" by (auto simp: n_def)
    have "get_bytes m (unat p) n = user_bytes s m uaddr n"
      using user_phys_page(2) [OF "1.prems"(1) t] n by (auto simp: get_bytes_def user_bytes_def)
    moreover have "copy_in s m (uaddr + word_of_nat n) (len - n) = Some (user_bytes s m (uaddr + word_of_nat n) (len - n))"
      using "1.IH" [OF False t refl n_def "1.prems"(1) access_shift [OF "1.prems"(2)]] .
    ultimately show ?thesis
      using False t user_bytes_append [of s m uaddr n "len - n"] n by (subst copy_in.simps) (simp add: n_def [symmetric] Let_def)
  qed
qed

lemma put_bytes_outside: "same_on (- {a ..< a + length bs}) m (put_bytes m a bs)"
  by (auto simp: same_on_def put_bytes_def)

lemma user_access_cong: "(\<And>va. paging_user_translate (Some s) m' va = paging_user_translate (Some s) m va) \<Longrightarrow>
    user_access s m' = user_access s m \<and> user_phys s m' = user_phys s m"
  by (simp add: user_access_def user_phys_def fun_eq_iff)

text \<open>A part of a page: the effect of one round of the copy.\<close>

lemma put_user_page:
  assumes "space_inv h s" "paging_user_translate (Some s) (hmem h) uaddr = Some (p, e)" "length bs \<le> page_room uaddr"
  defines "h' \<equiv> h\<lparr>hmem := put_bytes (hmem h) (unat p) bs\<rparr>"
  shows "space_inv h' s" "heap_live h' = heap_live h" "paging_user_translate (Some s) (hmem h') va = paging_user_translate (Some s) (hmem h) va"
    "i < length bs \<Longrightarrow> hmem h' (user_phys s (hmem h) (uaddr + word_of_nat i)) = bs ! i"
    "\<forall>i < length bs. x \<noteq> user_phys s (hmem h) (uaddr + word_of_nat i) \<Longrightarrow> hmem h' x = hmem h x"
proof -
  note f = translate_frame [OF assms(1,2)]
  have so: "same_on (- {phys_ptr e ..< phys_ptr e + 4096}) (hmem h) (put_bytes (hmem h) (unat p) bs)"
    by (rule same_on_mono [OF put_bytes_outside]) (use f(2) assms(3) in \<open>auto simp: page_room_def unat_page_off ATM_PAGE_SIZE_def\<close>)
  show "space_inv h' s" "heap_live h' = heap_live h" using frame_write(3,4) [OF assms(1) f(1) so] by (simp_all add: h'_def)
  show "paging_user_translate (Some s) (hmem h') va = paging_user_translate (Some s) (hmem h) va"
    using frame_write_translate [OF assms(1) f(1) so] by (simp add: h'_def)
  have ph: "user_phys s (hmem h) (uaddr + word_of_nat i) = unat p + i" if "i < length bs" for i
    using user_phys_page(2) [OF space_invD(1) [OF assms(1)] assms(2), of i] assms(3) that by simp
  show "i < length bs \<Longrightarrow> hmem h' (user_phys s (hmem h) (uaddr + word_of_nat i)) = bs ! i" by (simp add: ph h'_def put_bytes_def)
  assume x: "\<forall>i < length bs. x \<noteq> user_phys s (hmem h) (uaddr + word_of_nat i)"
  have "\<not> (unat p \<le> x \<and> x < unat p + length bs)"
  proof
    assume "unat p \<le> x \<and> x < unat p + length bs"
    then have "x - unat p < length bs" "x = unat p + (x - unat p)" by linarith+
    then show False using x ph by metis
  qed
  then show "hmem h' x = hmem h x" by (auto simp: h'_def put_bytes_def)
qed

lemma user_phys_distinct:
  assumes "space_inv h s" "\<forall>i < n. user_access s (hmem h) (va + word_of_nat i) False" "unat va + n \<le> 0x48000000" "i < n" "k < n" "i \<noteq> k"
  shows "user_phys s (hmem h) (va + word_of_nat i) \<noteq> user_phys s (hmem h) (va + word_of_nat k)"
proof
  assume e: "user_phys s (hmem h) (va + word_of_nat i) = user_phys s (hmem h) (va + word_of_nat k)"
  have "user_access s (hmem h) (va + word_of_nat 0) False" using assms(2,4) by (meson le_less_trans zero_le)
  then have w: "user_window va" using user_access_window by simp
  have "va + word_of_nat i = va + word_of_nat k"
    by (rule user_phys_inj [OF assms(1) _ _ e]) (use assms(2,4,5) in blast)+
  then have "unat (va + word_of_nat i) = unat (va + word_of_nat k)" by (rule arg_cong)
  moreover have "unat (va + word_of_nat i) = unat va + i" "unat (va + word_of_nat k) = unat va + k"
    by (rule unat_add_window [OF w], use assms(3-5) in linarith)+
  ultimately show False using assms(6) by linarith
qed

lemma copy_out_eq:
  assumes "space_inv h s" "\<forall>i < length bs. user_access s (hmem h) (uaddr + word_of_nat i) False" "unat uaddr + length bs \<le> 0x48000000"
  shows "\<exists>m'. copy_out s (hmem h) uaddr bs = (m', True) \<and> space_inv (h\<lparr>hmem := m'\<rparr>) s \<and> heap_live (h\<lparr>hmem := m'\<rparr>) = heap_live h \<and>
    (\<forall>va. paging_user_translate (Some s) m' va = paging_user_translate (Some s) (hmem h) va) \<and>
    (\<forall>i < length bs. m' (user_phys s (hmem h) (uaddr + word_of_nat i)) = bs ! i) \<and>
    (\<forall>x. (\<forall>i < length bs. x \<noteq> user_phys s (hmem h) (uaddr + word_of_nat i)) \<longrightarrow> m' x = hmem h x)"
  using assms
proof (induction "length bs" arbitrary: h uaddr bs rule: less_induct)
  case less
  note s = less.prems(1)
  show ?case
  proof (cases "bs = []")
    case True
    then show ?thesis using s by (simp add: copy_out.simps)
  next
    case False
    then have "user_access s (hmem h) (uaddr + word_of_nat 0) False" using less.prems(2) by blast
    then obtain p e where t: "paging_user_translate (Some s) (hmem h) uaddr = Some (p, e)" by (auto simp: user_access_def split: option.splits)
    define n where "n = (if length bs < page_room uaddr then length bs else page_room uaddr)"
    have n: "0 < n" "n \<le> length bs" "length (take n bs) = n" "n \<le> page_room uaddr" using False page_room_bounds by (auto simp: n_def)
    let ?h1 = "h\<lparr>hmem := put_bytes (hmem h) (unat p) (take n bs)\<rparr>" and ?v = "uaddr + word_of_nat n"
    note pu = put_user_page [OF s t, of "take n bs", unfolded n(3), OF n(4)]
    have ac: "user_access s (hmem ?h1) = user_access s (hmem h)" "user_phys s (hmem ?h1) = user_phys s (hmem h)"
      using user_access_cong [OF pu(3)] by simp_all
    have uv: "unat ?v = unat uaddr + n" using unat_add_window [OF translate_window [OF t], of n] less.prems(3) n(2) by simp
    have "\<forall>i < length (drop n bs). user_access s (hmem ?h1) (?v + word_of_nat i) False"
      unfolding ac using access_shift [OF less.prems(2), of n] by simp
    moreover have "unat ?v + length (drop n bs) \<le> 0x48000000" using uv less.prems(3) n(2) by simp
    ultimately obtain m' where m': "copy_out s (hmem ?h1) ?v (drop n bs) = (m', True)" "space_inv (?h1\<lparr>hmem := m'\<rparr>) s"
      "heap_live (?h1\<lparr>hmem := m'\<rparr>) = heap_live ?h1" "\<forall>va. paging_user_translate (Some s) m' va = paging_user_translate (Some s) (hmem ?h1) va"
      "\<forall>i < length (drop n bs). m' (user_phys s (hmem h) (?v + word_of_nat i)) = drop n bs ! i"
      "\<forall>x. (\<forall>i < length (drop n bs). x \<noteq> user_phys s (hmem h) (?v + word_of_nat i)) \<longrightarrow> m' x = hmem ?h1 x"
      using less.hyps [of "drop n bs" ?h1 ?v] n(1) False pu(1) ac(2) by auto
    have vi: "?v + word_of_nat i = uaddr + word_of_nat (n + i)" for i by (simp add: add.assoc)
    have low: "m' (user_phys s (hmem h) (uaddr + word_of_nat i)) = bs ! i" if "i < n" for i
    proof -
      have "user_phys s (hmem h) (uaddr + word_of_nat i) \<noteq> user_phys s (hmem h) (?v + word_of_nat j)" if "j < length (drop n bs)" for j
        unfolding vi using \<open>i < n\<close> that n(2) by (intro user_phys_distinct [OF s less.prems(2,3)]) simp_all
      then show ?thesis using m'(6) pu(4) [of i] that n(2,3) by simp
    qed
    have "m' (user_phys s (hmem h) (uaddr + word_of_nat i)) = bs ! i" if "i < length bs" for i
      using low m'(5) [rule_format, of "i - n"] vi [of "i - n"] that by (cases "i < n") simp_all
    moreover have "m' x = hmem h x" if x: "\<forall>i < length bs. x \<noteq> user_phys s (hmem h) (uaddr + word_of_nat i)" for x
    proof -
      have "\<forall>i < length (drop n bs). x \<noteq> user_phys s (hmem h) (?v + word_of_nat i)" unfolding vi
      proof (intro allI impI)
        fix i
        assume "i < length (drop n bs)"
        then have "n + i < length bs" by simp
        then show "x \<noteq> user_phys s (hmem h) (uaddr + word_of_nat (n + i))" using x by blast
      qed
      then show ?thesis using m'(6) pu(5) [of x] x n(2) by simp
    qed
    moreover have "copy_out s (hmem h) uaddr bs = (m', True)"
      using False t m'(1) by (subst copy_out.simps) (simp add: n_def [symmetric] Let_def)
    ultimately show ?thesis using m'(2-4) pu(2,3) by simp
  qed
qed

subsection \<open>Creation\<close>

text \<open>
  What creation relies on: the kernel's own tables, built by \<open>boot.s\<close>, are outside the heap and
  none of their entries has the user bit, and physical memory ends below \<open>2 ^ 52\<close>.
\<close>

definition outside_heap :: "heap \<Rightarrow> nat \<Rightarrow> bool" where
  "outside_heap h t \<longleftrightarrow> {t ..< t + 4096} \<inter> heap_range h = {}"

definition kernel_map :: "heap \<Rightarrow> nat \<Rightarrow> bool" where
  "kernel_map h g \<longleftrightarrow>
    (let m = hmem h; t3 = phys_ptr (ent m g 0); t2 = (\<lambda>i. phys_ptr (ent m t3 i))
     in heap_end h \<le> 2 ^ 52 \<and> outside_heap h g \<and> outside_heap h t3 \<and> (\<forall>i < 4. outside_heap h (t2 i)) \<and>
        (\<forall>i < 512. \<not> bit (ent m g i) 2 \<and> \<not> bit (ent m t3 i) 2 \<and> \<not> bit (ent m (t2 1) i) 2))"

text \<open>Blocks that have been allocated since the heap was \<open>h0\<close>.\<close>

definition fresh :: "heap \<Rightarrow> heap \<Rightarrow> nat list \<Rightarrow> bool" where
  "fresh h0 h bs \<longleftrightarrow> heap_keeps h0 h \<and> distinct bs \<and> fst ` heap_live h = fst ` heap_live h0 \<union> set bs \<and> set bs \<inter> fst ` heap_live h0 = {}"

lemma fresh_extend:
  assumes "fresh h0 h bs" "heap_keeps h h'" "fst ` heap_live h' = insert b (fst ` heap_live h)" "b \<notin> fst ` heap_live h"
  shows "fresh h0 h' (bs @ [b])"
proof -
  have "heap_keeps h0 h'" using assms(1,2) heap_keeps_trans by (auto simp: fresh_def)
  then show ?thesis using assms(1,3,4) by (auto simp: fresh_def)
qed

lemma heap_keeps_page:
  "heap_keeps h h' \<Longrightarrow> page_ok h p \<Longrightarrow> page_ok h' p \<and> page_raw (hmem h') p = page_raw (hmem h) p"
  using keeps_page(1,2) [of h p h'] by (simp add: heap_keeps_def)

text \<open>An address space with tables and nothing mapped.\<close>

definition blank :: "heap \<Rightarrow> user_space_t \<Rightarrow> bool" where
  "blank h s \<longleftrightarrow> length (us_pd s) = 4 \<and> heap_inv h \<and> heap_end h \<le> 2 ^ 52 \<and> (\<exists>sz \<ge> 512. (us_user_pt s, sz) \<in> heap_live h) \<and>
    (\<forall>n < 64. user_pt s (hmem h) n = 0) \<and> (\<forall>k p. page_of s (hmem h) k = Some p \<longrightarrow> page_ok h p) \<and>
    owned (block_of s (hmem h)) (fst ` heap_live h)"

lemma blank_write:
  assumes "blank h s" "page_of s (hmem h) k = Some p" "same_on (- {p ..< p + 4096}) (hmem h) m'"
  shows "blank (h\<lparr>hmem := m'\<rparr>) s" "page_of s m' = page_of s (hmem h)"
    "page_of s (hmem h) k' = Some q \<Longrightarrow> k' \<noteq> k \<Longrightarrow> same_on {q ..< q + 4096} (hmem h) m'"
    "same_on (- heap_range h) (hmem h) m'" "heap_range (h\<lparr>hmem := m'\<rparr>) = heap_range h"
    "heap_live (h\<lparr>hmem := m'\<rparr>) = heap_live h" "block_of s m' = block_of s (hmem h)"
    "b \<notin> ran (block_of s (hmem h)) \<Longrightarrow> keeps_block h (h\<lparr>hmem := m'\<rparr>) b" "heap_blocks (h\<lparr>hmem := m'\<rparr>) = heap_blocks h"
proof -
  let ?h = "h\<lparr>hmem := m'\<rparr>"
  have d: "length (us_pd s) = 4" "heap_inv h" "heap_end h \<le> 2 ^ 52" "\<exists>sz \<ge> 512. (us_user_pt s, sz) \<in> heap_live h"
    "\<And>n. n < 64 \<Longrightarrow> user_pt s (hmem h) n = 0" "\<And>k p. page_of s (hmem h) k = Some p \<Longrightarrow> page_ok h p"
    "owned (block_of s (hmem h)) (fst ` heap_live h)" using assms(1) by (auto simp: blank_def)
  note w = page_write [OF d(2) d(6) [OF assms(2)] assms(3)]
  have ku: "k \<noteq> Upt" using assms(2) by auto
  have bk: "block_of s (hmem h) k = Some (page_raw (hmem h) p)" using assms(2) ku by (simp add: block_of_def)
  have other: "keeps_block h ?h b" if "block_of s (hmem h) k' = Some b" "k' \<noteq> k" for k' b
    using w(4) owned_unique [OF d(7) bk] that by metis
  obtain usz where u: "512 \<le> usz" "(us_user_pt s, usz) \<in> heap_live h" using d(4) by auto
  have "keeps_block h ?h (us_user_pt s)" by (rule other [of Upt]) (use ku in \<open>simp_all add: block_of_def\<close>)
  then have so: "same_on {us_user_pt s ..< us_user_pt s + usz} (hmem h) m'" using u(2) by (simp add: keeps_block_def)
  have up: "user_pt s m' n = user_pt s (hmem h) n" if "n < 64" for n
  proof -
    have "{us_user_pt s + 8 * n ..< us_user_pt s + 8 * n + 8} \<subseteq> {us_user_pt s ..< us_user_pt s + usz}" using that u(1) by auto
    then show ?thesis using same_on_ld [OF so] by (simp add: user_pt_def)
  qed
  have "page_of s m' k = page_of s (hmem h) k" for k by (cases k) (simp_all add: up d(5))
  then show po: "page_of s m' = page_of s (hmem h)" by (rule ext)
  have raw: "page_raw m' q = page_raw (hmem h) q \<and> page_ok ?h q" if "page_of s (hmem h) k' = Some q" for k' q
  proof (cases "k' = k")
    case True
    then show ?thesis using that assms(2) w(5,6) by simp
  next
    case False
    have "keeps_block h ?h (page_raw (hmem h) q)" by (rule other [of k']) (use that False in \<open>auto simp: block_of_def\<close>)
    from keeps_page(1,2) [OF d(6) [OF that] this] show ?thesis by simp
  qed
  have "block_of s m' k = block_of s (hmem h) k" for k using raw [of k] by (cases "page_of s (hmem h) k") (simp_all add: block_of_def po)
  then show bo: "block_of s m' = block_of s (hmem h)" by (rule ext)
  show "blank ?h s" unfolding blank_def using d w(1-3) up raw by (auto simp: po bo)
  show "heap_range ?h = heap_range h" using w(3) by (simp add: heap_range_def)
  show "heap_live ?h = heap_live h" "heap_blocks ?h = heap_blocks h" by (rule w)+
  show "page_of s (hmem h) k' = Some q \<Longrightarrow> k' \<noteq> k \<Longrightarrow> same_on {q ..< q + 4096} (hmem h) m'"
  proof -
    assume q: "page_of s (hmem h) k' = Some q" "k' \<noteq> k"
    have "keeps_block h ?h (page_raw (hmem h) q)" by (rule other [of k']) (use q in \<open>auto simp: block_of_def\<close>)
    from keeps_page(3) [OF d(6) [OF q(1)] this] show ?thesis by simp
  qed
  obtain sz where r: "(page_raw (hmem h) p, sz) \<in> heap_live h" "page_raw (hmem h) p + 8 \<le> p" "p + 4096 \<le> page_raw (hmem h) p + sz"
    by (rule page_block [OF d(6) [OF assms(2)]])
  have "{p ..< p + 4096} \<subseteq> heap_range h" using live_in_range [OF d(2) r(1)] r(2,3) by auto
  then show "same_on (- heap_range h) (hmem h) m'" by (intro same_on_mono [OF assms(3)]) auto
  show "b \<notin> ran (block_of s (hmem h)) \<Longrightarrow> keeps_block h ?h b" using w(4) ranI [of "block_of s (hmem h)", OF bk] by metis
qed

text \<open>A change of table pages only.\<close>

definition tables_only :: "heap \<Rightarrow> user_space_t \<Rightarrow> mem \<Rightarrow> bool" where
  "tables_only h s m' \<longleftrightarrow> blank (h\<lparr>hmem := m'\<rparr>) s \<and> page_of s m' = page_of s (hmem h) \<and> block_of s m' = block_of s (hmem h) \<and>
    same_on (- heap_range h) (hmem h) m' \<and> heap_live (h\<lparr>hmem := m'\<rparr>) = heap_live h \<and> heap_blocks (h\<lparr>hmem := m'\<rparr>) = heap_blocks h \<and>
    (\<forall>b. b \<notin> ran (block_of s (hmem h)) \<longrightarrow> keeps_block h (h\<lparr>hmem := m'\<rparr>) b)"

lemma heap_range_upd [simp]: "heap_range (h\<lparr>hmem := m'\<rparr>) = heap_range h"
  by (simp add: heap_range_def heap_end_def)

lemma outside_heap_upd [simp]: "outside_heap (h\<lparr>hmem := m'\<rparr>) t = outside_heap h t"
  by (simp add: outside_heap_def)

lemma tables_only_trans:
  assumes "tables_only h s m1" "tables_only (h\<lparr>hmem := m1\<rparr>) s m2"
  shows "tables_only h s m2"
proof -
  have "keeps_block h (h\<lparr>hmem := m2\<rparr>) b" if "b \<notin> ran (block_of s (hmem h))" for b
    using assms that keeps_block_trans [of h "h\<lparr>hmem := m1\<rparr>" b "h\<lparr>hmem := m2\<rparr>"] by (simp add: tables_only_def)
  moreover have "same_on (- heap_range h) (hmem h) m2"
    using assms same_on_trans [of "- heap_range h" "hmem h" m1 m2] by (simp add: tables_only_def)
  ultimately show ?thesis using assms by (simp add: tables_only_def)
qed

lemma table_write:
  assumes "blank h s" "page_of s (hmem h) k = Some p" "same_on (- {p ..< p + 4096}) (hmem h) m'"
  shows "tables_only h s m'"
  using blank_write [OF assms] by (simp add: tables_only_def)

lemma ent_same_on: "same_on {q ..< q + 4096} m m' \<Longrightarrow> i < 512 \<Longrightarrow> ent m' q i = ent m q i"
  unfolding ent_def by (subst same_on_ld [of "{q ..< q + 4096}"]) auto

lemma outside_ent: "same_on (- heap_range h) m m' \<Longrightarrow> outside_heap h t \<Longrightarrow> i < 512 \<Longrightarrow> ent m' t i = ent m t i"
  by (rule ent_same_on [OF same_on_mono]) (auto simp: outside_heap_def)

lemma copy_page:
  assumes "blank h s" "page_of s (hmem h) k = Some p" "outside_heap h src"
  shows "tables_only h s (kmemcpy (hmem h) p src ATM_PAGE_SIZE)"
    "i < 512 \<Longrightarrow> ent (kmemcpy (hmem h) p src ATM_PAGE_SIZE) p i = ent (hmem h) src i"
    "page_of s (hmem h) k' = Some q \<Longrightarrow> k' \<noteq> k \<Longrightarrow> i < 512 \<Longrightarrow> ent (kmemcpy (hmem h) p src ATM_PAGE_SIZE) q i = ent (hmem h) q i"
proof -
  have pk: "page_ok h p" "heap_inv h" using assms(1,2) by (auto simp: blank_def)
  obtain sz where r: "(page_raw (hmem h) p, sz) \<in> heap_live h" "page_raw (hmem h) p + 8 \<le> p" "p + 4096 \<le> page_raw (hmem h) p + sz"
    by (rule page_block [OF pk(1)])
  have "{p ..< p + 4096} \<subseteq> heap_range h" using live_in_range [OF pk(2) r(1)] r(2,3) by auto
  then have dis: "{p ..< p + 4096} \<inter> {src ..< src + 4096} = {}" using assms(3) unfolding outside_heap_def by blast
  have "p \<le> src \<or> src + 4096 \<le> p"
  proof (rule ccontr)
    assume "\<not> ?thesis"
    then have "p \<in> {p ..< p + 4096} \<inter> {src ..< src + 4096}" by auto
    with dis show False by blast
  qed
  then have m: "kmemcpy (hmem h) p src ATM_PAGE_SIZE = moved (hmem h) p src 4096"
    using kmemcpy_moved [of p src 4096] by (simp add: ATM_PAGE_SIZE_def)
  have so: "same_on (- {p ..< p + 4096}) (hmem h) (kmemcpy (hmem h) p src ATM_PAGE_SIZE)" by (auto simp: m same_on_def moved_def)
  show "tables_only h s (kmemcpy (hmem h) p src ATM_PAGE_SIZE)" by (rule table_write [OF assms(1,2) so])
  show "page_of s (hmem h) k' = Some q \<Longrightarrow> k' \<noteq> k \<Longrightarrow> i < 512 \<Longrightarrow> ent (kmemcpy (hmem h) p src ATM_PAGE_SIZE) q i = ent (hmem h) q i"
    by (rule ent_same_on [OF blank_write(3) [OF assms(1,2) so]])
  have shift: "ld (moved (hmem h) p src 4096) (p + a) n = ld (hmem h) (src + a) n" if "a + n \<le> 4096" for a n
    using that
  proof (induction n arbitrary: a)
    case (Suc n)
    then show ?case using Suc.IH [of "Suc a"] by (simp add: moved_def)
  qed simp
  show "i < 512 \<Longrightarrow> ent (kmemcpy (hmem h) p src ATM_PAGE_SIZE) p i = ent (hmem h) src i"
    unfolding m ent_def by (subst shift) simp_all
qed

lemma set_table_entry:
  assumes "blank h s" "page_of s (hmem h) k = Some p" "j < 512"
  shows "tables_only h s (set_ent (hmem h) p j e)"
    "ent (set_ent (hmem h) p j e) p i = (if i = j then e else ent (hmem h) p i)"
    "page_of s (hmem h) k' = Some q \<Longrightarrow> k' \<noteq> k \<Longrightarrow> i < 512 \<Longrightarrow> ent (set_ent (hmem h) p j e) q i = ent (hmem h) q i"
proof -
  note so = set_ent_page [OF assms(3), of p "hmem h" e]
  show "tables_only h s (set_ent (hmem h) p j e)" by (rule table_write [OF assms(1,2) so])
  show "ent (set_ent (hmem h) p j e) p i = (if i = j then e else ent (hmem h) p i)" by (simp add: ent_set_same ent_set_other)
  show "page_of s (hmem h) k' = Some q \<Longrightarrow> k' \<noteq> k \<Longrightarrow> i < 512 \<Longrightarrow> ent (set_ent (hmem h) p j e) q i = ent (hmem h) q i"
    by (rule ent_same_on [OF blank_write(3) [OF assms(1,2) so]])
qed

text \<open>The second loop of creation copies the page directories and links them.\<close>

lemma copy_pds_spec:
  assumes "blank h s" "outside_heap h t3" "\<forall>i \<in> set is. i < 4 \<and> outside_heap h (phys_ptr (ent (hmem h) t3 i))" "distinct is"
    "copy_pds t3 is s (hmem h) = (m', ok)"
  shows "tables_only h s m' \<and> (\<forall>i < 512. ent m' (us_pml4 s) i = ent (hmem h) (us_pml4 s) i) \<and>
    (\<forall>i < 512. i \<notin> set is \<longrightarrow> ent m' (us_pdpt s) i = ent (hmem h) (us_pdpt s) i) \<and>
    (\<forall>i < 4. i \<notin> set is \<longrightarrow> (\<forall>j < 512. ent m' (us_pd s ! i) j = ent (hmem h) (us_pd s ! i) j)) \<and>
    (ok \<longrightarrow> (\<forall>i \<in> set is. ent m' (us_pdpt s) i = pte (us_pd s ! i) OR ATM_PTE_P OR ATM_PTE_W \<and>
       (\<forall>j < 512. ent m' (us_pd s ! i) j = ent (hmem h) (phys_ptr (ent (hmem h) t3 i)) j))) \<and>
    (ok \<longleftrightarrow> (\<forall>i \<in> set is. ent (hmem h) t3 i AND ATM_PTE_P \<noteq> 0))"
  using assms
proof (induction "is" arbitrary: h)
  case Nil
  then show ?case by (auto simp: tables_only_def keeps_block_def)
next
  case (Cons i "is")
  let ?e = "ent (hmem h) t3 i" and ?p = "us_pd s ! i"
  have i: "i < 4" "outside_heap h (phys_ptr ?e)" "i \<notin> set is" "i < 512" using Cons.prems(3,4) by auto
  have pg: "page_of s (hmem h) (Pd i) = Some ?p" using i by simp
  show ?case
  proof (cases "?e AND ATM_PTE_P = 0")
    case True
    then have "m' = hmem h" "\<not> ok" using Cons.prems(5) by auto
    then show ?thesis using Cons.prems(1) True by (simp add: tables_only_def keeps_block_def)
  next
    case False
    let ?m1 = "kmemcpy (hmem h) ?p (phys_ptr ?e) ATM_PAGE_SIZE"
    let ?h1 = "h\<lparr>hmem := ?m1\<rparr>" and ?m2 = "set_ent ?m1 (us_pdpt s) i (pte ?p OR ATM_PTE_P OR ATM_PTE_W)"
    let ?h2 = "h\<lparr>hmem := ?m2\<rparr>"
    note c = copy_page [OF Cons.prems(1) pg i(2)]
    have b1: "blank ?h1 s" "page_of s ?m1 = page_of s (hmem h)" using c(1) by (auto simp: tables_only_def)
    have pg1: "page_of s (hmem ?h1) Pdpt = Some (us_pdpt s)" by simp
    note e = set_table_entry [OF b1(1) pg1 i(4), where e = "pte ?p OR ATM_PTE_P OR ATM_PTE_W"]
    have t2: "tables_only h s ?m2" using tables_only_trans [OF c(1)] e(1) by simp
    have out: "ent ?m2 t j = ent (hmem h) t j" if "outside_heap h t" "j < 512" for t j
      by (rule outside_ent [OF _ that]) (use t2 in \<open>simp add: tables_only_def\<close>)
    have t3: "ent ?m2 t3 k = ent (hmem h) t3 k" if "k \<in> set is" for k using out [OF Cons.prems(2), of k] Cons.prems(3) that by auto
    then have "\<forall>k \<in> set is. k < 4 \<and> outside_heap ?h2 (phys_ptr (ent (hmem ?h2) t3 k))" using Cons.prems(3) by simp
    moreover have "copy_pds t3 is s (hmem ?h2) = (m', ok)" using Cons.prems(5) False by (simp add: Let_def)
    moreover have "outside_heap ?h2 t3" "blank ?h2 s" "distinct is" using Cons.prems(2,4) t2 by (simp_all add: tables_only_def)
    ultimately have ih: "tables_only ?h2 s m'" "\<forall>k < 512. ent m' (us_pml4 s) k = ent ?m2 (us_pml4 s) k"
      "\<forall>k < 512. k \<notin> set is \<longrightarrow> ent m' (us_pdpt s) k = ent ?m2 (us_pdpt s) k"
      "\<forall>k < 4. k \<notin> set is \<longrightarrow> (\<forall>j < 512. ent m' (us_pd s ! k) j = ent ?m2 (us_pd s ! k) j)"
      "ok \<longrightarrow> (\<forall>k \<in> set is. ent m' (us_pdpt s) k = pte (us_pd s ! k) OR ATM_PTE_P OR ATM_PTE_W \<and>
         (\<forall>j < 512. ent m' (us_pd s ! k) j = ent ?m2 (phys_ptr (ent ?m2 t3 k)) j))"
      "ok \<longleftrightarrow> (\<forall>k \<in> set is. ent ?m2 t3 k AND ATM_PTE_P \<noteq> 0)"
      using Cons.IH [of ?h2] by simp_all
    have m2: "ent ?m2 (us_pml4 s) k = ent (hmem h) (us_pml4 s) k" "ent ?m2 (us_pdpt s) k = (if k = i then pte ?p OR ATM_PTE_P OR ATM_PTE_W else ent (hmem h) (us_pdpt s) k)"
      if "k < 512" for k using e(2) [of k] e(3) [of Pml4 _ k] c(3) [of Pml4 _ k] c(3) [of Pdpt _ k] that by simp_all
    have pd: "ent ?m2 (us_pd s ! k) j = (if k = i then ent (hmem h) (phys_ptr ?e) j else ent (hmem h) (us_pd s ! k) j)"
      if "k < 4" "j < 512" for k j
      using e(3) [of "Pd k" _ j] c(2) [of j] c(3) [of "Pd k" _ j] that by auto
    have "ent ?m2 (phys_ptr (ent ?m2 t3 k)) j = ent (hmem h) (phys_ptr (ent (hmem h) t3 k)) j" if "k \<in> set is" "j < 512" for k j
      using t3 [OF that(1)] out [of "phys_ptr (ent (hmem h) t3 k)" j] Cons.prems(3) that by simp
    moreover have "ok \<longleftrightarrow> (\<forall>k \<in> set (i # is). ent (hmem h) t3 k AND ATM_PTE_P \<noteq> 0)" using ih(6) t3 False by simp
    ultimately show ?thesis using tables_only_trans [OF t2] ih(1-5) m2 pd i by (auto split: if_splits)
  qed
qed

text \<open>The first loop of creation allocates the page directories.\<close>

lemma fresh_page:
  assumes "fresh h0 h bs" "page_alloc h = (h', p)" "p \<noteq> 0"
  shows "fresh h0 h' (bs @ [page_raw (hmem h') p])" "page_ok h' p" "heap_keeps h h'"
proof -
  have "heap_inv h" using assms(1) by (simp add: fresh_def heap_keeps_def)
  note pa = page_alloc_spec [OF this assms(2)]
  obtain sz where "heap_live h' = insert (page_raw (hmem h') p, sz) (heap_live h)" using pa(5) [OF assms(3)] by auto
  then have l: "fst ` heap_live h' = insert (page_raw (hmem h') p) (fst ` heap_live h)" by simp
  show "fresh h0 h' (bs @ [page_raw (hmem h') p])" by (rule fresh_extend [OF assms(1) pa(1) l pa(4) [OF assms(3)]])
  show "page_ok h' p" "heap_keeps h h'" using pa(1,3) assms(3) by simp_all
qed

lemma alloc_pds_spec:
  assumes "fresh h0 h bs" "alloc_pds is s h = (s', h', True)"
  shows "\<exists>ps. length ps = length is \<and> fresh h0 h' (bs @ map (page_raw (hmem h')) ps) \<and> (\<forall>p \<in> set ps. page_ok h' p) \<and>
    s' = s\<lparr>us_pd := fold (\<lambda>(i, p) l. l[i := p]) (zip is ps) (us_pd s)\<rparr> \<and> heap_keeps h h'"
  using assms
proof (induction "is" arbitrary: s h bs)
  case Nil
  then show ?case using heap_keeps_refl [of h] by (auto simp: fresh_def heap_keeps_def)
next
  case (Cons i "is")
  obtain h1 p where pa: "page_alloc h = (h1, p)" by fastforce
  have p: "p \<noteq> 0" "alloc_pds is (s\<lparr>us_pd := (us_pd s)[i := p]\<rparr>) h1 = (s', h', True)"
    using Cons.prems(2) pa by (auto simp: Let_def split: if_splits)
  note f = fresh_page [OF Cons.prems(1) pa p(1)]
  from Cons.IH [OF f(1) p(2)] obtain ps where ps: "length ps = length is"
    "fresh h0 h' ((bs @ [page_raw (hmem h1) p]) @ map (page_raw (hmem h')) ps)" "\<forall>p \<in> set ps. page_ok h' p"
    "s' = s\<lparr>us_pd := fold (\<lambda>(i, p) l. l[i := p]) (zip is ps) ((us_pd s)[i := p])\<rparr>" "heap_keeps h1 h'" by auto
  have "page_ok h' p" "page_raw (hmem h') p = page_raw (hmem h1) p" using heap_keeps_page [OF ps(5) f(2)] by simp_all
  then show ?case using ps heap_keeps_trans [OF f(3) ps(5)] by (intro exI [of _ "p # ps"]) simp
qed

lemma inj_on_keys: "distinct (map m ks) \<Longrightarrow> dom m \<subseteq> set ks \<Longrightarrow> inj_on m (dom m)"
  using inj_on_subset by (auto simp: distinct_map)

lemma ran_keys: "(\<And>k x. m k = Some x \<Longrightarrow> k \<in> K) \<Longrightarrow> ran m = {x. Some x \<in> m ` K}"
  unfolding ran_def image_iff by (auto; metis)

text \<open>The tables of a new space, before their entries are written.\<close>

lemma new_tables_blank:
  assumes "fresh h0 h ([page_raw (hmem h) p4, page_raw (hmem h) p3, up] @ map (page_raw (hmem h)) ps)" "heap_end h0 \<le> 2 ^ 52"
    "page_ok h p4" "page_ok h p3" "\<forall>p \<in> set ps. page_ok h p" "length ps = 4" "512 \<le> sz" "(up, sz) \<in> heap_live h"
    "\<forall>x. up \<le> x \<and> x < up + 512 \<longrightarrow> hmem h x = 0"
  defines "s \<equiv> zero_space\<lparr>us_pml4 := p4, us_pdpt := p3, us_user_pt := up, us_pd := ps\<rparr>"
  shows "blank h s" "ran (block_of s (hmem h)) = set ([page_raw (hmem h) p4, page_raw (hmem h) p3, up] @ map (page_raw (hmem h)) ps)"
proof -
  have u: "user_pt s (hmem h) n = 0" if "n < 64" for n
    unfolding user_pt_def s_def using assms(9) that by (simp add: ld_zero)
  obtain a b c d where ps: "ps = [a, b, c, d]" using assms(6) by (auto simp: numeral_eq_Suc length_Suc_conv)
  let ?ks = "[Pml4, Pdpt, Upt, Pd 0, Pd 1, Pd 2, Pd 3]"
  have pd: "us_pd s = [a, b, c, d]" "us_pml4 s = p4" "us_pdpt s = p3" "us_user_pt s = up" by (simp_all add: s_def ps)
  have bl: "map (block_of s (hmem h)) ?ks = map Some ([page_raw (hmem h) p4, page_raw (hmem h) p3, up] @ map (page_raw (hmem h)) ps)"
    by (simp add: block_of_def pd ps)
  have dm: "k \<in> set ?ks" if "block_of s (hmem h) k = Some x" for k x
  proof (cases k)
    case (Pd i)
    then have "i < 4" using that by (auto simp: block_of_def split: if_splits)
    then have "i = 0 \<or> i = 1 \<or> i = 2 \<or> i = 3" by linarith
    then show ?thesis using Pd by auto
  qed (use that u in \<open>auto simp: block_of_def split: if_splits\<close>)
  have "distinct (map (block_of s (hmem h)) ?ks)" unfolding bl
    by (rule distinct_map [THEN iffD2]) (use assms(1) in \<open>simp add: fresh_def inj_on_def\<close>)
  then have "inj_on (block_of s (hmem h)) (dom (block_of s (hmem h)))" by (rule inj_on_keys) (use dm in blast)
  moreover have "ran (block_of s (hmem h)) = {x. Some x \<in> block_of s (hmem h) ` set ?ks}" by (rule ran_keys) (rule dm)
  then show r: "ran (block_of s (hmem h)) = set ([page_raw (hmem h) p4, page_raw (hmem h) p3, up] @ map (page_raw (hmem h)) ps)"
    using arg_cong [OF bl, of set] by (simp only: set_map) auto
  ultimately have "owned (block_of s (hmem h)) (fst ` heap_live h)" using assms(1) by (auto simp: owned_def fresh_def)
  moreover have "page_ok h p" if "page_of s (hmem h) k = Some p" for k p
  proof (cases k)
    case (Pd i)
    then have "i < 4" "p = [a, b, c, d] ! i" using that pd by (auto split: if_splits)
    then have "p \<in> set ps" using assms(6) ps by (metis nth_mem)
    then show ?thesis using assms(5) by blast
  qed (use that u assms(3,4) pd in \<open>auto split: if_splits\<close>)
  moreover have "heap_inv h" "heap_end h = heap_end h0" using assms(1) by (auto simp: fresh_def heap_keeps_def)
  ultimately show "blank h s" using u assms(2,6-8) pd ps by (auto simp: blank_def)
qed

text \<open>The entries that creation writes into the tables.\<close>

lemma fill_tables_wired:
  assumes "blank h s" "kernel_map h g"
  defines "t3 \<equiv> phys_ptr (ent (hmem h) g 0)"
  assumes "fill_tables g t3 s (hmem h) = (m5, True)"
  shows "tables_only h s m5" "wired s m5"
proof -
  obtain m3 where a3: "copy_pds t3 [0 ..< 4] s (kmemcpy (kmemcpy (hmem h) (us_pml4 s) g ATM_PAGE_SIZE) (us_pdpt s) t3 ATM_PAGE_SIZE) = (m3, True)"
    and m5': "m5 = set_ent (set_ent m3 (us_pml4 s) 0 (pte (us_pdpt s) OR ATM_PTE_P OR ATM_PTE_W OR ATM_PTE_U)) (us_pdpt s) 1
       (pte (us_pd s ! 1) OR ATM_PTE_P OR ATM_PTE_W OR ATM_PTE_U)"
    using assms(4) by (auto simp: fill_tables_def Let_def split: prod.splits if_splits)
  define m4 where "m4 = set_ent m3 (us_pml4 s) 0 (pte (us_pdpt s) OR ATM_PTE_P OR ATM_PTE_W OR ATM_PTE_U)"
  note m5_def = m5' [folded m4_def]
  let ?m = "hmem h"
  let ?m1 = "kmemcpy ?m (us_pml4 s) g ATM_PAGE_SIZE"
  let ?m2 = "kmemcpy ?m1 (us_pdpt s) t3 ATM_PAGE_SIZE"
  have km: "outside_heap h g" "outside_heap h t3" "\<And>i. i < 4 \<Longrightarrow> outside_heap h (phys_ptr (ent ?m t3 i))"
    "\<And>i. i < 512 \<Longrightarrow> \<not> bit (ent ?m g i) 2" "\<And>i. i < 512 \<Longrightarrow> \<not> bit (ent ?m t3 i) 2"
    "\<And>i. i < 512 \<Longrightarrow> \<not> bit (ent ?m (phys_ptr (ent ?m t3 1)) i) 2"
    using assms(2) by (auto simp: kernel_map_def t3_def Let_def)
  have pg: "page_of s m Pml4 = Some (us_pml4 s)" "page_of s m Pdpt = Some (us_pdpt s)" for m by simp_all
  note c1 = copy_page [OF assms(1) pg(1) km(1)]
  have b1: "blank (h\<lparr>hmem := ?m1\<rparr>) s" using c1(1) by (simp add: tables_only_def)
  note c2 = copy_page [OF b1 pg(2), of t3, simplified, OF km(2)]
  have t2: "tables_only h s ?m2" using tables_only_trans [OF c1(1)] c2(1) by simp
  have out: "ent ?m2 t i = ent ?m t i" if "outside_heap h t" "i < 512" for t i
    by (rule outside_ent [OF _ that]) (use t2 in \<open>simp add: tables_only_def\<close>)
  let ?h2 = "h\<lparr>hmem := ?m2\<rparr>"
  have b2: "blank ?h2 s" using t2 by (simp add: tables_only_def)
  have "\<forall>i \<in> set [0 ..< 4]. i < 4 \<and> outside_heap ?h2 (phys_ptr (ent (hmem ?h2) t3 i))" using km(2,3) out by simp
  note c3 = copy_pds_spec [OF b2 _ this _, of m3 True, simplified, OF km(2) a3]
  have t3': "tables_only h s m3" by (rule tables_only_trans [OF t2]) (use c3 in simp)
  let ?h3 = "h\<lparr>hmem := m3\<rparr>"
  have b3: "blank ?h3 s" using t3' by (simp add: tables_only_def)
  have lt: "(0 :: nat) < 512" "(1 :: nat) < 512" by simp_all
  note c4 = set_table_entry [OF b3 pg(1) lt(1), where e = "pte (us_pdpt s) OR ATM_PTE_P OR ATM_PTE_W OR ATM_PTE_U", simplified, folded m4_def]
  have t4: "tables_only h s m4" by (rule tables_only_trans [OF t3']) (use c4(1) in simp)
  let ?h4 = "h\<lparr>hmem := m4\<rparr>"
  have b4: "blank ?h4 s" using t4 by (simp add: tables_only_def)
  note c5 = set_table_entry [OF b4 pg(2) lt(2), where e = "pte (us_pd s ! 1) OR ATM_PTE_P OR ATM_PTE_W OR ATM_PTE_U", simplified, folded m5_def [simplified]]
  show t5: "tables_only h s m5" by (rule tables_only_trans [OF t4]) (use c5(1) m5_def in simp)
  have e5: "ent m5 (us_pml4 s) i = (if i = 0 then pte (us_pdpt s) OR ATM_PTE_P OR ATM_PTE_W OR ATM_PTE_U else ent ?m g i)"
    "ent m5 (us_pdpt s) i = (if i = 1 then pte (us_pd s ! 1) OR ATM_PTE_P OR ATM_PTE_W OR ATM_PTE_U
       else if i < 4 then pte (us_pd s ! i) OR ATM_PTE_P OR ATM_PTE_W else ent ?m t3 i)"
    "ent m5 (us_pd s ! 1) i = ent ?m (phys_ptr (ent ?m t3 1)) i" if i: "i < 512" for i
  proof -
    show "ent m5 (us_pml4 s) i = (if i = 0 then pte (us_pdpt s) OR ATM_PTE_P OR ATM_PTE_W OR ATM_PTE_U else ent ?m g i)"
      using c5(3) [of Pml4 "us_pml4 s" i] c4(2) [of i] c3 c2(3) [of Pml4 "us_pml4 s" i] c1(2) [of i] i by simp
    show "ent m5 (us_pdpt s) i = (if i = 1 then pte (us_pd s ! 1) OR ATM_PTE_P OR ATM_PTE_W OR ATM_PTE_U
       else if i < 4 then pte (us_pd s ! i) OR ATM_PTE_P OR ATM_PTE_W else ent ?m t3 i)"
      using c5(2) [of i] c4(3) [of Pdpt "us_pdpt s" i] c3 c2(2) [of i] outside_ent [of h ?m ?m1 t3 i] c1(1) km(2) i
      by (simp add: tables_only_def)
    show "ent m5 (us_pd s ! 1) i = ent ?m (phys_ptr (ent ?m t3 1)) i"
      using c5(3) [of "Pd 1" "us_pd s ! 1" i] c4(3) [of "Pd 1" "us_pd s ! 1" i] c3 out [OF km(2), of 1] out [OF km(3), of 1 i] i by simp
  qed
  have up: "user_pt s m5 n = 0" if "n < 64" for n using t5 that by (simp add: tables_only_def blank_def)
  have nb: "\<not> bit (pte p OR ATM_PTE_P OR ATM_PTE_W) 2" for p using bit_pte [of p 2] by (auto simp: bit_table_entry)
  have "pd_entry_ok s m5 i" if "i < 512" for i using e5(3) [OF that] km(6) [OF that] up [of i] by (cases "i < 64") (simp_all add: pd_entry_ok_def)
  then show "wired s m5" unfolding wired_def using e5(1,2) km(4,5) nb by simp
qed

lemma alloc_tables_spec:
  assumes "heap_inv h" "heap_end h \<le> 2 ^ 52" "alloc_tables h = (s, h', True)"
  shows "blank h' s" "heap_keeps h h'" "fst ` heap_live h' = fst ` heap_live h \<union> ran (block_of s (hmem h'))"
    "ran (block_of s (hmem h')) \<inter> fst ` heap_live h = {}"
proof -
  have u512: "8 * ATM_USER_PT_COUNT = 512" "ALIGN 512 8 = 512" by (simp_all add: PT_COUNT_64 ALIGN_8)
  obtain h1 p4 h2 p3 h3 up where a: "page_alloc h = (h1, p4)" "page_alloc h1 = (h2, p3)" "kmalloc h2 512 = (h3, up)" by (metis surj_pair)
  define h4 where "h4 = h3\<lparr>hmem := kmemset (hmem h3) up 0 512\<rparr>"
  define s1 where "s1 = zero_space\<lparr>us_pml4 := p4, us_pdpt := p3, us_user_pt := up\<rparr>"
  have nz: "p4 \<noteq> 0" "p3 \<noteq> 0" "up \<noteq> 0" and al: "alloc_pds [0 ..< 4] s1 h4 = (s, h', True)"
    using assms(3) a by (auto simp: alloc_tables_def u512 Let_def h4_def s1_def split: if_splits)
  have f0: "fresh h h []" using heap_keeps_refl [OF assms(1)] by (simp add: fresh_def)
  note f1 = fresh_page [OF f0 a(1) nz(1)]
  note f2 = fresh_page [OF f1(1) a(2) nz(2)]
  have i2: "heap_inv h2" using f2(1) by (simp add: fresh_def heap_keeps_def)
  note k3 = kmalloc_keeps [OF i2 a(3)] and ks = kmalloc_success [OF i2 a(3) nz(3)]
  obtain sz where sz: "512 \<le> sz" "heap_live h3 = insert (up, sz) (heap_live h2)" "up \<notin> fst ` heap_live h2" using ks(5) u512 by auto
  have "same_on (- {up ..< up + sz}) (hmem h3) (kmemset (hmem h3) up 0 512)" using sz(1) by (auto simp: same_on_def kmemset_outside)
  note nb = new_block_write [OF k3 _ sz(3) this]
  have h4: "heap_keeps h2 h4" "heap_live h4 = insert (up, sz) (heap_live h2)" "\<forall>x. up \<le> x \<and> x < up + 512 \<longrightarrow> hmem h4 x = 0"
    using nb sz(2) by (simp_all add: h4_def kmemset_inside)
  have f4: "fresh h h4 ([page_raw (hmem h1) p4] @ [page_raw (hmem h2) p3] @ [up])"
    using fresh_extend [OF f2(1) h4(1) _ sz(3)] h4(2) by simp
  from alloc_pds_spec [OF f4 al] obtain ps where ps: "length ps = 4" "\<forall>p \<in> set ps. page_ok h' p" "heap_keeps h4 h'"
    "fresh h h' (([page_raw (hmem h1) p4] @ [page_raw (hmem h2) p3] @ [up]) @ map (page_raw (hmem h')) ps)"
    "s = s1\<lparr>us_pd := fold (\<lambda>(i, p) l. l[i := p]) (zip [0 ..< 4] ps) (us_pd s1)\<rparr>" by auto
  note k25 = heap_keeps_trans [OF h4(1) ps(3)]
  have pg: "page_ok h' p4" "page_raw (hmem h') p4 = page_raw (hmem h1) p4" "page_ok h' p3" "page_raw (hmem h') p3 = page_raw (hmem h2) p3"
    using heap_keeps_page [OF k25 f2(2)] heap_keeps_page [OF heap_keeps_trans [OF f2(3) k25] f1(2)] by simp_all
  obtain a b c d where abcd: "ps = [a, b, c, d]" using ps(1) by (auto simp: numeral_eq_Suc length_Suc_conv)
  have s: "s = zero_space\<lparr>us_pml4 := p4, us_pdpt := p3, us_user_pt := up, us_pd := ps\<rparr>"
    by (simp add: ps(5) s1_def abcd zero_space_def upt_rec numeral_eq_Suc)
  have u5: "(up, sz) \<in> heap_live h'" "same_on {up ..< up + sz} (hmem h4) (hmem h')"
    using ps(3) h4(2) by (auto simp: heap_keeps_def keeps_block_def)
  have z5: "\<forall>x. up \<le> x \<and> x < up + 512 \<longrightarrow> hmem h' x = 0" using u5(2) h4(3) sz(1) by (auto simp: same_on_def)
  have fr: "fresh h h' ([page_raw (hmem h') p4, page_raw (hmem h') p3, up] @ map (page_raw (hmem h')) ps)" using ps(4) pg(2,4) by simp
  note nt = new_tables_blank [OF fr assms(2) pg(1,3) ps(2,1) sz(1) u5(1) z5, folded s]
  show "blank h' s" by (rule nt)
  show "heap_keeps h h'" "fst ` heap_live h' = fst ` heap_live h \<union> ran (block_of s (hmem h'))"
    "ran (block_of s (hmem h')) \<inter> fst ` heap_live h = {}" using fr unfolding nt(2) by (simp_all only: fresh_def)
qed

lemma kernel_map_keeps:
  assumes "kernel_map h g" "heap_keeps h h'"
  shows "kernel_map h' g" "phys_ptr (ent (hmem h') g 0) = phys_ptr (ent (hmem h) g 0)"
proof -
  let ?t3 = "phys_ptr (ent (hmem h) g 0)"
  have o: "outside_heap h' t = outside_heap h t" for t using assms(2) by (simp add: outside_heap_def heap_range_def heap_keeps_def)
  have e: "ent (hmem h') t i = ent (hmem h) t i" if "outside_heap h t" "i < 512" for t i
    by (rule outside_ent [OF _ that]) (use assms(2) in \<open>simp add: heap_keeps_def\<close>)
  have k: "outside_heap h g" "outside_heap h ?t3" "\<forall>i < 4. outside_heap h (phys_ptr (ent (hmem h) ?t3 i))"
    using assms(1) by (simp_all add: kernel_map_def Let_def)
  have g: "ent (hmem h') g 0 = ent (hmem h) g 0" by (rule e [OF k(1)]) simp
  then show "phys_ptr (ent (hmem h') g 0) = ?t3" by simp
  have t: "\<forall>i < 512. ent (hmem h') ?t3 i = ent (hmem h) ?t3 i" using e [OF k(2)] by blast
  have "\<forall>i < 512. ent (hmem h') (phys_ptr (ent (hmem h) ?t3 1)) i = ent (hmem h) (phys_ptr (ent (hmem h) ?t3 1)) i"
    using e k(3) by simp
  then show "kernel_map h' g" using assms e [OF k(1)] t by (simp add: kernel_map_def Let_def g o heap_keeps_def)
qed

text \<open>A space that was created: nothing is mapped, its blocks are new, and what was live is untouched.\<close>

lemma create_spec:
  assumes "heap_inv h" "kernel_map h (if g = 0 then paging_init cpu else g)"
    "paging_create_user_space cpu g (Some s0) h = (g', sp, h', 0)"
  obtains s where "sp = Some s" "space_inv h' s" "\<And>va. paging_user_translate (Some s) (hmem h') va = None"
    "\<And>b. b \<in> fst ` heap_live h \<Longrightarrow> keeps_block h h' b"
    "fst ` heap_live h' = fst ` heap_live h \<union> ran (block_of s (hmem h'))" "ran (block_of s (hmem h')) \<inter> fst ` heap_live h = {}"
proof -
  define g1 where "g1 = (if g = 0 then paging_init cpu else g)"
  obtain s1 h1 ok where a: "alloc_tables h = (s1, h1, ok)" by (metis prod_cases3)
  obtain m ok' where f: "fill_tables g1 (phys_ptr (ent (hmem h) g1 0)) s1 (hmem h1) = (m, ok')" by fastforce
  define s where "s = s1\<lparr>us_cr3 := us_pml4 s1, us_valid := True\<rparr>"
  have r: "ok" "ok'" "sp = Some s" "h' = h1\<lparr>hmem := m\<rparr>"
    using assms(3) a f by (auto simp: paging_create_user_space_def g1_def [symmetric] s_def Let_def split: if_splits prod.splits)
  have km: "kernel_map h g1" using assms(2) by (simp add: g1_def)
  then have he: "heap_end h \<le> 2 ^ 52" by (simp add: kernel_map_def Let_def)
  note t = alloc_tables_spec [OF assms(1) he, of s1 h1] 
  note t' = t [OF a [unfolded r(1) [THEN eq_True [THEN iffD2]]]]
  note k' = kernel_map_keeps [OF km t'(2)]
  note w = fill_tables_wired [OF t'(1) k'(1), unfolded k'(2), OF f [unfolded r(2) [THEN eq_True [THEN iffD2]]]]
  have u: "user_pt s m n = user_pt s1 m n" for n m by (simp add: user_pt_def s_def)
  have po: "page_of s m = page_of s1 m" for m
  proof
    fix k show "page_of s m k = page_of s1 m k" by (cases k) (simp_all add: u, simp_all add: s_def)
  qed
  have bo: "block_of s m = block_of s1 m" for m by (rule ext) (simp add: block_of_def po, simp add: s_def)
  have bl: "blank h' s1" using w(1) by (simp add: tables_only_def r(4))
  show thesis
  proof (rule that [OF r(3)])
    have sf: "us_pml4 s = us_pml4 s1" "us_pdpt s = us_pdpt s1" "us_pd s = us_pd s1" by (simp_all add: s_def)
    have "pd_entry_ok s m = pd_entry_ok s1 m" by (rule ext) (simp only: pd_entry_ok_def u sf)
    then have "wired s m = wired s1 m" by (simp only: wired_def sf)
    then have "wired s m" using w(2) by simp
    then show "space_inv h' s" using bl unfolding space_inv_def blank_def by (simp add: po bo r(4)) (simp add: s_def)
    have "user_pt s (hmem h') n = 0" if "n < 64" for n using bl that by (simp add: u blank_def)
    then show "paging_user_translate (Some s) (hmem h') va = None" for va by (auto simp: paging_user_translate_def PT_COUNT_64)
    have b: "block_of s (hmem h') = block_of s1 (hmem h1)" using w(1) by (simp add: bo tables_only_def r(4))
    have l: "heap_live h' = heap_live h1" using w(1) by (simp add: tables_only_def r(4))
    show "fst ` heap_live h' = fst ` heap_live h \<union> ran (block_of s (hmem h'))" "ran (block_of s (hmem h')) \<inter> fst ` heap_live h = {}"
      using t'(3,4) by (simp_all add: b l)
    show "keeps_block h h' b" if "b \<in> fst ` heap_live h" for b
    proof -
      have "b \<notin> ran (block_of s1 (hmem h1))" using t'(4) that by blast
      then have "keeps_block h1 h' b" using w(1) by (simp add: tables_only_def r(4))
      moreover have "keeps_block h h1 b" using t'(2) by (simp add: heap_keeps_def)
      ultimately show ?thesis using keeps_block_trans by blast
    qed
  qed
qed

subsection \<open>Enough memory\<close>

text \<open>A heap whose last block is free and has at least \<open>n\<close> bytes, with the walk bound at least \<open>k\<close> blocks away.\<close>

definition room :: "heap \<Rightarrow> nat \<Rightarrow> nat \<Rightarrow> bool" where
  "room h k n \<longleftrightarrow> heap_inv h \<and>
    (\<exists>bs b. heap_blocks h = bs @ [b] \<and> bfree b \<and> n \<le> bsize b \<and> length bs + k < HEAP_WALK_MAX)"

lemma ff_alloc_room:
  assumes "bfree b" "n + HDR + MIN_SPLIT \<le> bsize b" "length bs < k"
  shows "\<exists>bs' b' q. ff_alloc n k (bs @ [b]) a = Some (bs' @ [b'], q) \<and> bfree b' \<and> bsize b \<le> bsize b' + n + HDR \<and>
    length bs' \<le> Suc (length bs)"
  using assms(3)
proof (induction bs arbitrary: a k)
  case Nil
  then show ?case using assms(1,2) by (simp add: take_blk_def)
next
  case (Cons c bs)
  show ?case
  proof (cases "bfree c \<and> n \<le> bsize c")
    case True
    have "take_blk n c @ bs @ [b] = (take_blk n c @ bs) @ [b]" "length (take_blk n c @ bs) \<le> Suc (length (c # bs))"
      by (simp_all add: take_blk_def)
    then show ?thesis using True Cons.prems assms(1) by (intro exI [of _ "take_blk n c @ bs"] exI [of _ b]) auto
  next
    case False
    have "length bs < k - 1" using Cons.prems by simp
    from Cons.IH [OF this, of "a + HDR + bsize c"] obtain bs' b' q where
      ff: "ff_alloc n (k - 1) (bs @ [b]) (a + HDR + bsize c) = Some (bs' @ [b'], q)"
      and b': "bfree b'" "bsize b \<le> bsize b' + n + HDR" "length bs' \<le> Suc (length bs)" by blast
    then show ?thesis using False Cons.prems by (intro exI [of _ "c # bs'"] exI [of _ b'] exI [of _ q]) auto
  qed
qed

lemma kmalloc_room:
  assumes "room h (Suc k) (n + ALIGN sz 8 + HDR)" "MIN_SPLIT \<le> n" "0 < sz" "kmalloc h sz = (h', p)"
  shows "room h' k n" "p \<noteq> 0"
proof -
  have inv: "heap_inv h" using assms(1) by (simp add: room_def)
  obtain bs b where b: "heap_blocks h = bs @ [b]" "bfree b" "n + ALIGN sz 8 + HDR \<le> bsize b" "length bs + Suc k < HEAP_WALK_MAX"
    using assms(1) by (auto simp: room_def)
  obtain bs' b' q where ff: "ff_alloc (ALIGN sz 8) HEAP_WALK_MAX (heap_blocks h) (heap_start h) = Some (bs' @ [b'], q)"
    and b': "bfree b'" "bsize b \<le> bsize b' + ALIGN sz 8 + HDR" "length bs' \<le> Suc (length bs)"
    using ff_alloc_room [of b "ALIGN sz 8" bs HEAP_WALK_MAX "heap_start h"] b assms(2) by auto
  from kmalloc_refines [OF inv assms(3)] ff obtain m' where
    m': "kmalloc h sz = (h\<lparr>hmem := m'\<rparr>, q)" "heap_inv (h\<lparr>hmem := m'\<rparr>)" "heap_blocks (h\<lparr>hmem := m'\<rparr>) = bs' @ [b']" by auto
  have h': "h' = h\<lparr>hmem := m'\<rparr>" "q = p" using m'(1) assms(4) by simp_all
  have "n \<le> bsize b'" "length bs' + k < HEAP_WALK_MAX" using b b' by linarith+
  then show "room h' k n" unfolding room_def h' using m'(2,3) b'(1) by auto
  from ff_alloc_live [OF ff] obtain s where "(q, s) \<in> set (live (bs' @ [b']) (heap_start h))" by blast
  from live_range [OF this] show "p \<noteq> 0" by (simp add: HDR_def h'(2))
qed

lemma room_write:
  assumes "room h k n" "(b, s) \<in> heap_live h" "same_on (- {b ..< b + s}) (hmem h) m'"
  shows "room (h\<lparr>hmem := m'\<rparr>) k n"
  using block_write(1,5) [OF _ assms(2,3)] assms(1) by (simp add: room_def)

text \<open>A page costs 8200 bytes: the page, room to align it, and the pointer to its block.\<close>

lemma page_alloc_room:
  assumes "room h (Suc k) (n + 8232)" "32 \<le> n" "page_alloc h = (h', p)"
  shows "room h' k n" "p \<noteq> 0"
proof -
  have inv: "heap_inv h" using assms(1) by (simp add: room_def)
  have sz: "add64 (add64 ATM_PAGE_SIZE ATM_PAGE_SIZE) 8 = 8200" "ALIGN 8200 8 = 8200" "\<not> ATM_PAGE_SIZE \<le> 8"
    by (simp_all add: ATM_PAGE_SIZE_def add64_def ALIGN_8)
  obtain h1 raw where k: "kmalloc h 8200 = (h1, raw)" by fastforce
  have "room h (Suc k) (n + ALIGN 8200 8 + HDR)" using assms(1) by (simp add: sz HDR_def add.commute)
  from kmalloc_room [OF this _ _ k] assms(2) have r: "room h1 k n" "raw \<noteq> 0" by (simp_all add: MIN_SPLIT_def)
  note ks = kmalloc_success [OF inv k r(2)]
  from ks(5) obtain s where s: "8200 \<le> s" "(raw, s) \<in> heap_live h1" by (auto simp: sz)
  have "raw + s < M64" using live_pointer(2) [OF ks(1) s(2)] heap_inv_bounds [OF ks(1)] heap_end_eq [of h1] by (simp add: heap_bounds_def)
  then have a: "add64 raw 8 = raw + 8" "raw + 8 \<le> ALIGN (raw + 8) ATM_PAGE_SIZE" "ALIGN (raw + 8) ATM_PAGE_SIZE < raw + 8 + 4096"
    using ALIGN_pow2_ge [of 12 "raw + 8"] s(1) by (auto simp: add64_small ATM_PAGE_SIZE_def)
  let ?p = "ALIGN (raw + 8) ATM_PAGE_SIZE"
  have "sub64 ?p 8 = ?p - 8" using a s(1) \<open>raw + s < M64\<close> by (intro sub64_small) simp_all
  then have h': "p = ?p" "h' = h1\<lparr>hmem := kmemset (st (hmem h1) (?p - 8) 8 raw) ?p 0 ATM_PAGE_SIZE\<rparr>"
    using assms(3) k r(2) sz(3) a by (auto simp: page_alloc_def kmalloc_aligned_def sz(1) Let_def)
  show "p \<noteq> 0" using h'(1) a(2) by simp
  have "same_on (- {raw ..< raw + s}) (hmem h1) (kmemset (st (hmem h1) (?p - 8) 8 raw) ?p 0 ATM_PAGE_SIZE)"
  proof (rule same_on_trans)
    show "same_on (- {raw ..< raw + s}) (hmem h1) (st (hmem h1) (?p - 8) 8 raw)" using a s(1) by (intro same_on_st) auto
    show "same_on (- {raw ..< raw + s}) (st (hmem h1) (?p - 8) 8 raw) (kmemset (st (hmem h1) (?p - 8) 8 raw) ?p 0 ATM_PAGE_SIZE)"
      unfolding same_on_def using a s(1) by (intro ballI kmemset_outside) (auto simp: ATM_PAGE_SIZE_def)
  qed
  from room_write [OF r(1) s(2) this] show "room h' k n" by (simp add: h'(2))
qed

lemma alloc_pds_room:
  assumes "room h (length is + k) (n + length is * 8232)" "32 \<le> n"
  shows "\<exists>s' h'. alloc_pds is s h = (s', h', True) \<and> room h' k n"
  using assms(1)
proof (induction "is" arbitrary: s h)
  case (Cons i "is")
  obtain h1 p where p: "page_alloc h = (h1, p)" by fastforce
  have "room h (Suc (length is + k)) ((n + length is * 8232) + 8232)" using Cons.prems by (simp add: algebra_simps)
  from page_alloc_room [OF this _ p] assms(2) have "room h1 (length is + k) (n + length is * 8232)" "p \<noteq> 0" by simp_all
  then show ?case using Cons.IH p by simp
qed simp

lemma alloc_tables_room:
  assumes "room h (k + 7) (n + 49936)" "32 \<le> n"
  shows "\<exists>s h'. alloc_tables h = (s, h', True) \<and> room h' k n"
proof -
  obtain h1 p4 h2 p3 h3 up where a: "page_alloc h = (h1, p4)" "page_alloc h1 = (h2, p3)" "kmalloc h2 512 = (h3, up)" by (metis surj_pair)
  have u512: "8 * ATM_USER_PT_COUNT = 512" "ALIGN 512 8 = 512" by (simp_all add: PT_COUNT_64 ALIGN_8)
  have "room h (Suc (k + 6)) ((n + 41704) + 8232)" using assms(1) by (simp add: add.commute)
  from page_alloc_room [OF this _ a(1)] have r1: "room h1 (k + 6) (n + 41704)" "p4 \<noteq> 0" by simp_all
  then have "room h1 (Suc (k + 5)) ((n + 33472) + 8232)" by (simp add: add.commute)
  from page_alloc_room [OF this _ a(2)] have r2: "room h2 (k + 5) (n + 33472)" "p3 \<noteq> 0" by simp_all
  then have "room h2 (Suc (k + 4)) ((n + 32928) + ALIGN 512 8 + HDR)" by (simp add: u512 HDR_def add.commute)
  from kmalloc_room [OF this _ _ a(3)] have r3: "room h3 (k + 4) (n + 32928)" "up \<noteq> 0" by (simp_all add: MIN_SPLIT_def)
  have i2: "heap_inv h2" using r2(1) by (simp add: room_def)
  from kmalloc_success(5) [OF i2 a(3) r3(2)] obtain sz where sz: "512 \<le> sz" "(up, sz) \<in> heap_live h3" by (auto simp: u512)
  have "same_on (- {up ..< up + sz}) (hmem h3) (kmemset (hmem h3) up 0 512)" using sz(1) by (auto simp: same_on_def kmemset_outside)
  from room_write [OF r3(1) sz(2) this] have "room (h3\<lparr>hmem := kmemset (hmem h3) up 0 512\<rparr>) (length [0 ..< 4] + k) (n + length [0 ..< 4] * 8232)"
    by (simp add: add.commute)
  from alloc_pds_room [OF this assms(2)] show ?thesis using a r1(2) r2(2) r3(2) by (simp add: alloc_tables_def u512 Let_def)
qed

text \<open>What creation needs of the kernel's tables in order to succeed: the entries it follows are present.\<close>

definition kernel_present :: "mem \<Rightarrow> nat \<Rightarrow> bool" where
  "kernel_present m g \<longleftrightarrow>
    (let t3 = phys_ptr (ent m g 0)
     in ent m g 0 AND ATM_PTE_P \<noteq> 0 \<and> t3 \<noteq> 0 \<and> (\<forall>i < 4. ent m t3 i AND ATM_PTE_P \<noteq> 0))"

lemma fill_tables_ok:
  assumes "blank h s" "kernel_map h g" "kernel_present (hmem h) g"
  shows "\<exists>m'. fill_tables g (phys_ptr (ent (hmem h) g 0)) s (hmem h) = (m', True)"
proof -
  define t3 where "t3 = phys_ptr (ent (hmem h) g 0)"
  have km: "outside_heap h g" "outside_heap h t3" "\<And>i. i < 4 \<Longrightarrow> outside_heap h (phys_ptr (ent (hmem h) t3 i))"
    using assms(2) by (auto simp: kernel_map_def t3_def Let_def)
  let ?m1 = "kmemcpy (hmem h) (us_pml4 s) g ATM_PAGE_SIZE"
  let ?m2 = "kmemcpy ?m1 (us_pdpt s) t3 ATM_PAGE_SIZE"
  have pg: "page_of s m Pml4 = Some (us_pml4 s)" "page_of s m Pdpt = Some (us_pdpt s)" for m by simp_all
  note c1 = copy_page(1) [OF assms(1) pg(1) km(1)]
  have b1: "blank (h\<lparr>hmem := ?m1\<rparr>) s" using c1 by (simp add: tables_only_def)
  note c2 = copy_page(1) [OF b1 pg(2), of t3, simplified, OF km(2)]
  have t2: "tables_only h s ?m2" using tables_only_trans [OF c1] c2 by simp
  have out: "ent ?m2 t3 i = ent (hmem h) t3 i" if "i < 512" for i
    by (rule outside_ent [OF _ km(2) that]) (use t2 in \<open>simp add: tables_only_def\<close>)
  let ?h2 = "h\<lparr>hmem := ?m2\<rparr>"
  have b2: "blank ?h2 s" using t2 by (simp add: tables_only_def)
  obtain m3 ok where c: "copy_pds t3 [0 ..< 4] s (hmem ?h2) = (m3, ok)" by fastforce
  have o: "\<forall>i \<in> set [0 ..< 4]. i < 4 \<and> outside_heap ?h2 (phys_ptr (ent (hmem ?h2) t3 i))" using km(3) out by simp
  have "ok \<longleftrightarrow> (\<forall>i \<in> set [0 ..< 4]. ent (hmem ?h2) t3 i AND ATM_PTE_P \<noteq> 0)"
    using copy_pds_spec [OF b2 _ o _ c] km(2) by simp
  then have ok using assms(3) out by (simp add: kernel_present_def t3_def [symmetric] Let_def)
  then show ?thesis using c by (simp add: fill_tables_def Let_def t3_def [symmetric])
qed

lemma kernel_present_keeps:
  assumes "kernel_map h g" "kernel_present (hmem h) g" "heap_keeps h h'"
  shows "kernel_present (hmem h') g"
proof -
  have o: "outside_heap h g" "outside_heap h (phys_ptr (ent (hmem h) g 0))" using assms(1) by (simp_all add: kernel_map_def Let_def)
  have e: "ent (hmem h') q i = ent (hmem h) q i" if "outside_heap h q" "i < 512" for q i
    by (rule outside_ent [OF _ that]) (use assms(3) in \<open>simp add: heap_keeps_def\<close>)
  show ?thesis using assms(2) e [OF o(1), of 0] e [OF o(2)] by (simp add: kernel_present_def Let_def)
qed

lemma create_succeeds:
  assumes "room h (k + 7) (n + 49936)" "32 \<le> n" "kernel_map h g" "kernel_present (hmem h) g"
    "g = (if g0 = 0 then paging_init cpu else g0)"
  shows "\<exists>s h'. paging_create_user_space cpu g0 (Some s0) h = (g, Some s, h', 0) \<and> room h' k n"
proof -
  obtain s h1 where a: "alloc_tables h = (s, h1, True)" "room h1 k n" using alloc_tables_room [OF assms(1,2)] by blast
  have inv: "heap_inv h" "heap_end h \<le> 2 ^ 52" using assms(1,3) by (simp_all add: room_def kernel_map_def Let_def)
  note t = alloc_tables_spec [OF inv a(1)]
  note km = kernel_map_keeps [OF assms(3) t(2)]
  note kp = kernel_present_keeps [OF assms(3,4) t(2)]
  from fill_tables_ok [OF t(1) km(1) kp] obtain m where f: "fill_tables g (phys_ptr (ent (hmem h) g 0)) s (hmem h1) = (m, True)"
    unfolding km(2) by blast
  have "tables_only h1 s m" by (rule fill_tables_wired(1) [OF t(1) km(1)]) (simp add: km(2) f)
  then have "room (h1\<lparr>hmem := m\<rparr>) k n" using a(2) by (simp add: room_def tables_only_def blank_def)
  then show ?thesis using a(1) f assms(4) by (auto simp: paging_create_user_space_def Let_def kernel_present_def assms(5) [symmetric])
qed

text \<open>With room for one more table a page can be mapped.\<close>

lemma map_succeeds:
  assumes "room h (Suc 0) 8264" "us_valid s" "user_window va" "va AND 0xfff = 0"
  shows "\<exists>sp h'. paging_map_user_page (Some s) va phys flags h = (sp, h', 0)"
proof -
  have s: "user_pt_slot va < 64" using window_indices(6) [OF assms(3)] by simp
  obtain h1 p where p: "page_alloc h = (h1, p)" by fastforce
  have "p \<noteq> 0" by (rule page_alloc_room(2) [of h 0 32, OF _ _ p]) (use assms(1) in simp_all)
  then show ?thesis using assms(2-4) s p by (auto simp: paging_map_user_page_def user_table_def PT_COUNT_64 Let_def)
qed

subsection \<open>Destruction\<close>

text \<open>What is left of the heap \<open>h\<close> when the blocks behind the keys \<open>K\<close> of a space have been freed.\<close>

definition blocks :: "heap \<Rightarrow> user_space_t \<Rightarrow> pgkey set \<Rightarrow> nat set" where
  "blocks h s K = {b. \<exists>k \<in> K. block_of s (hmem h) k = Some b}"

definition freed :: "heap \<Rightarrow> user_space_t \<Rightarrow> pgkey set \<Rightarrow> heap \<Rightarrow> bool" where
  "freed h s K h' \<longleftrightarrow> heap_inv h' \<and> heap_end h' = heap_end h \<and> heap_live h' = {r \<in> heap_live h. fst r \<notin> blocks h s K} \<and>
    (\<forall>b. b \<notin> blocks h s K \<longrightarrow> keeps_block h h' b)"

lemma blocks_insert: "blocks h s (insert k K) = (case block_of s (hmem h) k of None \<Rightarrow> blocks h s K | Some b \<Rightarrow> insert b (blocks h s K))"
  by (auto simp: blocks_def split: option.splits)

lemma blocks_other:
  assumes "space_inv h s" "block_of s (hmem h) k = Some b" "k \<notin> K"
  shows "b \<notin> blocks h s K"
  using owned_unique [OF space_invD(8) [OF assms(1)] assms(2)] assms(3) by (auto simp: blocks_def)

lemma freed_none:
  assumes "freed h s K h'" "\<forall>k \<in> K'. block_of s (hmem h) k = None"
  shows "freed h s (K \<union> K') h'"
proof -
  have "blocks h s (K \<union> K') = blocks h s K" using assms(2) by (auto simp: blocks_def)
  then show ?thesis using assms(1) by (simp add: freed_def)
qed

lemma freed_page:
  assumes "space_inv h s" "freed h s K h'" "page_of s (hmem h) k = Some p" "k \<notin> K" "clean h p"
  shows "freed h s (insert k K) (kfree h' p)"
proof -
  let ?b = "page_raw (hmem h) p"
  have k: "block_of s (hmem h) k = Some ?b" using assms(3) by (cases k) (auto simp: block_of_def)
  have kb: "keeps_block h h' ?b" using blocks_other [OF assms(1) k assms(4)] assms(2) by (simp add: freed_def)
  have inv: "heap_inv h'" using assms(2) by (simp add: freed_def)
  note pk = keeps_page [OF space_invD(7) [OF assms(1,3)] kb]
  have "clean h' p" by (rule clean_keeps [OF space_invD(4) [OF assms(1)] inv space_invD(7) [OF assms(1,3)] kb assms(5)])
  note f = kfree_page [OF inv pk(2) this, unfolded pk(1)]
  have "keeps_block h (kfree h' p) b" if "b \<notin> insert ?b (blocks h s K)" for b
    using f(4) assms(2) that keeps_block_trans [of h h' b] by (auto simp: freed_def)
  then show ?thesis using f assms(2) by (auto simp: freed_def blocks_insert k)
qed

lemma freed_upt:
  assumes "space_inv h s" "freed h s K h'" "Upt \<notin> K"
  shows "freed h s (insert Upt K) (kfree h' (us_user_pt s))"
proof -
  obtain sz where u: "512 \<le> sz" "(us_user_pt s, sz) \<in> heap_live h" using space_invD(6) [OF assms(1)] by auto
  have k: "block_of s (hmem h) Upt = Some (us_user_pt s)" by (simp add: block_of_def)
  have inv: "heap_inv h'" using assms(2) by (simp add: freed_def)
  have "(us_user_pt s, sz) \<in> heap_live h'" using blocks_other [OF assms(1) k assms(3)] assms(2) u(2) by (simp add: freed_def)
  note f = kfree_block [OF inv this, simplified]
  have "keeps_block h (kfree h' (us_user_pt s)) b" if "b \<notin> insert (us_user_pt s) (blocks h s K)" for b
    using f(4) u(1) assms(2) that keeps_block_trans [of h h' b] by (auto simp: freed_def)
  then show ?thesis using f u(1) assms(2) by (auto simp: freed_def blocks_insert k)
qed

text \<open>The tables that are still there read as before.\<close>

lemma freed_read:
  assumes "space_inv h s" "freed h s K h'" "Upt \<notin> K" "n < 64"
  shows "user_pt s (hmem h') n = user_pt s (hmem h) n"
    "user_pt s (hmem h) n \<noteq> 0 \<Longrightarrow> Pt n \<notin> K \<Longrightarrow> i < 512 \<Longrightarrow> ent (hmem h') (user_pt s (hmem h) n) i = ent (hmem h) (user_pt s (hmem h) n) i"
proof -
  have k: "block_of s (hmem h) Upt = Some (us_user_pt s)" by (simp add: block_of_def)
  have "keeps_block h h' (us_user_pt s)" using blocks_other [OF assms(1) k assms(3)] assms(2) by (simp add: freed_def)
  then show "user_pt s (hmem h') n = user_pt s (hmem h) n" by (rule user_pt_keeps [OF assms(1) _ assms(4)])
  assume n: "user_pt s (hmem h) n \<noteq> 0" "Pt n \<notin> K" "i < 512"
  then have p: "page_of s (hmem h) (Pt n) = Some (user_pt s (hmem h) n)" using assms(4) by simp
  then have "block_of s (hmem h) (Pt n) = Some (page_raw (hmem h) (user_pt s (hmem h) n))" by (simp add: block_of_def)
  from blocks_other [OF assms(1) this n(2)] have "keeps_block h h' (page_raw (hmem h) (user_pt s (hmem h) n))"
    using assms(2) by (simp add: freed_def)
  from keeps_page(4) [OF space_invD(7) [OF assms(1) p] this n(3)]
  show "ent (hmem h') (user_pt s (hmem h) n) i = ent (hmem h) (user_pt s (hmem h) n) i" .
qed

lemma freed_entries:
  assumes "space_inv h s" "\<forall>k p. page_of s (hmem h) k = Some p \<longrightarrow> clean h p" "n < 64" "user_pt s (hmem h) n \<noteq> 0"
    "freed h s K h'" "Upt \<notin> K" "Pt n \<notin> K" "\<forall>i \<in> set is. Frame n i \<notin> K \<and> i < 512" "distinct is"
  shows "freed h s (K \<union> Frame n ` set is) (fold (free_entry s n) is h')"
  using assms(5-9)
proof (induction "is" arbitrary: K h')
  case (Cons i "is")
  have i: "i < 512" "Frame n i \<notin> K" "i \<notin> set is" using Cons.prems by auto
  note r = freed_read [OF assms(1) Cons.prems(1,2) assms(3)]
  have e: "ent (hmem h') (user_pt s (hmem h') n) i = ent (hmem h) (user_pt s (hmem h) n) i"
    using r(1) r(2) [OF assms(4) Cons.prems(3) i(1)] by simp
  have "freed h s (insert (Frame n i) K) (free_entry s n i h')"
  proof (cases "bit (ent (hmem h) (user_pt s (hmem h) n) i) 0")
    case True
    then have p: "page_of s (hmem h) (Frame n i) = Some (phys_ptr (ent (hmem h) (user_pt s (hmem h) n) i))" using assms(3,4) i by simp
    from freed_page [OF assms(1) Cons.prems(1) p i(2)] assms(2) p show ?thesis using True by (simp add: free_entry_def e flag_iff)
  next
    case False
    then have "block_of s (hmem h) (Frame n i) = None" by (simp add: block_of_def)
    from freed_none [OF Cons.prems(1), of "{Frame n i}"] this show ?thesis using False by (simp add: free_entry_def e flag_iff)
  qed
  from Cons.IH [OF this] Cons.prems i show ?case by auto
qed simp

definition slot_keys :: "nat \<Rightarrow> pgkey set" where "slot_keys n = insert (Pt n) (Frame n ` {..< 512})"

lemma freed_slot:
  assumes "space_inv h s" "\<forall>k p. page_of s (hmem h) k = Some p \<longrightarrow> clean h p" "n < 64"
    "freed h s K h'" "Upt \<notin> K" "slot_keys n \<inter> K = {}"
  shows "freed h s (K \<union> slot_keys n) (free_slot_pages s n h')"
proof -
  note r = freed_read [OF assms(1,4,5,3)]
  show ?thesis
  proof (cases "user_pt s (hmem h) n = 0")
    case True
    then have "\<forall>k \<in> slot_keys n. block_of s (hmem h) k = None" by (auto simp: slot_keys_def block_of_def)
    from freed_none [OF assms(4) this] show ?thesis using True r(1) by (simp add: free_slot_pages_def)
  next
    case False
    let ?h = "fold (free_entry s n) [0 ..< 512] h'"
    have "Frame n i \<in> slot_keys n" if "i < 512" for i using that by (simp add: slot_keys_def)
    moreover have "Pt n \<in> slot_keys n" by (simp add: slot_keys_def)
    ultimately have nk: "Pt n \<notin> K" "\<forall>i \<in> set [0 ..< 512]. Frame n i \<notin> K \<and> i < 512"
      using assms(6) by (blast, fastforce)
    note f = freed_entries [OF assms(1-3) False assms(4,5) nk, simplified]
    have up: "Upt \<notin> K \<union> Frame n ` {0 ..< 512}" "Pt n \<notin> K \<union> Frame n ` {0 ..< 512}" using assms(5) nk by auto
    have u: "user_pt s (hmem ?h) n = user_pt s (hmem h) n" by (rule freed_read(1) [OF assms(1) f up(1) assms(3)])
    have p: "page_of s (hmem h) (Pt n) = Some (user_pt s (hmem h) n)" using assms(3) False by simp
    from freed_page [OF assms(1) f p up(2)] assms(2) p
    have "freed h s (insert (Pt n) (K \<union> Frame n ` {0 ..< 512})) (kfree ?h (user_pt s (hmem h) n))" by blast
    moreover have "insert (Pt n) (K \<union> Frame n ` {0 ..< 512}) = K \<union> slot_keys n" by (auto simp: slot_keys_def)
    ultimately show ?thesis using False r(1) u by (simp add: free_slot_pages_def Let_def)
  qed
qed

lemma freed_slots:
  assumes "space_inv h s" "\<forall>k p. page_of s (hmem h) k = Some p \<longrightarrow> clean h p" "N \<le> 64"
  shows "freed h s (\<Union> (slot_keys ` {..< N})) (fold (free_slot_pages s) [0 ..< N] h)"
  using assms(3)
proof (induction N)
  case 0
  then show ?case using space_invD(4) [OF assms(1)] by (simp add: freed_def blocks_def keeps_block_def)
next
  case (Suc N)
  have "Upt \<notin> \<Union> (slot_keys ` {..< N})" "slot_keys N \<inter> \<Union> (slot_keys ` {..< N}) = {}" by (auto simp: slot_keys_def)
  from freed_slot [OF assms(1,2) _ _ this, of "fold (free_slot_pages s) [0 ..< N] h"] Suc
  show ?case by (simp add: lessThan_Suc Un_commute)
qed

lemma destroy_spec:
  assumes "space_inv h s" "\<forall>k p. page_of s (hmem h) k = Some p \<longrightarrow> clean h p" "paging_destroy_user_space (Some s) h = (sp, h')"
  shows "sp = Some zero_space" "heap_inv h'" "heap_live h' = {r \<in> heap_live h. fst r \<notin> ran (block_of s (hmem h))}"
    "b \<notin> ran (block_of s (hmem h)) \<Longrightarrow> keeps_block h h' b"
proof -
  define K where "K = \<Union> (slot_keys ` {..< 64})"
  have nz: "p \<noteq> 0" if "page_of s (hmem h) k = Some p" for k p
    using page_ok_bounds(3) [OF space_invD(4,5,7) [OF assms(1)]] that assms(1) by blast
  have cl: "clean h p" if "page_of s (hmem h) k = Some p" for k p using assms(2) that by blast
  have pd: "page_of s (hmem h) (Pd i) = Some (us_pd s ! i)" if "i < 4" for i using that by simp
  have pg: "page_of s (hmem h) Pdpt = Some (us_pdpt s)" "page_of s (hmem h) Pml4 = Some (us_pml4 s)" by simp_all
  obtain usz where "(us_user_pt s, usz) \<in> heap_live h" using space_invD(6) [OF assms(1)] by auto
  from live_pointer(1) [OF space_invD(4) [OF assms(1)] this] have u0: "us_user_pt s \<noteq> 0" by (simp add: HDR_def)
  note step = freed_page [OF assms(1)]
  let ?h1 = "kfree (fold (free_slot_pages s) [0 ..< 64] h) (us_user_pt s)"
  let ?hp = "\<lambda>i h. kfree h (us_pd s ! i)"
  let ?h2 = "?hp 3 (?hp 2 (?hp 1 (?hp 0 ?h1)))"
  have k: "Upt \<notin> K" "Pd i \<notin> K" "Pdpt \<notin> K" "Pml4 \<notin> K" for i by (auto simp: K_def slot_keys_def)
  have f0: "freed h s K (fold (free_slot_pages s) [0 ..< 64] h)" using freed_slots [OF assms(1,2), of 64] by (simp add: K_def)
  note f1 = freed_upt [OF assms(1) f0 k(1)]
  have "freed h s (insert (Pd 3) (insert (Pd 2) (insert (Pd 1) (insert (Pd 0) (insert Upt K))))) ?h2"
    by (intro step f1 pd cl [OF pd]) (simp_all add: k)
  from step [OF this pg(1) _ cl [OF pg(1)]] k
  have "freed h s (insert Pdpt (insert (Pd 3) (insert (Pd 2) (insert (Pd 1) (insert (Pd 0) (insert Upt K)))))) (kfree ?h2 (us_pdpt s))" by simp
  from step [OF this pg(2) _ cl [OF pg(2)]] k
  have f4: "freed h s (insert Pml4 (insert Pdpt (insert (Pd 3) (insert (Pd 2) (insert (Pd 1) (insert (Pd 0) (insert Upt K)))))))
      (kfree (kfree ?h2 (us_pdpt s)) (us_pml4 s))" (is "freed h s ?all ?h4") by simp
  have z: "us_pd s ! i \<noteq> 0" if "i < 4" for i using nz [OF pd [OF that]] .
  have "paging_destroy_user_space (Some s) h = (Some zero_space, ?h4)"
    using u0 nz [OF pg(1)] nz [OF pg(2)] z [of 0] z [of 1] z [of 2] z [of 3]
    by (simp add: paging_destroy_user_space_def PT_COUNT_64 kfree_nonnull_def Let_def upt_rec numeral_3_eq_3 numeral_2_eq_2)
  then have h': "sp = Some zero_space" "h' = ?h4" using assms(3) by simp_all
  have "k \<in> ?all" if "block_of s (hmem h) k = Some b" for k b
  proof -
    have "i = 0 \<or> i = 1 \<or> i = 2 \<or> i = 3" if "i < 4" for i :: nat using that by arith
    then show ?thesis using that by (cases k) (auto simp: block_of_def K_def slot_keys_def split: if_splits)
  qed
  then have "blocks h s ?all = ran (block_of s (hmem h))" unfolding blocks_def ran_def by blast
  then show "sp = Some zero_space" "heap_inv h'" "heap_live h' = {r \<in> heap_live h. fst r \<notin> ran (block_of s (hmem h))}"
    "b \<notin> ran (block_of s (hmem h)) \<Longrightarrow> keeps_block h h' b" using f4 h' by (simp_all add: freed_def)
qed

subsection \<open>Copies between kernel and user memory\<close>

lemma user_access_read: "user_access s m va wr \<Longrightarrow> user_access s m va False"
  by (auto simp: user_access_def split: option.splits)

lemma copy_to_user_spec:
  fixes dst :: u64
  assumes "space_inv h s" "0 < length bs" "length bs < 2 ^ 64"
  defines "acc \<equiv> user_window dst \<and> unat dst + length bs \<le> 0x48000000 \<and> (\<forall>i < length bs. user_access s (hmem h) (dst + word_of_nat i) True)"
  shows "\<not> acc \<Longrightarrow> copy_to_user (Some s) (hmem h) dst bs = (hmem h, False)"
    "acc \<Longrightarrow> \<exists>m'. copy_to_user (Some s) (hmem h) dst bs = (m', True) \<and> space_inv (h\<lparr>hmem := m'\<rparr>) s \<and>
      copy_from_user (Some s) m' dst (length bs) = Some bs \<and>
      (\<forall>x. m' x \<noteq> hmem h x \<longrightarrow> (\<exists>i < length bs. x = user_phys s (hmem h) (dst + word_of_nat i)))"
proof -
  note v = space_invD(1) [OF assms(1)]
  have r: "paging_user_range (Some s) (hmem h) dst (word_of_nat (length bs)) True \<longleftrightarrow> acc"
    using user_range_iff [OF v assms(3)] assms(2) by (simp add: acc_def)
  have ne: "bs \<noteq> []" using assms(2) by auto
  show "\<not> acc \<Longrightarrow> copy_to_user (Some s) (hmem h) dst bs = (hmem h, False)" using r ne by (simp add: copy_to_user_def)
  assume acc
  then have a: "user_window dst" "unat dst + length bs \<le> 0x48000000" "\<forall>i < length bs. user_access s (hmem h) (dst + word_of_nat i) False"
    using user_access_read by (auto simp: acc_def)
  from copy_out_eq [OF assms(1) a(3,2)] obtain m' where m': "copy_out s (hmem h) dst bs = (m', True)" "space_inv (h\<lparr>hmem := m'\<rparr>) s"
    "\<forall>va. paging_user_translate (Some s) m' va = paging_user_translate (Some s) (hmem h) va"
    "\<forall>i < length bs. m' (user_phys s (hmem h) (dst + word_of_nat i)) = bs ! i"
    "\<forall>x. (\<forall>i < length bs. x \<noteq> user_phys s (hmem h) (dst + word_of_nat i)) \<longrightarrow> m' x = hmem h x" by blast
  have e: "user_access s m' = user_access s (hmem h)" "user_phys s m' = user_phys s (hmem h)"
    using user_access_cong [of s m' "hmem h"] m'(3) by blast+
  have "paging_user_range (Some s) m' dst (word_of_nat (length bs)) False"
    using user_range_iff [OF v assms(3)] a assms(2) by (simp add: e)
  moreover have "copy_in s m' dst (length bs) = Some (user_bytes s m' dst (length bs))" by (rule copy_in_eq [OF v]) (use a(3) in \<open>simp add: e\<close>)
  moreover have "user_bytes s m' dst (length bs) = bs" using m'(4) by (intro nth_equalityI) (simp_all add: user_bytes_def e)
  ultimately have "copy_from_user (Some s) m' dst (length bs) = Some bs" using ne by (simp add: copy_from_user_def)
  moreover have "copy_to_user (Some s) (hmem h) dst bs = (m', True)" using r \<open>acc\<close> ne m'(1) by (simp add: copy_to_user_def)
  ultimately show "\<exists>m'. copy_to_user (Some s) (hmem h) dst bs = (m', True) \<and> space_inv (h\<lparr>hmem := m'\<rparr>) s \<and>
      copy_from_user (Some s) m' dst (length bs) = Some bs \<and>
      (\<forall>x. m' x \<noteq> hmem h x \<longrightarrow> (\<exists>i < length bs. x = user_phys s (hmem h) (dst + word_of_nat i)))" using m'(2,5) by blast
qed

lemma copy_from_user_1:
  assumes "us_valid s"
  shows "copy_from_user (Some s) m va 1 = (if user_access s m va False then Some [m (user_phys s m va)] else None)"
proof -
  have "paging_user_range (Some s) m va (word_of_nat 1) False \<longleftrightarrow> user_access s m va False"
    using user_range_iff [OF assms, of 1 m va False] user_access_window [of s m va False] by (auto simp: user_window_unat)
  moreover have "user_access s m va False \<Longrightarrow> copy_in s m va 1 = Some [m (user_phys s m va)]"
    using copy_in_eq [OF assms, of 1 m va] by (simp add: user_bytes_def)
  ultimately show ?thesis by (simp add: copy_from_user_def)
qed

text \<open>The bytes up to and including the first zero byte.\<close>

definition user_string :: "user_space_t \<Rightarrow> mem \<Rightarrow> u64 \<Rightarrow> nat \<Rightarrow> bool" where
  "user_string s m a n \<longleftrightarrow> (\<forall>i \<le> n. user_access s m (a + word_of_nat i) False) \<and>
    (\<forall>i < n. m (user_phys s m (a + word_of_nat i)) \<noteq> 0) \<and> m (user_phys s m (a + word_of_nat n)) = 0"

lemma strnlen_loop_iff:
  assumes "us_valid s"
  shows "(\<forall>i < n. user_access s m (a + word_of_nat i) False \<and> m (user_phys s m (a + word_of_nat i)) \<noteq> 0) \<Longrightarrow>
    strnlen_loop (Some s) m a n k = Some r \<longleftrightarrow> r < n + k \<and> user_string s m a r"
proof (induction k arbitrary: n)
  case 0
  then show ?case by (auto simp: user_string_def)
next
  case (Suc k)
  let ?v = "a + word_of_nat n"
  have before: "user_string s m a r \<Longrightarrow> n \<le> r" using Suc.prems by (auto simp: user_string_def not_less [symmetric])
  show ?case
  proof (cases "user_access s m ?v False")
    case False
    then have "user_string s m a r \<Longrightarrow> r < n" by (auto simp: user_string_def not_less [symmetric])
    then show ?thesis using False before copy_from_user_1 [OF assms, of m ?v] by (auto simp del: One_nat_def)
  next
    case True
    show ?thesis
    proof (cases "m (user_phys s m ?v) = 0")
      case zero: True
      then have "user_string s m a n" using Suc.prems True by (auto simp: user_string_def le_less)
      moreover have "user_string s m a r \<Longrightarrow> \<not> n < r" using zero unfolding user_string_def by blast
      then have "user_string s m a r \<Longrightarrow> r = n" using before by force
      ultimately show ?thesis using True zero copy_from_user_1 [OF assms, of m ?v] by (auto simp del: One_nat_def)
    next
      case False
      have "\<forall>i < n + 1. user_access s m (a + word_of_nat i) False \<and> m (user_phys s m (a + word_of_nat i)) \<noteq> 0"
        using Suc.prems True False less_Suc_eq by auto
      from Suc.IH [OF this] True False show ?thesis using copy_from_user_1 [OF assms, of m ?v] by (simp del: One_nat_def) simp
    qed
  qed
qed

lemma access_no_wrap:
  "(\<forall>i \<le> n. user_window (a + word_of_nat i)) \<Longrightarrow> unat (a + word_of_nat n) = unat a + n"
proof (induction n)
  case (Suc n)
  then have "unat (a + word_of_nat n) = unat a + n" "user_window (a + word_of_nat n)" by auto
  then show ?case using unat_add_page [of "a + word_of_nat n" 1] by (simp add: algebra_simps)
qed simp

lemma copy_string_iff:
  assumes "us_valid s" "dst_size < 2 ^ 64" "a \<noteq> 0"
  shows "copy_string_from_user (Some s) m dst_size a = Some bs \<longleftrightarrow>
    (\<exists>n. n + 1 < dst_size \<and> user_string s m a n \<and> bs = user_bytes s m a (n + 1))"
proof -
  have copy: "copy_from_user (Some s) m a (n + 1) = Some (user_bytes s m a (n + 1))" if n: "n + 1 < dst_size" "user_string s m a n" for n
  proof -
    have acc: "\<forall>i < n + 1. user_access s m (a + word_of_nat i) False" using n(2) by (auto simp: user_string_def)
    have w: "\<forall>i \<le> n. user_window (a + word_of_nat i)" using n(2) user_access_window unfolding user_string_def by blast
    then have "user_window (a + word_of_nat n)" by blast
    then have top: "unat a + (n + 1) \<le> 0x48000000" using access_no_wrap [OF w] by (simp add: user_window_unat)
    have wa: "user_window a" using w [rule_format, of 0] by simp
    have "0 < n + 1 \<and> user_window a \<and> unat a + (n + 1) \<le> 0x48000000 \<and> (\<forall>i < n + 1. user_access s m (a + word_of_nat i) False)"
      by (intro conjI wa top acc) simp
    from user_range_iff [OF assms(1) less_trans [OF n(1) assms(2)], THEN iffD2, OF this] have r: "paging_user_range (Some s) m a (word_of_nat (n + 1)) False" .
    have nz: "(n + 1 = 0) = False" by simp
    show ?thesis by (simp only: copy_from_user_def option.case r nz copy_in_eq [OF assms(1) acc] not_True_eq_False if_False)
  qed
  have st: "strnlen_user (Some s) m a (dst_size - 1) = Some n \<longleftrightarrow> n + 1 < dst_size \<and> user_string s m a n" if "\<not> dst_size < 2" for n
    using strnlen_loop_iff [OF assms(1), of 0 m a "dst_size - 1" n] assms(3) that by (auto simp: strnlen_user_def)
  show ?thesis
  proof (cases "dst_size < 2")
    case True
    then show ?thesis by (auto simp: copy_string_from_user_def)
  next
    case False
    show ?thesis
    proof (cases "strnlen_user (Some s) m a (dst_size - 1)")
      case None
      then have "\<not> (n + 1 < dst_size \<and> user_string s m a n)" for n using st [OF False, of n] by simp
      then show ?thesis using None False by (simp add: copy_string_from_user_def) blast
    next
      case (Some n)
      then have n: "n + 1 < dst_size" "user_string s m a n" using st [OF False] by blast+
      have c: "copy_string_from_user (Some s) m dst_size a = Some (user_bytes s m a (n + 1))"
        by (simp only: copy_string_from_user_def False Some option.case copy [OF n] if_False)
      have "k = n" if "k + 1 < dst_size" "user_string s m a k" for k using that st [OF False, of k] Some by simp
      then show ?thesis unfolding c option.inject using n by metis
    qed
  qed
qed

subsection \<open>The life of an address space\<close>

text \<open>
  What happens to a space between its creation and its end: pages that nothing else in the
  space uses are mapped; entries are removed, released and protected; the kernel copies into
  it; user code stores wherever the processor lets it; and the kernel does anything else to
  its heap that leaves the blocks of the space alone.
\<close>

inductive space_reach :: "heap \<Rightarrow> user_space_t \<Rightarrow> bool" where
  created: "heap_inv h \<Longrightarrow> kernel_map h (if g = 0 then paging_init cpu else g) \<Longrightarrow>
    paging_create_user_space cpu g (Some s0) h = (g', Some s, h', 0) \<Longrightarrow> space_reach h' s"
| mapped: "space_reach h s \<Longrightarrow> page_ok h (phys_ptr phys) \<Longrightarrow> page_raw (hmem h) (phys_ptr phys) \<notin> ran (block_of s (hmem h)) \<Longrightarrow>
    paging_map_user_page (Some s) va phys flags h = (Some s', h', rc) \<Longrightarrow> space_reach h' s'"
| unmapped: "space_reach h s \<Longrightarrow> paging_unmap_user_page (Some s) va h = (h', rc) \<Longrightarrow> space_reach h' s"
| released: "space_reach h s \<Longrightarrow> paging_user_translate (Some s) (hmem h) va = Some (p, e) \<Longrightarrow> clean h (phys_ptr e) \<Longrightarrow>
    paging_release_user_page (Some s) va h = (h', 0) \<Longrightarrow> space_reach h' s"
| protected: "space_reach h s \<Longrightarrow> paging_protect_user_page (Some s) va flags h = (h', rc) \<Longrightarrow> space_reach h' s"
| copied: "space_reach h s \<Longrightarrow> length bs < 2 ^ 64 \<Longrightarrow> copy_to_user (Some s) (hmem h) dst bs = (m', ok) \<Longrightarrow>
    space_reach (h\<lparr>hmem := m'\<rparr>) s"
| stored: "space_reach h s \<Longrightarrow> mmu_walk (hmem h) (us_cr3 s) va = Some (p, True, nx) \<Longrightarrow>
    space_reach (h\<lparr>hmem := (hmem h)(unat p := b)\<rparr>) s"
| elsewhere: "space_reach h s \<Longrightarrow> heap_inv h' \<Longrightarrow> heap_end h' = heap_end h \<Longrightarrow>
    \<forall>k b. block_of s (hmem h) k = Some b \<longrightarrow> keeps_block h h' b \<Longrightarrow> space_reach h' s"

lemma store_inv:
  assumes "space_inv h s" "mmu_walk (hmem h) (us_cr3 s) va = Some (p, w, nx)"
  shows "space_inv (h\<lparr>hmem := (hmem h)(unat p := b)\<rparr>) s"
proof -
  obtain e where t: "paging_user_translate (Some s) (hmem h) va = Some (p, e)"
    using assms(2) by (auto simp: mmu_walk_wired [OF assms(1)] split: option.splits)
  note f = translate_frame [OF assms(1) t]
  have "same_on (- {phys_ptr e ..< phys_ptr e + 4096}) (hmem h) ((hmem h)(unat p := b))" using f(2) by (auto simp: same_on_def)
  from frame_write(3) [OF assms(1) f(1) this] show ?thesis .
qed

lemma space_reach_inv: "space_reach h s \<Longrightarrow> space_inv h s"
proof (induction rule: space_reach.induct)
  case (created h g cpu s0 g' s h')
  from create_spec [OF created] show ?case by blast
next
  case (mapped h s phys va flags s' h' rc)
  from map_spec [OF mapped.IH mapped.hyps(2-4)] show ?case by blast
next
  case (unmapped h s va h' rc)
  then show ?case by (blast intro: unmap_spec(1))
next
  case (released h s va p e h')
  then show ?case by (blast intro: release_spec(1))
next
  case (protected h s va flags h' rc)
  then show ?case by (blast intro: protect_spec(1))
next
  case (copied h s bs dst m' ok)
  show ?case
  proof (cases "bs = []")
    case True
    then show ?thesis using copied by (auto simp: copy_to_user_def)
  next
    case False
    then have "0 < length bs" by simp
    note c = copy_to_user_spec [OF copied.IH this copied.hyps(2), of dst]
    show ?thesis using c copied.hyps(3) copied.IH by (cases "copy_to_user (Some s) (hmem h) dst bs = (hmem h, False)") auto
  qed
next
  case (stored h s va p nx b)
  then show ?case by (blast intro: store_inv)
next
  case (elsewhere h s h')
  then show ?case by (blast intro: space_frame(3))
qed

text \<open>
  C1. The processor and the kernel agree on what a user program can reach in an address space, and it is only frames of the
  space itself.  Whatever has happened since its creation, the walk of the processor through the four table levels finds for every
  address exactly what \<open>paging_user_translate\<close> finds, with the same write and execute rights.  Every byte it can reach is
  reached through an address of the user window and lies in a live heap block that is a mapped frame of this space: not in one
  of its tables, not in the kernel's memory, and not in another frame.\<close>
theorem space_isolation:
  assumes "space_reach h s"
  shows "mmu_walk (hmem h) (us_cr3 s) va =
      (case paging_user_translate (Some s) (hmem h) va of
         None \<Rightarrow> None
       | Some (p, e) \<Rightarrow> Some (p, e AND ATM_PTE_W \<noteq> 0, e AND ATM_PTE_NX \<noteq> 0)) \<and>
    (\<forall>p w nx. mmu_walk (hmem h) (us_cr3 s) va = Some (p, w, nx) \<longrightarrow> user_window va \<and>
      (\<exists>b sz. (b, sz) \<in> heap_live h \<and> b \<le> unat p \<and> unat p < b + sz \<and>
         (\<forall>k. block_of s (hmem h) k = Some b \<longleftrightarrow> k = Frame (user_pt_slot va) (user_pt_page va))))"
proof (intro conjI allI impI)
  note inv = space_reach_inv [OF assms]
  show w: "mmu_walk (hmem h) (us_cr3 s) va =
      (case paging_user_translate (Some s) (hmem h) va of
         None \<Rightarrow> None
       | Some (p, e) \<Rightarrow> Some (p, e AND ATM_PTE_W \<noteq> 0, e AND ATM_PTE_NX \<noteq> 0))" by (rule mmu_walk_wired [OF inv])
  fix p wr nx
  assume "mmu_walk (hmem h) (us_cr3 s) va = Some (p, wr, nx)"
  then obtain e where t: "paging_user_translate (Some s) (hmem h) va = Some (p, e)" using w by (auto split: option.splits)
  note f = translate_frame [OF inv t]
  show "user_window va" by (rule f)
  obtain sz where r: "(page_raw (hmem h) (phys_ptr e), sz) \<in> heap_live h" "page_raw (hmem h) (phys_ptr e) + 8 \<le> phys_ptr e"
    "phys_ptr e + 4096 \<le> page_raw (hmem h) (phys_ptr e) + sz" by (rule page_block [OF f(3)])
  have "unat va mod 4096 < 4096" by simp
  then have "page_raw (hmem h) (phys_ptr e) \<le> unat p" "unat p < page_raw (hmem h) (phys_ptr e) + sz" using r(2,3) f(2) by linarith+
  then show "\<exists>b sz. (b, sz) \<in> heap_live h \<and> b \<le> unat p \<and> unat p < b + sz \<and>
         (\<forall>k. block_of s (hmem h) k = Some b \<longleftrightarrow> k = Frame (user_pt_slot va) (user_pt_page va))"
    using r(1) f(5) owned_unique [OF space_invD(8) [OF inv] f(5)] by blast
qed

text \<open>
  C1. With enough memory a new address space can always be made, and it starts empty: given seven more blocks of heap and kernel
  tables whose first entries are present, \<open>paging_create_user_space\<close> returns 0, neither the kernel nor the processor can translate
  any user address in the new space, and every block that was live before is live with the same bytes.\<close>
theorem create_user_space:
  assumes "room h (k + 7) (n + 49936)" "32 \<le> n" "g = (if g0 = 0 then paging_init cpu else g0)" "kernel_map h g"
    "kernel_present (hmem h) g"
  shows "\<exists>s h'. paging_create_user_space cpu g0 (Some s0) h = (g, Some s, h', 0) \<and> space_reach h' s \<and>
    (\<forall>va. paging_user_translate (Some s) (hmem h') va = None \<and> mmu_walk (hmem h') (us_cr3 s) va = None) \<and>
    (\<forall>b \<in> fst ` heap_live h. keeps_block h h' b) \<and> room h' k n"
proof -
  obtain s h' where c: "paging_create_user_space cpu g0 (Some s0) h = (g, Some s, h', 0)" "room h' k n"
    using create_succeeds [OF assms(1,2,4,5,3)] by blast
  have i: "heap_inv h" using assms(1) by (simp add: room_def)
  have km: "kernel_map h (if g0 = 0 then paging_init cpu else g0)" using assms(3,4) by simp
  have sp: "space_reach h' s" by (rule created [OF i km c(1)])
  from create_spec [OF i km c(1)] have t: "\<forall>va. paging_user_translate (Some s) (hmem h') va = None"
    "\<forall>b \<in> fst ` heap_live h. keeps_block h h' b" by blast+
  have "mmu_walk (hmem h') (us_cr3 s) va = None" for va using t(1) by (simp add: mmu_walk_wired [OF space_reach_inv [OF sp]])
  then show ?thesis using c sp t by blast
qed

text \<open>
  C1. Mapping a page does exactly that: where the address is outside the window or not aligned the call fails and changes
  nothing, and where there is room for one more table it succeeds.  After a success every address of the page translates to the
  same offset in the frame, with the rights that were asked for, and every other address translates as before; after a failure
  every address does.  Blocks outside the space keep their bytes.\<close>
theorem map_user_page:
  assumes "space_reach h s" "page_ok h (phys_ptr phys)" "page_raw (hmem h) (phys_ptr phys) \<notin> ran (block_of s (hmem h))"
    "paging_map_user_page (Some s) va phys flags h = (sp, h', rc)"
  shows "\<exists>s'. sp = Some s' \<and> space_reach h' s' \<and> (rc = 0 \<or> rc = -1) \<and>
    (\<not> (user_window va \<and> va AND 0xfff = 0) \<longrightarrow> rc = -1 \<and> h' = h \<and> s' = s) \<and>
    (user_window va \<and> va AND 0xfff = 0 \<and> room h 1 8264 \<longrightarrow> rc = 0) \<and>
    (\<forall>va'. paging_user_translate (Some s') (hmem h') va' =
      (if rc = 0 \<and> unat va div 4096 = unat va' div 4096
       then Some ((phys AND ATM_PAGE_MASK) OR (va' AND 0xfff),
                  (phys AND ATM_PAGE_MASK) OR ATM_PTE_P OR ATM_PTE_U OR (flags AND ATM_PTE_W) OR (flags AND ATM_PTE_NX))
       else paging_user_translate (Some s) (hmem h) va')) \<and>
    (\<forall>b \<in> fst ` heap_live h - ran (block_of s (hmem h)). keeps_block h h' b)"
proof -
  note inv = space_reach_inv [OF assms(1)]
  obtain s' where s: "sp = Some s'" "rc = 0 \<or> rc = -1" "rc = 0 \<Longrightarrow> user_window va \<and> va AND 0xfff = 0"
    "\<forall>va'. paging_user_translate (Some s') (hmem h') va' =
      (if rc = 0 \<and> same_page va va' then Some ((phys AND ATM_PAGE_MASK) OR (va' AND 0xfff), page_entry phys flags)
       else paging_user_translate (Some s) (hmem h) va')"
    "\<forall>b \<in> fst ` heap_live h - ran (block_of s (hmem h)). keeps_block h h' b"
    by (rule map_spec [OF inv assms(2-4)]) simp
  have r: "space_reach h' s'" by (rule mapped [OF assms(1-3)]) (use assms(4) s(1) in simp)
  have f: "rc = -1" "h' = h" "s' = s" if "\<not> (user_window va \<and> va AND 0xfff = 0)"
    using assms(4) s(1) that by (auto simp: paging_map_user_page_def)
  have ok: "rc = 0" if "user_window va \<and> va AND 0xfff = 0 \<and> room h 1 8264"
    using map_succeeds [of h s va phys flags] space_invD(1) [OF inv] assms(4) that by auto
  show ?thesis by (intro exI [of _ s'] conjI s(1,2,5) r impI f s(4) [unfolded same_page_def page_entry_def]) (assumption | rule ok)+
qed

text \<open>
  C1. Copies to user memory are all or nothing and come back unchanged.  \<open>copy_to_user\<close> succeeds exactly when the whole range
  is in the window and every byte of it is mapped writable; otherwise it leaves memory alone.  After a success
  \<open>copy_from_user\<close> of the range returns the bytes that were written, and memory has changed nowhere but at the physical
  addresses of the range.\<close>
theorem copy_user_roundtrip:
  assumes "space_reach h s" "0 < length bs" "length bs < 2 ^ 64"
    "ok \<longleftrightarrow> user_window dst \<and> unat dst + length bs \<le> 0x48000000 \<and>
      (\<forall>i < length bs. user_access s (hmem h) (dst + word_of_nat i) True)"
  shows "\<exists>m'. copy_to_user (Some s) (hmem h) dst bs = (m', ok) \<and> (\<not> ok \<longrightarrow> m' = hmem h) \<and>
    (ok \<longrightarrow> copy_from_user (Some s) m' dst (length bs) = Some bs) \<and>
    (\<forall>x. m' x \<noteq> hmem h x \<longrightarrow> ok \<and> (\<exists>i < length bs. x = user_phys s (hmem h) (dst + word_of_nat i)))"
  using copy_to_user_spec [OF space_reach_inv [OF assms(1)] assms(2,3), of dst, folded assms(4)] by (cases ok) auto

text \<open>
  C1. \<open>copy_string_from_user\<close> delivers a string exactly when there is one that fits: the bytes from the address to the first
  zero byte are all readable and, with that byte, shorter than the buffer by at least one.  The result is those bytes, the
  zero byte included.\<close>
theorem copy_string_from_user_exact:
  assumes "space_reach h s" "a \<noteq> 0" "dst_size < 2 ^ 64"
  shows "copy_string_from_user (Some s) (hmem h) dst_size a = Some bs \<longleftrightarrow>
    (\<exists>n. n + 1 < dst_size \<and> bs = map (\<lambda>i. hmem h (user_phys s (hmem h) (a + word_of_nat i))) [0 ..< n + 1] \<and>
       (\<forall>i \<le> n. user_access s (hmem h) (a + word_of_nat i) False) \<and> bs ! n = 0 \<and> (\<forall>i < n. bs ! i \<noteq> 0))"
proof -
  have u: "user_string s (hmem h) a n \<and> bs = user_bytes s (hmem h) a (n + 1) \<longleftrightarrow>
      bs = map (\<lambda>i. hmem h (user_phys s (hmem h) (a + word_of_nat i))) [0 ..< n + 1] \<and>
      (\<forall>i \<le> n. user_access s (hmem h) (a + word_of_nat i) False) \<and> bs ! n = 0 \<and> (\<forall>i < n. bs ! i \<noteq> 0)" for n
  proof (cases "bs = user_bytes s (hmem h) a (n + 1)")
    case True
    have "bs ! i = hmem h (user_phys s (hmem h) (a + word_of_nat i))" if "i \<le> n" for i
      using that unfolding True user_bytes_def by (subst nth_map) (simp_all del: upt_Suc)
    then show ?thesis using True by (auto simp: user_string_def user_bytes_def simp del: upt_Suc)
  qed (simp add: user_bytes_def)
  show ?thesis unfolding copy_string_iff [OF space_invD(1) [OF space_reach_inv [OF assms(1)]] assms(3,2)] using u by blast
qed

subsection \<open>A machine\<close>

text \<open>Kernel tables at \<open>0x1000\<close>, \<open>0x2000\<close> and \<open>0x3000\<close>, and a heap of 128 KiB above the first megabyte.\<close>

definition machine_mem :: mem where
  "machine_mem x =
    (if x \<in> {0x1000, 0x2000, 0x2008, 0x2010, 0x2018} then 3 else if x = 0x1001 then 0x20
     else if x \<in> {0x2001, 0x2009, 0x2011, 0x2019} then 0x30 else 0)"

definition machine_boot :: heap where
  "machine_boot = heap_init \<lparr>hmem = machine_mem, heap_start = 0, heap_total = 0\<rparr> 0x100000 0x20000"

lemma machine_boot_heap:
  "heap_inv machine_boot" "heap_blocks machine_boot = [Blk 0x1ffe0 True]" "heap_start machine_boot = 0x100000" "heap_end machine_boot = 0x120000"
  using heap_init_inv [of "0x100000" "0x20000" "\<lparr>hmem = machine_mem, heap_start = 0, heap_total = 0\<rparr>"]
  by (simp_all add: machine_boot_def ALIGN_16 HDR_def heap_init_def heap_end_def Let_def sub64_def add64_def)

lemma machine_room: "room machine_boot 60000 0x1ffe0"
  by (simp add: room_def machine_boot_heap HEAP_WALK_MAX_def)

lemma machine_ent:
  assumes "i < 512" "t + 4096 \<le> 0x100000"
  shows "ent (hmem machine_boot) t i = ent machine_mem t i"
proof (rule ent_same_on [OF _ assms(1)])
  have "{t ..< t + 4096} \<inter> {0x100000 ..< 0x100000 + HDR} = {}" using assms(2) by auto
  then show "same_on {t ..< t + 4096} machine_mem (hmem machine_boot)"
    by (auto simp: machine_boot_def heap_init_def Let_def ALIGN_16 HDR_def intro!: same_on_setI)
qed

lemma ld_8: "ld m a 8 = unat (m a) + 256 * (unat (m (a + 1)) + 256 * ld m (a + 2) 6)"
proof -
  have "ld m a (2 + 6) = ld m a 2 + 256 ^ 2 * ld m (a + 2) 6" by (rule ld_split)
  moreover have "ld m a 2 = unat (m a) + 256 * unat (m (a + 1))" by (simp add: numeral_2_eq_2)
  ultimately show ?thesis by simp
qed

lemma bit_ent: "k < 8 \<Longrightarrow> bit (ent m t i) k = bit (m (t + 8 * i)) k"
proof -
  assume k: "k < 8"
  let ?b = "m (t + 8 * i)"
  have "unat ?b < 256" by (rule order_less_le_trans [OF unsigned_less]) simp
  then have "take_bit 8 (unat ?b + 256 * r) = unat ?b" for r by (simp add: take_bit_eq_mod)
  then have "take_bit 8 (ld m (t + 8 * i) 8) = unat ?b" by (simp only: ld_8)
  then have "bit (ld m (t + 8 * i) 8) k = bit (unat ?b) k" using k bit_take_bit_iff [of 8 "ld m (t + 8 * i) 8" k] by simp
  then show ?thesis using k by (simp add: ent_def bit_of_nat_iff bit_unsigned_iff)
qed

lemma machine_mem_bit: "\<not> bit (machine_mem x) 2"
  by (simp add: machine_mem_def bit_iff_odd)

lemma machine_ent_8:
  assumes "\<And>k. k < 6 \<Longrightarrow> machine_mem (t + 8 * i + 2 + k) = 0"
  shows "ent machine_mem t i = word_of_nat (unat (machine_mem (t + 8 * i)) + 256 * unat (machine_mem (t + 8 * i + 1)))"
proof -
  have "ld machine_mem (t + 8 * i + 2) 6 = 0" 
  proof (rule ld_zero)
    fix x
    assume "t + 8 * i + 2 \<le> x" "x < t + 8 * i + 2 + 6"
    then have "x = t + 8 * i + 2 + (x - (t + 8 * i + 2))" "x - (t + 8 * i + 2) < 6" by simp_all
    then show "machine_mem x = 0" using assms by metis
  qed
  then show ?thesis unfolding ent_def ld_8 by simp
qed

lemma machine_tables:
  "ent machine_mem 0x1000 0 = 0x2003" "i < 4 \<Longrightarrow> ent machine_mem 0x2000 i = 0x3003"
proof -
  show "ent machine_mem 0x1000 0 = 0x2003" by (subst machine_ent_8) (simp_all add: machine_mem_def)
  assume "i < 4"
  then have "i = 0 \<or> i = 1 \<or> i = 2 \<or> i = 3" by arith
  then show "ent machine_mem 0x2000 i = 0x3003" by (elim disjE) (subst machine_ent_8, simp_all add: machine_mem_def)+
qed

lemma machine_kernel: "kernel_map machine_boot 0x1000" "kernel_present (hmem machine_boot) 0x1000"
proof -
  have e: "ent (hmem machine_boot) 0x1000 i = ent machine_mem 0x1000 i" "ent (hmem machine_boot) 0x2000 i = ent machine_mem 0x2000 i"
    "ent (hmem machine_boot) 0x3000 i = ent machine_mem 0x3000 i" if "i < 512" for i using machine_ent [OF that] by simp_all
  have p: "phys_ptr 0x2003 = 0x2000" "phys_ptr 0x3003 = 0x3000" by (simp_all add: phys_ptr_def ATM_PAGE_MASK_def)
  have t3: "phys_ptr (ent (hmem machine_boot) 0x1000 0) = 0x2000" using e(1) [of 0] by (simp add: machine_tables p)
  have t2: "phys_ptr (ent (hmem machine_boot) 0x2000 i) = 0x3000" if "i < 4" for i using e(2) [of i] that by (simp add: machine_tables p)
  have o: "outside_heap machine_boot t" if "t \<le> 0x3000" for t using that by (auto simp: outside_heap_def heap_range_def machine_boot_heap)
  have b: "\<not> bit (ent machine_mem t i) 2" for t i using bit_ent [of 2] machine_mem_bit by simp
  show "kernel_map machine_boot 0x1000" unfolding kernel_map_def t3 Let_def using t2 o e b by (simp add: machine_boot_heap)
  show "kernel_present (hmem machine_boot) 0x1000" unfolding kernel_present_def t3 Let_def using e
    by (simp add: machine_tables ATM_PTE_P_def)
qed

text \<open>A page is allocated, a space is created, and the page is mapped writable at the bottom of the window.\<close>

definition machine_heap :: heap where "machine_heap = fst (page_alloc machine_boot)"
definition machine_frame :: nat where "machine_frame = snd (page_alloc machine_boot)"
definition machine_create :: "nat \<times> user_space_t option \<times> heap \<times> int" where
  "machine_create = paging_create_user_space 0x1000 0 (Some zero_space) machine_heap"
definition machine_space :: user_space_t where "machine_space = the (fst (snd machine_create))"
definition machine_heap1 :: heap where "machine_heap1 = fst (snd (snd machine_create))"
definition machine_map :: "user_space_t option \<times> heap \<times> int" where
  "machine_map = paging_map_user_page (Some machine_space) ATM_USER_BASE (word_of_nat machine_frame) ATM_PTE_W machine_heap1"
definition machine_space2 :: user_space_t where "machine_space2 = the (fst machine_map)"
definition machine_heap2 :: heap where "machine_heap2 = fst (snd machine_map)"

lemma machine_page:
  "room machine_heap 59999 122808" "page_ok machine_heap machine_frame"
  "kernel_map machine_heap 0x1000" "kernel_present (hmem machine_heap) 0x1000"
proof -
  have a: "page_alloc machine_boot = (machine_heap, machine_frame)" by (simp add: machine_heap_def machine_frame_def)
  have "room machine_boot (Suc 59999) (122808 + 8232)" using machine_room by simp
  from page_alloc_room [OF this _ a] have r: "room machine_heap 59999 122808" "machine_frame \<noteq> 0" by simp_all
  note s = page_alloc_spec [OF machine_boot_heap(1) a]
  show "room machine_heap 59999 122808" "page_ok machine_heap machine_frame" using r s(3) by simp_all
  show "kernel_map machine_heap 0x1000" by (rule kernel_map_keeps(1) [OF machine_kernel(1) s(1)])
  show "kernel_present (hmem machine_heap) 0x1000" by (rule kernel_present_keeps [OF machine_kernel s(1)])
qed

lemma machine_init: "(0x1000 :: nat) = (if 0 = (0 :: nat) then paging_init 0x1000 else 0)"
  by (simp add: paging_init_def ATM_PAGE_MASK_def)

lemma machine_created:
  "machine_create = (0x1000, Some machine_space, machine_heap1, 0)" "space_reach machine_heap1 machine_space"
  "paging_user_translate (Some machine_space) (hmem machine_heap1) va = None" "room machine_heap1 1 8264"
  "page_ok machine_heap1 machine_frame"
  "page_raw (hmem machine_heap1) machine_frame \<notin> ran (block_of machine_space (hmem machine_heap1))"
proof -
  have r: "room machine_heap (1 + 7) (8264 + 49936)"
    using machine_page(1) unfolding room_def by (elim conjE exE) (rule conjI, assumption, intro exI conjI, assumption+, simp_all)
  have i: "heap_inv machine_heap" using r by (simp add: room_def)
  obtain s h' where c: "machine_create = (0x1000, Some s, h', 0)" "room h' 1 8264"
    using create_succeeds [OF r _ machine_page(3,4) machine_init, of zero_space] by (auto simp: machine_create_def)
  have sh: "s = machine_space" "h' = machine_heap1" by (simp_all only: machine_space_def machine_heap1_def c(1) fst_conv snd_conv option.sel)
  show mc: "machine_create = (0x1000, Some machine_space, machine_heap1, 0)" "room machine_heap1 1 8264" using c by (simp_all add: sh)
  note cr = mc(1) [unfolded machine_create_def]
  show "space_reach machine_heap1 machine_space" by (rule created [OF i _ cr]) (use machine_page(3) machine_init in simp)
  have km: "kernel_map machine_heap (if (0 :: nat) = 0 then paging_init 0x1000 else 0)" using machine_page(3) machine_init by simp
  from create_spec [OF i km cr] have t: "\<forall>va. paging_user_translate (Some machine_space) (hmem machine_heap1) va = None"
    "\<forall>b. b \<in> fst ` heap_live machine_heap \<longrightarrow> keeps_block machine_heap machine_heap1 b"
    "ran (block_of machine_space (hmem machine_heap1)) \<inter> fst ` heap_live machine_heap = {}" by blast+
  show "paging_user_translate (Some machine_space) (hmem machine_heap1) va = None" using t(1) by blast
  have l: "page_raw (hmem machine_heap) machine_frame \<in> fst ` heap_live machine_heap"
    using machine_page(2) by (force simp: page_ok_def)
  note k = keeps_page [OF machine_page(2) t(2) [rule_format, OF l]]
  show "page_ok machine_heap1 machine_frame" by (rule k)
  show "page_raw (hmem machine_heap1) machine_frame \<notin> ran (block_of machine_space (hmem machine_heap1))"
    unfolding k(1) using l t(3) by blast
qed

lemma machine_frame_phys: "phys_ptr (word_of_nat machine_frame) = machine_frame"
  "word_of_nat machine_frame AND ATM_PAGE_MASK = word_of_nat machine_frame" "machine_frame < 2 ^ 52"
proof -
  note i = space_invD(4,5) [OF space_reach_inv [OF machine_created(2)]]
  note p = page_ok_bounds [OF i machine_created(5)]
  show "word_of_nat machine_frame AND ATM_PAGE_MASK = word_of_nat machine_frame" using p(4) by (simp add: pte_def)
  then show "phys_ptr (word_of_nat machine_frame) = machine_frame" using p(5) by (simp add: phys_ptr_def pte_def)
  show "machine_frame < 2 ^ 52" by (rule p)
qed

lemma machine_base: "user_window ATM_USER_BASE" "ATM_USER_BASE AND 0xfff = 0" "unat ATM_USER_BASE = 0x40000000"
  by (simp_all add: user_window_unat ATM_USER_BASE_def)

lemma machine_entry: "page_entry p ATM_PTE_W AND ATM_PTE_W \<noteq> 0" "page_entry p ATM_PTE_W AND ATM_PTE_NX = 0"
  by (simp_all only: flag_iff bit_page_entry bit_consts simp_thms)

lemma machine_mapped:
  "space_reach machine_heap2 machine_space2"
  "unat va div 4096 = 0x40000 \<Longrightarrow> paging_user_translate (Some machine_space2) (hmem machine_heap2) va =
     Some (word_of_nat machine_frame OR (va AND 0xfff), page_entry (word_of_nat machine_frame) ATM_PTE_W)"
  "unat va div 4096 = 0x40000 \<Longrightarrow> user_access machine_space2 (hmem machine_heap2) va wr"
proof -
  have m: "paging_map_user_page (Some machine_space) ATM_USER_BASE (word_of_nat machine_frame) ATM_PTE_W machine_heap1 =
      (fst machine_map, machine_heap2, snd (snd machine_map))" by (simp add: machine_map_def machine_heap2_def)
  have f: "page_ok machine_heap1 (phys_ptr (word_of_nat machine_frame))"
    "page_raw (hmem machine_heap1) (phys_ptr (word_of_nat machine_frame)) \<notin> ran (block_of machine_space (hmem machine_heap1))"
    using machine_created(5,6) machine_frame_phys(1) by simp_all
  note inv = space_reach_inv [OF machine_created(2)]
  have rc: "snd (snd machine_map) = 0" using map_succeeds [OF machine_created(4) [unfolded One_nat_def] space_invD(1) [OF inv] machine_base(1,2)] m by (metis prod.inject)
  obtain s' where s: "fst machine_map = Some s'"
    "\<forall>va'. paging_user_translate (Some s') (hmem machine_heap2) va' =
      (if snd (snd machine_map) = 0 \<and> same_page ATM_USER_BASE va'
       then Some ((word_of_nat machine_frame AND ATM_PAGE_MASK) OR (va' AND 0xfff), page_entry (word_of_nat machine_frame) ATM_PTE_W)
       else paging_user_translate (Some machine_space) (hmem machine_heap1) va')" by (rule map_spec [OF inv f m]) simp
  have s': "s' = machine_space2" by (simp only: machine_space2_def s(1) option.sel)
  show "space_reach machine_heap2 machine_space2" by (rule mapped [OF machine_created(2) f]) (use m s(1) s' in simp)
  show t: "paging_user_translate (Some machine_space2) (hmem machine_heap2) va =
     Some (word_of_nat machine_frame OR (va AND 0xfff), page_entry (word_of_nat machine_frame) ATM_PTE_W)" if "unat va div 4096 = 0x40000" for va
    using s(2) [rule_format, of va] rc that machine_frame_phys(2) by (simp add: same_page_def machine_base(3) s')
  show "user_access machine_space2 (hmem machine_heap2) va wr" if "unat va div 4096 = 0x40000"
    using t [OF that] machine_entry(1) by (simp add: user_access_def)
qed

lemma machine_range:
  assumes "n \<le> 4096"
  shows "user_window ATM_USER_BASE \<and> unat ATM_USER_BASE + n \<le> 0x48000000 \<and>
    (\<forall>i < n. user_access machine_space2 (hmem machine_heap2) (ATM_USER_BASE + word_of_nat i) wr)"
proof -
  have "user_access machine_space2 (hmem machine_heap2) (ATM_USER_BASE + word_of_nat i) wr" if "i < n" for i
  proof (rule machine_mapped(3))
    have "unat (ATM_USER_BASE + word_of_nat i) = 0x40000 * 4096 + i" using unat_add_page [OF machine_base(1), of i] that assms by (simp add: machine_base(3))
    moreover have "(0x40000 * 4096 + i) div 4096 = 0x40000" using that assms by simp
    ultimately show "unat (ATM_USER_BASE + word_of_nat i) div 4096 = 0x40000" by simp
  qed
  then show ?thesis using machine_base assms by simp
qed

theorem map_user_page_witness:
  "\<exists>s'. fst machine_map = Some s' \<and> snd (snd machine_map) = 0 \<and>
    paging_user_translate (Some s') (hmem machine_heap2) ATM_USER_BASE =
      Some (word_of_nat machine_frame, word_of_nat machine_frame OR ATM_PTE_P OR ATM_PTE_U OR ATM_PTE_W)"
proof -
  have m: "paging_map_user_page (Some machine_space) ATM_USER_BASE (word_of_nat machine_frame) ATM_PTE_W machine_heap1 =
      (fst machine_map, machine_heap2, snd (snd machine_map))" by (simp add: machine_map_def machine_heap2_def)
  have w: "ATM_PTE_W AND ATM_PTE_W = ATM_PTE_W" "ATM_PTE_W AND ATM_PTE_NX = 0" by (simp_all add: ATM_PTE_W_def ATM_PTE_NX_def)
  from map_user_page [OF machine_created(2) _ _ m] machine_created(4-6) machine_frame_phys machine_base w show ?thesis by auto
qed

theorem space_isolation_witness:
  "space_reach machine_heap2 machine_space2 \<and>
   mmu_walk (hmem machine_heap2) (us_cr3 machine_space2) ATM_USER_BASE = Some (word_of_nat machine_frame, True, False)"
proof -
  have "unat ATM_USER_BASE div 4096 = 0x40000" by (simp add: machine_base(3))
  from machine_mapped(2) [OF this] space_isolation [OF machine_mapped(1), of ATM_USER_BASE] show ?thesis
    using machine_mapped(1) machine_entry by (simp add: machine_base(2))
qed

theorem create_user_space_witness:
  "\<exists>s h'. paging_create_user_space 0x1000 0 (Some zero_space) machine_boot = (0x1000, Some s, h', 0) \<and>
    mmu_walk (hmem h') (us_cr3 s) ATM_USER_BASE = None"
proof -
  have r: "room machine_boot (1 + 7) (8264 + 49936)" by (simp add: room_def machine_boot_heap HEAP_WALK_MAX_def)
  from create_user_space [OF r _ machine_init machine_kernel, of zero_space] show ?thesis by auto
qed

theorem copy_user_roundtrip_witness:
  "\<exists>m'. copy_to_user (Some machine_space2) (hmem machine_heap2) ATM_USER_BASE [1, 2, 3] = (m', True) \<and>
    copy_from_user (Some machine_space2) m' ATM_USER_BASE 3 = Some [1, 2, 3]"
proof -
  have "True \<longleftrightarrow> user_window ATM_USER_BASE \<and> unat ATM_USER_BASE + length [1 :: u8, 2, 3] \<le> 0x48000000 \<and>
      (\<forall>i < length [1 :: u8, 2, 3]. user_access machine_space2 (hmem machine_heap2) (ATM_USER_BASE + word_of_nat i) True)"
    using machine_range [of "length [1 :: u8, 2, 3]" True] by simp
  from copy_user_roundtrip [OF machine_mapped(1) _ _ this] show ?thesis by (auto simp: numeral_3_eq_3)
qed

theorem copy_string_from_user_exact_witness:
  "\<exists>m'. copy_to_user (Some machine_space2) (hmem machine_heap2) ATM_USER_BASE [65, 66, 0] = (m', True) \<and>
    copy_string_from_user (Some machine_space2) m' 16 ATM_USER_BASE = Some [65, 66, 0]"
proof -
  let ?s = machine_space2 and ?a = ATM_USER_BASE and ?bs = "[65, 66, 0] :: u8 list"
  note inv = space_reach_inv [OF machine_mapped(1)] and acc = machine_range [of "length ?bs" True]
  from copy_to_user_spec(2) [OF inv, of ?bs ?a] acc obtain m' where
    m': "copy_to_user (Some ?s) (hmem machine_heap2) ?a ?bs = (m', True)" "space_inv (machine_heap2\<lparr>hmem := m'\<rparr>) ?s"
    "copy_from_user (Some ?s) m' ?a (length ?bs) = Some ?bs" by auto
  have r: "space_reach (machine_heap2\<lparr>hmem := m'\<rparr>) ?s" by (rule copied [OF machine_mapped(1) _ m'(1)]) simp
  have a0: "?a \<noteq> 0" by (simp add: ATM_USER_BASE_def)
  have n: "paging_user_range (Some ?s) m' ?a (word_of_nat (length ?bs)) False"
    using m'(3) by (auto simp: copy_from_user_def split: if_splits)
  then have u: "\<forall>i < length ?bs. user_access ?s m' (?a + word_of_nat i) False"
    using user_range_iff [OF space_invD(1) [OF inv], of "length ?bs" m' ?a False] by simp
  then have "user_bytes ?s m' ?a (length ?bs) = ?bs"
    using copy_in_eq [OF space_invD(1) [OF inv] u] m'(3) n by (simp add: copy_from_user_def)
  then have b: "?bs = map (\<lambda>i. m' (user_phys ?s m' (?a + word_of_nat i))) [0 ..< 2 + 1]" by (simp add: user_bytes_def numeral_3_eq_3)
  have "copy_string_from_user (Some ?s) (hmem (machine_heap2\<lparr>hmem := m'\<rparr>)) 16 ?a = Some ?bs"
  proof (rule copy_string_from_user_exact [OF r a0, THEN iffD2])
    have "i = 0 \<or> i = 1 \<or> i = 2" if "i \<le> 2" for i :: nat using that by arith
    moreover have "i = 0 \<or> i = 1" if "i < 2" for i :: nat using that by arith
    ultimately show "\<exists>n. n + 1 < 16 \<and> ?bs = map (\<lambda>i. hmem (machine_heap2\<lparr>hmem := m'\<rparr>) (user_phys ?s (hmem (machine_heap2\<lparr>hmem := m'\<rparr>)) (?a + word_of_nat i))) [0 ..< n + 1] \<and>
       (\<forall>i \<le> n. user_access ?s (hmem (machine_heap2\<lparr>hmem := m'\<rparr>)) (?a + word_of_nat i) False) \<and> ?bs ! n = 0 \<and> (\<forall>i < n. ?bs ! i \<noteq> 0)"
      using b u by (intro exI [of _ 2]) fastforce
  qed simp
  then show ?thesis using m'(1) by auto
qed

end
