(* ===== verification/Spec2Isabelle.thy ===== *)
theory Spec2Isabelle
  imports Kmalloc Run_Queue Native_Pipe Vfs Catfs_Check Catfs_Files Util Net_Tcp Native_Fd Paging
begin

text \<open>
  \<^bold>\<open>ATMKoala: a verification library for the kernel core\<close>

  ATMKoala is a freestanding x86-64 kernel in C.  Its core, under \<^verbatim>\<open>src/src/\<close>, is a heap
  (\<^verbatim>\<open>kmalloc.c\<close>), a scheduler (\<^verbatim>\<open>sched.c\<close>), anonymous pipes that block and wake the
  scheduler's tasks (\<^verbatim>\<open>native_pipe.c\<close>), a virtual file system with a file system in memory
  (\<^verbatim>\<open>vfs.c\<close>), a block file system (\<^verbatim>\<open>catfs.c\<close>), a network stack (\<^verbatim>\<open>net.c\<close>, \<^verbatim>\<open>net_tcp.c\<close>), the
  POSIX layer and the descriptor tables of the tasks above all of these (\<^verbatim>\<open>atm_posix.c\<close>,
  \<^verbatim>\<open>native_fd.c\<close>, \<^verbatim>\<open>native_dir.c\<close>, \<^verbatim>\<open>native_socket.c\<close>), the address spaces of user programs and the
  copies between them and the kernel (\<^verbatim>\<open>paging.c\<close>, \<^verbatim>\<open>uaccess.c\<close>), and a small C library with the
  kernel log (\<^verbatim>\<open>util.c\<close>) that all of them call.  Every C function that is modelled is one definition of
  the same name; structures are records with the fields of the structure, machine integers
  are words, and where a C expression is evaluated on naturals the definition writes the
  truncation out.

  \<^bold>\<open>The theories\<close>

  \<^item> \<^verbatim>\<open>Prelude\<close>: arithmetic on addresses, lists and words that several components share.
  \<^item> \<^verbatim>\<open>CMem\<close>: byte-addressed memory with little-endian loads and stores of 64 bits, and the
    frame lemmas for them.
  \<^item> \<^verbatim>\<open>Kmalloc\<close> (\<^verbatim>\<open>kmalloc.c\<close>): the free-list allocator on \<^verbatim>\<open>CMem\<close>.  The block headers are
    bytes of the memory; the invariant reads the chain of headers as a list of blocks.
    Shown: regions handed out never overlap after any history of calls, what each call
    returns and when it returns null, coalescing, round trips of allocation and release,
    and two defects (a size that wraps, a stale header).
  \<^item> \<^verbatim>\<open>Task\<close> and \<^verbatim>\<open>Run_Queue\<close> (\<^verbatim>\<open>sched.h\<close>, \<^verbatim>\<open>sched.c\<close>): the task table, the linked run queue,
    the tick, sleeping, blocking and waking.  The queue refines a duplicate-free list
    through an interface that is a locale; the invariant holds in every reachable state.
    Liveness is stated both ways: a sleep lasts as long as asked, and with three runnable
    tasks some are never run.
  \<^item> \<^verbatim>\<open>Native_Pipe\<close> (\<^verbatim>\<open>native_pipe.c\<close>): the ring buffer, descriptor maps with reference counts,
    inheritance, blocking reads and writes over \<^verbatim>\<open>Run_Queue\<close>.  The ring refines a bounded
    byte queue; the counts agree with the maps after any history of calls.
  \<^item> \<^verbatim>\<open>Vfs\<close> (\<^verbatim>\<open>vfs.c\<close>): inodes, path resolution with symbolic links, permissions, the
    descriptor table and the file system in memory.  Shown: what an open grants, contents
    after a write, creation and removal, duplication, the end of a cycle of links, and four
    defects.
  \<^item> \<^verbatim>\<open>Catfs\<close>, \<^verbatim>\<open>Catfs_Disk\<close>, \<^verbatim>\<open>Catfs_Check\<close>, \<^verbatim>\<open>Catfs_Files\<close> (\<^verbatim>\<open>catfs.c\<close>, \<^verbatim>\<open>catfs.h\<close>): the layout,
    bitmap, inode table, journal, mount and synchronisation, the consistency check, and the
    files.  Shown: an encoder and decoder for each structure are inverse, what is
    synchronised is what a mount reads, every operation keeps the state well formed, data
    written through direct and indirect blocks is read back and no other file changes, and
    two defects of the journal and the check.
  \<^item> \<^verbatim>\<open>Util\<close> (\<^verbatim>\<open>util.c\<close>, \<^verbatim>\<open>util.h\<close>): memory and string routines, number conversion, formatted
    output and the log ring.  Shown: formatted output is the rendering of the format, cut to
    the buffer, moves with overlap, print and parse of numbers, and that the log keeps the
    last bytes written to it.
  \<^item> \<^verbatim>\<open>Net\<close> (\<^verbatim>\<open>net.c\<close>, \<^verbatim>\<open>pit.c\<close>): byte order, the Internet checksum, sending and polling of frames, the
    cache of addresses, datagrams.  Shown: a datagram that is sent is parsed to the sender and
    the payload.
  \<^item> \<^verbatim>\<open>Net_Tcp\<close> (\<^verbatim>\<open>net_tcp.c\<close>): connections with retransmission, a buffer for segments out of order
    and a congestion window.  Shown: whatever the network delivers, the bytes received are
    the stream of the peer, in order; a segment sent passes the validation; every call
    returns when the timer runs; a defect of the checksum.
  \<^item> \<^verbatim>\<open>Atm_Posix\<close> (\<^verbatim>\<open>atm_posix.c\<close>): paths against the working directory or a directory
    descriptor, and the calls on files.  Shown: the resolution of paths as text is the
    resolution of component lists, positioned transfers keep the offset.
  \<^item> \<^verbatim>\<open>Native_Socket\<close>, \<^verbatim>\<open>Native_Fd\<close> (\<^verbatim>\<open>native_socket.c\<close>, \<^verbatim>\<open>native_fd.c\<close>, \<^verbatim>\<open>native_dir.c\<close>): sockets, the
    descriptor tables and directory streams of the tasks.  Shown: over all histories of
    calls a number stands for one thing and a VFS descriptor or socket belongs to one
    number; a call does not touch the descriptors of other tasks; a task that ends releases
    exactly what it held; and the case of \<^verbatim>\<open>dup2\<close> that breaks this.
  \<^item> \<^verbatim>\<open>Ownership\<close>: injective maps from holders to resources, used by \<^verbatim>\<open>Native_Fd\<close> for descriptors and by
    \<^verbatim>\<open>Paging\<close> for heap blocks.
  \<^item> \<^verbatim>\<open>Paging\<close> (\<^verbatim>\<open>paging.c\<close>, \<^verbatim>\<open>uaccess.c\<close>): page tables as pages of the heap of \<^verbatim>\<open>Kmalloc\<close>, their
    creation, changes and destruction, and the copies to and from user memory.  The walk of
    the processor is a separate specification (\<^verbatim>\<open>mmu_walk\<close>).  Shown: over all histories of a
    space, with user code storing where the processor lets it, the walk agrees with the
    translation of the kernel and reaches only frames of the space; creation succeeds when
    there is memory and starts empty; how every address translates after a mapping;
    copies are all or nothing and round trips; strings are delivered when they fit; a
    destroyed space gives back exactly its blocks (\<^verbatim>\<open>destroy_spec\<close>).

  \<^bold>\<open>How the parts interact\<close>

  Pipes call \<^verbatim>\<open>task_block\<close>, \<^verbatim>\<open>task_wake\<close> and \<^verbatim>\<open>sched_yield\<close>: \<^verbatim>\<open>Native_Pipe\<close> extends the
  scheduler's state record and its histories interleave both.  The record \<^verbatim>\<open>sys\<close> of
  \<^verbatim>\<open>Atm_Posix\<close> joins scheduler and pipes, the VFS and the mounted disk; \<^verbatim>\<open>fdsys\<close> of \<^verbatim>\<open>Native_Socket\<close>
  adds the network and the tables of sockets and directory streams, and the histories of
  \<^verbatim>\<open>Native_Fd\<close> (\<^verbatim>\<open>fd_call\<close>, \<^verbatim>\<open>fd_reach\<close>) interleave the calls of all tasks with the scheduler.
  \<^verbatim>\<open>Paging\<close> works on the heap record of \<^verbatim>\<open>Kmalloc\<close>: its invariant names the live block behind each
  table and frame, and rests on the contracts of allocation and release.  The library keeps
  separate state in the source and a separate record here.

  \<^bold>\<open>Loops, fuel and parameters\<close>

  The heap walk is bounded by the number of headers that fit the heap, and the walks over
  the task list by the size of the task table; the invariants show that the bound is not
  reached.  A loop of the source without a bound of its own is a \<^verbatim>\<open>partial_function (option)\<close>
  with a lemma that it returns.  Whether a disk transfer succeeds is an argument of the
  operations of CatFS (\<^verbatim>\<open>ios\<close>, one answer per transfer); the theorems on a synchronised disk
  name the answers they need.  The frames that the network card shows and the
  timer at each poll are arguments (\<^verbatim>\<open>net_env\<close>); a call that polls returns \<^verbatim>\<open>None\<close> when its loop
  does not end, and \<^verbatim>\<open>clock_ok\<close> states that the timer advances.  A pipe transfer that has to wait
  gives the part of the transfer that is left.  Device access, the console and the interrupt flag are not
  part of any state.

  \<^bold>\<open>Not modelled\<close>

  The decoder in \<^verbatim>\<open>stb_image.h\<close> is third-party code.  Port programming, descriptor tables of the
  processor, context switches and drawing have no functional content that a model without
  the device would keep.  The shells and applications are clients of the core, and the
  self-tests of the components are clients of the operations that the theorems cover.
  Process creation and exit in \<^verbatim>\<open>sched.c\<close>, the system-call dispatcher, the program loader and the
  driver that puts CatFS below the VFS are within reach of the same methods and are the next
  parts of the plan, in this order.
\<close>

end
